(* ===== verification/Kern_Prelude.thy ===== *)
theory Kern_Prelude
  imports Main "HOL-Library.Word"
begin

text \<open>
  Shared vocabulary of the development: the machine integer types of the C sources, the
  error numbers of \<^verbatim>\<open>src/sys/sys/errno.h\<close> that the modelled code returns, the
  \<^theory_text>\<open>named_theorems\<close> collections the component theories fill, and the generic facts on
  words, lists and options that several components use.
\<close>

unbundle bit_operations_syntax

section \<open>Machine integers\<close>

type_synonym u8 = "8 word"
type_synonym u16 = "16 word"
type_synonym u32 = "32 word"
type_synonym u64 = "64 word"

text \<open>
  The two C data models of the ports: \<open>ILP32\<close> (i386, arm, m68k, sparc, vax) has a 32-bit
  \<^verbatim>\<open>size_t\<close>, \<open>LP64\<close> (alpha, amd64, mips64, sparc64) a 64-bit one.
\<close>

datatype data_model = ILP32 | LP64

section \<open>Error numbers\<close>

datatype errno =
    EPERM | ENOENT | EINTR | E2BIG | EBADF | EDEADLK | ENOMEM | EACCES | EEXIST | EINVAL
  | EMFILE | ENFILE | EFBIG | ENOSPC | ERANGE | EAGAIN | EIDRM | EBUSY | ENODEV | ENXIO | EPIPE | EFAULT | ENOTTY | ENOMSG

section \<open>Fact collections\<close>

named_theorems kern_defs "definitions that evaluation of concrete inputs unfolds"
named_theorems kern_inv "preservation of component invariants"

section \<open>Words\<close>

lemma unat_plus_below:
  fixes a b :: "'a::len word"
  assumes "unat a + unat b < 2 ^ LENGTH('a)"
  shows "unat (a + b) = unat a + unat b"
  using assms by (simp add: unat_word_ariths)

lemma unat_minus_below:
  fixes a b :: "'a::len word"
  assumes "b \<le> a"
  shows "unat (a - b) = unat a - unat b"
  using assms by (simp add: unat_sub)

lemma unat_word_of_nat_below:
  "n < 2 ^ LENGTH('a) \<Longrightarrow> unat (word_of_nat n :: 'a::len word) = n"
  by (simp add: unat_of_nat)

lemma unat_plus_no_wrap:
  fixes a b :: "'a::len word"
  assumes "\<not> a + b < a"
  shows "unat (a + b) = unat a + unat b"
  using assms by (simp add: not_less unat_plus_simple)

lemma unat_succ_below:
  fixes a c :: "'a::len word"
  assumes "a < c"
  shows "unat (a + 1) = unat a + 1"
proof -
  have "unat a < unat c" using assms by (simp add: word_less_nat_alt)
  moreover have "unat c < 2 ^ LENGTH('a)" by (rule unsigned_less)
  ultimately have "unat a + 1 < 2 ^ LENGTH('a)" by linarith
  then show ?thesis using unat_plus_below [of a 1] by simp
qed

lemma succ_eq_iff_below:
  fixes a b c :: "'a::len word"
  assumes "a < c"
  shows "a + 1 = b \<longleftrightarrow> unat a + 1 = unat b"
  using unat_succ_below [OF assms] by (simp add: word_unat_eq_iff)

lemma unat_pred_above:
  fixes a c :: "'a::len word"
  assumes "c < a"
  shows "unat (a - 1) = unat a - 1"
proof -
  have "0 < unat a" using assms by (simp add: word_less_nat_alt)
  then have "1 \<le> a" by (simp add: word_le_nat_alt)
  then show ?thesis by (simp add: unat_minus_below)
qed

section \<open>Lists\<close>

lemma nth_concat_Cons:
  "(concat (x # xs)) ! i = (if i < length x then x ! i else concat xs ! (i - length x))"
  by (simp add: nth_append)

end
