(* ===== verification/Mbuf.thy ===== *)
theory Mbuf
  imports Kern_Prelude
begin

text \<open>
  Memory buffers of the network stack (\<^verbatim>\<open>src/sys/kern/uipc_mbuf.c\<close>,
  \<^verbatim>\<open>src/sys/sys/mbuf.h\<close>). A chain linked through \<^verbatim>\<open>m_next\<close> is a list of mbufs, the
  empty list is the null pointer. An mbuf carries the storage area that \<^verbatim>\<open>m_data\<close> points
  into (the internal \<^verbatim>\<open>m_dat\<close>/\<^verbatim>\<open>m_pktdat\<close> array or the external cluster) and the offset of
  \<^verbatim>\<open>m_data\<close> in it, so that the bytes before and after the valid data are part of the model.
\<close>

section \<open>Data\<close>

record mbuf =
  m_area :: "u8 list"
  m_data :: nat
  m_len :: nat

text \<open>The bytes \<^verbatim>\<open>mtod(m)[0 .. m_len)\<close>.\<close>

definition m_bytes :: "'a mbuf_scheme \<Rightarrow> u8 list" where
  "m_bytes m = take (m_len m) (drop (m_data m) (m_area m))"

definition chain_bytes :: "'a mbuf_scheme list \<Rightarrow> u8 list" where
  "chain_bytes ms = concat (map m_bytes ms)"

text \<open>The valid data lies inside the storage area.\<close>

definition mbuf_ok :: "'a mbuf_scheme \<Rightarrow> bool" where
  "mbuf_ok m \<longleftrightarrow> m_data m + m_len m \<le> length (m_area m)"

text \<open>The C expression \<^verbatim>\<open>mtod(m, u_char *)[i]\<close>: \<open>None\<close> outside the storage area.\<close>

definition mtod_at :: "'a mbuf_scheme \<Rightarrow> nat \<Rightarrow> u8 option" where
  "mtod_at m i =
     (if m_data m + i < length (m_area m) then Some (m_area m ! (m_data m + i)) else None)"

text \<open>No mbuf is empty, and only the last may hold fewer than three bytes.\<close>

fun straddle_ok :: "'a mbuf_scheme list \<Rightarrow> bool" where
  "straddle_ok [] = True"
| "straddle_ok [m] = (0 < m_len m)"
| "straddle_ok (m # ms) = (3 \<le> m_len m \<and> straddle_ok ms)"

section \<open>Basic facts\<close>

lemma length_m_bytes [simp]: "mbuf_ok m \<Longrightarrow> length (m_bytes m) = m_len m"
  by (simp add: m_bytes_def mbuf_ok_def)

lemma mtod_at_m_bytes: "mbuf_ok m \<Longrightarrow> i < m_len m \<Longrightarrow> mtod_at m i = Some (m_bytes m ! i)"
  by (simp add: mtod_at_def mbuf_ok_def m_bytes_def)

lemma chain_bytes_Nil [simp]: "chain_bytes [] = []"
  by (simp add: chain_bytes_def)

lemma chain_bytes_Cons [simp]: "chain_bytes (m # ms) = m_bytes m @ chain_bytes ms"
  by (simp add: chain_bytes_def)

lemma chain_bytes_append [simp]: "chain_bytes (ms @ ns) = chain_bytes ms @ chain_bytes ns"
  by (simp add: chain_bytes_def)

lemma length_chain_bytes:
  "list_all mbuf_ok ms \<Longrightarrow> length (chain_bytes ms) = sum_list (map m_len ms)"
  by (induction ms) auto

lemma straddle_ok_tl: "straddle_ok (m # ms) \<Longrightarrow> straddle_ok ms"
  by (cases ms) auto

lemma straddle_ok_pos: "straddle_ok ms \<Longrightarrow> m \<in> set ms \<Longrightarrow> 0 < m_len m"
  by (induction ms rule: straddle_ok.induct) auto

end
