(* ===== verification/Bpf.thy ===== *)
theory Bpf
  imports Mbuf
begin

text \<open>
  The Berkeley packet filter (\<^verbatim>\<open>src/sys/net/bpf_filter.c\<close>): the byte-code interpreter
  \<^verbatim>\<open>bpf_filter\<close>, the mbuf loads \<^verbatim>\<open>bpf_m_xword\<close> and \<^verbatim>\<open>bpf_m_xhalf\<close>, and the checker
  \<^verbatim>\<open>bpf_validate\<close> that the kernel runs on a program before it accepts it.
  Every access the C code makes outside an object (packet, scratch memory, program text) is a
  \<open>Fault\<close> of the model, so that memory safety is a statement about results.
\<close>

section \<open>Instruction encoding\<close>

definition BPF_LD :: u16 where [kern_defs]: "BPF_LD = 0x00"
definition BPF_LDX :: u16 where [kern_defs]: "BPF_LDX = 0x01"
definition BPF_ST :: u16 where [kern_defs]: "BPF_ST = 0x02"
definition BPF_STX :: u16 where [kern_defs]: "BPF_STX = 0x03"
definition BPF_ALU :: u16 where [kern_defs]: "BPF_ALU = 0x04"
definition BPF_JMP :: u16 where [kern_defs]: "BPF_JMP = 0x05"
definition BPF_RET :: u16 where [kern_defs]: "BPF_RET = 0x06"
definition BPF_MISC :: u16 where [kern_defs]: "BPF_MISC = 0x07"
definition BPF_W :: u16 where [kern_defs]: "BPF_W = 0x00"
definition BPF_H :: u16 where [kern_defs]: "BPF_H = 0x08"
definition BPF_B :: u16 where [kern_defs]: "BPF_B = 0x10"
definition BPF_IMM :: u16 where [kern_defs]: "BPF_IMM = 0x00"
definition BPF_ABS :: u16 where [kern_defs]: "BPF_ABS = 0x20"
definition BPF_IND :: u16 where [kern_defs]: "BPF_IND = 0x40"
definition BPF_MEM :: u16 where [kern_defs]: "BPF_MEM = 0x60"
definition BPF_LEN :: u16 where [kern_defs]: "BPF_LEN = 0x80"
definition BPF_MSH :: u16 where [kern_defs]: "BPF_MSH = 0xa0"
definition BPF_ADD :: u16 where [kern_defs]: "BPF_ADD = 0x00"
definition BPF_SUB :: u16 where [kern_defs]: "BPF_SUB = 0x10"
definition BPF_MUL :: u16 where [kern_defs]: "BPF_MUL = 0x20"
definition BPF_DIV :: u16 where [kern_defs]: "BPF_DIV = 0x30"
definition BPF_OR :: u16 where [kern_defs]: "BPF_OR = 0x40"
definition BPF_AND :: u16 where [kern_defs]: "BPF_AND = 0x50"
definition BPF_LSH :: u16 where [kern_defs]: "BPF_LSH = 0x60"
definition BPF_RSH :: u16 where [kern_defs]: "BPF_RSH = 0x70"
definition BPF_NEG :: u16 where [kern_defs]: "BPF_NEG = 0x80"
definition BPF_JA :: u16 where [kern_defs]: "BPF_JA = 0x00"
definition BPF_JEQ :: u16 where [kern_defs]: "BPF_JEQ = 0x10"
definition BPF_JGT :: u16 where [kern_defs]: "BPF_JGT = 0x20"
definition BPF_JGE :: u16 where [kern_defs]: "BPF_JGE = 0x30"
definition BPF_JSET :: u16 where [kern_defs]: "BPF_JSET = 0x40"
definition BPF_K :: u16 where [kern_defs]: "BPF_K = 0x00"
definition BPF_X :: u16 where [kern_defs]: "BPF_X = 0x08"
definition BPF_A :: u16 where [kern_defs]: "BPF_A = 0x10"
definition BPF_TAX :: u16 where [kern_defs]: "BPF_TAX = 0x00"
definition BPF_TXA :: u16 where [kern_defs]: "BPF_TXA = 0x80"

definition BPF_CLASS :: "u16 \<Rightarrow> u16" where [kern_defs]: "BPF_CLASS c = c AND 0x07"
definition BPF_MODE :: "u16 \<Rightarrow> u16" where [kern_defs]: "BPF_MODE c = c AND 0xe0"
definition BPF_OP :: "u16 \<Rightarrow> u16" where [kern_defs]: "BPF_OP c = c AND 0xf0"
definition BPF_RVAL :: "u16 \<Rightarrow> u16" where [kern_defs]: "BPF_RVAL c = c AND 0x18"

definition BPF_MAXINSNS :: nat where [kern_defs]: "BPF_MAXINSNS = 512"
definition BPF_MEMWORDS :: nat where [kern_defs]: "BPF_MEMWORDS = 16"

record bpf_insn =
  code :: u16
  jt :: u8
  jf :: u8
  bk :: u32

section \<open>Packet access\<close>

datatype bpf_fault = PacketOut | ScratchOut | TextOut | DivideByZero | NullPointer | BadCast

text \<open>A packet load yields a value, makes the filter return 0, or faults.\<close>

datatype bpf_access = Got u32 | Reject | Bad bpf_fault

text \<open>
  The argument \<^verbatim>\<open>p\<close> of \<^verbatim>\<open>bpf_filter\<close> is a byte buffer when \<^verbatim>\<open>buflen\<close> is not 0, and an
  mbuf chain cast to a byte pointer when it is.
\<close>

datatype bpf_data = Buffer "u8 list" | Chain "mbuf list"

definition be16 :: "u8 \<Rightarrow> u8 \<Rightarrow> u32" where
  "be16 b0 b1 = (push_bit 8 (ucast b0)) OR ucast b1"

definition be32 :: "u8 \<Rightarrow> u8 \<Rightarrow> u8 \<Rightarrow> u8 \<Rightarrow> u32" where
  "be32 b0 b1 b2 b3 =
     (((push_bit 24 (ucast b0)) OR (push_bit 16 (ucast b1))) OR (push_bit 8 (ucast b2))) OR ucast b3"

text \<open>Assembling a load from byte reads, any of which may be outside its object.\<close>

definition short_of :: "u8 option \<Rightarrow> u8 option \<Rightarrow> bpf_access" where
  "short_of r0 r1 = (case (r0, r1) of (Some b0, Some b1) \<Rightarrow> Got (be16 b0 b1) | _ \<Rightarrow> Bad PacketOut)"

definition long_of :: "u8 option \<Rightarrow> u8 option \<Rightarrow> u8 option \<Rightarrow> u8 option \<Rightarrow> bpf_access" where
  "long_of r0 r1 r2 r3 =
     (case (r0, r1, r2, r3) of
        (Some b0, Some b1, Some b2, Some b3) \<Rightarrow> Got (be32 b0 b1 b2 b3)
      | _ \<Rightarrow> Bad PacketOut)"

definition EXTRACT_SHORT :: "(nat \<Rightarrow> u8 option) \<Rightarrow> nat \<Rightarrow> bpf_access" where
  "EXTRACT_SHORT rd k = short_of (rd k) (rd (k + 1))"

definition EXTRACT_LONG :: "(nat \<Rightarrow> u8 option) \<Rightarrow> nat \<Rightarrow> bpf_access" where
  "EXTRACT_LONG rd k = long_of (rd k) (rd (k + 1)) (rd (k + 2)) (rd (k + 3))"

definition EXTRACT_BYTE :: "(nat \<Rightarrow> u8 option) \<Rightarrow> nat \<Rightarrow> bpf_access" where
  "EXTRACT_BYTE rd k = (case rd k of Some b \<Rightarrow> Got (ucast b) | None \<Rightarrow> Bad PacketOut)"

text \<open>The macro \<^verbatim>\<open>MINDEX\<close>: the mbuf that holds byte \<open>k\<close> of the chain and the offset in it.\<close>

fun MINDEX :: "mbuf list \<Rightarrow> nat \<Rightarrow> (mbuf \<times> mbuf list \<times> nat) option" where
  "MINDEX [] k = None"
| "MINDEX (m # ms) k = (if m_len m \<le> k then MINDEX ms (k - m_len m) else Some (m, ms, k))"

definition bpf_m_xword :: "mbuf list \<Rightarrow> nat \<Rightarrow> bpf_access" where
  "bpf_m_xword m0 k0 =
     (case MINDEX m0 k0 of
        None \<Rightarrow> Reject
      | Some (m, ms, k) \<Rightarrow>
          let len = m_len m in
          if k + 4 \<le> len then EXTRACT_LONG (mtod_at m) k
          else case ms of
              [] \<Rightarrow> Reject
            | n # _ \<Rightarrow>
                if m_len n + len - k < 4 then Reject
                else if len - k = 1 then
                  long_of (mtod_at m k) (mtod_at n 0) (mtod_at n 1) (mtod_at n 2)
                else if len - k = 2 then
                  long_of (mtod_at m k) (mtod_at m (k + 1)) (mtod_at n 0) (mtod_at n 1)
                else
                  long_of (mtod_at m k) (mtod_at m (k + 1)) (mtod_at m (k + 2)) (mtod_at n 0))"

definition bpf_m_xhalf :: "mbuf list \<Rightarrow> nat \<Rightarrow> bpf_access" where
  "bpf_m_xhalf m0 k0 =
     (case MINDEX m0 k0 of
        None \<Rightarrow> Reject
      | Some (m, ms, k) \<Rightarrow>
          let len = m_len m in
          if k + 2 \<le> len then EXTRACT_SHORT (mtod_at m) k
          else case ms of
              [] \<Rightarrow> Reject
            | n # _ \<Rightarrow> short_of (mtod_at m k) (mtod_at n 0))"

definition bpf_m_byte :: "mbuf list \<Rightarrow> nat \<Rightarrow> bpf_access" where
  "bpf_m_byte m0 k0 =
     (case MINDEX m0 k0 of None \<Rightarrow> Reject | Some (m, ms, k) \<Rightarrow> EXTRACT_BYTE (mtod_at m) k)"

text \<open>
  The comparison \<^verbatim>\<open>k + sizeof(int32_t) > buflen\<close>: the sum has type \<^verbatim>\<open>size_t\<close>, so it wraps at
  \<open>2 ^ 32\<close> under \<^const>\<open>ILP32\<close> and is exact under \<^const>\<open>LP64\<close>.
\<close>

fun size_add :: "data_model \<Rightarrow> u32 \<Rightarrow> nat \<Rightarrow> nat" where
  "size_add ILP32 k n = unat (k + of_nat n)"
| "size_add LP64 k n = unat k + n"

definition as_buffer :: "bpf_data \<Rightarrow> ((nat \<Rightarrow> u8 option) \<Rightarrow> bpf_access) \<Rightarrow> bpf_access" where
  "as_buffer p f =
     (case p of
        Buffer bs \<Rightarrow> f (\<lambda>i. if i < length bs then Some (bs ! i) else None)
      | Chain _ \<Rightarrow> Bad BadCast)"

definition as_chain :: "bpf_data \<Rightarrow> (mbuf list \<Rightarrow> bpf_access) \<Rightarrow> bpf_access" where
  "as_chain p f =
     (case p of
        Buffer _ \<Rightarrow> Bad BadCast
      | Chain ms \<Rightarrow> (if ms = [] then Bad NullPointer else f ms))"

definition bpf_ld_w :: "data_model \<Rightarrow> bpf_data \<Rightarrow> u32 \<Rightarrow> u32 \<Rightarrow> bpf_access" where
  "bpf_ld_w dm p buflen k =
     (if unat buflen < size_add dm k 4 then
        (if buflen \<noteq> 0 then Reject else as_chain p (\<lambda>m. bpf_m_xword m (unat k)))
      else as_buffer p (\<lambda>rd. EXTRACT_LONG rd (unat k)))"

definition bpf_ld_h :: "data_model \<Rightarrow> bpf_data \<Rightarrow> u32 \<Rightarrow> u32 \<Rightarrow> bpf_access" where
  "bpf_ld_h dm p buflen k =
     (if unat buflen < size_add dm k 2 then
        (if buflen \<noteq> 0 then Reject else as_chain p (\<lambda>m. bpf_m_xhalf m (unat k)))
      else as_buffer p (\<lambda>rd. EXTRACT_SHORT rd (unat k)))"

definition bpf_ld_b :: "bpf_data \<Rightarrow> u32 \<Rightarrow> u32 \<Rightarrow> bpf_access" where
  "bpf_ld_b p buflen k =
     (if buflen \<le> k then
        (if buflen \<noteq> 0 then Reject else as_chain p (\<lambda>m. bpf_m_byte m (unat k)))
      else as_buffer p (\<lambda>rd. EXTRACT_BYTE rd (unat k)))"

section \<open>The interpreter\<close>

text \<open>
  What the C standard leaves to the machine: the width of \<^verbatim>\<open>size_t\<close>, and the value of a shift
  of a 32-bit operand by 32 or more.
\<close>

record bpf_machine =
  size_model :: data_model
  shl_wide :: "u32 \<Rightarrow> u32 \<Rightarrow> u32"
  shr_wide :: "u32 \<Rightarrow> u32 \<Rightarrow> u32"

record bpf_state =
  pc :: nat
  accA :: u32
  regX :: u32
  mem :: "u32 list"

datatype bpf_result = Next bpf_state | Return u32 | Fault bpf_fault

definition load_into :: "(u32 \<Rightarrow> bpf_state) \<Rightarrow> bpf_access \<Rightarrow> bpf_result" where
  "load_into upd a = (case a of Got v \<Rightarrow> Next (upd v) | Reject \<Rightarrow> Return 0 | Bad f \<Rightarrow> Fault f)"

definition mem_read :: "u32 list \<Rightarrow> u32 \<Rightarrow> (u32 \<Rightarrow> bpf_state) \<Rightarrow> bpf_result" where
  "mem_read ws k upd =
     (if unat k < length ws then Next (upd (ws ! unat k)) else Fault ScratchOut)"

definition mem_write :: "bpf_state \<Rightarrow> u32 \<Rightarrow> u32 \<Rightarrow> bpf_result" where
  "mem_write s k v =
     (if unat k < length (mem s) then Next (s\<lparr>mem := (mem s)[unat k := v]\<rparr>) else Fault ScratchOut)"

text \<open>
  The cases of the switch, in three groups. Each takes the state with the program counter
  already advanced by the \<^verbatim>\<open>++pc\<close> of the next round; \<open>None\<close> means that the code is not one of
  the group.
\<close>

definition bpf_load ::
    "data_model \<Rightarrow> bpf_data \<Rightarrow> u32 \<Rightarrow> u32 \<Rightarrow> bpf_insn \<Rightarrow> bpf_state \<Rightarrow> bpf_result option" where
  "bpf_load dm p wirelen buflen ins s =
     (let c = code ins; k = bk ins; toA = (\<lambda>v. s\<lparr>accA := v\<rparr>); toX = (\<lambda>v. s\<lparr>regX := v\<rparr>) in
      if c = BPF_LD OR BPF_W OR BPF_ABS then Some (load_into toA (bpf_ld_w dm p buflen k))
      else if c = BPF_LD OR BPF_H OR BPF_ABS then Some (load_into toA (bpf_ld_h dm p buflen k))
      else if c = BPF_LD OR BPF_B OR BPF_ABS then Some (load_into toA (bpf_ld_b p buflen k))
      else if c = BPF_LD OR BPF_W OR BPF_LEN then Some (Next (toA wirelen))
      else if c = BPF_LDX OR BPF_W OR BPF_LEN then Some (Next (toX wirelen))
      else if c = BPF_LD OR BPF_W OR BPF_IND then
        Some (load_into toA (bpf_ld_w dm p buflen (regX s + k)))
      else if c = BPF_LD OR BPF_H OR BPF_IND then
        Some (load_into toA (bpf_ld_h dm p buflen (regX s + k)))
      else if c = BPF_LD OR BPF_B OR BPF_IND then
        Some (load_into toA (bpf_ld_b p buflen (regX s + k)))
      else if c = BPF_LDX OR BPF_MSH OR BPF_B then
        Some (load_into (\<lambda>v. toX (push_bit 2 (v AND 0xf))) (bpf_ld_b p buflen k))
      else if c = BPF_LD OR BPF_IMM then Some (Next (toA k))
      else if c = BPF_LDX OR BPF_IMM then Some (Next (toX k))
      else if c = BPF_LD OR BPF_MEM then Some (mem_read (mem s) k toA)
      else if c = BPF_LDX OR BPF_MEM then Some (mem_read (mem s) k toX)
      else if c = BPF_ST then Some (mem_write s k (accA s))
      else if c = BPF_STX then Some (mem_write s k (regX s))
      else None)"

definition bpf_jump :: "bpf_insn \<Rightarrow> bpf_state \<Rightarrow> bpf_result option" where
  "bpf_jump ins s =
     (let c = code ins; k = bk ins; A = accA s; X = regX s;
          go = (\<lambda>b. Some (Next (s\<lparr>pc := pc s + (if b then unat (jt ins) else unat (jf ins))\<rparr>))) in
      if c = BPF_JMP OR BPF_JA then Some (Next (s\<lparr>pc := pc s + unat k\<rparr>))
      else if c = BPF_JMP OR BPF_JGT OR BPF_K then go (A > k)
      else if c = BPF_JMP OR BPF_JGE OR BPF_K then go (A \<ge> k)
      else if c = BPF_JMP OR BPF_JEQ OR BPF_K then go (A = k)
      else if c = BPF_JMP OR BPF_JSET OR BPF_K then go (A AND k \<noteq> 0)
      else if c = BPF_JMP OR BPF_JGT OR BPF_X then go (A > X)
      else if c = BPF_JMP OR BPF_JGE OR BPF_X then go (A \<ge> X)
      else if c = BPF_JMP OR BPF_JEQ OR BPF_X then go (A = X)
      else if c = BPF_JMP OR BPF_JSET OR BPF_X then go (A AND X \<noteq> 0)
      else None)"

definition bpf_shl :: "bpf_machine \<Rightarrow> u32 \<Rightarrow> u32 \<Rightarrow> u32" where
  "bpf_shl mach a n = (if n < 32 then push_bit (unat n) a else shl_wide mach a n)"

definition bpf_shr :: "bpf_machine \<Rightarrow> u32 \<Rightarrow> u32 \<Rightarrow> u32" where
  "bpf_shr mach a n = (if n < 32 then drop_bit (unat n) a else shr_wide mach a n)"

definition bpf_alu :: "bpf_machine \<Rightarrow> bpf_insn \<Rightarrow> bpf_state \<Rightarrow> bpf_result option" where
  "bpf_alu mach ins s =
     (let c = code ins; k = bk ins; A = accA s; X = regX s; toA = (\<lambda>v. Some (Next (s\<lparr>accA := v\<rparr>))) in
      if c = BPF_ALU OR BPF_ADD OR BPF_X then toA (A + X)
      else if c = BPF_ALU OR BPF_SUB OR BPF_X then toA (A - X)
      else if c = BPF_ALU OR BPF_MUL OR BPF_X then toA (A * X)
      else if c = BPF_ALU OR BPF_DIV OR BPF_X then (if X = 0 then Some (Return 0) else toA (A div X))
      else if c = BPF_ALU OR BPF_AND OR BPF_X then toA (A AND X)
      else if c = BPF_ALU OR BPF_OR OR BPF_X then toA (A OR X)
      else if c = BPF_ALU OR BPF_LSH OR BPF_X then toA (bpf_shl mach A X)
      else if c = BPF_ALU OR BPF_RSH OR BPF_X then toA (bpf_shr mach A X)
      else if c = BPF_ALU OR BPF_ADD OR BPF_K then toA (A + k)
      else if c = BPF_ALU OR BPF_SUB OR BPF_K then toA (A - k)
      else if c = BPF_ALU OR BPF_MUL OR BPF_K then toA (A * k)
      else if c = BPF_ALU OR BPF_DIV OR BPF_K then
        (if k = 0 then Some (Fault DivideByZero) else toA (A div k))
      else if c = BPF_ALU OR BPF_AND OR BPF_K then toA (A AND k)
      else if c = BPF_ALU OR BPF_OR OR BPF_K then toA (A OR k)
      else if c = BPF_ALU OR BPF_LSH OR BPF_K then toA (bpf_shl mach A k)
      else if c = BPF_ALU OR BPF_RSH OR BPF_K then toA (bpf_shr mach A k)
      else if c = BPF_ALU OR BPF_NEG then toA (- A)
      else if c = BPF_MISC OR BPF_TAX then Some (Next (s\<lparr>regX := A\<rparr>))
      else if c = BPF_MISC OR BPF_TXA then toA X
      else None)"

text \<open>One round of the loop; the last case is the kernel's \<^verbatim>\<open>default\<close>.\<close>

definition bpf_step ::
    "bpf_machine \<Rightarrow> bpf_insn list \<Rightarrow> bpf_data \<Rightarrow> u32 \<Rightarrow> u32 \<Rightarrow> bpf_state \<Rightarrow> bpf_result" where
  "bpf_step mach f p wirelen buflen s =
     (if length f \<le> pc s then Fault TextOut
      else
        let ins = f ! pc s; s' = s\<lparr>pc := pc s + 1\<rparr> in
        if code ins = BPF_RET OR BPF_K then Return (bk ins)
        else if code ins = BPF_RET OR BPF_A then Return (accA s)
        else case bpf_load (size_model mach) p wirelen buflen ins s' of
            Some r \<Rightarrow> r
          | None \<Rightarrow>
             (case bpf_jump ins s' of
                Some r \<Rightarrow> r
              | None \<Rightarrow> (case bpf_alu mach ins s' of Some r \<Rightarrow> r | None \<Rightarrow> Return 0)))"

fun bpf_run ::
    "nat \<Rightarrow> bpf_machine \<Rightarrow> bpf_insn list \<Rightarrow> bpf_data \<Rightarrow> u32 \<Rightarrow> u32 \<Rightarrow> bpf_state \<Rightarrow> bpf_result option" where
  "bpf_run 0 mach f p wirelen buflen s = None"
| "bpf_run (Suc n) mach f p wirelen buflen s =
     (case bpf_step mach f p wirelen buflen s of
        Next s' \<Rightarrow> bpf_run n mach f p wirelen buflen s'
      | r \<Rightarrow> Some r)"

text \<open>
  \<^verbatim>\<open>bpf_filter\<close>: a null program accepts everything. The scratch memory is an uninitialised
  automatic array in the source, so its contents \<open>mem0\<close> are an argument.
\<close>

definition bpf_filter ::
    "nat \<Rightarrow> bpf_machine \<Rightarrow> bpf_insn list option \<Rightarrow> bpf_data \<Rightarrow> u32 \<Rightarrow> u32 \<Rightarrow> u32 list \<Rightarrow> bpf_result option" where
  "bpf_filter fuel mach prog p wirelen buflen mem0 =
     (case prog of
        None \<Rightarrow> Some (Return (- 1))
      | Some f \<Rightarrow>
          bpf_run fuel mach f p wirelen buflen \<lparr>pc = 0, accA = 0, regX = 0, mem = mem0\<rparr>)"

section \<open>The checker\<close>

text \<open>The body of the loop of \<^verbatim>\<open>bpf_validate\<close> for instruction \<open>i\<close> of a program of \<open>len\<close>.\<close>

definition bpf_check_insn :: "u32 \<Rightarrow> nat \<Rightarrow> nat \<Rightarrow> bpf_insn \<Rightarrow> bool" where
  "bpf_check_insn bpf_maxbufsize len i p =
     (let c = code p; k = bk p; from = word_of_nat (i + 1) :: u32 in
      if BPF_CLASS c \<in> {BPF_LD, BPF_LDX} then
        (if BPF_MODE c = BPF_IMM then True
         else if BPF_MODE c \<in> {BPF_ABS, BPF_IND, BPF_MSH} then \<not> k \<ge> bpf_maxbufsize
         else if BPF_MODE c = BPF_MEM then \<not> unat k \<ge> BPF_MEMWORDS
         else if BPF_MODE c = BPF_LEN then True
         else False)
      else if BPF_CLASS c \<in> {BPF_ST, BPF_STX} then \<not> unat k \<ge> BPF_MEMWORDS
      else if BPF_CLASS c = BPF_ALU then
        (if BPF_OP c \<in> {BPF_ADD, BPF_SUB, BPF_MUL, BPF_OR, BPF_AND, BPF_LSH, BPF_RSH, BPF_NEG} then True
         else if BPF_OP c = BPF_DIV then \<not> (BPF_RVAL c = BPF_K \<and> k = 0)
         else False)
      else if BPF_CLASS c = BPF_JMP then
        (if BPF_OP c = BPF_JA then \<not> (from + k < from \<or> from + k \<ge> word_of_nat len)
         else if BPF_OP c \<in> {BPF_JEQ, BPF_JGT, BPF_JGE, BPF_JSET} then
           \<not> (from + ucast (jt p) \<ge> word_of_nat len \<or> from + ucast (jf p) \<ge> word_of_nat len)
         else False)
      else BPF_CLASS c = BPF_RET \<or> BPF_CLASS c = BPF_MISC)"

definition bpf_validate :: "u32 \<Rightarrow> bpf_insn list \<Rightarrow> bool" where
  "bpf_validate bpf_maxbufsize f =
     (let len = length f in
      if len < 1 \<or> len > BPF_MAXINSNS then False
      else
        list_all (\<lambda>i. bpf_check_insn bpf_maxbufsize len i (f ! i)) [0..<len]
        \<and> BPF_CLASS (code (f ! (len - 1))) = BPF_RET)"

section \<open>Packet loads\<close>

subsection \<open>The contract of a packet reader\<close>

text \<open>
  What the interpreter relies on: the three loads read the big-endian words of one byte string,
  and reject an offset whose operand does not lie in it.
\<close>

locale packet_loads =
  fixes invar :: "'p \<Rightarrow> bool"
    and bytes :: "'p \<Rightarrow> u8 list"
    and ldw :: "'p \<Rightarrow> u32 \<Rightarrow> bpf_access"
    and ldh :: "'p \<Rightarrow> u32 \<Rightarrow> bpf_access"
    and ldb :: "'p \<Rightarrow> u32 \<Rightarrow> bpf_access"
  assumes ldw: "invar p \<Longrightarrow> ldw p k =
      (let i = unat k; bs = bytes p in
       if i + 4 \<le> length bs then Got (be32 (bs ! i) (bs ! (i + 1)) (bs ! (i + 2)) (bs ! (i + 3)))
       else Reject)"
    and ldh: "invar p \<Longrightarrow> ldh p k =
      (let i = unat k; bs = bytes p in
       if i + 2 \<le> length bs then Got (be16 (bs ! i) (bs ! (i + 1))) else Reject)"
    and ldb: "invar p \<Longrightarrow> ldb p k =
      (let i = unat k; bs = bytes p in if i < length bs then Got (ucast (bs ! i)) else Reject)"
begin

lemma never_bad:
  assumes "invar p"
  shows "ldw p k \<noteq> Bad e" and "ldh p k \<noteq> Bad e" and "ldb p k \<noteq> Bad e"
  using assms by (simp_all add: ldw ldh ldb Let_def)

end

subsection \<open>Byte buffers\<close>

definition buffer_ok :: "u8 list \<times> u32 \<Rightarrow> bool" where
  "buffer_ok b \<longleftrightarrow> snd b \<noteq> 0 \<and> unat (snd b) \<le> length (fst b)"

definition buffer_bytes :: "u8 list \<times> u32 \<Rightarrow> u8 list" where
  "buffer_bytes b = take (unat (snd b)) (fst b)"

interpretation buf: packet_loads buffer_ok buffer_bytes
    "\<lambda>b. bpf_ld_w LP64 (Buffer (fst b)) (snd b)"
    "\<lambda>b. bpf_ld_h LP64 (Buffer (fst b)) (snd b)"
    "\<lambda>b. bpf_ld_b (Buffer (fst b)) (snd b)"
  by unfold_locales
    (auto simp: buffer_ok_def buffer_bytes_def bpf_ld_w_def bpf_ld_h_def bpf_ld_b_def as_buffer_def
      EXTRACT_LONG_def EXTRACT_SHORT_def EXTRACT_BYTE_def long_of_def short_of_def Let_def
      word_le_nat_alt)

subsection \<open>Mbuf chains\<close>

text \<open>Every mbuf has its data, and at least one byte of storage, inside its area.\<close>

definition chain_safe :: "mbuf list \<Rightarrow> bool" where
  "chain_safe ms \<longleftrightarrow> ms \<noteq> [] \<and> list_all (\<lambda>m. mbuf_ok m \<and> m_data m < length (m_area m)) ms"

text \<open>Chains whose words can be loaded by looking at two consecutive mbufs.\<close>

definition chain_ok :: "mbuf list \<Rightarrow> bool" where
  "chain_ok ms \<longleftrightarrow> ms \<noteq> [] \<and> list_all mbuf_ok ms \<and> straddle_ok ms"

text \<open>\<^const>\<open>MINDEX\<close> locates a byte: the bytes from there on are a suffix of the chain.\<close>

lemma MINDEX_Some:
  assumes "MINDEX ms0 k0 = Some (m, ms, k)" and "list_all mbuf_ok ms0"
  shows "k < m_len m \<and> m \<in> set ms0 \<and> set ms \<subseteq> set ms0
    \<and> drop k (m_bytes m) @ chain_bytes ms = drop k0 (chain_bytes ms0)
    \<and> (straddle_ok ms0 \<longrightarrow> straddle_ok (m # ms))"
  using assms
proof (induction ms0 k0 rule: MINDEX.induct)
  case (1 k)
  then show ?case by simp
next
  case (2 n ms0 k0)
  then show ?case
    by (auto split: if_splits dest: straddle_ok_tl)
qed

lemma MINDEX_None:
  "MINDEX ms k = None \<longleftrightarrow> length (chain_bytes ms) \<le> k" if "list_all mbuf_ok ms"
  using that by (induction ms k rule: MINDEX.induct) auto

lemma long_of_Some [simp]:
  "long_of (Some a) (Some b) (Some c) (Some d) = Got (be32 a b c d)"
  by (simp add: long_of_def)

lemma short_of_Some [simp]: "short_of (Some a) (Some b) = Got (be16 a b)"
  by (simp add: short_of_def)

lemma mtod_at_drop:
  assumes "mbuf_ok m" and "k + j < m_len m"
  shows "mtod_at m (k + j) = Some ((drop k (m_bytes m) @ ys) ! j)"
  using assms by (auto simp: mtod_at_m_bytes nth_append)

lemma mtod_at_next:
  assumes "mbuf_ok n" and "j < m_len n" and "length a = r"
  shows "mtod_at n j = Some ((a @ chain_bytes (n # ns)) ! (r + j))"
  using assms by (auto simp: mtod_at_m_bytes nth_append)

lemma short_straddle:
  assumes "straddle_ok (m # n # ns)" and "list_all mbuf_ok (n # ns)" and "m_len n < 3"
  shows "chain_bytes (n # ns) = m_bytes n"
  using assms by (cases ns) auto

text \<open>
  The position \<^const>\<open>MINDEX\<close> finds, as the suffix \<open>S\<close> of the chain's bytes that starts there:
  its length, its elements, and the reads of the two mbufs it begins with.
\<close>

lemma MINDEX_suffix:
  assumes "chain_ok ms0" and "MINDEX ms0 i = Some (m, ms, k)"
  defines "S \<equiv> drop k (m_bytes m) @ chain_bytes ms"
  shows "mbuf_ok m" and "k < m_len m" and "list_all mbuf_ok ms" and "straddle_ok (m # ms)"
    and "n \<le> length S \<longleftrightarrow> i + n \<le> length (chain_bytes ms0) \<or> n = 0"
    and "j < length S \<Longrightarrow> chain_bytes ms0 ! (i + j) = S ! j"
    and "j < m_len m - k \<Longrightarrow> mtod_at m (k + j) = Some (S ! j)"
    and "length S = m_len m - k + length (chain_bytes ms)"
proof -
  from assms(1,2) show m: "mbuf_ok m" and k: "k < m_len m" and "list_all mbuf_ok ms"
    and "straddle_ok (m # ms)"
    using MINDEX_Some [OF assms(2)] by (auto simp: chain_ok_def list_all_iff)
  from assms(1) have S: "drop i (chain_bytes ms0) = S"
    using MINDEX_Some [OF assms(2)] by (simp add: S_def chain_ok_def)
  from m k show L: "length S = m_len m - k + length (chain_bytes ms)" by (simp add: S_def)
  show "n \<le> length S \<longleftrightarrow> i + n \<le> length (chain_bytes ms0) \<or> n = 0"
    using arg_cong [OF S, of length] k L by (simp only: length_drop) linarith
  show "chain_bytes ms0 ! (i + j) = S ! j" if "j < length S"
    using S that by auto
  show "mtod_at m (k + j) = Some (S ! j)" if "j < m_len m - k"
    using mtod_at_drop [OF m] that by (simp add: S_def)
qed

lemma bpf_m_xword_correct:
  assumes "chain_ok ms0"
  shows "bpf_m_xword ms0 i =
    (let bs = chain_bytes ms0 in
     if i + 4 \<le> length bs then Got (be32 (bs ! i) (bs ! (i + 1)) (bs ! (i + 2)) (bs ! (i + 3)))
     else Reject)"
proof (cases "MINDEX ms0 i")
  case None
  with assms have "length (chain_bytes ms0) \<le> i" by (simp add: chain_ok_def MINDEX_None)
  with None show ?thesis by (simp add: bpf_m_xword_def Let_def)
next
  case (Some r)
  then obtain m ms k where r: "MINDEX ms0 i = Some (m, ms, k)" by (cases r) auto
  define S where "S = drop k (m_bytes m) @ chain_bytes ms"
  define l where "l = m_len m - k"
  note facts = MINDEX_suffix [OF assms r, folded S_def l_def]
  have k: "k < m_len m" by (rule facts)
  have m_len: "k + n \<le> m_len m \<longleftrightarrow> n \<le> l" "m_len n' + m_len m - k = m_len n' + l" for n n'
    using k by (auto simp: l_def)
  have l: "0 < l" using k by (simp add: l_def)
  have "S \<noteq> []" using facts(8) l by auto
  then have rhs: "?thesis \<longleftrightarrow> bpf_m_xword ms0 i =
      (if 4 \<le> length S then Got (be32 (S ! 0) (S ! 1) (S ! 2) (S ! 3)) else Reject)"
    using facts(5) [of 4] facts(6) [of 0] facts(6) [of 1] facts(6) [of 2] facts(6) [of 3]
    by (auto simp: Let_def)
  note rds = facts(7) [of 0, simplified] facts(7) [of 1] facts(7) [of 2] facts(7) [of 3]
  show ?thesis
  proof (cases ms)
    case Nil
    with r rhs facts(8) rds m_len(1) [of 4] show ?thesis
      by (auto simp: bpf_m_xword_def Let_def EXTRACT_LONG_def)
  next
    case (Cons n ns)
    with facts(3) have n: "mbuf_ok n" by simp
    have "length (drop k (m_bytes m)) = l" using facts(1) by (simp add: l_def)
    note rn = mtod_at_next [OF n _ this]
    have rns: "mtod_at n j = Some (S ! (l + j))" if "j < m_len n" for j
      using rn [OF that] by (simp add: S_def Cons)
    have short: "length S = l + m_len n" if "m_len n + l < 4"
      using short_straddle [of m n ns] facts(3,4,8) Cons that l n by simp
    have long: "l + m_len n \<le> length S" using facts(8) Cons n by simp
    have "bpf_m_xword ms0 i =
        (if 4 \<le> length S then Got (be32 (S ! 0) (S ! 1) (S ! 2) (S ! 3)) else Reject)"
    proof (cases "4 \<le> l \<or> m_len n + l < 4")
      case True
      with r Cons short facts(8) rds m_len(1) [of 4] show ?thesis
        by (auto simp: bpf_m_xword_def Let_def EXTRACT_LONG_def m_len(2))
    next
      case False
      then consider "l = 1" | "l = 2" | "l = 3" using l by linarith
      then show ?thesis
        by cases (use False r Cons long rds rns [of 0] rns [of 1] rns [of 2] m_len(1) [of 4] in
          \<open>simp_all add: bpf_m_xword_def Let_def m_len(2) l_def [symmetric]
            numeral_2_eq_2 numeral_3_eq_3\<close>)
    qed
    with rhs show ?thesis by blast
  qed
qed

lemma bpf_m_xhalf_correct:
  assumes "chain_ok ms0"
  shows "bpf_m_xhalf ms0 i =
    (let bs = chain_bytes ms0 in
     if i + 2 \<le> length bs then Got (be16 (bs ! i) (bs ! (i + 1))) else Reject)"
proof (cases "MINDEX ms0 i")
  case None
  with assms have "length (chain_bytes ms0) \<le> i" by (simp add: chain_ok_def MINDEX_None)
  with None show ?thesis by (simp add: bpf_m_xhalf_def Let_def)
next
  case (Some r)
  then obtain m ms k where r: "MINDEX ms0 i = Some (m, ms, k)" by (cases r) auto
  define S where "S = drop k (m_bytes m) @ chain_bytes ms"
  define l where "l = m_len m - k"
  note facts = MINDEX_suffix [OF assms r, folded S_def l_def]
  have k: "k < m_len m" by (rule facts)
  have m_len: "k + n \<le> m_len m \<longleftrightarrow> n \<le> l" for n using k by (auto simp: l_def)
  have l: "0 < l" using k by (simp add: l_def)
  have "S \<noteq> []" using facts(8) l by auto
  then have rhs: "?thesis \<longleftrightarrow> bpf_m_xhalf ms0 i =
      (if 2 \<le> length S then Got (be16 (S ! 0) (S ! 1)) else Reject)"
    using facts(5) [of 2] facts(6) [of 0] facts(6) [of 1] by (auto simp: Let_def)
  note rds = facts(7) [of 0, simplified] facts(7) [of 1]
  show ?thesis
  proof (cases ms)
    case Nil
    with r rhs facts(8) rds m_len [of 2] show ?thesis
      by (auto simp: bpf_m_xhalf_def Let_def EXTRACT_SHORT_def)
  next
    case (Cons n ns)
    with facts(3) have n: "mbuf_ok n" by simp
    have pos: "0 < m_len n" using straddle_ok_pos [OF facts(4)] Cons by simp
    have "length (drop k (m_bytes m)) = l" using facts(1) by (simp add: l_def)
    from mtod_at_next [OF n pos this, of ns] have rn: "mtod_at n 0 = Some (S ! l)"
      by (simp add: S_def Cons)
    have long: "l + m_len n \<le> length S" using facts(8) Cons n by simp
    consider "2 \<le> l" | "l = 1" using l by linarith
    then have "bpf_m_xhalf ms0 i =
        (if 2 \<le> length S then Got (be16 (S ! 0) (S ! 1)) else Reject)"
      by cases (use rds rn long pos r Cons m_len [of 2] in
        \<open>simp_all add: bpf_m_xhalf_def Let_def EXTRACT_SHORT_def\<close>)
    with rhs show ?thesis by blast
  qed
qed

lemma bpf_m_byte_correct:
  assumes "chain_ok ms0"
  shows "bpf_m_byte ms0 i =
    (let bs = chain_bytes ms0 in if i < length bs then Got (ucast (bs ! i)) else Reject)"
proof (cases "MINDEX ms0 i")
  case None
  with assms have "length (chain_bytes ms0) \<le> i" by (simp add: chain_ok_def MINDEX_None)
  with None show ?thesis by (simp add: bpf_m_byte_def Let_def)
next
  case (Some r)
  then obtain m ms k where r: "MINDEX ms0 i = Some (m, ms, k)" by (cases r) auto
  note facts = MINDEX_suffix [OF assms r]
  have "k < length (m_bytes m)" using facts(1,2) by simp
  with facts(5) [of 1] facts(6) [of 0] facts(7) [of 0] facts(2,8) r show ?thesis
    by (auto simp: bpf_m_byte_def Let_def EXTRACT_BYTE_def)
qed

interpretation chn: packet_loads chain_ok chain_bytes
    "\<lambda>ms. bpf_ld_w LP64 (Chain ms) 0"
    "\<lambda>ms. bpf_ld_h LP64 (Chain ms) 0"
    "\<lambda>ms. bpf_ld_b (Chain ms) 0"
  by unfold_locales
    (simp_all add: bpf_ld_w_def bpf_ld_h_def bpf_ld_b_def as_chain_def Let_def
      bpf_m_xword_correct bpf_m_xhalf_correct bpf_m_byte_correct chain_ok_def [THEN iffD1])


section \<open>Safety of validated programs\<close>

text \<open>No load of the packet reads outside it.\<close>

definition loads_safe :: "data_model \<Rightarrow> bpf_data \<Rightarrow> u32 \<Rightarrow> bool" where
  "loads_safe dm p buflen \<longleftrightarrow>
     (\<forall>k e. bpf_ld_w dm p buflen k \<noteq> Bad e \<and> bpf_ld_h dm p buflen k \<noteq> Bad e
       \<and> bpf_ld_b p buflen k \<noteq> Bad e)"

lemma loads_safe_buffer:
  assumes "buffer_ok (bs, buflen)"
  shows "loads_safe LP64 (Buffer bs) buflen"
  using buf.never_bad [OF assms] by (simp add: loads_safe_def)

lemma loads_safe_chain:
  assumes "chain_safe ms"
  shows "loads_safe LP64 (Chain ms) 0"
proof -
  have ok: "list_all mbuf_ok ms" and "ms \<noteq> []" and area: "\<And>m. m \<in> set ms \<Longrightarrow> m_data m < length (m_area m)"
    using assms by (auto simp: chain_safe_def list_all_iff)
  have "bpf_m_xword ms k \<noteq> Bad e \<and> bpf_m_xhalf ms k \<noteq> Bad e \<and> bpf_m_byte ms k \<noteq> Bad e" for k e
  proof (cases "MINDEX ms k")
    case None
    then show ?thesis by (simp add: bpf_m_xword_def bpf_m_xhalf_def bpf_m_byte_def)
  next
    case (Some r)
    then obtain m ns j where r: "MINDEX ms k = Some (m, ns, j)" by (cases r) auto
    note ix = MINDEX_Some [OF r ok]
    have rd: "m' \<in> {m} \<union> set ns \<Longrightarrow> i < m_len m' \<Longrightarrow> mtod_at m' i = Some (m_bytes m' ! i)" for m' i
      using ix ok mtod_at_m_bytes by (auto simp: list_all_iff)
    have rd0: "mtod_at n 0 \<noteq> None" if "ns = n # ns'" for n ns'
      using ix area that by (auto simp: mtod_at_def)
    have "bpf_m_xword ms k \<noteq> Bad e"
      using rd ix by (auto simp: bpf_m_xword_def r Let_def EXTRACT_LONG_def split: list.splits)
    moreover have "bpf_m_xhalf ms k \<noteq> Bad e"
    proof (cases ns)
      case Nil
      then show ?thesis using rd ix by (auto simp: bpf_m_xhalf_def r Let_def EXTRACT_SHORT_def)
    next
      case (Cons n ns')
      with rd0 obtain b where "mtod_at n 0 = Some b" by blast
      then show ?thesis
        using rd ix Cons by (auto simp: bpf_m_xhalf_def r Let_def EXTRACT_SHORT_def)
    qed
    moreover have "bpf_m_byte ms k \<noteq> Bad e"
      using rd ix by (auto simp: bpf_m_byte_def r EXTRACT_BYTE_def)
    ultimately show ?thesis by blast
  qed
  with \<open>ms \<noteq> []\<close> show ?thesis
    by (simp add: loads_safe_def bpf_ld_w_def bpf_ld_h_def bpf_ld_b_def as_chain_def)
qed

text \<open>What one round may do to a state in range: nothing but finish or move forward in range.\<close>

fun progress :: "nat \<Rightarrow> nat \<Rightarrow> bpf_result \<Rightarrow> bool" where
  "progress len i (Next s') = (i < pc s' \<and> pc s' < len \<and> length (mem s') = BPF_MEMWORDS)"
| "progress len i (Return v) = True"
| "progress len i (Fault e) = False"

lemma bpf_load_progress:
  assumes "bpf_check_insn maxbuf len i ins" and "loads_safe dm p buflen"
    and "length (mem s) = BPF_MEMWORDS" and "pc s = Suc i" and "Suc i < len"
    and "bpf_load dm p wirelen buflen ins s = Some r"
  shows "progress len i r"
  using assms unfolding bpf_load_def bpf_check_insn_def loads_safe_def
  by (auto simp: kern_defs Let_def load_into_def mem_read_def mem_write_def
      split: if_splits bpf_access.splits)

text \<open>The checker's unsigned 32-bit range tests, read as natural numbers.\<close>

lemma jump_in_range:
  fixes d :: u32
  assumes "\<not> word_of_nat (Suc i) + d < (word_of_nat (Suc i) :: u32)"
    and "\<not> word_of_nat len \<le> word_of_nat (Suc i) + d" and "i < len" and "len \<le> BPF_MAXINSNS"
  shows "Suc i + unat d < len"
proof -
  have "unat (word_of_nat (Suc i) :: u32) = Suc i" "unat (word_of_nat len :: u32) = len"
    using assms(3,4) by (auto simp only: BPF_MAXINSNS_def intro!: unat_word_of_nat_below) simp_all
  then show ?thesis
    using assms(2) unat_plus_no_wrap [OF assms(1)] by (simp add: word_le_nat_alt)
qed

lemma short_jump_in_range:
  fixes d :: u8
  assumes "\<not> (word_of_nat len :: u32) \<le> word_of_nat (Suc i) + ucast d"
    and "i < len" and "len \<le> BPF_MAXINSNS"
  shows "Suc i + unat d < len"
proof -
  have i: "unat (word_of_nat (Suc i) :: u32) = Suc i"
    using assms(2,3) by (auto simp only: BPF_MAXINSNS_def intro!: unat_word_of_nat_below) simp
  have "unat d < 2 ^ LENGTH(8)" by (rule unsigned_less)
  then have d: "unat (ucast d :: u32) = unat d" and "unat d < 256"
    by (simp_all add: unsigned_ucast_eq take_bit_nat_eq_self)
  then have "unat (word_of_nat (Suc i) + ucast d :: u32) = Suc i + unat d"
    using i assms(2,3) by (subst unat_plus_below) (auto simp: BPF_MAXINSNS_def)
  moreover have "unat (word_of_nat len :: u32) = len"
    using assms(3) by (auto simp: BPF_MAXINSNS_def intro: unat_word_of_nat_below)
  ultimately show ?thesis using assms(1) by (simp add: word_le_nat_alt)
qed

lemma bpf_jump_progress:
  assumes chk: "bpf_check_insn maxbuf len i ins" and "i < len" and "len \<le> BPF_MAXINSNS"
    and "length (mem s) = BPF_MEMWORDS" and "pc s = Suc i"
    and "bpf_jump ins s = Some r"
  shows "progress len i r"
proof -
  note ranges = jump_in_range [OF _ _ assms(2,3)] short_jump_in_range [OF _ assms(2,3)]
  show ?thesis
    using assms ranges unfolding bpf_jump_def bpf_check_insn_def
    by (auto simp: kern_defs Let_def split: if_splits)
qed

text \<open>
  Division by a constant: the checker tests \<^verbatim>\<open>BPF_RVAL(p->code) == BPF_K\<close>, but the mask 0x18
  includes a bit of \<^const>\<open>BPF_DIV\<close>, so the test is false for every division and a zero constant
  is accepted. The safety theorem asks for what the test was meant to establish.
\<close>

definition div_consts_ok :: "bpf_insn list \<Rightarrow> bool" where
  "div_consts_ok f \<longleftrightarrow> list_all (\<lambda>p. code p = BPF_ALU OR BPF_DIV OR BPF_K \<longrightarrow> bk p \<noteq> 0) f"

lemma bpf_alu_progress:
  assumes "bpf_check_insn maxbuf len i ins" and "Suc i < len"
    and "code ins = BPF_ALU OR BPF_DIV OR BPF_K \<longrightarrow> bk ins \<noteq> 0"
    and "length (mem s) = BPF_MEMWORDS" and "pc s = Suc i"
    and "bpf_alu mach ins s = Some r"
  shows "progress len i r"
  using assms unfolding bpf_alu_def bpf_check_insn_def
  by (auto simp: kern_defs Let_def split: if_splits)

lemma bpf_ret_class:
  assumes "BPF_CLASS (code ins) = BPF_RET"
  shows "bpf_load dm p wirelen buflen ins s = None" and "bpf_jump ins s = None"
    and "bpf_alu mach ins s = None"
  using assms by (auto simp: bpf_load_def bpf_jump_def bpf_alu_def kern_defs Let_def)

lemma bpf_step_progress:
  assumes val: "bpf_validate maxbuf f" and div: "div_consts_ok f"
    and safe: "loads_safe (size_model mach) p buflen"
    and s: "pc s < length f" "length (mem s) = BPF_MEMWORDS"
  shows "progress (length f) (pc s) (bpf_step mach f p wirelen buflen s)"
proof -
  let ?i = "pc s" and ?ins = "f ! pc s" and ?s = "s\<lparr>pc := pc s + 1\<rparr>"
  have chk: "bpf_check_insn maxbuf (length f) ?i ?ins" and len: "length f \<le> BPF_MAXINSNS"
    and last: "BPF_CLASS (code (f ! (length f - 1))) = BPF_RET"
    using val s(1) by (auto simp: bpf_validate_def Let_def list_all_iff split: if_splits)
  have div_i: "code ?ins = BPF_ALU OR BPF_DIV OR BPF_K \<longrightarrow> bk ?ins \<noteq> 0"
    using div s(1) by (simp add: div_consts_ok_def list_all_length)
  show ?thesis
  proof (cases "Suc ?i < length f")
    case True
    have "bpf_load (size_model mach) p wirelen buflen ?ins ?s = Some r \<Longrightarrow> progress (length f) ?i r"
      "bpf_jump ?ins ?s = Some r \<Longrightarrow> progress (length f) ?i r"
      "bpf_alu mach ?ins ?s = Some r \<Longrightarrow> progress (length f) ?i r" for r
      using bpf_load_progress [OF chk safe, of ?s] bpf_jump_progress [OF chk s(1) len, of ?s]
        bpf_alu_progress [OF chk True div_i, of ?s] s True by simp_all
    with s(1) show ?thesis by (auto simp: bpf_step_def Let_def split: option.splits)
  next
    case False
    with s(1) have "?i = length f - 1" by simp
    with last have "BPF_CLASS (code ?ins) = BPF_RET" by simp
    with s(1) show ?thesis by (simp add: bpf_step_def Let_def bpf_ret_class)
  qed
qed

lemma bpf_run_safe:
  assumes "bpf_validate maxbuf f" and "div_consts_ok f" and "loads_safe (size_model mach) p buflen"
    and "pc s < length f" and "length (mem s) = BPF_MEMWORDS" and "length f - pc s \<le> n"
  shows "\<exists>v. bpf_run n mach f p wirelen buflen s = Some (Return v)"
  using assms(4-6)
proof (induction n arbitrary: s)
  case 0
  then show ?case by simp
next
  case (Suc n)
  have "progress (length f) (pc s) (bpf_step mach f p wirelen buflen s)"
    using bpf_step_progress [OF assms(1-3)] Suc.prems by simp
  then show ?case
  proof (cases "bpf_step mach f p wirelen buflen s")
    case (Next s')
    then have "pc s < pc s'" "pc s' < length f" "length (mem s') = BPF_MEMWORDS"
      using \<open>progress _ _ _\<close> by simp_all
    with Suc.IH [of s'] Suc.prems(3) Next show ?thesis by simp
  qed (use \<open>progress _ _ _\<close> in auto)
qed

lemma bpf_filter_safe:
  assumes "bpf_validate maxbuf f" and "div_consts_ok f" and "length mem0 = BPF_MEMWORDS" and "loads_safe (size_model mach) p buflen"
  shows "\<exists>v. bpf_filter (length f) mach (Some f) p wirelen buflen mem0 = Some (Return v)"
proof -
  have "0 < length f" using assms(1) by (auto simp: bpf_validate_def Let_def split: if_splits)
  then show ?thesis using bpf_run_safe [OF assms(1,2,4)] assms(3) by (simp add: bpf_filter_def)
qed

section \<open>The flat copy of a chain filters alike\<close>

text \<open>The interpreter sees the packet through its loads only.\<close>

lemma bpf_step_cong:
  assumes "bpf_ld_w (size_model mach) p b = bpf_ld_w (size_model mach) p' b'"
    and "bpf_ld_h (size_model mach) p b = bpf_ld_h (size_model mach) p' b'"
    and "bpf_ld_b p b = bpf_ld_b p' b'"
  shows "bpf_step mach f p wirelen b s = bpf_step mach f p' wirelen b' s"
proof -
  have "bpf_load (size_model mach) p wirelen b ins s = bpf_load (size_model mach) p' wirelen b' ins s"
    for ins s by (simp only: bpf_load_def assms)
  then show ?thesis by (simp only: bpf_step_def)
qed

lemma bpf_run_cong:
  assumes "bpf_ld_w (size_model mach) p b = bpf_ld_w (size_model mach) p' b'"
    and "bpf_ld_h (size_model mach) p b = bpf_ld_h (size_model mach) p' b'"
    and "bpf_ld_b p b = bpf_ld_b p' b'"
  shows "bpf_run n mach f p wirelen b s = bpf_run n mach f p' wirelen b' s"
  by (induction n arbitrary: s)
    (simp_all add: bpf_step_cong [OF assms] split: bpf_result.split)

section \<open>Evaluation\<close>

lemma bpf_run_numeral [simp]:
  "bpf_run (numeral n) mach f p wirelen buflen s =
     (case bpf_step mach f p wirelen buflen s of
        Next s' \<Rightarrow> bpf_run (pred_numeral n) mach f p wirelen buflen s'
      | r \<Rightarrow> Some r)"
  by (simp add: numeral_eq_Suc)

lemmas bpf_eval =
  bpf_filter_def bpf_step_def bpf_load_def bpf_jump_def bpf_alu_def kern_defs Let_def

section \<open>Properties\<close>

text \<open>
  C1. A program that \<^verbatim>\<open>bpf_validate\<close> accepts and that divides by no zero constant runs to a
  return value within as many rounds as it has instructions, on every machine with a 64-bit
  \<^verbatim>\<open>size_t\<close>, on every byte buffer of the announced length and on every mbuf chain, and
  whatever the scratch memory holds at the start: no jump leaves the program, no access leaves
  the buffer, the storage of an mbuf or the scratch memory, no division traps, and the loop ends.
  Every mbuf has its data and at least one byte in its storage; in a chain with empty mbufs a load
  may read a byte of that storage that is not data of the packet, see \<open>bpf_m_xhalf_empty_mbuf\<close>.
\<close>

theorem bpf_validated_safe:
  assumes "bpf_validate maxbuf f" and "div_consts_ok f" and "size_model mach = LP64"
    and "length mem0 = BPF_MEMWORDS"
    and "(\<exists>bs. p = Buffer bs \<and> buffer_ok (bs, buflen)) \<or> (\<exists>ms. p = Chain ms \<and> chain_safe ms \<and> buflen = 0)"
  shows "\<exists>v. bpf_filter (length f) mach (Some f) p wirelen buflen mem0 = Some (Return v)"
proof -
  have "loads_safe (size_model mach) p buflen"
    using assms(3,5) loads_safe_buffer loads_safe_chain by auto
  then show ?thesis by (rule bpf_filter_safe [OF assms(1,2,4)])
qed

definition demo_prog :: "bpf_insn list" where
  "demo_prog =
     [\<lparr>code = 0x28, jt = 0, jf = 0, bk = 0\<rparr>,
      \<lparr>code = 0x15, jt = 0, jf = 1, bk = 0x0800\<rparr>,
      \<lparr>code = 0x06, jt = 0, jf = 0, bk = 96\<rparr>,
      \<lparr>code = 0x06, jt = 0, jf = 0, bk = 0\<rparr>]"

definition demo_machine :: "data_model \<Rightarrow> bpf_machine" where
  "demo_machine dm = \<lparr>size_model = dm, shl_wide = (\<lambda>a n. 0), shr_wide = (\<lambda>a n. 0)\<rparr>"

theorem bpf_validated_safe_witness:
  "\<exists>v. bpf_filter 4 (demo_machine LP64) (Some demo_prog) (Buffer [8, 0, 1, 2]) 4 4 (replicate 16 0)
     = Some (Return v)"
proof -
  have "bpf_validate 2097152 demo_prog" by code_simp
  moreover have "div_consts_ok demo_prog" by code_simp
  moreover have "buffer_ok ([8, 0, 1, 2], 4)" by code_simp
  moreover have "length demo_prog = 4" by (simp add: demo_prog_def)
  ultimately show ?thesis
    using bpf_validated_safe [of 2097152 demo_prog "demo_machine LP64" "replicate 16 0"
        "Buffer [8, 0, 1, 2]" 4 4]
    by (simp add: demo_machine_def BPF_MEMWORDS_def)
qed

lemma bpf_chain_flat:
  assumes "chain_ok ms" and "size_model mach = LP64"
    and "length (chain_bytes ms) < 2 ^ 32"
  shows "bpf_filter n mach prog (Chain ms) wirelen 0 mem0 =
    bpf_filter n mach prog (Buffer (chain_bytes ms)) wirelen (word_of_nat (length (chain_bytes ms))) mem0"
proof -
  let ?bs = "chain_bytes ms" and ?l = "word_of_nat (length (chain_bytes ms)) :: u32"
  have l: "unat ?l = length ?bs" using assms(3) by (auto intro: unat_word_of_nat_below)
  have "?bs \<noteq> []" using assms(1) straddle_ok_pos [of ms "hd ms"]
    by (cases ms) (auto simp: chain_ok_def dest: length_m_bytes)
  then have ok: "buffer_ok (?bs, ?l)" using l by (auto simp: buffer_ok_def unat_eq_zero [symmetric])
  have bytes: "buffer_bytes (?bs, ?l) = ?bs" by (simp add: buffer_bytes_def l)
  have "bpf_ld_w LP64 (Chain ms) 0 = bpf_ld_w LP64 (Buffer ?bs) ?l"
    "bpf_ld_h LP64 (Chain ms) 0 = bpf_ld_h LP64 (Buffer ?bs) ?l"
    "bpf_ld_b (Chain ms) 0 = bpf_ld_b (Buffer ?bs) ?l"
    using chn.ldw [OF assms(1)] buf.ldw [OF ok] chn.ldh [OF assms(1)] buf.ldh [OF ok]
      chn.ldb [OF assms(1)] buf.ldb [OF ok] by (auto simp: bytes fun_eq_iff)
  with assms(2) show ?thesis
    by (auto simp: bpf_filter_def intro: bpf_run_cong split: option.split)
qed

text \<open>
  C2. On machines with a 64-bit \<^verbatim>\<open>size_t\<close>, filtering an mbuf chain of fewer than \<open>2 ^ 32\<close> bytes in
  place gives the same result as filtering a contiguous copy of its bytes, round for round,
  provided that no mbuf is empty and that only the last holds fewer than three bytes (a word load
  looks at two consecutive mbufs only).
\<close>

theorem bpf_chain_equals_flat:
  assumes "chain_ok ms" and "size_model mach = LP64"
    and "length (chain_bytes ms) < 2 ^ 32"
  shows "bpf_filter n mach prog (Chain ms) wirelen 0 mem0 =
    bpf_filter n mach prog (Buffer (chain_bytes ms)) wirelen (word_of_nat (length (chain_bytes ms))) mem0"
  by (rule bpf_chain_flat [OF assms])

definition demo_mbuf :: "u8 list \<Rightarrow> mbuf" where
  "demo_mbuf bs = \<lparr>m_area = [0xde] @ bs @ [0xad], m_data = 1, m_len = length bs\<rparr>"

theorem bpf_chain_equals_flat_witness:
  "bpf_filter 4 (demo_machine LP64) (Some demo_prog)
       (Chain [demo_mbuf [8, 0, 1], demo_mbuf [2]]) 4 0 (replicate 16 0) =
   bpf_filter 4 (demo_machine LP64) (Some demo_prog) (Buffer [8, 0, 1, 2]) 4 4 (replicate 16 0)"
proof -
  have "chain_ok [demo_mbuf [8, 0, 1], demo_mbuf [2]]" by code_simp
  moreover have "chain_bytes [demo_mbuf [8, 0, 1], demo_mbuf [2]] = [8, 0, 1, 2]" by code_simp
  ultimately show ?thesis
    using bpf_chain_equals_flat [of "[demo_mbuf [8, 0, 1], demo_mbuf [2]]" "demo_machine LP64"]
    by (simp add: demo_machine_def)
qed

text \<open>
  The checker's test for a constant zero divisor never fires: a program whose first
  instruction divides by the constant 0 is accepted, and its execution divides by zero, on
  every machine and packet.
\<close>

theorem bpf_validate_accepts_zero_divisor:
  "let f = [\<lparr>code = BPF_ALU OR BPF_DIV OR BPF_K, jt = 0, jf = 0, bk = 0\<rparr>,
            \<lparr>code = BPF_RET OR BPF_A, jt = 0, jf = 0, bk = 0\<rparr>]
   in bpf_validate maxbuf f
      \<and> bpf_filter 2 mach (Some f) p wirelen buflen mem0 = Some (Fault DivideByZero)"
  by (simp add: bpf_validate_def bpf_check_insn_def bpf_eval)

text \<open>
  With a 32-bit \<^verbatim>\<open>size_t\<close> the bound test of an indexed word load wraps: a validated
  program reads outside every packet buffer of at least two bytes.
\<close>

theorem bpf_indexed_load_wraps:
  assumes "size_model mach = ILP32" and "2 \<le> buflen"
    and "length bs < 0xfffffffe" and "0 < maxbuf"
  shows "let f = [\<lparr>code = BPF_LDX OR BPF_IMM, jt = 0, jf = 0, bk = 0xfffffffe\<rparr>,
                  \<lparr>code = BPF_LD OR BPF_W OR BPF_IND, jt = 0, jf = 0, bk = 0\<rparr>,
                  \<lparr>code = BPF_RET OR BPF_A, jt = 0, jf = 0, bk = 0\<rparr>]
         in bpf_validate maxbuf f
            \<and> bpf_filter 3 mach (Some f) (Buffer bs) wirelen buflen mem0 = Some (Fault PacketOut)"
proof -
  have "2 \<le> unat buflen" using assms(2) by (simp add: word_le_nat_alt)
  moreover have "maxbuf \<noteq> 0" using assms(4) by auto
  ultimately show ?thesis
    using assms
    by (simp add: bpf_validate_def bpf_check_insn_def bpf_eval
        bpf_ld_w_def as_buffer_def EXTRACT_LONG_def long_of_def load_into_def not_le)
qed

theorem bpf_indexed_load_wraps_witness:
  "let f = [\<lparr>code = BPF_LDX OR BPF_IMM, jt = 0, jf = 0, bk = 0xfffffffe\<rparr>,
            \<lparr>code = BPF_LD OR BPF_W OR BPF_IND, jt = 0, jf = 0, bk = 0\<rparr>,
            \<lparr>code = BPF_RET OR BPF_A, jt = 0, jf = 0, bk = 0\<rparr>]
   in bpf_validate 2097152 f
      \<and> bpf_filter 3 (demo_machine ILP32) (Some f) (Buffer [8, 0, 1, 2]) 4 4 (replicate 16 0)
        = Some (Fault PacketOut)"
  using bpf_indexed_load_wraps [of "demo_machine ILP32" 4 "[8, 0, 1, 2]" 2097152 4 "replicate 16 0"]
  by (simp add: demo_machine_def)

text \<open>
  A half-word load that straddles into an mbuf of length 0 succeeds and returns the byte of
  storage at that mbuf's data pointer, which is not a byte of the packet: \<^verbatim>\<open>bpf_m_xhalf\<close>
  does not look at the second mbuf's length.
\<close>

theorem bpf_m_xhalf_empty_mbuf:
  assumes "mbuf_ok m" and "0 < m_len m" and "m_len n = 0" and "m_data n < length (m_area n)"
  shows "bpf_m_xhalf (m # n # ms) (m_len m - 1) =
    Got (be16 (last (m_bytes m)) (m_area n ! m_data n))"
proof -
  have "m_bytes m \<noteq> []" using assms(1,2) length_m_bytes by fastforce
  then have "mtod_at m (m_len m - 1) = Some (last (m_bytes m))"
    using assms(1,2) by (simp add: mtod_at_m_bytes last_conv_nth)
  moreover have "mtod_at n 0 = Some (m_area n ! m_data n)"
    using assms(4) by (simp add: mtod_at_def)
  moreover have "MINDEX (m # n # ms) (m_len m - 1) = Some (m, n # ms, m_len m - 1)"
    using assms(2) by auto
  ultimately show ?thesis using assms(2) by (simp add: bpf_m_xhalf_def Let_def)
qed

theorem bpf_m_xhalf_empty_mbuf_witness:
  "bpf_m_xhalf [demo_mbuf [8], demo_mbuf [], demo_mbuf [0]] 0 = Got 0x08ad"
proof -
  have "bpf_m_xhalf [demo_mbuf [8], demo_mbuf [], demo_mbuf [0]] (m_len (demo_mbuf [8]) - 1) =
      Got (be16 (last (m_bytes (demo_mbuf [8]))) (m_area (demo_mbuf []) ! m_data (demo_mbuf [])))"
    by (rule bpf_m_xhalf_empty_mbuf) (simp_all add: demo_mbuf_def mbuf_ok_def)
  then show ?thesis by (simp add: demo_mbuf_def m_bytes_def be16_def)
qed

end
