(* ===== verification/Extent.thy ===== *)
theory Extent
  imports Kern_Prelude
begin

text \<open>
  The extent manager (\<^verbatim>\<open>src/sys/kern/subr_extent.c\<close>, \<^verbatim>\<open>src/sys/sys/extent.h\<close>): allocation of
  disjoint regions of a number range, as used for bus address spaces. An extent keeps the list
  of allocated regions sorted by address. The theory models the region list, the descriptor
  free list of fixed extents, and every operation with its error returns; a call that reaches
  \<^verbatim>\<open>tsleep\<close> ends in a sleeping outcome, and the code after the sleep is a definition of its own.
  A pointer \<^verbatim>\<open>last\<close>/\<^verbatim>\<open>after\<close> into the list is the number of regions up to and including it, so 0
  is the null pointer. A word of flags is the set of its bits.
\<close>

section \<open>Data\<close>

type_synonym u_long = u64

datatype er_flag = ER_ALLOC

datatype ex_flag = EXF_FIXED | EXF_NOCOALESCE | EXF_WANTED | EXF_FLWANTED

datatype ex_arg =
  EX_WAITOK | EX_FAST | EX_CATCH | EX_NOCOALESCE | EX_MALLOCOK | EX_WAITSPACE | EX_BOUNDZERO

record extent_region =
  er_start :: u_long
  er_end :: u_long
  er_flags :: "er_flag set"

record extent =
  ex_name :: string
  ex_regions :: "extent_region list"
  ex_start :: u_long
  ex_end :: u_long
  ex_mtype :: int
  ex_flags :: "ex_flag set"
  fex_freelist :: "extent_region list"

text \<open>
  How a call ends: normally with a result, with an error number, asleep waiting for space
  (holding its region descriptor) or for a descriptor, or in a panic.
\<close>

datatype 'a ex_outcome =
    Done 'a extent
  | Fail errno extent
  | SleepSpace extent extent_region
  | SleepDesc extent
  | Panic

section \<open>Descriptors\<close>

definition extent_align :: "u_long \<Rightarrow> u_long \<Rightarrow> u_long \<Rightarrow> u_long" where
  "extent_align start align skew = (((start - skew) + (align - 1)) AND (- align)) + skew"

datatype desc_outcome = Desc extent_region extent | NoDesc extent | DescSleep extent

text \<open>
  \<open>pool\<close> is what \<^verbatim>\<open>pool_get\<close> yields: a descriptor with arbitrary contents, or nothing. With
  \<^const>\<open>EX_WAITOK\<close> it waits for memory instead of yielding nothing.
\<close>

definition extent_alloc_region_descriptor ::
    "extent_region option \<Rightarrow> extent \<Rightarrow> ex_arg set \<Rightarrow> desc_outcome" where
  "extent_alloc_region_descriptor pool ex flags =
     (let alloc = (case pool of
            Some rp \<Rightarrow> Desc (rp\<lparr>er_flags := {ER_ALLOC}\<rparr>) ex
          | None \<Rightarrow> (if EX_WAITOK \<in> flags then DescSleep ex else NoDesc ex))
      in if EXF_FIXED \<in> ex_flags ex then
           (case fex_freelist ex of
              rp # fl \<Rightarrow> Desc rp (ex\<lparr>fex_freelist := fl\<rparr>)
            | [] \<Rightarrow>
                (if EX_MALLOCOK \<in> flags then alloc
                 else if EX_WAITOK \<notin> flags then NoDesc ex
                 else DescSleep (ex\<lparr>ex_flags := insert EXF_FLWANTED (ex_flags ex)\<rparr>)))
         else alloc)"

definition extent_free_region_descriptor :: "extent \<Rightarrow> extent_region \<Rightarrow> extent" where
  "extent_free_region_descriptor ex rp =
     (if EXF_FIXED \<in> ex_flags ex then
        (if ER_ALLOC \<in> er_flags rp then
           (if EXF_FLWANTED \<in> ex_flags ex then
              ex\<lparr>fex_freelist := rp\<lparr>er_flags := {ER_ALLOC}\<rparr> # fex_freelist ex,
                 ex_flags := ex_flags ex - {EXF_FLWANTED}\<rparr>
            else ex)
         else ex\<lparr>fex_freelist := rp\<lparr>er_flags := {}\<rparr> # fex_freelist ex,
                 ex_flags := ex_flags ex - {EXF_FLWANTED}\<rparr>)
      else ex)"

section \<open>Creation and destruction\<close>

definition zero_region :: extent_region where
  "zero_region = \<lparr>er_start = 0, er_end = 0, er_flags = {}\<rparr>"

text \<open>
  Carving the descriptors of a fixed extent out of its storage. \<open>szreg\<close> is the aligned size
  of a descriptor, which is positive.
\<close>

function carve :: "u_long \<Rightarrow> u_long \<Rightarrow> extent_region list \<Rightarrow> extent_region list" where
  "carve szreg sz fl =
     (if 0 < szreg \<and> szreg \<le> sz then carve szreg (sz - szreg) (zero_region # fl) else fl)"
  by pat_completeness auto
termination
  by (relation "measure (\<lambda>(szreg, sz, fl). unat sz)")
    (auto simp: unat_minus_below word_less_nat_alt word_le_nat_alt)

text \<open>
  \<open>szfix\<close> is the aligned size of \<^verbatim>\<open>struct extent_fixed\<close>, \<open>storage\<close> the storage size of a fixed
  extent, \<open>memok\<close> whether \<^verbatim>\<open>malloc\<close> succeeds for another one. \<open>diag\<close> says whether the kernel is
  built with \<^verbatim>\<open>DIAGNOSTIC\<close>.
\<close>

datatype create_outcome = Created extent | NoMemory | CreatePanic

definition extent_create ::
    "bool \<Rightarrow> u_long \<Rightarrow> u_long \<Rightarrow> bool \<Rightarrow> string \<Rightarrow> u_long \<Rightarrow> u_long \<Rightarrow> int \<Rightarrow> u_long option \<Rightarrow> ex_arg set
      \<Rightarrow> create_outcome" where
  "extent_create diag szfix szreg memok name start ende mtype storage flags =
     (let mk = (\<lambda>fl fixed. \<lparr>ex_name = name, ex_regions = [], ex_start = start, ex_end = ende,
            ex_mtype = mtype,
            ex_flags = fixed \<union> (if EX_NOCOALESCE \<in> flags then {EXF_NOCOALESCE} else {}),
            fex_freelist = fl\<rparr>)
      in if diag \<and> ende < start then CreatePanic
         else case storage of
             Some sz \<Rightarrow>
               if diag \<and> sz < szfix then CreatePanic
               else Created (mk (carve szreg (sz - szfix) []) {EXF_FIXED})
           | None \<Rightarrow> if memok \<or> EX_WAITOK \<in> flags then Created (mk [] {}) else NoMemory)"

definition extent_destroy :: "extent \<Rightarrow> extent" where
  "extent_destroy ex =
     fold (\<lambda>rp e. extent_free_region_descriptor e rp) (ex_regions ex) (ex\<lparr>ex_regions := []\<rparr>)"

section \<open>Insertion\<close>

definition extent_insert_and_optimize ::
    "extent \<Rightarrow> u_long \<Rightarrow> u_long \<Rightarrow> nat \<Rightarrow> extent_region \<Rightarrow> extent" where
  "extent_insert_and_optimize ex start sz after rp =
     (let rs = ex_regions ex;
          new = rp\<lparr>er_start := start, er_end := start + (sz - 1)\<rparr>;
          linked = ex\<lparr>ex_regions := take after rs @ new # drop after rs\<rparr>
      in if after = 0 then
           (if EXF_NOCOALESCE \<notin> ex_flags ex \<and> rs \<noteq> [] \<and> start + sz = er_start (hd rs) then
              extent_free_region_descriptor
                (ex\<lparr>ex_regions := (hd rs)\<lparr>er_start := start\<rparr> # tl rs\<rparr>) rp
            else linked)
         else if EXF_NOCOALESCE \<in> ex_flags ex then linked
         else
           let a = rs ! (after - 1);
               appended = (er_end a + 1 = start);
               a' = (if appended then a\<lparr>er_end := start + (sz - 1)\<rparr> else a);
               rs' = rs[after - 1 := a']
           in if after < length rs \<and> start + sz = er_start (rs ! after) then
                (if appended then
                   extent_free_region_descriptor
                     (extent_free_region_descriptor
                       (ex\<lparr>ex_regions := take (after - 1) rs
                             @ a'\<lparr>er_end := er_end (rs ! after)\<rparr> # drop (after + 1) rs\<rparr>)
                       (rs ! after)) rp
                 else
                   extent_free_region_descriptor
                     (ex\<lparr>ex_regions := rs'[after := (rs ! after)\<lparr>er_start := start\<rparr>]\<rparr>) rp)
              else if appended then extent_free_region_descriptor (ex\<lparr>ex_regions := rs'\<rparr>) rp
              else linked)"

section \<open>Allocating a given region\<close>

text \<open>
  The search of \<^verbatim>\<open>extent_alloc_region\<close>: \<open>None\<close> on a conflict, otherwise how many regions lie
  before the request.
\<close>

fun alloc_scan :: "extent_region list \<Rightarrow> u_long \<Rightarrow> u_long \<Rightarrow> nat \<Rightarrow> nat option" where
  "alloc_scan [] start ende n = Some n"
| "alloc_scan (rp # rs) start ende n =
     (if er_start rp > ende then Some n
      else if er_end rp \<ge> start then None
      else alloc_scan rs start ende (n + 1))"

text \<open>From the label \<^verbatim>\<open>alloc_start\<close> on.\<close>

definition alloc_region_start ::
    "extent \<Rightarrow> u_long \<Rightarrow> u_long \<Rightarrow> ex_arg set \<Rightarrow> extent_region \<Rightarrow> unit ex_outcome" where
  "alloc_region_start ex start sz flags myrp =
     (case alloc_scan (ex_regions ex) start (start + (sz - 1)) 0 of
        None \<Rightarrow>
          (if EX_WAITSPACE \<in> flags then
             SleepSpace (ex\<lparr>ex_flags := insert EXF_WANTED (ex_flags ex)\<rparr>) myrp
           else Fail EAGAIN (extent_free_region_descriptor ex myrp))
      | Some lst \<Rightarrow> Done () (extent_insert_and_optimize ex start sz lst myrp))"

text \<open>After the sleep: \<open>err\<close> is what \<^verbatim>\<open>tsleep\<close> returned, \<open>ex\<close> the extent at that moment.\<close>

definition alloc_region_wake ::
    "errno option \<Rightarrow> extent \<Rightarrow> u_long \<Rightarrow> u_long \<Rightarrow> ex_arg set \<Rightarrow> extent_region \<Rightarrow> unit ex_outcome" where
  "alloc_region_wake err ex start sz flags myrp =
     (case err of Some e \<Rightarrow> Fail e ex | None \<Rightarrow> alloc_region_start ex start sz flags myrp)"

definition extent_alloc_region ::
    "bool \<Rightarrow> extent_region option \<Rightarrow> extent \<Rightarrow> u_long \<Rightarrow> u_long \<Rightarrow> ex_arg set \<Rightarrow> unit ex_outcome" where
  "extent_alloc_region diag pool ex start sz flags =
     (let ende = start + (sz - 1) in
      if diag \<and> (sz < 1 \<or> ende < start) then Panic
      else if start < ex_start ex \<or> ende > ex_end ex then
        (if diag then Panic else Fail EINVAL ex)
      else case extent_alloc_region_descriptor pool ex flags of
          NoDesc ex' \<Rightarrow> Fail ENOMEM ex'
        | DescSleep ex' \<Rightarrow> SleepDesc ex'
        | Desc myrp ex' \<Rightarrow> alloc_region_start ex' start sz flags myrp)"

section \<open>Allocating in a subregion\<close>

definition LE_OV :: "u_long \<Rightarrow> u_long \<Rightarrow> u_long \<Rightarrow> bool" where
  "LE_OV x y z = (x + y \<ge> x \<and> x + y \<le> z)"

datatype bound_fit = Fits u_long | Skip | GoFail

text \<open>
  The boundary check made on each candidate; \<open>fits\<close> is the test that the moved candidate still
  lies in the gap, with \<^verbatim>\<open>goto skip\<close> (in the loop) or \<^verbatim>\<open>goto fail\<close> (after it) when it does not.
\<close>

definition boundary_check ::
    "extent \<Rightarrow> u_long \<Rightarrow> ex_arg set \<Rightarrow> u_long \<Rightarrow> (u_long \<Rightarrow> bool) \<Rightarrow> u_long \<Rightarrow> bound_fit" where
  "boundary_check ex boundary flags sz fits newstart =
     (if boundary = 0 then Fits newstart
      else
        let newend = newstart + (sz - 1);
            dontcross = extent_align (newstart + 1) boundary
              (if EX_BOUNDZERO \<in> flags then 0 else ex_start ex) - 1;
            final = (\<lambda>ns dc. if ns + sz - 1 > ex_end ex \<or> dc < ns then GoFail else Fits ns)
        in if dontcross < ex_start ex then final newstart (ex_end ex)
           else if newend > dontcross then
             (if \<not> fits (dontcross + 1) then Skip
              else final (dontcross + 1) (dontcross + boundary))
           else final newstart dontcross)"

text \<open>The best candidate so far: overhead (0 for none), start, position.\<close>

type_synonym best = "u_long \<times> u_long \<times> nat"

datatype sub_scan =
    Found u_long nat
  | AtEnd u_long nat u_long best
  | ScanFail best

definition better :: "best \<Rightarrow> u_long \<Rightarrow> u_long \<Rightarrow> nat \<Rightarrow> best" where
  "better best ovh newstart lst =
     (if fst best = 0 \<or> ovh < fst best then (ovh, newstart, lst) else best)"

fun subregion_loop ::
    "extent \<Rightarrow> u_long \<Rightarrow> u_long \<Rightarrow> u_long \<Rightarrow> u_long \<Rightarrow> u_long \<Rightarrow> ex_arg set
      \<Rightarrow> extent_region list \<Rightarrow> u_long \<Rightarrow> nat \<Rightarrow> best \<Rightarrow> sub_scan" where
  "subregion_loop ex subend sz alignment skew boundary flags [] newstart lst best =
     AtEnd newstart lst (ex_end ex) best"
| "subregion_loop ex subend sz alignment skew boundary flags (rp # rs) newstart lst best =
     (if er_start rp > subend then AtEnd newstart lst (er_start rp) best
      else
        let skip = (\<lambda>best.
              let ns = extent_align (er_end rp + 1) alignment skew in
              if ns < er_end rp then ScanFail best
              else subregion_loop ex subend sz alignment skew boundary flags rs ns (lst + 1) best);
            fits = (\<lambda>ns. LE_OV ns sz (er_start rp))
        in if fits newstart then
             (case boundary_check ex boundary flags sz fits newstart of
                Skip \<Rightarrow> skip best
              | GoFail \<Rightarrow> ScanFail best
              | Fits ns \<Rightarrow>
                  let ovh = er_start rp - ns - sz in
                  if EX_FAST \<in> flags \<or> ovh = 0 then Found ns lst
                  else skip (better best ovh ns lst))
           else skip best)"

fun first_after :: "extent_region list \<Rightarrow> u_long \<Rightarrow> nat" where
  "first_after [] newstart = 0"
| "first_after (rp # rs) newstart =
     (if er_start rp \<ge> newstart then 0 else Suc (first_after rs newstart))"

text \<open>
  The search from \<^verbatim>\<open>alloc_start\<close> to the labels \<^verbatim>\<open>found\<close> (\<open>Some\<close>) and \<^verbatim>\<open>fail\<close> without a
  good-enough match (\<open>None\<close>), after the first alignment.
\<close>

definition subregion_search ::
    "extent \<Rightarrow> u_long \<Rightarrow> u_long \<Rightarrow> u_long \<Rightarrow> u_long \<Rightarrow> u_long \<Rightarrow> ex_arg set \<Rightarrow> u_long
      \<Rightarrow> (u_long \<times> nat) option" where
  "subregion_search ex subend sz alignment skew boundary flags newstart0 =
     (let rs = ex_regions ex;
          lst = first_after rs newstart0;
          newstart = (if lst \<noteq> 0 \<and> er_end (rs ! (lst - 1)) \<ge> newstart0
                      then extent_align (er_end (rs ! (lst - 1)) + 1) alignment skew
                      else newstart0);
          fail = (\<lambda>best. if EX_FAST \<notin> flags \<and> fst best \<noteq> 0 then Some (snd best) else None)
      in case subregion_loop ex subend sz alignment skew boundary flags (drop lst rs) newstart lst
             (0, 0, 0) of
           Found ns l \<Rightarrow> Some (ns, l)
         | ScanFail best \<Rightarrow> fail best
         | AtEnd ns l exend best \<Rightarrow>
             (let fits = (\<lambda>ns. LE_OV ns (sz - 1) subend) in
              if fits ns then
                (case boundary_check ex boundary flags sz fits ns of
                   Skip \<Rightarrow> fail best
                 | GoFail \<Rightarrow> fail best
                 | Fits ns' \<Rightarrow>
                     let ovh = exend - ns' - (sz - 1) in
                     if EX_FAST \<in> flags \<or> ovh = 0 then Some (ns', l)
                     else fail (better best ovh ns' l))
              else fail best))"

definition alloc_subregion_start ::
    "bool \<Rightarrow> extent \<Rightarrow> u_long \<Rightarrow> u_long \<Rightarrow> u_long \<Rightarrow> u_long \<Rightarrow> u_long \<Rightarrow> u_long \<Rightarrow> ex_arg set
      \<Rightarrow> extent_region \<Rightarrow> u_long ex_outcome" where
  "alloc_subregion_start diag ex substart subend sz alignment skew boundary flags myrp =
     (let newstart = extent_align substart alignment skew in
      if newstart < ex_start ex then
        (if diag then Panic else Fail EINVAL (extent_free_region_descriptor ex myrp))
      else case subregion_search ex subend sz alignment skew boundary flags newstart of
          Some (ns, lst) \<Rightarrow> Done ns (extent_insert_and_optimize ex ns sz lst myrp)
        | None \<Rightarrow>
            (if EX_WAITSPACE \<in> flags then
               SleepSpace (ex\<lparr>ex_flags := insert EXF_WANTED (ex_flags ex)\<rparr>) myrp
             else Fail EAGAIN (extent_free_region_descriptor ex myrp)))"

definition alloc_subregion_wake ::
    "bool \<Rightarrow> errno option \<Rightarrow> extent \<Rightarrow> u_long \<Rightarrow> u_long \<Rightarrow> u_long \<Rightarrow> u_long \<Rightarrow> u_long \<Rightarrow> u_long
      \<Rightarrow> ex_arg set \<Rightarrow> extent_region \<Rightarrow> u_long ex_outcome" where
  "alloc_subregion_wake diag err ex substart subend sz alignment skew boundary flags myrp =
     (case err of
        Some e \<Rightarrow> Fail e ex
      | None \<Rightarrow> alloc_subregion_start diag ex substart subend sz alignment skew boundary flags myrp)"

definition extent_alloc_subregion ::
    "bool \<Rightarrow> extent_region option \<Rightarrow> extent \<Rightarrow> u_long \<Rightarrow> u_long \<Rightarrow> u_long \<Rightarrow> u_long \<Rightarrow> u_long \<Rightarrow> u_long
      \<Rightarrow> ex_arg set \<Rightarrow> u_long ex_outcome" where
  "extent_alloc_subregion diag pool ex substart subend sz alignment skew boundary flags =
     (if diag \<and> (substart < ex_start ex \<or> substart > ex_end ex \<or> subend > ex_end ex \<or> subend < ex_start ex
         \<or> sz < 1 \<or> sz - 1 > subend - substart \<or> alignment = 0 \<or> (boundary \<noteq> 0 \<and> boundary < sz))
      then Panic
      else case extent_alloc_region_descriptor pool ex flags of
          NoDesc ex' \<Rightarrow> Fail ENOMEM ex'
        | DescSleep ex' \<Rightarrow> SleepDesc ex'
        | Desc myrp ex' \<Rightarrow>
            alloc_subregion_start diag ex' substart subend sz alignment skew boundary flags myrp)"

definition extent_alloc ::
    "bool \<Rightarrow> extent_region option \<Rightarrow> extent \<Rightarrow> u_long \<Rightarrow> u_long \<Rightarrow> u_long \<Rightarrow> u_long \<Rightarrow> ex_arg set
      \<Rightarrow> u_long ex_outcome" where
  "extent_alloc diag pool ex sz alignment skew boundary flags =
     extent_alloc_subregion diag pool ex (ex_start ex) (ex_end ex) sz alignment skew boundary flags"

section \<open>Freeing\<close>

text \<open>
  The search of \<^verbatim>\<open>extent_free\<close>: the new region list, the descriptor released by case 1 and
  whether the spare descriptor was used by case 4; \<open>None\<close> is the final panic.
\<close>

fun free_scan ::
    "bool \<Rightarrow> extent_region list \<Rightarrow> u_long \<Rightarrow> u_long \<Rightarrow> extent_region option
      \<Rightarrow> (extent_region list \<times> extent_region option \<times> bool) option" where
  "free_scan nocoal [] start ende nrp = None"
| "free_scan nocoal (rp # rs) start ende nrp =
     (let continue = map_option (\<lambda>(rs', d, u). (rp # rs', d, u)) (free_scan nocoal rs start ende nrp) in
      if er_end rp < start then continue
      else if er_start rp > ende then None
      else if start = er_start rp \<and> ende = er_end rp then Some (rs, Some rp, False)
      else if nocoal then continue
      else if start = er_start rp \<and> ende < er_end rp then
        Some (rp\<lparr>er_start := ende + 1\<rparr> # rs, None, False)
      else if start > er_start rp \<and> ende = er_end rp then
        Some (rp\<lparr>er_end := start - 1\<rparr> # rs, None, False)
      else if start > er_start rp \<and> ende < er_end rp then
        (case nrp of
           Some d \<Rightarrow> Some (rp\<lparr>er_end := start - 1\<rparr>
                           # d\<lparr>er_start := ende + 1, er_end := er_end rp\<rparr> # rs, None, True)
         | None \<Rightarrow> None)
      else continue)"

text \<open>From the search to the label \<^verbatim>\<open>done\<close> and the return; waking the sleepers clears the flag.\<close>

definition free_finish ::
    "extent \<Rightarrow> u_long \<Rightarrow> u_long \<Rightarrow> extent_region option \<Rightarrow> unit ex_outcome" where
  "free_finish ex start ende nrp =
     (case free_scan (EXF_NOCOALESCE \<in> ex_flags ex) (ex_regions ex) start ende nrp of
        None \<Rightarrow> Panic
      | Some (rs, released, used) \<Rightarrow>
          let ex1 = ex\<lparr>ex_regions := rs\<rparr>;
              ex2 = (case released of
                  Some d \<Rightarrow> extent_free_region_descriptor ex1 d | None \<Rightarrow> ex1);
              ex3 = (case nrp of
                  Some d \<Rightarrow> if used then ex2 else extent_free_region_descriptor ex2 d
                | None \<Rightarrow> ex2)
          in Done () (ex3\<lparr>ex_flags := ex_flags ex3 - {EXF_WANTED}\<rparr>))"

definition extent_free ::
    "bool \<Rightarrow> extent_region option \<Rightarrow> extent \<Rightarrow> u_long \<Rightarrow> u_long \<Rightarrow> ex_arg set \<Rightarrow> unit ex_outcome" where
  "extent_free diag pool ex start sz flags =
     (let ende = start + (sz - 1) in
      if diag \<and> (start < ex_start ex \<or> ende > ex_end ex \<or> ende < start) then Panic
      else if EXF_NOCOALESCE \<in> ex_flags ex then free_finish ex start ende None
      else case extent_alloc_region_descriptor pool ex flags of
          NoDesc ex' \<Rightarrow> Fail ENOMEM ex'
        | DescSleep ex' \<Rightarrow> SleepDesc ex'
        | Desc nrp ex' \<Rightarrow> free_finish ex' start ende (Some nrp))"

section \<open>Invariant and abstraction\<close>

text \<open>
  The regions lie in the extent, are non-empty and come in ascending order without overlap;
  unless coalescing is off, two regions are never adjacent, so that each region is a maximal
  run of allocated numbers. Descriptors of an extent that is not fixed come from the pool.
\<close>

definition region_ok :: "u_long \<Rightarrow> u_long \<Rightarrow> extent_region \<Rightarrow> bool" where
  "region_ok lo hi r \<longleftrightarrow> lo \<le> er_start r \<and> er_start r \<le> er_end r \<and> er_end r \<le> hi"

definition apart :: "bool \<Rightarrow> extent_region \<Rightarrow> extent_region \<Rightarrow> bool" where
  "apart nocoal a b \<longleftrightarrow>
     (if nocoal then unat (er_end a) < unat (er_start b) else unat (er_end a) + 1 < unat (er_start b))"

definition regions_ok :: "bool \<Rightarrow> u_long \<Rightarrow> u_long \<Rightarrow> extent_region list \<Rightarrow> bool" where
  "regions_ok nocoal lo hi rs \<longleftrightarrow> list_all (region_ok lo hi) rs \<and> sorted_wrt (apart nocoal) rs"

abbreviation nocoal :: "extent \<Rightarrow> bool" where
  "nocoal ex \<equiv> EXF_NOCOALESCE \<in> ex_flags ex"

definition extent_inv :: "extent \<Rightarrow> bool" where
  "extent_inv ex \<longleftrightarrow> regions_ok (nocoal ex) (ex_start ex) (ex_end ex) (ex_regions ex)"

definition region_set :: "extent_region \<Rightarrow> nat set" where
  "region_set r = {unat (er_start r)..unat (er_end r)}"

definition regions_set :: "extent_region list \<Rightarrow> nat set" where
  "regions_set rs = (\<Union>r\<in>set rs. region_set r)"

definition allocated :: "extent \<Rightarrow> nat set" where
  "allocated ex = regions_set (ex_regions ex)"

lemma regions_set_simps [simp]:
  "regions_set [] = {}"
  "regions_set (r # rs) = region_set r \<union> regions_set rs"
  "regions_set (rs @ rs') = regions_set rs \<union> regions_set rs'"
  by (auto simp: regions_set_def)

lemma region_set_upd [simp]:
  "region_set (r\<lparr>er_flags := fl\<rparr>) = region_set r"
  by (simp add: region_set_def)

subsection \<open>Freeing a descriptor leaves the map alone\<close>

lemma free_descriptor_frame [simp]:
  "ex_regions (extent_free_region_descriptor ex rp) = ex_regions ex"
  "ex_start (extent_free_region_descriptor ex rp) = ex_start ex"
  "ex_end (extent_free_region_descriptor ex rp) = ex_end ex"
  "nocoal (extent_free_region_descriptor ex rp) = nocoal ex"
  "(EXF_FIXED \<in> ex_flags (extent_free_region_descriptor ex rp)) = (EXF_FIXED \<in> ex_flags ex)"
  "(EXF_WANTED \<in> ex_flags (extent_free_region_descriptor ex rp)) = (EXF_WANTED \<in> ex_flags ex)"
  by (auto simp: extent_free_region_descriptor_def)

lemma alloc_descriptor_frame:
  assumes "extent_alloc_region_descriptor pool ex flags = Desc rp ex'"
  shows "ex_regions ex' = ex_regions ex" and "ex_start ex' = ex_start ex" and "ex_end ex' = ex_end ex"
    and "ex_flags ex' = ex_flags ex"
  using assms
  by (auto simp: extent_alloc_region_descriptor_def Let_def split: if_splits list.splits option.splits)

subsection \<open>Insertion into a gap\<close>

text \<open>The insertion on the list split at the gap, as the source's case analysis.\<close>

definition merge_in ::
    "bool \<Rightarrow> u_long \<Rightarrow> u_long \<Rightarrow> extent_region \<Rightarrow> extent_region list \<Rightarrow> extent_region list \<Rightarrow> extent_region list" where
  "merge_in nc start sz rp xs ys =
     (let e = start + (sz - 1);
          l = (\<not> nc \<and> xs \<noteq> [] \<and> er_end (last xs) + 1 = start);
          r = (\<not> nc \<and> ys \<noteq> [] \<and> start + sz = er_start (hd ys))
      in if l \<and> r then butlast xs @ (last xs)\<lparr>er_end := er_end (hd ys)\<rparr> # tl ys
         else if l then butlast xs @ (last xs)\<lparr>er_end := e\<rparr> # ys
         else if r then xs @ (hd ys)\<lparr>er_start := start\<rparr> # tl ys
         else xs @ rp\<lparr>er_start := start, er_end := e\<rparr> # ys)"

lemma insert_regions:
  assumes "ex_regions ex = xs @ ys"
  shows "ex_regions (extent_insert_and_optimize ex start sz (length xs) rp) =
    merge_in (nocoal ex) start sz rp xs ys"
proof (cases xs rule: rev_cases)
  case Nil
  with assms show ?thesis
    by (cases ys) (auto simp: extent_insert_and_optimize_def merge_in_def Let_def)
next
  case (snoc xs' a)
  with assms show ?thesis
    by (cases ys)
      (auto simp: extent_insert_and_optimize_def merge_in_def Let_def nth_append list_update_append)
qed

lemma insert_frame [simp]:
  "ex_start (extent_insert_and_optimize ex start sz n rp) = ex_start ex"
  "ex_end (extent_insert_and_optimize ex start sz n rp) = ex_end ex"
  "nocoal (extent_insert_and_optimize ex start sz n rp) = nocoal ex"
  by (auto simp: extent_insert_and_optimize_def Let_def)

text \<open>
  A request \<open>start .. e\<close> that lies between the regions \<open>xs\<close> and \<open>ys\<close>, and in the extent.
\<close>

definition in_gap ::
    "u_long \<Rightarrow> u_long \<Rightarrow> extent_region list \<Rightarrow> extent_region list \<Rightarrow> u_long \<Rightarrow> u_long \<Rightarrow> bool" where
  "in_gap lo hi xs ys start e \<longleftrightarrow> lo \<le> start \<and> start \<le> e \<and> e \<le> hi
     \<and> (\<forall>r\<in>set xs. er_end r < start) \<and> (\<forall>r\<in>set ys. e < er_start r)"

lemma merge_in_nat:
  assumes gap: "in_gap lo hi xs ys start (start + (sz - 1))"
  defines "e \<equiv> start + (sz - 1)"
  shows "merge_in nc start sz rp xs ys =
     (let l = (\<not> nc \<and> xs \<noteq> [] \<and> unat (er_end (last xs)) + 1 = unat start);
          r = (\<not> nc \<and> ys \<noteq> [] \<and> unat e + 1 = unat (er_start (hd ys)))
      in if l \<and> r then butlast xs @ (last xs)\<lparr>er_end := er_end (hd ys)\<rparr> # tl ys
         else if l then butlast xs @ (last xs)\<lparr>er_end := e\<rparr> # ys
         else if r then xs @ (hd ys)\<lparr>er_start := start\<rparr> # tl ys
         else xs @ rp\<lparr>er_start := start, er_end := e\<rparr> # ys)"
proof -
  have l: "er_end (last xs) + 1 = start \<longleftrightarrow> unat (er_end (last xs)) + 1 = unat start" if "xs \<noteq> []"
    using gap that by (intro succ_eq_iff_below [of _ start]) (simp add: in_gap_def)
  have "start + sz = e + 1" by (simp add: e_def)
  moreover have "e + 1 = er_start (hd ys) \<longleftrightarrow> unat e + 1 = unat (er_start (hd ys))" if "ys \<noteq> []"
    using gap that by (intro succ_eq_iff_below [of _ "er_start (hd ys)"]) (simp add: in_gap_def e_def)
  ultimately show ?thesis
    using l by (auto simp: merge_in_def Let_def e_def [symmetric])
qed

lemmas region_nat = region_ok_def apart_def region_set_def word_le_nat_alt word_less_nat_alt

lemma merge_in_ok:
  assumes ok: "regions_ok nc lo hi (xs @ ys)" and gap: "in_gap lo hi xs ys start (start + (sz - 1))"
  shows "regions_ok nc lo hi (merge_in nc start sz rp xs ys)"
proof -
  obtain e where e: "e = start + (sz - 1)" by simp
  have bounds: "\<forall>r\<in>set xs. unat (er_end r) < unat start" "\<forall>r\<in>set ys. unat e < unat (er_start r)"
    "unat lo \<le> unat start" "unat start \<le> unat e" "unat e \<le> unat hi"
    using gap by (auto simp: in_gap_def e word_le_nat_alt word_less_nat_alt)
  show ?thesis
  proof (cases xs rule: rev_cases)
    case Nil
    with ok bounds show ?thesis
      unfolding merge_in_nat [OF gap] e [symmetric]
      by (cases ys) (auto simp: regions_ok_def list_all_iff region_nat Let_def)
  next
    case (snoc xs' a)
    with ok bounds show ?thesis
      unfolding merge_in_nat [OF gap] e [symmetric]
      by (cases ys) (fastforce simp: regions_ok_def list_all_iff region_nat Let_def sorted_wrt_append)+
  qed
qed

lemma merge_in_set:
  assumes ok: "regions_ok nc lo hi (xs @ ys)" and gap: "in_gap lo hi xs ys start (start + (sz - 1))"
  shows "regions_set (merge_in nc start sz rp xs ys) =
      regions_set (xs @ ys) \<union> {unat start..unat (start + (sz - 1))}"
proof -
  obtain e where e: "e = start + (sz - 1)" by simp
  have bounds: "\<forall>r\<in>set xs. unat (er_end r) < unat start" "\<forall>r\<in>set ys. unat e < unat (er_start r)"
    "unat start \<le> unat e"
    using gap by (auto simp: in_gap_def e word_le_nat_alt word_less_nat_alt)
  have "xs \<noteq> [] \<Longrightarrow> unat (er_start (last xs)) \<le> unat (er_end (last xs))"
    "ys \<noteq> [] \<Longrightarrow> unat (er_start (hd ys)) \<le> unat (er_end (hd ys))"
    using ok by (auto simp: regions_ok_def list_all_iff region_nat)
  with bounds show ?thesis
    unfolding merge_in_nat [OF gap] e [symmetric]
    by (cases xs rule: rev_cases; cases ys) (auto simp: region_set_def Let_def)
qed

lemma insert_correct:
  fixes rp :: extent_region
  assumes inv: "extent_inv ex" and rs: "ex_regions ex = xs @ ys"
    and gap: "in_gap (ex_start ex) (ex_end ex) xs ys start (start + (sz - 1))"
  defines "ex' \<equiv> extent_insert_and_optimize ex start sz (length xs) rp"
  shows "extent_inv ex'"
    and "allocated ex' = allocated ex \<union> {unat start..unat (start + (sz - 1))}"
    and "allocated ex \<inter> {unat start..unat (start + (sz - 1))} = {}"
proof -
  have ok: "regions_ok (nocoal ex) (ex_start ex) (ex_end ex) (xs @ ys)"
    using inv by (simp add: extent_inv_def rs)
  show "extent_inv ex'"
    using merge_in_ok [OF ok gap] by (simp add: ex'_def extent_inv_def insert_regions [OF rs])
  show "allocated ex' = allocated ex \<union> {unat start..unat (start + (sz - 1))}"
    using merge_in_set [OF ok gap] by (simp add: ex'_def allocated_def insert_regions [OF rs] rs)
  show "allocated ex \<inter> {unat start..unat (start + (sz - 1))} = {}"
    using gap by (fastforce simp: allocated_def rs regions_set_def in_gap_def region_nat)
qed

subsection \<open>Allocating a given region\<close>

lemma alloc_scan_Some:
  assumes "alloc_scan rs s e n = Some k" and "sorted_wrt (apart nc) rs"
    and "list_all (region_ok lo hi) rs"
  shows "\<exists>xs ys. rs = xs @ ys \<and> k = n + length xs
    \<and> (\<forall>r\<in>set xs. er_end r < s) \<and> (\<forall>r\<in>set ys. e < er_start r)"
  using assms
proof (induction rs s e n rule: alloc_scan.induct)
  case (1 s e n)
  then show ?case by simp
next
  case (2 rp rs s e n)
  show ?case
  proof (cases "er_start rp > e")
    case True
    with "2.prems" have "\<forall>r\<in>set (rp # rs). e < er_start r"
      by (fastforce simp: list_all_iff region_nat split: if_splits)
    with True "2.prems"(1) show ?thesis by (intro exI [of _ "[]"] exI [of _ "rp # rs"]) auto
  next
    case False
    with 2 obtain xs ys where "rs = xs @ ys" "k = n + 1 + length xs"
      "\<forall>r\<in>set xs. er_end r < s" "\<forall>r\<in>set ys. e < er_start r" "er_end rp < s"
      by (force split: if_splits)
    then show ?thesis by (intro exI [of _ "rp # xs"] exI [of _ ys]) auto
  qed
qed

lemma alloc_scan_None:
  assumes "alloc_scan rs s e n = None" and "s \<le> e" and "list_all (region_ok lo hi) rs"
  shows "regions_set rs \<inter> {unat s..unat e} \<noteq> {}"
  using assms
proof (induction rs s e n rule: alloc_scan.induct)
  case (2 rp rs s e n)
  then show ?case
  proof (cases "er_end rp \<ge> s")
    case True
    with "2.prems" have "max (unat s) (unat (er_start rp)) \<in> region_set rp \<inter> {unat s..unat e}"
      by (auto simp: region_nat split: if_splits)
    then show ?thesis by auto
  qed (auto split: if_splits)
qed simp

lemma alloc_region_start_spec:
  assumes inv: "extent_inv ex" and le: "start \<le> start + (sz - 1)"
    and range: "ex_start ex \<le> start" "start + (sz - 1) \<le> ex_end ex"
  shows "case alloc_region_start ex start sz flags myrp of
      Done _ ex' \<Rightarrow> extent_inv ex' \<and> allocated ex \<inter> {unat start..unat (start + (sz - 1))} = {}
        \<and> allocated ex' = allocated ex \<union> {unat start..unat (start + (sz - 1))}
    | Fail e ex' \<Rightarrow> e = EAGAIN \<and> EX_WAITSPACE \<notin> flags \<and> ex_regions ex' = ex_regions ex
        \<and> allocated ex \<inter> {unat start..unat (start + (sz - 1))} \<noteq> {}
    | SleepSpace ex' rp \<Rightarrow> rp = myrp \<and> EX_WAITSPACE \<in> flags \<and> EXF_WANTED \<in> ex_flags ex'
        \<and> ex_regions ex' = ex_regions ex \<and> allocated ex \<inter> {unat start..unat (start + (sz - 1))} \<noteq> {}
    | _ \<Rightarrow> False"
proof -
  have ok: "list_all (region_ok (ex_start ex) (ex_end ex)) (ex_regions ex)"
    "sorted_wrt (apart (nocoal ex)) (ex_regions ex)"
    using inv by (simp_all add: extent_inv_def regions_ok_def)
  show ?thesis
  proof (cases "alloc_scan (ex_regions ex) start (start + (sz - 1)) 0")
    case None
    from alloc_scan_None [OF None le ok(1)] None show ?thesis
      by (simp add: alloc_region_start_def allocated_def)
  next
    case (Some k)
    from alloc_scan_Some [OF Some ok(2,1)] obtain xs ys where
      rs: "ex_regions ex = xs @ ys" and k: "k = length xs"
      and gap: "in_gap (ex_start ex) (ex_end ex) xs ys start (start + (sz - 1))"
      using le range by (auto simp: in_gap_def)
    from insert_correct [OF inv rs gap] Some k show ?thesis
      by (simp add: alloc_region_start_def)
  qed
qed

subsection \<open>Freeing\<close>

text \<open>
  A successful search replaces one region, which contains the request, by what is left of it
  on either side.
\<close>

definition span :: "extent_region \<Rightarrow> u_long \<times> u_long" where
  "span r = (er_start r, er_end r)"

lemma free_scan_split:
  assumes "free_scan nc rs s e nrp = Some (rs', d, u)"
  shows "\<exists>xs rp ys mid. rs = xs @ rp # ys \<and> rs' = xs @ mid @ ys \<and> er_start rp \<le> s \<and> e \<le> er_end rp
    \<and> map span mid = (if er_start rp < s then [(er_start rp, s - 1)] else [])
        @ (if e < er_end rp then [(e + 1, er_end rp)] else [])"
  using assms
proof (induction rs arbitrary: rs' d u)
  case (Cons rp rs)
  show ?case
  proof (cases "\<exists>rs''. rs' = rp # rs'' \<and> free_scan nc rs s e nrp = Some (rs'', d, u)")
    case True
    then obtain rs'' where "rs' = rp # rs''" "free_scan nc rs s e nrp = Some (rs'', d, u)" by blast
    with Cons.IH obtain xs r ys mid where *: "rs = xs @ r # ys" "rs' = rp # xs @ mid @ ys"
      "er_start r \<le> s" "e \<le> er_end r"
      "map span mid = (if er_start r < s then [(er_start r, s - 1)] else [])
        @ (if e < er_end r then [(e + 1, er_end r)] else [])"
      by blast
    then show ?thesis by (intro exI [of _ "rp # xs"] exI [of _ r] exI [of _ ys] exI [of _ mid]) simp
  next
    case False
    with Cons.prems obtain mid where "rs' = mid @ rs" "er_start rp \<le> s" "e \<le> er_end rp"
      "map span mid = (if er_start rp < s then [(er_start rp, s - 1)] else [])
        @ (if e < er_end rp then [(e + 1, er_end rp)] else [])"
      by (fastforce simp: Let_def span_def split: if_splits option.splits)
    then show ?thesis by (intro exI [of _ "[]"] exI [of _ rp] exI [of _ rs] exI [of _ mid]) simp
  qed
qed simp

lemma free_split_ok:
  assumes ok: "regions_ok nc lo hi (xs @ rp # ys)" and "er_start rp \<le> s" "s \<le> e" "e \<le> er_end rp"
    and mid: "map span mid = (if er_start rp < s then [(er_start rp, s - 1)] else [])
        @ (if e < er_end rp then [(e + 1, er_end rp)] else [])"
  shows "regions_ok nc lo hi (xs @ mid @ ys)"
    and "regions_set (xs @ mid @ ys) = regions_set (xs @ rp # ys) - {unat s..unat e}"
    and "{unat s..unat e} \<subseteq> regions_set (xs @ rp # ys)"
proof -
  have succ: "e < er_end rp \<Longrightarrow> unat (e + 1) = unat e + 1" and pred: "er_start rp < s \<Longrightarrow> unat (s - 1) = unat s - 1"
    by (rule unat_succ_below, assumption) (rule unat_pred_above, assumption)
  note nats = region_nat regions_ok_def list_all_iff sorted_wrt_append
  have sep: "\<forall>r\<in>set xs. unat (er_end r) < unat (er_start rp)" "\<forall>r\<in>set ys. unat (er_end rp) < unat (er_start r)"
    using ok by (auto simp: nats split: if_splits)
  show "{unat s..unat e} \<subseteq> regions_set (xs @ rp # ys)"
    using assms(2-4) by (auto simp: nats)
  have el: "\<forall>r\<in>set mid. er_start rp \<le> er_start r \<and> er_start r \<le> er_end r \<and> er_end r \<le> er_end rp"
    using mid assms(2-4) succ pred
    by (auto simp: span_def word_le_nat_alt word_less_nat_alt map_eq_Cons_conv split: if_splits)
  have "sorted_wrt (apart nc) mid"
    using mid assms(2-4) succ pred
    by (auto simp: span_def nats map_eq_Cons_conv split: if_splits)
  with ok el show "regions_ok nc lo hi (xs @ mid @ ys)"
    by (fastforce simp: nats split: if_splits)
  have "regions_set mid = region_set rp - {unat s..unat e}"
    using mid assms(2-4) succ pred
    by (auto simp: span_def nats map_eq_Cons_conv split: if_splits)
  moreover have "regions_set xs \<inter> {unat s..unat e} = {}" "regions_set ys \<inter> {unat s..unat e} = {}"
    using sep assms(2-4) by (fastforce simp: regions_set_def nats)+
  ultimately show "regions_set (xs @ mid @ ys) = regions_set (xs @ rp # ys) - {unat s..unat e}"
    by auto
qed

text \<open>
  With coalescing every allocated run is one region, so that freeing any part of the allocated
  numbers finds its region.
\<close>

lemma free_scan_complete:
  assumes "regions_ok False lo hi rs" and "s \<le> e" and "{unat s..unat e} \<subseteq> regions_set rs"
  shows "free_scan False rs s e (Some d) \<noteq> None"
  using assms
proof (induction rs)
  case (Cons rp rs)
  have ok: "regions_ok False lo hi rs" "region_ok lo hi rp" "\<forall>r\<in>set rs. apart False rp r"
    using Cons.prems(1) by (auto simp: regions_ok_def)
  have beyond: "unat (er_end rp) + 1 < n" if "n \<in> regions_set rs" for n
    using ok that by (auto simp: regions_set_def region_nat regions_ok_def list_all_iff)
  show ?case
  proof (cases "er_end rp < s")
    case True
    then have "region_set rp \<inter> {unat s..unat e} = {}" by (auto simp: region_nat)
    with Cons.prems(3) have "{unat s..unat e} \<subseteq> regions_set rs" by auto
    with Cons.IH ok(1) Cons.prems(2) True show ?thesis by simp
  next
    case False
    have "unat s \<in> region_set rp"
      using Cons.prems(2,3) beyond [of "unat s"] False by (force simp: word_le_nat_alt word_less_nat_alt)
    moreover have "e \<le> er_end rp"
    proof (rule ccontr)
      assume "\<not> e \<le> er_end rp"
      with False have "unat (er_end rp) + 1 \<in> {unat s..unat e}" by (auto simp: word_le_nat_alt word_less_nat_alt)
      with Cons.prems(3) beyond [of "unat (er_end rp) + 1"] show False
        by (auto simp: region_set_def)
    qed
    ultimately show ?thesis
      using False Cons.prems(2) by (auto simp: Let_def region_set_def word_le_nat_alt word_less_nat_alt word_unat_eq_iff)
  qed
qed (simp add: word_le_nat_alt)

lemma free_finish_Done:
  assumes inv: "extent_inv ex" and le: "s \<le> e" and fin: "free_finish ex s e nrp = Done u ex'"
  shows "extent_inv ex'" and "{unat s..unat e} \<subseteq> allocated ex"
    and "allocated ex' = allocated ex - {unat s..unat e}" and "EXF_WANTED \<notin> ex_flags ex'"
proof -
  obtain rs released used where
    scan: "free_scan (nocoal ex) (ex_regions ex) s e nrp = Some (rs, released, used)"
    using fin by (auto simp: free_finish_def split: option.splits)
  have ex': "ex_regions ex' = rs" "ex_start ex' = ex_start ex" "ex_end ex' = ex_end ex"
      "nocoal ex' = nocoal ex" "EXF_WANTED \<notin> ex_flags ex'"
    using fin unfolding free_finish_def scan Let_def by (auto split: option.splits if_splits)
  from free_scan_split [OF scan] obtain xs rp ys mid where
    s: "ex_regions ex = xs @ rp # ys" "rs = xs @ mid @ ys" "er_start rp \<le> s" "e \<le> er_end rp"
    "map span mid = (if er_start rp < s then [(er_start rp, s - 1)] else [])
        @ (if e < er_end rp then [(e + 1, er_end rp)] else [])"
    by blast
  have "regions_ok (nocoal ex) (ex_start ex) (ex_end ex) (xs @ rp # ys)"
    using inv s(1) by (simp add: extent_inv_def)
  note res = free_split_ok [OF this s(3) le s(4,5)]
  show "extent_inv ex'" using res(1) s(2) ex' by (simp add: extent_inv_def)
  show "{unat s..unat e} \<subseteq> allocated ex" using res(3) s(1) by (simp add: allocated_def)
  show "allocated ex' = allocated ex - {unat s..unat e}"
    using res(2) s(1,2) ex'(1) by (simp add: allocated_def)
  show "EXF_WANTED \<notin> ex_flags ex'" by (rule ex'(5))
qed

lemma alloc_descriptor_inv:
  assumes "extent_alloc_region_descriptor pool ex flags = Desc rp ex'"
  shows "extent_inv ex' = extent_inv ex" and "allocated ex' = allocated ex"
  using alloc_descriptor_frame [OF assms] by (simp_all add: extent_inv_def allocated_def)

lemma extent_free_Done:
  assumes inv: "extent_inv ex" and le: "start \<le> start + (sz - 1)"
    and "extent_free diag pool ex start sz flags = Done u ex'"
  shows "extent_inv ex'" and "{unat start..unat (start + (sz - 1))} \<subseteq> allocated ex"
    and "allocated ex' = allocated ex - {unat start..unat (start + (sz - 1))}"
    and "EXF_WANTED \<notin> ex_flags ex'"
proof -
  have *: "extent_inv ex' \<and> {unat start..unat (start + (sz - 1))} \<subseteq> allocated ex
    \<and> allocated ex' = allocated ex - {unat start..unat (start + (sz - 1))} \<and> EXF_WANTED \<notin> ex_flags ex'"
    if "extent_inv ex1" "allocated ex1 = allocated ex"
      "free_finish ex1 start (start + (sz - 1)) nrp = Done u ex'" for ex1 nrp
    using free_finish_Done [OF that(1) le that(3)] that(2) by simp
  have "extent_inv ex' \<and> {unat start..unat (start + (sz - 1))} \<subseteq> allocated ex
    \<and> allocated ex' = allocated ex - {unat start..unat (start + (sz - 1))} \<and> EXF_WANTED \<notin> ex_flags ex'"
  proof (cases "nocoal ex")
    case True
    with assms(3) have "free_finish ex start (start + (sz - 1)) None = Done u ex'"
      by (simp add: extent_free_def Let_def split: if_splits)
    with * inv show ?thesis by blast
  next
    case False
    with assms(3) obtain nrp ex1 where d: "extent_alloc_region_descriptor pool ex flags = Desc nrp ex1"
      and fin: "free_finish ex1 start (start + (sz - 1)) (Some nrp) = Done u ex'"
      by (auto simp: extent_free_def Let_def split: if_splits desc_outcome.splits)
    from * [OF _ _ fin] alloc_descriptor_inv [OF d] inv show ?thesis by simp
  qed
  then show "extent_inv ex'" and "{unat start..unat (start + (sz - 1))} \<subseteq> allocated ex"
    and "allocated ex' = allocated ex - {unat start..unat (start + (sz - 1))}"
    and "EXF_WANTED \<notin> ex_flags ex'"
    by blast+
qed

lemma extent_free_succeeds:
  assumes inv: "extent_inv ex" and le: "start \<le> start + (sz - 1)" and "\<not> nocoal ex"
    and sub: "{unat start..unat (start + (sz - 1))} \<subseteq> allocated ex"
  shows "case extent_alloc_region_descriptor pool ex flags of
      Desc d ex0 \<Rightarrow> \<exists>ex'. extent_free diag pool ex start sz flags = Done () ex'
    | NoDesc ex0 \<Rightarrow> extent_free diag pool ex start sz flags = Fail ENOMEM ex0
    | DescSleep ex0 \<Rightarrow> extent_free diag pool ex start sz flags = SleepDesc ex0"
proof -
  have ok: "regions_ok False (ex_start ex) (ex_end ex) (ex_regions ex)"
    using inv assms(3) by (simp add: extent_inv_def)
  have scan: "free_scan False (ex_regions ex) start (start + (sz - 1)) (Some d) \<noteq> None" for d
    using free_scan_complete [OF ok le] sub by (simp add: allocated_def)
  have "unat start \<in> allocated ex" "unat (start + (sz - 1)) \<in> allocated ex"
    using sub le by (auto simp: word_le_nat_alt)
  then have "ex_start ex \<le> start" "start + (sz - 1) \<le> ex_end ex"
    using ok by (auto simp: allocated_def regions_set_def regions_ok_def list_all_iff region_nat)
  moreover have "\<exists>ex''. free_finish ex' start (start + (sz - 1)) (Some d) = Done () ex''"
    if "extent_alloc_region_descriptor pool ex flags = Desc d ex'" for d ex'
    using scan [of d] alloc_descriptor_frame [OF that] assms(3)
    by (auto simp: free_finish_def Let_def)
  ultimately show ?thesis
    using assms(3) le by (auto simp: extent_free_def Let_def split: desc_outcome.splits)
qed

subsection \<open>Alignment\<close>

definition pow2 :: "u_long \<Rightarrow> bool" where
  "pow2 a \<longleftrightarrow> (\<exists>n<64. unat a = 2 ^ n)"

lemma and_neg_pow2:
  fixes w a :: u_long
  assumes "unat a = 2 ^ n" and "n < 64"
  shows "w AND (- a) = w - word_of_nat (unat w mod unat a)"
proof -
  have "a = word_of_nat (unat a)" by simp
  with assms(1) have a: "a = 2 ^ n" by simp
  have "- a = NOT (mask n)" by (simp add: a mask_eq_exp_minus_1 not_eq_complement)
  moreover have "w = (w AND mask n) + (w AND NOT (mask n))"
    by (subst disjunctive_add) (auto simp: bit_simps intro: bit_eqI)
  moreover have "unat (w AND mask n) = take_bit n (unat w)"
    by (simp only: take_bit_eq_mask [symmetric] unsigned_take_bit_eq)
  then have "word_of_nat (unat (w AND mask n)) = (word_of_nat (unat w mod unat a) :: u_long)"
    by (simp only: assms(1) take_bit_eq_mod)
  then have "w AND mask n = word_of_nat (unat w mod unat a)" by simp
  ultimately show ?thesis by (metis add_diff_cancel_left')
qed

text \<open>
  \<^verbatim>\<open>extent_align\<close> rounds up to the next number congruent to the skew, if that does not leave
  the machine range.
\<close>

lemma extent_align_correct:
  fixes skew :: u_long
  assumes "pow2 align" and "unat start + unat align \<le> 2 ^ 64"
  defines "x \<equiv> extent_align start align skew"
  shows "unat start \<le> unat x" and "unat x < unat start + unat align"
    and "unat align dvd unat (x - skew)"
proof -
  obtain n where n: "unat align = 2 ^ n" "n < 64" using assms(1) by (auto simp: pow2_def)
  define w where "w = (start - skew) + (align - 1)"
  define r where "r = unat w mod unat align"
  have r: "r < unat align" using n by (simp add: r_def)
  have x: "x = w - word_of_nat r + skew"
    by (simp add: x_def extent_align_def and_neg_pow2 [OF n] w_def [symmetric] r_def)
  also have "\<dots> = start + (align - 1 - word_of_nat r)" by (simp add: w_def)
  finally have x2: "x = start + (align - 1 - word_of_nat r)" .
  have "unat align < 2 ^ LENGTH(64)" by (rule unsigned_less)
  then have ur: "unat (word_of_nat r :: u_long) = r"
    using r by (intro unat_word_of_nat_below) simp
  have a1: "unat (align - 1) = unat align - 1"
    using n unat_minus_below [of 1 align] by (simp add: word_le_nat_alt)
  have ua: "unat (align - 1 - word_of_nat r) = unat align - 1 - r"
    using r ur a1 by (subst unat_minus_below) (simp_all add: word_le_nat_alt)
  show "unat start \<le> unat x" and "unat x < unat start + unat align"
    using x2 ua r assms(2) by (simp_all add: unat_plus_below)
  have "r \<le> unat w" by (simp add: r_def)
  then have "unat (x - skew) = unat w - r"
    using ur x by (simp add: unat_minus_below word_le_nat_alt)
  then show "unat align dvd unat (x - skew)" by (simp add: r_def dvd_minus_mod)
qed

lemma dvd_diff_word:
  fixes x y a :: u_long
  assumes "pow2 a" and "unat a dvd unat x" and "unat a dvd unat y"
  shows "unat a dvd unat (x - y)"
proof -
  obtain n where n: "unat a = 2 ^ n" "n < 64" using assms(1) by (auto simp: pow2_def)
  have "(2::nat) ^ n dvd 2 ^ LENGTH(64)" using n(2) by (intro le_imp_power_dvd) simp
  then have big: "unat a dvd 2 ^ LENGTH(64)" by (simp only: n(1))
  show ?thesis
  proof (cases "y \<le> x")
    case True
    then show ?thesis using assms(2,3) by (simp add: unat_minus_below dvd_diff_nat)
  next
    case False
    then have "unat (x - y) = unat x + 2 ^ LENGTH(64) - unat y"
      by (simp add: unat_sub_if' word_le_nat_alt)
    then show ?thesis using assms(2,3) big by (simp add: dvd_diff_nat)
  qed
qed

text \<open>Two numbers with the same skew are equal or at least the alignment apart.\<close>

lemma aligned_apart:
  fixes L D a b :: u_long
  assumes "pow2 a" and "unat a dvd unat (L - b)" and "unat a dvd unat (D - b)" and "unat L < unat D"
  shows "unat L + unat a \<le> unat D"
proof -
  have "unat a dvd unat ((D - b) - (L - b))" by (rule dvd_diff_word [OF assms(1,3,2)])
  then have "unat a dvd unat D - unat L" using assms(4) by (simp add: unat_minus_below word_le_nat_alt)
  with assms(4) have "unat a \<le> unat D - unat L" by (intro dvd_imp_le) simp_all
  with assms(4) show ?thesis by simp
qed

lemma extent_align_least:
  assumes "pow2 a" and "unat start + unat a \<le> 2 ^ 64" and "unat a dvd unat (L - skew)"
    and "unat start \<le> unat L"
  shows "unat (extent_align start a skew) \<le> unat L"
proof (rule ccontr)
  assume "\<not> ?thesis"
  then have "unat L + unat a \<le> unat (extent_align start a skew)"
    using aligned_apart [OF assms(1,3) extent_align_correct(3) [OF assms(1,2)]] by simp
  with extent_align_correct(2) [OF assms(1,2), of skew] assms(4) show False by simp
qed

subsection \<open>Allocating in a subregion\<close>

text \<open>
  The conditions under which no address computation of the search leaves the machine range:
  the end of the extent plus the alignment (and the boundary) is a machine number.
\<close>

definition sub_pre ::
    "extent \<Rightarrow> u_long \<Rightarrow> u_long \<Rightarrow> u_long \<Rightarrow> u_long \<Rightarrow> u_long \<Rightarrow> bool" where
  "sub_pre ex substart subend sz alignment boundary \<longleftrightarrow>
     ex_start ex \<le> substart \<and> substart \<le> subend \<and> subend \<le> ex_end ex \<and> 0 < sz
     \<and> pow2 alignment \<and> unat (ex_end ex) + unat alignment < 2 ^ 64
     \<and> (boundary \<noteq> 0 \<longrightarrow>
          pow2 boundary \<and> sz \<le> boundary \<and> unat (ex_end ex) + unat boundary < 2 ^ 64)"

definition bound_skew :: "extent \<Rightarrow> ex_arg set \<Rightarrow> u_long" where
  "bound_skew ex flags = (if EX_BOUNDZERO \<in> flags then 0 else ex_start ex)"

text \<open>No boundary line lies strictly after the start and up to the end of the region.\<close>

definition no_crossing :: "extent \<Rightarrow> ex_arg set \<Rightarrow> u_long \<Rightarrow> u_long \<Rightarrow> u_long \<Rightarrow> bool" where
  "no_crossing ex flags boundary ns e \<longleftrightarrow>
     (\<forall>L. unat boundary dvd unat (L - bound_skew ex flags) \<longrightarrow> \<not> (ns < L \<and> L \<le> e))"

definition placed ::
    "extent \<Rightarrow> u_long \<Rightarrow> u_long \<Rightarrow> u_long \<Rightarrow> u_long \<Rightarrow> u_long \<Rightarrow> u_long \<Rightarrow> ex_arg set \<Rightarrow> u_long \<Rightarrow> bool" where
  "placed ex substart subend sz alignment skew boundary flags ns \<longleftrightarrow>
     substart \<le> ns \<and> ns \<le> ns + (sz - 1) \<and> ns + (sz - 1) \<le> subend
     \<and> (if boundary = 0 then unat alignment dvd unat (ns - skew)
        else no_crossing ex flags boundary ns (ns + (sz - 1)))"

lemma boundary_check_Fits:
  assumes pre: "sub_pre ex substart subend sz alignment boundary" and "boundary \<noteq> 0"
    and lo: "ex_start ex \<le> ns0" and e0: "ns0 \<le> ns0 + (sz - 1)" "ns0 + (sz - 1) \<le> ex_end ex"
    and fits: "fits ns0" "\<And>ns. fits ns \<Longrightarrow> ns \<le> ns + (sz - 1)"
    and res: "boundary_check ex boundary flags sz fits ns0 = Fits ns"
  shows "ns0 \<le> ns \<and> fits ns \<and> no_crossing ex flags boundary ns (ns + (sz - 1))"
proof -
  have b: "pow2 boundary" "sz \<le> boundary" "unat (ex_end ex) + unat boundary < 2 ^ 64"
    using pre assms(2) by (simp_all add: sub_pre_def)
  have bnd: "0 < unat boundary" using assms(2) by (simp add: unat_gt_0)
  have le: "unat ns0 \<le> unat (ex_end ex)" using e0 by (simp add: word_le_nat_alt)
  have s1: "unat (ns0 + 1) = unat ns0 + 1"
    using le b(3) bnd unat_plus_below [of ns0 1] by simp
  define D where "D = extent_align (ns0 + 1) boundary (bound_skew ex flags)"
  have room: "unat (ns0 + 1) + unat boundary \<le> 2 ^ 64" using s1 le b(3) by simp
  note D = extent_align_correct [OF b(1) room, of "bound_skew ex flags", folded D_def]
  have D1: "unat (D - 1) = unat D - 1" using D(1) s1 by (intro unat_pred_above [of ns0]) (simp add: word_less_nat_alt)
  have dc: "\<not> D - 1 < ex_start ex" using D(1) D1 s1 lo by (simp add: word_le_nat_alt word_less_nat_alt)
  have res': "if ns0 + (sz - 1) > D - 1 then fits D \<and> ns = D else ns = ns0"
    using res dc assms(2) by (auto simp: boundary_check_def Let_def D_def bound_skew_def split: if_splits)
  show ?thesis
  proof (cases "ns0 + (sz - 1) > D - 1")
    case True
    with res' have ns: "ns = D" "fits D" by simp_all
    have "no_crossing ex flags boundary D (D + (sz - 1))"
      unfolding no_crossing_def
    proof (intro allI impI notI, elim conjE)
      fix L assume L: "unat boundary dvd unat (L - bound_skew ex flags)" "D < L" "L \<le> D + (sz - 1)"
      have "unat (D + (sz - 1)) = unat D + unat (sz - 1)"
        using fits(2) [OF ns(2)] by (intro unat_plus_no_wrap) simp
      moreover have "unat (sz - 1) < unat boundary"
        using b(2) pre unat_pred_above [of 0 sz] by (auto simp: sub_pre_def word_le_nat_alt word_less_nat_alt)
      ultimately show False
        using aligned_apart [OF b(1) D(3) L(1)] L(2,3) by (simp add: word_le_nat_alt word_less_nat_alt)
    qed
    moreover have "ns0 \<le> D" using D(1) s1 by (simp add: word_le_nat_alt)
    ultimately show ?thesis using ns by simp
  next
    case False
    with res' have ns: "ns = ns0" by simp
    have "no_crossing ex flags boundary ns0 (ns0 + (sz - 1))"
      unfolding no_crossing_def
    proof (intro allI impI notI, elim conjE)
      fix L assume L: "unat boundary dvd unat (L - bound_skew ex flags)" "ns0 < L" "L \<le> ns0 + (sz - 1)"
      have "unat D \<le> unat L"
        unfolding D_def by (rule extent_align_least [OF b(1) room L(1)]) (use L(2) s1 in \<open>simp add: word_less_nat_alt\<close>)
      with False L(3) D1 D(1) s1 show False by (simp add: word_le_nat_alt word_less_nat_alt)
    qed
    with ns fits(1) show ?thesis by simp
  qed
qed

lemma LE_OV_nat: "LE_OV x y z \<longleftrightarrow> unat x + unat y \<le> unat z"
proof
  assume "LE_OV x y z"
  then show "unat x + unat y \<le> unat z"
    using unat_plus_no_wrap [of x y] by (simp add: LE_OV_def word_le_nat_alt word_less_nat_alt)
next
  assume *: "unat x + unat y \<le> unat z"
  have "unat z < 2 ^ LENGTH(64)" by (rule unsigned_less)
  with * have "unat (x + y) = unat x + unat y" by (intro unat_plus_below) linarith
  with * show "LE_OV x y z" by (simp add: LE_OV_def word_le_nat_alt)
qed

lemma size_pred: "0 < sz \<Longrightarrow> unat (sz - 1) = unat sz - 1" for sz :: u_long
  by (rule unat_pred_above)

text \<open>A place the search may return: between the first \<open>l\<close> regions and the rest.\<close>

definition candidate ::
    "extent \<Rightarrow> u_long \<Rightarrow> u_long \<Rightarrow> u_long \<Rightarrow> u_long \<Rightarrow> u_long \<Rightarrow> u_long \<Rightarrow> ex_arg set \<Rightarrow> u_long \<times> nat \<Rightarrow> bool" where
  "candidate ex substart subend sz alignment skew boundary flags c \<longleftrightarrow>
     (case c of (ns, l) \<Rightarrow> l \<le> length (ex_regions ex)
       \<and> in_gap (ex_start ex) (ex_end ex) (take l (ex_regions ex)) (drop l (ex_regions ex)) ns (ns + (sz - 1))
       \<and> placed ex substart subend sz alignment skew boundary flags ns)"

text \<open>
  The loop's state between two regions: the candidate start lies after all regions passed, and
  is aligned.
\<close>

definition scan_at :: "extent \<Rightarrow> u_long \<Rightarrow> u_long \<Rightarrow> u_long \<Rightarrow> u_long \<Rightarrow> nat \<Rightarrow> bool" where
  "scan_at ex substart alignment skew ns l \<longleftrightarrow> l \<le> length (ex_regions ex) \<and> substart \<le> ns
     \<and> (\<forall>r\<in>set (take l (ex_regions ex)). er_end r < ns) \<and> unat alignment dvd unat (ns - skew)"

lemma fit_candidate:
  assumes pre: "sub_pre ex substart subend sz alignment boundary" and at: "scan_at ex substart alignment skew ns l"
    and fits: "fits ns" "\<And>ns. fits ns \<Longrightarrow> unat ns + unat (sz - 1) \<le> unat subend
        \<and> (\<forall>r\<in>set (drop l (ex_regions ex)). unat ns + unat (sz - 1) < unat (er_start r))"
    and chk: "boundary_check ex boundary flags sz fits ns = Fits ns'"
  shows "candidate ex substart subend sz alignment skew boundary flags (ns', l)"
proof -
  have sub: "ex_start ex \<le> substart" "subend \<le> ex_end ex" using pre by (simp_all add: sub_pre_def)
  have nat: "unat (n + (sz - 1)) = unat n + unat (sz - 1)" if "fits n" for n
  proof -
    have "unat subend < 2 ^ LENGTH(64)" by (rule unsigned_less)
    with fits(2) [OF that] show ?thesis by (intro unat_plus_below) linarith
  qed
  have ge: "substart \<le> ns" using at by (simp add: scan_at_def)
  have "ns \<le> ns' \<and> fits ns' \<and> (boundary = 0 \<longrightarrow> ns' = ns)
      \<and> (boundary \<noteq> 0 \<longrightarrow> no_crossing ex flags boundary ns' (ns' + (sz - 1)))"
  proof (cases "boundary = 0")
    case True
    with chk fits(1) show ?thesis by (simp add: boundary_check_def)
  next
    case False
    have "ex_start ex \<le> ns" using sub ge by simp
    moreover have "n \<le> n + (sz - 1)" if "fits n" for n using nat [OF that] by (simp add: word_le_nat_alt)
    moreover have "ns + (sz - 1) \<le> ex_end ex"
      using nat [OF fits(1)] fits(2) [OF fits(1)] sub by (simp add: word_le_nat_alt)
    ultimately show ?thesis
      using boundary_check_Fits [OF pre False _ _ _ fits(1) _ chk] fits(1) False by blast
  qed
  with at sub nat [of ns'] fits(2) [of ns'] show ?thesis
    by (auto simp: candidate_def placed_def in_gap_def scan_at_def word_le_nat_alt word_less_nat_alt)
qed

lemma region_in_extent:
  assumes "extent_inv ex" and "r \<in> set (ex_regions ex)"
  shows "unat (ex_start ex) \<le> unat (er_start r)" and "unat (er_start r) \<le> unat (er_end r)"
    and "unat (er_end r) \<le> unat (ex_end ex)"
  using assms by (auto simp: extent_inv_def regions_ok_def list_all_iff region_nat)

text \<open>Skipping past a region, and that no aligned place is missed by it.\<close>

lemma scan_at_next:
  fixes skew :: u_long
  assumes pre: "sub_pre ex substart subend sz alignment boundary" and inv: "extent_inv ex"
    and rp: "drop l (ex_regions ex) = rp # rs" and lo: "substart \<le> er_end rp"
  defines "ns' \<equiv> extent_align (er_end rp + 1) alignment skew"
  shows "er_end rp < ns'" and "scan_at ex substart alignment skew ns' (l + 1)"
    and "\<And>c. unat alignment dvd unat (c - skew) \<Longrightarrow> er_end rp < c \<Longrightarrow> unat ns' \<le> unat c"
proof -
  have mem: "rp \<in> set (ex_regions ex)" by (metis rp in_set_dropD list.set_intros(1))
  note r = region_in_extent [OF inv mem]
  have al: "pow2 alignment" "unat (ex_end ex) + unat alignment < 2 ^ 64"
    using pre by (simp_all add: sub_pre_def)
  have "0 < unat alignment" using al(1) by (auto simp: pow2_def)
  then have s1: "unat (er_end rp + 1) = unat (er_end rp) + 1"
    using r al(2) unat_plus_below [of "er_end rp" 1] by simp
  have room: "unat (er_end rp + 1) + unat alignment \<le> 2 ^ 64" using s1 r al(2) by simp
  note x = extent_align_correct [OF al(1) room, of skew, folded ns'_def]
  show lt: "er_end rp < ns'" using x(1) s1 by (simp add: word_less_nat_alt)
  have "l < length (ex_regions ex)" using rp by (metis drop_all leI list.distinct(1))
  then have tk: "take (l + 1) (ex_regions ex) = take l (ex_regions ex) @ [rp]"
    using rp by (simp add: take_Suc_conv_app_nth nth_via_drop)
  have "er_end r < ns'" if "r \<in> set (take l (ex_regions ex))" for r
  proof -
    have "sorted_wrt (apart (nocoal ex)) (take l (ex_regions ex) @ rp # rs)"
      using inv rp by (metis append_take_drop_id extent_inv_def regions_ok_def)
    with that have "unat (er_end r) < unat (er_start rp)"
      by (auto simp: sorted_wrt_append apart_def split: if_splits)
    with lt r show ?thesis by (simp add: word_less_nat_alt)
  qed
  moreover have "substart \<le> ns'" using lo lt by (simp add: word_le_nat_alt word_less_nat_alt)
  ultimately show "scan_at ex substart alignment skew ns' (l + 1)"
    using lt x(3) \<open>l < length _\<close> unfolding scan_at_def tk by auto
  show "unat ns' \<le> unat c" if "unat alignment dvd unat (c - skew)" "er_end rp < c" for c
    unfolding ns'_def
    by (rule extent_align_least [OF al(1) room that(1)]) (use that(2) s1 in \<open>simp add: word_less_nat_alt\<close>)
qed

text \<open>An aligned free place of the subregion.\<close>

definition free_place ::
    "extent \<Rightarrow> u_long \<Rightarrow> u_long \<Rightarrow> u_long \<Rightarrow> u_long \<Rightarrow> u_long \<Rightarrow> u_long \<Rightarrow> bool" where
  "free_place ex substart subend sz alignment skew c \<longleftrightarrow>
     placed ex substart subend sz alignment skew 0 {} c
     \<and> allocated ex \<inter> {unat c..unat (c + (sz - 1))} = {}"

lemma free_place_nat:
  assumes "free_place ex substart subend sz alignment skew c"
  shows "unat (c + (sz - 1)) = unat c + unat (sz - 1)" and "unat c + unat (sz - 1) \<le> unat subend"
  using assms unat_plus_no_wrap [of c "sz - 1"]
  by (auto simp: free_place_def placed_def word_le_nat_alt word_less_nat_alt)

lemma free_place_after:
  assumes "free_place ex substart subend sz alignment skew c" and "rp \<in> set (ex_regions ex)"
    and "extent_inv ex" and "0 < sz" and "\<not> unat c + unat sz \<le> unat (er_start rp)"
  shows "er_end rp < c"
proof (rule ccontr)
  assume "\<not> er_end rp < c"
  then have "max (unat c) (unat (er_start rp)) \<in> region_set rp \<inter> {unat c..unat (c + (sz - 1))}"
    using region_in_extent [OF assms(3,2)] free_place_nat [OF assms(1)] assms(5) size_pred [OF assms(4)]
    by (auto simp: region_set_def word_less_nat_alt)
  with assms(1,2) show False by (auto simp: free_place_def allocated_def regions_set_def)
qed

definition good_best ::
    "extent \<Rightarrow> u_long \<Rightarrow> u_long \<Rightarrow> u_long \<Rightarrow> u_long \<Rightarrow> u_long \<Rightarrow> u_long \<Rightarrow> ex_arg set \<Rightarrow> best \<Rightarrow> bool" where
  "good_best ex substart subend sz alignment skew boundary flags best \<longleftrightarrow>
     (fst best \<noteq> 0 \<longrightarrow> candidate ex substart subend sz alignment skew boundary flags (snd best))"

definition exhausted ::
    "extent \<Rightarrow> u_long \<Rightarrow> u_long \<Rightarrow> u_long \<Rightarrow> u_long \<Rightarrow> u_long \<Rightarrow> u_long \<Rightarrow> best \<Rightarrow> u_long \<Rightarrow> bool" where
  "exhausted ex substart subend sz alignment skew boundary best ns \<longleftrightarrow>
     (boundary = 0 \<and> fst best = 0 \<longrightarrow>
       (\<forall>c. free_place ex substart subend sz alignment skew c \<longrightarrow> unat ns \<le> unat c))"

lemma better_good:
  assumes "good_best ex substart subend sz alignment skew boundary flags best"
    and "candidate ex substart subend sz alignment skew boundary flags (ns, l)" and "ovh \<noteq> 0"
  shows "good_best ex substart subend sz alignment skew boundary flags (better best ovh ns l)"
    and "fst (better best ovh ns l) \<noteq> 0"
  using assms by (auto simp: good_best_def better_def)

text \<open>What the loop over the regions has established when it ends.\<close>

fun loop_post ::
    "extent \<Rightarrow> u_long \<Rightarrow> u_long \<Rightarrow> u_long \<Rightarrow> u_long \<Rightarrow> u_long \<Rightarrow> u_long \<Rightarrow> ex_arg set \<Rightarrow> sub_scan \<Rightarrow> bool" where
  "loop_post ex substart subend sz alignment skew boundary flags (Found ns l) =
     candidate ex substart subend sz alignment skew boundary flags (ns, l)"
| "loop_post ex substart subend sz alignment skew boundary flags (AtEnd ns l exend best) =
     (scan_at ex substart alignment skew ns l \<and> (\<forall>r\<in>set (drop l (ex_regions ex)). subend < er_start r)
      \<and> good_best ex substart subend sz alignment skew boundary flags best
      \<and> exhausted ex substart subend sz alignment skew boundary best ns)"
| "loop_post ex substart subend sz alignment skew boundary flags (ScanFail best) =
     (boundary \<noteq> 0 \<and> good_best ex substart subend sz alignment skew boundary flags best)"

lemma subregion_loop_correct:
  assumes pre: "sub_pre ex substart subend sz alignment boundary" and inv: "extent_inv ex"
    and "drop l (ex_regions ex) = rs" and "scan_at ex substart alignment skew ns l"
    and "\<forall>r\<in>set rs. substart \<le> er_start r"
    and "good_best ex substart subend sz alignment skew boundary flags best"
    and "exhausted ex substart subend sz alignment skew boundary best ns"
  shows "loop_post ex substart subend sz alignment skew boundary flags
    (subregion_loop ex subend sz alignment skew boundary flags rs ns l best)"
  using assms(3-7)
proof (induction rs arbitrary: ns l best)
  case Nil
  then show ?case by simp
next
  case (Cons rp rs)
  have mem: "rp \<in> set (ex_regions ex)" by (metis Cons.prems(1) in_set_dropD list.set_intros(1))
  have "sorted_wrt (apart (nocoal ex)) (take l (ex_regions ex) @ rp # rs)"
    using inv Cons.prems(1) by (metis append_take_drop_id extent_inv_def regions_ok_def)
  then have later: "er_start rp \<le> er_start r" if "r \<in> set (rp # rs)" for r
    using that region_in_extent [OF inv mem]
    by (auto simp: sorted_wrt_append apart_def word_le_nat_alt split: if_splits)
  have drop': "drop (l + 1) (ex_regions ex) = rs"
    using Cons.prems(1) by (metis Suc_eq_plus1 drop_Suc list.sel(3) tl_drop)
  define ns' where "ns' = extent_align (er_end rp + 1) alignment skew"
  note nxt = scan_at_next [OF pre inv Cons.prems(1), where skew = skew, folded ns'_def]
  have lo: "substart \<le> er_end rp"
    using Cons.prems(3) region_in_extent(2) [OF inv mem] by (auto simp: word_le_nat_alt)
  have skip: "loop_post ex substart subend sz alignment skew boundary flags
      (subregion_loop ex subend sz alignment skew boundary flags rs ns' (l + 1) b)"
    if "good_best ex substart subend sz alignment skew boundary flags b"
      "exhausted ex substart subend sz alignment skew boundary b ns'" for b
    using Cons.IH [OF drop' nxt(2) [OF lo] _ that] Cons.prems(3) by simp
  have no_ov: "\<not> ns' < er_end rp" using nxt(1) [OF lo] by simp
  have ex_next: "exhausted ex substart subend sz alignment skew boundary best ns'"
    if "\<not> LE_OV ns sz (er_start rp)"
    unfolding exhausted_def
  proof (intro impI allI)
    fix c assume b: "boundary = 0 \<and> fst best = 0" and c: "free_place ex substart subend sz alignment skew c"
    from b c Cons.prems(5) have "unat ns \<le> unat c" by (simp add: exhausted_def)
    with that have "\<not> unat c + unat sz \<le> unat (er_start rp)" by (simp add: LE_OV_nat)
    with pre have "er_end rp < c" by (intro free_place_after [OF c mem inv]) (simp_all add: sub_pre_def)
    with c nxt(3) [OF lo, of c] show "unat ns' \<le> unat c" by (simp add: free_place_def placed_def)
  qed
  show ?case
  proof (cases "er_start rp > subend")
    case True
    with later Cons.prems show ?thesis by (auto intro: less_le_trans)
  next
    case False
    let ?fits = "\<lambda>n. LE_OV n sz (er_start rp)"
    have fit: "unat n + unat (sz - 1) \<le> unat subend
        \<and> (\<forall>r\<in>set (drop l (ex_regions ex)). unat n + unat (sz - 1) < unat (er_start r))" if "?fits n" for n
      using that False later pre size_pred [of sz]
      by (fastforce simp: LE_OV_nat Cons.prems(1) sub_pre_def word_le_nat_alt word_less_nat_alt)
    show ?thesis
    proof (cases "?fits ns")
      case nofit: False
      with False no_ov skip [OF Cons.prems(4) ex_next] show ?thesis
        by (simp add: Let_def ns'_def [symmetric])
    next
      case True
      show ?thesis
      proof (cases "boundary_check ex boundary flags sz ?fits ns")
        case (Fits n)
        note cand = fit_candidate [OF pre Cons.prems(2) True fit Fits]
        show ?thesis
        proof (cases "EX_FAST \<in> flags \<or> er_start rp - n - sz = 0")
          case True
          with Fits \<open>?fits ns\<close> False cand show ?thesis by (auto simp: Let_def)
        next
          case F: False
          then have "er_start rp - n - sz \<noteq> 0" by simp
          note b = better_good [OF Cons.prems(4) cand this]
          from b(2) have "exhausted ex substart subend sz alignment skew boundary
              (better best (er_start rp - n - sz) n l) ns'" by (simp add: exhausted_def)
          with skip [OF b(1)] F Fits \<open>?fits ns\<close> False no_ov show ?thesis
            by (simp add: Let_def ns'_def [symmetric])
        qed
      next
        case Skip
        then have "boundary \<noteq> 0" by (auto simp: boundary_check_def)
        then have "exhausted ex substart subend sz alignment skew boundary best ns'"
          by (simp add: exhausted_def)
        with skip [OF Cons.prems(4)] Skip True False no_ov show ?thesis
          by (simp add: Let_def ns'_def [symmetric])
      next
        case GoFail
        then have "boundary \<noteq> 0" by (auto simp: boundary_check_def)
        with GoFail True False Cons.prems(4) show ?thesis by (simp add: Let_def)
      qed
    qed
  qed
qed

text \<open>With \<^const>\<open>EX_FAST\<close> no best candidate is ever recorded.\<close>

fun scan_best :: "sub_scan \<Rightarrow> best" where
  "scan_best (Found ns l) = (0, 0, 0)"
| "scan_best (AtEnd ns l exend best) = best"
| "scan_best (ScanFail best) = best"

lemma loop_fast_best:
  assumes "EX_FAST \<in> flags" and "fst best = 0"
  shows "fst (scan_best (subregion_loop ex subend sz alignment skew boundary flags rs ns l best)) = 0"
  using assms
  by (induction rs arbitrary: ns l) (auto simp: Let_def split: bound_fit.splits)

lemma first_after_split:
  "first_after rs x \<le> length rs"
  "\<forall>r\<in>set (take (first_after rs x) rs). er_start r < x"
  "drop (first_after rs x) rs = [] \<or> x \<le> er_start (hd (drop (first_after rs x) rs))"
  by (induction rs) auto

text \<open>Where the loop over the regions starts.\<close>

lemma search_starts:
  fixes skew :: u_long
  assumes pre: "sub_pre ex substart subend sz alignment boundary" and inv: "extent_inv ex"
  defines "n0 \<equiv> extent_align substart alignment skew"
  defines "l \<equiv> first_after (ex_regions ex) n0"
  defines "ns \<equiv> (if l \<noteq> 0 \<and> er_end (ex_regions ex ! (l - 1)) \<ge> n0
                 then extent_align (er_end (ex_regions ex ! (l - 1)) + 1) alignment skew else n0)"
  shows "scan_at ex substart alignment skew ns l \<and> (\<forall>r\<in>set (drop l (ex_regions ex)). substart \<le> er_start r)
    \<and> exhausted ex substart subend sz alignment skew boundary best ns"
proof -
  let ?rs = "ex_regions ex"
  have al: "pow2 alignment" "unat substart + unat alignment \<le> 2 ^ 64" "0 < sz"
    using pre by (auto simp: sub_pre_def word_le_nat_alt)
  note n0 = extent_align_correct [OF al(1,2), of skew, folded n0_def]
  note sp = first_after_split [of ?rs n0, folded l_def]
  have srt: "sorted_wrt (apart (nocoal ex)) (take l ?rs @ drop l ?rs)"
    using inv by (simp add: extent_inv_def regions_ok_def)
  have first: "unat n0 \<le> unat c" if "free_place ex substart subend sz alignment skew c" for c
    unfolding n0_def
    by (rule extent_align_least [OF al(1,2)]) (use that in \<open>auto simp: free_place_def placed_def word_le_nat_alt\<close>)
  have "n0 \<le> er_start r" if "r \<in> set (drop l ?rs)" for r
  proof (cases "drop l ?rs")
    case Nil with that show ?thesis by simp
  next
    case (Cons a as)
    then have "a \<in> set ?rs" by (metis in_set_dropD list.set_intros(1))
    with Cons that sp(3) srt region_in_extent(2) [OF inv this] show ?thesis
      by (auto simp: sorted_wrt_append apart_def word_le_nat_alt split: if_splits)
  qed
  with n0(1) have after: "\<forall>r\<in>set (drop l ?rs). substart \<le> er_start r"
    by (meson order_trans word_le_nat_alt)
  show ?thesis
  proof (cases "l = 0")
    case True
    with after first n0 show ?thesis
      by (auto simp: ns_def scan_at_def exhausted_def word_le_nat_alt)
  next
    case False
    define rp where "rp = ?rs ! (l - 1)"
    have tk: "take l ?rs = take (l - 1) ?rs @ [rp]" and dr: "drop (l - 1) ?rs = rp # drop l ?rs"
      using False sp(1) take_Suc_conv_app_nth [of "l - 1" ?rs] Cons_nth_drop_Suc [of "l - 1" ?rs]
      by (simp_all add: rp_def)
    have mem: "rp \<in> set ?rs" and st: "er_start rp < n0"
      using sp(2) tk in_set_takeD [of rp l ?rs] by auto
    have le: "er_end r \<le> er_end rp" if "r \<in> set (take l ?rs)" for r
      using that srt region_in_extent(2) [OF inv mem]
      by (auto simp: tk sorted_wrt_append apart_def word_le_nat_alt split: if_splits)
    show ?thesis
    proof (cases "er_end rp \<ge> n0")
      case True
      then have ns: "ns = extent_align (er_end rp + 1) alignment skew"
        using False by (simp add: ns_def rp_def)
      have lo: "substart \<le> er_end rp" using True n0(1) by (simp add: word_le_nat_alt)
      note nxt = scan_at_next [OF pre inv dr lo, where skew = skew, folded ns]
      have "unat ns \<le> unat c" if c: "free_place ex substart subend sz alignment skew c" for c
      proof -
        have "\<not> unat c + unat sz \<le> unat (er_start rp)" using first [OF c] st by (simp add: word_less_nat_alt)
        with al(3) have "er_end rp < c" by (intro free_place_after [OF c mem inv])
        with c nxt(3) show ?thesis by (simp add: free_place_def placed_def)
      qed
      with nxt(2) False after show ?thesis by (simp add: exhausted_def)
    next
      case F: False
      then have ns: "ns = n0" by (simp add: ns_def rp_def)
      have "scan_at ex substart alignment skew ns l"
        using le F n0 sp(1) unfolding scan_at_def ns by (fastforce simp: word_le_nat_alt word_less_nat_alt)
      with after first ns show ?thesis by (simp add: exhausted_def)
    qed
  qed
qed

lemma subregion_search_correct:
  fixes skew :: u_long and flags :: "ex_arg set"
  assumes pre: "sub_pre ex substart subend sz alignment boundary" and inv: "extent_inv ex"
  defines "res \<equiv> subregion_search ex subend sz alignment skew boundary flags
    (extent_align substart alignment skew)"
  shows "res = Some c \<Longrightarrow> candidate ex substart subend sz alignment skew boundary flags c"
    and "res = None \<Longrightarrow> boundary = 0 \<Longrightarrow> \<not> free_place ex substart subend sz alignment skew x"
proof -
  define n0 where "n0 = extent_align substart alignment skew"
  define l where "l = first_after (ex_regions ex) n0"
  define ns where "ns = (if l \<noteq> 0 \<and> er_end (ex_regions ex ! (l - 1)) \<ge> n0
    then extent_align (er_end (ex_regions ex ! (l - 1)) + 1) alignment skew else n0)"
  define out where "out = subregion_loop ex subend sz alignment skew boundary flags
    (drop l (ex_regions ex)) ns l (0, 0, 0)"
  define fits where "fits = (\<lambda>ns. LE_OV ns (sz - 1) subend)"
  have res: "res = (case out of
           Found ns l \<Rightarrow> Some (ns, l)
         | ScanFail best \<Rightarrow> if EX_FAST \<notin> flags \<and> fst best \<noteq> 0 then Some (snd best) else None
         | AtEnd ns l exend best \<Rightarrow>
             (if fits ns then
                (case boundary_check ex boundary flags sz fits ns of
                   Skip \<Rightarrow> if EX_FAST \<notin> flags \<and> fst best \<noteq> 0 then Some (snd best) else None
                 | GoFail \<Rightarrow> if EX_FAST \<notin> flags \<and> fst best \<noteq> 0 then Some (snd best) else None
                 | Fits ns' \<Rightarrow>
                     let ovh = exend - ns' - (sz - 1) in
                     if EX_FAST \<in> flags \<or> ovh = 0 then Some (ns', l)
                     else if EX_FAST \<notin> flags \<and> fst (better best ovh ns' l) \<noteq> 0
                          then Some (snd (better best ovh ns' l)) else None)
              else if EX_FAST \<notin> flags \<and> fst best \<noteq> 0 then Some (snd best) else None))"
    unfolding res_def subregion_search_def Let_def out_def fits_def ns_def l_def n0_def by (rule refl)
  have "good_best ex substart subend sz alignment skew boundary flags (0, 0, 0)"
    by (simp add: good_best_def)
  with search_starts [OF pre inv, of skew "(0, 0, 0)", folded n0_def, folded l_def, folded ns_def]
  have post: "loop_post ex substart subend sz alignment skew boundary flags out"
    unfolding out_def by (intro subregion_loop_correct [OF pre inv refl]) simp_all
  have fast: "EX_FAST \<in> flags \<Longrightarrow> fst (scan_best out) = 0"
    unfolding out_def by (rule loop_fast_best) simp_all
  have fit: "unat n + unat (sz - 1) \<le> unat subend
      \<and> (\<forall>r\<in>set (drop l (ex_regions ex)). unat n + unat (sz - 1) < unat (er_start r))"
    if "fits n" "\<forall>r\<in>set (drop l (ex_regions ex)). subend < er_start r" for n l
    using that by (fastforce simp: fits_def LE_OV_nat word_less_nat_alt)
  have cand: "candidate ex substart subend sz alignment skew boundary flags (n, k)"
    if "out = AtEnd m k e b" "fits m" "boundary_check ex boundary flags sz fits m = Fits n" for m k e b n
    using post that fit by (intro fit_candidate [OF pre _ that(2) _ that(3)]) auto
  show "candidate ex substart subend sz alignment skew boundary flags c" if "res = Some c"
    using that post cand better_good(1)
    by (cases out) (auto simp: res good_best_def Let_def split: if_splits bound_fit.splits)
  show "\<not> free_place ex substart subend sz alignment skew x" if "res = None" "boundary = 0"
  proof
    assume x: "free_place ex substart subend sz alignment skew x"
    show False
    proof (cases out)
      case (AtEnd m k e b)
      have "fst b = 0"
        using that AtEnd fast by (auto simp: res boundary_check_def Let_def better_def split: if_splits)
      with x post AtEnd that(2) have "unat m \<le> unat x" by (simp add: exhausted_def)
      with free_place_nat [OF x] have "fits m" by (simp add: fits_def LE_OV_nat)
      with that AtEnd show False
        by (auto simp: res boundary_check_def Let_def better_def split: if_splits)
    qed (use that post res in auto)
  qed
qed

abbreviation request :: "u_long \<Rightarrow> u_long \<Rightarrow> nat set" where
  "request start sz \<equiv> {unat start..unat (start + (sz - 1))}"

lemma candidate_insert:
  assumes inv: "extent_inv ex" and "candidate ex substart subend sz alignment skew boundary flags (ns, l)"
  shows "extent_inv (extent_insert_and_optimize ex ns sz l rp)"
    and "allocated (extent_insert_and_optimize ex ns sz l rp) = allocated ex \<union> request ns sz"
    and "allocated ex \<inter> request ns sz = {}"
    and "placed ex substart subend sz alignment skew boundary flags ns"
proof -
  have l: "length (take l (ex_regions ex)) = l" using assms(2) by (simp add: candidate_def)
  have gap: "in_gap (ex_start ex) (ex_end ex) (take l (ex_regions ex)) (drop l (ex_regions ex)) ns (ns + (sz - 1))"
    using assms(2) by (simp add: candidate_def)
  note ins = insert_correct [OF inv append_take_drop_id [symmetric] gap, unfolded l]
  show "extent_inv (extent_insert_and_optimize ex ns sz l rp)"
    and "allocated (extent_insert_and_optimize ex ns sz l rp) = allocated ex \<union> request ns sz"
    and "allocated ex \<inter> request ns sz = {}"
    by (rule ins)+
  show "placed ex substart subend sz alignment skew boundary flags ns"
    using assms(2) by (simp add: candidate_def)
qed

lemma alloc_subregion_start_spec:
  assumes pre: "sub_pre ex substart subend sz alignment boundary" and inv: "extent_inv ex"
  shows "case alloc_subregion_start diag ex substart subend sz alignment skew boundary flags myrp of
      Done ns ex' \<Rightarrow> extent_inv ex' \<and> placed ex substart subend sz alignment skew boundary flags ns
        \<and> allocated ex \<inter> request ns sz = {} \<and> allocated ex' = allocated ex \<union> request ns sz
    | Fail e ex' \<Rightarrow> e = EAGAIN \<and> EX_WAITSPACE \<notin> flags \<and> ex_regions ex' = ex_regions ex
        \<and> (boundary = 0 \<longrightarrow> (\<forall>c. \<not> free_place ex substart subend sz alignment skew c))
    | SleepSpace ex' rp \<Rightarrow> rp = myrp \<and> EX_WAITSPACE \<in> flags \<and> EXF_WANTED \<in> ex_flags ex'
        \<and> ex_regions ex' = ex_regions ex
        \<and> (boundary = 0 \<longrightarrow> (\<forall>c. \<not> free_place ex substart subend sz alignment skew c))
    | _ \<Rightarrow> False"
proof -
  have "unat substart + unat alignment \<le> 2 ^ 64" "pow2 alignment" "ex_start ex \<le> substart"
    using pre by (auto simp: sub_pre_def word_le_nat_alt)
  then have "\<not> extent_align substart alignment skew < ex_start ex"
    using extent_align_correct(1) [of alignment substart skew] by (simp add: word_le_nat_alt word_less_nat_alt)
  then show ?thesis
    using subregion_search_correct [OF pre inv, where skew = skew and flags = flags]
      candidate_insert [OF inv, of substart subend sz alignment skew boundary flags]
    by (cases "subregion_search ex subend sz alignment skew boundary flags (extent_align substart alignment skew)")
      (auto simp: alloc_subregion_start_def Let_def)
qed

section \<open>The extent as a region allocator\<close>

text \<open>
  The contract of a manager of regions of a number range, as its clients see it: a claim of a
  span succeeds only on free numbers and takes exactly those, a release gives them back.
\<close>

datatype claim_op = Claim u_long u_long | Release u_long u_long

fun op_valid :: "claim_op \<Rightarrow> bool" where
  "op_valid (Claim start sz) = (start \<le> start + (sz - 1))"
| "op_valid (Release start sz) = (start \<le> start + (sz - 1))"

fun alloc_run ::
    "(u_long \<Rightarrow> u_long \<Rightarrow> 's \<Rightarrow> 's option) \<Rightarrow> (u_long \<Rightarrow> u_long \<Rightarrow> 's \<Rightarrow> 's option)
      \<Rightarrow> claim_op list \<Rightarrow> 's \<Rightarrow> 's option" where
  "alloc_run claim release [] s = Some s"
| "alloc_run claim release (Claim start sz # cs) s =
     (case claim start sz s of None \<Rightarrow> None | Some s' \<Rightarrow> alloc_run claim release cs s')"
| "alloc_run claim release (Release start sz # cs) s =
     (case release start sz s of None \<Rightarrow> None | Some s' \<Rightarrow> alloc_run claim release cs s')"

text \<open>The abstract run, on the set of numbers in use.\<close>

fun ledger :: "claim_op list \<Rightarrow> nat set \<Rightarrow> nat set option" where
  "ledger [] U = Some U"
| "ledger (Claim start sz # cs) U =
     (if U \<inter> request start sz = {} then ledger cs (U \<union> request start sz) else None)"
| "ledger (Release start sz # cs) U =
     (if request start sz \<subseteq> U then ledger cs (U - request start sz) else None)"

locale region_allocator =
  fixes invar :: "'s \<Rightarrow> bool" and used :: "'s \<Rightarrow> nat set"
    and claim :: "u_long \<Rightarrow> u_long \<Rightarrow> 's \<Rightarrow> 's option"
    and release :: "u_long \<Rightarrow> u_long \<Rightarrow> 's \<Rightarrow> 's option"
  assumes claim_law: "\<lbrakk>invar s; start \<le> start + (sz - 1); claim start sz s = Some s'\<rbrakk>
      \<Longrightarrow> invar s' \<and> used s \<inter> request start sz = {} \<and> used s' = used s \<union> request start sz"
    and release_law: "\<lbrakk>invar s; start \<le> start + (sz - 1); release start sz s = Some s'\<rbrakk>
      \<Longrightarrow> invar s' \<and> request start sz \<subseteq> used s \<and> used s' = used s - request start sz"
begin

lemma run_refines:
  assumes "invar s" and "list_all op_valid cs" and "alloc_run claim release cs s = Some s'"
  shows "invar s' \<and> ledger cs (used s) = Some (used s')"
  using assms
proof (induction cs arbitrary: s)
  case (Cons c cs)
  show ?case
  proof (cases c)
    case (Claim start sz)
    with Cons.prems obtain t where t: "claim start sz s = Some t" "alloc_run claim release cs t = Some s'"
      "start \<le> start + (sz - 1)" "list_all op_valid cs"
      by (auto split: option.splits)
    from claim_law [OF Cons.prems(1) t(3,1)] Cons.IH [OF _ t(4,2)] Claim show ?thesis by simp
  next
    case (Release start sz)
    with Cons.prems obtain t where t: "release start sz s = Some t" "alloc_run claim release cs t = Some s'"
      "start \<le> start + (sz - 1)" "list_all op_valid cs"
      by (auto split: option.splits)
    from release_law [OF Cons.prems(1) t(3,1)] Cons.IH [OF _ t(4,2)] Release show ?thesis by simp
  qed
qed simp

lemma claim_release:
  assumes "invar s" and "start \<le> start + (sz - 1)" and "claim start sz s = Some s1"
    and "release start sz s1 = Some s2"
  shows "invar s2 \<and> used s2 = used s"
  using claim_law [OF assms(1-3)] release_law [OF _ assms(2,4)] by auto

end

definition ext_claim :: "bool \<Rightarrow> extent_region option \<Rightarrow> ex_arg set \<Rightarrow> u_long \<Rightarrow> u_long \<Rightarrow> extent \<Rightarrow> extent option" where
  "ext_claim diag pool flags start sz ex =
     (case extent_alloc_region diag pool ex start sz flags of Done _ ex' \<Rightarrow> Some ex' | _ \<Rightarrow> None)"

definition ext_release :: "bool \<Rightarrow> extent_region option \<Rightarrow> ex_arg set \<Rightarrow> u_long \<Rightarrow> u_long \<Rightarrow> extent \<Rightarrow> extent option" where
  "ext_release diag pool flags start sz ex =
     (case extent_free diag pool ex start sz flags of Done _ ex' \<Rightarrow> Some ex' | _ \<Rightarrow> None)"

lemma extent_alloc_region_spec:
  assumes inv: "extent_inv ex" and le: "start \<le> start + (sz - 1)"
  shows "case extent_alloc_region diag pool ex start sz flags of
      Done _ ex' \<Rightarrow> extent_inv ex' \<and> allocated ex \<inter> request start sz = {}
        \<and> allocated ex' = allocated ex \<union> request start sz
    | Fail e ex' \<Rightarrow> ex_regions ex' = ex_regions ex
        \<and> (e = EAGAIN \<and> EX_WAITSPACE \<notin> flags \<and> allocated ex \<inter> request start sz \<noteq> {}
           \<or> e = ENOMEM \<or> e = EINVAL \<and> \<not> request start sz \<subseteq> {unat (ex_start ex)..unat (ex_end ex)})
    | SleepSpace ex' rp \<Rightarrow> EX_WAITSPACE \<in> flags \<and> EXF_WANTED \<in> ex_flags ex'
        \<and> ex_regions ex' = ex_regions ex \<and> allocated ex \<inter> request start sz \<noteq> {}
    | SleepDesc ex' \<Rightarrow> EX_WAITOK \<in> flags \<and> ex_regions ex' = ex_regions ex
    | Panic \<Rightarrow> diag \<and> (sz = 0 \<or> \<not> request start sz \<subseteq> {unat (ex_start ex)..unat (ex_end ex)})"
proof (cases "diag \<and> sz < 1 \<or> start < ex_start ex \<or> start + (sz - 1) > ex_end ex")
  case True
  with le show ?thesis
    by (auto simp: extent_alloc_region_def Let_def word_le_nat_alt word_less_nat_alt unat_eq_0)
next
  case False
  show ?thesis
  proof (cases "extent_alloc_region_descriptor pool ex flags")
    case (Desc rp ex1)
    note fr = alloc_descriptor_frame [OF Desc] and ai = alloc_descriptor_inv [OF Desc]
    have "case alloc_region_start ex1 start sz flags rp of
      Done _ ex' \<Rightarrow> extent_inv ex' \<and> allocated ex1 \<inter> request start sz = {}
        \<and> allocated ex' = allocated ex1 \<union> request start sz
    | Fail e ex' \<Rightarrow> e = EAGAIN \<and> EX_WAITSPACE \<notin> flags \<and> ex_regions ex' = ex_regions ex1
        \<and> allocated ex1 \<inter> request start sz \<noteq> {}
    | SleepSpace ex' r \<Rightarrow> r = rp \<and> EX_WAITSPACE \<in> flags \<and> EXF_WANTED \<in> ex_flags ex'
        \<and> ex_regions ex' = ex_regions ex1 \<and> allocated ex1 \<inter> request start sz \<noteq> {}
    | _ \<Rightarrow> False"
      by (rule alloc_region_start_spec) (use inv ai fr le False in auto)
    moreover have "extent_alloc_region diag pool ex start sz flags = alloc_region_start ex1 start sz flags rp"
      using False Desc le by (auto simp: extent_alloc_region_def Let_def)
    ultimately show ?thesis
      by (simp add: fr ai split: ex_outcome.splits)
  qed (use False le in \<open>auto simp: extent_alloc_region_def Let_def extent_alloc_region_descriptor_def
        split: if_splits option.splits list.splits\<close>)
qed

interpretation ext: region_allocator extent_inv allocated "ext_claim diag pool flags" "ext_release diag pool flags"
  for diag pool flags
proof
  show "extent_inv s' \<and> allocated s \<inter> request start sz = {} \<and> allocated s' = allocated s \<union> request start sz"
    if "extent_inv s" "start \<le> start + (sz - 1)" "ext_claim diag pool flags start sz s = Some s'" for s start sz s'
    using extent_alloc_region_spec [OF that(1,2), where diag = diag and pool = pool and flags = flags] that(3)
    by (cases "extent_alloc_region diag pool s start sz flags") (simp_all add: ext_claim_def)
  show "extent_inv s' \<and> request start sz \<subseteq> allocated s \<and> allocated s' = allocated s - request start sz"
    if "extent_inv s" "start \<le> start + (sz - 1)" "ext_release diag pool flags start sz s = Some s'" for s start sz s'
  proof -
    from that(3) obtain u where "extent_free diag pool s start sz flags = Done u s'"
      by (auto simp: ext_release_def split: ex_outcome.splits)
    from extent_free_Done [OF that(1,2) this] show ?thesis by simp
  qed
qed

section \<open>Properties\<close>

text \<open>
  C4. The extent refines the abstract ledger of numbers in use: whenever a sequence of
  \<^verbatim>\<open>extent_alloc_region\<close> and \<^verbatim>\<open>extent_free\<close> calls succeeds, the region list is well formed
  afterwards (sorted, disjoint, coalesced unless that is turned off), every allocation was of free
  numbers and every release of allocated ones, and exactly the numbers outstanding are allocated.
\<close>

theorem extent_trace_refines:
  assumes "extent_inv ex" and "list_all op_valid cs"
    and "alloc_run (ext_claim diag pool flags) (ext_release diag pool flags) cs ex = Some ex'"
  shows "extent_inv ex' \<and> ledger cs (allocated ex) = Some (allocated ex')"
  using assms by (rule ext.run_refines)

definition demo_extent :: extent where
  "demo_extent = \<lparr>ex_name = ''demo'', ex_regions = [], ex_start = 0, ex_end = 99, ex_mtype = 0,
     ex_flags = {}, fex_freelist = []\<rparr>"

definition demo_with :: "(u_long \<times> u_long) list \<Rightarrow> extent" where
  "demo_with spans = demo_extent\<lparr>ex_regions :=
     map (\<lambda>(s, e). \<lparr>er_start = s, er_end = e, er_flags = {ER_ALLOC}\<rparr>) spans\<rparr>"

lemma demo_inv: "extent_inv demo_extent" "extent_inv (demo_with [(10, 29)])"
  by (simp_all add: extent_inv_def regions_ok_def region_ok_def demo_extent_def demo_with_def)

lemmas extent_eval = extent_alloc_region_def extent_free_def
  extent_alloc_region_descriptor_def alloc_region_start_def extent_insert_and_optimize_def free_finish_def
  extent_free_region_descriptor_def demo_extent_def demo_with_def zero_region_def Let_def

lemma demo_steps:
  "ext_claim True (Some zero_region) {} 10 10 demo_extent = Some (demo_with [(10, 19)])"
  "ext_claim True (Some zero_region) {} 20 10 (demo_with [(10, 19)]) = Some (demo_with [(10, 29)])"
  "ext_release True (Some zero_region) {} 15 5 (demo_with [(10, 29)]) = Some (demo_with [(10, 14), (20, 29)])"
  by (simp_all add: ext_claim_def ext_release_def extent_eval)

theorem extent_trace_refines_witness:
  "extent_inv (demo_with [(10, 14), (20, 29)])
   \<and> ledger [Claim 10 10, Claim 20 10, Release 15 5] (allocated demo_extent)
     = Some (allocated (demo_with [(10, 14), (20, 29)]))"
  by (rule extent_trace_refines [OF demo_inv(1), where diag = True and pool = "Some zero_region" and flags = "{}"])
    (simp_all add: demo_steps)

text \<open>
  C6. \<^verbatim>\<open>extent_alloc_region\<close> on every path: it succeeds only if the whole span is free and then
  adds exactly that span; it fails with EAGAIN (or sleeps for space, having set the wanted flag)
  exactly when a number of the span is allocated already; every failure leaves the regions as they
  were; and it panics only in a DIAGNOSTIC kernel on a bad argument.
\<close>

theorem extent_alloc_region_correct:
  assumes "extent_inv ex" and "start \<le> start + (sz - 1)"
  shows "case extent_alloc_region diag pool ex start sz flags of
      Done _ ex' \<Rightarrow> extent_inv ex' \<and> allocated ex \<inter> request start sz = {}
        \<and> allocated ex' = allocated ex \<union> request start sz
    | Fail e ex' \<Rightarrow> ex_regions ex' = ex_regions ex
        \<and> (e = EAGAIN \<and> EX_WAITSPACE \<notin> flags \<and> allocated ex \<inter> request start sz \<noteq> {}
           \<or> e = ENOMEM \<or> e = EINVAL \<and> \<not> request start sz \<subseteq> {unat (ex_start ex)..unat (ex_end ex)})
    | SleepSpace ex' rp \<Rightarrow> EX_WAITSPACE \<in> flags \<and> EXF_WANTED \<in> ex_flags ex'
        \<and> ex_regions ex' = ex_regions ex \<and> allocated ex \<inter> request start sz \<noteq> {}
    | SleepDesc ex' \<Rightarrow> EX_WAITOK \<in> flags \<and> ex_regions ex' = ex_regions ex
    | Panic \<Rightarrow> diag \<and> (sz = 0 \<or> \<not> request start sz \<subseteq> {unat (ex_start ex)..unat (ex_end ex)})"
  using assms by (rule extent_alloc_region_spec)

lemma demo_alloc:
  "extent_alloc_region True (Some zero_region) (demo_with [(10, 29)]) 30 20 {} = Done () (demo_with [(10, 49)])"
  by (simp add: extent_eval)

theorem extent_alloc_region_correct_witness:
  "extent_alloc_region True (Some zero_region) (demo_with [(10, 29)]) 30 20 {} = Done () (demo_with [(10, 49)])
    \<and> extent_inv (demo_with [(10, 49)])
    \<and> allocated (demo_with [(10, 49)]) = allocated (demo_with [(10, 29)]) \<union> {30..49}"
  using extent_alloc_region_correct [OF demo_inv(2), where start = 30 and sz = 20 and diag = True
      and pool = "Some zero_region" and flags = "{}"]
  by (simp add: demo_alloc)

text \<open>
  C5. \<^verbatim>\<open>extent_alloc_subregion\<close> is sound and complete when address arithmetic cannot leave the
  machine range: a region it returns lies in the requested subregion, is free, is aligned (or, with
  a boundary, crosses no boundary line) and becomes allocated; with no boundary it reports failure
  (or sleeps for space) only if no aligned free place exists in the subregion.
\<close>

theorem extent_alloc_subregion_correct:
  assumes "extent_inv ex" and "sub_pre ex substart subend sz alignment boundary"
  shows "case extent_alloc_subregion diag pool ex substart subend sz alignment skew boundary flags of
      Done ns ex' \<Rightarrow> extent_inv ex' \<and> placed ex substart subend sz alignment skew boundary flags ns
        \<and> allocated ex \<inter> request ns sz = {} \<and> allocated ex' = allocated ex \<union> request ns sz
    | Fail e ex' \<Rightarrow> ex_regions ex' = ex_regions ex
        \<and> (e = ENOMEM \<or> e = EAGAIN \<and> EX_WAITSPACE \<notin> flags
           \<and> (boundary = 0 \<longrightarrow> (\<forall>c. \<not> free_place ex substart subend sz alignment skew c)))
    | SleepSpace ex' rp \<Rightarrow> EX_WAITSPACE \<in> flags \<and> EXF_WANTED \<in> ex_flags ex' \<and> ex_regions ex' = ex_regions ex
        \<and> (boundary = 0 \<longrightarrow> (\<forall>c. \<not> free_place ex substart subend sz alignment skew c))
    | SleepDesc ex' \<Rightarrow> EX_WAITOK \<in> flags \<and> ex_regions ex' = ex_regions ex
    | Panic \<Rightarrow> diag \<and> unat subend - unat substart < unat sz - 1"
proof (cases "diag \<and> sz - 1 > subend - substart")
  case True
  have "unat (sz - 1) = unat sz - 1" "unat (subend - substart) = unat subend - unat substart"
    using assms(2) by (simp_all add: sub_pre_def size_pred unat_minus_below)
  with True show ?thesis by (simp add: extent_alloc_subregion_def word_less_nat_alt)
next
  case False
  have "0 < alignment" using assms(2) by (auto simp: sub_pre_def pow2_def word_less_nat_alt)
  with False assms(2) have nopanic: "\<not> (diag \<and> (substart < ex_start ex \<or> substart > ex_end ex
      \<or> subend > ex_end ex \<or> subend < ex_start ex \<or> sz < 1 \<or> sz - 1 > subend - substart \<or> alignment = 0
      \<or> (boundary \<noteq> 0 \<and> boundary < sz)))"
    by (auto simp: sub_pre_def word_less_nat_alt word_le_nat_alt unat_eq_0)
  show ?thesis
  proof (cases "extent_alloc_region_descriptor pool ex flags")
    case (Desc rp ex1)
    note fr = alloc_descriptor_frame [OF Desc] and ai = alloc_descriptor_inv [OF Desc]
    have pre: "sub_pre ex1 substart subend sz alignment boundary" and inv: "extent_inv ex1"
      using assms by (simp_all add: sub_pre_def fr ai)
    have same: "placed ex1 = placed ex" "free_place ex1 = free_place ex"
      by (intro ext, simp add: placed_def no_crossing_def bound_skew_def free_place_def fr ai)+
    have "extent_alloc_subregion diag pool ex substart subend sz alignment skew boundary flags =
        alloc_subregion_start diag ex1 substart subend sz alignment skew boundary flags rp"
      using nopanic Desc by (simp only: extent_alloc_subregion_def if_False desc_outcome.case)
    with alloc_subregion_start_spec [OF pre inv, where diag = diag and skew = skew and flags = flags and myrp = rp] show ?thesis
      by (simp add: fr ai same split: ex_outcome.splits)
  qed (use nopanic in \<open>auto simp: extent_alloc_subregion_def extent_alloc_region_descriptor_def Let_def
        split: if_splits option.splits list.splits\<close>)
qed

lemma demo_pre_holds: "sub_pre (demo_with [(10, 29)]) 12 80 20 8 0"
  by (auto simp: sub_pre_def demo_with_def demo_extent_def pow2_def intro!: exI [of _ 3])

lemma demo_sub:
  "extent_alloc_subregion True (Some zero_region) (demo_with [(10, 29)]) 12 80 20 8 4 0 {}
     = Done 36 (demo_with [(10, 29), (36, 55)])"
  by (simp add: extent_alloc_subregion_def alloc_subregion_start_def subregion_search_def extent_align_def
      LE_OV_def boundary_check_def better_def extent_eval)

theorem extent_alloc_subregion_correct_witness:
  "extent_inv (demo_with [(10, 29), (36, 55)])
    \<and> placed (demo_with [(10, 29)]) 12 80 20 8 4 0 {} 36
    \<and> allocated (demo_with [(10, 29), (36, 55)]) = allocated (demo_with [(10, 29)]) \<union> {36..55}"
  using extent_alloc_subregion_correct [OF demo_inv(2) demo_pre_holds, where diag = True
      and pool = "Some zero_region" and skew = 4 and flags = "{}"]
  by (simp add: demo_sub)

text \<open>
  C7. In an extent that coalesces, \<^verbatim>\<open>extent_free\<close> of any part of the allocated numbers, whether a whole region, an end of one or the middle of one, does not panic. The call first
  gets a region descriptor, from the allocator or, in a fixed extent, from its free list. If there is one, the call takes exactly that part away, keeps
  the region list well formed and clears the wanted flag; if not, it fails with \<^verbatim>\<open>ENOMEM\<close> or waits for one, and the allocated numbers stay.
\<close>

theorem extent_free_any_part:
  assumes inv: "extent_inv ex" and le: "start \<le> start + (sz - 1)" and "\<not> nocoal ex" and sub: "request start sz \<subseteq> allocated ex"
  shows "case extent_alloc_region_descriptor pool ex flags of
      Desc d ex0 \<Rightarrow> \<exists>ex'. extent_free diag pool ex start sz flags = Done () ex' \<and> extent_inv ex' \<and> allocated ex' = allocated ex - request start sz \<and> EXF_WANTED \<notin> ex_flags ex'
    | NoDesc ex0 \<Rightarrow> extent_free diag pool ex start sz flags = Fail ENOMEM ex0 \<and> extent_inv ex0 \<and> allocated ex0 = allocated ex
    | DescSleep ex0 \<Rightarrow> extent_free diag pool ex start sz flags = SleepDesc ex0 \<and> extent_inv ex0 \<and> allocated ex0 = allocated ex"
proof -
  note f = extent_free_succeeds [OF inv le assms(3) sub, where pool = pool and flags = flags and diag = diag]
  show ?thesis
  proof (cases "extent_alloc_region_descriptor pool ex flags")
    case (Desc d ex0)
    then obtain ex' where "extent_free diag pool ex start sz flags = Done () ex'" using f by auto
    with extent_free_Done [OF inv le this] show ?thesis by (simp add: Desc)
  next
    case (NoDesc ex0)
    then have "ex0 = ex" by (auto simp: extent_alloc_region_descriptor_def Let_def split: option.splits list.splits if_splits)
    then show ?thesis using f inv by (simp add: NoDesc)
  next
    case (DescSleep ex0)
    then have "ex0 = ex \<or> ex0 = ex\<lparr>ex_flags := insert EXF_FLWANTED (ex_flags ex)\<rparr>"
      by (auto simp: extent_alloc_region_descriptor_def Let_def split: option.splits list.splits if_splits)
    then have "extent_inv ex0 \<and> allocated ex0 = allocated ex" using inv by (auto simp: extent_inv_def allocated_def)
    then show ?thesis using f by (simp add: DescSleep)
  qed
qed

theorem extent_free_any_part_witness:
  "\<exists>ex'. extent_free True (Some zero_region) (demo_with [(10, 29)]) 15 5 {} = Done () ex'
    \<and> extent_inv ex' \<and> allocated ex' = allocated (demo_with [(10, 29)]) - {15..19}
    \<and> EXF_WANTED \<notin> ex_flags ex'"
  using extent_free_any_part [OF demo_inv(2), where start = 15 and sz = 5 and diag = True
      and pool = "Some zero_region" and flags = "{}"]
  by (simp add: demo_with_def demo_extent_def allocated_def region_set_def extent_alloc_region_descriptor_def)

lemmas subregion_eval = extent_alloc_subregion_def alloc_subregion_start_def subregion_search_def
  extent_align_def LE_OV_def boundary_check_def better_def extent_eval

definition whole_range :: "(u_long \<times> u_long) list \<Rightarrow> extent" where
  "whole_range spans = (demo_with spans)\<lparr>ex_end := - 1\<rparr>"

text \<open>
  Alignment may carry the start past the largest machine number; the overflow test of
  \<^verbatim>\<open>extent_alloc_subregion\<close> compares with the start of the extent only, so in an extent that starts
  at 0 the call returns a region that lies outside the subregion asked for.
\<close>

theorem extent_alloc_subregion_leaves_subregion:
  "extent_alloc_subregion True (Some zero_region) (whole_range []) (- 4) (- 1) 2 8 0 0 {}
     = Done 0 (whole_range [(0, 1)])"
  by (simp add: subregion_eval whole_range_def)

text \<open>
  The move of the candidate past the last region has no overflow test: when a region ends at
  the largest machine number the candidate becomes 0, the insertion takes 0 to be adjacent to that
  region, and the region's end is overwritten, so the extent forgets everything it had allocated.
\<close>

theorem extent_alloc_subregion_forgets:
  "extent_inv (whole_range [(10, - 1)]) \<and> allocated (whole_range [(10, - 1)]) = {10..2 ^ 64 - 1}
   \<and> extent_alloc_subregion True (Some zero_region) (whole_range [(10, - 1)]) 20 (- 1) 4 1 0 0 {}
       = Done 0 (whole_range [(10, 3)])
   \<and> allocated (whole_range [(10, 3)]) = {}"
  by (simp add: subregion_eval whole_range_def extent_inv_def regions_ok_def region_ok_def
      allocated_def region_set_def unsigned_minus_1_eq_mask mask_eq_exp_minus_1)

text \<open>
  With a boundary, a candidate moved to the next boundary line is not aligned again: a
  request for alignment 8 and skew 4 is answered with a region at a multiple of 8.
\<close>

theorem extent_alloc_subregion_loses_skew:
  "extent_alloc_subregion True (Some zero_region) (demo_with [(0, 7)]) 0 99 8 8 4 16 {}
     = Done 16 (demo_with [(0, 7), (16, 23)])
   \<and> \<not> unat (8 :: u_long) dvd unat (16 - 4 :: u_long)"
  by (simp add: subregion_eval)
end
