(* ===== verification/Lockf.thy ===== *)
theory Lockf
  imports Kern_Prelude
begin

text \<open>
  Advisory byte-range locks (\<^verbatim>\<open>src/sys/kern/vfs_lockf.c\<close>, \<^verbatim>\<open>src/sys/sys/lockf.h\<close>), which serve
  \<^verbatim>\<open>fcntl\<close> and \<^verbatim>\<open>flock\<close> on every file system. The locks of one file are a list; the requests
  blocked by a lock are a list of that lock. A pointer into the list is the split of the list at
  that place. A list operation that would leave a freed or twice-linked lock in the list has no
  result (\<open>None\<close>), and it is proved that this does not happen.
\<close>

section \<open>Data\<close>

datatype lock_type = F_RDLCK | F_UNLCK | F_WRLCK

datatype lock_flag = F_WAIT | F_FLOCK | F_POSIX

text \<open>
  Offsets are \<^verbatim>\<open>off_t\<close>, a signed 64-bit integer; \<open>off64\<close> is what is left of a sum in that type.
\<close>

definition off64 :: "int \<Rightarrow> int" where
  "off64 x = (x + 2 ^ 63) mod 2 ^ 64 - 2 ^ 63"

text \<open>
  A request, and a lock, which is a request with its list of blocked requests. An identity is a
  process (POSIX locks) or an open file (flock).
\<close>

record lock_req =
  lf_start :: int
  lf_end :: int
  lf_id :: nat
  lf_flags :: "lock_flag set"
  lf_type :: lock_type
  lf_uid :: nat

record lockf = lock_req +
  lf_blkhd :: "lock_req list"

definition request_of :: "lockf \<Rightarrow> lock_req" where
  "request_of l = \<lparr>lf_start = lf_start l, lf_end = lf_end l, lf_id = lf_id l, lf_flags = lf_flags l,
     lf_type = lf_type l, lf_uid = lf_uid l\<rparr>"

text \<open>Shared state: the per-user counts of locks, and the requests woken so far.\<close>

record lf_env =
  ui_lockcnt :: "nat \<Rightarrow> int"
  lf_woken :: "lock_req list"

definition maxlocksperuid :: int where
  "maxlocksperuid = 1024"

definition maxlockdepth :: nat where
  "maxlockdepth = 50"

section \<open>Allocation\<close>

text \<open>\<open>None\<close> when the limit is reached; otherwise the counter is advanced.\<close>

definition lf_alloc :: "nat \<Rightarrow> int \<Rightarrow> lf_env \<Rightarrow> lf_env option" where
  "lf_alloc uid allowfail env =
     (if uid \<noteq> 0 \<and> allowfail \<noteq> 0
         \<and> ui_lockcnt env uid > (if allowfail = 1 then maxlocksperuid else maxlocksperuid * 2)
      then None
      else Some (env\<lparr>ui_lockcnt := (ui_lockcnt env)(uid := ui_lockcnt env uid + 1)\<rparr>))"

definition lf_free :: "lockf \<Rightarrow> lf_env \<Rightarrow> lf_env" where
  "lf_free lock env =
     env\<lparr>ui_lockcnt := (ui_lockcnt env)(lf_uid lock := ui_lockcnt env (lf_uid lock) - 1)\<rparr>"

definition lf_wakelock :: "lockf \<Rightarrow> lf_env \<Rightarrow> lockf \<times> lf_env" where
  "lf_wakelock lock env =
     (lock\<lparr>lf_blkhd := []\<rparr>, env\<lparr>lf_woken := lf_woken env @ lf_blkhd lock\<rparr>)"

section \<open>Finding overlaps\<close>

datatype who = SELF | OTHERS

text \<open>The result of the search: where it stopped, splitting the list there.\<close>

datatype overlap =
    NoOverlap "lockf list" "lockf list"
  | Overlap nat "lockf list" lockf "lockf list"
  | OverlapPanic

fun ov_cons :: "lockf \<Rightarrow> overlap \<Rightarrow> overlap" where
  "ov_cons l (NoOverlap sk rest) = NoOverlap (l # sk) rest"
| "ov_cons l (Overlap n sk ov rest) = Overlap n (l # sk) ov rest"
| "ov_cons l OverlapPanic = OverlapPanic"

fun lf_findoverlap :: "lockf list \<Rightarrow> lockf \<Rightarrow> who \<Rightarrow> overlap" where
  "lf_findoverlap [] lock type = NoOverlap [] []"
| "lf_findoverlap (lf # lfs) lock type =
     (if (type = SELF \<and> lf_id lf \<noteq> lf_id lock) \<or> (type = OTHERS \<and> lf_id lf = lf_id lock) then
        ov_cons lf (lf_findoverlap lfs lock type)
      else if (lf_end lf \<noteq> -1 \<and> lf_start lock > lf_end lf)
           \<or> (lf_end lock \<noteq> -1 \<and> lf_start lf > lf_end lock) then
        (if type = SELF \<and> lf_end lock \<noteq> -1 \<and> lf_start lf > lf_end lock then NoOverlap [] (lf # lfs)
         else ov_cons lf (lf_findoverlap lfs lock type))
      else if lf_start lf = lf_start lock \<and> lf_end lf = lf_end lock then Overlap 1 [] lf lfs
      else if lf_start lf \<le> lf_start lock
           \<and> (lf_end lf = -1 \<or> (lf_end lock \<noteq> -1 \<and> lf_end lf \<ge> lf_end lock)) then
        Overlap 2 [] lf lfs
      else if lf_start lock \<le> lf_start lf
           \<and> (lf_end lock = -1 \<or> (lf_end lf \<noteq> -1 \<and> lf_end lock \<ge> lf_end lf)) then
        Overlap 3 [] lf lfs
      else if lf_start lf < lf_start lock \<and> (lf_end lf \<ge> lf_start lock \<or> lf_end lf = -1) then
        Overlap 4 [] lf lfs
      else if lf_start lf > lf_start lock \<and> lf_end lock \<noteq> -1
           \<and> (lf_end lf > lf_end lock \<or> lf_end lf = -1) then
        Overlap 5 [] lf lfs
      else OverlapPanic)"

lemma findoverlap_shorter:
  "lf_findoverlap ls lock type = Overlap n sk ov rest \<Longrightarrow> length rest < length ls"
proof (induction ls arbitrary: sk)
  case (Cons l ls)
  then show ?case
    by (cases "lf_findoverlap ls lock type") (auto split: if_splits)
qed simp

function lf_getblock :: "lockf list \<Rightarrow> lockf \<Rightarrow> lockf option" where
  "lf_getblock lf lock =
     (case lf_findoverlap lf lock OTHERS of
        Overlap n sk ov rest \<Rightarrow>
          if lf_type lock = F_WRLCK \<or> lf_type ov = F_WRLCK then Some ov
          else lf_getblock rest lock
      | _ \<Rightarrow> None)"
  by pat_completeness auto
termination
  by (relation "measure (\<lambda>(lf, lock). length lf)") (auto simp: findoverlap_shorter)

section \<open>Splitting\<close>

text \<open>
  \<open>rest\<close> is the list after \<open>lock1\<close>; the results are the list from \<open>lock1\<close> on and the list from
  \<open>lock2\<close> on, after the call.
\<close>

definition lf_split :: "lockf \<Rightarrow> lockf \<Rightarrow> lockf list \<Rightarrow> lf_env \<Rightarrow> lockf list \<times> lockf list \<times> lf_env" where
  "lf_split lock1 lock2 rest env =
     (if lf_start lock1 = lf_start lock2 then
        (let l1 = lock1\<lparr>lf_start := off64 (lf_end lock2 + 1)\<rparr> in (l1 # rest, lock2 # l1 # rest, env))
      else if lf_end lock1 = lf_end lock2 then
        (let l1 = lock1\<lparr>lf_end := lf_start lock2 - 1\<rparr> in (l1 # lock2 # rest, lock2 # rest, env))
      else
        (let env1 = (case lf_alloc (lf_uid lock1) 0 env of Some e \<Rightarrow> e | None \<Rightarrow> env);
             splitlock = lock1\<lparr>lf_start := off64 (lf_end lock2 + 1), lf_blkhd := []\<rparr>;
             l1 = lock1\<lparr>lf_end := lf_start lock2 - 1\<rparr>
         in (l1 # lock2 # splitlock # rest, lock2 # splitlock # rest, env1)))"

section \<open>Clearing\<close>

function clear_loop :: "lockf \<Rightarrow> lockf list \<Rightarrow> lf_env \<Rightarrow> (lockf list \<times> lf_env) option" where
  "clear_loop lock lf env =
     (case lf_findoverlap lf lock SELF of
        OverlapPanic \<Rightarrow> None
      | NoOverlap sk rest \<Rightarrow> Some (sk @ rest, env)
      | Overlap n sk overlap rest \<Rightarrow>
          (let (ov, env1) = lf_wakelock overlap env in
           if n = 1 then Some (sk @ rest, lf_free ov env1)
           else if n = 2 then
             (if lf_start ov = lf_start lock then
                Some (sk @ ov\<lparr>lf_start := off64 (lf_end lock + 1)\<rparr> # rest, env1)
              else
                (let (from1, from2, env2) = lf_split ov lock rest env1
                 in Some (sk @ hd from1 # tl from2, env2)))
           else if n = 3 then
             (case clear_loop lock rest (lf_free ov env1) of
                None \<Rightarrow> None | Some (ls, e) \<Rightarrow> Some (sk @ ls, e))
           else if n = 4 then
             (case clear_loop lock rest env1 of
                None \<Rightarrow> None | Some (ls, e) \<Rightarrow> Some (sk @ ov\<lparr>lf_end := lf_start lock - 1\<rparr> # ls, e))
           else Some (sk @ ov\<lparr>lf_start := off64 (lf_end lock + 1)\<rparr> # rest, env1)))"
  by pat_completeness auto
termination
  by (relation "measure (\<lambda>(lock, lf, env). length lf)") (auto simp: findoverlap_shorter)

definition lf_clearlock :: "lockf \<Rightarrow> lockf list \<Rightarrow> lf_env \<Rightarrow> (lockf list \<times> lf_env) option" where
  "lf_clearlock lock lf env = (if lf = [] then Some ([], env) else clear_loop lock lf env)"

section \<open>Setting\<close>

text \<open>
  The loop that adds an unblocked lock. With \<open>needtolink\<close> the resulting list contains the lock;
  otherwise the caller has linked it already and places the lock returned, whose list of blocked
  requests may have grown.
\<close>

function set_loop :: "lockf \<Rightarrow> bool \<Rightarrow> lockf list \<Rightarrow> lf_env \<Rightarrow> (lockf list \<times> lockf \<times> lf_env) option" where
  "set_loop lock needtolink block env =
     (case lf_findoverlap block lock SELF of
        OverlapPanic \<Rightarrow> None
      | NoOverlap sk rest \<Rightarrow> Some (sk @ (if needtolink then [lock] else []) @ rest, lock, env)
      | Overlap n sk overlap rest \<Rightarrow>
          if n = 1 then
            (let (ov, env1) = (if lf_type lock = F_RDLCK \<and> lf_type overlap = F_WRLCK
                               then lf_wakelock overlap env else (overlap, env))
             in if needtolink then Some (sk @ ov\<lparr>lf_type := lf_type lock\<rparr> # rest, lock, lf_free lock env1)
                else None)
          else if n = 2 then
            (if \<not> needtolink then None
             else if lf_type overlap = lf_type lock then
               Some (sk @ overlap # rest, lock, lf_free lock env)
             else if lf_start overlap = lf_start lock then
               (let (ov, env1) = lf_wakelock (overlap\<lparr>lf_start := off64 (lf_end lock + 1)\<rparr>) env
                in Some (sk @ lock # ov # rest, lock, env1))
             else
               (let (from1, from2, env1) = lf_split overlap lock rest env;
                    (ov, env2) = lf_wakelock (hd from1) env1
                in Some (sk @ ov # tl from1, lock, env2)))
          else if n = 3 then
            (let (lock1, env1) =
               (if lf_type lock = F_RDLCK \<and> lf_type overlap = F_WRLCK
                then (lock, snd (lf_wakelock overlap env))
                else (lock\<lparr>lf_blkhd := lf_blkhd lock @ lf_blkhd overlap\<rparr>, env))
             in case set_loop lock1 False rest (lf_free overlap env1) of
                  None \<Rightarrow> None
                | Some (ls, lock2, env2) \<Rightarrow>
                    Some (sk @ (if needtolink then [lock2] else []) @ ls, lock2, env2))
          else if n = 4 then
            (if \<not> needtolink then None
             else
               let (ov, env1) = lf_wakelock (overlap\<lparr>lf_end := lf_start lock - 1\<rparr>) env
               in case set_loop lock False rest env1 of
                    None \<Rightarrow> None
                  | Some (ls, lock2, env2) \<Rightarrow> Some (sk @ ov # lock2 # ls, lock2, env2))
          else
            (let (ov, env1) = lf_wakelock (overlap\<lparr>lf_start := off64 (lf_end lock + 1)\<rparr>) env
             in Some (sk @ (if needtolink then [lock] else []) @ ov # rest, lock, env1)))"
  by pat_completeness auto
termination
  by (relation "measure (\<lambda>(lock, needtolink, block, env). length block)") (auto simp: findoverlap_shorter)

text \<open>
  Deadlock detection: \<open>wchan p\<close> is the lock that blocks the request process \<open>p\<close> sleeps on
  (\<^verbatim>\<open>p_wchan\<close> with the lock wait message, then \<^verbatim>\<open>lf_next\<close>), if \<open>p\<close> sleeps on one.
\<close>

fun deadlock_walk :: "(nat \<Rightarrow> lock_req option) \<Rightarrow> nat \<Rightarrow> nat \<Rightarrow> nat \<Rightarrow> bool" where
  "deadlock_walk wchan self 0 wproc = False"
| "deadlock_walk wchan self (Suc i) wproc =
     (case wchan wproc of
        None \<Rightarrow> False
      | Some waitblock \<Rightarrow>
          if F_POSIX \<notin> lf_flags waitblock then False
          else if lf_id waitblock = self then True
          else deadlock_walk wchan self i (lf_id waitblock))"

text \<open>
  Putting the request on the blocked list of the lock in its way, which is the first one
  \<^verbatim>\<open>lf_getblock\<close> meets.
\<close>

function lf_enqueue :: "lockf list \<Rightarrow> lockf \<Rightarrow> lockf list" where
  "lf_enqueue lf lock =
     (case lf_findoverlap lf lock OTHERS of
        Overlap n sk ov rest \<Rightarrow>
          if lf_type lock = F_WRLCK \<or> lf_type ov = F_WRLCK then
            sk @ ov\<lparr>lf_blkhd := lf_blkhd ov @ [request_of lock]\<rparr> # rest
          else sk @ ov # lf_enqueue rest lock
      | NoOverlap sk rest \<Rightarrow> sk @ rest
      | OverlapPanic \<Rightarrow> lf)"
  by pat_completeness auto
termination
  by (relation "measure (\<lambda>(lf, lock). length lf)") (auto simp: findoverlap_shorter)

text \<open>
  How \<^verbatim>\<open>lf_setlock\<close> ends: with a return value, asleep with its request queued, or with the list
  corrupted or in the panic of \<^verbatim>\<open>lf_findoverlap\<close>.
\<close>

datatype set_outcome =
    SetRet "errno option" "lockf list" lf_env
  | SetSleep "lockf list" lf_env lockf
  | SetBad

definition lf_setlock :: "(nat \<Rightarrow> lock_req option) \<Rightarrow> lockf \<Rightarrow> lockf list \<Rightarrow> lf_env \<Rightarrow> set_outcome" where
  "lf_setlock wchan lock head env =
     (case lf_getblock head lock of
        Some block \<Rightarrow>
          if F_WAIT \<notin> lf_flags lock then SetRet (Some EAGAIN) head (lf_free lock env)
          else if F_POSIX \<in> lf_flags lock \<and> F_POSIX \<in> lf_flags block
               \<and> deadlock_walk wchan (lf_id lock) maxlockdepth (lf_id block) then
            SetRet (Some EDEADLK) head (lf_free lock env)
          else if F_FLOCK \<in> lf_flags lock \<and> lf_type lock = F_WRLCK then
            (case lf_clearlock (lock\<lparr>lf_type := F_UNLCK\<rparr>) head env of
               None \<Rightarrow> SetBad
             | Some (head1, env1) \<Rightarrow> SetSleep (lf_enqueue head1 lock) env1 lock)
          else SetSleep (lf_enqueue head lock) env lock
      | None \<Rightarrow>
          (case set_loop lock True head env of
             None \<Rightarrow> SetBad
           | Some (head1, lock1, env1) \<Rightarrow> SetRet None head1 env1))"

text \<open>
  After the sleep: \<open>error\<close> is what \<^verbatim>\<open>tsleep\<close> returned, \<open>queued\<close> whether \<^verbatim>\<open>lf_next\<close> is still set,
  in which case the request is taken off the blocked list it is on.
\<close>

fun lf_dequeue :: "lock_req \<Rightarrow> lockf list \<Rightarrow> lockf list" where
  "lf_dequeue r [] = []"
| "lf_dequeue r (l # ls) =
     (if r \<in> set (lf_blkhd l) then l\<lparr>lf_blkhd := remove1 r (lf_blkhd l)\<rparr> # ls
      else l # lf_dequeue r ls)"

definition lf_setlock_wake ::
    "errno option \<Rightarrow> bool \<Rightarrow> (nat \<Rightarrow> lock_req option) \<Rightarrow> lockf \<Rightarrow> lockf list \<Rightarrow> lf_env \<Rightarrow> set_outcome" where
  "lf_setlock_wake error queued wchan lock head env =
     (let head1 = (if queued then lf_dequeue (request_of lock) head else head) in
      case error of
        Some e \<Rightarrow> SetRet (Some e) head1 (lf_free lock env)
      | None \<Rightarrow> lf_setlock wchan lock head1 env)"

section \<open>The operations\<close>

datatype whence = SEEK_SET | SEEK_CUR | SEEK_END | SEEK_BAD

datatype lock_op = F_SETLK | F_OP_UNLCK | F_GETLK | F_OP_BAD

record flock =
  l_start :: int
  l_len :: int
  l_pid :: int
  l_type :: lock_type
  l_whence :: whence

definition lf_getlock :: "(nat \<Rightarrow> int) \<Rightarrow> lockf \<Rightarrow> lockf list \<Rightarrow> flock \<Rightarrow> flock" where
  "lf_getlock pid_of lock head fl =
     (case lf_getblock head lock of
        Some block \<Rightarrow>
          \<lparr>l_start = lf_start block,
           l_len = (if lf_end block = -1 then 0 else off64 (lf_end block - lf_start block + 1)),
           l_pid = (if F_POSIX \<in> lf_flags block then pid_of (lf_id block) else -1),
           l_type = lf_type block, l_whence = SEEK_SET\<rparr>
      | None \<Rightarrow> fl\<lparr>l_type := F_UNLCK\<rparr>)"

datatype adv_outcome =
    AdvRet "errno option" "lockf list" lf_env flock
  | AdvSleep "lockf list" lf_env lockf
  | AdvBad

text \<open>The first and last byte of the range described by a \<^verbatim>\<open>struct flock\<close>.\<close>

definition flock_range :: "int \<Rightarrow> flock \<Rightarrow> (int \<times> int) option" where
  "flock_range fsize fl =
     (case (case l_whence fl of
              SEEK_SET \<Rightarrow> Some (l_start fl)
            | SEEK_CUR \<Rightarrow> Some (l_start fl)
            | SEEK_END \<Rightarrow> Some (off64 (fsize + l_start fl))
            | SEEK_BAD \<Rightarrow> None) of
        None \<Rightarrow> None
      | Some start \<Rightarrow>
          if start < 0 then None
          else if l_len fl = 0 then Some (start, -1)
          else let ende = off64 (start + l_len fl - 1) in if ende < start then None else Some (start, ende))"

definition lf_advlock ::
    "(nat \<Rightarrow> lock_req option) \<Rightarrow> (nat \<Rightarrow> int) \<Rightarrow> nat \<Rightarrow> lockf list \<Rightarrow> lf_env \<Rightarrow> int \<Rightarrow> nat \<Rightarrow> lock_op \<Rightarrow> flock
      \<Rightarrow> lock_flag set \<Rightarrow> adv_outcome" where
  "lf_advlock wchan pid_of cr_uid head env fsize ident op fl flags =
     (case flock_range fsize fl of
        None \<Rightarrow> AdvRet (Some EINVAL) head env fl
      | Some (start, ende) \<Rightarrow>
          if head = [] \<and> op \<noteq> F_SETLK then AdvRet None head env (fl\<lparr>l_type := F_UNLCK\<rparr>)
          else
            (case lf_alloc cr_uid (if op \<noteq> F_OP_UNLCK then 1 else 2) env of
               None \<Rightarrow> AdvRet (Some ENOMEM) head env fl
             | Some env1 \<Rightarrow>
                 let lock = \<lparr>lf_start = start, lf_end = ende, lf_id = ident, lf_flags = flags,
                       lf_type = l_type fl, lf_uid = cr_uid, lf_blkhd = []\<rparr>
                 in case op of
                      F_SETLK \<Rightarrow>
                        (case lf_setlock wchan lock head env1 of
                           SetRet e head1 env2 \<Rightarrow> AdvRet e head1 env2 fl
                         | SetSleep head1 env2 l \<Rightarrow> AdvSleep head1 env2 l
                         | SetBad \<Rightarrow> AdvBad)
                    | F_OP_UNLCK \<Rightarrow>
                        (case lf_clearlock lock head env1 of
                           None \<Rightarrow> AdvBad
                         | Some (head1, env2) \<Rightarrow> AdvRet None head1 (lf_free lock env2) fl)
                    | F_GETLK \<Rightarrow> AdvRet None head (lf_free lock env1) (lf_getlock pid_of lock head fl)
                    | F_OP_BAD \<Rightarrow> AdvRet (Some EINVAL) head (lf_free lock env1) fl))"

declare lf_getblock.simps [simp del] clear_loop.simps [simp del] set_loop.simps [simp del]
  lf_enqueue.simps [simp del]

section \<open>Invariant and abstraction\<close>

text \<open>
  The last byte of a lock; \<open>2 ^ 63\<close>, which is beyond every offset, stands for the end of file. A
  well-formed lock has its offsets in range, short of the largest offset as an explicit end.
\<close>

definition hi :: "'a lock_req_scheme \<Rightarrow> int" where
  "hi l = (if lf_end l = -1 then 2 ^ 63 else lf_end l)"

definition lf_wf :: "'a lock_req_scheme \<Rightarrow> bool" where
  "lf_wf l \<longleftrightarrow> 0 \<le> lf_start l \<and> lf_start l < 2 ^ 63
     \<and> (lf_end l = -1 \<or> (lf_start l \<le> lf_end l \<and> lf_end l < 2 ^ 63 - 1))"

text \<open>The locks of one owner are disjoint and come in ascending order.\<close>

definition before :: "lockf \<Rightarrow> lockf \<Rightarrow> bool" where
  "before a b \<longleftrightarrow> (lf_id a = lf_id b \<longrightarrow> hi a < lf_start b)"

definition locks_ok :: "lockf list \<Rightarrow> bool" where
  "locks_ok ls \<longleftrightarrow> list_all lf_wf ls \<and> sorted_wrt before ls"

definition covers :: "'a lock_req_scheme \<Rightarrow> int \<Rightarrow> bool" where
  "covers l b \<longleftrightarrow> lf_start l \<le> b \<and> b \<le> hi l"

text \<open>The abstract state: owner \<open>i\<close> holds a lock of type \<open>t\<close> on byte \<open>b\<close>.\<close>

definition held :: "lockf list \<Rightarrow> nat \<Rightarrow> int \<Rightarrow> lock_type \<Rightarrow> bool" where
  "held ls i b t \<longleftrightarrow> (\<exists>l\<in>set ls. lf_id l = i \<and> lf_type l = t \<and> covers l b)"

text \<open>Two owners never hold a byte unless both hold it shared.\<close>

definition compatible :: "lockf list \<Rightarrow> bool" where
  "compatible ls \<longleftrightarrow> (\<forall>i j b t u. held ls i b t \<longrightarrow> held ls j b u \<longrightarrow> i \<noteq> j \<longrightarrow> t \<noteq> F_WRLCK \<and> u \<noteq> F_WRLCK)"

lemma held_simps [simp]:
  "held [] i b t = False"
  "held (l # ls) i b t = ((lf_id l = i \<and> lf_type l = t \<and> covers l b) \<or> held ls i b t)"
  "held (ls @ ls') i b t = (held ls i b t \<or> held ls' i b t)"
  by (auto simp: held_def)

lemma locks_ok_simps [simp]:
  "locks_ok []"
  "locks_ok (l # ls) = (lf_wf l \<and> (\<forall>x\<in>set ls. before l x) \<and> locks_ok ls)"
  "locks_ok (ls @ ls') = (locks_ok ls \<and> locks_ok ls' \<and> (\<forall>x\<in>set ls. \<forall>y\<in>set ls'. before x y))"
  by (auto simp: locks_ok_def sorted_wrt_append)

lemma hi_update [simp]:
  "hi (l\<lparr>lf_start := x\<rparr>) = hi l"
  "hi (l\<lparr>lf_type := t\<rparr>) = hi l"
  "hi (k\<lparr>lf_blkhd := bs\<rparr>) = hi k"
  "0 \<le> e \<Longrightarrow> hi (l\<lparr>lf_end := e\<rparr>) = e"
  by (auto simp: hi_def)

lemma off64_id: "- (2 ^ 63) \<le> x \<Longrightarrow> x < 2 ^ 63 \<Longrightarrow> off64 x = x"
  by (simp add: off64_def)

lemma wf_end_succ: "lf_wf l \<Longrightarrow> hi l \<noteq> 2 ^ 63 \<Longrightarrow> off64 (lf_end l + 1) = hi l + 1"
  by (auto simp: lf_wf_def hi_def intro!: off64_id split: if_splits)

lemma wf_bounds:
  assumes "lf_wf l"
  shows "0 \<le> lf_start l" "lf_start l \<le> hi l" "lf_start l < 2 ^ 63" "hi l \<le> 2 ^ 63"
    "hi l = 2 ^ 63 \<or> hi l < 2 ^ 63 - 1"
  using assms by (auto simp: lf_wf_def hi_def)

lemma wf_updates:
  "lf_wf l \<Longrightarrow> lf_wf (l\<lparr>lf_type := t\<rparr>)"
  "lf_wf k \<Longrightarrow> lf_wf (k\<lparr>lf_blkhd := bs\<rparr>)"
  "lf_wf l \<Longrightarrow> lf_start l \<le> e \<Longrightarrow> e < 2 ^ 63 - 1 \<Longrightarrow> lf_wf (l\<lparr>lf_end := e\<rparr>)"
  "lf_wf l \<Longrightarrow> 0 \<le> s \<Longrightarrow> s < 2 ^ 63 \<Longrightarrow> s \<le> hi l \<Longrightarrow> lf_wf (l\<lparr>lf_start := s\<rparr>)"
  by (auto simp: lf_wf_def hi_def split: if_splits)

section \<open>Finding overlaps\<close>

definition ov_class :: "lockf \<Rightarrow> lockf \<Rightarrow> nat" where
  "ov_class ov lock =
     (if lf_start ov = lf_start lock \<and> hi ov = hi lock then 1
      else if lf_start ov \<le> lf_start lock \<and> hi lock \<le> hi ov then 2
      else if lf_start lock \<le> lf_start ov \<and> hi ov \<le> hi lock then 3
      else if lf_start ov < lf_start lock then 4 else 5)"

lemma findoverlap_here:
  assumes "lf_wf lf" and "lf_wf lock"
  shows "lf_end lf \<noteq> -1 \<and> lf_start lock > lf_end lf \<longleftrightarrow> hi lf < lf_start lock"
    and "lf_end lock \<noteq> -1 \<and> lf_start lf > lf_end lock \<longleftrightarrow> hi lock < lf_start lf"
    and "lf_start lf = lf_start lock \<and> lf_end lf = lf_end lock \<longleftrightarrow> lf_start lf = lf_start lock \<and> hi lf = hi lock"
    and "lf_end lf = -1 \<or> (lf_end lock \<noteq> -1 \<and> lf_end lf \<ge> lf_end lock) \<longleftrightarrow> hi lock \<le> hi lf"
    and "lf_end lock = -1 \<or> (lf_end lf \<noteq> -1 \<and> lf_end lock \<ge> lf_end lf) \<longleftrightarrow> hi lf \<le> hi lock"
    and "lf_end lf \<ge> lf_start lock \<or> lf_end lf = -1 \<longleftrightarrow> lf_start lock \<le> hi lf"
    and "lf_end lock \<noteq> -1 \<and> (lf_end lf > lf_end lock \<or> lf_end lf = -1) \<longleftrightarrow> hi lock < hi lf"
  using assms by (auto simp: lf_wf_def hi_def)

lemma findoverlap_Cons:
  assumes "lf_wf lf" and "lf_wf lock"
  shows "lf_findoverlap (lf # lfs) lock type =
     (if (type = SELF \<and> lf_id lf \<noteq> lf_id lock) \<or> (type = OTHERS \<and> lf_id lf = lf_id lock) then
        ov_cons lf (lf_findoverlap lfs lock type)
      else if hi lf < lf_start lock \<or> hi lock < lf_start lf then
        (if type = SELF \<and> hi lock < lf_start lf then NoOverlap [] (lf # lfs)
         else ov_cons lf (lf_findoverlap lfs lock type))
      else Overlap (ov_class lf lock) [] lf lfs)"
proof -
  have "\<not> (hi lf < lf_start lock \<or> hi lock < lf_start lf) \<Longrightarrow> \<not> (lf_start lf \<le> lf_start lock \<and> hi lock \<le> hi lf)
      \<Longrightarrow> \<not> (lf_start lock \<le> lf_start lf \<and> hi lf \<le> hi lock) \<Longrightarrow> \<not> lf_start lf < lf_start lock
      \<Longrightarrow> lf_start lock < lf_start lf \<and> hi lock < hi lf"
    by linarith
  then show ?thesis
    unfolding lf_findoverlap.simps findoverlap_here [OF assms] ov_class_def by (simp add: not_less)
qed

lemma findoverlap_spec:
  assumes "list_all lf_wf ls" and "lf_wf lock"
  shows "case lf_findoverlap ls lock type of
      NoOverlap sk rest \<Rightarrow> ls = sk @ rest
        \<and> (\<forall>l\<in>set sk. (type = SELF) = (lf_id l = lf_id lock) \<longrightarrow> hi l < lf_start lock \<or> type = OTHERS \<and> hi lock < lf_start l)
        \<and> (rest = [] \<or> type = SELF \<and> lf_id (hd rest) = lf_id lock \<and> hi lock < lf_start (hd rest))
    | Overlap n sk ov rest \<Rightarrow> ls = sk @ ov # rest \<and> (type = SELF) = (lf_id ov = lf_id lock)
        \<and> (\<forall>l\<in>set sk. (type = SELF) = (lf_id l = lf_id lock) \<longrightarrow> hi l < lf_start lock \<or> type = OTHERS \<and> hi lock < lf_start l)
        \<and> lf_start ov \<le> hi lock \<and> lf_start lock \<le> hi ov \<and> n = ov_class ov lock
    | OverlapPanic \<Rightarrow> False"
  using assms(1)
proof (induction ls)
  case (Cons lf lfs)
  then have wf: "lf_wf lf" by simp
  show ?case
    using Cons unfolding findoverlap_Cons [OF wf assms(2)]
    by (cases type; cases "lf_findoverlap lfs lock type") auto
qed simp

lemma find_self:
  assumes "locks_ok ls" and "lf_wf lock"
  shows "lf_findoverlap ls lock SELF \<noteq> OverlapPanic"
    and "lf_findoverlap ls lock SELF = NoOverlap sk rest \<Longrightarrow> ls = sk @ rest
      \<and> (\<forall>l\<in>set sk. lf_id l = lf_id lock \<longrightarrow> hi l < lf_start lock)
      \<and> (\<forall>l\<in>set rest. lf_id l = lf_id lock \<longrightarrow> hi lock < lf_start l)"
    and "lf_findoverlap ls lock SELF = Overlap n sk ov rest \<Longrightarrow> ls = sk @ ov # rest \<and> lf_id ov = lf_id lock
      \<and> (\<forall>l\<in>set sk. lf_id l = lf_id lock \<longrightarrow> hi l < lf_start lock)
      \<and> (\<forall>l\<in>set rest. lf_id l = lf_id lock \<longrightarrow> hi ov < lf_start l)
      \<and> lf_start ov \<le> hi lock \<and> lf_start lock \<le> hi ov \<and> n = ov_class ov lock"
proof -
  have wf: "list_all lf_wf ls" using assms(1) by (simp add: locks_ok_def)
  note spec = findoverlap_spec [OF wf assms(2), of SELF]
  show "lf_findoverlap ls lock SELF \<noteq> OverlapPanic" using spec by auto
  show "ls = sk @ rest \<and> (\<forall>l\<in>set sk. lf_id l = lf_id lock \<longrightarrow> hi l < lf_start lock)
      \<and> (\<forall>l\<in>set rest. lf_id l = lf_id lock \<longrightarrow> hi lock < lf_start l)"
    if "lf_findoverlap ls lock SELF = NoOverlap sk rest"
  proof (cases rest)
    case Nil
    with spec that show ?thesis by simp
  next
    case (Cons r rs)
    with spec that have ls: "ls = sk @ r # rs" and r: "lf_id r = lf_id lock" "hi lock < lf_start r"
      and sk: "\<forall>l\<in>set sk. lf_id l = lf_id lock \<longrightarrow> hi l < lf_start lock"
      by simp_all
    have "lf_wf r" using wf ls by simp
    then have "hi lock < lf_start x" if "x \<in> set rest" "lf_id x = lf_id lock" for x
      using that assms(1) r Cons wf_bounds(2) [of r] by (auto simp: ls before_def)
    with ls sk Cons show ?thesis by simp
  qed
  show "ls = sk @ ov # rest \<and> lf_id ov = lf_id lock
      \<and> (\<forall>l\<in>set sk. lf_id l = lf_id lock \<longrightarrow> hi l < lf_start lock)
      \<and> (\<forall>l\<in>set rest. lf_id l = lf_id lock \<longrightarrow> hi ov < lf_start l)
      \<and> lf_start ov \<le> hi lock \<and> lf_start lock \<le> hi ov \<and> n = ov_class ov lock"
    if "lf_findoverlap ls lock SELF = Overlap n sk ov rest"
    using spec that assms(1) by (auto simp: before_def)
qed

lemma held_left: "\<forall>l\<in>set ls. lf_id l = i \<longrightarrow> hi l < s \<Longrightarrow> s \<le> b \<Longrightarrow> \<not> held ls i b t"
  by (auto simp: held_def covers_def)

lemma held_right: "\<forall>l\<in>set ls. lf_id l = i \<longrightarrow> h < lf_start l \<Longrightarrow> b \<le> h \<Longrightarrow> \<not> held ls i b t"
  by (auto simp: held_def covers_def)

text \<open>Every lock of the first list is a part of a lock of the second with the same owner.\<close>

definition within :: "lockf list \<Rightarrow> lockf list \<Rightarrow> bool" where
  "within xs ys \<longleftrightarrow> (\<forall>x\<in>set xs. \<exists>y\<in>set ys. lf_id x = lf_id y \<and> lf_start y \<le> lf_start x \<and> hi x \<le> hi y)"

lemma within_refl [simp]: "within xs xs"
  by (auto simp: within_def)

lemma within_before:
  assumes "within xs ys" and "\<forall>y\<in>set ys. before a y"
  shows "\<forall>x\<in>set xs. before a x"
  using assms by (fastforce simp: within_def before_def)

lemma within_right:
  assumes "within xs ys" and "\<forall>l\<in>set ys. lf_id l = i \<longrightarrow> h < lf_start l"
  shows "\<forall>l\<in>set xs. lf_id l = i \<longrightarrow> h < lf_start l"
  using assms by (fastforce simp: within_def)

text \<open>The holdings after the owner of \<open>lock\<close> gives up the bytes of \<open>lock\<close>.\<close>

definition cleared :: "lockf \<Rightarrow> lockf list \<Rightarrow> lockf list \<Rightarrow> bool" where
  "cleared lock ls ls' \<longleftrightarrow> locks_ok ls' \<and> within ls' ls
     \<and> (\<forall>i b t. held ls' i b t \<longleftrightarrow> held ls i b t \<and> \<not> (i = lf_id lock \<and> covers lock b))"

lemma cleared_none:
  assumes "locks_ok (sk @ rest)" and "\<forall>l\<in>set sk. lf_id l = lf_id lock \<longrightarrow> hi l < lf_start lock"
    and "\<forall>l\<in>set rest. lf_id l = lf_id lock \<longrightarrow> hi lock < lf_start l"
  shows "cleared lock (sk @ rest) (sk @ rest)"
  using assms held_left [OF assms(2)] held_right [OF assms(3)]
  by (auto simp: cleared_def covers_def)

definition parts :: "lockf \<Rightarrow> lockf \<Rightarrow> lockf list \<Rightarrow> bool" where
  "parts lock ov new \<longleftrightarrow> locks_ok new \<and> within new [ov]
     \<and> (\<forall>i b t. held new i b t \<longleftrightarrow> held [ov] i b t \<and> \<not> covers lock b)"

text \<open>
  One overlap is replaced by the parts \<open>new\<close> of it that stick out of the lock, and the rest of
  the list is cleared.
\<close>

lemma cleared_step:
  assumes ok: "locks_ok (sk @ ov # rest)" and id: "lf_id ov = lf_id lock"
    and sk: "\<forall>l\<in>set sk. lf_id l = lf_id lock \<longrightarrow> hi l < lf_start lock"
    and parts: "parts lock ov new" and rest: "cleared lock rest rest'"
  shows "cleared lock (sk @ ov # rest) (sk @ new @ rest')"
proof -
  have new: "locks_ok new" "within new [ov]" "\<And>i b t. held new i b t \<longleftrightarrow> held [ov] i b t \<and> \<not> covers lock b"
    using parts by (simp_all add: parts_def)
  have r: "locks_ok rest'" "within rest' rest"
    and h: "\<And>i b t. held rest' i b t \<longleftrightarrow> held rest i b t \<and> \<not> (i = lf_id lock \<and> covers lock b)"
    using rest by (auto simp: cleared_def)
  have "before x y" if "x \<in> set sk" "y \<in> set rest'" for x y
    by (rule within_before [OF r(2), THEN bspec]) (use ok that in auto)
  moreover have "before x y" if "x \<in> set new" "y \<in> set rest'" for x y
  proof -
    have "before ov y" by (rule within_before [OF r(2), THEN bspec]) (use ok that in auto)
    moreover have "lf_id x = lf_id ov" "hi x \<le> hi ov" using new(2) that(1) by (auto simp: within_def)
    ultimately show ?thesis by (auto simp: before_def)
  qed
  moreover have "before x y" if "x \<in> set sk" "y \<in> set new" for x y
    by (rule within_before [OF new(2), THEN bspec]) (use ok that in auto)
  ultimately have "locks_ok (sk @ new @ rest')" using ok new(1) r(1) by auto
  moreover have "within (sk @ new @ rest') (sk @ ov # rest)"
    using new(2) r(2) unfolding within_def by (simp add: ball_Un) blast
  moreover have "held (sk @ new @ rest') i b t \<longleftrightarrow>
      held (sk @ ov # rest) i b t \<and> \<not> (i = lf_id lock \<and> covers lock b)" for i b t
    using held_left [OF sk, of b t] id by (auto simp: new(3) h covers_def)
  ultimately show ?thesis by (simp add: cleared_def)
qed

text \<open>The parts of an overlap that stick out.\<close>

definition piece :: "lockf \<Rightarrow> int \<Rightarrow> int \<Rightarrow> lockf \<Rightarrow> bool" where
  "piece ov s e n \<longleftrightarrow> lf_id n = lf_id ov \<and> lf_type n = lf_type ov \<and> lf_start n = s \<and> lf_end n = e"

lemma outside_parts:
  assumes ov: "lf_wf ov" and lock: "lf_wf lock"
  shows "lf_start lock \<le> lf_start ov \<Longrightarrow> hi ov \<le> hi lock \<Longrightarrow> parts lock ov []"
    and "hi lock < hi ov \<Longrightarrow> lf_start lock \<le> lf_start ov \<Longrightarrow> lf_start ov \<le> hi lock
      \<Longrightarrow> piece ov (off64 (lf_end lock + 1)) (lf_end ov) n \<Longrightarrow> parts lock ov [n]"
    and "lf_start ov < lf_start lock \<Longrightarrow> lf_start lock \<le> hi ov \<Longrightarrow> hi ov \<le> hi lock
      \<Longrightarrow> piece ov (lf_start ov) (lf_start lock - 1) m \<Longrightarrow> parts lock ov [m]"
    and "lf_start ov < lf_start lock \<Longrightarrow> hi lock < hi ov \<Longrightarrow> piece ov (lf_start ov) (lf_start lock - 1) m
      \<Longrightarrow> piece ov (off64 (lf_end lock + 1)) (lf_end ov) n \<Longrightarrow> parts lock ov [m, n]"
proof -
  note b = wf_bounds [OF ov] wf_bounds [OF lock]
  have e: "off64 (lf_end lock + 1) = hi lock + 1 \<and> lf_end lock \<noteq> -1 \<and> hi lock = lf_end lock \<and> hi lock < 2 ^ 63 - 1"
    if "hi lock < hi ov"
    using that b wf_end_succ [OF lock] by (auto simp: hi_def split: if_splits)
  have right: "lf_wf n \<and> hi n = hi ov \<and> lf_start n = hi lock + 1 \<and> lf_id n = lf_id ov \<and> lf_type n = lf_type ov"
    if "hi lock < hi ov" "piece ov (off64 (lf_end lock + 1)) (lf_end ov) n"
    using e [OF that(1)] that ov b by (auto simp: piece_def lf_wf_def hi_def split: if_splits)
  have left: "lf_wf m \<and> hi m = lf_start lock - 1 \<and> lf_start m = lf_start ov \<and> lf_id m = lf_id ov \<and> lf_type m = lf_type ov"
    if "lf_start ov < lf_start lock" "piece ov (lf_start ov) (lf_start lock - 1) m"
    using that ov b by (auto simp: piece_def lf_wf_def hi_def)
  show "parts lock ov []" if "lf_start lock \<le> lf_start ov" "hi ov \<le> hi lock"
    using that by (auto simp: parts_def within_def covers_def)
  show "parts lock ov [n]" if "hi lock < hi ov" "lf_start lock \<le> lf_start ov" "lf_start ov \<le> hi lock"
      "piece ov (off64 (lf_end lock + 1)) (lf_end ov) n"
    using right [OF that(1,4)] that b by (auto simp: parts_def within_def covers_def)
  show "parts lock ov [m]" if "lf_start ov < lf_start lock" "lf_start lock \<le> hi ov" "hi ov \<le> hi lock"
      "piece ov (lf_start ov) (lf_start lock - 1) m"
    using left [OF that(1,4)] that b by (auto simp: parts_def within_def covers_def)
  show "parts lock ov [m, n]" if "lf_start ov < lf_start lock" "hi lock < hi ov"
      "piece ov (lf_start ov) (lf_start lock - 1) m" "piece ov (off64 (lf_end lock + 1)) (lf_end ov) n"
    using left [OF that(1,3)] right [OF that(2,4)] that b
    by (auto simp: parts_def within_def covers_def before_def)
qed

section \<open>Clearing\<close>

lemma cleared_tail:
  assumes "locks_ok rest" and "\<forall>l\<in>set rest. lf_id l = lf_id lock \<longrightarrow> hi ov < lf_start l" and "hi lock \<le> hi ov"
  shows "cleared lock rest rest"
  using cleared_none [of "[]" rest lock] assms by fastforce

lemma split_ends: "lf_wf a \<Longrightarrow> lf_wf b \<Longrightarrow> lf_end a = lf_end b \<longleftrightarrow> hi a = hi b"
  by (auto simp: lf_wf_def hi_def)

lemma clear_loop_correct:
  assumes "locks_ok lf" and lock: "lf_wf lock"
  shows "\<exists>ls e. clear_loop lock lf env = Some (ls, e) \<and> cleared lock lf ls"
  using assms(1)
proof (induction "length lf" arbitrary: lf env rule: less_induct)
  case less
  note find = find_self [OF less.prems lock]
  show ?case
  proof (cases "lf_findoverlap lf lock SELF")
    case (NoOverlap sk rest)
    with find(2) [OF NoOverlap] less.prems cleared_none [of sk rest lock] show ?thesis
      by (simp add: clear_loop.simps)
  next
    case OverlapPanic
    with find(1) show ?thesis by simp
  next
    case (Overlap n sk ov rest)
    from find(3) [OF Overlap] have lf: "lf = sk @ ov # rest" and id: "lf_id ov = lf_id lock"
      and sk: "\<forall>l\<in>set sk. lf_id l = lf_id lock \<longrightarrow> hi l < lf_start lock"
      and rest: "\<forall>l\<in>set rest. lf_id l = lf_id lock \<longrightarrow> hi ov < lf_start l"
      and ovl: "lf_start ov \<le> hi lock" "lf_start lock \<le> hi ov" and n: "n = ov_class ov lock"
      by simp_all
    have ov: "lf_wf ov" and okr: "locks_ok rest" using less.prems lf by auto
    note ok = less.prems [unfolded lf]
    note out = outside_parts [OF ov lock] and step = cleared_step [OF ok id sk]
    have stop: "cleared lock lf (sk @ new @ rest)" if "parts lock ov new" "hi lock \<le> hi ov" for new
      unfolding lf by (rule step [OF that(1) cleared_tail [OF okr rest that(2)]])
    have go: "\<exists>ls e. clear_loop lock rest env' = Some (ls, e) \<and> cleared lock lf (sk @ new @ ls)"
      if "parts lock ov new" for env' new
      using less.hyps [OF _ okr, of env'] step [OF that] by (auto simp: lf)
    consider (c1) "n = 1" "lf_start ov = lf_start lock" "hi ov = hi lock"
      | (c2) "n = 2" "lf_start ov \<le> lf_start lock" "hi lock \<le> hi ov" "\<not> (lf_start ov = lf_start lock \<and> hi ov = hi lock)"
      | (c3) "n = 3" "lf_start lock \<le> lf_start ov" "hi ov \<le> hi lock"
      | (c4) "n = 4" "lf_start ov < lf_start lock" "hi ov < hi lock"
      | (c5) "n = 5" "lf_start lock < lf_start ov" "hi lock < hi ov"
      using n by (auto simp: ov_class_def split: if_splits)
    then show ?thesis
    proof cases
      case c1
      with stop [OF out(1)] Overlap show ?thesis
        by (simp add: clear_loop.simps [of lock lf] lf_wakelock_def)
    next
      case c2
      show ?thesis
      proof (cases "lf_start ov = lf_start lock")
        case True
        with c2 stop [OF out(2)] Overlap ovl show ?thesis
          by (simp add: clear_loop.simps [of lock lf] lf_wakelock_def piece_def)
      next
        case start: False
        show ?thesis
        proof (cases "hi ov = hi lock")
          case True
          with c2 start stop [OF out(3)] Overlap ovl show ?thesis
            by (simp add: clear_loop.simps [of lock lf] lf_wakelock_def piece_def lf_split_def
                split_ends [OF ov lock] Let_def)
        next
          case False
          with c2 start stop [OF out(4)] Overlap ovl show ?thesis
            by (simp add: clear_loop.simps [of lock lf] lf_wakelock_def piece_def lf_split_def
                split_ends [OF ov lock] Let_def)
        qed
      qed
    next
      case c3
      from go [OF out(1) [OF c3(2,3)], of "lf_free (ov\<lparr>lf_blkhd := []\<rparr>) (snd (lf_wakelock ov env))"]
      show ?thesis using c3 Overlap
        by (auto simp: clear_loop.simps [of lock lf] lf_wakelock_def)
    next
      case c4
      from go [OF out(3) [of "ov\<lparr>lf_blkhd := [], lf_end := lf_start lock - 1\<rparr>"], of "snd (lf_wakelock ov env)"]
      show ?thesis using c4 ovl Overlap
        by (auto simp: clear_loop.simps [of lock lf] lf_wakelock_def piece_def)
    next
      case c5
      with stop [OF out(2)] Overlap ovl show ?thesis
        by (simp add: clear_loop.simps [of lock lf] lf_wakelock_def piece_def)
    qed
  qed
qed

section \<open>Setting\<close>

lemma cleared_cong [simp]:
  "cleared (lock\<lparr>lf_blkhd := bs\<rparr>) = cleared lock"
  by (simp add: cleared_def fun_eq_iff covers_def)

lemma wf_blkhd [simp]: "lf_wf (l\<lparr>lf_blkhd := bs\<rparr>) = lf_wf l" for l :: lockf
  by (simp add: lf_wf_def)

lemma cleared_after:
  assumes "cleared lock rest ls" and "\<forall>l\<in>set rest. lf_id l = lf_id lock \<longrightarrow> lf_start lock \<le> lf_start l"
  shows "\<forall>l\<in>set ls. lf_id l = lf_id lock \<longrightarrow> hi lock < lf_start l"
proof (intro ballI impI)
  fix l assume l: "l \<in> set ls" "lf_id l = lf_id lock"
  then have "lf_wf l" using assms(1) by (auto simp: cleared_def locks_ok_def list_all_iff)
  with l have "held ls (lf_id lock) (lf_start l) (lf_type l)"
    using wf_bounds(2) [of l] by (auto simp: held_def covers_def)
  with assms(1) have "\<not> covers lock (lf_start l)" by (auto simp: cleared_def)
  moreover obtain y where "y \<in> set rest" "lf_id y = lf_id lock" "lf_start y \<le> lf_start l"
    using assms(1) l unfolding cleared_def within_def by fastforce
  ultimately show "hi lock < lf_start l" using assms(2) by (auto simp: covers_def)
qed

lemma tail_start:
  assumes "\<forall>l\<in>set rest. lf_id l = lf_id lock \<longrightarrow> hi ov < lf_start l" and "lf_start lock \<le> hi ov"
  shows "\<forall>l\<in>set rest. lf_id l = lf_id lock \<longrightarrow> lf_start lock < lf_start l"
  using assms by fastforce

lemma set_loop_linked:
  assumes "locks_ok block" and "lf_wf lock" and "\<forall>l\<in>set block. lf_id l = lf_id lock \<longrightarrow> lf_start lock < lf_start l"
  shows "\<exists>ls bs e. set_loop lock False block env = Some (ls, lock\<lparr>lf_blkhd := bs\<rparr>, e) \<and> cleared lock block ls"
  using assms
proof (induction "length block" arbitrary: block lock env rule: less_induct)
  case less
  note find = find_self [OF less.prems(1,2)]
  show ?case
  proof (cases "lf_findoverlap block lock SELF")
    case (NoOverlap sk rest)
    with find(2) [OF NoOverlap] less.prems(1) cleared_none [of sk rest lock] show ?thesis
      by (auto simp: set_loop.simps intro: exI [of _ "lf_blkhd lock"])
  next
    case OverlapPanic
    with find(1) show ?thesis by simp
  next
    case (Overlap n sk ov rest)
    from find(3) [OF Overlap] have lf: "block = sk @ ov # rest" and id: "lf_id ov = lf_id lock"
      and sk: "\<forall>l\<in>set sk. lf_id l = lf_id lock \<longrightarrow> hi l < lf_start lock"
      and rest: "\<forall>l\<in>set rest. lf_id l = lf_id lock \<longrightarrow> hi ov < lf_start l"
      and ovl: "lf_start ov \<le> hi lock" "lf_start lock \<le> hi ov" and n: "n = ov_class ov lock"
      by simp_all
    have ov: "lf_wf ov" and okr: "locks_ok rest" using less.prems(1) lf by auto
    note out = outside_parts [OF ov less.prems(2)]
      and step = cleared_step [OF less.prems(1) [unfolded lf] id sk]
    have start: "lf_start lock < lf_start ov" using less.prems(3) lf id by simp
    show ?thesis
    proof (cases "hi ov \<le> hi lock")
      case True
      define lock1 where "lock1 = (if lf_type lock = F_RDLCK \<and> lf_type ov = F_WRLCK then lock
        else lock\<lparr>lf_blkhd := lf_blkhd lock @ lf_blkhd ov\<rparr>)"
      define env1 where "env1 = lf_free ov (if lf_type lock = F_RDLCK \<and> lf_type ov = F_WRLCK
        then snd (lf_wakelock ov env) else env)"
      have same: "lf_wf lock1" "lf_id lock1 = lf_id lock" "lf_start lock1 = lf_start lock"
        "cleared lock1 = cleared lock" "lock1\<lparr>lf_blkhd := bs\<rparr> = lock\<lparr>lf_blkhd := bs\<rparr>" for bs
        using less.prems(2) by (auto simp: lock1_def)
      obtain ls bs e where "set_loop lock1 False rest env1 = Some (ls, lock1\<lparr>lf_blkhd := bs\<rparr>, e)"
        "cleared lock rest ls"
        using less.hyps [of rest lock1 env1] okr tail_start [OF rest ovl(2)] same by (auto simp: lf)
      moreover have "n = 3" using n start True by (simp add: ov_class_def)
      ultimately have "set_loop lock False block env = Some (sk @ ls, lock\<lparr>lf_blkhd := bs\<rparr>, e)"
        using Overlap same(5)
        by (cases "lf_type lock = F_RDLCK \<and> lf_type ov = F_WRLCK")
          (auto simp: set_loop.simps [of lock False block] lock1_def env1_def)
      moreover have "cleared lock block (sk @ ls)"
        using step [OF out(1) \<open>cleared lock rest ls\<close>] start True by (simp add: lf)
      ultimately show ?thesis by blast
    next
      case False
      then have n5: "n = 5" using n start by (simp add: ov_class_def)
      have "cleared lock block (sk @ [ov\<lparr>lf_start := off64 (lf_end lock + 1), lf_blkhd := []\<rparr>] @ rest)"
        unfolding lf
        by (rule step [OF out(2) cleared_tail [OF okr rest]]) (use False start ovl in \<open>auto simp: piece_def\<close>)
      with n5 Overlap show ?thesis
        by (auto simp: set_loop.simps [of lock False block] lf_wakelock_def intro: exI [of _ "lf_blkhd lock"])
    qed
  qed
qed

text \<open>The holdings after the owner of \<open>lock\<close> is granted it.\<close>

definition added :: "lockf \<Rightarrow> lockf list \<Rightarrow> lockf list \<Rightarrow> bool" where
  "added lock ls ls' \<longleftrightarrow> locks_ok ls'
     \<and> (\<forall>i b t. held ls' i b t \<longleftrightarrow> (i = lf_id lock \<and> t = lf_type lock \<and> covers lock b)
          \<or> (held ls i b t \<and> \<not> (i = lf_id lock \<and> covers lock b)))"

lemma added_between:
  assumes "cleared lock ls (pre @ post)" and lock: "lf_wf lock"
    and pre: "\<forall>l\<in>set pre. lf_id l = lf_id lock \<longrightarrow> hi l < lf_start lock"
    and post: "\<forall>l\<in>set post. lf_id l = lf_id lock \<longrightarrow> hi lock < lf_start l"
    and same: "lf_id l' = lf_id lock" "lf_type l' = lf_type lock" "lf_start l' = lf_start lock" "lf_end l' = lf_end lock"
  shows "added lock ls (pre @ l' # post)"
proof -
  have s: "lf_wf l'" "hi l' = hi lock" "covers l' = covers lock"
    using lock same by (auto simp: lf_wf_def hi_def covers_def fun_eq_iff)
  have "locks_ok (pre @ l' # post)"
    using assms(1) pre post s same by (auto simp: cleared_def before_def)
  then show ?thesis
    using assms(1) s(3) same unfolding added_def cleared_def by auto
qed

lemma set_loop_correct:
  assumes ok: "locks_ok block" and lock: "lf_wf lock"
  shows "\<exists>ls l e. set_loop lock True block env = Some (ls, l, e) \<and> added lock block ls"
proof -
  note find = find_self [OF ok lock]
  show ?thesis
  proof (cases "lf_findoverlap block lock SELF")
    case (NoOverlap sk rest)
    with find(2) [OF NoOverlap] ok cleared_none [of sk rest lock] show ?thesis
      by (auto simp: set_loop.simps intro!: added_between [OF _ lock])
  next
    case OverlapPanic
    with find(1) show ?thesis by simp
  next
    case (Overlap n sk ov rest)
    from find(3) [OF Overlap] have lf: "block = sk @ ov # rest" and id: "lf_id ov = lf_id lock"
      and sk: "\<forall>l\<in>set sk. lf_id l = lf_id lock \<longrightarrow> hi l < lf_start lock"
      and rest: "\<forall>l\<in>set rest. lf_id l = lf_id lock \<longrightarrow> hi ov < lf_start l"
      and ovl: "lf_start ov \<le> hi lock" "lf_start lock \<le> hi ov" and n: "n = ov_class ov lock"
      by simp_all
    have ov: "lf_wf ov" and okr: "locks_ok rest" using ok lf by auto
    note out = outside_parts [OF ov lock] and step = cleared_step [OF ok [unfolded lf] id sk]
      and b = wf_bounds [OF ov] wf_bounds [OF lock]
    have stop: "cleared lock block (sk @ new @ rest)" if "parts lock ov new" "hi lock \<le> hi ov" for new
      unfolding lf by (rule step [OF that(1) cleared_tail [OF okr rest that(2)]])
    have right: "\<forall>l\<in>set rest. lf_id l = lf_id lock \<longrightarrow> hi lock < lf_start l" if "hi lock \<le> hi ov"
      using rest that by fastforce
    have e: "off64 (lf_end lock + 1) = hi lock + 1" if "hi lock < hi ov"
      using that b wf_end_succ [OF lock] by linarith
    have go: "\<exists>ls bs e. set_loop k False rest env' = Some (ls, k\<lparr>lf_blkhd := bs\<rparr>, e) \<and> cleared lock rest ls
        \<and> (\<forall>l\<in>set ls. lf_id l = lf_id lock \<longrightarrow> hi lock < lf_start l)"
      if "k = lock\<lparr>lf_blkhd := kb\<rparr>" for k kb env'
    proof -
      have "\<forall>l\<in>set rest. lf_id l = lf_id lock \<longrightarrow> lf_start lock < lf_start l" by (rule tail_start [OF rest ovl(2)])
      with set_loop_linked [of rest k env'] okr lock that cleared_after [of lock rest] show ?thesis
        by (fastforce simp: less_imp_le)
    qed
    consider (c1) "n = 1" "lf_start ov = lf_start lock" "hi ov = hi lock"
      | (c2) "n = 2" "lf_start ov \<le> lf_start lock" "hi lock \<le> hi ov" "\<not> (lf_start ov = lf_start lock \<and> hi ov = hi lock)"
      | (c3) "n = 3" "lf_start lock \<le> lf_start ov" "hi ov \<le> hi lock"
      | (c4) "n = 4" "lf_start ov < lf_start lock" "hi ov < hi lock"
      | (c5) "n = 5" "lf_start lock < lf_start ov" "hi lock < hi ov"
      using n by (auto simp: ov_class_def split: if_splits)
    then show ?thesis
    proof cases
      case c1
      have "added lock block (sk @ ov\<lparr>lf_blkhd := bs, lf_type := lf_type lock\<rparr> # rest)" for bs
        by (rule added_between [OF _ lock sk right])
          (use c1 stop [OF out(1)] id split_ends [OF ov lock] in auto)
      from this [of "[]"] this [of "lf_blkhd ov"] c1 Overlap show ?thesis
        by (auto simp: set_loop.simps [of lock True block] lf_wakelock_def Let_def)
    next
      case c2
      show ?thesis
      proof (cases "lf_type ov = lf_type lock")
        case True
        have "added lock block block"
          using ok held_left [OF sk] held_right [OF right [OF c2(3)]] c2 True id
          by (auto simp: added_def lf covers_def)
        moreover have "set_loop lock True block env = Some (sk @ ov # rest, lock, lf_free lock env)"
          using c2 True Overlap by (simp add: set_loop.simps [of lock True block])
        ultimately show ?thesis by (simp add: lf)
      next
        case type: False
        show ?thesis
        proof (cases "lf_start ov = lf_start lock")
          case True
          let ?n = "ov\<lparr>lf_start := off64 (lf_end lock + 1), lf_blkhd := []\<rparr>"
          have h: "hi lock < hi ov" using c2 True by simp
          have "added lock block (sk @ lock # ?n # rest)"
            by (rule added_between [OF _ lock sk])
              (use True stop [OF out(2), of ?n] ovl h right e [OF h] in \<open>auto simp: piece_def\<close>)
          with True type c2 Overlap show ?thesis
            by (simp add: set_loop.simps [of lock True block] lf_wakelock_def)
        next
          case False
          then have s: "lf_start ov < lf_start lock" using c2 by simp
          let ?m = "ov\<lparr>lf_end := lf_start lock - 1, lf_blkhd := []\<rparr>"
          let ?n = "ov\<lparr>lf_start := off64 (lf_end lock + 1), lf_blkhd := []\<rparr>"
          have m: "hi ?m = lf_start lock - 1" using s b by simp
          show ?thesis
          proof (cases "hi ov = hi lock")
            case True
            have "added lock block ((sk @ [?m]) @ lock # rest)"
              by (rule added_between [OF _ lock])
                (use s True stop [OF out(3), of ?m] ovl right m sk in \<open>auto simp: piece_def\<close>)
            with True False type c2 Overlap show ?thesis
              by (simp add: set_loop.simps [of lock True block] lf_wakelock_def lf_split_def
                  split_ends [OF ov lock] Let_def)
          next
            case h: False
            then have h: "hi lock < hi ov" using c2 by simp
            have "added lock block ((sk @ [?m]) @ lock # ?n # rest)"
              by (rule added_between [OF _ lock])
                (use s h stop [OF out(4), of ?m ?n] right m sk e [OF h] in \<open>auto simp: piece_def\<close>)
            with h False type c2 Overlap show ?thesis
              by (simp add: set_loop.simps [of lock True block] lf_wakelock_def lf_split_def
                  split_ends [OF ov lock] Let_def)
          qed
        qed
      qed
    next
      case c3
      have fin: "added lock block (sk @ lock\<lparr>lf_blkhd := bs\<rparr> # ls)"
        if "cleared lock rest ls" "\<forall>l\<in>set ls. lf_id l = lf_id lock \<longrightarrow> hi lock < lf_start l" for ls bs
        by (rule added_between [OF _ lock sk that(2)]) (use c3 step [OF out(1) that(1)] lf in auto)
      from go [of lock "lf_blkhd lock" "lf_free ov (snd (lf_wakelock ov env))"]
        go [of "lock\<lparr>lf_blkhd := lf_blkhd lock @ lf_blkhd ov\<rparr>" "lf_blkhd lock @ lf_blkhd ov" "lf_free ov env"]
      show ?thesis using c3 Overlap fin
        by (cases "lf_type lock = F_RDLCK \<and> lf_type ov = F_WRLCK")
          (auto simp: set_loop.simps [of lock True block])
    next
      case c4
      let ?m = "ov\<lparr>lf_end := lf_start lock - 1, lf_blkhd := []\<rparr>"
      have m: "hi ?m = lf_start lock - 1" using c4 b by simp
      have fin: "added lock block ((sk @ [?m]) @ lock\<lparr>lf_blkhd := bs\<rparr> # ls)"
        if "cleared lock rest ls" "\<forall>l\<in>set ls. lf_id l = lf_id lock \<longrightarrow> hi lock < lf_start l" for ls bs
        by (rule added_between [OF _ lock _ that(2)])
          (use c4 ovl step [OF out(3) that(1), of ?m] m sk lf in \<open>auto simp: piece_def\<close>)
      from go [of lock "lf_blkhd lock" "snd (lf_wakelock ov env)"] show ?thesis using c4 Overlap fin
        by (auto simp: set_loop.simps [of lock True block] lf_wakelock_def)
    next
      case c5
      let ?n = "ov\<lparr>lf_start := off64 (lf_end lock + 1), lf_blkhd := []\<rparr>"
      have "added lock block (sk @ lock # ?n # rest)"
        by (rule added_between [OF _ lock sk])
          (use c5 stop [OF out(2), of ?n] ovl right e [OF c5(3)] in \<open>auto simp: piece_def\<close>)
      with c5 Overlap show ?thesis
        by (simp add: set_loop.simps [of lock True block] lf_wakelock_def)
    qed
  qed
qed

section \<open>Blocking and queueing\<close>

text \<open>Another owner holds a byte of the request, and one of the two is exclusive.\<close>

definition conflicts :: "lockf list \<Rightarrow> lockf \<Rightarrow> bool" where
  "conflicts ls lock \<longleftrightarrow> (\<exists>i b t. i \<noteq> lf_id lock \<and> covers lock b \<and> held ls i b t
     \<and> (lf_type lock = F_WRLCK \<or> t = F_WRLCK))"

lemma conflicts_iff:
  assumes "list_all lf_wf ls" and "lf_wf lock"
  shows "conflicts ls lock \<longleftrightarrow> (\<exists>l\<in>set ls. lf_id l \<noteq> lf_id lock \<and> lf_start l \<le> hi lock \<and> lf_start lock \<le> hi l
     \<and> (lf_type lock = F_WRLCK \<or> lf_type l = F_WRLCK))" (is "_ = ?R")
proof
  assume "conflicts ls lock"
  then show ?R by (fastforce simp: conflicts_def held_def covers_def)
next
  assume ?R
  then obtain l where l: "l \<in> set ls" "lf_id l \<noteq> lf_id lock" "lf_start l \<le> hi lock" "lf_start lock \<le> hi l"
    "lf_type lock = F_WRLCK \<or> lf_type l = F_WRLCK" by blast
  then have "lf_wf l" using assms(1) by (simp add: list_all_iff)
  then have "covers l (max (lf_start l) (lf_start lock))" "covers lock (max (lf_start l) (lf_start lock))"
    using l wf_bounds(2) [OF assms(2)] wf_bounds(2) [of l] by (auto simp: covers_def)
  with l show "conflicts ls lock" unfolding conflicts_def held_def by blast
qed

lemma getblock_spec:
  assumes "list_all lf_wf ls" and lock: "lf_wf lock"
  shows "case lf_getblock ls lock of
      Some l \<Rightarrow> l \<in> set ls \<and> lf_id l \<noteq> lf_id lock \<and> lf_start l \<le> hi lock \<and> lf_start lock \<le> hi l
        \<and> (lf_type lock = F_WRLCK \<or> lf_type l = F_WRLCK)
    | None \<Rightarrow> \<not> conflicts ls lock"
  using assms(1)
proof (induction "length ls" arbitrary: ls rule: less_induct)
  case less
  note spec = findoverlap_spec [OF less.prems lock, of OTHERS]
  show ?case
  proof (cases "lf_findoverlap ls lock OTHERS")
    case (Overlap n sk ov rest)
    with spec have ls: "ls = sk @ ov # rest" and id: "lf_id ov \<noteq> lf_id lock"
      and ov: "lf_start ov \<le> hi lock" "lf_start lock \<le> hi ov"
      and sk: "\<forall>l\<in>set sk. lf_id l \<noteq> lf_id lock \<longrightarrow> hi l < lf_start lock \<or> hi lock < lf_start l"
      by auto
    show ?thesis
    proof (cases "lf_type lock = F_WRLCK \<or> lf_type ov = F_WRLCK")
      case True
      with Overlap ls id ov show ?thesis by (auto simp: lf_getblock.simps)
    next
      case False
      have wfr: "list_all lf_wf rest" using less.prems ls by simp
      have eq: "lf_getblock ls lock = lf_getblock rest lock"
        using False Overlap by (simp add: lf_getblock.simps [of ls])
      have "conflicts ls lock = conflicts rest lock"
        unfolding conflicts_iff [OF less.prems lock] conflicts_iff [OF wfr lock] using sk False ls by fastforce
      with less.hyps [OF _ wfr] eq show ?thesis by (auto simp: ls split: option.splits)
    qed
  next
    case (NoOverlap sk rest)
    with spec have "\<forall>l\<in>set ls. lf_id l \<noteq> lf_id lock \<longrightarrow> hi l < lf_start lock \<or> hi lock < lf_start l" by auto
    then have "\<not> conflicts ls lock" unfolding conflicts_iff [OF less.prems lock] by fastforce
    with NoOverlap show ?thesis by (simp add: lf_getblock.simps)
  next
    case OverlapPanic
    with spec show ?thesis by simp
  qed
qed

lemma getblock_conflicts:
  assumes "list_all lf_wf ls" and "lf_wf lock"
  shows "lf_getblock ls lock \<noteq> None \<longleftrightarrow> conflicts ls lock"
  using getblock_spec [OF assms] conflicts_iff [OF assms] by (auto split: option.splits)

text \<open>Queueing changes the lists of blocked requests only.\<close>

definition strip :: "lockf \<Rightarrow> lockf" where
  "strip l = l\<lparr>lf_blkhd := []\<rparr>"

lemma strip_fields [simp]:
  "lf_start (strip l) = lf_start l" "lf_end (strip l) = lf_end l" "lf_id (strip l) = lf_id l"
  "lf_type (strip l) = lf_type l" "lf_uid (strip l) = lf_uid l" "lf_flags (strip l) = lf_flags l"
  by (simp_all add: strip_def)

lemma findoverlap_append:
  "case lf_findoverlap ls lock type of
      NoOverlap sk rest \<Rightarrow> ls = sk @ rest | Overlap n sk ov rest \<Rightarrow> ls = sk @ ov # rest | OverlapPanic \<Rightarrow> True"
proof (induction ls)
  case (Cons l ls)
  then show ?case by (cases "lf_findoverlap ls lock type") auto
qed simp

lemma enqueue_strip: "map strip (lf_enqueue ls lock) = map strip ls"
proof (induction "length ls" arbitrary: ls rule: less_induct)
  case less
  note app = findoverlap_append [of ls lock OTHERS]
  show ?case
  proof (cases "lf_findoverlap ls lock OTHERS")
    case (Overlap n sk ov rest)
    with app have ls: "ls = sk @ ov # rest" by simp
    have "map strip (lf_enqueue rest lock) = map strip rest" by (rule less) (simp add: ls)
    then have "map strip (lf_enqueue ls lock) = map strip (sk @ ov # rest)"
      using Overlap by (simp add: lf_enqueue.simps [of ls] strip_def)
    then show ?thesis by (simp only: ls [symmetric])
  next
    case (NoOverlap sk rest)
    with app have ls: "ls = sk @ rest" by simp
    have "map strip (lf_enqueue ls lock) = map strip (sk @ rest)"
      using NoOverlap by (simp add: lf_enqueue.simps [of ls])
    then show ?thesis by (simp only: ls [symmetric])
  qed (simp add: lf_enqueue.simps [of ls])
qed

lemma dequeue_strip: "map strip (lf_dequeue r ls) = map strip ls"
  by (induction ls) (auto simp: strip_def)

lemma strip_held: "held (map strip ls) = held ls"
  by (simp add: held_def covers_def hi_def fun_eq_iff)

lemma strip_ok: "locks_ok (map strip ls) = locks_ok ls"
  by (induction ls) (auto simp: lf_wf_def before_def hi_def)

lemma strip_eq:
  assumes "map strip ls = map strip ls'"
  shows "held ls = held ls'" and "locks_ok ls = locks_ok ls'"
  using assms by (metis strip_held, metis strip_ok)

lemmas queue_frame = strip_eq [OF enqueue_strip] strip_eq [OF dequeue_strip]

section \<open>Deadlock detection\<close>

definition waits_for :: "(nat \<Rightarrow> lock_req option) \<Rightarrow> (nat \<times> nat) set" where
  "waits_for wchan = {(p, q). \<exists>w. wchan p = Some w \<and> F_POSIX \<in> lf_flags w \<and> lf_id w = q}"

lemma deadlock_walk_iff:
  "deadlock_walk wchan self n p \<longleftrightarrow> (\<exists>k. 0 < k \<and> k \<le> n \<and> (p, self) \<in> waits_for wchan ^^ k)"
proof (induction wchan self n p rule: deadlock_walk.induct)
  case (2 wchan self i p)
  have unfold: "(\<exists>k. 0 < k \<and> k \<le> Suc i \<and> (p, self) \<in> waits_for wchan ^^ k) \<longleftrightarrow>
      (\<exists>q. (p, q) \<in> waits_for wchan \<and> (q = self \<or> (\<exists>k. 0 < k \<and> k \<le> i \<and> (q, self) \<in> waits_for wchan ^^ k)))"
    (is "?L = ?R")
  proof
    assume ?L
    then obtain k where k: "Suc k \<le> Suc i" "(p, self) \<in> waits_for wchan ^^ Suc k"
      by (metis gr0_implies_Suc)
    then obtain q where "(p, q) \<in> waits_for wchan" "(q, self) \<in> waits_for wchan ^^ k"
      by (meson relpow_Suc_D2)
    moreover have "q = self \<or> 0 < k" using calculation(2) by (cases k) auto
    ultimately show ?R using k(1) by blast
  next
    assume ?R
    then obtain q where q: "(p, q) \<in> waits_for wchan"
      "q = self \<or> (\<exists>k. 0 < k \<and> k \<le> i \<and> (q, self) \<in> waits_for wchan ^^ k)" by blast
    then show ?L
      by (metis One_nat_def Suc_le_mono le0 relpow_1 relpow_Suc_I2 zero_less_Suc)
  qed
  show ?case
    unfolding unfold using 2 by (auto simp: waits_for_def split: option.splits)
qed auto

section \<open>Accounting\<close>

text \<open>How many locks of the list are charged to a user.\<close>

definition charged :: "lockf list \<Rightarrow> nat \<Rightarrow> int" where
  "charged ls u = int (length (filter (\<lambda>l. lf_uid l = u) ls))"

lemma charged_simps [simp]:
  "charged [] u = 0"
  "charged (l # ls) u = (if lf_uid l = u then 1 else 0) + charged ls u"
  "charged (ls @ ls') u = charged ls u + charged ls' u"
  by (simp_all add: charged_def)

lemma charged_strip: "map strip ls = map strip ls' \<Longrightarrow> charged ls = charged ls'"
proof (induction ls arbitrary: ls')
  case (Cons l ls)
  then obtain l' ls'' where "ls' = l' # ls''" "strip l = strip l'" "map strip ls = map strip ls''" by auto
  with Cons.IH show ?case using strip_fields(5) [of l] strip_fields(5) [of l'] by (simp add: fun_eq_iff)
qed simp

lemma free_cnt [simp]:
  "ui_lockcnt (lf_free l env) u = ui_lockcnt env u - (if lf_uid l = u then 1 else 0)"
  by (simp add: lf_free_def)

lemma wake_cnt [simp]:
  "ui_lockcnt (snd (lf_wakelock l env)) = ui_lockcnt env"
  "fst (lf_wakelock l env) = l\<lparr>lf_blkhd := []\<rparr>"
  by (simp_all add: lf_wakelock_def)

lemma alloc_cnt:
  "lf_alloc uid f env = Some env' \<Longrightarrow> ui_lockcnt env' u = ui_lockcnt env u + (if uid = u then 1 else 0)"
  by (auto simp: lf_alloc_def split: if_splits)

lemma split_cnt:
  assumes "lf_start l1 \<noteq> lf_start l2"
  shows "\<exists>m new env'. lf_split l1 l2 rest env = (m # l2 # new @ rest, l2 # new @ rest, env') \<and> lf_uid m = lf_uid l1
    \<and> (\<forall>u. ui_lockcnt env' u - charged new u = ui_lockcnt env u)"
proof (cases "lf_end l1 = lf_end l2")
  case True
  with assms show ?thesis
    by (auto simp: lf_split_def Let_def intro!: exI [of _ "[]"])
next
  case False
  with assms show ?thesis
    by (auto simp: lf_split_def lf_alloc_def Let_def
        intro!: exI [of _ "[l1\<lparr>lf_start := off64 (lf_end l2 + 1), lf_blkhd := []\<rparr>]"])
qed

lemma clear_loop_cnt:
  "clear_loop lock lf env = Some (ls, e) \<Longrightarrow> ui_lockcnt e u - charged ls u = ui_lockcnt env u - charged lf u"
proof (induction "length lf" arbitrary: lf env ls e rule: less_induct)
  case less
  note app = findoverlap_append [of lf lock SELF]
    and p = less.prems [unfolded clear_loop.simps [of lock lf env]]
  show ?case
  proof (cases "lf_findoverlap lf lock SELF")
    case (NoOverlap sk rest)
    with p app show ?thesis by auto
  next
    case (Overlap n sk ov rest)
    with app have lf: "lf = sk @ ov # rest" by simp
    then have c: "charged lf u = charged sk u + (if lf_uid ov = u then 1 else 0) + charged rest u" by simp
    have ih: "clear_loop lock rest env' = Some (ls', e') \<Longrightarrow>
        ui_lockcnt e' u - charged ls' u = ui_lockcnt env' u - charged rest u" for env' ls' e'
      by (rule less.hyps) (simp_all add: lf)
    define env1 where "env1 = snd (lf_wakelock ov env)"
    have w: "lf_wakelock ov env = (ov\<lparr>lf_blkhd := []\<rparr>, env1)" and e1: "ui_lockcnt env1 = ui_lockcnt env"
      by (simp_all add: env1_def lf_wakelock_def)
    note q = p [unfolded Overlap overlap.case w Let_def prod.case]
    consider (split) "n = 2" "lf_start ov \<noteq> lf_start lock" | (n3) "n = 3" | (n4) "n = 4"
      | (other) "n \<noteq> 3" "n \<noteq> 4" "\<not> (n = 2 \<and> lf_start ov \<noteq> lf_start lock)" by blast
    then show ?thesis
    proof cases
      case split
      from split_cnt [of "ov\<lparr>lf_blkhd := []\<rparr>" lock rest env1] split(2) obtain m new env2 where
        "lf_split (ov\<lparr>lf_blkhd := []\<rparr>) lock rest env1 = (m # lock # new @ rest, lock # new @ rest, env2)"
        "lf_uid m = lf_uid ov" "ui_lockcnt env2 u - charged new u = ui_lockcnt env u"
        by (auto simp: e1)
      with q split c show ?thesis by auto
    next
      case n3
      then obtain ls' where r: "clear_loop lock rest (lf_free (ov\<lparr>lf_blkhd := []\<rparr>) env1) = Some (ls', e)" "ls = sk @ ls'"
        using q by (auto split: option.splits)
      from ih [OF r(1)] r(2) c show ?thesis by (simp add: e1)
    next
      case n4
      then obtain ls' where r: "clear_loop lock rest env1 = Some (ls', e)"
        "ls = sk @ ov\<lparr>lf_blkhd := [], lf_end := lf_start lock - 1\<rparr> # ls'"
        using q by (auto split: option.splits)
      from ih [OF r(1)] r(2) c show ?thesis by (simp add: e1)
    next
      case other
      with q c e1 show ?thesis by (auto split: if_splits)
    qed
  qed (use p in simp)
qed

lemma set_loop_cnt:
  "set_loop lock link block env = Some (ls, l, e) \<Longrightarrow> lf_uid l = lf_uid lock
    \<and> ui_lockcnt e u - charged ls u
        = ui_lockcnt env u - charged block u - (if link \<and> lf_uid lock = u then 1 else 0)"
proof (induction "length block" arbitrary: block lock link env ls l e rule: less_induct)
  case less
  note app = findoverlap_append [of block lock SELF]
    and p = less.prems [unfolded set_loop.simps [of lock link block env]]
  show ?case
  proof (cases "lf_findoverlap block lock SELF")
    case (NoOverlap sk rest)
    with p app show ?thesis by auto
  next
    case (Overlap n sk ov rest)
    with app have lf: "block = sk @ ov # rest" by simp
    then have c: "charged block u = charged sk u + (if lf_uid ov = u then 1 else 0) + charged rest u" by simp
    have ih: "set_loop k False rest env' = Some (ls', l', e') \<Longrightarrow> lf_uid l' = lf_uid k
        \<and> ui_lockcnt e' u - charged ls' u = ui_lockcnt env' u - charged rest u" for k env' ls' l' e'
      using less.hyps [where block = rest and lock = k and link = False and env = env'] by (simp add: lf)
    note q = p [unfolded Overlap overlap.case]
    consider (split) "n = 2" "lf_start ov \<noteq> lf_start lock" "lf_type ov \<noteq> lf_type lock" | (n3) "n = 3" | (n4) "n = 4"
      | (other) "n \<noteq> 3" "n \<noteq> 4" "\<not> (n = 2 \<and> lf_start ov \<noteq> lf_start lock \<and> lf_type ov \<noteq> lf_type lock)" by blast
    then show ?thesis
    proof cases
      case split
      from split_cnt [OF split(2), of rest env] obtain m new env2 where
        "lf_split ov lock rest env = (m # lock # new @ rest, lock # new @ rest, env2)"
        "lf_uid m = lf_uid ov" "ui_lockcnt env2 u - charged new u = ui_lockcnt env u"
        by auto
      with q split c show ?thesis by (auto simp: lf_wakelock_def split: if_splits)
    next
      case n3
      define k where "k = (if lf_type lock = F_RDLCK \<and> lf_type ov = F_WRLCK then lock
        else lock\<lparr>lf_blkhd := lf_blkhd lock @ lf_blkhd ov\<rparr>)"
      define env1 where "env1 = lf_free ov (if lf_type lock = F_RDLCK \<and> lf_type ov = F_WRLCK
        then snd (lf_wakelock ov env) else env)"
      have "\<exists>ls'. set_loop k False rest env1 = Some (ls', l, e) \<and> ls = sk @ (if link then [l] else []) @ ls'"
        using q n3 by (auto simp: k_def env1_def split: option.splits if_splits)
      then obtain ls' where "set_loop k False rest env1 = Some (ls', l, e)" "ls = sk @ (if link then [l] else []) @ ls'"
        by blast
      moreover have "lf_uid k = lf_uid lock" by (simp add: k_def)
      moreover have "ui_lockcnt env1 u = ui_lockcnt env u - (if lf_uid ov = u then 1 else 0)" by (simp add: env1_def)
      ultimately show ?thesis using ih [of k env1 ls' l e] c by auto
    next
      case n4
      then obtain ls' m env1 where r: "set_loop lock False rest env1 = Some (ls', l, e)" "ls = sk @ m # l # ls'"
        "lf_uid m = lf_uid ov" "ui_lockcnt env1 = ui_lockcnt env" "link"
        using q by (auto simp: lf_wakelock_def split: option.splits if_splits)
      from ih [OF r(1)] r(2-) c show ?thesis by auto
    next
      case other
      with q c show ?thesis by (auto simp: lf_wakelock_def Let_def split: if_splits)
    qed
  qed (use p in simp)
qed

lemma clearlock_cnt:
  "lf_clearlock lock lf env = Some (ls, e) \<Longrightarrow> ui_lockcnt e u - charged ls u = ui_lockcnt env u - charged lf u"
  by (auto simp: lf_clearlock_def clear_loop_cnt split: if_splits)

lemma setlock_cnt:
  "case lf_setlock wchan lock ls env of
      SetRet err ls' e \<Rightarrow> ui_lockcnt e u - charged ls' u
        = ui_lockcnt env u - charged ls u - (if lf_uid lock = u then 1 else 0)
    | SetSleep ls' e l \<Rightarrow> l = lock \<and> ui_lockcnt e u - charged ls' u = ui_lockcnt env u - charged ls u
    | SetBad \<Rightarrow> True"
  using set_loop_cnt [of lock True ls env] clearlock_cnt [of "lock\<lparr>lf_type := F_UNLCK\<rparr>" ls env]
    charged_strip [OF enqueue_strip]
  by (auto simp: lf_setlock_def split: option.splits)

section \<open>The operations\<close>

definition lf_inv :: "lockf list \<Rightarrow> bool" where
  "lf_inv ls \<longleftrightarrow> locks_ok ls \<and> compatible ls"

lemma lf_inv_wf: "lf_inv ls \<Longrightarrow> list_all lf_wf ls"
  by (simp add: lf_inv_def locks_ok_def)

lemma clearlock_correct:
  assumes "lf_inv ls" and "lf_wf lock"
  shows "\<exists>ls' e. lf_clearlock lock ls env = Some (ls', e) \<and> lf_inv ls'
    \<and> (\<forall>i b t. held ls' i b t \<longleftrightarrow> held ls i b t \<and> \<not> (i = lf_id lock \<and> covers lock b))"
proof (cases "ls = []")
  case True
  then show ?thesis by (simp add: lf_clearlock_def lf_inv_def compatible_def)
next
  case False
  with clear_loop_correct [of ls lock env] assms obtain ls' e where
    "lf_clearlock lock ls env = Some (ls', e)" "cleared lock ls ls'"
    by (auto simp: lf_inv_def lf_clearlock_def)
  moreover from this assms(1) have "lf_inv ls'"
    unfolding lf_inv_def compatible_def cleared_def by metis
  ultimately show ?thesis by (auto simp: cleared_def)
qed

lemma added_compatible:
  assumes "compatible ls" and "added lock ls ls'" and "\<not> conflicts ls lock"
  shows "compatible ls'"
  using assms unfolding compatible_def added_def conflicts_def by metis

lemma setlock_granted:
  assumes "lf_inv ls" and "lf_wf lock" and "\<not> conflicts ls lock"
  shows "\<exists>ls' e. lf_setlock wchan lock ls env = SetRet None ls' e \<and> lf_inv ls' \<and> added lock ls ls'"
proof -
  have "lf_getblock ls lock = None" using getblock_conflicts [OF lf_inv_wf [OF assms(1)] assms(2)] assms(3) by blast
  moreover from set_loop_correct [of ls lock env] assms obtain ls' l e where
    "set_loop lock True ls env = Some (ls', l, e)" "added lock ls ls'" by (auto simp: lf_inv_def)
  ultimately show ?thesis
    using added_compatible [of ls lock ls'] assms by (auto simp: lf_setlock_def lf_inv_def added_def)
qed

lemma setlock_blocked:
  assumes inv: "lf_inv ls" and lock: "lf_wf lock" and "conflicts ls lock"
  shows "case lf_setlock wchan lock ls env of
      SetRet err ls' e \<Rightarrow> ls' = ls \<and> (err = Some EAGAIN \<and> F_WAIT \<notin> lf_flags lock
        \<or> err = Some EDEADLK \<and> F_WAIT \<in> lf_flags lock
          \<and> (\<exists>p b t k. p \<noteq> lf_id lock \<and> held ls p b t \<and> covers lock b
                \<and> 0 < k \<and> k \<le> maxlockdepth \<and> (p, lf_id lock) \<in> waits_for wchan ^^ k))
    | SetSleep ls' e l \<Rightarrow> l = lock \<and> F_WAIT \<in> lf_flags lock \<and> lf_inv ls'
        \<and> (\<forall>i b t. held ls' i b t \<longleftrightarrow> held ls i b t
              \<and> \<not> (F_FLOCK \<in> lf_flags lock \<and> lf_type lock = F_WRLCK \<and> i = lf_id lock \<and> covers lock b))
    | SetBad \<Rightarrow> False"
proof -
  obtain block where blk: "lf_getblock ls lock = Some block"
    using getblock_conflicts [OF lf_inv_wf [OF inv] lock] assms(3) by auto
  with getblock_spec [OF lf_inv_wf [OF inv] lock] have id: "lf_id block \<noteq> lf_id lock" and mem: "block \<in> set ls"
    and ovl: "lf_start block \<le> hi lock" "lf_start lock \<le> hi block" by simp_all
  have "lf_wf block" using lf_inv_wf [OF inv] mem by (simp add: list_all_iff)
  then have "covers block (max (lf_start block) (lf_start lock))" "covers lock (max (lf_start block) (lf_start lock))"
    using ovl wf_bounds(2) [OF lock] wf_bounds(2) [of block] by (auto simp: covers_def)
  then have hb: "\<exists>b t. held ls (lf_id block) b t \<and> covers lock b" using mem by (auto simp: held_def)
  have dl: "\<exists>p b t k. p \<noteq> lf_id lock \<and> held ls p b t \<and> covers lock b
      \<and> 0 < k \<and> k \<le> maxlockdepth \<and> (p, lf_id lock) \<in> waits_for wchan ^^ k"
    if "deadlock_walk wchan (lf_id lock) maxlockdepth (lf_id block)"
    using that hb id unfolding deadlock_walk_iff by blast
  let ?u = "lock\<lparr>lf_type := F_UNLCK\<rparr>"
  have "lf_wf ?u" using lock by (simp add: lf_wf_def)
  from clearlock_correct [OF inv this, of env] obtain ls1 e1 where
    c: "lf_clearlock ?u ls env = Some (ls1, e1)" "lf_inv ls1"
      "\<forall>i b t. held ls1 i b t \<longleftrightarrow> held ls i b t \<and> \<not> (i = lf_id lock \<and> covers lock b)"
    by (auto simp: covers_def)
  have q: "lf_inv (lf_enqueue xs lock) = lf_inv xs" for xs
    by (simp add: lf_inv_def compatible_def queue_frame)
  show ?thesis
  proof (cases "F_FLOCK \<in> lf_flags lock \<and> lf_type lock = F_WRLCK")
    case True
    with blk c dl show ?thesis by (simp add: lf_setlock_def q queue_frame)
  next
    case False
    with blk inv dl show ?thesis by (simp add: lf_setlock_def q queue_frame) blast
  qed
qed

section \<open>Byte-range locking as a contract\<close>

text \<open>
  What a client of a lock manager relies on: a try is granted exactly when nobody else holds a
  byte of the range in a conflicting way, the grant gives the owner the range and nothing else
  changes, and unlocking takes just the range away from its owner.
\<close>

locale byte_lock_manager =
  fixes invar :: "'s \<Rightarrow> bool" and holds :: "'s \<Rightarrow> nat \<Rightarrow> int \<Rightarrow> lock_type \<Rightarrow> bool"
    and try_lock :: "lockf \<Rightarrow> 's \<Rightarrow> 's option" and unlock :: "lockf \<Rightarrow> 's \<Rightarrow> 's option"
  assumes exclusive: "\<lbrakk>invar s; holds s i b t; holds s j b u; i \<noteq> j\<rbrakk> \<Longrightarrow> t \<noteq> F_WRLCK \<and> u \<noteq> F_WRLCK"
    and try_refused: "\<lbrakk>invar s; lf_wf r; try_lock r s = None\<rbrakk>
      \<Longrightarrow> \<exists>i b t. i \<noteq> lf_id r \<and> covers r b \<and> holds s i b t \<and> (lf_type r = F_WRLCK \<or> t = F_WRLCK)"
    and try_granted: "\<lbrakk>invar s; lf_wf r; try_lock r s = Some s'\<rbrakk> \<Longrightarrow> invar s'
      \<and> (holds s' i b t \<longleftrightarrow> (i = lf_id r \<and> t = lf_type r \<and> covers r b)
           \<or> (holds s i b t \<and> \<not> (i = lf_id r \<and> covers r b)))"
    and unlocked: "\<lbrakk>invar s; lf_wf r\<rbrakk> \<Longrightarrow> \<exists>s'. unlock r s = Some s' \<and> invar s'
      \<and> (\<forall>i b t. holds s' i b t \<longleftrightarrow> holds s i b t \<and> \<not> (i = lf_id r \<and> covers r b))"
begin

lemma handover:
  assumes "invar s" and r: "lf_wf r" and q: "lf_wf q" and range: "\<And>b. covers r b \<Longrightarrow> covers q b"
    and only: "\<And>i b t. \<lbrakk>holds s i b t; covers r b; i \<noteq> lf_id r; lf_type r = F_WRLCK \<or> t = F_WRLCK\<rbrakk> \<Longrightarrow> i = lf_id q"
  shows "\<exists>s1 s2. unlock q s = Some s1 \<and> try_lock r s1 = Some s2 \<and> invar s2
    \<and> (\<forall>b. covers r b \<longrightarrow> holds s2 (lf_id r) b (lf_type r))"
proof -
  obtain s1 where s1: "unlock q s = Some s1" "invar s1"
    "\<And>i b t. holds s1 i b t \<longleftrightarrow> holds s i b t \<and> \<not> (i = lf_id q \<and> covers q b)"
    using unlocked [OF assms(1) q] by blast
  have "try_lock r s1 \<noteq> None"
    using try_refused [OF s1(2) r] only range s1(3) by metis
  then obtain s2 where "try_lock r s1 = Some s2" by blast
  with s1 try_granted [OF s1(2) r this] show ?thesis by blast
qed

lemma lock_unlock:
  assumes "invar s" and r: "lf_wf r" and "try_lock r s = Some s1"
  shows "\<exists>s2. unlock r s1 = Some s2 \<and> (\<forall>i b t. i \<noteq> lf_id r \<longrightarrow> holds s2 i b t = holds s i b t)
    \<and> (\<forall>b t. holds s2 (lf_id r) b t \<longleftrightarrow> holds s (lf_id r) b t \<and> \<not> covers r b)"
proof -
  note g = try_granted [OF assms]
  then obtain s2 where "unlock r s1 = Some s2"
    "\<And>i b t. holds s2 i b t \<longleftrightarrow> holds s1 i b t \<and> \<not> (i = lf_id r \<and> covers r b)"
    using unlocked [OF _ r, of s1] by blast
  with g show ?thesis by auto
qed

end

text \<open>A try is \<^verbatim>\<open>lf_setlock\<close> without \<^const>\<open>F_WAIT\<close>.\<close>

definition lf_try :: "lockf \<Rightarrow> lockf list \<times> lf_env \<Rightarrow> (lockf list \<times> lf_env) option" where
  "lf_try lock s =
     (case lf_setlock (\<lambda>_. None) (lock\<lparr>lf_flags := lf_flags lock - {F_WAIT}\<rparr>) (fst s) (snd s) of
        SetRet None ls env \<Rightarrow> Some (ls, env) | _ \<Rightarrow> None)"

definition lf_unlock :: "lockf \<Rightarrow> lockf list \<times> lf_env \<Rightarrow> (lockf list \<times> lf_env) option" where
  "lf_unlock lock s = lf_clearlock lock (fst s) (snd s)"

lemma flags_frame:
  "conflicts ls (lock\<lparr>lf_flags := f\<rparr>) = conflicts ls lock" "lf_wf (lock\<lparr>lf_flags := f\<rparr>) = lf_wf lock"
  "added (lock\<lparr>lf_flags := f\<rparr>) = added lock"
  by (simp_all add: conflicts_def lf_wf_def added_def covers_def hi_def fun_eq_iff)

lemma try_spec:
  assumes "lf_inv (fst s)" and "lf_wf lock"
  shows "if conflicts (fst s) lock then lf_try lock s = None
    else \<exists>s'. lf_try lock s = Some s' \<and> lf_inv (fst s') \<and> added lock (fst s) (fst s')"
proof -
  let ?l = "lock\<lparr>lf_flags := lf_flags lock - {F_WAIT}\<rparr>"
  show ?thesis
  proof (cases "conflicts (fst s) lock")
    case True
    with setlock_blocked [of "fst s" ?l "\<lambda>_. None" "snd s"] assms show ?thesis
      by (auto simp: lf_try_def flags_frame split: set_outcome.splits option.splits)
  next
    case False
    with setlock_granted [of "fst s" ?l "\<lambda>_. None" "snd s"] assms show ?thesis
      by (auto simp: lf_try_def flags_frame)
  qed
qed

interpretation lf: byte_lock_manager "\<lambda>s. lf_inv (fst s)" "\<lambda>s. held (fst s)" lf_try lf_unlock
proof
  show "t \<noteq> F_WRLCK \<and> u \<noteq> F_WRLCK"
    if "lf_inv (fst s)" "held (fst s) i b t" "held (fst s) j b u" "i \<noteq> j" for s i b t j u
    using that by (auto simp: lf_inv_def compatible_def)
  show "\<exists>i b t. i \<noteq> lf_id r \<and> covers r b \<and> held (fst s) i b t \<and> (lf_type r = F_WRLCK \<or> t = F_WRLCK)"
    if "lf_inv (fst s)" "lf_wf r" "lf_try r s = None" for s r
    using try_spec [OF that(1,2)] that(3) by (auto simp: conflicts_def split: if_splits)
  show "lf_inv (fst s') \<and> (held (fst s') i b t \<longleftrightarrow> (i = lf_id r \<and> t = lf_type r \<and> covers r b)
           \<or> (held (fst s) i b t \<and> \<not> (i = lf_id r \<and> covers r b)))"
    if "lf_inv (fst s)" "lf_wf r" "lf_try r s = Some s'" for s r s' i b t
    using try_spec [OF that(1,2)] that(3) by (auto simp: added_def split: if_splits)
  show "\<exists>s'. lf_unlock r s = Some s' \<and> lf_inv (fst s')
      \<and> (\<forall>i b t. held (fst s') i b t \<longleftrightarrow> held (fst s) i b t \<and> \<not> (i = lf_id r \<and> covers r b))"
    if "lf_inv (fst s)" "lf_wf r" for s r
    using clearlock_correct [OF that, of "snd s"] by (auto simp: lf_unlock_def)
qed

section \<open>Properties\<close>

text \<open>
  C8. \<^verbatim>\<open>lf_setlock\<close> on every path. It is granted exactly when no other owner holds a byte of the
  range in a conflicting way; then the owner holds the whole range with the new type, keeps its other
  bytes, and nobody else's locks change. Otherwise the list is unchanged and the result is EAGAIN,
  or EDEADLK with a chain of waiting processes from a holder of the range back to the caller, or the caller goes to sleep, a
  flock upgrade having given up the bytes of its range first. The list stays well formed (sorted and
  disjoint per owner, owners compatible) throughout, and is never corrupted.
\<close>

theorem lf_setlock_correct:
  assumes "lf_inv ls" and "lf_wf lock"
  shows "case lf_setlock wchan lock ls env of
      SetRet None ls' e \<Rightarrow> \<not> conflicts ls lock \<and> lf_inv ls'
        \<and> (\<forall>i b t. held ls' i b t \<longleftrightarrow> (i = lf_id lock \<and> t = lf_type lock \<and> covers lock b)
              \<or> (held ls i b t \<and> \<not> (i = lf_id lock \<and> covers lock b)))
    | SetRet (Some err) ls' e \<Rightarrow> conflicts ls lock \<and> ls' = ls
        \<and> (err = EAGAIN \<and> F_WAIT \<notin> lf_flags lock \<or> err = EDEADLK \<and> F_WAIT \<in> lf_flags lock
          \<and> (\<exists>p b t k. p \<noteq> lf_id lock \<and> held ls p b t \<and> covers lock b
                \<and> 0 < k \<and> k \<le> maxlockdepth \<and> (p, lf_id lock) \<in> waits_for wchan ^^ k))
    | SetSleep ls' e l \<Rightarrow> conflicts ls lock \<and> l = lock \<and> F_WAIT \<in> lf_flags lock \<and> lf_inv ls'
        \<and> (\<forall>i b t. held ls' i b t \<longleftrightarrow> held ls i b t
              \<and> \<not> (F_FLOCK \<in> lf_flags lock \<and> lf_type lock = F_WRLCK \<and> i = lf_id lock \<and> covers lock b))
    | SetBad \<Rightarrow> False"
proof (cases "conflicts ls lock")
  case True
  with setlock_blocked [OF assms True, of wchan env] show ?thesis
    by (auto split: set_outcome.splits option.splits)
next
  case False
  with setlock_granted [OF assms False, of wchan env] show ?thesis
    by (auto simp: added_def)
qed

definition demo_lock :: "nat \<Rightarrow> lock_type \<Rightarrow> int \<Rightarrow> int \<Rightarrow> lockf" where
  "demo_lock i t s e = \<lparr>lf_start = s, lf_end = e, lf_id = i, lf_flags = {F_POSIX}, lf_type = t,
     lf_uid = 100 + i, lf_blkhd = []\<rparr>"

definition demo_env :: lf_env where
  "demo_env = \<lparr>ui_lockcnt = (\<lambda>_. 5), lf_woken = []\<rparr>"

definition demo_list :: "lockf list" where
  "demo_list = [demo_lock 1 F_RDLCK 0 99, demo_lock 2 F_RDLCK 50 (-1)]"

lemma demo_list_inv: "lf_inv demo_list"
  by (auto simp: lf_inv_def demo_list_def demo_lock_def lf_wf_def before_def compatible_def)

lemmas lf_eval = lf_setlock_def lf_getblock.simps set_loop.simps clear_loop.simps demo_list_def demo_lock_def
  lf_split_def lf_wakelock_def lf_free_def lf_alloc_def Let_def off64_def

theorem lf_setlock_correct_witness:
  "\<exists>ls' e. lf_setlock (\<lambda>_. None) (demo_lock 1 F_WRLCK 10 19) demo_list demo_env = SetRet None ls' e
    \<and> map lf_start ls' = [0, 10, 20, 50] \<and> lf_inv ls' \<and> held ls' 1 15 F_WRLCK"
proof -
  let ?l = "demo_lock 1 F_WRLCK 10 19"
  obtain ls' e where r: "lf_setlock (\<lambda>_. None) ?l demo_list demo_env = SetRet None ls' e"
    "map lf_start ls' = [0, 10, 20, 50]"
    by (simp add: lf_eval)
  have "lf_wf ?l" by (simp add: demo_lock_def lf_wf_def)
  from lf_setlock_correct [OF demo_list_inv this, of "\<lambda>_. None" demo_env] r show ?thesis
    by (simp add: demo_lock_def covers_def hi_def)
qed

text \<open>
  C9. \<^verbatim>\<open>lf_clearlock\<close>, splitting and shrinking locks as needed, takes away from the caller exactly
  the bytes of the range and leaves every other holding as it was.
\<close>

theorem lf_clearlock_correct:
  assumes "lf_inv ls" and "lf_wf lock"
  shows "\<exists>ls' e. lf_clearlock lock ls env = Some (ls', e) \<and> lf_inv ls'
    \<and> (\<forall>i b t. held ls' i b t \<longleftrightarrow> held ls i b t \<and> \<not> (i = lf_id lock \<and> covers lock b))"
  using assms by (rule clearlock_correct)

theorem lf_clearlock_correct_witness:
  "\<exists>ls' e. lf_clearlock (demo_lock 1 F_UNLCK 40 59) demo_list demo_env = Some (ls', e) \<and> lf_inv ls'
    \<and> held ls' 1 39 F_RDLCK \<and> \<not> held ls' 1 50 F_RDLCK \<and> held ls' 2 50 F_RDLCK"
proof -
  have "lf_wf (demo_lock 1 F_UNLCK 40 59)" by (simp add: demo_lock_def lf_wf_def)
  from lf_clearlock_correct [OF demo_list_inv this, of demo_env] show ?thesis
    by (auto simp: demo_list_def demo_lock_def covers_def hi_def)
qed

text \<open>
  Handing a range over: if the only owner in the way of a request gives up the range, the
  request is granted when it is tried next.
\<close>

theorem lf_handover:
  assumes "lf_inv (fst s)" and "lf_wf r" and "lf_wf q" and "\<And>b. covers r b \<Longrightarrow> covers q b"
    and "\<And>i b t. \<lbrakk>held (fst s) i b t; covers r b; i \<noteq> lf_id r; lf_type r = F_WRLCK \<or> t = F_WRLCK\<rbrakk> \<Longrightarrow> i = lf_id q"
  shows "\<exists>s1 s2. lf_unlock q s = Some s1 \<and> lf_try r s1 = Some s2 \<and> lf_inv (fst s2)
    \<and> (\<forall>b. covers r b \<longrightarrow> held (fst s2) (lf_id r) b (lf_type r))"
  using assms by (rule lf.handover)

theorem lf_handover_witness:
  "\<exists>s1 s2. lf_unlock (demo_lock 1 F_UNLCK 0 (-1)) (demo_list, demo_env) = Some s1
    \<and> lf_try (demo_lock 2 F_WRLCK 20 29) s1 = Some s2 \<and> lf_inv (fst s2)
    \<and> (\<forall>b. covers (demo_lock 2 F_WRLCK 20 29) b \<longrightarrow> held (fst s2) 2 b F_WRLCK)"
proof -
  let ?r = "demo_lock 2 F_WRLCK 20 29" and ?q = "demo_lock 1 F_UNLCK 0 (-1)"
  have "\<exists>s1 s2. lf_unlock ?q (demo_list, demo_env) = Some s1 \<and> lf_try ?r s1 = Some s2 \<and> lf_inv (fst s2)
    \<and> (\<forall>b. covers ?r b \<longrightarrow> held (fst s2) (lf_id ?r) b (lf_type ?r))"
    by (rule lf_handover)
      (use demo_list_inv in \<open>auto simp: demo_lock_def demo_list_def lf_wf_def covers_def hi_def\<close>)
  then show ?thesis by (simp add: demo_lock_def)
qed

text \<open>
  Lock accounting: whatever \<^verbatim>\<open>lf_advlock\<close> does (grant, refuse, unlock, query, split, merge),
  when it returns the count of locks charged to each user has changed by exactly as much as the
  number of the user's locks on the file; when it sleeps, one more lock, the waiting request, is
  charged to the caller.
\<close>

theorem lf_advlock_accounting:
  "case lf_advlock wchan pid_of uid ls env fsize ident op fl flags of
      AdvRet err ls' e fl' \<Rightarrow> ui_lockcnt e u - charged ls' u = ui_lockcnt env u - charged ls u
    | AdvSleep ls' e l \<Rightarrow> lf_uid l = uid
        \<and> ui_lockcnt e u - charged ls' u = ui_lockcnt env u - charged ls u + (if uid = u then 1 else 0)
    | AdvBad \<Rightarrow> True"
proof (cases "flock_range fsize fl")
  case None
  then show ?thesis by (simp add: lf_advlock_def)
next
  case (Some se)
  define a where "a = lf_alloc uid (if op \<noteq> F_OP_UNLCK then 1 else 2) env"
  obtain s e where se: "se = (s, e)" by (cases se)
  define lock where "lock = \<lparr>lf_start = s, lf_end = e, lf_id = ident, lf_flags = flags,
     lf_type = l_type fl, lf_uid = uid, lf_blkhd = []\<rparr>"
  have u: "lf_uid lock = uid" by (simp add: lock_def)
  show ?thesis
  proof (cases "ls = [] \<and> op \<noteq> F_SETLK \<or> a = None")
    case True
    then show ?thesis using Some se by (auto simp: lf_advlock_def a_def)
  next
    case False
    then obtain env1 where env1: "a = Some env1" by auto
    have cnt: "ui_lockcnt env1 u = ui_lockcnt env u + (if uid = u then 1 else 0)"
      using env1 by (auto simp: a_def dest: alloc_cnt [of _ _ _ _ u])
    have eq: "lf_advlock wchan pid_of uid ls env fsize ident op fl flags =
       (case op of
          F_SETLK \<Rightarrow> (case lf_setlock wchan lock ls env1 of
               SetRet e head1 env2 \<Rightarrow> AdvRet e head1 env2 fl
             | SetSleep head1 env2 l \<Rightarrow> AdvSleep head1 env2 l | SetBad \<Rightarrow> AdvBad)
        | F_OP_UNLCK \<Rightarrow> (case lf_clearlock lock ls env1 of
               None \<Rightarrow> AdvBad | Some (head1, env2) \<Rightarrow> AdvRet None head1 (lf_free lock env2) fl)
        | F_GETLK \<Rightarrow> AdvRet None ls (lf_free lock env1) (lf_getlock pid_of lock ls fl)
        | F_OP_BAD \<Rightarrow> AdvRet (Some EINVAL) ls (lf_free lock env1) fl)"
      using False Some se env1 unfolding lock_def by (auto simp: lf_advlock_def a_def Let_def)
    show ?thesis
      unfolding eq using setlock_cnt [where wchan = wchan and lock = lock and ls = ls and env = env1 and u = u] clearlock_cnt [of lock ls env1 _ _ u] cnt u
      by (cases op) (auto split: set_outcome.splits option.splits)
  qed
qed

text \<open>
  \<^verbatim>\<open>lf_getlock\<close> (F_GETLK) reports a lock that really stands in the way: if a conflicting lock
  exists, the answer describes such a lock of another owner that overlaps the request, and otherwise
  it says the range can be locked.
\<close>

theorem lf_getlock_correct:
  assumes "list_all lf_wf ls" and "lf_wf lock"
  shows "if conflicts ls lock then \<exists>l\<in>set ls. lf_id l \<noteq> lf_id lock \<and> (\<exists>b. covers l b \<and> covers lock b)
        \<and> (lf_type lock = F_WRLCK \<or> lf_type l = F_WRLCK)
        \<and> lf_getlock pid_of lock ls fl = \<lparr>l_start = lf_start l,
            l_len = (if lf_end l = -1 then 0 else lf_end l - lf_start l + 1),
            l_pid = (if F_POSIX \<in> lf_flags l then pid_of (lf_id l) else -1), l_type = lf_type l, l_whence = SEEK_SET\<rparr>
    else lf_getlock pid_of lock ls fl = fl\<lparr>l_type := F_UNLCK\<rparr>"
proof (cases "lf_getblock ls lock")
  case None
  with getblock_conflicts [OF assms] show ?thesis by (simp add: lf_getlock_def)
next
  case (Some l)
  with getblock_spec [OF assms] have l: "l \<in> set ls" "lf_id l \<noteq> lf_id lock" "lf_start l \<le> hi lock"
    "lf_start lock \<le> hi l" "lf_type lock = F_WRLCK \<or> lf_type l = F_WRLCK" by simp_all
  have wf: "lf_wf l" using assms(1) l(1) by (simp add: list_all_iff)
  then have "lf_end l \<noteq> -1 \<Longrightarrow> off64 (lf_end l - lf_start l + 1) = lf_end l - lf_start l + 1"
    by (intro off64_id) (auto simp: lf_wf_def)
  moreover have "covers l (max (lf_start l) (lf_start lock)) \<and> covers lock (max (lf_start l) (lf_start lock))"
    using l wf_bounds(2) [OF wf] wf_bounds(2) [OF assms(2)] by (auto simp: covers_def)
  moreover have "conflicts ls lock" using getblock_conflicts [OF assms] Some by simp
  ultimately show ?thesis using Some l by (auto simp: lf_getlock_def)
qed

theorem lf_getlock_correct_witness:
  "conflicts demo_list (demo_lock 3 F_WRLCK 60 69)
   \<and> (\<exists>l\<in>set demo_list. lf_id l \<noteq> 3 \<and> (\<exists>b. covers l b \<and> covers (demo_lock 3 F_WRLCK 60 69) b))"
proof -
  have wf: "lf_wf (demo_lock 3 F_WRLCK 60 69)" by (simp add: demo_lock_def lf_wf_def)
  have c: "conflicts demo_list (demo_lock 3 F_WRLCK 60 69)"
    unfolding conflicts_iff [OF lf_inv_wf [OF demo_list_inv] wf]
    by (simp add: demo_list_def demo_lock_def hi_def)
  with lf_getlock_correct [OF lf_inv_wf [OF demo_list_inv] wf, of undefined undefined] show ?thesis
    by (auto simp: demo_lock_def)
qed

text \<open>
  The header says the locks of a file are sorted by their first byte; the list is sorted per
  owner only: after one process locks a high range and another a low one, the high one is first.
\<close>

theorem lf_list_not_sorted:
  "\<exists>e. lf_setlock (\<lambda>_. None) (demo_lock 2 F_WRLCK 0 9) [demo_lock 1 F_WRLCK 100 109] demo_env
     = SetRet None [demo_lock 1 F_WRLCK 100 109, demo_lock 2 F_WRLCK 0 9] e"
  by (simp add: lf_eval)

text \<open>
  The end of a range is computed as start + length - 1 in a signed 64-bit type. When start +
  length is \<open>2 ^ 63\<close> the sum overflows; if it wraps, the range ends at the largest offset, and
  splitting a lock to the end of file there gives its last part a negative start, so that one owner
  holds both a shared and an exclusive lock on the bytes of the range.
\<close>

theorem lf_advlock_overflow:
  "flock_range 0 \<lparr>l_start = 5, l_len = 2 ^ 63 - 5, l_pid = 0, l_type = F_WRLCK, l_whence = SEEK_SET\<rparr>
     = Some (5, 2 ^ 63 - 1)
   \<and> (\<exists>ls' e. lf_setlock (\<lambda>_. None) (demo_lock 1 F_WRLCK 5 (2 ^ 63 - 1)) [demo_lock 1 F_RDLCK 0 (-1)] demo_env
        = SetRet None ls' e \<and> held ls' 1 5 F_RDLCK \<and> held ls' 1 5 F_WRLCK)"
  by (simp add: lf_eval flock_range_def covers_def hi_def)
end
