(* ===== verification/Clist.thy ===== *)
theory Clist
  imports Kern_Prelude
begin

text \<open>
  Character queues of the terminal driver (\<^verbatim>\<open>src/sys/kern/tty_subr.c\<close>, \<^verbatim>\<open>struct clist\<close> of
  \<^verbatim>\<open>src/sys/sys/tty.h\<close>): ring buffers of characters with one quote bit per character. A pointer
  into the ring is an offset from its start, \<open>None\<close> the null pointer. An operation has no result
  (\<open>None\<close>) if it would dereference a null pointer or leave the ring, or loop without progress. The
  quote bits are a byte array of their own; \<open>c_oob\<close> records that an access left that array, in which
  case the array itself gets only the part of the effect that falls inside.
\<close>

section \<open>Data\<close>

record clist =
  c_cc :: nat
  c_cn :: nat
  c_cf :: "nat option"
  c_cl :: "nat option"
  c_cs :: "u8 list option"
  c_cq :: "u8 list option"
  c_oob :: bool

definition QMEM :: "nat \<Rightarrow> nat" where
  "QMEM n = (n - 1) div 8 + 1"

definition TTY_QUOTE :: u32 where
  "TTY_QUOTE = 0x100"

definition clalloc :: "clist \<Rightarrow> nat \<Rightarrow> bool \<Rightarrow> clist" where
  "clalloc clp sz quot =
     clp\<lparr>c_cs := Some (replicate sz 0),
         c_cq := (if quot then Some (replicate (QMEM sz) 0) else None),
         c_cf := None, c_cl := None, c_cn := sz, c_cc := 0\<rparr>"

definition clfree :: "clist \<Rightarrow> clist" where
  "clfree clp = clp\<lparr>c_cs := None, c_cq := None\<rparr>"

section \<open>Bit arrays\<close>

text \<open>\<open>beyond\<close> is the byte read at an index past the end of the array.\<close>

definition isset :: "u8 \<Rightarrow> u8 list \<Rightarrow> nat \<Rightarrow> bool" where
  "isset beyond q i = bit (if i div 8 < length q then q ! (i div 8) else beyond) (i mod 8)"

text \<open>Update one byte; the flag says that the index is past the end.\<close>

definition byte_upd :: "nat \<Rightarrow> (u8 \<Rightarrow> u8) \<Rightarrow> u8 list \<times> bool \<Rightarrow> u8 list \<times> bool" where
  "byte_upd i f qo = (case qo of (q, oob) \<Rightarrow>
     if i < length q then (q[i := f (q ! i)], oob) else (q, True))"

definition setbit :: "nat \<Rightarrow> u8 list \<times> bool \<Rightarrow> u8 list \<times> bool" where
  "setbit i = byte_upd (i div 8) (\<lambda>b. b OR push_bit (i mod 8) 1)"

definition clrbit :: "nat \<Rightarrow> u8 list \<times> bool \<Rightarrow> u8 list \<times> bool" where
  "clrbit i = byte_upd (i div 8) (\<lambda>b. b AND NOT (push_bit (i mod 8) 1))"

definition clrbits :: "nat \<Rightarrow> nat \<Rightarrow> u8 list \<times> bool \<Rightarrow> u8 list \<times> bool" where
  "clrbits off len qo =
     (if len = 1 then clrbit off qo
      else
        let sby = off div 8; sbi = off mod 8; eby = (off + len) div 8; ebi = (off + len) mod 8
        in if sby = eby then
             byte_upd sby (\<lambda>b. b AND NOT (push_bit sbi (push_bit (ebi - sbi) 1 - 1))) qo
           else
             fold (\<lambda>i. byte_upd i (\<lambda>_. 0)) [sby + 1..<eby]
               (byte_upd eby (\<lambda>b. b AND NOT (push_bit ebi 1 - 1))
                 (byte_upd sby (\<lambda>b. b AND (push_bit sbi 1 - 1)) qo)))"

text \<open>Applying one of these to the quote bits of a queue, if it has any.\<close>

definition on_quotes :: "(u8 list \<times> bool \<Rightarrow> u8 list \<times> bool) \<Rightarrow> clist \<Rightarrow> clist" where
  "on_quotes f clp = (case c_cq clp of
     None \<Rightarrow> clp
   | Some q \<Rightarrow> (case f (q, c_oob clp) of (q', oob) \<Rightarrow> clp\<lparr>c_cq := Some q', c_oob := oob\<rparr>))"

section \<open>Single characters\<close>

text \<open>A character as an integer: the byte, with \<^const>\<open>TTY_QUOTE\<close> when it is quoted.\<close>

definition ttychar :: "u8 \<Rightarrow> bool \<Rightarrow> u32" where
  "ttychar b quoted = (if quoted then ucast b OR TTY_QUOTE else ucast b)"

text \<open>The result \<open>None\<close> of the character stands for -1.\<close>

definition getc :: "clist \<Rightarrow> (u32 option \<times> clist) option" where
  "getc clp =
     (if c_cc clp = 0 then Some (None, clp)
      else case (c_cf clp, c_cl clp, c_cs clp) of
        (Some cf, Some cl, Some cs) \<Rightarrow>
          if cf < length cs then
            let c = ttychar (cs ! cf) (case c_cq clp of None \<Rightarrow> False | Some q \<Rightarrow> isset 0 q cf);
                clp1 = on_quotes (clrbit cl) (clp\<lparr>c_cs := Some (cs[cf := 0])\<rparr>);
                clp2 = clp1\<lparr>c_cf := Some (if cf + 1 = c_cn clp then 0 else cf + 1), c_cc := c_cc clp - 1\<rparr>
            in Some (Some c, if c_cc clp2 = 0 then clp2\<lparr>c_cf := None, c_cl := None\<rparr> else clp2)
          else None
      | _ \<Rightarrow> None)"

text \<open>Preparing an empty queue for insertion; \<^verbatim>\<open>malloc\<close> waits for memory.\<close>

definition cl_prepare :: "clist \<Rightarrow> clist" where
  "cl_prepare clp =
     (if c_cc clp = 0 then
        (if c_cs clp = None then clalloc clp 1024 True else clp)\<lparr>c_cf := Some 0, c_cl := Some 0\<rparr>
      else clp)"

definition putc :: "u32 \<Rightarrow> clist \<Rightarrow> (int \<times> clist) option" where
  "putc c clp =
     (if c_cc clp = c_cn clp then Some (-1, clp)
      else
        let clp0 = cl_prepare clp
        in case (c_cl clp0, c_cs clp0) of
             (Some cl, Some cs) \<Rightarrow>
               if cl < length cs then
                 let clp1 = clp0\<lparr>c_cs := Some (cs[cl := ucast c])\<rparr>;
                     clp2 = on_quotes (if c AND TTY_QUOTE \<noteq> 0 then setbit cl else clrbit cl) clp1
                 in Some (0, clp2\<lparr>c_cc := c_cc clp0 + 1,
                                  c_cl := Some (if cl + 1 = c_cn clp0 then 0 else cl + 1)\<rparr>)
               else None
           | _ \<Rightarrow> None)"

definition unputc :: "clist \<Rightarrow> (u32 option \<times> clist) option" where
  "unputc clp =
     (if c_cc clp = 0 then Some (None, clp)
      else case (c_cl clp, c_cs clp) of
        (Some cl, Some cs) \<Rightarrow>
          let cl' = (if cl = 0 then c_cn clp - 1 else cl - 1)
          in if cl' < length cs then
               let c = ttychar (cs ! cl') (case c_cq clp of None \<Rightarrow> False | Some q \<Rightarrow> isset 0 q cl');
                   clp1 = clp\<lparr>c_cl := Some cl', c_cc := c_cc clp - 1\<rparr>
               in Some (Some c, if c_cc clp1 = 0 then clp1\<lparr>c_cf := None, c_cl := None\<rparr> else clp1)
             else None
      | _ \<Rightarrow> None)"

section \<open>Blocks\<close>

text \<open>How many characters can be read without going round the end of the ring.\<close>

definition read_run :: "clist \<Rightarrow> nat \<Rightarrow> nat \<Rightarrow> nat" where
  "read_run clp cf cl = (if cf \<ge> cl then c_cn clp - cf else cl - cf)"

function q_to_b_loop :: "clist \<Rightarrow> nat \<Rightarrow> (u8 list \<times> clist) option" where
  "q_to_b_loop clp count =
     (if 0 < count \<and> 0 < c_cc clp then
        (case (c_cf clp, c_cl clp, c_cs clp) of
           (Some cf, Some cl, Some cs) \<Rightarrow>
             (let cc = min (read_run clp cf cl) count
              in if 0 < cc \<and> cf + cc \<le> length cs then
                   let clp1 = on_quotes (clrbits cl cc)
                         (clp\<lparr>c_cs := Some (take cf cs @ replicate cc 0 @ drop (cf + cc) cs)\<rparr>);
                       clp2 = clp1\<lparr>c_cc := c_cc clp - cc,
                                   c_cf := Some (if cf + cc = c_cn clp then 0 else cf + cc)\<rparr>
                   in case q_to_b_loop clp2 (count - cc) of
                        None \<Rightarrow> None
                      | Some (p, clp') \<Rightarrow> Some (take cc (drop cf cs) @ p, clp')
                 else None)
         | _ \<Rightarrow> None)
      else Some ([], clp))"
  by pat_completeness auto
termination
  by (relation "measure (\<lambda>(clp, count). count)") auto

definition q_to_b :: "clist \<Rightarrow> nat \<Rightarrow> (u8 list \<times> clist) option" where
  "q_to_b clp count =
     (case q_to_b_loop clp count of
        None \<Rightarrow> None
      | Some (p, clp') \<Rightarrow> Some (p, if c_cc clp' = 0 then clp'\<lparr>c_cf := None, c_cl := None\<rparr> else clp'))"

text \<open>The two counting loops of \<^verbatim>\<open>ndqb\<close>: \<open>stop cs i\<close> is the test on the character at \<open>i\<close>.\<close>

fun ndqb_loop :: "(nat \<Rightarrow> bool) \<Rightarrow> nat \<Rightarrow> nat \<Rightarrow> nat \<Rightarrow> nat \<Rightarrow> nat" where
  "ndqb_loop stop cn 0 i count = count"
| "ndqb_loop stop cn (Suc cc) i count =
     (if stop i then count
      else if i + 1 = cn then count + 1
      else ndqb_loop stop cn cc (i + 1) (count + 1))"

definition ndqb :: "u8 \<Rightarrow> clist \<Rightarrow> u32 \<Rightarrow> nat option" where
  "ndqb beyond clp flag =
     (if c_cc clp = 0 then Some 0
      else case (c_cf clp, c_cl clp, c_cs clp) of
        (Some cf, Some cl, Some cs) \<Rightarrow>
          if flag = 0 then Some (if cl \<le> cf then c_cn clp - cf else cl - cf)
          else if flag AND TTY_QUOTE \<noteq> 0 then
            (case c_cq clp of
               None \<Rightarrow> None
             | Some q \<Rightarrow> Some (ndqb_loop
                 (\<lambda>i. ucast (cs ! i) AND (flag AND NOT TTY_QUOTE) \<noteq> 0 \<or> isset beyond q (i + 1))
                 (c_cn clp) (c_cc clp) cf 0))
          else Some (ndqb_loop (\<lambda>i. ucast (cs ! i) AND flag \<noteq> 0) (c_cn clp) (c_cc clp) cf 0)
      | _ \<Rightarrow> None)"

function ndflush_loop :: "clist \<Rightarrow> nat \<Rightarrow> clist option" where
  "ndflush_loop clp count =
     (if 0 < count \<and> 0 < c_cc clp then
        (case (c_cf clp, c_cl clp) of
           (Some cf, Some cl) \<Rightarrow>
             (let cc = min (read_run clp cf cl) count
              in if 0 < cc then
                   ndflush_loop (clp\<lparr>c_cc := c_cc clp - cc,
                       c_cf := Some (if cf + cc = c_cn clp then 0 else cf + cc)\<rparr>) (count - cc)
                 else None)
         | _ \<Rightarrow> None)
      else Some clp)"
  by pat_completeness auto
termination
  by (relation "measure (\<lambda>(clp, count). count)") auto

definition ndflush :: "clist \<Rightarrow> nat \<Rightarrow> clist option" where
  "ndflush clp count =
     (if count = c_cc clp then Some (clp\<lparr>c_cc := 0, c_cf := None, c_cl := None\<rparr>)
      else map_option (\<lambda>clp'. if c_cc clp' = 0 then clp'\<lparr>c_cf := None, c_cl := None\<rparr> else clp')
             (ndflush_loop clp count))"

function b_to_q_loop :: "u8 list \<Rightarrow> clist \<Rightarrow> (nat \<times> clist) option" where
  "b_to_q_loop p clp =
     (if p \<noteq> [] \<and> c_cc clp < c_cn clp then
        (case (c_cf clp, c_cl clp, c_cs clp) of
           (Some cf, Some cl, Some cs) \<Rightarrow>
             (let cc = min (if cf > cl then cf - cl else c_cn clp - cl) (length p)
              in if 0 < cc \<and> cl + cc \<le> length cs then
                   b_to_q_loop (drop cc p)
                     ((on_quotes (clrbits cl cc)
                        (clp\<lparr>c_cs := Some (take cl cs @ take cc p @ drop (cl + cc) cs)\<rparr>))
                       \<lparr>c_cc := c_cc clp + cc, c_cl := Some (if cl + cc = c_cn clp then 0 else cl + cc)\<rparr>)
                 else None)
         | _ \<Rightarrow> None)
      else Some (length p, clp))"
  by pat_completeness auto
termination
  by (relation "measure (\<lambda>(p, clp). length p)") auto

definition b_to_q :: "u8 list \<Rightarrow> clist \<Rightarrow> (nat \<times> clist) option" where
  "b_to_q p clp =
     (if p = [] then Some (0, clp)
      else if c_cc clp = c_cn clp then Some (length p, clp)
      else b_to_q_loop p (cl_prepare clp))"

section \<open>Walking\<close>

text \<open>
  The file-local variable \<^verbatim>\<open>cc\<close> is passed and returned. A null result ends the walk; otherwise the
  result is the position, the character and the new \<^verbatim>\<open>cc\<close>.
\<close>

definition char_at :: "clist \<Rightarrow> nat \<Rightarrow> u32 option" where
  "char_at clp cp = (case c_cs clp of
     Some cs \<Rightarrow> if cp < length cs
       then Some (ttychar (cs ! cp) (case c_cq clp of None \<Rightarrow> False | Some q \<Rightarrow> isset 0 q cp)) else None
   | None \<Rightarrow> None)"

definition firstc :: "clist \<Rightarrow> (nat \<times> u32 \<times> nat) option" where
  "firstc clp =
     (if c_cc clp = 0 then None
      else case c_cf clp of
        Some cf \<Rightarrow> map_option (\<lambda>c. (cf, c, c_cc clp)) (char_at clp cf)
      | None \<Rightarrow> None)"

definition nextc :: "clist \<Rightarrow> nat \<Rightarrow> nat \<Rightarrow> (nat \<times> u32 \<times> nat) option" where
  "nextc clp cp cc =
     (let cc0 = (if c_cf clp = Some cp then c_cc clp else cc)
      in if cc0 = 0 \<or> cc0 - 1 = 0 then None
         else
           let cp' = (if cp + 1 = c_cn clp then 0 else cp + 1)
           in map_option (\<lambda>c. (cp', c, cc0 - 1)) (char_at clp cp'))"

section \<open>Concatenation\<close>

text \<open>The loop of \<^verbatim>\<open>catq\<close>; \<open>fuel\<close> bounds the number of characters moved.\<close>

fun catq_loop :: "nat \<Rightarrow> clist \<Rightarrow> clist \<Rightarrow> (clist \<times> clist) option" where
  "catq_loop 0 fr to = None"
| "catq_loop (Suc fuel) fr to =
     (case getc fr of
        None \<Rightarrow> None
      | Some (None, fr') \<Rightarrow> Some (fr', to)
      | Some (Some c, fr') \<Rightarrow>
          (case putc c to of None \<Rightarrow> None | Some (_, to') \<Rightarrow> catq_loop fuel fr' to'))"

definition catq :: "clist \<Rightarrow> clist \<Rightarrow> (clist \<times> clist) option" where
  "catq fr to =
     (if c_cc fr = 0 then Some (fr, to)
      else if c_cc to = 0 \<and> c_cn fr = c_cn to then Some (to, fr)
      else catq_loop (c_cc fr + 1) fr to)"

declare q_to_b_loop.simps [simp del] ndflush_loop.simps [simp del] b_to_q_loop.simps [simp del]

section \<open>Bit arrays\<close>

lemma byte_upd_simps:
  "length (fst (byte_upd i f (q, oob))) = length q"
  "k < length q \<Longrightarrow> fst (byte_upd i f (q, oob)) ! k = (if k = i then f (q ! i) else q ! k)"
  "snd (byte_upd i f (q, oob)) = (oob \<or> length q \<le> i)"
  by (auto simp: byte_upd_def)

lemma fold_zero:
  "length (fst (fold (\<lambda>i. byte_upd i (\<lambda>_. 0)) is (q, oob))) = length q
   \<and> snd (fold (\<lambda>i. byte_upd i (\<lambda>_. 0)) is (q, oob)) = (oob \<or> (\<exists>i\<in>set is. length q \<le> i))
   \<and> (\<forall>k<length q. fst (fold (\<lambda>i. byte_upd i (\<lambda>_. 0)) is (q, oob)) ! k = (if k \<in> set is then 0 else q ! k))"
proof (induction "is" arbitrary: q oob)
  case (Cons i "is")
  obtain q' oob' where s: "byte_upd i (\<lambda>_. 0) (q, oob) = (q', oob')" by (cases "byte_upd i (\<lambda>_. 0) (q, oob)")
  with byte_upd_simps [where i = i and f = "\<lambda>_. 0" and q = q and oob = oob] have
    "length q' = length q" "oob' = (oob \<or> length q \<le> i)" "\<forall>k<length q. q' ! k = (if k = i then 0 else q ! k)"
    by simp_all
  with Cons [of q' oob'] s show ?case by auto
qed simp

lemma bit_low_mask: "bit (push_bit m 1 - 1 :: u8) k \<longleftrightarrow> k < m \<and> k < 8"
  and bit_low_mask': "bit (2 ^ m - 1 :: u8) k \<longleftrightarrow> k < m \<and> k < 8"
  by (auto simp: push_bit_of_1 mask_eq_exp_minus_1 [symmetric] bit_simps)

lemma clrbit_simps:
  assumes "j div 8 < length q"
  shows "isset b (fst (clrbit i (q, oob))) j \<longleftrightarrow> isset b q j \<and> j \<noteq> i"
    and "i div 8 < length q \<Longrightarrow> isset b (fst (setbit i (q, oob))) j \<longleftrightarrow> isset b q j \<or> j = i"
proof -
  have ij: "i = j \<longleftrightarrow> i div 8 = j div 8 \<and> i mod 8 = j mod 8" by (metis div_mult_mod_eq)
  show "isset b (fst (clrbit i (q, oob))) j \<longleftrightarrow> isset b q j \<and> j \<noteq> i"
    using assms ij by (auto simp: isset_def clrbit_def byte_upd_simps bit_simps)
  show "isset b (fst (setbit i (q, oob))) j \<longleftrightarrow> isset b q j \<or> j = i" if "i div 8 < length q"
    using assms ij that by (auto simp: isset_def setbit_def byte_upd_simps bit_simps)
qed

lemma length_clr [simp]:
  "length (fst (clrbit i (q, oob))) = length q" "length (fst (setbit i (q, oob))) = length q"
  by (simp_all add: clrbit_def setbit_def byte_upd_simps)

lemma byte_range:
  fixes j :: nat
  assumes "a < 8" and "b < 8"
  shows "8 * s + a \<le> j \<and> j < 8 * e + b \<longleftrightarrow> (if s = e then j div 8 = s \<and> a \<le> j mod 8 \<and> j mod 8 < b
    else s < e \<and> ((j div 8 = s \<and> a \<le> j mod 8) \<or> (j div 8 = e \<and> j mod 8 < b) \<or> (s < j div 8 \<and> j div 8 < e)))"
proof -
  obtain x y where j: "j = 8 * x + y" "y < 8" by (metis mod_less_divisor mult_div_mod_eq zero_less_numeral)
  then have d: "j div 8 = x" "j mod 8 = y" by simp_all
  show ?thesis
    unfolding d j(1) using assms j(2) by (cases x s rule: linorder_cases; cases x e rule: linorder_cases) auto
qed

lemma clrbits_effect:
  assumes "0 < len"
  shows "length (fst (clrbits off len (q, oob))) = length q"
    and "snd (clrbits off len (q, oob)) \<longleftrightarrow> oob \<or> length q \<le> (if len = 1 then off else off + len) div 8"
    and "j div 8 < length q \<Longrightarrow>
      isset b (fst (clrbits off len (q, oob))) j \<longleftrightarrow> isset b q j \<and> \<not> (off \<le> j \<and> j < off + len)"
proof -
  define sby where "sby = off div 8"
  define sbi where "sbi = off mod 8"
  define eby where "eby = (off + len) div 8"
  define ebi where "ebi = (off + len) mod 8"
  have pos: "off = 8 * sby + sbi" "off + len = 8 * eby + ebi" "sbi < 8" "ebi < 8"
    by (simp_all add: sby_def sbi_def eby_def ebi_def)
  have "length (fst (clrbits off len (q, oob))) = length q
      \<and> snd (clrbits off len (q, oob)) = (oob \<or> length q \<le> (if len = 1 then off else off + len) div 8)
      \<and> (j div 8 < length q \<longrightarrow>
           isset b (fst (clrbits off len (q, oob))) j = (isset b q j \<and> \<not> (off \<le> j \<and> j < off + len)))"
  proof -
    consider (one) "len = 1" | (same) "len \<noteq> 1" "sby = eby" | (more) "len \<noteq> 1" "sby \<noteq> eby" by blast
    then show ?thesis
    proof cases
      case one
      then show ?thesis using clrbit_simps(1) [of j q b off oob]
        by (auto simp: clrbits_def clrbit_def byte_upd_simps)
    next
      case same
      have le: "sbi \<le> ebi" using pos same assms by linarith
      have e: "clrbits off len (q, oob) =
          byte_upd sby (\<lambda>b. b AND NOT (push_bit sbi (push_bit (ebi - sbi) 1 - 1))) (q, oob)"
        using same by (simp add: clrbits_def Let_def sby_def sbi_def eby_def ebi_def)
      have in_byte: "off \<le> j \<and> j < off + len \<longleftrightarrow> j div 8 = sby \<and> sbi \<le> j mod 8 \<and> j mod 8 < ebi"
        using byte_range [OF pos(3,4), of sby j eby, folded pos(1,2)] same(2) by simp
      show ?thesis
        unfolding e in_byte using same le pos
        by (auto simp: byte_upd_simps isset_def bit_and_iff bit_not_iff bit_push_bit_iff bit_low_mask bit_low_mask' eby_def [symmetric])
    next
      case more
      have lt: "sby < eby" using pos assms more by linarith
      obtain q1 o1 where s1: "byte_upd sby (\<lambda>b. b AND (push_bit sbi 1 - 1)) (q, oob) = (q1, o1)"
        by (cases "byte_upd sby (\<lambda>b. b AND (push_bit sbi 1 - 1)) (q, oob)")
      obtain q2 o2 where s2: "byte_upd eby (\<lambda>b. b AND NOT (push_bit ebi 1 - 1)) (q1, o1) = (q2, o2)"
        by (cases "byte_upd eby (\<lambda>b. b AND NOT (push_bit ebi 1 - 1)) (q1, o1)")
      have u1: "length q1 = length q" "\<And>k. k < length q \<Longrightarrow> q1 ! k = (if k = sby then q ! sby AND (push_bit sbi 1 - 1) else q ! k)"
        "o1 = (oob \<or> length q \<le> sby)"
        using s1 byte_upd_simps [where i = sby and f = "\<lambda>b. b AND (push_bit sbi 1 - 1)" and q = q and oob = oob] by simp_all
      have u2: "length q2 = length q1" "\<And>k. k < length q1 \<Longrightarrow> q2 ! k = (if k = eby then q1 ! eby AND NOT (push_bit ebi 1 - 1) else q1 ! k)"
        "o2 = (o1 \<or> length q1 \<le> eby)"
        using s2 byte_upd_simps [where i = eby and f = "\<lambda>b. b AND NOT (push_bit ebi 1 - 1)" and q = q1 and oob = o1] by simp_all
      have e: "clrbits off len (q, oob) = fold (\<lambda>i. byte_upd i (\<lambda>_. 0)) [sby + 1..<eby] (q2, o2)"
        using more s1 s2 by (simp add: clrbits_def Let_def sby_def sbi_def eby_def ebi_def)
      note fz = fold_zero [of "[sby + 1..<eby]" q2 o2]
      have len: "length q2 = length q" "length q1 = length q" using u1 u2 by simp_all
      have jj: "j = 8 * (j div 8) + j mod 8" "j mod 8 < 8" by simp_all
      have in_byte: "off \<le> j \<and> j < off + len \<longleftrightarrow> (j div 8 = sby \<and> sbi \<le> j mod 8)
          \<or> (j div 8 = eby \<and> j mod 8 < ebi) \<or> (sby < j div 8 \<and> j div 8 < eby)"
        using byte_range [OF pos(3,4), of sby j eby, folded pos(1,2)] lt by simp
      have o: "snd (clrbits off len (q, oob)) \<longleftrightarrow> oob \<or> length q \<le> eby"
        unfolding e using fz u1(3) u2(3) lt len by auto
      have i: "isset b (fst (clrbits off len (q, oob))) j = (isset b q j \<and> \<not> (off \<le> j \<and> j < off + len))"
        if "j div 8 < length q"
      proof -
        have "fst (clrbits off len (q, oob)) ! (j div 8) =
            (if sby < j div 8 \<and> j div 8 < eby then 0
             else if j div 8 = eby then q ! eby AND NOT (push_bit ebi 1 - 1)
             else if j div 8 = sby then q ! sby AND (push_bit sbi 1 - 1) else q ! (j div 8))"
          unfolding e using fz u1(2) u2(2) len lt that by auto
        then show ?thesis
          unfolding in_byte isset_def using fz len that lt jj
          by (auto simp: e bit_and_iff bit_not_iff bit_low_mask bit_low_mask')
      qed
      show ?thesis using o i fz len more by (simp add: e eby_def)
    qed
  qed
  then show "length (fst (clrbits off len (q, oob))) = length q"
    and "snd (clrbits off len (q, oob)) \<longleftrightarrow> oob \<or> length q \<le> (if len = 1 then off else off + len) div 8"
    and "j div 8 < length q \<Longrightarrow>
      isset b (fst (clrbits off len (q, oob))) j \<longleftrightarrow> isset b q j \<and> \<not> (off \<le> j \<and> j < off + len)"
    by blast+
qed

section \<open>Invariant and abstraction\<close>

definition quote_at :: "clist \<Rightarrow> nat \<Rightarrow> bool" where
  "quote_at clp i = (case c_cq clp of None \<Rightarrow> False | Some q \<Rightarrow> isset 0 q i)"

definition cell :: "clist \<Rightarrow> nat \<Rightarrow> u8 \<times> bool" where
  "cell clp i = (the (c_cs clp) ! i, quote_at clp i)"

text \<open>The characters of the queue, oldest first, each with its quote bit.\<close>

definition chars :: "clist \<Rightarrow> (u8 \<times> bool) list" where
  "chars clp = map (\<lambda>k. cell clp ((the (c_cf clp) + k) mod c_cn clp)) [0..<c_cc clp]"

text \<open>A ring whose first character is at \<open>f\<close>; it may be empty.\<close>

definition cl_ring :: "clist \<Rightarrow> nat \<Rightarrow> bool" where
  "cl_ring clp f \<longleftrightarrow> (\<exists>cs. c_cs clp = Some cs \<and> length cs = c_cn clp) \<and> f < c_cn clp \<and> c_cc clp \<le> c_cn clp
     \<and> c_cf clp = Some f \<and> c_cl clp = Some ((f + c_cc clp) mod c_cn clp)
     \<and> (\<forall>q. c_cq clp = Some q \<longrightarrow> c_cn clp \<le> 8 * length q)"

text \<open>The invariant between calls: an empty queue has null pointers.\<close>

definition cl_inv :: "clist \<Rightarrow> bool" where
  "cl_inv clp \<longleftrightarrow>
     (if c_cc clp = 0 then c_cf clp = None \<and> c_cl clp = None
        \<and> (case c_cs clp of None \<Rightarrow> True | Some cs \<Rightarrow> length cs = c_cn clp
             \<and> (\<forall>q. c_cq clp = Some q \<longrightarrow> c_cn clp \<le> 8 * length q))
      else \<exists>f. cl_ring clp f)"

definition null_empty :: "clist \<Rightarrow> clist" where
  "null_empty clp = (if c_cc clp = 0 then clp\<lparr>c_cf := None, c_cl := None\<rparr> else clp)"

lemma length_chars [simp]: "length (chars clp) = c_cc clp"
  by (simp add: chars_def)

lemma nth_chars: "k < c_cc clp \<Longrightarrow> chars clp ! k = cell clp ((the (c_cf clp) + k) mod c_cn clp)"
  by (simp add: chars_def)

lemma null_empty_inv:
  assumes "cl_ring clp f"
  shows "cl_inv (null_empty clp)" and "chars (null_empty clp) = chars clp" and "c_cn (null_empty clp) = c_cn clp"
    and "c_oob (null_empty clp) = c_oob clp" and "c_cq (null_empty clp) = c_cq clp"
  using assms by (auto simp: cl_inv_def null_empty_def cl_ring_def chars_def)

lemma on_quotes_frame [simp]:
  "c_cc (on_quotes g clp) = c_cc clp" "c_cn (on_quotes g clp) = c_cn clp" "c_cf (on_quotes g clp) = c_cf clp"
  "c_cl (on_quotes g clp) = c_cl clp" "c_cs (on_quotes g clp) = c_cs clp"
  "(c_cq (on_quotes g clp) = None) = (c_cq clp = None)"
  by (auto simp: on_quotes_def split: option.splits prod.splits)

lemma quote_at_frame [simp]:
  "quote_at (clp\<lparr>c_cc := a\<rparr>) = quote_at clp" "quote_at (clp\<lparr>c_cf := b\<rparr>) = quote_at clp"
  "quote_at (clp\<lparr>c_cl := b\<rparr>) = quote_at clp" "quote_at (clp\<lparr>c_cs := d\<rparr>) = quote_at clp"
  by (auto simp: quote_at_def fun_eq_iff)

text \<open>The effect of the bit operations on the quotes of a queue.\<close>

definition keeps_length :: "(u8 list \<times> bool \<Rightarrow> u8 list \<times> bool) \<Rightarrow> bool" where
  "keeps_length g \<longleftrightarrow> (\<forall>q oob. length (fst (g (q, oob))) = length q)"

lemma keeps_length [simp]:
  "keeps_length (clrbit i)" "keeps_length (setbit i)" "0 < len \<Longrightarrow> keeps_length (clrbits off len)"
  by (simp_all add: keeps_length_def clrbits_effect)

lemma on_quotes_cap:
  assumes "keeps_length g" and "\<forall>q. c_cq clp = Some q \<longrightarrow> n \<le> 8 * length q"
  shows "\<forall>q. c_cq (on_quotes g clp) = Some q \<longrightarrow> n \<le> 8 * length q"
proof (intro allI impI)
  fix q assume q: "c_cq (on_quotes g clp) = Some q"
  then obtain q0 where "c_cq clp = Some q0" "q = fst (g (q0, c_oob clp))"
    by (auto simp: on_quotes_def split: option.splits prod.splits)
  with assms show "n \<le> 8 * length q" by (simp add: keeps_length_def)
qed

lemma quotes_effect:
  assumes cap: "\<forall>q. c_cq clp = Some q \<longrightarrow> n \<le> 8 * length q" and j: "j < n"
  shows "quote_at (on_quotes (clrbit i) clp) j \<longleftrightarrow> quote_at clp j \<and> j \<noteq> i"
    and "i < n \<Longrightarrow> quote_at (on_quotes (setbit i) clp) j \<longleftrightarrow> quote_at clp j \<or> (j = i \<and> c_cq clp \<noteq> None)"
    and "0 < len \<Longrightarrow> quote_at (on_quotes (clrbits off len) clp) j \<longleftrightarrow> quote_at clp j \<and> \<not> (off \<le> j \<and> j < off + len)"
proof -
  have on: "c_cq (on_quotes g clp) = Some (fst (g (q, c_oob clp)))" if "c_cq clp = Some q" for g q
    using that by (simp add: on_quotes_def split: prod.splits)
  have off: "on_quotes g clp = clp" if "c_cq clp = None" for g using that by (simp add: on_quotes_def)
  have d: "j div 8 < length q" if "c_cq clp = Some q" for q
    using cap j that by (intro less_mult_imp_div_less) (fastforce simp: mult.commute)
  show "quote_at (on_quotes (clrbit i) clp) j \<longleftrightarrow> quote_at clp j \<and> j \<noteq> i"
    using on off d clrbit_simps(1) by (cases "c_cq clp") (auto simp: quote_at_def)
  show "quote_at (on_quotes (clrbits off len) clp) j \<longleftrightarrow> quote_at clp j \<and> \<not> (off \<le> j \<and> j < off + len)" if "0 < len"
    using on off d clrbits_effect(3) [OF that] by (cases "c_cq clp") (auto simp: quote_at_def)
  show "quote_at (on_quotes (setbit i) clp) j \<longleftrightarrow> quote_at clp j \<or> (j = i \<and> c_cq clp \<noteq> None)" if "i < n"
  proof (cases "c_cq clp")
    case (Some q)
    then have "i div 8 < length q" using cap that by (intro less_mult_imp_div_less) (fastforce simp: mult.commute)
    then show ?thesis using Some on [OF Some] clrbit_simps(2) [OF d [OF Some]] by (auto simp: quote_at_def)
  qed (simp add: off)
qed

subsection \<open>Positions in the ring\<close>

lemma ring_inj:
  fixes f k m n :: nat
  assumes "(f + k) mod n = (f + m) mod n" and "k \<le> m" and "m - k < n"
  shows "k = m"
proof -
  have "n dvd (f + m) - (f + k)" using assms(1,2) by (metis add_le_cancel_left mod_eq_dvd_iff_nat)
  then have "n dvd m - k" by simp
  with assms(3) have "m - k = 0" by (meson dvd_imp_le linorder_not_le neq0_conv)
  with assms(2) show ?thesis by simp
qed

lemma ring_seg:
  fixes f c j n :: nat
  assumes "(f + c) mod n + j < n"
  shows "(f + (c + j)) mod n = (f + c) mod n + j"
  using assms by (metis add.assoc mod_add_left_eq mod_less)

lemma ring_out:
  fixes f k c m n :: nat
  assumes "k < c" and "c + m \<le> n" and "(f + c) mod n + m \<le> n"
  shows "\<not> ((f + c) mod n \<le> (f + k) mod n \<and> (f + k) mod n < (f + c) mod n + m)"
proof
  assume a: "(f + c) mod n \<le> (f + k) mod n \<and> (f + k) mod n < (f + c) mod n + m"
  then obtain j where j: "(f + k) mod n = (f + c) mod n + j" "j < m"
    by (metis add_less_cancel_left le_iff_add)
  then have "(f + k) mod n = (f + (c + j)) mod n" using assms(3) by (simp add: ring_seg)
  then have "k = c + j" by (rule ring_inj) (use assms j in auto)
  with assms(1) show False by simp
qed

subsection \<open>Inserting and removing a block\<close>

lemma ring_insert:
  assumes ring: "cl_ring clp f" and l: "l = (f + c_cc clp) mod c_cn clp"
    and m: "l + m \<le> c_cn clp" "c_cc clp + m \<le> c_cn clp" and bs: "length bs = m"
    and new: "c_cs clp' = Some (take l (the (c_cs clp)) @ bs @ drop (l + m) (the (c_cs clp)))"
      "c_cn clp' = c_cn clp" "c_cf clp' = c_cf clp" "c_cc clp' = c_cc clp + m"
      "c_cl clp' = Some (if l + m = c_cn clp then 0 else l + m)"
      "\<forall>q. c_cq clp' = Some q \<longrightarrow> c_cn clp \<le> 8 * length q"
    and quotes: "\<And>i. i < c_cn clp \<Longrightarrow> quote_at clp' i = (if l \<le> i \<and> i < l + m then quoted (i - l) else quote_at clp i)"
  shows "cl_ring clp' f \<and> chars clp' = chars clp @ map (\<lambda>j. (bs ! j, quoted j)) [0..<m]"
proof -
  define n where "n = c_cn clp"
  obtain cs where cs: "c_cs clp = Some cs" "length cs = n" using ring by (auto simp: cl_ring_def n_def)
  have f: "f < n" "c_cf clp = Some f" using ring by (auto simp: cl_ring_def n_def)
  have "l < n" using f l by (simp add: n_def)
  then have "(f + (c_cc clp + m)) mod n = (if l + m = n then 0 else l + m)"
    using m l ring_seg [of f "c_cc clp" n m] by (auto simp: n_def [symmetric] add.assoc [symmetric]) (metis mod_add_left_eq mod_self)
  then have r: "cl_ring clp' f"
    using ring new cs bs m \<open>l < n\<close> by (auto simp: cl_ring_def n_def)
  have "chars clp' ! k = (chars clp @ map (\<lambda>j. (bs ! j, quoted j)) [0..<m]) ! k" if k: "k < c_cc clp + m" for k
  proof (cases "k < c_cc clp")
    case True
    define i where "i = (f + k) mod n"
    have "i < n" using f by (simp add: i_def)
    have out: "\<not> (l \<le> i \<and> i < l + m)"
      unfolding l i_def n_def by (rule ring_out [OF True]) (use m l in auto)
    then have "(take l cs @ bs @ drop (l + m) cs) ! i = cs ! i"
      using bs cs \<open>i < n\<close> \<open>l < n\<close> m by (auto simp: nth_append n_def)
    moreover have "quote_at clp' i = quote_at clp i" using quotes [of i] out \<open>i < n\<close> by (auto simp: n_def)
    ultimately have "cell clp' i = cell clp i" using new(1) cs by (simp add: cell_def)
    then show ?thesis using True f new by (simp add: nth_append nth_chars i_def n_def)
  next
    case False
    then obtain j where j: "k = c_cc clp + j" "j < m" using k by (metis add_less_cancel_left le_iff_add not_less)
    then have i: "(f + k) mod n = l + j" using ring_seg [of f "c_cc clp" n j] l m by (simp add: n_def)
    have "(take l cs @ bs @ drop (l + m) cs) ! (l + j) = bs ! j"
      using bs cs j m \<open>l < n\<close> by (simp add: nth_append n_def)
    moreover have "quote_at clp' (l + j) = quoted j" using quotes [of "l + j"] j m by simp
    ultimately have "cell clp' (l + j) = (bs ! j, quoted j)" using new(1) cs by (simp add: cell_def)
    then show ?thesis using j i f new k by (simp add: nth_append nth_chars n_def)
  qed
  then have "chars clp' = chars clp @ map (\<lambda>j. (bs ! j, quoted j)) [0..<m]"
    using new(4) by (intro nth_equalityI) auto
  with r show ?thesis ..
qed

lemma ring_remove:
  assumes ring: "cl_ring clp f" and m: "f + m \<le> c_cn clp" "m \<le> c_cc clp"
    and cs': "c_cs clp' = Some cs'" "length cs' = c_cn clp"
      "\<And>i. i < c_cn clp \<Longrightarrow> \<not> (f \<le> i \<and> i < f + m) \<Longrightarrow> cs' ! i = the (c_cs clp) ! i"
    and new: "c_cn clp' = c_cn clp" "c_cf clp' = Some (if f + m = c_cn clp then 0 else f + m)"
      "c_cc clp' = c_cc clp - m" "c_cl clp' = c_cl clp" "\<forall>q. c_cq clp' = Some q \<longrightarrow> c_cn clp \<le> 8 * length q"
    and quotes: "\<And>i. i < c_cn clp \<Longrightarrow> \<not> (the (c_cl clp) \<le> i \<and> i < the (c_cl clp) + m)
      \<Longrightarrow> quote_at clp' i = quote_at clp i"
  shows "cl_ring clp' (if f + m = c_cn clp then 0 else f + m)" and "chars clp' = drop m (chars clp)"
proof -
  define n where "n = c_cn clp"
  define f' where "f' = (if f + m = n then 0 else f + m)"
  obtain cs where cs: "c_cs clp = Some cs" "length cs = n" using ring by (auto simp: cl_ring_def n_def)
  have f: "f < n" "c_cf clp = Some f" "c_cl clp = Some ((f + c_cc clp) mod n)" "c_cc clp \<le> n"
    using ring by (auto simp: cl_ring_def n_def)
  have f': "f' < n" "f' = (f + m) mod n" using f m by (auto simp: f'_def n_def)
  have go: "(f' + k) mod n = (f + (m + k)) mod n" for k unfolding f'(2) by (simp add: mod_add_left_eq add.assoc)
  have "(f' + (c_cc clp - m)) mod n = (f + c_cc clp) mod n" using go [of "c_cc clp - m"] m by simp
  then show "cl_ring clp' (if f + m = c_cn clp then 0 else f + m)"
    unfolding cl_ring_def using f f' cs' new m by (auto simp: f'_def n_def)
  have "chars clp' ! k = drop m (chars clp) ! k" if k: "k < c_cc clp - m" for k
  proof -
    define i where "i = (f + (m + k)) mod n"
    have "i < n" using f by (simp add: i_def)
    have f0: "f = (f + 0) mod n" using f by simp
    have out1: "\<not> (f \<le> i \<and> i < f + m)"
    proof
      assume "f \<le> i \<and> i < f + m"
      then obtain j where j: "i = f + j" "j < m" by (metis add_less_cancel_left le_iff_add)
      then have "(f + j) mod n = (f + (m + k)) mod n" using \<open>i < n\<close> by (simp add: i_def)
      then have "j = m + k" by (rule ring_inj) (use j k f in auto)
      with j show False by simp
    qed
    have out2: "\<not> (the (c_cl clp) \<le> i \<and> i < the (c_cl clp) + m)"
    proof
      assume a: "the (c_cl clp) \<le> i \<and> i < the (c_cl clp) + m"
      then obtain j where j: "i = (f + c_cc clp) mod n + j" "j < m"
        using f(3) by (metis add_less_cancel_left le_iff_add option.sel)
      then have "(f + (m + k)) mod n = (f + (c_cc clp + j)) mod n"
        using ring_seg [of f "c_cc clp" n j] \<open>i < n\<close> by (simp add: i_def)
      then have "m + k = c_cc clp + j" by (rule ring_inj) (use j k f in auto)
      with k show False by simp
    qed
    have "cell clp' i = cell clp i"
      using cs'(1) cs'(3) [OF _ out1] quotes [OF _ out2] \<open>i < n\<close> by (simp add: cell_def n_def)
    moreover have "(the (c_cf clp') + k) mod c_cn clp' = i"
      using new(1,2) go [of k] by (simp add: i_def f'_def n_def)
    ultimately show ?thesis using k f new(1,3) by (simp add: nth_chars i_def n_def)
  qed
  then show "chars clp' = drop m (chars clp)" using new(3) by (intro nth_equalityI) auto
qed

lemma chars_prefix:
  assumes ring: "cl_ring clp f" and m: "f + m \<le> c_cn clp" "m \<le> c_cc clp"
  shows "take m (chars clp) = map (cell clp) [f..<f + m]"
proof (rule nth_equalityI)
  show "length (take m (chars clp)) = length (map (cell clp) [f..<f + m])" using m by simp
  show "take m (chars clp) ! k = map (cell clp) [f..<f + m] ! k" if "k < length (take m (chars clp))" for k
    using that ring m by (auto simp: nth_chars cl_ring_def)
qed

section \<open>Operations on the abstract queue\<close>

text \<open>The bit of a character that says it is quoted.\<close>

lemma char_quote:
  "ttychar b q AND TTY_QUOTE \<noteq> 0 \<longleftrightarrow> q" "ucast (ttychar b q) = b"
proof -
  have t8: "TTY_QUOTE = 2 ^ 8" by (simp add: TTY_QUOTE_def)
  have t: "bit TTY_QUOTE n \<longleftrightarrow> n = 8" for n
    unfolding t8 bit_exp_iff by (auto simp: possible_bit_word)
  have n: "\<not> bit (ucast b :: u32) 8" using bit_imp_le_length [of b 8] by (auto simp: bit_simps)
  have "bit (ttychar b q AND TTY_QUOTE) n \<longleftrightarrow> q \<and> n = 8" for n
    using n by (auto simp: ttychar_def bit_and_iff bit_or_iff t)
  then show "ttychar b q AND TTY_QUOTE \<noteq> 0 \<longleftrightarrow> q"
    unfolding bit_eq_iff [of "ttychar b q AND TTY_QUOTE" 0] by (auto simp: possible_bit_word)
  have "bit (ucast (ttychar b q) :: u8) n \<longleftrightarrow> bit b n" if "n < 8" for n
    using that by (auto simp: ttychar_def bit_simps t)
  then show "ucast (ttychar b q) = b" by (intro bit_word_eqI) simp
qed

lemma inv_nonempty: "cl_inv clp \<Longrightarrow> 0 < c_cc clp \<Longrightarrow> \<exists>f. cl_ring clp f"
  by (simp add: cl_inv_def)

lemma getc_spec:
  assumes inv: "cl_inv clp"
  shows "case chars clp of
      [] \<Rightarrow> getc clp = Some (None, clp)
    | (b, q) # rest \<Rightarrow> \<exists>clp'. getc clp = Some (Some (ttychar b q), clp') \<and> cl_inv clp' \<and> chars clp' = rest
        \<and> c_cn clp' = c_cn clp \<and> (c_cq clp' = None) = (c_cq clp = None) \<and> c_cs clp' \<noteq> None"
proof (cases "c_cc clp = 0")
  case True
  then have "chars clp = []" by (simp add: chars_def)
  with True show ?thesis by (simp add: getc_def)
next
  case False
  with inv obtain f where ring: "cl_ring clp f" using inv_nonempty by blast
  then obtain cs where cs: "c_cs clp = Some cs" "length cs = c_cn clp" by (auto simp: cl_ring_def)
  define l where "l = (f + c_cc clp) mod c_cn clp"
  have f: "f < c_cn clp" "c_cf clp = Some f" "c_cl clp = Some l"
    and cap: "\<forall>q. c_cq clp = Some q \<longrightarrow> c_cn clp \<le> 8 * length q"
    using ring by (auto simp: cl_ring_def l_def)
  define clp1 where "clp1 = (on_quotes (clrbit l) (clp\<lparr>c_cs := Some (cs[f := 0])\<rparr>))
      \<lparr>c_cf := Some (if f + 1 = c_cn clp then 0 else f + 1), c_cc := c_cc clp - 1\<rparr>"
  have g: "getc clp = Some (Some (ttychar (cs ! f) (quote_at clp f)), null_empty clp1)"
    using False f cs by (auto simp: getc_def Let_def clp1_def null_empty_def quote_at_def)
  have cap1: "\<forall>q. c_cq clp1 = Some q \<longrightarrow> c_cn clp \<le> 8 * length q"
    using on_quotes_cap [of "clrbit l" "clp\<lparr>c_cs := Some (cs[f := 0])\<rparr>" "c_cn clp"] cap by (simp add: clp1_def)
  have "cl_ring clp1 (if f + 1 = c_cn clp then 0 else f + 1)" "chars clp1 = drop 1 (chars clp)"
    by (rule ring_remove [OF ring, where cs' = "cs[f := 0]" and m = 1];
        use False f cs cap cap1 quotes_effect(1) [of "clp\<lparr>c_cs := Some (cs[f := 0])\<rparr>" "c_cn clp" _ l]
        in \<open>auto simp: clp1_def nth_list_update\<close>)+
  note r = this
  note e = null_empty_inv [OF r(1)]
  have "c_cn clp1 = c_cn clp" "(c_cq clp1 = None) = (c_cq clp = None)" "c_cs (null_empty clp1) \<noteq> None"
    by (simp_all add: clp1_def null_empty_def)
  with e r(2) have "cl_inv (null_empty clp1)" "chars (null_empty clp1) = drop 1 (chars clp)"
    "c_cn (null_empty clp1) = c_cn clp" "(c_cq (null_empty clp1) = None) = (c_cq clp = None)"
    "c_cs (null_empty clp1) \<noteq> None"
    by simp_all
  moreover have "take 1 (chars clp) = [cell clp f]" using chars_prefix [OF ring, of 1] f False by simp
  then obtain rest where "chars clp = cell clp f # rest"
    by (metis append_Cons append_take_drop_id)
  moreover have "cell clp f = (cs ! f, quote_at clp f)" using cs by (simp add: cell_def)
  ultimately show ?thesis using g by simp
qed

text \<open>A queue with its ring in place.\<close>

definition cl_ok :: "clist \<Rightarrow> bool" where
  "cl_ok clp \<longleftrightarrow> cl_inv clp \<and> c_cs clp \<noteq> None"

lemma ring_ok: "cl_ring clp f \<Longrightarrow> 0 < c_cc clp \<Longrightarrow> cl_ok clp"
  by (auto simp: cl_ok_def cl_inv_def cl_ring_def)

lemma prepare_ring:
  assumes "cl_ok clp" and "c_cc clp < c_cn clp"
  shows "\<exists>f. cl_ring (cl_prepare clp) f" and "chars (cl_prepare clp) = chars clp"
    and "c_cc (cl_prepare clp) = c_cc clp" and "c_cn (cl_prepare clp) = c_cn clp" and "c_cq (cl_prepare clp) = c_cq clp"
    and "c_oob (cl_prepare clp) = c_oob clp"
  using assms by (auto simp: cl_ok_def cl_inv_def cl_prepare_def cl_ring_def chars_def)

lemma putc_spec:
  assumes ok: "cl_ok clp"
  shows "if c_cc clp = c_cn clp then putc c clp = Some (-1, clp)
    else \<exists>clp'. putc c clp = Some (0, clp') \<and> cl_ok clp' \<and> c_cn clp' = c_cn clp
      \<and> (c_cq clp' = None) = (c_cq clp = None)
      \<and> chars clp' = chars clp @ [(ucast c, c_cq clp \<noteq> None \<and> c AND TTY_QUOTE \<noteq> 0)]"
proof (cases "c_cc clp = c_cn clp")
  case True
  then show ?thesis by (simp add: putc_def)
next
  case False
  have "c_cc clp \<le> c_cn clp" using ok by (auto simp: cl_ok_def cl_inv_def cl_ring_def split: if_splits)
  with False have lt: "c_cc clp < c_cn clp" by simp
  define clp0 where "clp0 = cl_prepare clp"
  note p = prepare_ring [OF ok lt, folded clp0_def]
  obtain f where ring: "cl_ring clp0 f" using p(1) by blast
  then obtain cs where cs: "c_cs clp0 = Some cs" "length cs = c_cn clp" using p by (auto simp: cl_ring_def)
  define l where "l = (f + c_cc clp) mod c_cn clp"
  have l: "l < c_cn clp" "c_cl clp0 = Some l" using ring lt p by (auto simp: cl_ring_def l_def)
  have cap: "\<forall>q. c_cq clp0 = Some q \<longrightarrow> c_cn clp \<le> 8 * length q" using ring p by (auto simp: cl_ring_def)
  define g where "g = (if c AND TTY_QUOTE \<noteq> 0 then setbit l else clrbit l)"
  define clp1 where "clp1 = clp0\<lparr>c_cs := Some (cs[l := ucast c])\<rparr>"
  define clp2 where "clp2 = (on_quotes g clp1)
     \<lparr>c_cc := c_cc clp + 1, c_cl := Some (if l + 1 = c_cn clp then 0 else l + 1)\<rparr>"
  have pc: "putc c clp = Some (0, clp2)"
    using False l cs p by (simp add: putc_def clp0_def [symmetric] Let_def clp1_def clp2_def g_def)
  have g: "keeps_length g" by (simp add: g_def)
  have cap2: "\<forall>q. c_cq clp2 = Some q \<longrightarrow> c_cn clp0 \<le> 8 * length q"
    using on_quotes_cap [OF g, of clp1 "c_cn clp"] cap p by (simp add: clp1_def clp2_def)
  let ?quoted = "\<lambda>_::nat. c_cq clp \<noteq> None \<and> c AND TTY_QUOTE \<noteq> 0"
  have q: "quote_at clp2 i = (if l \<le> i \<and> i < l + 1 then ?quoted (i - l) else quote_at clp0 i)" if "i < c_cn clp0" for i
  proof -
    have "\<forall>q. c_cq clp1 = Some q \<longrightarrow> c_cn clp0 \<le> 8 * length q" using cap p by (simp add: clp1_def)
    from quotes_effect(1,2) [OF this that, of l] l p show ?thesis
      by (auto simp: clp2_def g_def clp1_def quote_at_def split: option.splits)
  qed
  have "cl_ring clp2 f \<and> chars clp2 = chars clp0 @ map (\<lambda>j. ([ucast c] ! j, ?quoted j)) [0..<1]"
  proof (rule ring_insert [OF ring])
    show "l = (f + c_cc clp0) mod c_cn clp0" using p(3,4) by (simp add: l_def)
    show "c_cs clp2 = Some (take l (the (c_cs clp0)) @ [ucast c] @ drop (l + 1) (the (c_cs clp0)))"
      using cs l by (simp add: clp2_def clp1_def upd_conv_take_nth_drop)
  qed (use l lt p(3,4) cs cap2 q in \<open>auto simp: clp2_def clp1_def\<close>)
  then have r: "cl_ring clp2 f" "chars clp2 = chars clp @ [(ucast c, ?quoted 0)]" using p(2) by simp_all
  have "0 < c_cc clp2" by (simp add: clp2_def)
  with r(1) have "cl_ok clp2" by (rule ring_ok)
  moreover have "c_cn clp2 = c_cn clp" "(c_cq clp2 = None) = (c_cq clp = None)"
    using p by (simp_all add: clp2_def clp1_def)
  ultimately show ?thesis using False pc r(2) by simp
qed

lemma unputc_spec:
  assumes inv: "cl_inv clp"
  shows "if chars clp = [] then unputc clp = Some (None, clp)
    else \<exists>clp'. unputc clp = Some (Some (case last (chars clp) of (b, q) \<Rightarrow> ttychar b q), clp')
      \<and> cl_inv clp' \<and> chars clp' = butlast (chars clp) \<and> c_cn clp' = c_cn clp"
proof (cases "c_cc clp = 0")
  case True
  then have "chars clp = []" by (simp add: chars_def)
  with True show ?thesis by (simp add: unputc_def)
next
  case False
  with inv obtain f where ring: "cl_ring clp f" using inv_nonempty by blast
  define n where "n = c_cn clp"
  define k where "k = c_cc clp - 1"
  define l where "l = (f + k) mod n"
  obtain cs where cs: "c_cs clp = Some cs" "length cs = n" using ring by (auto simp: cl_ring_def n_def)
  have f: "f < n" "c_cf clp = Some f" "c_cl clp = Some ((f + c_cc clp) mod n)" "c_cc clp \<le> n"
    using ring by (auto simp: cl_ring_def n_def)
  have kc: "c_cc clp = Suc k" "k < n" using False f by (simp_all add: k_def)
  have ne: "chars clp \<noteq> []" using False by (metis length_chars length_0_conv)
  have prv: "(if (f + c_cc clp) mod n = 0 then n - 1 else (f + c_cc clp) mod n - 1) = l"
    using kc(1) by (auto simp: l_def mod_Suc)
  have lc: "last (chars clp) = cell clp l"
    using ne kc f by (simp add: last_conv_nth nth_chars l_def n_def)
  define clp1 where "clp1 = clp\<lparr>c_cl := Some l, c_cc := k\<rparr>"
  have up: "unputc clp = Some (Some (case last (chars clp) of (b, q) \<Rightarrow> ttychar b q), null_empty clp1)"
  proof -
    have "l < length cs" using f cs by (simp add: l_def)
    then show ?thesis
      unfolding unputc_def f(3) cs(1) Let_def lc prod.case option.case n_def [symmetric] prv
      using False kc(1) cs by (simp add: cell_def quote_at_def null_empty_def clp1_def)
  qed
  have r: "cl_ring clp1 f" using ring kc by (auto simp: cl_ring_def clp1_def l_def n_def)
  have "chars clp1 = butlast (chars clp)"
    using kc f by (intro nth_equalityI) (auto simp: clp1_def nth_butlast nth_chars cell_def)
  with null_empty_inv [OF r] up ne show ?thesis by (auto simp: clp1_def)
qed

lemma b_to_q_loop_spec:
  assumes "cl_ring clp f"
  shows "\<exists>clp'. b_to_q_loop p clp = Some (length p - (c_cn clp - c_cc clp), clp') \<and> cl_ring clp' f
    \<and> c_cn clp' = c_cn clp \<and> (c_cq clp' = None) = (c_cq clp = None)
    \<and> chars clp' = chars clp @ map (\<lambda>b. (b, False)) (take (c_cn clp - c_cc clp) p)"
  using assms
proof (induction "length p" arbitrary: p clp rule: less_induct)
  case less
  note ring = less.prems
  show ?case
  proof (cases "p \<noteq> [] \<and> c_cc clp < c_cn clp")
    case False
    then have "b_to_q_loop p clp = Some (length p, clp)" by (subst b_to_q_loop.simps) auto
    moreover have "c_cc clp \<le> c_cn clp" using ring by (simp add: cl_ring_def)
    ultimately show ?thesis using False ring by auto
  next
    case True
    define n where "n = c_cn clp"
    define l where "l = (f + c_cc clp) mod n"
    define m where "m = min (if f > l then f - l else n - l) (length p)"
    obtain cs where cs: "c_cs clp = Some cs" "length cs = n" using ring by (auto simp: cl_ring_def n_def)
    have f: "f < n" "c_cf clp = Some f" "c_cl clp = Some l" "c_cc clp < n"
      and cap: "\<forall>q. c_cq clp = Some q \<longrightarrow> n \<le> 8 * length q"
      using ring True by (auto simp: cl_ring_def n_def l_def)
    have "l = (if f + c_cc clp < n then f + c_cc clp else f + c_cc clp - n)"
      using f by (simp add: l_def mod_if)
    then have m: "0 < m" "l + m \<le> n" "c_cc clp + m \<le> n" "m \<le> length p"
      using True f by (auto simp: m_def)
    define clp1 where "clp1 = clp\<lparr>c_cs := Some (take l cs @ take m p @ drop (l + m) cs)\<rparr>"
    define clp2 where "clp2 = (on_quotes (clrbits l m) clp1)
       \<lparr>c_cc := c_cc clp + m, c_cl := Some (if l + m = n then 0 else l + m)\<rparr>"
    have step: "b_to_q_loop p clp = b_to_q_loop (drop m p) clp2"
    proof -
      have "p \<noteq> []" "c_cc clp < n" "0 < m" "l + m \<le> length cs"
        "min (if f > l then f - l else n - l) (length p) = m"
        using True f(4) cs(2) m by (simp_all only: m_def simp_thms)
      then show ?thesis
        unfolding b_to_q_loop.simps [of p clp] f(2,3) cs(1) n_def [symmetric] clp1_def clp2_def Let_def
        by (simp only: option.case prod.case if_True not_False_eq_True simp_thms)
    qed
    have cap1: "\<forall>q. c_cq clp1 = Some q \<longrightarrow> n \<le> 8 * length q" using cap by (simp add: clp1_def)
    have cap2: "\<forall>q. c_cq clp2 = Some q \<longrightarrow> c_cn clp \<le> 8 * length q"
    proof -
      have "c_cq clp2 = c_cq (on_quotes (clrbits l m) clp1)" by (simp add: clp2_def)
      then show ?thesis
        unfolding n_def [symmetric] using on_quotes_cap [OF keeps_length(3) [OF m(1)] cap1] by presburger
    qed
    have r: "cl_ring clp2 f \<and> chars clp2 = chars clp @ map (\<lambda>j. (take m p ! j, False)) [0..<m]"
    proof (rule ring_insert [OF ring])
      show "l = (f + c_cc clp) mod c_cn clp" by (simp add: l_def n_def)
      show "quote_at clp2 i = (if l \<le> i \<and> i < l + m then False else quote_at clp i)" if "i < c_cn clp" for i
        using quotes_effect(3) [OF cap1, of i m l] that m by (auto simp: clp2_def clp1_def n_def)
    qed (use f m cs cap2 in \<open>auto simp: n_def clp2_def clp1_def\<close>)
    have blk: "map (\<lambda>j. (take m p ! j, False)) [0..<m] = map (\<lambda>b. (b, False)) (take m p)"
      using m by (intro nth_equalityI) auto
    have c2: "c_cc clp2 = c_cc clp + m" "c_cn clp2 = n" "(c_cq clp2 = None) = (c_cq clp = None)"
      by (simp_all add: clp2_def clp1_def n_def)
    have "length (drop m p) < length p" using m True by simp
    from less.hyps [OF this conjunct1 [OF r]] obtain clp' where
      "b_to_q_loop (drop m p) clp2 = Some (length (drop m p) - (c_cn clp2 - c_cc clp2), clp')"
      "cl_ring clp' f" "c_cn clp' = c_cn clp2" "(c_cq clp' = None) = (c_cq clp2 = None)"
      "chars clp' = chars clp2 @ map (\<lambda>b. (b, False)) (take (c_cn clp2 - c_cc clp2) (drop m p))"
      by (elim exE conjE) (rule that)
    moreover have "take m p @ take (n - (c_cc clp + m)) (drop m p) = take (n - c_cc clp) p"
    proof -
      have "n - c_cc clp = m + (n - (c_cc clp + m))" using m(3) by simp
      then show ?thesis by (metis take_add)
    qed
    ultimately show ?thesis
      using step r blk c2 m by (auto simp: n_def map_append [symmetric] simp del: map_append)
  qed
qed

lemma read_run_bounds:
  assumes "cl_ring clp f" and "0 < c_cc clp" and "0 < count"
  defines "m \<equiv> min (read_run clp f ((f + c_cc clp) mod c_cn clp)) count"
  shows "0 < m" and "m \<le> c_cc clp" and "f + m \<le> c_cn clp" and "m \<le> count"
proof -
  have f: "f < c_cn clp" "c_cc clp \<le> c_cn clp" using assms(1) by (auto simp: cl_ring_def)
  have "(f + c_cc clp) mod c_cn clp = (if f + c_cc clp < c_cn clp then f + c_cc clp else f + c_cc clp - c_cn clp)"
    using f by (simp add: mod_if)
  with f assms(2,3) show "0 < m" and "m \<le> c_cc clp" and "f + m \<le> c_cn clp" and "m \<le> count"
    by (auto simp: m_def read_run_def)
qed

lemma q_to_b_loop_spec:
  assumes "cl_ring clp f"
  shows "\<exists>clp' f'. q_to_b_loop clp count = Some (map fst (take count (chars clp)), clp') \<and> cl_ring clp' f'
    \<and> chars clp' = drop count (chars clp) \<and> c_cn clp' = c_cn clp"
  using assms
proof (induction count arbitrary: clp f rule: less_induct)
  case (less count)
  note ring = less.prems
  show ?case
  proof (cases "0 < count \<and> 0 < c_cc clp")
    case False
    then have "q_to_b_loop clp count = Some ([], clp)" by (subst q_to_b_loop.simps) auto
    with False ring show ?thesis by (auto simp: chars_def)
  next
    case True
    define n where "n = c_cn clp"
    define l where "l = (f + c_cc clp) mod n"
    define m where "m = min (read_run clp f l) count"
    have m: "0 < m" "m \<le> c_cc clp" "f + m \<le> n" "m \<le> count"
      using read_run_bounds [OF ring, of count] True by (simp_all add: m_def l_def n_def)
    obtain cs where cs: "c_cs clp = Some cs" "length cs = n" using ring by (auto simp: cl_ring_def n_def)
    have f: "f < n" "c_cf clp = Some f" "c_cl clp = Some l" "c_cc clp \<le> n"
      and cap: "\<forall>q. c_cq clp = Some q \<longrightarrow> n \<le> 8 * length q"
      using ring by (auto simp: cl_ring_def n_def l_def)
    define cs' where "cs' = take f cs @ replicate m 0 @ drop (f + m) cs"
    define clp1 where "clp1 = clp\<lparr>c_cs := Some cs'\<rparr>"
    define clp2 where "clp2 = (on_quotes (clrbits l m) clp1)
       \<lparr>c_cc := c_cc clp - m, c_cf := Some (if f + m = n then 0 else f + m)\<rparr>"
    have step: "q_to_b_loop clp count = (case q_to_b_loop clp2 (count - m) of None \<Rightarrow> None
        | Some (p, clp') \<Rightarrow> Some (take m (drop f cs) @ p, clp'))"
    proof -
      have "0 < count \<and> 0 < c_cc clp" "0 < m \<and> f + m \<le> length cs" using True m cs by simp_all
      then show ?thesis
        unfolding q_to_b_loop.simps [of clp count] f(2,3) cs(1) prod.case option.case m_def [symmetric]
          n_def [symmetric] clp1_def clp2_def cs'_def Let_def
        by (simp only: if_True simp_thms)
    qed
    have cap1: "\<forall>q. c_cq clp1 = Some q \<longrightarrow> n \<le> 8 * length q" using cap by (simp add: clp1_def)
    have cap2: "\<forall>q. c_cq clp2 = Some q \<longrightarrow> c_cn clp \<le> 8 * length q"
    proof -
      have "c_cq clp2 = c_cq (on_quotes (clrbits l m) clp1)" by (simp add: clp2_def)
      then show ?thesis
        unfolding n_def [symmetric] using on_quotes_cap [OF keeps_length(3) [OF m(1)] cap1] by presburger
    qed
    have "length cs' = n" and same: "\<And>i. i < n \<Longrightarrow> \<not> (f \<le> i \<and> i < f + m) \<Longrightarrow> cs' ! i = cs ! i"
      using cs m by (auto simp: cs'_def nth_append)
    then have r: "cl_ring clp2 (if f + m = c_cn clp then 0 else f + m)" "chars clp2 = drop m (chars clp)"
      by (intro ring_remove [OF ring, where cs' = cs' and m = m and clp' = clp2];
          use f m cs cap2 quotes_effect(3) [OF cap1, of _ m l] in \<open>auto simp: clp2_def clp1_def n_def\<close>)+
    have out: "take m (drop f cs) = map fst (take m (chars clp))"
    proof -
      have "take m (chars clp) = map (cell clp) [f..<f + m]" by (rule chars_prefix [OF ring]) (use m in \<open>auto simp: n_def\<close>)
      then show ?thesis using cs m by (auto simp: cell_def intro!: nth_equalityI)
    qed
    have "count - m < count" using m True by simp
    from less.IH [OF this r(1)] obtain clp' f' where
      ih: "q_to_b_loop clp2 (count - m) = Some (map fst (take (count - m) (chars clp2)), clp')" "cl_ring clp' f'"
        "chars clp' = drop (count - m) (chars clp2)" "c_cn clp' = c_cn clp2"
      by blast
    have "take m (chars clp) @ take (count - m) (drop m (chars clp)) = take count (chars clp)"
      using m(4) by (metis le_add_diff_inverse take_add)
    then have "map fst (take m (chars clp)) @ map fst (take (count - m) (drop m (chars clp))) = map fst (take count (chars clp))"
      by (metis map_append)
    moreover have "c_cn clp2 = c_cn clp" by (simp add: clp2_def clp1_def)
    ultimately show ?thesis using step ih r(2) out m(4) by auto
  qed
qed

lemma ndflush_loop_spec:
  assumes "cl_ring clp f"
  shows "\<exists>clp' f'. ndflush_loop clp count = Some clp' \<and> cl_ring clp' f'
    \<and> chars clp' = drop count (chars clp) \<and> c_cn clp' = c_cn clp \<and> c_oob clp' = c_oob clp"
  using assms
proof (induction count arbitrary: clp f rule: less_induct)
  case (less count)
  note ring = less.prems
  show ?case
  proof (cases "0 < count \<and> 0 < c_cc clp")
    case False
    then have "ndflush_loop clp count = Some clp" by (subst ndflush_loop.simps) auto
    with False ring show ?thesis by (auto simp: chars_def)
  next
    case True
    define n where "n = c_cn clp"
    define l where "l = (f + c_cc clp) mod n"
    define m where "m = min (read_run clp f l) count"
    have m: "0 < m" "m \<le> c_cc clp" "f + m \<le> n" "m \<le> count"
      using read_run_bounds [OF ring, of count] True by (simp_all add: m_def l_def n_def)
    obtain cs where cs: "c_cs clp = Some cs" "length cs = n" using ring by (auto simp: cl_ring_def n_def)
    have f: "f < n" "c_cf clp = Some f" "c_cl clp = Some l"
      and cap: "\<forall>q. c_cq clp = Some q \<longrightarrow> n \<le> 8 * length q"
      using ring by (auto simp: cl_ring_def n_def l_def)
    define clp2 where "clp2 = clp\<lparr>c_cc := c_cc clp - m, c_cf := Some (if f + m = n then 0 else f + m)\<rparr>"
    have step: "ndflush_loop clp count = ndflush_loop clp2 (count - m)"
    proof -
      have "0 < count \<and> 0 < c_cc clp" "0 < m" using True m by simp_all
      then show ?thesis
        unfolding ndflush_loop.simps [of clp count] f(2,3) prod.case option.case m_def [symmetric]
          n_def [symmetric] clp2_def Let_def
        by (simp only: if_True simp_thms)
    qed
    have r: "cl_ring clp2 (if f + m = c_cn clp then 0 else f + m)" "chars clp2 = drop m (chars clp)"
      by (rule ring_remove [OF ring, where cs' = cs and m = m];
          use f m cs cap in \<open>auto simp: clp2_def n_def\<close>)+
    have "count - m < count" using m True by simp
    from less.IH [OF this r(1)] obtain clp' f' where
      "ndflush_loop clp2 (count - m) = Some clp'" "cl_ring clp' f'"
      "chars clp' = drop (count - m) (chars clp2)" "c_cn clp' = c_cn clp2" "c_oob clp' = c_oob clp2"
      by blast
    moreover have "c_cn clp2 = c_cn clp" "c_oob clp2 = c_oob clp" by (simp_all add: clp2_def)
    ultimately show ?thesis using step r(2) m(4) by auto
  qed
qed

section \<open>The queue contract\<close>

fun put_all :: "('c \<Rightarrow> 'q \<Rightarrow> 'q option) \<Rightarrow> 'c list \<Rightarrow> 'q \<Rightarrow> 'q option" where
  "put_all put [] s = Some s"
| "put_all put (c # cs) s = (case put c s of None \<Rightarrow> None | Some s' \<Rightarrow> put_all put cs s')"

text \<open>A sequence of attempts to put and to get, with what each returns.\<close>

datatype qop = QPut "u8 \<times> bool" | QGet

datatype qres = QAccepted | QFull | QGot "u8 \<times> bool" | QEmpty

fun run_queue :: "(u8 \<times> bool \<Rightarrow> 'q \<Rightarrow> 'q option) \<Rightarrow> ('q \<Rightarrow> ((u8 \<times> bool) \<times> 'q) option) \<Rightarrow> qop list \<Rightarrow> 'q \<Rightarrow> qres list \<times> 'q" where
  "run_queue put get [] s = ([], s)"
| "run_queue put get (QPut c # ops) s =
     (case put c s of None \<Rightarrow> apfst (Cons QFull) (run_queue put get ops s) | Some s' \<Rightarrow> apfst (Cons QAccepted) (run_queue put get ops s'))"
| "run_queue put get (QGet # ops) s =
     (case get s of None \<Rightarrow> apfst (Cons QEmpty) (run_queue put get ops s) | Some (c, s') \<Rightarrow> apfst (Cons (QGot c)) (run_queue put get ops s'))"

text \<open>The specification: a list with at most \<open>cap\<close> characters.\<close>

definition list_put :: "nat \<Rightarrow> u8 \<times> bool \<Rightarrow> (u8 \<times> bool) list \<Rightarrow> (u8 \<times> bool) list option" where
  "list_put cap c cs = (if length cs < cap then Some (cs @ [c]) else None)"

definition list_get :: "(u8 \<times> bool) list \<Rightarrow> ((u8 \<times> bool) \<times> (u8 \<times> bool) list) option" where
  "list_get cs = (case cs of [] \<Rightarrow> None | c # cs' \<Rightarrow> Some (c, cs'))"

text \<open>
  A bounded first-in first-out queue of characters with a quote flag, as the line disciplines use
  it.
\<close>

locale char_queue =
  fixes invar :: "'q \<Rightarrow> bool" and content :: "'q \<Rightarrow> (u8 \<times> bool) list" and room :: "'q \<Rightarrow> nat"
    and put :: "u8 \<times> bool \<Rightarrow> 'q \<Rightarrow> 'q option" and get :: "'q \<Rightarrow> ((u8 \<times> bool) \<times> 'q) option"
  assumes put_law: "\<lbrakk>invar s; 0 < room s\<rbrakk> \<Longrightarrow> \<exists>s'. put c s = Some s' \<and> invar s' \<and> content s' = content s @ [c]
      \<and> room s' = room s - 1"
    and get_law: "\<lbrakk>invar s; content s = c # cs\<rbrakk> \<Longrightarrow> \<exists>s'. get s = Some (c, s') \<and> invar s' \<and> content s' = cs
      \<and> room s' = room s + 1"
    and get_empty: "\<lbrakk>invar s; content s = []\<rbrakk> \<Longrightarrow> get s = None"
    and put_full: "\<lbrakk>invar s; room s = 0\<rbrakk> \<Longrightarrow> put c s = None"
begin

lemma trace:
  assumes "invar s" and "cap = length (content s) + room s"
  shows "fst (run_queue put get ops s) = fst (run_queue (list_put cap) list_get ops (content s))
    \<and> content (snd (run_queue put get ops s)) = snd (run_queue (list_put cap) list_get ops (content s))"
  using assms
proof (induction ops arbitrary: s)
  case (Cons op ops)
  show ?case
  proof (cases op)
    case (QPut c)
    show ?thesis
    proof (cases "room s = 0")
      case True
      then show ?thesis using put_full [OF Cons.prems(1) True] Cons.IH [OF Cons.prems] Cons.prems(2) by (simp add: QPut list_put_def)
    next
      case False
      with Cons.prems obtain s1 where s1: "put c s = Some s1" "invar s1" "content s1 = content s @ [c]" "room s1 = room s - 1"
        using put_law [of s c] by auto
      with Cons.IH [of s1] Cons.prems False show ?thesis by (simp add: QPut list_put_def)
    qed
  next
    case QGet
    show ?thesis
    proof (cases "content s")
      case Nil
      then show ?thesis using get_empty [OF Cons.prems(1) Nil] Cons.IH [OF Cons.prems] by (simp add: QGet list_get_def)
    next
      case (Cons c cs)
      with Cons.prems obtain s1 where "get s = Some (c, s1)" "invar s1" "content s1 = cs" "room s1 = room s + 1" using get_law by blast
      with Cons Cons.IH [of s1] Cons.prems show ?thesis by (simp add: QGet list_get_def)
    qed
  qed
qed simp

end

definition cl_put :: "u8 \<times> bool \<Rightarrow> clist \<Rightarrow> clist option" where
  "cl_put c clp = (case putc (ttychar (fst c) (snd c)) clp of
     Some (r, clp') \<Rightarrow> if r = 0 then Some clp' else None | None \<Rightarrow> None)"

definition cl_get :: "clist \<Rightarrow> ((u8 \<times> bool) \<times> clist) option" where
  "cl_get clp = (case getc clp of
     Some (Some c, clp') \<Rightarrow> Some ((ucast c, c AND TTY_QUOTE \<noteq> 0), clp') | _ \<Rightarrow> None)"

definition cl_room :: "clist \<Rightarrow> nat" where
  "cl_room clp = c_cn clp - c_cc clp"

lemma cl_count: "cl_inv clp \<Longrightarrow> c_cc clp \<le> c_cn clp"
  by (auto simp: cl_inv_def cl_ring_def split: if_splits)

interpretation cq: char_queue "\<lambda>clp. cl_ok clp \<and> c_cq clp \<noteq> None" chars cl_room cl_put cl_get
proof
  show "\<exists>s'. cl_put c s = Some s' \<and> (cl_ok s' \<and> c_cq s' \<noteq> None) \<and> chars s' = chars s @ [c] \<and> cl_room s' = cl_room s - 1"
    if s: "cl_ok s \<and> c_cq s \<noteq> None" "0 < cl_room s" for s c
  proof -
    let ?c = "ttychar (fst c) (snd c)"
    have "c_cc s \<noteq> c_cn s" using s(2) by (simp add: cl_room_def)
    then obtain s' where s': "putc ?c s = Some (0, s')" "cl_ok s'" "c_cn s' = c_cn s" "c_cq s' \<noteq> None"
      "chars s' = chars s @ [c]"
      using putc_spec [of s ?c] s(1) char_quote [of "fst c" "snd c"] by auto
    then have "c_cc s' = c_cc s + 1" by (metis length_append_singleton length_chars Suc_eq_plus1)
    with s' show ?thesis by (simp add: cl_put_def cl_room_def)
  qed
  show "\<exists>s'. cl_get s = Some (c, s') \<and> (cl_ok s' \<and> c_cq s' \<noteq> None) \<and> chars s' = cs \<and> cl_room s' = cl_room s + 1"
    if s: "cl_ok s \<and> c_cq s \<noteq> None" "chars s = c # cs" for s c cs
  proof -
    obtain b q where c: "c = (b, q)" by (cases c)
    have inv: "cl_inv s" using s by (simp add: cl_ok_def)
    from getc_spec [OF inv] s c obtain s' where s': "getc s = Some (Some (ttychar b q), s')" "cl_inv s'" "chars s' = cs"
      "c_cn s' = c_cn s" "c_cq s' \<noteq> None" "c_cs s' \<noteq> None" by auto
    have "c_cc s = Suc (c_cc s')" using s(2) s'(3) by (metis length_Cons length_chars)
    with s' c cl_count [OF inv] char_quote [of b q] show ?thesis
      by (auto simp: cl_get_def cl_ok_def cl_room_def)
  qed
  show "cl_put c s = None" if "cl_ok s \<and> c_cq s \<noteq> None" "cl_room s = 0" for s c
    using putc_spec [of s "ttychar (fst c) (snd c)"] that cl_count [of s] by (simp add: cl_put_def cl_room_def cl_ok_def)
  show "cl_get s = None" if "cl_ok s \<and> c_cq s \<noteq> None" "chars s = []" for s
    using getc_spec [of s] that by (simp add: cl_get_def cl_ok_def)
qed

section \<open>Concatenation and walking\<close>

lemma catq_loop_spec:
  assumes "cl_inv fr" and "cl_ok to" and "c_cq to \<noteq> None" and "c_cc fr < fuel"
  shows "\<exists>fr' to'. catq_loop fuel fr to = Some (fr', to') \<and> cl_inv fr' \<and> chars fr' = [] \<and> cl_ok to'
    \<and> chars to' = chars to @ take (cl_room to) (chars fr)"
  using assms
proof (induction fuel arbitrary: fr to)
  case (Suc fuel)
  show ?case
  proof (cases "chars fr")
    case Nil
    with getc_spec [OF Suc.prems(1)] Suc.prems show ?thesis by simp
  next
    case (Cons c rest)
    obtain b q where c: "c = (b, q)" by (cases c)
    from getc_spec [OF Suc.prems(1)] Cons c obtain fr1 where
      g: "getc fr = Some (Some (ttychar b q), fr1)" "cl_inv fr1" "chars fr1 = rest" by auto
    have "c_cc fr1 < fuel" using Suc.prems(4) Cons g(3) by (metis length_Cons length_chars not_less_eq)
    show ?thesis
    proof (cases "c_cc to = c_cn to")
      case True
      with putc_spec [OF Suc.prems(2), of "ttychar b q"] have "putc (ttychar b q) to = Some (-1, to)" by simp
      with Suc.IH [OF g(2) Suc.prems(2,3) \<open>c_cc fr1 < fuel\<close>] g True show ?thesis
        by (auto simp: cl_room_def)
    next
      case False
      with putc_spec [OF Suc.prems(2), of "ttychar b q"] Suc.prems(3) char_quote [of b q] obtain to1 where
        p: "putc (ttychar b q) to = Some (0, to1)" "cl_ok to1" "c_cn to1 = c_cn to" "c_cq to1 \<noteq> None"
          "chars to1 = chars to @ [(b, q)]" by auto
      have "c_cc to1 = Suc (c_cc to)" using p(5) by (metis length_append_singleton length_chars)
      moreover have "c_cc to < c_cn to"
        using False cl_count [of to] Suc.prems(2) by (simp add: cl_ok_def)
      ultimately have room: "cl_room to = Suc (cl_room to1)" using p(3) by (simp add: cl_room_def)
      from Suc.IH [OF g(2) p(2,4) \<open>c_cc fr1 < fuel\<close>] g p room Cons c show ?thesis by auto
    qed
  qed
qed simp

text \<open>Walking with \<^verbatim>\<open>firstc\<close> and \<^verbatim>\<open>nextc\<close>: \<open>walk_from\<close> collects at most \<open>k\<close> further characters.\<close>

fun walk_from :: "nat \<Rightarrow> clist \<Rightarrow> nat \<Rightarrow> nat \<Rightarrow> u32 list" where
  "walk_from 0 clp cp cc = []"
| "walk_from (Suc k) clp cp cc = (case nextc clp cp cc of
     None \<Rightarrow> [] | Some (cp', c, cc') \<Rightarrow> c # walk_from k clp cp' cc')"

definition walk :: "clist \<Rightarrow> u32 list" where
  "walk clp = (case firstc clp of
     None \<Rightarrow> [] | Some (cp, c, cc) \<Rightarrow> c # walk_from (c_cc clp) clp cp cc)"

lemma char_at_cell:
  assumes "cl_ring clp f" and "i < c_cn clp"
  shows "char_at clp i = Some (case_prod ttychar (cell clp i))"
  using assms by (auto simp: cl_ring_def char_at_def cell_def quote_at_def)

lemma walk_from_spec:
  assumes ring: "cl_ring clp f" and "i < c_cc clp" and "c_cc clp - i \<le> k + 1"
  shows "walk_from k clp ((f + i) mod c_cn clp) (c_cc clp - i) = map (case_prod ttychar) (drop (i + 1) (chars clp))"
  using assms(2,3)
proof (induction k arbitrary: i)
  case 0
  then show ?case by simp
next
  case (Suc k)
  define n where "n = c_cn clp"
  have f: "f < n" "c_cf clp = Some f" "c_cc clp \<le> n" using ring by (auto simp: cl_ring_def n_def)
  have "(f + i) mod n = f \<Longrightarrow> i = 0" using ring_inj [of f 0 n i] f Suc.prems by simp
  then have cc0: "(if c_cf clp = Some ((f + i) mod n) then c_cc clp else c_cc clp - i) = c_cc clp - i"
    using f by auto
  show ?case
  proof (cases "c_cc clp - i = 1")
    case True
    then have "nextc clp ((f + i) mod n) (c_cc clp - i) = None"
      unfolding nextc_def Let_def cc0 by simp
    with True show ?thesis by (simp add: n_def)
  next
    case False
    then have i: "Suc i < c_cc clp" using Suc.prems by simp
    have step: "(if (f + i) mod n + 1 = n then 0 else (f + i) mod n + 1) = (f + Suc i) mod n"
      using f by (simp add: mod_Suc)
    have "(f + Suc i) mod n < c_cn clp" using f by (simp add: n_def)
    from char_at_cell [OF ring this] have "nextc clp ((f + i) mod n) (c_cc clp - i) =
        Some ((f + Suc i) mod n, case_prod ttychar (cell clp ((f + Suc i) mod n)), c_cc clp - Suc i)"
      unfolding nextc_def Let_def cc0 n_def [symmetric] step using i by (simp add: Suc_diff_Suc)
    moreover have "drop (i + 1) (chars clp) = cell clp ((f + Suc i) mod n) # drop (Suc i + 1) (chars clp)"
      using i f by (simp add: Cons_nth_drop_Suc [symmetric] nth_chars n_def)
    ultimately show ?thesis using Suc.IH [OF i] Suc.prems i by (simp add: n_def)
  qed
qed

section \<open>Properties\<close>

text \<open>
  C10. A character queue with quote bits is a bounded first-in first-out buffer: from any position of the ring and any contents, an arbitrary sequence of \<^verbatim>\<open>putc\<close>
  and \<^verbatim>\<open>getc\<close> returns what a list of at most \<^verbatim>\<open>c_cn\<close> characters with their quote flags would return: characters are refused exactly when the queue is full, and
  come out in order and with their flags.
\<close>

theorem clist_fifo:
  assumes "cl_ok clp" and "c_cq clp \<noteq> None"
  shows "fst (run_queue cl_put cl_get ops clp) = fst (run_queue (list_put (c_cn clp)) list_get ops (chars clp))
    \<and> chars (snd (run_queue cl_put cl_get ops clp)) = snd (run_queue (list_put (c_cn clp)) list_get ops (chars clp))"
proof -
  have "c_cn clp = length (chars clp) + cl_room clp" using assms(1) cl_count [of clp] by (simp add: cl_ok_def cl_room_def length_chars)
  then show ?thesis using assms by (intro cq.trace) simp_all
qed

definition demo_ring :: clist where
  "demo_ring = clalloc \<lparr>c_cc = 0, c_cn = 0, c_cf = None, c_cl = None, c_cs = None, c_cq = None, c_oob = False\<rparr> 16 True"

lemma demo_ring_ok: "cl_ok demo_ring \<and> c_cq demo_ring \<noteq> None" "chars demo_ring = []" "cl_room demo_ring = 16"
  by (simp_all add: demo_ring_def clalloc_def cl_ok_def cl_inv_def chars_def cl_room_def QMEM_def)

definition small_ring :: clist where
  "small_ring = clalloc \<lparr>c_cc = 0, c_cn = 0, c_cf = None, c_cl = None, c_cs = None, c_cq = None, c_oob = False\<rparr> 2 True"

text \<open>In a ring of two places the third character is refused, and the one put after a \<^verbatim>\<open>getc\<close> goes to the first place.\<close>

theorem clist_fifo_witness:
  "fst (run_queue cl_put cl_get [QPut (65, True), QPut (66, False), QPut (67, False), QGet, QPut (68, True), QGet, QGet, QGet] small_ring)
    = [QAccepted, QAccepted, QFull, QGot (65, True), QAccepted, QGot (66, False), QGot (68, True), QEmpty]"
proof -
  have ok: "cl_ok small_ring" "c_cq small_ring \<noteq> None" and cs: "chars small_ring = []" "c_cn small_ring = 2"
    by (simp_all add: small_ring_def clalloc_def cl_ok_def cl_inv_def chars_def QMEM_def)
  have "fst (run_queue (list_put 2) list_get [QPut (65, True), QPut (66, False), QPut (67, False), QGet, QPut (68, True), QGet, QGet, QGet] [])
      = [QAccepted, QAccepted, QFull, QGot (65, True), QAccepted, QGot (66, False), QGot (68, True), QEmpty]"
    by (simp add: list_put_def list_get_def)
  then show ?thesis by (rule trans [OF conjunct1 [OF clist_fifo [OF ok], unfolded cs]])
qed

text \<open>
  The block copies: \<^verbatim>\<open>b_to_q\<close> appends as much of the buffer as there is room for, unquoted, and
  returns how much it left over; \<^verbatim>\<open>q_to_b\<close> takes the given number of characters from the front, or
  all of them, and leaves the rest with their quote flags.
\<close>

theorem clist_block_copy:
  assumes ok: "cl_ok clp"
  shows "(\<exists>clp'. b_to_q p clp = Some (length p - cl_room clp, clp') \<and> cl_ok clp'
      \<and> chars clp' = chars clp @ map (\<lambda>b. (b, False)) (take (cl_room clp) p))
    \<and> (\<exists>clp'. q_to_b clp count = Some (map fst (take count (chars clp)), clp') \<and> cl_inv clp'
      \<and> chars clp' = drop count (chars clp))"
proof
  have inv: "cl_inv clp" using ok by (simp add: cl_ok_def)
  show "\<exists>clp'. b_to_q p clp = Some (length p - cl_room clp, clp') \<and> cl_ok clp'
      \<and> chars clp' = chars clp @ map (\<lambda>b. (b, False)) (take (cl_room clp) p)"
  proof (cases "p = [] \<or> c_cc clp = c_cn clp")
    case True
    with ok show ?thesis by (auto simp: b_to_q_def cl_room_def)
  next
    case False
    with cl_count [OF inv] have lt: "c_cc clp < c_cn clp" by simp
    note pr = prepare_ring [OF ok lt]
    obtain f where "cl_ring (cl_prepare clp) f" using pr(1) by blast
    from b_to_q_loop_spec [OF this, of p] pr obtain clp' where r:
      "b_to_q_loop p (cl_prepare clp) = Some (length p - cl_room clp, clp')" "cl_ring clp' f"
      "chars clp' = chars clp @ map (\<lambda>b. (b, False)) (take (cl_room clp) p)"
      by (auto simp: cl_room_def)
    have "0 < min (length p) (c_cn clp - c_cc clp)" using False lt by auto
    then have "0 < c_cc clp'"
      using arg_cong [OF r(3), of length] by (simp add: cl_room_def)
    with r ring_ok [OF r(2)] False show ?thesis by (simp add: b_to_q_def)
  qed
  show "\<exists>clp'. q_to_b clp count = Some (map fst (take count (chars clp)), clp') \<and> cl_inv clp'
      \<and> chars clp' = drop count (chars clp)"
  proof (cases "c_cc clp = 0")
    case True
    then have "chars clp = []" "q_to_b_loop clp count = Some ([], clp)"
      by (simp_all add: chars_def q_to_b_loop.simps)
    with True inv show ?thesis by (auto simp: q_to_b_def cl_inv_def chars_def split: option.splits)
  next
    case False
    with inv obtain f where "cl_ring clp f" using inv_nonempty by blast
    from q_to_b_loop_spec [OF this, of count] obtain clp' f' where
      "q_to_b_loop clp count = Some (map fst (take count (chars clp)), clp')" "cl_ring clp' f'"
      "chars clp' = drop count (chars clp)" by blast
    with null_empty_inv [of clp' f'] show ?thesis by (simp add: q_to_b_def null_empty_def [symmetric])
  qed
qed

theorem clist_block_copy_witness:
  "\<exists>clp'. b_to_q (replicate 20 65) demo_ring = Some (4, clp') \<and> chars clp' = replicate 16 (65, False)"
proof -
  have ok: "cl_ok demo_ring" using demo_ring_ok(1) by simp
  obtain clp' where "b_to_q (replicate 20 65) demo_ring = Some (20 - cl_room demo_ring, clp')"
    "chars clp' = map (\<lambda>b. (b, False)) (take 16 (replicate 20 65))"
    using clist_block_copy [OF ok, of "replicate 20 65" 0] demo_ring_ok(2,3) by auto
  then show ?thesis using demo_ring_ok(3) by (auto simp: map_replicate)
qed

text \<open>
  \<^verbatim>\<open>clrbits\<close>, which works on whole bytes with masks, equals the loop that clears one bit at a
  time, when the byte after the last bit still belongs to the array.
\<close>

theorem clrbits_equals_loop:
  assumes "0 < len" and "(off + len) div 8 < length q"
  shows "clrbits off len (q, oob) = fold clrbit [off..<off + len] (q, oob)"
proof -
  have loop: "length (fst (fold clrbit [off..<off + k] (q, oob))) = length q
      \<and> snd (fold clrbit [off..<off + k] (q, oob)) = oob
      \<and> (\<forall>j. j div 8 < length q \<longrightarrow> isset 0 (fst (fold clrbit [off..<off + k] (q, oob))) j
            = (isset 0 q j \<and> \<not> (off \<le> j \<and> j < off + k)))" if "k \<le> len" for k
    using that
  proof (induction k)
    case (Suc k)
    obtain q' where q': "fold clrbit [off..<off + k] (q, oob) = (q', oob)" "length q' = length q"
      "\<And>j. j div 8 < length q \<Longrightarrow> isset 0 q' j = (isset 0 q j \<and> \<not> (off \<le> j \<and> j < off + k))"
      using Suc by (cases "fold clrbit [off..<off + k] (q, oob)") auto
    have step: "fold clrbit [off..<off + Suc k] (q, oob) = clrbit (off + k) (q', oob)"
      by (simp add: q'(1))
    have "(off + k) div 8 \<le> (off + len) div 8" using Suc.prems by (intro div_le_mono) simp
    then have "snd (clrbit (off + k) (q', oob)) = oob"
      using assms(2) q'(2) by (simp add: clrbit_def byte_upd_simps)
    then show ?case
      unfolding step using q'(2,3) clrbit_simps(1) [of _ q' 0 "off + k" oob] by (auto simp: less_Suc_eq)
  qed simp
  define a where "a = fst (clrbits off len (q, oob))"
  define b where "b = fst (fold clrbit [off..<off + len] (q, oob))"
  note e = clrbits_effect [OF assms(1), where off = off and q = q and oob = oob, folded a_def] and l = loop [OF order_refl, folded b_def]
  have "a ! i = b ! i" if i: "i < length q" for i
  proof (rule bit_word_eqI)
    fix n assume "n < LENGTH(8)"
    then have "(8 * i + n) div 8 = i" "(8 * i + n) mod 8 = n" by simp_all
    moreover from this i l have "isset 0 b (8 * i + n) = (isset 0 q (8 * i + n) \<and> \<not> (off \<le> 8 * i + n \<and> 8 * i + n < off + len))"
      by metis
    ultimately show "bit (a ! i) n = bit (b ! i) n" using e(3) [of "8 * i + n" 0] l i e(1) by (simp add: isset_def)
  qed
  then have "a = b" using e(1) l by (intro nth_equalityI) auto
  moreover have "off div 8 \<le> (off + len) div 8" by (intro div_le_mono) simp
  then have "snd (clrbits off len (q, oob)) = oob" using e(2) assms(2) by auto
  ultimately show ?thesis using l by (simp add: prod_eq_iff a_def b_def)
qed

theorem clrbits_equals_loop_witness:
  "clrbits 3 10 ([255, 255], False) = fold clrbit [3..<13] ([255, 255], False)"
  using clrbits_equals_loop [of 10 3 "[255, 255]" False] by simp

text \<open>
  \<^verbatim>\<open>catq\<close> empties the first queue and appends its characters, flags included, to the second as
  far as they fit, whether it swaps the queues or moves the characters one by one.
\<close>

theorem catq_correct:
  assumes fr: "cl_ok fr" and to: "cl_ok to" "c_cq to \<noteq> None"
  shows "\<exists>fr' to'. catq fr to = Some (fr', to') \<and> cl_inv fr' \<and> cl_inv to' \<and> chars fr' = []
    \<and> chars to' = chars to @ take (cl_room to) (chars fr)"
proof -
  have inv: "cl_inv fr" using fr by (simp add: cl_ok_def)
  consider (none) "c_cc fr = 0" | (swap) "c_cc fr \<noteq> 0" "c_cc to = 0" "c_cn fr = c_cn to"
    | (move) "c_cc fr \<noteq> 0" "\<not> (c_cc to = 0 \<and> c_cn fr = c_cn to)" by argo
  then show ?thesis
  proof cases
    case none
    then have "chars fr = []" by (simp add: chars_def)
    with none inv to show ?thesis by (simp add: catq_def cl_ok_def)
  next
    case swap
    then have "chars to = []" by (simp add: chars_def)
    moreover have "take (cl_room to) (chars fr) = chars fr"
      using swap cl_count [OF inv] by (simp add: cl_room_def)
    ultimately show ?thesis using swap inv to by (simp add: catq_def cl_ok_def)
  next
    case move
    with catq_loop_spec [OF inv to, of "c_cc fr + 1"] show ?thesis by (auto simp: catq_def cl_ok_def)
  qed
qed

theorem catq_correct_witness:
  "\<exists>fr' to'. catq demo_ring demo_ring = Some (fr', to') \<and> chars to' = []"
  using catq_correct [of demo_ring demo_ring] demo_ring_ok by auto

text \<open>
  Walking a queue with \<^verbatim>\<open>firstc\<close> and \<^verbatim>\<open>nextc\<close> visits exactly its characters in order, with their
  flags, and ends after the last one.
\<close>

theorem clist_walk:
  assumes "cl_inv clp"
  shows "walk clp = map (\<lambda>(b, q). ttychar b q) (chars clp)"
proof (cases "c_cc clp = 0")
  case True
  then show ?thesis by (simp add: walk_def firstc_def chars_def)
next
  case False
  with assms obtain f where ring: "cl_ring clp f" using inv_nonempty by blast
  then have f: "f < c_cn clp" "c_cf clp = Some f" by (auto simp: cl_ring_def)
  have "walk clp = case_prod ttychar (cell clp f) # walk_from (c_cc clp) clp f (c_cc clp)"
    using False f char_at_cell [OF ring f(1)] by (simp add: walk_def firstc_def)
  also have "walk_from (c_cc clp) clp f (c_cc clp) = map (case_prod ttychar) (drop 1 (chars clp))"
    using walk_from_spec [OF ring, of 0 "c_cc clp"] False f by simp
  also have "case_prod ttychar (cell clp f) # map (case_prod ttychar) (drop 1 (chars clp)) = map (case_prod ttychar) (chars clp)"
  proof -
    have "chars clp = chars clp ! 0 # drop 1 (chars clp)"
      using False by (metis Cons_nth_drop_Suc One_nat_def drop_0 length_chars neq0_conv)
    moreover have "chars clp ! 0 = cell clp f" using False f by (simp add: nth_chars)
    ultimately show ?thesis by (metis list.simps(9))
  qed
  finally show ?thesis by simp
qed

theorem clist_walk_witness: "walk demo_ring = []"
  using clist_walk [of demo_ring] demo_ring_ok by (simp add: cl_ok_def)

text \<open>
  \<^verbatim>\<open>q_to_b\<close> clears the quote bits from the end of the queue on instead of those of the characters
  it removed: on a ring of 16 it is enough to copy 12 characters in and 12 out to write past the end
  of the bit array.
\<close>

theorem q_to_b_leaves_quote_array:
  "case b_to_q (replicate 12 65) demo_ring of
     None \<Rightarrow> False
   | Some (n, clp1) \<Rightarrow> n = 0 \<and> \<not> c_oob clp1
       \<and> (case q_to_b clp1 12 of None \<Rightarrow> False | Some (p, clp2) \<Rightarrow> p = replicate 12 65 \<and> c_oob clp2)"
  by code_simp

text \<open>
  With \<^const>\<open>TTY_QUOTE\<close>, \<^verbatim>\<open>ndqb\<close> looks at the quote bit of the following character, since the index
  has been advanced by then: it counts a quoted first character and stops before an unquoted one.
\<close>

theorem ndqb_off_by_one:
  "Option.bind (put_all cl_put [(65, True), (66, False)] demo_ring) (\<lambda>clp. ndqb 0 clp TTY_QUOTE) = Some 2
   \<and> Option.bind (put_all cl_put [(65, False), (66, True)] demo_ring) (\<lambda>clp. ndqb 0 clp TTY_QUOTE) = Some 0"
  by code_simp
end
