(* ===== verification/Rwlock.thy ===== *)
theory Rwlock
  imports Kern_Prelude
begin

text \<open>
  Kernel read/write locks (\<^verbatim>\<open>src/sys/kern/kern_rwlock.c\<close>, \<^verbatim>\<open>src/sys/sys/rwlock.h\<close>). A lock is one
  machine word: reader count or owner, and three flag bits. Any number of threads run the code
  concurrently: a step of the model is one thread's next access to the word, so that between a load and
  the compare-and-swap that follows it every other thread may move. The compare-and-swap is one step, as in the machine-dependent versions of \<^verbatim>\<open>rw_cas\<close>; the
  generic one in C is for machines on which nothing else runs between its load and its store. The sleep queue of the lock is
  the set of threads between \<^verbatim>\<open>sleep_setup\<close> and their wakeup; a wakeup may come before the
  thread really sleeps. \<open>proc t\<close> is the address of the \<^verbatim>\<open>struct proc\<close> of thread \<open>t\<close>.
\<close>

section \<open>The lock word\<close>

definition RWLOCK_WAIT :: u64 where "RWLOCK_WAIT = 0x01"

definition RWLOCK_WRWANT :: u64 where "RWLOCK_WRWANT = 0x02"

definition RWLOCK_WRLOCK :: u64 where "RWLOCK_WRLOCK = 0x04"

definition RWLOCK_MASK :: u64 where "RWLOCK_MASK = 0x07"

definition RWLOCK_READ_INCR :: u64 where "RWLOCK_READ_INCR = push_bit 3 1"

definition RW_PROC :: "u64 \<Rightarrow> u64" where
  "RW_PROC p = p AND NOT RWLOCK_MASK"

datatype rw_opcode = RW_WRITE | RW_READ | RW_DOWNGRADE

record rwlock_op =
  op_inc :: u64
  op_check :: u64
  op_wait_set :: u64
  op_proc_mult :: u64

fun rw_ops :: "rw_opcode \<Rightarrow> rwlock_op" where
  "rw_ops RW_WRITE = \<lparr>op_inc = RWLOCK_WRLOCK, op_check = - 1,
     op_wait_set = RWLOCK_WAIT OR RWLOCK_WRWANT, op_proc_mult = 1\<rparr>"
| "rw_ops RW_READ = \<lparr>op_inc = RWLOCK_READ_INCR, op_check = RWLOCK_WRLOCK,
     op_wait_set = RWLOCK_WAIT, op_proc_mult = 0\<rparr>"
| "rw_ops RW_DOWNGRADE = \<lparr>op_inc = RWLOCK_READ_INCR - RWLOCK_WRLOCK, op_check = 0,
     op_wait_set = 0, op_proc_mult = - 1\<rparr>"

datatype rw_flag = RW_INTR | RW_SLEEPFAIL | RW_NOSLEEP

section \<open>Threads\<close>

datatype rw_mode = Shared | Exclusive

text \<open>
  Where a thread is: outside the lock, holding it, or at an access to the word (or the sleep queue)
  inside one of the functions. The values loaded so far are arguments. The mode in the exit
  states says how the thread holds the lock.
\<close>

datatype rw_pc =
    Out
  | Holds rw_mode
  | EnterReadCas u64
  | Retry rw_opcode "rw_flag set"
  | Diag rw_opcode "rw_flag set" u64
  | SetWait rw_opcode "rw_flag set" u64
  | Asleep rw_opcode "rw_flag set"
  | Take rw_opcode "rw_flag set" u64
  | DownWake
  | ExitFastCas rw_mode u64
  | ExitStart rw_mode
  | ExitLoad rw_mode bool
  | ExitCas rw_mode bool u64
  | ExitWake
  | Panicked

record rw_state =
  rwl_owner :: u64
  rw_pcs :: "nat \<Rightarrow> rw_pc"
  rw_sleepers :: "nat set"

definition rw_init :: rw_state where
  "rw_init = \<lparr>rwl_owner = 0, rw_pcs = (\<lambda>_. Out), rw_sleepers = {}\<rparr>"

definition rw_cas :: "u64 \<Rightarrow> u64 \<Rightarrow> rw_state \<Rightarrow> rw_state \<times> bool" where
  "rw_cas old new s = (if rwl_owner s = old then (s\<lparr>rwl_owner := new\<rparr>, True) else (s, False))"

definition goto :: "nat \<Rightarrow> rw_pc \<Rightarrow> rw_state \<Rightarrow> rw_state" where
  "goto t pc s = s\<lparr>rw_pcs := (rw_pcs s)(t := pc)\<rparr>"

definition wakeup :: "rw_state \<Rightarrow> rw_state" where
  "wakeup s = s\<lparr>rw_sleepers := {}\<rparr>"

text \<open>Whether \<^verbatim>\<open>rw_enter_diag\<close> panics; \<open>p\<close> is the current process.\<close>

definition rw_enter_diag :: "u64 \<Rightarrow> rw_opcode \<Rightarrow> u64 \<Rightarrow> bool" where
  "rw_enter_diag p op owner =
     (case op of
        RW_WRITE \<Rightarrow> RW_PROC p = RW_PROC owner
      | RW_READ \<Rightarrow> RW_PROC p = RW_PROC owner
      | RW_DOWNGRADE \<Rightarrow> owner AND RWLOCK_WRLOCK = 0 \<or> RW_PROC p \<noteq> RW_PROC owner)"

text \<open>
  What the environment decides: which function a thread calls next, and whether a sleep ends by a
  signal (the error \<^verbatim>\<open>sleep_finish_signal\<close> returns).
\<close>

datatype rw_choice =
    CallEnterRead
  | CallEnterWrite
  | CallEnter rw_opcode "rw_flag set"
  | CallExitFast
  | CallExit
  | Run
  | Signalled

section \<open>One step of a thread\<close>

text \<open>The fast paths \<^verbatim>\<open>rw_enter_read\<close> and \<^verbatim>\<open>rw_enter_write\<close>, up to their first access.\<close>

definition rw_enter_read :: "nat \<Rightarrow> rw_state \<Rightarrow> rw_state" where
  "rw_enter_read t s =
     (let owner = rwl_owner s
      in if owner AND RWLOCK_WRLOCK \<noteq> 0 then goto t (Retry RW_READ {}) s
         else goto t (EnterReadCas owner) s)"

definition rw_enter_write :: "(nat \<Rightarrow> u64) \<Rightarrow> nat \<Rightarrow> rw_state \<Rightarrow> rw_state" where
  "rw_enter_write proc t s =
     (case rw_cas 0 (RW_PROC (proc t) OR RWLOCK_WRLOCK) s of
        (s', True) \<Rightarrow> goto t (Holds Exclusive) s'
      | (s', False) \<Rightarrow> goto t (Retry RW_WRITE {}) s')"

text \<open>The fast exits load the word and go to the slow path when somebody waits.\<close>

definition rw_exit_fast :: "nat \<Rightarrow> rw_mode \<Rightarrow> rw_state \<Rightarrow> rw_state" where
  "rw_exit_fast t m s =
     (let owner = rwl_owner s
      in if owner AND RWLOCK_WAIT \<noteq> 0 then goto t (ExitStart m) s
         else goto t (ExitFastCas m owner) s)"

text \<open>\<^verbatim>\<open>rw_enter\<close> at the label \<^verbatim>\<open>retry\<close> and in the waiting loop.\<close>

definition rw_enter_load :: "nat \<Rightarrow> rw_opcode \<Rightarrow> rw_flag set \<Rightarrow> rw_state \<Rightarrow> rw_state" where
  "rw_enter_load t op flags s =
     (let o1 = rwl_owner s
      in if o1 AND op_check (rw_ops op) \<noteq> 0 then goto t (Diag op flags o1) s
         else goto t (Take op flags o1) s)"

text \<open>The diagnostic check loads the word again; then the thread enters the sleep queue.\<close>

definition rw_enter_setup ::
    "bool \<Rightarrow> (nat \<Rightarrow> u64) \<Rightarrow> nat \<Rightarrow> rw_opcode \<Rightarrow> rw_flag set \<Rightarrow> u64 \<Rightarrow> rw_state \<Rightarrow> rw_state" where
  "rw_enter_setup diag proc t op flags o1 s =
     (if diag \<and> rw_enter_diag (proc t) op (rwl_owner s) then goto t Panicked s
      else if RW_NOSLEEP \<in> flags then goto t Out s
      else goto t (SetWait op flags o1) (s\<lparr>rw_sleepers := insert t (rw_sleepers s)\<rparr>))"

text \<open>After a sleep, or after the word changed before it.\<close>

definition rw_after_sleep :: "nat \<Rightarrow> rw_opcode \<Rightarrow> rw_flag set \<Rightarrow> bool \<Rightarrow> rw_state \<Rightarrow> rw_state" where
  "rw_after_sleep t op flags signalled s =
     (let s1 = s\<lparr>rw_sleepers := rw_sleepers s - {t}\<rparr>
      in if RW_INTR \<in> flags \<and> signalled then goto t Out s1
         else if RW_SLEEPFAIL \<in> flags then goto t Out s1
         else goto t (Retry op flags) s1)"

definition rw_enter_wait :: "nat \<Rightarrow> rw_opcode \<Rightarrow> rw_flag set \<Rightarrow> u64 \<Rightarrow> bool \<Rightarrow> rw_state \<Rightarrow> rw_state" where
  "rw_enter_wait t op flags o1 signalled s =
     (case rw_cas o1 (o1 OR op_wait_set (rw_ops op)) s of
        (s', True) \<Rightarrow> goto t (Asleep op flags) s'
      | (s', False) \<Rightarrow> rw_after_sleep t op flags signalled s')"

definition held_after :: "rw_opcode \<Rightarrow> rw_mode" where
  "held_after op = (case op of RW_WRITE \<Rightarrow> Exclusive | _ \<Rightarrow> Shared)"

definition rw_enter_take :: "(nat \<Rightarrow> u64) \<Rightarrow> nat \<Rightarrow> rw_opcode \<Rightarrow> rw_flag set \<Rightarrow> u64 \<Rightarrow> rw_state \<Rightarrow> rw_state" where
  "rw_enter_take proc t op flags o1 s =
     (let inc = op_inc (rw_ops op) + RW_PROC (proc t) * op_proc_mult (rw_ops op)
      in case rw_cas o1 (o1 + inc) s of
           (s', False) \<Rightarrow> goto t (Retry op flags) s'
         | (s', True) \<Rightarrow>
             if o1 AND (RWLOCK_WRLOCK OR RWLOCK_WAIT) = (RWLOCK_WRLOCK OR RWLOCK_WAIT)
             then goto t DownWake s' else goto t (Holds (held_after op)) s')"

text \<open>\<^verbatim>\<open>rw_exit\<close>: the loop, and the wakeup after it.\<close>

definition rw_exit_cas :: "nat \<Rightarrow> rw_mode \<Rightarrow> bool \<Rightarrow> u64 \<Rightarrow> rw_state \<Rightarrow> rw_state" where
  "rw_exit_cas t m wrlock owner s =
     (let new = (if wrlock then 0 else (owner - RWLOCK_READ_INCR) AND NOT (RWLOCK_WAIT OR RWLOCK_WRWANT))
      in case rw_cas owner new s of
           (s', False) \<Rightarrow> goto t (ExitLoad m wrlock) s'
         | (s', True) \<Rightarrow> if owner AND RWLOCK_WAIT \<noteq> 0 then goto t ExitWake s' else goto t Out s')"

text \<open>
  A call is made from outside or while holding the lock; a downgrade needs the exclusive lock and
  the other entries need no lock. \<open>None\<close> when the thread cannot make this step.
\<close>

definition rw_next ::
    "bool \<Rightarrow> (nat \<Rightarrow> u64) \<Rightarrow> nat \<Rightarrow> rw_choice \<Rightarrow> rw_state \<Rightarrow> rw_state option" where
  "rw_next diag proc t ch s =
     (case rw_pcs s t of
        Out \<Rightarrow>
          (case ch of
             CallEnterRead \<Rightarrow> Some (rw_enter_read t s)
           | CallEnterWrite \<Rightarrow> Some (rw_enter_write proc t s)
           | CallEnter op flags \<Rightarrow> if op = RW_DOWNGRADE then None else Some (goto t (Retry op flags) s)
           | _ \<Rightarrow> None)
      | Holds m \<Rightarrow>
          (case ch of
             CallExitFast \<Rightarrow> Some (rw_exit_fast t m s)
           | CallExit \<Rightarrow> Some (goto t (ExitStart m) s)
           | CallEnter op flags \<Rightarrow>
               if op = RW_DOWNGRADE \<and> m = Exclusive then Some (goto t (Retry op flags) s) else None
           | _ \<Rightarrow> None)
      | EnterReadCas owner \<Rightarrow>
          (case rw_cas owner (owner + RWLOCK_READ_INCR) s of
             (s', True) \<Rightarrow> Some (goto t (Holds Shared) s')
           | (s', False) \<Rightarrow> Some (goto t (Retry RW_READ {}) s'))
      | Retry op flags \<Rightarrow> Some (rw_enter_load t op flags s)
      | Diag op flags o1 \<Rightarrow> Some (rw_enter_setup diag proc t op flags o1 s)
      | SetWait op flags o1 \<Rightarrow> Some (rw_enter_wait t op flags o1 (ch = Signalled) s)
      | Asleep op flags \<Rightarrow>
          if t \<notin> rw_sleepers s \<or> (RW_INTR \<in> flags \<and> ch = Signalled)
          then Some (rw_after_sleep t op flags (ch = Signalled) s) else None
      | Take op flags o1 \<Rightarrow> Some (rw_enter_take proc t op flags o1 s)
      | DownWake \<Rightarrow> Some (goto t (Holds Shared) (wakeup s))
      | ExitFastCas m owner \<Rightarrow>
          (case rw_cas owner (if m = Shared then owner - RWLOCK_READ_INCR else 0) s of
             (s', True) \<Rightarrow> Some (goto t Out s')
           | (s', False) \<Rightarrow> Some (goto t (ExitStart m) s'))
      | ExitStart m \<Rightarrow> Some (goto t (ExitLoad m (rwl_owner s AND RWLOCK_WRLOCK \<noteq> 0)) s)
      | ExitLoad m wrlock \<Rightarrow> Some (goto t (ExitCas m wrlock (rwl_owner s)) s)
      | ExitCas m wrlock owner \<Rightarrow> Some (rw_exit_cas t m wrlock owner s)
      | ExitWake \<Rightarrow> Some (goto t Out (wakeup s))
      | Panicked \<Rightarrow> None)"

text \<open>The states that \<open>n\<close> threads can reach.\<close>

inductive rw_reach :: "bool \<Rightarrow> (nat \<Rightarrow> u64) \<Rightarrow> nat \<Rightarrow> rw_state \<Rightarrow> bool" for diag proc n where
  start: "rw_reach diag proc n rw_init"
| step: "\<lbrakk>rw_reach diag proc n s; t < n; rw_next diag proc t ch s = Some s'\<rbrakk> \<Longrightarrow> rw_reach diag proc n s'"

section \<open>Arithmetic of the lock word\<close>

lemmas rw_consts = RWLOCK_WAIT_def RWLOCK_WRWANT_def RWLOCK_WRLOCK_def RWLOCK_MASK_def RWLOCK_READ_INCR_def

lemma READ_INCR_8: "RWLOCK_READ_INCR = 8"
  by (simp add: RWLOCK_READ_INCR_def push_bit_eq_mult)

lemma odd_div_bit: "bit w n \<longleftrightarrow> odd (unat w div 2 ^ n)" for w :: u64
proof -
  have "bit (unat w) n = bit w n" by (simp add: bit_unsigned_iff)
  then show ?thesis by (simp only: bit_iff_odd [of "unat w"])
qed

lemma wait_test: "w AND RWLOCK_WAIT \<noteq> 0 \<longleftrightarrow> odd (unat w)" for w :: u64
proof -
  have "w AND 2 ^ 0 = 0 \<longleftrightarrow> \<not> bit w 0" by (rule and_exp_eq_0_iff_not_bit)
  then show ?thesis using odd_div_bit [of w 0] by (simp add: RWLOCK_WAIT_def)
qed

lemma wrlock_test: "w AND RWLOCK_WRLOCK \<noteq> 0 \<longleftrightarrow> odd (unat w div 4)" for w :: u64
proof -
  have "w AND 2 ^ 2 = 0 \<longleftrightarrow> \<not> bit w 2" by (rule and_exp_eq_0_iff_not_bit)
  then show ?thesis using odd_div_bit [of w 2] by (simp add: RWLOCK_WRLOCK_def)
qed

lemma unat_clear_low: "unat (w AND NOT (mask k)) = unat w div 2 ^ k * 2 ^ k" for w :: u64
proof -
  have "unat (w AND mask k) = take_bit k (unat w)"
    by (simp only: take_bit_eq_mask [symmetric] unsigned_take_bit_eq)
  then have "unat (w AND mask k) = unat w mod 2 ^ k" by (simp only: take_bit_eq_mod)
  moreover have "w = (w AND mask k) + (w AND NOT (mask k))"
    by (subst disjunctive_add) (auto simp: bit_simps intro: bit_eqI)
  then have "w AND NOT (mask k) = w - (w AND mask k)" by (metis add_diff_cancel_left')
  moreover have "w AND mask k \<le> w" by (simp add: word_le_nat_alt calculation(1))
  ultimately show ?thesis by (simp add: unat_minus_below minus_mod_eq_div_mult)
qed

lemma masks: "RWLOCK_WAIT OR RWLOCK_WRWANT = mask 2" "RWLOCK_MASK = mask 3"
  by (simp_all add: rw_consts mask_eq_exp_minus_1)

lemma unat_or_wait: "unat (w OR RWLOCK_WAIT) = unat w + (if even (unat w) then 1 else 0)" for w :: u64
proof (cases "bit w 0")
  case True
  then have "w OR 2 ^ 0 = w" by (auto simp: bit_simps bit_exp_iff intro!: bit_eqI)
  then show ?thesis using True odd_div_bit [of w 0] by (simp add: RWLOCK_WAIT_def)
next
  case False
  then have "w OR 2 ^ 0 = w + 2 ^ 0" by (subst disjunctive_add) (auto simp: bit_simps bit_exp_iff intro!: gr0I)
  moreover have ev: "even (unat w)" using False odd_div_bit [of w 0] by simp
  moreover have "unat w < 2 ^ LENGTH(64)" by (rule unsigned_less)
  with ev have "unat w + 1 < 2 ^ 64" by (cases "unat w + 1 = 2 ^ 64") auto
  ultimately show ?thesis using unat_plus_below [of w 1] by (simp add: RWLOCK_WAIT_def)
qed

lemma unat_or_both: "unat (w OR (RWLOCK_WAIT OR RWLOCK_WRWANT)) = unat w div 4 * 4 + 3" for w :: u64
proof -
  have "w OR mask 2 = (w AND NOT (mask 2)) + mask 2"
    by (subst disjunctive_add) (auto simp: bit_simps intro: bit_eqI)
  moreover have "unat (mask 2 :: u64) = 3" by (simp add: mask_eq_exp_minus_1)
  moreover have "unat (w AND NOT (mask 2)) = unat w div 4 * 4" using unat_clear_low [of w 2] by simp
  moreover have "unat w < 2 ^ LENGTH(64)" by (rule unsigned_less)
  then have "unat w div 4 < 2 ^ 62" by (intro less_mult_imp_div_less) simp
  then have "unat w div 4 * 4 + 3 < 2 ^ 64" by simp
  ultimately show ?thesis using unat_plus_below [of "w AND NOT (mask 2)" "mask 2"] by (simp only: masks) simp
qed

lemma both_test: "w AND (RWLOCK_WRLOCK OR RWLOCK_WAIT) = (RWLOCK_WRLOCK OR RWLOCK_WAIT)
    \<longleftrightarrow> odd (unat w) \<and> odd (unat w div 4)" for w :: u64
proof -
  have b: "bit (RWLOCK_WRLOCK OR RWLOCK_WAIT) k \<longleftrightarrow> k = 0 \<or> k = 2" for k
  proof -
    have c: "RWLOCK_WRLOCK = 2 ^ 2" "RWLOCK_WAIT = 2 ^ 0" by (simp_all add: rw_consts)
    have "bit RWLOCK_WRLOCK k \<longleftrightarrow> k = 2" unfolding c(1) bit_exp_iff by (auto simp: possible_bit_word)
    moreover have "bit RWLOCK_WAIT k \<longleftrightarrow> k = 0" unfolding c(2) bit_exp_iff by (auto simp: possible_bit_word)
    ultimately show ?thesis by (simp add: bit_or_iff disj_commute)
  qed
  have "w AND (RWLOCK_WRLOCK OR RWLOCK_WAIT) = (RWLOCK_WRLOCK OR RWLOCK_WAIT) \<longleftrightarrow> bit w 0 \<and> bit w 2"
    unfolding bit_eq_iff [of "w AND (RWLOCK_WRLOCK OR RWLOCK_WAIT)"] by (auto simp: bit_and_iff b possible_bit_word dest: spec [of _ 0] spec [of _ 2])
  then show ?thesis using odd_div_bit [of w 0] odd_div_bit [of w 2] by simp
qed

lemma unat_RW_PROC: "unat (RW_PROC w) = unat w div 8 * 8"
  using unat_clear_low [of w 3] by (simp add: RW_PROC_def masks)

section \<open>Invariant\<close>

fun holds_sh :: "rw_pc \<Rightarrow> bool" where
  "holds_sh (Holds m) = (m = Shared)"
| "holds_sh DownWake = True"
| "holds_sh (ExitFastCas m owner) = (m = Shared)"
| "holds_sh (ExitStart m) = (m = Shared)"
| "holds_sh (ExitLoad m w) = (m = Shared)"
| "holds_sh (ExitCas m w owner) = (m = Shared)"
| "holds_sh _ = False"

fun holds_ex :: "rw_pc \<Rightarrow> bool" where
  "holds_ex (Holds m) = (m = Exclusive)"
| "holds_ex (Retry op flags) = (op = RW_DOWNGRADE)"
| "holds_ex (Take op flags o1) = (op = RW_DOWNGRADE)"
| "holds_ex (ExitFastCas m owner) = (m = Exclusive)"
| "holds_ex (ExitStart m) = (m = Exclusive)"
| "holds_ex (ExitLoad m w) = (m = Exclusive)"
| "holds_ex (ExitCas m w owner) = (m = Exclusive)"
| "holds_ex _ = False"

text \<open>What a thread knows of the values it has loaded.\<close>

fun pc_ok :: "rw_pc \<Rightarrow> bool" where
  "pc_ok (EnterReadCas owner) = even (unat owner div 4)"
| "pc_ok (SetWait op flags o1) = (op \<noteq> RW_DOWNGRADE \<and> (if op = RW_READ then odd (unat o1 div 4) else o1 \<noteq> 0))"
| "pc_ok (Diag op flags o1) = (op \<noteq> RW_DOWNGRADE \<and> (if op = RW_READ then odd (unat o1 div 4) else o1 \<noteq> 0))"
| "pc_ok (Asleep op flags) = (op \<noteq> RW_DOWNGRADE)"
| "pc_ok (Take op flags o1) = ((op = RW_WRITE \<longrightarrow> o1 = 0) \<and> (op = RW_READ \<longrightarrow> even (unat o1 div 4)))"
| "pc_ok (ExitFastCas m owner) = even (unat owner)"
| "pc_ok (ExitLoad m w) = (w = (m = Exclusive))"
| "pc_ok (ExitCas m w owner) = (w = (m = Exclusive))"
| "pc_ok Panicked = False"
| "pc_ok _ = True"

text \<open>
  The lock word says who holds the lock: a reader count, or the address of the one writer with the
  write bit, and the waiting bits on top; those are clear when nobody holds the lock, and the bit
  for a wanted write lock comes with the waiting bit.
\<close>

definition word_ok :: "(nat \<Rightarrow> u64) \<Rightarrow> nat set \<Rightarrow> nat set \<Rightarrow> u64 \<Rightarrow> bool" where
  "word_ok proc R X owner \<longleftrightarrow> (\<exists>fl. (fl = 0 \<or> fl = 1 \<or> fl = 3) \<and>
     ((X = {} \<and> unat owner = 8 * card R + fl \<and> (R = {} \<longrightarrow> fl = 0))
      \<or> (\<exists>w. X = {w} \<and> R = {} \<and> unat owner = unat (proc w) + 4 + fl)))"

definition asleep :: "rw_state \<Rightarrow> nat \<Rightarrow> bool" where
  "asleep s t \<longleftrightarrow> (\<exists>op flags. rw_pcs s t = Asleep op flags) \<and> t \<in> rw_sleepers s"

definition readers :: "rw_state \<Rightarrow> nat set" where
  "readers s = {t. holds_sh (rw_pcs s t)}"

definition writers :: "rw_state \<Rightarrow> nat set" where
  "writers s = {t. holds_ex (rw_pcs s t)}"

text \<open>If a thread is asleep, the waiting bit is set or a wakeup is about to be made.\<close>

definition rw_inv :: "(nat \<Rightarrow> u64) \<Rightarrow> nat \<Rightarrow> rw_state \<Rightarrow> bool" where
  "rw_inv proc n s \<longleftrightarrow> (\<forall>t. n \<le> t \<longrightarrow> rw_pcs s t = Out) \<and> (\<forall>t. pc_ok (rw_pcs s t))
     \<and> word_ok proc (readers s) (writers s) (rwl_owner s)
     \<and> ((\<exists>t. asleep s t) \<longrightarrow> odd (unat (rwl_owner s)) \<or> (\<exists>t. rw_pcs s t = ExitWake))"

text \<open>Addresses are aligned, and larger than any reader count can be.\<close>

definition procs_ok :: "(nat \<Rightarrow> u64) \<Rightarrow> nat \<Rightarrow> bool" where
  "procs_ok proc n \<longleftrightarrow> (\<forall>t<n. 8 dvd unat (proc t) \<and> 8 * n + 8 \<le> unat (proc t)) \<and> inj_on proc {..<n} \<and> 8 * n + 8 < 2 ^ 64"

section \<open>Preservation\<close>

text \<open>The holders after thread \<open>t\<close> has moved to \<open>pc\<close>.\<close>

definition moved :: "(rw_pc \<Rightarrow> bool) \<Rightarrow> nat \<Rightarrow> rw_pc \<Rightarrow> nat set \<Rightarrow> nat set" where
  "moved h t pc A = (if h pc then insert t A else A - {t})"

lemma moved_same: "h pc = (t \<in> A) \<Longrightarrow> moved h t pc A = A"
  by (auto simp: moved_def)

lemma inv_update:
  assumes inv: "rw_inv proc n s" and t: "t < n" and pc: "pc_ok pc"
    and s': "s' = s\<lparr>rwl_owner := ow, rw_sleepers := Q, rw_pcs := (rw_pcs s)(t := pc)\<rparr>"
    and word: "word_ok proc (moved holds_sh t pc (readers s)) (moved holds_ex t pc (writers s)) ow"
    and wake: "(\<exists>u. asleep s u \<and> u \<noteq> t \<and> u \<in> Q) \<or> (\<exists>op flags. pc = Asleep op flags)
      \<Longrightarrow> odd (unat ow) \<or> pc = ExitWake \<or> (\<exists>u. u \<noteq> t \<and> rw_pcs s u = ExitWake)"
    and Q: "Q \<subseteq> insert t (rw_sleepers s)"
  shows "rw_inv proc n s'"
proof -
  have "readers s' = moved holds_sh t pc (readers s)" "writers s' = moved holds_ex t pc (writers s)"
    by (auto simp: s' readers_def writers_def moved_def)
  moreover have "odd (unat (rwl_owner s')) \<or> (\<exists>u. rw_pcs s' u = ExitWake)" if "asleep s' u" for u
  proof -
    from that Q have "(\<exists>u. asleep s u \<and> u \<noteq> t \<and> u \<in> Q) \<or> (\<exists>op flags. pc = Asleep op flags)"
      by (auto simp: asleep_def s' split: if_splits)
    from wake [OF this] show ?thesis by (auto simp: s')
  qed
  moreover have "pc_ok (rw_pcs s' u)" for u using inv pc by (simp add: rw_inv_def s')
  moreover have "rw_pcs s' u = Out" if "n \<le> u" for u using inv t that by (simp add: rw_inv_def s')
  moreover have "rwl_owner s' = ow" by (simp add: s')
  ultimately show ?thesis using word unfolding rw_inv_def by metis
qed

text \<open>A step that leaves the word and the holders alone.\<close>

lemma inv_local:
  assumes inv: "rw_inv proc n s" and t: "t < n" and pc: "pc_ok pc" "\<And>op flags. pc \<noteq> Asleep op flags"
    and same: "holds_sh pc = holds_sh (rw_pcs s t)" "holds_ex pc = holds_ex (rw_pcs s t)"
    and Q: "Q \<subseteq> insert t (rw_sleepers s)" and wake: "rw_pcs s t = ExitWake \<Longrightarrow> Q = {}"
  shows "rw_inv proc n (s\<lparr>rwl_owner := rwl_owner s, rw_sleepers := Q, rw_pcs := (rw_pcs s)(t := pc)\<rparr>)"
proof (rule inv_update [OF inv t pc(1) refl _ _ Q])
  show "word_ok proc (moved holds_sh t pc (readers s)) (moved holds_ex t pc (writers s)) (rwl_owner s)"
    using inv same by (simp add: rw_inv_def moved_same readers_def writers_def)
  show "odd (unat (rwl_owner s)) \<or> pc = ExitWake \<or> (\<exists>u. u \<noteq> t \<and> rw_pcs s u = ExitWake)"
    if "(\<exists>u. asleep s u \<and> u \<noteq> t \<and> u \<in> Q) \<or> (\<exists>op flags. pc = Asleep op flags)"
    using that inv pc(2) wake unfolding rw_inv_def by (metis empty_iff)
qed

lemma goto_eq:
  "goto t pc s = s\<lparr>rwl_owner := rwl_owner s, rw_sleepers := rw_sleepers s, rw_pcs := (rw_pcs s)(t := pc)\<rparr>"
  "goto t pc (s\<lparr>rwl_owner := ow\<rparr>) = s\<lparr>rwl_owner := ow, rw_sleepers := rw_sleepers s, rw_pcs := (rw_pcs s)(t := pc)\<rparr>"
  "goto t pc (s\<lparr>rw_sleepers := Q\<rparr>) = s\<lparr>rwl_owner := rwl_owner s, rw_sleepers := Q, rw_pcs := (rw_pcs s)(t := pc)\<rparr>"
  by (simp_all add: goto_def)

text \<open>Facts about the word in a state that satisfies the invariant.\<close>

lemma word_facts:
  assumes "word_ok proc R X ow" and "procs_ok proc n" and "X \<subseteq> {..<n}"
  shows "odd (unat ow div 4) \<longleftrightarrow> X \<noteq> {}" and "even (unat ow) \<Longrightarrow> 4 dvd unat ow"
proof -
  obtain fl where fl: "fl = 0 \<or> fl = 1 \<or> fl = (3::nat)" and
    c: "(X = {} \<and> unat ow = 8 * card R + fl \<and> (R = {} \<longrightarrow> fl = 0))
      \<or> (\<exists>w. X = {w} \<and> R = {} \<and> unat ow = unat (proc w) + 4 + fl)"
    using assms(1) by (auto simp: word_ok_def)
  obtain k b where k: "unat ow = 8 * k + 4 * b + fl" "b = (if X = {} then 0 else 1)"
  proof (cases "X = {}")
    case True
    with c show ?thesis by (intro that [of "card R" 0]) auto
  next
    case False
    with c obtain w where w: "X = {w}" "unat ow = unat (proc w) + 4 + fl" by auto
    with assms(2,3) have "8 dvd unat (proc w)" by (auto simp: procs_ok_def)
    with w show ?thesis by (intro that [of "unat (proc w) div 8" 1]) auto
  qed
  have "unat ow div 4 = 2 * k + b" using fl k(1) by auto
  then show "odd (unat ow div 4) \<longleftrightarrow> X \<noteq> {}" using k(2) by simp
  show "4 dvd unat ow" if "even (unat ow)" using that fl k(1) by auto
qed

lemma holders_bounded:
  assumes "rw_inv proc n s"
  shows "readers s \<subseteq> {..<n}" and "writers s \<subseteq> {..<n}" and "finite (readers s)" and "card (readers s) \<le> n"
proof -
  have out: "rw_pcs s t = Out" if "n \<le> t" for t using assms that by (simp add: rw_inv_def)
  have "holds_sh (rw_pcs s t) \<or> holds_ex (rw_pcs s t) \<Longrightarrow> t < n" for t
    using out [of t] by (cases "t < n") auto
  then show r: "readers s \<subseteq> {..<n}" and "writers s \<subseteq> {..<n}" by (auto simp: readers_def writers_def)
  from r show "finite (readers s)" by (rule finite_subset) simp
  from card_mono [OF _ r] show "card (readers s) \<le> n" by simp
qed

subsection \<open>How the word changes\<close>

lemma unat_add_8:
  assumes "unat w + 8 < 2 ^ 64"
  shows "unat (w + RWLOCK_READ_INCR) = unat w + 8"
  using assms unat_plus_below [of w 8] by (simp add: READ_INCR_8)

lemma unat_sub_8:
  assumes "8 \<le> unat w"
  shows "unat (w - RWLOCK_READ_INCR) = unat w - 8"
  using assms unat_minus_below [of 8 w] by (simp add: READ_INCR_8 word_le_nat_alt)

lemma proc_word:
  assumes "procs_ok proc n" and "t < n"
  shows "RW_PROC (proc t) = proc t" and "unat (proc t + 4) = unat (proc t) + 4"
    and "unat (proc t OR RWLOCK_WRLOCK) = unat (proc t) + 4"
proof -
  have d: "8 dvd unat (proc t)" using assms by (simp add: procs_ok_def)
  then show "RW_PROC (proc t) = proc t" by (simp add: word_unat_eq_iff unat_RW_PROC)
  have "unat (proc t) < 2 ^ LENGTH(64)" by (rule unsigned_less)
  with d have "unat (proc t) + 8 \<le> 2 ^ 64" by (auto elim!: dvdE)
  then show a: "unat (proc t + 4) = unat (proc t) + 4" using unat_plus_below [of "proc t" 4] by simp
  have "odd (unat (proc t) div 4) = False" using d by (auto elim!: dvdE)
  then have "\<not> bit (proc t) 2" using odd_div_bit [of "proc t" 2] by simp
  then have "\<not> bit (proc t) k \<or> \<not> bit (2 ^ 2 :: u64) k" for k unfolding bit_exp_iff by auto
  then have "proc t OR 2 ^ 2 = proc t + 2 ^ 2" by (rule disjunctive_add [symmetric])
  then show "unat (proc t OR RWLOCK_WRLOCK) = unat (proc t) + 4" using a by (simp add: RWLOCK_WRLOCK_def)
qed

text \<open>Each change of the word matches the change of the holders.\<close>

lemma word_read_in:
  assumes w: "word_ok proc R X ow" and "finite R" and "t \<notin> R" and "X = {}" and "8 * card R + 12 < 2 ^ 64"
  shows "word_ok proc (insert t R) {} (ow + RWLOCK_READ_INCR)" and "odd (unat (ow + RWLOCK_READ_INCR)) = odd (unat ow)"
proof -
  obtain fl where fl: "fl = 0 \<or> fl = 1 \<or> fl = 3" "unat ow = 8 * card R + fl" using w assms(4) by (auto simp: word_ok_def)
  then have "unat (ow + RWLOCK_READ_INCR) = unat ow + 8" using assms(5) by (intro unat_add_8) auto
  with fl assms(2,3) show "word_ok proc (insert t R) {} (ow + RWLOCK_READ_INCR)"
    and "odd (unat (ow + RWLOCK_READ_INCR)) = odd (unat ow)"
    by (auto simp: word_ok_def)
qed

lemma word_read_out:
  assumes w: "word_ok proc R X ow" and "finite R" and "t \<in> R"
  shows "word_ok proc (R - {t}) X ((ow - RWLOCK_READ_INCR) AND NOT (RWLOCK_WAIT OR RWLOCK_WRWANT))"
    and "even (unat ow) \<Longrightarrow> word_ok proc (R - {t}) X (ow - RWLOCK_READ_INCR)"
    and "odd (unat (ow - RWLOCK_READ_INCR)) = odd (unat ow)" and "X = {}"
proof -
  obtain fl where fl: "fl = 0 \<or> fl = 1 \<or> fl = 3" "unat ow = 8 * card R + fl" and X: "X = {}"
    using w assms(3) by (auto simp: word_ok_def)
  have c: "0 < card R" "card (R - {t}) = card R - 1" using assms(2,3) by (auto simp: card_gt_0_iff)
  then have u: "unat (ow - RWLOCK_READ_INCR) = 8 * card (R - {t}) + fl" using fl by (subst unat_sub_8) auto
  have "unat ((ow - RWLOCK_READ_INCR) AND NOT (RWLOCK_WAIT OR RWLOCK_WRWANT)) = 8 * card (R - {t})"
    using unat_clear_low [of "ow - RWLOCK_READ_INCR" 2] u fl by (auto simp: masks)
  then show "word_ok proc (R - {t}) X ((ow - RWLOCK_READ_INCR) AND NOT (RWLOCK_WAIT OR RWLOCK_WRWANT))"
    using X by (auto simp: word_ok_def)
  show "word_ok proc (R - {t}) X (ow - RWLOCK_READ_INCR)" if "even (unat ow)"
    using that u fl X by (auto simp: word_ok_def)
  show "odd (unat (ow - RWLOCK_READ_INCR)) = odd (unat ow)" using u fl c by auto
  show "X = {}" by (rule X)
qed

lemma word_want:
  assumes w: "word_ok proc R X ow" and held: "R \<noteq> {} \<or> X \<noteq> {}" and X: "X \<subseteq> {..<n}" "procs_ok proc n"
    and op: "op \<noteq> RW_DOWNGRADE"
  shows "word_ok proc R X (ow OR op_wait_set (rw_ops op))" and "odd (unat (ow OR op_wait_set (rw_ops op)))"
proof -
  obtain fl where fl: "fl = 0 \<or> fl = 1 \<or> fl = (3::nat)" and
    c: "(X = {} \<and> unat ow = 8 * card R + fl \<and> (R = {} \<longrightarrow> fl = 0))
      \<or> (\<exists>w. X = {w} \<and> R = {} \<and> unat ow = unat (proc w) + 4 + fl)"
    using w by (auto simp: word_ok_def)
  have ors: "unat (ow OR op_wait_set (rw_ops op)) = 4 * base + (if op = RW_WRITE then 3 else if fl = 0 then 1 else fl)"
    if "unat ow = 4 * base + fl" for base
  proof (cases op)
    case RW_WRITE
    then show ?thesis using that fl unat_or_both [of ow] by auto
  next
    case RW_READ
    then show ?thesis using that fl unat_or_wait [of ow] by auto
  qed (use op in simp)
  define fl' where "fl' = (if op = RW_WRITE then 3 else if fl = 0 then 1 else fl)"
  have fl': "fl' = 1 \<or> fl' = 3" using fl by (auto simp: fl'_def)
  have "word_ok proc R X (ow OR op_wait_set (rw_ops op)) \<and> odd (unat (ow OR op_wait_set (rw_ops op)))"
  proof (cases "X = {}")
    case True
    with c have "unat ow = 4 * (2 * card R) + fl" by simp
    from ors [OF this] True held fl' show ?thesis by (auto simp: word_ok_def fl'_def [symmetric])
  next
    case False
    with c obtain w where w: "X = {w}" "R = {}" "unat ow = unat (proc w) + 4 + fl" by auto
    with X obtain p where p: "unat (proc w) = 8 * p" by (auto simp: procs_ok_def elim!: dvdE)
    with w have "unat ow = 4 * (2 * p + 1) + fl" by simp
    from ors [OF this] w p fl' show ?thesis by (auto simp: word_ok_def fl'_def [symmetric])
  qed
  then show "word_ok proc R X (ow OR op_wait_set (rw_ops op))" and "odd (unat (ow OR op_wait_set (rw_ops op)))"
    by blast+
qed

lemma word_downgrade:
  assumes w: "word_ok proc {} {t} ow" and t: "t < n" "procs_ok proc n"
  defines "ow' \<equiv> ow + (op_inc (rw_ops RW_DOWNGRADE) + RW_PROC (proc t) * op_proc_mult (rw_ops RW_DOWNGRADE))"
  shows "word_ok proc {t} {} ow'" and "odd (unat ow') = odd (unat ow)"
proof -
  obtain fl where fl: "fl = 0 \<or> fl = 1 \<or> fl = (3::nat)" "unat ow = unat (proc t) + 4 + fl"
    using w by (auto simp: word_ok_def)
  obtain p where p: "unat (proc t) = 8 * p" using t by (auto simp: procs_ok_def elim!: dvdE)
  have "ow' = ow - (proc t - 4)"
    by (simp add: ow'_def proc_word(1) [OF t(2,1)] READ_INCR_8 RWLOCK_WRLOCK_def)
  moreover have p4: "unat (proc t - 4) = unat (proc t) - 4"
    using t unat_minus_below [of 4 "proc t"] by (auto simp: procs_ok_def word_le_nat_alt)
  moreover have "proc t - 4 \<le> ow" using p4 fl by (simp add: word_le_nat_alt)
  ultimately have "unat ow' = unat ow - (unat (proc t) - 4)" by (simp add: unat_minus_below)
  moreover have "4 \<le> unat (proc t)" using t by (auto simp: procs_ok_def)
  ultimately have "unat ow' = 8 + fl" using fl by simp
  with fl p show "word_ok proc {t} {} ow'" and "odd (unat ow') = odd (unat ow)" by (auto simp: word_ok_def)
qed

subsection \<open>Every step keeps the invariant\<close>

lemma word_write_in:
  assumes w: "word_ok proc R X 0" and "finite R" and t: "t < n" "procs_ok proc n"
  shows "X = {}" and "R = {}" and "word_ok proc {} {t} (RW_PROC (proc t) OR RWLOCK_WRLOCK)"
    and "word_ok proc {} {t} (0 + (op_inc (rw_ops RW_WRITE) + RW_PROC (proc t) * op_proc_mult (rw_ops RW_WRITE)))"
proof -
  have p: "unat (proc t + 4) = unat (proc t) + 4" "unat (proc t OR RWLOCK_WRLOCK) = unat (proc t) + 4"
    "RW_PROC (proc t) = proc t"
    using proc_word [OF t(2,1)] by simp_all
  show "X = {}" and "R = {}" using w assms(2) by (auto simp: word_ok_def)
  show "word_ok proc {} {t} (RW_PROC (proc t) OR RWLOCK_WRLOCK)" using p by (simp add: word_ok_def)
  show "word_ok proc {} {t} (0 + (op_inc (rw_ops RW_WRITE) + RW_PROC (proc t) * op_proc_mult (rw_ops RW_WRITE)))"
    using p by (simp add: word_ok_def RWLOCK_WRLOCK_def add.commute [of 4])
qed

lemma word_write_out:
  assumes "word_ok proc R X ow" and "t \<in> X"
  shows "X = {t}" and "R = {}" and "word_ok proc {} {} 0"
  using assms by (auto simp: word_ok_def)

text \<open>A step that changes the word, and a step that does not.\<close>

lemma inv_cas:
  assumes inv: "rw_inv proc n s" and t: "t < n" and pc: "pc_ok pc" and old: "rw_pcs s t \<noteq> ExitWake"
    and word: "word_ok proc (moved holds_sh t pc (readers s)) (moved holds_ex t pc (writers s)) ow"
    and keep: "odd (unat (rwl_owner s)) \<Longrightarrow> odd (unat ow) \<or> pc = ExitWake"
    and sleep: "\<And>op flags. pc = Asleep op flags \<Longrightarrow> odd (unat ow)"
  shows "rw_inv proc n (goto t pc (s\<lparr>rwl_owner := ow\<rparr>))"
proof (rule inv_update [OF inv t pc _ word])
  show "goto t pc (s\<lparr>rwl_owner := ow\<rparr>) =
      s\<lparr>rwl_owner := ow, rw_sleepers := rw_sleepers s, rw_pcs := (rw_pcs s)(t := pc)\<rparr>"
    by (simp add: goto_def)
  assume "(\<exists>u. asleep s u \<and> u \<noteq> t \<and> u \<in> rw_sleepers s) \<or> (\<exists>op flags. pc = Asleep op flags)"
  then show "odd (unat ow) \<or> pc = ExitWake \<or> (\<exists>u. u \<noteq> t \<and> rw_pcs s u = ExitWake)"
  proof
    assume "\<exists>u. asleep s u \<and> u \<noteq> t \<and> u \<in> rw_sleepers s"
    then have "odd (unat (rwl_owner s)) \<or> (\<exists>u. rw_pcs s u = ExitWake)" using inv by (auto simp: rw_inv_def)
    with keep old show ?thesis by metis
  qed (use sleep in blast)
qed auto

lemma inv_goto:
  assumes "rw_inv proc n s" and "t < n" and "pc_ok pc" and "\<And>op flags. pc \<noteq> Asleep op flags"
    and "holds_sh pc = holds_sh (rw_pcs s t)" "holds_ex pc = holds_ex (rw_pcs s t)"
    and "Q \<subseteq> insert t (rw_sleepers s)" and "rw_pcs s t = ExitWake \<Longrightarrow> Q = {}"
  shows "rw_inv proc n (goto t pc (s\<lparr>rw_sleepers := Q\<rparr>))"
  using inv_local [OF assms] by (simp add: goto_def)

lemma inv_goto_same:
  assumes "rw_inv proc n s" and "t < n" and "pc_ok pc" and "\<And>op flags. pc \<noteq> Asleep op flags"
    and "holds_sh pc = holds_sh (rw_pcs s t)" "holds_ex pc = holds_ex (rw_pcs s t)" and "rw_pcs s t \<noteq> ExitWake"
  shows "rw_inv proc n (goto t pc s)"
  using inv_goto [OF assms(1-6), of "rw_sleepers s"] assms(7) by auto

lemma inv_word: "rw_inv proc n s \<Longrightarrow> word_ok proc (readers s) (writers s) (rwl_owner s)"
  by (simp add: rw_inv_def)

lemma inv_pc: "rw_inv proc n s \<Longrightarrow> pc_ok (rw_pcs s t)"
  by (simp add: rw_inv_def)

lemma read_acquired:
  assumes inv: "rw_inv proc n s" and procs: "procs_ok proc n" and t: "t < n"
    and "\<not> holds_sh (rw_pcs s t)" "rw_pcs s t \<noteq> ExitWake" and even: "even (unat (rwl_owner s) div 4)"
  shows "rw_inv proc n (goto t (Holds Shared) (s\<lparr>rwl_owner := rwl_owner s + RWLOCK_READ_INCR\<rparr>))"
proof -
  have X: "writers s = {}" using word_facts(1) [OF inv_word [OF inv] procs holders_bounded(2) [OF inv]] even by simp
  have "t \<notin> readers s" using assms(4) by (simp add: readers_def)
  moreover have "8 * card (readers s) + 12 < 2 ^ 64"
    using holders_bounded(4) [OF inv] procs t by (auto simp: procs_ok_def dest!: spec [of _ t])
  ultimately show ?thesis
    using word_read_in [OF inv_word [OF inv] holders_bounded(3) [OF inv] _ X, of t] X assms(5)
    by (intro inv_cas [OF inv t]) (auto simp: moved_def)
qed

lemma write_acquired:
  assumes inv: "rw_inv proc n s" and procs: "procs_ok proc n" and t: "t < n"
    and "rw_pcs s t \<noteq> ExitWake" and zero: "rwl_owner s = 0"
  shows "rw_inv proc n (goto t (Holds Exclusive) (s\<lparr>rwl_owner := RW_PROC (proc t) OR RWLOCK_WRLOCK\<rparr>))"
    and "rw_inv proc n (goto t (Holds Exclusive)
      (s\<lparr>rwl_owner := 0 + (op_inc (rw_ops RW_WRITE) + RW_PROC (proc t) * op_proc_mult (rw_ops RW_WRITE))\<rparr>))"
proof -
  have w0: "word_ok proc (readers s) (writers s) 0" using inv_word [OF inv] zero by simp
  note f = word_write_in [OF w0 holders_bounded(3) [OF inv] t procs]
  show "rw_inv proc n (goto t (Holds Exclusive) (s\<lparr>rwl_owner := RW_PROC (proc t) OR RWLOCK_WRLOCK\<rparr>))"
    by (rule inv_cas [OF inv t]) (use f zero assms(4) in \<open>auto simp: moved_def\<close>)
  show "rw_inv proc n (goto t (Holds Exclusive)
      (s\<lparr>rwl_owner := 0 + (op_inc (rw_ops RW_WRITE) + RW_PROC (proc t) * op_proc_mult (rw_ops RW_WRITE))\<rparr>))"
    by (rule inv_cas [OF inv t]) (use f zero assms(4) in \<open>auto simp: moved_def\<close>)
qed

lemma step_enter:
  assumes inv: "rw_inv proc n s" and procs: "procs_ok proc n" and t: "t < n"
    and pc: "rw_pcs s t = Out" and nx: "rw_next diag proc t ch s = Some s'"
  shows "rw_inv proc n s'"
  using nx pc write_acquired(1) [OF inv procs t]
  by (cases ch) (auto simp: rw_next_def rw_enter_read_def rw_enter_write_def rw_cas_def Let_def wrlock_test
      intro!: inv_goto_same [OF inv t] split: if_splits)

lemma step_holds:
  assumes inv: "rw_inv proc n s" and t: "t < n"
    and pc: "rw_pcs s t = Holds m" and nx: "rw_next diag proc t ch s = Some s'"
  shows "rw_inv proc n s'"
  using nx pc
  by (cases ch; cases m) (auto simp: rw_next_def rw_exit_fast_def Let_def wait_test
      intro!: inv_goto_same [OF inv t] split: if_splits)

lemma step_take:
  assumes inv: "rw_inv proc n s" and procs: "procs_ok proc n" and t: "t < n"
    and pc: "rw_pcs s t = Take op flags o1"
  shows "rw_inv proc n (rw_enter_take proc t op flags o1 s)"
proof (cases "rwl_owner s = o1")
  case False
  then show ?thesis
    using pc by (auto simp: rw_enter_take_def Let_def rw_cas_def intro!: inv_goto_same [OF inv t])
next
  case True
  have ok: "pc_ok (Take op flags o1)" using inv_pc [OF inv, of t] pc by simp
  note both = both_test [of o1]
  show ?thesis
  proof (cases op)
    case RW_WRITE
    with ok True have z: "rwl_owner s = 0" "o1 = 0" by simp_all
    with write_acquired(2) [OF inv procs t] pc RW_WRITE both show ?thesis
      by (simp add: rw_enter_take_def Let_def rw_cas_def held_after_def)
  next
    case RW_READ
    with ok True have "even (unat (rwl_owner s) div 4)" by simp
    with read_acquired [OF inv procs t] pc RW_READ both True show ?thesis
      by (simp add: rw_enter_take_def Let_def rw_cas_def held_after_def)
  next
    case RW_DOWNGRADE
    have "t \<in> writers s" using pc RW_DOWNGRADE by (simp add: writers_def)
    note f = word_write_out [OF inv_word [OF inv] this]
    have "word_ok proc {} {t} (rwl_owner s)" using inv_word [OF inv] f by simp
    note d = word_downgrade [OF this t procs]
    have "rw_inv proc n (goto t p (s\<lparr>rwl_owner := o1 + (op_inc (rw_ops RW_DOWNGRADE)
        + RW_PROC (proc t) * op_proc_mult (rw_ops RW_DOWNGRADE))\<rparr>))" if "p = DownWake \<or> p = Holds Shared" for p
      by (rule inv_cas [OF inv t]) (use that pc f d True in \<open>auto simp: moved_def\<close>)
    then show ?thesis using True RW_DOWNGRADE
      by (simp add: rw_enter_take_def Let_def rw_cas_def held_after_def)
  qed
qed

lemma step_setwait:
  assumes inv: "rw_inv proc n s" and procs: "procs_ok proc n" and t: "t < n"
    and pc: "rw_pcs s t = SetWait op flags o1"
  shows "rw_inv proc n (rw_enter_wait t op flags o1 sig s)"
proof -
  have ok: "pc_ok (SetWait op flags o1)" using inv_pc [OF inv, of t] pc by simp
  then have op: "op \<noteq> RW_DOWNGRADE" by simp
  show ?thesis
  proof (cases "rwl_owner s = o1")
    case False
    then show ?thesis
      using pc op by (auto simp: rw_enter_wait_def rw_cas_def rw_after_sleep_def Let_def intro!: inv_goto [OF inv t])
  next
    case True
    have "readers s \<noteq> {} \<or> writers s \<noteq> {}"
    proof (rule ccontr)
      assume "\<not> ?thesis"
      then have "unat (rwl_owner s) = 0" using inv_word [OF inv] by (auto simp: word_ok_def)
      with ok True show False by (auto simp: unat_eq_0 split: if_splits)
    qed
    note w = word_want [OF inv_word [OF inv] this holders_bounded(2) [OF inv] procs op]
    have "rw_inv proc n (goto t (Asleep op flags) (s\<lparr>rwl_owner := rwl_owner s OR op_wait_set (rw_ops op)\<rparr>))"
      by (rule inv_cas [OF inv t]) (use w pc op in \<open>auto simp: moved_def readers_def writers_def\<close>)
    then show ?thesis using True by (simp add: rw_enter_wait_def rw_cas_def)
  qed
qed

lemma step_exit_cas:
  assumes inv: "rw_inv proc n s" and t: "t < n" and pc: "rw_pcs s t = ExitCas m w owner"
  shows "rw_inv proc n (rw_exit_cas t m w owner s)"
proof (cases "rwl_owner s = owner")
  case False
  have "pc_ok (ExitCas m w owner)" using inv_pc [OF inv, of t] pc by simp
  with False show ?thesis
    using pc by (cases m) (auto simp: rw_exit_cas_def Let_def rw_cas_def intro!: inv_goto_same [OF inv t])
next
  case True
  have w: "w = (m = Exclusive)" using inv_pc [OF inv, of t] pc by simp
  define new where "new = (if w then 0 else (owner - RWLOCK_READ_INCR) AND NOT (RWLOCK_WAIT OR RWLOCK_WRWANT))"
  have word: "word_ok proc (readers s - {t}) (writers s - {t}) new"
  proof (cases m)
    case Shared
    then have "t \<in> readers s" using pc by (simp add: readers_def)
    note r = word_read_out [OF inv_word [OF inv] holders_bounded(3) [OF inv] this]
    from r(1,4) True Shared w show ?thesis by (simp add: new_def)
  next
    case Exclusive
    then have "t \<in> writers s" using pc by (simp add: writers_def)
    from word_write_out [OF inv_word [OF inv] this] Exclusive w show ?thesis by (simp add: new_def)
  qed
  have step: "rw_inv proc n (goto t p (s\<lparr>rwl_owner := new\<rparr>))"
    if "p = ExitWake \<or> p = Out \<and> even (unat owner)" for p
    by (rule inv_cas [OF inv t]) (use that pc word True in \<open>auto simp: moved_def\<close>)
  show ?thesis
  proof (cases "odd (unat owner)")
    case odd: True
    then show ?thesis using step [of ExitWake] True
      by (simp add: rw_exit_cas_def Let_def rw_cas_def new_def [symmetric] wait_test)
  next
    case False
    then show ?thesis using step [of Out] True
      by (simp add: rw_exit_cas_def Let_def rw_cas_def new_def [symmetric] wait_test)
  qed
qed

lemma not_self:
  assumes inv: "rw_inv proc n s" and procs: "procs_ok proc n" and t: "t < n" "t \<notin> writers s"
  shows "RW_PROC (proc t) \<noteq> RW_PROC (rwl_owner s)"
proof
  assume eq: "RW_PROC (proc t) = RW_PROC (rwl_owner s)"
  then have u: "unat (rwl_owner s) div 8 * 8 = unat (proc t)"
    using procs t proc_word(1) [OF procs t(1)] by (metis unat_RW_PROC)
  obtain fl where fl: "fl = 0 \<or> fl = 1 \<or> fl = (3::nat)" and
    c: "(writers s = {} \<and> unat (rwl_owner s) = 8 * card (readers s) + fl)
      \<or> (\<exists>w. writers s = {w} \<and> unat (rwl_owner s) = unat (proc w) + 4 + fl)"
    using inv_word [OF inv] by (auto simp: word_ok_def)
  have big: "8 * n + 8 \<le> unat (proc t)" using procs t by (simp add: procs_ok_def)
  from c show False
  proof (elim disjE exE conjE)
    assume "unat (rwl_owner s) = 8 * card (readers s) + fl"
    with fl u have "unat (proc t) = 8 * card (readers s)" by auto
    with big holders_bounded(4) [OF inv] show False by simp
  next
    fix w assume w: "writers s = {w}" "unat (rwl_owner s) = unat (proc w) + 4 + fl"
    then have "w < n" using holders_bounded(2) [OF inv] by simp
    moreover from this obtain p where p: "unat (proc w) = 8 * p" using procs by (auto simp: procs_ok_def elim!: dvdE)
    ultimately have "unat (proc t) = unat (proc w)" using u w fl by auto
    then have "t = w" using procs t(1) \<open>w < n\<close> by (auto simp: procs_ok_def inj_on_def word_unat_eq_iff)
    with w t(2) show False by simp
  qed
qed

lemma step_load:
  assumes inv: "rw_inv proc n s" and t: "t < n" and pc: "rw_pcs s t = Retry op flags"
  shows "rw_inv proc n (rw_enter_load t op flags s)"
proof -
  have "word_ok proc (readers s) (writers s) (rwl_owner s)" by (rule inv_word [OF inv])
  then show ?thesis using pc
    by (cases op) (auto simp: rw_enter_load_def Let_def wrlock_test intro!: inv_goto_same [OF inv t])
qed

lemma step_setup:
  assumes inv: "rw_inv proc n s" and procs: "procs_ok proc n" and t: "t < n" and pc: "rw_pcs s t = Diag op flags o1"
  shows "rw_inv proc n (rw_enter_setup diag proc t op flags o1 s)"
proof -
  have ok: "pc_ok (Diag op flags o1)" using inv_pc [OF inv, of t] pc by simp
  have "t \<notin> writers s" using pc by (simp add: writers_def)
  then have "\<not> rw_enter_diag (proc t) op (rwl_owner s)"
    using not_self [OF inv procs t] ok by (cases op) (auto simp: rw_enter_diag_def)
  then show ?thesis using pc ok
    by (auto simp: rw_enter_setup_def intro!: inv_goto_same [OF inv t] inv_goto [OF inv t] split: if_splits)
qed

lemma step_exit_fast:
  assumes inv: "rw_inv proc n s" and procs: "procs_ok proc n" and t: "t < n"
    and pc: "rw_pcs s t = ExitFastCas m (rwl_owner s)"
  shows "rw_inv proc n (goto t Out (s\<lparr>rwl_owner := if m = Shared then rwl_owner s - RWLOCK_READ_INCR else 0\<rparr>))"
proof -
  have ev: "even (unat (rwl_owner s))" using inv_pc [OF inv, of t] pc by simp
  have "word_ok proc (readers s - {t}) (writers s - {t}) (if m = Shared then rwl_owner s - RWLOCK_READ_INCR else 0)"
  proof (cases m)
    case Shared
    then have "t \<in> readers s" using pc by (simp add: readers_def)
    from word_read_out(2,4) [OF inv_word [OF inv] holders_bounded(3) [OF inv] this] ev Shared show ?thesis by simp
  next
    case Exclusive
    then have "t \<in> writers s" using pc by (simp add: writers_def)
    from word_write_out [OF inv_word [OF inv] this] Exclusive show ?thesis by simp
  qed
  then show ?thesis using pc ev by (intro inv_cas [OF inv t]) (simp_all add: moved_def)
qed

lemma step_exit_start:
  assumes inv: "rw_inv proc n s" and procs: "procs_ok proc n" and t: "t < n" and pc: "rw_pcs s t = ExitStart m"
  shows "rwl_owner s AND RWLOCK_WRLOCK \<noteq> 0 \<longleftrightarrow> m = Exclusive"
proof -
  have "writers s \<noteq> {} \<longleftrightarrow> m = Exclusive"
  proof (cases m)
    case Shared
    then have "t \<in> readers s" using pc by (simp add: readers_def)
    from word_read_out(4) [OF inv_word [OF inv] holders_bounded(3) [OF inv] this] Shared show ?thesis by simp
  next
    case Exclusive
    then show ?thesis using pc by (auto simp: writers_def intro!: exI [of _ t])
  qed
  then show ?thesis
    using word_facts(1) [OF inv_word [OF inv] procs holders_bounded(2) [OF inv]] by (simp only: wrlock_test)
qed

lemma step_run:
  assumes inv: "rw_inv proc n s" and procs: "procs_ok proc n" and t: "t < n"
    and nx: "rw_next diag proc t ch s = Some s'"
    and pc: "rw_pcs s t \<noteq> Out" "\<And>m. rw_pcs s t \<noteq> Holds m"
  shows "rw_inv proc n s'"
proof (cases "rw_pcs s t")
  case (EnterReadCas owner)
  have "pc_ok (EnterReadCas owner)" using inv_pc [OF inv, of t] EnterReadCas by simp
  with EnterReadCas nx show ?thesis using read_acquired [OF inv procs t]
    by (auto simp: rw_next_def rw_cas_def intro!: inv_goto_same [OF inv t] split: if_splits)
next
  case (Asleep op flags)
  have "pc_ok (Asleep op flags)" using inv_pc [OF inv, of t] Asleep by simp
  with Asleep nx show ?thesis
    by (auto simp: rw_next_def rw_after_sleep_def Let_def intro!: inv_goto [OF inv t] inv_goto_same [OF inv t] split: if_splits)
next
  case (ExitFastCas m owner)
  with nx show ?thesis using step_exit_fast [OF inv procs t, of m]
    by (cases m) (auto simp: rw_next_def rw_cas_def intro!: inv_goto_same [OF inv t] split: if_splits)
next
  case (ExitStart m)
  with nx show ?thesis using step_exit_start [OF inv procs t ExitStart]
    by (cases m) (auto simp: rw_next_def intro!: inv_goto_same [OF inv t])
next
  case (ExitLoad m w)
  have "pc_ok (ExitLoad m w)" using inv_pc [OF inv, of t] ExitLoad by simp
  with ExitLoad nx show ?thesis by (cases m) (auto simp: rw_next_def intro!: inv_goto_same [OF inv t])
next
  case (Retry op flags)
  with nx step_load [OF inv t] show ?thesis by (auto simp: rw_next_def)
next
  case (Diag op flags o1)
  with nx step_setup [OF inv procs t] show ?thesis by (auto simp: rw_next_def)
next
  case (SetWait op flags o1)
  with nx step_setwait [OF inv procs t] show ?thesis by (auto simp: rw_next_def)
next
  case (Take op flags o1)
  with nx step_take [OF inv procs t] show ?thesis by (auto simp: rw_next_def)
next
  case (ExitCas m w owner)
  with nx step_exit_cas [OF inv t] show ?thesis by (auto simp: rw_next_def)
qed (use nx pc in \<open>auto simp: rw_next_def wakeup_def intro!: inv_goto [OF inv t]\<close>)

lemma rw_next_inv:
  assumes inv: "rw_inv proc n s" and procs: "procs_ok proc n" and t: "t < n"
    and nx: "rw_next diag proc t ch s = Some s'"
  shows "rw_inv proc n s'"
proof (cases "rw_pcs s t = Out \<or> (\<exists>m. rw_pcs s t = Holds m)")
  case True
  with step_enter [OF inv procs t _ nx] step_holds [OF inv t _ nx] show ?thesis by blast
next
  case False
  with step_run [OF inv procs t nx] show ?thesis by blast
qed

lemma rw_reach_inv:
  assumes "procs_ok proc n" and "rw_reach diag proc n s"
  shows "rw_inv proc n s"
  using assms(2)
proof induction
  case start
  show ?case by (simp add: rw_inv_def rw_init_def readers_def writers_def word_ok_def asleep_def)
next
  case (step s t ch s')
  then show ?case using rw_next_inv [OF _ assms(1)] by blast
qed

section \<open>The lock as a specification\<close>

text \<open>
  What a read/write lock promises: a set of readers and a set of writers; a thread becomes a reader when
  nobody writes, a writer when nobody holds the lock, a writer may become a reader at once, and
  holders leave.
\<close>

inductive rw_spec_step :: "nat \<Rightarrow> nat set \<times> nat set \<Rightarrow> nat set \<times> nat set \<Rightarrow> bool" for t where
  read_in: "t \<notin> R \<Longrightarrow> rw_spec_step t (R, {}) (insert t R, {})"
| write_in: "rw_spec_step t ({}, {}) ({}, {t})"
| downgrade: "rw_spec_step t ({}, {t}) ({t}, {})"
| read_out: "t \<in> R \<Longrightarrow> rw_spec_step t (R, {}) (R - {t}, {})"
| write_out: "rw_spec_step t ({}, {t}) ({}, {})"

definition rw_holders :: "rw_state \<Rightarrow> nat set \<times> nat set" where
  "rw_holders s = (readers s, writers s)"

lemma rw_next_only_t:
  assumes "rw_next diag proc t ch s = Some s'" and "u \<noteq> t"
  shows "rw_pcs s' u = rw_pcs s u"
  using assms
  by (auto simp: rw_next_def rw_enter_read_def rw_enter_write_def rw_exit_fast_def rw_enter_load_def
      rw_enter_setup_def rw_enter_wait_def rw_after_sleep_def rw_enter_take_def rw_exit_cas_def rw_cas_def
      goto_def wakeup_def Let_def split: rw_pc.splits rw_choice.splits if_splits)

lemma no_upgrade:
  assumes "rw_next diag proc t ch s = Some s'" and "holds_sh (rw_pcs s t)"
  shows "\<not> holds_ex (rw_pcs s' t)"
  using assms
  by (auto simp: rw_next_def rw_exit_fast_def rw_exit_cas_def rw_cas_def
      goto_def wakeup_def Let_def split: rw_pc.splits rw_choice.splits if_splits)

lemma moved_by_t:
  assumes "rw_next diag proc t ch s = Some s'"
  shows "readers s' - {t} = readers s - {t}" and "writers s' - {t} = writers s - {t}"
  using rw_next_only_t [OF assms] by (auto simp: readers_def writers_def)

lemma word_exclusive:
  assumes "word_ok proc R X ow"
  shows "X = {} \<or> (\<exists>w. X = {w} \<and> R = {})"
  using assms by (auto simp: word_ok_def)

lemma spec_step_or_same:
  assumes a: "X = {} \<or> (\<exists>w. X = {w} \<and> R = {})" and b: "X' = {} \<or> (\<exists>w. X' = {w} \<and> R' = {})"
    and R: "R' - {t} = R - {t}" and X: "X' - {t} = X - {t}" and up: "\<not> (t \<in> R \<and> t \<in> X')"
  shows "(R', X') = (R, X) \<or> rw_spec_step t (R, X) (R', X')"
proof -
  consider (none) "t \<notin> R" "t \<notin> X" | (rd) "t \<in> R" | (wr) "t \<in> X" by blast
  then show ?thesis
  proof cases
    case none
    then have R': "R' = R \<or> R' = insert t R" and X': "X' = X \<or> X' = insert t X" using R X by auto
    with none a b show ?thesis by (auto intro: rw_spec_step.intros)
  next
    case rd
    with a up X have "X = {}" "X' = {}" by auto
    moreover from rd R have "R' = R \<or> R' = R - {t}" by auto
    ultimately show ?thesis using rd by (auto intro: rw_spec_step.intros)
  next
    case wr
    with a have "X = {t}" "R = {}" by auto
    moreover with R X have "R' = {} \<or> R' = {t}" "X' = {} \<or> X' = {t}" by auto
    ultimately show ?thesis using b by (auto intro: rw_spec_step.intros)
  qed
qed

section \<open>Properties\<close>

text \<open>
  C11. Mutual exclusion under every interleaving: in any state that \<open>n\<close> threads reach through
  the fast paths, \<^verbatim>\<open>rw_enter\<close> (with any flags, sleeping, signalled or not), downgrades and
  \<^verbatim>\<open>rw_exit\<close>, a thread that holds the lock exclusively is the only one that holds it.
\<close>

theorem rw_mutual_exclusion:
  assumes "procs_ok proc n" and "rw_reach diag proc n s"
    and "holds_ex (rw_pcs s t)" and "holds_ex (rw_pcs s u) \<or> holds_sh (rw_pcs s u)"
  shows "u = t"
proof -
  have "writers s = {} \<or> (\<exists>w. writers s = {w} \<and> readers s = {})"
    by (rule word_exclusive [OF inv_word [OF rw_reach_inv [OF assms(1,2)]]])
  moreover have "t \<in> writers s" "u \<in> writers s \<or> u \<in> readers s" using assms(3,4) by (auto simp: readers_def writers_def)
  ultimately show ?thesis by auto
qed

text \<open>A process table for the witnesses.\<close>

definition some_procs :: "nat \<Rightarrow> u64" where
  "some_procs t = word_of_nat (0x1000 + 0x100 * t)"

lemma some_procs_ok: "procs_ok some_procs 2"
proof -
  have "some_procs 0 = 0x1000" "some_procs (Suc 0) = 0x1100" by (simp_all add: some_procs_def)
  moreover have "{..<2} = {0, Suc 0}" by auto
  ultimately show ?thesis by (simp add: procs_ok_def less_2_cases_iff)
qed

text \<open>Thread 0 writes while thread 1 goes to sleep.\<close>

definition run :: "(nat \<times> rw_choice) list \<Rightarrow> rw_state \<Rightarrow> rw_state option" where
  "run sched s = fold (\<lambda>(t, ch) r. Option.bind r (rw_next True some_procs t ch)) sched (Some s)"

lemma run_reach:
  assumes "run sched s = Some s'" and "rw_reach True some_procs n s" and "\<forall>(t, ch) \<in> set sched. t < n"
  shows "rw_reach True some_procs n s'"
  using assms
proof (induction sched arbitrary: s)
  case Nil
  then show ?case by (simp add: run_def)
next
  case (Cons a sched)
  obtain t ch where a: "a = (t, ch)" by (cases a)
  have none: "fold (\<lambda>(t, ch) r. Option.bind r (rw_next True some_procs t ch)) l None = None" for l
    by (induction l) (auto simp: split_beta)
  from Cons.prems a none obtain s1 where s1: "rw_next True some_procs t ch s = Some s1" "run sched s1 = Some s'"
    by (cases "rw_next True some_procs t ch s") (auto simp: run_def)
  show ?case by (rule Cons.IH [OF s1(2) rw_reach.step [OF Cons.prems(2) _ s1(1)]]) (use Cons.prems(3) a in auto)
qed

definition writer_and_sleeper :: "(nat \<times> rw_choice) list" where
  "writer_and_sleeper = [(0, CallEnterWrite), (1, CallEnterRead), (1, Run), (1, Run), (1, Run)]"

lemmas run_simps = run_def rw_next_def rw_init_def rw_enter_read_def rw_enter_write_def rw_exit_fast_def rw_enter_load_def
  rw_enter_setup_def rw_enter_diag_def RW_PROC_def rw_enter_wait_def rw_after_sleep_def rw_enter_take_def held_after_def
  rw_exit_cas_def rw_cas_def goto_def wakeup_def some_procs_def rw_consts

definition after_run :: rw_state where
  "after_run = the (run writer_and_sleeper rw_init)"

lemma after_run_eq: "run writer_and_sleeper rw_init = Some after_run"
  and after_run_pcs: "rw_pcs after_run 0 = Holds Exclusive" "rw_pcs after_run 1 = Asleep RW_READ {}"
    "rw_sleepers after_run = {1}" "rwl_owner after_run = 0x1005" "rw_pcs after_run (Suc (Suc i)) = Out"
  by (simp_all add: after_run_def writer_and_sleeper_def run_simps)

lemma after_run_reach: "rw_reach True some_procs 2 after_run"
  by (rule run_reach [OF after_run_eq rw_reach.start]) (auto simp: writer_and_sleeper_def)

theorem rw_mutual_exclusion_witness:
  "holds_ex (rw_pcs after_run 0) \<and> \<not> holds_ex (rw_pcs after_run 1) \<and> \<not> holds_sh (rw_pcs after_run 1)"
  using rw_mutual_exclusion [OF some_procs_ok after_run_reach, of 0 1] after_run_pcs(1) by auto

text \<open>
  C14. The lock word says who holds the lock: without a writer it is eight times the number of
  readers, with a writer it is that process's address with the write bit, in both cases plus the waiting
  bits \<open>fl\<close>, which are clear on a free lock; the reader count never runs into the address range.
\<close>

theorem rw_word_encodes_holders:
  assumes "procs_ok proc n" and "rw_reach diag proc n s"
  shows "\<exists>fl \<in> {0, unat RWLOCK_WAIT, unat (RWLOCK_WAIT OR RWLOCK_WRWANT)}.
    (writers s = {} \<and> unat (rwl_owner s) = unat RWLOCK_READ_INCR * card (readers s) + fl
       \<and> (readers s = {} \<longrightarrow> rwl_owner s = 0))
    \<or> (\<exists>w<n. writers s = {w} \<and> readers s = {} \<and> unat (rwl_owner s) = unat (proc w) + unat RWLOCK_WRLOCK + fl)"
proof -
  have inv: "rw_inv proc n s" by (rule rw_reach_inv [OF assms])
  have w: "unat RWLOCK_WAIT = 1" "unat (RWLOCK_WAIT OR RWLOCK_WRWANT) = 3" "unat RWLOCK_READ_INCR = 8"
    "unat RWLOCK_WRLOCK = 4" by (simp_all add: rw_consts push_bit_eq_mult)
  show ?thesis
    using inv_word [OF inv] holders_bounded(2,3) [OF inv] unfolding word_ok_def w by (auto simp: unat_eq_0)
qed

lemma after_run_holders: "readers after_run = {}" "writers after_run = {0}"
proof -
  have pcs: "rw_pcs after_run t = (if t = 0 then Holds Exclusive else if t = 1 then Asleep RW_READ {} else Out)" for t
    using after_run_pcs by (cases t; cases "t - 1") auto
  show "readers after_run = {}" "writers after_run = {0}" by (auto simp: readers_def writers_def pcs)
qed

theorem rw_word_encodes_holders_witness:
  "\<exists>fl \<in> {0, unat RWLOCK_WAIT, unat (RWLOCK_WAIT OR RWLOCK_WRWANT)}.
     unat (rwl_owner after_run) = unat (some_procs 0) + unat RWLOCK_WRLOCK + fl"
  using rw_word_encodes_holders [OF some_procs_ok after_run_reach] unfolding after_run_holders by auto

text \<open>
  C13. No wakeup is lost and the lock does not get stuck: when no thread holds the lock and some
  thread is inside one of the functions, then some thread inside can make its next step without a
  signal. In particular the threads are never all asleep on a free lock; and no thread ever
  reaches a panic of \<^verbatim>\<open>rw_enter_diag\<close>.
\<close>

theorem rw_not_stuck:
  assumes procs: "procs_ok proc n" and reach: "rw_reach diag proc n s"
    and free: "readers s = {}" "writers s = {}" and inside: "rw_pcs s t \<noteq> Out"
  shows "(\<exists>u s'. rw_pcs s u \<noteq> Out \<and> rw_next diag proc u Run s = Some s') \<and> (\<forall>u. rw_pcs s u \<noteq> Panicked)"
proof
  have inv: "rw_inv proc n s" by (rule rw_reach_inv [OF procs reach])
  show np: "\<forall>u. rw_pcs s u \<noteq> Panicked" using inv_pc [OF inv] by (metis pc_ok.simps(9))
  have "t \<notin> readers s" "t \<notin> writers s" using free by simp_all
  then have nh: "rw_pcs s t \<noteq> Holds m" for m by (cases m) (auto simp: readers_def writers_def)
  show "\<exists>u s'. rw_pcs s u \<noteq> Out \<and> rw_next diag proc u Run s = Some s'"
  proof (cases "asleep s t")
    case True
    have "unat (rwl_owner s) = 0" using inv_word [OF inv] free by (auto simp: word_ok_def)
    then have "even (unat (rwl_owner s))" by simp
    with True inv obtain u where "rw_pcs s u = ExitWake" unfolding rw_inv_def by blast
    then show ?thesis by (intro exI [of _ u]) (simp add: rw_next_def)
  next
    case False
    then have "rw_pcs s t = Asleep op flags \<Longrightarrow> t \<notin> rw_sleepers s" for op flags by (simp add: asleep_def)
    then have "\<exists>s'. rw_next diag proc t Run s = Some s'"
      using inside nh np by (cases "rw_pcs s t") (auto simp: rw_next_def rw_cas_def)
    with inside show ?thesis by blast
  qed
qed

text \<open>The writer has left and is about to wake the sleeper.\<close>

definition before_wakeup :: rw_state where
  "before_wakeup = the (run (writer_and_sleeper @ [(0, CallExitFast), (0, Run), (0, Run), (0, Run)]) rw_init)"

lemma before_wakeup_eq:
    "run (writer_and_sleeper @ [(0, CallExitFast), (0, Run), (0, Run), (0, Run)]) rw_init = Some before_wakeup"
  and before_wakeup_pcs: "rw_pcs before_wakeup 0 = ExitWake" "rw_pcs before_wakeup 1 = Asleep RW_READ {}"
    "rw_pcs before_wakeup (Suc (Suc i)) = Out"
  by (simp_all add: before_wakeup_def writer_and_sleeper_def run_simps)

lemma before_wakeup_reach: "rw_reach True some_procs 2 before_wakeup"
  by (rule run_reach [OF before_wakeup_eq rw_reach.start]) (auto simp: writer_and_sleeper_def)

lemma before_wakeup_free: "readers before_wakeup = {}" "writers before_wakeup = {}"
proof -
  have pcs: "rw_pcs before_wakeup t = (if t = 0 then ExitWake else if t = 1 then Asleep RW_READ {} else Out)" for t
    using before_wakeup_pcs by (cases t; cases "t - 1") auto
  show "readers before_wakeup = {}" "writers before_wakeup = {}" by (auto simp: readers_def writers_def pcs)
qed

theorem rw_not_stuck_witness:
  "\<exists>u s'. rw_pcs before_wakeup u \<noteq> Out \<and> rw_next True some_procs u Run before_wakeup = Some s'"
  using rw_not_stuck [OF some_procs_ok before_wakeup_reach before_wakeup_free, of 1] before_wakeup_pcs(2) by simp

text \<open>
  C12. The code implements the specification of a read/write lock: a step of any thread in a
  reachable state leaves the sets of readers and writers alone or is one step of the specification for that
  thread (a reader in, a writer in, a downgrade, a reader out, a writer out). No step turns a reader into
  a writer.
\<close>

theorem rw_refines_spec:
  assumes procs: "procs_ok proc n" and reach: "rw_reach diag proc n s" and t: "t < n"
    and nx: "rw_next diag proc t ch s = Some s'"
  shows "rw_holders s' = rw_holders s \<or> rw_spec_step t (rw_holders s) (rw_holders s')"
proof -
  have inv: "rw_inv proc n s" by (rule rw_reach_inv [OF procs reach])
  note inv' = rw_next_inv [OF inv procs t nx]
  have "\<not> (t \<in> readers s \<and> t \<in> writers s')" using no_upgrade [OF nx] by (simp add: readers_def writers_def)
  then show ?thesis
    using spec_step_or_same [OF word_exclusive [OF inv_word [OF inv]] word_exclusive [OF inv_word [OF inv']] moved_by_t [OF nx]]
    by (simp add: rw_holders_def)
qed

theorem rw_refines_spec_witness:
  "(let s' = the (rw_next True some_procs 0 CallExit after_run) in
     rw_holders s' = rw_holders after_run \<or> rw_spec_step 0 (rw_holders after_run) (rw_holders s'))"
proof -
  have "rw_next True some_procs 0 CallExit after_run = Some (goto 0 (ExitStart Exclusive) after_run)"
    using after_run_pcs(1) by (simp add: rw_next_def)
  with rw_refines_spec [OF some_procs_ok after_run_reach _ this] show ?thesis by simp
qed

text \<open>
  A reader passes a waiting writer: while a reader holds the lock and a writer sleeps with
  both waiting bits set, another reader takes the lock at once, although the comment above \<^verbatim>\<open>rw_ops\<close>
  says that \<^verbatim>\<open>RWLOCK_WRWANT\<close> may not be set for \<^verbatim>\<open>RW_READ\<close>.
\<close>

theorem rw_read_ignores_WRWANT:
  "\<exists>s s'. run [(0, CallEnterRead), (0, Run), (1, CallEnterWrite), (1, Run), (1, Run), (1, Run)] rw_init = Some s
     \<and> rw_pcs s 1 = Asleep RW_WRITE {} \<and> rwl_owner s AND RWLOCK_WRWANT \<noteq> 0
     \<and> run [(2, CallEnterRead), (2, Run)] s = Some s' \<and> rw_pcs s' 2 = Holds Shared"
  by (simp add: run_simps push_bit_eq_mult)
end
