(* ===== verification/Timeout.thy ===== *)
theory Timeout
  imports Kern_Prelude "HOL-Library.Signed_Division" "HOL-Library.Monad_Syntax"
begin

text \<open>
  Kernel timeouts (\<^verbatim>\<open>src/sys/kern/kern_timeout.c\<close>, \<^verbatim>\<open>src/sys/sys/timeout.h\<close>): a hierarchical
  timing wheel of four levels with 256 buckets each, over doubly linked circular queues. The queue
  links are modelled as they are, two functions from queue elements to queue elements; an abstraction relation
  ties them to lists. \<^verbatim>\<open>int\<close> values are 32-bit words: \<^verbatim>\<open>ticks\<close> and \<^verbatim>\<open>to_time\<close> wrap around and the code only
  looks at the sign of differences. Every operation runs under \<^verbatim>\<open>timeout_mutex\<close>, so it is one atomic
  step; \<^verbatim>\<open>softclock\<close> gives the mutex up for each call of a handler.
\<close>

section \<open>Circular queues\<close>

definition BUCKETS :: nat where "BUCKETS = 1024"

definition WHEELSIZE :: nat where "WHEELSIZE = 256"

definition WHEELMASK :: u32 where "WHEELMASK = 255"

definition WHEELBITS :: nat where "WHEELBITS = 8"

text \<open>
  The addresses of \<^verbatim>\<open>struct circq\<close> objects: the buckets \<^verbatim>\<open>timeout_wheel[b]\<close>, the worklist
  \<^verbatim>\<open>timeout_todo\<close>, and the \<^verbatim>\<open>to_list\<close> of a timeout.
\<close>

datatype circq = Wheel nat | Todo | To nat

datatype timeout_flag = TIMEOUT_ONQUEUE | TIMEOUT_INITIALIZED | TIMEOUT_TRIGGERED

record timeout =
  to_func :: nat
  to_arg :: nat
  to_time :: u32
  to_flags :: "timeout_flag set"

record tmo_state =
  circq_next :: "circq \<Rightarrow> circq"
  circq_prev :: "circq \<Rightarrow> circq"
  timeouts :: "nat \<Rightarrow> timeout"
  ticks :: u32

definition set_next :: "circq \<Rightarrow> circq \<Rightarrow> tmo_state \<Rightarrow> tmo_state" where
  "set_next a b s = s\<lparr>circq_next := (circq_next s)(a := b)\<rparr>"

definition set_prev :: "circq \<Rightarrow> circq \<Rightarrow> tmo_state \<Rightarrow> tmo_state" where
  "set_prev a b s = s\<lparr>circq_prev := (circq_prev s)(a := b)\<rparr>"

definition CIRCQ_INIT :: "circq \<Rightarrow> tmo_state \<Rightarrow> tmo_state" where
  "CIRCQ_INIT elem s = set_prev elem elem (set_next elem elem s)"

definition CIRCQ_INSERT :: "circq \<Rightarrow> circq \<Rightarrow> tmo_state \<Rightarrow> tmo_state" where
  "CIRCQ_INSERT elem list s =
     (let s1 = set_prev elem (circq_prev s list) s;
          s2 = set_next elem list s1;
          s3 = set_next (circq_prev s2 list) elem s2
      in set_prev list elem s3)"

definition CIRCQ_FIRST :: "circq \<Rightarrow> tmo_state \<Rightarrow> circq" where
  "CIRCQ_FIRST elem s = circq_next s elem"

definition CIRCQ_EMPTY :: "circq \<Rightarrow> tmo_state \<Rightarrow> bool" where
  "CIRCQ_EMPTY elem s \<longleftrightarrow> CIRCQ_FIRST elem s = elem"

definition CIRCQ_APPEND :: "circq \<Rightarrow> circq \<Rightarrow> tmo_state \<Rightarrow> tmo_state" where
  "CIRCQ_APPEND fs sn s =
     (if \<not> CIRCQ_EMPTY sn s then
        let s1 = set_next (circq_prev s fs) (circq_next s sn) s;
            s2 = set_prev (circq_next s1 sn) (circq_prev s1 fs) s1;
            s3 = set_next (circq_prev s2 sn) fs s2;
            s4 = set_prev fs (circq_prev s3 sn) s3
        in CIRCQ_INIT sn s4
      else s)"

definition CIRCQ_REMOVE :: "circq \<Rightarrow> tmo_state \<Rightarrow> tmo_state" where
  "CIRCQ_REMOVE elem s =
     (let s1 = set_prev (circq_next s elem) (circq_prev s elem) s
      in set_next (circq_prev s1 elem) (circq_next s1 elem) s1)"

section \<open>The timing wheel\<close>

text \<open>
  \<^verbatim>\<open>MASKWHEEL\<close>: one byte of a time. The shift of a negative \<^verbatim>\<open>int\<close> is arithmetic, but the eight bits
  that are kept are the same.
\<close>

definition MASKWHEEL :: "nat \<Rightarrow> u32 \<Rightarrow> nat" where
  "MASKWHEEL wheel time = unat (drop_bit (wheel * WHEELBITS) time AND WHEELMASK)"

definition BUCKET :: "u32 \<Rightarrow> u32 \<Rightarrow> circq" where
  "BUCKET rel abst = Wheel
     (if sint rel \<le> 2 ^ (2 * WHEELBITS) then
        if sint rel \<le> 2 ^ WHEELBITS then MASKWHEEL 0 abst
        else MASKWHEEL 1 abst + WHEELSIZE
      else if sint rel \<le> 2 ^ (3 * WHEELBITS) then MASKWHEEL 2 abst + 2 * WHEELSIZE
      else MASKWHEEL 3 abst + 3 * WHEELSIZE)"

definition MOVEBUCKET :: "nat \<Rightarrow> u32 \<Rightarrow> tmo_state \<Rightarrow> tmo_state" where
  "MOVEBUCKET wheel time s = CIRCQ_APPEND Todo (Wheel (MASKWHEEL wheel time + wheel * WHEELSIZE)) s"

definition timeout_startup :: "tmo_state \<Rightarrow> tmo_state" where
  "timeout_startup s = fold (\<lambda>b. CIRCQ_INIT (Wheel b)) [0..<BUCKETS] (CIRCQ_INIT Todo s)"

definition upd_timeout :: "nat \<Rightarrow> (timeout \<Rightarrow> timeout) \<Rightarrow> tmo_state \<Rightarrow> tmo_state" where
  "upd_timeout i f s = s\<lparr>timeouts := (timeouts s)(i := f (timeouts s i))\<rparr>"

definition timeout_set :: "nat \<Rightarrow> nat \<Rightarrow> nat \<Rightarrow> tmo_state \<Rightarrow> tmo_state" where
  "timeout_set new fn arg s =
     upd_timeout new (\<lambda>to. to\<lparr>to_func := fn, to_arg := arg, to_flags := {TIMEOUT_INITIALIZED}\<rparr>) s"

text \<open>The result is \<open>None\<close> when a \<^verbatim>\<open>DIAGNOSTIC\<close> kernel (\<open>diag\<close>) panics.\<close>

definition timeout_add :: "bool \<Rightarrow> nat \<Rightarrow> u32 \<Rightarrow> tmo_state \<Rightarrow> tmo_state option" where
  "timeout_add diag new to_ticks s =
     (if diag \<and> (TIMEOUT_INITIALIZED \<notin> to_flags (timeouts s new) \<or> sint to_ticks < 0) then None
      else
        let old_time = to_time (timeouts s new);
            s1 = upd_timeout new (\<lambda>to. to\<lparr>to_time := to_ticks + ticks s, to_flags := to_flags to - {TIMEOUT_TRIGGERED}\<rparr>) s
        in if TIMEOUT_ONQUEUE \<in> to_flags (timeouts s1 new) then
             if sint (to_time (timeouts s1 new) - ticks s1) < sint (old_time - ticks s1) then
               Some (CIRCQ_INSERT (To new) Todo (CIRCQ_REMOVE (To new) s1))
             else Some s1
           else
             Some (CIRCQ_INSERT (To new) Todo
               (upd_timeout new (\<lambda>to. to\<lparr>to_flags := insert TIMEOUT_ONQUEUE (to_flags to)\<rparr>) s1)))"

definition timeout_del :: "nat \<Rightarrow> tmo_state \<Rightarrow> tmo_state" where
  "timeout_del i s =
     upd_timeout i (\<lambda>to. to\<lparr>to_flags := to_flags to - {TIMEOUT_TRIGGERED}\<rparr>)
       (if TIMEOUT_ONQUEUE \<in> to_flags (timeouts s i)
        then upd_timeout i (\<lambda>to. to\<lparr>to_flags := to_flags to - {TIMEOUT_ONQUEUE}\<rparr>) (CIRCQ_REMOVE (To i) s)
        else s)"

definition timeout_hardclock_update :: "tmo_state \<Rightarrow> tmo_state \<times> bool" where
  "timeout_hardclock_update s =
     (let s1 = s\<lparr>ticks := ticks s + 1\<rparr>;
          t = ticks s1;
          s2 = MOVEBUCKET 0 t s1;
          s3 = (if MASKWHEEL 0 t = 0 then
                  let s4 = MOVEBUCKET 1 t s2
                  in if MASKWHEEL 1 t = 0 then
                       let s5 = MOVEBUCKET 2 t s4
                       in if MASKWHEEL 2 t = 0 then MOVEBUCKET 3 t s5 else s5
                     else s4
                else s2)
      in (s3, \<not> CIRCQ_EMPTY Todo s3))"

text \<open>
  One turn of the loop of \<^verbatim>\<open>softclock\<close>: nothing to do, a timeout put into its bucket, or a timeout
  that is due, whose handler is called after the mutex is released. The queue element is taken for a
  timeout (the code casts the pointer), so the bucket heads are \<open>Stray\<close>.
\<close>

datatype soft_outcome = Idle | Requeued nat | Fire nat nat nat | Stray

definition softclock_turn :: "tmo_state \<Rightarrow> tmo_state \<times> soft_outcome" where
  "softclock_turn s =
     (if CIRCQ_EMPTY Todo s then (s, Idle)
      else case CIRCQ_FIRST Todo s of
        To i \<Rightarrow>
          let s1 = CIRCQ_REMOVE (To i) s;
              to = timeouts s1 i
          in if sint (to_time to - ticks s1) > 0 then
               (CIRCQ_INSERT (To i) (BUCKET (to_time to - ticks s1) (to_time to)) s1, Requeued i)
             else
               (upd_timeout i (\<lambda>to. to\<lparr>to_flags := insert TIMEOUT_TRIGGERED (to_flags to - {TIMEOUT_ONQUEUE})\<rparr>) s1,
                Fire i (to_func to) (to_arg to))
      | _ \<Rightarrow> (s, Stray))"

text \<open>
  What a handler does with the wheel: a list of calls of \<^verbatim>\<open>timeout_add\<close> and \<^verbatim>\<open>timeout_del\<close>; \<open>handler\<close>
  gives it for a function and its argument.
\<close>

datatype tmo_call = CallAdd nat u32 | CallDel nat

definition tmo_do :: "bool \<Rightarrow> tmo_call \<Rightarrow> tmo_state \<Rightarrow> tmo_state option" where
  "tmo_do diag c s = (case c of CallAdd i n \<Rightarrow> timeout_add diag i n s | CallDel i \<Rightarrow> Some (timeout_del i s))"

fun tmo_calls :: "bool \<Rightarrow> tmo_call list \<Rightarrow> tmo_state \<Rightarrow> tmo_state option" where
  "tmo_calls diag [] s = Some s"
| "tmo_calls diag (c # cs) s = Option.bind (tmo_do diag c s) (tmo_calls diag cs)"

text \<open>
  The whole loop with no other caller in between; the result lists the timeouts fired. \<open>None\<close> when
  it panics or never ends.
\<close>

partial_function (option) softclock ::
    "bool \<Rightarrow> (nat \<Rightarrow> nat \<Rightarrow> tmo_call list) \<Rightarrow> tmo_state \<Rightarrow> (tmo_state \<times> nat list) option" where
  "softclock diag handler s =
     (case softclock_turn s of
        (s', Idle) \<Rightarrow> Some (s', [])
      | (s', Requeued i) \<Rightarrow> softclock diag handler s'
      | (s', Fire i fn arg) \<Rightarrow>
          Option.bind (tmo_calls diag (handler fn arg) s') (\<lambda>s2.
          Option.bind (softclock diag handler s2) (\<lambda>(s3, l). Some (s3, i # l)))
      | (s', Stray) \<Rightarrow> None)"

section \<open>Durations\<close>

text \<open>
  The conversions compute in \<^verbatim>\<open>long long\<close>; \<^verbatim>\<open>hz\<close> and \<^verbatim>\<open>tick\<close> (microseconds per clock tick) are globals. The
  division of C truncates towards zero. \<open>clamp\<close> is the comparison with \<^verbatim>\<open>INT_MAX\<close> and the conversion to \<^verbatim>\<open>int\<close>.
\<close>

definition llong :: "int \<Rightarrow> int" where
  "llong x = (x + 2 ^ 63) mod 2 ^ 64 - 2 ^ 63"

definition INT_MAX :: int where "INT_MAX = 2 ^ 31 - 1"

definition clamp :: "int \<Rightarrow> u32" where
  "clamp to_ticks = word_of_int (if to_ticks > INT_MAX then INT_MAX else to_ticks)"

definition timeout_add_tv :: "bool \<Rightarrow> int \<Rightarrow> int \<Rightarrow> nat \<Rightarrow> int \<Rightarrow> int \<Rightarrow> tmo_state \<Rightarrow> tmo_state option" where
  "timeout_add_tv diag hz tick i tv_sec tv_usec s =
     timeout_add diag i (clamp (llong (hz * tv_sec + tv_usec sdiv tick))) s"

definition timeout_add_ts :: "bool \<Rightarrow> int \<Rightarrow> int \<Rightarrow> nat \<Rightarrow> int \<Rightarrow> int \<Rightarrow> tmo_state \<Rightarrow> tmo_state option" where
  "timeout_add_ts diag hz tick i tv_sec tv_nsec s =
     timeout_add diag i (clamp (llong (hz * tv_sec + tv_nsec sdiv (tick * 1000)))) s"

definition timeout_add_bt :: "bool \<Rightarrow> int \<Rightarrow> int \<Rightarrow> nat \<Rightarrow> int \<Rightarrow> u64 \<Rightarrow> tmo_state \<Rightarrow> tmo_state option" where
  "timeout_add_bt diag hz tick i sec frac s =
     timeout_add diag i (clamp (llong (hz * sec
       + uint (drop_bit 32 (1000000 * (ucast (ucast (drop_bit 32 frac) :: u32) :: u64))) sdiv tick))) s"

definition timeout_add_sec :: "bool \<Rightarrow> int \<Rightarrow> nat \<Rightarrow> int \<Rightarrow> tmo_state \<Rightarrow> tmo_state option" where
  "timeout_add_sec diag hz i secs s = timeout_add diag i (clamp (llong (hz * secs))) s"

definition timeout_add_usec :: "bool \<Rightarrow> int \<Rightarrow> nat \<Rightarrow> int \<Rightarrow> tmo_state \<Rightarrow> tmo_state option" where
  "timeout_add_usec diag tick i usecs s = timeout_add diag i (word_of_int (usecs sdiv tick)) s"

definition timeout_add_nsec :: "bool \<Rightarrow> int \<Rightarrow> nat \<Rightarrow> int \<Rightarrow> tmo_state \<Rightarrow> tmo_state option" where
  "timeout_add_nsec diag tick i nsecs s = timeout_add diag i (word_of_int (nsecs sdiv (tick * 1000))) s"

section \<open>Queues as lists\<close>

text \<open>Consecutive elements of the list are linked both ways.\<close>

fun linked :: "tmo_state \<Rightarrow> circq list \<Rightarrow> bool" where
  "linked s (a # b # l) \<longleftrightarrow> circq_next s a = b \<and> circq_prev s b = a \<and> linked s (b # l)"
| "linked s _ \<longleftrightarrow> True"

definition is_head :: "circq \<Rightarrow> bool" where
  "is_head q \<longleftrightarrow> (case q of Wheel b \<Rightarrow> b < BUCKETS | Todo \<Rightarrow> True | To i \<Rightarrow> False)"

text \<open>\<open>queues s Q\<close>: every queue head \<open>q\<close> starts a circular list of the timeouts \<open>Q q\<close>, and no timeout is on two queues.\<close>

definition queues :: "tmo_state \<Rightarrow> (circq \<Rightarrow> nat list) \<Rightarrow> bool" where
  "queues s Q \<longleftrightarrow> (\<forall>q. is_head q \<longrightarrow> linked s (q # map To (Q q) @ [q]) \<and> distinct (Q q))
     \<and> (\<forall>q r. is_head q \<and> is_head r \<and> q \<noteq> r \<longrightarrow> set (Q q) \<inter> set (Q r) = {})"

definition queued :: "(circq \<Rightarrow> nat list) \<Rightarrow> nat \<Rightarrow> bool" where
  "queued Q i \<longleftrightarrow> (\<exists>q. is_head q \<and> i \<in> set (Q q))"

definition nodes :: "(circq \<Rightarrow> nat list) \<Rightarrow> circq \<Rightarrow> circq set" where
  "nodes Q q = insert q (To ` set (Q q))"

lemma is_head_simps [simp]: "is_head Todo" "is_head (Wheel b) = (b < BUCKETS)" "\<not> is_head (To i)"
  by (simp_all add: is_head_def)

lemma link_sel [simp]:
  "circq_next (set_next a b s) = (circq_next s)(a := b)" "circq_prev (set_next a b s) = circq_prev s"
  "circq_prev (set_prev a b s) = (circq_prev s)(a := b)" "circq_next (set_prev a b s) = circq_next s"
  "timeouts (set_next a b s) = timeouts s" "timeouts (set_prev a b s) = timeouts s"
  "ticks (set_next a b s) = ticks s" "ticks (set_prev a b s) = ticks s"
  by (simp_all add: set_next_def set_prev_def)

lemma set_tl: "set (tl l) \<subseteq> set l"
  by (cases l) auto

lemma linked_append: "linked s (l @ b # r) \<longleftrightarrow> linked s (l @ [b]) \<and> linked s (b # r)"
  by (induction l rule: linked.induct) (auto simp: neq_Nil_conv)

lemma linked_frame:
  assumes "\<forall>a \<in> set (butlast l). circq_next s' a = circq_next s a"
    and "\<forall>b \<in> set (tl l). circq_prev s' b = circq_prev s b"
  shows "linked s' l = linked s l"
  using assms by (induction l rule: linked.induct [of _ s]) auto

lemma queues_frame:
  assumes "queues s Q" and "circq_next s' = circq_next s" and "circq_prev s' = circq_prev s"
  shows "queues s' Q"
proof -
  have "linked s' l = linked s l" for l by (rule linked_frame) (simp_all add: assms)
  with assms(1) show ?thesis by (simp add: queues_def)
qed

lemma nodes_disjoint:
  assumes "queues s Q" and "is_head q" and "is_head r" and "q \<noteq> r"
  shows "nodes Q q \<inter> nodes Q r = {}"
proof -
  have "set (Q q) \<inter> set (Q r) = {}" using assms by (simp add: queues_def)
  then show ?thesis using assms(2-4) by (auto simp: nodes_def)
qed

lemma queue_ring: "queues s Q \<Longrightarrow> is_head q \<Longrightarrow> linked s (q # map To (Q q) @ [q])"
  and queue_distinct: "queues s Q \<Longrightarrow> is_head q \<Longrightarrow> distinct (q # map To (Q q))"
  by (auto simp: queues_def distinct_map inj_on_def)

lemma queue_untouched:
  assumes "queues s Q" and "is_head r"
    and "\<And>a. a \<in> nodes Q r \<Longrightarrow> circq_next s' a = circq_next s a"
    and "\<And>a. a \<in> nodes Q r \<Longrightarrow> circq_prev s' a = circq_prev s a"
  shows "linked s' (r # map To (Q r) @ [r])"
proof -
  have "linked s' (r # map To (Q r) @ [r]) = linked s (r # map To (Q r) @ [r])"
    by (rule linked_frame) (use assms in \<open>auto simp: nodes_def butlast_append\<close>)
  then show ?thesis using queue_ring [OF assms(1,2)] by simp
qed

text \<open>A change inside one queue leaves the others alone.\<close>

lemma queues_change:
  assumes Q: "queues s Q" and q: "is_head q"
    and next_eq: "\<And>a. a \<notin> nodes Q q \<Longrightarrow> a \<notin> To ` N \<Longrightarrow> circq_next s' a = circq_next s a"
    and prev_eq: "\<And>a. a \<notin> nodes Q q \<Longrightarrow> a \<notin> To ` N \<Longrightarrow> circq_prev s' a = circq_prev s a"
    and N: "\<And>i. i \<in> N \<Longrightarrow> \<not> queued Q i" and xs: "linked s' (q # map To xs @ [q])" "distinct xs"
    and sub: "set xs \<subseteq> set (Q q) \<union> N"
  shows "queues s' (Q(q := xs))"
proof -
  have other: "linked s' (r # map To (Q r) @ [r])" if r: "is_head r" "r \<noteq> q" for r
  proof (rule queue_untouched [OF Q r(1)])
    have d: "nodes Q q \<inter> nodes Q r = {}" by (rule nodes_disjoint [OF Q q r(1)]) (use r in simp)
    have "a \<notin> nodes Q q \<and> a \<notin> To ` N" if "a \<in> nodes Q r" for a
      using that d N r(1) by (auto simp: nodes_def queued_def)
    then show "circq_next s' a = circq_next s a" "circq_prev s' a = circq_prev s a" if "a \<in> nodes Q r" for a
      using that next_eq prev_eq by blast+
  qed
  have dis: "set xs \<inter> set (Q r) = {}" if "is_head r" "r \<noteq> q" for r
    using sub N that Q q unfolding queues_def queued_def by blast
  show ?thesis unfolding queues_def
  proof (intro conjI allI impI)
    fix r assume "is_head r"
    then show "linked s' (r # map To ((Q(q := xs)) r) @ [r])" "distinct ((Q(q := xs)) r)"
      using other xs Q by (auto simp: queues_def)
  next
    fix a b assume "is_head a \<and> is_head b \<and> a \<noteq> b"
    then show "set ((Q(q := xs)) a) \<inter> set ((Q(q := xs)) b) = {}" using dis Q by (auto simp: queues_def)
  qed
qed

lemma head_last:
  assumes "linked s (q # l @ [q])"
  shows "circq_prev s q = last (q # l)" and "circq_next s (last (q # l)) = q"
proof -
  obtain k p where kp: "q # l = k @ [p]" using rev_exhaust by blast
  have "linked s (k @ [p, q])" using assms kp by (metis append.assoc append_Cons append_Nil)
  then show "circq_prev s q = last (q # l)" and "circq_next s (last (q # l)) = q"
    using linked_append [of s k p "[q]"] kp by simp_all
qed

lemma insert_queues:
  assumes Q: "queues s Q" and q: "is_head q" and i: "\<not> queued Q i"
  shows "queues (CIRCQ_INSERT (To i) q s) (Q(q := Q q @ [i]))"
proof -
  define s' where "s' = CIRCQ_INSERT (To i) q s"
  define p where "p = last (q # map To (Q q))"
  note ring = queue_ring [OF Q q]
  have last: "circq_prev s q = p" "circq_next s p = q" using head_last [OF ring] by (simp_all add: p_def)
  have p: "p \<in> nodes Q q" unfolding p_def nodes_def by (metis last_in_set list.set(2) list.set_map list.distinct(1))
  have iq: "To i \<notin> nodes Q q" "q \<noteq> To i" using i q by (auto simp: nodes_def queued_def)
  have nx: "circq_next s' = (circq_next s)(To i := q, p := To i)" and
    pv: "circq_prev s' = (circq_prev s)(To i := p, q := To i)"
    using iq(2) last by (simp_all add: s'_def CIRCQ_INSERT_def Let_def)
  obtain k where k: "q # map To (Q q) = k @ [p]" unfolding p_def by (metis append_butlast_last_id list.distinct(1))
  have dk: "distinct (k @ [p])" using queue_distinct [OF Q q] k by simp
  have ik: "To i \<notin> set (k @ [p])" using iq(1) k unfolding nodes_def by (metis list.set(2) list.set_map)
  then have ik': "To i \<notin> set (tl (k @ [p]))" by (metis append_is_Nil_conv list.set_sel(2) list.distinct(1))
  have qk: "q \<notin> set (tl (k @ [p]))" using queue_distinct [OF Q q] unfolding k [symmetric] by simp
  have "linked s (k @ [p])" using ring k linked_append [of s k p "[q]"] by (metis append.assoc append_Cons append_Nil)
  moreover have "linked s' (k @ [p]) = linked s (k @ [p])"
    by (rule linked_frame) (use dk ik ik' qk in \<open>auto simp: nx pv butlast_append dest: in_set_butlastD list.set_sel(2)\<close>)
  moreover have "p \<noteq> To i" using p iq(1) by auto
  ultimately have "linked s' (k @ p # [To i, q])" using linked_append [of s' k p "[To i, q]"] iq(2) by (simp add: nx pv)
  moreover have "k @ p # [To i, q] = q # map To (Q q @ [i]) @ [q]" using k by (metis append.assoc append_Cons append_Nil list.simps(9) map_append list.map(1))
  ultimately have "linked s' (q # map To (Q q @ [i]) @ [q])" by simp
  moreover have "i \<notin> set (Q q)" using i q by (auto simp: queued_def)
  ultimately show ?thesis unfolding s'_def [symmetric]
    by (intro queues_change [OF Q q, of "{i}"])
      (use p i Q q in \<open>auto simp: nx pv nodes_def queues_def\<close>)
qed

lemma remove_queues:
  assumes Q: "queues s Q" and q: "is_head q" and i: "i \<in> set (Q q)"
  shows "queues (CIRCQ_REMOVE (To i) s) (Q(q := remove1 i (Q q)))"
proof -
  define s' where "s' = CIRCQ_REMOVE (To i) s"
  obtain ys zs where split: "Q q = ys @ i # zs" by (meson i split_list)
  define A where "A = q # map To ys"
  define B where "B = map To zs @ [q]"
  have "linked s (A @ To i # B)" using queue_ring [OF Q q] by (simp add: split A_def B_def)
  then have l: "linked s (A @ [To i])" "linked s (To i # B)" using linked_append by blast+
  obtain A' a where A: "A = A' @ [a]" unfolding A_def by (metis rev_exhaust list.distinct(1))
  obtain b B' where B: "B = b # B'" unfolding B_def by (metis append_is_Nil_conv list.exhaust list.distinct(1))
  have a: "linked s A" "circq_next s a = To i" "circq_prev s (To i) = a"
    using l(1) linked_append [of s A' a "[To i]"] by (simp_all add: A)
  have b: "linked s B" "circq_next s (To i) = b" "circq_prev s b = To i" using l(2) by (simp_all add: B)
  have d: "distinct ys" "distinct zs" "set ys \<inter> set zs = {}" "i \<notin> set ys" "i \<notin> set zs" "q \<notin> range To"
    using queue_distinct [OF Q q] q by (auto simp: split distinct_map)
  have "a \<in> set A" "b \<in> set B" using A B by simp_all
  then have aA: "a = q \<or> a \<in> To ` set ys" and bB: "b = q \<or> b \<in> To ` set zs" by (auto simp: A_def B_def)
  have "a \<noteq> To i" using aA d by auto
  then have nx: "circq_next s' = (circq_next s)(a := b)" and pv: "circq_prev s' = (circq_prev s)(b := a)"
    using a b aA bB d by (auto simp: s'_def CIRCQ_REMOVE_def Let_def)
  have dA: "distinct A" and dB: "distinct B" using d by (auto simp: A_def B_def distinct_map inj_on_def)
  have ends: "a \<notin> set (butlast A)" "b \<notin> set (tl B)" using dA dB by (simp_all add: A B)
  have "set (tl A) = To ` set ys" "set (butlast B) = To ` set zs" by (simp_all add: A_def B_def)
  then have cross: "b \<notin> set (tl A)" "a \<notin> set (butlast B)" using aA bB d by auto
  have "linked s' A = linked s A" by (rule linked_frame) (use ends cross in \<open>auto simp: nx pv\<close>)
  moreover have "linked s' B = linked s B" by (rule linked_frame) (use ends cross in \<open>auto simp: nx pv\<close>)
  ultimately have "linked s' (A @ B)" using a b linked_append [of s' A' a B] by (simp add: A B nx pv)
  moreover have "remove1 i (Q q) = ys @ zs" using d by (simp add: split remove1_append)
  ultimately have "linked s' (q # map To (remove1 i (Q q)) @ [q])" by (simp add: A_def B_def)
  then show ?thesis unfolding s'_def [symmetric]
    by (intro queues_change [OF Q q, of "{}"]) (use aA bB Q q in \<open>auto simp: nx pv nodes_def split queues_def\<close>)
qed

lemma append_queues:
  assumes Q: "queues s Q" and f: "is_head f" and n: "is_head n" and fn: "f \<noteq> n"
  shows "queues (CIRCQ_APPEND f n s) (Q(f := Q f @ Q n, n := []))"
proof (cases "Q n = []")
  case True
  then have "linked s [n, n]" using queue_ring [OF Q n] by simp
  then have "CIRCQ_APPEND f n s = s" by (simp add: CIRCQ_APPEND_def CIRCQ_EMPTY_def CIRCQ_FIRST_def)
  moreover have "Q(f := Q f @ Q n, n := []) = Q" using True fn by auto
  ultimately show ?thesis using Q by simp
next
  case False
  then obtain i ys where n_eq: "Q n = i # ys" by (meson neq_Nil_conv)
  define s' where "s' = CIRCQ_APPEND f n s"
  define p where "p = last (f # map To (Q f))"
  define l where "l = last (To i # map To ys)"
  note rf = queue_ring [OF Q f] and rn = queue_ring [OF Q n]
  have pf: "circq_prev s f = p" "circq_next s p = f" using head_last [OF rf] by (simp_all add: p_def)
  have ln: "circq_prev s n = l" "circq_next s l = n" using head_last [OF rn] by (simp_all add: l_def n_eq)
  have i: "circq_next s n = To i" "circq_prev s (To i) = n" using rn by (simp_all add: n_eq)
  have df: "distinct (f # map To (Q f))" and dn: "distinct (n # map To (Q n))"
    using queue_distinct [OF Q] f n by blast+
  have dis: "nodes Q f \<inter> nodes Q n = {}" by (rule nodes_disjoint [OF Q f n fn])
  have pn: "p \<in> nodes Q f" unfolding p_def nodes_def by (metis last_in_set list.set(2) list.set_map list.distinct(1))
  have lset: "l \<in> To ` set (Q n)" unfolding l_def n_eq by (metis last_in_set list.set_map list.simps(9) list.distinct(1))
  have i_n: "To i \<in> nodes Q n" "To i \<noteq> n" "l \<noteq> n" "l \<in> nodes Q n" using dn lset n by (auto simp: n_eq nodes_def)
  have np: "n \<noteq> p" using pn dis by (auto simp: nodes_def)
  have nx: "circq_next s' = (circq_next s)(p := To i, l := f, n := n)"
    and pv: "circq_prev s' = (circq_prev s)(To i := p, f := l, n := n)"
    using pf ln i i_n(2) np
    by (simp_all add: s'_def CIRCQ_APPEND_def CIRCQ_EMPTY_def CIRCQ_FIRST_def CIRCQ_INIT_def Let_def)
  obtain k where k: "f # map To (Q f) = k @ [p]" unfolding p_def by (metis append_butlast_last_id list.distinct(1))
  obtain m where m: "To i # map To ys = m @ [l]" unfolding l_def by (metis append_butlast_last_id list.distinct(1))
  have sk: "set (k @ [p]) = nodes Q f" unfolding k [symmetric] nodes_def by simp
  have sm: "set (m @ [l]) = To ` set (Q n)" unfolding m [symmetric] n_eq by simp
  have dk: "distinct (k @ [p])" and dm: "distinct (m @ [l])" using df dn unfolding k [symmetric] m [symmetric] n_eq by simp_all
  have ftl: "f \<notin> set (tl (k @ [p]))" using df unfolding k [symmetric] by simp
  have itl: "To i \<notin> set (tl (m @ [l]))" using dm unfolding m [symmetric] by simp
  have nd: "nodes Q n = insert n (To ` set (Q n))" by (simp add: nodes_def)
  have tk: "set (tl (k @ [p])) \<subseteq> nodes Q f" and tm: "set (tl (m @ [l])) \<subseteq> To ` set (Q n)"
    using set_tl [of "k @ [p]"] set_tl [of "m @ [l]"] unfolding sk sm .
  have "linked s (k @ [p])" using rf k linked_append [of s k p "[f]"] by (metis append.assoc append_Cons append_Nil)
  moreover have "linked s' (k @ [p]) = linked s (k @ [p])"
  proof (rule linked_frame)
    show "\<forall>a\<in>set (butlast (k @ [p])). circq_next s' a = circq_next s a"
      using dk sk dis i_n nd by (auto simp: nx)
    show "\<forall>b\<in>set (tl (k @ [p])). circq_prev s' b = circq_prev s b"
      using ftl tk dis i_n nd by (auto simp: pv)
  qed
  moreover have "linked s (m @ [l])"
  proof -
    have "n # map To (Q n) @ [n] = (n # m) @ l # [n]" using m n_eq by simp
    then have "linked s (n # m @ [l])" using rn linked_append [of s "n # m" l "[n]"] by simp
    then show ?thesis by (cases m) auto
  qed
  moreover have "linked s' (m @ [l]) = linked s (m @ [l])"
  proof (rule linked_frame)
    show "\<forall>a\<in>set (butlast (m @ [l])). circq_next s' a = circq_next s a"
      using dm sm dis pn nd n by (auto simp: nx)
    show "\<forall>b\<in>set (tl (m @ [l])). circq_prev s' b = circq_prev s b"
      using itl tm f n by (auto simp: pv)
  qed
  ultimately have "linked s' (k @ [p])" "linked s' (m @ [l])" by simp_all
  moreover have "circq_next s' p = To i" "circq_prev s' (To i) = p" "circq_next s' l = f" "circq_prev s' f = l"
    using dis pn i_n fn f n by (auto simp: nx pv nodes_def)
  moreover obtain m' where m': "m @ [l] = To i # m'" using m by metis
  ultimately have "linked s' (k @ [p] @ m @ [l] @ [f])"
    using linked_append [of s' k p "m @ [l] @ [f]"] linked_append [of s' m l "[f]"] m' by (auto simp: Cons_eq_append_conv append_eq_Cons_conv)
  moreover have "k @ [p] @ m @ [l] @ [f] = f # map To (Q f @ Q n) @ [f]"
    using k m n_eq by (metis append.assoc append_Cons list.simps(9) map_append)
  ultimately have new_f: "linked s' (f # map To (Q f @ Q n) @ [f])" by metis
  have new_n: "linked s' [n, n]" by (simp add: nx pv)
  have other: "linked s' (r # map To (Q r) @ [r])" if r: "is_head r" "r \<noteq> f" "r \<noteq> n" for r
  proof (rule queue_untouched [OF Q r(1)])
    have "nodes Q f \<inter> nodes Q r = {}" "nodes Q n \<inter> nodes Q r = {}" using nodes_disjoint [OF Q] f n r by metis+
    then show "circq_next s' a = circq_next s a" "circq_prev s' a = circq_prev s a" if "a \<in> nodes Q r" for a
      using that pn i_n by (auto simp: nx pv nodes_def)
  qed
  have d: "set (Q a) \<inter> set (Q b) = {}" if "is_head a" "is_head b" "a \<noteq> b" for a b using Q that by (simp add: queues_def)
  have dst: "distinct (Q a)" if "is_head a" for a using Q that by (simp add: queues_def)
  show ?thesis unfolding queues_def s'_def [symmetric]
  proof (intro conjI allI impI)
    fix r assume "is_head r"
    then show "linked s' (r # map To ((Q(f := Q f @ Q n, n := [])) r) @ [r])" "distinct ((Q(f := Q f @ Q n, n := [])) r)"
      using other new_f new_n dst d [OF f n fn] f n by auto
  next
    fix a b assume "is_head a \<and> is_head b \<and> a \<noteq> b"
    then show "set ((Q(f := Q f @ Q n, n := [])) a) \<inter> set ((Q(f := Q f @ Q n, n := [])) b) = {}"
      using d f n fn by auto
  qed
qed

lemma circq_frame [simp]:
  "timeouts (CIRCQ_INSERT a b s) = timeouts s" "ticks (CIRCQ_INSERT a b s) = ticks s"
  "timeouts (CIRCQ_REMOVE a s) = timeouts s" "ticks (CIRCQ_REMOVE a s) = ticks s"
  "timeouts (CIRCQ_APPEND a b s) = timeouts s" "ticks (CIRCQ_APPEND a b s) = ticks s"
  "timeouts (CIRCQ_INIT a s) = timeouts s" "ticks (CIRCQ_INIT a s) = ticks s"
  by (simp_all add: CIRCQ_INSERT_def CIRCQ_REMOVE_def CIRCQ_APPEND_def CIRCQ_INIT_def Let_def)

lemma first_queues:
  assumes "queues s Q" and "is_head q"
  shows "CIRCQ_FIRST q s = (case Q q of [] \<Rightarrow> q | i # l \<Rightarrow> To i)" and "CIRCQ_EMPTY q s \<longleftrightarrow> Q q = []"
  using queue_ring [OF assms] assms(2)
  by (cases "Q q"; auto simp: CIRCQ_FIRST_def CIRCQ_EMPTY_def)+

section \<open>The interface of the queues\<close>

text \<open>
  A family of queues that elements move between: what the timing wheel relies on. \<open>holds s Q\<close> says
  that the state \<open>s\<close> represents the lists \<open>Q\<close>.
\<close>

locale queue_family =
  fixes holds :: "'s \<Rightarrow> ('h \<Rightarrow> 'e list) \<Rightarrow> bool"
    and head :: "'h \<Rightarrow> bool"
    and ins :: "'e \<Rightarrow> 'h \<Rightarrow> 's \<Rightarrow> 's"
    and rem :: "'e \<Rightarrow> 's \<Rightarrow> 's"
    and app :: "'h \<Rightarrow> 'h \<Rightarrow> 's \<Rightarrow> 's"
  assumes ins_law: "\<lbrakk>holds s Q; head q; \<And>r. head r \<Longrightarrow> e \<notin> set (Q r)\<rbrakk> \<Longrightarrow> holds (ins e q s) (Q(q := Q q @ [e]))"
    and rem_law: "\<lbrakk>holds s Q; head q; e \<in> set (Q q)\<rbrakk> \<Longrightarrow> holds (rem e s) (Q(q := remove1 e (Q q)))"
    and app_law: "\<lbrakk>holds s Q; head q; head r; q \<noteq> r\<rbrakk> \<Longrightarrow> holds (app q r s) (Q(q := Q q @ Q r, r := []))"
    and once: "\<lbrakk>holds s Q; head q\<rbrakk> \<Longrightarrow> distinct (Q q)"
    and apart: "\<lbrakk>holds s Q; head q; head r; q \<noteq> r\<rbrakk> \<Longrightarrow> set (Q q) \<inter> set (Q r) = {}"
begin

text \<open>Taking an element out leaves it on no queue.\<close>

lemma gone:
  assumes "holds s Q" and "head q" and "e \<in> set (Q q)" and "head r"
  shows "e \<notin> set ((Q(q := remove1 e (Q q))) r)"
  using assms once [OF assms(1,2)] apart [OF assms(1,2,4)] by (auto simp: fun_upd_def)

text \<open>Moving an element to the end of a queue.\<close>

lemma move:
  assumes "holds s Q" and "head q" and "e \<in> set (Q q)" and "head r"
  shows "\<exists>Q'. holds (ins e r (rem e s)) Q' \<and> (\<forall>h. head h \<longrightarrow> set (Q' h) = (if h = r then insert e (set (Q h)) else set (Q h) - {e}))"
proof -
  define Q1 where "Q1 = Q(q := remove1 e (Q q))"
  have h1: "holds (rem e s) Q1" unfolding Q1_def by (rule rem_law [OF assms(1-3)])
  have "holds (ins e r (rem e s)) (Q1(r := Q1 r @ [e]))"
    by (rule ins_law [OF h1 assms(4)]) (use gone [OF assms(1-3)] in \<open>simp add: Q1_def\<close>)
  moreover have "set (Q1 h) = set (Q h) - {e}" if "head h" for h
    using once [OF assms(1,2)] apart [OF assms(1,2) that] assms(3) by (auto simp: Q1_def)
  ultimately show ?thesis using assms(4) by (intro exI [of _ "Q1(r := Q1 r @ [e])"]) auto
qed

text \<open>Emptying several queues into one, in order.\<close>

lemma drain:
  assumes "holds s Q" and "head f" and "\<forall>b \<in> set bs. head b \<and> b \<noteq> f" and "distinct bs"
  shows "holds (fold (app f) bs s) (\<lambda>q. if q \<in> set bs then [] else if q = f then Q f @ concat (map Q bs) else Q q)"
  using assms
proof (induction bs arbitrary: s Q)
  case Nil
  moreover have "(\<lambda>q. if q \<in> set [] then [] else if q = f then Q f @ concat (map Q []) else Q q) = Q" by auto
  ultimately show ?case by (simp only: fold_simps(1))
next
  case (Cons b bs)
  let ?Q = "Q(f := Q f @ Q b, b := [])"
  have "holds (app f b s) ?Q" using Cons.prems by (intro app_law) auto
  from Cons.IH [OF this] Cons.prems
  have "holds (fold (app f) (b # bs) s) (\<lambda>q. if q \<in> set bs then [] else if q = f then ?Q f @ concat (map ?Q bs) else ?Q q)"
    by simp
  moreover have "map ?Q bs = map Q bs" using Cons.prems by (intro map_cong) auto
  then have "(\<lambda>q. if q \<in> set bs then [] else if q = f then ?Q f @ concat (map ?Q bs) else ?Q q)
      = (\<lambda>q. if q \<in> set (b # bs) then [] else if q = f then Q f @ concat (map Q (b # bs)) else Q q)"
    using Cons.prems by (intro ext) auto
  ultimately show ?case by (simp only:)
qed

end

interpretation cq: queue_family queues is_head "\<lambda>i. CIRCQ_INSERT (To i)" "\<lambda>i. CIRCQ_REMOVE (To i)" CIRCQ_APPEND
proof
  show "queues (CIRCQ_INSERT (To e) q s) (Q(q := Q q @ [e]))"
    if "queues s Q" "is_head q" "\<And>r. is_head r \<Longrightarrow> e \<notin> set (Q r)" for s Q q e
    by (rule insert_queues [OF that(1,2)]) (use that(3) in \<open>simp add: queued_def\<close>)
qed (simp_all add: remove_queues append_queues, simp_all add: queues_def)

section \<open>When buckets are emptied\<close>

text \<open>The buckets \<^const>\<open>timeout_hardclock_update\<close> moves to the worklist at tick \<open>t\<close>.\<close>

definition dumped :: "u32 \<Rightarrow> nat list" where
  "dumped t = MASKWHEEL 0 t #
     (if MASKWHEEL 0 t = 0 then (MASKWHEEL 1 t + 256) #
        (if MASKWHEEL 1 t = 0 then (MASKWHEEL 2 t + 512) #
           (if MASKWHEEL 2 t = 0 then [MASKWHEEL 3 t + 768] else [])
         else [])
      else [])"

lemma MASKWHEEL_nat: "MASKWHEEL w t = unat t div 2 ^ (8 * w) mod 256"
proof -
  have "MASKWHEEL w t = unat (take_bit 8 (drop_bit (8 * w) t))"
    by (simp add: MASKWHEEL_def WHEELBITS_def WHEELMASK_def take_bit_eq_mask mask_eq_exp_minus_1 mult.commute)
  also have "\<dots> = take_bit 8 (drop_bit (8 * w) (unat t))"
    by (simp only: unsigned_take_bit_eq unsigned_drop_bit_eq take_bit_nat_eq_self unsigned_less)
  finally show ?thesis by (simp add: take_bit_eq_mod drop_bit_eq_div)
qed

lemma MASKWHEEL_less: "MASKWHEEL w t < 256"
  by (simp add: MASKWHEEL_nat)

lemma dumped_ok: "distinct (dumped t)" "\<forall>b \<in> set (dumped t). b < BUCKETS"
  using MASKWHEEL_less [of 0 t] MASKWHEEL_less [of 1 t] MASKWHEEL_less [of 2 t] MASKWHEEL_less [of 3 t]
  by (auto simp: dumped_def BUCKETS_def)

lemma hardclock_drain:
  "fst (timeout_hardclock_update s) = fold (CIRCQ_APPEND Todo) (map Wheel (dumped (ticks s + 1))) (s\<lparr>ticks := ticks s + 1\<rparr>)"
  by (simp add: timeout_hardclock_update_def Let_def MOVEBUCKET_def dumped_def WHEELSIZE_def)

lemma dumped_level:
  assumes "w < 4" and "unat t mod 2 ^ (8 * w) = 0"
  shows "MASKWHEEL w t + 256 * w \<in> set (dumped t)"
proof -
  have "MASKWHEEL j t = 0" if "j < w" for j
  proof -
    have "2 ^ (8 * Suc j) dvd (2::nat) ^ (8 * w)" using that by (intro le_imp_power_dvd) auto
    moreover have "2 ^ (8 * w) dvd unat t" using assms(2) by (simp add: mod_eq_0_iff_dvd)
    ultimately have "2 ^ (8 * Suc j) dvd unat t" by (rule dvd_trans)
    then have "2 ^ (8 * j) * 256 dvd unat t" by (simp add: power_add mult.commute)
    then show ?thesis by (auto simp: MASKWHEEL_nat elim!: dvdE)
  qed
  then have "MASKWHEEL 0 t = 0 \<or> w = 0" "MASKWHEEL 1 t = 0 \<or> w < 2" "MASKWHEEL 2 t = 0 \<or> w < 3" by auto
  moreover have "w = 0 \<or> w = 1 \<or> w = 2 \<or> w = 3" using assms(1) by auto
  ultimately show ?thesis by (auto simp: dumped_def)
qed

text \<open>
  A timeout that is \<open>rel\<close> ticks away goes into a bucket that is emptied after at least one and at most \<open>rel\<close> ticks.
\<close>

lemma sint_u32: "sint w = (if unat w < 2 ^ 31 then int (unat w) else int (unat w) - 2 ^ 32)" for w :: u32
proof -
  have u: "0 \<le> uint w" "uint w < 2 ^ 32" using unsigned_less [of w, where 'a = int] by simp_all
  have "sint w = signed_take_bit 31 (uint w)" using sint_uint [of w] by simp
  also have "\<dots> = (uint w + 2 ^ 31) mod 2 ^ 32 - 2 ^ 31" by (simp add: signed_take_bit_eq_take_bit_shift take_bit_eq_mod)
  also have "\<dots> = (if uint w < 2 ^ 31 then uint w else uint w - 2 ^ 32)"
  proof (cases "uint w < 2 ^ 31")
    case True
    then have "(uint w + 2 ^ 31) mod 2 ^ 32 = uint w + 2 ^ 31" using u by (intro mod_pos_pos_trivial) auto
    then show ?thesis using True by simp
  next
    case False
    then have "(uint w - 2 ^ 31) mod 2 ^ 32 = uint w - 2 ^ 31" using u by (intro mod_pos_pos_trivial) auto
    moreover have "(uint w + 2 ^ 31) mod 2 ^ 32 = (uint w - 2 ^ 31) mod 2 ^ 32"
      using mod_add_self2 [of "uint w - 2 ^ 31" "2 ^ 32"] by (simp add: add.commute)
    ultimately show ?thesis using False by simp
  qed
  finally have "sint w = (if int (unat w) < 2 ^ 31 then int (unat w) else int (unat w) - 2 ^ 32)" by simp
  then show ?thesis by (simp del: of_nat_unat)
qed

lemma due_nat:
  fixes w :: u32
  assumes "0 < sint w"
  shows "unat w < 2 ^ 31" and "sint w = int (unat w)" and "0 < unat w"
proof -
  define n where "n = unat w"
  have "n < 2 ^ 32" using unsigned_less [of w, where 'a = nat] by (simp add: n_def)
  moreover have "sint w = (if n < 2 ^ 31 then int n else int n - 2 ^ 32)" unfolding n_def by (rule sint_u32)
  ultimately have "n < 2 ^ 31 \<and> sint w = int n \<and> 0 < n" using assms by (auto split: if_splits)
  then show "unat w < 2 ^ 31" "sint w = int (unat w)" "0 < unat w" by (simp_all only: n_def)
qed

lemma BUCKET_dumped:
  assumes rel: "0 < sint rel"
  shows "\<exists>b k. BUCKET rel (t + rel) = Wheel b \<and> b < BUCKETS \<and> 0 < k \<and> k \<le> unat rel \<and> b \<in> set (dumped (t + word_of_nat k))"
proof -
  define a where "a = unat (t + rel)"
  define n where "n = unat rel"
  have r: "n < 2 ^ 31" "sint rel = int n" "0 < n" using due_nat [OF rel] by (simp_all only: n_def)
  obtain w where w: "w < 4" "BUCKET rel (t + rel) = Wheel (MASKWHEEL w (t + rel) + 256 * w)"
    and big: "w = 0 \<or> 2 ^ (8 * w) < n"
  proof (cases "sint rel \<le> 2 ^ 8"; cases "sint rel \<le> 2 ^ 16"; cases "sint rel \<le> 2 ^ 24")
    assume "sint rel \<le> 2 ^ 8" "sint rel \<le> 2 ^ 16" "sint rel \<le> 2 ^ 24"
    then show thesis by (intro that [of 0]) (simp_all add: BUCKET_def WHEELBITS_def WHEELSIZE_def)
  next
    assume "\<not> sint rel \<le> 2 ^ 8" "sint rel \<le> 2 ^ 16" "sint rel \<le> 2 ^ 24"
    then show thesis using r by (intro that [of 1]) (simp_all add: BUCKET_def WHEELBITS_def WHEELSIZE_def)
  next
    assume "\<not> sint rel \<le> 2 ^ 8" "\<not> sint rel \<le> 2 ^ 16" "sint rel \<le> 2 ^ 24"
    then show thesis using r by (intro that [of 2]) (simp_all add: BUCKET_def WHEELBITS_def WHEELSIZE_def)
  next
    assume "\<not> sint rel \<le> 2 ^ 8" "\<not> sint rel \<le> 2 ^ 16" "\<not> sint rel \<le> 2 ^ 24"
    then show thesis using r by (intro that [of 3]) (simp_all add: BUCKET_def WHEELBITS_def WHEELSIZE_def)
  qed simp_all
  define m where "m = a mod 2 ^ (8 * w)"
  define k where "k = n - m"
  have m: "m < n" "m \<le> a" using big r(3) mod_less_divisor [of "2 ^ (8 * w)" a] by (auto simp: m_def simp del: mod_less_divisor)
  have "t + word_of_nat k = (t + rel) - word_of_nat m" using m(1) by (simp add: k_def of_nat_diff n_def)
  moreover have "unat (word_of_nat m :: u32) = m"
    using m(2) unsigned_less [of "t + rel", where 'a = nat] by (simp add: a_def unat_of_nat)
  ultimately have T: "unat (t + word_of_nat k) = a - m"
    using m(2) unat_minus_below [of "word_of_nat m" "t + rel"] by (simp add: a_def word_le_nat_alt add_diff_eq)
  then have "unat (t + word_of_nat k) mod 2 ^ (8 * w) = 0" by (simp add: m_def)
  from dumped_level [OF w(1) this] have "MASKWHEEL w (t + word_of_nat k) + 256 * w \<in> set (dumped (t + word_of_nat k))" .
  moreover have "(a - m) div 2 ^ (8 * w) = a div 2 ^ (8 * w)" by (simp add: m_def minus_mod_eq_div_mult)
  then have "MASKWHEEL w (t + word_of_nat k) = MASKWHEEL w (t + rel)" by (simp add: MASKWHEEL_nat T a_def [symmetric])
  moreover have "0 < k" "k \<le> unat rel" using m(1) by (simp_all add: k_def n_def)
  moreover have "MASKWHEEL w (t + rel) + 256 * w < BUCKETS" using MASKWHEEL_less [of w "t + rel"] w(1) by (simp add: BUCKETS_def)
  ultimately show ?thesis using w(2) by (metis (no_types))
qed

section \<open>Invariant\<close>

abbreviation pending :: "tmo_state \<Rightarrow> nat \<Rightarrow> bool" where
  "pending s i \<equiv> TIMEOUT_ONQUEUE \<in> to_flags (timeouts s i)"

definition time_left :: "tmo_state \<Rightarrow> nat \<Rightarrow> u32" where
  "time_left s i = to_time (timeouts s i) - ticks s"

text \<open>Bucket \<open>b\<close> is emptied at one of the next \<open>m\<close> ticks.\<close>

definition emptied_within :: "u32 \<Rightarrow> nat \<Rightarrow> nat \<Rightarrow> bool" where
  "emptied_within t m b \<longleftrightarrow> (\<exists>k. 0 < k \<and> k \<le> m \<and> b \<in> set (dumped (t + word_of_nat k)))"

text \<open>
  The pending timeouts are those on a queue; one in a bucket is not yet due and its bucket is emptied in time.
\<close>

definition tmo_ok :: "tmo_state \<Rightarrow> (circq \<Rightarrow> nat list) \<Rightarrow> bool" where
  "tmo_ok s Q \<longleftrightarrow> queues s Q \<and> (\<forall>i. queued Q i \<longleftrightarrow> pending s i)
     \<and> (\<forall>b i. b < BUCKETS \<and> i \<in> set (Q (Wheel b)) \<longrightarrow>
          0 < sint (time_left s i) \<and> emptied_within (ticks s) (unat (time_left s i)) b)"

lemma tmo_ok_queues: "tmo_ok s Q \<Longrightarrow> queues s Q"
  and tmo_ok_pending: "tmo_ok s Q \<Longrightarrow> queued Q i \<longleftrightarrow> pending s i"
  and tmo_ok_bucket: "tmo_ok s Q \<Longrightarrow> b < BUCKETS \<Longrightarrow> i \<in> set (Q (Wheel b)) \<Longrightarrow>
    0 < sint (time_left s i) \<and> emptied_within (ticks s) (unat (time_left s i)) b"
  by (auto simp: tmo_ok_def)

text \<open>A due timeout waits on the worklist.\<close>

lemma due_on_todo:
  assumes "tmo_ok s Q" and "pending s i" and "sint (time_left s i) \<le> 0"
  shows "i \<in> set (Q Todo)"
proof -
  obtain q where q: "is_head q" "i \<in> set (Q q)" 
    using tmo_ok_pending [OF assms(1), of i] assms(2) by (auto simp: queued_def)
  then show ?thesis using assms tmo_ok_bucket [OF assms(1)] by (cases q) fastforce+
qed

lemma upd_frame [simp]:
  "circq_next (upd_timeout i f s) = circq_next s" "circq_prev (upd_timeout i f s) = circq_prev s"
  "ticks (upd_timeout i f s) = ticks s" "timeouts (upd_timeout i f s) = (timeouts s)(i := f (timeouts s i))"
  by (simp_all add: upd_timeout_def)

lemma queues_upd: "queues s Q \<Longrightarrow> queues (upd_timeout i f s) Q"
  by (rule queues_frame) simp_all

lemma queued_set_cong: "(\<And>h. is_head h \<Longrightarrow> set (Q' h) = set (Q h)) \<Longrightarrow> queued Q' i = queued Q i"
  by (auto simp: queued_def)

text \<open>Sets of a family of queues in which \<open>i\<close> alone moved to queue \<open>r\<close>.\<close>

definition moved_to :: "nat \<Rightarrow> circq \<Rightarrow> (circq \<Rightarrow> nat list) \<Rightarrow> (circq \<Rightarrow> nat list) \<Rightarrow> bool" where
  "moved_to i r Q Q' \<longleftrightarrow> (\<forall>h. is_head h \<longrightarrow> set (Q' h) = (if h = r then insert i (set (Q h)) else set (Q h) - {i}))"

lemma queued_moved: "moved_to i r Q Q' \<Longrightarrow> is_head r \<Longrightarrow> queued Q' j \<longleftrightarrow> queued Q j \<or> j = i"
  unfolding moved_to_def queued_def by (metis (mono_tags) Diff_iff insert_iff singletonD)

lemma move_queued:
  assumes "queues s Q" and "queued Q i" and "is_head r"
  shows "\<exists>Q'. queues (CIRCQ_INSERT (To i) r (CIRCQ_REMOVE (To i) s)) Q' \<and> moved_to i r Q Q'"
proof -
  obtain q where "is_head q" "i \<in> set (Q q)" using assms(2) by (auto simp: queued_def)
  then show ?thesis unfolding moved_to_def using cq.move [OF assms(1) _ _ assms(3)] by blast
qed

lemma insert_new:
  assumes "queues s Q" and "\<not> queued Q i" and "is_head r"
  shows "\<exists>Q'. queues (CIRCQ_INSERT (To i) r s) Q' \<and> moved_to i r Q Q'"
  using insert_queues [OF assms(1,3,2)] assms
  by (intro exI [of _ "Q(r := Q r @ [i])"]) (auto simp: moved_to_def queued_def)

lemma remove_queued:
  assumes "queues s Q" and "queued Q i"
  shows "\<exists>Q'. queues (CIRCQ_REMOVE (To i) s) Q' \<and> (\<forall>h. is_head h \<longrightarrow> set (Q' h) = set (Q h) - {i})"
proof -
  obtain q where q: "is_head q" "i \<in> set (Q q)" using assms(2) by (auto simp: queued_def)
  have "set ((Q(q := remove1 i (Q q))) h) = set (Q h) - {i}" if "is_head h" for h
    using cq.once [OF assms(1) q(1)] cq.apart [OF assms(1) q(1) that] q(2) by auto
  then show ?thesis using remove_queues [OF assms(1) q] by blast
qed

subsection \<open>Preservation\<close>

lemma tmo_ok_todo:
  assumes ok: "tmo_ok s Q" and Q': "queues s' Q'" "moved_to i Todo Q Q'" and ticks: "ticks s' = ticks s"
    and other: "\<And>j. j \<noteq> i \<Longrightarrow> timeouts s' j = timeouts s j" and pend: "pending s' i"
  shows "tmo_ok s' Q'"
  unfolding tmo_ok_def
proof (intro conjI allI impI)
  fix j
  show "queued Q' j = pending s' j"
    using queued_moved [OF Q'(2), of j] tmo_ok_pending [OF ok, of j] other [of j] pend by (cases "j = i") auto
next
  fix b j assume b: "b < BUCKETS \<and> j \<in> set (Q' (Wheel b))"
  then have "j \<noteq> i" "j \<in> set (Q (Wheel b))" using Q'(2) by (auto simp: moved_to_def)
  then show "0 < sint (time_left s' j)" "emptied_within (ticks s') (unat (time_left s' j)) b"
    using tmo_ok_bucket [OF ok, of b j] b other ticks by (auto simp: time_left_def)
qed (rule Q'(1))

lemma emptied_mono: "emptied_within t m b \<Longrightarrow> m \<le> m' \<Longrightarrow> emptied_within t m' b"
  by (auto simp: emptied_within_def)

lemma timeout_add_ok:
  assumes ok: "tmo_ok s Q" and add: "timeout_add diag i n s = Some s'"
  shows "\<exists>Q'. tmo_ok s' Q'" and "pending s' i" and "time_left s' i = n" and "ticks s' = ticks s"
    and "j \<noteq> i \<Longrightarrow> timeouts s' j = timeouts s j"
    and "to_func (timeouts s' j) = to_func (timeouts s j)" "to_arg (timeouts s' j) = to_arg (timeouts s j)"
proof -
  define s1 where "s1 = upd_timeout i (\<lambda>to. to\<lparr>to_time := n + ticks s, to_flags := to_flags to - {TIMEOUT_TRIGGERED}\<rparr>) s"
  define s2 where "s2 = upd_timeout i (\<lambda>to. to\<lparr>to_flags := insert TIMEOUT_ONQUEUE (to_flags to)\<rparr>) s1"
  have tl: "time_left s1 i = n" "time_left s i = to_time (timeouts s i) - ticks s" by (simp_all add: s1_def time_left_def)
  consider
      (earlier) "pending s i" "sint n < sint (time_left s i)" "s' = CIRCQ_INSERT (To i) Todo (CIRCQ_REMOVE (To i) s1)"
    | (later) "pending s i" "\<not> sint n < sint (time_left s i)" "s' = s1"
    | (fresh) "\<not> pending s i" "s' = CIRCQ_INSERT (To i) Todo s2"
    using add by (auto simp: timeout_add_def Let_def s1_def s2_def time_left_def split: if_splits)
  note case_add = this
  show "pending s' i" "time_left s' i = n" "ticks s' = ticks s"
    "to_func (timeouts s' j) = to_func (timeouts s j)" "to_arg (timeouts s' j) = to_arg (timeouts s j)"
    using case_add by (cases; simp add: s1_def s2_def time_left_def)+
  show "j \<noteq> i \<Longrightarrow> timeouts s' j = timeouts s j" using case_add by (cases; simp add: s1_def s2_def)
  have Q1: "queues s1 Q" unfolding s1_def by (rule queues_upd [OF tmo_ok_queues [OF ok]])
  have Q2: "queues s2 Q" unfolding s2_def by (rule queues_upd [OF Q1])
  from case_add show "\<exists>Q'. tmo_ok s' Q'"
  proof cases
    case earlier
    then have "queued Q i" using tmo_ok_pending [OF ok] by simp
    from move_queued [OF Q1 this, where r = Todo] obtain Q' where "queues s' Q'" "moved_to i Todo Q Q'"
      unfolding earlier(3) by auto
    from tmo_ok_todo [OF ok this] earlier show ?thesis by (auto simp: s1_def)
  next
    case fresh
    then have "\<not> queued Q i" using tmo_ok_pending [OF ok] by simp
    from insert_new [OF Q2 this, where r = Todo] obtain Q' where "queues s' Q'" "moved_to i Todo Q Q'"
      unfolding fresh(2) by auto
    from tmo_ok_todo [OF ok this] fresh show ?thesis by (auto simp: s1_def s2_def)
  next
    case later
    have "tmo_ok s1 Q" unfolding tmo_ok_def
    proof (intro conjI allI impI)
      show "queues s1 Q" by (rule Q1)
      show "queued Q j = pending s1 j" for j using tmo_ok_pending [OF ok, of j] by (simp add: s1_def)
      fix b j assume "b < BUCKETS \<and> j \<in> set (Q (Wheel b))"
      then have old: "0 < sint (time_left s j)" "emptied_within (ticks s) (unat (time_left s j)) b"
        using tmo_ok_bucket [OF ok] by auto
      show "0 < sint (time_left s1 j)" "emptied_within (ticks s1) (unat (time_left s1 j)) b"
      proof -
        have n: "0 < sint n" "unat (time_left s i) \<le> unat n" if "j = i"
          using later(2) old(1) due_nat [of n] due_nat [of "time_left s i"] that by (auto simp del: of_nat_unat)
        show "0 < sint (time_left s1 j)"
          using n(1) tl old by (cases "j = i") (auto simp: time_left_def s1_def)
        show "emptied_within (ticks s1) (unat (time_left s1 j)) b"
        proof (cases "j = i")
          case True
          then show ?thesis using emptied_mono [OF old(2)] n(2) tl by (simp add: s1_def)
        qed (use old in \<open>simp add: time_left_def s1_def\<close>)
      qed
    qed
    then show ?thesis using later by blast
  qed
qed

lemma tmo_ok_taken:
  assumes ok: "tmo_ok s Q" and Q': "queues s' Q'" "\<And>h. is_head h \<Longrightarrow> set (Q' h) = set (Q h) - {i}" and ticks: "ticks s' = ticks s"
    and other: "\<And>j. j \<noteq> i \<Longrightarrow> timeouts s' j = timeouts s j" and pend: "\<not> pending s' i"
  shows "tmo_ok s' Q'"
  unfolding tmo_ok_def
proof (intro conjI allI impI)
  fix j
  have "queued Q' j \<longleftrightarrow> queued Q j \<and> j \<noteq> i" using Q'(2) by (auto simp: queued_def)
  then show "queued Q' j = pending s' j" using tmo_ok_pending [OF ok, of j] other [of j] pend by (cases "j = i") auto
next
  fix b j assume b: "b < BUCKETS \<and> j \<in> set (Q' (Wheel b))"
  then have "j \<noteq> i" "j \<in> set (Q (Wheel b))" using Q'(2) by auto
  then show "0 < sint (time_left s' j)" "emptied_within (ticks s') (unat (time_left s' j)) b"
    using tmo_ok_bucket [OF ok, of b j] b other ticks by (auto simp: time_left_def)
qed (rule Q'(1))

lemma tmo_ok_idle:
  assumes ok: "tmo_ok s Q" and "circq_next s' = circq_next s" "circq_prev s' = circq_prev s" "ticks s' = ticks s"
    and "\<And>j. pending s' j = pending s j" "\<And>j. pending s j \<Longrightarrow> to_time (timeouts s' j) = to_time (timeouts s j)"
  shows "tmo_ok s' Q"
proof -
  have "time_left s' j = time_left s j" if "b < BUCKETS" "j \<in> set (Q (Wheel b))" for j b
  proof -
    have "queued Q j" using that unfolding queued_def by (intro exI [of _ "Wheel b"]) simp
    then show ?thesis using tmo_ok_pending [OF ok, of j] assms(4,6) by (simp add: time_left_def)
  qed
  then show ?thesis using ok queues_frame [OF tmo_ok_queues [OF ok] assms(2,3)] assms(4,5) unfolding tmo_ok_def by metis
qed

lemma timeout_del_ok:
  assumes ok: "tmo_ok s Q"
  shows "\<exists>Q'. tmo_ok (timeout_del i s) Q'" and "\<not> pending (timeout_del i s) i" and "ticks (timeout_del i s) = ticks s"
    and "j \<noteq> i \<Longrightarrow> timeouts (timeout_del i s) j = timeouts s j"
    and "to_time (timeouts (timeout_del i s) j) = to_time (timeouts s j)"
    and "to_func (timeouts (timeout_del i s) j) = to_func (timeouts s j)" "to_arg (timeouts (timeout_del i s) j) = to_arg (timeouts s j)"
proof -
  show "\<not> pending (timeout_del i s) i" "ticks (timeout_del i s) = ticks s"
    "to_time (timeouts (timeout_del i s) j) = to_time (timeouts s j)"
    "to_func (timeouts (timeout_del i s) j) = to_func (timeouts s j)" "to_arg (timeouts (timeout_del i s) j) = to_arg (timeouts s j)"
    by (simp_all add: timeout_del_def)
  show "j \<noteq> i \<Longrightarrow> timeouts (timeout_del i s) j = timeouts s j" by (simp add: timeout_del_def)
  show "\<exists>Q'. tmo_ok (timeout_del i s) Q'"
  proof (cases "pending s i")
    case False
    then have "tmo_ok (timeout_del i s) Q" by (intro tmo_ok_idle [OF ok]) (auto simp: timeout_del_def)
    then show ?thesis by blast
  next
    case True
    then have "queued Q i" using tmo_ok_pending [OF ok] by simp
    from remove_queued [OF tmo_ok_queues [OF ok] this] obtain Q'
      where Q': "queues (CIRCQ_REMOVE (To i) s) Q'" "\<And>h. is_head h \<Longrightarrow> set (Q' h) = set (Q h) - {i}" by auto
    have "queues (timeout_del i s) Q'" by (rule queues_frame [OF Q'(1)]) (use True in \<open>simp_all add: timeout_del_def\<close>)
    from tmo_ok_taken [OF ok this Q'(2)] True have "tmo_ok (timeout_del i s) Q'" by (auto simp: timeout_del_def)
    then show ?thesis by blast
  qed
qed

lemma timeout_set_ok:
  assumes "tmo_ok s Q" and "\<not> pending s i"
  shows "tmo_ok (timeout_set i fn arg s) Q"
  by (rule tmo_ok_idle [OF assms(1)]) (use assms(2) in \<open>auto simp: timeout_set_def\<close>)

lemma timeout_startup_queues: "queues (timeout_startup s) (\<lambda>_. [])"
proof -
  define inits where "inits l s = fold CIRCQ_INIT l s" for l s
  have keep: "circq_next (inits l s) q = (if q \<in> set l then q else circq_next s q)
      \<and> circq_prev (inits l s) q = (if q \<in> set l then q else circq_prev s q)" for l s q
    by (induction l arbitrary: s) (auto simp: inits_def CIRCQ_INIT_def)
  have "timeout_startup s = inits (Todo # map Wheel [0..<BUCKETS]) s"
    by (simp add: timeout_startup_def inits_def fold_map comp_def)
  moreover have "q \<in> set (Todo # map Wheel [0..<BUCKETS])" if "is_head q" for q using that by (cases q) auto
  ultimately show ?thesis using keep by (simp add: queues_def)
qed

lemma timeout_startup_frame [simp]: "timeouts (timeout_startup s) = timeouts s" "ticks (timeout_startup s) = ticks s"
proof -
  have "timeouts (fold (\<lambda>b. CIRCQ_INIT (Wheel b)) l s) = timeouts s \<and> ticks (fold (\<lambda>b. CIRCQ_INIT (Wheel b)) l s) = ticks s" for l s
    by (induction l arbitrary: s) auto
  then show "timeouts (timeout_startup s) = timeouts s" "ticks (timeout_startup s) = ticks s" by (simp_all add: timeout_startup_def)
qed

lemma timeout_startup_ok: "(\<And>i. \<not> pending s i) \<Longrightarrow> tmo_ok (timeout_startup s) (\<lambda>_. [])"
  using timeout_startup_queues [of s] by (simp add: tmo_ok_def queued_def)

lemma fold_append_frame [simp]:
  "timeouts (fold (CIRCQ_APPEND q) l s) = timeouts s" "ticks (fold (CIRCQ_APPEND q) l s) = ticks s"
  by (induction l arbitrary: s) auto

lemma unat_pred: "0 < unat w \<Longrightarrow> unat (w - 1) = unat w - 1" for w :: u32
  using unat_pred_above [of 0 w] by (simp add: word_less_nat_alt)

lemma emptied_next:
  assumes "emptied_within t m b" and "b \<notin> set (dumped (t + 1))"
  shows "emptied_within (t + 1) (m - 1) b" and "1 < m"
proof -
  obtain k where k: "0 < k" "k \<le> m" "b \<in> set (dumped (t + word_of_nat k))" using assms(1) by (auto simp: emptied_within_def)
  with assms(2) have "k \<noteq> 1" by auto
  then have "t + 1 + word_of_nat (k - 1) = t + word_of_nat k" "0 < k - 1" "k - 1 \<le> m - 1"
    using k by (auto simp: of_nat_diff)
  then show "emptied_within (t + 1) (m - 1) b" "1 < m" using k unfolding emptied_within_def by (metis, linarith)
qed

lemma hardclock_ok:
  assumes ok: "tmo_ok s Q"
  defines "s' \<equiv> fst (timeout_hardclock_update s)"
  shows "\<exists>Q'. tmo_ok s' Q' \<and> (snd (timeout_hardclock_update s) \<longleftrightarrow> Q' Todo \<noteq> [])"
    and "timeouts s' = timeouts s" and "ticks s' = ticks s + 1"
proof -
  show fr: "timeouts s' = timeouts s" "ticks s' = ticks s + 1" by (simp_all add: s'_def hardclock_drain)
  define bs where "bs = map Wheel (dumped (ticks s + 1))"
  define Q' where "Q' = (\<lambda>q. if q \<in> set bs then [] else if q = Todo then Q Todo @ concat (map Q bs) else Q q)"
  have "queues (s\<lparr>ticks := ticks s + 1\<rparr>) Q" by (rule queues_frame [OF tmo_ok_queues [OF ok]]) simp_all
  moreover have "distinct bs" using dumped_ok(1) by (simp add: bs_def distinct_map inj_on_def)
  ultimately have Q: "queues s' Q'"
    unfolding s'_def hardclock_drain Q'_def bs_def by (intro cq.drain) (use dumped_ok(2) in auto)
  have tl: "time_left s' i = time_left s i - 1" for i by (simp add: time_left_def fr)
  have "tmo_ok s' Q'" unfolding tmo_ok_def
  proof (intro conjI allI impI)
    fix i
    have "queued Q' i \<longleftrightarrow> queued Q i"
    proof
      assume "queued Q' i"
      then show "queued Q i" using dumped_ok(2) by (auto simp: queued_def Q'_def bs_def split: if_splits)
    next
      assume "queued Q i"
      then obtain q where "is_head q" "i \<in> set (Q q)" by (auto simp: queued_def)
      then have "i \<in> set (Q' (if q \<in> set bs then Todo else q))" by (auto simp: Q'_def bs_def)
      then show "queued Q' i" using \<open>is_head q\<close> unfolding queued_def by (metis is_head_simps(1))
    qed
    then show "queued Q' i = pending s' i" using tmo_ok_pending [OF ok, of i] fr by simp
  next
    fix b i assume b: "b < BUCKETS \<and> i \<in> set (Q' (Wheel b))"
    then have nb: "b \<notin> set (dumped (ticks s + 1))" "i \<in> set (Q (Wheel b))" by (auto simp: Q'_def bs_def split: if_splits)
    with b have old: "0 < sint (time_left s i)" "emptied_within (ticks s) (unat (time_left s i)) b"
      using tmo_ok_bucket [OF ok] by auto
    note e = emptied_next [OF old(2) nb(1)]
    define n where "n = unat (time_left s i)"
    have n: "n < 2 ^ 31" "1 < n" using due_nat [OF old(1)] e(2) by (simp_all add: n_def)
    have u: "unat (time_left s' i) = n - 1" unfolding tl n_def by (rule unat_pred) (use n in \<open>simp add: n_def\<close>)
    then show "emptied_within (ticks s') (unat (time_left s' i)) b" using e(1) by (simp add: fr n_def)
    show "0 < sint (time_left s' i)" using u n by (simp add: sint_u32 del: of_nat_unat)
  qed (rule Q)
  moreover have "snd (timeout_hardclock_update s) \<longleftrightarrow> Q' Todo \<noteq> []"
    using first_queues(2) [OF Q, of Todo] by (simp add: s'_def timeout_hardclock_update_def Let_def)
  ultimately show "\<exists>Q'. tmo_ok s' Q' \<and> (snd (timeout_hardclock_update s) \<longleftrightarrow> Q' Todo \<noteq> [])" by blast
qed

lemma softclock_turn_ok:
  assumes ok: "tmo_ok s Q" and turn: "softclock_turn s = (s', out)"
  shows "Q Todo = [] \<Longrightarrow> out = Idle \<and> s' = s"
    and "Q Todo = i # l \<Longrightarrow> 0 < sint (time_left s i) \<Longrightarrow>
      out = Requeued i \<and> timeouts s' = timeouts s \<and> ticks s' = ticks s \<and> (\<exists>Q'. tmo_ok s' Q' \<and> Q' Todo = l)"
    and "Q Todo = i # l \<Longrightarrow> \<not> 0 < sint (time_left s i) \<Longrightarrow>
      out = Fire i (to_func (timeouts s i)) (to_arg (timeouts s i)) \<and> ticks s' = ticks s \<and> (\<exists>Q'. tmo_ok s' Q')
      \<and> timeouts s' = (timeouts s)(i := (timeouts s i)\<lparr>to_flags := insert TIMEOUT_TRIGGERED (to_flags (timeouts s i) - {TIMEOUT_ONQUEUE})\<rparr>)"
proof -
  note Q = tmo_ok_queues [OF ok]
  show "out = Idle \<and> s' = s" if "Q Todo = []"
    using turn that first_queues(2) [OF Q, of Todo] by (simp add: softclock_turn_def)
  define s1 where "s1 = CIRCQ_REMOVE (To i) s"
  define Q1 where "Q1 = Q(Todo := l)"
  have first: "\<not> CIRCQ_EMPTY Todo s" "CIRCQ_FIRST Todo s = To i" if "Q Todo = i # l"
    using that first_queues [OF Q, of Todo] by simp_all
  have Q1: "queues s1 Q1" "\<And>h. is_head h \<Longrightarrow> set (Q1 h) = set (Q h) - {i}" if "Q Todo = i # l"
  proof -
    show "queues s1 Q1" using remove_queues [OF Q, of Todo i] that by (simp add: s1_def Q1_def)
    show "set (Q1 h) = set (Q h) - {i}" if h: "is_head h" for h
      using cq.once [OF Q, of Todo] cq.apart [OF Q _ h, of Todo] \<open>Q Todo = i # l\<close> by (auto simp: Q1_def)
  qed
  have fr: "timeouts s1 = timeouts s" "ticks s1 = ticks s" by (simp_all add: s1_def)
  show "out = Requeued i \<and> timeouts s' = timeouts s \<and> ticks s' = ticks s \<and> (\<exists>Q'. tmo_ok s' Q' \<and> Q' Todo = l)"
    if il: "Q Todo = i # l" and pos: "0 < sint (time_left s i)"
  proof -
    obtain b k where b: "BUCKET (time_left s i) (ticks s + time_left s i) = Wheel b" "b < BUCKETS" "0 < k" "k \<le> unat (time_left s i)"
      "b \<in> set (dumped (ticks s + word_of_nat k))" using BUCKET_dumped [OF pos] by blast
    have "s' = CIRCQ_INSERT (To i) (Wheel b) s1" "out = Requeued i"
      using turn first [OF il] pos b(1) by (simp_all add: softclock_turn_def Let_def fr s1_def [symmetric] time_left_def)
    note s' = this
    define Q' where "Q' = Q1(Wheel b := Q1 (Wheel b) @ [i])"
    have nq: "\<not> queued Q1 i" using Q1(2) [OF il] by (auto simp: queued_def)
    have Q': "queues s' Q'" unfolding s' Q'_def by (rule insert_queues [OF Q1(1) [OF il] _ nq]) (use b in simp)
    have tl: "time_left s' j = time_left s j" for j by (simp add: s' fr time_left_def)
    have sets: "set (Q' h) = (if h = Wheel b then insert i (set (Q h)) else set (Q h) - {i})" if "is_head h" for h
      using Q1(2) [OF il that] by (auto simp: Q'_def)
    then have "moved_to i (Wheel b) Q Q'" by (simp add: moved_to_def)
    from queued_moved [OF this] b have qd: "queued Q' j \<longleftrightarrow> queued Q j \<or> j = i" for j by simp
    have "queued Q i" using il unfolding queued_def by (intro exI [of _ Todo]) simp
    then have qd': "queued Q' j \<longleftrightarrow> queued Q j" for j using qd by auto
    have "tmo_ok s' Q'" unfolding tmo_ok_def
    proof (intro conjI allI impI)
      show "queued Q' j = pending s' j" for j using qd' tmo_ok_pending [OF ok, of j] by (simp add: s' fr)
      fix c j assume c: "c < BUCKETS \<and> j \<in> set (Q' (Wheel c))"
      then consider "j = i" "c = b" | "j \<in> set (Q (Wheel c))" using sets [of "Wheel c"] by (auto split: if_splits)
      then have "0 < sint (time_left s j) \<and> emptied_within (ticks s) (unat (time_left s j)) c"
        by cases (use pos b c tmo_ok_bucket [OF ok] in \<open>auto simp: emptied_within_def\<close>)
      then show "0 < sint (time_left s' j)" "emptied_within (ticks s') (unat (time_left s' j)) c"
        by (simp_all add: tl) (simp_all add: s' fr)
    qed (rule Q')
    moreover have "Q' Todo = l" by (simp add: Q'_def Q1_def)
    ultimately show ?thesis using s' fr by auto
  qed
  show "out = Fire i (to_func (timeouts s i)) (to_arg (timeouts s i)) \<and> ticks s' = ticks s \<and> (\<exists>Q'. tmo_ok s' Q')
      \<and> timeouts s' = (timeouts s)(i := (timeouts s i)\<lparr>to_flags := insert TIMEOUT_TRIGGERED (to_flags (timeouts s i) - {TIMEOUT_ONQUEUE})\<rparr>)"
    if il: "Q Todo = i # l" and due: "\<not> 0 < sint (time_left s i)"
  proof -
    have s': "s' = upd_timeout i (\<lambda>to. to\<lparr>to_flags := insert TIMEOUT_TRIGGERED (to_flags to - {TIMEOUT_ONQUEUE})\<rparr>) s1"
      "out = Fire i (to_func (timeouts s i)) (to_arg (timeouts s i))"
      using turn first [OF il] due by (simp_all add: softclock_turn_def Let_def fr s1_def [symmetric] time_left_def)
    have "queues s' Q1" by (rule queues_frame [OF Q1(1) [OF il]]) (simp_all add: s')
    from tmo_ok_taken [OF ok this Q1(2) [OF il]] have "tmo_ok s' Q1" by (simp add: s' fr)
    then show ?thesis using s' fr by auto
  qed
qed

section \<open>The software interrupt\<close>

definition due_set :: "tmo_state \<Rightarrow> nat set" where
  "due_set s = {i. pending s i \<and> sint (time_left s i) \<le> 0}"

fun call_target :: "tmo_call \<Rightarrow> nat" where
  "call_target (CallAdd i n) = i"
| "call_target (CallDel i) = i"

text \<open>Handlers that only add timeouts which are initialized, with a positive number of ticks.\<close>

definition call_ok :: "tmo_state \<Rightarrow> tmo_call \<Rightarrow> bool" where
  "call_ok s c \<longleftrightarrow> (case c of CallAdd i n \<Rightarrow> TIMEOUT_INITIALIZED \<in> to_flags (timeouts s i) \<and> 0 < sint n | CallDel i \<Rightarrow> True)"

definition handlers_ok :: "(nat \<Rightarrow> nat \<Rightarrow> tmo_call list) \<Rightarrow> tmo_state \<Rightarrow> bool" where
  "handlers_ok handler s \<longleftrightarrow> (\<forall>fn arg. list_all (call_ok s) (handler fn arg))"

definition untouched :: "(nat \<Rightarrow> nat \<Rightarrow> tmo_call list) \<Rightarrow> nat \<Rightarrow> bool" where
  "untouched handler i \<longleftrightarrow> (\<forall>fn arg. i \<notin> call_target ` set (handler fn arg))"

definition init_mono :: "tmo_state \<Rightarrow> tmo_state \<Rightarrow> bool" where
  "init_mono s s' \<longleftrightarrow> (\<forall>i. TIMEOUT_INITIALIZED \<in> to_flags (timeouts s i) \<longrightarrow> TIMEOUT_INITIALIZED \<in> to_flags (timeouts s' i))"

lemma init_mono_trans: "init_mono s s1 \<Longrightarrow> init_mono s1 s2 \<Longrightarrow> init_mono s s2"
  by (auto simp: init_mono_def)

lemma call_ok_mono: "init_mono s s' \<Longrightarrow> call_ok s c \<Longrightarrow> call_ok s' c"
  by (auto simp: init_mono_def call_ok_def split: tmo_call.splits)

lemma handlers_ok_mono: "init_mono s s' \<Longrightarrow> handlers_ok h s \<Longrightarrow> handlers_ok h s'"
  unfolding handlers_ok_def by (blast intro: list.pred_mono_strong call_ok_mono)

lemma timeout_add_init: "timeout_add diag i n s = Some s' \<Longrightarrow> init_mono s s'"
  and timeout_add_some: "call_ok s (CallAdd i n) \<Longrightarrow> timeout_add diag i n s \<noteq> None"
proof -
  show "timeout_add diag i n s = Some s' \<Longrightarrow> init_mono s s'"
    by (auto simp: timeout_add_def Let_def init_mono_def split: if_splits)
  show "call_ok s (CallAdd i n) \<Longrightarrow> timeout_add diag i n s \<noteq> None"
    by (auto simp: timeout_add_def Let_def call_ok_def)
qed

lemma due_shrinks:
  assumes "ticks s' = ticks s" and "\<And>j. j \<noteq> i \<Longrightarrow> timeouts s' j = timeouts s j" and "i \<notin> due_set s'"
  shows "due_set s' \<subseteq> due_set s - {i}"
proof
  fix j assume j: "j \<in> due_set s'"
  with assms(3) have "j \<noteq> i" by auto
  with assms(1,2) j show "j \<in> due_set s - {i}" by (simp add: due_set_def time_left_def)
qed

lemma finite_due: "tmo_ok s Q \<Longrightarrow> finite (due_set s)" and due_subset: "tmo_ok s Q \<Longrightarrow> due_set s \<subseteq> set (Q Todo)"
proof -
  show sub: "due_set s \<subseteq> set (Q Todo)" if "tmo_ok s Q" using due_on_todo [OF that] by (auto simp: due_set_def)
  show "finite (due_set s)" if "tmo_ok s Q" by (rule finite_subset [OF sub [OF that]]) simp
qed

lemma tmo_do_ok:
  assumes ok: "tmo_ok s Q" and c: "call_ok s c"
  shows "\<exists>s' Q'. tmo_do diag c s = Some s' \<and> tmo_ok s' Q' \<and> due_set s' \<subseteq> due_set s - {call_target c} \<and> ticks s' = ticks s
    \<and> init_mono s s' \<and> (\<forall>j. j \<noteq> call_target c \<longrightarrow> timeouts s' j = timeouts s j)"
proof (cases c)
  case (CallAdd i n)
  with c timeout_add_some obtain s' where s': "timeout_add diag i n s = Some s'" by blast
  note a = timeout_add_ok [OF ok s']
  have "0 < sint n" using c CallAdd by (simp add: call_ok_def)
  then have "due_set s' \<subseteq> due_set s - {i}" using a(3) by (intro due_shrinks [OF a(4,5)]) (simp_all add: due_set_def)
  then show ?thesis using a(1,4,5) s' timeout_add_init [OF s'] CallAdd by (auto simp: tmo_do_def)
next
  case (CallDel i)
  note d = timeout_del_ok [OF ok, where i = i]
  have "due_set (timeout_del i s) \<subseteq> due_set s - {i}" 
    using d(2) by (intro due_shrinks [OF d(3,4)]) (simp_all add: due_set_def)
  moreover have "init_mono s (timeout_del i s)" by (auto simp: init_mono_def timeout_del_def)
  ultimately show ?thesis using d(1,3,4) CallDel by (auto simp: tmo_do_def)
qed

lemma tmo_calls_ok:
  assumes "tmo_ok s Q" and "list_all (call_ok s) cs"
  shows "\<exists>s' Q'. tmo_calls diag cs s = Some s' \<and> tmo_ok s' Q' \<and> due_set s' \<subseteq> due_set s - call_target ` set cs
    \<and> ticks s' = ticks s \<and> init_mono s s' \<and> (\<forall>j. j \<notin> call_target ` set cs \<longrightarrow> timeouts s' j = timeouts s j)"
  using assms
proof (induction cs arbitrary: s Q)
  case Nil
  then show ?case by (auto simp: init_mono_def)
next
  case (Cons c cs)
  from Cons.prems have "call_ok s c" by simp
  from tmo_do_ok [OF Cons.prems(1) this, of diag] obtain s1 Q1 where s1: "tmo_do diag c s = Some s1" "tmo_ok s1 Q1"
    "due_set s1 \<subseteq> due_set s - {call_target c}" "ticks s1 = ticks s" "init_mono s s1"
    "\<And>j. j \<noteq> call_target c \<Longrightarrow> timeouts s1 j = timeouts s j" by auto
  have "list_all (call_ok s1) cs" using Cons.prems(2) call_ok_mono [OF s1(5)] by (auto simp: list_all_iff)
  from Cons.IH [OF s1(2) this] s1 init_mono_trans [OF s1(5)] show ?case by fastforce
qed

text \<open>
  The loop ends: every turn either empties the worklist by one element or fires a due timeout,
  and handlers make no timeout due.
\<close>

definition soft_done ::
    "(nat \<Rightarrow> nat \<Rightarrow> tmo_call list) \<Rightarrow> tmo_state \<Rightarrow> tmo_state \<Rightarrow> nat list \<Rightarrow> bool" where
  "soft_done handler s s' fired \<longleftrightarrow> (\<exists>Q'. tmo_ok s' Q' \<and> Q' Todo = []) \<and> ticks s' = ticks s \<and> init_mono s s'
     \<and> distinct fired \<and> set fired \<subseteq> due_set s
     \<and> (\<forall>i. untouched handler i \<longrightarrow> (i \<in> set fired \<longleftrightarrow> i \<in> due_set s)
          \<and> (i \<notin> due_set s \<longrightarrow> timeouts s' i = timeouts s i) \<and> (i \<in> due_set s \<longrightarrow> \<not> pending s' i))"

lemma due_same: "ticks s' = ticks s \<Longrightarrow> timeouts s' i = timeouts s i \<Longrightarrow> i \<in> due_set s' \<longleftrightarrow> i \<in> due_set s"
  by (simp add: due_set_def time_left_def)

lemma soft_done_step:
  assumes "soft_done handler s2 s3 l" and ticks: "ticks s2 = ticks s" and mono: "init_mono s s2"
    and sub: "due_set s2 \<subseteq> due_set s - {i}" and i: "i \<in> due_set s" "\<not> pending s2 i \<or> \<not> untouched handler i"
    and rest: "\<And>j. untouched handler j \<Longrightarrow> j \<noteq> i \<Longrightarrow> timeouts s2 j = timeouts s j"
  shows "soft_done handler s s3 (i # l)"
proof -
  note d = assms(1) [unfolded soft_done_def]
  have "(j \<in> set (i # l) \<longleftrightarrow> j \<in> due_set s) \<and> (j \<notin> due_set s \<longrightarrow> timeouts s3 j = timeouts s j) \<and> (j \<in> due_set s \<longrightarrow> \<not> pending s3 j)"
    if j: "untouched handler j" for j
  proof (cases "j = i")
    case True
    then have "\<not> pending s2 i" "i \<notin> due_set s2" using i j sub by auto
    with True i(1) j d show ?thesis by auto
  next
    case False
    then have "timeouts s2 j = timeouts s j" by (rule rest [OF j])
    moreover from due_same [OF ticks this] have "j \<in> due_set s2 \<longleftrightarrow> j \<in> due_set s" .
    ultimately show ?thesis using False j d by simp
  qed
  then show ?thesis using d sub i(1) ticks init_mono_trans [OF mono] unfolding soft_done_def by auto
qed

lemma softclock_ends:
  assumes "tmo_ok s Q" and "handlers_ok handler s"
  shows "\<exists>s' fired. softclock diag handler s = Some (s', fired) \<and> soft_done handler s s' fired"
  using assms
proof (induction "(card (due_set s), length (Q Todo))" arbitrary: s Q rule: wf_induct_rule [OF wf_lex_prod [OF wf_less_than wf_less_than]])
  case less: 1
  note ok = less.prems(1) and h = less.prems(2)
  obtain s1 out where turn: "softclock_turn s = (s1, out)" by (cases "softclock_turn s")
  note step = softclock_turn_ok [OF ok turn]
  show ?case
  proof (cases "Q Todo")
    case Nil
    with step(1) have "softclock diag handler s = Some (s, [])" using turn by (subst softclock.simps) simp
    moreover have "soft_done handler s s []"
      using ok Nil due_subset [OF ok] by (auto simp: soft_done_def init_mono_def)
    ultimately show ?thesis by blast
  next
    case (Cons i l)
    show ?thesis
    proof (cases "0 < sint (time_left s i)")
      case True
      with step(2) [OF Cons] obtain Q1 where s1: "out = Requeued i" "timeouts s1 = timeouts s" "ticks s1 = ticks s" "tmo_ok s1 Q1" "Q1 Todo = l"
        by auto
      have due: "due_set s1 = due_set s" using s1(2,3) by (simp add: due_set_def time_left_def)
      have "handlers_ok handler s1" using h handlers_ok_mono [of s s1] s1(2) by (simp add: init_mono_def)
      with less.hyps [of s1 Q1] s1 Cons due obtain s' fired where
        "softclock diag handler s1 = Some (s', fired)" "soft_done handler s1 s' fired" by auto
      note r = this
      have "softclock diag handler s = Some (s', fired)" using turn s1(1) r(1) by (subst softclock.simps) simp
      moreover have "soft_done handler s s' fired"
        using r(2) unfolding soft_done_def due s1(2,3) init_mono_def .
      ultimately show ?thesis by blast
    next
      case False
      with step(3) [OF Cons] obtain Q1 where s1: "out = Fire i (to_func (timeouts s i)) (to_arg (timeouts s i))" "ticks s1 = ticks s" "tmo_ok s1 Q1"
        "timeouts s1 = (timeouts s)(i := (timeouts s i)\<lparr>to_flags := insert TIMEOUT_TRIGGERED (to_flags (timeouts s i) - {TIMEOUT_ONQUEUE})\<rparr>)"
        by auto
      define cs where "cs = handler (to_func (timeouts s i)) (to_arg (timeouts s i))"
      have m1: "init_mono s s1" by (simp add: init_mono_def s1(4))
      have "list_all (call_ok s1) cs" using handlers_ok_mono [OF m1 h] by (simp add: handlers_ok_def cs_def)
      from tmo_calls_ok [OF s1(3) this, of diag] obtain s2 Q2 where s2: "tmo_calls diag cs s1 = Some s2" "tmo_ok s2 Q2"
        "due_set s2 \<subseteq> due_set s1 - call_target ` set cs" "ticks s2 = ticks s1" "init_mono s1 s2"
        "\<And>j. j \<notin> call_target ` set cs \<Longrightarrow> timeouts s2 j = timeouts s1 j" by auto
      have "due_set s1 \<subseteq> due_set s - {i}" by (rule due_shrinks) (use s1 in \<open>auto simp: due_set_def\<close>)
      with s2(3) have sub: "due_set s2 \<subseteq> due_set s - {i}" by auto
      have "queued Q i" using Cons unfolding queued_def by (intro exI [of _ Todo]) simp
      then have due: "i \<in> due_set s" using tmo_ok_pending [OF ok] False by (auto simp: due_set_def)
      have "card (due_set s2) < card (due_set s)" using sub due finite_due [OF ok] by (intro psubset_card_mono) auto
      with less.hyps [of s2 Q2] s2(2) handlers_ok_mono [OF init_mono_trans [OF m1 s2(5)] h] obtain s' fired where
        r: "softclock diag handler s2 = Some (s', fired)" "soft_done handler s2 s' fired" by auto
      have "softclock diag handler s = Some (s', i # fired)"
        using turn s1(1) s2(1) r(1) by (subst softclock.simps) (simp add: cs_def)
      moreover have "soft_done handler s s' (i # fired)"
      proof (rule soft_done_step [OF r(2) _ init_mono_trans [OF m1 s2(5)] sub due])
        show "ticks s2 = ticks s" using s1(2) s2(4) by simp
        have "\<not> pending s2 i" if "i \<notin> call_target ` set cs" using s2(6) [OF that] s1(4) by simp
        then show "\<not> pending s2 i \<or> \<not> untouched handler i" unfolding untouched_def cs_def by blast
        show "timeouts s2 j = timeouts s j" if "untouched handler j" "j \<noteq> i" for j
          using s2(6) [of j] s1(4) that by (auto simp: untouched_def cs_def)
      qed
      ultimately show ?thesis by blast
    qed
  qed
qed

text \<open>
  One tick of the clock as \<^verbatim>\<open>hardclock\<close> drives it: the wheel advances, and the software interrupt runs
  when there is work.
\<close>

definition clock_tick ::
    "bool \<Rightarrow> (nat \<Rightarrow> nat \<Rightarrow> tmo_call list) \<Rightarrow> tmo_state \<Rightarrow> (tmo_state \<times> nat list) option" where
  "clock_tick diag handler s =
     (let (s', work) = timeout_hardclock_update s
      in if work then softclock diag handler s' else Some (s', []))"

text \<open>The timeouts fired at each of \<open>k\<close> ticks.\<close>

fun clock_ticks ::
    "bool \<Rightarrow> (nat \<Rightarrow> nat \<Rightarrow> tmo_call list) \<Rightarrow> nat \<Rightarrow> tmo_state \<Rightarrow> (tmo_state \<times> nat list list) option" where
  "clock_ticks diag handler 0 s = Some (s, [])"
| "clock_ticks diag handler (Suc k) s =
     Option.bind (clock_tick diag handler s) (\<lambda>(s1, fired).
     Option.bind (clock_ticks diag handler k s1) (\<lambda>(s2, log). Some (s2, fired # log)))"

lemma clock_tick_ok:
  assumes ok: "tmo_ok s Q" and h: "handlers_ok handler s"
  shows "\<exists>s' fired Q'. clock_tick diag handler s = Some (s', fired) \<and> tmo_ok s' Q' \<and> init_mono s s' \<and> ticks s' = ticks s + 1
    \<and> (\<forall>i. untouched handler i \<longrightarrow>
         (i \<in> set fired \<longleftrightarrow> pending s i \<and> sint (time_left s i - 1) \<le> 0)
         \<and> (i \<notin> set fired \<longrightarrow> timeouts s' i = timeouts s i) \<and> (i \<in> set fired \<longrightarrow> \<not> pending s' i))"
proof -
  obtain s1 work where hc: "timeout_hardclock_update s = (s1, work)" by (cases "timeout_hardclock_update s")
  from hardclock_ok [OF ok] hc obtain Q1 where s1: "tmo_ok s1 Q1" "work \<longleftrightarrow> Q1 Todo \<noteq> []" "timeouts s1 = timeouts s" "ticks s1 = ticks s + 1"
    by auto
  have m: "init_mono s s1" by (simp add: init_mono_def s1)
  have due: "i \<in> due_set s1 \<longleftrightarrow> pending s i \<and> sint (time_left s i - 1) \<le> 0" for i
    by (simp add: due_set_def time_left_def s1 diff_diff_add)
  show ?thesis
  proof (cases work)
    case True
    from softclock_ends [OF s1(1) handlers_ok_mono [OF m h], of diag] obtain s' fired
      where r: "softclock diag handler s1 = Some (s', fired)" "soft_done handler s1 s' fired" by blast
    then have "clock_tick diag handler s = Some (s', fired)" using True hc by (simp add: clock_tick_def)
    then show ?thesis using r(2) init_mono_trans [OF m] s1(3,4) unfolding soft_done_def due by auto
  next
    case False
    then have "due_set s1 = {}" using due_subset [OF s1(1)] s1(2) by simp
    then have "\<not> (pending s i \<and> sint (time_left s i - 1) \<le> 0)" for i using due by blast
    moreover have "clock_tick diag handler s = Some (s1, [])" using False hc by (simp add: clock_tick_def)
    ultimately show ?thesis using s1 m by auto
  qed
qed

lemma not_pending_silent:
  assumes "tmo_ok s Q" and "handlers_ok handler s" and "untouched handler i" and "\<not> pending s i"
  shows "\<exists>s' log. clock_ticks diag handler k s = Some (s', log) \<and> length log = k \<and> (\<forall>j<k. i \<notin> set (log ! j))"
  using assms
proof (induction k arbitrary: s Q)
  case (Suc k)
  from clock_tick_ok [OF Suc.prems(1,2), of diag] obtain s1 fired Q1 where t: "clock_tick diag handler s = Some (s1, fired)" "tmo_ok s1 Q1"
    "init_mono s s1" "i \<notin> set fired" "timeouts s1 i = timeouts s i" using Suc.prems(3,4) by blast
  from Suc.IH [OF t(2) handlers_ok_mono [OF t(3) Suc.prems(2)] Suc.prems(3)] t(5) Suc.prems(4) obtain s' log
    where "clock_ticks diag handler k s1 = Some (s', log)" "length log = k" "\<forall>j<k. i \<notin> set (log ! j)" by auto
  then show ?case using t(1,4) by (auto simp: nth_Cons split: nat.splits)
qed simp

lemma pending_fires:
  assumes "tmo_ok s Q" and "handlers_ok handler s" and "untouched handler i" and "pending s i" and "0 < sint (time_left s i)"
  shows "\<exists>s' log. clock_ticks diag handler k s = Some (s', log) \<and> length log = k
    \<and> (\<forall>j<k. i \<in> set (log ! j) \<longleftrightarrow> Suc j = unat (time_left s i))"
  using assms
proof (induction k arbitrary: s Q)
  case (Suc k)
  note due = due_nat [OF Suc.prems(5)]
  have pred: "unat (time_left s i - 1) = unat (time_left s i) - 1" by (rule unat_pred [OF due(3)])
  have one: "sint (time_left s i - 1) \<le> 0 \<longleftrightarrow> unat (time_left s i) = 1"
    using due pred by (simp add: sint_u32 del: of_nat_unat) linarith
  from clock_tick_ok [OF Suc.prems(1,2), of diag] obtain s1 fired Q1 where t: "clock_tick diag handler s = Some (s1, fired)" "tmo_ok s1 Q1"
    "init_mono s s1" "ticks s1 = ticks s + 1" "i \<in> set fired \<longleftrightarrow> unat (time_left s i) = 1" "i \<notin> set fired \<Longrightarrow> timeouts s1 i = timeouts s i"
    "i \<in> set fired \<Longrightarrow> \<not> pending s1 i" using Suc.prems(3,4) one by blast
  note h1 = handlers_ok_mono [OF t(3) Suc.prems(2)]
  show ?case
  proof (cases "unat (time_left s i) = 1")
    case True
    from not_pending_silent [OF t(2) h1 Suc.prems(3)] t(5,7) True obtain s' log
      where "clock_ticks diag handler k s1 = Some (s', log)" "length log = k" "\<forall>j<k. i \<notin> set (log ! j)" by blast
    then show ?thesis using t(1,5) True by (auto simp: nth_Cons split: nat.splits)
  next
    case False
    then have tl: "time_left s1 i = time_left s i - 1" using t(4-6) by (simp add: time_left_def)
    have "0 < sint (time_left s1 i)" unfolding tl using one False by simp
    from Suc.IH [OF t(2) h1 Suc.prems(3) _ this] t(5,6) False Suc.prems(4) obtain s' log where
      "clock_ticks diag handler k s1 = Some (s', log)" "length log = k" "\<forall>j<k. i \<in> set (log ! j) \<longleftrightarrow> Suc j = unat (time_left s1 i)" by auto
    then show ?thesis using t(1,5) False pred due(3) by (auto simp: tl nth_Cons split: nat.splits)
  qed
qed simp

section \<open>Reachable states\<close>

text \<open>
  Every state the operations lead to, in any order and from any caller; a timeout is set up only while
  it is not pending, as the interface demands.
\<close>

inductive tmo_reach :: "bool \<Rightarrow> tmo_state \<Rightarrow> bool" for diag where
  startup: "(\<And>i. \<not> pending s i) \<Longrightarrow> tmo_reach diag (timeout_startup s)"
| set_up: "\<lbrakk>tmo_reach diag s; \<not> pending s i\<rbrakk> \<Longrightarrow> tmo_reach diag (timeout_set i fn arg s)"
| add: "\<lbrakk>tmo_reach diag s; timeout_add diag i n s = Some s'\<rbrakk> \<Longrightarrow> tmo_reach diag s'"
| del: "tmo_reach diag s \<Longrightarrow> tmo_reach diag (timeout_del i s)"
| hard: "tmo_reach diag s \<Longrightarrow> tmo_reach diag (fst (timeout_hardclock_update s))"
| soft: "tmo_reach diag s \<Longrightarrow> tmo_reach diag (fst (softclock_turn s))"

lemma turn_keeps:
  assumes ok: "tmo_ok s Q"
  shows "\<exists>Q'. tmo_ok (fst (softclock_turn s)) Q'"
proof -
  obtain s' out where t: "softclock_turn s = (s', out)" by (cases "softclock_turn s")
  note step = softclock_turn_ok [OF ok t]
  show ?thesis
  proof (cases "Q Todo")
    case Nil
    with step(1) t ok show ?thesis by auto
  next
    case (Cons i l)
    with step(2,3) t show ?thesis by (cases "0 < sint (time_left s i)") auto
  qed
qed

lemma tmo_reach_ok:
  assumes "tmo_reach diag s"
  shows "\<exists>Q. tmo_ok s Q"
  using assms
proof induction
  case (startup s)
  then show ?case using timeout_startup_ok by blast
next
  case (set_up s i fn arg)
  then show ?case using timeout_set_ok by blast
next
  case (add s i n s')
  then show ?case using timeout_add_ok(1) by blast
next
  case (del s i)
  then show ?case using timeout_del_ok(1) by blast
next
  case (hard s)
  then show ?case using hardclock_ok(1) by blast
next
  case (soft s)
  then show ?case using turn_keeps by blast
qed

section \<open>Properties\<close>

text \<open>
  C16. In every reachable state the links form one circular queue per bucket and one worklist, with no
  timeout on two queues; the pending timeouts are exactly the queued ones; and a pending timeout
  that is due is on the worklist, never left behind in a bucket of the wheel.
\<close>

theorem timeout_wheel_invariant:
  assumes "tmo_reach diag s"
  shows "\<exists>Q. queues s Q \<and> (\<forall>i. queued Q i \<longleftrightarrow> pending s i) \<and> due_set s \<subseteq> set (Q Todo)"
  using tmo_reach_ok [OF assms] tmo_ok_queues tmo_ok_pending due_subset by blast

text \<open>A booted system with one timeout set up.\<close>

definition tmo_boot :: tmo_state where
  "tmo_boot = timeout_set 0 7 8 (timeout_startup \<lparr>circq_next = (\<lambda>_. Todo), circq_prev = (\<lambda>_. Todo),
     timeouts = (\<lambda>_. \<lparr>to_func = 0, to_arg = 0, to_time = 0, to_flags = {}\<rparr>), ticks = - 2\<rparr>)"

lemma tmo_boot_reach: "tmo_reach diag tmo_boot"
  unfolding tmo_boot_def by (rule tmo_reach.set_up [OF tmo_reach.startup]) simp_all

lemma tmo_boot_sel: "timeouts tmo_boot 0 = \<lparr>to_func = 7, to_arg = 8, to_time = 0, to_flags = {TIMEOUT_INITIALIZED}\<rparr>"
  "ticks tmo_boot = - 2"
  by (simp_all add: tmo_boot_def timeout_set_def)

theorem timeout_wheel_invariant_witness:
  "\<exists>Q. queues tmo_boot Q \<and> (\<forall>i. queued Q i \<longleftrightarrow> pending tmo_boot i) \<and> due_set tmo_boot \<subseteq> set (Q Todo)"
  by (rule timeout_wheel_invariant [OF tmo_boot_reach])

text \<open>
  C15. A timeout added with a positive number \<open>n\<close> of ticks fires at exactly the \<open>n\<close>-th tick of the
  clock and at no other of the next \<open>k\<close> ticks, also when \<^verbatim>\<open>ticks\<close> wraps around in between and whichever levels of the
  wheel it passes, as long as no handler adds or deletes that timeout and handlers do not add
  timeouts with zero ticks.
\<close>

theorem timeout_fires_on_time:
  assumes "tmo_reach diag s" and "handlers_ok handler s" and "untouched handler i"
    and "timeout_add diag i n s = Some s1" and "0 < sint n"
  shows "\<exists>s' log. clock_ticks diag handler k s1 = Some (s', log) \<and> length log = k
    \<and> (\<forall>j<k. i \<in> set (log ! j) \<longleftrightarrow> Suc j = unat n)"
proof -
  obtain Q where "tmo_ok s Q" using tmo_reach_ok [OF assms(1)] by blast
  note a = timeout_add_ok [OF this assms(4)]
  obtain Q1 where "tmo_ok s1 Q1" using a(1) by blast
  from pending_fires [OF this handlers_ok_mono [OF timeout_add_init [OF assms(4)] assms(2)] assms(3) a(2)] a(3) assms(5)
  show ?thesis by simp
qed

text \<open>The handler of function 9 adds timeout 0 again; the other handlers do nothing with timeouts.\<close>

definition rearm :: "nat \<Rightarrow> nat \<Rightarrow> tmo_call list" where
  "rearm fn arg = (if fn = 9 then [CallAdd 0 5] else [])"

theorem timeout_fires_on_time_witness:
  "\<exists>s1 s' log. timeout_add True 1 3 (timeout_set 1 7 8 tmo_boot) = Some s1
     \<and> clock_ticks True rearm 300 s1 = Some (s', log) \<and> length log = 300 \<and> 1 \<in> set (log ! 2) \<and> 1 \<notin> set (log ! 4)"
proof -
  define s where "s = timeout_set 1 7 8 tmo_boot"
  have np: "\<not> pending tmo_boot 1" by (simp add: tmo_boot_def timeout_set_def)
  have r: "tmo_reach True s" unfolding s_def by (rule tmo_reach.set_up [OF tmo_boot_reach np])
  have h: "handlers_ok rearm s"
    using tmo_boot_sel by (simp add: handlers_ok_def rearm_def call_ok_def s_def timeout_set_def)
  have u: "untouched rearm 1" by (auto simp: untouched_def rearm_def)
  have "call_ok s (CallAdd 1 3)" by (simp add: call_ok_def s_def timeout_set_def)
  from timeout_add_some [OF this, of True] obtain s1 where s1: "timeout_add True 1 3 s = Some s1" by auto
  from timeout_fires_on_time [OF r h u s1, of 300] obtain s' log where
    l: "clock_ticks True rearm 300 s1 = Some (s', log)" "length log = 300" "\<forall>j<300. 1 \<in> set (log ! j) \<longleftrightarrow> Suc j = unat (3 :: u32)"
    by auto
  have "1 \<in> set (log ! 2)" "1 \<notin> set (log ! 4)" using l(3) [rule_format, of 2] l(3) [rule_format, of 4] by simp_all
  with s1 l show ?thesis unfolding s_def by blast
qed

text \<open>
  C17. The loop of \<^verbatim>\<open>softclock\<close> ends when handlers add timeouts only with a positive number of ticks, and then
  the worklist is empty and nothing pending is due; it fires only timeouts that were due, each at most
  once, and all of them that no handler touches.
\<close>

theorem softclock_terminates:
  assumes "tmo_reach diag s" and "handlers_ok handler s"
  shows "\<exists>s' fired. softclock diag handler s = Some (s', fired) \<and> CIRCQ_EMPTY Todo s' \<and> due_set s' = {}
    \<and> distinct fired \<and> set fired \<subseteq> due_set s \<and> {i \<in> due_set s. untouched handler i} \<subseteq> set fired"
proof -
  obtain Q where "tmo_ok s Q" using tmo_reach_ok [OF assms(1)] by blast
  from softclock_ends [OF this assms(2), of diag] obtain s' fired where
    r: "softclock diag handler s = Some (s', fired)" "soft_done handler s s' fired" by blast
  then obtain Q' where Q': "tmo_ok s' Q'" "Q' Todo = []" by (auto simp: soft_done_def)
  have "due_set s' = {}" using due_subset [OF Q'(1)] Q'(2) by simp
  moreover have "CIRCQ_EMPTY Todo s'" using first_queues(2) [OF tmo_ok_queues [OF Q'(1)], of Todo] Q'(2) by simp
  ultimately show ?thesis using r by (auto simp: soft_done_def)
qed

theorem softclock_terminates_witness:
  "\<exists>s' fired. softclock True rearm tmo_boot = Some (s', fired) \<and> CIRCQ_EMPTY Todo s'"
proof -
  have "handlers_ok rearm tmo_boot" using tmo_boot_sel by (simp add: handlers_ok_def rearm_def call_ok_def)
  from softclock_terminates [OF tmo_boot_reach this] show ?thesis by blast
qed

text \<open>
  A handler that adds its own timeout again with zero ticks, which \<^verbatim>\<open>timeout_add\<close> accepts,
  keeps \<^verbatim>\<open>softclock\<close> running forever once that timeout is due.
\<close>

theorem softclock_zero_ticks_loops:
  assumes "tmo_reach diag s" and "i \<in> due_set s"
    and "handler = (\<lambda>fn arg. if fn = to_func (timeouts s i) then [CallAdd i 0] else [])"
  shows "softclock diag handler s = None"
proof -
  define f where "f = to_func (timeouts s i)"
  define bad where "bad u \<longleftrightarrow> (\<exists>Q. tmo_ok u Q) \<and> i \<in> due_set u \<and> to_func (timeouts u i) = f" for u
  have add: "bad v" if "tmo_ok u Q" "timeout_add diag i 0 u = Some v" "to_func (timeouts u i) = f" for u v Q
    using timeout_add_ok [OF that(1,2)] that(3) by (auto simp: bad_def due_set_def)
  have turn: "out \<noteq> Idle \<and> (\<forall>j. out = Requeued j \<longrightarrow> bad v)
      \<and> (\<forall>j fn arg w. out = Fire j fn arg \<longrightarrow> tmo_calls diag (handler fn arg) v = Some w \<longrightarrow> bad w)"
    if b: "bad u" and t: "softclock_turn u = (v, out)" for u v out
  proof -
    from b obtain Q where Q: "tmo_ok u Q" by (auto simp: bad_def)
    note step = softclock_turn_ok [OF Q t]
    have "i \<in> set (Q Todo)" using due_subset [OF Q] b by (auto simp: bad_def)
    then obtain j l where jl: "Q Todo = j # l" by (cases "Q Todo") auto
    show ?thesis
    proof (cases "0 < sint (time_left u j)")
      case True
      with step(2) [OF jl] b show ?thesis by (auto simp: bad_def due_set_def time_left_def)
    next
      case False
      with step(3) [OF jl] obtain Q' where v: "out = Fire j (to_func (timeouts u j)) (to_arg (timeouts u j))" "ticks v = ticks u" "tmo_ok v Q'"
        "timeouts v = (timeouts u)(j := (timeouts u j)\<lparr>to_flags := insert TIMEOUT_TRIGGERED (to_flags (timeouts u j) - {TIMEOUT_ONQUEUE})\<rparr>)" by auto
      have fv: "to_func (timeouts v i) = f" using b v(4) by (auto simp: bad_def)
      show ?thesis
      proof (cases "to_func (timeouts u j) = f")
        case True
        with add [OF v(3) _ fv] v(1) show ?thesis by (auto simp: assms(3) f_def tmo_do_def bind_eq_Some_conv)
      next
        case ne: False
        then have "j \<noteq> i" using b by (auto simp: bad_def)
        then have "bad v" using v b by (auto simp: bad_def due_set_def time_left_def)
        with ne v(1) show ?thesis by (auto simp: assms(3) f_def)
      qed
    qed
  qed
  have "handler = h \<longrightarrow> diag = d \<longrightarrow> \<not> bad u" if "softclock d h u = Some r" for d h u r
  proof (rule softclock.raw_induct [OF _ that])
    fix sc d h u r
    assume IH: "\<And>d h u r. sc d h u = Some r \<Longrightarrow> handler = h \<longrightarrow> diag = d \<longrightarrow> \<not> bad u"
      and body: "(case softclock_turn u of (s', Idle) \<Rightarrow> Some (s', []) | (s', Requeued i) \<Rightarrow> sc d h s'
        | (s', Fire i fn arg) \<Rightarrow> Option.bind (tmo_calls d (h fn arg) s') (\<lambda>s2. Option.bind (sc d h s2) (\<lambda>(s3, l). Some (s3, i # l)))
        | (s', Stray) \<Rightarrow> None) = Some r"
    show "handler = h \<longrightarrow> diag = d \<longrightarrow> \<not> bad u"
    proof (intro impI notI)
      assume eq: "handler = h" "diag = d" "bad u"
      obtain v out where t: "softclock_turn u = (v, out)" by (cases "softclock_turn u")
      note tu = turn [OF eq(3) t]
      show False
        using IH body t tu eq by (cases out) (auto simp: bind_eq_Some_conv)
    qed
  qed
  moreover have "bad s" using tmo_reach_ok [OF assms(1)] assms(2) by (auto simp: bad_def f_def)
  ultimately show ?thesis by (metis option.exhaust)
qed

text \<open>Two ticks before the wrap-around of \<^verbatim>\<open>ticks\<close> the timeout is added with no delay.\<close>

theorem softclock_zero_ticks_loops_witness:
  "\<exists>s1. timeout_add True 0 0 tmo_boot = Some s1 \<and> softclock True (\<lambda>fn arg. if fn = 7 then [CallAdd 0 0] else []) s1 = None"
proof -
  obtain Q where Q: "tmo_ok tmo_boot Q" using tmo_reach_ok [OF tmo_boot_reach] by blast
  obtain s1 where s1: "timeout_add True 0 0 tmo_boot = Some s1" using tmo_boot_sel by (simp add: timeout_add_def Let_def)
  note a = timeout_add_ok [OF Q s1]
  have "0 \<in> due_set s1" using a(2,3) by (simp add: due_set_def)
  moreover have "to_func (timeouts s1 0) = 7" using a(6) tmo_boot_sel by simp
  ultimately show ?thesis using softclock_zero_ticks_loops [OF tmo_reach.add [OF tmo_boot_reach s1] _ refl, of 0] s1 by simp
qed

text \<open>
  C18. The duration functions schedule the number of ticks that fit into the duration, cut off at
  \<^verbatim>\<open>INT_MAX\<close>: for a non-negative number of seconds that is \<open>hz * secs\<close>, never a wrapped or negative value.
\<close>

theorem timeout_add_sec_ticks:
  assumes "tmo_reach diag s" and "0 < hz" "hz < 2 ^ 31" and "0 \<le> secs" "secs < 2 ^ 31"
    and "timeout_add_sec diag hz i secs s = Some s'"
  shows "sint (time_left s' i) = min (hz * secs) INT_MAX"
proof -
  obtain Q where ok: "tmo_ok s Q" using tmo_reach_ok [OF assms(1)] by blast
  have "hz * secs < 2 ^ 31 * 2 ^ 31" using assms(2-5) by (intro mult_strict_mono) auto
  moreover have nn: "0 \<le> hz * secs" using assms(2,4) by simp
  ultimately have ll: "llong (hz * secs) = hz * secs" by (simp add: llong_def)
  have "time_left s' i = clamp (hz * secs)"
    using timeout_add_ok(3) [OF ok assms(6) [unfolded timeout_add_sec_def ll]] .
  moreover have "0 \<le> min (hz * secs) INT_MAX" "min (hz * secs) INT_MAX < 2 ^ 31" using nn by (auto simp: INT_MAX_def min_def)
  moreover have "clamp (hz * secs) = word_of_int (min (hz * secs) INT_MAX)" by (auto simp: clamp_def min_def)
  ultimately show ?thesis by (simp add: sint_sbintrunc' signed_take_bit_int_eq_self)
qed

theorem timeout_add_sec_ticks_witness:
  "\<exists>s'. timeout_add_sec True 100 0 30000000 tmo_boot = Some s' \<and> sint (time_left s' 0) = INT_MAX"
proof -
  have "llong (100 * 30000000) = 3000000000" by (simp add: llong_def)
  then have "call_ok tmo_boot (CallAdd 0 (clamp (llong (100 * 30000000))))"
    using tmo_boot_sel by (simp add: call_ok_def clamp_def INT_MAX_def)
  from timeout_add_some [OF this, of True] obtain s' where s': "timeout_add_sec True 100 0 30000000 tmo_boot = Some s'"
    by (auto simp: timeout_add_sec_def)
  from timeout_add_sec_ticks [OF tmo_boot_reach _ _ _ _ this] s' show ?thesis by (simp add: INT_MAX_def)
qed
end
