(* ===== verification/Clock_Subr.thy ===== *)
theory Clock_Subr
  imports Kern_Prelude "HOL-Library.Signed_Division"
begin

text \<open>
  Conversion between seconds since 1970 and calendar dates (\<^verbatim>\<open>src/sys/kern/clock_subr.c\<close>), as the
  time-of-day clock drivers use it. \<^verbatim>\<open>int\<close> and \<^verbatim>\<open>time_t\<close> have 32 bits on every port; the values are
  integers here, converted where the code stores them. The fields of the date are an unsigned short for the
  year and unsigned characters for the rest.
\<close>

section \<open>Definitions\<close>

definition int32 :: "int \<Rightarrow> int" where
  "int32 x = (x + 2 ^ 31) mod 2 ^ 32 - 2 ^ 31"

definition SECDAY :: int where "SECDAY = 86400"

definition POSIX_BASE_YEAR :: int where "POSIX_BASE_YEAR = 1970"

definition FEBRUARY :: int where "FEBRUARY = 2"

record clock_ymdhms =
  dt_year :: u16
  dt_mon :: u8
  dt_day :: u8
  dt_wday :: u8
  dt_hour :: u8
  dt_min :: u8
  dt_sec :: u8

definition month_days :: "int list" where
  "month_days = [31, 28, 31, 30, 31, 30, 31, 31, 30, 31, 30, 31]"

definition leapyear :: "int \<Rightarrow> bool" where
  "leapyear year =
     (if year AND 3 = 0 then (if year smod 100 = 0 then (if year smod 400 = 0 then True else False) else True)
      else False)"

definition days_in_year :: "int \<Rightarrow> int" where
  "days_in_year a = (if leapyear a then 366 else 365)"

text \<open>The loops of \<^verbatim>\<open>clock_ymdhms_to_secs\<close>; \<open>None\<close> when a month number leaves the table.\<close>

function add_years :: "int \<Rightarrow> int \<Rightarrow> int \<Rightarrow> int" where
  "add_years i year days = (if i < year then add_years (i + 1) year (days + days_in_year i) else days)"
  by pat_completeness auto
termination by (relation "measure (\<lambda>(i, year, days). nat (year - i))") auto

definition table_at :: "int list \<Rightarrow> int \<Rightarrow> int option" where
  "table_at t a = (if 1 \<le> a \<and> nat (a - 1) < length t then Some (t ! nat (a - 1)) else None)"

function add_months :: "int \<Rightarrow> int \<Rightarrow> int \<Rightarrow> int option" where
  "add_months i mon days =
     (if i < mon then (case table_at month_days i of None \<Rightarrow> None | Some d \<Rightarrow> add_months (i + 1) mon (days + d))
      else Some days)"
  by pat_completeness auto
termination by (relation "measure (\<lambda>(i, mon, days). nat (mon - i))") auto

definition clock_ymdhms_to_secs :: "clock_ymdhms \<Rightarrow> int option" where
  "clock_ymdhms_to_secs dt =
     (let year = uint (dt_year dt);
          days = add_years POSIX_BASE_YEAR year 0;
          days = (if leapyear year \<and> uint (dt_mon dt) > FEBRUARY then days + 1 else days)
      in map_option (\<lambda>days.
           int32 ((((days + (uint (dt_day dt) - 1)) * 24 + uint (dt_hour dt)) * 60 + uint (dt_min dt)) * 60
             + uint (dt_sec dt)))
         (add_months 1 (uint (dt_mon dt)) days))"

text \<open>The loops of \<^verbatim>\<open>clock_secs_to_ymdhms\<close>: they end because every year and every month has at least a day.\<close>

lemma days_in_year_pos: "0 < days_in_year i"
  by (simp add: days_in_year_def)

function sub_years :: "int \<Rightarrow> int \<Rightarrow> int \<times> int" where
  "sub_years i days = (if days \<ge> days_in_year i then sub_years (i + 1) (days - days_in_year i) else (i, days))"
  by pat_completeness auto
termination
proof (relation "measure (\<lambda>(i, days). nat days)")
  show "((i + 1, days - days_in_year i), (i, days)) \<in> measure (\<lambda>(i, days). nat days)" if "days_in_year i \<le> days" for i days
    using that days_in_year_pos [of i] by simp
qed simp

text \<open>\<open>None\<close> when the loop runs past the twelfth month.\<close>

fun sub_months :: "int list \<Rightarrow> int \<Rightarrow> int \<Rightarrow> (int \<times> int) option" where
  "sub_months [] i days = None"
| "sub_months (m # ms) i days = (if days \<ge> m then sub_months ms (i + 1) (days - m) else Some (i, days))"

definition clock_secs_to_ymdhms :: "int \<Rightarrow> clock_ymdhms option" where
  "clock_secs_to_ymdhms secs =
     (let days = secs sdiv SECDAY;
          rsec = secs smod SECDAY;
          wday = (days + 4) smod 7;
          (year, days) = sub_years POSIX_BASE_YEAR days;
          mthdays = (if leapyear year then month_days[nat (FEBRUARY - 1) := 29] else month_days)
      in map_option (\<lambda>(mon, days).
           \<lparr>dt_year = word_of_int year, dt_mon = word_of_int mon, dt_day = word_of_int (days + 1), dt_wday = word_of_int wday,
            dt_hour = word_of_int (rsec sdiv 3600), dt_min = word_of_int ((rsec smod 3600) sdiv 60),
            dt_sec = word_of_int ((rsec smod 3600) smod 60)\<rparr>)
         (sub_months mthdays 1 days))"

section \<open>Facts about the loops\<close>

lemma sdiv_nonneg: "0 \<le> a \<Longrightarrow> 0 < b \<Longrightarrow> a sdiv b = a div b" for a b :: int
  by (cases "a = 0") (simp_all add: signed_divide_int_def)

lemma smod_nonneg: "0 \<le> a \<Longrightarrow> 0 < b \<Longrightarrow> a smod b = a mod b" for a b :: int
  by (cases "a = 0") (simp_all add: signed_modulo_int_def)

lemma int32_id: "- (2 ^ 31) \<le> x \<Longrightarrow> x < 2 ^ 31 \<Longrightarrow> int32 x = x"
  by (simp add: int32_def)

lemma leapyear_iff:
  assumes "0 \<le> y"
  shows "leapyear y \<longleftrightarrow> 4 dvd y \<and> (\<not> 100 dvd y \<or> 400 dvd y)"
proof -
  have "y AND 3 = y mod 4" using take_bit_eq_mask [of 2 y] by (simp add: take_bit_eq_mod mask_eq_exp_minus_1)
  then show ?thesis using assms by (auto simp: leapyear_def smod_nonneg dvd_eq_mod_eq_0)
qed

declare add_years.simps [simp del] add_months.simps [simp del] sub_years.simps [simp del]

text \<open>The days before the first of January of year \<open>y\<close> in the Gregorian calendar, counted from year 1.\<close>

definition gregorian :: "int \<Rightarrow> int" where
  "gregorian y = 365 * (y - 1) + (y - 1) div 4 - (y - 1) div 100 + (y - 1) div 400"

lemma div_step: "0 < k \<Longrightarrow> n div k - (n - 1) div k = of_bool (k dvd n)" for n k :: int
proof -
  assume k: "0 < k"
  define q r where "q = n div k" and "r = n mod k"
  have n: "n = k * q + r" "0 \<le> r" "r < k" using k by (simp_all add: q_def r_def)
  show ?thesis
  proof (cases "r = 0")
    case True
    then have "(n - 1) div k = q - 1" using n k by (intro int_div_pos_eq [where r = "k - 1"]) (auto simp: algebra_simps)
    then show ?thesis using True by (simp add: q_def r_def dvd_eq_mod_eq_0)
  next
    case False
    then have "(n - 1) div k = q" using n by (intro int_div_pos_eq [where r = "r - 1"]) auto
    then show ?thesis using False by (simp add: q_def r_def dvd_eq_mod_eq_0)
  qed
qed

lemma gregorian_step: "0 \<le> y \<Longrightarrow> gregorian (y + 1) = gregorian y + days_in_year y"
proof -
  assume y: "0 \<le> y"
  have d: "400 dvd y \<Longrightarrow> 100 dvd y" "100 dvd y \<Longrightarrow> 4 dvd y"
    using dvd_trans [of 100 400 y] dvd_trans [of 4 100 y] by simp_all
  have g: "gregorian (y + 1) = 365 * y + y div 4 - y div 100 + y div 400" by (simp add: gregorian_def)
  have "days_in_year y = 365 + of_bool (4 dvd y) - of_bool (100 dvd y) + of_bool (400 dvd y)"
    using d by (cases "4 dvd y"; cases "100 dvd y"; cases "400 dvd y") (simp_all add: days_in_year_def leapyear_iff [OF y])
  note days = this
  have e: "y div k = of_bool (k dvd y) + (y - 1) div k" if "0 < k" for k
    using div_step [OF that, of y] by (rule diff_eq_eq [THEN iffD1])
  show ?thesis unfolding g gregorian_def [of y] days e [of 4, OF zero_less_numeral] e [of 100, OF zero_less_numeral] e [of 400, OF zero_less_numeral]
    by algebra
qed

lemma add_years_gregorian:
  assumes "0 \<le> i" and "i \<le> y"
  shows "add_years i y d = d + gregorian y - gregorian i"
  using assms
proof (induction i y d rule: add_years.induct)
  case (1 i y d)
  show ?case
  proof (cases "i < y")
    case True
    then show ?thesis using 1 gregorian_step [of i] by (subst add_years.simps) simp
  qed (use 1 in \<open>simp add: add_years.simps\<close>)
qed

lemma sub_years_gregorian:
  assumes "sub_years i d = (y, r)" and "0 \<le> i" and "0 \<le> d"
  shows "i \<le> y" and "d = gregorian y - gregorian i + r" and "0 \<le> r" and "r < days_in_year y" and "y \<le> i + d div 365"
proof -
  have "i \<le> y \<and> d = gregorian y - gregorian i + r \<and> 0 \<le> r \<and> r < days_in_year y \<and> 365 * (y - i) \<le> d"
    using assms
  proof (induction i d rule: sub_years.induct)
    case (1 i d)
    show ?case
    proof (cases "days_in_year i \<le> d")
      case True
      then have "sub_years (i + 1) (d - days_in_year i) = (y, r)" using "1.prems"(1) by (subst (asm) sub_years.simps) simp
      from "1.IH" [OF True this] "1.prems" True gregorian_step [of i] show ?thesis
        by (auto simp: days_in_year_def split: if_splits)
    next
      case False
      then have "y = i" "r = d" using "1.prems"(1) by (auto simp: sub_years.simps)
      then show ?thesis using False "1.prems" by simp
    qed
  qed
  then show "i \<le> y" "d = gregorian y - gregorian i + r" "0 \<le> r" "r < days_in_year y" "y \<le> i + d div 365" by auto
qed

subsection \<open>Months\<close>

definition month_table :: "bool \<Rightarrow> int list" where
  "month_table leap = (if leap then month_days[nat (FEBRUARY - 1) := 29] else month_days)"

definition before_month :: "bool \<Rightarrow> int \<Rightarrow> int" where
  "before_month leap m = sum_list (take (nat (m - 1)) (month_table leap))"

lemma month_cases:
  fixes m :: int
  assumes "1 \<le> m" and "m \<le> 12"
  shows "m = 1 \<or> m = 2 \<or> m = 3 \<or> m = 4 \<or> m = 5 \<or> m = 6 \<or> m = 7 \<or> m = 8 \<or> m = 9 \<or> m = 10 \<or> m = 11 \<or> m = 12"
  using assms by arith

lemma add_months_sum:
  assumes "1 \<le> m" and "m \<le> 12"
  shows "add_months 1 m d = Some (d + before_month False m)"
  using month_cases [OF assms]
  by (elim disjE) (simp_all add: add_months.simps table_at_def month_days_def before_month_def month_table_def eval_nat_numeral)

lemma before_month_leap:
  assumes "1 \<le> m" and "m \<le> 12"
  shows "before_month True m = before_month False m + (if m > FEBRUARY then 1 else 0)"
  using month_cases [OF assms]
  by (elim disjE) (simp_all add: before_month_def month_table_def month_days_def FEBRUARY_def eval_nat_numeral)

lemma sub_months_some:
  assumes "0 \<le> d" and "d < sum_list ms"
  shows "\<exists>m r. sub_months ms i d = Some (m, r) \<and> i \<le> m \<and> nat (m - i) < length ms \<and> 0 \<le> r \<and> r < ms ! nat (m - i)
    \<and> d = sum_list (take (nat (m - i)) ms) + r"
  using assms
proof (induction ms arbitrary: i d)
  case (Cons k ms)
  show ?case
  proof (cases "k \<le> d")
    case True
    with Cons.IH [of "d - k" "i + 1"] Cons.prems obtain m r where "sub_months ms (i + 1) (d - k) = Some (m, r)" "i + 1 \<le> m"
      "nat (m - (i + 1)) < length ms" "0 \<le> r" "r < ms ! nat (m - (i + 1))" "d - k = sum_list (take (nat (m - (i + 1))) ms) + r" by auto
    moreover from \<open>i + 1 \<le> m\<close> have "nat (m - i) = Suc (nat (m - (i + 1)))" by simp
    ultimately show ?thesis using True by auto
  qed (use Cons.prems in auto)
qed simp

lemma month_table_facts: "length (month_table l) = 12" "sum_list (month_table l) = (if l then 366 else 365)"
  "\<forall>k<12. 28 \<le> month_table l ! k \<and> month_table l ! k \<le> 31"
  by (auto simp: month_table_def month_days_def FEBRUARY_def eval_nat_numeral less_Suc_eq)

section \<open>Properties\<close>

text \<open>A calendar date of the years 1970 to 2038 with a time of day.\<close>

definition valid_date :: "clock_ymdhms \<Rightarrow> bool" where
  "valid_date dt \<longleftrightarrow> 1970 \<le> uint (dt_year dt) \<and> uint (dt_year dt) \<le> 2038 \<and> 1 \<le> uint (dt_mon dt) \<and> uint (dt_mon dt) \<le> 12
     \<and> 1 \<le> uint (dt_day dt) \<and> uint (dt_day dt) \<le> month_table (leapyear (uint (dt_year dt))) ! nat (uint (dt_mon dt) - 1)
     \<and> uint (dt_hour dt) < 24 \<and> uint (dt_min dt) < 60 \<and> uint (dt_sec dt) < 60"

text \<open>The seconds from the first of January 1970 to a date, by the rules of the Gregorian calendar.\<close>

definition seconds_of :: "clock_ymdhms \<Rightarrow> int" where
  "seconds_of dt = (gregorian (uint (dt_year dt)) - gregorian 1970
       + before_month (leapyear (uint (dt_year dt))) (uint (dt_mon dt)) + uint (dt_day dt) - 1) * 86400
     + uint (dt_hour dt) * 3600 + uint (dt_min dt) * 60 + uint (dt_sec dt)"

lemma to_secs_eq:
  assumes "valid_date dt"
  shows "clock_ymdhms_to_secs dt = Some (int32 (seconds_of dt))"
proof -
  define y m where "y = uint (dt_year dt)" and "m = uint (dt_mon dt)"
  have ym: "1970 \<le> y" "1 \<le> m" "m \<le> 12" using assms by (simp_all add: valid_date_def y_def m_def)
  have days: "add_years POSIX_BASE_YEAR y 0 = gregorian y - gregorian 1970"
    using add_years_gregorian [of 1970 y 0] ym by (simp add: POSIX_BASE_YEAR_def)
  have "before_month (leapyear y) m = before_month False m + (if leapyear y \<and> m > FEBRUARY then 1 else 0)"
    using before_month_leap [OF ym(2,3)] by (cases "leapyear y") auto
  then show ?thesis
    unfolding clock_ymdhms_to_secs_def Let_def y_def [symmetric] m_def [symmetric] days add_months_sum [OF ym(2,3)] seconds_of_def
    by (simp add: algebra_simps)
qed

text \<open>
  \<^verbatim>\<open>clock_ymdhms_to_secs\<close> computes the number of seconds that the Gregorian calendar gives for a valid
  date: the loops over years and months agree with the closed formula, also for leap years,
  as long as the number fits into \<^verbatim>\<open>time_t\<close>.
\<close>

theorem clock_to_secs_gregorian:
  assumes "valid_date dt" and "seconds_of dt < 2 ^ 31"
  shows "clock_ymdhms_to_secs dt = Some (seconds_of dt)"
proof -
  have "gregorian 1970 \<le> gregorian (uint (dt_year dt))"
  proof -
    have "gregorian y \<le> gregorian (y + 1)" if "0 \<le> y" for y
      using gregorian_step [OF that] days_in_year_pos [of y] by simp
    note up = this
    have "gregorian 1970 \<le> gregorian (1970 + int n)" for n
    proof (induction n)
      case (Suc n)
      have "gregorian (1970 + int n) \<le> gregorian (1970 + int n + 1)" by (rule up) simp
      with Suc show ?case by (simp add: add.commute)
    qed simp
    from this [of "nat (uint (dt_year dt) - 1970)"] show ?thesis using assms(1) by (simp add: valid_date_def)
  qed
  moreover have bm: "0 \<le> before_month l n" for l n
  proof -
    have "\<forall>x \<in> set (month_table l). 0 \<le> x" by (cases l) (simp_all add: month_table_def month_days_def FEBRUARY_def)
    then show ?thesis unfolding before_month_def by (intro sum_list_nonneg) (auto dest: in_set_takeD)
  qed
  moreover have "1 \<le> uint (dt_day dt)" using assms(1) by (simp add: valid_date_def)
  ultimately have "0 \<le> gregorian (uint (dt_year dt)) - gregorian 1970
       + before_month (leapyear (uint (dt_year dt))) (uint (dt_mon dt)) + uint (dt_day dt) - 1"
    using bm [of "leapyear (uint (dt_year dt))" "uint (dt_mon dt)"] by linarith
  then have "0 \<le> seconds_of dt" unfolding seconds_of_def by (intro add_nonneg_nonneg mult_nonneg_nonneg) simp_all
  then show ?thesis using to_secs_eq [OF assms(1)] int32_id assms(2) by simp
qed

definition leap_day :: clock_ymdhms where
  "leap_day = \<lparr>dt_year = 2012, dt_mon = 2, dt_day = 29, dt_wday = 3, dt_hour = 11, dt_min = 59, dt_sec = 59\<rparr>"

lemma leap_day_valid: "valid_date leap_day" "seconds_of leap_day = 1330516799"
  by code_simp+

theorem clock_to_secs_gregorian_witness: "clock_ymdhms_to_secs leap_day = Some 1330516799"
  using clock_to_secs_gregorian [OF leap_day_valid(1)] leap_day_valid(2) by simp

text \<open>
  C19. Round trip: every non-negative time is converted to a valid date, with the right day of the week,
  and \<^verbatim>\<open>clock_ymdhms_to_secs\<close> turns that date back into the same time.
\<close>

theorem clock_round_trip:
  assumes "0 \<le> secs" and "secs < 2 ^ 31"
  shows "\<exists>dt. clock_secs_to_ymdhms secs = Some dt \<and> valid_date dt \<and> uint (dt_wday dt) = (secs div 86400 + 4) mod 7
    \<and> clock_ymdhms_to_secs dt = Some secs"
proof -
  define d r where "d = secs div 86400" and "r = secs mod 86400"
  have d: "0 \<le> d" "d \<le> 24855" using assms by (simp_all add: d_def) 
  have r: "0 \<le> r" "r < 86400" "secs = d * 86400 + r" by (simp_all add: d_def r_def)
  obtain y k where yk: "sub_years 1970 d = (y, k)" by (cases "sub_years 1970 d")
  note yr = sub_years_gregorian [OF yk _ d(1)]
  have y: "1970 \<le> y" "y \<le> 2038" using yr(1,5) d by auto
  have "k < sum_list (month_table (leapyear y))" using yr(4) by (simp add: month_table_facts days_in_year_def)
  from sub_months_some [OF _ this, of 1] yr(3) obtain m e where
    m: "sub_months (month_table (leapyear y)) 1 k = Some (m, e)" "1 \<le> m" "nat (m - 1) < length (month_table (leapyear y))" "0 \<le> e"
      "e < month_table (leapyear y) ! nat (m - 1)" "k = before_month (leapyear y) m + e"
    by (auto simp: before_month_def)
  have m12: "m \<le> 12" "e < 31" using m(2,3,5) month_table_facts(1,3) [of "leapyear y"] by force+
  define h mi se where "h = r div 3600" and "mi = r mod 3600 div 60" and "se = r mod 3600 mod 60"
  have t: "0 \<le> h" "h < 24" "0 \<le> mi" "mi < 60" "0 \<le> se" "se < 60" "r = h * 3600 + mi * 60 + se"
    using r by (auto simp: h_def mi_def se_def)
  define dt where "dt = \<lparr>dt_year = word_of_int y, dt_mon = word_of_int m, dt_day = word_of_int (e + 1), dt_wday = word_of_int ((d + 4) mod 7),
      dt_hour = word_of_int h, dt_min = word_of_int mi, dt_sec = word_of_int se\<rparr>"
  have conv: "clock_secs_to_ymdhms secs = Some dt"
    using assms(1) yk m(1) d(1) r(1)
    by (simp add: clock_secs_to_ymdhms_def SECDAY_def POSIX_BASE_YEAR_def sdiv_nonneg smod_nonneg d_def [symmetric] r_def [symmetric]
        month_table_def [symmetric] dt_def h_def mi_def se_def)
  have u8: "uint (word_of_int x :: u8) = x" if "0 \<le> x" "x < 256" for x using that by (simp add: uint_word_of_int_eq take_bit_int_eq_self)
  have fields: "uint (dt_year dt) = y" "uint (dt_mon dt) = m" "uint (dt_day dt) = e + 1" "uint (dt_hour dt) = h" "uint (dt_min dt) = mi" "uint (dt_sec dt) = se"
    "uint (dt_wday dt) = (d + 4) mod 7"
    using y m(2) m12 m(4) t u8 [of "e + 1"]
    by (simp_all add: dt_def u8 del: of_int_add) (simp add: uint_word_of_int_eq take_bit_int_eq_self)
  have valid: "valid_date dt" using y m m12 t by (simp add: valid_date_def fields)
  have "seconds_of dt = secs" using yr(2) m(6) r(3) t(7) by (simp add: seconds_of_def fields)
  then have "clock_ymdhms_to_secs dt = Some secs" using to_secs_eq [OF valid] int32_id [of secs] assms by simp
  then show ?thesis using conv valid fields(7) by (auto simp: d_def)
qed

theorem clock_round_trip_witness:
  "\<exists>dt. clock_secs_to_ymdhms 2147483647 = Some dt \<and> clock_ymdhms_to_secs dt = Some 2147483647"
  using clock_round_trip [of 2147483647] by auto

text \<open>
  Before 1970 the conversion does not work: C division truncates towards zero, so one second before the
  epoch becomes second 255 of the first of January.
\<close>

lemma clock_before_epoch:
  "clock_secs_to_ymdhms (- 1) = Some \<lparr>dt_year = 1970, dt_mon = 1, dt_day = 1, dt_wday = 4, dt_hour = 0, dt_min = 0, dt_sec = 255\<rparr>"
  by code_simp
end
