(* ===== verification/Mbuf_Ops.thy ===== *)
theory Mbuf_Ops
  imports Mbuf "HOL-Library.Monad_Syntax"
begin

text \<open>
  Operations on mbuf chains (\<^verbatim>\<open>src/sys/kern/uipc_mbuf.c\<close>): reading (\<^verbatim>\<open>m_copydata\<close>, \<^verbatim>\<open>m_apply\<close>,
  \<^verbatim>\<open>m_getptr\<close>), trimming (\<^verbatim>\<open>m_adj\<close>), joining (\<^verbatim>\<open>m_cat\<close>) and making data contiguous (\<^verbatim>\<open>m_pullup\<close>,
  \<^verbatim>\<open>m_pullup2\<close>). The storage area of an mbuf without external storage is the whole array \<^verbatim>\<open>m_dat\<close>; in an mbuf with a packet
  header the first \<open>MLEN - MHLEN\<close> bytes of it are the header. A panic, the use of a null pointer, a write
  outside the storage area and a loop that never ends are the result \<open>None\<close>. The sizes are those of the LP64
  ports. Statistics, mbuf types and packet tags are left out.
\<close>

section \<open>Mbufs with flags\<close>

definition MSIZE :: nat where "MSIZE = 256"

definition MLEN :: nat where "MLEN = MSIZE - 32"

definition MHLEN :: nat where "MHLEN = MLEN - 56"

definition MCLBYTES :: nat where "MCLBYTES = 2048"

datatype m_flag = M_EXT | M_PKTHDR | M_EOR | M_CLUSTER | M_PROTO1 | M_BCAST | M_MCAST | M_CONF | M_AUTH | M_AUTH_AH
  | M_TUNNEL | M_ANYCAST6 | M_LINK0 | M_LOOP | M_FILDROP

definition M_COPYFLAGS :: "m_flag set" where
  "M_COPYFLAGS = {M_PKTHDR, M_EOR, M_PROTO1, M_BCAST, M_MCAST, M_CONF, M_AUTH, M_ANYCAST6, M_LOOP, M_TUNNEL, M_LINK0, M_FILDROP}"

text \<open>The packet header: its length and the rest of its fields as one value.\<close>

record pkthdr =
  ph_len :: int
  ph_rest :: nat

text \<open>\<open>m_refd\<close> is \<^verbatim>\<open>MCLISREFERENCED\<close>: another mbuf refers to the same external storage.\<close>

record pmbuf = mbuf +
  m_flags :: "m_flag set"
  m_pkthdr :: pkthdr
  m_refd :: bool

definition M_READONLY :: "pmbuf \<Rightarrow> bool" where
  "M_READONLY m \<longleftrightarrow> M_EXT \<in> m_flags m \<and> (M_CLUSTER \<notin> m_flags m \<or> m_refd m)"

definition m_leadingspace :: "pmbuf \<Rightarrow> nat" where
  "m_leadingspace m =
     (if M_READONLY m then 0
      else if M_EXT \<in> m_flags m then m_data m
      else if M_PKTHDR \<in> m_flags m then m_data m - (MLEN - MHLEN)
      else m_data m)"

definition m_trailingspace :: "pmbuf \<Rightarrow> nat" where
  "m_trailingspace m = (if M_READONLY m then 0 else length (m_area m) - (m_data m + m_len m))"

text \<open>\<^verbatim>\<open>bcopy\<close> of bytes to \<^verbatim>\<open>mtod(m) + o\<close>: a fault outside the storage area.\<close>

definition m_write :: "nat \<Rightarrow> u8 list \<Rightarrow> pmbuf \<Rightarrow> pmbuf option" where
  "m_write k bs m =
     (let p = m_data m + k
      in if p + length bs \<le> length (m_area m)
         then Some (m\<lparr>m_area := take p (m_area m) @ bs @ drop (p + length bs) (m_area m)\<rparr>) else None)"

text \<open>\<^verbatim>\<open>m_get\<close> on a block of memory from the pool, whose contents are those of its former use.\<close>

definition m_get :: "pmbuf \<Rightarrow> pmbuf" where
  "m_get raw = raw\<lparr>m_data := 0, m_flags := {}\<rparr>"

definition m_gethdr :: "pmbuf \<Rightarrow> pmbuf" where
  "m_gethdr raw = raw\<lparr>m_data := MLEN - MHLEN, m_flags := {M_PKTHDR}, m_pkthdr := (m_pkthdr raw)\<lparr>ph_rest := 0\<rparr>\<rparr>"

text \<open>\<^verbatim>\<open>m_clget\<close> with the cluster that the pool gives, if any.\<close>

definition m_clget :: "u8 list option \<Rightarrow> pmbuf \<Rightarrow> pmbuf" where
  "m_clget cl m =
     (case cl of None \<Rightarrow> m
      | Some buf \<Rightarrow> m\<lparr>m_area := buf, m_data := 0, m_flags := m_flags m \<union> {M_EXT, M_CLUSTER}, m_refd := False\<rparr>)"

text \<open>\<^verbatim>\<open>M_MOVE_PKTHDR\<close> and \<^verbatim>\<open>M_DUP_PKTHDR\<close>: the header of \<open>from\<close> for the fresh mbuf \<open>to\<close>.\<close>

definition M_DUP_PKTHDR :: "pmbuf \<Rightarrow> pmbuf \<Rightarrow> pmbuf" where
  "M_DUP_PKTHDR to from = to\<lparr>m_flags := m_flags from \<inter> M_COPYFLAGS, m_pkthdr := m_pkthdr from, m_data := MLEN - MHLEN\<rparr>"

definition M_MOVE_PKTHDR :: "pmbuf \<Rightarrow> pmbuf \<Rightarrow> pmbuf \<times> pmbuf" where
  "M_MOVE_PKTHDR to from = (M_DUP_PKTHDR to from, from\<lparr>m_flags := m_flags from - {M_PKTHDR}\<rparr>)"

section \<open>Reading\<close>

text \<open>The loop over \<^verbatim>\<open>off\<close> at the start of \<^verbatim>\<open>m_copydata\<close>, \<^verbatim>\<open>m_apply\<close> and \<^verbatim>\<open>m_copym0\<close>.\<close>

fun m_skip :: "pmbuf list \<Rightarrow> nat \<Rightarrow> (pmbuf list \<times> nat) option" where
  "m_skip ms off =
     (if off > 0 then
        case ms of [] \<Rightarrow> None
        | m # r \<Rightarrow> if off < m_len m then Some (ms, off) else m_skip r (off - m_len m)
      else Some (ms, off))"

declare m_skip.simps [simp del]

definition m_piece :: "pmbuf \<Rightarrow> nat \<Rightarrow> nat \<Rightarrow> u8 list" where
  "m_piece m off count = take count (drop (m_data m + off) (m_area m))"

fun copydata_loop :: "pmbuf list \<Rightarrow> nat \<Rightarrow> nat \<Rightarrow> u8 list option" where
  "copydata_loop [] off len = (if len > 0 then None else Some [])"
| "copydata_loop (m # ms) off len =
     (if len > 0 then
        let count = min (m_len m - off) len
        in map_option (\<lambda>bs. m_piece m off count @ bs) (copydata_loop ms 0 (len - count))
      else Some [])"

definition m_copydata :: "pmbuf list \<Rightarrow> int \<Rightarrow> int \<Rightarrow> u8 list option" where
  "m_copydata m off len =
     (if off < 0 then None else if len < 0 then None
      else Option.bind (m_skip m (nat off)) (\<lambda>(m, off). copydata_loop m off (nat len)))"

fun apply_loop :: "('s \<Rightarrow> u8 list \<Rightarrow> 's \<times> int) \<Rightarrow> pmbuf list \<Rightarrow> nat \<Rightarrow> nat \<Rightarrow> 's \<Rightarrow> ('s \<times> int) option" where
  "apply_loop f [] off len st = (if len > 0 then None else Some (st, 0))"
| "apply_loop f (m # ms) off len st =
     (if len > 0 then
        let count = min (m_len m - off) len;
            (st', rval) = f st (m_piece m off count)
        in if rval \<noteq> 0 then Some (st', rval) else apply_loop f ms 0 (len - count) st'
      else Some (st, 0))"

definition m_apply :: "pmbuf list \<Rightarrow> int \<Rightarrow> int \<Rightarrow> ('s \<Rightarrow> u8 list \<Rightarrow> 's \<times> int) \<Rightarrow> 's \<Rightarrow> ('s \<times> int) option" where
  "m_apply m off len f fstate =
     (if len < 0 then None else if off < 0 then None
      else Option.bind (m_skip m (nat off)) (\<lambda>(m, off). apply_loop f m off (nat len) fstate))"

text \<open>
  \<^verbatim>\<open>m_getptr\<close>: the mbuf is the head of the rest of the chain; the inner \<open>None\<close> is the null pointer it may
  return.
\<close>

fun m_getptr :: "pmbuf list \<Rightarrow> int \<Rightarrow> (pmbuf list \<times> int) option option" where
  "m_getptr [] loc = (if loc \<ge> 0 then None else Some None)"
| "m_getptr (m # ms) loc =
     (if loc \<ge> 0 then
        if int (m_len m) > loc then Some (Some (m # ms, loc))
        else if ms = [] then
          if loc - int (m_len m) = 0 then Some (Some (m # ms, int (m_len m))) else Some None
        else m_getptr ms (loc - int (m_len m))
      else Some None)"

section \<open>Trimming and joining\<close>

fun adj_head :: "nat \<Rightarrow> pmbuf list \<Rightarrow> pmbuf list \<times> nat" where
  "adj_head len [] = ([], len)"
| "adj_head len (m # ms) =
     (if len > 0 then
        if m_len m \<le> len then
          let (ms', left) = adj_head (len - m_len m) ms in (m\<lparr>m_len := 0\<rparr> # ms', left)
        else (m\<lparr>m_len := m_len m - len, m_data := m_data m + len\<rparr> # ms, 0)
      else (m # ms, len))"

fun adj_tail :: "nat \<Rightarrow> pmbuf list \<Rightarrow> pmbuf list option" where
  "adj_tail count [] = None"
| "adj_tail count (m # ms) =
     (if m_len m \<ge> count then Some (m\<lparr>m_len := count\<rparr> # map (\<lambda>m. m\<lparr>m_len := 0\<rparr>) ms)
      else map_option (Cons m) (adj_tail (count - m_len m) ms))"

definition on_hdr_len :: "(int \<Rightarrow> int) \<Rightarrow> pmbuf list \<Rightarrow> pmbuf list" where
  "on_hdr_len f ms =
     (case ms of [] \<Rightarrow> []
      | m # r \<Rightarrow> (if M_PKTHDR \<in> m_flags m then m\<lparr>m_pkthdr := (m_pkthdr m)\<lparr>ph_len := f (ph_len (m_pkthdr m))\<rparr>\<rparr> else m) # r)"

definition m_adj :: "pmbuf list \<Rightarrow> int \<Rightarrow> pmbuf list option" where
  "m_adj mp req_len =
     (if mp = [] then Some []
      else if req_len \<ge> 0 then
        let (ms, left) = adj_head (nat req_len) mp
        in Some (on_hdr_len (\<lambda>l. l - (req_len - int left)) ms)
      else
        let len = nat (- req_len);
            count = sum_list (map m_len mp)
        in if m_len (last mp) \<ge> len then
             Some (on_hdr_len (\<lambda>l. l - int len) (butlast mp @ [(last mp)\<lparr>m_len := m_len (last mp) - len\<rparr>]))
           else
             let count = count - len
             in adj_tail count (on_hdr_len (\<lambda>l. int count) mp))"

fun cat_loop :: "pmbuf \<Rightarrow> pmbuf list \<Rightarrow> pmbuf list option" where
  "cat_loop m [] = Some [m]"
| "cat_loop m (n # ns) =
     (if M_READONLY m \<or> m_len n > m_trailingspace m then Some (m # n # ns)
      else Option.bind (m_write (m_len m) (m_bytes n) m) (\<lambda>m'. cat_loop (m'\<lparr>m_len := m_len m' + m_len n\<rparr>) ns))"

definition m_cat :: "pmbuf list \<Rightarrow> pmbuf list \<Rightarrow> pmbuf list option" where
  "m_cat m n = (if m = [] then None else map_option ((@) (butlast m)) (cat_loop (last m) n))"

section \<open>Contiguous data\<close>

text \<open>\<^verbatim>\<open>min\<close> and \<^verbatim>\<open>max\<close> of the kernel compare unsigned values.\<close>

definition umin :: "int \<Rightarrow> int \<Rightarrow> int" where
  "umin a b = min (a mod 2 ^ 32) (b mod 2 ^ 32)"

definition umax :: "int \<Rightarrow> int \<Rightarrow> int" where
  "umax a b = max (a mod 2 ^ 32) (b mod 2 ^ 32)"

text \<open>One turn of the copying loops: \<open>count\<close> bytes from the front of the chain to the end of \<open>m\<close>.\<close>

definition pull_turn :: "int \<Rightarrow> pmbuf \<Rightarrow> pmbuf list \<Rightarrow> (pmbuf \<times> pmbuf list) option" where
  "pull_turn count m ns =
     (case ns of [] \<Rightarrow> None
      | n # r \<Rightarrow>
          Option.bind (m_write (m_len m) (m_piece n 0 (nat count)) m) (\<lambda>m'.
            Some (m'\<lparr>m_len := m_len m' + nat count\<rparr>,
              if m_len n - nat count > 0 then n\<lparr>m_len := m_len n - nat count, m_data := m_data n + nat count\<rparr> # r else r)))"

text \<open>The loop of \<^verbatim>\<open>m_pullup\<close>; it may run forever when \<open>space\<close> runs out.\<close>

partial_function (option) pull_loop ::
    "int \<Rightarrow> int \<Rightarrow> int \<Rightarrow> pmbuf \<Rightarrow> pmbuf list \<Rightarrow> (int \<times> pmbuf \<times> pmbuf list) option" where
  "pull_loop max_protohdr len space m ns =
     (let count = umin (umin (umax len max_protohdr) space) (case ns of [] \<Rightarrow> 0 | n # r \<Rightarrow> int (m_len n))
      in Option.bind (pull_turn count m ns) (\<lambda>(m', ns').
           if len - count > 0 \<and> ns' \<noteq> [] then pull_loop max_protohdr (len - count) (space - count) m' ns'
           else Some (len - count, m', ns')))"

text \<open>The loop of \<^verbatim>\<open>m_pullup2\<close>, which copies no more than it has to.\<close>

fun pull2_loop :: "int \<Rightarrow> pmbuf \<Rightarrow> pmbuf list \<Rightarrow> (int \<times> pmbuf \<times> pmbuf list) option" where
  "pull2_loop len m [] = None"
| "pull2_loop len m (n # r) =
     (let count = umin len (int (m_len n))
      in Option.bind (pull_turn count m (n # r)) (\<lambda>(m', ns').
           if len - count > 0 \<and> r \<noteq> [] \<and> m_len n - nat count = 0 then pull2_loop (len - count) m' r
           else Some (len - count, m', ns')))"

text \<open>The result of \<^verbatim>\<open>m_pullup\<close>: a chain, or the null pointer with the chain freed.\<close>

datatype pull_result = Pulled "pmbuf list" | Freed

definition pull_finish :: "(int \<times> pmbuf \<times> pmbuf list) option \<Rightarrow> pull_result option" where
  "pull_finish r = map_option (\<lambda>(len, m, ns). if len > 0 then Freed else Pulled (m # ns)) r"

definition pull_space :: "pmbuf \<Rightarrow> int" where
  "pull_space m = int MLEN - int (m_data m + m_len m)"

text \<open>\<open>raw\<close> is the block \<^verbatim>\<open>m_get\<close> gets from the pool, if there is one.\<close>

definition m_pullup :: "pmbuf option \<Rightarrow> int \<Rightarrow> pmbuf list \<Rightarrow> int \<Rightarrow> pull_result option" where
  "m_pullup raw max_protohdr n len =
     (case n of [] \<Rightarrow> None
      | n1 # r \<Rightarrow>
          if M_EXT \<notin> m_flags n1 \<and> int (m_data n1) + len < int MLEN \<and> r \<noteq> [] then
            if int (m_len n1) \<ge> len mod 2 ^ 32 then Some (Pulled n)
            else pull_finish (pull_loop max_protohdr (len - int (m_len n1)) (pull_space n1) n1 r)
          else if len mod 2 ^ 64 > int MHLEN then Some Freed
          else case raw of None \<Rightarrow> Some Freed
            | Some b \<Rightarrow>
                let m = (m_get b)\<lparr>m_len := 0\<rparr>;
                    (m, n1) = (if M_PKTHDR \<in> m_flags n1 then M_MOVE_PKTHDR m n1 else (m, n1))
                in pull_finish (pull_loop max_protohdr len (pull_space m) m (n1 # r)))"

definition m_pullup2 :: "pmbuf option \<Rightarrow> u8 list option \<Rightarrow> int \<Rightarrow> pmbuf list \<Rightarrow> int \<Rightarrow> pull_result option" where
  "m_pullup2 raw cl max_protohdr n len =
     (if len mod 2 ^ 64 \<le> int MHLEN then m_pullup raw max_protohdr n len
      else case n of [] \<Rightarrow> None
      | n1 # r \<Rightarrow>
          if M_EXT \<in> m_flags n1 \<and> len < int MCLBYTES \<and> r \<noteq> [] then
            if int (m_len n1) \<ge> len mod 2 ^ 32 then Some (Pulled n)
            else pull_finish (pull2_loop (len - int (m_len n1)) n1 r)
          else if len > int MCLBYTES then Some Freed
          else case raw of None \<Rightarrow> Some Freed
            | Some b \<Rightarrow>
                let m = m_clget cl (m_get b)
                in if M_EXT \<notin> m_flags m then Some Freed
                   else
                     let m = m\<lparr>m_len := 0\<rparr>;
                         (m, n1) = (if M_PKTHDR \<in> m_flags n1
                           then (m\<lparr>m_flags := m_flags n1 \<inter> M_COPYFLAGS \<union> {M_EXT, M_CLUSTER}, m_pkthdr := m_pkthdr n1\<rparr>,
                                 n1\<lparr>m_flags := m_flags n1 - {M_PKTHDR}\<rparr>)
                           else (m, n1))
                     in pull_finish (pull2_loop len m (n1 # r)))"

section \<open>Facts about single mbufs\<close>

text \<open>Data inside the storage area; internal storage has its fixed size, behind the header if there is one.\<close>

definition pmbuf_ok :: "pmbuf \<Rightarrow> bool" where
  "pmbuf_ok m \<longleftrightarrow> mbuf_ok m \<and> (M_EXT \<notin> m_flags m \<longrightarrow> length (m_area m) = MLEN)
     \<and> (M_EXT \<notin> m_flags m \<and> M_PKTHDR \<in> m_flags m \<longrightarrow> MLEN - MHLEN \<le> m_data m)"

abbreviation chain_ok :: "pmbuf list \<Rightarrow> bool" where
  "chain_ok ms \<equiv> list_all mbuf_ok ms"

lemma mlen_simps [simp]: "MLEN = 224" "MHLEN = 168"
  by (simp_all add: MLEN_def MHLEN_def MSIZE_def)

lemma pmbuf_ok_mbuf: "pmbuf_ok m \<Longrightarrow> mbuf_ok m"
  by (simp add: pmbuf_ok_def)

lemma m_bytes_upd [simp]:
  "m_bytes (m\<lparr>m_flags := f\<rparr>) = m_bytes m" "m_bytes (m\<lparr>m_pkthdr := h\<rparr>) = m_bytes m" "m_bytes (m\<lparr>m_refd := b\<rparr>) = m_bytes m"
  "mbuf_ok (m\<lparr>m_flags := f\<rparr>) = mbuf_ok m" "mbuf_ok (m\<lparr>m_pkthdr := h\<rparr>) = mbuf_ok m" "mbuf_ok (m\<lparr>m_refd := b\<rparr>) = mbuf_ok m"
  for m :: pmbuf
  by (simp_all add: m_bytes_def mbuf_ok_def)

lemma m_bytes_zero [simp]: "m_bytes (m\<lparr>m_len := 0\<rparr>) = []"
  by (simp add: m_bytes_def)

lemma m_piece_bytes: "count + off \<le> m_len m \<Longrightarrow> m_piece m off count = take count (drop off (m_bytes m))"
  by (simp add: m_piece_def m_bytes_def drop_take take_take add.commute min_def)

lemma m_write_end:
  assumes ok: "mbuf_ok m" and room: "m_data m + m_len m + length bs \<le> length (m_area m)"
  shows "\<exists>m'. m_write (m_len m) bs m = Some m' \<and> m_len m' = m_len m \<and> m_data m' = m_data m \<and> m_flags m' = m_flags m
    \<and> m_pkthdr m' = m_pkthdr m \<and> m_refd m' = m_refd m \<and> length (m_area m') = length (m_area m)
    \<and> m_bytes (m'\<lparr>m_len := m_len m + length bs\<rparr>) = m_bytes m @ bs"
proof -
  define m' where "m' = m\<lparr>m_area := take (m_data m + m_len m) (m_area m) @ bs @ drop (m_data m + m_len m + length bs) (m_area m)\<rparr>"
  have "m_write (m_len m) bs m = Some m'" using room by (simp add: m_write_def Let_def m'_def)
  moreover have "m_bytes (m'\<lparr>m_len := m_len m + length bs\<rparr>) = m_bytes m @ bs"
    using ok room by (simp add: m_bytes_def m'_def mbuf_ok_def drop_take)
  moreover have "length (m_area m') = length (m_area m)" using room by (simp add: m'_def)
  ultimately show ?thesis by (auto simp: m'_def)
qed

section \<open>Reading\<close>

lemma m_skip_bytes:
  assumes "chain_ok ms"
  shows "off \<le> length (chain_bytes ms) \<Longrightarrow> \<exists>ms' o'. m_skip ms off = Some (ms', o') \<and> chain_ok ms'
      \<and> drop o' (chain_bytes ms') = drop off (chain_bytes ms) \<and> (o' = 0 \<or> ms' \<noteq> [] \<and> o' < m_len (hd ms'))"
    and "length (chain_bytes ms) < off \<Longrightarrow> m_skip ms off = None"
  using assms
proof (induction ms arbitrary: off)
  case Nil
  { case 1 then show ?case by (simp add: m_skip.simps)
  next
    case 2 then show ?case by (simp add: m_skip.simps) }
next
  case (Cons m ms)
  { case 1
    show ?case
    proof (cases "0 < off \<and> \<not> off < m_len m")
      case True
      with 1 Cons.IH(1) [of "off - m_len m"] show ?thesis by (subst m_skip.simps) (simp add: drop_append)
    next
      case False
      then show ?thesis using 1 by (subst m_skip.simps) auto
    qed
  next
    case 2
    then show ?case using Cons.IH(2) [of "off - m_len m"] by (subst m_skip.simps) auto }
qed

lemma copydata_loop_bytes:
  assumes "chain_ok ms" and "off = 0 \<or> ms \<noteq> [] \<and> off < m_len (hd ms)"
  shows "copydata_loop ms off len =
    (if len \<le> length (chain_bytes ms) - off then Some (take len (drop off (chain_bytes ms))) else None)"
  using assms
proof (induction ms arbitrary: off len)
  case (Cons m ms)
  then have ok: "mbuf_ok m" "off \<le> m_len m" by auto
  have piece: "m_piece m off (min (m_len m - off) len) = take len (drop off (m_bytes m))"
    using ok by (subst m_piece_bytes) (auto simp: min_def)
  show ?case using Cons.IH [of 0 "len - min (m_len m - off) len"] Cons.prems ok piece by (auto simp: Let_def min_def drop_append)
qed auto

lemma copydata_is_apply:
  "map_option ((@) acc) (copydata_loop ms off len) = map_option fst (apply_loop (\<lambda>a bs. (a @ bs, 0)) ms off len acc)"
proof (induction ms arbitrary: off len acc)
  case (Cons m ms)
  show ?case using Cons.IH [of "acc @ m_piece m off (min (m_len m - off) len)" 0 "len - min (m_len m - off) len"]
    by (auto simp: Let_def option.map_comp comp_def)
qed auto

text \<open>A function applied to one piece after the other until it returns an error.\<close>

definition run_pieces :: "('s \<Rightarrow> u8 list \<Rightarrow> 's \<times> int) \<Rightarrow> u8 list list \<Rightarrow> 's \<times> int \<Rightarrow> 's \<times> int" where
  "run_pieces f ps = fold (\<lambda>p (s, r). if r \<noteq> 0 then (s, r) else f s p) ps"

lemma run_pieces_stop: "r \<noteq> 0 \<Longrightarrow> run_pieces f ps (s, r) = (s, r)"
  by (induction ps) (auto simp: run_pieces_def)

lemma run_pieces_simps [simp]: "run_pieces f [] sr = sr" "run_pieces f (p # ps) (s, 0) = run_pieces f ps (f s p)"
  by (simp_all add: run_pieces_def)

text \<open>A function sees the bytes piece by piece, in order.\<close>

lemma apply_loop_pieces:
  assumes "chain_ok ms" and "off = 0 \<or> ms \<noteq> [] \<and> off < m_len (hd ms)" and "len \<le> length (chain_bytes ms) - off"
  shows "\<exists>ps. concat ps = take len (drop off (chain_bytes ms))
    \<and> (\<forall>(f :: 's \<Rightarrow> u8 list \<Rightarrow> 's \<times> int) st. apply_loop f ms off len st = Some (run_pieces f ps (st, 0)))"
  using assms
proof (induction ms arbitrary: off len)
  case Nil
  then show ?case by (intro exI [of _ "[]"]) auto
next
  case (Cons m ms)
  then have ok: "mbuf_ok m" "off \<le> m_len m" by auto
  define c where "c = min (m_len m - off) len"
  have piece: "m_piece m off c = take len (drop off (m_bytes m))"
    using ok by (subst m_piece_bytes) (auto simp: min_def c_def)
  show ?case
  proof (cases "0 < len")
    case True
    have "len - c \<le> length (chain_bytes ms) - 0" using Cons.prems ok by (auto simp: c_def)
    from Cons.IH [OF _ _ this] Cons.prems obtain ps where ps: "concat ps = take (len - c) (chain_bytes ms)"
      "\<forall>(f :: 's \<Rightarrow> u8 list \<Rightarrow> 's \<times> int) st. apply_loop f ms 0 (len - c) st = Some (run_pieces f ps (st, 0))" by auto
    have "apply_loop f (m # ms) off len st = Some (run_pieces f (m_piece m off c # ps) (st, 0))"
      for f :: "'s \<Rightarrow> u8 list \<Rightarrow> 's \<times> int" and st
      using True ps(2) by (cases "f st (m_piece m off c)") (auto simp: Let_def c_def [symmetric] run_pieces_stop)
    moreover have "concat (m_piece m off c # ps) = take len (drop off (chain_bytes (m # ms)))"
    proof -
      have "len - c = len + off - m_len m" using ok by (auto simp: c_def)
      then show ?thesis using ps(1) piece ok Cons.prems by (auto simp: drop_append)
    qed
    ultimately show ?thesis by blast
  qed (auto intro: exI [of _ "[]"])
qed

lemma m_getptr_spec:
  assumes "chain_ok ms" and "ms \<noteq> []" and "0 \<le> loc"
  shows "\<exists>r. m_getptr ms loc = Some r \<and> (r = None \<longleftrightarrow> int (length (chain_bytes ms)) < loc)
    \<and> (\<forall>suf off. r = Some (suf, off) \<longrightarrow> 0 \<le> off \<and> suf \<noteq> [] \<and> off \<le> int (m_len (hd suf)) \<and> (\<exists>pre. ms = pre @ suf)
         \<and> drop (nat off) (chain_bytes suf) = drop (nat loc) (chain_bytes ms))"
  using assms
proof (induction ms arbitrary: loc)
  case (Cons m ms)
  show ?case
  proof (cases "int (m_len m) > loc \<or> ms = []")
    case True
    then show ?thesis using Cons.prems by auto
  next
    case False
    from Cons.IH [of "loc - int (m_len m)"] False Cons.prems obtain r where
      r: "m_getptr ms (loc - int (m_len m)) = Some r" "r = None \<longleftrightarrow> int (length (chain_bytes ms)) < loc - int (m_len m)"
        "\<And>suf off. r = Some (suf, off) \<Longrightarrow> 0 \<le> off \<and> suf \<noteq> [] \<and> off \<le> int (m_len (hd suf)) \<and> (\<exists>pre. ms = pre @ suf)
           \<and> drop (nat off) (chain_bytes suf) = drop (nat (loc - int (m_len m))) (chain_bytes ms)" by auto
    have "\<exists>pre. m # ms = pre @ suf" if "\<exists>pre. ms = pre @ suf" for suf using that by (metis append_Cons)
    moreover have "drop (nat loc) (chain_bytes (m # ms)) = drop (nat (loc - int (m_len m))) (chain_bytes ms)"
    proof -
      have "m_len m \<le> nat loc" using False by linarith
      then show ?thesis using Cons.prems by (simp add: nat_diff_distrib)
    qed
    ultimately show ?thesis using r False Cons.prems by (intro exI [of _ r]) auto
  qed
qed simp

section \<open>Trimming and joining\<close>

lemma adj_head_bytes:
  assumes "chain_ok ms" and "adj_head len ms = (ms', left)"
  shows "chain_ok ms'" and "chain_bytes ms' = drop len (chain_bytes ms)" and "left = len - length (chain_bytes ms)"
    and "map m_flags ms' = map m_flags ms" and "map m_pkthdr ms' = map m_pkthdr ms"
proof -
  have "chain_ok ms' \<and> chain_bytes ms' = drop len (chain_bytes ms) \<and> left = len - length (chain_bytes ms)
    \<and> map m_flags ms' = map m_flags ms \<and> map m_pkthdr ms' = map m_pkthdr ms"
    using assms
  proof (induction ms arbitrary: len ms' left)
    case (Cons m ms)
    then have ok: "mbuf_ok m" by simp
    show ?case
    proof (cases "0 < len \<and> m_len m \<le> len")
      case True
      obtain ms1 l1 where r: "adj_head (len - m_len m) ms = (ms1, l1)" by (cases "adj_head (len - m_len m) ms")
      from Cons.IH [OF _ r] Cons.prems True r show ?thesis by (auto simp: mbuf_ok_def)
    next
      case False
      have "m_bytes (m\<lparr>m_len := m_len m - len, m_data := m_data m + len\<rparr>) = drop len (m_bytes m)" if "len \<le> m_len m"
        using that by (simp add: m_bytes_def drop_take add.commute)
      then show ?thesis using False Cons.prems ok by (auto simp: mbuf_ok_def split: if_splits)
    qed
  qed simp
  then show "chain_ok ms'" "chain_bytes ms' = drop len (chain_bytes ms)" "left = len - length (chain_bytes ms)"
    "map m_flags ms' = map m_flags ms" "map m_pkthdr ms' = map m_pkthdr ms" by auto
qed

lemma m_bytes_shorter: "k \<le> m_len m \<Longrightarrow> m_bytes (m\<lparr>m_len := k\<rparr>) = take k (m_bytes m)"
  by (simp add: m_bytes_def min_def)

lemma mbuf_ok_shorter: "mbuf_ok m \<Longrightarrow> k \<le> m_len m \<Longrightarrow> mbuf_ok (m\<lparr>m_len := k\<rparr>)"
  by (simp add: mbuf_ok_def)

lemma chain_ok_last: "chain_ok ms \<Longrightarrow> ms \<noteq> [] \<Longrightarrow> mbuf_ok (last ms)"
  and chain_ok_butlast: "chain_ok ms \<Longrightarrow> chain_ok (butlast ms)"
  by (auto simp: list_all_iff dest: in_set_butlastD)

lemma chain_bytes_zeros: "chain_bytes (map (\<lambda>m. m\<lparr>m_len := 0\<rparr>) ms) = []"
  by (induction ms) auto

lemma adj_tail_bytes:
  assumes "chain_ok ms" and "ms \<noteq> []" and "count \<le> length (chain_bytes ms)"
  shows "\<exists>ms'. adj_tail count ms = Some ms' \<and> chain_ok ms' \<and> chain_bytes ms' = take count (chain_bytes ms)
    \<and> map m_flags ms' = map m_flags ms \<and> map m_pkthdr ms' = map m_pkthdr ms"
  using assms
proof (induction ms arbitrary: count)
  case (Cons m ms)
  show ?case
  proof (cases "m_len m \<ge> count")
    case True
    have "chain_ok (map (\<lambda>m. m\<lparr>m_len := 0\<rparr>) ms)" using Cons.prems(1) by (auto simp: list_all_iff mbuf_ok_shorter)
    then show ?thesis using True Cons.prems by (auto simp: m_bytes_shorter chain_bytes_zeros mbuf_ok_shorter comp_def)
  next
    case False
    then have "ms \<noteq> []" "count - m_len m \<le> length (chain_bytes ms)" using Cons.prems by auto
    with Cons.IH [of "count - m_len m"] Cons.prems False show ?thesis by auto
  qed
qed simp

lemma on_hdr_frame [simp]:
  "chain_bytes (on_hdr_len f ms) = chain_bytes ms" "chain_ok (on_hdr_len f ms) = chain_ok ms"
  "map m_flags (on_hdr_len f ms) = map m_flags ms" "map m_len (on_hdr_len f ms) = map m_len ms"
  "on_hdr_len f ms = [] \<longleftrightarrow> ms = []"
  by (cases ms; simp add: on_hdr_len_def)+

definition hdr_len :: "pmbuf list \<Rightarrow> int" where
  "hdr_len ms = ph_len (m_pkthdr (hd ms))"

lemma hdr_len_on [simp]: "ms \<noteq> [] \<Longrightarrow> M_PKTHDR \<in> m_flags (hd ms) \<Longrightarrow> hdr_len (on_hdr_len f ms) = f (hdr_len ms)"
  by (cases ms) (auto simp: hdr_len_def on_hdr_len_def)

lemma hd_map_eq: "map f xs = map f ys \<Longrightarrow> ys \<noteq> [] \<Longrightarrow> f (hd xs) = f (hd ys)"
  by (metis hd_map map_is_Nil_conv)

lemma map_last: "xs \<noteq> [] \<Longrightarrow> map f xs = map f (butlast xs) @ [f (last xs)]"
  by (metis append_butlast_last_id list.simps(8,9) map_append)

lemma m_adj_bytes:
  assumes ok: "chain_ok ms" and ne: "ms \<noteq> []"
  shows "\<exists>ms'. m_adj ms n = Some ms' \<and> chain_ok ms' \<and> length ms' = length ms \<and> map m_flags ms' = map m_flags ms
    \<and> chain_bytes ms' = (if 0 \<le> n then drop (nat n) (chain_bytes ms) else take (length (chain_bytes ms) - nat (- n)) (chain_bytes ms))
    \<and> (M_PKTHDR \<in> m_flags (hd ms) \<longrightarrow> hdr_len ms = int (length (chain_bytes ms)) \<longrightarrow> hdr_len ms' = int (length (chain_bytes ms')))"
proof (cases "0 \<le> n")
  case True
  obtain ms1 left where r: "adj_head (nat n) ms = (ms1, left)" by (cases "adj_head (nat n) ms")
  note a = adj_head_bytes [OF ok r]
  have "ms1 \<noteq> []" using a(4) ne by auto
  moreover have "m_flags (hd ms1) = m_flags (hd ms)" "hdr_len ms1 = hdr_len ms"
    using hd_map_eq [OF a(4) ne] hd_map_eq [OF a(5) ne] by (simp_all add: hdr_len_def)
  moreover have "length ms1 = length ms" by (metis a(4) length_map)
  moreover have "length (on_hdr_len f l) = length l" for f l by (cases l) (simp_all add: on_hdr_len_def)
  ultimately show ?thesis using True r a ne by (auto simp: m_adj_def)
next
  case False
  define len where "len = nat (- n)"
  have tot: "sum_list (map m_len ms) = length (chain_bytes ms)" using length_chain_bytes [OF ok] by simp
  have lenh: "length (on_hdr_len f l) = length l" for f l by (cases l) (simp_all add: on_hdr_len_def)
  have split: "ms = butlast ms @ [last ms]" using ne by simp
  show ?thesis
  proof (cases "m_len (last ms) \<ge> len")
    case True
    define ms1 where "ms1 = butlast ms @ [(last ms)\<lparr>m_len := m_len (last ms) - len\<rparr>]"
    have okl: "mbuf_ok (last ms)" "chain_ok (butlast ms)" using chain_ok_last [OF ok ne] chain_ok_butlast [OF ok] by simp_all
    have cb: "chain_bytes ms = chain_bytes (butlast ms) @ m_bytes (last ms)"
      by (subst split) (simp only: chain_bytes_append chain_bytes_Cons chain_bytes_Nil append_Nil2)
    have "chain_bytes ms1 = take (length (chain_bytes ms) - len) (chain_bytes ms)"
      using True okl by (simp add: cb ms1_def m_bytes_shorter)
    moreover have "chain_ok ms1" using okl by (simp add: ms1_def mbuf_ok_shorter)
    moreover have "map m_flags ms1 = map m_flags ms" "map m_pkthdr ms1 = map m_pkthdr ms"
      using map_last [OF ne, of m_flags] map_last [OF ne, of m_pkthdr] by (simp_all add: ms1_def)
    moreover have "ms1 \<noteq> []" "length ms1 = length ms" using ne by (simp_all add: ms1_def)
    moreover have "len \<le> length (chain_bytes ms)" using True okl by (simp add: cb)
    moreover have "m_adj ms n = Some (on_hdr_len (\<lambda>l. l - int len) ms1)"
      using False True ne by (simp add: m_adj_def Let_def len_def [symmetric] ms1_def)
    ultimately show ?thesis using False hd_map_eq [of m_flags ms1 ms] hd_map_eq [of m_pkthdr ms1 ms] ne lenh
      by (auto simp: len_def hdr_len_def [symmetric], simp_all add: hdr_len_def)
  next
    case small: False
    define count where "count = length (chain_bytes ms) - len"
    have "count \<le> length (chain_bytes (on_hdr_len (\<lambda>l. int count) ms))" by (simp add: count_def)
    from adj_tail_bytes [OF _ _ this] ok ne obtain ms' where
      a: "adj_tail count (on_hdr_len (\<lambda>l. int count) ms) = Some ms'" "chain_ok ms'" "chain_bytes ms' = take count (chain_bytes ms)"
        "map m_flags ms' = map m_flags ms" "map m_pkthdr ms' = map m_pkthdr (on_hdr_len (\<lambda>l. int count) ms)" by auto
    have "m_adj ms n = Some ms'" using False small ne a(1) tot by (simp add: m_adj_def Let_def len_def [symmetric] count_def)
    moreover have "hdr_len ms' = int count" if "M_PKTHDR \<in> m_flags (hd ms)"
      using hd_map_eq [OF a(5)] hdr_len_on [OF ne that] ne by (simp add: hdr_len_def)
    moreover have "length ms' = length ms" by (metis a(4) length_map)
    ultimately show ?thesis using False a by (auto simp: count_def len_def)
  qed
qed

lemma cat_loop_bytes:
  assumes "mbuf_ok m" and "chain_ok ns"
  shows "\<exists>l. cat_loop m ns = Some l \<and> l \<noteq> [] \<and> chain_ok l \<and> chain_bytes l = m_bytes m @ chain_bytes ns
    \<and> m_flags (hd l) = m_flags m \<and> m_pkthdr (hd l) = m_pkthdr m"
  using assms
proof (induction ns arbitrary: m)
  case (Cons n ns)
  show ?case
  proof (cases "M_READONLY m \<or> m_len n > m_trailingspace m")
    case True
    then show ?thesis using Cons.prems by simp
  next
    case False
    then have room: "m_data m + m_len m + length (m_bytes n) \<le> length (m_area m)"
      using Cons.prems by (auto simp: m_trailingspace_def mbuf_ok_def)
    from m_write_end [OF Cons.prems(1) this] obtain m1 where m1: "m_write (m_len m) (m_bytes n) m = Some m1" "m_len m1 = m_len m"
      "m_data m1 = m_data m" "m_flags m1 = m_flags m" "m_pkthdr m1 = m_pkthdr m" "length (m_area m1) = length (m_area m)"
      "m_bytes (m1\<lparr>m_len := m_len m + length (m_bytes n)\<rparr>) = m_bytes m @ m_bytes n" by auto
    have "mbuf_ok (m1\<lparr>m_len := m_len m + m_len n\<rparr>)" using room m1 Cons.prems by (simp add: mbuf_ok_def)
    from Cons.IH [OF this] Cons.prems m1 False show ?thesis by auto
  qed
qed simp

lemma m_cat_bytes:
  assumes "chain_ok ms" and "ms \<noteq> []" and "chain_ok ns"
  shows "\<exists>l. m_cat ms ns = Some l \<and> l \<noteq> [] \<and> chain_ok l \<and> chain_bytes l = chain_bytes ms @ chain_bytes ns
    \<and> m_flags (hd l) = m_flags (hd ms) \<and> m_pkthdr (hd l) = m_pkthdr (hd ms)"
proof -
  have split: "ms = butlast ms @ [last ms]" using assms(2) by simp
  have ok: "mbuf_ok (last ms)" "chain_ok (butlast ms)" using chain_ok_last [OF assms(1,2)] chain_ok_butlast [OF assms(1)] by simp_all
  from cat_loop_bytes [OF ok(1) assms(3)] obtain l where l: "cat_loop (last ms) ns = Some l" "l \<noteq> []" "chain_ok l"
    "chain_bytes l = m_bytes (last ms) @ chain_bytes ns" "m_flags (hd l) = m_flags (last ms)" "m_pkthdr (hd l) = m_pkthdr (last ms)" by blast
  have "chain_bytes ms = chain_bytes (butlast ms) @ m_bytes (last ms)" by (subst split) (simp only: chain_bytes_append chain_bytes_Cons chain_bytes_Nil append_Nil2)
  moreover have "hd ms = (if butlast ms = [] then last ms else hd (butlast ms))" using assms(2) by (cases ms) auto
  ultimately show ?thesis using l ok assms(2) by (simp add: m_cat_def hd_append)
qed

section \<open>Contiguous data\<close>

lemma umin_id: "0 \<le> a \<Longrightarrow> a < 2 ^ 32 \<Longrightarrow> 0 \<le> b \<Longrightarrow> b < 2 ^ 32 \<Longrightarrow> umin a b = min a b"
  and umax_id: "0 \<le> a \<Longrightarrow> a < 2 ^ 32 \<Longrightarrow> 0 \<le> b \<Longrightarrow> b < 2 ^ 32 \<Longrightarrow> umax a b = max a b"
  by (simp_all add: umin_def umax_def)

text \<open>A turn that has room moves bytes and keeps the sequence of all bytes.\<close>

lemma pull_turn_bytes:
  assumes m: "mbuf_ok m" and ns: "chain_ok (n # r)" and c: "c \<le> m_len n" and room: "m_data m + m_len m + c \<le> length (m_area m)"
  shows "\<exists>m' ns'. pull_turn (int c) m (n # r) = Some (m', ns') \<and> mbuf_ok m' \<and> chain_ok ns' \<and> m_len m' = m_len m + c
    \<and> m_data m' = m_data m \<and> length (m_area m') = length (m_area m) \<and> m_flags m' = m_flags m \<and> m_pkthdr m' = m_pkthdr m
    \<and> m_bytes m' @ chain_bytes ns' = m_bytes m @ chain_bytes (n # r)
    \<and> ns' = (if c < m_len n then n\<lparr>m_len := m_len n - c, m_data := m_data n + c\<rparr> # r else r)"
proof -
  have piece: "m_piece n 0 c = take c (m_bytes n)" using m_piece_bytes [of c 0 n] c by simp
  have len: "length (take c (m_bytes n)) = c" using ns c by simp
  with room have "m_data m + m_len m + length (take c (m_bytes n)) \<le> length (m_area m)" by simp
  from m_write_end [OF m this] obtain m1 where m1: "m_write (m_len m) (take c (m_bytes n)) m = Some m1" "m_len m1 = m_len m"
    "m_data m1 = m_data m" "m_flags m1 = m_flags m" "m_pkthdr m1 = m_pkthdr m" "length (m_area m1) = length (m_area m)"
    "m_bytes (m1\<lparr>m_len := m_len m + c\<rparr>) = m_bytes m @ take c (m_bytes n)" unfolding len by auto
  define n' where "n' = n\<lparr>m_len := m_len n - c, m_data := m_data n + c\<rparr>"
  have n': "m_bytes n' = drop c (m_bytes n)" "mbuf_ok n'" using ns c by (auto simp: n'_def m_bytes_def mbuf_ok_def drop_take add.commute)
  have "mbuf_ok (m1\<lparr>m_len := m_len m + c\<rparr>)" using room m1 by (simp add: mbuf_ok_def)
  then show ?thesis using m1 n' ns c piece
    by (auto simp: pull_turn_def n'_def [symmetric])
qed

text \<open>What the loops deliver: all bytes in order, and as many in front as asked for if there are that many.\<close>

definition pulled :: "pmbuf \<Rightarrow> pmbuf list \<Rightarrow> int \<Rightarrow> int \<times> pmbuf \<times> pmbuf list \<Rightarrow> bool" where
  "pulled m ns len res \<longleftrightarrow> (case res of (len', m', ns') \<Rightarrow>
     mbuf_ok m' \<and> chain_ok ns' \<and> m_bytes m' @ chain_bytes ns' = m_bytes m @ chain_bytes ns \<and> m_flags m' = m_flags m \<and> m_pkthdr m' = m_pkthdr m
     \<and> int (m_len m') + len' = int (m_len m) + len \<and> (len' > 0 \<longrightarrow> ns' = []) \<and> m_len m \<le> m_len m')"

lemma pulled_step:
  assumes "pulled m' ns' (len - int c) res" and "m_bytes m' @ chain_bytes ns' = m_bytes m @ chain_bytes ns"
    and "m_flags m' = m_flags m" and "m_pkthdr m' = m_pkthdr m" and "m_len m' = m_len m + c"
  shows "pulled m ns len res"
  using assms by (auto simp: pulled_def split: prod.splits)

text \<open>
  Termination of the loop of \<^verbatim>\<open>m_pullup\<close>: with room for the bytes asked for, a turn either finishes an mbuf of the
  chain or copies enough.
\<close>

lemma pull_loop_ends:
  assumes "mbuf_ok m" and "length (m_area m) = MLEN" and "chain_ok ns" and "ns \<noteq> []" and "0 \<le> len" and "len \<le> space"
    and "space = pull_space m" and "0 \<le> mp" "mp < 2 ^ 31" and "list_all (\<lambda>n. m_len n < 2 ^ 31) ns"
  shows "\<exists>res. pull_loop mp len space m ns = Some res \<and> pulled m ns len res"
  using assms
proof (induction ns arbitrary: m len space)
  case (Cons n r)
  define c where "c = nat (min (min (max len mp) space) (int (m_len n)))"
  have sp: "0 \<le> space" "space \<le> 224" "int (m_data m + m_len m) + space = 224"
    using Cons.prems(1,2,5-7) by (auto simp: pull_space_def mbuf_ok_def)
  have cnt: "umin (umin (umax len mp) space) (int (m_len n)) = int c"
    using Cons.prems sp by (simp add: umin_id umax_id c_def min_def max_def)
  have c: "c \<le> m_len n" "int c \<le> space" using Cons.prems sp by (auto simp: c_def)
  have room: "m_data m + m_len m + c \<le> length (m_area m)" using Cons.prems(2) sp c by simp
  from pull_turn_bytes [OF Cons.prems(1,3) c(1) room] obtain m' ns' where
    t: "pull_turn (int c) m (n # r) = Some (m', ns')" "mbuf_ok m'" "chain_ok ns'" "m_len m' = m_len m + c" "m_data m' = m_data m"
      "length (m_area m') = length (m_area m)" "m_flags m' = m_flags m" "m_pkthdr m' = m_pkthdr m"
      "m_bytes m' @ chain_bytes ns' = m_bytes m @ chain_bytes (n # r)" "ns' = (if c < m_len n then n\<lparr>m_len := m_len n - c, m_data := m_data n + c\<rparr> # r else r)"
    by blast
  show ?case
  proof (cases "len - int c > 0 \<and> ns' \<noteq> []")
    case True
    have "c = m_len n" using True c Cons.prems(5,6,8) by (auto simp: c_def min_def max_def split: if_splits)
    then have ns': "ns' = r" using t(10) by simp
    have "\<exists>res. pull_loop mp (len - int c) (space - int c) m' r = Some res \<and> pulled m' r (len - int c) res"
      using t ns' True c Cons.prems by (intro Cons.IH) (auto simp: pull_space_def)
    then obtain res where res: "pull_loop mp (len - int c) (space - int c) m' r = Some res" "pulled m' r (len - int c) res" by blast
    have "pull_loop mp len space m (n # r) = Some res"
      using True t(1) cnt res(1) ns' by (subst pull_loop.simps) simp
    moreover have "pulled m (n # r) len res" by (rule pulled_step [OF res(2)]) (use t ns' in simp_all)
    ultimately show ?thesis by blast
  next
    case False
    then have "pull_loop mp len space m (n # r) = Some (len - int c, m', ns')"
      using t(1) cnt by (subst pull_loop.simps) auto
    moreover have "pulled m (n # r) len (len - int c, m', ns')" using t False by (auto simp: pulled_def)
    ultimately show ?thesis by blast
  qed
qed simp

lemma pulled_finish:
  assumes "pulled m ns len (l', m', ns')" and "mbuf_ok m" and "chain_ok ns"
  shows "l' > 0 \<longleftrightarrow> int (m_len m + length (chain_bytes ns)) < int (m_len m) + len"
    and "\<not> l' > 0 \<Longrightarrow> int (m_len m) + len \<le> int (m_len m')"
proof -
  have p: "mbuf_ok m'" "m_bytes m' @ chain_bytes ns' = m_bytes m @ chain_bytes ns" "int (m_len m') + l' = int (m_len m) + len"
    "l' > 0 \<longrightarrow> ns' = []" using assms(1) by (auto simp: pulled_def)
  have "length (m_bytes m' @ chain_bytes ns') = length (m_bytes m @ chain_bytes ns)" using p(2) by simp
  then have len: "m_len m' + length (chain_bytes ns') = m_len m + length (chain_bytes ns)" using p(1) assms(2) by simp
  show "\<not> l' > 0 \<Longrightarrow> int (m_len m) + len \<le> int (m_len m')" using p(3) by linarith
  show "l' > 0 \<longleftrightarrow> int (m_len m + length (chain_bytes ns)) < int (m_len m) + len"
  proof (cases "l' > 0")
    case True
    with p(3,4) len show ?thesis by simp
  next
    case False
    with p(3) len show ?thesis by linarith
  qed
qed

lemma pull2_loop_ends:
  assumes "mbuf_ok m" and "chain_ok ns" and "ns \<noteq> []" and "0 \<le> len" "len < 2 ^ 32"
    and "int (m_data m + m_len m) + len \<le> int (length (m_area m))" and "list_all (\<lambda>n. m_len n < 2 ^ 31) ns"
  shows "\<exists>res. pull2_loop len m ns = Some res \<and> pulled m ns len res"
  using assms
proof (induction ns arbitrary: m len)
  case (Cons n r)
  define c where "c = nat (min len (int (m_len n)))"
  have cnt: "umin len (int (m_len n)) = int c" using Cons.prems by (simp add: umin_id c_def)
  have c: "c \<le> m_len n" "int c \<le> len" using Cons.prems by (auto simp: c_def)
  have room: "m_data m + m_len m + c \<le> length (m_area m)" using Cons.prems(6) c by linarith
  from pull_turn_bytes [OF Cons.prems(1,2) c(1) room] obtain m' ns' where
    t: "pull_turn (int c) m (n # r) = Some (m', ns')" "mbuf_ok m'" "chain_ok ns'" "m_len m' = m_len m + c" "m_data m' = m_data m"
      "length (m_area m') = length (m_area m)" "m_flags m' = m_flags m" "m_pkthdr m' = m_pkthdr m"
      "m_bytes m' @ chain_bytes ns' = m_bytes m @ chain_bytes (n # r)" "ns' = (if c < m_len n then n\<lparr>m_len := m_len n - c, m_data := m_data n + c\<rparr> # r else r)"
    by blast
  show ?case
  proof (cases "len - int c > 0 \<and> r \<noteq> [] \<and> m_len n - c = 0")
    case True
    then have ns': "ns' = r" using t(10) by auto
    have "\<exists>res. pull2_loop (len - int c) m' r = Some res \<and> pulled m' r (len - int c) res"
      using t ns' True c Cons.prems by (intro Cons.IH) auto
    then obtain res where res: "pull2_loop (len - int c) m' r = Some res" "pulled m' r (len - int c) res" by blast
    have "pull2_loop len m (n # r) = Some res" using True t(1) cnt res(1) ns' by (simp add: Let_def)
    moreover have "pulled m (n # r) len res" by (rule pulled_step [OF res(2)]) (use t ns' in simp_all)
    ultimately show ?thesis by blast
  next
    case False
    then have "pull2_loop len m (n # r) = Some (len - int c, m', ns')" using t(1) cnt by (auto simp: Let_def)
    moreover have "len - int c > 0 \<longrightarrow> ns' = []" using False c t(10) by (auto simp: c_def min_def split: if_splits)
    then have "pulled m (n # r) len (len - int c, m', ns')" using t by (auto simp: pulled_def)
    ultimately show ?thesis by blast
  qed
qed simp

text \<open>What a successful or failed pull-up means for the caller.\<close>

definition pull_spec :: "pmbuf list \<Rightarrow> int \<Rightarrow> pull_result \<Rightarrow> bool" where
  "pull_spec ns len r \<longleftrightarrow> (case r of Freed \<Rightarrow> True
     | Pulled ms \<Rightarrow> ms \<noteq> [] \<and> chain_ok ms \<and> chain_bytes ms = chain_bytes ns \<and> len \<le> int (m_len (hd ms))
         \<and> (M_PKTHDR \<in> m_flags (hd ns) \<longrightarrow> M_PKTHDR \<in> m_flags (hd ms) \<and> m_pkthdr (hd ms) = m_pkthdr (hd ns)))"

lemma pull_finish_spec:
  assumes loop: "\<exists>res. L = Some res \<and> pulled m ns' (len - int (m_len m)) res" and ok: "mbuf_ok m" "chain_ok ns'"
    and bytes: "m_bytes m @ chain_bytes ns' = chain_bytes ns"
    and hdr: "M_PKTHDR \<in> m_flags (hd ns) \<Longrightarrow> M_PKTHDR \<in> m_flags m \<and> m_pkthdr m = m_pkthdr (hd ns)"
  shows "\<exists>r. pull_finish L = Some r \<and> pull_spec ns len r \<and> (r = Freed \<longleftrightarrow> int (length (chain_bytes ns)) < len)"
proof -
  obtain l' m' ms' where res: "L = Some (l', m', ms')" "pulled m ns' (len - int (m_len m)) (l', m', ms')" using loop by auto
  note f = pulled_finish [OF res(2) ok]
  have "length (chain_bytes ns) = m_len m + length (chain_bytes ns')" using ok by (simp add: bytes [symmetric])
  then have fr: "l' > 0 \<longleftrightarrow> int (length (chain_bytes ns)) < len" using f(1) by simp
  have p: "mbuf_ok m'" "chain_ok ms'" "m_bytes m' @ chain_bytes ms' = m_bytes m @ chain_bytes ns'" "m_flags m' = m_flags m"
    "m_pkthdr m' = m_pkthdr m" using res(2) by (auto simp: pulled_def)
  show ?thesis
  proof (cases "l' > 0")
    case True
    then show ?thesis using res(1) fr by (simp add: pull_finish_def pull_spec_def)
  next
    case False
    then show ?thesis using res(1) fr f(2) p hdr bytes by (simp add: pull_finish_def pull_spec_def)
  qed
qed

section \<open>Properties\<close>

text \<open>
  C20. \<^verbatim>\<open>m_pullup\<close> terminates and never writes outside an mbuf: it returns a chain with the same bytes whose first mbuf
  holds at least \<open>len\<close> of them, with the packet header of the old chain, or it frees the chain, which happens only
  if the chain is shorter than \<open>len\<close>, \<open>len\<close> is larger than a header mbuf holds, or no mbuf can be allocated.
\<close>

theorem m_pullup_correct:
  assumes ok: "list_all pmbuf_ok ns" "ns \<noteq> []" "list_all (\<lambda>n. m_len n < 2 ^ 31) ns" and len: "0 \<le> len" "len < 2 ^ 31"
    and mp: "0 \<le> mp" "mp < 2 ^ 31" and raw: "\<And>b. raw = Some b \<Longrightarrow> length (m_area b) = MLEN"
  shows "\<exists>r. m_pullup raw mp ns len = Some r \<and> pull_spec ns len r
    \<and> (r = Freed \<longrightarrow> int (length (chain_bytes ns)) < len \<or> int MHLEN < len \<or> raw = None)"
proof -
  obtain n1 r where ns: "ns = n1 # r" using ok(2) by (cases ns) auto
  have okn: "pmbuf_ok n1" "mbuf_ok n1" "chain_ok r" using ok(1) by (auto simp: ns list_all_iff pmbuf_ok_mbuf)
  have md: "len mod 2 ^ 32 = len" "len mod 2 ^ 64 = len" using len by simp_all
  show ?thesis
  proof (cases "M_EXT \<notin> m_flags n1 \<and> int (m_data n1) + len < int MLEN \<and> r \<noteq> []")
    case inplace: True
    show ?thesis
    proof (cases "int (m_len n1) \<ge> len")
      case True
      then show ?thesis using inplace md okn by (simp add: m_pullup_def ns pull_spec_def)
    next
      case False
      have "\<exists>res. pull_loop mp (len - int (m_len n1)) (pull_space n1) n1 r = Some res \<and> pulled n1 r (len - int (m_len n1)) res"
        using inplace False okn mp ok(3) by (intro pull_loop_ends) (auto simp: pull_space_def pmbuf_ok_def ns)
      from pull_finish_spec [OF this okn(2,3), of ns] obtain q where
        "pull_finish (pull_loop mp (len - int (m_len n1)) (pull_space n1) n1 r) = Some q" "pull_spec ns len q"
        "q = Freed \<longleftrightarrow> int (length (chain_bytes ns)) < len" by (auto simp: ns)
      then show ?thesis using inplace False md by (simp add: m_pullup_def ns)
    qed
  next
    case False
    show ?thesis
    proof (cases "len > int MHLEN \<or> raw = None")
      case True
      have "m_pullup raw mp ns len = Some Freed" unfolding m_pullup_def ns list.case md if_not_P [OF False] using True by auto
      then show ?thesis using True by (auto simp: pull_spec_def)
    next
      case ok2: False
      then obtain b where b: "raw = Some b" "length (m_area b) = MLEN" using raw by auto
      define m n' where "m = fst (if M_PKTHDR \<in> m_flags n1 then M_MOVE_PKTHDR ((m_get b)\<lparr>m_len := 0\<rparr>) n1 else ((m_get b)\<lparr>m_len := 0\<rparr>, n1))"
        and "n' = snd (if M_PKTHDR \<in> m_flags n1 then M_MOVE_PKTHDR ((m_get b)\<lparr>m_len := 0\<rparr>) n1 else ((m_get b)\<lparr>m_len := 0\<rparr>, n1))"
      have m: "mbuf_ok m" "length (m_area m) = MLEN" "m_len m = 0" "m_bytes m = []" "int MHLEN \<le> pull_space m"
        using b(2) by (auto simp: m_def M_MOVE_PKTHDR_def M_DUP_PKTHDR_def m_get_def mbuf_ok_def m_bytes_def pull_space_def)
      have n': "mbuf_ok n'" "m_bytes n' = m_bytes n1" "m_len n' = m_len n1" using okn(2) by (auto simp: n'_def M_MOVE_PKTHDR_def)
      have hdr: "M_PKTHDR \<in> m_flags n1 \<Longrightarrow> M_PKTHDR \<in> m_flags m \<and> m_pkthdr m = m_pkthdr n1"
        by (simp add: m_def M_MOVE_PKTHDR_def M_DUP_PKTHDR_def M_COPYFLAGS_def)
      have "\<exists>res. pull_loop mp len (pull_space m) m (n' # r) = Some res \<and> pulled m (n' # r) len res"
        using m n' ok2 okn mp len ok(3) by (intro pull_loop_ends) (auto simp: ns)
      then have "\<exists>res. pull_loop mp len (pull_space m) m (n' # r) = Some res \<and> pulled m (n' # r) (len - int (m_len m)) res"
        using m(3) by simp
      from pull_finish_spec [OF this m(1), of ns] n' okn(3) m(4) hdr obtain q where
        q: "pull_finish (pull_loop mp len (pull_space m) m (n' # r)) = Some q" "pull_spec ns len q"
          "q = Freed \<longleftrightarrow> int (length (chain_bytes ns)) < len" by (auto simp: ns)
      have "m_pullup raw mp ns len = pull_finish (pull_loop mp len (pull_space m) m (n' # r))"
        unfolding m_pullup_def ns list.case md if_not_P [OF False] using ok2 b(1) by (simp add: Let_def m_def n'_def split_beta)
      then show ?thesis using q by auto
    qed
  qed
qed

text \<open>A packet in two mbufs: three bytes behind the header, and four more.\<close>

definition two_mbufs :: "pmbuf list" where
  "two_mbufs =
     [\<lparr>m_area = replicate 56 0 @ [1, 2, 3] @ replicate 165 0, m_data = 56, m_len = 3, m_flags = {M_PKTHDR}, m_pkthdr = \<lparr>ph_len = 7, ph_rest = 9\<rparr>, m_refd = False\<rparr>,
      \<lparr>m_area = replicate 100 0 @ [4, 5, 6, 7] @ replicate 120 0, m_data = 100, m_len = 4, m_flags = {}, m_pkthdr = \<lparr>ph_len = 0, ph_rest = 0\<rparr>, m_refd = False\<rparr>]"

lemma two_mbufs_ok: "list_all pmbuf_ok two_mbufs" "two_mbufs \<noteq> []" "list_all (\<lambda>n. m_len n < 2 ^ 31) two_mbufs"
  "chain_bytes two_mbufs = [1, 2, 3, 4, 5, 6, 7]" "chain_ok two_mbufs" "M_PKTHDR \<in> m_flags (hd two_mbufs)" "hdr_len two_mbufs = 7"
  by (simp_all add: two_mbufs_def pmbuf_ok_def mbuf_ok_def m_bytes_def hdr_len_def)

theorem m_pullup_correct_witness:
  "\<exists>ms. m_pullup None 0 two_mbufs 6 = Some (Pulled ms) \<and> chain_bytes ms = [1, 2, 3, 4, 5, 6, 7] \<and> 6 \<le> m_len (hd ms)"
proof -
  obtain r where r: "m_pullup None 0 two_mbufs 6 = Some r" "pull_spec two_mbufs 6 r"
    using m_pullup_correct [OF two_mbufs_ok(1-3), of 6 0 None] by auto
  have "r \<noteq> Freed"
  proof
    assume "r = Freed"
    with r(1) show False
      by (simp add: m_pullup_def two_mbufs_def pull_finish_def pull_loop.simps pull_turn_def m_write_def m_piece_def pull_space_def umin_def umax_def split: if_splits)
  qed
  with r two_mbufs_ok(4) show ?thesis by (cases r) (auto simp: pull_spec_def)
qed

text \<open>
  \<^verbatim>\<open>m_adj\<close> removes exactly the requested number of bytes from the front, or from the end for a negative
  length, of any chain (everything if the chain is shorter), never uses a null pointer, keeps the mbufs and keeps a correct
  length in the packet header correct.
\<close>

theorem m_adj_correct:
  assumes "chain_ok ms" and "ms \<noteq> []"
  shows "\<exists>ms'. m_adj ms n = Some ms' \<and> chain_ok ms' \<and> length ms' = length ms \<and> map m_flags ms' = map m_flags ms
    \<and> chain_bytes ms' = (if 0 \<le> n then drop (nat n) (chain_bytes ms) else take (length (chain_bytes ms) - nat (- n)) (chain_bytes ms))
    \<and> (M_PKTHDR \<in> m_flags (hd ms) \<longrightarrow> hdr_len ms = int (length (chain_bytes ms)) \<longrightarrow> hdr_len ms' = int (length (chain_bytes ms')))"
  by (rule m_adj_bytes [OF assms])

theorem m_adj_correct_witness:
  "\<exists>ms'. m_adj two_mbufs (- 5) = Some ms' \<and> chain_bytes ms' = [1, 2] \<and> hdr_len ms' = 2"
  using m_adj_correct [OF two_mbufs_ok(5,2), of "- 5"] two_mbufs_ok(4,6,7) by auto

lemma copydata_eq_apply: "copydata_loop ms off len = map_option fst (apply_loop (\<lambda>a bs. (a @ bs, 0)) ms off len [])"
  using copydata_is_apply [of "[]" ms off len] by (cases "copydata_loop ms off len") auto

lemma copydata_apply:
  assumes ok: "chain_ok ms"
  shows "m_copydata ms off len = (if 0 \<le> off \<and> 0 \<le> len \<and> off + len \<le> int (length (chain_bytes ms))
      then Some (take (nat len) (drop (nat off) (chain_bytes ms))) else None)"
    and "m_copydata ms off len = map_option fst (m_apply ms off len (\<lambda>a bs. (a @ bs, 0)) [])"
    and "0 \<le> off \<Longrightarrow> 0 \<le> len \<Longrightarrow> off + len \<le> int (length (chain_bytes ms)) \<Longrightarrow>
      \<exists>ps. concat ps = take (nat len) (drop (nat off) (chain_bytes ms)) \<and> m_apply ms off len f st = Some (run_pieces f ps (st, 0))"
proof -
  show "m_copydata ms off len = map_option fst (m_apply ms off len (\<lambda>a bs. (a @ bs, 0)) [])"
    by (cases "m_skip ms (nat off)") (auto simp: m_copydata_def m_apply_def copydata_eq_apply)
  show "m_copydata ms off len = (if 0 \<le> off \<and> 0 \<le> len \<and> off + len \<le> int (length (chain_bytes ms))
      then Some (take (nat len) (drop (nat off) (chain_bytes ms))) else None)"
  proof (cases "0 \<le> off \<and> 0 \<le> len")
    case True
    show ?thesis
    proof (cases "nat off \<le> length (chain_bytes ms)")
      case le: True
      from m_skip_bytes(1) [OF ok le] obtain ms' o' where s: "m_skip ms (nat off) = Some (ms', o')" "chain_ok ms'"
        "drop o' (chain_bytes ms') = drop (nat off) (chain_bytes ms)" "o' = 0 \<or> ms' \<noteq> [] \<and> o' < m_len (hd ms')" by blast
      have "length (chain_bytes ms') - o' = length (chain_bytes ms) - nat off" using arg_cong [OF s(3), of length] by simp
      then show ?thesis using True le s copydata_loop_bytes [OF s(2,4), of "nat len"] by (auto simp: m_copydata_def)
    next
      case False
      then show ?thesis using True m_skip_bytes(2) [of ms "nat off"] ok by (auto simp: m_copydata_def)
    qed
  qed (auto simp: m_copydata_def)
  show "\<exists>ps. concat ps = take (nat len) (drop (nat off) (chain_bytes ms)) \<and> m_apply ms off len f st = Some (run_pieces f ps (st, 0))"
    if "0 \<le> off" "0 \<le> len" "off + len \<le> int (length (chain_bytes ms))"
  proof -
    have le: "nat off \<le> length (chain_bytes ms)" using that by linarith
    from m_skip_bytes(1) [OF ok le] obtain ms' o' where s: "m_skip ms (nat off) = Some (ms', o')" "chain_ok ms'"
      "drop o' (chain_bytes ms') = drop (nat off) (chain_bytes ms)" "o' = 0 \<or> ms' \<noteq> [] \<and> o' < m_len (hd ms')" by blast
    have "length (chain_bytes ms') - o' = length (chain_bytes ms) - nat off" using arg_cong [OF s(3), of length] by simp
    then have "nat len \<le> length (chain_bytes ms') - o'" using that by linarith
    from apply_loop_pieces [OF s(2,4) this] obtain ps where "concat ps = take (nat len) (drop (nat off) (chain_bytes ms))"
      "\<And>(f :: 'a \<Rightarrow> u8 list \<Rightarrow> 'a \<times> int) st. apply_loop f ms' o' (nat len) st = Some (run_pieces f ps (st, 0))" unfolding s(3) by blast
    then show ?thesis using that s(1) by (auto simp: m_apply_def)
  qed
qed

text \<open>
  \<^verbatim>\<open>m_copydata\<close> delivers the bytes from \<open>off\<close> to \<open>off + len\<close> of the chain and panics exactly when the chain
  is too short or an argument is negative; it is \<^verbatim>\<open>m_apply\<close> with a function that appends what it is
  given, and \<^verbatim>\<open>m_apply\<close> hands any function these bytes in order, in pieces, until it returns an error.
\<close>

theorem m_copydata_correct:
  assumes "chain_ok ms"
  shows "m_copydata ms off len = (if 0 \<le> off \<and> 0 \<le> len \<and> off + len \<le> int (length (chain_bytes ms))
      then Some (take (nat len) (drop (nat off) (chain_bytes ms))) else None)
    \<and> m_copydata ms off len = map_option fst (m_apply ms off len (\<lambda>a bs. (a @ bs, 0)) [])
    \<and> (0 \<le> off \<and> 0 \<le> len \<and> off + len \<le> int (length (chain_bytes ms)) \<longrightarrow>
        (\<exists>ps. concat ps = take (nat len) (drop (nat off) (chain_bytes ms)) \<and> m_apply ms off len f st = Some (run_pieces f ps (st, 0))))"
  by (intro conjI impI; (elim conjE)?; rule copydata_apply [OF assms]; assumption?)

theorem m_copydata_correct_witness: "m_copydata two_mbufs 2 4 = Some [3, 4, 5, 6]"
  using m_copydata_correct [OF two_mbufs_ok(5), of 2 4 "\<lambda>a bs. (a, 0)" "()"] two_mbufs_ok(4) by (simp add: eval_nat_numeral)

text \<open>
  \<^verbatim>\<open>m_pullup2\<close> may write past the end of a cluster: it compares \<open>m_data + len\<close> with \<open>m_data + MCLBYTES\<close>, so data
  that start inside the cluster are extended in place although there is no room for them.
\<close>

theorem m_pullup2_overruns:
  assumes "M_EXT \<in> m_flags n1" and "int MHLEN < len" and "len < int MCLBYTES" and "int (m_len n1) < len"
    and "len - int (m_len n1) \<le> int (m_len n2)" and "m_len n2 < 2 ^ 31" and "mbuf_ok n2"
    and "int (length (m_area n1)) < int (m_data n1) + len"
  shows "m_pullup2 raw cl mp (n1 # n2 # r) len = None"
proof -
  define c where "c = nat (len - int (m_len n1))"
  have md: "len mod 2 ^ 32 = len" "len mod 2 ^ 64 = len" using assms(2,3) by (simp_all add: MCLBYTES_def)
  have cnt: "umin (len - int (m_len n1)) (int (m_len n2)) = int c" using assms(3-6) by (simp add: umin_id c_def MCLBYTES_def)
  have "length (m_piece n2 0 c) = c" using assms(5,7) by (simp add: m_piece_def c_def mbuf_ok_def)
  moreover have "length (m_area n1) < m_data n1 + m_len n1 + c" using assms(4,8) by (simp add: c_def)
  ultimately have "pull_turn (int c) n1 (n2 # r) = None" by (simp add: pull_turn_def m_write_def Let_def)
  then show ?thesis using assms md cnt by (simp add: m_pullup2_def pull_finish_def)
qed

theorem m_pullup2_overruns_witness:
  "m_pullup2 None None 0
     [\<lparr>m_area = replicate 2048 0, m_data = 1800, m_len = 100, m_flags = {M_EXT, M_CLUSTER}, m_pkthdr = \<lparr>ph_len = 0, ph_rest = 0\<rparr>, m_refd = False\<rparr>,
      \<lparr>m_area = replicate 2048 0, m_data = 0, m_len = 1000, m_flags = {M_EXT, M_CLUSTER}, m_pkthdr = \<lparr>ph_len = 0, ph_rest = 0\<rparr>, m_refd = False\<rparr>] 400 = None"
  by (rule m_pullup2_overruns) (simp_all add: MCLBYTES_def mbuf_ok_def)
end
