(* ===== verification/Mbuf_Copy.thy ===== *)
theory Mbuf_Copy
  imports Mbuf_Ops
begin

text \<open>
  Operations on mbuf chains that allocate (\<^verbatim>\<open>src/sys/kern/uipc_mbuf.c\<close>): \<^verbatim>\<open>m_prepend\<close>, \<^verbatim>\<open>m_copym0\<close> and \<^verbatim>\<open>m_split\<close>.
  The pool is a function that gives the result of the \<open>k\<close>-th allocation: no memory, or a block with whatever
  contents it had before, and the cluster that a following \<^verbatim>\<open>m_clget\<close> gets, if any. A copy that shares external storage
  with the original has the same storage area and both are marked as referenced.
\<close>

type_synonym pool = "nat \<Rightarrow> (pmbuf \<times> u8 list option) option"

section \<open>Prepending\<close>

text \<open>The data pointer of \<^verbatim>\<open>MH_ALIGN\<close> and \<^verbatim>\<open>M_ALIGN\<close>: room for \<open>len\<close> bytes at the end, aligned to a long word.\<close>

definition align_off :: "nat \<Rightarrow> nat \<Rightarrow> nat" where
  "align_off room len = (room - len) div 8 * 8"

definition MH_ALIGN :: "nat \<Rightarrow> pmbuf \<Rightarrow> pmbuf" where
  "MH_ALIGN len m = m\<lparr>m_data := m_data m + align_off MHLEN len\<rparr>"

definition M_ALIGN :: "nat \<Rightarrow> pmbuf \<Rightarrow> pmbuf" where
  "M_ALIGN len m = m\<lparr>m_data := m_data m + align_off MLEN len\<rparr>"

definition m_prepend :: "pool \<Rightarrow> pmbuf list \<Rightarrow> int \<Rightarrow> pull_result option" where
  "m_prepend pool m len =
     (if len mod 2 ^ 64 > int MHLEN then None
      else case pool 0 of
        None \<Rightarrow> Some Freed
      | Some (raw, cl) \<Rightarrow>
          case m of [] \<Rightarrow> None
          | m1 # r \<Rightarrow>
              let mn = m_get raw;
                  (mn, m1) = (if M_PKTHDR \<in> m_flags m1 then M_MOVE_PKTHDR mn m1 else (mn, m1))
              in Some (Pulled ((MH_ALIGN (nat len) mn)\<lparr>m_len := nat len\<rparr> # m1 # r)))"

text \<open>The macro \<^verbatim>\<open>M_PREPEND\<close>.\<close>

definition M_PREPEND :: "pool \<Rightarrow> pmbuf list \<Rightarrow> nat \<Rightarrow> pull_result option" where
  "M_PREPEND pool m plen =
     (case m of [] \<Rightarrow> None
      | m1 # r \<Rightarrow>
          map_option (\<lambda>res. case res of Freed \<Rightarrow> Freed | Pulled ms \<Rightarrow> Pulled (on_hdr_len (\<lambda>l. l + int plen) ms))
            (if m_leadingspace m1 \<ge> plen
             then Some (Pulled (m1\<lparr>m_data := m_data m1 - plen, m_len := m_len m1 + plen\<rparr> # r))
             else m_prepend pool m (int plen)))"

section \<open>Copying\<close>

definition M_COPYALL :: nat where "M_COPYALL = 1000000000"

text \<open>Sharing of external storage: the copy \<open>n\<close> of \<open>m\<close> from \<open>off\<close> on, and \<open>m\<close> itself.\<close>

definition share_ext :: "pmbuf \<Rightarrow> nat \<Rightarrow> pmbuf \<Rightarrow> pmbuf" where
  "share_ext m off n = n\<lparr>m_area := m_area m, m_data := m_data m + off,
     m_flags := m_flags n \<union> m_flags m \<inter> {M_EXT, M_CLUSTER}, m_refd := True\<rparr>"

text \<open>The mbuf that one turn of the loop of \<^verbatim>\<open>m_copym0\<close> makes from \<open>m\<close>, and \<open>m\<close> afterwards.\<close>

definition copym_one ::
    "bool \<Rightarrow> pmbuf \<times> u8 list option \<Rightarrow> bool \<Rightarrow> nat \<Rightarrow> nat \<Rightarrow> pmbuf \<Rightarrow> (pmbuf \<times> pmbuf) option" where
  "copym_one deep blk copyhdr off len m =
     (let n = m_get (fst blk);
          n = (if copyhdr then
                 let n = M_DUP_PKTHDR n m
                 in if len \<noteq> M_COPYALL then n\<lparr>m_pkthdr := (m_pkthdr n)\<lparr>ph_len := int len\<rparr>\<rparr> else n
               else n);
          n = n\<lparr>m_len := min len (m_len m - off)\<rparr>
      in if M_EXT \<in> m_flags m then
           if \<not> deep then Some (share_ext m off n, m\<lparr>m_refd := True\<rparr>)
           else
             let n = m_clget (snd blk) n;
                 n = n\<lparr>m_len := 0\<rparr>;
                 n = n\<lparr>m_len := m_trailingspace n\<rparr>;
                 n = n\<lparr>m_len := min (m_len n) len\<rparr>;
                 n = n\<lparr>m_len := min (m_len n) (m_len m - off)\<rparr>
             in map_option (\<lambda>n. (n, m)) (m_write 0 (m_piece m off (m_len n)) n)
         else map_option (\<lambda>n. (n, m)) (m_write 0 (m_piece m off (m_len n)) n))"

text \<open>
  The loop: the inner \<open>None\<close> is the way out when memory runs out. The result has the original chain from
  here on, with its sharing marks, and the copy.
\<close>

partial_function (option) copym_loop ::
    "bool \<Rightarrow> pool \<Rightarrow> nat \<Rightarrow> bool \<Rightarrow> nat \<Rightarrow> nat \<Rightarrow> pmbuf list \<Rightarrow> (pmbuf list \<times> pmbuf list) option option" where
  "copym_loop deep pool k copyhdr off len ms =
     (if len > 0 then
        case ms of
          [] \<Rightarrow> if len \<noteq> M_COPYALL then None else Some (Some ([], []))
        | m # r \<Rightarrow>
            case pool k of
              None \<Rightarrow> Some None
            | Some blk \<Rightarrow>
                Option.bind (copym_one deep blk copyhdr off len m) (\<lambda>(n, m').
                  let len' = (if len \<noteq> M_COPYALL then len - m_len n else len);
                      off' = off + m_len n
                  in if off' > m_len m then None
                     else if off' = m_len m then
                       Option.bind (copym_loop deep pool (Suc k) False 0 len' r)
                         (\<lambda>res. Some (map_option (\<lambda>(os, ns). (m' # os, n # ns)) res))
                     else
                       Option.bind (copym_loop deep pool (Suc k) False off' len' (m' # r))
                         (\<lambda>res. Some (map_option (\<lambda>(os, ns). (os, n # ns)) res)))
      else Some (Some (ms, [])))"

definition m_copym0 :: "bool \<Rightarrow> pool \<Rightarrow> pmbuf list \<Rightarrow> int \<Rightarrow> int \<Rightarrow> (pmbuf list \<times> pmbuf list) option option" where
  "m_copym0 deep pool m off len =
     (if off < 0 \<or> len < 0 then None
      else
        let copyhdr = (off = 0 \<and> M_PKTHDR \<in> m_flags (hd m))
        in Option.bind (m_skip m (nat off)) (\<lambda>(ms, off').
             map_option (map_option (\<lambda>(os, ns). (take (length m - length ms) m @ os, ns)))
               (copym_loop deep pool 0 copyhdr off' (nat len) ms)))"

definition m_copym :: "pool \<Rightarrow> pmbuf list \<Rightarrow> int \<Rightarrow> int \<Rightarrow> (pmbuf list \<times> pmbuf list) option option" where
  "m_copym pool m off len = m_copym0 False pool m off len"

definition m_copym2 :: "pool \<Rightarrow> pmbuf list \<Rightarrow> int \<Rightarrow> int \<Rightarrow> (pmbuf list \<times> pmbuf list) option option" where
  "m_copym2 pool m off len = m_copym0 True pool m off len"

section \<open>Splitting\<close>

text \<open>The walk to the mbuf that holds byte \<open>len\<close>: the mbufs before it, the rest of the chain, the offset.\<close>

fun split_walk :: "pmbuf list \<Rightarrow> nat \<Rightarrow> pmbuf list \<times> pmbuf list \<times> nat" where
  "split_walk [] len = ([], [], len)"
| "split_walk (m # r) len =
     (if len > m_len m then let (p, s, l) = split_walk r (len - m_len m) in (m # p, s, l) else ([], m # r, len))"

text \<open>The end of \<^verbatim>\<open>m_split\<close>: the data of \<open>m\<close> behind \<open>len\<close> go to \<open>n\<close>.\<close>

definition split_data :: "pmbuf \<Rightarrow> nat \<Rightarrow> pmbuf \<Rightarrow> (pmbuf \<times> pmbuf) option" where
  "split_data m len n =
     (let remain = m_len m - len
      in if M_EXT \<in> m_flags m
         then Some (m\<lparr>m_refd := True, m_len := len\<rparr>, (share_ext m len n)\<lparr>m_len := remain\<rparr>)
         else map_option (\<lambda>n. (m\<lparr>m_len := len\<rparr>, n\<lparr>m_len := remain\<rparr>)) (m_write 0 (m_piece m len remain) n))"

text \<open>
  The result is the chain \<open>m0\<close> afterwards and the tail, empty for the null pointer. \<open>len0\<close> is converted
  to an unsigned value by the code.
\<close>

partial_function (option) m_split :: "pool \<Rightarrow> nat \<Rightarrow> pmbuf list \<Rightarrow> nat \<Rightarrow> (pmbuf list \<times> pmbuf list) option" where
  "m_split pool k m0 len0 =
     (case split_walk m0 len0 of
        (p, [], len) \<Rightarrow> Some (m0, [])
      | (p, m # r, len) \<Rightarrow>
          let remain = m_len m - len
          in if M_PKTHDR \<in> m_flags (hd m0) then
               case pool k of
                 None \<Rightarrow> Some (m0, [])
               | Some (raw, cl) \<Rightarrow>
                   let n = M_DUP_PKTHDR (m_gethdr raw) (hd m0);
                       n = n\<lparr>m_pkthdr := (m_pkthdr n)\<lparr>ph_len := ph_len (m_pkthdr n) - int len0\<rparr>\<rparr>
                   in if M_EXT \<in> m_flags m then
                        map_option (\<lambda>(m', n'). (on_hdr_len (\<lambda>l. int len0) (p @ [m']), n' # r)) (split_data m len n)
                      else if remain > MHLEN then
                        Option.bind (m_split pool (Suc k) (m # r) len) (\<lambda>(f, t).
                          Some (if t = [] then (m0, []) else (on_hdr_len (\<lambda>l. int len0) (p @ f), MH_ALIGN 0 n # t)))
                      else
                        map_option (\<lambda>(m', n'). (on_hdr_len (\<lambda>l. int len0) (p @ [m']), n' # r))
                          (split_data m len (MH_ALIGN remain n))
             else if remain = 0 then Some (p @ [m], r)
             else
               case pool k of
                 None \<Rightarrow> Some (m0, [])
               | Some (raw, cl) \<Rightarrow>
                   map_option (\<lambda>(m', n'). (p @ [m'], n' # r)) (split_data m len (M_ALIGN remain (m_get raw))))"

section \<open>Facts about allocation and copies\<close>

definition pool_ok :: "pool \<Rightarrow> bool" where
  "pool_ok pool \<longleftrightarrow> (\<forall>k raw cl. pool k = Some (raw, cl) \<longrightarrow> length (m_area raw) = MLEN \<and> (\<forall>buf. cl = Some buf \<longrightarrow> length buf = MCLBYTES))"

lemma m_write_start:
  assumes "m_data n + length bs \<le> length (m_area n)" and "m_len n = length bs"
  shows "\<exists>n'. m_write 0 bs n = Some n' \<and> m_bytes n' = bs \<and> mbuf_ok n' \<and> m_len n' = m_len n \<and> m_data n' = m_data n
    \<and> m_flags n' = m_flags n \<and> m_pkthdr n' = m_pkthdr n \<and> m_refd n' = m_refd n \<and> length (m_area n') = length (m_area n)"
  using assms by (auto simp: m_write_def Let_def m_bytes_def mbuf_ok_def)

lemma share_ext_bytes:
  assumes "mbuf_ok m" and "off + k \<le> m_len m" and "m_len n = k"
  shows "m_bytes (share_ext m off n) = take k (drop off (m_bytes m))" and "mbuf_ok (share_ext m off n)"
  using assms by (auto simp: share_ext_def m_bytes_def mbuf_ok_def drop_take min_def add.commute)

lemma pmbuf_room:
  assumes "pmbuf_ok m" and "M_EXT \<notin> m_flags m"
  shows "m_len m \<le> MLEN" and "M_PKTHDR \<in> m_flags m \<Longrightarrow> m_len m \<le> MHLEN"
  using assms by (auto simp: pmbuf_ok_def mbuf_ok_def)

text \<open>What one turn of the copying loop does.\<close>

definition copied :: "bool \<Rightarrow> bool \<Rightarrow> nat \<Rightarrow> nat \<Rightarrow> pmbuf \<Rightarrow> pmbuf \<times> pmbuf \<Rightarrow> bool" where
  "copied deep copyhdr off len m res \<longleftrightarrow> (case res of (n, m') \<Rightarrow>
     mbuf_ok n \<and> m_bytes n = take (m_len n) (drop off (m_bytes m)) \<and> m_len n \<le> min len (m_len m - off)
     \<and> (0 < min len (m_len m - off) \<longrightarrow> 0 < m_len n) \<and> m' = m\<lparr>m_refd := m_refd m'\<rparr>
     \<and> (\<not> deep \<longrightarrow> m_len n = min len (m_len m - off)) \<and> (deep \<longrightarrow> m' = m \<and> \<not> M_READONLY n)
     \<and> (copyhdr \<longrightarrow> M_PKTHDR \<in> m_flags n \<and> ph_len (m_pkthdr n) = (if len \<noteq> M_COPYALL then int len else ph_len (m_pkthdr m))))"

lemma copym_one_correct:
  assumes m: "pmbuf_ok m" and off: "off \<le> m_len m" and blk: "length (m_area raw) = MLEN" "\<And>buf. cl = Some buf \<Longrightarrow> length buf = MCLBYTES"
    and hdr: "copyhdr \<Longrightarrow> M_PKTHDR \<in> m_flags m"
  shows "\<exists>res. copym_one deep (raw, cl) copyhdr off len m = Some res \<and> copied deep copyhdr off len m res"
proof -
  define n1 where "n1 = (if copyhdr then
      if len \<noteq> M_COPYALL then (M_DUP_PKTHDR (m_get raw) m)\<lparr>m_pkthdr := (m_pkthdr m)\<lparr>ph_len := int len\<rparr>\<rparr> else M_DUP_PKTHDR (m_get raw) m
    else m_get raw)"
  define n where "n = n1\<lparr>m_len := min len (m_len m - off)\<rparr>"
  have okm: "mbuf_ok m" using m by (simp add: pmbuf_ok_def)
  have n: "m_area n = m_area raw" "m_len n = min len (m_len m - off)" "m_data n = (if copyhdr then MLEN - MHLEN else 0)" "M_EXT \<notin> m_flags n"
    "copyhdr \<Longrightarrow> M_PKTHDR \<in> m_flags n \<and> ph_len (m_pkthdr n) = (if len \<noteq> M_COPYALL then int len else ph_len (m_pkthdr m))"
    using hdr by (auto simp: n_def n1_def m_get_def M_DUP_PKTHDR_def M_COPYFLAGS_def)
  have ro: "\<not> M_READONLY n'" if "m_flags n' = m_flags n" for n' using n(4) that by (simp add: M_READONLY_def)
  have one: "copym_one deep (raw, cl) copyhdr off len m = (if M_EXT \<in> m_flags m then
      if \<not> deep then Some (share_ext m off n, m\<lparr>m_refd := True\<rparr>)
      else let n2 = m_clget cl n; n3 = n2\<lparr>m_len := min (min (m_trailingspace (n2\<lparr>m_len := 0\<rparr>)) len) (m_len m - off)\<rparr>
        in map_option (\<lambda>n. (n, m)) (m_write 0 (m_piece m off (m_len n3)) n3)
      else map_option (\<lambda>n. (n, m)) (m_write 0 (m_piece m off (m_len n)) n))"
    by (simp add: copym_one_def Let_def n_def n1_def M_DUP_PKTHDR_def)
  consider (int) "M_EXT \<notin> m_flags m" | (share) "M_EXT \<in> m_flags m" "\<not> deep" | (deep) "M_EXT \<in> m_flags m" deep by blast
  then show ?thesis
  proof cases
    case int
    have piece: "m_piece m off (m_len n) = take (m_len n) (drop off (m_bytes m))"
      by (rule m_piece_bytes) (use off n(2) in auto)
    have len: "length (take (m_len n) (drop off (m_bytes m))) = m_len n" using okm n(2) by simp
    have "m_data n + length (take (m_len n) (drop off (m_bytes m))) \<le> length (m_area n)"
      unfolding len using n(1-3) blk(1) pmbuf_room [OF m int] hdr by (auto simp: min_def)
    from m_write_start [OF this] len obtain n' where "m_write 0 (m_piece m off (m_len n)) n = Some n'" "m_bytes n' = take (m_len n) (drop off (m_bytes m))"
      "mbuf_ok n'" "m_len n' = m_len n" "m_flags n' = m_flags n" "m_pkthdr n' = m_pkthdr n" unfolding piece by auto
    then show ?thesis using int n ro [of n'] by (auto simp: one copied_def)
  next
    case share
    have "off + m_len n \<le> m_len m" using n(2) off by auto
    from share_ext_bytes [OF okm this refl] have "copied deep copyhdr off len m (share_ext m off n, m\<lparr>m_refd := True\<rparr>)"
      using share n by (auto simp: copied_def share_ext_def)
    moreover have "copym_one deep (raw, cl) copyhdr off len m = Some (share_ext m off n, m\<lparr>m_refd := True\<rparr>)" using share one by simp
    ultimately show ?thesis by blast
  next
    case deep
    define n2 where "n2 = m_clget cl n"
    have n2: "m_data n2 + m_trailingspace (n2\<lparr>m_len := 0\<rparr>) \<le> length (m_area n2)" "0 < m_trailingspace (n2\<lparr>m_len := 0\<rparr>)" "\<not> M_READONLY n2"
      "copyhdr \<Longrightarrow> M_PKTHDR \<in> m_flags n2" "m_pkthdr n2 = m_pkthdr n"
      using n blk by (auto simp: n2_def m_clget_def m_trailingspace_def M_READONLY_def MCLBYTES_def split: option.splits)
    define n3 where "n3 = n2\<lparr>m_len := min (min (m_trailingspace (n2\<lparr>m_len := 0\<rparr>)) len) (m_len m - off)\<rparr>"
    have n3: "m_len n3 \<le> min len (m_len m - off)" "m_len n3 \<le> m_trailingspace (n2\<lparr>m_len := 0\<rparr>)" "m_data n3 = m_data n2" "m_area n3 = m_area n2"
      "m_flags n3 = m_flags n2" "m_pkthdr n3 = m_pkthdr n2" "m_refd n3 = m_refd n2" "0 < min len (m_len m - off) \<Longrightarrow> 0 < m_len n3"
      using n2(2) by (auto simp: n3_def)
    have piece: "m_piece m off (m_len n3) = take (m_len n3) (drop off (m_bytes m))"
      by (rule m_piece_bytes) (use off n3(1) in auto)
    have len: "length (take (m_len n3) (drop off (m_bytes m))) = m_len n3" using okm n3(1) by auto
    have "m_data n3 + length (take (m_len n3) (drop off (m_bytes m))) \<le> length (m_area n3)"
      unfolding len using n2(1) n3(2-4) by simp
    from m_write_start [OF this] len obtain n' where "m_write 0 (m_piece m off (m_len n3)) n3 = Some n'" "m_bytes n' = take (m_len n3) (drop off (m_bytes m))"
      "mbuf_ok n'" "m_len n' = m_len n3" "m_flags n' = m_flags n3" "m_pkthdr n' = m_pkthdr n3" "m_refd n' = m_refd n3" unfolding piece by auto
    note n' = this
    have "copym_one deep (raw, cl) copyhdr off len m = Some (n', m)"
      using deep n'(1) unfolding one Let_def n2_def [symmetric] n3_def [symmetric] by simp
    moreover have "\<not> M_READONLY n'" using n2(3) n3(5,7) n'(5,7) by (simp add: M_READONLY_def)
    then have "copied deep copyhdr off len m (n', m)" using n(5) n2 n3 n' deep by (auto simp: copied_def)
    ultimately show ?thesis by blast
  qed
qed

definition wanted :: "nat \<Rightarrow> u8 list \<Rightarrow> u8 list" where
  "wanted len bs = (if len = M_COPYALL then bs else take len bs)"

text \<open>What the loop leaves: the original with its bytes and a copy of the bytes wanted.\<close>

definition copy_done :: "bool \<Rightarrow> bool \<Rightarrow> nat \<Rightarrow> nat \<Rightarrow> pmbuf list \<Rightarrow> pmbuf list \<times> pmbuf list \<Rightarrow> bool" where
  "copy_done deep copyhdr off len ms res \<longleftrightarrow> (case res of (os, ns) \<Rightarrow>
     chain_ok ns \<and> chain_bytes ns = wanted len (drop off (chain_bytes ms)) \<and> chain_ok os \<and> chain_bytes os = chain_bytes ms
     \<and> length os = length ms \<and> (deep \<longrightarrow> os = ms \<and> list_all (\<lambda>n. \<not> M_READONLY n) ns)
     \<and> (copyhdr \<and> 0 < len \<longrightarrow> ns \<noteq> [] \<and> M_PKTHDR \<in> m_flags (hd ns)
          \<and> hdr_len ns = (if len \<noteq> M_COPYALL then int len else ph_len (m_pkthdr (hd ms)))))"

lemma pmbuf_ok_refd: "pmbuf_ok m \<Longrightarrow> pmbuf_ok (m\<lparr>m_refd := b\<rparr>)"
  by (simp add: pmbuf_ok_def)

lemma wanted_step:
  assumes "c \<le> min len (length bs)" and "len' = (if len \<noteq> M_COPYALL then len - c else len)" and "len \<le> M_COPYALL"
  shows "take c bs @ wanted len' (drop c bs @ rest) = wanted len (bs @ rest)"
proof (cases "len = M_COPYALL")
  case True
  then show ?thesis using assms(2) by (simp add: wanted_def flip: append.assoc)
next
  case False
  then have "len' = len - c" "len' \<noteq> M_COPYALL" using assms(2,3) by auto
  then show ?thesis using False assms(1) by (simp add: wanted_def take_add [symmetric])
qed

lemma copym_loop_correct:
  assumes "list_all pmbuf_ok ms" and "off = 0 \<or> ms \<noteq> [] \<and> off < m_len (hd ms)" and "pool_ok pool" and "\<And>k. pool k \<noteq> None"
    and "len \<le> M_COPYALL" and "len = M_COPYALL \<or> len \<le> length (chain_bytes ms) - off" and "list_all (\<lambda>m. m_len m \<le> M_COPYALL) ms"
    and "copyhdr \<Longrightarrow> ms \<noteq> [] \<and> M_PKTHDR \<in> m_flags (hd ms)"
  shows "\<exists>res. copym_loop deep pool k copyhdr off len ms = Some (Some res) \<and> copy_done deep copyhdr off len ms res"
  using assms
proof (induction "sum_list (map (\<lambda>m. Suc (m_len m)) ms) - off" arbitrary: ms off len copyhdr k rule: less_induct)
  case less
  note ok = less.prems(1) and off = less.prems(2) and pool = less.prems(3,4)
  have okc: "chain_ok ms" using ok by (auto simp: list_all_iff pmbuf_ok_mbuf)
  show ?case
  proof (cases "len = 0")
    case True
    then show ?thesis using okc by (subst copym_loop.simps) (auto simp: copy_done_def wanted_def M_COPYALL_def)
  next
    case len: False
    show ?thesis
    proof (cases ms)
      case Nil
      then have "len = M_COPYALL" "\<not> copyhdr" "off = 0" using len less.prems(6,8) off by auto
      then show ?thesis using Nil len by (subst copym_loop.simps) (auto simp: copy_done_def wanted_def)
    next
      case (Cons m r)
      have m: "pmbuf_ok m" "mbuf_ok m" "off \<le> m_len m" "list_all pmbuf_ok r" "chain_ok r" using ok okc off Cons by auto
      obtain raw cl where p: "pool k = Some (raw, cl)" using pool(2) [of k] by (cases "pool k") auto
      have blk: "length (m_area raw) = MLEN" "\<And>buf. cl = Some buf \<Longrightarrow> length buf = MCLBYTES" using pool(1) p by (auto simp: pool_ok_def)
      have hdr: "copyhdr \<Longrightarrow> M_PKTHDR \<in> m_flags m" using less.prems(8) Cons by simp
      have "\<exists>res. copym_one deep (raw, cl) copyhdr off len m = Some res \<and> copied deep copyhdr off len m res"
        by (rule copym_one_correct [OF m(1,3) blk(1)]) (use blk(2) hdr in auto)
      then obtain n m' where
        one: "copym_one deep (raw, cl) copyhdr off len m = Some (n, m')" "copied deep copyhdr off len m (n, m')" by auto
      have c: "mbuf_ok n" "m_bytes n = take (m_len n) (drop off (m_bytes m))" "m_len n \<le> min len (m_len m - off)"
        "0 < min len (m_len m - off) \<Longrightarrow> 0 < m_len n" "m' = m\<lparr>m_refd := m_refd m'\<rparr>" "deep \<Longrightarrow> m' = m \<and> \<not> M_READONLY n"
        "copyhdr \<Longrightarrow> M_PKTHDR \<in> m_flags n \<and> ph_len (m_pkthdr n) = (if len \<noteq> M_COPYALL then int len else ph_len (m_pkthdr m))"
        using one(2) by (auto simp: copied_def)
      have m': "m_bytes m' = m_bytes m" "mbuf_ok m'" "m_len m' = m_len m" "pmbuf_ok m'" "m_flags m' = m_flags m"
        using m(1,2) by (subst c(5), simp add: pmbuf_ok_refd)+
      define len' where "len' = (if len \<noteq> M_COPYALL then len - m_len n else len)"
      define off' where "off' = off + m_len n"
      have le: "off' \<le> m_len m" using c(3) m(3) by (auto simp: off'_def)
      have len'_le: "len' \<le> M_COPYALL" using less.prems(5) by (auto simp: len'_def)
      have tot: "length (chain_bytes ms) = m_len m + length (chain_bytes r)" using m Cons by simp
      have step: "m_bytes n @ wanted len' (drop off' (m_bytes m) @ chain_bytes r) = wanted len (drop off (chain_bytes ms))"
      proof -
        have "take (m_len n) (drop off (m_bytes m)) @ wanted len' (drop (m_len n) (drop off (m_bytes m)) @ chain_bytes r)
            = wanted len (drop off (m_bytes m) @ chain_bytes r)"
          by (rule wanted_step) (use c(3,4) m len less.prems(5) in \<open>auto simp: len'_def\<close>)
        then show ?thesis using c(2) m Cons by (simp add: off'_def add.commute)
      qed
      show ?thesis
      proof (cases "off' = m_len m")
        case True
        have IH: "\<exists>res. copym_loop deep pool (Suc k) False 0 len' r = Some (Some res) \<and> copy_done deep False 0 len' r res"
          using less.prems m True tot c(3) len'_le
          by (intro less.hyps) (auto simp: Cons len'_def off'_def)
        then obtain os ns where r: "copym_loop deep pool (Suc k) False 0 len' r = Some (Some (os, ns))" "copy_done deep False 0 len' r (os, ns)"
          by auto
        have "copym_loop deep pool k copyhdr off len ms = Some (Some (m' # os, n # ns))"
          using len p one(1) r(1) True by (subst copym_loop.simps) (simp add: Cons len'_def off'_def)
        moreover have "copy_done deep copyhdr off len ms (m' # os, n # ns)"
          using r(2) c m' m step True Cons by (auto simp: copy_done_def hdr_len_def)
        ultimately show ?thesis by blast
      next
        case False
        have pos: "0 < m_len n" using c(4) len m(3) le False by (auto simp: off'_def)
        have IH: "\<exists>res. copym_loop deep pool (Suc k) False off' len' (m' # r) = Some (Some res) \<and> copy_done deep False off' len' (m' # r) res"
          using less.prems m m' False tot c(3) len'_le pos le
          by (intro less.hyps) (auto simp: Cons len'_def off'_def)
        then obtain os ns where r: "copym_loop deep pool (Suc k) False off' len' (m' # r) = Some (Some (os, ns))"
          "copy_done deep False off' len' (m' # r) (os, ns)" by auto
        have "copym_loop deep pool k copyhdr off len ms = Some (Some (os, n # ns))"
          using len p one(1) r(1) False le by (subst copym_loop.simps) (simp add: Cons len'_def off'_def)
        moreover have "copy_done deep copyhdr off len ms (os, n # ns)"
          using r(2) c m' m step le Cons by (auto simp: copy_done_def hdr_len_def)
        ultimately show ?thesis by blast
      qed
    qed
  qed
qed

lemma m_skip_suffix:
  assumes "m_skip ms off = Some (ms', o')"
  shows "ms = take (length ms - length ms') ms @ ms'" and "off = 0 \<Longrightarrow> ms' = ms \<and> o' = 0"
proof -
  have "\<exists>pre. ms = pre @ ms'"
    using assms
  proof (induction ms arbitrary: off)
    case Nil
    then show ?case by (simp add: m_skip.simps split: if_splits)
  next
    case (Cons m ms)
    show ?case
    proof (cases "0 < off \<and> \<not> off < m_len m")
      case True
      then have "m_skip ms (off - m_len m) = Some (ms', o')" using Cons.prems by (subst (asm) m_skip.simps) simp
      from Cons.IH [OF this] show ?thesis by (metis append_Cons)
    next
      case False
      then have "ms' = m # ms" using Cons.prems by (subst (asm) m_skip.simps) (auto split: if_splits)
      then show ?thesis by simp
    qed
  qed
  then show "ms = take (length ms - length ms') ms @ ms'" by auto
  show "off = 0 \<Longrightarrow> ms' = ms \<and> o' = 0" using assms by (simp add: m_skip.simps)
qed

section \<open>Splitting\<close>

lemma split_walk_bytes:
  assumes "chain_ok ms" and "ms \<noteq> []" and "len \<le> length (chain_bytes ms)"
  shows "\<exists>p m r l. split_walk ms len = (p, m # r, l) \<and> ms = p @ m # r \<and> l \<le> m_len m \<and> len = length (chain_bytes p) + l"
  using assms
proof (induction ms arbitrary: len)
  case (Cons m ms)
  show ?case
  proof (cases "len > m_len m")
    case True
    then have "len - m_len m \<le> length (chain_bytes ms)" "ms \<noteq> []" using Cons.prems by auto
    moreover have "chain_ok ms" using Cons.prems(1) by simp
    ultimately obtain p m1 r l where
      "split_walk ms (len - m_len m) = (p, m1 # r, l)" "ms = p @ m1 # r" "l \<le> m_len m1" "len - m_len m = length (chain_bytes p) + l"
      using Cons.IH [of "len - m_len m"] by blast
    then show ?thesis using True Cons.prems by (intro exI [of _ "m # p"]) auto
  next
    case False
    then show ?thesis by (intro exI [of _ "[]"]) auto
  qed
qed simp

lemma split_data_bytes:
  assumes m: "pmbuf_ok m" and l: "l \<le> m_len m"
    and room: "M_EXT \<notin> m_flags m \<Longrightarrow> m_data n + (m_len m - l) \<le> length (m_area n)"
  shows "\<exists>m' n'. split_data m l n = Some (m', n') \<and> mbuf_ok m' \<and> mbuf_ok n' \<and> m_bytes m' = take l (m_bytes m)
    \<and> m_bytes n' = drop l (m_bytes m) \<and> m_flags m' = m_flags m \<and> m_pkthdr m' = m_pkthdr m \<and> m_flags n \<subseteq> m_flags n' \<and> m_pkthdr n' = m_pkthdr n"
proof -
  have okm: "mbuf_ok m" using m by (simp add: pmbuf_ok_def)
  have front: "m_bytes (m\<lparr>m_len := l\<rparr>) = take l (m_bytes m)" "mbuf_ok (m\<lparr>m_len := l\<rparr>)"
    using m_bytes_shorter [OF l] mbuf_ok_shorter [OF okm l] by simp_all
  show ?thesis
  proof (cases "M_EXT \<in> m_flags m")
    case True
    define n1 where "n1 = n\<lparr>m_len := m_len m - l\<rparr>"
    have n1: "(share_ext m l n)\<lparr>m_len := m_len m - l\<rparr> = share_ext m l n1" by (simp add: share_ext_def n1_def)
    have s: "m_bytes (share_ext m l n1) = take (m_len m - l) (drop l (m_bytes m))" "mbuf_ok (share_ext m l n1)"
      using share_ext_bytes [OF okm, of l "m_len m - l" n1] l by (simp_all add: n1_def)
    have f: "m\<lparr>m_refd := True, m_len := l\<rparr> = (m\<lparr>m_len := l\<rparr>)\<lparr>m_refd := True\<rparr>" by simp
    have "split_data m l n = Some (m\<lparr>m_refd := True, m_len := l\<rparr>, share_ext m l n1)" using True by (simp add: split_data_def Let_def n1)
    moreover have "m_bytes (m\<lparr>m_refd := True, m_len := l\<rparr>) = take l (m_bytes m)" "mbuf_ok (m\<lparr>m_refd := True, m_len := l\<rparr>)"
      unfolding f using front by (simp_all only: m_bytes_upd)
    ultimately show ?thesis using s okm by (auto simp: share_ext_def n1_def)
  next
    case False
    have "m_piece m l (m_len m - l) = drop l (m_bytes m)" using m_piece_bytes [of "m_len m - l" l m] l okm by simp
    moreover from room [OF False] have "m_data n + length (drop l (m_bytes m)) \<le> length (m_area n)" using okm by simp
    ultimately obtain n' where n': "m_write 0 (m_piece m l (m_len m - l)) n = Some n'" "m_flags n' = m_flags n" "m_pkthdr n' = m_pkthdr n"
      "m_bytes (n'\<lparr>m_len := m_len m - l\<rparr>) = drop l (m_bytes m)" "mbuf_ok (n'\<lparr>m_len := m_len m - l\<rparr>)"
      using okm by (auto simp: m_write_def Let_def m_bytes_def mbuf_ok_def)
    then show ?thesis using False front by (auto simp: split_data_def Let_def)
  qed
qed

lemma align_off_room: "len \<le> room \<Longrightarrow> align_off room len + len \<le> room"
  by (simp add: align_off_def)

text \<open>
  The case in which \<^verbatim>\<open>m_split\<close> puts an mbuf in front of the tail only for the packet header: its length field is
  whatever the block had before.
\<close>

definition split_big :: "pmbuf list \<Rightarrow> nat \<Rightarrow> bool" where
  "split_big ms len \<longleftrightarrow> (case split_walk ms len of (p, m # r, l) \<Rightarrow>
     M_PKTHDR \<in> m_flags (hd ms) \<and> M_EXT \<notin> m_flags m \<and> MHLEN < m_len m - l | _ \<Rightarrow> False)"

definition split_done :: "pmbuf list \<Rightarrow> nat \<Rightarrow> pmbuf list \<times> pmbuf list \<Rightarrow> bool" where
  "split_done ms len res \<longleftrightarrow> (case res of (f, t) \<Rightarrow>
     chain_ok f \<and> f \<noteq> [] \<and> chain_ok t \<and> chain_bytes f = take len (chain_bytes ms) \<and> chain_bytes t = drop len (chain_bytes ms)
     \<and> (M_PKTHDR \<in> m_flags (hd ms) \<longrightarrow> M_PKTHDR \<in> m_flags (hd f) \<and> hdr_len f = int len
          \<and> t \<noteq> [] \<and> M_PKTHDR \<in> m_flags (hd t) \<and> hdr_len t = hdr_len ms - int len))"

lemma on_hdr_frame2 [simp]: "length (on_hdr_len f ms) = length ms" "on_hdr_len f (p @ [m]) \<noteq> []"
  by (cases ms; simp add: on_hdr_len_def) (cases p; simp add: on_hdr_len_def)

lemma m_split_plain:
  assumes ok: "list_all pmbuf_ok ms" and ne: "ms \<noteq> []" and len: "len \<le> length (chain_bytes ms)" and pool: "pool_ok pool" "\<And>k. pool k \<noteq> None"
    and small: "\<not> split_big ms len"
  shows "\<exists>res. m_split pool k ms len = Some res \<and> split_done ms len res"
proof -
  have okc: "chain_ok ms" using ok by (auto simp: list_all_iff pmbuf_ok_mbuf)
  from split_walk_bytes [OF okc ne len] obtain p m r l where w: "split_walk ms len = (p, m # r, l)" "ms = p @ m # r" "l \<le> m_len m"
    "len = length (chain_bytes p) + l" by blast
  obtain raw cl where blk: "pool k = Some (raw, cl)" "length (m_area raw) = MLEN" using pool(1) pool(2) [of k] by (auto simp: pool_ok_def)
  have okm: "pmbuf_ok m" "mbuf_ok m" "chain_ok p" "chain_ok r" using ok okc w(2) by auto
  have tk: "take len (chain_bytes ms) = chain_bytes p @ take l (m_bytes m)" "drop len (chain_bytes ms) = drop l (m_bytes m) @ chain_bytes r"
    using w(2-4) okm by simp_all
  have hd_eq: "hd ms = hd (p @ [m])" using w(2) by (cases p) auto
  define R where "R = m_len m - l"
  show ?thesis
  proof (cases "M_PKTHDR \<in> m_flags (hd ms)")
    case True
    define n0 where "n0 = M_DUP_PKTHDR (m_gethdr raw) (hd ms)"
    define n where "n = n0\<lparr>m_pkthdr := (m_pkthdr n0)\<lparr>ph_len := ph_len (m_pkthdr n0) - int len\<rparr>\<rparr>"
    define n1 where "n1 = (if M_EXT \<in> m_flags m then n else MH_ALIGN R n)"
    have n: "m_area n = m_area raw" "m_data n = MLEN - MHLEN" "M_PKTHDR \<in> m_flags n" "ph_len (m_pkthdr n) = hdr_len ms - int len"
      using True by (simp_all add: n_def n0_def M_DUP_PKTHDR_def m_gethdr_def M_COPYFLAGS_def hdr_len_def)
    have n1: "M_PKTHDR \<in> m_flags n1" "ph_len (m_pkthdr n1) = hdr_len ms - int len" using n by (simp_all add: n1_def MH_ALIGN_def)
    have R: "M_EXT \<in> m_flags m \<or> R \<le> MHLEN" using small True w(1) by (auto simp: split_big_def R_def)
    have "m_data n1 + R \<le> length (m_area n1)" if "M_EXT \<notin> m_flags m"
      using that R n blk(2) align_off_room [of R MHLEN] by (auto simp: n1_def MH_ALIGN_def)
    then have "M_EXT \<notin> m_flags m \<Longrightarrow> m_data n1 + (m_len m - l) \<le> length (m_area n1)" by (simp add: R_def)
    from split_data_bytes [OF okm(1) w(3) this] obtain m' n' where d: "split_data m l n1 = Some (m', n')" "mbuf_ok m'" "mbuf_ok n'"
      "m_bytes m' = take l (m_bytes m)" "m_bytes n' = drop l (m_bytes m)" "m_flags m' = m_flags m" "m_pkthdr m' = m_pkthdr m"
      "m_flags n1 \<subseteq> m_flags n'" "m_pkthdr n' = m_pkthdr n1" by blast
    have "m_split pool k ms len = Some (on_hdr_len (\<lambda>l. int len) (p @ [m']), n' # r)"
    proof (cases "M_EXT \<in> m_flags m")
      case ext: True
      then have "split_data m l n = Some (m', n')" using d(1) by (simp add: n1_def)
      then show ?thesis using w(1) True blk(1) ext
        by (subst m_split.simps) (simp add: Let_def n0_def [symmetric] n_def [symmetric] del: mlen_simps)
    next
      case int: False
      then have "split_data m l (MH_ALIGN (m_len m - l) n) = Some (m', n')" "\<not> MHLEN < m_len m - l" using d(1) R by (simp_all add: n1_def R_def)
      then show ?thesis using w(1) True blk(1) int
        by (subst m_split.simps) (simp add: Let_def n0_def [symmetric] n_def [symmetric] del: mlen_simps)
    qed
    moreover have "split_done ms len (on_hdr_len (\<lambda>l. int len) (p @ [m']), n' # r)"
    proof -
      have h: "m_flags (hd (p @ [m'])) = m_flags (hd ms)" using d(6) hd_eq by (cases p) simp_all
      then have "hdr_len (on_hdr_len (\<lambda>l. int len) (p @ [m'])) = int len" using True by simp
      moreover have "M_PKTHDR \<in> m_flags (hd (on_hdr_len (\<lambda>l. int len) (p @ [m'])))"
        using hd_map_eq [OF on_hdr_frame(3) [of "\<lambda>l. int len" "p @ [m']"]] h True by simp
      moreover have "M_PKTHDR \<in> m_flags n'" using n1(1) d(8) by auto
      ultimately show ?thesis using d n1 tk okm by (simp add: split_done_def hdr_len_def)
    qed
    ultimately show ?thesis by blast
  next
    case False
    show ?thesis
    proof (cases "R = 0")
      case True
      then have "l = m_len m" using w(3) by (simp add: R_def)
      moreover have "m_split pool k ms len = Some (p @ [m], r)" using w(1) False True by (subst m_split.simps) (simp add: R_def)
      ultimately show ?thesis using False tk okm by (auto simp: split_done_def)
    next
      case rem: False
      have "m_data (M_ALIGN R (m_get raw)) + R \<le> length (m_area (M_ALIGN R (m_get raw)))" if "M_EXT \<notin> m_flags m"
        using blk(2) pmbuf_room(1) [OF okm(1) that] align_off_room [of R MLEN] by (simp add: M_ALIGN_def m_get_def R_def)
      then have "M_EXT \<notin> m_flags m \<Longrightarrow> m_data (M_ALIGN R (m_get raw)) + (m_len m - l) \<le> length (m_area (M_ALIGN R (m_get raw)))" by (simp add: R_def)
      from split_data_bytes [OF okm(1) w(3) this] obtain m' n' where d: "split_data m l (M_ALIGN R (m_get raw)) = Some (m', n')" "mbuf_ok m'" "mbuf_ok n'"
        "m_bytes m' = take l (m_bytes m)" "m_bytes n' = drop l (m_bytes m)" by blast
      have "m_split pool k ms len = Some (p @ [m'], n' # r)" using w(1) False rem blk(1) d(1) by (subst m_split.simps) (simp add: R_def)
      then show ?thesis using d tk okm False by (auto simp: split_done_def)
    qed
  qed
qed

section \<open>Correctness\<close>

text \<open>
  The contract of splitting and joining: a chain that was cut somewhere and is joined again carries the
  same bytes.
\<close>

locale chain_split_join =
  fixes good :: "'c \<Rightarrow> bool" and contents :: "'c \<Rightarrow> 'b list" and cuts :: "'c \<Rightarrow> nat \<Rightarrow> bool"
    and split_at :: "'c \<Rightarrow> nat \<Rightarrow> ('c \<times> 'c) option" and join :: "'c \<Rightarrow> 'c \<Rightarrow> 'c option"
    and front back_part :: "'c \<Rightarrow> bool"
  assumes split_law: "good c \<Longrightarrow> cuts c n \<Longrightarrow> \<exists>f t. split_at c n = Some (f, t) \<and> front f \<and> back_part t
      \<and> contents f = take n (contents c) \<and> contents t = drop n (contents c)"
    and join_law: "front f \<Longrightarrow> back_part t \<Longrightarrow> \<exists>c. join f t = Some c \<and> contents c = contents f @ contents t"
begin

lemma split_join:
  assumes "good c" and "cuts c n"
  shows "\<exists>f t c'. split_at c n = Some (f, t) \<and> contents f = take n (contents c) \<and> join f t = Some c' \<and> contents c' = contents c"
  using split_law [OF assms] join_law by (metis append_take_drop_id)

end

text \<open>A pool that always has memory.\<close>

definition pool_full :: "pool \<Rightarrow> bool" where
  "pool_full pool \<longleftrightarrow> pool_ok pool \<and> (\<forall>k. pool k \<noteq> None)"

definition can_split :: "pmbuf list \<Rightarrow> nat \<Rightarrow> bool" where
  "can_split ms len \<longleftrightarrow> len \<le> length (chain_bytes ms) \<and> \<not> split_big ms len"

interpretation sj: chain_split_join
  "\<lambda>(pool, ms). pool_full pool \<and> list_all pmbuf_ok ms \<and> ms \<noteq> []" "\<lambda>(pool, ms). chain_bytes ms" "\<lambda>(pool, ms). can_split ms"
  "\<lambda>(pool, ms) len. map_option (\<lambda>(f, t). ((pool, f), (pool, t))) (m_split pool 0 ms len)"
  "\<lambda>(pool, f) (pool', t). map_option (Pair pool) (m_cat f t)"
  "\<lambda>(pool, f). chain_ok f \<and> f \<noteq> []" "\<lambda>(pool, t). chain_ok t"
proof (unfold_locales, goal_cases)
  case (1 c n)
  obtain pool ms where c: "c = (pool, ms)" by (cases c)
  have "\<exists>res. m_split pool 0 ms n = Some res \<and> split_done ms n res"
    using 1 by (intro m_split_plain) (auto simp: c pool_full_def can_split_def)
  then show ?case by (auto simp: c split_done_def)
next
  case (2 f t)
  then show ?case using m_cat_bytes [of "snd f" "snd t"] by (cases f; cases t) force
qed

text \<open>
  C21. \<^verbatim>\<open>m_split\<close> cuts a chain at any byte, at the borders of mbufs too, into two chains that \<^verbatim>\<open>m_cat\<close> puts together to the
  same bytes; a packet header gets the length of its part, and the tail of a packet is a packet with the length of
  the rest. Mbufs and clusters are available, and the case is excluded in which the header of the tail gets an mbuf of its own
  (\<open>m_split_stale_header\<close>).
\<close>

theorem m_split_cat:
  assumes "list_all pmbuf_ok ms" and "ms \<noteq> []" and "len \<le> length (chain_bytes ms)" and "\<not> split_big ms len" and "pool_full pool"
  shows "\<exists>f t ms'. m_split pool 0 ms len = Some (f, t) \<and> chain_bytes f = take len (chain_bytes ms) \<and> chain_bytes t = drop len (chain_bytes ms)
    \<and> m_cat f t = Some ms' \<and> chain_bytes ms' = chain_bytes ms
    \<and> (M_PKTHDR \<in> m_flags (hd ms) \<longrightarrow> hdr_len f = int len \<and> t \<noteq> [] \<and> M_PKTHDR \<in> m_flags (hd t) \<and> hdr_len t = hdr_len ms - int len)"
proof -
  from sj.split_join [of "(pool, ms)" len] assms obtain f t ms' where
    "m_split pool 0 ms len = Some (f, t)" "m_cat f t = Some ms'" "chain_bytes ms' = chain_bytes ms"
    by (auto simp: can_split_def)
  moreover from m_split_plain [OF assms(1-3), of pool 0] assms(4,5) calculation(1) have "split_done ms len (f, t)"
    by (auto simp: pool_full_def)
  ultimately show ?thesis by (auto simp: split_done_def)
qed

text \<open>A pool whose blocks are empty and have stale length fields.\<close>

definition stale_block :: pmbuf where
  "stale_block = \<lparr>m_area = replicate 224 0, m_data = 0, m_len = 5, m_flags = {}, m_pkthdr = \<lparr>ph_len = 0, ph_rest = 0\<rparr>, m_refd = False\<rparr>"

definition stale_pool :: pool where
  "stale_pool k = Some (stale_block, None)"

lemma stale_pool_ok: "pool_full stale_pool" "pool_ok stale_pool" "stale_pool k \<noteq> None"
  by (simp_all add: pool_full_def pool_ok_def stale_pool_def stale_block_def)

theorem m_split_cat_witness:
  "\<exists>f t ms'. m_split stale_pool 0 two_mbufs 5 = Some (f, t) \<and> chain_bytes f = [1, 2, 3, 4, 5] \<and> m_cat f t = Some ms'
    \<and> chain_bytes ms' = [1, 2, 3, 4, 5, 6, 7] \<and> hdr_len t = 2"
proof -
  have "\<not> split_big two_mbufs 5" by (simp add: two_mbufs_def split_big_def)
  then show ?thesis
    using m_split_cat [OF two_mbufs_ok(1,2), of 5 stale_pool] two_mbufs_ok(4,6,7) stale_pool_ok(1) by auto
qed

lemma m_copym0_done:
  assumes ok: "list_all pmbuf_ok ms" and ne: "ms \<noteq> []" and pool: "pool_full pool" and off: "0 \<le> off" "off \<le> int (length (chain_bytes ms))"
    and len: "0 \<le> len" "len = int M_COPYALL \<or> len < int M_COPYALL \<and> off + len \<le> int (length (chain_bytes ms))"
    and lens: "list_all (\<lambda>m. m_len m \<le> M_COPYALL) ms"
  shows "\<exists>os ns. m_copym0 deep pool ms off len = Some (Some (os, ns)) \<and> chain_ok ns
    \<and> chain_bytes ns = (if len = int M_COPYALL then drop (nat off) (chain_bytes ms) else take (nat len) (drop (nat off) (chain_bytes ms)))
    \<and> length os = length ms \<and> chain_bytes os = chain_bytes ms \<and> (deep \<longrightarrow> os = ms \<and> list_all (\<lambda>n. \<not> M_READONLY n) ns)
    \<and> (off = 0 \<and> 0 < len \<and> M_PKTHDR \<in> m_flags (hd ms) \<longrightarrow> ns \<noteq> [] \<and> M_PKTHDR \<in> m_flags (hd ns)
         \<and> hdr_len ns = (if len = int M_COPYALL then hdr_len ms else len))"
proof -
  define copyhdr where "copyhdr = (off = 0 \<and> M_PKTHDR \<in> m_flags (hd ms))"
  have okc: "chain_ok ms" using ok by (auto simp: list_all_iff pmbuf_ok_mbuf)
  have "nat off \<le> length (chain_bytes ms)" using off by simp
  from m_skip_bytes(1) [OF okc this] obtain ms' o' where s: "m_skip ms (nat off) = Some (ms', o')" "chain_ok ms'"
    "drop o' (chain_bytes ms') = drop (nat off) (chain_bytes ms)" "o' = 0 \<or> ms' \<noteq> [] \<and> o' < m_len (hd ms')" by blast
  define pre where "pre = take (length ms - length ms') ms"
  have ms: "ms = pre @ ms'" using m_skip_suffix(1) [OF s(1)] by (simp add: pre_def)
  have z: "off = 0 \<Longrightarrow> ms' = ms \<and> o' = 0 \<and> pre = []" using m_skip_suffix(2) [OF s(1)] by (simp add: pre_def)
  have "length (drop o' (chain_bytes ms')) = length (drop (nat off) (chain_bytes ms))" using s(3) by simp
  then have room: "nat len = M_COPYALL \<or> nat len \<le> length (chain_bytes ms') - o'" using len off by auto
  have "list_all pmbuf_ok ms'" "list_all (\<lambda>m. m_len m \<le> M_COPYALL) ms'" "chain_ok pre" using ok lens okc ms by auto
  then have "\<exists>res. copym_loop deep pool 0 copyhdr o' (nat len) ms' = Some (Some res) \<and> copy_done deep copyhdr o' (nat len) ms' res"
    using s(4) pool room len ne z by (intro copym_loop_correct) (auto simp: pool_full_def copyhdr_def)
  then obtain os ns where r: "copym_loop deep pool 0 copyhdr o' (nat len) ms' = Some (Some (os, ns))"
    "copy_done deep copyhdr o' (nat len) ms' (os, ns)" by auto
  have "m_copym0 deep pool ms off len = Some (Some (pre @ os, ns))"
    using off len(1) s(1) r(1) by (simp add: m_copym0_def copyhdr_def pre_def Let_def)
  moreover have "nat len = M_COPYALL \<longleftrightarrow> len = int M_COPYALL" using len(1) by auto
  moreover have "length (pre @ os) = length ms" "chain_bytes (pre @ os) = chain_bytes ms" "deep \<Longrightarrow> pre @ os = ms"
    using r(2) ms by (auto simp: copy_done_def)
  moreover have "off = 0 \<and> 0 < len \<and> M_PKTHDR \<in> m_flags (hd ms) \<Longrightarrow> ns \<noteq> [] \<and> M_PKTHDR \<in> m_flags (hd ns)
         \<and> hdr_len ns = (if len = int M_COPYALL then hdr_len ms else len)"
    using r(2) z len(1) calculation(2) by (auto simp: copy_done_def copyhdr_def hdr_len_def)
  ultimately show ?thesis using r(2) s(3) by (auto simp: copy_done_def wanted_def)
qed

text \<open>
  \<^verbatim>\<open>m_copym\<close> and \<^verbatim>\<open>m_copym2\<close> return, when memory does not run out, a chain with exactly the requested bytes and, from the start
  of a packet, a packet header with the right length, and leave the bytes of the original alone. A deep copy can be written to:
  it shares no storage with the original, which is unchanged.
\<close>

theorem m_copym0_correct:
  assumes ok: "list_all pmbuf_ok ms" and ne: "ms \<noteq> []" and pool: "pool_full pool" and off: "0 \<le> off" "off \<le> int (length (chain_bytes ms))"
    and len: "0 \<le> len" "len = int M_COPYALL \<or> len < int M_COPYALL \<and> off + len \<le> int (length (chain_bytes ms))"
    and lens: "list_all (\<lambda>m. m_len m \<le> M_COPYALL) ms"
  shows "\<exists>os ns. m_copym0 deep pool ms off len = Some (Some (os, ns)) \<and> chain_ok ns
    \<and> chain_bytes ns = (if len = int M_COPYALL then drop (nat off) (chain_bytes ms) else take (nat len) (drop (nat off) (chain_bytes ms)))
    \<and> length os = length ms \<and> chain_bytes os = chain_bytes ms \<and> (deep \<longrightarrow> os = ms \<and> list_all (\<lambda>n. \<not> M_READONLY n) ns)
    \<and> (off = 0 \<and> 0 < len \<and> M_PKTHDR \<in> m_flags (hd ms) \<longrightarrow> ns \<noteq> [] \<and> M_PKTHDR \<in> m_flags (hd ns)
         \<and> hdr_len ns = (if len = int M_COPYALL then hdr_len ms else len))"
  by (rule m_copym0_done [OF assms])

theorem m_copym0_correct_witness:
  "\<exists>os ns. m_copym0 True stale_pool two_mbufs 0 5 = Some (Some (os, ns)) \<and> chain_bytes ns = [1, 2, 3, 4, 5] \<and> os = two_mbufs \<and> hdr_len ns = 5"
proof -
  have "list_all (\<lambda>m. m_len m \<le> M_COPYALL) two_mbufs" by (simp add: two_mbufs_def M_COPYALL_def)
  moreover have "(5::int) \<noteq> int M_COPYALL" "(5::int) < int M_COPYALL" by (simp_all add: M_COPYALL_def)
  ultimately show ?thesis
    using m_copym0_correct [OF two_mbufs_ok(1,2) stale_pool_ok(1), of 0 5 True] two_mbufs_ok(4,6) by auto
qed

text \<open>Room in front of the data of an mbuf.\<close>

lemma prepend_inplace:
  fixes m :: pmbuf
  assumes ok: "pmbuf_ok m" and room: "plen \<le> m_leadingspace m"
  defines "m' \<equiv> m\<lparr>m_data := m_data m - plen, m_len := m_len m + plen\<rparr>"
  shows "pmbuf_ok m'" and "drop plen (m_bytes m') = m_bytes m" and "plen \<le> m_len m'"
proof -
  have d: "plen \<le> m_data m" and h: "M_EXT \<notin> m_flags m \<and> M_PKTHDR \<in> m_flags m \<Longrightarrow> MLEN - MHLEN \<le> m_data m - plen"
    using room ok by (auto simp: m_leadingspace_def pmbuf_ok_def M_READONLY_def split: if_splits)
  show "pmbuf_ok m'" using ok d h by (auto simp: pmbuf_ok_def mbuf_ok_def m'_def)
  show "drop plen (m_bytes m') = m_bytes m" "plen \<le> m_len m'" using d by (simp_all add: m'_def m_bytes_def drop_take)
qed

lemma prepend_fresh:
  assumes raw: "length (m_area raw) = MLEN" and plen: "plen \<le> MHLEN" and mn: "mn = m_get raw \<or> mn = M_DUP_PKTHDR (m_get raw) m"
  defines "n \<equiv> (MH_ALIGN plen mn)\<lparr>m_len := plen\<rparr>"
  shows "pmbuf_ok n" and "length (m_bytes n) = plen" and "m_flags n = m_flags mn" and "m_pkthdr n = m_pkthdr mn"
proof -
  have "align_off MHLEN plen + plen \<le> MHLEN" using align_off_room plen by blast
  then show "pmbuf_ok n" using raw mn by (auto simp: n_def MH_ALIGN_def m_get_def M_DUP_PKTHDR_def M_COPYFLAGS_def pmbuf_ok_def mbuf_ok_def)
  then show "length (m_bytes n) = plen" by (simp add: pmbuf_ok_mbuf) (simp add: n_def)
qed (simp_all add: n_def MH_ALIGN_def)

lemma on_hdr_len_pmbuf [simp]: "list_all pmbuf_ok (on_hdr_len f ms) = list_all pmbuf_ok ms"
  by (cases ms) (simp_all add: on_hdr_len_def pmbuf_ok_def)

text \<open>
  \<^verbatim>\<open>M_PREPEND\<close> puts \<open>plen\<close> bytes of room in front of the packet, in place or in a new mbuf, keeps the bytes of the packet
  behind them and adds \<open>plen\<close> to the length in the header. It only fails when there is no memory, and then the chain is freed;
  it never writes outside the storage of an mbuf.
\<close>

theorem M_PREPEND_correct:
  assumes ok: "list_all pmbuf_ok ms" and ne: "ms \<noteq> []" and plen: "plen \<le> MHLEN" and pool: "pool_ok pool"
  shows "\<exists>res. M_PREPEND pool ms plen = Some res \<and> (case res of
      Freed \<Rightarrow> pool 0 = None \<and> m_leadingspace (hd ms) < plen
    | Pulled ms' \<Rightarrow> list_all pmbuf_ok ms' \<and> ms' \<noteq> [] \<and> plen \<le> m_len (hd ms') \<and> drop plen (chain_bytes ms') = chain_bytes ms
        \<and> length (chain_bytes ms') = plen + length (chain_bytes ms) \<and> (M_PKTHDR \<in> m_flags (hd ms') \<longleftrightarrow> M_PKTHDR \<in> m_flags (hd ms))
        \<and> (M_PKTHDR \<in> m_flags (hd ms) \<longrightarrow> hdr_len ms' = hdr_len ms + int plen))"
proof -
  obtain m1 r where ms: "ms = m1 # r" using ne by (cases ms) auto
  have ok1: "pmbuf_ok m1" "list_all pmbuf_ok r" "mbuf_ok m1" using ok pmbuf_ok_mbuf by (auto simp: ms)
  show ?thesis
  proof (cases "plen \<le> m_leadingspace m1")
    case True
    note p = prepend_inplace [OF ok1(1) True]
    have l: "length (m_bytes (m1\<lparr>m_data := m_data m1 - plen, m_len := m_len m1 + plen\<rparr>)) = plen + m_len m1"
      using pmbuf_ok_mbuf [OF p(1)] by simp
    show ?thesis using True p ok1 l
      by (auto simp: M_PREPEND_def ms on_hdr_len_def hdr_len_def pmbuf_ok_def)
  next
    case False
    then have sp: "m_leadingspace m1 < plen" by simp
    show ?thesis
    proof (cases "pool 0")
      case None
      then show ?thesis using sp plen by (auto simp: M_PREPEND_def m_prepend_def ms)
    next
      case (Some blk)
      then obtain raw cl where blk: "pool 0 = Some (raw, cl)" "length (m_area raw) = MLEN" using pool by (cases blk) (auto simp: pool_ok_def)
      define mn where "mn = (if M_PKTHDR \<in> m_flags m1 then M_DUP_PKTHDR (m_get raw) m1 else m_get raw)"
      define m2 where "m2 = (if M_PKTHDR \<in> m_flags m1 then m1\<lparr>m_flags := m_flags m1 - {M_PKTHDR}\<rparr> else m1)"
      define n where "n = (MH_ALIGN plen mn)\<lparr>m_len := plen\<rparr>"
      have n: "pmbuf_ok n" "length (m_bytes n) = plen" "m_flags n = m_flags mn" "m_pkthdr n = m_pkthdr mn" "m_len n = plen"
        unfolding n_def using prepend_fresh [OF blk(2) plen, of mn m1] by (auto simp: mn_def)
      have m2: "pmbuf_ok m2" "m_bytes m2 = m_bytes m1" using ok1 by (auto simp: m2_def pmbuf_ok_def)
      have "M_PREPEND pool ms plen = Some (Pulled (on_hdr_len (\<lambda>l. l + int plen) (n # m2 # r)))"
        using sp plen blk(1) by (simp add: M_PREPEND_def m_prepend_def ms M_MOVE_PKTHDR_def n_def mn_def m2_def Let_def)
      moreover have "M_PKTHDR \<in> m_flags mn \<longleftrightarrow> M_PKTHDR \<in> m_flags m1" "M_PKTHDR \<in> m_flags m1 \<Longrightarrow> m_pkthdr mn = m_pkthdr m1"
        by (simp_all add: mn_def m_get_def M_DUP_PKTHDR_def M_COPYFLAGS_def)
      ultimately show ?thesis using n m2 ok1 ms by (auto simp: on_hdr_len_def hdr_len_def pmbuf_ok_def)
    qed
  qed
qed

theorem M_PREPEND_correct_witness:
  "\<exists>ms'. M_PREPEND stale_pool two_mbufs 14 = Some (Pulled ms') \<and> drop 14 (chain_bytes ms') = [1, 2, 3, 4, 5, 6, 7] \<and> hdr_len ms' = 21"
proof -
  obtain res where res: "M_PREPEND stale_pool two_mbufs 14 = Some res" "(case res of
      Freed \<Rightarrow> stale_pool 0 = None \<and> m_leadingspace (hd two_mbufs) < 14
    | Pulled ms' \<Rightarrow> drop 14 (chain_bytes ms') = chain_bytes two_mbufs
        \<and> (M_PKTHDR \<in> m_flags (hd two_mbufs) \<longrightarrow> hdr_len ms' = hdr_len two_mbufs + 14))"
    using M_PREPEND_correct [OF two_mbufs_ok(1,2), of 14 stale_pool] stale_pool_ok(2) by (fastforce split: pull_result.splits)
  then show ?thesis using two_mbufs_ok(4,6,7) stale_pool_ok(3) by (cases res) auto
qed

text \<open>
  When the data behind the cut do not fit into a header mbuf, \<^verbatim>\<open>m_split\<close> returns a header mbuf with the length field its
  block had before and with a data pointer at the end of its storage: the tail of the packet starts with bytes outside of any
  mbuf, unless the block happened to be empty.
\<close>

theorem m_split_stale_header:
  assumes ok: "list_all pmbuf_ok ms" and ne: "ms \<noteq> []" and len: "len \<le> length (chain_bytes ms)" and big: "split_big ms len"
    and pool: "pool_full pool" "pool 0 = Some (raw, cl)"
  shows "\<exists>f n t. m_split pool 0 ms len = Some (f, n # t) \<and> m_len n = m_len raw \<and> (0 < m_len raw \<longrightarrow> \<not> mbuf_ok n) \<and> chain_bytes t = drop len (chain_bytes ms)"
proof -
  have okc: "chain_ok ms" using ok by (auto simp: list_all_iff pmbuf_ok_mbuf)
  from split_walk_bytes [OF okc ne len] obtain p m r l where w: "split_walk ms len = (p, m # r, l)" "ms = p @ m # r" "l \<le> m_len m"
    "len = length (chain_bytes p) + l" by blast
  have b: "M_PKTHDR \<in> m_flags (hd ms)" "M_EXT \<notin> m_flags m" "MHLEN < m_len m - l" using big w(1) by (auto simp: split_big_def)
  have okm: "list_all pmbuf_ok (m # r)" "pmbuf_ok m" using ok w(2) by auto
  have nh: "M_PKTHDR \<notin> m_flags m" using pmbuf_room(2) [OF okm(2) b(2)] b(3) by auto
  have "l \<le> length (chain_bytes (m # r))" "\<not> split_big (m # r) l" using w(3) nh pmbuf_ok_mbuf [OF okm(2)] by (auto simp: split_big_def)
  then obtain f t where ft: "m_split pool 1 (m # r) l = Some (f, t)" "split_done (m # r) l (f, t)"
    using m_split_plain [OF okm(1), of l pool 1] pool(1) by (auto simp: pool_full_def)
  have t: "chain_bytes t = drop len (chain_bytes ms)" using ft(2) w okc by (auto simp: split_done_def)
  have "length (chain_bytes t) \<ge> m_len m - l" using ft(2) pmbuf_ok_mbuf [OF okm(2)] by (simp add: split_done_def)
  then have "t \<noteq> []" using b(3) by auto
  moreover have "length (m_area raw) = MLEN" using pool by (auto simp: pool_full_def pool_ok_def)
  ultimately show ?thesis using w(1) b pool(2) ft(1) t
    by (subst m_split.simps) (auto simp: Let_def MH_ALIGN_def M_DUP_PKTHDR_def m_gethdr_def mbuf_ok_def align_off_def)
qed

definition big_tail :: "pmbuf list" where
  "big_tail =
     [\<lparr>m_area = replicate 224 0, m_data = 56, m_len = 1, m_flags = {M_PKTHDR}, m_pkthdr = \<lparr>ph_len = 201, ph_rest = 9\<rparr>, m_refd = False\<rparr>,
      \<lparr>m_area = replicate 224 0, m_data = 0, m_len = 200, m_flags = {}, m_pkthdr = \<lparr>ph_len = 0, ph_rest = 0\<rparr>, m_refd = False\<rparr>]"

theorem m_split_stale_header_witness:
  "\<exists>f n t. m_split stale_pool 0 big_tail 11 = Some (f, n # t) \<and> m_len n = 5 \<and> \<not> mbuf_ok n \<and> chain_bytes t = drop 11 (chain_bytes big_tail)"
proof -
  have "list_all pmbuf_ok big_tail" "big_tail \<noteq> []" "11 \<le> length (chain_bytes big_tail)" "split_big big_tail 11"
    by (simp_all add: big_tail_def pmbuf_ok_def mbuf_ok_def split_big_def m_bytes_def)
  from m_split_stale_header [OF this stale_pool_ok(1), of stale_block None] show ?thesis
    by (simp add: stale_pool_def stale_block_def align_off_def)
qed
end
