(* ===== verification/Mbuf_Edit.thy ===== *)
theory Mbuf_Edit
  imports Mbuf_Copy
begin

text \<open>
  Operations that put data into mbuf chains (\<^verbatim>\<open>src/sys/kern/uipc_mbuf.c\<close>): \<^verbatim>\<open>m_copyback\<close>, \<^verbatim>\<open>m_inject\<close>,
  \<^verbatim>\<open>m_devget\<close> and \<^verbatim>\<open>m_zero\<close>. Allocation is as in the theory of copies. Offsets and lengths of \<^verbatim>\<open>m_copyback\<close> are
  those of its callers, not negative; it writes into shared storage without looking, so the theorems about it are for chains
  that may be written to.
\<close>

section \<open>Copying into a chain\<close>

definition m_inithdr :: "pmbuf \<Rightarrow> pmbuf" where
  "m_inithdr m = m\<lparr>m_data := MLEN - MHLEN, m_flags := {M_PKTHDR}, m_pkthdr := (m_pkthdr m)\<lparr>ph_rest := 0\<rparr>\<rparr>"

definition m_getclr :: "pmbuf \<Rightarrow> pmbuf option" where
  "m_getclr raw = m_write 0 (replicate MLEN 0) (m_get raw)"

text \<open>
  The first loop of \<^verbatim>\<open>m_copyback\<close>: the walk to the offset, with new zeroed mbufs behind the end of the chain. The result is
  whether memory ran out, the mbufs passed, the rest of the chain, the rest of the offset, \<^verbatim>\<open>totlen\<close> and the number of
  allocations so far.
\<close>

partial_function (option) copyback_skip ::
    "pool \<Rightarrow> nat \<Rightarrow> nat \<Rightarrow> pmbuf list \<Rightarrow> nat \<Rightarrow> nat \<Rightarrow> (bool \<times> pmbuf list \<times> pmbuf list \<times> nat \<times> nat \<times> nat) option" where
  "copyback_skip pool k len ms off totlen =
     (case ms of [] \<Rightarrow> None
      | m # r \<Rightarrow>
          if off > m_len m then
            let off' = off - m_len m;
                totlen' = totlen + m_len m
            in if r = [] then
                 case pool k of
                   None \<Rightarrow> Some (True, [], ms, off', totlen', k)
                 | Some blk \<Rightarrow>
                     Option.bind (m_getclr (fst blk)) (\<lambda>n.
                       Option.bind (copyback_skip pool (Suc k) len [n\<lparr>m_len := min MLEN (len + off')\<rparr>] off' totlen')
                         (\<lambda>(full, p, s). Some (full, m # p, s)))
               else
                 Option.bind (copyback_skip pool k len r off' totlen') (\<lambda>(full, p, s). Some (full, m # p, s))
          else Some (False, [], ms, off, totlen, k))"

text \<open>The second loop, with the bytes still to be copied, and the chain and \<^verbatim>\<open>totlen\<close> as the result.\<close>

partial_function (option) copyback_copy ::
    "pool \<Rightarrow> nat \<Rightarrow> u8 list \<Rightarrow> pmbuf list \<Rightarrow> nat \<Rightarrow> nat \<Rightarrow> (pmbuf list \<times> nat) option" where
  "copyback_copy pool k cp ms off totlen =
     (if length cp > 0 then
        case ms of [] \<Rightarrow> None
        | m # r \<Rightarrow>
            let mlen = min (m_len m - off) (length cp)
            in Option.bind (m_write off (take mlen cp) m) (\<lambda>m'.
                 let cp' = drop mlen cp;
                     totlen' = totlen + (mlen + off)
                 in if length cp' = 0 then Some (m' # r, totlen')
                    else if r = [] then
                      case pool k of
                        None \<Rightarrow> Some ([m'], totlen')
                      | Some blk \<Rightarrow>
                          Option.bind (copyback_copy pool (Suc k) cp' [(m_get (fst blk))\<lparr>m_len := min MLEN (length cp')\<rparr>] 0 totlen')
                            (\<lambda>(s, t). Some (m' # s, t))
                    else
                      Option.bind (copyback_copy pool k cp' r 0 totlen') (\<lambda>(s, t). Some (m' # s, t)))
      else Some (ms, totlen))"

definition m_copyback :: "pool \<Rightarrow> pmbuf list \<Rightarrow> nat \<Rightarrow> u8 list \<Rightarrow> pmbuf list option" where
  "m_copyback pool m0 off cp =
     (if m0 = [] then Some []
      else
        let out = (\<lambda>ms totlen. on_hdr_len (\<lambda>l. if l < int totlen then int totlen else l) ms)
        in Option.bind (copyback_skip pool 0 (length cp) m0 off 0) (\<lambda>(full, p, s, off', totlen, k).
             if full then Some (out (p @ s) totlen)
             else map_option (\<lambda>(s', t). out (p @ s') t) (copyback_copy pool k cp s off' totlen)))"

section \<open>Making room inside a chain\<close>

text \<open>The chain afterwards and the position of the mbuf returned in it, none for the null pointer.\<close>

definition m_inject :: "pool \<Rightarrow> pmbuf list \<Rightarrow> int \<Rightarrow> int \<Rightarrow> (pmbuf list \<times> nat option) option" where
  "m_inject pool m0 len0 siz =
     (if siz mod 2 ^ 64 \<ge> int MHLEN \<or> len0 \<le> 0 then Some (m0, None)
      else
        case split_walk m0 (nat len0) of
          (p, [], len) \<Rightarrow> Some (m0, None)
        | (p, m # r, len) \<Rightarrow>
            let remain = m_len m - len;
                longer = on_hdr_len (\<lambda>l. l + siz)
            in if remain = 0 \<and> r \<noteq> [] \<and> int (m_leadingspace (hd r)) \<ge> siz then
                 let n = (hd r)\<lparr>m_len := m_len (hd r) + nat siz, m_data := m_data (hd r) - nat siz\<rparr>
                 in Some (longer (p @ m # n # tl r), Some (Suc (length p)))
               else
                 Option.bind (if remain = 0 then Some (Some (m # r, [])) else m_copym2 pool (m # r) (int len) (int remain)) (\<lambda>n2.
                   Some (case n2 of None \<Rightarrow> (m0, None)
                     | Some (os, n2) \<Rightarrow>
                         case pool (length n2) of None \<Rightarrow> (m0, None)
                         | Some blk \<Rightarrow>
                             let n = (m_get (fst blk))\<lparr>m_len := nat siz\<rparr>;
                                 m' = m\<lparr>m_len := m_len m - remain\<rparr>
                             in (longer (p @ m' # n # n2 @ r), Some (Suc (length p))))))"

section \<open>Packets from a device\<close>

definition MINCLSIZE :: nat where "MINCLSIZE = MHLEN + 1"

text \<open>Where a turn of the loop of \<^verbatim>\<open>m_devget\<close> puts the next data, at most \<open>len\<close> bytes; their number is \<^verbatim>\<open>m_len\<close> of the result.\<close>

definition devget_place :: "nat \<Rightarrow> u8 list option \<Rightarrow> bool \<Rightarrow> nat \<Rightarrow> pmbuf \<Rightarrow> pmbuf" where
  "devget_place max_linkhdr cl first len m =
     (if len \<ge> MINCLSIZE then
        let m = m_clget cl m
        in if M_EXT \<in> m_flags m then m\<lparr>m_len := min len MCLBYTES\<rparr> else m
      else if len < m_len m then
        let m = (if first \<and> len + max_linkhdr \<le> m_len m then m\<lparr>m_data := m_data m + max_linkhdr\<rparr> else m)
        in m\<lparr>m_len := len\<rparr>
      else m)"

text \<open>
  \<open>copy\<close> is the function of the driver that moves bytes, none for the null pointer. The inner \<open>None\<close> of the
  result is the way out when memory runs out.
\<close>

definition devget_read :: "(u8 list \<Rightarrow> u8 list) option \<Rightarrow> u8 list \<Rightarrow> int \<Rightarrow> nat \<Rightarrow> u8 list option" where
  "devget_read copy buf cp len =
     (if 0 \<le> cp \<and> cp + int len \<le> int (length buf)
      then Some ((case copy of None \<Rightarrow> id | Some f \<Rightarrow> f) (take len (drop (nat cp) buf))) else None)"

partial_function (option) devget_loop ::
    "nat \<Rightarrow> (u8 list \<Rightarrow> u8 list) option \<Rightarrow> u8 list \<Rightarrow> int \<Rightarrow> pool \<Rightarrow> nat \<Rightarrow> (pmbuf \<times> u8 list option) option \<Rightarrow> int \<Rightarrow> int
      \<Rightarrow> pmbuf list option option" where
  "devget_loop max_linkhdr copy buf epkt pool k first cp totlen =
     (if totlen > 0 then
        case (case first of Some blk \<Rightarrow> Some blk
              | None \<Rightarrow> map_option (\<lambda>(raw, cl). ((m_get raw)\<lparr>m_len := MLEN\<rparr>, cl)) (pool k)) of
          None \<Rightarrow> Some None
        | Some (m, cl) \<Rightarrow>
            let m = devget_place max_linkhdr cl (first \<noteq> None) (nat (umin totlen (epkt - cp))) m;
                len = m_len m
            in Option.bind (devget_read copy buf cp len) (\<lambda>bs.
                 Option.bind (m_write 0 bs m) (\<lambda>m.
                   Option.bind (devget_loop max_linkhdr copy buf epkt pool (Suc k) None
                       (if cp + int len = epkt then 0 else cp + int len) (totlen - int len))
                     (\<lambda>res. Some (map_option (\<lambda>ms. m # ms) res))))
      else Some (Some []))"

text \<open>The null pointer is the empty chain; \<open>ifp\<close> stands for a fresh packet header with the interface.\<close>

definition m_devget ::
    "nat \<Rightarrow> pool \<Rightarrow> u8 list \<Rightarrow> int \<Rightarrow> int \<Rightarrow> nat \<Rightarrow> (u8 list \<Rightarrow> u8 list) option \<Rightarrow> pmbuf list option" where
  "m_devget max_linkhdr pool buf totlen off ifp copy =
     (let epkt = totlen;
          cp = (if off \<noteq> 0 then off + 4 else 0);
          totlen = (if off \<noteq> 0 then totlen - 4 else totlen)
      in case pool 0 of None \<Rightarrow> Some []
         | Some (raw, cl) \<Rightarrow>
             let m = (m_gethdr raw)\<lparr>m_pkthdr := \<lparr>ph_len = totlen, ph_rest = ifp\<rparr>, m_len := MHLEN\<rparr>
             in Option.bind (devget_loop max_linkhdr copy buf epkt pool 0 (Some (m, cl)) cp totlen)
                  (\<lambda>res. Some (case res of None \<Rightarrow> [] | Some ms \<Rightarrow> ms)))"

section \<open>Clearing\<close>

definition zero_one :: "pmbuf \<Rightarrow> pmbuf" where
  "zero_one m =
     (if M_EXT \<in> m_flags m then m\<lparr>m_area := replicate (length (m_area m)) 0\<rparr>
      else if M_PKTHDR \<in> m_flags m then m\<lparr>m_area := take (MLEN - MHLEN) (m_area m) @ replicate MHLEN 0\<rparr>
      else m\<lparr>m_area := replicate MLEN 0\<rparr>)"

fun m_zero :: "pmbuf list \<Rightarrow> pmbuf list option" where
  "m_zero [] = Some []"
| "m_zero (m # ms) = (if M_READONLY m then None else map_option (Cons (zero_one m)) (m_zero ms))"

section \<open>Facts about m\_copyback\<close>

lemma m_write_mid:
  assumes ok: "mbuf_ok m" and room: "off + length bs \<le> m_len m"
  shows "\<exists>m'. m_write off bs m = Some m' \<and> m_bytes m' = take off (m_bytes m) @ bs @ drop (off + length bs) (m_bytes m) \<and> mbuf_ok m'
    \<and> m_flags m' = m_flags m \<and> m_pkthdr m' = m_pkthdr m \<and> m_len m' = m_len m"
proof -
  have "m_data m + off + length bs \<le> length (m_area m)" using assms by (simp add: mbuf_ok_def)
  moreover have "take (m_len m - off) (bs @ drop (m_data m + off + length bs) (m_area m)) = bs @ take (m_len m - (off + length bs)) (drop (m_data m + off + length bs) (m_area m))"
    using room by simp
  moreover have "take (m_len m) (take off (drop (m_data m) (m_area m)) @ x) = take off (drop (m_data m) (m_area m)) @ take (m_len m - off) x" for x
    using assms by (simp add: mbuf_ok_def min_absorb2)
  ultimately show ?thesis using assms by (simp add: m_write_def Let_def m_bytes_def mbuf_ok_def drop_take add.assoc add.commute add.left_commute)
qed

lemma m_getclr_fresh:
  assumes "length (m_area raw) = MLEN" and "l \<le> MLEN"
  shows "\<exists>n. m_getclr raw = Some n \<and> mbuf_ok (n\<lparr>m_len := l\<rparr>) \<and> m_bytes (n\<lparr>m_len := l\<rparr>) = replicate l 0"
  using assms by (simp add: m_getclr_def m_write_def m_get_def mbuf_ok_def m_bytes_def)

lemma m_get_fresh:
  assumes "length (m_area raw) = MLEN" and "l \<le> MLEN"
  shows "mbuf_ok ((m_get raw)\<lparr>m_len := l\<rparr>)"
  using assms by (simp add: m_get_def mbuf_ok_def)

lemma pool_full_block: "pool_full pool \<Longrightarrow> \<exists>raw cl. pool k = Some (raw, cl) \<and> length (m_area raw) = MLEN \<and> (\<forall>buf. cl = Some buf \<longrightarrow> length buf = MCLBYTES)"
  unfolding pool_full_def pool_ok_def by (metis not_Some_eq surj_pair)

text \<open>What the walk leaves: the chain, longer by zeros up to the offset, cut at the offset.\<close>

definition skip_done :: "nat \<Rightarrow> pmbuf list \<Rightarrow> nat \<Rightarrow> nat \<Rightarrow> bool \<times> pmbuf list \<times> pmbuf list \<times> nat \<times> nat \<times> nat \<Rightarrow> bool" where
  "skip_done len ms off totlen res \<longleftrightarrow> (case res of (full, p, s, off', totlen', k) \<Rightarrow>
     \<not> full \<and> chain_ok (p @ s) \<and> s \<noteq> [] \<and> off' \<le> m_len (hd s) \<and> off = length (chain_bytes p) + off' \<and> totlen' = totlen + length (chain_bytes p)
     \<and> (\<exists>z. chain_bytes (p @ s) = chain_bytes ms @ replicate z 0 \<and> (z = 0 \<or> length (chain_bytes ms) + z \<le> off + len))
     \<and> hd (p @ s) = hd ms)"

lemma skip_done_next:
  assumes "skip_done len r (off - m_len m) (totlen + m_len m) (False, p, s)" and "mbuf_ok m" and "m_len m < off" and "r \<noteq> []"
  shows "skip_done len (m # r) off totlen (False, m # p, s)"
  using assms by (cases s) (auto simp: skip_done_def)

lemma skip_done_grow:
  assumes d: "skip_done len [n] (off - m_len m) (totlen + m_len m) (False, p, s)" and m: "mbuf_ok m" "m_len m < off"
    and n: "m_bytes n = replicate l 0" "l \<le> len + (off - m_len m)"
  shows "skip_done len [m] off totlen (False, m # p, s)"
proof -
  obtain s' off' t' k' where s: "s = (s', off', t', k')" by (cases s)
  from d n(1) obtain z where z: "chain_bytes (p @ s') = replicate l 0 @ replicate z 0" "z = 0 \<or> l + z \<le> off - m_len m + len"
    by (auto simp: skip_done_def s)
  have "chain_bytes (m # p @ s') = chain_bytes [m] @ replicate (l + z) 0" using z(1) by (simp add: replicate_add)
  moreover have "l + z = 0 \<or> length (chain_bytes [m]) + (l + z) \<le> off + len" using z(2) n(2) m by auto
  ultimately have "\<exists>z. chain_bytes ((m # p) @ s') = chain_bytes [m] @ replicate z 0 \<and> (z = 0 \<or> length (chain_bytes [m]) + z \<le> off + len)"
    by (intro exI [of _ "l + z"]) simp
  then show ?thesis using d m by (auto simp: skip_done_def s simp del: chain_bytes_append)
qed

lemma copyback_skip_one:
  assumes "pool_full pool" and "mbuf_ok m"
  shows "\<exists>p s. copyback_skip pool k len [m] off totlen = Some (False, p, s) \<and> skip_done len [m] off totlen (False, p, s)"
  using assms(2)
proof (induction "2 * off + (if m_len m = 0 then 1 else 0)" arbitrary: m off k totlen rule: less_induct)
  case less
  show ?case
  proof (cases "off > m_len m")
    case True
    obtain raw cl where blk: "pool k = Some (raw, cl)" "length (m_area raw) = MLEN" using pool_full_block [OF assms(1)] by blast
    define l where "l = min MLEN (len + (off - m_len m))"
    obtain n where n: "m_getclr raw = Some n" "mbuf_ok (n\<lparr>m_len := l\<rparr>)" "m_bytes (n\<lparr>m_len := l\<rparr>) = replicate l 0"
      using m_getclr_fresh [OF blk(2), of l] by (auto simp: l_def)
    have l: "l > 0" "l \<le> len + (off - m_len m)" using True by (auto simp: l_def)
    have "2 * (off - m_len m) + (if m_len (n\<lparr>m_len := l\<rparr>) = 0 then 1 else 0) < 2 * off + (if m_len m = 0 then 1 else 0)"
      using l True by auto
    from less.hyps [OF this n(2), of "Suc k" "totlen + m_len m"] obtain p s where
      r: "copyback_skip pool (Suc k) len [n\<lparr>m_len := l\<rparr>] (off - m_len m) (totlen + m_len m) = Some (False, p, s)"
        "skip_done len [n\<lparr>m_len := l\<rparr>] (off - m_len m) (totlen + m_len m) (False, p, s)" by blast
    have "copyback_skip pool k len [m] off totlen = Some (False, m # p, s)"
      using True blk(1) n(1) r(1) by (subst copyback_skip.simps) (simp add: Let_def l_def del: mlen_simps)
    then show ?thesis using skip_done_grow [OF r(2) less.prems True n(3) l(2)] by blast
  next
    case False
    then have "copyback_skip pool k len [m] off totlen = Some (False, [], [m], off, totlen, k)" by (subst copyback_skip.simps) simp
    then show ?thesis using False less.prems by (fastforce simp: skip_done_def)
  qed
qed

lemma copyback_skip_correct:
  assumes "pool_full pool" and "chain_ok ms" and "ms \<noteq> []"
  shows "\<exists>p s. copyback_skip pool k len ms off totlen = Some (False, p, s) \<and> skip_done len ms off totlen (False, p, s)"
  using assms(2-)
proof (induction ms arbitrary: off totlen)
  case (Cons m r)
  consider (one) "r = []" | (here) "r \<noteq> []" "\<not> off > m_len m" | (on) "r \<noteq> []" "off > m_len m" by blast
  then show ?case
  proof cases
    case one
    then show ?thesis using copyback_skip_one [OF assms(1)] Cons.prems by simp
  next
    case here
    then have "copyback_skip pool k len (m # r) off totlen = Some (False, [], m # r, off, totlen, k)" by (subst copyback_skip.simps) simp
    then show ?thesis using here Cons.prems by (fastforce simp: skip_done_def)
  next
    case on
    with Cons.IH [of "off - m_len m" "totlen + m_len m"] Cons.prems obtain p s where
      r: "copyback_skip pool k len r (off - m_len m) (totlen + m_len m) = Some (False, p, s)"
        "skip_done len r (off - m_len m) (totlen + m_len m) (False, p, s)" by auto
    have "copyback_skip pool k len (m # r) off totlen = Some (False, m # p, s)"
      using on r(1) by (subst copyback_skip.simps) simp
    then show ?thesis using skip_done_next [OF r(2)] on Cons.prems by auto
  qed
qed simp

text \<open>What the copying loop leaves.\<close>

definition patched :: "nat \<Rightarrow> u8 list \<Rightarrow> u8 list \<Rightarrow> u8 list" where
  "patched off cp bs = take off bs @ cp @ drop (off + length cp) bs"

definition cb_done :: "u8 list \<Rightarrow> pmbuf list \<Rightarrow> nat \<Rightarrow> nat \<Rightarrow> pmbuf list \<times> nat \<Rightarrow> bool" where
  "cb_done cp ms off totlen res \<longleftrightarrow> (case res of (ms', t) \<Rightarrow>
     chain_ok ms' \<and> chain_bytes ms' = patched off cp (chain_bytes ms) \<and> ms' \<noteq> [] \<and> (cp \<noteq> [] \<longrightarrow> t = totlen + off + length cp)
     \<and> m_flags (hd ms') = m_flags (hd ms) \<and> m_pkthdr (hd ms') = m_pkthdr (hd ms))"

lemma patched_step:
  assumes "off \<le> length b" and "mlen = min (length b - off) (length cp)"
  shows "(take off b @ take mlen cp @ drop (off + mlen) b) @ patched 0 (drop mlen cp) r = patched off cp (b @ r)"
proof (cases "length cp \<le> length b - off")
  case True
  then show ?thesis using assms by (simp add: patched_def)
next
  case False
  then have "mlen = length b - off" "off + mlen = length b" "off + length cp - length b = length cp - mlen" using assms by auto
  then show ?thesis using assms False by (simp add: patched_def)
qed

lemma cb_done_step:
  assumes m: "mbuf_ok m" "off \<le> m_len m" and mlen: "mlen = min (m_len m - off) (length cp)"
    and m': "m_bytes m' = take off (m_bytes m) @ take mlen cp @ drop (off + mlen) (m_bytes m)" "mbuf_ok m'" "m_flags m' = m_flags m" "m_pkthdr m' = m_pkthdr m"
    and d: "cb_done (drop mlen cp) r 0 (totlen + (mlen + off)) (s, t)" "drop mlen cp \<noteq> []" and r: "chain_bytes r' = chain_bytes r \<or> chain_bytes r' = [] \<and> length (chain_bytes r) \<le> length (drop mlen cp)"
  shows "cb_done cp (m # r') off totlen (m' # s, t)"
proof -
  have "patched 0 (drop mlen cp) (chain_bytes r') = patched 0 (drop mlen cp) (chain_bytes r)" using r by (auto simp: patched_def)
  moreover have "chain_bytes (m' # s) = (take off (m_bytes m) @ take mlen cp @ drop (off + mlen) (m_bytes m)) @ patched 0 (drop mlen cp) (chain_bytes r)"
    using d m' by (simp add: cb_done_def)
  ultimately have "chain_bytes (m' # s) = patched off cp (chain_bytes (m # r'))"
    using patched_step [of off "m_bytes m" mlen cp "chain_bytes r'"] m mlen unfolding chain_bytes_Cons by simp
  then show ?thesis using d m' mlen by (auto simp: cb_done_def)
qed

lemma copyback_copy_turn:
  assumes m: "mbuf_ok m" "off \<le> m_len m" and mlen: "mlen = min (m_len m - off) (length cp)"
  shows "\<exists>m'. m_write off (take mlen cp) m = Some m' \<and> m_bytes m' = take off (m_bytes m) @ take mlen cp @ drop (off + mlen) (m_bytes m)
    \<and> mbuf_ok m' \<and> m_flags m' = m_flags m \<and> m_pkthdr m' = m_pkthdr m"
proof -
  have l: "length (take mlen cp) = mlen" using mlen by simp
  have "off + length (take mlen cp) \<le> m_len m" unfolding l using m(2) mlen by simp
  from m_write_mid [OF m(1) this] show ?thesis unfolding l by blast
qed

lemma copyback_copy_last:
  assumes m: "mbuf_ok m" "off \<le> m_len m" "chain_ok r" and cp: "cp \<noteq> []" "length cp \<le> m_len m - off"
  shows "\<exists>res. copyback_copy pool k cp (m # r) off totlen = Some res \<and> cb_done cp (m # r) off totlen res"
proof -
  from copyback_copy_turn [OF m(1,2) refl, of cp] cp obtain m' where
    m': "m_write off cp m = Some m'" "m_bytes m' = take off (m_bytes m) @ cp @ drop (off + length cp) (m_bytes m)" "mbuf_ok m'"
      "m_flags m' = m_flags m" "m_pkthdr m' = m_pkthdr m" by (auto simp: min_absorb2)
  have "copyback_copy pool k cp (m # r) off totlen = Some (m' # r, totlen + (length cp + off))"
    using m'(1) cp by (subst copyback_copy.simps) (simp add: min_absorb2)
  then show ?thesis using m' m cp by (auto simp: cb_done_def patched_def)
qed

lemma copyback_copy_one:
  assumes "pool_full pool" and "mbuf_ok m" and "off \<le> m_len m" and "cp \<noteq> []"
  shows "\<exists>res. copyback_copy pool k cp [m] off totlen = Some res \<and> cb_done cp [m] off totlen res"
  using assms(2-)
proof (induction "2 * length cp + (if m_len m = off then 1 else 0)" arbitrary: m off k totlen cp rule: less_induct)
  case less
  show ?case
  proof (cases "length cp \<le> m_len m - off")
    case True
    then show ?thesis using copyback_copy_last less.prems by simp
  next
    case False
    define mlen where "mlen = min (m_len m - off) (length cp)"
    have mlen: "mlen = m_len m - off" using False by (simp add: mlen_def)
    obtain m' where m': "m_write off (take mlen cp) m = Some m'" "m_bytes m' = take off (m_bytes m) @ take mlen cp @ drop (off + mlen) (m_bytes m)"
      "mbuf_ok m'" "m_flags m' = m_flags m" "m_pkthdr m' = m_pkthdr m" using copyback_copy_turn [OF less.prems(1,2) mlen_def] by auto
    obtain raw cl where blk: "pool k = Some (raw, cl)" "length (m_area raw) = MLEN" using pool_full_block [OF assms(1)] by blast
    define n where "n = (m_get raw)\<lparr>m_len := min MLEN (length (drop mlen cp))\<rparr>"
    have n: "mbuf_ok n" "m_len n = min MLEN (length (drop mlen cp))" using m_get_fresh [OF blk(2)] by (simp_all add: n_def)
    have ne: "drop mlen cp \<noteq> []" using False mlen by simp
    then have n0: "m_len n \<noteq> 0" using n(2) by simp
    have "2 * length (drop mlen cp) + (if m_len n = 0 then 1 else 0) < 2 * length cp + (if m_len m = off then 1 else 0)"
      using n0 mlen less.prems False by auto
    from less.hyps [OF this n(1) _ ne, of "Suc k" "totlen + (mlen + off)"] obtain s t where
      r: "copyback_copy pool (Suc k) (drop mlen cp) [n] 0 (totlen + (mlen + off)) = Some (s, t)"
        "cb_done (drop mlen cp) [n] 0 (totlen + (mlen + off)) (s, t)" by auto
    have "copyback_copy pool k cp [m] off totlen = Some (m' # s, t)"
      using m'(1) blk(1) r(1) less.prems ne unfolding n_def mlen_def
      by (subst copyback_copy.simps) (simp add: Let_def del: mlen_simps)
    moreover have "cb_done cp [m] off totlen (m' # s, t)"
      by (rule cb_done_step [OF less.prems(1,2) mlen_def m'(2-5) r(2) ne]) (use n in simp)
    ultimately show ?thesis by blast
  qed
qed

lemma copyback_copy_correct:
  assumes "pool_full pool" and "chain_ok ms" and "ms \<noteq> []" and "off \<le> m_len (hd ms)" and "cp \<noteq> []"
  shows "\<exists>res. copyback_copy pool k cp ms off totlen = Some res \<and> cb_done cp ms off totlen res"
  using assms(2-)
proof (induction ms arbitrary: off totlen cp)
  case (Cons m r)
  consider (one) "r = []" | (fits) "r \<noteq> []" "length cp \<le> m_len m - off" | (on) "r \<noteq> []" "\<not> length cp \<le> m_len m - off" by blast
  then show ?case
  proof cases
    case one
    then show ?thesis using copyback_copy_one [OF assms(1)] Cons.prems by simp
  next
    case fits
    then show ?thesis using copyback_copy_last Cons.prems by simp
  next
    case on
    define mlen where "mlen = min (m_len m - off) (length cp)"
    have m: "mbuf_ok m" "off \<le> m_len m" using Cons.prems by auto
    obtain m' where m': "m_write off (take mlen cp) m = Some m'" "m_bytes m' = take off (m_bytes m) @ take mlen cp @ drop (off + mlen) (m_bytes m)"
      "mbuf_ok m'" "m_flags m' = m_flags m" "m_pkthdr m' = m_pkthdr m" using copyback_copy_turn [OF m mlen_def] by auto
    have ne: "drop mlen cp \<noteq> []" using on by (simp add: mlen_def)
    from Cons.IH [of 0 "drop mlen cp" "totlen + (mlen + off)"] Cons.prems on ne obtain s t where
      r: "copyback_copy pool k (drop mlen cp) r 0 (totlen + (mlen + off)) = Some (s, t)" "cb_done (drop mlen cp) r 0 (totlen + (mlen + off)) (s, t)" by auto
    have "copyback_copy pool k cp (m # r) off totlen = Some (m' # s, t)"
      using m'(1) r(1) Cons.prems on ne unfolding mlen_def by (subst copyback_copy.simps) simp
    moreover have "cb_done cp (m # r) off totlen (m' # s, t)"
      by (rule cb_done_step [OF m mlen_def m'(2-5) r(2) ne]) simp
    ultimately show ?thesis by blast
  qed
qed simp

lemma patched_zeros:
  assumes "off \<le> length bs + z" and "z = 0 \<or> length bs + z \<le> off + length cp"
  shows "patched off cp (bs @ replicate z 0) = take off (bs @ replicate (off - length bs) 0) @ cp @ drop (off + length cp) bs"
  using assms by (auto simp: patched_def min_def)

text \<open>
  \<^verbatim>\<open>m_copyback\<close> overwrites exactly the bytes from the offset on with the data, whatever mbufs they are in, lengthens the chain
  if they reach past its end, with zeros before an offset behind the end, and raises the length in the packet header to the end of
  the data.
\<close>

theorem m_copyback_correct:
  assumes ok: "chain_ok ms" and ne: "ms \<noteq> []" and rw: "list_all (\<lambda>m. \<not> M_READONLY m) ms" and pool: "pool_full pool" and cp: "cp \<noteq> []"
  shows "\<exists>ms'. m_copyback pool ms off cp = Some ms' \<and> chain_ok ms'
    \<and> chain_bytes ms' = take off (chain_bytes ms @ replicate (off - length (chain_bytes ms)) 0) @ cp @ drop (off + length cp) (chain_bytes ms)
    \<and> (M_PKTHDR \<in> m_flags (hd ms) \<longrightarrow> hdr_len ms' = max (hdr_len ms) (int (off + length cp)))"
proof -
  obtain p s off' t k where s: "copyback_skip pool 0 (length cp) ms off 0 = Some (False, p, s, off', t, k)"
      "skip_done (length cp) ms off 0 (False, p, s, off', t, k)"
    using copyback_skip_correct [OF pool ok ne, of 0 "length cp" off 0] by (metis prod_cases4)
  then obtain z where d: "chain_ok p" "chain_ok s" "s \<noteq> []" "off' \<le> m_len (hd s)" "off = length (chain_bytes p) + off'" "t = length (chain_bytes p)"
    "chain_bytes p @ chain_bytes s = chain_bytes ms @ replicate z 0" "z = 0 \<or> length (chain_bytes ms) + z \<le> off + length cp" "hd (p @ s) = hd ms"
    by (auto simp: skip_done_def)
  obtain s' t' where c: "copyback_copy pool k cp s off' t = Some (s', t')" "cb_done cp s off' t (s', t')"
    using copyback_copy_correct [OF pool d(2,3,4) cp, of k t] by auto
  then have c': "chain_ok s'" "chain_bytes s' = patched off' cp (chain_bytes s)" "s' \<noteq> []" "t' = off + length cp"
    "m_flags (hd s') = m_flags (hd s)" "m_pkthdr (hd s') = m_pkthdr (hd s)" using cp d(5,6) by (auto simp: cb_done_def)
  define ms' where "ms' = on_hdr_len (\<lambda>l. if l < int t' then int t' else l) (p @ s')"
  have "m_copyback pool ms off cp = Some ms'" using ne s(1) c(1) by (simp add: m_copyback_def Let_def ms'_def)
  moreover have "chain_ok ms'" using d(1) c'(1) by (simp add: ms'_def)
  moreover have "chain_bytes ms' = take off (chain_bytes ms @ replicate (off - length (chain_bytes ms)) 0) @ cp @ drop (off + length cp) (chain_bytes ms)"
  proof -
    have len: "off' \<le> length (chain_bytes s)" using d(2-4) by (cases s) auto
    have b: "chain_bytes ms' = patched off cp (chain_bytes p @ chain_bytes s)" using c'(2) d(5) by (simp add: ms'_def patched_def)
    have "length (chain_bytes p @ chain_bytes s) = length (chain_bytes ms @ replicate z 0)" using d(7) by simp
    then have "off \<le> length (chain_bytes ms) + z" using d(5) len by simp
    from patched_zeros [OF this d(8)] b show ?thesis by (simp only: d(7))
  qed
  moreover have "hdr_len ms' = max (hdr_len ms) (int (off + length cp))" if "M_PKTHDR \<in> m_flags (hd ms)"
    using that c'(3-6) d(3,9) by (cases p; cases s'; cases s) (auto simp: ms'_def on_hdr_len_def hdr_len_def)
  ultimately show ?thesis by blast
qed

theorem m_copyback_correct_witness:
  "\<exists>ms'. m_copyback stale_pool two_mbufs 5 [10, 11, 12, 13] = Some ms' \<and> chain_bytes ms' = [1, 2, 3, 4, 5, 10, 11, 12, 13] \<and> hdr_len ms' = 9"
proof -
  have "list_all (\<lambda>m. \<not> M_READONLY m) two_mbufs" by (simp add: two_mbufs_def M_READONLY_def)
  from m_copyback_correct [OF two_mbufs_ok(5,2) this stale_pool_ok(1), of "[10, 11, 12, 13]" 5] two_mbufs_ok(4,6,7) show ?thesis by auto
qed

section \<open>Room inside a chain\<close>

text \<open>What \<^verbatim>\<open>m_inject\<close> promises.\<close>

definition injected :: "pmbuf list \<Rightarrow> nat \<Rightarrow> nat \<Rightarrow> pmbuf list \<Rightarrow> nat \<Rightarrow> bool" where
  "injected ms len siz ms' i \<longleftrightarrow> chain_ok ms' \<and> i < length ms' \<and> siz \<le> m_len (ms' ! i) \<and> chain_bytes (take i ms') = take len (chain_bytes ms)
     \<and> drop (len + siz) (chain_bytes ms') = drop len (chain_bytes ms) \<and> length (chain_bytes ms') = length (chain_bytes ms) + siz
     \<and> (M_PKTHDR \<in> m_flags (hd ms) \<longrightarrow> hdr_len ms' = hdr_len ms + int siz)"

lemma on_hdr_take: "chain_bytes (take i (on_hdr_len f ms)) = chain_bytes (take i ms)" "i < length ms \<Longrightarrow> m_len (on_hdr_len f ms ! i) = m_len (ms ! i)"
  by (cases i; cases ms; simp add: on_hdr_len_def nth_Cons')+

lemma injected_intro:
  assumes "ms' = on_hdr_len (\<lambda>l. l + int siz) (p @ m' # n # t)" and "chain_ok (p @ m' # n # t)" and "siz \<le> m_len n"
    and "chain_bytes (p @ [m']) = take len (chain_bytes ms)" and "drop siz (m_bytes n @ chain_bytes t) = drop len (chain_bytes ms)"
    and "len \<le> length (chain_bytes ms)" and "m_flags (hd (p @ [m'])) = m_flags (hd ms)" and "m_pkthdr (hd (p @ [m'])) = m_pkthdr (hd ms)"
  shows "injected ms len siz ms' (Suc (length p))"
proof -
  have b: "chain_bytes ms' = take len (chain_bytes ms) @ (m_bytes n @ chain_bytes t)" proof -
    have "chain_bytes ms' = chain_bytes (p @ [m']) @ (m_bytes n @ chain_bytes t)" using assms(1) by simp
    then show ?thesis by (simp only: assms(4))
  qed
  have "siz \<le> length (m_bytes n @ chain_bytes t)" using assms(2,3) by simp
  moreover have "length (drop siz (m_bytes n @ chain_bytes t)) = length (drop len (chain_bytes ms))" using assms(5) by simp
  ultimately have "length (m_bytes n @ chain_bytes t) = length (chain_bytes ms) - len + siz" by simp
  then have "length (chain_bytes ms') = length (chain_bytes ms) + siz" unfolding b using assms(6) by simp
  moreover have "drop (len + siz) (chain_bytes ms') = drop len (chain_bytes ms)" unfolding b using assms(5,6) by simp
  moreover have "chain_bytes (take (Suc (length p)) ms') = take len (chain_bytes ms)" using assms(1,4) by (simp add: on_hdr_take)
  moreover have "hdr_len ms' = hdr_len ms + int siz" if "M_PKTHDR \<in> m_flags (hd ms)"
    using that assms(1,7,8) by (cases p) (auto simp: on_hdr_len_def hdr_len_def)
  ultimately show ?thesis using assms(1-3) by (simp add: injected_def on_hdr_take nth_append)
qed

lemma split_walk_pos: "split_walk ms len = (p, m # r, l) \<Longrightarrow> 0 < len \<Longrightarrow> 0 < l"
  by (induction ms len arbitrary: p rule: split_walk.induct) (auto split: if_splits prod.splits)

lemma m_inject_done:
  assumes ok: "list_all pmbuf_ok ms" and ne: "ms \<noteq> []" and pool: "pool_full pool" and len: "0 < len" "len \<le> length (chain_bytes ms)"
    and siz: "siz < MHLEN" and lens: "list_all (\<lambda>m. m_len m \<le> M_COPYALL) ms"
  shows "\<exists>ms' i. m_inject pool ms (int len) (int siz) = Some (ms', Some i) \<and> injected ms len siz ms' i"
proof -
  have okc: "chain_ok ms" using ok by (auto simp: list_all_iff pmbuf_ok_mbuf)
  from split_walk_bytes [OF okc ne len(2)] obtain p m r l where w: "split_walk ms len = (p, m # r, l)" "ms = p @ m # r" "l \<le> m_len m"
    "len = length (chain_bytes p) + l" by blast
  have okm: "list_all pmbuf_ok (m # r)" "pmbuf_ok m" "mbuf_ok m" "chain_ok p" "chain_ok r" "chain_ok (m # r)" using ok okc w(2) by auto
  have tk: "take len (chain_bytes ms) = chain_bytes p @ take l (m_bytes m)" "drop len (chain_bytes ms) = drop l (m_bytes m) @ chain_bytes r"
    using w(2-4) okm by simp_all
  have g: "int siz mod 2 ^ 64 < int MHLEN" using siz by simp
  have l0: "0 < l" using split_walk_pos [OF w(1) len(1)] .
  show ?thesis
  proof (cases "m_len m - l = 0 \<and> r \<noteq> [] \<and> siz \<le> m_leadingspace (hd r)")
    case True
    then obtain n t where r: "r = n # t" by (cases r) auto
    define n' where "n' = n\<lparr>m_data := m_data n - siz, m_len := m_len n + siz\<rparr>"
    have sw: "n\<lparr>m_len := m_len n + siz, m_data := m_data n - siz\<rparr> = n'" by (simp add: n'_def)
    have n': "pmbuf_ok n'" "drop siz (m_bytes n') = m_bytes n" "siz \<le> m_len n'"
      using prepend_inplace [of n siz] True okm(1) by (simp_all add: r n'_def)
    have "m_inject pool ms (int len) (int siz) = Some (on_hdr_len (\<lambda>l. l + int siz) (p @ m # n' # t), Some (Suc (length p)))"
      using True w(1) g len(1) by (simp add: m_inject_def r sw)
    moreover have "injected ms len siz (on_hdr_len (\<lambda>l. l + int siz) (p @ m # n' # t)) (Suc (length p))"
    proof (rule injected_intro [OF refl])
      show "chain_bytes (p @ [m]) = take len (chain_bytes ms)" using True w(3) okm(3) tk(1) by simp
      show "drop siz (m_bytes n' @ chain_bytes t) = drop len (chain_bytes ms)"
        using True w(3) okm(3) tk(2) n' pmbuf_ok_mbuf [OF n'(1)] by (simp add: r)
    qed (use okm n' w len pmbuf_ok_mbuf [OF n'(1)] in \<open>auto simp: r hd_append\<close>)
    ultimately show ?thesis by blast
  next
    case False
    have "\<exists>ns. (if m_len m - l = 0 then Some (Some (m # r, [])) else m_copym2 pool (m # r) (int l) (int (m_len m - l))) = Some (Some (m # r, ns))
        \<and> chain_ok ns \<and> chain_bytes ns = drop l (m_bytes m)"
    proof (cases "m_len m - l = 0")
      case True
      then show ?thesis using w(3) okm(3) by simp
    next
      case F: False
      have "m_len m \<le> M_COPYALL" using lens w(2) by simp
      then have "int (m_len m - l) < int M_COPYALL" using l0 F by simp
      moreover have "list_all (\<lambda>m. m_len m \<le> M_COPYALL) (m # r)" using lens w(2) by simp
      ultimately show ?thesis using m_copym0_done [OF okm(1) _ pool, of "int l" "int (m_len m - l)" True] w(3) okm(3) F
        by (auto simp: m_copym2_def)
    qed
    then obtain ns where ns: "(if m_len m - l = 0 then Some (Some (m # r, [])) else m_copym2 pool (m # r) (int l) (int (m_len m - l))) = Some (Some (m # r, ns))"
      "chain_ok ns" "chain_bytes ns = drop l (m_bytes m)" by blast
    obtain raw cl where blk: "pool (length ns) = Some (raw, cl)" "length (m_area raw) = MLEN" using pool_full_block [OF pool] by blast
    define n where "n = (m_get raw)\<lparr>m_len := siz\<rparr>"
    define m' where "m' = m\<lparr>m_len := m_len m - (m_len m - l)\<rparr>"
    have n: "mbuf_ok n" "m_len n = siz" using m_get_fresh [OF blk(2), of siz] siz by (simp_all add: n_def)
    have m': "mbuf_ok m'" "m_bytes m' = take l (m_bytes m)" "m_flags m' = m_flags m" "m_pkthdr m' = m_pkthdr m"
      using mbuf_ok_shorter [OF okm(3) w(3)] m_bytes_shorter [OF w(3)] w(3) by (simp_all add: m'_def)
    have "m_inject pool ms (int len) (int siz) = Some (on_hdr_len (\<lambda>l. l + int siz) (p @ m' # n # ns @ r), Some (Suc (length p)))"
      using False w(1) g len(1) ns(1) blk(1) by (auto simp: m_inject_def n_def m'_def Let_def simp del: mlen_simps)
    moreover have "injected ms len siz (on_hdr_len (\<lambda>l. l + int siz) (p @ m' # n # ns @ r)) (Suc (length p))"
    proof (rule injected_intro [OF refl])
      show "chain_bytes (p @ [m']) = take len (chain_bytes ms)" using tk(1) m'(2) by simp
      show "drop siz (m_bytes n @ chain_bytes (ns @ r)) = drop len (chain_bytes ms)" using tk(2) ns(3) n by simp
    qed (use okm n m' ns(2) w(2) len in \<open>auto simp: hd_append\<close>)
    ultimately show ?thesis by blast
  qed
qed

text \<open>
  \<^verbatim>\<open>m_inject\<close> makes room for \<open>siz\<close> bytes at any position inside a chain and returns the mbuf that starts there: the
  bytes before and after are those of the chain, the ones before are where they were, and the length in the packet header grows by
  \<open>siz\<close>.
\<close>

theorem m_inject_correct:
  assumes "list_all pmbuf_ok ms" and "ms \<noteq> []" and "pool_full pool" and "0 < len" and "len \<le> length (chain_bytes ms)"
    and "siz < MHLEN" and "list_all (\<lambda>m. m_len m \<le> M_COPYALL) ms"
  shows "\<exists>ms' i. m_inject pool ms (int len) (int siz) = Some (ms', Some i) \<and> chain_ok ms' \<and> i < length ms' \<and> siz \<le> m_len (ms' ! i)
    \<and> chain_bytes (take i ms') = take len (chain_bytes ms) \<and> drop (len + siz) (chain_bytes ms') = drop len (chain_bytes ms)
    \<and> length (chain_bytes ms') = length (chain_bytes ms) + siz \<and> (M_PKTHDR \<in> m_flags (hd ms) \<longrightarrow> hdr_len ms' = hdr_len ms + int siz)"
  using m_inject_done [OF assms] by (auto simp: injected_def)

theorem m_inject_correct_witness:
  "\<exists>ms' i. m_inject stale_pool two_mbufs 2 8 = Some (ms', Some i) \<and> chain_bytes (take i ms') = [1, 2] \<and> drop 10 (chain_bytes ms') = [3, 4, 5, 6, 7]
    \<and> hdr_len ms' = 15"
proof -
  have "list_all (\<lambda>m. m_len m \<le> M_COPYALL) two_mbufs" by (simp add: two_mbufs_def M_COPYALL_def)
  from m_inject_correct [OF two_mbufs_ok(1,2) stale_pool_ok(1) _ _ _ this, of 2 8] two_mbufs_ok(4,6,7) show ?thesis
    by (auto simp: numeral_2_eq_2)
qed

section \<open>Packets from a device\<close>

text \<open>An mbuf as \<^verbatim>\<open>m_devget\<close> has it before data are placed.\<close>

definition fresh_for :: "bool \<Rightarrow> pmbuf \<Rightarrow> bool" where
  "fresh_for first m \<longleftrightarrow> length (m_area m) = MLEN \<and> (if first then m_data m = MLEN - MHLEN \<and> m_len m = MHLEN \<and> m_flags m = {M_PKTHDR}
     else m_data m = 0 \<and> m_len m = MLEN \<and> m_flags m = {})"

lemma devget_place_ok:
  fixes len max_linkhdr :: nat
  assumes "fresh_for first m" and cl: "cl = Some buf" "length buf = MCLBYTES"
  defines "m' \<equiv> devget_place max_linkhdr cl first len m"
  shows "m_len m' = min len MCLBYTES" and "pmbuf_ok m'" and "m_pkthdr m' = m_pkthdr m" and "m_flags m \<subseteq> m_flags m'"
  using assms(1) cl unfolding m'_def
  by (auto simp: fresh_for_def devget_place_def m_clget_def MINCLSIZE_def pmbuf_ok_def mbuf_ok_def MCLBYTES_def Let_def split: if_splits)

lemma m_write_place:
  assumes "pmbuf_ok m" and "length bs = m_len m"
  shows "\<exists>n. m_write 0 bs m = Some n \<and> m_bytes n = bs \<and> pmbuf_ok n \<and> m_flags n = m_flags m \<and> m_pkthdr n = m_pkthdr m"
proof -
  have "m_data m + length bs \<le> length (m_area m)" "m_len m = length bs" using assms by (simp_all add: pmbuf_ok_def mbuf_ok_def)
  from m_write_start [OF this] assms(1) show ?thesis by (auto simp: pmbuf_ok_def)
qed

text \<open>The bytes of the packet still to come, in the ring that the device memory is.\<close>

definition ring_bytes :: "u8 list \<Rightarrow> nat \<Rightarrow> nat \<Rightarrow> u8 list" where
  "ring_bytes e cp t = take t (drop cp e @ e)"

lemma ring_bytes_step:
  assumes "cp \<le> length e" and "l \<le> length e - cp" and "l \<le> t" and "t \<le> 2 * length e - cp"
  shows "take l (drop cp e) @ ring_bytes e (if cp + l = length e then 0 else cp + l) (t - l) = ring_bytes e cp t"
proof -
  have "ring_bytes e cp t = take l (drop cp e) @ take (t - l) (drop (cp + l) e @ e)"
    using assms(2,3) take_add [of l "t - l" "drop cp e @ e"] by (simp add: ring_bytes_def add.commute)
  moreover have "take (t - l) (drop (cp + l) e @ e) = ring_bytes e (if cp + l = length e then 0 else cp + l) (t - l)"
  proof (cases "cp + l = length e")
    case True
    then have "t - l \<le> length e" using assms(4) by simp
    then show ?thesis using True by (simp add: ring_bytes_def)
  qed (simp add: ring_bytes_def)
  ultimately show ?thesis by simp
qed

definition copies :: "(u8 list \<Rightarrow> u8 list) option \<Rightarrow> bool" where
  "copies copy \<longleftrightarrow> (\<forall>f. copy = Some f \<longrightarrow> f = id)"

definition pool_clusters :: "pool \<Rightarrow> bool" where
  "pool_clusters pool \<longleftrightarrow> pool_full pool \<and> (\<forall>k raw cl. pool k = Some (raw, cl) \<longrightarrow> cl \<noteq> None)"

lemma pool_clusters_block:
  "pool_clusters pool \<Longrightarrow> \<exists>raw buf. pool k = Some (raw, Some buf) \<and> length (m_area raw) = MLEN \<and> length buf = MCLBYTES"
  using pool_full_block [of pool k] unfolding pool_clusters_def by (metis not_None_eq)

lemma devget_loop_turn:
  assumes pool: "pool_clusters pool" and copy: "copies copy" and e: "epkt \<le> length buf" "epkt < 2 ^ 31" and cp: "cp \<le> epkt" "t < 2 ^ 31" "0 < t"
    and first: "\<And>m cl. first = Some (m, cl) \<Longrightarrow> fresh_for True m \<and> (\<exists>b. cl = Some b \<and> length b = MCLBYTES)"
  defines "l \<equiv> min (min t (epkt - cp)) MCLBYTES"
  shows "\<exists>n. devget_loop max_linkhdr copy buf (int epkt) pool k first (int cp) (int t) =
      Option.bind (devget_loop max_linkhdr copy buf (int epkt) pool (Suc k) None (int (if cp + l = epkt then 0 else cp + l)) (int (t - l)))
        (\<lambda>res. Some (map_option (\<lambda>ms. n # ms) res))
    \<and> pmbuf_ok n \<and> m_len n = l \<and> m_bytes n = take l (drop cp buf)
    \<and> (\<forall>m cl. first = Some (m, cl) \<longrightarrow> M_PKTHDR \<in> m_flags n \<and> m_pkthdr n = m_pkthdr m)"
proof -
  have "\<exists>m cl b. (case first of Some blk \<Rightarrow> Some blk | None \<Rightarrow> map_option (\<lambda>(raw, cl). ((m_get raw)\<lparr>m_len := MLEN\<rparr>, cl)) (pool k)) = Some (m, cl)
      \<and> fresh_for (first \<noteq> None) m \<and> cl = Some b \<and> length b = MCLBYTES"
    using first pool_clusters_block [OF pool, of k] by (cases first) (auto simp: fresh_for_def m_get_def)
  then obtain m b where m: "(case first of Some blk \<Rightarrow> Some blk | None \<Rightarrow> map_option (\<lambda>(raw, cl). ((m_get raw)\<lparr>m_len := MLEN\<rparr>, cl)) (pool k)) = Some (m, Some b)"
    "fresh_for (first \<noteq> None) m" "length b = MCLBYTES" by blast
  have um: "nat (umin (int t) (int epkt - int cp)) = min t (epkt - cp)" using cp e(2) by (simp add: umin_def flip: of_nat_diff)
  define m1 where "m1 = devget_place max_linkhdr (Some b) (first \<noteq> None) (min t (epkt - cp)) m"
  note place = devget_place_ok [OF m(2) refl m(3), where len = "min t (epkt - cp)" and max_linkhdr = max_linkhdr, folded m1_def l_def]
  have l: "l \<le> t" "l \<le> epkt - cp" by (auto simp: l_def)
  have room: "cp + l \<le> length buf" using l(2) cp(1) e(1) by linarith
  then have rd: "devget_read copy buf (int cp) l = Some (take l (drop cp buf))" "length (take l (drop cp buf)) = m_len m1"
    using copy place(1) by (cases copy; simp add: devget_read_def copies_def)+
  obtain n where n: "m_write 0 (take l (drop cp buf)) m1 = Some n" "m_bytes n = take l (drop cp buf)" "pmbuf_ok n" "m_flags n = m_flags m1" "m_pkthdr n = m_pkthdr m1"
    using m_write_place [OF place(2) rd(2)] by blast
  have "length (m_bytes n) = l" using n(2) rd(2) place(1) by simp
  then have "m_len n = l" using pmbuf_ok_mbuf [OF n(3)] by simp
  moreover have c: "(if int cp + int l = int epkt then 0 else int cp + int l) = int (if cp + l = epkt then 0 else cp + l)" "int t - int l = int (t - l)" "0 < int t"
    using l cp(3) by auto
  have "devget_loop max_linkhdr copy buf (int epkt) pool k first (int cp) (int t) =
      Option.bind (devget_loop max_linkhdr copy buf (int epkt) pool (Suc k) None (int (if cp + l = epkt then 0 else cp + l)) (int (t - l)))
        (\<lambda>res. Some (map_option (\<lambda>ms. n # ms) res))"
    by (subst devget_loop.simps)
      (simp only: c m(1) um Let_def m1_def [symmetric] place(1) rd(1) n(1) if_True option.case prod.case bind.bind_lunit)
  moreover have "first = Some (m2, cl) \<Longrightarrow> M_PKTHDR \<in> m_flags n \<and> m_pkthdr n = m_pkthdr m2" for m2 cl
    using n(4,5) place(3,4) m(1,2) by (auto simp: fresh_for_def)
  ultimately show ?thesis using n(2,3) by auto
qed

text \<open>The loop copies the rest of the packet; without trailer encapsulation all mbufs but the last are full.\<close>

lemma devget_loop_correct:
  assumes pool: "pool_clusters pool" and copy: "copies copy" and e: "epkt \<le> length buf" "epkt < 2 ^ 31"
    and cp: "cp \<le> epkt" "t \<le> 2 * epkt - cp" "t < 2 ^ 31"
    and first: "\<And>m cl. first = Some (m, cl) \<Longrightarrow> fresh_for True m \<and> (\<exists>b. cl = Some b \<and> length b = MCLBYTES)"
  shows "\<exists>ms. devget_loop max_linkhdr copy buf (int epkt) pool k first (int cp) (int t) = Some (Some ms) \<and> list_all pmbuf_ok ms
    \<and> chain_bytes ms = ring_bytes (take epkt buf) cp t \<and> (cp + t = epkt \<longrightarrow> straddle_ok ms)
    \<and> (\<forall>m cl. first = Some (m, cl) \<longrightarrow> 0 < t \<longrightarrow> ms \<noteq> [] \<and> M_PKTHDR \<in> m_flags (hd ms) \<and> m_pkthdr (hd ms) = m_pkthdr m)"
  using cp first
proof (induction "2 * t + (if cp = epkt then 1 else 0)" arbitrary: cp t k first rule: less_induct)
  case less
  show ?case
  proof (cases "0 < t")
    case False
    then show ?thesis by (subst devget_loop.simps) (simp add: ring_bytes_def)
  next
    case True
    define l where "l = min (min t (epkt - cp)) MCLBYTES"
    define cp' where "cp' = (if cp + l = epkt then 0 else cp + l)"
    have l: "l \<le> t" "l \<le> epkt - cp" "cp < epkt \<Longrightarrow> 0 < l" using True by (auto simp: l_def MCLBYTES_def)
    obtain n where n: "devget_loop max_linkhdr copy buf (int epkt) pool k first (int cp) (int t) =
        Option.bind (devget_loop max_linkhdr copy buf (int epkt) pool (Suc k) None (int cp') (int (t - l))) (\<lambda>res. Some (map_option (\<lambda>ms. n # ms) res))"
      "pmbuf_ok n" "m_len n = l" "m_bytes n = take l (drop cp buf)" "\<And>m cl. first = Some (m, cl) \<Longrightarrow> M_PKTHDR \<in> m_flags n \<and> m_pkthdr n = m_pkthdr m"
      using devget_loop_turn [OF pool copy e less.prems(1,3) True less.prems(4), of first max_linkhdr k] unfolding l_def cp'_def by blast
    have "2 * (t - l) + (if cp' = epkt then 1 else 0) < 2 * t + (if cp = epkt then 1 else 0)"
      using l less.prems(1,2) True by (auto simp: cp'_def)
    moreover have "cp' \<le> epkt" "t - l \<le> 2 * epkt - cp'" "t - l < 2 ^ 31" using l less.prems by (auto simp: cp'_def)
    ultimately have "\<exists>ms. devget_loop max_linkhdr copy buf (int epkt) pool (Suc k) None (int cp') (int (t - l)) = Some (Some ms) \<and> list_all pmbuf_ok ms
      \<and> chain_bytes ms = ring_bytes (take epkt buf) cp' (t - l) \<and> (cp' + (t - l) = epkt \<longrightarrow> straddle_ok ms)"
      using less.hyps [of "t - l" cp' None "Suc k"] by auto
    then obtain ms where ms: "devget_loop max_linkhdr copy buf (int epkt) pool (Suc k) None (int cp') (int (t - l)) = Some (Some ms)"
      "list_all pmbuf_ok ms" "chain_bytes ms = ring_bytes (take epkt buf) cp' (t - l)" "cp' + (t - l) = epkt \<longrightarrow> straddle_ok ms" by blast
    have "take l (drop cp buf) = take l (drop cp (take epkt buf))" using l(2) by (simp add: drop_take)
    then have "chain_bytes (n # ms) = ring_bytes (take epkt buf) cp t"
      using ring_bytes_step [of cp "take epkt buf" l t] n(4) ms(3) l less.prems e by (simp add: cp'_def min_absorb2)
    moreover have "straddle_ok (n # ms)" if "cp + t = epkt"
    proof (cases "l = t")
      case whole: True
      then have "ms = []" using ms(1) by (subst (asm) devget_loop.simps) simp
      then show ?thesis using n(3) whole True by simp
    next
      case False
      then have "l = MCLBYTES" "cp' = cp + l" using that by (auto simp: l_def cp'_def)
      then show ?thesis using ms(4) n(3) l(1) that by (cases ms) (auto simp: MCLBYTES_def)
    qed
    ultimately show ?thesis using n(1,2,5) ms(1,2) by auto
  qed
qed

lemma m_devget_done:
  assumes pool: "pool_clusters pool" and copy: "copies copy" and len: "totlen \<le> length buf" "totlen < 2 ^ 31"
    and off: "off = 0 \<and> 0 < totlen \<or> off + 4 \<le> totlen \<and> 4 < totlen"
  shows "\<exists>ms. m_devget max_linkhdr pool buf (int totlen) (int off) ifp copy = Some ms \<and> ms \<noteq> [] \<and> list_all pmbuf_ok ms
    \<and> chain_bytes ms = (if off = 0 then take totlen buf else drop (off + 4) (take totlen buf) @ take off buf)
    \<and> M_PKTHDR \<in> m_flags (hd ms) \<and> m_pkthdr (hd ms) = \<lparr>ph_len = int (length (chain_bytes ms)), ph_rest = ifp\<rparr>
    \<and> (off = 0 \<longrightarrow> straddle_ok ms)"
proof -
  obtain raw b where blk: "pool 0 = Some (raw, Some b)" "length (m_area raw) = MLEN" "length b = MCLBYTES"
    using pool_clusters_block [OF pool] by blast
  define t where "t = (if off \<noteq> 0 then totlen - 4 else totlen)"
  define cp where "cp = (if off \<noteq> 0 then off + 4 else 0)"
  define m where "m = (m_gethdr raw)\<lparr>m_pkthdr := \<lparr>ph_len = int t, ph_rest = ifp\<rparr>, m_len := MHLEN\<rparr>"
  have m: "fresh_for True m" using blk(2) by (simp add: fresh_for_def m_def m_gethdr_def)
  have t: "0 < t" "cp \<le> totlen" "t \<le> 2 * totlen - cp" "t < 2 ^ 31" using off len by (auto simp: t_def cp_def)
  obtain ms where ms: "devget_loop max_linkhdr copy buf (int totlen) pool 0 (Some (m, Some b)) (int cp) (int t) = Some (Some ms)" "list_all pmbuf_ok ms"
    "chain_bytes ms = ring_bytes (take totlen buf) cp t" "ms \<noteq> []" "M_PKTHDR \<in> m_flags (hd ms)" "m_pkthdr (hd ms) = m_pkthdr m" "cp + t = totlen \<longrightarrow> straddle_ok ms"
    using devget_loop_correct [OF pool copy len t(2-4), of "Some (m, Some b)" max_linkhdr 0] m blk(3) t(1) by auto
  have c: "(if int off \<noteq> 0 then int totlen - 4 else int totlen) = int t" "(if int off \<noteq> 0 then int off + 4 else 0) = int cp"
    using off by (auto simp: t_def cp_def)
  have "m_devget max_linkhdr pool buf (int totlen) (int off) ifp copy = Some ms"
    unfolding m_devget_def Let_def c using blk(1) ms(1) by (simp add: m_def)
  moreover have "chain_bytes ms = (if off = 0 then take totlen buf else drop (off + 4) (take totlen buf) @ take off buf)"
    using off len by (auto simp: ms(3) ring_bytes_def t_def cp_def min_def)
  moreover have "length (chain_bytes ms) = t" using t len by (auto simp: ms(3) ring_bytes_def min_def)
  moreover have "off = 0 \<Longrightarrow> straddle_ok ms" using ms(7) by (simp add: t_def cp_def)
  ultimately show ?thesis using ms by (simp add: m_def)
qed

text \<open>
  C22. \<^verbatim>\<open>m_devget\<close> copies a packet from device memory into a chain with a packet header that has its length: all of it in
  order, or, for a packet with trailer encapsulation, the part behind the trailer header and then the part in front of it. The
  loop always ends. This holds as long as the pool has mbufs and clusters (\<open>m_devget_without_cluster\<close>), the copy function of the driver
  copies, the packet has fewer than \<open>2 ^ 31\<close> bytes, and the trailer header of four bytes lies inside the packet.
\<close>

theorem m_devget_correct:
  assumes "pool_clusters pool" and "copies copy" and "totlen \<le> length buf" and "totlen < 2 ^ 31"
    and "off = 0 \<and> 0 < totlen \<or> off + 4 \<le> totlen \<and> 4 < totlen"
  shows "\<exists>ms. m_devget max_linkhdr pool buf (int totlen) (int off) ifp copy = Some ms \<and> ms \<noteq> [] \<and> list_all pmbuf_ok ms
    \<and> chain_bytes ms = (if off = 0 then take totlen buf else drop (off + 4) (take totlen buf) @ take off buf)
    \<and> M_PKTHDR \<in> m_flags (hd ms) \<and> m_pkthdr (hd ms) = \<lparr>ph_len = int (length (chain_bytes ms)), ph_rest = ifp\<rparr>"
  using m_devget_done [OF assms] by blast

definition cluster_pool :: pool where
  "cluster_pool k = Some (stale_block, Some (replicate 2048 7))"

theorem m_devget_correct_witness:
  "\<exists>ms. m_devget 16 cluster_pool [1, 2, 3, 4, 5, 6, 7, 8, 9, 10] 10 3 0 (Some id) = Some ms \<and> chain_bytes ms = [8, 9, 10, 1, 2, 3] \<and> hdr_len ms = 6"
proof -
  have "pool_clusters cluster_pool"
    by (simp add: pool_clusters_def pool_full_def pool_ok_def cluster_pool_def stale_block_def MCLBYTES_def)
  moreover have "copies (Some id)" by (simp add: copies_def)
  ultimately show ?thesis
    using m_devget_correct [of cluster_pool "Some id" 10 "[1, 2, 3, 4, 5, 6, 7, 8, 9, 10]" 3 16 0] by (auto simp: hdr_len_def)
qed

text \<open>
  When there is no cluster for a later mbuf and between 169 and 223 bytes are left, \<^verbatim>\<open>m_devget\<close> takes 224 bytes: it reads past
  the end of the packet, and the chain is longer than its header says.
\<close>

lemma m_devget_without_cluster:
  assumes "pool 0 = Some (raw0, None)" and "pool 1 = Some (raw1, None)" and "length (m_area raw0) = MLEN" and "length (m_area raw1) = MLEN"
    and t: "336 < totlen" "totlen < 392" and buf: "392 \<le> length buf"
  shows "\<exists>ms. m_devget max_linkhdr pool buf (int totlen) 0 ifp None = Some ms \<and> chain_bytes ms = take 392 buf \<and> hdr_len ms = int totlen"
proof -
  define m0 where "m0 = (m_gethdr raw0)\<lparr>m_pkthdr := \<lparr>ph_len = int totlen, ph_rest = ifp\<rparr>, m_len := MHLEN\<rparr>"
  define m1 where "m1 = (m_get raw1)\<lparr>m_len := MLEN\<rparr>"
  have u: "umin (int totlen) (int totlen - 0) = int totlen" "umin (int totlen - 168) (int totlen - 168) = int totlen - 168" using t by (simp_all add: umin_def)
  have p: "devget_place max_linkhdr None f n m = m" if "169 \<le> n" "M_EXT \<notin> m_flags m" for f n m using that by (simp add: devget_place_def m_clget_def MINCLSIZE_def)
  obtain n0 where n0: "m_write 0 (take 168 buf) m0 = Some n0" "m_bytes n0 = take 168 buf" "m_pkthdr n0 = m_pkthdr m0"
    using m_write_start [of m0 "take 168 buf"] assms by (auto simp: m0_def m_gethdr_def)
  obtain n1 where n1: "m_write 0 (take 224 (drop 168 buf)) m1 = Some n1" "m_bytes n1 = take 224 (drop 168 buf)"
    using m_write_start [of m1 "take 224 (drop 168 buf)"] assms by (auto simp: m1_def m_get_def)
  have ext: "M_EXT \<notin> m_flags m0" "M_EXT \<notin> m_flags m1" by (simp_all add: m0_def m1_def m_gethdr_def m_get_def)
  have len: "m_len m0 = 168" "m_len m1 = 224" by (simp_all add: m0_def m1_def)
  have rd: "devget_read None buf 0 168 = Some (take 168 buf)" "devget_read None buf 168 224 = Some (take 224 (drop 168 buf))"
    using buf by (simp_all add: devget_read_def)
  have pl: "devget_place max_linkhdr None True (nat (int totlen)) m0 = m0" "devget_place max_linkhdr None False (nat (int totlen - 168)) m1 = m1"
    using p ext t by simp_all
  have "devget_loop max_linkhdr None buf (int totlen) pool 2 None 392 (int totlen - 392) = Some (Some [])"
    using t by (subst devget_loop.simps) simp
  then have "devget_loop max_linkhdr None buf (int totlen) pool 1 None 168 (int totlen - 168) = Some (Some [n1])"
    using assms(2) t n1(1) u(2) pl(2) rd(2) len(2) m1_def by (subst devget_loop.simps) (simp add: Let_def numeral_2_eq_2)
  then have "devget_loop max_linkhdr None buf (int totlen) pool 0 (Some (m0, None)) 0 (int totlen) = Some (Some [n0, n1])"
    using t n0(1) u(1) pl(1) rd(1) len(1) by (subst devget_loop.simps) (simp add: Let_def)
  then have "m_devget max_linkhdr pool buf (int totlen) 0 ifp None = Some [n0, n1]"
    using assms(1) by (simp add: m_devget_def m0_def)
  moreover have "chain_bytes [n0, n1] = take 392 buf" using n0(2) n1(2) take_add [of 168 224 buf] by simp
  ultimately show ?thesis using n0(3) by (auto simp: hdr_len_def m0_def)
qed

section \<open>Clearing\<close>

text \<open>\<^verbatim>\<open>m_zero\<close> clears the storage of every mbuf of a chain that may be written to and keeps its shape.\<close>

lemma m_zero_correct:
  assumes "list_all pmbuf_ok ms" and "list_all (\<lambda>m. \<not> M_READONLY m) ms"
  shows "\<exists>ms'. m_zero ms = Some ms' \<and> list_all pmbuf_ok ms' \<and> map m_len ms' = map m_len ms \<and> map m_flags ms' = map m_flags ms
    \<and> chain_bytes ms' = replicate (length (chain_bytes ms)) 0"
  using assms
proof (induction ms)
  case (Cons m ms)
  then obtain ms' where ms: "m_zero ms = Some ms'" "list_all pmbuf_ok ms'" "map m_len ms' = map m_len ms" "map m_flags ms' = map m_flags ms"
    "chain_bytes ms' = replicate (length (chain_bytes ms)) 0" by auto
  have m: "pmbuf_ok m" "mbuf_ok m" using Cons.prems by (auto simp: pmbuf_ok_mbuf)
  have "pmbuf_ok (zero_one m)" using m by (auto simp: zero_one_def pmbuf_ok_def mbuf_ok_def)
  moreover have "m_bytes (zero_one m) = replicate (m_len m) 0"
    using m by (auto simp: zero_one_def pmbuf_ok_def mbuf_ok_def m_bytes_def drop_append)
  moreover have "m_len (zero_one m) = m_len m" "m_flags (zero_one m) = m_flags m" by (simp_all add: zero_one_def)
  ultimately show ?case using Cons.prems ms m by (auto simp: replicate_add)
qed simp
end
