(* ===== verification/Mbuf_Pulldown.thy ===== *)
theory Mbuf_Pulldown
  imports Mbuf_Copy
begin

text \<open>
  \<^verbatim>\<open>m_pulldown\<close> and \<^verbatim>\<open>m_dup1\<close> (\<^verbatim>\<open>src/sys/kern/uipc_mbuf2.c\<close>): bytes from the middle of a chain made contiguous. A block of memory from the pool is
  the mbuf and the cluster for it, if there is one; a fault is \<open>None\<close>.
\<close>

section \<open>Definitions\<close>

text \<open>\<open>m\<close> is the chain from the mbuf to copy from on; the inner \<open>None\<close> is the null pointer.\<close>

definition m_dup1 :: "(pmbuf \<times> u8 list option) option \<Rightarrow> pmbuf list \<Rightarrow> int \<Rightarrow> int \<Rightarrow> pmbuf option option" where
  "m_dup1 blk ms off len =
     (case ms of [] \<Rightarrow> None
      | m # r \<Rightarrow>
          if len > int MCLBYTES then Some None
          else case blk of None \<Rightarrow> Some None
            | Some (raw, cl) \<Rightarrow>
                let hdr = (off = 0 \<and> M_PKTHDR \<in> m_flags m);
                    n = (if hdr then M_DUP_PKTHDR (m_gethdr raw) m else m_get raw);
                    l = (if hdr then MHLEN else MLEN);
                    n = (if len > int l then m_clget cl n else n)
                in if len > int l \<and> M_EXT \<notin> m_flags n then Some None
                   else
                     Option.bind (m_copydata (m # r) off len) (\<lambda>bs.
                       map_option (\<lambda>n. Some (n\<lparr>m_len := nat len\<rparr>)) (m_write 0 bs n)))"

text \<open>The walk to the mbuf with byte \<open>off\<close>, and over empty mbufs: the mbufs before it, the rest of the chain, the offset.\<close>

fun pd_seek :: "pmbuf list \<Rightarrow> int \<Rightarrow> pmbuf list \<times> pmbuf list \<times> int" where
  "pd_seek [] off = ([], [], off)"
| "pd_seek (n # r) off =
     (if off > 0 \<and> \<not> int (m_len n) > off then let (p, s, l) = pd_seek r (off - int (m_len n)) in (n # p, s, l) else ([], n # r, off))"

definition pd_find :: "pmbuf list \<Rightarrow> int \<Rightarrow> pmbuf list \<times> pmbuf list \<times> int" where
  "pd_find ms off =
     (let (p, s, off) = pd_seek ms off in (p @ takeWhile (\<lambda>n. m_len n = 0) s, dropWhile (\<lambda>n. m_len n = 0) s, off))"

text \<open>The result: the mbufs before the one returned, the chain from it on, and the offset; or the null pointer with the chain freed.\<close>

datatype pd_result = PdOk "pmbuf list" "pmbuf list" int | PdFreed

text \<open>The mbuf \<open>n\<close> is cut at \<open>off\<close>, as its data may not be written to or have to start at the front of an mbuf.\<close>

definition pd_chop :: "(pmbuf \<times> u8 list option) option \<Rightarrow> pmbuf list \<Rightarrow> pmbuf \<Rightarrow> pmbuf list \<Rightarrow> int \<Rightarrow> pd_result option" where
  "pd_chop blk p n r off =
     map_option (\<lambda>res. case res of None \<Rightarrow> PdFreed | Some d \<Rightarrow> PdOk (p @ [n\<lparr>m_len := nat off\<rparr>]) (d # r) 0)
       (m_dup1 blk (n # r) off (int (m_len n) - off))"

text \<open>The three ways to collect \<open>hlen\<close> bytes from the end of \<open>n\<close> and \<open>tlen\<close> bytes from behind it.\<close>

definition pd_append :: "pmbuf list \<Rightarrow> pmbuf \<Rightarrow> pmbuf list \<Rightarrow> int \<Rightarrow> int \<Rightarrow> pd_result option" where
  "pd_append p n r off tlen =
     Option.bind (m_copydata r 0 tlen) (\<lambda>bs.
       Option.bind (m_write (m_len n) bs n) (\<lambda>n'.
         map_option (\<lambda>r'. PdOk p (n'\<lparr>m_len := m_len n' + nat tlen\<rparr> # r') off) (m_adj r tlen)))"

definition pd_front :: "pmbuf list \<Rightarrow> pmbuf \<Rightarrow> pmbuf list \<Rightarrow> nat \<Rightarrow> nat \<Rightarrow> pd_result option" where
  "pd_front p n r off hlen =
     (case r of [] \<Rightarrow> None
      | n2 # r2 \<Rightarrow>
          map_option (\<lambda>n2. PdOk (p @ [n\<lparr>m_len := m_len n - hlen\<rparr>]) (n2 # r2) 0)
            (m_write 0 (m_piece n off hlen) (n2\<lparr>m_data := m_data n2 - hlen, m_len := m_len n2 + hlen\<rparr>)))"

definition pd_fresh :: "(pmbuf \<times> u8 list option) option \<Rightarrow> pmbuf list \<Rightarrow> pmbuf \<Rightarrow> pmbuf list \<Rightarrow> nat \<Rightarrow> nat \<Rightarrow> int \<Rightarrow> int \<Rightarrow> pd_result option" where
  "pd_fresh blk p n r off hlen tlen len =
     (case blk of None \<Rightarrow> Some PdFreed
      | Some (raw, cl) \<Rightarrow>
          let fr = (if len > int MLEN then m_clget cl (m_get raw) else m_get raw)
          in if len > int MLEN \<and> M_EXT \<notin> m_flags fr then Some PdFreed
             else
               Option.bind (m_write 0 (m_piece n off hlen) (fr\<lparr>m_len := hlen\<rparr>)) (\<lambda>fr.
                 Option.bind (m_copydata r 0 tlen) (\<lambda>bs.
                   Option.bind (m_write (m_len fr) bs fr) (\<lambda>fr.
                     map_option (\<lambda>r'. PdOk (p @ [n\<lparr>m_len := m_len n - hlen\<rparr>]) (fr\<lparr>m_len := m_len fr + nat tlen\<rparr> # r') 0) (m_adj r tlen)))))"

text \<open>\<open>offp\<close> says whether the caller takes an offset.\<close>

definition m_pulldown :: "(pmbuf \<times> u8 list option) option \<Rightarrow> pmbuf list \<Rightarrow> int \<Rightarrow> int \<Rightarrow> bool \<Rightarrow> pd_result option" where
  "m_pulldown blk m off len offp =
     (if m = [] then None
      else if len > int MCLBYTES then Some PdFreed
      else case pd_find m off of
        (p, [], off) \<Rightarrow> Some PdFreed
      | (p, n # r, off) \<Rightarrow>
          let sharedcluster = M_READONLY n
          in if (off = 0 \<or> offp) \<and> len \<le> int (m_len n) - off \<and> \<not> sharedcluster then Some (PdOk p (n # r) off)
             else if len \<le> int (m_len n) - off then pd_chop blk p n r off
             else
               let hlen = int (m_len n) - off;
                   tlen = len - hlen;
                   olen = int (sum_list (map m_len r))
               in if hlen + olen < len then Some PdFreed
                  else if (off = 0 \<or> offp) \<and> int (m_trailingspace n) \<ge> tlen \<and> \<not> sharedcluster then pd_append p n r off tlen
                  else if (off = 0 \<or> offp) \<and> (case r of [] \<Rightarrow> False | n2 # r2 \<Rightarrow> int (m_leadingspace n2) \<ge> hlen \<and> \<not> sharedcluster \<and> int (m_len n2) \<ge> tlen)
                  then pd_front p n r (nat off) (nat hlen)
                  else pd_fresh blk p n r (nat off) (nat hlen) tlen len)"
section \<open>Finding the place\<close>

lemma pd_seek_spec:
  "chain_ok ms \<Longrightarrow> 0 \<le> off \<Longrightarrow> pd_seek ms off = (p, s, l) \<Longrightarrow>
    ms = p @ s \<and> 0 \<le> l \<and> off = int (length (chain_bytes p)) + l \<and> (l = 0 \<or> s = [] \<or> l < int (m_len (hd s)))"
proof (induction ms arbitrary: off p)
  case (Cons n r)
  show ?case
  proof (cases "off > 0 \<and> \<not> int (m_len n) > off")
    case True
    then obtain p' where "pd_seek r (off - int (m_len n)) = (p', s, l)" "p = n # p'" using Cons.prems(3) by (auto split: prod.splits)
    then show ?thesis using Cons.IH [of "off - int (m_len n)" p'] Cons.prems True by auto
  qed (use Cons.prems in auto)
qed auto

lemma chain_bytes_empty: "(\<And>n. n \<in> set ms \<Longrightarrow> m_len n = 0) \<Longrightarrow> chain_bytes ms = []"
  by (induction ms) (auto simp: m_bytes_def)

lemma pd_find_spec:
  assumes ok: "chain_ok ms" and off: "0 \<le> off" and f: "pd_find ms off = (p, s, l)"
  shows "ms = p @ s" "0 \<le> l" "off = int (length (chain_bytes p)) + l" "s = [] \<or> l < int (m_len (hd s))" "s = [] \<Longrightarrow> int (length (chain_bytes ms)) \<le> off"
proof -
  obtain p' s' where q: "pd_seek ms off = (p', s', l)" and p: "p = p' @ takeWhile (\<lambda>n. m_len n = 0) s'" and s: "s = dropWhile (\<lambda>n. m_len n = 0) s'"
    using f by (auto simp: pd_find_def split: prod.splits)
  note S = pd_seek_spec [OF ok off q]
  have z: "chain_bytes (takeWhile (\<lambda>n. m_len n = 0) s') = []" by (rule chain_bytes_empty) (auto dest: set_takeWhileD)
  show "ms = p @ s" "0 \<le> l" "off = int (length (chain_bytes p)) + l" using S z by (simp_all add: p s)
  show "s = [] \<or> l < int (m_len (hd s))"
  proof (cases "l = 0")
    case True
    have "m_len (hd s) \<noteq> 0" if "s \<noteq> []" using hd_dropWhile [of "\<lambda>n. m_len n = 0" s'] that unfolding s by blast
    then show ?thesis using True by (cases "s = []") simp_all
  next
    case False
    then show ?thesis using S by (cases s') (auto simp: s)
  qed
  then show "s = [] \<Longrightarrow> int (length (chain_bytes ms)) \<le> off" using \<open>ms = p @ s\<close> \<open>off = _\<close> \<open>0 \<le> l\<close> by simp
qed

section \<open>The ways to make data contiguous\<close>

text \<open>What is promised of a result for the chain \<open>ms\<close>.\<close>

definition pd_done :: "pmbuf list \<Rightarrow> int \<Rightarrow> int \<Rightarrow> bool \<Rightarrow> pd_result \<Rightarrow> bool" where
  "pd_done ms off len offp r =
     (case r of PdFreed \<Rightarrow> True
      | PdOk p ns l \<Rightarrow>
          chain_ok (p @ ns) \<and> chain_bytes (p @ ns) = chain_bytes ms \<and> ns \<noteq> [] \<and> 0 \<le> l \<and> l + len \<le> int (m_len (hd ns))
          \<and> off = int (length (chain_bytes p)) + l \<and> (\<not> offp \<longrightarrow> l = 0) \<and> \<not> M_READONLY (hd ns))"

definition blk_ok :: "(pmbuf \<times> u8 list option) option \<Rightarrow> bool" where
  "blk_ok blk \<longleftrightarrow> (\<forall>raw cl. blk = Some (raw, cl) \<longrightarrow> length (m_area raw) = MLEN \<and> (\<forall>buf. cl = Some buf \<longrightarrow> length buf = MCLBYTES))"

text \<open>No mbuf, or no cluster.\<close>

definition blk_short :: "(pmbuf \<times> u8 list option) option \<Rightarrow> bool" where
  "blk_short blk \<longleftrightarrow> blk = None \<or> (\<exists>raw. blk = Some (raw, None))"

text \<open>A fresh mbuf has room for the data.\<close>

definition fresh_room :: "nat \<Rightarrow> pmbuf \<Rightarrow> bool" where
  "fresh_room k n \<longleftrightarrow> m_data n + k \<le> length (m_area n) \<and> \<not> M_READONLY n"

lemma fresh_plain:
  assumes "blk_ok (Some (raw, cl))" and "k \<le> MCLBYTES"
  shows "k \<le> MLEN \<Longrightarrow> fresh_room k (m_get raw)" and "cl = Some buf \<Longrightarrow> fresh_room k (m_clget cl (m_get raw)) \<and> M_EXT \<in> m_flags (m_clget cl (m_get raw))"
  using assms by (auto simp: fresh_room_def blk_ok_def m_get_def m_clget_def M_READONLY_def MCLBYTES_def)

lemma m_write_fresh:
  assumes "fresh_room (length bs) n"
  shows "\<exists>n'. m_write 0 bs n = Some n' \<and> mbuf_ok (n'\<lparr>m_len := length bs\<rparr>) \<and> m_bytes (n'\<lparr>m_len := length bs\<rparr>) = bs \<and> \<not> M_READONLY (n'\<lparr>m_len := k\<rparr>)"
  using assms by (auto simp: fresh_room_def m_write_def Let_def mbuf_ok_def m_bytes_def M_READONLY_def)

lemma m_dup1_spec:
  assumes ok: "chain_ok (m # r)" and off: "0 \<le> off" "off \<le> int (m_len m)" and b: "blk_ok blk"
  defines "len \<equiv> int (m_len m) - off"
  shows "\<exists>res. m_dup1 blk (m # r) off len = Some res \<and> (case res of None \<Rightarrow> int MCLBYTES < len \<or> blk_short blk
    | Some d \<Rightarrow> mbuf_ok d \<and> m_bytes d = drop (nat off) (m_bytes m) \<and> m_len d = m_len m - nat off \<and> \<not> M_READONLY d)"
proof (cases "len > int MCLBYTES \<or> blk = None")
  case True
  then show ?thesis by (auto simp: m_dup1_def blk_short_def)
next
  case False
  then obtain raw cl where blk: "blk = Some (raw, cl)" by auto
  define hdr where "hdr = (off = 0 \<and> M_PKTHDR \<in> m_flags m)"
  define l where "l = (if hdr then MHLEN else MLEN)"
  define n0 where "n0 = (if hdr then M_DUP_PKTHDR (m_gethdr raw) m else m_get raw)"
  define n where "n = (if len > int l then m_clget cl n0 else n0)"
  have area: "length (m_area raw) = 224" "\<And>buf. cl = Some buf \<Longrightarrow> length buf = MCLBYTES" using b by (auto simp: blk_ok_def blk)
  have okm: "mbuf_ok m" using ok by simp
  have "length (m_bytes m) = m_len m" using okm by simp
  then have cd: "m_copydata (m # r) off len = Some (drop (nat off) (m_bytes m))" using copydata_apply(1) [OF ok, of off len] off
    by (simp add: len_def nat_diff_distrib)
  have e: "m_dup1 blk (m # r) off len = (if len > int l \<and> M_EXT \<notin> m_flags n then Some None
      else map_option (\<lambda>n. Some (n\<lparr>m_len := nat len\<rparr>)) (m_write 0 (drop (nat off) (m_bytes m)) n))"
    using False cd unfolding m_dup1_def blk list.case option.case prod.case Let_def hdr_def [symmetric] l_def [symmetric] n0_def [symmetric] n_def [symmetric] by simp
  show ?thesis
  proof (cases "len > int l \<and> M_EXT \<notin> m_flags n")
    case True
    then have "cl = None" by (cases cl) (auto simp: n_def m_clget_def)
    then show ?thesis using e True by (simp add: blk blk_short_def)
  next
    case F: False
    have "fresh_room (nat len) n"
    proof (cases "len > int l")
      case True
      then obtain buf where "cl = Some buf" using F by (cases cl) (auto simp: n_def n0_def m_clget_def M_DUP_PKTHDR_def M_COPYFLAGS_def m_get_def split: if_splits)
      then show ?thesis using True False area by (auto simp: n_def fresh_room_def m_clget_def M_READONLY_def MCLBYTES_def)
    next
      case False
      then show ?thesis using area by (auto simp: n_def n0_def l_def fresh_room_def M_DUP_PKTHDR_def m_gethdr_def m_get_def M_READONLY_def M_COPYFLAGS_def split: if_splits)
    qed
    moreover have nl: "length (drop (nat off) (m_bytes m)) = nat len" using okm off by (simp add: len_def nat_diff_distrib)
    ultimately obtain n' where "m_write 0 (drop (nat off) (m_bytes m)) n = Some n'" "mbuf_ok (n'\<lparr>m_len := nat len\<rparr>)"
        "m_bytes (n'\<lparr>m_len := nat len\<rparr>) = drop (nat off) (m_bytes m)" "\<not> M_READONLY (n'\<lparr>m_len := nat len\<rparr>)"
      using m_write_fresh [of "drop (nat off) (m_bytes m)" n "nat len"] by auto
    then show ?thesis using e F off by (auto simp: len_def nat_diff_distrib)
  qed
qed

lemma m_bytes_cut: "k \<le> m_len n \<Longrightarrow> m_bytes (n\<lparr>m_len := m_len n - k\<rparr>) = take (m_len n - k) (m_bytes n)"
  by (rule m_bytes_shorter) simp

text \<open>The mbuf \<open>n\<close> with byte \<open>off\<close> of its data, and the rest of the chain behind it.\<close>

definition pd_at :: "pmbuf list \<Rightarrow> int \<Rightarrow> pmbuf list \<Rightarrow> pmbuf \<Rightarrow> pmbuf list \<Rightarrow> nat \<Rightarrow> bool" where
  "pd_at ms off p n r k \<longleftrightarrow> ms = p @ n # r \<and> chain_ok ms \<and> k < m_len n \<and> off = int (length (chain_bytes p)) + int k"

lemma pd_chop_done:
  assumes a: "pd_at ms off p n r k" and l: "len \<le> int (m_len n) - int k" and b: "blk_ok blk"
  shows "\<exists>res. pd_chop blk p n r (int k) = Some res \<and> pd_done ms off len offp res \<and> (res = PdFreed \<longrightarrow> blk_short blk \<or> int MCLBYTES < int (m_len n) - int k)"
proof -
  have ms: "ms = p @ n # r" "chain_ok (n # r)" "chain_ok p" "mbuf_ok n" "k < m_len n" and off: "off = int (length (chain_bytes p)) + int k"
    using a by (auto simp: pd_at_def)
  obtain res where d: "m_dup1 blk (n # r) (int k) (int (m_len n) - int k) = Some res"
      "case res of None \<Rightarrow> int MCLBYTES < int (m_len n) - int k \<or> blk_short blk
        | Some d \<Rightarrow> mbuf_ok d \<and> m_bytes d = drop k (m_bytes n) \<and> m_len d = m_len n - k \<and> \<not> M_READONLY d"
    using m_dup1_spec [OF ms(2) _ _ b, of "int k", unfolded nat_int] ms(5) by auto
  show ?thesis
  proof (cases res)
    case None
    then show ?thesis using d by (auto simp: pd_chop_def pd_done_def)
  next
    case (Some m')
    then show ?thesis using d ms off l m_bytes_shorter [of k n] mbuf_ok_shorter [of n k] by (simp add: pd_chop_def pd_done_def)
  qed
qed

lemma copydata_front: "chain_ok r \<Longrightarrow> k \<le> length (chain_bytes r) \<Longrightarrow> m_copydata r 0 (int k) = Some (take k (chain_bytes r))"
  by (simp add: copydata_apply(1))

lemma adj_front:
  assumes "chain_ok r" "r \<noteq> []"
  shows "\<exists>r'. m_adj r (int k) = Some r' \<and> chain_ok r' \<and> chain_bytes r' = drop k (chain_bytes r)"
  using m_adj_bytes [OF assms, of "int k"] by auto

lemma pd_append_done:
  assumes a: "pd_at ms off p n r k" and o: "k = 0 \<or> offp" and t: "t \<le> m_trailingspace n" "t \<le> length (chain_bytes r)" "r \<noteq> []" and s: "\<not> M_READONLY n"
  shows "\<exists>res. pd_append p n r (int k) (int t) = Some res \<and> pd_done ms off (int (m_len n) - int k + int t) offp res \<and> res \<noteq> PdFreed"
proof -
  have ms: "ms = p @ n # r" "chain_ok r" "chain_ok p" "mbuf_ok n" "k < m_len n" and off: "off = int (length (chain_bytes p)) + int k"
    using a by (auto simp: pd_at_def)
  have room: "m_data n + m_len n + length (take t (chain_bytes r)) \<le> length (m_area n)" using t(1,2) s ms(4) by (auto simp: m_trailingspace_def mbuf_ok_def)
  obtain n' where n': "m_write (m_len n) (take t (chain_bytes r)) n = Some n'" "m_len n' = m_len n" "m_data n' = m_data n" "m_flags n' = m_flags n" "m_refd n' = m_refd n"
      "length (m_area n') = length (m_area n)" "m_bytes (n'\<lparr>m_len := m_len n + length (take t (chain_bytes r))\<rparr>) = m_bytes n @ take t (chain_bytes r)"
    using m_write_end [OF ms(4) room] by blast
  obtain r' where r': "m_adj r (int t) = Some r'" "chain_ok r'" "chain_bytes r' = drop t (chain_bytes r)" using adj_front [OF ms(2) t(3)] by blast
  have "mbuf_ok (n'\<lparr>m_len := m_len n + t\<rparr>)" using n' room t(2) by (simp add: mbuf_ok_def)
  moreover have "m_bytes (n'\<lparr>m_len := m_len n + t\<rparr>) = m_bytes n @ take t (chain_bytes r)" using n'(7) t(2) by (simp add: min_absorb2)
  moreover have "\<not> M_READONLY (n'\<lparr>m_len := m_len n + t\<rparr>)" using s n' by (simp add: M_READONLY_def)
  ultimately show ?thesis using copydata_front [OF ms(2) t(2)] n'(1,2) r' ms off o by (auto simp: pd_append_def pd_done_def)
qed

lemma leading_room: "int h \<le> int (m_leadingspace n) \<Longrightarrow> 0 < h \<Longrightarrow> h \<le> m_data n \<and> \<not> M_READONLY n"
  by (auto simp: m_leadingspace_def split: if_splits)

lemma pd_front_done:
  assumes a: "pd_at ms off p n (n2 # r2) k" and h: "h = m_len n - k" "int h \<le> int (m_leadingspace n2)" and t: "len - int h \<le> int (m_len n2)"
  shows "\<exists>res. pd_front p n (n2 # r2) k h = Some res \<and> pd_done ms off len offp res \<and> res \<noteq> PdFreed"
proof -
  have ms: "ms = p @ n # n2 # r2" "chain_ok r2" "chain_ok p" "mbuf_ok n" "mbuf_ok n2" "k < m_len n" and off: "off = int (length (chain_bytes p)) + int k"
    using a by (auto simp: pd_at_def)
  have h0: "0 < h" "m_len n - h = k" using h(1) ms(6) by auto
  note L = leading_room [OF h(2) h0(1)]
  have bs: "m_piece n k h = drop k (m_bytes n)" using m_piece_bytes [of h k n] h(1) ms(4,6) by simp
  have lb: "length (drop k (m_bytes n)) = h" using ms(4) h(1) by simp
  define m2 where "m2 = n2\<lparr>m_data := m_data n2 - h, m_len := m_len n2 + h\<rparr>"
  define m2' where "m2' = m2\<lparr>m_area := take (m_data n2 - h) (m_area n2) @ drop k (m_bytes n) @ drop (m_data n2) (m_area n2)\<rparr>"
  have w: "m_write 0 (drop k (m_bytes n)) m2 = Some m2'" using ms(5) L unfolding m_write_def Let_def lb by (simp add: m2_def m2'_def mbuf_ok_def)
  have "m_bytes m2' = drop k (m_bytes n) @ m_bytes n2" "mbuf_ok m2'" "m_len m2' = m_len n2 + h" "\<not> M_READONLY m2'"
    using ms(5) L lb by (auto simp: m_bytes_def m2'_def m2_def mbuf_ok_def M_READONLY_def)
  then show ?thesis using w ms off h0 t lb m_bytes_shorter [of k n] mbuf_ok_shorter [of n k] by (simp add: pd_front_def pd_done_def bs m2_def [symmetric])
qed

lemma pd_fresh_done:
  assumes a: "pd_at ms off p n r k" and h: "h = m_len n - k" and t: "t \<le> length (chain_bytes r)" "r \<noteq> []" and len: "len = int h + int t" "len \<le> int MCLBYTES" and b: "blk_ok blk"
  shows "\<exists>res. pd_fresh blk p n r k h (int t) len = Some res \<and> pd_done ms off len offp res \<and> (res = PdFreed \<longrightarrow> blk_short blk)"
proof (cases blk)
  case None
  then show ?thesis by (simp add: pd_fresh_def pd_done_def blk_short_def)
next
  case (Some rc)
  obtain raw cl where blk: "blk = Some (raw, cl)" using Some by (cases rc) auto
  have ms: "ms = p @ n # r" "chain_ok r" "chain_ok p" "mbuf_ok n" "k < m_len n" and off: "off = int (length (chain_bytes p)) + int k"
    using a by (auto simp: pd_at_def)
  define fr where "fr = (if len > int MLEN then m_clget cl (m_get raw) else m_get raw)"
  have h0: "m_len n - h = k" "h \<le> m_len n" using h ms(5) by auto
  have bs: "m_piece n k h = drop k (m_bytes n)" using m_piece_bytes [of h k n] h ms(4,5) by simp
  have lb: "length (drop k (m_bytes n)) = h" using ms(4) h by simp
  show ?thesis
  proof (cases "len > int MLEN \<and> M_EXT \<notin> m_flags fr")
    case True
    then have "cl = None" by (cases cl) (auto simp: fr_def m_clget_def)
    then have "pd_fresh blk p n r k h (int t) len = Some PdFreed" using True unfolding pd_fresh_def blk option.case prod.case Let_def fr_def [symmetric] by simp
    then show ?thesis using \<open>cl = None\<close> by (simp add: blk pd_done_def blk_short_def)
  next
    case False
    have "fresh_room (h + t) fr"
    proof (cases "len > int MLEN")
      case True
      then obtain buf where "cl = Some buf" using False by (cases cl) (auto simp: fr_def m_clget_def m_get_def)
      then show ?thesis using True fresh_plain(2) [OF b [unfolded blk], of "h + t"] len by (auto simp: fr_def)
    next
      case F: False
      then show ?thesis using fresh_plain(1) [OF b [unfolded blk], of "h + t"] len by (auto simp: fr_def)
    qed
    then have F: "m_data fr + (h + t) \<le> length (m_area fr)" "\<not> M_READONLY fr" by (auto simp: fresh_room_def)
    obtain f1 where f1: "m_write 0 (drop k (m_bytes n)) (fr\<lparr>m_len := h\<rparr>) = Some f1" "m_bytes f1 = drop k (m_bytes n)" "mbuf_ok f1" "m_len f1 = h" "m_data f1 = m_data fr"
        "m_flags f1 = m_flags fr" "m_refd f1 = m_refd fr" "length (m_area f1) = length (m_area fr)"
      using m_write_start [of "fr\<lparr>m_len := h\<rparr>" "drop k (m_bytes n)"] F(1) lb by auto
    have room: "m_data f1 + m_len f1 + length (take t (chain_bytes r)) \<le> length (m_area f1)" using F(1) f1 by simp
    obtain f2 where f2: "m_write (m_len f1) (take t (chain_bytes r)) f1 = Some f2" "m_len f2 = m_len f1" "m_data f2 = m_data f1" "m_flags f2 = m_flags f1" "m_refd f2 = m_refd f1"
        "length (m_area f2) = length (m_area f1)" "m_bytes (f2\<lparr>m_len := m_len f1 + length (take t (chain_bytes r))\<rparr>) = m_bytes f1 @ take t (chain_bytes r)"
      using m_write_end [OF f1(3) room] by blast
    obtain r' where r': "m_adj r (int t) = Some r'" "chain_ok r'" "chain_bytes r' = drop t (chain_bytes r)" using adj_front [OF ms(2) t(2)] by blast
    have "mbuf_ok (f2\<lparr>m_len := h + t\<rparr>)" "\<not> M_READONLY (f2\<lparr>m_len := h + t\<rparr>)" using F f1 f2 by (simp_all add: mbuf_ok_def M_READONLY_def)
    moreover have "m_bytes (f2\<lparr>m_len := h + t\<rparr>) = drop k (m_bytes n) @ take t (chain_bytes r)" using f2(7) f1(2,4) t(1) by (simp add: min_absorb2)
    moreover have "pd_fresh blk p n r k h (int t) len = Some (PdOk (p @ [n\<lparr>m_len := k\<rparr>]) (f2\<lparr>m_len := h + t\<rparr> # r') 0)"
      using False f1(1,4) f2(1,2) r'(1) copydata_front [OF ms(2) t(1)] h0 unfolding pd_fresh_def blk option.case prod.case Let_def fr_def [symmetric] bs by simp
    ultimately show ?thesis using ms off len(1) r' h0 m_bytes_shorter [of k n] mbuf_ok_shorter [of n k] by (simp add: pd_done_def)
  qed
qed

section \<open>The function\<close>

text \<open>
  The reasons to free the chain. The last two need the mbuf \<open>n\<close> with the first requested byte, \<open>k\<close> bytes into it: a copy is needed because the data is not at the right
  place in storage that may be written to, and there is no memory for it; or all requested bytes are in \<open>n\<close> but the copy would take all the rest of \<open>n\<close>, which is more than a cluster.
\<close>

definition pd_inplace :: "pmbuf \<Rightarrow> nat \<Rightarrow> bool \<Rightarrow> bool" where
  "pd_inplace n k offp \<longleftrightarrow> (k = 0 \<or> offp) \<and> \<not> M_READONLY n"

definition pd_fails :: "(pmbuf \<times> u8 list option) option \<Rightarrow> pmbuf list \<Rightarrow> int \<Rightarrow> int \<Rightarrow> bool \<Rightarrow> bool" where
  "pd_fails blk ms off len offp \<longleftrightarrow> int MCLBYTES < len \<or> int (length (chain_bytes ms)) \<le> off \<or> int (length (chain_bytes ms)) < off + len
     \<or> (\<exists>p n r k. pd_at ms off p n r k \<and> \<not> (pd_inplace n k offp \<and> len \<le> int (m_len n) - int k)
          \<and> (blk_short blk \<or> len \<le> int (m_len n) - int k \<and> int MCLBYTES < int (m_len n) - int k))"

lemma m_pulldown_done:
  assumes ok: "chain_ok ms" and ne: "ms \<noteq> []" and off: "0 \<le> off" and b: "blk_ok blk"
  shows "\<exists>res. m_pulldown blk ms off len offp = Some res \<and> pd_done ms off len offp res \<and> (res = PdFreed \<longrightarrow> pd_fails blk ms off len offp)"
proof (cases "len > int MCLBYTES")
  case True
  then show ?thesis using ne by (simp add: m_pulldown_def pd_done_def pd_fails_def)
next
  case len: False
  obtain p s l where f: "pd_find ms off = (p, s, l)" by (cases "pd_find ms off")
  note S = pd_find_spec [OF ok off f]
  show ?thesis
  proof (cases s)
    case Nil
    then show ?thesis using ne len f S(5) by (simp add: m_pulldown_def pd_done_def pd_fails_def)
  next
    case (Cons n r)
    define k where "k = nat l"
    have k: "l = int k" using S(2) by (simp add: k_def)
    have a: "pd_at ms off p n r k" using S ok by (simp add: pd_at_def k Cons)
    have kn: "k < m_len n" and okr: "chain_ok r" "mbuf_ok n" using a by (auto simp: pd_at_def)
    have T: "length (chain_bytes ms) = length (chain_bytes p) + m_len n + length (chain_bytes r)" using S(1) okr by (simp add: Cons)
    have sum: "sum_list (map m_len r) = length (chain_bytes r)" using length_chain_bytes [OF okr(1)] by simp
    define h where "h = m_len n - k"
    define t where "t = nat (len - int h)"
    have h: "int (m_len n) - int k = int h" using kn by (simp add: h_def of_nat_diff)
    have e: "m_pulldown blk ms off len offp =
      (if (k = 0 \<or> offp) \<and> len \<le> int h \<and> \<not> M_READONLY n then Some (PdOk p (n # r) (int k))
       else if len \<le> int h then pd_chop blk p n r (int k)
       else if int h + int (length (chain_bytes r)) < len then Some PdFreed
       else if (k = 0 \<or> offp) \<and> int (m_trailingspace n) \<ge> len - int h \<and> \<not> M_READONLY n then pd_append p n r (int k) (len - int h)
       else if (k = 0 \<or> offp) \<and> (case r of [] \<Rightarrow> False | n2 # r2 \<Rightarrow> int (m_leadingspace n2) \<ge> int h \<and> \<not> M_READONLY n \<and> int (m_len n2) \<ge> len - int h) then pd_front p n r k h
       else pd_fresh blk p n r k h (len - int h) len)"
      using ne len unfolding m_pulldown_def f prod.case Cons list.case Let_def k h sum by (simp only: if_False of_nat_eq_0_iff nat_int)
    consider (here) "k = 0 \<or> offp" "len \<le> int h" "\<not> M_READONLY n" | (chop) "\<not> ((k = 0 \<or> offp) \<and> \<not> M_READONLY n)" "len \<le> int h"
      | (short) "int h < len" "int h + int (length (chain_bytes r)) < len" | (long) "int h < len" "len \<le> int h + int (length (chain_bytes r))" by linarith
    then show ?thesis
    proof cases
      case here
      then have "pd_done ms off len offp (PdOk p (n # r) (int k))" using a h by (auto simp: pd_done_def pd_at_def)
      then show ?thesis using here e by auto
    next
      case chop
      then have "m_pulldown blk ms off len offp = pd_chop blk p n r (int k)" using e by auto
      moreover have "pd_fails blk ms off len offp" if "int MCLBYTES < int h \<or> blk_short blk"
      proof -
        have "\<not> pd_inplace n k offp" using chop(1) by (simp add: pd_inplace_def)
        then show ?thesis unfolding pd_fails_def h using a that chop(2) h by metis
      qed
      ultimately show ?thesis using pd_chop_done [OF a chop(2) [folded h] b, of offp] unfolding h by metis
    next
      case short
      then have "m_pulldown blk ms off len offp = Some PdFreed" using e by simp
      moreover have "int (length (chain_bytes ms)) < off + len" using short a T h by (auto simp: pd_at_def)
      then have "pd_fails blk ms off len offp" by (simp add: pd_fails_def)
      ultimately show ?thesis by (simp add: pd_done_def)
    next
      case long
      have t: "len - int h = int t" "len = int h + int t" "t \<le> length (chain_bytes r)" "0 < t" using long by (auto simp: t_def)
      have r: "r \<noteq> []" using t(3,4) by auto
      have nl: "\<not> len \<le> int h" "\<not> int h + int (length (chain_bytes r)) < len" using long by auto
      have e2: "m_pulldown blk ms off len offp =
          (if (k = 0 \<or> offp) \<and> int (m_trailingspace n) \<ge> int t \<and> \<not> M_READONLY n then pd_append p n r (int k) (int t)
           else if (k = 0 \<or> offp) \<and> (case r of [] \<Rightarrow> False | n2 # r2 \<Rightarrow> int (m_leadingspace n2) \<ge> int h \<and> \<not> M_READONLY n \<and> int (m_len n2) \<ge> int t) then pd_front p n r k h
           else pd_fresh blk p n r k h (int t) len)"
        unfolding e t(1) using nl by (simp only: if_False simp_thms)
      show ?thesis
      proof (cases "(k = 0 \<or> offp) \<and> int (m_trailingspace n) \<ge> int t \<and> \<not> M_READONLY n")
        case True
        then show ?thesis using e2 pd_append_done [OF a _ _ t(3) r, of offp] by (auto simp: h t(2))
      next
        case nt: False
        show ?thesis
        proof (cases "(k = 0 \<or> offp) \<and> (case r of [] \<Rightarrow> False | n2 # r2 \<Rightarrow> int (m_leadingspace n2) \<ge> int h \<and> \<not> M_READONLY n \<and> int (m_len n2) \<ge> int t)")
          case True
          then obtain n2 r2 where "r = n2 # r2" "int h \<le> int (m_leadingspace n2)" "int t \<le> int (m_len n2)" by (cases r) auto
          then show ?thesis using e2 nt True pd_front_done [of ms off p n n2 r2 k h len offp] a by (auto simp: h_def t(2))
        next
          case False
          have "m_pulldown blk ms off len offp = pd_fresh blk p n r k h (int t) len" unfolding e2 if_not_P [OF nt] if_not_P [OF False] by (rule refl)
          moreover have "pd_fails blk ms off len offp" if "blk_short blk" unfolding pd_fails_def using a nl(1) h that by metis
          ultimately show ?thesis using pd_fresh_done [OF a h_def t(3) r t(2) _ b, of offp] len by auto
        qed
      qed
    qed
  qed
qed

text \<open>
  C35. \<^verbatim>\<open>m_pulldown\<close> never faults. When it returns an mbuf, the chain has the bytes it had, the \<open>len\<close> bytes from \<open>off\<close> on lie next to each other in that mbuf
  at the offset returned (at the front, if the caller takes no offset), and its storage may be written to, as no other mbuf refers to it. When it frees
  the chain, the request was larger than a cluster, the chain too short, or the data was not at the right place in writable storage and either there was no memory for a copy or
  the copy, which takes the whole rest of the mbuf with the first requested byte, would be larger than a cluster.
\<close>

theorem m_pulldown_correct:
  assumes "list_all pmbuf_ok ms" and "ms \<noteq> []" and "0 \<le> off" and "0 \<le> len" and "blk_ok blk"
  shows "\<exists>res. m_pulldown blk ms off len offp = Some res \<and> (case res of
      PdOk p ns l \<Rightarrow> chain_bytes (p @ ns) = chain_bytes ms \<and> ns \<noteq> [] \<and> 0 \<le> l \<and> l + len \<le> int (m_len (hd ns)) \<and> (\<not> offp \<longrightarrow> l = 0) \<and> \<not> M_READONLY (hd ns)
        \<and> take (nat len) (drop (nat l) (m_bytes (hd ns))) = take (nat len) (drop (nat off) (chain_bytes ms))
    | PdFreed \<Rightarrow> pd_fails blk ms off len offp)"
proof -
  have ok: "chain_ok ms" using assms(1) by (auto simp: list_all_iff pmbuf_ok_mbuf)
  obtain res where r: "m_pulldown blk ms off len offp = Some res" "pd_done ms off len offp res" "res = PdFreed \<longrightarrow> pd_fails blk ms off len offp"
    using m_pulldown_done [OF ok assms(2,3,5)] by blast
  show ?thesis
  proof (cases res)
    case (PdOk p ns l)
    then have d: "chain_ok (p @ ns)" "chain_bytes (p @ ns) = chain_bytes ms" "ns \<noteq> []" "0 \<le> l" "l + len \<le> int (m_len (hd ns))" "off = int (length (chain_bytes p)) + l"
      "\<not> offp \<longrightarrow> l = 0" "\<not> M_READONLY (hd ns)" using r(2) by (simp_all add: pd_done_def)
    obtain n r' where ns: "ns = n # r'" using d(3) by (cases ns) auto
    have n: "length (m_bytes n) = m_len n" using d(1) ns by simp
    have "nat off = length (chain_bytes p) + nat l" using d(4,6) by simp
    then have "take (nat len) (drop (nat off) (chain_bytes ms)) = take (nat len) (drop (nat l) (m_bytes n))"
      using d(4,5) n by (simp add: d(2) [symmetric] ns)
    then show ?thesis using r(1) d PdOk by (simp add: ns)
  qed (use r in simp)
qed

theorem m_pulldown_correct_witness:
  "\<exists>p n r. m_pulldown None two_mbufs 1 4 True = Some (PdOk p (n # r) 1) \<and> take 4 (drop 1 (m_bytes n)) = [2, 3, 4, 5] \<and> chain_bytes (p @ n # r) = [1, 2, 3, 4, 5, 6, 7]"
proof -
  have b: "blk_ok None" by (simp add: blk_ok_def)
  obtain res where r: "m_pulldown None two_mbufs 1 4 True = Some res" and d: "case res of
      PdOk p ns l \<Rightarrow> chain_bytes (p @ ns) = chain_bytes two_mbufs \<and> ns \<noteq> [] \<and> 0 \<le> l \<and> l + 4 \<le> int (m_len (hd ns)) \<and> (\<not> True \<longrightarrow> l = 0) \<and> \<not> M_READONLY (hd ns)
        \<and> take (nat 4) (drop (nat l) (m_bytes (hd ns))) = take (nat 4) (drop (nat 1) (chain_bytes two_mbufs))
    | PdFreed \<Rightarrow> pd_fails None two_mbufs 1 4 True"
    using m_pulldown_correct [OF two_mbufs_ok(1,2) _ _ b, of 1 4 True] by auto
  have "\<exists>p n r. res = PdOk p (n # r) 1"
    using r by (auto simp: two_mbufs_def m_pulldown_def pd_find_def M_READONLY_def m_trailingspace_def m_leadingspace_def MCLBYTES_def pd_append_def Let_def bind_eq_Some_conv)
  then show ?thesis using r d two_mbufs_ok(4) by (auto simp: eval_nat_numeral)
qed
end
