(* ===== verification/Mbuf_Tag.thy ===== *)
theory Mbuf_Tag
  imports Kern_Prelude
begin

text \<open>
  Packet tags (\<^verbatim>\<open>src/sys/kern/uipc_mbuf2.c\<close>, \<^verbatim>\<open>struct m_tag\<close> in \<^verbatim>\<open>src/sys/sys/mbuf.h\<close>): the tags of a packet are a singly linked list. The memory of the tags is a
  map from addresses, and each mbuf has a pointer to its first tag; freeing takes an address out of the map. The use of a null pointer or of freed memory and a
  walk that never ends are \<open>None\<close>.
\<close>

section \<open>Data\<close>

record m_tag =
  m_tag_link :: "nat option"
  m_tag_id :: u16
  m_tag_len :: u16
  m_tag_data :: "u8 list"

type_synonym tag_heap = "nat \<rightharpoonup> m_tag"

record tag_state =
  tg_heap :: tag_heap
  tg_first :: "nat \<Rightarrow> nat option"

text \<open>\<^verbatim>\<open>malloc\<close>: for a heap and a length an address and a block with whatever it had in it before.\<close>

type_synonym tag_alloc = "tag_heap \<Rightarrow> int \<Rightarrow> (nat \<times> m_tag) option"

section \<open>Operations\<close>

definition set_first :: "nat \<Rightarrow> nat option \<Rightarrow> tag_state \<Rightarrow> tag_state" where
  "set_first m p st = st\<lparr>tg_first := (tg_first st)(m := p)\<rparr>"

definition tag_set :: "nat \<Rightarrow> m_tag \<Rightarrow> tag_state \<Rightarrow> tag_state" where
  "tag_set a t st = st\<lparr>tg_heap := (tg_heap st)(a \<mapsto> t)\<rparr>"

definition tag_free :: "nat \<Rightarrow> tag_state \<Rightarrow> tag_state" where
  "tag_free a st = st\<lparr>tg_heap := (tg_heap st)(a := None)\<rparr>"

definition m_tag_get :: "tag_alloc \<Rightarrow> int \<Rightarrow> int \<Rightarrow> tag_state \<Rightarrow> nat option \<times> tag_state" where
  "m_tag_get alloc type len st =
     (if len < 0 then (None, st)
      else case alloc (tg_heap st) len of
        None \<Rightarrow> (None, st)
      | Some (a, t) \<Rightarrow> (Some a, tag_set a (t\<lparr>m_tag_id := word_of_int type, m_tag_len := word_of_int len\<rparr>) st))"

definition m_tag_prepend :: "nat \<Rightarrow> nat \<Rightarrow> tag_state \<Rightarrow> tag_state option" where
  "m_tag_prepend m a st =
     map_option (\<lambda>t. set_first m (Some a) (tag_set a (t\<lparr>m_tag_link := tg_first st m\<rparr>) st)) (tg_heap st a)"

text \<open>The walk of \<^verbatim>\<open>SLIST_REMOVE\<close> to the element before \<open>a\<close>.\<close>

partial_function (option) remove_walk :: "tag_heap \<Rightarrow> nat \<Rightarrow> nat option \<Rightarrow> (nat \<times> m_tag) option" where
  "remove_walk h a curelm =
     Option.bind curelm (\<lambda>c. Option.bind (h c) (\<lambda>t. if m_tag_link t = Some a then Some (c, t) else remove_walk h a (m_tag_link t)))"

definition m_tag_delete :: "nat \<Rightarrow> nat \<Rightarrow> tag_state \<Rightarrow> tag_state option" where
  "m_tag_delete m a st =
     Option.bind (tg_heap st a) (\<lambda>t.
       if tg_first st m = Some a then Some (tag_free a (set_first m (m_tag_link t) st))
       else map_option (\<lambda>(c, u). tag_free a (tag_set c (u\<lparr>m_tag_link := m_tag_link t\<rparr>) st)) (remove_walk (tg_heap st) a (tg_first st m)))"


text \<open>The loop of \<^verbatim>\<open>m_tag_find\<close>; the inner \<open>None\<close> is the null pointer.\<close>

partial_function (option) find_walk :: "tag_heap \<Rightarrow> int \<Rightarrow> nat option \<Rightarrow> nat option option" where
  "find_walk h type p =
     (case p of None \<Rightarrow> Some None
      | Some a \<Rightarrow> Option.bind (h a) (\<lambda>t. if uint (m_tag_id t) = type then Some (Some a) else find_walk h type (m_tag_link t)))"

definition m_tag_find :: "nat \<Rightarrow> int \<Rightarrow> nat option \<Rightarrow> tag_state \<Rightarrow> nat option option" where
  "m_tag_find m type t st =
     (case t of None \<Rightarrow> find_walk (tg_heap st) type (tg_first st m)
      | Some a \<Rightarrow> Option.bind (tg_heap st a) (\<lambda>t. find_walk (tg_heap st) type (m_tag_link t)))"




definition m_tag_init :: "nat \<Rightarrow> tag_state \<Rightarrow> tag_state" where
  "m_tag_init m st = set_first m None st"

definition m_tag_first :: "nat \<Rightarrow> tag_state \<Rightarrow> nat option" where
  "m_tag_first m st = tg_first st m"

definition m_tag_next :: "nat \<Rightarrow> tag_state \<Rightarrow> nat option option" where
  "m_tag_next a st = map_option m_tag_link (tg_heap st a)"
section \<open>Lists of tags\<close>

named_theorems tag_fields "what an operation does to one field"

lemma state_fields [tag_fields]:
  "tg_heap (set_first m p st) = tg_heap st" "tg_first (set_first m p st) = (tg_first st)(m := p)"
  "tg_heap (tag_set a t st) = (tg_heap st)(a \<mapsto> t)" "tg_first (tag_set a t st) = tg_first st"
  "tg_heap (tag_free a st) = (tg_heap st)(a := None)" "tg_first (tag_free a st) = tg_first st"
  by (simp_all add: set_first_def tag_set_def tag_free_def)

text \<open>The links from \<open>p\<close> to \<open>q\<close> go through these addresses.\<close>

fun seg :: "tag_heap \<Rightarrow> nat option \<Rightarrow> nat list \<Rightarrow> nat option \<Rightarrow> bool" where
  "seg h p [] q = (p = q)"
| "seg h p (a # as) q = (p = Some a \<and> (case h a of None \<Rightarrow> False | Some t \<Rightarrow> seg h (m_tag_link t) as q))"

lemma seg_cong: "(\<And>a. a \<in> set as \<Longrightarrow> h' a = h a) \<Longrightarrow> seg h' p as q = seg h p as q"
  by (induction as arbitrary: p) (auto split: option.splits)

lemma seg_upd [simp]: "a \<notin> set as \<Longrightarrow> seg (h(a := x)) p as q = seg h p as q"
  by (rule seg_cong) auto

lemma seg_append: "seg h p (xs @ ys) q \<longleftrightarrow> (\<exists>r. seg h p xs r \<and> seg h r ys q)"
  by (induction xs arbitrary: p) (auto split: option.splits)

lemma seg_dom: "seg h p as q \<Longrightarrow> set as \<subseteq> dom h"
  by (induction as arbitrary: p) (auto split: option.splits)

lemma seg_unique: "seg h p as None \<Longrightarrow> seg h p bs None \<Longrightarrow> as = bs"
proof (induction as arbitrary: p bs)
  case Nil
  then show ?case by (cases bs) auto
next
  case (Cons a as)
  then show ?case by (cases bs) (auto split: option.splits)
qed

lemma seg_distinct: "seg h p as None \<Longrightarrow> distinct as"
proof (induction as arbitrary: p)
  case (Cons a as)
  have "a \<notin> set as"
  proof
    assume "a \<in> set as"
    then obtain xs ys where as: "as = xs @ a # ys" by (meson split_list)
    have "seg h (Some a) (a # as) None" using Cons.prems by simp
    moreover have "seg h (Some a) (a # ys) None" using Cons.prems by (auto simp: as seg_append split: option.splits)
    ultimately have "as = ys" using seg_unique by blast
    then show False using as by simp
  qed
  then show ?case using Cons by (auto split: option.splits)
qed simp


text \<open>Every mbuf \<open>m\<close> has the tags \<open>L m\<close>; no tag belongs to two mbufs, and tags have room for the data they say they have.\<close>

definition tagged :: "tag_state \<Rightarrow> (nat \<Rightarrow> nat list) \<Rightarrow> bool" where
  "tagged st L \<longleftrightarrow> (\<forall>m. seg (tg_heap st) (tg_first st m) (L m) None) \<and> (\<forall>m n. m \<noteq> n \<longrightarrow> set (L m) \<inter> set (L n) = {})
     \<and> (\<forall>a t. tg_heap st a = Some t \<longrightarrow> unat (m_tag_len t) \<le> length (m_tag_data t))"

definition alloc_ok :: "tag_alloc \<Rightarrow> bool" where
  "alloc_ok alloc \<longleftrightarrow> (\<forall>h len a t. alloc h len = Some (a, t) \<longrightarrow> h a = None \<and> length (m_tag_data t) = nat len)"

text \<open>What a tag carries.\<close>

definition tag_val :: "tag_heap \<Rightarrow> nat \<Rightarrow> (u16 \<times> u8 list) option" where
  "tag_val h a = map_option (\<lambda>t. (m_tag_id t, take (unat (m_tag_len t)) (m_tag_data t))) (h a)"

lemma taggedD:
  assumes "tagged st L"
  shows "seg (tg_heap st) (tg_first st m) (L m) None" and "m \<noteq> n \<Longrightarrow> set (L m) \<inter> set (L n) = {}" and "tg_heap st a = Some t \<Longrightarrow> unat (m_tag_len t) \<le> length (m_tag_data t)"
    and "distinct (L m)" and "set (L m) \<subseteq> dom (tg_heap st)"
  using assms seg_distinct seg_dom unfolding tagged_def by blast+

lemma taggedI:
  assumes "tagged st L" and "seg h p as None" and "\<And>n a. n \<noteq> m \<Longrightarrow> a \<in> set (L n) \<Longrightarrow> a \<notin> set as \<and> h a = tg_heap st a"
    and "\<And>a t. h a = Some t \<Longrightarrow> unat (m_tag_len t) \<le> length (m_tag_data t)" and "tg_heap st' = h" "tg_first st' = (tg_first st)(m := p)"
  shows "tagged st' (L(m := as))"
  unfolding tagged_def
proof (intro conjI allI impI)
  fix n
  show "seg (tg_heap st') (tg_first st' n) ((L(m := as)) n) None"
    using assms taggedD(1) [OF assms(1), of n] seg_cong [of "L n" h "tg_heap st" "tg_first st n" None] by auto
  show "set ((L(m := as)) n) \<inter> set ((L(m := as)) k) = {}" if "n \<noteq> k" for k
    using taggedD(2) [OF assms(1) that] assms(3) [of n] assms(3) [of k] that by (cases "n = m"; cases "k = m") auto
qed (use assms in auto)

section \<open>Each operation\<close>


lemma find_walk_spec: "seg h p as None \<Longrightarrow> find_walk h type p = Some (List.find (\<lambda>a. \<exists>t. h a = Some t \<and> uint (m_tag_id t) = type) as)"
proof (induction as arbitrary: p)
  case (Cons a as)
  then show ?case by (subst find_walk.simps) (auto split: option.splits)
qed (subst find_walk.simps, simp)

lemma remove_walk_spec:
  "seg h p (xs @ c # a # ys) None \<Longrightarrow> a \<notin> set xs \<Longrightarrow> \<exists>t. remove_walk h a p = Some (c, t) \<and> h c = Some t \<and> m_tag_link t = Some a"
proof (induction xs arbitrary: p)
  case Nil
  then show ?case by (subst remove_walk.simps) (auto split: option.splits)
next
  case (Cons x xs)
  obtain t where t: "p = Some x" "h x = Some t" "seg h (m_tag_link t) (xs @ c # a # ys) None" using Cons.prems(1) by (auto split: option.splits)
  have "m_tag_link t \<noteq> Some a"
  proof (cases xs)
    case Nil
    have "distinct (c # a # ys)" using seg_distinct [OF t(3)] Nil by simp
    then show ?thesis using t(3) Nil by auto
  next
    case (Cons y zs)
    then show ?thesis using t(3) Cons.prems(2) by auto
  qed
  then show ?case using Cons t by (subst remove_walk.simps) simp
qed

lemma delete_spec:
  assumes T: "tagged st L" and a: "a \<in> set (L m)"
  shows "\<exists>st'. m_tag_delete m a st = Some st' \<and> tagged st' (L(m := remove1 a (L m))) \<and> tg_heap st' a = None \<and> (\<forall>b. b \<noteq> a \<longrightarrow> tag_val (tg_heap st') b = tag_val (tg_heap st) b)"
proof -
  note D = taggedD [OF T]
  obtain xs ys where L: "L m = xs @ a # ys" using a by (meson split_list)
  have d: "a \<notin> set xs" "a \<notin> set ys" "distinct xs" "set xs \<inter> set ys = {}" using D(4) [of m] by (auto simp: L)
  have rm: "remove1 a (L m) = xs @ ys" using d by (simp add: L remove1_append)
  obtain t where t: "tg_heap st a = Some t" using D(5) [of m] a by blast
  have s: "seg (tg_heap st) (tg_first st m) (xs @ a # ys) None" using D(1) [of m] by (simp add: L)
  then obtain r where r: "seg (tg_heap st) (tg_first st m) xs r" "r = Some a" "seg (tg_heap st) (m_tag_link t) ys None" using t by (auto simp: seg_append)
  have other: "b \<notin> set (xs @ ys) \<and> b \<noteq> a" if "n \<noteq> m" "b \<in> set (L n)" for n b using D(2) [OF that(1)] that(2) by (auto simp: L)
  show ?thesis
  proof (cases xs rule: rev_cases)
    case Nil
    then have f: "tg_first st m = Some a" using r by simp
    define st' where "st' = tag_free a (set_first m (m_tag_link t) st)"
    have "m_tag_delete m a st = Some st'" using t f by (simp add: m_tag_delete_def st'_def)
    moreover have "tagged st' (L(m := ys))"
    proof (rule taggedI [OF T])
      show "seg ((tg_heap st)(a := None)) (m_tag_link t) ys None" using r(3) d(2) by simp
    qed (use other D(3) in \<open>auto simp: st'_def tag_fields split: if_splits\<close>)
    ultimately show ?thesis by (simp add: rm Nil st'_def tag_fields tag_val_def)
  next
    case (snoc zs c)
    have c: "c \<noteq> a" "c \<notin> set zs" "c \<notin> set ys" using d snoc by auto
    obtain u where u: "remove_walk (tg_heap st) a (tg_first st m) = Some (c, u)" "tg_heap st c = Some u" "m_tag_link u = Some a"
      using remove_walk_spec [of "tg_heap st" "tg_first st m" zs c a ys] s d snoc by auto
    have nf: "tg_first st m \<noteq> Some a" using r(1) d snoc by (cases zs) auto
    define st' where "st' = tag_free a (tag_set c (u\<lparr>m_tag_link := m_tag_link t\<rparr>) st)"
    have h': "tg_heap st' = (tg_heap st)(c \<mapsto> u\<lparr>m_tag_link := m_tag_link t\<rparr>, a := None)" "tg_first st' = tg_first st" by (simp_all add: st'_def tag_fields)
    have "m_tag_delete m a st = Some st'" using t u nf by (simp add: m_tag_delete_def st'_def)
    moreover have "tagged st' (L(m := xs @ ys))"
    proof (rule taggedI [OF T])
      obtain q where q: "seg (tg_heap st) (tg_first st m) zs q" "q = Some c" using r(1) u(2) by (auto simp: snoc seg_append)
      have "seg (tg_heap st') (tg_first st m) zs q" "seg (tg_heap st') (m_tag_link t) ys None"
        using q(1) r(3) c d snoc by (simp_all add: h')
      then show "seg (tg_heap st') (tg_first st m) (xs @ ys) None" using q(2) c by (auto simp: snoc seg_append h')
    qed (use other D(3) u(2) snoc in \<open>auto simp: h' split: if_splits\<close>)
    ultimately show ?thesis using u(2) by (auto simp: rm h' tag_val_def)
  qed
qed

text \<open>A new tag in front.\<close>

lemma get_spec:
  assumes T: "tagged st L" and ok: "alloc_ok alloc" and g: "m_tag_get alloc type len st = (Some a, st')"
  shows "tagged st' L" and "tg_heap st a = None" and "tg_first st' = tg_first st" and "\<exists>t. tg_heap st' = (tg_heap st)(a \<mapsto> t) \<and> m_tag_id t = word_of_int type \<and> m_tag_len t = word_of_int len \<and> length (m_tag_data t) = nat len"
proof -
  note D = taggedD [OF T]
  obtain t where t: "0 \<le> len" "alloc (tg_heap st) len = Some (a, t)" "st' = tag_set a (t\<lparr>m_tag_id := word_of_int type, m_tag_len := word_of_int len\<rparr>) st"
    using g by (auto simp: m_tag_get_def split: if_splits option.splits)
  have fresh: "tg_heap st a = None" "length (m_tag_data t) = nat len" using ok t(2) unfolding alloc_ok_def by blast+
  have na: "a \<notin> set (L n)" for n using D(5) [of n] fresh by auto
  have u: "unat (word_of_int len :: u16) \<le> nat len" using t(1) by (metis int_nat_eq le_nat_iff of_nat_le_iff take_bit_int_less_eq_self_iff uint_nat uint_word_of_int unsigned_greater_eq zmod_le_nonneg_dividend)
  show "tagged st' L" unfolding tagged_def
  proof (intro conjI allI impI)
    fix m
    show "seg (tg_heap st') (tg_first st' m) (L m) None"
      using D(1) [of m] na [of m] by (simp add: t(3) tag_fields)
  next
    fix b v assume "tg_heap st' b = Some v"
    then show "unat (m_tag_len v) \<le> length (m_tag_data v)" using D(3) [of b v] u fresh(2) by (auto simp: t(3) tag_fields split: if_splits)
  qed (rule D(2))
  show "tg_heap st a = None" "tg_first st' = tg_first st" using fresh by (simp_all add: t(3) tag_fields)
  show "\<exists>t. tg_heap st' = (tg_heap st)(a \<mapsto> t) \<and> m_tag_id t = word_of_int type \<and> m_tag_len t = word_of_int len \<and> length (m_tag_data t) = nat len"
    using fresh by (auto simp: t(3) tag_fields)
qed

lemma prepend_spec:
  assumes T: "tagged st L" and a: "tg_heap st a = Some t" "\<And>n. a \<notin> set (L n)"
  shows "\<exists>st'. m_tag_prepend m a st = Some st' \<and> tagged st' (L(m := a # L m)) \<and> (\<forall>b. tag_val (tg_heap st') b = tag_val (tg_heap st) b) \<and> tg_first st' = (tg_first st)(m := Some a)
    \<and> tg_heap st' = (tg_heap st)(a \<mapsto> t\<lparr>m_tag_link := tg_first st m\<rparr>)"
proof -
  note D = taggedD [OF T]
  define st' where "st' = set_first m (Some a) (tag_set a (t\<lparr>m_tag_link := tg_first st m\<rparr>) st)"
  have h': "tg_heap st' = (tg_heap st)(a \<mapsto> t\<lparr>m_tag_link := tg_first st m\<rparr>)" "tg_first st' = (tg_first st)(m := Some a)" by (simp_all add: st'_def tag_fields)
  have "tagged st' (L(m := a # L m))"
  proof (rule taggedI [OF T])
    show "seg (tg_heap st') (Some a) (a # L m) None" using D(1) [of m] a(2) [of m] by (simp add: h')
    show "b \<notin> set (a # L m) \<and> tg_heap st' b = tg_heap st b" if "n \<noteq> m" "b \<in> set (L n)" for n b using D(2) [OF that(1)] that(2) a(2) [of n] by (auto simp: h')
  qed (use D(3) a in \<open>auto simp: h' split: if_splits\<close>)
  then show ?thesis using a(1) h' by (auto simp: m_tag_prepend_def st'_def tag_val_def)
qed








section \<open>Packet tags are correct\<close>





text \<open>A new tag is found by its identifier, and deleting it gives the list of before.\<close>

theorem m_tag_round_trip:
  assumes T: "tagged st L" and ok: "alloc_ok alloc" and g: "m_tag_get alloc type len st = (Some a, st1)" and ty: "0 \<le> type" "type < 2 ^ 16"
  shows "\<exists>st2 st3. m_tag_prepend m a st1 = Some st2 \<and> m_tag_find m type None st2 = Some (Some a) \<and> m_tag_delete m a st2 = Some st3 \<and> tagged st3 L
    \<and> (\<forall>b. tag_val (tg_heap st3) b = tag_val (tg_heap st) b)"
proof -
  note G = get_spec [OF T ok g]
  obtain t where t: "tg_heap st1 = (tg_heap st)(a \<mapsto> t)" "m_tag_id t = word_of_int type" using G(4) by blast
  have na: "a \<notin> set (L n)" for n using taggedD(5) [OF T, of n] G(2) by auto
  obtain st2 where p: "m_tag_prepend m a st1 = Some st2" "tagged st2 (L(m := a # L m))" "\<And>b. tag_val (tg_heap st2) b = tag_val (tg_heap st1) b"
      "tg_heap st2 = (tg_heap st1)(a \<mapsto> t\<lparr>m_tag_link := tg_first st1 m\<rparr>)"
    using prepend_spec [OF G(1) _ na, of t m] t(1) by auto
  have "uint (m_tag_id t) = type" using ty by (simp add: t(2) uint_word_of_int)
  then have "m_tag_find m type None st2 = Some (Some a)" using find_walk_spec [OF taggedD(1) [OF p(2), of m], of type] by (simp add: m_tag_find_def p(4))
  moreover obtain st3 where d: "m_tag_delete m a st2 = Some st3" "tagged st3 (L(m := a # L m, m := remove1 a (a # L m)))" "tg_heap st3 a = None" "\<And>b. b \<noteq> a \<Longrightarrow> tag_val (tg_heap st3) b = tag_val (tg_heap st2) b"
    using delete_spec [OF p(2), of a m] by auto
  moreover have "tag_val (tg_heap st3) b = tag_val (tg_heap st) b" for b using d(3,4) p(3) [of b] G(2) by (cases "b = a") (auto simp: t(1) tag_val_def)
  ultimately show ?thesis using p(1) by (auto simp: fun_upd_idem)
qed

text \<open>
  The length of a tag has 16 bits: a longer one is allocated but not remembered as such, so that a copy loses data; and a type outside of the 16 bits of an
  identifier is never found.
\<close>

lemma m_tag_len_truncated:
  assumes "tagged st L" and "alloc_ok alloc" and "m_tag_get alloc type len st = (Some a, st1)" and "0 \<le> len"
  shows "\<exists>t. tg_heap st1 a = Some t \<and> int (length (m_tag_data t)) = len \<and> uint (m_tag_len t) = len mod 2 ^ 16"
  using get_spec(4) [OF assms(1-3)] assms(4) by (auto simp: uint_word_of_int)

lemma m_tag_find_type:
  assumes "tagged st L" and "type < 0 \<or> 2 ^ 16 \<le> type"
  shows "m_tag_find m type None st = Some None"
proof -
  have "uint (i :: u16) \<noteq> type" for i using assms(2) uint_bounded [of i] by auto
  then show ?thesis using find_walk_spec [OF taggedD(1) [OF assms(1), of m], of type] by (simp add: m_tag_find_def find_None_iff)
qed
end
