(* ===== verification/Sysv_Sem.thy ===== *)
theory Sysv_Sem
  imports Kern_Prelude "HOL-Library.Multiset"
begin

text \<open>
  System V semaphores (\<^verbatim>\<open>src/sys/kern/sysv_sem.c\<close>, \<^verbatim>\<open>src/sys/sys/sem.h\<close>) with the permission check of
  \<^verbatim>\<open>src/sys/kern/sysv_ipc.c\<close>. The state is the table of semaphore sets, the sequence numbers, the list of undo structures and the
  limits. The kernel is not preempted: a call runs to its end or to its sleep, which is an outcome of its own, and what follows
  the sleep is another definition. A set has the address of its \<^verbatim>\<open>struct semid_ds\<close>, since \<^verbatim>\<open>sys_semop\<close> keeps a pointer to it
  across the sleep. A process has at most one undo structure, so the pointer to it is whether it has been looked up; using it
  when the structure has been freed is a fault, as are a panic and an access outside of an array. Memory for a new set is at
  hand; whether the sleepers on the set of a call are woken is part of its result.
\<close>

section \<open>Data\<close>

definition s16 :: "int \<Rightarrow> int" where
  "s16 x = (x + 2 ^ 15) mod 2 ^ 16 - 2 ^ 15"

record ucred =
  cr_uid :: nat
  cr_gid :: nat
  cr_groups :: "nat list"

record ipc_perm =
  cuid :: nat
  cgid :: nat
  uid :: nat
  gid :: nat
  mode :: u32
  seq :: u16
  key :: int

record sem =
  semval :: u16
  sempid :: int
  semncnt :: u16
  semzcnt :: u16

record semid_ds =
  sem_perm :: ipc_perm
  sem_base :: "sem list"
  sem_nsems :: u16
  sem_otime :: int
  sem_ctime :: int
  sem_addr :: nat

text \<open>\<open>un_ent\<close> is the array up to \<^verbatim>\<open>un_cnt\<close>.\<close>

record undo =
  un_adjval :: int
  un_num :: int
  un_id :: nat

record sem_undo =
  un_proc :: nat
  un_ent :: "undo list"

record seminfo =
  semmni :: int
  semmns :: int
  semmnu :: int
  semmsl :: int
  semopm :: int

record sembuf =
  sem_num :: nat
  sem_op :: int
  sem_flg :: u16

record sem_state =
  sema :: "semid_ds option list"
  semseqs :: "u16 list"
  semu_list :: "sem_undo list"
  semtot :: int
  semutot :: int
  info :: seminfo

text \<open>A process: the address of its \<^verbatim>\<open>struct proc\<close>, its number and its credentials.\<close>

record sproc =
  p_self :: nat
  p_pid :: int
  p_ucred :: ucred

definition SEMUME :: nat where "SEMUME = 10"

definition SEM_UNDO :: u16 where "SEM_UNDO = 0x1000"

definition IPC_R :: u32 where "IPC_R = 0x100"

definition IPC_W :: u32 where "IPC_W = 0x80"

definition IPC_M :: u32 where "IPC_M = 0x1000"

definition IPC_CREAT :: u32 where "IPC_CREAT = 0x200"

definition IPC_EXCL :: u32 where "IPC_EXCL = 0x400"

definition IPC_NOWAIT :: u16 where "IPC_NOWAIT = 0x800"

definition IPC_PRIVATE :: int where "IPC_PRIVATE = 0"

definition IPCID_TO_IX :: "int \<Rightarrow> nat" where
  "IPCID_TO_IX semid = nat (semid mod 2 ^ 16)"

definition IPCID_TO_SEQ :: "int \<Rightarrow> u16" where
  "IPCID_TO_SEQ semid = word_of_int (semid div 2 ^ 16)"

text \<open>A signed 32-bit value with the sequence number in its upper and the index in its lower half.\<close>

definition IXSEQ_TO_IPCID :: "nat \<Rightarrow> ipc_perm \<Rightarrow> int" where
  "IXSEQ_TO_IPCID ix perm = (uint (seq perm) * 2 ^ 16 + int ix mod 2 ^ 16 + 2 ^ 31) mod 2 ^ 32 - 2 ^ 31"

section \<open>Permissions\<close>

definition groupmember :: "nat \<Rightarrow> ucred \<Rightarrow> bool" where
  "groupmember g cred \<longleftrightarrow> g \<in> set (cr_groups cred)"

definition VREAD :: u32 where "VREAD = 0x100"

definition VWRITE :: u32 where "VWRITE = 0x80"

definition VEXEC :: u32 where "VEXEC = 0x40"

text \<open>The bits of a mode that correspond to an access, moved down by three bits per class of users.\<close>

definition acc_mask :: "nat \<Rightarrow> u32 \<Rightarrow> u32" where
  "acc_mask cls acc =
     drop_bit (3 * cls) ((if acc AND VEXEC \<noteq> 0 then 0x40 else 0) OR (if acc AND VREAD \<noteq> 0 then 0x100 else 0)
       OR (if acc AND VWRITE \<noteq> 0 then 0x80 else 0))"

definition vaccess :: "bool \<Rightarrow> u32 \<Rightarrow> nat \<Rightarrow> nat \<Rightarrow> u32 \<Rightarrow> ucred \<Rightarrow> errno option" where
  "vaccess isdir file_mode u g acc cred =
     (if cr_uid cred = 0 then
        if acc AND VEXEC \<noteq> 0 \<and> \<not> isdir \<and> file_mode AND 0x49 = 0 then Some EACCES else None
      else
        let mask = acc_mask (if cr_uid cred = u then 0 else if cr_gid cred = g \<or> groupmember g cred then 1 else 2) acc
        in if file_mode AND mask = mask then None else Some EACCES)"

definition ipcperm :: "ucred \<Rightarrow> ipc_perm \<Rightarrow> u32 \<Rightarrow> errno option" where
  "ipcperm cred perm m =
     (if m = IPC_M then
        if cr_uid cred = 0 \<or> cr_uid cred = uid perm \<or> cr_uid cred = cuid perm then None else Some EPERM
      else if vaccess False (mode perm) (uid perm) (gid perm) m cred = None
           \<or> vaccess False (mode perm) (cuid perm) (cgid perm) m cred = None then None
      else Some EACCES)"

section \<open>Undo structures\<close>

definition has_undo :: "nat \<Rightarrow> sem_state \<Rightarrow> bool" where
  "has_undo p st \<longleftrightarrow> p \<in> un_proc ` set (semu_list st)"

text \<open>
  \<^verbatim>\<open>semu_alloc\<close>: whether there is an undo structure for \<open>p\<close> afterwards. \<open>wait\<close> is what other processes do while
  \<^verbatim>\<open>pool_get\<close> waits for memory, none if it does not have to wait.
\<close>

definition semu_alloc :: "(sem_state \<Rightarrow> sem_state) option \<Rightarrow> nat \<Rightarrow> sem_state \<Rightarrow> bool \<times> sem_state" where
  "semu_alloc wait p st =
     (if semutot st = semmnu (info st) then (False, st)
      else
        let st = st\<lparr>semutot := semutot st + 1\<rparr>;
            st = (case wait of None \<Rightarrow> st | Some others \<Rightarrow> others st)
        in if wait \<noteq> None \<and> has_undo p st then (True, st\<lparr>semutot := semutot st - 1\<rparr>)
           else (True, st\<lparr>semu_list := \<lparr>un_proc = p, un_ent = []\<rparr> # semu_list st\<rparr>))"

text \<open>The last entry takes the place of entry \<open>i\<close>.\<close>

definition drop_ent :: "nat \<Rightarrow> undo list \<Rightarrow> undo list" where
  "drop_ent i ents = (let n = length ents - 1 in if i < n then (take n ents)[i := ents ! n] else take n ents)"

fun ent_index :: "nat \<Rightarrow> int \<Rightarrow> undo list \<Rightarrow> nat option" where
  "ent_index semid semnum [] = None"
| "ent_index semid semnum (u # us) =
     (if un_id u \<noteq> semid \<or> un_num u \<noteq> semnum then map_option Suc (ent_index semid semnum us) else Some 0)"

text \<open>The entries of one structure after an adjustment, or an error.\<close>

definition adjust_ents :: "nat \<Rightarrow> int \<Rightarrow> int \<Rightarrow> undo list \<Rightarrow> errno + undo list" where
  "adjust_ents semid semnum adjval ents =
     (case ent_index semid semnum ents of
        Some i \<Rightarrow>
          let v = (if adjval = 0 then 0 else s16 (un_adjval (ents ! i) + adjval))
          in if v \<noteq> 0 then Inr (ents[i := (ents ! i)\<lparr>un_adjval := v\<rparr>]) else Inr (drop_ent i ents)
      | None \<Rightarrow>
          if adjval = 0 then Inr ents
          else if length ents = SEMUME then Inl EINVAL
          else Inr (ents @ [\<lparr>un_adjval = s16 adjval, un_num = s16 semnum, un_id = semid\<rparr>]))"

fun on_undo :: "nat \<Rightarrow> (undo list \<Rightarrow> errno + undo list) \<Rightarrow> sem_undo list \<Rightarrow> (errno option \<times> sem_undo list \<times> bool) option" where
  "on_undo p f [] = None"
| "on_undo p f (su # sus) =
     (if un_proc su = p then
        case f (un_ent su) of
          Inl e \<Rightarrow> Some (Some e, su # sus, False)
        | Inr ents \<Rightarrow> if ents = [] \<and> un_ent su \<noteq> [] then Some (None, sus, True) else Some (None, su\<lparr>un_ent := ents\<rparr> # sus, False)
      else map_option (\<lambda>(e, sus', d). (e, su # sus', d)) (on_undo p f sus))"

text \<open>
  \<^verbatim>\<open>semundo_adjust\<close>: the error, whether the caller knows the structure afterwards, and the state. \<open>None\<close> is the use of
  a structure that has been freed.
\<close>

definition semundo_adjust ::
    "(sem_state \<Rightarrow> sem_state) option \<Rightarrow> nat \<Rightarrow> bool \<Rightarrow> nat \<Rightarrow> int \<Rightarrow> int \<Rightarrow> sem_state \<Rightarrow> (errno option \<times> bool \<times> sem_state) option" where
  "semundo_adjust wait p known semid semnum adjval st =
     (let (ok, st) =
        (if known \<or> has_undo p st then (True, st)
         else if adjval = 0 then (False, st) else semu_alloc wait p st)
      in if \<not> ok then Some (if adjval = 0 then None else Some ENOSPC, False, st)
         else
           map_option (\<lambda>(e, sus, freed). (e, True, st\<lparr>semu_list := sus, semutot := (if freed then semutot st - 1 else semutot st)\<rparr>))
             (on_undo p (adjust_ents semid semnum adjval) (semu_list st)))"

text \<open>The inner loop of \<^verbatim>\<open>semundo_clear\<close>, from entry \<open>i\<close> on.\<close>

function clear_ents :: "nat \<Rightarrow> int \<Rightarrow> nat \<Rightarrow> undo list \<Rightarrow> undo list" where
  "clear_ents semid semnum i ents =
     (if i < length ents then
        if un_id (ents ! i) = semid then
          if semnum = -1 \<or> un_num (ents ! i) = semnum then
            if semnum \<noteq> -1 then drop_ent i ents
            else clear_ents semid semnum i (drop_ent i ents)
          else ents
        else clear_ents semid semnum (Suc i) ents
      else ents)"
  by pat_completeness auto
termination
  by (relation "measure (\<lambda>(semid, semnum, i, ents). length ents + (length ents - i))") (auto simp: drop_ent_def Let_def)

declare clear_ents.simps [simp del]

definition semundo_clear :: "nat \<Rightarrow> int \<Rightarrow> sem_state \<Rightarrow> sem_state" where
  "semundo_clear semid semnum st =
     (let sus = map (\<lambda>su. su\<lparr>un_ent := clear_ents semid semnum 0 (un_ent su)\<rparr>) (semu_list st);
          kept = filter (\<lambda>su. un_ent su \<noteq> []) sus
      in st\<lparr>semu_list := kept, semutot := semutot st - int (length sus - length kept)\<rparr>)"

section \<open>Sets\<close>

definition upd_set :: "nat \<Rightarrow> (semid_ds \<Rightarrow> semid_ds) \<Rightarrow> sem_state \<Rightarrow> sem_state" where
  "upd_set k f st = (if k < length (sema st) then st\<lparr>sema := (sema st)[k := map_option f (sema st ! k)]\<rparr> else st)"

definition upd_sem :: "nat \<Rightarrow> (sem \<Rightarrow> sem) \<Rightarrow> semid_ds \<Rightarrow> semid_ds" where
  "upd_sem n f ds = ds\<lparr>sem_base := (sem_base ds)[n := f (sem_base ds ! n)]\<rparr>"

text \<open>The set of an identifier, as \<^verbatim>\<open>semctl1\<close> and \<^verbatim>\<open>sys_semop\<close> look it up.\<close>

definition sem_lookup :: "int \<Rightarrow> sem_state \<Rightarrow> (nat \<times> semid_ds) option" where
  "sem_lookup semid st =
     (let ix = IPCID_TO_IX semid
      in if int ix \<ge> semmni (info st) then None
         else case sema st ! ix of
             None \<Rightarrow> None
           | Some ds \<Rightarrow> if seq (sem_perm ds) \<noteq> IPCID_TO_SEQ semid then None else Some (ix, ds))"

text \<open>
  The commands of \<^verbatim>\<open>semctl1\<close> with what is copied in: the new owner and mode, a value, or an array whose elements may fail
  to be read.
\<close>

datatype sem_cmd =
    IPC_RMID | IPC_SET "errno + nat \<times> nat \<times> u32" | IPC_STAT "errno option" | GETNCNT | GETPID | GETVAL | GETALL "nat \<Rightarrow> errno option" | GETZCNT
  | SETVAL int | SETALL "nat \<Rightarrow> errno + u16" | SEM_BADCMD

text \<open>What a call gives back: an error, a value, values copied out, whether the sleepers on the set are woken, and the state.\<close>

datatype sem_ret = Ret (ret_err: "errno option") (ret_val: int) (ret_out: "u16 list") (ret_wake: bool) (ret_st: sem_state)

abbreviation "sem_fail e st \<equiv> Ret (Some e) 0 [] False st"

fun setall :: "(nat \<Rightarrow> errno + u16) \<Rightarrow> nat \<Rightarrow> sem list \<Rightarrow> errno option \<times> sem list" where
  "setall a i [] = (None, [])"
| "setall a i (s # ss) =
     (case a i of Inl e \<Rightarrow> (Some e, s # ss)
      | Inr v \<Rightarrow> let (e, ss') = setall a (Suc i) ss in (e, s\<lparr>semval := v\<rparr> # ss'))"

fun getall :: "(nat \<Rightarrow> errno option) \<Rightarrow> nat \<Rightarrow> sem list \<Rightarrow> errno option \<times> u16 list" where
  "getall a i [] = (None, [])"
| "getall a i (s # ss) =
     (case a i of Some e \<Rightarrow> (Some e, []) | None \<Rightarrow> let (e, vs) = getall a (Suc i) ss in (e, semval s # vs))"

definition get_field :: "ucred \<Rightarrow> semid_ds \<Rightarrow> int \<Rightarrow> (sem \<Rightarrow> int) \<Rightarrow> sem_state \<Rightarrow> sem_ret" where
  "get_field cred ds semnum f st =
     (case ipcperm cred (sem_perm ds) IPC_R of Some e \<Rightarrow> sem_fail e st
      | None \<Rightarrow>
          if semnum < 0 \<or> semnum \<ge> uint (sem_nsems ds) then sem_fail EINVAL st
          else Ret None (f (sem_base ds ! nat semnum)) [] False st)"

definition semctl1 :: "int \<Rightarrow> ucred \<Rightarrow> int \<Rightarrow> int \<Rightarrow> sem_cmd \<Rightarrow> sem_state \<Rightarrow> sem_ret" where
  "semctl1 now cred semid semnum cmd st =
     (case sem_lookup semid st of None \<Rightarrow> sem_fail EINVAL st
      | Some (ix, ds) \<Rightarrow>
          case cmd of
            IPC_RMID \<Rightarrow>
              (case ipcperm cred (sem_perm ds) IPC_M of Some e \<Rightarrow> sem_fail e st
               | None \<Rightarrow>
                   Ret None 0 [] True
                     (semundo_clear ix (-1) (st\<lparr>semtot := semtot st - uint (sem_nsems ds), sema := (sema st)[ix := None]\<rparr>)))
          | IPC_SET arg \<Rightarrow>
              (case ipcperm cred (sem_perm ds) IPC_M of Some e \<Rightarrow> sem_fail e st
               | None \<Rightarrow>
                   case arg of Inl e \<Rightarrow> sem_fail e st
                   | Inr (u, g, m) \<Rightarrow>
                       Ret None 0 [] False
                         (upd_set ix (\<lambda>ds. ds\<lparr>sem_perm := (sem_perm ds)\<lparr>uid := u, gid := g,
                              mode := (mode (sem_perm ds) AND NOT 0x1ff) OR (m AND 0x1ff)\<rparr>, sem_ctime := now\<rparr>) st))
          | IPC_STAT err \<Rightarrow>
              (case ipcperm cred (sem_perm ds) IPC_R of Some e \<Rightarrow> sem_fail e st | None \<Rightarrow> Ret err 0 [] False st)
          | GETNCNT \<Rightarrow> get_field cred ds semnum (\<lambda>s. uint (semncnt s)) st
          | GETPID \<Rightarrow> get_field cred ds semnum sempid st
          | GETVAL \<Rightarrow> get_field cred ds semnum (\<lambda>s. uint (semval s)) st
          | GETALL a \<Rightarrow>
              (case ipcperm cred (sem_perm ds) IPC_R of Some e \<Rightarrow> sem_fail e st
               | None \<Rightarrow> let (e, vs) = getall a 0 (sem_base ds) in Ret e 0 vs False st)
          | GETZCNT \<Rightarrow> get_field cred ds semnum (\<lambda>s. uint (semzcnt s)) st
          | SETVAL val \<Rightarrow>
              (case ipcperm cred (sem_perm ds) IPC_W of Some e \<Rightarrow> sem_fail e st
               | None \<Rightarrow>
                   if semnum < 0 \<or> semnum \<ge> uint (sem_nsems ds) then sem_fail EINVAL st
                   else
                     Ret None 0 [] True
                       (semundo_clear ix semnum (upd_set ix (upd_sem (nat semnum) (\<lambda>s. s\<lparr>semval := word_of_int val\<rparr>)) st)))
          | SETALL a \<Rightarrow>
              (case ipcperm cred (sem_perm ds) IPC_W of Some e \<Rightarrow> sem_fail e st
               | None \<Rightarrow>
                   let (e, base) = setall a 0 (sem_base ds)
                   in Ret e 0 [] True (semundo_clear ix (-1) (upd_set ix (\<lambda>ds. ds\<lparr>sem_base := base\<rparr>) st)))
          | SEM_BADCMD \<Rightarrow> sem_fail EINVAL st)"

text \<open>\<^verbatim>\<open>sys_semctl\<close>: \<open>err\<close> is the error of copying in the argument, if it has one.\<close>

definition sys_semctl :: "int \<Rightarrow> ucred \<Rightarrow> int \<Rightarrow> int \<Rightarrow> sem_cmd \<Rightarrow> errno option \<Rightarrow> sem_state \<Rightarrow> sem_ret" where
  "sys_semctl now cred semid semnum cmd err st =
     (let error = (case cmd of IPC_SET a \<Rightarrow> err | IPC_STAT a \<Rightarrow> err | GETALL a \<Rightarrow> err | SETVAL v \<Rightarrow> err | SETALL a \<Rightarrow> err | _ \<Rightarrow> None)
      in case error of Some e \<Rightarrow> sem_fail e st | None \<Rightarrow> semctl1 now cred semid semnum cmd st)"

text \<open>The first set with a key, and the first free place of the table.\<close>

fun find_key :: "int \<Rightarrow> semid_ds option list \<Rightarrow> nat option" where
  "find_key k [] = None"
| "find_key k (x # xs) =
     (case x of Some ds \<Rightarrow> if key (sem_perm ds) = k then Some 0 else map_option Suc (find_key k xs)
      | None \<Rightarrow> map_option Suc (find_key k xs))"

fun find_free :: "semid_ds option list \<Rightarrow> nat option" where
  "find_free [] = None"
| "find_free (x # xs) = (if x = None then Some 0 else map_option Suc (find_free xs))"

text \<open>\<open>addr\<close> is the address of the new \<^verbatim>\<open>struct semid_ds\<close>.\<close>

definition new_set :: "int \<Rightarrow> nat \<Rightarrow> ucred \<Rightarrow> int \<Rightarrow> int \<Rightarrow> u32 \<Rightarrow> u16 \<Rightarrow> semid_ds" where
  "new_set now addr cred k nsems semflg s =
     \<lparr>sem_perm = \<lparr>cuid = cr_uid cred, cgid = cr_gid cred, uid = cr_uid cred, gid = cr_gid cred, mode = semflg AND 0x1ff, seq = s, key = k\<rparr>,
      sem_base = replicate (nat nsems) \<lparr>semval = 0, sempid = 0, semncnt = 0, semzcnt = 0\<rparr>, sem_nsems = word_of_int nsems,
      sem_otime = 0, sem_ctime = now, sem_addr = addr\<rparr>"

definition sys_semget :: "int \<Rightarrow> nat \<Rightarrow> ucred \<Rightarrow> int \<Rightarrow> int \<Rightarrow> u32 \<Rightarrow> sem_state \<Rightarrow> sem_ret" where
  "sys_semget now addr cred k nsems semflg st =
     (let create = (k = IPC_PRIVATE \<or> semflg AND IPC_CREAT \<noteq> 0)
      in if create \<and> (nsems \<le> 0 \<or> nsems > semmsl (info st)) then sem_fail EINVAL st
         else if create \<and> nsems > semmns (info st) - semtot st then sem_fail ENOSPC st
         else
           case (if k \<noteq> IPC_PRIVATE then find_key k (sema st) else None) of
             Some ix \<Rightarrow>
               (case sema st ! ix of None \<Rightarrow> sem_fail EINVAL st
                | Some ds \<Rightarrow>
                    case ipcperm cred (sem_perm ds) (semflg AND 0x1c0) of Some e \<Rightarrow> sem_fail e st
                    | None \<Rightarrow>
                        if nsems > 0 \<and> uint (sem_nsems ds) < nsems then sem_fail EINVAL st
                        else if semflg AND IPC_CREAT \<noteq> 0 \<and> semflg AND IPC_EXCL \<noteq> 0 then sem_fail EEXIST st
                        else Ret None (IXSEQ_TO_IPCID ix (sem_perm ds)) [] False st)
           | None \<Rightarrow>
               if create then
                 case find_free (sema st) of None \<Rightarrow> sem_fail ENOSPC st
                 | Some ix \<Rightarrow>
                     let s = (semseqs st ! ix + 1) AND 0x7fff;
                         ds = new_set now addr cred k nsems semflg s
                     in Ret None (IXSEQ_TO_IPCID ix (sem_perm ds)) [] False
                          (st\<lparr>semseqs := (semseqs st)[ix := s], sema := (sema st)[ix := Some ds], semtot := semtot st + nsems\<rparr>)
               else sem_fail ENOENT st)"

section \<open>Operations\<close>

datatype try_end = Through | Blocked nat | BadNum

text \<open>
  One pass over the vector of operations: the semaphores, \<^verbatim>\<open>do_wakeup\<close>, \<^verbatim>\<open>do_undos\<close> and how it ends; \<open>i\<close> is the number of
  operations done before.
\<close>

fun try_ops :: "u16 \<Rightarrow> nat \<Rightarrow> sembuf list \<Rightarrow> sem list \<Rightarrow> bool \<Rightarrow> bool \<Rightarrow> sem list \<times> bool \<times> bool \<times> try_end" where
  "try_ops nsems i [] base wake undos = (base, wake, undos, Through)"
| "try_ops nsems i (sop # sops) base wake undos =
     (if int (sem_num sop) \<ge> uint nsems then (base, wake, undos, BadNum)
      else
        let s = base ! sem_num sop;
            add = s\<lparr>semval := semval s + word_of_int (sem_op sop)\<rparr>;
            undos' = (undos \<or> sem_flg sop AND SEM_UNDO \<noteq> 0)
        in if sem_op sop < 0 then
             if uint (semval s) + sem_op sop < 0 then (base, wake, undos, Blocked i)
             else try_ops nsems (Suc i) sops (base[sem_num sop := add]) (wake \<or> semval add = 0 \<and> semzcnt s > 0) undos'
           else if sem_op sop = 0 then
             if semval s > 0 then (base, wake, undos, Blocked i) else try_ops nsems (Suc i) sops base wake undos
           else try_ops nsems (Suc i) sops (base[sem_num sop := add]) (wake \<or> semncnt s > 0) undos')"

definition rollback :: "sembuf list \<Rightarrow> sem list \<Rightarrow> sem list" where
  "rollback sops base =
     fold (\<lambda>sop base. base[sem_num sop := (base ! sem_num sop)\<lparr>semval := semval (base ! sem_num sop) - word_of_int (sem_op sop)\<rparr>]) sops base"

text \<open>How \<^verbatim>\<open>sys_semop\<close> goes on: it returns, it sleeps at operation \<open>i\<close>, or it faults or panics.\<close>

datatype semop_outcome = SemRet sem_ret | SemSleep nat bool sem_state | SemFault

definition wants_undo :: "sembuf \<Rightarrow> bool" where
  "wants_undo sop \<longleftrightarrow> sem_flg sop AND SEM_UNDO \<noteq> 0 \<and> sem_op sop \<noteq> 0"

text \<open>
  The loop \<^verbatim>\<open>for (j = i - 1; j >= 0; j--)\<close> over the adjustments already made. \<^verbatim>\<open>j\<close> is unsigned: after operation 0 the loop goes on
  with an operation outside of the array.
\<close>

fun undo_undos :: "(sem_state \<Rightarrow> sem_state) option \<Rightarrow> nat \<Rightarrow> nat \<Rightarrow> sembuf list \<Rightarrow> nat \<Rightarrow> bool \<Rightarrow> sem_state \<Rightarrow> sem_state option" where
  "undo_undos wait p ix sops j known st =
     Option.bind
       (if wants_undo (sops ! j) then
          Option.bind (semundo_adjust wait p known ix (int (sem_num (sops ! j))) (sem_op (sops ! j)) st)
            (\<lambda>(e, known, st). if e = None then Some (known, st) else None)
        else Some (known, st))
       (\<lambda>(known, st). case j of 0 \<Rightarrow> None | Suc j' \<Rightarrow> undo_undos wait p ix sops j' known st)"

fun undo_loop ::
    "(sem_state \<Rightarrow> sem_state) option \<Rightarrow> nat \<Rightarrow> nat \<Rightarrow> sembuf list \<Rightarrow> nat \<Rightarrow> sembuf list \<Rightarrow> bool \<Rightarrow> sem_state \<Rightarrow> (errno option \<times> sem_state) option" where
  "undo_loop wait p ix all i [] known st = Some (None, st)"
| "undo_loop wait p ix all i (sop # sops) known st =
     (if wants_undo sop then
        Option.bind (semundo_adjust wait p known ix (int (sem_num sop)) (- sem_op sop) st) (\<lambda>(e, known, st).
          case e of None \<Rightarrow> undo_loop wait p ix all (Suc i) sops known st
          | Some e \<Rightarrow>
              map_option (Pair (Some e)) (if i \<noteq> 0 then undo_undos wait p ix all (i - 1) known st else Some st))
      else undo_loop wait p ix all (Suc i) sops known st)"

text \<open>
  From the top of the loop of \<^verbatim>\<open>sys_semop\<close> on. \<open>k\<close> is the place of the set that \<^verbatim>\<open>semaptr\<close> points to, \<open>ix\<close> the index of the
  identifier.
\<close>

definition semop_pass ::
    "int \<Rightarrow> (sem_state \<Rightarrow> sem_state) option \<Rightarrow> sproc \<Rightarrow> nat \<Rightarrow> nat \<Rightarrow> sembuf list \<Rightarrow> bool \<Rightarrow> sem_state \<Rightarrow> semop_outcome" where
  "semop_pass now wait p ix k sops do_undos st =
     (case sema st ! k of None \<Rightarrow> SemFault
      | Some ds \<Rightarrow>
          let (base, wake, undos, fin) = try_ops (sem_nsems ds) 0 sops (sem_base ds) False do_undos;
              put = (\<lambda>b. upd_set k (\<lambda>ds. ds\<lparr>sem_base := b\<rparr>))
          in case fin of
               BadNum \<Rightarrow> SemRet (sem_fail EFBIG (put base st))
             | Blocked i \<Rightarrow>
                 let sop = sops ! i;
                     base = rollback (take i sops) base;
                     s = base ! sem_num sop
                 in if sem_flg sop AND IPC_NOWAIT \<noteq> 0 then SemRet (sem_fail EAGAIN (put base st))
                    else
                      SemSleep i undos (put (base[sem_num sop :=
                        (if sem_op sop = 0 then s\<lparr>semzcnt := semzcnt s + 1\<rparr> else s\<lparr>semncnt := semncnt s + 1\<rparr>)]) st)
             | Through \<Rightarrow>
                 case (if undos then undo_loop wait (p_self p) ix sops 0 sops False (put base st) else Some (None, put base st)) of
                   None \<Rightarrow> SemFault
                 | Some (Some e, st) \<Rightarrow> SemRet (sem_fail e (upd_set k (\<lambda>ds. ds\<lparr>sem_base := rollback sops (sem_base ds)\<rparr>) st))
                 | Some (None, st) \<Rightarrow>
                     SemRet (Ret None 0 [] wake
                       (upd_set k (\<lambda>ds. (fold (\<lambda>sop. upd_sem (sem_num sop) (\<lambda>s. s\<lparr>sempid := p_pid p\<rparr>)) sops ds)\<lparr>sem_otime := now\<rparr>) st)))"

text \<open>\<open>sops\<close> is the vector in user memory, or the error of \<^verbatim>\<open>copyin\<close>.\<close>

definition sys_semop ::
    "int \<Rightarrow> (sem_state \<Rightarrow> sem_state) option \<Rightarrow> sproc \<Rightarrow> int \<Rightarrow> nat \<Rightarrow> errno + sembuf list \<Rightarrow> sem_state \<Rightarrow> semop_outcome" where
  "sys_semop now wait p semid nsops sops st =
     (case sem_lookup semid st of None \<Rightarrow> SemRet (sem_fail EINVAL st)
      | Some (ix, ds) \<Rightarrow>
          case ipcperm (p_ucred p) (sem_perm ds) IPC_W of Some e \<Rightarrow> SemRet (sem_fail e st)
          | None \<Rightarrow>
              if nsops = 0 then SemRet (Ret None 0 [] False st)
              else if int nsops > semopm (info st) then SemRet (sem_fail E2BIG st)
              else case sops of Inl e \<Rightarrow> SemRet (sem_fail e st)
                | Inr sops \<Rightarrow> semop_pass now wait p ix ix sops False st)"

fun find_addr :: "nat \<Rightarrow> semid_ds option list \<Rightarrow> nat option" where
  "find_addr a [] = None"
| "find_addr a (x # xs) =
     (case x of Some ds \<Rightarrow> if sem_addr ds = a then Some 0 else map_option Suc (find_addr a xs)
      | None \<Rightarrow> map_option Suc (find_addr a xs))"

text \<open>
  After the sleep at operation \<open>i\<close>: \<open>a\<close> is \<^verbatim>\<open>semaptr\<close>, \<open>interrupted\<close> whether \<^verbatim>\<open>tsleep\<close> returned an error, \<open>st\<close> the state at
  that moment.
\<close>

definition semop_wake ::
    "int \<Rightarrow> (sem_state \<Rightarrow> sem_state) option \<Rightarrow> sproc \<Rightarrow> int \<Rightarrow> nat \<Rightarrow> sembuf list \<Rightarrow> nat \<Rightarrow> bool \<Rightarrow> bool \<Rightarrow> sem_state \<Rightarrow> semop_outcome" where
  "semop_wake now wait p semid a sops i do_undos interrupted st =
     (let ix = IPCID_TO_IX semid
      in if sema st ! ix = None then SemRet (sem_fail EIDRM st)
         else case find_addr a (sema st) of
             None \<Rightarrow> SemFault
           | Some k \<Rightarrow>
               case sema st ! k of None \<Rightarrow> SemFault
               | Some ds \<Rightarrow>
                   if seq (sem_perm ds) \<noteq> IPCID_TO_SEQ semid then SemRet (sem_fail EIDRM st)
                   else
                     let st = upd_set k (upd_sem (sem_num (sops ! i)) (\<lambda>s. if sem_op (sops ! i) = 0
                           then s\<lparr>semzcnt := semzcnt s - 1\<rparr> else s\<lparr>semncnt := semncnt s - 1\<rparr>)) st
                     in if interrupted then SemRet (sem_fail EINTR st)
                        else semop_pass now wait p ix k sops do_undos st)"

section \<open>Exit\<close>

text \<open>The adjustments of one undo structure; \<open>None\<close> is a panic or an access outside of the set.\<close>

fun exit_ents :: "undo list \<Rightarrow> sem_state \<Rightarrow> sem_state option" where
  "exit_ents [] st = Some st"
| "exit_ents (u # us) st =
     (if un_id u \<ge> length (sema st) then None
      else case sema st ! un_id u of
          None \<Rightarrow> None
        | Some ds \<Rightarrow>
            if un_num u \<ge> uint (sem_nsems ds) \<or> un_num u < 0 then None
            else
              exit_ents us (upd_set (un_id u) (upd_sem (nat (un_num u)) (\<lambda>s. s\<lparr>semval :=
                (if un_adjval u < 0 \<and> uint (semval s) < - un_adjval u then 0 else semval s + word_of_int (un_adjval u))\<rparr>)) st))"

definition semexit :: "nat \<Rightarrow> sem_state \<Rightarrow> sem_state option" where
  "semexit p st =
     (case find (\<lambda>su. un_proc su = p) (semu_list st) of
        None \<Rightarrow> Some st
      | Some su \<Rightarrow>
          map_option (\<lambda>st. st\<lparr>semu_list := remove1 su (semu_list st), semutot := semutot st - 1\<rparr>) (exit_ents (un_ent su) st))"

section \<open>Limits\<close>

datatype sem_limit = SEMMNI | SEMMNS | SEMMNU | SEMMSL | SEMOPM

text \<open>
  \<^verbatim>\<open>sysctl_sysvsem\<close> for the limits that can be changed, with the result of \<^verbatim>\<open>sysctl_int\<close>: an error, or the new value (the old one
  when none is given).
\<close>

definition limit_of :: "sem_limit \<Rightarrow> seminfo \<Rightarrow> int" where
  "limit_of l i = (case l of SEMMNI \<Rightarrow> semmni i | SEMMNS \<Rightarrow> semmns i | SEMMNU \<Rightarrow> semmnu i | SEMMSL \<Rightarrow> semmsl i | SEMOPM \<Rightarrow> semopm i)"

definition sysctl_sysvsem :: "sem_limit \<Rightarrow> errno + int \<Rightarrow> sem_state \<Rightarrow> errno option \<times> sem_state" where
  "sysctl_sysvsem l res st =
     (case res of Inl e \<Rightarrow> (Some e, st)
      | Inr val \<Rightarrow>
          let i = info st; old = limit_of l i
          in if val = old then (None, st)
             else case l of
                 SEMMNI \<Rightarrow>
                   if val < old \<or> val > 0xffff then (Some EINVAL, st)
                   else (None, st\<lparr>sema := sema st @ replicate (nat (val - old)) None, semseqs := semseqs st @ replicate (nat (val - old)) 0,
                                  info := i\<lparr>semmni := val\<rparr>\<rparr>)
               | SEMMNS \<Rightarrow> if val < old \<or> val > 0xffff then (Some EINVAL, st) else (None, st\<lparr>info := i\<lparr>semmns := val\<rparr>\<rparr>)
               | SEMMNU \<Rightarrow> if val < old then (Some EINVAL, st) else (None, st\<lparr>info := i\<lparr>semmnu := val\<rparr>\<rparr>)
               | SEMMSL \<Rightarrow> if val < old \<or> val > 0xffff then (Some EINVAL, st) else (None, st\<lparr>info := i\<lparr>semmsl := val\<rparr>\<rparr>)
               | SEMOPM \<Rightarrow> if val \<le> 0 then (Some EINVAL, st) else (None, st\<lparr>info := i\<lparr>semopm := val\<rparr>\<rparr>))"

section \<open>Initialisation\<close>

definition seminit :: "seminfo \<Rightarrow> sem_state" where
  "seminit i = \<lparr>sema = replicate (nat (semmni i)) None, semseqs = replicate (nat (semmni i)) 0, semu_list = [], semtot = 0, semutot = 0, info = i\<rparr>"

section \<open>Invariant\<close>

text \<open>The shape of the table: the size of every set, as the set says and as its array has it.\<close>

definition shape :: "semid_ds \<Rightarrow> int \<times> nat" where
  "shape ds = (uint (sem_nsems ds), length (sem_base ds))"

definition shapes :: "sem_state \<Rightarrow> (int \<times> nat) option list" where
  "shapes st = map (map_option shape) (sema st)"

definition size_at :: "(int \<times> nat) option list \<Rightarrow> nat \<Rightarrow> int" where
  "size_at sh k = (if k < length sh then case sh ! k of None \<Rightarrow> 0 | Some (n, l) \<Rightarrow> n else 0)"

definition tab_ok :: "(int \<times> nat) option list \<Rightarrow> nat \<Rightarrow> seminfo \<Rightarrow> int \<Rightarrow> bool" where
  "tab_ok sh nseqs i tot \<longleftrightarrow> int (length sh) = semmni i \<and> nseqs = length sh \<and> length sh \<le> 2 ^ 16 \<and> semmsl i \<le> 2 ^ 15
     \<and> (\<forall>n l. Some (n, l) \<in> set sh \<longrightarrow> n = int l \<and> 0 < l \<and> n \<le> 2 ^ 15) \<and> tot = (\<Sum>k<length sh. size_at sh k)"

text \<open>An entry of an undo structure refers to a semaphore that exists.\<close>

definition ent_ok :: "(int \<times> nat) option list \<Rightarrow> undo \<Rightarrow> bool" where
  "ent_ok sh u \<longleftrightarrow> 0 \<le> un_num u \<and> un_num u < size_at sh (un_id u)"

definition ent_key :: "undo \<Rightarrow> nat \<times> int" where
  "ent_key u = (un_id u, un_num u)"

definition ents_ok :: "(int \<times> nat) option list \<Rightarrow> undo list \<Rightarrow> bool" where
  "ents_ok sh ents \<longleftrightarrow> length ents \<le> SEMUME \<and> list_all (ent_ok sh) ents \<and> distinct (map ent_key ents)"

definition undo_inv :: "(int \<times> nat) option list \<Rightarrow> sem_undo list \<Rightarrow> int \<Rightarrow> int \<Rightarrow> bool" where
  "undo_inv sh sus tot mx \<longleftrightarrow> tot = int (length sus) \<and> tot \<le> mx \<and> distinct (map un_proc sus)
     \<and> list_all (\<lambda>su. ents_ok sh (un_ent su) \<and> un_ent su \<noteq> []) sus"

definition sem_inv :: "sem_state \<Rightarrow> bool" where
  "sem_inv st \<longleftrightarrow> tab_ok (shapes st) (length (semseqs st)) (info st) (semtot st)
     \<and> undo_inv (shapes st) (semu_list st) (semutot st) (semmnu (info st))"

lemma shapes_upd [simp]:
  "shapes (st\<lparr>semu_list := a\<rparr>) = shapes st" "shapes (st\<lparr>semutot := b\<rparr>) = shapes st" "shapes (st\<lparr>semtot := c\<rparr>) = shapes st"
  "shapes (st\<lparr>semseqs := d\<rparr>) = shapes st" "shapes (st\<lparr>info := e\<rparr>) = shapes st" "shapes (st\<lparr>sema := s\<rparr>) = map (map_option shape) s"
  by (simp_all add: shapes_def)

lemma length_shapes [simp]: "length (shapes st) = length (sema st)"
  by (simp add: shapes_def)

lemma shapes_upd_set:
  assumes "\<And>ds. k < length (sema st) \<Longrightarrow> sema st ! k = Some ds \<Longrightarrow> shape (f ds) = shape ds"
  shows "shapes (upd_set k f st) = shapes st"
  using assms by (cases "sema st ! k") (auto simp: upd_set_def shapes_def map_update intro: list_update_same_conv [THEN iffD2] nth_equalityI simp: nth_list_update)

lemma upd_set_frame [simp]:
  "semu_list (upd_set k f st) = semu_list st" "semutot (upd_set k f st) = semutot st" "semtot (upd_set k f st) = semtot st"
  "semseqs (upd_set k f st) = semseqs st" "info (upd_set k f st) = info st" "length (sema (upd_set k f st)) = length (sema st)"
  by (simp_all add: upd_set_def)

lemma shape_upd_sem [simp]: "shape (upd_sem n f ds) = shape ds"
  by (simp add: shape_def upd_sem_def)

lemma sem_inv_cong:
  assumes "sem_inv st" and "shapes st' = shapes st" "semseqs st' = semseqs st" "info st' = info st" "semtot st' = semtot st"
    "semu_list st' = semu_list st" "semutot st' = semutot st"
  shows "sem_inv st'"
  using assms by (simp add: sem_inv_def)

section \<open>Undo entries\<close>

lemma mset_drop_ent: "i < length ents \<Longrightarrow> mset (drop_ent i ents) = mset ents - {#ents ! i#}"
proof (induction ents rule: rev_induct)
  case (snoc x xs)
  show ?case
  proof (cases "i < length xs")
    case True
    then have "mset (drop_ent i (xs @ [x])) = mset (xs[i := x])" by (simp add: drop_ent_def nth_append)
    also have "\<dots> = add_mset x (mset xs - {#xs ! i#})" using True by (simp add: mset_update)
    also have "\<dots> = mset (xs @ [x]) - {#(xs @ [x]) ! i#}" using True by (simp add: nth_append add_mset_remove_trivial_eq multiset_eq_iff)
    finally show ?thesis .
  next
    case False
    then show ?thesis using snoc.prems by (simp add: drop_ent_def nth_append less_Suc_eq)
  qed
qed simp

lemma length_drop_ent [simp]: "length (drop_ent i ents) = length ents - 1"
  by (simp add: drop_ent_def Let_def)

lemma drop_ent_keep: "j < i \<Longrightarrow> i < length ents \<Longrightarrow> drop_ent i ents ! j = ents ! j"
  by (simp add: drop_ent_def Let_def)

lemma distinct_map_sub:
  assumes "mset ys \<subseteq># mset xs" and "distinct (map f xs)"
  shows "distinct (map f ys)"
proof -
  have "image_mset f (mset ys) \<subseteq># image_mset f (mset xs)" by (rule image_mset_subseteq_mono [OF assms(1)])
  then have "count (mset (map f ys)) x \<le> count (mset (map f xs)) x" for x by (simp add: mset_subset_eq_count)
  moreover have "count (mset (map f xs)) x \<le> 1" for x using assms(2) by (simp add: distinct_count_atmost_1)
  ultimately have "count (mset (map f ys)) x \<le> 1" for x by (meson order.trans)
  then show ?thesis unfolding distinct_count_atmost_1
    by (metis One_nat_def Suc_leI count_greater_zero_iff le_antisym less_one not_gr_zero not_in_iff set_mset_mset)
qed

lemma ents_ok_sub:
  assumes "ents_ok sh ents" and "mset ents' \<subseteq># mset ents"
  shows "ents_ok sh ents'"
proof -
  have "length ents' \<le> length ents" using size_mset_mono [OF assms(2)] by simp
  moreover have "set ents' \<subseteq> set ents" using set_mset_mono [OF assms(2)] by simp
  ultimately show ?thesis using assms distinct_map_sub [OF assms(2)] by (auto simp: ents_ok_def list_all_iff)
qed

lemma clear_ents_sub: "mset (clear_ents semid semnum i ents) \<subseteq># mset ents"
proof (induction semid semnum i ents rule: clear_ents.induct)
  case (1 semid semnum i ents)
  have d: "i < length ents \<Longrightarrow> mset (drop_ent i ents) \<subseteq># mset ents" by (simp add: mset_drop_ent)
  show ?case by (subst clear_ents.simps) (use 1 d in \<open>auto intro: subset_mset.order_trans\<close>)
qed

lemma clear_ents_all:
  "\<forall>j<i. un_id (ents ! j) \<noteq> semid \<Longrightarrow> \<forall>u\<in>set (clear_ents semid (-1) i ents). un_id u \<noteq> semid"
proof (induction semid "-1 :: int" i ents rule: clear_ents.induct)
  case (1 semid i ents)
  consider (stop) "\<not> i < length ents" | (hit) "i < length ents" "un_id (ents ! i) = semid" | (on) "i < length ents" "un_id (ents ! i) \<noteq> semid" by blast
  then show ?case
  proof cases
    case stop
    then have "\<forall>u\<in>set ents. un_id u \<noteq> semid" using "1.prems" by (auto simp: all_set_conv_all_nth)
    then show ?thesis using stop by (subst clear_ents.simps) simp
  next
    case hit
    then have "\<forall>j<i. un_id (drop_ent i ents ! j) \<noteq> semid" using "1.prems" by (simp add: drop_ent_keep)
    then show ?thesis using "1.hyps"(1) hit by (subst clear_ents.simps) simp
  next
    case on
    then show ?thesis using "1.hyps"(2) "1.prems" by (subst clear_ents.simps) (simp add: less_Suc_eq)
  qed
qed

text \<open>Entries that do not refer to a set stay good when the set is removed.\<close>

lemma size_at_other [simp]: "j \<noteq> k \<Longrightarrow> size_at (sh[k := x]) j = size_at sh j"
  by (simp add: size_at_def)

lemma ents_ok_removed:
  assumes "ents_ok sh ents" and "\<forall>u\<in>set ents. un_id u \<noteq> k"
  shows "ents_ok (sh[k := x]) ents"
  using assms by (auto simp: ents_ok_def list_all_iff ent_ok_def)

lemma undo_inv_clear:
  assumes inv: "undo_inv sh (semu_list st) (semutot st) mx" and ok: "\<And>ents. ents_ok sh ents \<Longrightarrow> ents_ok sh' (clear_ents semid semnum 0 ents)"
  shows "undo_inv sh' (semu_list (semundo_clear semid semnum st)) (semutot (semundo_clear semid semnum st)) mx"
proof -
  define sus where "sus = map (\<lambda>su. su\<lparr>un_ent := clear_ents semid semnum 0 (un_ent su)\<rparr>) (semu_list st)"
  define kept where "kept = filter (\<lambda>su. un_ent su \<noteq> []) sus"
  have "length kept \<le> length sus" by (simp add: kept_def)
  moreover have "map un_proc sus = map un_proc (semu_list st)" by (simp add: sus_def)
  then have "distinct (map un_proc kept)" using inv by (simp add: kept_def undo_inv_def distinct_map_filter)
  moreover have "list_all (\<lambda>su. ents_ok sh' (un_ent su) \<and> un_ent su \<noteq> []) kept"
    using inv ok by (auto simp: kept_def sus_def undo_inv_def list_all_iff)
  ultimately show ?thesis using inv
    unfolding semundo_clear_def Let_def sus_def [symmetric] kept_def [symmetric] by (auto simp: undo_inv_def sus_def)
qed

lemma semundo_clear_frame [simp]:
  "sema (semundo_clear a b st) = sema st" "semseqs (semundo_clear a b st) = semseqs st" "info (semundo_clear a b st) = info st"
  "semtot (semundo_clear a b st) = semtot st" "shapes (semundo_clear a b st) = shapes st"
  by (simp_all add: semundo_clear_def Let_def)

lemma sem_inv_clear: "sem_inv st \<Longrightarrow> sem_inv (semundo_clear semid semnum st)"
  using undo_inv_clear [of "shapes st" st "semmnu (info st)" "shapes st" semid semnum] ents_ok_sub [OF _ clear_ents_sub]
  by (simp add: sem_inv_def)

lemma ent_index_Some:
  "ent_index semid semnum ents = Some i \<Longrightarrow> i < length ents \<and> un_id (ents ! i) = semid \<and> un_num (ents ! i) = semnum"
  by (induction ents arbitrary: i) (auto split: if_splits)

lemma ent_index_None: "ent_index semid semnum ents = None \<Longrightarrow> u \<in> set ents \<Longrightarrow> ent_key u \<noteq> (semid, semnum)"
  by (induction ents) (auto simp: ent_key_def split: if_splits)

lemma s16_id: "- (2 ^ 15) \<le> x \<Longrightarrow> x < 2 ^ 15 \<Longrightarrow> s16 x = x"
  by (simp add: s16_def)

lemma adjust_ents_ok:
  assumes ents: "ents_ok sh ents" and num: "0 \<le> semnum" "semnum < size_at sh semid" "semnum < 2 ^ 15" and r: "adjust_ents semid semnum adjval ents = Inr ents'"
  shows "ents_ok sh ents'" and "adjval \<noteq> 0 \<Longrightarrow> ents = [] \<Longrightarrow> ents' \<noteq> []"
proof -
  show "ents_ok sh ents'"
  proof (cases "ent_index semid semnum ents")
    case None
    then have "adjval = 0 \<and> ents' = ents \<or> length ents \<noteq> SEMUME \<and> ents' = ents @ [\<lparr>un_adjval = s16 adjval, un_num = semnum, un_id = semid\<rparr>]"
      using r num by (auto simp: adjust_ents_def s16_id split: if_splits)
    moreover have "(semid, semnum) \<notin> ent_key ` set ents" using ent_index_None [OF None] by force
    ultimately show ?thesis using ents num by (auto simp: ents_ok_def ent_ok_def ent_key_def)
  next
    case (Some i)
    note i = ent_index_Some [OF Some]
    consider (set) v where "ents' = ents[i := (ents ! i)\<lparr>un_adjval := v\<rparr>]" | (dropped) "ents' = drop_ent i ents"
      using r Some by (auto simp: adjust_ents_def Let_def split: if_splits)
    then show ?thesis
    proof cases
      case set
      have "map ent_key ents' = map ent_key ents" using i by (intro nth_equalityI) (auto simp: set ent_key_def nth_list_update)
      moreover have "list_all (ent_ok sh) ents'" using ents i
        by (auto simp: set ents_ok_def list_all_length ent_ok_def nth_list_update)
      ultimately show ?thesis using ents by (simp add: ents_ok_def set)
    next
      case dropped
      then show ?thesis using ents_ok_sub [OF ents] i by (simp add: mset_drop_ent)
    qed
  qed
  show "adjval \<noteq> 0 \<Longrightarrow> ents = [] \<Longrightarrow> ents' \<noteq> []" using r by (auto simp: adjust_ents_def split: if_splits)
qed

text \<open>A list of undo structures in which the one of \<open>p\<close> may still be empty.\<close>

definition undo_pre :: "nat \<Rightarrow> (int \<times> nat) option list \<Rightarrow> sem_undo list \<Rightarrow> bool" where
  "undo_pre p sh sus \<longleftrightarrow> distinct (map un_proc sus) \<and> list_all (\<lambda>su. ents_ok sh (un_ent su) \<and> (un_proc su = p \<or> un_ent su \<noteq> [])) sus"

lemma on_undo_ok:
  assumes "undo_pre p sh sus" and "on_undo p f sus = Some (e, sus', d)"
    and f: "\<And>ents ents'. ents_ok sh ents \<Longrightarrow> f ents = Inr ents' \<Longrightarrow> ents_ok sh ents' \<and> (ents = [] \<longrightarrow> ents' \<noteq> [])"
    and e: "\<And>x. f [] \<noteq> Inl x"
  shows "distinct (map un_proc sus') \<and> set (map un_proc sus') \<subseteq> set (map un_proc sus)
    \<and> list_all (\<lambda>su. ents_ok sh (un_ent su) \<and> un_ent su \<noteq> []) sus' \<and> length sus = length sus' + (if d then 1 else 0)"
  using assms(1,2)
proof (induction sus arbitrary: sus')
  case (Cons su sus)
  show ?case
  proof (cases "un_proc su = p")
    case True
    have "p \<notin> un_proc ` set sus" using Cons.prems(1) True by (simp add: undo_pre_def)
    then have "\<forall>su'\<in>set sus. un_proc su' \<noteq> p" by force
    then have rest: "list_all (\<lambda>su. ents_ok sh (un_ent su) \<and> un_ent su \<noteq> []) sus" "distinct (map un_proc sus)" "p \<notin> un_proc ` set sus" "ents_ok sh (un_ent su)"
      using Cons.prems(1) True by (auto simp: undo_pre_def list_all_iff)
    show ?thesis
    proof (cases "f (un_ent su)")
      case (Inl x)
      then have "un_ent su \<noteq> []" using e by metis
      then show ?thesis using Cons.prems(2) True Inl rest by auto
    next
      case (Inr ents)
      then have "ents_ok sh ents" "un_ent su = [] \<longrightarrow> ents \<noteq> []" using f rest(4) by auto
      then show ?thesis using Cons.prems(2) True Inr rest by (auto split: if_splits)
    qed
  next
    case False
    then obtain sus'' where "on_undo p f sus = Some (e, sus'', d)" "sus' = su # sus''" using Cons.prems(2) by auto
    moreover have "undo_pre p sh sus" "ents_ok sh (un_ent su)" "un_ent su \<noteq> []" "un_proc su \<notin> un_proc ` set sus" using Cons.prems(1) False by (auto simp: undo_pre_def)
    ultimately show ?thesis using Cons.IH by auto
  qed
qed simp

text \<open>The state in which an adjustment for \<open>p\<close> starts once there is an undo structure.\<close>

definition undo_start :: "nat \<Rightarrow> sem_state \<Rightarrow> sem_state \<Rightarrow> bool" where
  "undo_start p st st1 \<longleftrightarrow> undo_pre p (shapes st) (semu_list st1) \<and> semutot st1 = int (length (semu_list st1)) \<and> semutot st1 \<le> semmnu (info st)
     \<and> sema st1 = sema st \<and> info st1 = info st \<and> semseqs st1 = semseqs st \<and> semtot st1 = semtot st \<and> shapes st1 = shapes st"

definition semu_new :: "nat \<Rightarrow> sem_state \<Rightarrow> sem_state" where
  "semu_new p st = st\<lparr>semutot := semutot st + 1, semu_list := \<lparr>un_proc = p, un_ent = []\<rparr> # semu_list st\<rparr>"

lemma semu_alloc_now: "semutot st \<noteq> semmnu (info st) \<Longrightarrow> semu_alloc None p st = (True, semu_new p st)"
  by (simp add: semu_alloc_def semu_new_def Let_def)

lemma undo_start_old: "undo_inv (shapes st) (semu_list st) (semutot st) (semmnu (info st)) \<Longrightarrow> undo_start p st st"
  by (auto simp: undo_start_def undo_inv_def undo_pre_def list_all_iff)

lemma undo_start_new:
  assumes "undo_inv (shapes st) (semu_list st) (semutot st) (semmnu (info st))" and "\<not> has_undo p st" and "semutot st \<noteq> semmnu (info st)"
  shows "undo_start p st (semu_new p st)"
  using assms by (auto simp: undo_start_def undo_inv_def undo_pre_def list_all_iff semu_new_def has_undo_def ents_ok_def)

lemma semundo_adjust_inv:
  assumes inv: "sem_inv st" and num: "0 \<le> semnum" "semnum < size_at (shapes st) semid" "semnum < 2 ^ 15" and adj: "adjval \<noteq> 0"
    and r: "semundo_adjust None p known semid semnum adjval st = Some (e, known', st')"
  shows "sem_inv st' \<and> sema st' = sema st \<and> info st' = info st"
proof -
  have u: "undo_inv (shapes st) (semu_list st) (semutot st) (semmnu (info st))" using inv by (simp add: sem_inv_def)
  consider (none) "\<not> (known \<or> has_undo p st)" "semutot st = semmnu (info st)" | (old) "known \<or> has_undo p st"
    | (new) "\<not> (known \<or> has_undo p st)" "semutot st \<noteq> semmnu (info st)" by blast
  then consider (none) "\<not> (known \<or> has_undo p st)" "semutot st = semmnu (info st)"
    | (got) st1 where "(if known \<or> has_undo p st then (True, st) else if adjval = 0 then (False, st) else semu_alloc None p st) = (True, st1)" "undo_start p st st1"
  proof cases
    case old
    then show ?thesis using that(2) [of st] undo_start_old [OF u] by simp
  next
    case new
    then show ?thesis using that(2) [OF _ undo_start_new [OF u]] adj semu_alloc_now [OF new(2)] by simp
  qed blast
  then show ?thesis
  proof cases
    case none
    then have "st' = st" using r adj by (auto simp: semundo_adjust_def semu_alloc_def)
    then show ?thesis using inv by simp
  next
    case got
    from got(1) obtain sus freed where s: "on_undo p (adjust_ents semid semnum adjval) (semu_list st1) = Some (e, sus, freed)"
      "st' = st1\<lparr>semu_list := sus, semutot := (if freed then semutot st1 - 1 else semutot st1)\<rparr>"
      using r by (auto simp: semundo_adjust_def Let_def)
    have "distinct (map un_proc sus) \<and> set (map un_proc sus) \<subseteq> set (map un_proc (semu_list st1))
        \<and> list_all (\<lambda>su. ents_ok (shapes st) (un_ent su) \<and> un_ent su \<noteq> []) sus \<and> length (semu_list st1) = length sus + (if freed then 1 else 0)"
    proof (rule on_undo_ok [OF _ s(1)])
      show "undo_pre p (shapes st) (semu_list st1)" using got(2) by (simp add: undo_start_def)
      show "ents_ok (shapes st) ents' \<and> (ents = [] \<longrightarrow> ents' \<noteq> [])" if "ents_ok (shapes st) ents" "adjust_ents semid semnum adjval ents = Inr ents'" for ents ents'
        using adjust_ents_ok [OF that(1) num that(2)] adj by simp
      show "adjust_ents semid semnum adjval [] \<noteq> Inl x" for x by (simp add: adjust_ents_def SEMUME_def)
    qed
    then show ?thesis using got(2) inv s(2) by (auto simp: sem_inv_def undo_inv_def undo_start_def)
  qed
qed

section \<open>Every call keeps the invariant\<close>

lemma sem_inv_upd_set:
  assumes "sem_inv st" and "\<And>ds. k < length (sema st) \<Longrightarrow> sema st ! k = Some ds \<Longrightarrow> shape (f ds) = shape ds"
  shows "sem_inv (upd_set k f st)"
  using assms shapes_upd_set [of k st f] by (simp add: sem_inv_def)

lemma set_at:
  assumes "sem_inv st" and "k < length (sema st)" and "sema st ! k = Some ds"
  shows "uint (sem_nsems ds) = int (length (sem_base ds))" and "length (sem_base ds) \<le> 2 ^ 15" and "0 < length (sem_base ds)"
    and "size_at (shapes st) k = uint (sem_nsems ds)"
proof -
  have s: "shapes st ! k = Some (shape ds)" using assms by (simp add: shapes_def)
  then have "Some (shape ds) \<in> set (shapes st)" using assms(2) by (metis length_shapes nth_mem)
  then have "uint (sem_nsems ds) = int (length (sem_base ds)) \<and> 0 < length (sem_base ds) \<and> uint (sem_nsems ds) \<le> 2 ^ 15"
    using assms(1) by (fastforce simp: sem_inv_def tab_ok_def shape_def)
  then show "uint (sem_nsems ds) = int (length (sem_base ds))" "length (sem_base ds) \<le> 2 ^ 15" "0 < length (sem_base ds)" by auto
  show "size_at (shapes st) k = uint (sem_nsems ds)" using s assms(2) by (simp add: size_at_def shape_def)
qed

lemma sem_lookup_Some:
  assumes "sem_lookup semid st = Some (ix, ds)" and "sem_inv st"
  shows "ix = IPCID_TO_IX semid" and "ix < length (sema st)" and "sema st ! ix = Some ds" and "seq (sem_perm ds) = IPCID_TO_SEQ semid"
  using assms by (auto simp: sem_lookup_def Let_def sem_inv_def tab_ok_def split: if_splits option.splits)

lemma length_try_ops [simp]: "length (fst (try_ops nsems i sops base wake undos)) = length base"
  by (induction nsems i sops base wake undos rule: try_ops.induct) (auto simp: Let_def)

lemma length_rollback [simp]: "length (rollback sops base) = length base"
  by (induction sops arbitrary: base) (simp_all add: rollback_def)

lemma shape_fold_upd [simp]: "shape (fold (\<lambda>sop. upd_sem (g sop) f) sops ds) = shape ds"
  by (induction sops arbitrary: ds) simp_all

lemma shape_otime [simp]: "shape (ds\<lparr>sem_otime := t\<rparr>) = shape ds"
  by (simp add: shape_def)

lemma try_ops_through:
  assumes "try_ops nsems i sops base wake undos = (base', w, u, Through)" and "sop \<in> set sops"
  shows "int (sem_num sop) < uint nsems"
  using assms
proof (induction nsems i sops base wake undos rule: try_ops.induct)
  case (2 nsems i sop' sops base wake undos)
  then show ?case by (auto simp: Let_def split: if_splits)
qed simp

text \<open>The loop that takes adjustments back never ends well.\<close>

declare undo_undos.simps [simp del]

lemma undo_undos_None: "undo_undos wait p ix sops j known st = None"
proof (induction j arbitrary: known st)
  case 0
  show ?case by (subst undo_undos.simps) (auto simp: bind_eq_None_conv split: option.splits)
next
  case (Suc j)
  show ?case by (subst undo_undos.simps) (auto simp: Suc bind_eq_None_conv split: option.splits)
qed

lemma shape_rollback [simp]: "shape (ds\<lparr>sem_base := rollback sops (sem_base ds)\<rparr>) = shape ds"
  by (simp add: shape_def)

lemma undo_loop_inv:
  assumes "sem_inv st" and "\<forall>sop\<in>set sops. int (sem_num sop) < size_at (shapes st) ix \<and> sem_num sop < 2 ^ 15"
    and "undo_loop None p ix all i sops known st = Some (e, st')"
  shows "sem_inv st' \<and> sema st' = sema st \<and> info st' = info st"
  using assms
proof (induction sops arbitrary: i known st)
  case (Cons sop sops)
  show ?case
  proof (cases "wants_undo sop")
    case True
    then obtain e1 known1 st1 where a: "semundo_adjust None p known ix (int (sem_num sop)) (- sem_op sop) st = Some (e1, known1, st1)"
      using Cons.prems(3) by (auto simp: bind_eq_Some_conv)
    have st1: "sem_inv st1 \<and> sema st1 = sema st \<and> info st1 = info st"
      by (rule semundo_adjust_inv [OF Cons.prems(1) _ _ _ _ a]) (use Cons.prems(2) True in \<open>auto simp: wants_undo_def\<close>)
    then have sh: "shapes st1 = shapes st" by (simp add: shapes_def)
    show ?thesis
    proof (cases e1)
      case None
      then have "undo_loop None p ix all (Suc i) sops known1 st1 = Some (e, st')" using Cons.prems(3) True a by simp
      then show ?thesis using Cons.IH [of st1] st1 sh Cons.prems(2) by auto
    next
      case (Some x)
      then have "st' = st1" using Cons.prems(3) True a undo_undos_None by (auto split: if_splits)
      then show ?thesis using st1 by simp
    qed
  next
    case False
    then show ?thesis using Cons.IH [of st] Cons.prems by auto
  qed
qed simp

lemma semop_pass_inv:
  assumes inv: "sem_inv st" and k: "k < length (sema st)"
  shows "(case semop_pass now None p k k sops u st of SemRet r \<Rightarrow> sem_inv (ret_st r) | SemSleep i u' st' \<Rightarrow> sem_inv st' | SemFault \<Rightarrow> True)"
proof (cases "sema st ! k")
  case None
  then show ?thesis by (simp add: semop_pass_def)
next
  case (Some ds)
  obtain base wake undos fin where t: "try_ops (sem_nsems ds) 0 sops (sem_base ds) False u = (base, wake, undos, fin)" by (metis prod_cases4)
  have len: "length base = length (sem_base ds)" using length_try_ops [of "sem_nsems ds" 0 sops "sem_base ds" False u] t by simp
  have put: "sem_inv (upd_set k (\<lambda>ds. ds\<lparr>sem_base := b\<rparr>) st)" if "length b = length (sem_base ds)" for b
    by (rule sem_inv_upd_set [OF inv]) (use Some that in \<open>simp add: shape_def\<close>)
  show ?thesis
  proof (cases fin)
    case BadNum
    then show ?thesis using Some t put [OF len] by (simp add: semop_pass_def)
  next
    case (Blocked i)
    then show ?thesis using Some t put len by (simp add: semop_pass_def Let_def)
  next
    case Through
    define st1 where "st1 = upd_set k (\<lambda>ds. ds\<lparr>sem_base := base\<rparr>) st"
    have st1: "sem_inv st1" "shapes st1 = shapes st" "length (sema st1) = length (sema st)"
      using put [OF len] shapes_upd_set [of k st "\<lambda>ds. ds\<lparr>sem_base := base\<rparr>"] Some len by (simp_all add: st1_def shape_def)
    have nums: "\<forall>sop\<in>set sops. int (sem_num sop) < size_at (shapes st1) k \<and> sem_num sop < 2 ^ 15"
      using try_ops_through [of "sem_nsems ds" 0 sops "sem_base ds" False u base wake undos] t Through set_at [OF inv k Some] st1(2) by fastforce
    have "sem_inv st' \<and> length (sema st') = length (sema st)"
      if "(if undos then undo_loop None (p_self p) k sops 0 sops False st1 else Some (None, st1)) = Some (e, st')" for e st'
      using that undo_loop_inv [OF st1(1) nums, of "p_self p" sops 0 False e st'] st1 by (auto split: if_splits)
    then show ?thesis using Some t Through
      by (auto simp: semop_pass_def st1_def [symmetric] intro!: sem_inv_upd_set split: option.splits)
  qed
qed

lemma ents_ok_elsewhere:
  assumes "ents_ok sh ents" and "size_at sh k = 0"
  shows "ents_ok (sh[k := x]) ents"
  using assms by (intro ents_ok_removed) (auto simp: ents_ok_def list_all_iff ent_ok_def)

lemma sum_size_update:
  assumes "k < length sh"
  shows "(\<Sum>j<length sh. size_at (sh[k := x]) j) = (\<Sum>j<length sh. size_at sh j) - size_at sh k + (case x of None \<Rightarrow> 0 | Some (n, l) \<Rightarrow> n)"
proof -
  have "(\<Sum>j<length sh. size_at s j) = size_at s k + (\<Sum>j\<in>{..<length sh} - {k}. size_at s j)" for s
    using assms by (simp add: sum.remove)
  from this [of "sh[k := x]"] this [of sh] show ?thesis using assms by (simp add: size_at_def)
qed

lemma setall_length [simp]: "length (snd (setall a i ss)) = length ss"
  by (induction ss arbitrary: i) (auto simp: Let_def case_prod_beta split: sum.splits)

lemma find_free_Some: "find_free xs = Some k \<Longrightarrow> k < length xs \<and> xs ! k = None"
  by (induction xs arbitrary: k) (auto split: if_splits)

lemma find_key_Some: "find_key x xs = Some k \<Longrightarrow> k < length xs \<and> (\<exists>ds. xs ! k = Some ds \<and> key (sem_perm ds) = x)"
  by (induction xs arbitrary: k) (auto split: if_splits option.splits)

lemma sem_inv_remove:
  assumes inv: "sem_inv st" and ix: "ix < length (sema st)" "sema st ! ix = Some ds"
  shows "sem_inv (semundo_clear ix (-1) (st\<lparr>semtot := semtot st - uint (sem_nsems ds), sema := (sema st)[ix := None]\<rparr>))"
proof -
  let ?st = "st\<lparr>semtot := semtot st - uint (sem_nsems ds), sema := (sema st)[ix := None]\<rparr>"
  have sh: "shapes ?st = (shapes st)[ix := None]" by (simp add: shapes_def map_update)
  have "tab_ok ((shapes st)[ix := None]) (length (semseqs st)) (info st) (semtot st - uint (sem_nsems ds))"
    using inv set_at(4) [OF inv ix] sum_size_update [of ix "shapes st" None] ix
    by (auto simp: sem_inv_def tab_ok_def dest!: set_update_subset_insert [THEN subsetD])
  moreover have "undo_inv ((shapes st)[ix := None]) (semu_list (semundo_clear ix (-1) ?st)) (semutot (semundo_clear ix (-1) ?st)) (semmnu (info st))"
  proof (rule undo_inv_clear [of "shapes st"])
    show "undo_inv (shapes st) (semu_list ?st) (semutot ?st) (semmnu (info st))" using inv by (simp add: sem_inv_def)
    show "ents_ok ((shapes st)[ix := None]) (clear_ents ix (-1) 0 ents)" if "ents_ok (shapes st) ents" for ents
      using that clear_ents_all [of 0 ents ix] by (intro ents_ok_removed ents_ok_sub [OF that clear_ents_sub]) auto
  qed
  ultimately show ?thesis using sh by (simp add: sem_inv_def)
qed

lemma semctl1_inv:
  assumes inv: "sem_inv st"
  shows "sem_inv (ret_st (semctl1 now cred semid semnum cmd st))"
proof (cases "sem_lookup semid st")
  case (Some x)
  then obtain ix ds where l: "sem_lookup semid st = Some (ix, ds)" by (cases x) auto
  note s = sem_lookup_Some [OF l inv]
  have base: "sem_inv (upd_set ix (\<lambda>ds. ds\<lparr>sem_base := snd (setall a 0 (sem_base ds'))\<rparr>) st)" if "ds' = ds" for a ds'
    by (rule sem_inv_upd_set [OF inv]) (use s that in \<open>simp add: shape_def\<close>)
  have perm: "sem_inv (upd_set ix (\<lambda>ds. ds\<lparr>sem_perm := f ds, sem_ctime := now\<rparr>) st)" for f
    by (rule sem_inv_upd_set [OF inv]) (simp add: shape_def)
  have vl: "sem_inv (upd_set ix (upd_sem n f) st)" for n f by (rule sem_inv_upd_set [OF inv]) simp
  show ?thesis
    using inv l sem_inv_remove [OF inv s(2,3)] base perm vl
    by (cases cmd) (auto simp: semctl1_def get_field_def Let_def case_prod_beta intro!: sem_inv_clear split: option.splits sum.splits if_splits)
qed (simp add: semctl1_def inv)

lemma sys_semget_inv:
  assumes inv: "sem_inv st"
  shows "sem_inv (ret_st (sys_semget now addr cred k nsems semflg st))"
proof -
  have new: "sem_inv (st\<lparr>semseqs := (semseqs st)[ix := s], sema := (sema st)[ix := Some (new_set now addr cred k nsems semflg s)], semtot := semtot st + nsems\<rparr>)"
    if ix: "ix < length (sema st)" "sema st ! ix = None" and n: "0 < nsems" "nsems \<le> semmsl (info st)" for ix s
  proof -
    have n15: "nsems \<le> 2 ^ 15" using n inv by (simp add: sem_inv_def tab_ok_def)
    then have x: "shape (new_set now addr cred k nsems semflg s) = (nsems, nat nsems)"
      using n(1) by (simp add: shape_def new_set_def uint_word_of_int_eq take_bit_int_eq_self)
    have z: "size_at (shapes st) ix = 0" using ix by (simp add: size_at_def shapes_def)
    have "tab_ok ((shapes st)[ix := Some (nsems, nat nsems)]) (length (semseqs st)) (info st) (semtot st + nsems)"
      using inv z sum_size_update [of ix "shapes st" "Some (nsems, nat nsems)"] ix n n15
      by (auto simp: sem_inv_def tab_ok_def dest!: set_update_subset_insert [THEN subsetD])
    moreover have "undo_inv ((shapes st)[ix := Some (nsems, nat nsems)]) (semu_list st) (semutot st) (semmnu (info st))"
      using inv z by (auto simp: sem_inv_def undo_inv_def list_all_iff ents_ok_elsewhere)
    ultimately show ?thesis using x by (simp add: sem_inv_def shapes_def map_update)
  qed
  show ?thesis using inv new find_free_Some [of "sema st"]
    by (auto simp: sys_semget_def Let_def split: option.splits if_splits)
qed

lemma exit_ents_ok:
  assumes "list_all (ent_ok (shapes st)) ents"
  shows "\<exists>st'. exit_ents ents st = Some st' \<and> shapes st' = shapes st \<and> semu_list st' = semu_list st \<and> semutot st' = semutot st
    \<and> semtot st' = semtot st \<and> semseqs st' = semseqs st \<and> info st' = info st"
  using assms
proof (induction ents arbitrary: st)
  case (Cons u us)
  then have u: "0 \<le> un_num u" "un_num u < size_at (shapes st) (un_id u)" by (auto simp: ent_ok_def)
  then have "un_id u < length (sema st)" by (auto simp: size_at_def split: if_splits)
  moreover from this u obtain ds where ds: "sema st ! un_id u = Some ds" by (cases "sema st ! un_id u") (auto simp: size_at_def shapes_def)
  moreover have "un_num u < uint (sem_nsems ds)" using u ds calculation(1) by (simp add: size_at_def shapes_def shape_def)
  moreover have "shapes (upd_set (un_id u) (upd_sem n f) st) = shapes st" for n f by (rule shapes_upd_set) simp
  ultimately show ?case using Cons.IH [of "upd_set (un_id u) (upd_sem (nat (un_num u)) (\<lambda>s. s\<lparr>semval :=
      (if un_adjval u < 0 \<and> uint (semval s) < - un_adjval u then 0 else semval s + word_of_int (un_adjval u))\<rparr>)) st"] Cons.prems u(1) by auto
qed simp

lemma semexit_inv:
  assumes inv: "sem_inv st"
  shows "\<exists>st'. semexit p st = Some st' \<and> sem_inv st'"
proof (cases "find (\<lambda>su. un_proc su = p) (semu_list st)")
  case (Some su)
  then have su: "su \<in> set (semu_list st)" by (auto simp: find_Some_iff)
  then have "list_all (ent_ok (shapes st)) (un_ent su)" using inv by (auto simp: sem_inv_def undo_inv_def list_all_iff ents_ok_def)
  from exit_ents_ok [OF this] obtain st' where st': "exit_ents (un_ent su) st = Some st'" "shapes st' = shapes st" "semu_list st' = semu_list st"
    "semutot st' = semutot st" "semtot st' = semtot st" "semseqs st' = semseqs st" "info st' = info st" by blast
  have "undo_inv (shapes st) (remove1 su (semu_list st)) (semutot st - 1) (semmnu (info st))"
  proof -
    have u: "undo_inv (shapes st) (semu_list st) (semutot st) (semmnu (info st))" using inv by (simp add: sem_inv_def)
    have "mset (remove1 su (semu_list st)) \<subseteq># mset (semu_list st)" by simp
    from distinct_map_sub [OF this, of un_proc] u have "distinct (map un_proc (remove1 su (semu_list st)))" by (simp add: undo_inv_def)
    moreover have "0 < length (semu_list st)" using su by (cases "semu_list st") auto
    then have "int (length (remove1 su (semu_list st))) = int (length (semu_list st)) - 1" using su by (simp add: length_remove1 of_nat_diff Suc_le_eq del: length_greater_0_conv)
    ultimately show ?thesis using u set_remove1_subset [of su "semu_list st"] by (auto simp: undo_inv_def list_all_iff)
  qed
  then show ?thesis using Some st' inv by (auto simp: semexit_def sem_inv_def)
qed (simp add: semexit_def inv)

lemma sysctl_sysvsem_inv:
  assumes inv: "sem_inv st" and lim: "l = SEMMSL \<Longrightarrow> \<forall>v. res = Inr v \<longrightarrow> v \<le> 2 ^ 15"
  shows "sem_inv (snd (sysctl_sysvsem l res st))"
proof -
  have grow: "tab_ok (shapes st @ replicate n None) (length (semseqs st) + n) ((info st)\<lparr>semmni := v\<rparr>) (semtot st)"
    "undo_inv (shapes st @ replicate n None) (semu_list st) (semutot st) (semmnu (info st))"
    if "v = semmni (info st) + int n" "v \<le> 0xffff" for n v
  proof -
    have sz: "size_at (shapes st @ replicate n None) j = size_at (shapes st) j" for j
      by (auto simp: size_at_def nth_append)
    have "(\<Sum>j<length (sema st) + n. size_at (shapes st) j) = (\<Sum>j<length (sema st). size_at (shapes st) j)"
      by (rule sum.mono_neutral_right) (auto simp: size_at_def)
    then show "tab_ok (shapes st @ replicate n None) (length (semseqs st) + n) ((info st)\<lparr>semmni := v\<rparr>) (semtot st)"
      using inv that by (auto simp: sem_inv_def tab_ok_def sz)
    show "undo_inv (shapes st @ replicate n None) (semu_list st) (semutot st) (semmnu (info st))"
      using inv by (auto simp: sem_inv_def undo_inv_def list_all_iff ents_ok_def ent_ok_def sz)
  qed
  show ?thesis
  proof (cases res)
    case (Inr v)
    then show ?thesis using inv lim grow [of v "nat (v - semmni (info st))"]
      by (cases l) (auto simp: sysctl_sysvsem_def Let_def limit_of_def sem_inv_def tab_ok_def undo_inv_def shapes_def)
  qed (simp add: sysctl_sysvsem_def inv)
qed

section \<open>Reachable states\<close>

text \<open>The state that an outcome leaves, if it is not a fault.\<close>

fun outcome_state :: "semop_outcome \<Rightarrow> sem_state option" where
  "outcome_state (SemRet r) = Some (ret_st r)"
| "outcome_state (SemSleep i u st) = Some st"
| "outcome_state SemFault = None"

text \<open>
  Any sequence of calls of any processes. Memory for undo structures is at hand. A call goes on after its sleep if its set is
  still there or its memory is not in use as another set.
\<close>

inductive sem_reach :: "sem_state \<Rightarrow> bool" where
  init: "0 \<le> semmni i \<Longrightarrow> semmni i \<le> 2 ^ 16 \<Longrightarrow> semmsl i \<le> 2 ^ 15 \<Longrightarrow> 0 \<le> semmnu i \<Longrightarrow> sem_reach (seminit i)"
| get: "sem_reach st \<Longrightarrow> sem_reach (ret_st (sys_semget now addr cred k nsems semflg st))"
| ctl: "sem_reach st \<Longrightarrow> sem_reach (ret_st (semctl1 now cred semid semnum cmd st))"
| op: "sem_reach st \<Longrightarrow> outcome_state (sys_semop now None p semid nsops sops st) = Some st' \<Longrightarrow> sem_reach st'"
| wake: "sem_reach st \<Longrightarrow> IPCID_TO_IX semid < length (sema st) \<Longrightarrow> find_addr a (sema st) \<in> {None, Some (IPCID_TO_IX semid)} \<Longrightarrow>
    outcome_state (semop_wake now None p semid a sops i u intr st) = Some st' \<Longrightarrow> sem_reach st'"
| exit: "sem_reach st \<Longrightarrow> semexit p st = Some st' \<Longrightarrow> sem_reach st'"
| limit: "sem_reach st \<Longrightarrow> (\<And>v. l = SEMMSL \<Longrightarrow> res = Inr v \<Longrightarrow> v \<le> 2 ^ 15) \<Longrightarrow> sem_reach (snd (sysctl_sysvsem l res st))"

lemma sem_inv_init: "0 \<le> semmni i \<Longrightarrow> semmni i \<le> 2 ^ 16 \<Longrightarrow> semmsl i \<le> 2 ^ 15 \<Longrightarrow> 0 \<le> semmnu i \<Longrightarrow> sem_inv (seminit i)"
  by (auto simp: sem_inv_def seminit_def tab_ok_def undo_inv_def shapes_def size_at_def)

lemma pass_state_inv:
  "sem_inv st \<Longrightarrow> k < length (sema st) \<Longrightarrow> outcome_state (semop_pass now None p k k sops u st) = Some st' \<Longrightarrow> sem_inv st'"
  using semop_pass_inv [of st k now p sops u] by (cases "semop_pass now None p k k sops u st") auto

lemma sys_semop_inv:
  assumes "sem_inv st" and "outcome_state (sys_semop now None p semid nsops sops st) = Some st'"
  shows "sem_inv st'"
  using assms by (auto simp: sys_semop_def split: option.splits sum.splits if_splits) (meson pass_state_inv sem_lookup_Some(2))

lemma semop_wake_inv:
  assumes inv: "sem_inv st" and ix: "IPCID_TO_IX semid < length (sema st)" "find_addr a (sema st) \<in> {None, Some (IPCID_TO_IX semid)}"
    and r: "outcome_state (semop_wake now None p semid a sops i u intr st) = Some st'"
  shows "sem_inv st'"
proof -
  let ?st = "upd_set (IPCID_TO_IX semid) (upd_sem (sem_num (sops ! i)) (\<lambda>s. if sem_op (sops ! i) = 0
                           then s\<lparr>semzcnt := semzcnt s - 1\<rparr> else s\<lparr>semncnt := semncnt s - 1\<rparr>)) st"
  have "sem_inv ?st" by (rule sem_inv_upd_set [OF inv]) simp
  then show ?thesis using r inv ix pass_state_inv [of ?st "IPCID_TO_IX semid" now p sops u st']
    by (auto simp: semop_wake_def Let_def split: option.splits if_splits)
qed

lemma sem_reach_inv: "sem_reach st \<Longrightarrow> sem_inv st"
proof (induction rule: sem_reach.induct)
  case (init i)
  then show ?case by (rule sem_inv_init)
next
  case (get st now addr cred k nsems semflg)
  show ?case by (rule sys_semget_inv [OF get.IH])
next
  case (ctl st now cred semid semnum cmd)
  show ?case by (rule semctl1_inv [OF ctl.IH])
next
  case (op st now p semid nsops sops st')
  show ?case by (rule sys_semop_inv [OF op.IH op.hyps(2)])
next
  case (wake st semid a now p sops i u intr st')
  show ?case by (rule semop_wake_inv [OF wake.IH wake.hyps(2-4)])
next
  case (exit st p st')
  show ?case using semexit_inv [OF exit.IH, of p] exit.hyps(2) by simp
next
  case (limit st l res)
  show ?case by (rule sysctl_sysvsem_inv [OF limit.IH]) (use limit.hyps(2) in blast)
qed

section \<open>Vectors of operations\<close>

text \<open>What a vector of operations is meant to do to the values of a set: all of it in order, or nothing.\<close>

definition op_ready :: "u16 \<Rightarrow> int \<Rightarrow> bool" where
  "op_ready v n \<longleftrightarrow> (if n < 0 then 0 \<le> uint v + n else n = 0 \<longrightarrow> v = 0)"

fun run_ops :: "sembuf list \<Rightarrow> u16 list \<Rightarrow> u16 list option" where
  "run_ops [] vs = Some vs"
| "run_ops (sop # sops) vs =
     (let v = vs ! sem_num sop
      in if op_ready v (sem_op sop) then run_ops sops (vs[sem_num sop := v + word_of_int (sem_op sop)]) else None)"

definition op_total :: "nat \<Rightarrow> sembuf list \<Rightarrow> u16" where
  "op_total k sops = (\<Sum>sop\<leftarrow>sops. if sem_num sop = k then word_of_int (sem_op sop) else 0)"

lemma op_total_simps [simp]:
  "op_total k [] = 0" "op_total k (sop # sops) = (if sem_num sop = k then word_of_int (sem_op sop) else 0) + op_total k sops"
  by (simp_all add: op_total_def)

lemma rollback_simps [simp]:
  "rollback [] base = base"
  "rollback (sop # sops) base =
     rollback sops (base[sem_num sop := (base ! sem_num sop)\<lparr>semval := semval (base ! sem_num sop) - word_of_int (sem_op sop)\<rparr>])"
  by (simp_all add: rollback_def)

lemma rollback_nth:
  "k < length base \<Longrightarrow> rollback sops base ! k = (base ! k)\<lparr>semval := semval (base ! k) - op_total k sops\<rparr>"
  by (induction sops arbitrary: base) (auto simp: nth_list_update algebra_simps)

text \<open>How far a pass gets.\<close>

definition pass_at :: "nat \<Rightarrow> sembuf list \<Rightarrow> sem list \<Rightarrow> nat \<Rightarrow> sem list \<times> bool \<times> bool \<times> try_end \<Rightarrow> bool \<Rightarrow> bool" where
  "pass_at i sops base n res undos \<longleftrightarrow> (case res of (b, w, u, fin) \<Rightarrow>
     n \<le> length sops \<and> length b = length base
     \<and> (\<forall>k<length base. b ! k = (base ! k)\<lparr>semval := semval (base ! k) + op_total k (take n sops)\<rparr>)
     \<and> run_ops (take n sops) (map semval base) = Some (map semval b)
     \<and> (fin = Through \<and> n = length sops \<and> u = (undos \<or> (\<exists>sop\<in>set sops. wants_undo sop))
        \<or> fin = Blocked (i + n) \<and> n < length sops \<and> \<not> op_ready (semval (b ! sem_num (sops ! n))) (sem_op (sops ! n))))"

lemma pass_at_step:
  assumes ready: "op_ready (semval (base ! sem_num sop)) (sem_op sop)" and num: "sem_num sop < length base"
    and r: "pass_at (Suc i) sops (base[sem_num sop := (base ! sem_num sop)\<lparr>semval := semval (base ! sem_num sop) + word_of_int (sem_op sop)\<rparr>]) n res
      (undos \<or> wants_undo sop)"
  shows "pass_at i (sop # sops) base (Suc n) res undos"
proof -
  obtain b w u fin where res: "res = (b, w, u, fin)" by (cases res)
  show ?thesis using assms by (auto simp: pass_at_def res nth_list_update map_update algebra_simps)
qed

lemma pass_at_stop:
  "\<not> op_ready (semval (base ! sem_num sop)) (sem_op sop) \<Longrightarrow> pass_at i (sop # sops) base 0 (base, w, u, Blocked i) undos"
  by (simp add: pass_at_def)

lemma try_ops_pass:
  assumes "\<forall>sop\<in>set sops. sem_num sop < length base" and "uint nsems = int (length base)"
  shows "\<exists>n. pass_at i sops base n (try_ops nsems i sops base wake undos) undos"
  using assms
proof (induction sops arbitrary: i base wake undos)
  case Nil
  then show ?case by (simp add: pass_at_def)
next
  case (Cons sop sops)
  define s where "s = base ! sem_num sop"
  define base' where "base' = base[sem_num sop := s\<lparr>semval := semval s + word_of_int (sem_op sop)\<rparr>]"
  have num: "sem_num sop < length base" "\<not> int (sem_num sop) \<ge> uint nsems" using Cons.prems by auto
  have IH: "\<exists>n. pass_at (Suc i) sops base' n (try_ops nsems (Suc i) sops base' w v) v" for w v
    using Cons.IH [of base' "Suc i" w v] Cons.prems by (simp add: base'_def)
  show ?case
  proof (cases "op_ready (semval s) (sem_op sop)")
    case False
    then have "try_ops nsems i (sop # sops) base wake undos = (base, wake, undos, Blocked i)"
      using num by (auto simp: op_ready_def s_def Let_def word_greater_zero_iff split: if_splits)
    then show ?thesis using pass_at_stop False by (metis s_def)
  next
    case True
    have zero: "base' = base" if "sem_op sop = 0" using that by (simp add: base'_def s_def)
    have "\<exists>w. try_ops nsems i (sop # sops) base wake undos = try_ops nsems (Suc i) sops base' w (undos \<or> wants_undo sop)"
      using True num zero by (auto simp: op_ready_def s_def [symmetric] Let_def base'_def [symmetric] wants_undo_def word_greater_zero_iff)
    then obtain w where w: "try_ops nsems i (sop # sops) base wake undos = try_ops nsems (Suc i) sops base' w (undos \<or> wants_undo sop)" by blast
    from IH [of w "undos \<or> wants_undo sop"] obtain n where "pass_at (Suc i) sops base' n (try_ops nsems i (sop # sops) base wake undos) (undos \<or> wants_undo sop)"
      unfolding w by blast
    then show ?thesis using pass_at_step [OF _ num(1)] True unfolding base'_def s_def by blast
  qed
qed

lemma rollback_pass:
  assumes "pass_at i sops base n (b, w, u, fin) undos"
  shows "rollback (take n sops) b = base"
  using assms by (intro nth_equalityI) (auto simp: pass_at_def rollback_nth)

lemma run_ops_prefix: "run_ops sops vs = Some vs' \<Longrightarrow> n \<le> length sops \<Longrightarrow> \<exists>vs1. run_ops (take n sops) vs = Some vs1 \<and>
    (n < length sops \<longrightarrow> op_ready (vs1 ! sem_num (sops ! n)) (sem_op (sops ! n)))"
proof (induction sops arbitrary: vs n)
  case (Cons sop sops)
  then show ?case by (cases n) (auto simp: Let_def split: if_splits)
qed simp

definition vals :: "semid_ds \<Rightarrow> u16 list" where
  "vals ds = map semval (sem_base ds)"

definition sem_vals :: "sem_state \<Rightarrow> u16 list option list" where
  "sem_vals st = map (map_option vals) (sema st)"

lemma sem_vals_upd_set:
  "k < length (sema st) \<Longrightarrow> sema st ! k = Some ds \<Longrightarrow> sem_vals (upd_set k f st) = (sem_vals st)[k := Some (vals (f ds))]"
  by (simp add: sem_vals_def upd_set_def map_update)

lemma sem_vals_same: "k < length (sema st) \<Longrightarrow> sema st ! k = Some ds \<Longrightarrow> vals ds = v \<Longrightarrow> (sem_vals st)[k := Some v] = sem_vals st"
  by (simp add: sem_vals_def list_update_same_conv)

lemma upd_set_same: "sema st ! k = Some ds \<Longrightarrow> f ds = ds \<Longrightarrow> upd_set k f st = st"
  by (auto simp: upd_set_def list_update_same_conv)

lemma vals_upd_sem: "(\<And>s. semval (f s) = semval s) \<Longrightarrow> vals (upd_sem n f ds) = vals ds"
  by (cases "n < length (sem_base ds)") (simp_all add: vals_def upd_sem_def map_update list_update_same_conv list_update_beyond not_less)

lemma vals_fold_pid: "vals (fold (\<lambda>sop. upd_sem (sem_num sop) (\<lambda>s. s\<lparr>sempid := x\<rparr>)) sops ds) = vals ds"
  by (induction sops arbitrary: ds) (simp_all add: vals_upd_sem)

lemma vals_otime [simp]: "vals (ds\<lparr>sem_otime := t\<rparr>) = vals ds"
  by (simp add: vals_def)

text \<open>What a vector of operations on a set does; with undo entries it may also fail, with all values restored, or fault.\<close>

definition semop_weak :: "nat \<Rightarrow> semid_ds \<Rightarrow> sembuf list \<Rightarrow> sem_state \<Rightarrow> semop_outcome \<Rightarrow> bool" where
  "semop_weak k ds sops st out \<longleftrightarrow> (case run_ops sops (vals ds) of
     Some vs \<Rightarrow>
       (\<exists>wake st'. out = SemRet (Ret None 0 [] wake st') \<and> sem_vals st' = (sem_vals st)[k := Some vs])
       \<or> (\<exists>sop\<in>set sops. wants_undo sop) \<and> (out = SemFault \<or> (\<exists>e st'. out = SemRet (sem_fail e st') \<and> sem_vals st' = sem_vals st))
   | None \<Rightarrow>
       \<exists>i<length sops. (\<exists>vs. run_ops (take i sops) (vals ds) = Some vs \<and> \<not> op_ready (vs ! sem_num (sops ! i)) (sem_op (sops ! i)))
         \<and> (if sem_flg (sops ! i) AND IPC_NOWAIT \<noteq> 0 then out = SemRet (sem_fail EAGAIN st)
            else \<exists>u st'. out = SemSleep i u st' \<and> sem_vals st' = sem_vals st \<and> semu_list st' = semu_list st))"

lemma semop_pass_spec:
  assumes inv: "sem_inv st" and k: "k < length (sema st)" "sema st ! k = Some ds" and nums: "\<forall>sop\<in>set sops. sem_num sop < length (sem_base ds)"
  shows "semop_weak k ds sops st (semop_pass now None p k k sops False st)"
proof -
  note s = set_at [OF inv k]
  from try_ops_pass [OF nums s(1), of 0 False False] obtain n b wake undos fin where
    t: "try_ops (sem_nsems ds) 0 sops (sem_base ds) False False = (b, wake, undos, fin)" "pass_at 0 sops (sem_base ds) n (b, wake, undos, fin) False"
    by (metis prod_cases4)
  have rb: "rollback (take n sops) b = sem_base ds" using rollback_pass [OF t(2)] .
  have len: "length b = length (sem_base ds)" using t(2) by (simp add: pass_at_def)
  define st1 where "st1 = upd_set k (\<lambda>ds. ds\<lparr>sem_base := b\<rparr>) st"
  have k1: "k < length (sema st1)" "sema st1 ! k = Some (ds\<lparr>sem_base := b\<rparr>)" using k by (simp_all add: st1_def upd_set_def)
  consider (through) "fin = Through" "n = length sops" "undos = (\<exists>sop\<in>set sops. wants_undo sop)" "run_ops sops (vals ds) = Some (map semval b)"
    | (blocked) "fin = Blocked n" "n < length sops" "\<not> op_ready (semval (b ! sem_num (sops ! n))) (sem_op (sops ! n))" "run_ops (take n sops) (vals ds) = Some (map semval b)"
    using t(2) by (auto simp: pass_at_def vals_def)
  then show ?thesis
  proof cases
    case blocked
    have num: "sem_num (sops ! n) < length b" using nums blocked(2) len by simp
    then have nr: "\<not> op_ready (map semval b ! sem_num (sops ! n)) (sem_op (sops ! n))" using blocked(3) by simp
    then have none: "run_ops sops (vals ds) = None" using run_ops_prefix [of sops "vals ds" _ n] blocked(2,4) by (cases "run_ops sops (vals ds)") auto
    define b' where "b' = (sem_base ds)[sem_num (sops ! n) := (if sem_op (sops ! n) = 0
        then (sem_base ds ! sem_num (sops ! n))\<lparr>semzcnt := semzcnt (sem_base ds ! sem_num (sops ! n)) + 1\<rparr>
        else (sem_base ds ! sem_num (sops ! n))\<lparr>semncnt := semncnt (sem_base ds ! sem_num (sops ! n)) + 1\<rparr>)]"
    have "map semval b' = vals ds" using num len by (simp add: b'_def vals_def map_update list_update_same_conv)
    then have "sem_vals (upd_set k (\<lambda>ds. ds\<lparr>sem_base := b'\<rparr>) st) = sem_vals st"
      using k by (simp add: sem_vals_upd_set vals_def [of "ds\<lparr>sem_base := b'\<rparr>"] sem_vals_same)
    moreover have "upd_set k (\<lambda>ds'. ds'\<lparr>sem_base := sem_base ds\<rparr>) st = st" using k(2) by (rule upd_set_same) simp
    moreover have "semop_pass now None p k k sops False st = (if sem_flg (sops ! n) AND IPC_NOWAIT \<noteq> 0
        then SemRet (sem_fail EAGAIN (upd_set k (\<lambda>ds'. ds'\<lparr>sem_base := sem_base ds\<rparr>) st)) else SemSleep n undos (upd_set k (\<lambda>ds. ds\<lparr>sem_base := b'\<rparr>) st))"
      using k(2) t(1) blocked(1) by (simp add: semop_pass_def rb Let_def b'_def)
    ultimately show ?thesis using none blocked(2,4) nr by (auto simp: semop_weak_def intro!: exI [of _ n])
  next
    case through
    have sv: "sem_vals st1 = (sem_vals st)[k := Some (map semval b)]" using k by (simp add: st1_def sem_vals_upd_set vals_def)
    have sh: "shapes st1 = shapes st" unfolding st1_def by (rule shapes_upd_set) (use k len in \<open>simp add: shape_def\<close>)
    then have inv1: "sem_inv st1" using inv by (simp add: sem_inv_def st1_def)
    have nums1: "\<forall>sop\<in>set sops. int (sem_num sop) < size_at (shapes st1) k \<and> sem_num sop < 2 ^ 15"
      using nums s sh by fastforce
    define r where "r = (if undos then undo_loop None (p_self p) k sops 0 sops False st1 else Some (None, st1))"
    have sema: "sema st2 = sema st1" if "r = Some (e, st2)" for e st2
      using that undo_loop_inv [OF inv1 nums1, of "p_self p" sops 0 False e st2] by (auto simp: r_def split: if_splits)
    have pass: "semop_pass now None p k k sops False st = (case r of None \<Rightarrow> SemFault
        | Some (Some e, st) \<Rightarrow> SemRet (sem_fail e (upd_set k (\<lambda>ds. ds\<lparr>sem_base := rollback sops (sem_base ds)\<rparr>) st))
        | Some (None, st) \<Rightarrow> SemRet (Ret None 0 [] wake
            (upd_set k (\<lambda>ds. (fold (\<lambda>sop. upd_sem (sem_num sop) (\<lambda>s. s\<lparr>sempid := p_pid p\<rparr>)) sops ds)\<lparr>sem_otime := now\<rparr>) st)))"
      using k(2) t(1) through(1) by (simp add: semop_pass_def st1_def r_def)
    show ?thesis
    proof (cases r)
      case None
      then have undos by (auto simp: r_def split: if_splits)
      then show ?thesis using through pass None by (simp add: semop_weak_def)
    next
      case (Some es)
      then obtain e st2 where r2: "r = Some (e, st2)" by (cases es) auto
      then have k2: "k < length (sema st2)" "sema st2 ! k = Some (ds\<lparr>sem_base := b\<rparr>)" "sem_vals st2 = sem_vals st1"
        using sema k1 by (simp_all add: sem_vals_def)
      show ?thesis
      proof (cases e)
        case None
        then show ?thesis using through(4) pass r2 k2 sv by (auto simp: semop_weak_def sem_vals_upd_set vals_fold_pid) (simp add: vals_def)
      next
        case (Some x)
        then have u: undos using r2 by (auto simp: r_def split: if_splits)
        have "sem_vals (upd_set k (\<lambda>ds. ds\<lparr>sem_base := rollback sops (sem_base ds)\<rparr>) st2) = sem_vals st"
          using k2 sv rb through(2) k by (simp add: sem_vals_upd_set vals_def) (simp add: sem_vals_same [unfolded vals_def])
        then show ?thesis using through u pass r2 Some by (simp add: semop_weak_def)
      qed
    qed
  qed
qed

section \<open>Properties\<close>

text \<open>
  C24. Whatever processes do with semaphores, the table and the undo structures stay in order: the counts of semaphores and of undo
  structures are right, a process has at most one undo structure, with at most ten entries, one per semaphore, and every
  entry refers to a semaphore that exists, also after sets have been removed. So the exit of any process never panics. This holds in
  the states reached by calls that do not fault themselves (lemmas \<open>semop_undo_overflow_faults\<close> and \<open>semop_undo_freed_faults\<close>), as
  long as no call has to wait for memory for an undo structure (lemma \<open>undo_wait_panics\<close> shows the panic when the set is removed
  during that wait), sets have at most 32768 semaphores, and the address of a removed set that a thread sleeps on is not used again
  for a set in another place of the table before the thread runs.
\<close>

theorem sem_exit_never_panics:
  assumes "sem_reach st"
  shows "sem_inv st \<and> (\<exists>st'. semexit p st = Some st' \<and> sem_inv st')"
  using sem_reach_inv [OF assms] semexit_inv by blast

definition demo_info :: seminfo where
  "demo_info = \<lparr>semmni = 10, semmns = 60, semmnu = 30, semmsl = 60, semopm = 100\<rparr>"

theorem sem_exit_never_panics_witness: "\<exists>st'. semexit 7 (seminit demo_info) = Some st' \<and> sem_inv st'"
proof -
  have "sem_reach (seminit demo_info)" by (rule sem_reach.init) (simp_all add: demo_info_def)
  from sem_exit_never_panics [OF this] show ?thesis by blast
qed

text \<open>A set of three semaphores made by the super-user.\<close>

definition demo_root :: sproc where
  "demo_root = \<lparr>p_self = 7, p_pid = 100, p_ucred = \<lparr>cr_uid = 0, cr_gid = 0, cr_groups = []\<rparr>\<rparr>"

definition demo_sems :: sem_state where
  "demo_sems = ret_st (sys_semget 0 1 (p_ucred demo_root) 5 3 0x3b6 (seminit demo_info))"

definition demo_set :: semid_ds where
  "demo_set = new_set 0 1 (p_ucred demo_root) 5 3 0x3b6 1"

lemma demo_sems_inv: "sem_inv demo_sems"
proof -
  have "sem_reach (seminit demo_info)" by (rule sem_reach.init) (simp_all add: demo_info_def)
  then have "sem_reach demo_sems" unfolding demo_sems_def by (rule sem_reach.get)
  then show ?thesis by (rule sem_reach_inv)
qed

lemma demo_sems_eval:
  "sem_lookup 65536 demo_sems = Some (0, demo_set)" "ipcperm (p_ucred demo_root) (sem_perm demo_set) IPC_W = None" "semopm (info demo_sems) = 100"
  "length (sem_base demo_set) = 3" "vals demo_set = [0, 0, 0]" "sem_vals demo_sems = Some [0, 0, 0] # replicate 9 None" "semu_list demo_sems = []"
  "semutot demo_sems = 0" "semmnu (info demo_sems) = 30"
  by code_simp+

text \<open>
  \<^verbatim>\<open>semu_alloc\<close> may sleep for memory. When another process removes the set meanwhile, the undo entry is made for a set that is no
  longer there, and the exit of the process panics.
\<close>

lemma undo_wait_panics:
  defines "rmid \<equiv> \<lambda>st. ret_st (semctl1 0 (p_ucred demo_root) 65536 0 IPC_RMID st)"
  shows "\<exists>st. outcome_state (sys_semop 0 (Some rmid) demo_root 65536 1 (Inr [\<lparr>sem_num = 0, sem_op = 1, sem_flg = SEM_UNDO\<rparr>]) demo_sems) = Some st
     \<and> semexit 7 st = None"
proof -
  have "Option.bind (outcome_state (sys_semop 0 (Some rmid) demo_root 65536 1 (Inr [\<lparr>sem_num = 0, sem_op = 1, sem_flg = SEM_UNDO\<rparr>]) demo_sems))
      (\<lambda>st. case semexit 7 st of None \<Rightarrow> Some () | Some _ \<Rightarrow> None) = Some ()"
    unfolding rmid_def by code_simp
  then show ?thesis by (auto simp: bind_eq_Some_conv split: option.splits)
qed

section \<open>Undoing\<close>

definition entry :: "nat \<Rightarrow> sembuf \<Rightarrow> undo" where
  "entry ix sop = \<lparr>un_adjval = - sem_op sop, un_num = int (sem_num sop), un_id = ix\<rparr>"

text \<open>Operations whose adjustments fit into the fields of an undo entry.\<close>

definition undoable :: "sembuf \<Rightarrow> bool" where
  "undoable sop \<longleftrightarrow> wants_undo sop \<and> sem_num sop < 2 ^ 15 \<and> - (2 ^ 15) < sem_op sop \<and> sem_op sop < 2 ^ 15"

lemma adjust_new:
  assumes "undoable sop" and "ent_index ix (int (sem_num sop)) ents = None" and "length ents < SEMUME"
  shows "adjust_ents ix (int (sem_num sop)) (- sem_op sop) ents = Inr (ents @ [entry ix sop])"
  using assms by (simp add: adjust_ents_def entry_def undoable_def wants_undo_def s16_id)

lemma ent_index_fresh: "\<forall>u\<in>set ents. ent_key u \<noteq> (ix, n) \<Longrightarrow> ent_index ix n ents = None"
  by (induction ents) (auto simp: ent_key_def)

lemma undo_loop_append:
  assumes "semu_list st = \<lparr>un_proc = p, un_ent = ents\<rparr> # sus" and "\<forall>sop\<in>set sops. undoable sop" and "distinct (map sem_num sops)"
    and "\<forall>u\<in>set ents. \<forall>sop\<in>set sops. ent_key u \<noteq> (ix, int (sem_num sop))" and "length ents + length sops \<le> SEMUME"
  shows "undo_loop None p ix all i sops True st = Some (None, st\<lparr>semu_list := \<lparr>un_proc = p, un_ent = ents @ map (entry ix) sops\<rparr> # sus\<rparr>)"
  using assms
proof (induction sops arbitrary: ents st i)
  case (Cons sop sops)
  have sop: "undoable sop" "wants_undo sop" using Cons.prems(2) by (auto simp: undoable_def)
  define st1 where "st1 = st\<lparr>semu_list := \<lparr>un_proc = p, un_ent = ents @ [entry ix sop]\<rparr> # sus\<rparr>"
  have "adjust_ents ix (int (sem_num sop)) (- sem_op sop) ents = Inr (ents @ [entry ix sop])"
    using Cons.prems(4,5) by (intro adjust_new [OF sop(1)] ent_index_fresh) auto
  then have a: "semundo_adjust None p True ix (int (sem_num sop)) (- sem_op sop) st = Some (None, True, st1)"
    using Cons.prems(1) by (simp add: semundo_adjust_def st1_def)
  have "undo_loop None p ix all (Suc i) sops True st1 = Some (None, st1\<lparr>semu_list := \<lparr>un_proc = p, un_ent = (ents @ [entry ix sop]) @ map (entry ix) sops\<rparr> # sus\<rparr>)"
    by (rule Cons.IH) (use Cons.prems in \<open>auto simp: st1_def entry_def ent_key_def\<close>)
  then show ?case using sop(2) a by (simp add: st1_def)
qed (simp)

lemma undo_loop_fresh:
  assumes "\<not> has_undo p st" and "semutot st \<noteq> semmnu (info st)" and "\<forall>sop\<in>set sops. undoable sop" and "distinct (map sem_num sops)"
    and "length sops \<le> SEMUME" and "sops \<noteq> []"
  shows "undo_loop None p ix all i sops False st =
    Some (None, st\<lparr>semutot := semutot st + 1, semu_list := \<lparr>un_proc = p, un_ent = map (entry ix) sops\<rparr> # semu_list st\<rparr>)"
proof -
  obtain sop r where sops: "sops = sop # r" using assms(6) by (cases sops) auto
  have sop: "undoable sop" "wants_undo sop" "sem_op sop \<noteq> 0" using assms(3) sops by (auto simp: undoable_def wants_undo_def)
  define st1 where "st1 = st\<lparr>semutot := semutot st + 1, semu_list := \<lparr>un_proc = p, un_ent = [entry ix sop]\<rparr> # semu_list st\<rparr>"
  have "adjust_ents ix (int (sem_num sop)) (- sem_op sop) [] = Inr [entry ix sop]" using adjust_new [OF sop(1), of ix "[]"] by (simp add: SEMUME_def)
  then have a: "semundo_adjust None p False ix (int (sem_num sop)) (- sem_op sop) st = Some (None, True, st1)"
    using assms(1,2) sop(3) by (simp add: semundo_adjust_def semu_alloc_now semu_new_def st1_def)
  have "undo_loop None p ix all (Suc i) r True st1 = Some (None, st1\<lparr>semu_list := \<lparr>un_proc = p, un_ent = [entry ix sop] @ map (entry ix) r\<rparr> # semu_list st\<rparr>)"
    by (rule undo_loop_append) (use assms sops in \<open>auto simp: st1_def entry_def ent_key_def\<close>)
  then show ?thesis using sop(2) a by (simp add: sops st1_def)
qed

lemma upd_set_cong: "sema st ! k = Some ds \<Longrightarrow> f ds = g ds \<Longrightarrow> upd_set k f st = upd_set k g st"
  by (simp add: upd_set_def)

lemma upd_set_upd_set: "upd_set k g (upd_set k f st) = upd_set k (\<lambda>ds. g (f ds)) st"
  by (simp add: upd_set_def option.map_comp comp_def)

lemma exit_entries:
  assumes "ix < length (sema st)" and "sema st ! ix = Some ds" and "uint (sem_nsems ds) = int (length (sem_base ds))"
    and "\<forall>sop\<in>set sops. sem_num sop < length (sem_base ds) \<and> sem_op sop \<le> uint (semval (sem_base ds ! sem_num sop))" and "distinct (map sem_num sops)"
  shows "exit_ents (map (entry ix) sops) st = Some (upd_set ix (\<lambda>ds. ds\<lparr>sem_base := rollback sops (sem_base ds)\<rparr>) st)"
  using assms
proof (induction sops arbitrary: st ds)
  case Nil
  then show ?case using upd_set_same [of st ix ds "\<lambda>ds. ds"] by simp
next
  case (Cons sop sops)
  define g where "g ds = ds\<lparr>sem_base := (sem_base ds)[sem_num sop := (sem_base ds ! sem_num sop)\<lparr>semval := semval (sem_base ds ! sem_num sop) - word_of_int (sem_op sop)\<rparr>]\<rparr>" for ds :: semid_ds
  let ?f = "upd_sem (sem_num sop) (\<lambda>s. s\<lparr>semval := (if - sem_op sop < 0 \<and> uint (semval s) < - (- sem_op sop) then 0 else semval s + word_of_int (- sem_op sop))\<rparr>)"
  have "?f ds = g ds" using Cons.prems(4) by (auto simp: upd_sem_def g_def)
  then have "upd_set ix ?f st = upd_set ix g st" by (rule upd_set_cong [OF Cons.prems(2)])
  then have "exit_ents (map (entry ix) (sop # sops)) st = exit_ents (map (entry ix) sops) (upd_set ix g st)"
    using Cons.prems(1-4) by (simp add: entry_def cong: if_cong)
  also have "\<dots> = Some (upd_set ix (\<lambda>ds. ds\<lparr>sem_base := rollback sops (sem_base ds)\<rparr>) (upd_set ix g st))"
  proof (rule Cons.IH)
    show "sema (upd_set ix g st) ! ix = Some (g ds)" using Cons.prems(1,2) by (simp add: upd_set_def)
    show "\<forall>sop\<in>set sops. sem_num sop < length (sem_base (g ds)) \<and> sem_op sop \<le> uint (semval (sem_base (g ds) ! sem_num sop))"
      using Cons.prems(4,5) by (auto simp: g_def nth_list_update image_iff)
  qed (use Cons.prems in \<open>simp_all add: g_def\<close>)
  also have "\<dots> = Some (upd_set ix (\<lambda>ds. ds\<lparr>sem_base := rollback (sop # sops) (sem_base ds)\<rparr>) st)"
    by (simp add: upd_set_upd_set g_def)
  finally show ?case .
qed

lemma run_ops_total:
  assumes "\<forall>sop\<in>set sops. sem_num sop < length vs" and "run_ops sops vs = Some vs'"
  shows "length vs' = length vs \<and> (\<forall>k<length vs. vs' ! k = vs ! k + op_total k sops)"
  using assms
proof (induction sops arbitrary: vs)
  case (Cons sop sops)
  define vs1 where "vs1 = vs[sem_num sop := vs ! sem_num sop + word_of_int (sem_op sop)]"
  have "run_ops sops vs1 = Some vs'" using Cons.prems(2) by (simp add: vs1_def Let_def split: if_splits)
  moreover have "\<forall>sop\<in>set sops. sem_num sop < length vs1" using Cons.prems(1) by (simp add: vs1_def)
  ultimately have "length vs' = length vs1 \<and> (\<forall>k<length vs1. vs' ! k = vs1 ! k + op_total k sops)" using Cons.IH by blast
  then show ?case using Cons.prems(1) by (auto simp: vs1_def nth_list_update algebra_simps)
qed simp

lemma op_total_distinct: "distinct (map sem_num sops) \<Longrightarrow> sop \<in> set sops \<Longrightarrow> op_total (sem_num sop) sops = word_of_int (sem_op sop)"
proof (induction sops)
  case (Cons x sops)
  have "k \<notin> sem_num ` set ys \<Longrightarrow> op_total k ys = 0" for k ys by (induction ys) auto
  then show ?case using Cons by auto
qed simp

lemma fold_pid_base:
  "length (sem_base (fold (\<lambda>sop. upd_sem (sem_num sop) (\<lambda>s. s\<lparr>sempid := x\<rparr>)) sops ds)) = length (sem_base ds)"
  "sem_nsems (fold (\<lambda>sop. upd_sem (sem_num sop) (\<lambda>s. s\<lparr>sempid := x\<rparr>)) sops ds) = sem_nsems ds"
  by (induction sops arbitrary: ds) (simp_all add: upd_sem_def)

lemma run_ops_ready:
  assumes "run_ops sops vs = Some vs'" and "distinct (map sem_num sops)" and "sop \<in> set sops"
  shows "op_ready (vs ! sem_num sop) (sem_op sop)"
  using assms
proof (induction sops arbitrary: vs)
  case (Cons x sops)
  from Cons.prems(1) have x: "op_ready (vs ! sem_num x) (sem_op x)" "run_ops sops (vs[sem_num x := vs ! sem_num x + word_of_int (sem_op x)]) = Some vs'"
    by (simp_all add: Let_def split: if_splits)
  show ?case
  proof (cases "sop = x")
    case False
    then have "sop \<in> set sops" "sem_num sop \<noteq> sem_num x" using Cons.prems(2,3) by (auto simp: image_iff)
    then show ?thesis using Cons.IH [OF x(2)] Cons.prems(2) by simp
  qed (simp add: x)
qed simp

lemma rollback_vals: "\<forall>k<length base. semval (base ! k) = vs ! k + op_total k sops \<Longrightarrow> length vs = length base \<Longrightarrow> map semval (rollback sops base) = vs"
  by (rule nth_equalityI) (simp_all add: rollback_nth)

text \<open>A vector that goes through, with all its operations recorded in a new undo structure.\<close>

lemma semop_pass_undo:
  assumes inv: "sem_inv st" and k: "k < length (sema st)" "sema st ! k = Some ds" and nums: "\<forall>sop\<in>set sops. sem_num sop < length (sem_base ds)"
    and ops: "\<forall>sop\<in>set sops. undoable sop" "distinct (map sem_num sops)" "length sops \<le> SEMUME" "sops \<noteq> []"
    and room: "\<not> has_undo (p_self p) st" "semutot st \<noteq> semmnu (info st)" and run: "run_ops sops (vals ds) = Some vs"
  shows "\<exists>wake st'. semop_pass now None p k k sops False st = SemRet (Ret None 0 [] wake st')
    \<and> semu_list st' = \<lparr>un_proc = p_self p, un_ent = map (entry k) sops\<rparr> # semu_list st \<and> sem_vals st' = (sem_vals st)[k := Some vs]
    \<and> (\<exists>ds'. length (sema st') = length (sema st) \<and> sema st' ! k = Some ds' \<and> vals ds' = vs \<and> sem_nsems ds' = sem_nsems ds)"
proof -
  note s = set_at [OF inv k]
  from try_ops_pass [OF nums s(1), of 0 False False] obtain n b wake undos fin where
    t: "try_ops (sem_nsems ds) 0 sops (sem_base ds) False False = (b, wake, undos, fin)" "pass_at 0 sops (sem_base ds) n (b, wake, undos, fin) False"
    by (metis prod_cases4)
  have len: "length b = length (sem_base ds)" using t(2) by (simp add: pass_at_def)
  have thr: "fin = Through" "n = length sops" "undos"
  proof -
    have "\<not> n < length sops"
    proof
      assume n: "n < length sops"
      then have "sem_num (sops ! n) < length b" using nums len by simp
      then show False using t(2) n run_ops_prefix [OF run, of n] by (auto simp: pass_at_def vals_def)
    qed
    then have "fin = Through" "n = length sops" "undos = (\<exists>sop\<in>set sops. wants_undo sop)" using t(2) by (auto simp: pass_at_def)
    then show "fin = Through" "n = length sops" "undos" using ops(1,4) by (auto simp: undoable_def neq_Nil_conv)
  qed
  have b: "map semval b = vs" using t(2) thr(2) run by (auto simp: pass_at_def vals_def)
  define st1 where "st1 = upd_set k (\<lambda>ds. ds\<lparr>sem_base := b\<rparr>) st"
  have "undo_loop None (p_self p) k sops 0 sops False st1 =
    Some (None, st1\<lparr>semutot := semutot st1 + 1, semu_list := \<lparr>un_proc = p_self p, un_ent = map (entry k) sops\<rparr> # semu_list st1\<rparr>)"
    by (rule undo_loop_fresh) (use ops room in \<open>simp_all add: st1_def has_undo_def\<close>)
  moreover define st2 where "st2 = st1\<lparr>semutot := semutot st1 + 1, semu_list := \<lparr>un_proc = p_self p, un_ent = map (entry k) sops\<rparr> # semu_list st1\<rparr>"
  moreover define st3 where "st3 = upd_set k (\<lambda>ds. (fold (\<lambda>sop. upd_sem (sem_num sop) (\<lambda>s. s\<lparr>sempid := p_pid p\<rparr>)) sops ds)\<lparr>sem_otime := now\<rparr>) st2"
  ultimately have pass: "semop_pass now None p k k sops False st = SemRet (Ret None 0 [] wake st3)"
    using k(2) t(1) thr by (simp add: semop_pass_def st1_def)
  have k2: "k < length (sema st2)" "sema st2 ! k = Some (ds\<lparr>sem_base := b\<rparr>)" using k by (simp_all add: st2_def st1_def upd_set_def)
  have "sem_vals st2 = (sem_vals st)[k := Some vs]" using k b by (simp add: st2_def sem_vals_def st1_def upd_set_def map_update vals_def)
  then have "sem_vals st3 = (sem_vals st)[k := Some vs]" using b by (simp add: st3_def sem_vals_upd_set [OF k2] vals_fold_pid vals_def [of "ds\<lparr>sem_base := b\<rparr>"])
  moreover define ds' where "ds' = (fold (\<lambda>sop. upd_sem (sem_num sop) (\<lambda>s. s\<lparr>sempid := p_pid p\<rparr>)) sops (ds\<lparr>sem_base := b\<rparr>))\<lparr>sem_otime := now\<rparr>"
  moreover have "sema st3 ! k = Some ds'" using k2 by (simp add: st3_def upd_set_def ds'_def)
  moreover have "vals ds' = vs" "sem_nsems ds' = sem_nsems ds" using b by (simp_all add: ds'_def vals_fold_pid fold_pid_base vals_def [of "ds\<lparr>sem_base := b\<rparr>"])
  moreover have "length (sema st3) = length (sema st)" "semu_list st3 = \<lparr>un_proc = p_self p, un_ent = map (entry k) sops\<rparr> # semu_list st"
    by (simp_all add: st3_def st2_def st1_def)
  ultimately show ?thesis using pass by blast
qed

text \<open>
  The undo entries a vector asks for can be made: it asks for none, whatever happens elsewhere in the meantime; or all its operations ask
  for one, on at most ten different semaphores, by a process that has no undo structure yet, and there is a free one and memory for it.
\<close>

definition undo_room :: "(sem_state \<Rightarrow> sem_state) option \<Rightarrow> nat \<Rightarrow> sembuf list \<Rightarrow> sem_state \<Rightarrow> bool" where
  "undo_room wait p sops st \<longleftrightarrow> (\<forall>sop\<in>set sops. \<not> wants_undo sop)
     \<or> wait = None \<and> (\<forall>sop\<in>set sops. undoable sop) \<and> distinct (map sem_num sops) \<and> length sops \<le> SEMUME \<and> sops \<noteq> []
       \<and> \<not> has_undo p st \<and> semutot st \<noteq> semmnu (info st)"

text \<open>All operations of a vector, or none of them.\<close>

definition semop_spec :: "nat \<Rightarrow> semid_ds \<Rightarrow> sembuf list \<Rightarrow> sem_state \<Rightarrow> semop_outcome \<Rightarrow> bool" where
  "semop_spec k ds sops st out \<longleftrightarrow> (case run_ops sops (vals ds) of
     Some vs \<Rightarrow> \<exists>wake st'. out = SemRet (Ret None 0 [] wake st') \<and> sem_vals st' = (sem_vals st)[k := Some vs]
   | None \<Rightarrow>
       \<exists>i<length sops. (\<exists>vs. run_ops (take i sops) (vals ds) = Some vs \<and> \<not> op_ready (vs ! sem_num (sops ! i)) (sem_op (sops ! i)))
         \<and> (if sem_flg (sops ! i) AND IPC_NOWAIT \<noteq> 0 then out = SemRet (sem_fail EAGAIN st)
            else \<exists>u st'. out = SemSleep i u st' \<and> sem_vals st' = sem_vals st \<and> semu_list st' = semu_list st))"

lemma semop_pass_wait:
  assumes nums: "\<forall>sop\<in>set sops. sem_num sop < length (sem_base ds)" and k: "sem_inv st" "k < length (sema st)" "sema st ! k = Some ds"
    and no: "\<forall>sop\<in>set sops. \<not> wants_undo sop"
  shows "semop_pass now wait p k k sops False st = semop_pass now None p k k sops False st"
proof -
  from try_ops_pass [OF nums set_at(1) [OF k], of 0 False False] obtain n b wake undos fin where
    t: "try_ops (sem_nsems ds) 0 sops (sem_base ds) False False = (b, wake, undos, fin)" "pass_at 0 sops (sem_base ds) n (b, wake, undos, fin) False"
    by (metis prod_cases4)
  have "fin = Through \<Longrightarrow> \<not> undos" using t(2) no by (auto simp: pass_at_def)
  then show ?thesis using k(3) t(1) by (cases fin) (simp_all add: semop_pass_def)
qed

lemma semop_pass_exact:
  assumes inv: "sem_inv st" and k: "k < length (sema st)" "sema st ! k = Some ds" and nums: "\<forall>sop\<in>set sops. sem_num sop < length (sem_base ds)"
    and room: "undo_room wait (p_self p) sops st"
  shows "semop_spec k ds sops st (semop_pass now wait p k k sops False st)"
proof -
  have pass: "semop_pass now wait p k k sops False st = semop_pass now None p k k sops False st"
    using room semop_pass_wait [OF nums inv k] by (auto simp: undo_room_def)
  note weak = semop_pass_spec [OF inv k nums, of now p]
  show ?thesis
  proof (cases "run_ops sops (vals ds)")
    case None
    then show ?thesis using weak by (simp add: semop_spec_def semop_weak_def pass)
  next
    case (Some vs)
    show ?thesis
    proof (cases "\<forall>sop\<in>set sops. \<not> wants_undo sop")
      case True
      then show ?thesis using weak Some by (auto simp: semop_spec_def semop_weak_def pass)
    next
      case False
      then have "\<exists>wake st'. semop_pass now None p k k sops False st = SemRet (Ret None 0 [] wake st') \<and> sem_vals st' = (sem_vals st)[k := Some vs]"
        using room semop_pass_undo [OF inv k nums _ _ _ _ _ _ Some, of p now] unfolding undo_room_def by blast
      then show ?thesis using Some by (simp add: semop_spec_def pass)
    qed
  qed
qed

text \<open>
  C23. \<^verbatim>\<open>sys_semop\<close> is atomic: if all operations of a vector can be done in order, all of them are done and the call succeeds;
  otherwise no value changes and the call returns \<^verbatim>\<open>EAGAIN\<close> or sleeps at the first operation that cannot be done. The numbers of the
  semaphores are valid, and either no operation changes a semaphore with \<^verbatim>\<open>SEM_UNDO\<close>, or all do, and their undo entries can be made:
  at most ten different semaphores (\<^verbatim>\<open>SEMUME\<close>), no adjustment of -32768, a process without an undo structure, a free undo structure and
  memory for it without waiting.
\<close>

theorem semop_atomic:
  assumes inv: "sem_inv st" and l: "sem_lookup semid st = Some (ix, ds)" and perm: "ipcperm (p_ucred p) (sem_perm ds) IPC_W = None"
    and n: "0 < nsops" "int nsops \<le> semopm (info st)" and nums: "\<forall>sop\<in>set sops. sem_num sop < length (sem_base ds)"
    and room: "undo_room wait (p_self p) sops st"
  shows "semop_spec ix ds sops st (sys_semop now wait p semid nsops (Inr sops) st)"
  using semop_pass_exact [OF inv sem_lookup_Some(2,3) [OF l inv] nums room] l perm n by (simp add: sys_semop_def)

theorem semop_atomic_witness:
  "\<exists>wake st'. sys_semop 0 None demo_root 65536 2 (Inr [\<lparr>sem_num = 0, sem_op = 2, sem_flg = SEM_UNDO\<rparr>, \<lparr>sem_num = 1, sem_op = 1, sem_flg = SEM_UNDO\<rparr>]) demo_sems
     = SemRet (Ret None 0 [] wake st') \<and> sem_vals st' = Some [2, 1, 0] # replicate 9 None"
proof -
  let ?sops = "[\<lparr>sem_num = 0, sem_op = 2, sem_flg = SEM_UNDO\<rparr>, \<lparr>sem_num = 1, sem_op = 1, sem_flg = SEM_UNDO\<rparr>]"
  have r: "run_ops ?sops [0, 0, 0] = Some [2, 1, 0]" by code_simp
  have "undo_room None (p_self demo_root) ?sops demo_sems"
    by (simp add: undo_room_def demo_sems_eval has_undo_def undoable_def wants_undo_def SEM_UNDO_def SEMUME_def)
  then have "semop_spec 0 demo_set ?sops demo_sems (sys_semop 0 None demo_root 65536 2 (Inr ?sops) demo_sems)"
    by (intro semop_atomic [OF demo_sems_inv demo_sems_eval(1,2)]) (simp_all add: demo_sems_eval)
  then show ?thesis by (simp only: semop_spec_def demo_sems_eval(5,6) r) simp
qed

lemma semexit_new:
  assumes l: "semu_list st = \<lparr>un_proc = p, un_ent = map (entry k) sops\<rparr> # sus" and k: "k < length (sema st)" "sema st ! k = Some ds"
    "uint (sem_nsems ds) = int (length (sem_base ds))"
    and nums: "\<forall>sop\<in>set sops. sem_num sop < length (sem_base ds) \<and> sem_op sop \<le> uint (vals ds ! sem_num sop)" "distinct (map sem_num sops)"
    and vs: "length vs = length (sem_base ds)" "\<forall>j<length vs. vals ds ! j = vs ! j + op_total j sops"
  shows "\<exists>st'. semexit p st = Some st' \<and> semu_list st' = sus \<and> sem_vals st' = (sem_vals st)[k := Some vs]"
proof -
  have "exit_ents (map (entry k) sops) st = Some (upd_set k (\<lambda>ds. ds\<lparr>sem_base := rollback sops (sem_base ds)\<rparr>) st)"
    by (rule exit_entries [OF k]) (use nums in \<open>auto simp: vals_def\<close>)
  moreover have "map semval (rollback sops (sem_base ds)) = vs" by (rule rollback_vals) (use vs in \<open>simp_all add: vals_def\<close>)
  then have "sem_vals (upd_set k (\<lambda>ds. ds\<lparr>sem_base := rollback sops (sem_base ds)\<rparr>) st) = (sem_vals st)[k := Some vs]"
    using k by (simp add: sem_vals_upd_set vals_def)
  ultimately show ?thesis using l by (simp add: semexit_def sem_vals_def)
qed

text \<open>
  C25. A process that does a vector of operations with \<^verbatim>\<open>SEM_UNDO\<close> and then exits leaves the values of all semaphores and the list
  of undo structures as they were: the operations are at most ten (\<^verbatim>\<open>SEMUME\<close>), on different semaphores, none of them adjusts by
  -32768 or makes a value wrap at 16 bits; the process has no undo structure before, and there is a free one and memory for it without
  waiting.
\<close>

theorem semop_undo_exit:
  assumes inv: "sem_inv st" and l: "sem_lookup semid st = Some (ix, ds)" and perm: "ipcperm (p_ucred p) (sem_perm ds) IPC_W = None"
    and n: "0 < nsops" "int nsops \<le> semopm (info st)" and nums: "\<forall>sop\<in>set sops. sem_num sop < length (sem_base ds)"
    and ops: "\<forall>sop\<in>set sops. undoable sop" "distinct (map sem_num sops)" "length sops \<le> SEMUME" "sops \<noteq> []"
    and room: "\<not> has_undo (p_self p) st" "semutot st \<noteq> semmnu (info st)" and run: "run_ops sops (vals ds) = Some vs"
    and fits: "\<forall>sop\<in>set sops. uint (vals ds ! sem_num sop) + sem_op sop < 2 ^ 16"
  shows "\<exists>wake st' st''. sys_semop now None p semid nsops (Inr sops) st = SemRet (Ret None 0 [] wake st')
    \<and> sem_vals st' = (sem_vals st)[ix := Some vs] \<and> semexit (p_self p) st' = Some st'' \<and> sem_vals st'' = sem_vals st \<and> semu_list st'' = semu_list st"
proof -
  note k = sem_lookup_Some(2,3) [OF l inv]
  note s = set_at [OF inv k]
  from semop_pass_undo [OF inv k nums ops room run, of now] obtain wake st' ds' where
    st': "semop_pass now None p ix ix sops False st = SemRet (Ret None 0 [] wake st')" "semu_list st' = \<lparr>un_proc = p_self p, un_ent = map (entry ix) sops\<rparr> # semu_list st"
      "sem_vals st' = (sem_vals st)[ix := Some vs]" "length (sema st') = length (sema st)" "sema st' ! ix = Some ds'" "vals ds' = vs" "sem_nsems ds' = sem_nsems ds" by blast
  have tot: "length vs = length (vals ds)" "\<forall>j<length (vals ds). vs ! j = vals ds ! j + op_total j sops"
    using run_ops_total [OF _ run] nums by (simp_all add: vals_def)
  have len: "length (sem_base ds') = length (sem_base ds)" using tot(1) st'(6) by (metis length_map vals_def)
  have "sem_op sop \<le> uint (vs ! sem_num sop)" if "sop \<in> set sops" for sop
  proof -
    have "vs ! sem_num sop = vals ds ! sem_num sop + word_of_int (sem_op sop)" using tot(2) op_total_distinct [OF ops(2) that] nums that by (simp add: vals_def)
    moreover have "0 \<le> uint (vals ds ! sem_num sop) + sem_op sop" using run_ops_ready [OF run ops(2) that] by (auto simp: op_ready_def split: if_splits)
    ultimately have "uint (vs ! sem_num sop) = uint (vals ds ! sem_num sop) + sem_op sop"
      using fits that by (simp add: uint_word_ariths uint_word_of_int_eq take_bit_eq_mod mod_simps)
    then show ?thesis by simp
  qed
  then have "\<exists>st''. semexit (p_self p) st' = Some st'' \<and> semu_list st'' = semu_list st \<and> sem_vals st'' = (sem_vals st')[ix := Some (vals ds)]"
    by (intro semexit_new [OF st'(2) _ st'(5)]) (use st' s k len nums ops tot in \<open>simp_all add: vals_def\<close>)
  then show ?thesis using st' l perm n k by (auto simp: sys_semop_def sem_vals_same)
qed

theorem semop_undo_exit_witness:
  "\<exists>wake st' st''. sys_semop 0 None demo_root 65536 2 (Inr [\<lparr>sem_num = 0, sem_op = 2, sem_flg = SEM_UNDO\<rparr>, \<lparr>sem_num = 2, sem_op = 1, sem_flg = SEM_UNDO\<rparr>]) demo_sems
     = SemRet (Ret None 0 [] wake st') \<and> sem_vals st' = Some [2, 0, 1] # replicate 9 None
     \<and> semexit 7 st' = Some st'' \<and> sem_vals st'' = Some [0, 0, 0] # replicate 9 None \<and> semu_list st'' = []"
proof -
  define sops where "sops = [\<lparr>sem_num = 0, sem_op = 2, sem_flg = SEM_UNDO\<rparr>, \<lparr>sem_num = 2, sem_op = 1, sem_flg = SEM_UNDO\<rparr>]"
  have sops: "run_ops sops [0, 0, 0] = Some [2, 0, 1]" "\<forall>sop\<in>set sops. undoable sop" "\<forall>sop\<in>set sops. sem_num sop < 3" "distinct (map sem_num sops)"
    "length sops \<le> SEMUME" "sops \<noteq> []" "\<forall>sop\<in>set sops. uint ([0, 0, 0] ! sem_num sop :: u16) + sem_op sop < 2 ^ 16"
    by (simp_all add: sops_def undoable_def wants_undo_def SEM_UNDO_def SEMUME_def op_ready_def)
  have p: "p_self demo_root = 7" by code_simp
  from semop_undo_exit [OF demo_sems_inv demo_sems_eval(1,2), of 2 sops "[2, 0, 1]" 0, unfolded demo_sems_eval p has_undo_def] sops
  show ?thesis unfolding sops_def by simp
qed

section \<open>Creating sets\<close>

lemma ixseq_cases:
  assumes "ix < 2 ^ 16"
  shows "\<exists>c. IXSEQ_TO_IPCID ix perm = uint (seq perm) * 2 ^ 16 + int ix - c * 2 ^ 32"
proof -
  let ?x = "uint (seq perm) * 2 ^ 16 + int ix + 2 ^ 31"
  have "int ix mod 2 ^ 16 = int ix" using assms by simp
  then have "IXSEQ_TO_IPCID ix perm = uint (seq perm) * 2 ^ 16 + int ix - (?x div 2 ^ 32) * 2 ^ 32"
    using div_mult_mod_eq [of ?x "2 ^ 32"] by (simp only: IXSEQ_TO_IPCID_def)
  then show ?thesis by blast
qed

lemma ipcid_ix:
  assumes "ix < 2 ^ 16"
  shows "IPCID_TO_IX (IXSEQ_TO_IPCID ix perm) = ix"
proof -
  from ixseq_cases [OF assms] obtain c where "IXSEQ_TO_IPCID ix perm = uint (seq perm) * 2 ^ 16 + int ix - c * 2 ^ 32" by blast
  then have "IXSEQ_TO_IPCID ix perm = int ix + (uint (seq perm) - c * 2 ^ 16) * 2 ^ 16" by (simp add: algebra_simps)
  then show ?thesis using assms by (simp only: IPCID_TO_IX_def mod_mult_self1) simp
qed

lemma ipcid_seq:
  assumes "ix < 2 ^ 16"
  shows "IPCID_TO_SEQ (IXSEQ_TO_IPCID ix perm) = seq perm"
proof -
  from ixseq_cases [OF assms] obtain c where "IXSEQ_TO_IPCID ix perm = uint (seq perm) * 2 ^ 16 + int ix - c * 2 ^ 32" by blast
  then have "IXSEQ_TO_IPCID ix perm = int ix + (uint (seq perm) - c * 2 ^ 16) * 2 ^ 16" by (simp add: algebra_simps)
  then have "IXSEQ_TO_IPCID ix perm div 2 ^ 16 = uint (seq perm) - c * 2 ^ 16" using assms by (simp only: div_mult_self1) simp
  moreover have "(word_of_int (c * 2 ^ 16) :: u16) = 0" by (simp add: word_uint_eq_iff uint_word_of_int_eq take_bit_eq_mod del: of_int_mult of_int_power)
  then have "(word_of_int (uint (seq perm) - c * 2 ^ 16) :: u16) = seq perm" by (simp only: of_int_diff word_of_int_uint diff_zero)
  ultimately show ?thesis by (simp only: IPCID_TO_SEQ_def)
qed

lemma ipcid_nonneg:
  assumes "uint (seq perm) < 2 ^ 15" and "ix < 2 ^ 16"
  shows "0 \<le> IXSEQ_TO_IPCID ix perm"
proof -
  have "0 \<le> uint (seq perm)" by simp
  then show ?thesis using assms unfolding IXSEQ_TO_IPCID_def by simp
qed

text \<open>
  Identifiers of System V objects: a place in a table and the sequence number of the object in it. The laws make different pairs
  different identifiers.
\<close>

locale ipc_ids =
  fixes enc :: "nat \<Rightarrow> ipc_perm \<Rightarrow> int" and ix_of :: "int \<Rightarrow> nat" and seq_of :: "int \<Rightarrow> u16" and places :: nat
  assumes ix_enc: "ix < places \<Longrightarrow> ix_of (enc ix perm) = ix" and seq_enc: "ix < places \<Longrightarrow> seq_of (enc ix perm) = seq perm"
begin

lemma enc_inject: "ix < places \<Longrightarrow> ix' < places \<Longrightarrow> enc ix perm = enc ix' perm' \<Longrightarrow> ix = ix' \<and> seq perm = seq perm'"
  by (metis ix_enc seq_enc)

end

text \<open>A table of such objects, and a lookup that compares the sequence number.\<close>

locale ipc_table = ipc_ids +
  fixes valid :: "'st \<Rightarrow> bool" and obj_at :: "'st \<Rightarrow> nat \<Rightarrow> 'ob option" and perm_of :: "'ob \<Rightarrow> ipc_perm" and lookup :: "int \<Rightarrow> 'st \<Rightarrow> (nat \<times> 'ob) option"
  assumes place: "valid st \<Longrightarrow> obj_at st ix = Some d \<Longrightarrow> ix < places"
    and lookup_iff: "valid st \<Longrightarrow> lookup x st = Some (ix, d) \<longleftrightarrow> ix = ix_of x \<and> obj_at st ix = Some d \<and> seq (perm_of d) = seq_of x"
begin

lemma lookup_enc: "valid st \<Longrightarrow> obj_at st ix = Some d \<Longrightarrow> lookup (enc ix (perm_of d)) st = Some (ix, d)"
  using place [of st ix d] by (simp add: lookup_iff ix_enc seq_enc)

lemma lookup_stale:
  assumes "valid st" and "lookup x st = Some (ix, d)" and "valid st'" and "\<And>d'. obj_at st' ix = Some d' \<Longrightarrow> seq (perm_of d') \<noteq> seq (perm_of d)"
  shows "lookup x st' = None"
proof (rule ccontr)
  assume "lookup x st' \<noteq> None"
  then obtain j d' where "lookup x st' = Some (j, d')" by fastforce
  then show False using assms(1-3) assms(4) [of d'] by (auto simp: lookup_iff)
qed

end

definition set_in :: "sem_state \<Rightarrow> nat \<Rightarrow> semid_ds option" where
  "set_in st ix = (if ix < length (sema st) then sema st ! ix else None)"

lemma sem_lookup_iff:
  assumes "sem_inv st"
  shows "sem_lookup x st = Some (ix, ds) \<longleftrightarrow> ix = IPCID_TO_IX x \<and> set_in st ix = Some ds \<and> seq (sem_perm ds) = IPCID_TO_SEQ x"
  using assms by (auto simp: sem_lookup_def set_in_def Let_def sem_inv_def tab_ok_def split: if_splits option.splits)

interpretation sem_tab: ipc_table IXSEQ_TO_IPCID IPCID_TO_IX IPCID_TO_SEQ "2 ^ 16" sem_inv set_in sem_perm sem_lookup
proof unfold_locales
  show "ix < 2 ^ 16" if "sem_inv st" "set_in st ix = Some d" for st ix d
    using that by (auto simp: sem_inv_def tab_ok_def set_in_def split: if_splits)
qed (simp_all add: ipcid_ix ipcid_seq sem_lookup_iff)

lemma find_key_None: "find_key x xs = None \<Longrightarrow> Some ds \<in> set xs \<Longrightarrow> key (sem_perm ds) \<noteq> x"
  by (induction xs) (auto split: if_splits option.splits)

lemma seq_small: "uint ((s + 1 :: u16) AND 0x7fff) < 2 ^ 15"
proof -
  have "0x7fff = (mask 15 :: u16)" by (simp add: mask_eq_exp_minus_1)
  then have "(s + 1) AND 0x7fff = take_bit 15 (s + 1)" by (simp only: take_bit_eq_mask)
  then show ?thesis by (simp only: unsigned_take_bit_eq) (rule take_bit_int_less_exp)
qed

lemma semget_done:
  assumes inv: "sem_inv st" and r: "sys_semget now addr cred k nsems semflg st = Ret None i outs wake st'"
  shows "\<exists>ix ds. sem_lookup i st' = Some (ix, ds) \<and> ix < length (sema st) \<and> key (sem_perm ds) = k \<and> nsems \<le> int (length (sem_base ds))
    \<and> (sema st ! ix = Some ds \<and> st' = st \<and> k \<noteq> IPC_PRIVATE \<and> ipcperm cred (sem_perm ds) (semflg AND 0x1c0) = None
         \<and> (semflg AND IPC_CREAT = 0 \<or> semflg AND IPC_EXCL = 0)
       \<or> sema st ! ix = None \<and> sema st' = (sema st)[ix := Some ds] \<and> (k = IPC_PRIVATE \<or> (\<forall>ds'. Some ds' \<in> set (sema st) \<longrightarrow> key (sem_perm ds') \<noteq> k))
         \<and> vals ds = replicate (nat nsems) 0 \<and> seq (sem_perm ds) = (semseqs st ! ix + 1) AND 0x7fff \<and> 0 \<le> i \<and> semtot st' = semtot st + nsems \<and> nsems \<le> semmsl (info st) \<and> semtot st' \<le> semmns (info st))"
proof (cases "if k \<noteq> IPC_PRIVATE then find_key k (sema st) else None")
  case (Some ix)
  then have k: "k \<noteq> IPC_PRIVATE" "find_key k (sema st) = Some ix" by (simp_all split: if_splits)
  from find_key_Some [OF k(2)] obtain ds where ds: "ix < length (sema st)" "sema st ! ix = Some ds" "key (sem_perm ds) = k" by blast
  have ret: "i = IXSEQ_TO_IPCID ix (sem_perm ds)" "st' = st" "ipcperm cred (sem_perm ds) (semflg AND 0x1c0) = None"
    "\<not> (nsems > 0 \<and> uint (sem_nsems ds) < nsems)" "semflg AND IPC_CREAT = 0 \<or> semflg AND IPC_EXCL = 0"
    using r k ds by (auto simp: sys_semget_def Let_def split: if_splits option.splits)
  then show ?thesis using sem_tab.lookup_enc [OF inv, of ix ds] set_at(1,3) [OF inv ds(1,2)] ds k(1)
    by (intro exI [of _ ix] exI [of _ ds]) (auto simp: set_in_def)
next
  case None
  have create: "k = IPC_PRIVATE \<or> semflg AND IPC_CREAT \<noteq> 0" using r None by (auto simp: sys_semget_def Let_def split: if_splits)
  then have lim: "0 < nsems" "nsems \<le> semmsl (info st)" "nsems \<le> semmns (info st) - semtot st"
    using r by (auto simp: sys_semget_def Let_def split: if_splits)
  obtain ix where free: "find_free (sema st) = Some ix"
    using r None create by (cases "find_free (sema st)") (auto simp: sys_semget_def Let_def split: if_splits)
  define s where "s = (semseqs st ! ix + 1) AND 0x7fff"
  define ds where "ds = new_set now addr cred k nsems semflg s"
  have ret: "i = IXSEQ_TO_IPCID ix (sem_perm ds)" "st' = st\<lparr>semseqs := (semseqs st)[ix := s], sema := (sema st)[ix := Some ds], semtot := semtot st + nsems\<rparr>"
    using r None create lim free by (auto simp: sys_semget_def Let_def ds_def s_def split: if_splits)
  note ix = find_free_Some [OF free]
  have inv': "sem_inv st'" using sys_semget_inv [OF inv, of now addr cred k nsems semflg] r by simp
  have at: "ix < length (sema st')" "sema st' ! ix = Some ds" using ix ret(2) by simp_all
  have "ix < 2 ^ 16" using ix inv by (simp add: sem_inv_def tab_ok_def)
  then have "0 \<le> i" using ret(1) seq_small by (simp add: ipcid_nonneg ds_def new_set_def s_def)
  moreover have "k = IPC_PRIVATE \<or> (\<forall>ds'. Some ds' \<in> set (sema st) \<longrightarrow> key (sem_perm ds') \<noteq> k)"
    using None find_key_None [of k "sema st"] by (auto split: if_splits)
  moreover have "key (sem_perm ds) = k" "int (length (sem_base ds)) = nsems" "seq (sem_perm ds) = (semseqs st ! ix + 1) AND 0x7fff" "vals ds = replicate (nat nsems) 0"
    using lim(1) by (simp_all add: ds_def new_set_def vals_def s_def)
  ultimately show ?thesis using sem_tab.lookup_enc [OF inv', of ix ds] at ret ix lim by (intro exI [of _ ix] exI [of _ ds]) (simp add: set_in_def)
qed

text \<open>
  When \<^verbatim>\<open>sys_semget\<close> succeeds, the identifier that it returns refers to a set with the requested key and at least the requested
  number of semaphores. Either the set was there before, it may be used with the given mode, exclusive creation was not asked for and nothing
  changes; or no set had the key, and a set of zeroes within the limits has been put into a free place of the table.
\<close>

theorem semget_correct:
  assumes inv: "sem_inv st" and r: "sys_semget now addr cred k nsems semflg st = Ret None i outs wake st'"
  shows "\<exists>ix ds. sem_lookup i st' = Some (ix, ds) \<and> ix < length (sema st) \<and> key (sem_perm ds) = k \<and> nsems \<le> int (length (sem_base ds))
    \<and> (sema st ! ix = Some ds \<and> st' = st \<and> k \<noteq> IPC_PRIVATE \<and> ipcperm cred (sem_perm ds) (semflg AND 0x1c0) = None
         \<and> (semflg AND IPC_CREAT = 0 \<or> semflg AND IPC_EXCL = 0)
       \<or> sema st ! ix = None \<and> sema st' = (sema st)[ix := Some ds] \<and> (k = IPC_PRIVATE \<or> (\<forall>ds'. Some ds' \<in> set (sema st) \<longrightarrow> key (sem_perm ds') \<noteq> k))
         \<and> vals ds = replicate (nat nsems) 0 \<and> seq (sem_perm ds) = (semseqs st ! ix + 1) AND 0x7fff \<and> 0 \<le> i \<and> semtot st' = semtot st + nsems \<and> nsems \<le> semmsl (info st) \<and> semtot st' \<le> semmns (info st))"
  by (rule semget_done [OF assms])

theorem semget_correct_witness:
  "\<exists>ix ds. sem_lookup 65536 demo_sems = Some (ix, ds) \<and> vals ds = [0, 0, 0]"
proof -
  have inv: "sem_inv (seminit demo_info)" by (rule sem_inv_init) (simp_all add: demo_info_def)
  have "sys_semget 0 1 (p_ucred demo_root) 5 3 0x3b6 (seminit demo_info) = Ret None 65536 [] False demo_sems" by code_simp
  from semget_correct [OF inv this] show ?thesis by (auto simp: seminit_def demo_info_def numeral_3_eq_3 nth_append)
qed

section \<open>Failures\<close>

lemma try_ops_append:
  assumes "\<forall>sop\<in>set xs. sem_num sop < length base" and "uint nsems = int (length base)" and "run_ops xs (map semval base) = Some vs"
  shows "\<exists>b w u. try_ops nsems i (xs @ ys) base wake undos = try_ops nsems (i + length xs) ys b w u \<and> map semval b = vs"
  using assms
proof (induction xs arbitrary: i base wake undos)
  case (Cons sop xs)
  define s where "s = base ! sem_num sop"
  define base' where "base' = base[sem_num sop := s\<lparr>semval := semval s + word_of_int (sem_op sop)\<rparr>]"
  have num: "sem_num sop < length base" "\<not> int (sem_num sop) \<ge> uint nsems" using Cons.prems by auto
  have ready: "op_ready (semval s) (sem_op sop)" and run: "run_ops xs (map semval base') = Some vs"
    using Cons.prems(3) num(1) by (simp_all add: Let_def s_def base'_def map_update split: if_splits)
  have zero: "base' = base" if "sem_op sop = 0" using that by (simp add: base'_def s_def)
  have "\<exists>w u. try_ops nsems i ((sop # xs) @ ys) base wake undos = try_ops nsems (Suc i) (xs @ ys) base' w u"
    using ready num zero by (auto simp: op_ready_def s_def [symmetric] Let_def base'_def [symmetric] word_greater_zero_iff)
  then obtain w u where wu: "try_ops nsems i ((sop # xs) @ ys) base wake undos = try_ops nsems (Suc i) (xs @ ys) base' w u" by blast
  have "\<exists>b w' u'. try_ops nsems (Suc i) (xs @ ys) base' w u = try_ops nsems (Suc i + length xs) ys b w' u' \<and> map semval b = vs"
    by (rule Cons.IH [OF _ _ run]) (use Cons.prems in \<open>simp_all add: base'_def\<close>)
  then show ?case unfolding wu by (simp only: list.size add.right_neutral add_Suc_right add_Suc)
qed auto

text \<open>
  A vector that is not atomic: when an operation with a number outside of the set follows operations that can be done, \<^verbatim>\<open>sys_semop\<close>
  fails with \<^verbatim>\<open>EFBIG\<close>, but what the operations before it did to the values stays.
\<close>

theorem semop_efbig_not_undone:
  assumes inv: "sem_inv st" and l: "sem_lookup semid st = Some (ix, ds)" and perm: "ipcperm (p_ucred p) (sem_perm ds) IPC_W = None"
    and n: "0 < nsops" "int nsops \<le> semopm (info st)" and nums: "\<forall>sop\<in>set xs. sem_num sop < length (sem_base ds)"
    and run: "run_ops xs (vals ds) = Some vs" and bad: "length (sem_base ds) \<le> sem_num sop"
  shows "\<exists>st'. sys_semop now None p semid nsops (Inr (xs @ sop # ys)) st = SemRet (sem_fail EFBIG st') \<and> sem_vals st' = (sem_vals st)[ix := Some vs]"
proof -
  note k = sem_lookup_Some(2,3) [OF l inv]
  note s = set_at [OF inv k]
  from try_ops_append [OF nums s(1) run [unfolded vals_def], of 0 "sop # ys" False False] obtain b w u where
    b: "try_ops (sem_nsems ds) 0 (xs @ sop # ys) (sem_base ds) False False = (b, w, u, BadNum)" "map semval b = vs" using bad s(1) by auto
  have "sem_vals (upd_set ix (\<lambda>ds. ds\<lparr>sem_base := b\<rparr>) st) = (sem_vals st)[ix := Some vs]"
    using b(2) by (simp add: sem_vals_upd_set [OF k] vals_def)
  then show ?thesis using l perm n k(2) b(1) by (simp add: sys_semop_def semop_pass_def)
qed

theorem semop_efbig_not_undone_witness:
  "\<exists>st'. sys_semop 0 None demo_root 65536 2 (Inr [\<lparr>sem_num = 0, sem_op = 2, sem_flg = 0\<rparr>, \<lparr>sem_num = 3, sem_op = 1, sem_flg = 0\<rparr>]) demo_sems
     = SemRet (sem_fail EFBIG st') \<and> sem_vals st' = Some [2, 0, 0] # replicate 9 None"
proof -
  let ?x = "\<lparr>sem_num = 0, sem_op = 2, sem_flg = 0\<rparr>" and ?y = "\<lparr>sem_num = 3, sem_op = 1, sem_flg = 0\<rparr>"
  have r: "run_ops [?x] (vals demo_set) = Some [2, 0, 0]" by code_simp
  have "\<exists>st'. sys_semop 0 None demo_root 65536 2 (Inr ([?x] @ ?y # [])) demo_sems = SemRet (sem_fail EFBIG st') \<and> sem_vals st' = (sem_vals demo_sems)[0 := Some [2, 0, 0]]"
    by (rule semop_efbig_not_undone [OF demo_sems_inv demo_sems_eval(1,2) _ _ _ r]) (simp_all add: demo_sems_eval)
  then show ?thesis by (simp add: demo_sems_eval)
qed

text \<open>Taking back adjustments always runs past the start of the vector.\<close>

lemma undo_undos_faults: "undo_undos wait p ix sops j known st = None"
proof (induction j arbitrary: known st)
  case 0
  show ?case by (subst undo_undos.simps) (auto split: option.splits bind_splits)
next
  case (Suc j)
  show ?case by (subst undo_undos.simps) (simp add: Suc split: bind_splits del: undo_undos.simps)
qed

text \<open>So a vector with eleven adjustments for one process is a fault instead of an error.\<close>

definition eleven :: "sembuf list" where
  "eleven = map (\<lambda>n. \<lparr>sem_num = n, sem_op = 1, sem_flg = SEM_UNDO\<rparr>) [0..<11]"

lemma semop_undo_overflow_faults:
  "sys_semop 0 None demo_root 65536 11 (Inr eleven) (ret_st (sys_semget 0 1 (p_ucred demo_root) 5 11 0x3b6 (seminit demo_info))) = SemFault"
  by code_simp

text \<open>
  An adjustment that is cancelled within a vector leaves \<^verbatim>\<open>suptr\<close> pointing to the structure that has just been freed; the next
  adjustment uses it.
\<close>

lemma semop_undo_freed_faults:
  "sys_semop 0 None demo_root 65536 3 (Inr [\<lparr>sem_num = 0, sem_op = 1, sem_flg = SEM_UNDO\<rparr>, \<lparr>sem_num = 0, sem_op = -1, sem_flg = SEM_UNDO\<rparr>,
     \<lparr>sem_num = 1, sem_op = 1, sem_flg = SEM_UNDO\<rparr>]) demo_sems = SemFault"
  by code_simp

text \<open>A value at the top wraps around to zero.\<close>

lemma semop_value_wraps:
  "\<exists>st wake st'. sys_semop 0 None demo_root 65536 1 (Inr [\<lparr>sem_num = 0, sem_op = 1, sem_flg = 0\<rparr>]) st = SemRet (Ret None 0 [] wake st')
     \<and> sem_vals st = Some [0xffff, 0, 0] # replicate 9 None \<and> sem_vals st' = Some [0, 0, 0] # replicate 9 None"
proof -
  define st where "st = ret_st (semctl1 0 (p_ucred demo_root) 65536 0 (SETVAL (-1)) demo_sems)"
  have "sem_vals st = Some [0xffff, 0, 0] # replicate 9 None"
    "sem_vals (case sys_semop 0 None demo_root 65536 1 (Inr [\<lparr>sem_num = 0, sem_op = 1, sem_flg = 0\<rparr>]) st of SemRet r \<Rightarrow> ret_st r) = Some [0, 0, 0] # replicate 9 None"
    "case sys_semop 0 None demo_root 65536 1 (Inr [\<lparr>sem_num = 0, sem_op = 1, sem_flg = 0\<rparr>]) st of SemRet (Ret e v out w s) \<Rightarrow> e = None \<and> v = 0 \<and> out = [] | _ \<Rightarrow> False"
    unfolding st_def by code_simp+
  then show ?thesis by (intro exI [of _ st]) (auto split: semop_outcome.splits sem_ret.splits)
qed

text \<open>
  \<^verbatim>\<open>SETVAL\<close> clears the adjustment of its semaphore only if it is the first of its set: the entry of semaphore 1 stays when semaphore
  0 of the set has one before it.
\<close>

lemma setval_keeps_adjustment:
  "clear_ents 0 1 0 [\<lparr>un_adjval = -1, un_num = 0, un_id = 0\<rparr>, \<lparr>un_adjval = -1, un_num = 1, un_id = 0\<rparr>]
     = [\<lparr>un_adjval = -1, un_num = 0, un_id = 0\<rparr>, \<lparr>un_adjval = -1, un_num = 1, un_id = 0\<rparr>]"
  by (simp add: clear_ents.simps)

section \<open>Identifiers\<close>

definition ident :: "semid_ds \<Rightarrow> u16 \<times> int" where
  "ident ds = (seq (sem_perm ds), key (sem_perm ds))"

definition ids :: "sem_state \<Rightarrow> (u16 \<times> int) option list" where
  "ids st = map (map_option ident) (sema st)"

text \<open>The sequence numbers are those of the sets in the table, and a public key has at most one set.\<close>

definition ids_inv :: "(u16 \<times> int) option list \<Rightarrow> u16 list \<Rightarrow> bool" where
  "ids_inv tab seqs \<longleftrightarrow> length seqs = length tab \<and> (\<forall>k<length tab. \<forall>s x. tab ! k = Some (s, x) \<longrightarrow> s = seqs ! k)
     \<and> (\<forall>j<length tab. \<forall>k<length tab. \<forall>s t x. tab ! j = Some (s, x) \<and> tab ! k = Some (t, x) \<and> x \<noteq> IPC_PRIVATE \<longrightarrow> j = k)"

definition same_ids :: "sem_state \<Rightarrow> sem_state \<Rightarrow> bool" where
  "same_ids st st' \<longleftrightarrow> ids st' = ids st \<and> semseqs st' = semseqs st"

lemma same_ids_refl [simp]: "same_ids st st"
  by (simp add: same_ids_def)

lemma same_ids_trans: "same_ids st st' \<Longrightarrow> same_ids st' st'' \<Longrightarrow> same_ids st st''"
  by (simp add: same_ids_def)

lemma same_ids_upd_set: "(\<And>ds. ident (f ds) = ident ds) \<Longrightarrow> same_ids st (upd_set k f st)"
  by (cases "sema st ! k") (auto simp: same_ids_def ids_def upd_set_def map_update intro!: nth_equalityI simp: nth_list_update)

lemma ident_upd_sem [simp]: "ident (upd_sem n f ds) = ident ds" "ident (ds\<lparr>sem_base := b\<rparr>) = ident ds" "ident (ds\<lparr>sem_otime := t\<rparr>) = ident ds"
  by (simp_all add: ident_def upd_sem_def)

lemma ident_fold_pid [simp]: "ident (fold (\<lambda>sop. upd_sem (sem_num sop) (f sop)) sops ds) = ident ds"
  by (induction sops arbitrary: ds) simp_all

lemma same_ids_clear: "same_ids st (semundo_clear a b st)"
  by (simp add: same_ids_def ids_def)

lemma same_ids_adjust: "semundo_adjust None p known ix n v st = Some (e, known', st') \<Longrightarrow> same_ids st st'"
  by (auto simp: semundo_adjust_def semu_alloc_def same_ids_def ids_def Let_def split: if_splits)

lemma same_ids_undo_loop: "undo_loop None p ix all i sops known st = Some (e, st') \<Longrightarrow> same_ids st st'"
proof (induction sops arbitrary: i known st)
  case (Cons sop sops)
  show ?case
  proof (cases "wants_undo sop")
    case True
    then obtain e1 known1 st1 where a: "semundo_adjust None p known ix (int (sem_num sop)) (- sem_op sop) st = Some (e1, known1, st1)"
      using Cons.prems by (auto split: bind_splits)
    then have "st' = st1 \<or> undo_loop None p ix all (Suc i) sops known1 st1 = Some (e, st')"
      using Cons.prems True by (auto simp: undo_undos_faults split: option.splits if_splits simp del: undo_undos.simps)
    then show ?thesis using Cons.IH same_ids_adjust [OF a] same_ids_trans by blast
  qed (use Cons in simp)
qed simp

lemma same_ids_pass:
  assumes "outcome_state (semop_pass now None p ix k sops u st) = Some st'"
  shows "same_ids st st'"
proof -
  have put: "same_ids st (upd_set k (\<lambda>ds. ds\<lparr>sem_base := b\<rparr>) st)" for b by (rule same_ids_upd_set) simp
  have loop: "same_ids st st2" if "undo_loop None (p_self p) ix sops 0 sops False (upd_set k (\<lambda>ds. ds\<lparr>sem_base := b\<rparr>) st) = Some (e, st2)" for b e st2
    using same_ids_undo_loop [OF that] put same_ids_trans by blast
  have rb: "same_ids st2 (upd_set k (\<lambda>ds. ds\<lparr>sem_base := f ds\<rparr>) st2)" for f st2 by (rule same_ids_upd_set) (simp add: ident_def)
  have fin: "same_ids st2 (upd_set k (\<lambda>ds. (fold (\<lambda>sop. upd_sem (sem_num sop) (\<lambda>s. s\<lparr>sempid := p_pid p\<rparr>)) sops ds)\<lparr>sem_otime := now\<rparr>) st2)" for st2
    by (rule same_ids_upd_set) simp
  show ?thesis
  proof (cases "sema st ! k")
    case None
    then show ?thesis using assms by (simp add: semop_pass_def)
  next
    case (Some ds)
    obtain b wake undos end_at where t: "try_ops (sem_nsems ds) 0 sops (sem_base ds) False u = (b, wake, undos, end_at)" by (metis prod_cases4)
    show ?thesis
    proof (cases end_at)
      case (Blocked i)
      then show ?thesis using assms Some t put by (simp add: semop_pass_def Let_def split: if_splits) blast+
    next
      case BadNum
      then show ?thesis using assms Some t put by (simp add: semop_pass_def) blast
    next
      case Through
      define r where "r = (if undos then undo_loop None (p_self p) ix sops 0 sops False (upd_set k (\<lambda>ds. ds\<lparr>sem_base := b\<rparr>) st)
        else Some (None, upd_set k (\<lambda>ds. ds\<lparr>sem_base := b\<rparr>) st))"
      have r: "same_ids st st2" if "r = Some (e, st2)" for e st2 using that loop put by (auto simp: r_def split: if_splits)
      show ?thesis
      proof (cases r)
        case None
        then show ?thesis using assms Some t Through by (simp add: semop_pass_def r_def [symmetric])
      next
        case (Some es)
        then obtain e st2 where e: "r = Some (e, st2)" by (cases es) auto
        from r [OF e] show ?thesis using assms \<open>sema st ! k = Some ds\<close> t Through e same_ids_trans [OF _ rb] same_ids_trans [OF _ fin]
          by (cases e) (auto simp: semop_pass_def r_def [symmetric])
      qed
    qed
  qed
qed

lemma same_ids_exit_ents: "exit_ents us st = Some st' \<Longrightarrow> same_ids st st'"
proof (induction us arbitrary: st)
  case (Cons u us)
  let ?f = "upd_sem (nat (un_num u)) (\<lambda>s. s\<lparr>semval := (if un_adjval u < 0 \<and> uint (semval s) < - un_adjval u then 0 else semval s + word_of_int (un_adjval u))\<rparr>)"
  have "exit_ents us (upd_set (un_id u) ?f st) = Some st'" using Cons.prems by (simp split: if_splits option.splits)
  moreover have "same_ids st (upd_set (un_id u) ?f st)" by (rule same_ids_upd_set) simp
  ultimately show ?case using Cons.IH same_ids_trans by blast
qed simp

lemma same_ids_exit: "semexit p st = Some st' \<Longrightarrow> same_ids st st'"
proof (cases "find (\<lambda>su. un_proc su = p) (semu_list st)")
  case (Some su)
  assume "semexit p st = Some st'"
  then obtain st1 where "exit_ents (un_ent su) st = Some st1" "st' = st1\<lparr>semu_list := remove1 su (semu_list st1), semutot := semutot st1 - 1\<rparr>"
    using Some by (auto simp: semexit_def)
  then show ?thesis using same_ids_exit_ents by (auto simp: same_ids_def ids_def)
qed (simp add: semexit_def)

lemma ids_inv_drop: "ids_inv tab seqs \<Longrightarrow> ids_inv (tab[k := None]) seqs"
  by (cases "k < length tab") (auto simp: ids_inv_def nth_list_update split: if_splits)

lemma ids_inv_grow: "ids_inv tab seqs \<Longrightarrow> ids_inv (tab @ replicate n None) (seqs @ replicate n 0)"
  by (auto simp: ids_inv_def nth_append split: if_splits)

lemma ids_inv_new:
  assumes inv: "ids_inv tab seqs" and k: "k < length tab" and new: "x \<noteq> IPC_PRIVATE \<Longrightarrow> \<forall>s. Some (s, x) \<notin> set tab"
  shows "ids_inv (tab[k := Some (s, x)]) (seqs[k := s])"
proof -
  have "j = i" if "j < length tab" "i < length tab" "tab[k := Some (s, x)] ! j = Some (s1, y)" "tab[k := Some (s, x)] ! i = Some (s2, y)" "y \<noteq> IPC_PRIVATE" for i j s1 s2 y
    using that inv new by (cases "j = k"; cases "i = k") (auto simp: ids_inv_def nth_list_update dest: nth_mem)
  moreover have "t = seqs[k := s] ! j" if "j < length tab" "tab[k := Some (s, x)] ! j = Some (t, y)" for j t y
    using that inv k by (cases "j = k") (auto simp: ids_inv_def)
  ultimately show ?thesis using inv by (auto simp: ids_inv_def)
qed

lemma same_ids_inv: "same_ids st st' \<Longrightarrow> ids_inv (ids st) (semseqs st) \<Longrightarrow> ids_inv (ids st') (semseqs st')"
  by (simp add: same_ids_def)

lemma ids_inv_ctl:
  assumes inv: "ids_inv (ids st) (semseqs st)"
  shows "ids_inv (ids (ret_st (semctl1 now cred semid semnum cmd st))) (semseqs (ret_st (semctl1 now cred semid semnum cmd st)))"
proof (cases "sem_lookup semid st")
  case (Some x)
  then obtain ix ds where l: "sem_lookup semid st = Some (ix, ds)" by (cases x) auto
  define rm where "rm = st\<lparr>semtot := semtot st - uint (sem_nsems ds), sema := (sema st)[ix := None]\<rparr>"
  have rm: "ids_inv (ids (semundo_clear ix (-1) rm)) (semseqs (semundo_clear ix (-1) rm))"
    using ids_inv_drop [OF inv, of ix] by (simp add: ids_def rm_def map_update)
  have upd: "ids_inv (ids (upd_set ix f st)) (semseqs st)" if "\<And>ds. ident (f ds) = ident ds" for f
    using same_ids_inv [OF same_ids_upd_set [of f st ix] inv] that by simp
  have clr: "ids_inv (ids (semundo_clear a b (upd_set ix f st))) (semseqs st)" if "\<And>ds. ident (f ds) = ident ds" for f a b
    using same_ids_inv [OF same_ids_clear [of "upd_set ix f st" a b]] upd [OF that] by simp
  show ?thesis
  proof (cases cmd)
    case IPC_RMID
    then show ?thesis using inv l rm by (simp add: semctl1_def rm_def split: option.split)
  next
    case (IPC_SET arg)
    then show ?thesis using inv l by (auto simp: semctl1_def ident_def intro!: upd split: option.split sum.split)
  next
    case (SETVAL v)
    then show ?thesis using inv l by (auto simp: semctl1_def ident_def upd_sem_def intro!: clr split: option.split)
  next
    case (SETALL a)
    then show ?thesis using inv l by (auto simp: semctl1_def case_prod_beta ident_def intro!: clr split: option.split)
  qed (use inv l in \<open>auto simp: semctl1_def get_field_def case_prod_beta split: option.split\<close>)
qed (simp add: semctl1_def inv)

lemma ids_inv_get:
  assumes inv: "ids_inv (ids st) (semseqs st)"
  shows "ids_inv (ids (ret_st (sys_semget now addr cred k nsems semflg st))) (semseqs (ret_st (sys_semget now addr cred k nsems semflg st)))"
proof -
  have "ids_inv ((ids st)[ix := Some (s, k)]) ((semseqs st)[ix := s])"
    if "find_free (sema st) = Some ix" "k \<noteq> IPC_PRIVATE \<Longrightarrow> find_key k (sema st) = None" for ix s
  proof (rule ids_inv_new [OF inv])
    show "ix < length (ids st)" using find_free_Some [OF that(1)] by (simp add: ids_def)
    show "\<forall>s. Some (s, k) \<notin> set (ids st)" if "k \<noteq> IPC_PRIVATE"
      using find_key_None [OF \<open>k \<noteq> IPC_PRIVATE \<Longrightarrow> find_key k (sema st) = None\<close> [OF that]] by (force simp: ids_def ident_def map_option_case split: option.splits)
  qed
  then show ?thesis using inv by (auto simp: sys_semget_def Let_def ids_def map_update ident_def new_set_def split: option.split)
qed

lemma ids_inv_limit: "ids_inv (ids st) (semseqs st) \<Longrightarrow> ids_inv (ids (snd (sysctl_sysvsem l res st))) (semseqs (snd (sysctl_sysvsem l res st)))"
  using ids_inv_grow [of "ids st" "semseqs st"]
  by (cases l; cases res) (auto simp: sysctl_sysvsem_def Let_def ids_def)

lemma same_ids_semop: "outcome_state (sys_semop now None p semid nsops sops st) = Some st' \<Longrightarrow> same_ids st st'"
  using same_ids_pass by (auto simp: sys_semop_def split: option.splits sum.splits if_splits)

lemma same_ids_wake:
  assumes "outcome_state (semop_wake now None p semid a sops i u intr st) = Some st'"
  shows "same_ids st st'"
proof -
  have "same_ids st (upd_set k (upd_sem n f) st)" for k n f by (rule same_ids_upd_set) simp
  then show ?thesis using assms same_ids_trans [OF _ same_ids_pass]
    by (fastforce simp: semop_wake_def Let_def split: option.splits if_splits)
qed

lemma sem_reach_ids: "sem_reach st \<Longrightarrow> ids_inv (ids st) (semseqs st)"
proof (induction rule: sem_reach.induct)
  case (init i)
  then show ?case by (simp add: seminit_def ids_def ids_inv_def)
next
  case (op st now p semid nsops sops st')
  show ?case by (rule same_ids_inv [OF same_ids_semop [OF op.hyps(2)] op.IH])
next
  case (wake st semid a now p sops i u intr st')
  show ?case by (rule same_ids_inv [OF same_ids_wake [OF wake.hyps(4)] wake.IH])
next
  case (exit st p st')
  show ?case by (rule same_ids_inv [OF same_ids_exit [OF exit.hyps(2)] exit.IH])
qed (simp_all only: ids_inv_get ids_inv_ctl ids_inv_limit)

lemma sem_keys_unique:
  assumes "sem_reach st" and "set_in st i = Some a" and "set_in st j = Some b" and "key (sem_perm a) = key (sem_perm b)" and "key (sem_perm a) \<noteq> IPC_PRIVATE"
  shows "i = j"
  using sem_reach_ids [OF assms(1)] assms(2-5) by (auto simp: ids_inv_def ids_def ident_def set_in_def split: if_splits)

lemma next_seq: "((s + 1) AND 0x7fff :: u16) \<noteq> s"
proof
  assume "((s + 1) AND 0x7fff) = s"
  then have "even ((s + 1) AND 0x7fff) = even s" by simp
  then show False by (simp add: even_and_iff)
qed

lemma removed_state:
  assumes l: "sem_lookup semid st = Some (ix, ds)" and inv: "sem_inv st" and r: "semctl1 now cred semid n IPC_RMID st = Ret None v outs w st1"
  shows "sem_inv st1" and "set_in st1 ix = None" and "semseqs st1 = semseqs st" and "length (sema st1) = length (sema st)"
proof -
  show "sem_inv st1" using semctl1_inv [OF inv, of now cred semid n IPC_RMID] r by simp
  have st1: "st1 = semundo_clear ix (-1) (st\<lparr>semtot := semtot st - uint (sem_nsems ds), sema := (sema st)[ix := None]\<rparr>)"
    using r l by (simp add: semctl1_def split: option.splits)
  show "set_in st1 ix = None" "semseqs st1 = semseqs st" "length (sema st1) = length (sema st)" by (simp_all add: st1 set_in_def)
qed

text \<open>
  C26. The identifier of a set that has been removed is stale: it finds no set, not even when another set is created afterwards,
  in the same place of the table or with the same key, and the new set has another identifier.
\<close>

theorem removed_semid_is_stale:
  assumes reach: "sem_reach st" and l: "sem_lookup semid st = Some (ix, ds)" and rm: "semctl1 now cred semid n IPC_RMID st = Ret None v outs w st1"
    and get: "sys_semget now' addr cred' k nsems semflg st1 = Ret None i outs' w' st2"
  shows "sem_lookup semid st1 = None \<and> sem_lookup semid st2 = None \<and> i \<noteq> semid"
proof -
  note inv = sem_reach_inv [OF reach]
  note rm = removed_state [OF l inv rm]
  have inv2: "sem_inv st2" using sys_semget_inv [OF rm(1), of now' addr cred' k nsems semflg] get by simp
  have ds: "ix < length (sema st)" "set_in st ix = Some ds" using l sem_lookup_iff [OF inv] by (auto simp: set_in_def split: if_splits)
  then have "seq (sem_perm ds) = semseqs st ! ix" using sem_reach_ids [OF reach] by (auto simp: ids_inv_def ids_def ident_def set_in_def)
  moreover from semget_done [OF rm(1) get] obtain ix2 ds2 where new: "sem_lookup i st2 = Some (ix2, ds2)" "ix2 < length (sema st1)"
    "st2 = st1 \<or> sema st2 = (sema st1)[ix2 := Some ds2] \<and> seq (sem_perm ds2) = (semseqs st1 ! ix2 + 1) AND 0x7fff" by blast
  ultimately have "seq (sem_perm d) \<noteq> seq (sem_perm ds)" if "set_in st2 ix = Some d" for d
    using that rm(2-4) ds next_seq [of "semseqs st ! ix"] by (cases "ix2 = ix") (auto simp: set_in_def split: if_splits)
  then have "sem_lookup semid st2 = None" by (rule sem_tab.lookup_stale [OF inv l inv2])
  moreover have "sem_lookup semid st1 = None" by (rule sem_tab.lookup_stale [OF inv l rm(1)]) (simp add: rm(2))
  ultimately show ?thesis using new(1) by auto
qed

theorem removed_semid_is_stale_witness:
  "\<exists>st1 st2 i. ret_st (semctl1 0 (p_ucred demo_root) 65536 0 IPC_RMID demo_sems) = st1 \<and> ret_st (sys_semget 0 1 (p_ucred demo_root) 5 3 0x3b6 st1) = st2
     \<and> sem_lookup 65536 st1 = None \<and> sem_lookup 65536 st2 = None \<and> i \<noteq> 65536 \<and> sem_lookup i st2 \<noteq> None"
proof -
  have "sem_reach (seminit demo_info)" by (rule sem_reach.init) (simp_all add: demo_info_def)
  then have reach: "sem_reach demo_sems" unfolding demo_sems_def by (rule sem_reach.get)
  define st1 where "st1 = ret_st (semctl1 0 (p_ucred demo_root) 65536 0 IPC_RMID demo_sems)"
  define st2 where "st2 = ret_st (sys_semget 0 1 (p_ucred demo_root) 5 3 0x3b6 st1)"
  have rm: "semctl1 0 (p_ucred demo_root) 65536 0 IPC_RMID demo_sems = Ret None 0 [] True st1" unfolding st1_def by code_simp
  have get: "sys_semget 0 1 (p_ucred demo_root) 5 3 0x3b6 st1 = Ret None 131072 [] False st2" unfolding st2_def st1_def by code_simp
  have "sem_lookup 131072 st2 \<noteq> None" unfolding st2_def st1_def by code_simp
  then show ?thesis using removed_semid_is_stale [OF reach demo_sems_eval(1) rm get] st1_def st2_def by blast
qed

end
