(* ===== verification/Sysv_Msg.thy ===== *)
theory Sysv_Msg
  imports Sysv_Sem
begin

text \<open>
  System V message queues (\<^verbatim>\<open>src/sys/kern/sysv_msg.c\<close>, \<^verbatim>\<open>src/sys/sys/msg.h\<close>). The state has the tables of the code: the map of segments with its free list, the pool of
  bytes, the message headers with their free list, and the queues; a short that links segments is an integer, a pointer to a header its index.
  The calls of a thread are cut where it may sleep: waiting for resources or for a message, and moving data between
  the kernel and the user, which is one step that may fail at any point. All threads that wait for a queue sleep on its address. A panic and
  an index outside of a table are \<open>None\<close>. Times are left out. \<^verbatim>\<open>msg_reach\<close> leaves out one step, the update of a removed queue by an \<^verbatim>\<open>IPC_SET\<close> of the
  superuser that slept while it read its argument (\<open>revives\<close>): it makes a queue of freed headers (\<open>set_revives_removed\<close> in \<^verbatim>\<open>Sysv_Msg_Calls\<close>).
\<close>

section \<open>Data\<close>

record msg =
  msg_next :: "nat option"
  msg_type :: int
  msg_ts :: nat
  msg_spot :: int

record msqid_ds =
  msg_perm :: ipc_perm
  msg_first :: "nat option"
  msg_last :: "nat option"
  msg_cbytes :: nat
  msg_qnum :: nat
  msg_qbytes :: nat
  msg_lspid :: int
  msg_lrpid :: int

record msginfo =
  msgmni :: nat
  msgmnb :: nat
  msgtql :: nat
  msgssz :: nat
  msgseg :: nat

text \<open>
  Where a thread is, with the slot of its queue: outside with a result (an error, or a value and what has been copied out), waiting to send, moving the message it
  sends, waiting to receive, moving the message it received, reading the argument of \<^verbatim>\<open>IPC_SET\<close>.
\<close>

datatype mpc =
    MOut "errno + int \<times> (int \<times> u8 list) option"
  | SndWait nat int "u8 list" u32 bool
  | SndCopy nat nat int "u8 list"
  | RcvWait nat int nat int u32
  | RcvCopy nat nat nat
  | SetCopy nat ucred

record msg_state =
  nfree_msgmaps :: int
  free_msgmaps :: int
  free_msghdrs :: "nat option"
  msgpool :: "nat \<Rightarrow> u8"
  msgmaps :: "nat \<Rightarrow> int"
  msghdrs :: "nat \<Rightarrow> msg"
  msqids :: "nat \<Rightarrow> msqid_ds"
  minfo :: msginfo
  msg_pc :: "nat \<Rightarrow> mpc"
  msg_chan :: "nat \<Rightarrow> nat option"

definition MSG_LOCKED :: u32 where "MSG_LOCKED = 0x200"

definition MSG_NOERROR :: u32 where "MSG_NOERROR = 0x1000"

section \<open>Access to the tables\<close>

definition set_ds :: "nat \<Rightarrow> msqid_ds \<Rightarrow> msg_state \<Rightarrow> msg_state" where
  "set_ds q ds st = st\<lparr>msqids := (msqids st)(q := ds)\<rparr>"

definition set_hdr :: "nat \<Rightarrow> msg \<Rightarrow> msg_state \<Rightarrow> msg_state" where
  "set_hdr h m st = st\<lparr>msghdrs := (msghdrs st)(h := m)\<rparr>"

definition set_map :: "nat \<Rightarrow> int \<Rightarrow> msg_state \<Rightarrow> msg_state" where
  "set_map i n st = st\<lparr>msgmaps := (msgmaps st)(i := n)\<rparr>"

definition ds_locked :: "msqid_ds \<Rightarrow> bool" where
  "ds_locked ds \<longleftrightarrow> mode (msg_perm ds) AND MSG_LOCKED \<noteq> 0"

definition ds_lock :: "bool \<Rightarrow> msqid_ds \<Rightarrow> msqid_ds" where
  "ds_lock b ds =
     ds\<lparr>msg_perm := (msg_perm ds)\<lparr>mode := (if b then mode (msg_perm ds) OR MSG_LOCKED else mode (msg_perm ds) AND NOT MSG_LOCKED)\<rparr>\<rparr>"

definition lock_q :: "nat \<Rightarrow> bool \<Rightarrow> msg_state \<Rightarrow> msg_state" where
  "lock_q q b st = set_ds q (ds_lock b (msqids st q)) st"

definition mwakeup :: "nat \<Rightarrow> msg_state \<Rightarrow> msg_state" where
  "mwakeup q st = st\<lparr>msg_chan := (\<lambda>t. if msg_chan st t = Some q then None else msg_chan st t)\<rparr>"

definition at_pc :: "nat \<Rightarrow> mpc \<Rightarrow> msg_state \<Rightarrow> msg_state" where
  "at_pc t pc st = st\<lparr>msg_pc := (msg_pc st)(t := pc)\<rparr>"

definition msleep :: "nat \<Rightarrow> nat \<Rightarrow> mpc \<Rightarrow> msg_state \<Rightarrow> msg_state" where
  "msleep t q pc st = (at_pc t pc st)\<lparr>msg_chan := (msg_chan st)(t := Some q)\<rparr>"

definition mfail :: "nat \<Rightarrow> errno \<Rightarrow> msg_state \<Rightarrow> msg_state" where
  "mfail t e st = at_pc t (MOut (Inl e)) st"

section \<open>Initialisation\<close>

definition msginit :: "msginfo \<Rightarrow> (nat \<Rightarrow> u8) \<Rightarrow> (nat \<Rightarrow> msg) \<Rightarrow> (nat \<Rightarrow> msqid_ds) \<Rightarrow> msg_state option" where
  "msginit mi pool hdrs qs =
     (if msgssz mi \<notin> {8, 16, 32, 64, 128, 256, 512, 1024} \<or> msgseg mi > 32767 then None
      else Some \<lparr>nfree_msgmaps = int (msgseg mi), free_msgmaps = 0, free_msghdrs = Some 0, msgpool = pool,
        msgmaps = (\<lambda>i. if i + 1 < msgseg mi then int i + 1 else -1),
        msghdrs = (\<lambda>i. (hdrs i)\<lparr>msg_type := 0, msg_next := (if i + 1 < msgtql mi then Some (i + 1) else None)\<rparr>),
        msqids = (\<lambda>i. (qs i)\<lparr>msg_qbytes := 0, msg_perm := (msg_perm (qs i))\<lparr>seq := 0\<rparr>\<rparr>),
        minfo = mi, msg_pc = (\<lambda>t. MOut (Inl EINVAL)), msg_chan = (\<lambda>t. None)\<rparr>)"

section \<open>Headers\<close>

text \<open>The loop of \<^verbatim>\<open>msg_freehdr\<close>.\<close>

partial_function (option) freehdr_loop :: "nat \<Rightarrow> msg_state \<Rightarrow> msg_state option" where
  "freehdr_loop h st =
     (let m = msghdrs st h
      in if msg_ts m > 0 then
           if msg_spot m < 0 \<or> msg_spot m \<ge> int (msgseg (minfo st)) then None
           else
             let i = nat (msg_spot m);
                 next = msgmaps st i;
                 st = (set_map i (free_msgmaps st) st)\<lparr>free_msgmaps := msg_spot m, nfree_msgmaps := nfree_msgmaps st + 1\<rparr>
             in freehdr_loop h (set_hdr h (m\<lparr>msg_spot := next, msg_ts := (if msg_ts m \<ge> msgssz (minfo st) then msg_ts m - msgssz (minfo st) else 0)\<rparr>) st)
         else Some st)"

declare freehdr_loop.simps [code]

definition msg_freehdr :: "nat \<Rightarrow> msg_state \<Rightarrow> msg_state option" where
  "msg_freehdr h st =
     Option.bind (freehdr_loop h st) (\<lambda>st.
       let m = msghdrs st h
       in if msg_spot m \<noteq> -1 then None
          else Some ((set_hdr h (m\<lparr>msg_next := free_msghdrs st\<rparr>) st)\<lparr>free_msghdrs := Some h\<rparr>))"

section \<open>Control\<close>

text \<open>\<^verbatim>\<open>IPCID_TO_IX\<close> and the checks of the slot that all calls begin with.\<close>

definition msq_lookup :: "int \<Rightarrow> msg_state \<Rightarrow> nat option" where
  "msq_lookup msqid st =
     (let ix = IPCID_TO_IX msqid
      in if ix \<ge> msgmni (minfo st) then None
         else if msg_qbytes (msqids st ix) = 0 then None
         else if seq (msg_perm (msqids st ix)) \<noteq> IPCID_TO_SEQ msqid then None
         else Some ix)"

text \<open>The loop of \<^verbatim>\<open>IPC_RMID\<close> over the messages of the queue; the counters are unsigned.\<close>

definition ulong_sub :: "nat \<Rightarrow> nat \<Rightarrow> nat" where
  "ulong_sub a b = nat ((int a - int b) mod 2 ^ 64)"

partial_function (option) rmid_loop :: "nat \<Rightarrow> nat option \<Rightarrow> msg_state \<Rightarrow> msg_state option" where
  "rmid_loop q p st =
     (case p of None \<Rightarrow> Some st
      | Some h \<Rightarrow>
          let ds = msqids st q;
              m = msghdrs st h;
              st = set_ds q (ds\<lparr>msg_cbytes := ulong_sub (msg_cbytes ds) (msg_ts m), msg_qnum := ulong_sub (msg_qnum ds) 1\<rparr>) st
          in Option.bind (msg_freehdr h st) (rmid_loop q (msg_next m)))"

declare rmid_loop.simps [code]

text \<open>The commands; \<open>MSTAT\<close> has the result of \<^verbatim>\<open>copyout\<close>.\<close>

datatype msg_cmd = MRMID | MSET | MSTAT "errno option" | MBADCMD

definition mset_write :: "nat \<Rightarrow> nat \<times> nat \<times> u32 \<times> nat \<Rightarrow> msg_state \<Rightarrow> msg_state" where
  "mset_write q arg st =
     (case arg of (u, g, m, qb) \<Rightarrow>
        let ds = msqids st q
        in set_ds q (ds\<lparr>msg_perm := (msg_perm ds)\<lparr>uid := u, gid := g, mode := (mode (msg_perm ds) AND NOT 0x1ff) OR (m AND 0x1ff)\<rparr>, msg_qbytes := qb\<rparr>) st)"

definition msgctl1 :: "nat \<Rightarrow> ucred \<Rightarrow> int \<Rightarrow> msg_cmd \<Rightarrow> msg_state \<Rightarrow> msg_state option" where
  "msgctl1 t cred msqid cmd st =
     (case msq_lookup msqid st of None \<Rightarrow> Some (mfail t EINVAL st)
      | Some q \<Rightarrow>
          let ds = msqids st q
          in case cmd of
            MRMID \<Rightarrow>
              (case ipcperm cred (msg_perm ds) IPC_M of Some e \<Rightarrow> Some (mfail t e st)
               | None \<Rightarrow>
                   Option.bind (rmid_loop q (msg_first ds) st) (\<lambda>st.
                     let ds = msqids st q
                     in if msg_cbytes ds \<noteq> 0 \<or> msg_qnum ds \<noteq> 0 then None
                        else Some (at_pc t (MOut (Inr (0, None))) (mwakeup q (set_ds q (ds\<lparr>msg_qbytes := 0\<rparr>) st)))))
          | MSET \<Rightarrow>
              Some (case ipcperm cred (msg_perm ds) IPC_M of Some e \<Rightarrow> mfail t e st | None \<Rightarrow> at_pc t (SetCopy q cred) st)
          | MSTAT err \<Rightarrow>
              (case ipcperm cred (msg_perm ds) IPC_R of Some e \<Rightarrow> Some (mfail t e st)
               | None \<Rightarrow> Some (case err of Some e \<Rightarrow> mfail t e st | None \<Rightarrow> at_pc t (MOut (Inr (0, None))) st))
          | MBADCMD \<Rightarrow> Some (mfail t EINVAL st))"

text \<open>The rest of \<^verbatim>\<open>IPC_SET\<close>, after \<^verbatim>\<open>ds_copyin\<close>: its error, or the owner, the mode and the size it has read.\<close>

definition mset_copied :: "nat \<Rightarrow> nat \<Rightarrow> ucred \<Rightarrow> errno + nat \<times> nat \<times> u32 \<times> nat \<Rightarrow> msg_state \<Rightarrow> msg_state" where
  "mset_copied t q cred arg st =
     (case arg of Inl e \<Rightarrow> mfail t e st
      | Inr (u, g, m, qb) \<Rightarrow>
          if qb > msg_qbytes (msqids st q) \<and> cr_uid cred \<noteq> 0 then mfail t EPERM st
          else
            let qb = min qb (msgmnb (minfo st))
            in if qb = 0 then mfail t EINVAL st
               else at_pc t (MOut (Inr (0, None))) (mset_write q (u, g, m, qb) st))"

section \<open>Making queues\<close>

definition msgget_new :: "ucred \<Rightarrow> int \<Rightarrow> u32 \<Rightarrow> nat \<Rightarrow> msg_state \<Rightarrow> msg_state" where
  "msgget_new cred k flg q st =
     set_ds q \<lparr>msg_perm = (msg_perm (msqids st q))\<lparr>key := k, cuid := cr_uid cred, uid := cr_uid cred, cgid := cr_gid cred, gid := cr_gid cred,
         mode := flg AND 0x1ff, seq := (seq (msg_perm (msqids st q)) + 1) AND 0x7fff\<rparr>,
       msg_first = None, msg_last = None, msg_cbytes = 0, msg_qnum = 0, msg_qbytes = msgmnb (minfo st), msg_lspid = 0, msg_lrpid = 0\<rparr> st"

definition msgget_found :: "nat \<Rightarrow> nat \<Rightarrow> msg_state \<Rightarrow> msg_state" where
  "msgget_found t q st = at_pc t (MOut (Inr (IXSEQ_TO_IPCID q (msg_perm (msqids st q)), None))) st"

definition sys_msgget :: "nat \<Rightarrow> ucred \<Rightarrow> int \<Rightarrow> u32 \<Rightarrow> msg_state \<Rightarrow> msg_state" where
  "sys_msgget t cred k flg st =
     (case (if k \<noteq> IPC_PRIVATE then List.find (\<lambda>q. msg_qbytes (msqids st q) \<noteq> 0 \<and> key (msg_perm (msqids st q)) = k) [0..<msgmni (minfo st)] else None) of
        Some q \<Rightarrow>
          if flg AND IPC_CREAT \<noteq> 0 \<and> flg AND IPC_EXCL \<noteq> 0 then mfail t EEXIST st
          else (case ipcperm cred (msg_perm (msqids st q)) (flg AND 0x1c0) of Some e \<Rightarrow> mfail t e st | None \<Rightarrow> msgget_found t q st)
      | None \<Rightarrow>
          if k = IPC_PRIVATE \<or> flg AND IPC_CREAT \<noteq> 0 then
            case List.find (\<lambda>q. msg_qbytes (msqids st q) = 0 \<and> \<not> ds_locked (msqids st q)) [0..<msgmni (minfo st)] of
              None \<Rightarrow> mfail t ENOSPC st
            | Some q \<Rightarrow> msgget_found t q (msgget_new cred k flg q st)
          else mfail t ENOENT st)"

section \<open>Sending\<close>

definition segs_needed :: "nat \<Rightarrow> msginfo \<Rightarrow> nat" where
  "segs_needed msgsz mi = (msgsz + msgssz mi - 1) div msgssz mi"

text \<open>The loop that takes segments from the free list for the header \<open>h\<close>.\<close>

fun alloc_segs :: "nat \<Rightarrow> nat \<Rightarrow> msg_state \<Rightarrow> msg_state option" where
  "alloc_segs h 0 st = Some st"
| "alloc_segs h (Suc n) st =
     (if nfree_msgmaps st \<le> 0 \<or> free_msgmaps st = -1 then None
      else
        let next = free_msgmaps st
        in if next \<le> -1 \<or> next \<ge> int (msgseg (minfo st)) then None
           else
             let m = msghdrs st h;
                 st = (set_map (nat next) (msg_spot m) st)\<lparr>free_msgmaps := msgmaps st (nat next), nfree_msgmaps := nfree_msgmaps st - 1\<rparr>
             in alloc_segs h n (set_hdr h (m\<lparr>msg_spot := next\<rparr>) st))"

text \<open>All resources are there: the queue is locked, and a header and segments are taken.\<close>

definition snd_alloc :: "nat \<Rightarrow> nat \<Rightarrow> int \<Rightarrow> u8 list \<Rightarrow> msg_state \<Rightarrow> msg_state option" where
  "snd_alloc t q ty bs st =
     (if ds_locked (msqids st q) then None
      else
        let st = lock_q q True st
        in case free_msghdrs st of None \<Rightarrow> None
          | Some h \<Rightarrow>
              let m = msghdrs st h;
                  st = (set_hdr h (m\<lparr>msg_spot := -1, msg_ts := length bs mod 2 ^ 16\<rparr>) st)\<lparr>free_msghdrs := msg_next m\<rparr>
              in map_option (at_pc t (SndCopy q h ty bs)) (alloc_segs h (segs_needed (length bs) (minfo st)) st))"

definition snd_short :: "nat \<Rightarrow> nat \<Rightarrow> msg_state \<Rightarrow> bool" where
  "snd_short q msgsz st \<longleftrightarrow> ds_locked (msqids st q) \<or> msgsz + msg_cbytes (msqids st q) > msg_qbytes (msqids st q)
     \<or> int (segs_needed msgsz (minfo st)) > nfree_msgmaps st \<or> free_msghdrs st = None"

definition snd_loop :: "nat \<Rightarrow> nat \<Rightarrow> int \<Rightarrow> u8 list \<Rightarrow> u32 \<Rightarrow> msg_state \<Rightarrow> msg_state option" where
  "snd_loop t q ty bs flg st =
     (if length bs > msg_qbytes (msqids st q) then Some (mfail t EINVAL st)
      else if snd_short q (length bs) st then
        if flg AND ucast IPC_NOWAIT \<noteq> 0 then Some (mfail t EAGAIN st)
        else
          let own = \<not> ds_locked (msqids st q);
              st = (if own then lock_q q True st else st)
          in Some (msleep t q (SndWait q ty bs flg own) st)
      else snd_alloc t q ty bs st)"

text \<open>The user's message is its type and its bytes.\<close>

definition sys_msgsnd :: "nat \<Rightarrow> ucred \<Rightarrow> int \<Rightarrow> int \<Rightarrow> u8 list \<Rightarrow> u32 \<Rightarrow> msg_state \<Rightarrow> msg_state option" where
  "sys_msgsnd t cred msqid ty bs flg st =
     (case msq_lookup msqid st of None \<Rightarrow> Some (mfail t EINVAL st)
      | Some q \<Rightarrow>
          case ipcperm cred (msg_perm (msqids st q)) IPC_W of Some e \<Rightarrow> Some (mfail t e st)
          | None \<Rightarrow> snd_loop t q ty bs flg st)"

text \<open>After the sleep, which a signal may have ended.\<close>

definition snd_woken :: "nat \<Rightarrow> nat \<Rightarrow> int \<Rightarrow> u8 list \<Rightarrow> u32 \<Rightarrow> bool \<Rightarrow> bool \<Rightarrow> msg_state \<Rightarrow> msg_state option" where
  "snd_woken t q ty bs flg own intr st =
     (let st = (if own then lock_q q False st else st)
      in if intr then Some (mfail t EINTR st)
         else if msg_qbytes (msqids st q) = 0 then Some (mfail t EIDRM st)
         else snd_loop t q ty bs flg st)"

definition pool_put :: "nat \<Rightarrow> u8 list \<Rightarrow> (nat \<Rightarrow> u8) \<Rightarrow> nat \<Rightarrow> u8" where
  "pool_put k bs f i = (if k \<le> i \<and> i < k + length bs then bs ! (i - k) else f i)"

text \<open>Copying the message into its segments; the result is the link behind the last one.\<close>

partial_function (option) snd_body :: "int \<Rightarrow> u8 list \<Rightarrow> msg_state \<Rightarrow> (int \<times> msg_state) option" where
  "snd_body next bs st =
     (if bs = [] then Some (next, st)
      else if next \<le> -1 \<or> next \<ge> int (msgseg (minfo st)) then None
      else
        let tlen = min (length bs) (msgssz (minfo st));
            st = st\<lparr>msgpool := pool_put (nat next * msgssz (minfo st)) (take tlen bs) (msgpool st)\<rparr>
        in snd_body (msgmaps st (nat next)) (drop tlen bs) st)"

declare snd_body.simps [code]

text \<open>The message is given up.\<close>

definition snd_undo :: "nat \<Rightarrow> nat \<Rightarrow> nat \<Rightarrow> errno \<Rightarrow> msg_state \<Rightarrow> msg_state option" where
  "snd_undo t q h e st = map_option (\<lambda>st. mfail t e (mwakeup q (lock_q q False st))) (msg_freehdr h st)"

definition enqueue :: "nat \<Rightarrow> nat \<Rightarrow> int \<Rightarrow> msg_state \<Rightarrow> msg_state option" where
  "enqueue q h pid st =
     (let ds = msqids st q
      in map_option (\<lambda>st. let m = msghdrs st h; st = set_hdr h (m\<lparr>msg_next := None\<rparr>) st
            in set_ds q (ds\<lparr>msg_first := (if msg_first ds = None then Some h else msg_first ds), msg_last := Some h,
                 msg_cbytes := msg_cbytes ds + msg_ts m, msg_qnum := msg_qnum ds + 1, msg_lspid := pid\<rparr>) st)
          (if msg_first ds = None then Some st
           else case msg_last ds of None \<Rightarrow> None | Some l \<Rightarrow> Some (set_hdr l ((msghdrs st l)\<lparr>msg_next := Some h\<rparr>) st)))"

text \<open>The transfer: a fault at the type, or after some bytes of the body, or success.\<close>

datatype xfer = TypeFault errno | BodyFault nat errno | Moved

definition snd_copied :: "nat \<Rightarrow> int \<Rightarrow> nat \<Rightarrow> nat \<Rightarrow> int \<Rightarrow> u8 list \<Rightarrow> xfer \<Rightarrow> msg_state \<Rightarrow> msg_state option" where
  "snd_copied t pid q h ty bs x st =
     (case x of TypeFault e \<Rightarrow> snd_undo t q h e st
      | _ \<Rightarrow>
          let st = set_hdr h ((msghdrs st h)\<lparr>msg_type := ty\<rparr>) st
          in if ty < 1 then snd_undo t q h EINVAL st
             else case x of
               BodyFault k e \<Rightarrow> Option.bind (snd_body (msg_spot (msghdrs st h)) (take k bs) st) (\<lambda>(next, st). snd_undo t q h e st)
             | _ \<Rightarrow>
                 Option.bind (snd_body (msg_spot (msghdrs st h)) bs st) (\<lambda>(next, st).
                   if next \<noteq> -1 then None
                   else
                     let st = lock_q q False st
                     in if msg_qbytes (msqids st q) = 0 then map_option (\<lambda>st. mfail t EIDRM (mwakeup q st)) (msg_freehdr h st)
                        else map_option (\<lambda>st. at_pc t (MOut (Inr (0, None))) (mwakeup q st)) (enqueue q h pid st)))"

section \<open>Receiving\<close>

text \<open>The negation of a \<^verbatim>\<open>long\<close>, which wraps around for the least one.\<close>

definition long_neg :: "int \<Rightarrow> int" where
  "long_neg x = (if x = - (2 ^ 63) then x else - x)"

text \<open>The search for the message, with the header before it.\<close>

definition type_match :: "int \<Rightarrow> int \<Rightarrow> bool" where
  "type_match msgtyp ty \<longleftrightarrow> msgtyp = ty \<or> ty \<le> long_neg msgtyp"

partial_function (option) rcv_find :: "int \<Rightarrow> nat option \<Rightarrow> nat option \<Rightarrow> msg_state \<Rightarrow> (nat option \<times> nat) option option" where
  "rcv_find msgtyp previous p st =
     (case p of None \<Rightarrow> Some None
      | Some h \<Rightarrow>
          if type_match msgtyp (msg_type (msghdrs st h)) then Some (Some (previous, h))
          else rcv_find msgtyp (Some h) (msg_next (msghdrs st h)) st)"

declare rcv_find.simps [code]

definition unlink_first :: "nat \<Rightarrow> nat \<Rightarrow> msg_state \<Rightarrow> msg_state option" where
  "unlink_first q h st =
     (let ds = msqids st q
      in if msg_first ds = msg_last ds then Some (set_ds q (ds\<lparr>msg_first := None, msg_last := None\<rparr>) st)
         else if msg_next (msghdrs st h) = None then None
         else Some (set_ds q (ds\<lparr>msg_first := msg_next (msghdrs st h)\<rparr>) st))"

definition unlink_at :: "nat \<Rightarrow> nat option \<Rightarrow> nat \<Rightarrow> msg_state \<Rightarrow> msg_state" where
  "unlink_at q previous h st =
     (let next = msg_next (msghdrs st h);
          st = (case previous of None \<Rightarrow> set_ds q ((msqids st q)\<lparr>msg_first := next\<rparr>) st | Some p \<Rightarrow> set_hdr p ((msghdrs st p)\<lparr>msg_next := next\<rparr>) st);
          ds = msqids st q
      in if msg_last ds = Some h then
           case previous of None \<Rightarrow> set_ds q (ds\<lparr>msg_first := None, msg_last := None\<rparr>) st | Some p \<Rightarrow> set_ds q (ds\<lparr>msg_last := Some p\<rparr>) st
         else st)"

text \<open>The message found is taken off the queue and the counters are adjusted.\<close>

definition rcv_take :: "nat \<Rightarrow> int \<Rightarrow> nat \<Rightarrow> nat \<Rightarrow> nat \<Rightarrow> msg_state \<Rightarrow> msg_state" where
  "rcv_take t pid q h msgsz st =
     (let ds = msqids st q;
          m = msghdrs st h
      in at_pc t (RcvCopy q h (min msgsz (msg_ts m)))
           (set_ds q (ds\<lparr>msg_cbytes := ulong_sub (msg_cbytes ds) (msg_ts m), msg_qnum := ulong_sub (msg_qnum ds) 1, msg_lrpid := pid\<rparr>) st))"

definition rcv_loop :: "nat \<Rightarrow> int \<Rightarrow> nat \<Rightarrow> int \<Rightarrow> nat \<Rightarrow> int \<Rightarrow> u32 \<Rightarrow> msg_state \<Rightarrow> msg_state option" where
  "rcv_loop t pid q msqid msgsz msgtyp flg st =
     Option.bind
       (if msgtyp = 0 then Some (map_option (\<lambda>h. (None, h)) (msg_first (msqids st q))) else rcv_find msgtyp None (msg_first (msqids st q)) st)
       (\<lambda>res. case res of
          None \<Rightarrow> if flg AND ucast IPC_NOWAIT \<noteq> 0 then Some (mfail t ENOMSG st) else Some (msleep t q (RcvWait q msqid msgsz msgtyp flg) st)
        | Some (previous, h) \<Rightarrow>
            if msgsz < msg_ts (msghdrs st h) \<and> flg AND MSG_NOERROR = 0 then Some (mfail t E2BIG st)
            else if msgtyp = 0 then map_option (rcv_take t pid q h msgsz) (unlink_first q h st)
            else Some (rcv_take t pid q h msgsz (unlink_at q previous h st)))"

definition sys_msgrcv :: "nat \<Rightarrow> int \<Rightarrow> ucred \<Rightarrow> int \<Rightarrow> nat \<Rightarrow> int \<Rightarrow> u32 \<Rightarrow> msg_state \<Rightarrow> msg_state option" where
  "sys_msgrcv t pid cred msqid msgsz msgtyp flg st =
     (case msq_lookup msqid st of None \<Rightarrow> Some (mfail t EINVAL st)
      | Some q \<Rightarrow>
          case ipcperm cred (msg_perm (msqids st q)) IPC_R of Some e \<Rightarrow> Some (mfail t e st)
          | None \<Rightarrow> rcv_loop t pid q msqid msgsz msgtyp flg st)"

definition rcv_woken :: "nat \<Rightarrow> int \<Rightarrow> nat \<Rightarrow> int \<Rightarrow> nat \<Rightarrow> int \<Rightarrow> u32 \<Rightarrow> bool \<Rightarrow> msg_state \<Rightarrow> msg_state option" where
  "rcv_woken t pid q msqid msgsz msgtyp flg intr st =
     (if intr then Some (mfail t EINTR st)
      else if msg_qbytes (msqids st q) = 0 \<or> seq (msg_perm (msqids st q)) \<noteq> IPCID_TO_SEQ msqid then Some (mfail t EIDRM st)
      else rcv_loop t pid q msqid msgsz msgtyp flg st)"

text \<open>The first \<open>n\<close> bytes of a message, from the segment \<open>next\<close> on.\<close>

partial_function (option) rcv_body :: "int \<Rightarrow> nat \<Rightarrow> msg_state \<Rightarrow> u8 list option" where
  "rcv_body next n st =
     (if n = 0 then Some []
      else if next \<le> -1 \<or> next \<ge> int (msgseg (minfo st)) then None
      else
        let tlen = min n (msgssz (minfo st));
            bs = map (msgpool st) [nat next * msgssz (minfo st)..<nat next * msgssz (minfo st) + tlen]
        in Option.bind (rcv_body (msgmaps st (nat next)) (n - tlen) st) (\<lambda>bs'. Some (bs @ bs')))"

declare rcv_body.simps [code]

definition rcv_copied :: "nat \<Rightarrow> nat \<Rightarrow> nat \<Rightarrow> nat \<Rightarrow> xfer \<Rightarrow> msg_state \<Rightarrow> msg_state option" where
  "rcv_copied t q h msgsz x st =
     (let m = msghdrs st h
      in case x of
        TypeFault e \<Rightarrow> map_option (\<lambda>st. mfail t e (mwakeup q st)) (msg_freehdr h st)
      | BodyFault k e \<Rightarrow> Option.bind (rcv_body (msg_spot m) (min k msgsz) st) (\<lambda>bs. map_option (\<lambda>st. mfail t e (mwakeup q st)) (msg_freehdr h st))
      | Moved \<Rightarrow>
          Option.bind (rcv_body (msg_spot m) msgsz st) (\<lambda>bs.
            map_option (\<lambda>st. at_pc t (MOut (Inr (int msgsz, Some (msg_type m, bs)))) (mwakeup q st)) (msg_freehdr h st)))"

section \<open>Threads\<close>

datatype mcall =
    Msgget ucred int u32 | Msgctl ucred int msg_cmd | Msgsnd ucred int int "u8 list" u32 | Msgrcv ucred int nat int u32 | Woken bool | Copied xfer
  | SetCopied "errno + nat \<times> nat \<times> u32 \<times> nat"

text \<open>A call begins when the thread is outside; a sleeper goes on when it has been woken, or a signal wakes it.\<close>

definition msg_can :: "nat \<Rightarrow> mcall \<Rightarrow> msg_state \<Rightarrow> bool" where
  "msg_can t c st =
     (case c of
        Woken intr \<Rightarrow> (case msg_pc st t of SndWait q ty bs flg own \<Rightarrow> intr \<or> msg_chan st t = None | RcvWait q i n ty flg \<Rightarrow> intr \<or> msg_chan st t = None | _ \<Rightarrow> False)
      | Copied x \<Rightarrow> (case msg_pc st t of SndCopy q h ty bs \<Rightarrow> True | RcvCopy q h n \<Rightarrow> True | _ \<Rightarrow> False)
      | SetCopied arg \<Rightarrow> (case msg_pc st t of SetCopy q cred \<Rightarrow> True | _ \<Rightarrow> False)
      | _ \<Rightarrow> (case msg_pc st t of MOut r \<Rightarrow> True | _ \<Rightarrow> False))"

definition wake_self :: "nat \<Rightarrow> msg_state \<Rightarrow> msg_state" where
  "wake_self t st = st\<lparr>msg_chan := (msg_chan st)(t := None)\<rparr>"

definition msg_next_state :: "nat \<Rightarrow> int \<Rightarrow> mcall \<Rightarrow> msg_state \<Rightarrow> msg_state option" where
  "msg_next_state t pid c st =
     (case c of
        Msgget cred k flg \<Rightarrow> Some (sys_msgget t cred k flg st)
      | Msgctl cred msqid cmd \<Rightarrow> msgctl1 t cred msqid cmd st
      | Msgsnd cred msqid ty bs flg \<Rightarrow> sys_msgsnd t cred msqid ty bs flg st
      | Msgrcv cred msqid msgsz msgtyp flg \<Rightarrow> sys_msgrcv t pid cred msqid msgsz msgtyp flg st
      | Woken intr \<Rightarrow>
          (case msg_pc st t of
             SndWait q ty bs flg own \<Rightarrow> snd_woken t q ty bs flg own intr (wake_self t st)
           | RcvWait q msqid msgsz msgtyp flg \<Rightarrow> rcv_woken t pid q msqid msgsz msgtyp flg intr (wake_self t st)
           | _ \<Rightarrow> None)
      | Copied x \<Rightarrow>
          (case msg_pc st t of
             SndCopy q h ty bs \<Rightarrow> snd_copied t pid q h ty bs x st
           | RcvCopy q h n \<Rightarrow> rcv_copied t q h n x st
           | _ \<Rightarrow> None)
      | SetCopied arg \<Rightarrow> (case msg_pc st t of SetCopy q cred \<Rightarrow> Some (mset_copied t q cred arg st) | _ \<Rightarrow> None))"

text \<open>The superuser's update of a queue that was removed while the argument was read.\<close>

definition revives :: "nat \<Rightarrow> mcall \<Rightarrow> msg_state \<Rightarrow> bool" where
  "revives t c st =
     (case (c, msg_pc st t) of
        (SetCopied (Inr (u, g, m, qb)), SetCopy q cred) \<Rightarrow> qb \<noteq> 0 \<and> cr_uid cred = 0 \<and> msg_qbytes (msqids st q) = 0
      | _ \<Rightarrow> False)"

inductive msg_reach :: "msginfo \<Rightarrow> msg_state \<Rightarrow> bool" for mi where
  init: "msginit mi pool hdrs qs = Some st \<Longrightarrow> msg_reach mi st"
| step: "\<lbrakk>msg_reach mi st; msg_can t c st; \<not> revives t c st; msg_next_state t pid c st = Some st'\<rbrakk> \<Longrightarrow> msg_reach mi st'"

section \<open>Linked lists in tables\<close>

text \<open>The links \<open>nx\<close> lead from the pointer \<open>p\<close> through these indices to \<open>e\<close>; \<open>ad\<close> is the pointer to an index.\<close>

fun lpath :: "(nat \<Rightarrow> 'p) \<Rightarrow> (nat \<Rightarrow> 'p) \<Rightarrow> 'p \<Rightarrow> nat list \<Rightarrow> 'p \<Rightarrow> bool" where
  "lpath ad nx p [] e = (p = e)"
| "lpath ad nx p (i # is) e = (p = ad i \<and> lpath ad nx (nx i) is e)"

lemma lpath_cong: "(\<And>i. i \<in> set is \<Longrightarrow> nx' i = nx i) \<Longrightarrow> lpath ad nx' p is e = lpath ad nx p is e"
  by (induction "is" arbitrary: p) auto

lemma lpath_upd [simp]: "i \<notin> set is \<Longrightarrow> lpath ad (nx(i := v)) p is e = lpath ad nx p is e"
  by (rule lpath_cong) auto

lemma lpath_append: "lpath ad nx p (xs @ ys) e \<longleftrightarrow> (\<exists>r. lpath ad nx p xs r \<and> lpath ad nx r ys e)"
  by (induction xs arbitrary: p) auto

lemma lpath_middle: "lpath ad nx p (xs @ i # ys) e \<longleftrightarrow> lpath ad nx p xs (ad i) \<and> lpath ad nx (nx i) ys e"
  by (auto simp: lpath_append)

text \<open>Lists that end in a pointer to nothing.\<close>

locale linked =
  fixes ad :: "nat \<Rightarrow> 'p" and nil :: 'p
  assumes ad_inj: "ad i = ad j \<Longrightarrow> i = j" and ad_nil: "ad i \<noteq> nil"
begin

lemma path_unique: "lpath ad nx p xs nil \<Longrightarrow> lpath ad nx p ys nil \<Longrightarrow> xs = ys"
proof (induction xs arbitrary: p ys)
  case Nil
  then show ?case using ad_nil by (cases ys) auto
next
  case (Cons x xs)
  show ?case
  proof (cases ys)
    case Nil
    then show ?thesis using Cons.prems ad_nil by auto
  next
    case (Cons y zs)
    have "x = y" using Cons.prems ad_inj [of x y] by (simp add: Cons)
    then show ?thesis using Cons.IH [of "nx x" zs] Cons.prems by (simp add: Cons)
  qed
qed

lemma path_distinct: "lpath ad nx p xs nil \<Longrightarrow> distinct xs"
proof (induction xs arbitrary: p)
  case (Cons x xs)
  have "x \<notin> set xs"
  proof
    assume "x \<in> set xs"
    then obtain us vs where xs: "xs = us @ x # vs" by (meson split_list)
    have "lpath ad nx (nx x) vs nil" using Cons.prems by (simp add: xs lpath_middle)
    moreover have "lpath ad nx (nx x) xs nil" using Cons.prems by simp
    ultimately have "vs = xs" by (rule path_unique)
    then show False using xs by simp
  qed
  then show ?case using Cons.IH [of "nx x"] Cons.prems by simp
qed simp

lemma path_snoc:
  assumes "lpath ad nx p xs nil" "xs \<noteq> []" "i \<notin> set xs"
  shows "lpath ad (nx(last xs := ad i, i := nil)) p (xs @ [i]) nil"
proof -
  obtain us l where xs: "xs = us @ [l]" using assms(2) by (cases xs rule: rev_cases) auto
  have "l \<notin> set us" using path_distinct [OF assms(1)] by (simp add: xs)
  then show ?thesis using assms by (auto simp: xs lpath_append)
qed

lemma path_remove:
  assumes "lpath ad nx p (xs @ i # ys) nil" "xs \<noteq> []"
  shows "lpath ad (nx(last xs := nx i)) p (xs @ ys) nil"
proof -
  obtain us l where xs: "xs = us @ [l]" using assms(2) by (cases xs rule: rev_cases) auto
  have d: "distinct (xs @ i # ys)" by (rule path_distinct [OF assms(1)])
  then show ?thesis using assms(1) by (auto simp: xs lpath_middle lpath_append)
qed

end

interpretation sgl: linked int "-1"
  by unfold_locales auto

interpretation hdl: linked Some None
  by unfold_locales auto

section \<open>Segments\<close>

text \<open>The free segments \<open>fs\<close> and those of the headers in use, \<open>sg\<close>, are all segments, each once.\<close>

definition segs_ok :: "msg_state \<Rightarrow> nat set \<Rightarrow> nat list \<Rightarrow> (nat \<Rightarrow> nat list) \<Rightarrow> bool" where
  "segs_ok st U fs sg \<longleftrightarrow> lpath int (msgmaps st) (free_msgmaps st) fs (-1) \<and> nfree_msgmaps st = int (length fs)
     \<and> (\<forall>h\<in>U. lpath int (msgmaps st) (msg_spot (msghdrs st h)) (sg h) (-1) \<and> set fs \<inter> set (sg h) = {})
     \<and> (\<forall>h\<in>U. \<forall>k\<in>U. h \<noteq> k \<longrightarrow> set (sg h) \<inter> set (sg k) = {})
     \<and> (\<forall>i. i < msgseg (minfo st) \<longleftrightarrow> i \<in> set fs \<or> (\<exists>h\<in>U. i \<in> set (sg h)))"

lemma segs_okD:
  assumes "segs_ok st U fs sg"
  shows "lpath int (msgmaps st) (free_msgmaps st) fs (-1)" and "nfree_msgmaps st = int (length fs)"
    and "h \<in> U \<Longrightarrow> lpath int (msgmaps st) (msg_spot (msghdrs st h)) (sg h) (-1)" and "h \<in> U \<Longrightarrow> set fs \<inter> set (sg h) = {}"
    and "h \<in> U \<Longrightarrow> k \<in> U \<Longrightarrow> h \<noteq> k \<Longrightarrow> set (sg h) \<inter> set (sg k) = {}" and "i < msgseg (minfo st) \<longleftrightarrow> i \<in> set fs \<or> (\<exists>h\<in>U. i \<in> set (sg h))"
  using assms unfolding segs_ok_def by blast+

lemma segs_ok_range: "segs_ok st U fs sg \<Longrightarrow> i \<in> set fs \<or> h \<in> U \<and> i \<in> set (sg h) \<Longrightarrow> i < msgseg (minfo st)"
  using segs_okD(6) [of st U fs sg] by blast

text \<open>One segment moves between the free list and the front of a message.\<close>

lemma seg_take:
  assumes ok: "segs_ok st U (i # fs) sg" and h: "h \<in> U"
  shows "segs_ok (set_hdr h ((msghdrs st h)\<lparr>msg_spot := int i\<rparr>) ((set_map i (msg_spot (msghdrs st h)) st)\<lparr>free_msgmaps := msgmaps st i, nfree_msgmaps := nfree_msgmaps st - 1\<rparr>)) U fs (sg(h := i # sg h))"
proof -
  note S = segs_okD [OF ok]
  have d: "i \<notin> set fs" using sgl.path_distinct [OF S(1)] by simp
  have n: "i \<notin> set (sg k)" if "k \<in> U" for k using S(4) [OF that] by auto
  show ?thesis
    unfolding segs_ok_def
  proof (intro conjI ballI impI allI, goal_cases)
    case (3 k)
    then show ?case using S(3) [of k] n [of k] by (cases "k = h") (auto simp: set_hdr_def set_map_def)
  next
    case (4 k)
    then show ?case using S(4) [of k] d by (cases "k = h") auto
  next
    case (5 k l)
    then show ?case using S(5) [of k l] n [of k] n [of l] by (cases "k = h"; cases "l = h") auto
  next
    case (6 j)
    have "(\<exists>k\<in>U. j \<in> set ((sg(h := i # sg h)) k)) \<longleftrightarrow> j = i \<or> (\<exists>k\<in>U. j \<in> set (sg k))" using h by auto
    then show ?case using S(6) [of j] by (auto simp: set_hdr_def set_map_def)
  qed (use S(1,2) d in \<open>auto simp: set_hdr_def set_map_def\<close>)
qed

lemma seg_give:
  assumes ok: "segs_ok st U fs (sg(h := i # is))" and h: "h \<in> U"
  shows "segs_ok (set_hdr h ((msghdrs st h)\<lparr>msg_spot := msgmaps st i, msg_ts := n\<rparr>) ((set_map i (free_msgmaps st) st)\<lparr>free_msgmaps := int i, nfree_msgmaps := nfree_msgmaps st + 1\<rparr>)) U (i # fs) (sg(h := is))"
proof -
  note S = segs_okD [OF ok]
  have s: "msg_spot (msghdrs st h) = int i" "lpath int (msgmaps st) (msgmaps st i) is (-1)" using S(3) [OF h] by simp_all
  have d: "i \<notin> set is" "i \<notin> set fs" using sgl.path_distinct [OF S(3) [OF h]] S(4) [OF h] by auto
  have n: "i \<notin> set (sg k)" "set is \<inter> set (sg k) = {}" if "k \<in> U" "k \<noteq> h" for k using S(5) [OF h that(1)] that(2) by auto
  show ?thesis
    unfolding segs_ok_def
  proof (intro conjI ballI impI allI, goal_cases)
    case (3 k)
    then show ?case using S(3) [of k] s d n [of k] by (cases "k = h") (auto simp: set_hdr_def set_map_def)
  next
    case (4 k)
    then show ?case using S(4) [of k] d n [of k] by (cases "k = h") auto
  next
    case (5 k l)
    then show ?case using S(5) [of k l] n [of k] n [of l] by (cases "k = h"; cases "l = h") auto
  next
    case (6 j)
    have "(\<exists>k\<in>U. j \<in> set ((sg(h := i # is)) k)) \<longleftrightarrow> j = i \<or> (\<exists>k\<in>U. j \<in> set ((sg(h := is)) k))" using h by auto
    then show ?case using S(6) [of j] by (auto simp: set_hdr_def set_map_def)
  qed (use S(1,2) s d in \<open>auto simp: set_hdr_def set_map_def\<close>)
qed

text \<open>What may differ after segments have been moved to or from the header \<open>h\<close>.\<close>

definition seg_frame :: "nat \<Rightarrow> msg_state \<Rightarrow> msg_state \<Rightarrow> bool" where
  "seg_frame h st st' \<longleftrightarrow> st' = st\<lparr>msgmaps := msgmaps st', free_msgmaps := free_msgmaps st', nfree_msgmaps := nfree_msgmaps st',
     msghdrs := (msghdrs st)(h := (msghdrs st h)\<lparr>msg_spot := msg_spot (msghdrs st' h), msg_ts := msg_ts (msghdrs st' h)\<rparr>)\<rparr>"

lemma seg_frame_refl [simp]: "seg_frame h st st"
  by (simp add: seg_frame_def)

lemma seg_frameD:
  assumes "seg_frame h st st'"
  shows "msgpool st' = msgpool st" "msqids st' = msqids st" "minfo st' = minfo st" "msg_pc st' = msg_pc st" "msg_chan st' = msg_chan st" "free_msghdrs st' = free_msghdrs st"
    "k \<noteq> h \<Longrightarrow> msghdrs st' k = msghdrs st k" "msg_next (msghdrs st' h) = msg_next (msghdrs st h)" "msg_type (msghdrs st' h) = msg_type (msghdrs st h)"
  by (subst assms [unfolded seg_frame_def]; simp)+

lemma seg_frame_trans:
  assumes "seg_frame h st st1" "seg_frame h st1 st2"
  shows "seg_frame h st st2"
proof -
  note A = seg_frameD [OF assms(1)] and B = seg_frameD [OF assms(2)]
  have "msghdrs st2 = (msghdrs st)(h := (msghdrs st h)\<lparr>msg_spot := msg_spot (msghdrs st2 h), msg_ts := msg_ts (msghdrs st2 h)\<rparr>)"
  proof
    fix k show "msghdrs st2 k = ((msghdrs st)(h := (msghdrs st h)\<lparr>msg_spot := msg_spot (msghdrs st2 h), msg_ts := msg_ts (msghdrs st2 h)\<rparr>)) k"
      using A(7-9) B(7-9) by (cases "k = h") (auto intro: msg.equality)
  qed
  then show ?thesis unfolding seg_frame_def using A B by (auto intro: msg_state.equality)
qed

lemma seg_frame_step [simp]:
  "seg_frame h st (set_hdr h ((msghdrs st h)\<lparr>msg_spot := x\<rparr>) ((set_map i y st)\<lparr>free_msgmaps := f, nfree_msgmaps := n\<rparr>))"
  "seg_frame h st (set_hdr h ((msghdrs st h)\<lparr>msg_spot := x, msg_ts := z\<rparr>) ((set_map i y st)\<lparr>free_msgmaps := f, nfree_msgmaps := n\<rparr>))"
  by (simp_all add: seg_frame_def set_hdr_def set_map_def)

lemma alloc_segs_spec:
  "segs_ok st U fs sg \<Longrightarrow> h \<in> U \<Longrightarrow> n \<le> length fs \<Longrightarrow> \<exists>st'. alloc_segs h n st = Some st' \<and> segs_ok st' U (drop n fs) (sg(h := rev (take n fs) @ sg h))
    \<and> seg_frame h st st' \<and> msg_ts (msghdrs st' h) = msg_ts (msghdrs st h)"
proof (induction n arbitrary: st fs sg)
  case 0
  then show ?case by (auto simp: fun_upd_idem)
next
  case (Suc n)
  obtain i gs where fs: "fs = i # gs" using Suc.prems(3) by (cases fs) auto
  note S = segs_okD [OF Suc.prems(1)]
  let ?st = "set_hdr h ((msghdrs st h)\<lparr>msg_spot := int i\<rparr>) ((set_map i (msg_spot (msghdrs st h)) st)\<lparr>free_msgmaps := msgmaps st i, nfree_msgmaps := nfree_msgmaps st - 1\<rparr>)"
  have f: "free_msgmaps st = int i" "0 < nfree_msgmaps st" using S(1,2) by (simp_all add: fs)
  have lt: "i < msgseg (minfo st)" using segs_ok_range [OF Suc.prems(1), of i] by (simp add: fs)
  define sg1 where "sg1 = sg(h := i # sg h)"
  have sg1: "sg1 h = i # sg h" "\<And>x. sg1(h := x) = sg(h := x)" by (simp_all add: sg1_def)
  have ok: "segs_ok ?st U gs sg1" unfolding sg1_def using seg_take [OF Suc.prems(1) [unfolded fs] Suc.prems(2)] .
  have e: "alloc_segs h (Suc n) st = alloc_segs h n ?st" using f lt by (simp add: Let_def)
  have le: "n \<le> length gs" using Suc.prems(3) by (simp add: fs)
  from Suc.IH [OF ok Suc.prems(2) le, unfolded sg1] obtain st' where st': "alloc_segs h n ?st = Some st'" "segs_ok st' U (drop n gs) (sg(h := rev (take n gs) @ i # sg h))"
      "seg_frame h ?st st'" "msg_ts (msghdrs st' h) = msg_ts (msghdrs ?st h)" by blast
  have fr: "seg_frame h st st'" by (rule seg_frame_trans [OF seg_frame_step(1) st'(3)])
  have d: "drop (Suc n) fs = drop n gs" "rev (take (Suc n) fs) @ sg h = rev (take n gs) @ i # sg h" by (simp_all add: fs)
  have "msg_ts (msghdrs st' h) = msg_ts (msghdrs st h)" using st'(4) by (simp add: set_hdr_def)
  then show ?case unfolding d e using st'(1,2) fr by blast
qed

lemma segs_needed_0 [simp]: "0 < msgssz mi \<Longrightarrow> segs_needed 0 mi = 0"
  by (simp add: segs_needed_def)

lemma segs_needed_Suc: "0 < msgssz mi \<Longrightarrow> 0 < n \<Longrightarrow> segs_needed n mi = Suc (segs_needed (n - msgssz mi) mi)"
proof -
  assume h: "0 < msgssz mi" "0 < n"
  show ?thesis
  proof (cases "msgssz mi \<le> n")
    case True
    then have e: "n + msgssz mi - 1 = (n - msgssz mi + msgssz mi - 1) + msgssz mi" using h by simp
    have "msgssz mi \<noteq> 0" using h by simp
    then show ?thesis unfolding segs_needed_def e by (subst div_add_self2) simp_all
  next
    case False
    then have "(n + msgssz mi - 1) div msgssz mi = 1" using h by (intro div_nat_eqI) auto
    then show ?thesis using False h by (simp add: segs_needed_def)
  qed
qed

lemma freehdr_loop_spec:
  "segs_ok st U fs sg \<Longrightarrow> h \<in> U \<Longrightarrow> 0 < msgssz (minfo st) \<Longrightarrow> length (sg h) = segs_needed (msg_ts (msghdrs st h)) (minfo st) \<Longrightarrow>
    \<exists>st'. freehdr_loop h st = Some st' \<and> segs_ok st' U (rev (sg h) @ fs) (sg(h := [])) \<and> seg_frame h st st' \<and> msg_ts (msghdrs st' h) = 0 \<and> msg_spot (msghdrs st' h) = -1"
proof (induction "sg h" arbitrary: st fs sg)
  case Nil
  note S = segs_okD [OF Nil.prems(1)]
  have "msg_ts (msghdrs st h) = 0" using Nil.prems(3,4) Nil.hyps [symmetric] segs_needed_Suc [of "minfo st" "msg_ts (msghdrs st h)"] by (cases "msg_ts (msghdrs st h)") auto
  moreover have "msg_spot (msghdrs st h) = -1" using S(3) [OF Nil.prems(2)] by (simp add: Nil.hyps [symmetric])
  moreover have "sg(h := []) = sg" using Nil.hyps by (metis fun_upd_triv)
  ultimately show ?case using Nil.prems(1) Nil.hyps [symmetric] by (subst freehdr_loop.simps) simp
next
  case (Cons i as)
  note S = segs_okD [OF Cons.prems(1)]
  let ?m = "msghdrs st h"
  have ts: "0 < msg_ts ?m" using Cons.prems(3,4) Cons.hyps(2) [symmetric] by (cases "msg_ts ?m = 0") auto
  have sp: "msg_spot ?m = int i" using S(3) [OF Cons.prems(2)] by (simp add: Cons.hyps(2) [symmetric])
  have lt: "i < msgseg (minfo st)" using segs_ok_range [OF Cons.prems(1), of i h] Cons.prems(2) by (simp add: Cons.hyps(2) [symmetric])
  define n where "n = msg_ts ?m - msgssz (minfo st)"
  define st1 where "st1 = set_hdr h (?m\<lparr>msg_spot := msgmaps st i, msg_ts := n\<rparr>) ((set_map i (free_msgmaps st) st)\<lparr>free_msgmaps := int i, nfree_msgmaps := nfree_msgmaps st + 1\<rparr>)"
  have sg: "sg(h := i # as) = sg" using Cons.hyps(2) by (metis fun_upd_triv)
  have ok: "segs_ok st1 U (i # fs) (sg(h := as))" unfolding st1_def by (rule seg_give) (use Cons.prems sg in simp_all)
  have fr: "seg_frame h st st1" by (simp add: st1_def)
  have h1: "msghdrs st1 h = ?m\<lparr>msg_spot := msgmaps st i, msg_ts := n\<rparr>" "minfo st1 = minfo st" by (simp_all add: st1_def set_hdr_def set_map_def)
  have e: "freehdr_loop h st = freehdr_loop h st1" using ts sp lt by (subst freehdr_loop.simps) (simp add: Let_def st1_def n_def set_map_def)
  have "length as = segs_needed n (minfo st)" using Cons.prems(3,4) Cons.hyps(2) [symmetric] segs_needed_Suc [OF Cons.prems(3) ts] by (simp add: n_def)
  then obtain st' where st': "freehdr_loop h st1 = Some st'" "segs_ok st' U (rev as @ i # fs) (sg(h := as, h := []))" "seg_frame h st1 st'" "msg_ts (msghdrs st' h) = 0" "msg_spot (msghdrs st' h) = -1"
    using Cons.hyps(1) [of "sg(h := as)" st1 "i # fs"] ok Cons.prems(2,3) h1 by auto
  then show ?case using e seg_frame_trans [OF fr st'(3)] by (simp add: Cons.hyps(2) [symmetric])
qed

text \<open>The bytes of segments.\<close>

definition seg_bytes :: "msg_state \<Rightarrow> nat \<Rightarrow> u8 list" where
  "seg_bytes st i = map (msgpool st) [i * msgssz (minfo st)..<i * msgssz (minfo st) + msgssz (minfo st)]"

definition seg_data :: "msg_state \<Rightarrow> nat list \<Rightarrow> u8 list" where
  "seg_data st is = concat (map (seg_bytes st) is)"

lemma seg_data_simps [simp]: "seg_data st [] = []" "seg_data st (i # is) = seg_bytes st i @ seg_data st is" "length (seg_bytes st i) = msgssz (minfo st)"
  by (simp_all add: seg_data_def seg_bytes_def)

lemma length_seg_data: "length (seg_data st is) = length is * msgssz (minfo st)"
  by (induction "is") auto

lemma seg_data_cong: "(\<And>i. i \<in> set is \<Longrightarrow> seg_bytes st' i = seg_bytes st i) \<Longrightarrow> seg_data st' is = seg_data st is"
  by (induction "is") auto

lemma rcv_body_spec:
  "lpath int (msgmaps st) p is (-1) \<Longrightarrow> \<forall>i\<in>set is. i < msgseg (minfo st) \<Longrightarrow> 0 < msgssz (minfo st) \<Longrightarrow> n \<le> length is * msgssz (minfo st) \<Longrightarrow>
    rcv_body p n st = Some (take n (seg_data st is))"
proof (induction "is" arbitrary: p n)
  case Nil
  then show ?case by (subst rcv_body.simps) simp
next
  case (Cons i as)
  show ?case
  proof (cases "n = 0")
    case True
    then show ?thesis by (subst rcv_body.simps) simp
  next
    case False
    let ?s = "msgssz (minfo st)"
    have "rcv_body (msgmaps st i) (n - min n ?s) st = Some (take (n - min n ?s) (seg_data st as))" using Cons.prems by (intro Cons.IH) auto
    moreover have "map (msgpool st) [i * ?s..<i * ?s + min n ?s] = take (min n ?s) (seg_bytes st i)" by (simp add: seg_bytes_def take_map)
    ultimately show ?thesis using Cons.prems False by (subst rcv_body.simps) (auto simp: Let_def min_def)
  qed
qed

lemma put_other:
  assumes "length bs \<le> msgssz (minfo st)" "j \<noteq> i"
  shows "seg_bytes (st\<lparr>msgpool := pool_put (i * msgssz (minfo st)) bs (msgpool st)\<rparr>) j = seg_bytes st j"
proof -
  let ?s = "msgssz (minfo st)"
  have "\<not> (i * ?s \<le> x \<and> x < i * ?s + length bs)" if "j * ?s \<le> x" "x < j * ?s + ?s" for x
  proof
    assume a: "i * ?s \<le> x \<and> x < i * ?s + length bs"
    then have "x div ?s = i" using assms(1) by (intro div_nat_eqI) (auto simp: algebra_simps)
    moreover have "x div ?s = j" using that by (intro div_nat_eqI) (auto simp: algebra_simps)
    ultimately show False using assms(2) by simp
  qed
  then show ?thesis by (auto simp: seg_bytes_def pool_put_def)
qed

lemma put_same:
  assumes "length bs \<le> msgssz (minfo st)"
  shows "take (length bs) (seg_bytes (st\<lparr>msgpool := pool_put (i * msgssz (minfo st)) bs (msgpool st)\<rparr>) i) = bs"
  using assms by (intro nth_equalityI) (auto simp: seg_bytes_def pool_put_def)

lemma snd_body_spec:
  "lpath int (msgmaps st) p is (-1) \<Longrightarrow> \<forall>i\<in>set is. i < msgseg (minfo st) \<Longrightarrow> 0 < msgssz (minfo st) \<Longrightarrow> length bs \<le> length is * msgssz (minfo st) \<Longrightarrow>
    \<exists>x f. snd_body p bs st = Some (x, st\<lparr>msgpool := f\<rparr>) \<and> (length is = segs_needed (length bs) (minfo st) \<longrightarrow> x = -1)
      \<and> (\<forall>j. j \<notin> set is \<longrightarrow> seg_bytes (st\<lparr>msgpool := f\<rparr>) j = seg_bytes st j) \<and> take (length bs) (seg_data (st\<lparr>msgpool := f\<rparr>) is) = bs"
proof (induction "is" arbitrary: p bs st)
  case Nil
  then show ?case by (subst snd_body.simps) (auto intro!: exI [of _ "msgpool st"])
next
  case (Cons i as)
  let ?s = "msgssz (minfo st)"
  show ?case
  proof (cases "bs = []")
    case True
    then show ?thesis using Cons.prems by (subst snd_body.simps) (auto intro!: exI [of _ "msgpool st"])
  next
    case False
    define bs1 where "bs1 = take (min (length bs) ?s) bs"
    define bs2 where "bs2 = drop (min (length bs) ?s) bs"
    define st1 where "st1 = st\<lparr>msgpool := pool_put (i * ?s) bs1 (msgpool st)\<rparr>"
    have bs: "bs = bs1 @ bs2" "length bs1 \<le> ?s" "bs2 \<noteq> [] \<Longrightarrow> length bs1 = ?s" "length bs2 = length bs - ?s" by (auto simp: bs1_def bs2_def)
    have m1: "msgmaps st1 = msgmaps st" "minfo st1 = minfo st" "\<And>f. st1\<lparr>msgpool := f\<rparr> = st\<lparr>msgpool := f\<rparr>" by (simp_all add: st1_def)
    have d: "i \<notin> set as" using sgl.path_distinct [OF Cons.prems(1)] by simp
    have "\<exists>x f. snd_body (msgmaps st1 i) bs2 st1 = Some (x, st1\<lparr>msgpool := f\<rparr>) \<and> (length as = segs_needed (length bs2) (minfo st1) \<longrightarrow> x = -1)
      \<and> (\<forall>j. j \<notin> set as \<longrightarrow> seg_bytes (st1\<lparr>msgpool := f\<rparr>) j = seg_bytes st1 j) \<and> take (length bs2) (seg_data (st1\<lparr>msgpool := f\<rparr>) as) = bs2"
      using Cons.prems by (intro Cons.IH) (auto simp: m1 bs2_def)
    then obtain x f where f: "snd_body (msgmaps st i) bs2 st1 = Some (x, st\<lparr>msgpool := f\<rparr>)" "length as = segs_needed (length bs2) (minfo st) \<longrightarrow> x = -1"
      "\<And>j. j \<notin> set as \<Longrightarrow> seg_bytes (st\<lparr>msgpool := f\<rparr>) j = seg_bytes st1 j" "take (length bs2) (seg_data (st\<lparr>msgpool := f\<rparr>) as) = bs2" unfolding m1 by blast
    have e: "snd_body p bs st = snd_body (msgmaps st i) bs2 st1" using Cons.prems False by (subst snd_body.simps) (simp add: Let_def st1_def bs1_def bs2_def)
    have "length (i # as) = segs_needed (length bs) (minfo st) \<longrightarrow> x = -1"
      using f(2) segs_needed_Suc [OF Cons.prems(3), of "length bs"] False bs(4) by simp
    moreover have "\<forall>j. j \<notin> set (i # as) \<longrightarrow> seg_bytes (st\<lparr>msgpool := f\<rparr>) j = seg_bytes st j"
      using f(3) put_other [OF bs(2), of _ i] by (simp add: st1_def)
    moreover have "take (length bs) (seg_data (st\<lparr>msgpool := f\<rparr>) (i # as)) = bs"
    proof -
      have "take (length bs1) (seg_bytes (st\<lparr>msgpool := f\<rparr>) i) = bs1" using f(3) [OF d] put_same [OF bs(2), of i] by (simp add: st1_def)
      note b1 = this
      show ?thesis
      proof (cases "bs2 = []")
        case True
        then have "bs = bs1" using bs(1) by simp
        then show ?thesis using b1 bs(2) by simp
      next
        case False
        then have l: "length bs1 = ?s" by (rule bs(3))
        then have b: "seg_bytes (st\<lparr>msgpool := f\<rparr>) i = bs1" using b1 by simp
        have "take (length bs) (seg_data (st\<lparr>msgpool := f\<rparr>) (i # as)) = bs1 @ take (length bs2) (seg_data (st\<lparr>msgpool := f\<rparr>) as)" using l by (simp add: b bs(1))
        then show ?thesis using f(4) by (simp add: bs(1) [symmetric])
      qed
    qed
    ultimately show ?thesis using e f(1) by auto
  qed
qed
end
