(* ===== verification/Sysv_Msg_Inv.thy ===== *)
theory Sysv_Msg_Inv
  imports Sysv_Msg
begin

text \<open>
  The invariant of the message queues (\<^verbatim>\<open>src/sys/kern/sysv_msg.c\<close>): every segment and every header belongs to the free lists, to a
  message of a queue, or to the thread that moves the message; every step keeps it and none panics, and seen from outside the queues are
  lists of typed messages.
\<close>

section \<open>Layouts\<close>

text \<open>Who has a header, and the lists behind the pointers of a state.\<close>

datatype owner = HFree | HQueued nat | HThread nat

record layout =
  l_fs :: "nat list"
  l_sg :: "nat \<Rightarrow> nat list"
  l_fh :: "nat list"
  l_q :: "nat \<Rightarrow> nat list"
  l_own :: "nat \<Rightarrow> owner"

definition used :: "msg_state \<Rightarrow> layout \<Rightarrow> nat set" where
  "used st L = {h. h < msgtql (minfo st) \<and> l_own L h \<noteq> HFree}"

abbreviation nexts :: "msg_state \<Rightarrow> nat \<Rightarrow> nat option" where
  "nexts st \<equiv> (\<lambda>h. msg_next (msghdrs st h))"

definition heap_ok :: "msg_state \<Rightarrow> layout \<Rightarrow> bool" where
  "heap_ok st L \<longleftrightarrow> 0 < msgssz (minfo st) \<and> segs_ok st (used st L) (l_fs L) (l_sg L)
     \<and> (\<forall>h\<in>used st L. length (l_sg L h) = segs_needed (msg_ts (msghdrs st h)) (minfo st))
     \<and> lpath Some (nexts st) (free_msghdrs st) (l_fh L) None
     \<and> (\<forall>h. h \<in> set (l_fh L) \<longleftrightarrow> h < msgtql (minfo st) \<and> l_own L h = HFree)"

lemma heap_okD:
  assumes "heap_ok st L"
  shows "0 < msgssz (minfo st)" "segs_ok st (used st L) (l_fs L) (l_sg L)" "h \<in> used st L \<Longrightarrow> length (l_sg L h) = segs_needed (msg_ts (msghdrs st h)) (minfo st)"
    "lpath Some (nexts st) (free_msghdrs st) (l_fh L) None" "h \<in> set (l_fh L) \<longleftrightarrow> h < msgtql (minfo st) \<and> l_own L h = HFree"
  using assms unfolding heap_ok_def by blast+

text \<open>The message of a header: its type and its bytes.\<close>

definition mview :: "msg_state \<Rightarrow> layout \<Rightarrow> nat \<Rightarrow> int \<times> u8 list" where
  "mview st L h = (msg_type (msghdrs st h), take (msg_ts (msghdrs st h)) (seg_data st (l_sg L h)))"

text \<open>What stays when the header \<open>h\<close> and its segments change hands.\<close>

definition hdr_frame :: "nat \<Rightarrow> msg_state \<Rightarrow> layout \<Rightarrow> msg_state \<Rightarrow> layout \<Rightarrow> bool" where
  "hdr_frame h st L st' L' \<longleftrightarrow> msqids st' = msqids st \<and> minfo st' = minfo st \<and> msg_pc st' = msg_pc st \<and> msg_chan st' = msg_chan st \<and> l_q L' = l_q L
     \<and> (\<forall>k. k \<noteq> h \<longrightarrow> msghdrs st' k = msghdrs st k \<and> l_own L' k = l_own L k) \<and> (\<forall>k\<in>used st L. k \<noteq> h \<longrightarrow> mview st' L' k = mview st L k)"

lemma hdr_frameD:
  assumes "hdr_frame h st L st' L'"
  shows "msqids st' = msqids st" "minfo st' = minfo st" "msg_pc st' = msg_pc st" "msg_chan st' = msg_chan st" "l_q L' = l_q L" "k \<noteq> h \<Longrightarrow> msghdrs st' k = msghdrs st k"
    "k \<noteq> h \<Longrightarrow> l_own L' k = l_own L k" "k \<in> used st L \<Longrightarrow> k \<noteq> h \<Longrightarrow> mview st' L' k = mview st L k"
  using assms unfolding hdr_frame_def by blast+

lemma seg_data_pool: "msgpool st' = msgpool st \<Longrightarrow> minfo st' = minfo st \<Longrightarrow> seg_data st' is = seg_data st is"
  by (rule seg_data_cong) (simp add: seg_bytes_def)

lemma segs_ok_cong:
  assumes "segs_ok st U fs sg" "msgmaps st' = msgmaps st" "free_msgmaps st' = free_msgmaps st" "nfree_msgmaps st' = nfree_msgmaps st" "minfo st' = minfo st"
    "\<And>h. h \<in> U \<Longrightarrow> msg_spot (msghdrs st' h) = msg_spot (msghdrs st h)"
  shows "segs_ok st' U fs sg"
  using assms(1,6) unfolding segs_ok_def assms(2-5) by simp

lemma segs_ok_drop:
  assumes "segs_ok st U fs sg" "sg h = []"
  shows "segs_ok st (U - {h}) fs sg"
proof -
  have "(\<exists>k\<in>U. i \<in> set (sg k)) \<longleftrightarrow> (\<exists>k\<in>U - {h}. i \<in> set (sg k))" for i using assms(2) by fastforce
  then show ?thesis using assms(1) unfolding segs_ok_def by simp
qed

lemma segs_ok_add:
  assumes "segs_ok st U fs sg" "h \<notin> U" "msg_spot (msghdrs st h) = -1"
  shows "segs_ok st (insert h U) fs (sg(h := []))"
proof -
  have "sg k = (sg(h := [])) k" if "k \<in> U" for k using that assms(2) by auto
  then have 1: "segs_ok st U fs (sg(h := []))" using assms(1) unfolding segs_ok_def by simp
  then show ?thesis using assms(3) unfolding segs_ok_def by simp
qed

text \<open>A header in use is freed with its segments.\<close>

lemma msg_freehdr_ok:
  assumes ok: "heap_ok st L" and h: "h \<in> used st L"
  shows "\<exists>st' L'. msg_freehdr h st = Some st' \<and> heap_ok st' L' \<and> l_own L' h = HFree \<and> hdr_frame h st L st' L'"
proof -
  note H = heap_okD [OF ok]
  from freehdr_loop_spec [OF H(2) h H(1) H(3) [OF h]] obtain st1 where s1: "freehdr_loop h st = Some st1" "segs_ok st1 (used st L) (rev (l_sg L h) @ l_fs L) ((l_sg L)(h := []))"
    "seg_frame h st st1" "msg_ts (msghdrs st1 h) = 0" "msg_spot (msghdrs st1 h) = -1" by blast
  note F = seg_frameD [OF s1(3)]
  define st' where "st' = (set_hdr h ((msghdrs st1 h)\<lparr>msg_next := free_msghdrs st1\<rparr>) st1)\<lparr>free_msghdrs := Some h\<rparr>"
  define L' where "L' = L\<lparr>l_fs := rev (l_sg L h) @ l_fs L, l_sg := (l_sg L)(h := []), l_fh := h # l_fh L, l_own := (l_own L)(h := HFree)\<rparr>"
  have st': "minfo st' = minfo st" "msqids st' = msqids st" "msg_pc st' = msg_pc st" "msg_chan st' = msg_chan st" "msgpool st' = msgpool st" "msgmaps st' = msgmaps st1" "free_msgmaps st' = free_msgmaps st1"
    "nfree_msgmaps st' = nfree_msgmaps st1" "free_msghdrs st' = Some h" "msg_next (msghdrs st' h) = free_msghdrs st" "\<And>k. msg_spot (msghdrs st' k) = msg_spot (msghdrs st1 k)"
    "\<And>k. k \<noteq> h \<Longrightarrow> msghdrs st' k = msghdrs st k"
    by (simp_all add: st'_def set_hdr_def F)
  have L': "l_fs L' = rev (l_sg L h) @ l_fs L" "l_sg L' = (l_sg L)(h := [])" "l_fh L' = h # l_fh L" "l_own L' = (l_own L)(h := HFree)" "l_q L' = l_q L" by (simp_all add: L'_def)
  have u: "used st' L' = used st L - {h}" by (auto simp: used_def st' L')
  have e: "msg_freehdr h st = Some st'" by (simp add: msg_freehdr_def s1 st'_def Let_def)
  have "segs_ok st' (used st L) (l_fs L') (l_sg L')" unfolding L' by (rule segs_ok_cong [OF s1(2)]) (use st' F(3) in simp_all)
  then have "segs_ok st' (used st' L') (l_fs L') (l_sg L')" unfolding u by (rule segs_ok_drop) (simp add: L')
  moreover have "h \<notin> set (l_fh L)" using H(5) [of h] h by (auto simp: used_def)
  moreover have "lpath Some (nexts st') (free_msghdrs st) (l_fh L) None \<longleftrightarrow> lpath Some (nexts st) (free_msghdrs st) (l_fh L) None"
    using \<open>h \<notin> set (l_fh L)\<close> by (intro lpath_cong) (metis st'(12))
  moreover have "\<forall>k\<in>used st' L'. length (l_sg L' k) = segs_needed (msg_ts (msghdrs st' k)) (minfo st')" using H(3) by (auto simp: u st' L')
  moreover have "x \<in> set (l_fh L') \<longleftrightarrow> x < msgtql (minfo st') \<and> l_own L' x = HFree" for x
    using H(5) [of x] h by (cases "x = h") (simp_all add: L' st' used_def)
  ultimately have "heap_ok st' L'" unfolding heap_ok_def using H(1,4) by (simp add: st' L')
  moreover have "mview st' L' k = mview st L k" if "k \<noteq> h" for k using that by (simp add: mview_def st' L' seg_data_pool [of st' st])
  ultimately show ?thesis using e by (intro exI [of _ st'] exI [of _ L']) (simp add: hdr_frame_def st' L')
qed

text \<open>A free header is taken, with segments for \<open>n\<close> bytes.\<close>

lemma snd_header_ok:
  assumes ok: "heap_ok st L" and f: "free_msghdrs st = Some h" and n: "int (segs_needed n (minfo st)) \<le> nfree_msgmaps st"
    and st1: "st1 = (set_hdr h ((msghdrs st h)\<lparr>msg_spot := -1, msg_ts := n\<rparr>) st)\<lparr>free_msghdrs := msg_next (msghdrs st h)\<rparr>"
  shows "h < msgtql (minfo st) \<and> l_own L h = HFree \<and> (\<exists>st' L'. alloc_segs h (segs_needed n (minfo st)) st1 = Some st' \<and> heap_ok st' L' \<and> l_own L' h = HThread t \<and> msg_ts (msghdrs st' h) = n \<and> hdr_frame h st L st' L')"
proof -
  note H = heap_okD [OF ok]
  obtain fh where fh: "l_fh L = h # fh" using H(4) f by (cases "l_fh L") auto
  have d: "h \<notin> set fh" using hdl.path_distinct [OF H(4)] by (simp add: fh)
  have own: "h < msgtql (minfo st)" "l_own L h = HFree" using H(5) [of h] by (simp_all add: fh)
  have nu: "h \<notin> used st L" using own by (simp add: used_def)
  have s1: "minfo st1 = minfo st" "msqids st1 = msqids st" "msg_pc st1 = msg_pc st" "msg_chan st1 = msg_chan st" "msgpool st1 = msgpool st" "msgmaps st1 = msgmaps st" "free_msgmaps st1 = free_msgmaps st"
    "nfree_msgmaps st1 = nfree_msgmaps st" "free_msghdrs st1 = msg_next (msghdrs st h)" "msghdrs st1 h = (msghdrs st h)\<lparr>msg_spot := -1, msg_ts := n\<rparr>" "\<And>k. k \<noteq> h \<Longrightarrow> msghdrs st1 k = msghdrs st k"
    by (simp_all add: st1 set_hdr_def)
  define N where "N = segs_needed n (minfo st)"
  have "segs_ok st1 (used st L) (l_fs L) (l_sg L)" by (rule segs_ok_cong [OF H(2)]) (use s1(1,6-8) nu s1(11) in \<open>metis\<close>)+
  then have o1: "segs_ok st1 (insert h (used st L)) (l_fs L) ((l_sg L)(h := []))" by (rule segs_ok_add [OF _ nu]) (simp add: s1)
  have le: "N \<le> length (l_fs L)" using n segs_okD(2) [OF H(2)] by (simp add: N_def)
  from alloc_segs_spec [OF o1 insertI1 le] obtain st' where s': "alloc_segs h N st1 = Some st'"
    "segs_ok st' (insert h (used st L)) (drop N (l_fs L)) ((l_sg L)(h := rev (take N (l_fs L))))" "seg_frame h st1 st'" "msg_ts (msghdrs st' h) = n" by (auto simp: s1)
  note F = seg_frameD [OF s'(3)]
  define L' where "L' = L\<lparr>l_fs := drop N (l_fs L), l_sg := (l_sg L)(h := rev (take N (l_fs L))), l_fh := fh, l_own := (l_own L)(h := HThread t)\<rparr>"
  have L': "l_fs L' = drop N (l_fs L)" "l_sg L' = (l_sg L)(h := rev (take N (l_fs L)))" "l_fh L' = fh" "l_own L' = (l_own L)(h := HThread t)" "l_q L' = l_q L" by (simp_all add: L'_def)
  have u: "used st' L' = insert h (used st L)" using own by (auto simp: used_def F s1 L')
  have k: "msghdrs st' k = msghdrs st k" if "k \<noteq> h" for k using that F(7) s1 by simp
  have "\<forall>k\<in>used st' L'. length (l_sg L' k) = segs_needed (msg_ts (msghdrs st' k)) (minfo st')"
    unfolding u using H(3) le nu k s'(4) F(3) by (auto simp: L' s1 N_def [symmetric])
  moreover have "lpath Some (nexts st') (free_msghdrs st') fh None"
  proof -
    have "lpath Some (nexts st) (msg_next (msghdrs st h)) fh None" using H(4) by (simp add: fh)
    moreover have "lpath Some (nexts st') (msg_next (msghdrs st h)) fh None \<longleftrightarrow> lpath Some (nexts st) (msg_next (msghdrs st h)) fh None"
      using d by (intro lpath_cong) (metis k)
    ultimately show ?thesis by (simp add: F s1)
  qed
  moreover have "x \<in> set fh \<longleftrightarrow> x < msgtql (minfo st') \<and> l_own L' x = HFree" for x
    using H(5) [of x] d own by (cases "x = h") (auto simp: fh F s1 L')
  moreover have "segs_ok st' (used st' L') (l_fs L') (l_sg L')" unfolding u L'(1,2) by (rule s'(2))
  ultimately have "heap_ok st' L'" unfolding heap_ok_def L'(3) using H(1) by (simp add: F(3) s1(1))
  moreover have "mview st' L' k = mview st L k" if "k \<noteq> h" for k using that k by (simp add: mview_def L' seg_data_pool [of st' st] F s1)
  ultimately have "heap_ok st' L' \<and> l_own L' h = HThread t \<and> hdr_frame h st L st' L'" using k by (simp add: hdr_frame_def F s1 L')
  then show ?thesis using own s'(1,4) unfolding N_def by blast
qed

text \<open>The bytes are moved into the message, and out of it.\<close>

lemma used_frame: "hdr_frame h st L st' L' \<Longrightarrow> k \<noteq> h \<Longrightarrow> k \<in> used st' L' \<longleftrightarrow> k \<in> used st L"
  unfolding hdr_frame_def used_def by simp

lemma segs_needed_le: "0 < msgssz mi \<Longrightarrow> n \<le> segs_needed n mi * msgssz mi"
proof (induction n rule: less_induct)
  case (less n)
  show ?case
  proof (cases "n = 0")
    case False
    have "n - msgssz mi \<le> segs_needed (n - msgssz mi) mi * msgssz mi" using less False by simp
    then show ?thesis using segs_needed_Suc [of mi n] less.prems False by simp
  qed simp
qed

lemma segs_in_range: "heap_ok st L \<Longrightarrow> h \<in> used st L \<Longrightarrow> \<forall>i\<in>set (l_sg L h). i < msgseg (minfo st)"
  using segs_ok_range heap_okD(2) by blast

lemma rcv_body_ok:
  assumes ok: "heap_ok st L" and h: "h \<in> used st L" and n: "n \<le> msg_ts (msghdrs st h)"
  shows "rcv_body (msg_spot (msghdrs st h)) n st = Some (take n (snd (mview st L h)))"
proof -
  note H = heap_okD [OF ok]
  have "n \<le> length (l_sg L h) * msgssz (minfo st)" using n segs_needed_le [OF H(1), of "msg_ts (msghdrs st h)"] H(3) [OF h] by simp
  then have "rcv_body (msg_spot (msghdrs st h)) n st = Some (take n (seg_data st (l_sg L h)))"
    by (intro rcv_body_spec segs_okD(3) [OF H(2) h] segs_in_range [OF ok h] H(1))
  then show ?thesis using n by (simp add: mview_def min_def)
qed

lemma snd_body_ok:
  assumes ok: "heap_ok st L" and h: "h \<in> used st L" and n: "length bs \<le> msg_ts (msghdrs st h)"
  shows "\<exists>x st'. snd_body (msg_spot (msghdrs st h)) bs st = Some (x, st') \<and> heap_ok st' L \<and> hdr_frame h st L st' L \<and> msghdrs st' = msghdrs st
    \<and> (length bs = msg_ts (msghdrs st h) \<longrightarrow> x = -1 \<and> mview st' L h = (msg_type (msghdrs st h), bs))"
proof -
  note H = heap_okD [OF ok]
  have le: "length bs \<le> length (l_sg L h) * msgssz (minfo st)" using n segs_needed_le [OF H(1), of "msg_ts (msghdrs st h)"] H(3) [OF h] by simp
  from snd_body_spec [OF segs_okD(3) [OF H(2) h] segs_in_range [OF ok h] H(1) le] obtain x f where
    f: "snd_body (msg_spot (msghdrs st h)) bs st = Some (x, st\<lparr>msgpool := f\<rparr>)" "length (l_sg L h) = segs_needed (length bs) (minfo st) \<longrightarrow> x = -1"
      "\<forall>j. j \<notin> set (l_sg L h) \<longrightarrow> seg_bytes (st\<lparr>msgpool := f\<rparr>) j = seg_bytes st j" "take (length bs) (seg_data (st\<lparr>msgpool := f\<rparr>) (l_sg L h)) = bs" by blast
  define st' where "st' = st\<lparr>msgpool := f\<rparr>"
  have st': "minfo st' = minfo st" "msqids st' = msqids st" "msg_pc st' = msg_pc st" "msg_chan st' = msg_chan st" "msgmaps st' = msgmaps st" "free_msgmaps st' = free_msgmaps st"
    "nfree_msgmaps st' = nfree_msgmaps st" "free_msghdrs st' = free_msghdrs st" "msghdrs st' = msghdrs st" by (simp_all add: st'_def)
  have u: "used st' L = used st L" by (simp add: used_def st')
  have "segs_ok st' (used st L) (l_fs L) (l_sg L)" by (rule segs_ok_cong [OF H(2)]) (simp_all add: st')
  then have "heap_ok st' L" using ok unfolding heap_ok_def u st' by simp
  moreover have "mview st' L k = mview st L k" if "k \<in> used st L" "k \<noteq> h" for k
  proof -
    have "set (l_sg L h) \<inter> set (l_sg L k) = {}" using segs_okD(5) [OF H(2) h that(1)] that(2) by simp
    then have "seg_data st' (l_sg L k) = seg_data st (l_sg L k)" using f(3) by (intro seg_data_cong) (auto simp: st'_def)
    then show ?thesis by (simp add: mview_def st')
  qed
  moreover have "length bs = msg_ts (msghdrs st h) \<longrightarrow> x = -1 \<and> mview st' L h = (msg_type (msghdrs st h), bs)"
    using f(2,4) H(3) [OF h] by (auto simp: mview_def st'_def)
  ultimately show ?thesis using f(1) by (intro exI [of _ x] exI [of _ st']) (simp add: hdr_frame_def st' st'_def [symmetric])
qed

section \<open>Queues\<close>

definition queue_ok :: "msg_state \<Rightarrow> nat \<Rightarrow> nat list \<Rightarrow> bool" where
  "queue_ok st q hs \<longleftrightarrow>
     (let ds = msqids st q
      in lpath Some (nexts st) (msg_first ds) hs None \<and> msg_last ds = (if hs = [] then None else Some (last hs))
         \<and> msg_cbytes ds = sum_list (map (\<lambda>h. msg_ts (msghdrs st h)) hs) \<and> msg_qnum ds = length hs
         \<and> msg_cbytes ds \<le> msgmnb (minfo st) \<and> msg_qbytes ds \<le> msgmnb (minfo st))"

definition queues_ok :: "msg_state \<Rightarrow> layout \<Rightarrow> bool" where
  "queues_ok st L \<longleftrightarrow> (\<forall>q h. h \<in> set (l_q L q) \<longleftrightarrow> h < msgtql (minfo st) \<and> l_own L h = HQueued q)
     \<and> (\<forall>q. msg_qbytes (msqids st q) = 0 \<longrightarrow> l_q L q = []) \<and> (\<forall>q. msg_qbytes (msqids st q) \<noteq> 0 \<longrightarrow> queue_ok st q (l_q L q))
     \<and> (\<forall>q. \<forall>h\<in>set (l_q L q). 1 \<le> msg_type (msghdrs st h))"

lemma queues_okD:
  assumes "queues_ok st L"
  shows "h \<in> set (l_q L q) \<longleftrightarrow> h < msgtql (minfo st) \<and> l_own L h = HQueued q" "msg_qbytes (msqids st q) = 0 \<Longrightarrow> l_q L q = []" "msg_qbytes (msqids st q) \<noteq> 0 \<Longrightarrow> queue_ok st q (l_q L q)"
    "h \<in> set (l_q L q) \<Longrightarrow> 1 \<le> msg_type (msghdrs st h)"
  using assms unfolding queues_ok_def by blast+

lemma queue_okD:
  assumes "queue_ok st q hs"
  shows "lpath Some (nexts st) (msg_first (msqids st q)) hs None" "msg_last (msqids st q) = (if hs = [] then None else Some (last hs))"
    "msg_cbytes (msqids st q) = sum_list (map (\<lambda>h. msg_ts (msghdrs st h)) hs)" "msg_qnum (msqids st q) = length hs"
    "msg_cbytes (msqids st q) \<le> msgmnb (minfo st)" "msg_qbytes (msqids st q) \<le> msgmnb (minfo st)"
  using assms unfolding queue_ok_def Let_def by blast+

lemma queue_ok_cong:
  assumes "queue_ok st q hs" "\<And>h. h \<in> set hs \<Longrightarrow> msghdrs st' h = msghdrs st h" "minfo st' = minfo st" "msg_first (msqids st' q) = msg_first (msqids st q)"
    "msg_last (msqids st' q) = msg_last (msqids st q)" "msg_cbytes (msqids st' q) = msg_cbytes (msqids st q)" "msg_qnum (msqids st' q) = msg_qnum (msqids st q)"
    "msg_qbytes (msqids st' q) \<le> msgmnb (minfo st)"
  shows "queue_ok st' q hs"
proof -
  have "lpath Some (nexts st') (msg_first (msqids st q)) hs None = lpath Some (nexts st) (msg_first (msqids st q)) hs None" using assms(2) by (intro lpath_cong) simp
  moreover have "sum_list (map (\<lambda>h. msg_ts (msghdrs st' h)) hs) = sum_list (map (\<lambda>h. msg_ts (msghdrs st h)) hs)" using assms(2) by (intro arg_cong [of _ _ sum_list]) simp
  ultimately show ?thesis using queue_okD [OF assms(1)] assms(3-8) unfolding queue_ok_def Let_def by simp
qed

text \<open>A header that is in no queue does not matter to the queues.\<close>

lemma queues_ok_frame:
  assumes ok: "queues_ok st L" and fr: "hdr_frame h st L st' L'" and o: "\<And>q. l_own L h \<noteq> HQueued q" "\<And>q. l_own L' h \<noteq> HQueued q"
  shows "queues_ok st' L'"
proof -
  note Q = queues_okD [OF ok] and F = hdr_frameD [OF fr]
  have m: "k \<in> set (l_q L q) \<longleftrightarrow> k < msgtql (minfo st') \<and> l_own L' k = HQueued q" for k q using Q(1) [of k q] F(2,7) o by (cases "k = h") auto
  have s: "msghdrs st' k = msghdrs st k" if "k \<in> set (l_q L q)" for k q
    by (rule F(6)) (use that Q(1) o in blast)
  have "queue_ok st' q (l_q L q)" if "msg_qbytes (msqids st q) \<noteq> 0" for q
    by (rule queue_ok_cong [OF Q(3) [OF that]]) (use F(1,2) s queue_okD(6) [OF Q(3) [OF that]] in simp_all)
  then show ?thesis unfolding queues_ok_def F(1,5) using m Q(2,4) s by simp
qed

section \<open>Threads\<close>

definition carries :: "mpc \<Rightarrow> nat option" where
  "carries pc = (case pc of SndCopy q h ty bs \<Rightarrow> Some h | RcvCopy q h n \<Rightarrow> Some h | _ \<Rightarrow> None)"

definition locks_q :: "mpc \<Rightarrow> nat option" where
  "locks_q pc = (case pc of SndCopy q h ty bs \<Rightarrow> Some q | SndWait q ty bs flg own \<Rightarrow> (if own then Some q else None) | _ \<Rightarrow> None)"

definition pc_ok :: "msg_state \<Rightarrow> mpc \<Rightarrow> bool" where
  "pc_ok st pc =
     (case pc of
        SndCopy q h ty bs \<Rightarrow> msg_ts (msghdrs st h) = length bs \<and> (msg_qbytes (msqids st q) \<noteq> 0 \<longrightarrow> length bs + msg_cbytes (msqids st q) \<le> msgmnb (minfo st))
      | RcvCopy q h n \<Rightarrow> n \<le> msg_ts (msghdrs st h)
      | _ \<Rightarrow> True)"

lemmas pc_simps = carries_def locks_q_def pc_ok_def

definition threads_ok :: "msg_state \<Rightarrow> layout \<Rightarrow> bool" where
  "threads_ok st L \<longleftrightarrow> (\<forall>t h. carries (msg_pc st t) = Some h \<longleftrightarrow> h < msgtql (minfo st) \<and> l_own L h = HThread t)
     \<and> (\<forall>t q. locks_q (msg_pc st t) = Some q \<longrightarrow> ds_locked (msqids st q))
     \<and> (\<forall>t u q. locks_q (msg_pc st t) = Some q \<longrightarrow> locks_q (msg_pc st u) = Some q \<longrightarrow> t = u)
     \<and> (\<forall>t. pc_ok st (msg_pc st t))"

lemma threads_okD:
  assumes "threads_ok st L"
  shows "carries (msg_pc st t) = Some h \<longleftrightarrow> h < msgtql (minfo st) \<and> l_own L h = HThread t" "locks_q (msg_pc st t) = Some q \<Longrightarrow> ds_locked (msqids st q)"
    "locks_q (msg_pc st t) = Some q \<Longrightarrow> locks_q (msg_pc st u) = Some q \<Longrightarrow> t = u" "pc_ok st (msg_pc st t)"
  using assms unfolding threads_ok_def by blast+

lemma pc_ok_mono:
  assumes ok: "pc_ok st pc" and mi: "minfo st' = minfo st" and h: "\<And>h. carries pc = Some h \<Longrightarrow> msg_ts (msghdrs st' h) = msg_ts (msghdrs st h)"
    and q: "\<And>q. locks_q pc = Some q \<Longrightarrow> msg_qbytes (msqids st' q) \<noteq> 0 \<longrightarrow> msg_qbytes (msqids st q) \<noteq> 0 \<and> msg_cbytes (msqids st' q) \<le> msg_cbytes (msqids st q)"
  shows "pc_ok st' pc"
proof (cases pc)
  case (SndCopy r k ty bs)
  have "msg_ts (msghdrs st' k) = msg_ts (msghdrs st k)" using h [of k] by (simp add: SndCopy carries_def)
  moreover have "msg_qbytes (msqids st' r) \<noteq> 0 \<longrightarrow> msg_qbytes (msqids st r) \<noteq> 0 \<and> msg_cbytes (msqids st' r) \<le> msg_cbytes (msqids st r)"
    using q [of r] by (simp add: SndCopy locks_q_def)
  ultimately show ?thesis using ok by (auto simp: pc_ok_def SndCopy mi)
next
  case (RcvCopy r k n)
  have "msg_ts (msghdrs st' k) = msg_ts (msghdrs st k)" using h [of k] by (simp add: RcvCopy carries_def)
  then show ?thesis using ok by (simp add: pc_ok_def RcvCopy)
qed (simp_all add: pc_ok_def)

text \<open>The thread \<open>t\<close> moves on; the others keep what they have.\<close>

lemma threads_step:
  assumes ok: "threads_ok st L" and pc: "msg_pc st' = (msg_pc st)(t := pc')" and mi: "minfo st' = minfo st"
    and own: "\<And>h. carries pc' = Some h \<longleftrightarrow> h < msgtql (minfo st) \<and> l_own L' h = HThread t" "\<And>h u. u \<noteq> t \<Longrightarrow> l_own L' h = HThread u \<longleftrightarrow> l_own L h = HThread u"
    and lk: "\<And>u q. u \<noteq> t \<Longrightarrow> locks_q (msg_pc st u) = Some q \<Longrightarrow> ds_locked (msqids st' q)
        \<and> (msg_qbytes (msqids st' q) \<noteq> 0 \<longrightarrow> msg_qbytes (msqids st q) \<noteq> 0 \<and> msg_cbytes (msqids st' q) \<le> msg_cbytes (msqids st q)) \<and> locks_q pc' \<noteq> Some q"
    and lk': "\<And>q. locks_q pc' = Some q \<Longrightarrow> ds_locked (msqids st' q)"
    and hd: "\<And>h u. u \<noteq> t \<Longrightarrow> l_own L h = HThread u \<Longrightarrow> msg_ts (msghdrs st' h) = msg_ts (msghdrs st h)" and me: "pc_ok st' pc'"
  shows "threads_ok st' L'"
proof -
  note T = threads_okD [OF ok]
  have p: "msg_pc st' t = pc'" "\<And>u. u \<noteq> t \<Longrightarrow> msg_pc st' u = msg_pc st u" by (simp_all add: pc)
  have "carries (msg_pc st' u) = Some h \<longleftrightarrow> h < msgtql (minfo st') \<and> l_own L' h = HThread u" for u h
    unfolding mi using own T(1) p by (cases "u = t") auto
  moreover have "ds_locked (msqids st' q)" if "locks_q (msg_pc st' u) = Some q" for u q
    using that p lk [of u q] lk' [of q] by metis
  moreover have "u = v" if "locks_q (msg_pc st' u) = Some q" "locks_q (msg_pc st' v) = Some q" for u v q
  proof (cases "u = t \<or> v = t")
    case True
    then show ?thesis using that p lk [of u q] lk [of v q] by metis
  next
    case False
    then show ?thesis using that p T(3) [of u q v] by simp
  qed
  moreover have "pc_ok st' (msg_pc st' u)" for u
  proof (cases "u = t")
    case True
    then show ?thesis using me p(1) by simp
  next
    case False
    show ?thesis unfolding p(2) [OF False]
      by (rule pc_ok_mono [OF T(4) mi]) (use hd [OF False] T(1) [of u] lk [OF False] in blast)+
  qed
  ultimately show ?thesis unfolding threads_ok_def by blast
qed

section \<open>The invariant\<close>

definition msg_limits :: "msginfo \<Rightarrow> bool" where
  "msg_limits mi \<longleftrightarrow> 0 < msgseg mi \<and> 0 < msgtql mi \<and> msgtql mi < 2 ^ 31 \<and> msgmnb mi < 2 ^ 16"

definition laid :: "msg_state \<Rightarrow> layout \<Rightarrow> bool" where
  "laid st L \<longleftrightarrow> heap_ok st L \<and> queues_ok st L \<and> threads_ok st L \<and> msg_limits (minfo st)"

lemma laidD: "laid st L \<Longrightarrow> heap_ok st L" "laid st L \<Longrightarrow> queues_ok st L" "laid st L \<Longrightarrow> threads_ok st L" "laid st L \<Longrightarrow> msg_limits (minfo st)"
  by (simp_all add: laid_def)

text \<open>What is seen of a state: the queues, and the messages on their way to receivers.\<close>

definition qview :: "msg_state \<Rightarrow> layout \<Rightarrow> nat \<Rightarrow> (int \<times> u8 list) list" where
  "qview st L q = map (mview st L) (l_q L q)"

definition tview :: "msg_state \<Rightarrow> layout \<Rightarrow> nat \<Rightarrow> (int \<times> u8 list) option" where
  "tview st L t = (case msg_pc st t of RcvCopy q h n \<Rightarrow> Some (mview st L h) | _ \<Rightarrow> None)"

definition same_view :: "nat \<Rightarrow> msg_state \<Rightarrow> layout \<Rightarrow> msg_state \<Rightarrow> layout \<Rightarrow> bool" where
  "same_view t st L st' L' \<longleftrightarrow> qview st' L' = qview st L \<and> (\<forall>u. u \<noteq> t \<longrightarrow> tview st' L' u = tview st L u)"

lemma same_view_refl [simp]: "same_view t st L st L"
  by (simp add: same_view_def)

lemma same_view_trans: "same_view t st L st1 L1 \<Longrightarrow> same_view t st1 L1 st2 L2 \<Longrightarrow> same_view t st L st2 L2"
  by (simp add: same_view_def)

subsection \<open>Changes that do not touch the tables\<close>

lemma at_pc_simps [simp]:
  "msghdrs (at_pc t pc st) = msghdrs st" "msqids (at_pc t pc st) = msqids st" "minfo (at_pc t pc st) = minfo st" "msgpool (at_pc t pc st) = msgpool st" "msgmaps (at_pc t pc st) = msgmaps st"
  "free_msgmaps (at_pc t pc st) = free_msgmaps st" "nfree_msgmaps (at_pc t pc st) = nfree_msgmaps st" "free_msghdrs (at_pc t pc st) = free_msghdrs st" "msg_chan (at_pc t pc st) = msg_chan st"
  "msg_pc (at_pc t pc st) = (msg_pc st)(t := pc)" "at_pc t pc (at_pc t pc' st) = at_pc t pc st"
  by (simp_all add: at_pc_def)

lemma at_pc_triv: "msg_pc st t = pc \<Longrightarrow> at_pc t pc st = st"
  by (auto simp: at_pc_def)

lemma lock_q_simps [simp]:
  "msghdrs (lock_q q b st) = msghdrs st" "minfo (lock_q q b st) = minfo st" "msgpool (lock_q q b st) = msgpool st" "msgmaps (lock_q q b st) = msgmaps st" "free_msgmaps (lock_q q b st) = free_msgmaps st"
  "nfree_msgmaps (lock_q q b st) = nfree_msgmaps st" "free_msghdrs (lock_q q b st) = free_msghdrs st" "msg_chan (lock_q q b st) = msg_chan st" "msg_pc (lock_q q b st) = msg_pc st"
  "msg_qbytes (msqids (lock_q q b st) r) = msg_qbytes (msqids st r)" "msg_cbytes (msqids (lock_q q b st) r) = msg_cbytes (msqids st r)" "msg_first (msqids (lock_q q b st) r) = msg_first (msqids st r)"
  "msg_last (msqids (lock_q q b st) r) = msg_last (msqids st r)" "msg_qnum (msqids (lock_q q b st) r) = msg_qnum (msqids st r)"
  by (simp_all add: lock_q_def set_ds_def ds_lock_def)

lemma ds_locked_lock: "ds_locked (ds_lock b ds) = b"
proof -
  have 1: "(m OR w) AND w = w" and 2: "(m AND NOT w) AND w = 0" for m w :: u32
    by (rule bit_word_eqI; auto simp: bit_simps)+
  have 3: "MSG_LOCKED \<noteq> 0" by (simp add: MSG_LOCKED_def)
  show ?thesis using 3 by (simp add: ds_locked_def ds_lock_def 1 2)
qed

lemma ds_locked_lock_q: "ds_locked (msqids (lock_q q b st) r) = (if r = q then b else ds_locked (msqids st r))"
  by (simp add: lock_q_def set_ds_def ds_locked_lock)

lemma views_cong:
  assumes "msghdrs st' = msghdrs st" "minfo st' = minfo st" "msgpool st' = msgpool st"
  shows "mview st' L = mview st L" "qview st' L = qview st L" "msg_pc st' t = msg_pc st t \<Longrightarrow> tview st' L t = tview st L t"
proof -
  show m: "mview st' L = mview st L" by (rule ext) (simp add: mview_def assms seg_data_pool [OF assms(3,2)])
  show "qview st' L = qview st L" by (rule ext) (simp add: qview_def m)
  show "tview st' L t = tview st L t" if "msg_pc st' t = msg_pc st t" using that by (simp add: tview_def m cong: mpc.case_cong)
qed

lemma heap_cong:
  assumes "msghdrs st' = msghdrs st" "minfo st' = minfo st" "msgmaps st' = msgmaps st" "free_msgmaps st' = free_msgmaps st" "nfree_msgmaps st' = nfree_msgmaps st" "free_msghdrs st' = free_msghdrs st"
  shows "heap_ok st' L = heap_ok st L"
  unfolding heap_ok_def segs_ok_def used_def assms by (rule refl)

lemma queues_cong:
  assumes "msghdrs st' = msghdrs st" "minfo st' = minfo st" "\<And>q. msg_qbytes (msqids st' q) = msg_qbytes (msqids st q)" "\<And>q. msg_cbytes (msqids st' q) = msg_cbytes (msqids st q)"
    "\<And>q. msg_first (msqids st' q) = msg_first (msqids st q)" "\<And>q. msg_last (msqids st' q) = msg_last (msqids st q)" "\<And>q. msg_qnum (msqids st' q) = msg_qnum (msqids st q)"
  shows "queues_ok st' L = queues_ok st L"
  unfolding queues_ok_def queue_ok_def Let_def assms by (rule refl)

lemma threads_chan: "threads_ok (st\<lparr>msg_chan := c\<rparr>) L = threads_ok st L"
proof -
  have "pc_ok (st\<lparr>msg_chan := c\<rparr>) pc = pc_ok st pc" for pc by (cases pc) (simp_all add: pc_ok_def)
  then show ?thesis by (simp add: threads_ok_def)
qed

lemma parts_frame [simp]:
  "heap_ok (at_pc t pc st) L = heap_ok st L" "heap_ok (lock_q q b st) L = heap_ok st L" "heap_ok (st\<lparr>msg_chan := c\<rparr>) L = heap_ok st L" "heap_ok (set_ds q ds st) L = heap_ok st L"
  "queues_ok (at_pc t pc st) L = queues_ok st L" "queues_ok (lock_q q b st) L = queues_ok st L" "queues_ok (st\<lparr>msg_chan := c\<rparr>) L = queues_ok st L"
  "threads_ok (st\<lparr>msg_chan := c\<rparr>) L = threads_ok st L"
  by (rule heap_cong queues_cong threads_chan; simp add: set_ds_def)+

lemma views_frame [simp]:
  "mview (at_pc t pc st) L = mview st L" "mview (lock_q q b st) L = mview st L" "mview (st\<lparr>msg_chan := c\<rparr>) L = mview st L" "mview (set_ds q ds st) L = mview st L"
  "qview (at_pc t pc st) L = qview st L" "qview (lock_q q b st) L = qview st L" "qview (st\<lparr>msg_chan := c\<rparr>) L = qview st L" "qview (set_ds q ds st) L = qview st L"
  "tview (lock_q q b st) L u = tview st L u" "tview (st\<lparr>msg_chan := c\<rparr>) L u = tview st L u" "tview (set_ds q ds st) L u = tview st L u" "u \<noteq> t \<Longrightarrow> tview (at_pc t pc st) L u = tview st L u"
  by (rule views_cong; simp add: set_ds_def)+

lemma same_view_frame [simp]:
  "same_view t st L (at_pc t pc st') L' = same_view t st L st' L'" "same_view t st L (lock_q q b st') L' = same_view t st L st' L'" "same_view t st L (st'\<lparr>msg_chan := c\<rparr>) L' = same_view t st L st' L'"
  "same_view t st L (set_ds q ds st') L' = same_view t st L st' L'" "same_view t (at_pc t pc st) L st' L' = same_view t st L st' L'" "same_view t (lock_q q b st) L st' L' = same_view t st L st' L'"
  "same_view t (st\<lparr>msg_chan := c\<rparr>) L st' L' = same_view t st L st' L'"
  by (simp_all add: same_view_def)

lemma laid_chan [simp]: "laid (st\<lparr>msg_chan := c\<rparr>) L = laid st L"
  by (simp add: laid_def)

lemma at_pc_chan: "at_pc t pc (st\<lparr>msg_chan := c\<rparr>) = (at_pc t pc st)\<lparr>msg_chan := c\<rparr>"
  by (simp add: at_pc_def)

lemma laid_mwakeup [simp]: "laid (at_pc t pc (mwakeup q st)) L = laid (at_pc t pc st) L"
  by (simp add: mwakeup_def at_pc_chan)

lemma laid_msleep [simp]: "laid (msleep t q pc st) L = laid (at_pc t pc st) L" and laid_wake_self [simp]: "laid (at_pc t pc (wake_self u st)) L = laid (at_pc t pc st) L"
  by (simp_all add: msleep_def wake_self_def at_pc_chan)

lemma same_view_sleep [simp]:
  "same_view t st L (mwakeup q st') L' = same_view t st L st' L'" "same_view t st L (msleep t q pc st') L' = same_view t st L st' L'" "same_view t (wake_self u st) L st' L' = same_view t st L st' L'"
  by (simp_all add: mwakeup_def msleep_def wake_self_def)

subsection \<open>Threads that come and go\<close>

definition plain :: "mpc \<Rightarrow> bool" where
  "plain pc \<longleftrightarrow> carries pc = None \<and> locks_q pc = None"

lemma plain_simps [simp]: "plain (MOut r)" "plain (RcvWait q i n ty flg)" "plain (SndWait q ty bs flg own) = (\<not> own)" "\<not> plain (SndCopy q h ty bs)" "\<not> plain (RcvCopy q h n)" "plain (SetCopy q cred)"
  by (simp_all add: plain_def pc_simps)

lemma plain_ok: "plain pc \<Longrightarrow> pc_ok st pc"
  by (cases pc) (simp_all add: pc_simps plain_def)

lemma relock:
  assumes ok: "laid (at_pc t pc0 st) L" and c: "carries pc' = carries pc0" and mi: "minfo st' = minfo st" and h: "msghdrs st' = msghdrs st" and pc: "msg_pc st' = msg_pc st"
    and hp: "heap_ok st' L" and qs: "queues_ok st' L" and b: "\<And>q. msg_qbytes (msqids st' q) = msg_qbytes (msqids st q) \<and> msg_cbytes (msqids st' q) = msg_cbytes (msqids st q)"
    and lk: "\<And>u q. u \<noteq> t \<Longrightarrow> locks_q (msg_pc st u) = Some q \<Longrightarrow> ds_locked (msqids st' q) \<and> locks_q pc' \<noteq> Some q" "\<And>q. locks_q pc' = Some q \<Longrightarrow> ds_locked (msqids st' q)" and pk: "pc_ok st' pc'"
  shows "laid (at_pc t pc' st') L"
proof -
  note T = threads_okD [OF laidD(3) [OF ok]]
  have own: "carries pc0 = Some k \<longleftrightarrow> k < msgtql (minfo st) \<and> l_own L k = HThread t" for k using T(1) [of t k] by simp
  have "pc_ok (at_pc t pc' st') pc'" using pk by (cases pc') (simp_all add: pc_ok_def)
  then have "threads_ok (at_pc t pc' st') L"
    by (intro threads_step [OF laidD(3) [OF ok], of "at_pc t pc' st'" t pc' L]) (use c own lk b h mi pc in \<open>simp_all\<close>)
  then show ?thesis using hp qs laidD(4) [OF ok] mi by (simp add: laid_def)
qed

lemma plain_move:
  assumes ok: "laid (at_pc t pc0 st) L" and p: "plain pc0" "plain pc'"
  shows "laid (at_pc t pc' st) L"
proof -
  note T = threads_okD [OF laidD(3) [OF ok]]
  show ?thesis
  proof (rule relock [OF ok])
    fix u q assume "u \<noteq> t" "locks_q (msg_pc st u) = Some q"
    then show "ds_locked (msqids st q) \<and> locks_q pc' \<noteq> Some q" using T(2) [of u q] p(2) by (simp add: plain_def)
  qed (use p plain_ok [OF p(2)] laidD(1,2) [OF ok] in \<open>simp_all add: plain_def\<close>)
qed

lemma lock_move:
  assumes ok: "laid (at_pc t pc0 st) L" and p: "plain pc0" and n: "\<not> ds_locked (msqids st q)"
  shows "laid (at_pc t (SndWait q ty bs flg True) (lock_q q True st)) L"
proof -
  note T = threads_okD [OF laidD(3) [OF ok]]
  show ?thesis
  proof (rule relock [OF ok])
    fix u r assume a: "u \<noteq> t" "locks_q (msg_pc st u) = Some r"
    then have "ds_locked (msqids st r)" using T(2) [of u r] by simp
    then show "ds_locked (msqids (lock_q q True st) r) \<and> locks_q (SndWait q ty bs flg True) \<noteq> Some r" using n by (auto simp: ds_locked_lock_q locks_q_def)
  qed (use p laidD(1,2) [OF ok] in \<open>simp_all add: plain_def pc_simps ds_locked_lock_q\<close>)
qed

lemma unlock_move:
  assumes ok: "laid (at_pc t (SndWait q ty bs flg True) st) L"
  shows "laid (at_pc t (MOut r) (lock_q q False st)) L"
proof -
  note T = threads_okD [OF laidD(3) [OF ok]]
  show ?thesis
  proof (rule relock [OF ok])
    fix u r' assume a: "u \<noteq> t" "locks_q (msg_pc st u) = Some r'"
    have "ds_locked (msqids st r')" using T(2) [of u r'] a by simp
    moreover have "r' \<noteq> q"
    proof
      assume "r' = q"
      then have "u = t" using a by (intro T(3) [of u q t]) (simp_all add: locks_q_def)
      then show False using a(1) by simp
    qed
    ultimately show "ds_locked (msqids (lock_q q False st) r') \<and> locks_q (MOut r) \<noteq> Some r'" by (simp add: ds_locked_lock_q locks_q_def)
  qed (use laidD(1,2) [OF ok] in \<open>simp_all add: pc_simps\<close>)
qed

text \<open>The header of a thread is taken, filled or freed.\<close>

lemma frame_same_view:
  assumes ok: "laid (at_pc t pc0 st) L" and fr: "hdr_frame h st L st2 L2" and o: "l_own L h = HFree \<or> l_own L h = HThread t"
  shows "same_view t st L st2 L2"
proof -
  note F = hdr_frameD [OF fr]
  have Q: "k \<in> set (l_q L q) \<longleftrightarrow> k < msgtql (minfo st) \<and> l_own L k = HQueued q" for k q using queues_okD(1) [OF laidD(2) [OF ok], of k q] by simp
  have "mview st2 L2 k = mview st L k" if "k \<in> set (l_q L q)" for k q
    by (rule F(8)) (use that Q o in \<open>auto simp: used_def\<close>)
  then have "qview st2 L2 = qview st L" by (intro ext) (simp add: qview_def F(5))
  moreover have "tview st2 L2 u = tview st L u" if u: "u \<noteq> t" for u
  proof (cases "msg_pc st u")
    case (RcvCopy q k n)
    then have "k < msgtql (minfo st) \<and> l_own L k = HThread u" using threads_okD(1) [OF laidD(3) [OF ok], of u k] u by (simp add: carries_def)
    then have "mview st2 L2 k = mview st L k" using o u by (intro F(8)) (auto simp: used_def)
    then show ?thesis by (simp add: tview_def F(3) RcvCopy)
  qed (simp_all add: tview_def F(3))
  ultimately show ?thesis by (simp add: same_view_def)
qed

lemma laid_frame:
  assumes ok: "laid (at_pc t pc0 st) L" and hp: "heap_ok st2 L2" and fr: "hdr_frame h st L st2 L2" and hn: "h < msgtql (minfo st)"
    and o: "l_own L h = HFree \<or> l_own L h = HThread t" and o2: "l_own L2 h = HFree \<or> l_own L2 h = HThread t"
    and c: "carries pc' = (if l_own L2 h = HThread t then Some h else None)" and c0: "carries pc0 = None \<or> carries pc0 = Some h" and l: "locks_q pc' = locks_q pc0" and pk: "pc_ok st2 pc'"
  shows "laid (at_pc t pc' st2) L2"
proof -
  note F = hdr_frameD [OF fr] and T = threads_okD [OF laidD(3) [OF ok]]
  have qs: "queues_ok st L" using laidD(2) [OF ok] by simp
  have own: "carries pc' = Some k \<longleftrightarrow> k < msgtql (minfo st) \<and> l_own L2 k = HThread t" for k
  proof (cases "k = h")
    case False
    then have "\<not> (k < msgtql (minfo st) \<and> l_own L k = HThread t)" using T(1) [of t k] c0 by auto
    then show ?thesis using False c F(7) [OF False] by simp
  qed (use c hn o2 in simp)
  have own2: "l_own L2 k = HThread u \<longleftrightarrow> l_own L k = HThread u" if "u \<noteq> t" for k u using that o o2 F(7) [of k] by (cases "k = h") auto
  have "threads_ok (at_pc t pc' st2) L2"
  proof (rule threads_step [OF laidD(3) [OF ok], of _ t pc'])
    fix u q assume a: "u \<noteq> t" "locks_q (msg_pc (at_pc t pc0 st) u) = Some q"
    have "locks_q pc' \<noteq> Some q" unfolding l using T(3) [of u q t] a by auto
    then show "ds_locked (msqids (at_pc t pc' st2) q) \<and> (msg_qbytes (msqids (at_pc t pc' st2) q) \<noteq> 0 \<longrightarrow> msg_qbytes (msqids (at_pc t pc0 st) q) \<noteq> 0
        \<and> msg_cbytes (msqids (at_pc t pc' st2) q) \<le> msg_cbytes (msqids (at_pc t pc0 st) q)) \<and> locks_q pc' \<noteq> Some q" using T(2) [OF a(2)] by (simp add: F(1))
  next
    fix q assume "locks_q pc' = Some q"
    then show "ds_locked (msqids (at_pc t pc' st2) q)" using T(2) [of t q] by (simp add: F(1) l)
  next
    fix k u assume "u \<noteq> t" "l_own L k = HThread u"
    then have "k \<noteq> h" using o by auto
    then show "msg_ts (msghdrs (at_pc t pc' st2) k) = msg_ts (msghdrs (at_pc t pc0 st) k)" by (simp add: F(6))
  next
    show "pc_ok (at_pc t pc' st2) pc'" using pk by (cases pc') (simp_all add: pc_ok_def)
  qed (use own own2 F(2,3) in \<open>simp_all\<close>)
  moreover have "queues_ok st2 L2" using o o2 by (intro queues_ok_frame [OF qs fr]) auto
  ultimately show ?thesis using hp laidD(4) [OF ok] F(2) by (simp add: laid_def)
qed

section \<open>Sending\<close>

lemma set_hdr_minfo: "minfo (set_hdr h m st) = minfo st"
  by (simp add: set_hdr_def)

lemma lock_q_alloc_ok:
  assumes ok: "laid (at_pc t pc0 st) L" and p: "plain pc0" and q: "msg_qbytes (msqids st q) \<noteq> 0" and r: "\<not> snd_short q (length bs) st"
  shows "\<exists>st' L'. snd_alloc t q ty bs st = Some st' \<and> laid st' L' \<and> same_view t st L st' L' \<and> (\<exists>h. msg_pc st' t = SndCopy q h ty bs) \<and> msg_qbytes (msqids st' q) \<noteq> 0"
proof -
  have r: "\<not> ds_locked (msqids st q)" "length bs + msg_cbytes (msqids st q) \<le> msg_qbytes (msqids st q)" "int (segs_needed (length bs) (minfo st)) \<le> nfree_msgmaps st" "free_msghdrs st \<noteq> None"
    using r unfolding snd_short_def by simp_all
  define st1 where "st1 = lock_q q True st"
  have lk: "laid (at_pc t (SndWait q ty bs 0 True) st1) L" unfolding st1_def by (rule lock_move [OF ok p r(1)])
  obtain h where h: "free_msghdrs st1 = Some h" using r(4) by (auto simp: st1_def)
  have le: "msg_qbytes (msqids st q) \<le> msgmnb (minfo st)" using queue_okD(6) [OF queues_okD(3) [OF laidD(2) [OF ok]]] q by simp
  then have small: "length bs mod 2 ^ 16 = length bs" using r(2) laidD(4) [OF ok] by (simp add: msg_limits_def)
  define st2 where "st2 = (set_hdr h ((msghdrs st1 h)\<lparr>msg_spot := -1, msg_ts := length bs\<rparr>) st1)\<lparr>free_msghdrs := msg_next (msghdrs st1 h)\<rparr>"
  have m2: "minfo st2 = minfo st" by (simp add: st2_def st1_def set_hdr_def)
  have hp: "heap_ok st1 L" using laidD(1) [OF lk] by simp
  have "int (segs_needed (length bs) (minfo st1)) \<le> nfree_msgmaps st1" using r(3) by (simp add: st1_def)
  from snd_header_ok [OF hp h this st2_def, of t] obtain st' L' where own: "h < msgtql (minfo st1)" "l_own L h = HFree"
    and s': "alloc_segs h (segs_needed (length bs) (minfo st1)) st2 = Some st'" "heap_ok st' L'" "l_own L' h = HThread t" "msg_ts (msghdrs st' h) = length bs" "hdr_frame h st1 L st' L'" by blast
  note F = hdr_frameD [OF s'(5)]
  have e: "snd_alloc t q ty bs st = Some (at_pc t (SndCopy q h ty bs) st')"
    using r(1) h s'(1) m2 by (simp add: snd_alloc_def Let_def st1_def [symmetric] small [simplified] st2_def [symmetric]) (simp add: st1_def set_hdr_minfo)
  have "laid (at_pc t (SndCopy q h ty bs) st') L'"
  proof (rule laid_frame [OF lk s'(2,5) own(1)])
    show "pc_ok st' (SndCopy q h ty bs)" using s'(4) r(2) le by (simp add: pc_ok_def F(1,2) st1_def)
  qed (use own s'(3) in \<open>simp_all add: pc_simps\<close>)
  moreover have "same_view t st L st' L'" using frame_same_view [OF lk s'(5)] own by (simp add: st1_def)
  moreover have "msg_qbytes (msqids st' q) \<noteq> 0" using q by (simp add: F(1) st1_def)
  ultimately show ?thesis using e by (intro exI [of _ "at_pc t (SndCopy q h ty bs) st'"] exI [of _ L']) simp
qed

lemma tview_pc: "msg_pc st t = MOut r \<Longrightarrow> tview st L t = None" "msg_pc st t = SndCopy q h ty bs \<Longrightarrow> tview st L t = None" "msg_pc st t = SndWait q ty bs flg own \<Longrightarrow> tview st L t = None"
    "msg_pc st t = RcvWait q i n mt flg \<Longrightarrow> tview st L t = None" "msg_pc st t = RcvCopy q h n \<Longrightarrow> tview st L t = Some (mview st L h)"
    "msg_pc st t = SetCopy q cred \<Longrightarrow> tview st L t = None"
  by (simp_all add: tview_def)

lemma msleep_pc [simp]: "msg_pc (msleep t q pc st) = (msg_pc st)(t := pc)"
  by (simp add: msleep_def)

lemma snd_loop_ok:
  assumes ok: "laid (at_pc t pc0 st) L" and p: "plain pc0" and q: "msg_qbytes (msqids st q) \<noteq> 0"
  shows "\<exists>st' L'. snd_loop t q ty bs flg st = Some st' \<and> laid st' L' \<and> same_view t st L st' L' \<and> tview st' L' t = None"
proof -
  have out: "laid (at_pc t (MOut r) st) L" for r by (rule plain_move [OF ok p]) simp
  consider "length bs > msg_qbytes (msqids st q)" | "\<not> length bs > msg_qbytes (msqids st q)" "snd_short q (length bs) st" | "\<not> length bs > msg_qbytes (msqids st q)" "\<not> snd_short q (length bs) st" by blast
  then show ?thesis
  proof cases
    case 1
    then show ?thesis using out by (intro exI [of _ "mfail t EINVAL st"] exI [of _ L]) (simp add: snd_loop_def mfail_def tview_pc)
  next
    case 2
    show ?thesis
    proof (cases "flg AND ucast IPC_NOWAIT \<noteq> 0")
      case True
      then show ?thesis using out 2 by (intro exI [of _ "mfail t EAGAIN st"] exI [of _ L]) (simp add: snd_loop_def mfail_def tview_pc)
    next
      case False
      show ?thesis
      proof (cases "ds_locked (msqids st q)")
        case True
        have "laid (at_pc t (SndWait q ty bs flg False) st) L" by (rule plain_move [OF ok p]) simp
        then show ?thesis using True False 2 by (intro exI [of _ "msleep t q (SndWait q ty bs flg False) st"] exI [of _ L]) (simp add: snd_loop_def Let_def tview_pc)
      next
        case nl: False
        have "laid (at_pc t (SndWait q ty bs flg True) (lock_q q True st)) L" by (rule lock_move [OF ok p nl])
        then show ?thesis using nl False 2 by (intro exI [of _ "msleep t q (SndWait q ty bs flg True) (lock_q q True st)"] exI [of _ L]) (simp add: snd_loop_def Let_def tview_pc)
      qed
    qed
  next
    case 3
    from lock_q_alloc_ok [OF ok p q 3(2), of ty] obtain st' L' h where "snd_alloc t q ty bs st = Some st'" "laid st' L'" "same_view t st L st' L'" "msg_pc st' t = SndCopy q h ty bs" by blast
    then show ?thesis using 3 by (intro exI [of _ st'] exI [of _ L']) (simp add: snd_loop_def tview_pc)
  qed
qed

lemma msq_lookup_live: "msq_lookup msqid st = Some q \<Longrightarrow> msg_qbytes (msqids st q) \<noteq> 0 \<and> q < msgmni (minfo st)"
  by (auto simp: msq_lookup_def Let_def split: if_splits)

lemma mfail_ok:
  assumes "laid (at_pc t pc0 st) L" "plain pc0"
  shows "\<exists>st' L'. Some (mfail t e st) = Some st' \<and> laid st' L' \<and> same_view t st L st' L' \<and> tview st' L' t = None"
  using plain_move [OF assms, of "MOut (Inl e)"] by (intro exI [of _ "mfail t e st"] exI [of _ L]) (simp add: mfail_def tview_pc)

lemma sys_msgsnd_ok:
  assumes ok: "laid st L" and pc: "msg_pc st t = MOut r"
  shows "\<exists>st' L'. sys_msgsnd t cred msqid ty bs flg st = Some st' \<and> laid st' L' \<and> same_view t st L st' L' \<and> tview st' L' t = None"
proof -
  have ok': "laid (at_pc t (MOut r) st) L" and p: "plain (MOut r)" using ok pc by (simp_all add: at_pc_triv)
  show ?thesis
  proof (cases "msq_lookup msqid st")
    case None
    then show ?thesis using mfail_ok [OF ok' p] by (simp add: sys_msgsnd_def)
  next
    case (Some q)
    show ?thesis
    proof (cases "ipcperm cred (msg_perm (msqids st q)) IPC_W")
      case None
      have "msg_qbytes (msqids st q) \<noteq> 0" using msq_lookup_live [OF Some] by simp
      from snd_loop_ok [OF ok' p this, of ty bs flg] show ?thesis unfolding sys_msgsnd_def Some None option.case .
    next
      case (Some e)
      show ?thesis using mfail_ok [OF ok' p, of e] unfolding sys_msgsnd_def \<open>msq_lookup msqid st = Some q\<close> Some option.case .
    qed
  qed
qed

lemma snd_woken_ok:
  assumes ok: "laid st L" and pc: "msg_pc st t = SndWait q ty bs flg own"
  shows "\<exists>st' L'. snd_woken t q ty bs flg own intr (wake_self t st) = Some st' \<and> laid st' L' \<and> same_view t st L st' L' \<and> tview st' L' t = None"
proof -
  define st1 where "st1 = (if own then lock_q q False (wake_self t st) else wake_self t st)"
  have "at_pc t (SndWait q ty bs flg own) (wake_self t st) = wake_self t st" by (rule at_pc_triv) (simp add: wake_self_def pc)
  then have k: "laid (at_pc t (SndWait q ty bs flg own) (wake_self t st)) L" using ok by (simp add: wake_self_def)
  have ok1: "laid (at_pc t (MOut (Inl EINVAL)) st1) L"
  proof (cases own)
    case True
    then show ?thesis unfolding st1_def using unlock_move k by simp
  next
    case False
    then show ?thesis using plain_move [OF k] by (simp add: st1_def)
  qed
  have v: "same_view t st1 L st' L' = same_view t st L st' L'" for st' L' by (simp add: st1_def)
  note F = mfail_ok [OF ok1 plain_simps(1), unfolded v]
  show ?thesis
  proof (cases "intr \<or> msg_qbytes (msqids st1 q) = 0")
    case True
    then show ?thesis using F [of EINTR] F [of EIDRM] unfolding snd_woken_def Let_def st1_def [symmetric] by (elim disjE) simp_all
  next
    case False
    then show ?thesis using snd_loop_ok [OF ok1 plain_simps(1), of q ty bs flg, unfolded v] unfolding snd_woken_def Let_def st1_def [symmetric] by simp
  qed
qed

lemma snd_undo_ok:
  assumes ok: "laid (at_pc t (SndCopy q h ty bs) st) L"
  shows "\<exists>st' L'. snd_undo t q h e st = Some st' \<and> laid st' L' \<and> same_view t st L st' L' \<and> msg_pc st' t = MOut (Inl e)"
proof -
  have own: "h < msgtql (minfo st)" "l_own L h = HThread t" using threads_okD(1) [OF laidD(3) [OF ok], of t h] by (simp_all add: carries_def)
  have "heap_ok st L" using laidD(1) [OF ok] by simp
  from msg_freehdr_ok [OF this, of h] obtain st1 L1 where s1: "msg_freehdr h st = Some st1" "heap_ok st1 L1" "l_own L1 h = HFree" "hdr_frame h st L st1 L1" using own by (auto simp: used_def)
  have "laid (at_pc t (SndWait q ty bs 0 True) st1) L1"
    by (rule laid_frame [OF ok s1(2,4) own(1)]) (use own s1(3) in \<open>simp_all add: pc_simps\<close>)
  then have "laid (at_pc t (MOut (Inl e)) (lock_q q False st1)) L1" by (rule unlock_move)
  moreover have "same_view t st L st1 L1" using frame_same_view [OF ok s1(4)] own by simp
  ultimately show ?thesis using s1(1) by (intro exI [of _ "mfail t e (mwakeup q (lock_q q False st1))"] exI [of _ L1]) (simp add: snd_undo_def mfail_def)
qed

text \<open>Only links of headers change, and who has them.\<close>

lemma heap_ok_next:
  assumes ok: "heap_ok st L" and f: "minfo st' = minfo st" "msgmaps st' = msgmaps st" "free_msgmaps st' = free_msgmaps st" "nfree_msgmaps st' = nfree_msgmaps st" "free_msghdrs st' = free_msghdrs st"
    and h: "\<And>k. msg_spot (msghdrs st' k) = msg_spot (msghdrs st k) \<and> msg_ts (msghdrs st' k) = msg_ts (msghdrs st k)"
    and n: "\<And>k. l_own L k = HFree \<Longrightarrow> msg_next (msghdrs st' k) = msg_next (msghdrs st k)"
    and l: "l_fs L' = l_fs L" "l_sg L' = l_sg L" "l_fh L' = l_fh L" and o: "\<And>k. l_own L' k = HFree \<longleftrightarrow> l_own L k = HFree"
  shows "heap_ok st' L'"
proof -
  note H = heap_okD [OF ok]
  have u: "used st' L' = used st L" by (simp add: used_def f o)
  have "segs_ok st' (used st L) (l_fs L) (l_sg L)" by (rule segs_ok_cong [OF H(2)]) (simp_all add: f h)
  moreover have "lpath Some (nexts st') (free_msghdrs st) (l_fh L) None = lpath Some (nexts st) (free_msghdrs st) (l_fh L) None"
    by (rule lpath_cong) (use H(5) n in blast)
  ultimately show ?thesis unfolding heap_ok_def u l f o using H h by simp
qed

lemma mview_next:
  assumes "\<And>k. msg_type (msghdrs st' k) = msg_type (msghdrs st k) \<and> msg_ts (msghdrs st' k) = msg_ts (msghdrs st k)" "minfo st' = minfo st" "msgpool st' = msgpool st" "l_sg L' = l_sg L"
  shows "mview st' L' = mview st L"
  by (rule ext) (simp add: mview_def assms(1,4) seg_data_pool [OF assms(3,2)])

lemma sum_list_ts_cong: "(\<And>k. k \<in> set hs \<Longrightarrow> msg_ts (msghdrs st' k) = msg_ts (msghdrs st k)) \<Longrightarrow> sum_list (map (\<lambda>k. msg_ts (msghdrs st' k)) hs) = sum_list (map (\<lambda>k. msg_ts (msghdrs st k)) hs)"
  by (intro arg_cong [of _ _ sum_list]) simp

text \<open>A message goes to the end of the queue.\<close>

lemma enqueue_ok:
  assumes hp: "heap_ok st L" and qs: "queues_ok st L" and h: "h < msgtql (minfo st)" "l_own L h = HThread t" and q: "msg_qbytes (msqids st q) \<noteq> 0"
    and ty: "1 \<le> msg_type (msghdrs st h)" and fit: "msg_ts (msghdrs st h) + msg_cbytes (msqids st q) \<le> msgmnb (minfo st)"
    and L': "L' = L\<lparr>l_q := (l_q L)(q := l_q L q @ [h]), l_own := (l_own L)(h := HQueued q)\<rparr>"
  shows "\<exists>st'. enqueue q h pid st = Some st' \<and> heap_ok st' L' \<and> queues_ok st' L' \<and> minfo st' = minfo st \<and> msg_pc st' = msg_pc st \<and> mview st' L' = mview st L
    \<and> (\<forall>r. r \<noteq> q \<longrightarrow> msqids st' r = msqids st r) \<and> (\<forall>k. msg_ts (msghdrs st' k) = msg_ts (msghdrs st k)) \<and> (\<forall>r. ds_locked (msqids st' r) = ds_locked (msqids st r))"
proof -
  note Q = queues_okD [OF qs]
  define hs where "hs = l_q L q"
  note K = queue_okD [OF Q(3) [OF q], folded hs_def]
  have nh: "h \<notin> set hs" using Q(1) [of h q] h by (simp add: hs_def)
  have path: "(msg_first (msqids st q) = None) = (hs = [])" using K(1) by (cases hs) auto
  define st1 where "st1 = (if hs = [] then st else set_hdr (last hs) ((msghdrs st (last hs))\<lparr>msg_next := Some h\<rparr>) st)"
  define st2 where "st2 = set_hdr h ((msghdrs st1 h)\<lparr>msg_next := None\<rparr>) st1"
  define ds where "ds = (msqids st q)\<lparr>msg_first := (if hs = [] then Some h else msg_first (msqids st q)), msg_last := Some h, msg_cbytes := msg_cbytes (msqids st q) + msg_ts (msghdrs st h),
      msg_qnum := msg_qnum (msqids st q) + 1, msg_lspid := pid\<rparr>"
  define st' where "st' = set_ds q ds st2"
  have h1: "msghdrs st1 h = msghdrs st h" using nh by (auto simp: st1_def set_hdr_def)
  have e: "enqueue q h pid st = Some st'"
    unfolding enqueue_def Let_def path using K(2) h1 by (cases "hs = []") (simp_all add: st'_def st2_def st1_def ds_def)
  have f: "minfo st' = minfo st" "msgmaps st' = msgmaps st" "free_msgmaps st' = free_msgmaps st" "nfree_msgmaps st' = nfree_msgmaps st" "free_msghdrs st' = free_msghdrs st" "msgpool st' = msgpool st"
    "msg_pc st' = msg_pc st" "msqids st' = (msqids st)(q := ds)" by (simp_all add: st'_def st2_def st1_def set_hdr_def set_ds_def)
  have hd: "msg_spot (msghdrs st' k) = msg_spot (msghdrs st k)" "msg_ts (msghdrs st' k) = msg_ts (msghdrs st k)" "msg_type (msghdrs st' k) = msg_type (msghdrs st k)" for k
    by (simp_all add: st'_def st2_def st1_def set_hdr_def set_ds_def)
  have other: "msghdrs st' k = msghdrs st k" if "k \<noteq> h" "hs = [] \<or> k \<noteq> last hs" for k using that by (auto simp: st'_def st2_def st1_def set_hdr_def set_ds_def)
  have nxt: "nexts st' = (if hs = [] then (nexts st)(h := None) else (nexts st)(last hs := Some h, h := None))"
    by (auto simp: st'_def st2_def st1_def set_hdr_def set_ds_def)
  have l: "l_fs L' = l_fs L" "l_sg L' = l_sg L" "l_fh L' = l_fh L" "l_q L' = (l_q L)(q := hs @ [h])" "l_own L' = (l_own L)(h := HQueued q)" by (simp_all add: L' hs_def)
  have lst: "l_own L (last hs) = HQueued q" if "hs \<noteq> []" using Q(1) [of "last hs" q] that by (simp add: hs_def)
  have "heap_ok st' L'"
    by (rule heap_ok_next [OF hp]) (use f hd l h(2) lst in \<open>auto intro!: arg_cong [of _ _ msg_next] other\<close>)
  moreover have "queues_ok st' L'"
    unfolding queues_ok_def
  proof (intro conjI allI impI ballI)
    fix r k show "k \<in> set (l_q L' r) \<longleftrightarrow> k < msgtql (minfo st') \<and> l_own L' k = HQueued r"
      using Q(1) [of k r] h by (cases "k = h"; cases "r = q") (auto simp: l f hs_def)
  next
    fix r assume "msg_qbytes (msqids st' r) = 0"
    then have "r \<noteq> q" "msg_qbytes (msqids st r) = 0" using q by (auto simp: f ds_def split: if_splits)
    then show "l_q L' r = []" using Q(2) by (simp add: l)
  next
    fix r assume a: "msg_qbytes (msqids st' r) \<noteq> 0"
    show "queue_ok st' r (l_q L' r)"
    proof (cases "r = q")
      case True
      have "lpath Some (nexts st') (msg_first ds) (hs @ [h]) None"
        using hdl.path_snoc [OF K(1) _ nh] by (cases "hs = []") (simp_all add: nxt ds_def)
      then show ?thesis using K fit by (simp add: True queue_ok_def Let_def f l ds_def hd)
    next
      case False
      have r: "queue_ok st r (l_q L r)" using Q(3) [of r] a False by (simp add: f)
      have s: "msghdrs st' k = msghdrs st k" if "k \<in> set (l_q L r)" for k
        by (rule other) (use that Q(1) [of k r] h(2) lst False in auto)
      have "queue_ok st' r (l_q L r)" by (rule queue_ok_cong [OF r s]) (use False queue_okD(6) [OF r] in \<open>simp_all add: f\<close>)
      then show ?thesis using False by (simp add: l)
    qed
  next
    fix r k assume "k \<in> set (l_q L' r)"
    then have "k \<in> set (l_q L r) \<or> k = h" by (auto simp: l hs_def split: if_splits)
    then show "1 \<le> msg_type (msghdrs st' k)" unfolding hd using Q(4) ty by blast
  qed
  moreover have "mview st' L' = mview st L" by (rule mview_next) (simp_all add: hd f l)
  moreover have "ds_locked (msqids st' r) = ds_locked (msqids st r)" for r by (simp add: f ds_def ds_locked_def)
  ultimately show ?thesis using e f hd by (intro exI [of _ st']) simp
qed

lemma hdr_frame_trans:
  assumes "hdr_frame h st L st1 L1" "hdr_frame h st1 L1 st2 L2"
  shows "hdr_frame h st L st2 L2"
proof -
  note A = hdr_frameD [OF assms(1)] and B = hdr_frameD [OF assms(2)]
  have "mview st2 L2 k = mview st L k" if "k \<in> used st L" "k \<noteq> h" for k
  proof -
    have "k \<in> used st1 L1" using used_frame [OF assms(1) that(2)] that(1) by simp
    then show ?thesis using A(8) [OF that] B(8) that(2) by simp
  qed
  then show ?thesis unfolding hdr_frame_def using A B by simp
qed

lemma set_type_ok:
  assumes ok: "heap_ok st L" and st': "st' = set_hdr h ((msghdrs st h)\<lparr>msg_type := ty\<rparr>) st"
  shows "heap_ok st' L" "hdr_frame h st L st' L" "msghdrs st' h = (msghdrs st h)\<lparr>msg_type := ty\<rparr>"
proof -
  have f: "minfo st' = minfo st" "msgmaps st' = msgmaps st" "free_msgmaps st' = free_msgmaps st" "nfree_msgmaps st' = nfree_msgmaps st" "free_msghdrs st' = free_msghdrs st" "msgpool st' = msgpool st"
    "msg_pc st' = msg_pc st" "msqids st' = msqids st" "msg_chan st' = msg_chan st" by (simp_all add: st' set_hdr_def)
  show "heap_ok st' L" by (rule heap_ok_next [OF ok]) (simp_all add: f, simp_all add: st' set_hdr_def)
  have "mview st' L k = mview st L k" if "k \<noteq> h" for k using that by (simp add: mview_def seg_data_pool [OF f(6,1)]) (simp add: st' set_hdr_def)
  then show "hdr_frame h st L st' L" by (simp add: hdr_frame_def f) (simp add: st' set_hdr_def)
  show "msghdrs st' h = (msghdrs st h)\<lparr>msg_type := ty\<rparr>" by (simp add: st' set_hdr_def)
qed

lemma unlock_copy:
  assumes ok: "laid (at_pc t (SndCopy q h ty bs) st) L"
  shows "laid (at_pc t (RcvCopy q h 0) (lock_q q False st)) L"
proof -
  note T = threads_okD [OF laidD(3) [OF ok]]
  show ?thesis
  proof (rule relock [OF ok])
    fix u r' assume a: "u \<noteq> t" "locks_q (msg_pc st u) = Some r'"
    have "r' \<noteq> q"
    proof
      assume "r' = q"
      then have "u = t" using a by (intro T(3) [of u q t]) (simp_all add: locks_q_def)
      then show False using a(1) by simp
    qed
    then show "ds_locked (msqids (lock_q q False st) r') \<and> locks_q (RcvCopy q h 0) \<noteq> Some r'" using T(2) [of u r'] a by (simp add: ds_locked_lock_q locks_q_def)
  qed (use laidD(1,2) [OF ok] in \<open>simp_all add: pc_simps\<close>)
qed

lemma rcv_free_ok:
  assumes ok: "laid (at_pc t (RcvCopy q h n) st) L"
  shows "\<exists>st' L'. msg_freehdr h st = Some st' \<and> laid (at_pc t (MOut r) st') L' \<and> same_view t st L st' L'"
proof -
  have own: "h < msgtql (minfo st)" "l_own L h = HThread t" using threads_okD(1) [OF laidD(3) [OF ok], of t h] by (simp_all add: carries_def)
  have "heap_ok st L" using laidD(1) [OF ok] by simp
  from msg_freehdr_ok [OF this, of h] obtain st1 L1 where s1: "msg_freehdr h st = Some st1" "heap_ok st1 L1" "l_own L1 h = HFree" "hdr_frame h st L st1 L1" using own by (auto simp: used_def)
  have "laid (at_pc t (MOut r) st1) L1"
    by (rule laid_frame [OF ok s1(2,4) own(1)]) (use own s1(3) in \<open>simp_all add: pc_simps\<close>)
  moreover have "same_view t st L st1 L1" using frame_same_view [OF ok s1(4)] own by simp
  ultimately show ?thesis using s1(1) by blast
qed

text \<open>The message a thread has copied in goes to the queue that it keeps locked.\<close>

lemma snd_done_ok:
  assumes ok: "laid (at_pc t (SndCopy q h ty bs) st) L" and ty: "1 \<le> msg_type (msghdrs st h)" and q: "msg_qbytes (msqids st q) \<noteq> 0" and v: "mview st L h = m"
  shows "\<exists>st' L'. enqueue q h pid (lock_q q False st) = Some st' \<and> laid (at_pc t (MOut r) st') L' \<and> qview st' L' = (qview st L)(q := qview st L q @ [m]) \<and> (\<forall>u. u \<noteq> t \<longrightarrow> tview st' L' u = tview st L u)"
proof -
  note T = threads_okD [OF laidD(3) [OF ok]]
  define L' where "L' = L\<lparr>l_q := (l_q L)(q := l_q L q @ [h]), l_own := (l_own L)(h := HQueued q)\<rparr>"
  have own: "h < msgtql (minfo st)" "l_own L h = HThread t" using T(1) [of t h] by (simp_all add: carries_def)
  have pk: "pc_ok (at_pc t (SndCopy q h ty bs) st) (SndCopy q h ty bs)" using T(4) [of t] by simp
  from enqueue_ok [of "lock_q q False st" L h t q L' pid] obtain st' where s': "enqueue q h pid (lock_q q False st) = Some st'" "heap_ok st' L'" "queues_ok st' L'" "minfo st' = minfo st" "msg_pc st' = msg_pc st"
    "mview st' L' = mview st L" "\<And>r. r \<noteq> q \<Longrightarrow> msqids st' r = msqids (lock_q q False st) r" "\<And>k. msg_ts (msghdrs st' k) = msg_ts (msghdrs st k)" "\<And>r. ds_locked (msqids st' r) = ds_locked (msqids (lock_q q False st) r)"
    using laidD(1,2) [OF ok] own q ty pk by (auto simp: L'_def pc_ok_def)
  have "threads_ok (at_pc t (MOut r) st') L'"
  proof (rule threads_step [OF laidD(3) [OF ok], of _ t "MOut r"])
    fix k show "carries (MOut r) = Some k \<longleftrightarrow> k < msgtql (minfo (at_pc t (SndCopy q h ty bs) st)) \<and> l_own L' k = HThread t"
      using T(1) [of t k] own by (auto simp: carries_def L'_def)
  next
    fix u r' assume a: "u \<noteq> t" "locks_q (msg_pc (at_pc t (SndCopy q h ty bs) st) u) = Some r'"
    have n: "r' \<noteq> q"
    proof
      assume "r' = q"
      then have "u = t" using a by (intro T(3) [of u q t]) (simp_all add: locks_q_def)
      then show False using a(1) by simp
    qed
    have "ds_locked (msqids st r')" using T(2) [OF a(2)] by simp
    then show "ds_locked (msqids (at_pc t (MOut r) st') r') \<and> (msg_qbytes (msqids (at_pc t (MOut r) st') r') \<noteq> 0 \<longrightarrow> msg_qbytes (msqids (at_pc t (SndCopy q h ty bs) st) r') \<noteq> 0
        \<and> msg_cbytes (msqids (at_pc t (MOut r) st') r') \<le> msg_cbytes (msqids (at_pc t (SndCopy q h ty bs) st) r')) \<and> locks_q (MOut r) \<noteq> Some r'"
      using n s'(7) [OF n] s'(9) [of r'] by (simp add: ds_locked_lock_q locks_q_def)
  next
    fix k u assume "u \<noteq> t"
    then show "l_own L' k = HThread u \<longleftrightarrow> l_own L k = HThread u" using own by (auto simp: L'_def)
  qed (use s'(4,5,8) in \<open>simp_all add: pc_simps\<close>)
  then have "laid (at_pc t (MOut r) st') L'" using s'(2-4) laidD(4) [OF ok] by (simp add: laid_def)
  moreover have "qview st' L' = (qview st L)(q := qview st L q @ [m])" 
  proof
    fix r have "l_q L' r = (if r = q then l_q L q @ [h] else l_q L r)" by (simp add: L'_def)
    then show "qview st' L' r = ((qview st L)(q := qview st L q @ [m])) r" by (simp add: qview_def s'(6) v)
  qed
  moreover have "tview st' L' u = tview st L u" for u by (simp add: tview_def s'(5,6) cong: mpc.case_cong)
  ultimately show ?thesis using s'(1) by blast
qed

text \<open>All ends of the transfer into the kernel.\<close>

definition snd_views :: "nat \<Rightarrow> msg_state \<Rightarrow> layout \<Rightarrow> msg_state \<Rightarrow> layout \<Rightarrow> nat \<Rightarrow> int \<Rightarrow> u8 list \<Rightarrow> xfer \<Rightarrow> bool" where
  "snd_views t st L st' L' q ty bs x \<longleftrightarrow>
     (if x = Moved \<and> 1 \<le> ty \<and> msg_qbytes (msqids st q) \<noteq> 0
      then msg_pc st' t = MOut (Inr (0, None)) \<and> qview st' L' = (qview st L)(q := qview st L q @ [(ty, bs)]) \<and> (\<forall>u. u \<noteq> t \<longrightarrow> tview st' L' u = tview st L u)
      else same_view t st L st' L' \<and> (\<exists>e. msg_pc st' t = MOut (Inl e)))"

lemma snd_copied_ok:
  assumes ok: "laid st L" and pc: "msg_pc st t = SndCopy q h ty bs"
  shows "\<exists>st' L'. snd_copied t pid q h ty bs x st = Some st' \<and> laid st' L' \<and> snd_views t st L st' L' q ty bs x"
proof (cases "\<exists>e. x = TypeFault e")
  case True
  then obtain e where x: "x = TypeFault e" by blast
  have "laid (at_pc t (SndCopy q h ty bs) st) L" using ok pc by (simp add: at_pc_triv)
  from snd_undo_ok [OF this, of e] show ?thesis by (auto simp: snd_copied_def x snd_views_def)
next
  case False
  note T = threads_okD [OF laidD(3) [OF ok]]
  have own: "h < msgtql (minfo st)" "l_own L h = HThread t" using T(1) [of t h] by (simp_all add: carries_def pc)
  have pk: "pc_ok st (SndCopy q h ty bs)" using T(4) [of t] by (simp add: pc)
  define st1 where "st1 = set_hdr h ((msghdrs st h)\<lparr>msg_type := ty\<rparr>) st"
  note S1 = set_type_ok [OF laidD(1) [OF ok] st1_def]
  have at: "laid (at_pc t (SndCopy q h ty bs) st) L" using ok pc by (simp add: at_pc_triv)
  have step: "laid (at_pc t (SndCopy q h ty bs) st2) L \<and> same_view t st L st2 L" if "heap_ok st2 L" "hdr_frame h st L st2 L" "msg_ts (msghdrs st2 h) = msg_ts (msghdrs st h)" for st2
  proof -
    have "pc_ok st2 (SndCopy q h ty bs)" using pk that(3) hdr_frameD(1,2) [OF that(2)] by (simp add: pc_ok_def)
    then show ?thesis using laid_frame [OF at that(1,2) own(1)] frame_same_view [OF at that(2)] own by (simp add: pc_simps)
  qed
  have step1: "laid (at_pc t (SndCopy q h ty bs) st1) L" "same_view t st L st1 L" using step [of st1] S1 by simp_all
  have e: "snd_copied t pid q h ty bs x st = (if ty < 1 then snd_undo t q h EINVAL st1
             else case x of
               BodyFault k e \<Rightarrow> Option.bind (snd_body (msg_spot (msghdrs st1 h)) (take k bs) st1) (\<lambda>(next, st). snd_undo t q h e st)
             | _ \<Rightarrow> Option.bind (snd_body (msg_spot (msghdrs st1 h)) bs st1) (\<lambda>(next, st). if next \<noteq> -1 then None
                   else if msg_qbytes (msqids (lock_q q False st) q) = 0 then map_option (\<lambda>st. mfail t EIDRM (mwakeup q st)) (msg_freehdr h (lock_q q False st))
                        else map_option (\<lambda>st. at_pc t (MOut (Inr (0, None))) (mwakeup q st)) (enqueue q h pid (lock_q q False st))))"
    unfolding snd_copied_def Let_def st1_def using False by (cases x) simp_all
  have hu: "h \<in> used st1 L" using own by (simp add: used_def st1_def set_hdr_def)
  have ts: "msg_ts (msghdrs st1 h) = length bs" "msg_type (msghdrs st1 h) = ty" using pk by (simp_all add: S1(3) pc_ok_def)
  show ?thesis
  proof (cases "ty < 1")
    case True
    from snd_undo_ok [OF step1(1), of EINVAL] obtain st' L' where "snd_undo t q h EINVAL st1 = Some st'" "laid st' L'" "same_view t st1 L st' L'" "msg_pc st' t = MOut (Inl EINVAL)" by blast
    then show ?thesis using True same_view_trans [OF step1(2)] by (auto simp: e snd_views_def)
  next
    case ty: False
    show ?thesis
    proof (cases x)
      case (BodyFault k err)
      from snd_body_ok [OF S1(1) hu, of "take k bs"] obtain y st2 where s2: "snd_body (msg_spot (msghdrs st1 h)) (take k bs) st1 = Some (y, st2)" "heap_ok st2 L" "hdr_frame h st1 L st2 L" "msghdrs st2 = msghdrs st1"
        using ts by auto
      have "laid (at_pc t (SndCopy q h ty bs) st2) L \<and> same_view t st L st2 L" using step [of st2] s2 hdr_frame_trans [OF S1(2) s2(3)] S1(3) by simp
      moreover from this snd_undo_ok [of t q h ty bs st2 L err] obtain st' L' where "snd_undo t q h err st2 = Some st'" "laid st' L'" "same_view t st2 L st' L'" "msg_pc st' t = MOut (Inl err)" by blast
      moreover from calculation have "snd_copied t pid q h ty bs x st = Some st'" unfolding e unfolding BodyFault using ty s2(1) by simp
      ultimately show ?thesis using same_view_trans [of t st L st2 L st' L'] by (intro exI [of _ st'] exI [of _ L']) (simp add: snd_views_def BodyFault)
    next
      case Moved
      from snd_body_ok [OF S1(1) hu, of bs] obtain st2 where s2: "snd_body (msg_spot (msghdrs st1 h)) bs st1 = Some (-1, st2)" "heap_ok st2 L" "hdr_frame h st1 L st2 L" "msghdrs st2 = msghdrs st1" "mview st2 L h = (ty, bs)"
        using ts by auto
      have fr: "hdr_frame h st L st2 L" by (rule hdr_frame_trans [OF S1(2) s2(3)])
      have l2: "laid (at_pc t (SndCopy q h ty bs) st2) L" "same_view t st L st2 L" using step [of st2] s2 fr S1(3) by simp_all
      note q2 = hdr_frameD(1) [OF fr]
      show ?thesis
      proof (cases "msg_qbytes (msqids st q) = 0")
        case True
        from rcv_free_ok [OF unlock_copy [OF l2(1)], of "Inl EIDRM"] obtain st3 L3 where s3: "msg_freehdr h (lock_q q False st2) = Some st3" "laid (at_pc t (MOut (Inl EIDRM)) st3) L3" "same_view t st2 L st3 L3" by auto
        then show ?thesis using True ty s2(1) l2(2) q2 same_view_trans [of t st L st2 L st3 L3]
          by (intro exI [of _ "mfail t EIDRM (mwakeup q st3)"] exI [of _ L3]) (simp add: e [unfolded Moved] snd_views_def Moved mfail_def)
      next
        case False
        from snd_done_ok [OF l2(1) _ _ s2(5), of pid "Inr (0, None)"] obtain st3 L3 where s3: "enqueue q h pid (lock_q q False st2) = Some st3" "laid (at_pc t (MOut (Inr (0, None))) st3) L3"
          "qview st3 L3 = (qview st2 L)(q := qview st2 L q @ [(ty, bs)])" "\<forall>u. u \<noteq> t \<longrightarrow> tview st3 L3 u = tview st2 L u" using False ty ts s2(4) q2 by auto
        then show ?thesis using False ty s2(1) l2(2) q2
          by (intro exI [of _ "at_pc t (MOut (Inr (0, None))) (mwakeup q st3)"] exI [of _ L3]) (simp add: e [unfolded Moved] snd_views_def Moved same_view_def mwakeup_def at_pc_chan)
      qed
    qed (use False in simp)
  qed
qed

section \<open>Receiving\<close>

text \<open>The search returns the first message that matches, with the one before it.\<close>

lemma rcv_find_none: "lpath Some (nexts st) p hs None \<Longrightarrow> \<forall>h\<in>set hs. \<not> type_match msgtyp (msg_type (msghdrs st h)) \<Longrightarrow> rcv_find msgtyp prv p st = Some None"
proof (induction hs arbitrary: p prv)
  case Nil
  then show ?case by (subst rcv_find.simps) simp
next
  case (Cons h hs)
  then show ?case by (subst rcv_find.simps) simp
qed

lemma rcv_find_some:
  "lpath Some (nexts st) p (xs @ h # ys) None \<Longrightarrow> \<forall>k\<in>set xs. \<not> type_match msgtyp (msg_type (msghdrs st k)) \<Longrightarrow> type_match msgtyp (msg_type (msghdrs st h)) \<Longrightarrow>
    rcv_find msgtyp prv p st = Some (Some (if xs = [] then prv else Some (last xs), h))"
proof (induction xs arbitrary: p prv)
  case Nil
  then show ?case by (subst rcv_find.simps) simp
next
  case (Cons x xs)
  then show ?case by (subst rcv_find.simps) simp
qed

text \<open>The queue without the header \<open>h\<close>, which is between \<open>xs\<close> and \<open>ys\<close>.\<close>

definition unlinked :: "nat \<Rightarrow> nat list \<Rightarrow> nat \<Rightarrow> nat list \<Rightarrow> msg_state \<Rightarrow> msg_state" where
  "unlinked q xs h ys st =
     set_ds q ((msqids st q)\<lparr>msg_first := (if xs = [] then msg_next (msghdrs st h) else msg_first (msqids st q)),
         msg_last := (if ys = [] then if xs = [] then None else Some (last xs) else msg_last (msqids st q))\<rparr>)
       (if xs = [] then st else set_hdr (last xs) ((msghdrs st (last xs))\<lparr>msg_next := msg_next (msghdrs st h)\<rparr>) st)"

lemma unlink_first_eq:
  assumes ok: "queue_ok st q (h # ys)"
  shows "unlink_first q h st = Some (unlinked q [] h ys st)"
proof -
  note K = queue_okD [OF ok]
  have d: "distinct (h # ys)" by (rule hdl.path_distinct [OF K(1)])
  have n: "msg_next (msghdrs st h) = (case ys of [] \<Rightarrow> None | y # _ \<Rightarrow> Some y)" using K(1) by (cases ys) auto
  show ?thesis
  proof (cases ys)
    case Nil
    then show ?thesis using K(1,2) n by (simp add: unlink_first_def unlinked_def Let_def)
  next
    case (Cons y zs)
    have "msg_first (msqids st q) \<noteq> msg_last (msqids st q)" using K(1,2) d by (auto simp: Cons)
    then show ?thesis using n by (simp add: unlink_first_def unlinked_def Let_def Cons)
  qed
qed

lemma unlink_at_eq:
  assumes ok: "queue_ok st q (xs @ h # ys)"
  shows "unlink_at q (if xs = [] then None else Some (last xs)) h st = unlinked q xs h ys st"
proof -
  note K = queue_okD [OF ok]
  have d: "distinct (xs @ h # ys)" by (rule hdl.path_distinct [OF K(1)])
  have n: "msg_next (msghdrs st h) = (case ys of [] \<Rightarrow> None | y # _ \<Rightarrow> Some y)" using K(1) by (cases ys) (auto simp: lpath_middle)
  have l: "msg_last (msqids st q) = Some h \<longleftrightarrow> ys = []" using K(2) d by (cases ys rule: rev_cases) auto
  show ?thesis
  proof (cases "ys = []")
    case True
    then show ?thesis using l n by (cases "xs = []") (simp_all add: unlink_at_def unlinked_def Let_def set_ds_def set_hdr_def)
  next
    case False
    then show ?thesis using l by (cases "xs = []") (simp_all add: unlink_at_def unlinked_def Let_def set_ds_def set_hdr_def)
  qed
qed

lemma ulong_sub_exact:
  assumes "b \<le> a" "a < 2 ^ 64"
  shows "ulong_sub a b = a - b"
proof -
  have "(int a - int b) mod 2 ^ 64 = int a - int b" using assms by (intro mod_pos_pos_trivial) simp_all
  then show ?thesis by (simp add: ulong_sub_def nat_diff_distrib)
qed

text \<open>A message is taken out of the queue by the thread \<open>t\<close>.\<close>

lemma rcv_take_ok:
  assumes ok: "laid (at_pc t pc0 st) L" and p: "plain pc0" and q: "msg_qbytes (msqids st q) \<noteq> 0" and hs: "l_q L q = xs @ h # ys"
  shows "\<exists>L'. laid (rcv_take t pid q h n (unlinked q xs h ys st)) L' \<and> qview (rcv_take t pid q h n (unlinked q xs h ys st)) L' = (qview st L)(q := map (mview st L) (xs @ ys))
    \<and> (\<forall>u. u \<noteq> t \<longrightarrow> tview (rcv_take t pid q h n (unlinked q xs h ys st)) L' u = tview st L u) \<and> tview (rcv_take t pid q h n (unlinked q xs h ys st)) L' t = Some (mview st L h)"
proof -
  note T = threads_okD [OF laidD(3) [OF ok]]
  have qs: "queues_ok st L" and hp: "heap_ok st L" using laidD(1,2) [OF ok] by simp_all
  note Q = queues_okD [OF qs]
  have qok: "queue_ok st q (xs @ h # ys)" using Q(3) [OF q] by (simp add: hs)
  note K = queue_okD [OF qok]
  have d: "distinct (xs @ h # ys)" by (rule hdl.path_distinct [OF K(1)])
  have own: "h < msgtql (minfo st)" "l_own L h = HQueued q" "\<And>k. k \<in> set xs \<union> set ys \<Longrightarrow> k < msgtql (minfo st) \<and> l_own L k = HQueued q" using Q(1) [of h q] Q(1) [of _ q] unfolding hs by auto
  define st1 where "st1 = unlinked q xs h ys st"
  define st' where "st' = rcv_take t pid q h n st1"
  define L' where "L' = L\<lparr>l_q := (l_q L)(q := xs @ ys), l_own := (l_own L)(h := HThread t)\<rparr>"
  have l: "l_fs L' = l_fs L" "l_sg L' = l_sg L" "l_fh L' = l_fh L" "l_q L' = (l_q L)(q := xs @ ys)" "l_own L' = (l_own L)(h := HThread t)" by (simp_all add: L'_def)
  have f1: "minfo st1 = minfo st" "msgmaps st1 = msgmaps st" "free_msgmaps st1 = free_msgmaps st" "nfree_msgmaps st1 = nfree_msgmaps st" "free_msghdrs st1 = free_msghdrs st" "msgpool st1 = msgpool st"
    "msg_pc st1 = msg_pc st" "\<And>k. msg_spot (msghdrs st1 k) = msg_spot (msghdrs st k) \<and> msg_ts (msghdrs st1 k) = msg_ts (msghdrs st k) \<and> msg_type (msghdrs st1 k) = msg_type (msghdrs st k)"
    "\<And>r. r \<noteq> q \<Longrightarrow> msqids st1 r = msqids st r" "nexts st1 = (if xs = [] then nexts st else (nexts st)(last xs := msg_next (msghdrs st h)))"
    "msqids st1 q = (msqids st q)\<lparr>msg_first := (if xs = [] then msg_next (msghdrs st h) else msg_first (msqids st q)),
         msg_last := (if ys = [] then if xs = [] then None else Some (last xs) else msg_last (msqids st q))\<rparr>"
    "\<And>k. xs = [] \<or> k \<noteq> last xs \<Longrightarrow> msghdrs st1 k = msghdrs st k"
    by (auto simp: st1_def unlinked_def set_ds_def set_hdr_def)
  have f: "minfo st' = minfo st" "msgmaps st' = msgmaps st" "free_msgmaps st' = free_msgmaps st" "nfree_msgmaps st' = nfree_msgmaps st" "free_msghdrs st' = free_msghdrs st" "msgpool st' = msgpool st"
    "msg_pc st' = (msg_pc st)(t := RcvCopy q h (min n (msg_ts (msghdrs st h))))" "msghdrs st' = msghdrs st1" "\<And>r. r \<noteq> q \<Longrightarrow> msqids st' r = msqids st r" "\<And>r. ds_locked (msqids st' r) = ds_locked (msqids st r)"
  proof -
    show "ds_locked (msqids st' r) = ds_locked (msqids st r)" for r
      using f1(9) [of r] by (cases "r = q") (simp_all add: st'_def rcv_take_def Let_def set_ds_def at_pc_def ds_locked_def f1(11))
  qed (simp_all add: st'_def rcv_take_def Let_def set_ds_def at_pc_def f1(1-9))
  have len: "length (xs @ h # ys) \<le> msgtql (minfo st)"
  proof -
    have "set (xs @ h # ys) \<subseteq> {..<msgtql (minfo st)}" using own by auto
    then have "card (set (xs @ h # ys)) \<le> card {..<msgtql (minfo st)}" by (rule card_mono [OF finite_lessThan])
    then have "card (set (xs @ h # ys)) \<le> msgtql (minfo st)" by (simp only: card_lessThan)
    then show ?thesis by (simp only: distinct_card [OF d])
  qed
  have lim: "msgmnb (minfo st) < 2 ^ 16" "msgtql (minfo st) < 2 ^ 31" using laidD(4) [OF ok] by (simp_all add: msg_limits_def)
  let ?sum = "\<lambda>l. sum_list (map (\<lambda>k. msg_ts (msghdrs st k)) l)"
  have cq: "msg_cbytes (msqids st' q) = ?sum (xs @ ys)" "msg_qnum (msqids st' q) = length (xs @ ys)" "msg_qbytes (msqids st' q) = msg_qbytes (msqids st q)"
      "msg_first (msqids st' q) = msg_first (msqids st1 q)" "msg_last (msqids st' q) = msg_last (msqids st1 q)"
    using ulong_sub_exact [of "msg_ts (msghdrs st h)" "msg_cbytes (msqids st q)"] ulong_sub_exact [of 1 "msg_qnum (msqids st q)"] K(3-5) len lim
    by (simp_all add: st'_def rcv_take_def Let_def set_ds_def at_pc_def f1)
  have lst: "xs \<noteq> [] \<Longrightarrow> l_own L (last xs) = HQueued q" using own(3) [of "last xs"] by simp
  have "heap_ok st' L'"
  proof (rule heap_ok_next [OF hp])
    fix k assume "l_own L k = HFree"
    then have "msghdrs st1 k = msghdrs st k" using lst by (intro f1(12)) auto
    then show "msg_next (msghdrs st' k) = msg_next (msghdrs st k)" by (simp add: f(8))
  qed (use f(1-5) f1(8) l own(2) in \<open>simp_all add: f(8)\<close>)
  moreover have "queues_ok st' L'"
    unfolding queues_ok_def
  proof (intro conjI allI impI ballI)
    fix r k show "k \<in> set (l_q L' r) \<longleftrightarrow> k < msgtql (minfo st') \<and> l_own L' k = HQueued r"
    proof (cases "r = q")
      case True
      have "k \<in> set (xs @ ys) \<longleftrightarrow> k \<noteq> h \<and> k \<in> set (l_q L q)" unfolding hs using d by auto
      then show ?thesis unfolding True f(1) l(4,5) Q(1) by simp
    next
      case False
      then show ?thesis using Q(1) [of k r] own(2) by (simp add: f(1) l(4,5))
    qed
  next
    fix r assume "msg_qbytes (msqids st' r) = 0"
    then have "r \<noteq> q" "msg_qbytes (msqids st r) = 0" using q cq(3) f(9) [of r] by (cases "r = q"; simp)+
    then show "l_q L' r = []" using Q(2) by (simp add: l)
  next
    fix r assume a: "msg_qbytes (msqids st' r) \<noteq> 0"
    show "queue_ok st' r (l_q L' r)"
    proof (cases "r = q")
      case True
      have "lpath Some (nexts st1) (msg_first (msqids st1 q)) (xs @ ys) None"
        using K(1) hdl.path_remove [OF K(1)] by (cases "xs = []") (simp_all add: f1)
      moreover have "msg_last (msqids st1 q) = (if xs @ ys = [] then None else Some (last (xs @ ys)))" using K(2) by (simp add: f1)
      moreover have "msg_cbytes (msqids st' q) \<le> msgmnb (minfo st)" using K(3,5) cq(1) by simp
      moreover have "sum_list (map (\<lambda>k. msg_ts (msghdrs st1 k)) (xs @ ys)) = ?sum (xs @ ys)" using f1(8) by (intro sum_list_ts_cong) simp
      ultimately show ?thesis using cq K(6) by (simp add: True queue_ok_def Let_def f(1,8) l)
    next
      case False
      have r: "queue_ok st r (l_q L r)" using Q(3) [of r] a False by (simp add: f(9))
      have s: "msghdrs st' k = msghdrs st k" if "k \<in> set (l_q L r)" for k
        unfolding f(8) by (rule f1(12)) (use that Q(1) [of k r] lst False in auto)
      have "queue_ok st' r (l_q L r)" by (rule queue_ok_cong [OF r s]) (use False queue_okD(6) [OF r] in \<open>simp_all add: f(1,9)\<close>)
      then show ?thesis using False by (simp add: l)
    qed
  next
    fix r k assume "k \<in> set (l_q L' r)"
    then have "k \<in> set (l_q L r)" by (auto simp: l hs split: if_splits)
    then show "1 \<le> msg_type (msghdrs st' k)" unfolding f(8) using Q(4) f1(8) by simp
  qed
  moreover have "threads_ok st' L'"
  proof (rule threads_step [OF laidD(3) [OF ok], of st' t "RcvCopy q h (min n (msg_ts (msghdrs st h)))"])
    fix k
    have "\<not> (k < msgtql (minfo st) \<and> l_own L k = HThread t)" using T(1) [of t k] p by (simp add: plain_def)
    then show "carries (RcvCopy q h (min n (msg_ts (msghdrs st h)))) = Some k \<longleftrightarrow> k < msgtql (minfo (at_pc t pc0 st)) \<and> l_own L' k = HThread t" using own(1) by (auto simp: carries_def l)
  next
    fix k u assume "u \<noteq> t"
    then show "l_own L' k = HThread u \<longleftrightarrow> l_own L k = HThread u" using own(2) by (auto simp: l)
  next
    fix u r assume a: "u \<noteq> t" "locks_q (msg_pc (at_pc t pc0 st) u) = Some r"
    have "msg_qbytes (msqids st' r) = msg_qbytes (msqids st r)" "msg_cbytes (msqids st' r) \<le> msg_cbytes (msqids st r)" using cq(1,3) K(3) f(9) by (cases "r = q"; simp)+
    then show "ds_locked (msqids st' r) \<and> (msg_qbytes (msqids st' r) \<noteq> 0 \<longrightarrow> msg_qbytes (msqids (at_pc t pc0 st) r) \<noteq> 0 \<and> msg_cbytes (msqids st' r) \<le> msg_cbytes (msqids (at_pc t pc0 st) r))
        \<and> locks_q (RcvCopy q h (min n (msg_ts (msghdrs st h)))) \<noteq> Some r" using T(2) [OF a(2)] by (simp add: f(10) locks_q_def)
  qed (use f1(8) in \<open>simp_all add: f(1,7,8) pc_simps\<close>)
  ultimately have "laid st' L'" using laidD(4) [OF ok] f(1) by (simp add: laid_def)
  moreover have mv: "mview st' L' = mview st L" by (rule mview_next) (use f1(8) in \<open>simp_all add: f l\<close>)
  moreover have "qview st' L' = (qview st L)(q := map (mview st L) (xs @ ys))" by (rule ext) (simp add: qview_def mv l)
  moreover have "tview st' L' u = tview st L u" if "u \<noteq> t" for u using that by (simp add: tview_def f(7) mv cong: mpc.case_cong)
  moreover have "tview st' L' t = Some (mview st L h)" by (simp add: tview_def f(7) mv)
  ultimately show ?thesis unfolding st'_def st1_def by blast
qed

text \<open>What a search for a message does: the first one of a wanted type is taken off the queue, unless it is too long.\<close>

definition rcv_match :: "int \<Rightarrow> int \<times> u8 list \<Rightarrow> bool" where
  "rcv_match msgtyp m \<longleftrightarrow> msgtyp = 0 \<or> type_match msgtyp (fst m)"

definition rcv_views :: "nat \<Rightarrow> msg_state \<Rightarrow> layout \<Rightarrow> msg_state \<Rightarrow> layout \<Rightarrow> nat \<Rightarrow> nat \<Rightarrow> int \<Rightarrow> u32 \<Rightarrow> bool" where
  "rcv_views t st L st' L' q msgsz msgtyp flg =
     (case List.extract (rcv_match msgtyp) (qview st L q) of
        None \<Rightarrow> same_view t st L st' L' \<and> (if flg AND ucast IPC_NOWAIT \<noteq> 0 then msg_pc st' t = MOut (Inl ENOMSG) else \<exists>i. msg_pc st' t = RcvWait q i msgsz msgtyp flg)
      | Some (xs, m, ys) \<Rightarrow>
          if msgsz < length (snd m) \<and> flg AND MSG_NOERROR = 0 then same_view t st L st' L' \<and> msg_pc st' t = MOut (Inl E2BIG)
          else qview st' L' = (qview st L)(q := xs @ ys) \<and> (\<forall>u. u \<noteq> t \<longrightarrow> tview st' L' u = tview st L u) \<and> tview st' L' t = Some m
             \<and> (\<exists>h. msg_pc st' t = RcvCopy q h (min msgsz (length (snd m)))))"

lemma mview_length: "heap_ok st L \<Longrightarrow> h \<in> used st L \<Longrightarrow> length (snd (mview st L h)) = msg_ts (msghdrs st h)"
  using segs_needed_le [OF heap_okD(1), of st L "msg_ts (msghdrs st h)"] heap_okD(3) [of st L h] by (simp add: mview_def length_seg_data min_def)

lemma fst_mview [simp]: "fst (mview st L h) = msg_type (msghdrs st h)"
  by (simp add: mview_def)

lemma rcv_search_none:
  assumes "queue_ok st q hs" "\<And>m. m \<in> set (map (mview st L) hs) \<Longrightarrow> \<not> rcv_match msgtyp m"
  shows "(if msgtyp = 0 then Some (map_option (\<lambda>h. (None, h)) (msg_first (msqids st q))) else rcv_find msgtyp None (msg_first (msqids st q)) st) = Some None"
proof (cases "msgtyp = 0")
  case True
  then have "hs = []" using assms(2) [of "mview st L (hd hs)"] by (cases hs) (simp_all add: rcv_match_def)
  then show ?thesis using queue_okD(1) [OF assms(1)] True by simp
next
  case False
  have "\<not> type_match msgtyp (msg_type (msghdrs st k))" if "k \<in> set hs" for k using assms(2) [of "mview st L k"] that False by (simp add: rcv_match_def)
  then have "rcv_find msgtyp None (msg_first (msqids st q)) st = Some None" by (intro rcv_find_none [OF queue_okD(1) [OF assms(1)]]) blast
  then show ?thesis using False by simp
qed

lemma rcv_search_some:
  assumes "queue_ok st q (xs @ h # ys)" "\<And>m. m \<in> set (map (mview st L) xs) \<Longrightarrow> \<not> rcv_match msgtyp m" "rcv_match msgtyp (mview st L h)"
  shows "(if msgtyp = 0 then Some (map_option (\<lambda>h. (None, h)) (msg_first (msqids st q))) else rcv_find msgtyp None (msg_first (msqids st q)) st)
     = Some (Some (if xs = [] then None else Some (last xs), h)) \<and> (msgtyp = 0 \<longrightarrow> xs = [])"
proof (cases "msgtyp = 0")
  case True
  then have "xs = []" using assms(2) [of "mview st L (hd xs)"] by (cases xs) (simp_all add: rcv_match_def)
  then show ?thesis using queue_okD(1) [OF assms(1)] True by simp
next
  case False
  have "\<not> type_match msgtyp (msg_type (msghdrs st k))" if "k \<in> set xs" for k using assms(2) [of "mview st L k"] that False by (simp add: rcv_match_def)
  then have "rcv_find msgtyp None (msg_first (msqids st q)) st = Some (Some (if xs = [] then None else Some (last xs), h))"
    using assms(3) False by (intro rcv_find_some [OF queue_okD(1) [OF assms(1)]]) (simp_all add: rcv_match_def)
  then show ?thesis using False by simp
qed

lemma rcv_loop_ok:
  assumes ok: "laid (at_pc t pc0 st) L" and p: "plain pc0" and q: "msg_qbytes (msqids st q) \<noteq> 0"
  shows "\<exists>st' L'. rcv_loop t pid q msqid msgsz msgtyp flg st = Some st' \<and> laid st' L' \<and> rcv_views t st L st' L' q msgsz msgtyp flg"
proof -
  have qs: "queues_ok st L" and hp: "heap_ok st L" using laidD(1,2) [OF ok] by simp_all
  note qok = queues_okD(3) [OF qs q]
  have mv: "laid (at_pc t pc' st) L" if "plain pc'" for pc' using plain_move [OF ok p that] .
  show ?thesis
  proof (cases "List.extract (rcv_match msgtyp) (qview st L q)")
    case None
    then have n: "\<not> rcv_match msgtyp m" if "m \<in> set (map (mview st L) (l_q L q))" for m using that by (auto simp: extract_None_iff qview_def)
    define st' where "st' = (if flg AND ucast IPC_NOWAIT \<noteq> 0 then mfail t ENOMSG st else msleep t q (RcvWait q msqid msgsz msgtyp flg) st)"
    have "rcv_loop t pid q msqid msgsz msgtyp flg st = Some st'"
    proof -
      have "(if msgtyp = 0 then Some (map_option (\<lambda>h. (None, h)) (msg_first (msqids st q))) else rcv_find msgtyp None (msg_first (msqids st q)) st) = Some None"
        by (rule rcv_search_none [OF qok]) (use n in blast)
      then show ?thesis unfolding rcv_loop_def by (simp only: bind.simps option.case st'_def split: if_split) simp
    qed
    moreover have "laid st' L \<and> rcv_views t st L st' L q msgsz msgtyp flg" using mv by (simp add: rcv_views_def None st'_def mfail_def)
    ultimately show ?thesis by blast
  next
    case (Some r)
    obtain vs m ws where r: "r = (vs, m, ws)" by (cases r)
    have ex: "qview st L q = vs @ m # ws" "rcv_match msgtyp m" "\<And>v. v \<in> set vs \<Longrightarrow> \<not> rcv_match msgtyp v" using Some by (auto simp: extract_Some_iff r)
    then obtain xs h ys where hs: "l_q L q = xs @ h # ys" and e: "vs = map (mview st L) xs" "m = mview st L h" "ws = map (mview st L) ys"
      by (auto simp: qview_def map_eq_append_conv map_eq_Cons_conv)
    note qk = qok [unfolded hs]
    have sr: "(if msgtyp = 0 then Some (map_option (\<lambda>h. (None, h)) (msg_first (msqids st q))) else rcv_find msgtyp None (msg_first (msqids st q)) st)
       = Some (Some (if xs = [] then None else Some (last xs), h))" "msgtyp = 0 \<longrightarrow> xs = []" using rcv_search_some [OF qk, of L msgtyp] ex e by blast+
    have "h \<in> used st L" using queues_okD(1) [OF qs, of h q] by (simp add: used_def hs)
    then have ts: "length (snd m) = msg_ts (msghdrs st h)" using mview_length [OF hp] e by simp
    show ?thesis
    proof (cases "msgsz < length (snd m) \<and> flg AND MSG_NOERROR = 0")
      case True
      have "rcv_loop t pid q msqid msgsz msgtyp flg st = Some (mfail t E2BIG st)" unfolding rcv_loop_def sr(1) using True by (simp add: ts)
      moreover have "laid (mfail t E2BIG st) L \<and> rcv_views t st L (mfail t E2BIG st) L q msgsz msgtyp flg" using mv True by (simp add: rcv_views_def Some r mfail_def)
      ultimately show ?thesis by blast
    next
      case False
      define st' where "st' = rcv_take t pid q h msgsz (unlinked q xs h ys st)"
      have "rcv_loop t pid q msqid msgsz msgtyp flg st = Some st'"
        unfolding rcv_loop_def sr(1) using False ts sr(2) unlink_first_eq [of st q h ys] unlink_at_eq [OF qk] qk by (cases "msgtyp = 0") (auto simp: st'_def)
      moreover from rcv_take_ok [OF ok p q hs, of pid msgsz] obtain L' where "laid st' L'" "qview st' L' = (qview st L)(q := vs @ ws)" "\<forall>u. u \<noteq> t \<longrightarrow> tview st' L' u = tview st L u" "tview st' L' t = Some m"
        unfolding st'_def e by auto
      moreover have "msg_pc st' t = RcvCopy q h (min msgsz (length (snd m)))" unfolding ts by (auto simp: st'_def rcv_take_def unlinked_def Let_def set_ds_def set_hdr_def)
      ultimately show ?thesis using False by (intro exI [of _ st'] exI [of _ L']) (auto simp: rcv_views_def Some r)
    qed
  qed
qed

lemma rcv_views_cong:
  assumes "msghdrs st1 = msghdrs st" "minfo st1 = minfo st" "msgpool st1 = msgpool st" "msg_pc st1 = msg_pc st"
  shows "rcv_views t st1 L = rcv_views t st L"
proof -
  have q: "qview st1 L = qview st L" by (rule views_cong) (rule assms)+
  have t: "tview st1 L = tview st L" by (rule ext, rule views_cong) (simp_all add: assms)
  show ?thesis by (intro ext) (unfold rcv_views_def same_view_def q t, rule refl)
qed

lemma sys_msgrcv_ok:
  assumes ok: "laid st L" and pc: "msg_pc st t = MOut r"
  shows "\<exists>st' L'. sys_msgrcv t pid cred msqid msgsz msgtyp flg st = Some st' \<and> laid st' L' \<and>
    (case msq_lookup msqid st of
       Some q \<Rightarrow> (case ipcperm cred (msg_perm (msqids st q)) IPC_R of None \<Rightarrow> rcv_views t st L st' L' q msgsz msgtyp flg | Some e \<Rightarrow> same_view t st L st' L' \<and> msg_pc st' t = MOut (Inl e))
     | None \<Rightarrow> same_view t st L st' L' \<and> msg_pc st' t = MOut (Inl EINVAL))"
proof -
  have ok': "laid (at_pc t (MOut r) st) L" and p: "plain (MOut r)" using ok pc by (simp_all add: at_pc_triv)
  have f: "laid (mfail t e st) L \<and> same_view t st L (mfail t e st) L \<and> msg_pc (mfail t e st) t = MOut (Inl e)" for e using plain_move [OF ok' p] by (simp add: mfail_def)
  show ?thesis
  proof (cases "msq_lookup msqid st")
    case None
    then show ?thesis using f by (auto simp: sys_msgrcv_def)
  next
    case (Some q)
    note look = this
    show ?thesis
    proof (cases "ipcperm cred (msg_perm (msqids st q)) IPC_R")
      case None
      have "msg_qbytes (msqids st q) \<noteq> 0" using msq_lookup_live [OF look] by simp
      from rcv_loop_ok [OF ok' p this, of pid msqid msgsz msgtyp flg] show ?thesis unfolding sys_msgrcv_def look None option.case .
    next
      case (Some e)
      show ?thesis unfolding sys_msgrcv_def look Some option.case using f by blast
    qed
  qed
qed

lemma rcv_woken_ok:
  assumes ok: "laid st L" and pc: "msg_pc st t = RcvWait q msqid msgsz msgtyp flg"
  shows "\<exists>st' L'. rcv_woken t pid q msqid msgsz msgtyp flg intr (wake_self t st) = Some st' \<and> laid st' L' \<and>
    (same_view t st L st' L' \<and> (\<exists>e. msg_pc st' t = MOut (Inl e)) \<or> rcv_views t st L st' L' q msgsz msgtyp flg)"
proof -
  have "at_pc t (RcvWait q msqid msgsz msgtyp flg) (wake_self t st) = wake_self t st" by (rule at_pc_triv) (simp add: wake_self_def pc)
  then have ok': "laid (at_pc t (RcvWait q msqid msgsz msgtyp flg) (wake_self t st)) L" using ok by (simp add: wake_self_def)
  note p = plain_simps(2) [of q msqid msgsz msgtyp flg]
  have f: "laid (mfail t e (wake_self t st)) L \<and> same_view t st L (mfail t e (wake_self t st)) L \<and> msg_pc (mfail t e (wake_self t st)) t = MOut (Inl e)" for e
    using plain_move [OF ok' p] by (simp add: mfail_def) (simp add: wake_self_def)
  have v: "rcv_views t (wake_self t st) L = rcv_views t st L" by (rule rcv_views_cong) (simp_all add: wake_self_def)
  consider "intr" | "\<not> intr" "msg_qbytes (msqids (wake_self t st) q) = 0 \<or> seq (msg_perm (msqids (wake_self t st) q)) \<noteq> IPCID_TO_SEQ msqid"
    | "\<not> intr" "\<not> (msg_qbytes (msqids (wake_self t st) q) = 0 \<or> seq (msg_perm (msqids (wake_self t st) q)) \<noteq> IPCID_TO_SEQ msqid)" by blast
  then show ?thesis
  proof cases
    case 1
    then show ?thesis using f [of EINTR] by (auto simp: rcv_woken_def)
  next
    case 2
    then have "rcv_woken t pid q msqid msgsz msgtyp flg intr (wake_self t st) = Some (mfail t EIDRM (wake_self t st))" by (simp add: rcv_woken_def)
    then show ?thesis using f [of EIDRM] by blast
  next
    case 3
    then have "rcv_woken t pid q msqid msgsz msgtyp flg intr (wake_self t st) = rcv_loop t pid q msqid msgsz msgtyp flg (wake_self t st)" by (simp add: rcv_woken_def)
    then show ?thesis using rcv_loop_ok [OF ok' p, of q pid msqid msgsz msgtyp flg] 3 unfolding v by auto
  qed
qed

text \<open>The end of a receive: the message is freed, and the user has it unless the transfer failed.\<close>

lemma rcv_copied_ok:
  assumes ok: "laid st L" and pc: "msg_pc st t = RcvCopy q h n"
  shows "\<exists>st' L'. rcv_copied t q h n x st = Some st' \<and> laid st' L' \<and> same_view t st L st' L' \<and> n \<le> length (snd (mview st L h))
    \<and> msg_pc st' t = MOut (case x of Moved \<Rightarrow> Inr (int n, Some (fst (mview st L h), take n (snd (mview st L h)))) | TypeFault e \<Rightarrow> Inl e | BodyFault k e \<Rightarrow> Inl e)"
proof -
  note T = threads_okD [OF laidD(3) [OF ok]]
  have own: "h < msgtql (minfo st)" "l_own L h = HThread t" using T(1) [of t h] by (simp_all add: carries_def pc)
  have hu: "h \<in> used st L" using own by (simp add: used_def)
  have n: "n \<le> msg_ts (msghdrs st h)" using T(4) [of t] by (simp add: pc pc_ok_def)
  have at: "laid (at_pc t (RcvCopy q h n) st) L" using ok pc by (simp add: at_pc_triv)
  note B = rcv_body_ok [OF laidD(1) [OF ok] hu]
  define res where "res = (case x of Moved \<Rightarrow> Inr (int n, Some (fst (mview st L h), take n (snd (mview st L h)))) | TypeFault e \<Rightarrow> Inl e | BodyFault k e \<Rightarrow> Inl e)"
  have e: "rcv_copied t q h n x st = map_option (\<lambda>st. at_pc t (MOut res) (mwakeup q st)) (msg_freehdr h st)"
    using n by (cases x) (simp_all add: rcv_copied_def Let_def B res_def mfail_def)
  from rcv_free_ok [OF at, of res] obtain st1 L1 where "msg_freehdr h st = Some st1" "laid (at_pc t (MOut res) st1) L1" "same_view t st L st1 L1" by blast
  then show ?thesis unfolding e using n mview_length [OF laidD(1) [OF ok] hu]
    by (intro exI [of _ "at_pc t (MOut res) (mwakeup q st1)"] exI [of _ L1]) (simp add: res_def)
qed

section \<open>Making and removing queues\<close>

lemma rmid_loop_ok:
  "heap_ok st L \<Longrightarrow> lpath Some (nexts st) p hs None \<Longrightarrow> set hs \<subseteq> used st L \<Longrightarrow> msg_cbytes (msqids st q) = sum_list (map (\<lambda>h. msg_ts (msghdrs st h)) hs) \<Longrightarrow> msg_qnum (msqids st q) = length hs \<Longrightarrow>
    msg_cbytes (msqids st q) < 2 ^ 64 \<Longrightarrow> length hs < 2 ^ 64 \<Longrightarrow>
    \<exists>st' L'. rmid_loop q p st = Some st' \<and> heap_ok st' L' \<and> (\<forall>h\<in>set hs. l_own L' h = HFree) \<and> (\<forall>k. k \<notin> set hs \<longrightarrow> l_own L' k = l_own L k \<and> msghdrs st' k = msghdrs st k)
      \<and> (\<forall>k\<in>used st L. k \<notin> set hs \<longrightarrow> mview st' L' k = mview st L k) \<and> l_q L' = l_q L \<and> minfo st' = minfo st \<and> msg_pc st' = msg_pc st \<and> msg_chan st' = msg_chan st
      \<and> msqids st' = (msqids st)(q := (msqids st q)\<lparr>msg_cbytes := 0, msg_qnum := 0\<rparr>)"
proof (induction hs arbitrary: st L p)
  case Nil
  have "(msqids st)(q := (msqids st q)\<lparr>msg_cbytes := 0, msg_qnum := 0\<rparr>) = msqids st" using Nil.prems(4,5) by (intro ext) simp
  then show ?case using Nil.prems by (subst rmid_loop.simps) auto
next
  case (Cons h hs)
  note prem = Cons.prems
  have p: "p = Some h" "lpath Some (nexts st) (msg_next (msghdrs st h)) hs None" using prem(2) by simp_all
  have d: "h \<notin> set hs" using hdl.path_distinct [OF prem(2)] by simp
  define st1 where "st1 = set_ds q ((msqids st q)\<lparr>msg_cbytes := ulong_sub (msg_cbytes (msqids st q)) (msg_ts (msghdrs st h)), msg_qnum := ulong_sub (msg_qnum (msqids st q)) 1\<rparr>) st"
  have s1: "minfo st1 = minfo st" "msghdrs st1 = msghdrs st" "msg_pc st1 = msg_pc st" "msg_chan st1 = msg_chan st" "mview st1 L = mview st L" "heap_ok st1 L" using prem(1) by (simp_all add: st1_def, simp_all add: set_ds_def)
  have q1: "msqids st1 = (msqids st)(q := (msqids st q)\<lparr>msg_cbytes := sum_list (map (\<lambda>h. msg_ts (msghdrs st h)) hs), msg_qnum := length hs\<rparr>)"
    using ulong_sub_exact [of "msg_ts (msghdrs st h)" "msg_cbytes (msqids st q)"] ulong_sub_exact [of 1 "msg_qnum (msqids st q)"] prem(4-7) by (simp add: st1_def set_ds_def)
  have u: "used st1 L = used st L" by (simp add: used_def s1)
  from msg_freehdr_ok [OF s1(6), of h] obtain st2 L2 where s2: "msg_freehdr h st1 = Some st2" "heap_ok st2 L2" "l_own L2 h = HFree" "hdr_frame h st1 L st2 L2" using prem(3) by (auto simp: u)
  note F = hdr_frameD [OF s2(4)]
  have k2: "msghdrs st2 k = msghdrs st k" if "k \<in> set hs" for k using F(6) [of k] that d by (auto simp: s1)
  have "lpath Some (nexts st2) (msg_next (msghdrs st h)) hs None = lpath Some (nexts st) (msg_next (msghdrs st h)) hs None" by (rule lpath_cong) (simp add: k2)
  then have path: "lpath Some (nexts st2) (msg_next (msghdrs st h)) hs None" using p(2) by simp
  have us: "set hs \<subseteq> used st2 L2"
  proof
    fix k assume k: "k \<in> set hs"
    then have "k \<noteq> h" using d by auto
    then show "k \<in> used st2 L2" using used_frame [OF s2(4)] k prem(3) u by auto
  qed
  have sm: "sum_list (map (\<lambda>h. msg_ts (msghdrs st2 h)) hs) = sum_list (map (\<lambda>h. msg_ts (msghdrs st h)) hs)" by (rule sum_list_ts_cong) (simp add: k2)
  have "\<exists>st' L'. rmid_loop q (msg_next (msghdrs st h)) st2 = Some st' \<and> heap_ok st' L' \<and> (\<forall>h\<in>set hs. l_own L' h = HFree) \<and> (\<forall>k. k \<notin> set hs \<longrightarrow> l_own L' k = l_own L2 k \<and> msghdrs st' k = msghdrs st2 k)
      \<and> (\<forall>k\<in>used st2 L2. k \<notin> set hs \<longrightarrow> mview st' L' k = mview st2 L2 k) \<and> l_q L' = l_q L2 \<and> minfo st' = minfo st2 \<and> msg_pc st' = msg_pc st2 \<and> msg_chan st' = msg_chan st2
      \<and> msqids st' = (msqids st2)(q := (msqids st2 q)\<lparr>msg_cbytes := 0, msg_qnum := 0\<rparr>)"
    by (rule Cons.IH [OF s2(2) path us]) (use prem(4,6,7) in \<open>simp_all add: F(1) q1 sm\<close>)
  then obtain st' L' where s': "rmid_loop q (msg_next (msghdrs st h)) st2 = Some st'" "heap_ok st' L'" "\<And>k. k \<in> set hs \<Longrightarrow> l_own L' k = HFree"
      "\<And>k. k \<notin> set hs \<Longrightarrow> l_own L' k = l_own L2 k \<and> msghdrs st' k = msghdrs st2 k" "\<And>k. k \<in> used st2 L2 \<Longrightarrow> k \<notin> set hs \<Longrightarrow> mview st' L' k = mview st2 L2 k" "l_q L' = l_q L2" "minfo st' = minfo st2"
      "msg_pc st' = msg_pc st2" "msg_chan st' = msg_chan st2" "msqids st' = (msqids st2)(q := (msqids st2 q)\<lparr>msg_cbytes := 0, msg_qnum := 0\<rparr>)" by blast
  have e: "rmid_loop q p st = Some st'" using s'(1) s2(1) p(1) by (subst rmid_loop.simps) (simp add: Let_def st1_def)
  have own: "\<forall>k\<in>set (h # hs). l_own L' k = HFree" using s'(3) s'(4) [OF d] s2(3) by auto
  have rest: "l_own L' k = l_own L k \<and> msghdrs st' k = msghdrs st k" if "k \<notin> set (h # hs)" for k
    using s'(4) [of k] F(6,7) [of k] that by (simp add: s1)
  have view: "mview st' L' k = mview st L k" if "k \<in> used st L" "k \<notin> set (h # hs)" for k
    using s'(5) [of k] used_frame [OF s2(4), of k] F(8) [of k] that by (simp add: u s1)
  have "msqids st' = (msqids st)(q := (msqids st q)\<lparr>msg_cbytes := 0, msg_qnum := 0\<rparr>)" by (simp add: s'(10) F(1) q1)
  then show ?case using e s'(2,6-9) own rest view F(2-5) s1(1,3,4) by (intro exI [of _ st'] exI [of _ L']) simp
qed

lemma rmid_ok:
  assumes ok: "laid st L" and pc: "msg_pc st t = MOut r" and q: "msg_qbytes (msqids st q) \<noteq> 0"
  shows "\<exists>st1 L'. rmid_loop q (msg_first (msqids st q)) st = Some st1 \<and> msg_cbytes (msqids st1 q) = 0 \<and> msg_qnum (msqids st1 q) = 0
    \<and> laid (at_pc t (MOut r') (set_ds q ((msqids st1 q)\<lparr>msg_qbytes := 0\<rparr>) st1)) L' \<and> qview (set_ds q ((msqids st1 q)\<lparr>msg_qbytes := 0\<rparr>) st1) L' = (qview st L)(q := [])
    \<and> (\<forall>u. tview (set_ds q ((msqids st1 q)\<lparr>msg_qbytes := 0\<rparr>) st1) L' u = tview st L u)"
proof -
  note T = threads_okD [OF laidD(3) [OF ok]] and Q = queues_okD [OF laidD(2) [OF ok]]
  define hs where "hs = l_q L q"
  note K = queue_okD [OF Q(3) [OF q], folded hs_def]
  have hsu: "set hs \<subseteq> used st L"
  proof
    fix k assume "k \<in> set hs"
    then show "k \<in> used st L" using Q(1) [of k q] by (simp add: used_def hs_def)
  qed
  have d: "distinct hs" by (rule hdl.path_distinct [OF K(1)])
  have "set hs \<subseteq> {..<msgtql (minfo st)}" using hsu by (auto simp: used_def)
  then have "card (set hs) \<le> card {..<msgtql (minfo st)}" by (rule card_mono [OF finite_lessThan])
  then have len: "length hs \<le> msgtql (minfo st)" by (simp add: distinct_card [OF d])
  have lim: "msgmnb (minfo st) < 2 ^ 16" "msgtql (minfo st) < 2 ^ 31" using laidD(4) [OF ok] by (simp_all add: msg_limits_def)
  from rmid_loop_ok [OF laidD(1) [OF ok] K(1) hsu K(3,4)] obtain st1 L1 where s1: "rmid_loop q (msg_first (msqids st q)) st = Some st1" "heap_ok st1 L1" "\<And>h. h \<in> set hs \<Longrightarrow> l_own L1 h = HFree"
    "\<And>k. k \<notin> set hs \<Longrightarrow> l_own L1 k = l_own L k \<and> msghdrs st1 k = msghdrs st k" "\<And>k. k \<in> used st L \<Longrightarrow> k \<notin> set hs \<Longrightarrow> mview st1 L1 k = mview st L k" "l_q L1 = l_q L" "minfo st1 = minfo st"
    "msg_pc st1 = msg_pc st" "msqids st1 = (msqids st)(q := (msqids st q)\<lparr>msg_cbytes := 0, msg_qnum := 0\<rparr>)" using len lim K(5) by auto
  define L' where "L' = L1\<lparr>l_q := (l_q L1)(q := [])\<rparr>"
  define st' where "st' = set_ds q ((msqids st1 q)\<lparr>msg_qbytes := 0\<rparr>) st1"
  have l: "l_own L' = l_own L1" "l_q L' = (l_q L)(q := [])" "l_fs L' = l_fs L1" "l_sg L' = l_sg L1" "l_fh L' = l_fh L1" by (simp_all add: L'_def s1(6))
  have f: "minfo st' = minfo st" "msghdrs st' = msghdrs st1" "msg_pc st' = msg_pc st" "msg_qbytes (msqids st' q) = 0" "\<And>x. x \<noteq> q \<Longrightarrow> msqids st' x = msqids st x" "\<And>x. ds_locked (msqids st' x) = ds_locked (msqids st x)"
    by (simp_all add: st'_def set_ds_def s1 ds_locked_def)
  have hp: "heap_ok st' L'" by (rule heap_ok_next [OF s1(2)]) (simp_all add: st'_def set_ds_def l)
  have nq: "h \<notin> set hs" if "l_own L h \<noteq> HQueued q" for h using Q(1) [of h q] that by (auto simp: hs_def)
  have qs: "queues_ok st' L'"
    unfolding queues_ok_def
  proof (intro conjI allI impI ballI)
    fix x k show "k \<in> set (l_q L' x) \<longleftrightarrow> k < msgtql (minfo st') \<and> l_own L' k = HQueued x"
    proof (cases "k \<in> set hs")
      case True
      then show ?thesis using s1(3) [OF True] Q(1) [of k q] Q(1) [of k x] by (auto simp: l f(1) hs_def)
    next
      case False
      then show ?thesis using s1(4) [OF False] Q(1) [of k x] by (auto simp: l f(1) hs_def)
    qed
  next
    fix x assume "msg_qbytes (msqids st' x) = 0"
    then show "l_q L' x = []" using f(5) [of x] Q(2) [of x] by (cases "x = q") (simp_all add: l)
  next
    fix x assume a: "msg_qbytes (msqids st' x) \<noteq> 0"
    then have x: "x \<noteq> q" using f(4) by auto
    have r: "queue_ok st x (l_q L x)" using Q(3) [of x] a x by (simp add: f(5))
    have s: "msghdrs st' k = msghdrs st k" if "k \<in> set (l_q L x)" for k
    proof -
      have "k \<notin> set hs" using that Q(1) [of k x] x by (intro nq) auto
      then show ?thesis using s1(4) by (simp add: f(2))
    qed
    have "queue_ok st' x (l_q L x)" by (rule queue_ok_cong [OF r s]) (use x queue_okD(6) [OF r] in \<open>simp_all add: f(1,5)\<close>)
    then show "queue_ok st' x (l_q L' x)" using x by (simp add: l)
  next
    fix x k assume "k \<in> set (l_q L' x)"
    then have k: "k \<in> set (l_q L x)" "x \<noteq> q" by (auto simp: l split: if_splits)
    then have "k \<notin> set hs" using Q(1) [of k x] by (intro nq) auto
    then show "1 \<le> msg_type (msghdrs st' k)" using s1(4) [of k] Q(4) [OF k(1)] by (simp add: f(2))
  qed
  have thr: "l_own L' k = HThread u \<longleftrightarrow> l_own L k = HThread u" for k u
  proof (cases "k \<in> set hs")
    case True
    then show ?thesis using s1(3) [OF True] Q(1) [of k q] by (auto simp: l(1) hs_def)
  next
    case False
    then show ?thesis using s1(4) [OF False] by (simp add: l(1))
  qed
  have ts: "msghdrs st' k = msghdrs st k" if "l_own L k = HThread u" for k u
  proof -
    have "k \<notin> set hs" using that by (intro nq) simp
    then show ?thesis using s1(4) by (simp add: f(2))
  qed
  have "threads_ok (at_pc t (MOut r') st') L'"
  proof (rule threads_step [OF laidD(3) [OF ok], of _ t "MOut r'"])
    fix k show "carries (MOut r') = Some k \<longleftrightarrow> k < msgtql (minfo st) \<and> l_own L' k = HThread t" using T(1) [of t k] thr [of k t] by (simp add: carries_def pc)
  next
    fix u x assume "u \<noteq> t" "locks_q (msg_pc st u) = Some x"
    then show "ds_locked (msqids (at_pc t (MOut r') st') x) \<and> (msg_qbytes (msqids (at_pc t (MOut r') st') x) \<noteq> 0 \<longrightarrow> msg_qbytes (msqids st x) \<noteq> 0
        \<and> msg_cbytes (msqids (at_pc t (MOut r') st') x) \<le> msg_cbytes (msqids st x)) \<and> locks_q (MOut r') \<noteq> Some x"
      using T(2) [of u x] f(4) f(5) [of x] by (cases "x = q") (simp_all add: f(6) locks_q_def)
  qed (use f(1,3) thr ts in \<open>simp_all add: pc_simps\<close>)
  then have "laid (at_pc t (MOut r') st') L'" using hp qs laidD(4) [OF ok] f(1) by (simp add: laid_def)
  moreover have mv: "mview st' L' k = mview st L k" if "k \<in> used st L" "k \<notin> set hs" for k
  proof -
    have "mview st' L' = mview st1 L1" by (rule mview_next) (simp_all add: st'_def set_ds_def l)
    then show ?thesis using s1(5) [OF that] by simp
  qed
  moreover have "qview st' L' = (qview st L)(q := [])"
  proof
    fix x show "qview st' L' x = ((qview st L)(q := [])) x"
    proof (cases "x = q")
      case False
      have "mview st' L' k = mview st L k" if "k \<in> set (l_q L x)" for k
        using that Q(1) [of k x] False by (intro mv nq) (auto simp: used_def)
      then show ?thesis using False by (simp add: qview_def l)
    qed (simp add: qview_def l)
  qed
  moreover have "tview st' L' u = tview st L u" for u
  proof (cases "msg_pc st u")
    case (RcvCopy x k n)
    have "k < msgtql (minfo st) \<and> l_own L k = HThread u" using T(1) [of u k] by (simp add: RcvCopy carries_def)
    then have "mview st' L' k = mview st L k" by (intro mv nq) (auto simp: used_def)
    then show ?thesis by (simp add: tview_def f(3) RcvCopy)
  qed (simp_all add: tview_def f(3))
  ultimately show ?thesis using s1(1,9) unfolding st'_def by (intro exI [of _ st1] exI [of _ L']) simp
qed

text \<open>The entry of a queue changes, but neither its messages nor who has it locked.\<close>

lemma set_ds_ok:
  assumes ok: "laid st L" and pc: "msg_pc st t = MOut r"
    and ds: "queue_ok (set_ds q ds st) q (l_q L q)" "msg_qbytes ds = 0 \<Longrightarrow> l_q L q = []"
    and lk: "\<And>u. locks_q (msg_pc st u) = Some q \<Longrightarrow> ds_locked ds \<and> (msg_qbytes ds \<noteq> 0 \<longrightarrow> msg_qbytes (msqids st q) \<noteq> 0 \<and> msg_cbytes ds \<le> msg_cbytes (msqids st q))"
  shows "laid (at_pc t (MOut r') (set_ds q ds st)) L"
proof -
  note T = threads_okD [OF laidD(3) [OF ok]] and Q = queues_okD [OF laidD(2) [OF ok]]
  have f: "minfo (set_ds q ds st) = minfo st" "msghdrs (set_ds q ds st) = msghdrs st" "msg_pc (set_ds q ds st) = msg_pc st" "msqids (set_ds q ds st) = (msqids st)(q := ds)" by (simp_all add: set_ds_def)
  have "queues_ok (set_ds q ds st) L"
    unfolding queues_ok_def
  proof (intro conjI allI impI ballI)
    fix x assume "msg_qbytes (msqids (set_ds q ds st) x) = 0"
    then show "l_q L x = []" using ds(2) Q(2) [of x] by (cases "x = q") (simp_all add: f)
  next
    fix x assume a: "msg_qbytes (msqids (set_ds q ds st) x) \<noteq> 0"
    show "queue_ok (set_ds q ds st) x (l_q L x)"
    proof (cases "x = q")
      case False
      have r: "queue_ok st x (l_q L x)" using Q(3) [of x] a False by (simp add: f)
      show ?thesis by (rule queue_ok_cong [OF r]) (use False queue_okD(6) [OF r] in \<open>simp_all add: f\<close>)
    qed (use ds(1) in simp)
  qed (use Q(1,4) in \<open>simp_all add: f\<close>)
  moreover have "threads_ok (at_pc t (MOut r') (set_ds q ds st)) L"
  proof (rule threads_step [OF laidD(3) [OF ok], of _ t "MOut r'"])
    fix k show "carries (MOut r') = Some k \<longleftrightarrow> k < msgtql (minfo st) \<and> l_own L k = HThread t" using T(1) [of t k] by (simp add: carries_def pc)
  next
    fix u x assume a: "u \<noteq> t" "locks_q (msg_pc st u) = Some x"
    show "ds_locked (msqids (at_pc t (MOut r') (set_ds q ds st)) x) \<and> (msg_qbytes (msqids (at_pc t (MOut r') (set_ds q ds st)) x) \<noteq> 0 \<longrightarrow> msg_qbytes (msqids st x) \<noteq> 0
        \<and> msg_cbytes (msqids (at_pc t (MOut r') (set_ds q ds st)) x) \<le> msg_cbytes (msqids st x)) \<and> locks_q (MOut r') \<noteq> Some x"
      using T(2) [OF a(2)] lk [of u] a(2) by (cases "x = q") (simp_all add: f locks_q_def)
  qed (simp_all add: f pc_simps)
  ultimately show ?thesis using laidD(1,4) [OF ok] by (simp add: laid_def f)
qed

definition quiet :: "nat \<Rightarrow> msg_state \<Rightarrow> layout \<Rightarrow> msg_state \<Rightarrow> layout \<Rightarrow> bool" where
  "quiet t st L st' L' \<longleftrightarrow> same_view t st L st' L' \<and> tview st' L' t = None"

lemma sys_msgget_ok:
  assumes ok: "laid st L" and pc: "msg_pc st t = MOut r"
  shows "laid (sys_msgget t cred k flg st) L \<and> quiet t st L (sys_msgget t cred k flg st) L"
proof -
  have at: "laid (at_pc t (MOut r) st) L" using ok pc by (simp add: at_pc_triv)
  have f: "laid (mfail t e st) L \<and> quiet t st L (mfail t e st) L" for e using plain_move [OF at] by (simp add: mfail_def quiet_def tview_pc)
  have g: "laid (msgget_found t q st) L \<and> quiet t st L (msgget_found t q st) L" for q using plain_move [OF at] by (simp add: msgget_found_def quiet_def tview_pc)
  have new: "laid (msgget_found t q (msgget_new cred k flg q st)) L \<and> quiet t st L (msgget_found t q (msgget_new cred k flg q st)) L"
    if "msg_qbytes (msqids st q) = 0" "\<not> ds_locked (msqids st q)" for q
  proof -
    note T = threads_okD [OF laidD(3) [OF ok]] and Q = queues_okD [OF laidD(2) [OF ok]]
    have e: "l_q L q = []" using Q(2) that(1) by simp
    have "laid (msgget_found t q (msgget_new cred k flg q st)) L" unfolding msgget_found_def msgget_new_def
      by (rule set_ds_ok [OF ok pc]) (use e T(2) [of _ q] that(2) in \<open>auto simp: queue_ok_def set_ds_def\<close>)
    then show ?thesis by (simp add: msgget_found_def msgget_new_def quiet_def tview_pc)
  qed
  show ?thesis
  proof (cases "if k \<noteq> IPC_PRIVATE then List.find (\<lambda>q. msg_qbytes (msqids st q) \<noteq> 0 \<and> key (msg_perm (msqids st q)) = k) [0..<msgmni (minfo st)] else None")
    case None
    show ?thesis
    proof (cases "List.find (\<lambda>q. msg_qbytes (msqids st q) = 0 \<and> \<not> ds_locked (msqids st q)) [0..<msgmni (minfo st)]")
      case (Some q)
      then have "msg_qbytes (msqids st q) = 0" "\<not> ds_locked (msqids st q)" by (auto simp: find_Some_iff)
      then show ?thesis unfolding sys_msgget_def None option.case Some using new f by simp
    next
      case n: None
      show ?thesis unfolding sys_msgget_def None option.case n using f by simp
    qed
  next
    case (Some q)
    show ?thesis unfolding sys_msgget_def Some option.case using f g by (simp split: option.split)
  qed
qed

lemma ds_locked_perm: "ds_locked (ds\<lparr>msg_perm := (msg_perm ds)\<lparr>uid := u, gid := g, mode := (mode (msg_perm ds) AND NOT 0x1ff) OR (m AND 0x1ff)\<rparr>, msg_qbytes := qb\<rparr>) = ds_locked ds"
proof -
  have 1: "((a AND NOT w) OR (b AND w)) AND v = a AND v" if "w AND v = 0" for a b w v :: u32
  proof (rule bit_word_eqI)
    fix n assume "n < LENGTH(32)"
    have "\<not> (bit w n \<and> bit v n)" using that by (metis bit_and_iff bit_0_eq bot_apply bot_bool_def)
    then show "bit (((a AND NOT w) OR (b AND w)) AND v) n = bit (a AND v) n" using \<open>n < LENGTH(32)\<close> by (auto simp: bit_simps)
  qed
  have w: "ds_locked (ds\<lparr>msg_perm := (msg_perm ds)\<lparr>uid := u, gid := g, mode := (mode (msg_perm ds) AND NOT w) OR (m AND w)\<rparr>, msg_qbytes := qb\<rparr>) = ds_locked ds" if "w AND MSG_LOCKED = 0" for w
    by (simp add: ds_locked_def 1 [OF that])
  show ?thesis by (rule w) (simp add: MSG_LOCKED_def)
qed

lemma mset_write_ok:
  assumes ok: "laid st L" and pc: "msg_pc st t = MOut r" and q: "msg_qbytes (msqids st q) \<noteq> 0" and qb: "qb \<noteq> 0" "qb \<le> msgmnb (minfo st)"
  shows "laid (at_pc t (MOut r') (mset_write q (u, g, m, qb) st)) L"
proof -
  note T = threads_okD [OF laidD(3) [OF ok]] and Q = queues_okD [OF laidD(2) [OF ok]]
  define ds where "ds = (msqids st q)\<lparr>msg_perm := (msg_perm (msqids st q))\<lparr>uid := u, gid := g, mode := (mode (msg_perm (msqids st q)) AND NOT 0x1ff) OR (m AND 0x1ff)\<rparr>, msg_qbytes := qb\<rparr>"
  have e: "mset_write q (u, g, m, qb) st = set_ds q ds st" by (simp add: mset_write_def Let_def ds_def)
  have d: "msg_qbytes ds = qb" "msg_cbytes ds = msg_cbytes (msqids st q)" "msg_first ds = msg_first (msqids st q)" "msg_last ds = msg_last (msqids st q)" "msg_qnum ds = msg_qnum (msqids st q)" by (simp_all add: ds_def)
  have lk: "ds_locked ds = ds_locked (msqids st q)" unfolding ds_def by (rule ds_locked_perm)
  have "queue_ok (set_ds q ds st) q (l_q L q)" by (rule queue_ok_cong [OF Q(3) [OF q]]) (use qb in \<open>simp_all add: set_ds_def d\<close>)
  then show ?thesis unfolding e by (rule set_ds_ok [OF ok pc]) (use qb q T(2) [of _ q] in \<open>simp_all add: d lk\<close>)
qed

text \<open>Control: only \<^verbatim>\<open>IPC_RMID\<close> touches messages.\<close>

definition ctl_views :: "nat \<Rightarrow> msg_state \<Rightarrow> layout \<Rightarrow> msg_state \<Rightarrow> layout \<Rightarrow> int \<Rightarrow> msg_cmd \<Rightarrow> bool" where
  "ctl_views t st L st' L' msqid cmd \<longleftrightarrow> (\<forall>u. u \<noteq> t \<longrightarrow> tview st' L' u = tview st L u) \<and> tview st' L' t = None
     \<and> (case msg_pc st' t of
          MOut (Inr v) \<Rightarrow> (case msq_lookup msqid st of None \<Rightarrow> False | Some q \<Rightarrow> qview st' L' = (if cmd = MRMID then (qview st L)(q := []) else qview st L) \<and> (cmd = MRMID \<longrightarrow> msg_qbytes (msqids st' q) = 0))
        | MOut (Inl e) \<Rightarrow> qview st' L' = qview st L
        | SetCopy q cred \<Rightarrow> cmd = MSET \<and> qview st' L' = qview st L
        | _ \<Rightarrow> False)"

lemma msgctl1_ok:
  assumes ok: "laid st L" and pc: "msg_pc st t = MOut r"
  shows "\<exists>st' L'. msgctl1 t cred msqid cmd st = Some st' \<and> laid st' L' \<and> ctl_views t st L st' L' msqid cmd"
proof -
  have at: "laid (at_pc t (MOut r) st) L" using ok pc by (simp add: at_pc_triv)
  have f: "laid (mfail t e st) L \<and> ctl_views t st L (mfail t e st) L msqid cmd" for e using plain_move [OF at] by (simp add: mfail_def ctl_views_def tview_pc)
  then have F: "\<exists>st' L'. Some (mfail t e st) = Some st' \<and> laid st' L' \<and> ctl_views t st L st' L' msqid cmd" for e by blast
  show ?thesis
  proof (cases "msq_lookup msqid st")
    case None
    then show ?thesis using F by (simp add: msgctl1_def)
  next
    case (Some q)
    note look = this
    have q: "msg_qbytes (msqids st q) \<noteq> 0" using msq_lookup_live [OF look] by simp
    show ?thesis
    proof (cases cmd)
      case MRMID
      show ?thesis
      proof (cases "ipcperm cred (msg_perm (msqids st q)) IPC_M")
        case (Some e)
        then show ?thesis using F by (simp add: msgctl1_def look MRMID)
      next
        case None
        from rmid_ok [OF ok pc q, of "Inr (0, None)"] obtain st1 L' where s1: "rmid_loop q (msg_first (msqids st q)) st = Some st1" "msg_cbytes (msqids st1 q) = 0" "msg_qnum (msqids st1 q) = 0"
          "laid (at_pc t (MOut (Inr (0, None))) (set_ds q ((msqids st1 q)\<lparr>msg_qbytes := 0\<rparr>) st1)) L'" "qview (set_ds q ((msqids st1 q)\<lparr>msg_qbytes := 0\<rparr>) st1) L' = (qview st L)(q := [])"
          "\<forall>u. tview (set_ds q ((msqids st1 q)\<lparr>msg_qbytes := 0\<rparr>) st1) L' u = tview st L u" by blast
        define st' where "st' = at_pc t (MOut (Inr (0, None))) (mwakeup q (set_ds q ((msqids st1 q)\<lparr>msg_qbytes := 0\<rparr>) st1))"
        have "msgctl1 t cred msqid cmd st = Some st'" using s1(1-3) None by (simp add: msgctl1_def look MRMID Let_def st'_def)
        moreover have "laid st' L'" using s1(4) by (simp add: st'_def)
        moreover have "ctl_views t st L st' L' msqid cmd" using s1(5,6) by (simp add: ctl_views_def st'_def mwakeup_def at_pc_chan look MRMID tview_pc) (simp add: set_ds_def)
        ultimately show ?thesis by blast
      qed
    next
      case MSET
      have "laid (at_pc t (SetCopy q cred) st) L \<and> ctl_views t st L (at_pc t (SetCopy q cred) st) L msqid cmd" using plain_move [OF at] by (simp add: ctl_views_def MSET tview_pc)
      then have D: "\<exists>st' L'. Some (at_pc t (SetCopy q cred) st) = Some st' \<and> laid st' L' \<and> ctl_views t st L st' L' msqid cmd" by blast
      show ?thesis using F D by (cases "ipcperm cred (msg_perm (msqids st q)) IPC_M") (simp_all add: msgctl1_def look MSET)
    next
      case (MSTAT err)
      have "laid (at_pc t (MOut (Inr (0, None))) st) L \<and> ctl_views t st L (at_pc t (MOut (Inr (0, None))) st) L msqid cmd" using plain_move [OF at] by (simp add: ctl_views_def look MSTAT tview_pc)
      then have D: "\<exists>st' L'. Some (at_pc t (MOut (Inr (0, None))) st) = Some st' \<and> laid st' L' \<and> ctl_views t st L st' L' msqid cmd" by blast
      show ?thesis using F D by (cases "ipcperm cred (msg_perm (msqids st q)) IPC_R"; cases err) (simp_all add: msgctl1_def look MSTAT)
    next
      case MBADCMD
      then show ?thesis using F by (simp add: msgctl1_def look)
    qed
  qed
qed

lemma mset_copied_ok:
  assumes ok: "laid st L" and pc: "msg_pc st t = SetCopy q cred" and r: "\<not> revives t (SetCopied arg) st"
  shows "laid (mset_copied t q cred arg st) L \<and> same_view t st L (mset_copied t q cred arg st) L \<and> (\<exists>r. msg_pc (mset_copied t q cred arg st) t = MOut r)"
proof -
  have at: "laid (at_pc t (SetCopy q cred) st) L" using ok pc by (simp add: at_pc_triv)
  define st0 where "st0 = at_pc t (MOut (Inr (0, None))) st"
  have ok0: "laid st0 L" "msg_pc st0 t = MOut (Inr (0, None))" using plain_move [OF at] by (simp_all add: st0_def)
  have fail: "laid (mfail t e st) L \<and> same_view t st L (mfail t e st) L \<and> (\<exists>r. msg_pc (mfail t e st) t = MOut r)" for e using plain_move [OF at] by (simp add: mfail_def)
  have wr: "laid (at_pc t (MOut (Inr (0, None))) (mset_write q (u, g, m, qb) st)) L
      \<and> same_view t st L (at_pc t (MOut (Inr (0, None))) (mset_write q (u, g, m, qb) st)) L \<and> (\<exists>r. msg_pc (at_pc t (MOut (Inr (0, None))) (mset_write q (u, g, m, qb) st)) t = MOut r)"
    if "msg_qbytes (msqids st q) \<noteq> 0" "qb \<noteq> 0" "qb \<le> msgmnb (minfo st)" for u g m qb
  proof -
    have e: "at_pc t (MOut (Inr (0, None))) (mset_write q (u, g, m, qb) st0) = at_pc t (MOut (Inr (0, None))) (mset_write q (u, g, m, qb) st)"
      by (simp add: st0_def mset_write_def at_pc_def set_ds_def Let_def)
    have "laid (at_pc t (MOut (Inr (0, None))) (mset_write q (u, g, m, qb) st0)) L" by (rule mset_write_ok [OF ok0]) (use that in \<open>simp_all add: st0_def\<close>)
    then show ?thesis unfolding e by (simp add: mset_write_def Let_def)
  qed
  show ?thesis
  proof (cases arg)
    case (Inl e)
    then show ?thesis using fail by (simp add: mset_copied_def)
  next
    case (Inr x)
    obtain u g m qb where x: "x = (u, g, m, qb)" by (cases x)
    have live: "msg_qbytes (msqids st q) \<noteq> 0" if "\<not> (qb > msg_qbytes (msqids st q) \<and> cr_uid cred \<noteq> 0)" "min qb (msgmnb (minfo st)) \<noteq> 0"
      using that r by (auto simp: revives_def Inr x pc)
    have "mset_copied t q cred arg st = (if qb > msg_qbytes (msqids st q) \<and> cr_uid cred \<noteq> 0 then mfail t EPERM st else if min qb (msgmnb (minfo st)) = 0 then mfail t EINVAL st
        else at_pc t (MOut (Inr (0, None))) (mset_write q (u, g, m, min qb (msgmnb (minfo st))) st))"
      unfolding mset_copied_def Inr x sum.case prod.case Let_def by simp
    then show ?thesis using fail wr [OF live _ min.cobounded2] by (simp only: split: if_split) blast
  qed
qed
end
