(* ===== verification/Sysv_Msg_Calls.thy ===== *)
theory Sysv_Msg_Calls
  imports Sysv_Msg_Inv
begin

text \<open>
  System V message queues from outside (\<^verbatim>\<open>src/sys/kern/sysv_msg.c\<close>): every queue is a list of typed messages, and what a call does to it
  follows from what the call returns. Holds in every state that the calls of any number of threads reach, with transfers that fail at any point, under
  the limits \<^verbatim>\<open>msg_limits\<close> and as long as no update of the superuser brings a removed queue back.
\<close>

section \<open>The first state\<close>

lemma lpath_upt:
  assumes "i < n" "\<And>j. nx j = (if j + 1 < n then ad (j + 1) else e)"
  shows "lpath ad nx (ad i) [i..<n] e"
  using assms(1)
proof (induction "n - i" arbitrary: i)
  case (Suc d)
  show ?case
  proof (cases "i + 1 < n")
    case True
    then show ?thesis using Suc.hyps(1) [of "i + 1"] Suc.hyps(2) by (simp add: upt_conv_Cons assms(2))
  next
    case False
    then have "[i..<n] = [i]" using Suc.prems by (simp add: upt_conv_Cons)
    then show ?thesis using False by (simp add: assms(2))
  qed
qed simp

lemma msginit_laid:
  assumes "msginit mi pool hdrs qs = Some st" "msg_limits mi"
  shows "\<exists>L. laid st L"
proof -
  have e: "msgssz mi \<noteq> 0" and st: "st = \<lparr>nfree_msgmaps = int (msgseg mi), free_msgmaps = 0, free_msghdrs = Some 0, msgpool = pool,
        msgmaps = (\<lambda>i. if i + 1 < msgseg mi then int i + 1 else -1), msghdrs = (\<lambda>i. (hdrs i)\<lparr>msg_type := 0, msg_next := (if i + 1 < msgtql mi then Some (i + 1) else None)\<rparr>),
        msqids = (\<lambda>i. (qs i)\<lparr>msg_qbytes := 0, msg_perm := (msg_perm (qs i))\<lparr>seq := 0\<rparr>\<rparr>), minfo = mi, msg_pc = (\<lambda>t. MOut (Inl EINVAL)), msg_chan = (\<lambda>t. None)\<rparr>"
    using assms(1) by (auto simp: msginit_def split: if_splits)
  have lim: "0 < msgseg mi" "0 < msgtql mi" using assms(2) by (simp_all add: msg_limits_def)
  define L where "L = \<lparr>l_fs = [0..<msgseg mi], l_sg = (\<lambda>h. []), l_fh = [0..<msgtql mi], l_q = (\<lambda>q. []), l_own = (\<lambda>h. HFree)\<rparr>"
  have "lpath int (\<lambda>i. if i + 1 < msgseg mi then int i + 1 else -1) (int 0) [0..<msgseg mi] (-1)" by (rule lpath_upt [OF lim(1)]) simp
  moreover have "lpath Some (\<lambda>i. if i + 1 < msgtql mi then Some (i + 1) else None) (Some 0) [0..<msgtql mi] None" by (rule lpath_upt [OF lim(2)]) simp
  ultimately have "heap_ok st L" using e by (simp add: heap_ok_def used_def segs_ok_def st L_def)
  moreover have "queues_ok st L" by (simp add: queues_ok_def st L_def)
  moreover have "threads_ok st L" by (simp add: threads_ok_def st L_def pc_simps)
  ultimately show ?thesis using assms(2) by (intro exI [of _ L]) (simp add: laid_def st)
qed

section \<open>Queues as lists of messages\<close>


partial_function (option) mwalk :: "nat option \<Rightarrow> msg_state \<Rightarrow> (int \<times> u8 list) list option" where
  "mwalk p st =
     (case p of None \<Rightarrow> Some []
      | Some h \<Rightarrow>
          let m = msghdrs st h
          in Option.bind (rcv_body (msg_spot m) (msg_ts m) st) (\<lambda>bs. Option.bind (mwalk (msg_next m) st) (\<lambda>ms. Some ((msg_type m, bs) # ms))))"

declare mwalk.simps [code]

definition queue_msgs :: "nat \<Rightarrow> msg_state \<Rightarrow> (int \<times> u8 list) list option" where
  "queue_msgs q st = (if msg_qbytes (msqids st q) = 0 then Some [] else mwalk (msg_first (msqids st q)) st)"

text \<open>The message that a receiver has taken and not yet got.\<close>

definition taken_msg :: "nat \<Rightarrow> msg_state \<Rightarrow> (int \<times> u8 list) option" where
  "taken_msg t st =
     (case msg_pc st t of
        RcvCopy q h n \<Rightarrow> map_option (Pair (msg_type (msghdrs st h))) (rcv_body (msg_spot (msghdrs st h)) (msg_ts (msghdrs st h)) st)
      | _ \<Rightarrow> None)"

lemma header_body: "heap_ok st L \<Longrightarrow> h \<in> used st L \<Longrightarrow> rcv_body (msg_spot (msghdrs st h)) (msg_ts (msghdrs st h)) st = Some (snd (mview st L h))"
  using rcv_body_ok [of st L h "msg_ts (msghdrs st h)"] mview_length [of st L h] by simp

lemma mwalk_path: "heap_ok st L \<Longrightarrow> lpath Some (nexts st) p hs None \<Longrightarrow> set hs \<subseteq> used st L \<Longrightarrow> mwalk p st = Some (map (mview st L) hs)"
proof (induction hs arbitrary: p)
  case Nil
  then show ?case by (subst mwalk.simps) simp
next
  case (Cons h hs)
  then have "mwalk (msg_next (msghdrs st h)) st = Some (map (mview st L) hs)" by simp
  moreover have "(msg_type (msghdrs st h), snd (mview st L h)) = mview st L h" by (simp add: mview_def)
  ultimately show ?case using Cons.prems header_body [of st L h] by (subst mwalk.simps) (simp add: Let_def)
qed

lemma queue_msgs_view:
  assumes ok: "laid st L"
  shows "queue_msgs q st = Some (qview st L q)"
proof -
  note Q = queues_okD [OF laidD(2) [OF ok]]
  show ?thesis
  proof (cases "msg_qbytes (msqids st q) = 0")
    case True
    then show ?thesis using Q(2) by (simp add: queue_msgs_def qview_def)
  next
    case False
    have "set (l_q L q) \<subseteq> used st L"
    proof
      fix k assume "k \<in> set (l_q L q)"
      then show "k \<in> used st L" using Q(1) [of k q] by (simp add: used_def)
    qed
    then show ?thesis using False mwalk_path [OF laidD(1) [OF ok] queue_okD(1) [OF Q(3) [OF False]]] by (simp add: queue_msgs_def qview_def)
  qed
qed

lemma taken_msg_view:
  assumes ok: "laid st L"
  shows "taken_msg t st = tview st L t"
proof (cases "msg_pc st t")
  case (RcvCopy q h n)
  have "h \<in> used st L" using threads_okD(1) [OF laidD(3) [OF ok], of t h] by (simp add: RcvCopy carries_def used_def)
  moreover have "(msg_type (msghdrs st h), snd (mview st L h)) = mview st L h" by (simp add: mview_def)
  ultimately show ?thesis using header_body [OF laidD(1) [OF ok]] by (simp add: taken_msg_def tview_def RcvCopy)
qed (simp_all add: taken_msg_def tview_def)

section \<open>The abstract queues\<close>

record aqueues =
  a_q :: "nat \<Rightarrow> (int \<times> u8 list) list"
  a_t :: "nat \<Rightarrow> (int \<times> u8 list) option"

definition a_send :: "nat \<Rightarrow> int \<times> u8 list \<Rightarrow> aqueues \<Rightarrow> aqueues" where
  "a_send q m a = a\<lparr>a_q := (a_q a)(q := a_q a q @ [m])\<rparr>"

text \<open>
  A receiver may take a message: the first one for type 0, the first of that type for a positive type, and for a negative one the first
  message of some type that is not above its absolute value. The others keep their order.
\<close>

definition may_take :: "int \<Rightarrow> (int \<times> u8 list) list \<Rightarrow> int \<times> u8 list \<Rightarrow> bool" where
  "may_take msgtyp xs m \<longleftrightarrow>
     (if msgtyp = 0 then xs = []
      else (if 0 < msgtyp then fst m = msgtyp else fst m \<le> - msgtyp) \<and> (\<forall>x\<in>set xs. fst x \<noteq> fst m))"

definition a_take :: "nat \<Rightarrow> nat \<Rightarrow> int \<Rightarrow> aqueues \<Rightarrow> aqueues \<Rightarrow> bool" where
  "a_take t q msgtyp a a' \<longleftrightarrow> (\<exists>xs m ys. a_q a q = xs @ m # ys \<and> may_take msgtyp xs m
     \<and> a' = a\<lparr>a_q := (a_q a)(q := xs @ ys), a_t := (a_t a)(t := Some m)\<rparr>)"

definition a_deliver :: "nat \<Rightarrow> aqueues \<Rightarrow> aqueues" where
  "a_deliver t a = a\<lparr>a_t := (a_t a)(t := None)\<rparr>"

definition a_remove :: "nat \<Rightarrow> aqueues \<Rightarrow> aqueues" where
  "a_remove q a = a\<lparr>a_q := (a_q a)(q := [])\<rparr>"

definition abs_rel :: "msg_state \<Rightarrow> aqueues \<Rightarrow> bool" where
  "abs_rel st a \<longleftrightarrow> (\<forall>q. queue_msgs q st = Some (a_q a q)) \<and> (\<forall>t. taken_msg t st = a_t a t)"

text \<open>All types are positive.\<close>

definition a_types :: "aqueues \<Rightarrow> bool" where
  "a_types a \<longleftrightarrow> (\<forall>q. \<forall>m\<in>set (a_q a q). 1 \<le> fst m)"

text \<open>
  The effect of a step, from where the thread is before and after it: a send that returns without an error has appended its message, a
  receive that has found one has taken it, a transfer to the user ends it, a removal that succeeds empties the queue, and nothing else has an effect.
\<close>

definition msg_effect :: "nat \<Rightarrow> mcall \<Rightarrow> msg_state \<Rightarrow> msg_state \<Rightarrow> aqueues \<Rightarrow> aqueues \<Rightarrow> bool" where
  "msg_effect t c st st' a a' =
     (case (c, msg_pc st t, msg_pc st' t) of
        (Copied x, SndCopy q h ty bs, MOut (Inr v)) \<Rightarrow> 1 \<le> ty \<and> a' = a_send q (ty, bs) a
      | (Copied x, RcvCopy q h n, _) \<Rightarrow> a' = a_deliver t a
      | (Msgrcv cred i n msgtyp flg, _, RcvCopy q h k) \<Rightarrow> a_take t q msgtyp a a'
      | (Woken intr, RcvWait q i n msgtyp flg, RcvCopy q' h k) \<Rightarrow> a_take t q msgtyp a a'
      | (Msgctl cred i MRMID, _, MOut (Inr v)) \<Rightarrow> (case msq_lookup i st of None \<Rightarrow> a' = a | Some q \<Rightarrow> a' = a_remove q a)
      | _ \<Rightarrow> a' = a)"

lemma a_take_types: "a_take t q msgtyp a a' \<Longrightarrow> a_types a \<Longrightarrow> a_types a'"
proof -
  assume "a_take t q msgtyp a a'" "a_types a"
  then obtain xs m ys where e: "a_q a q = xs @ m # ys" "a' = a\<lparr>a_q := (a_q a)(q := xs @ ys), a_t := (a_t a)(t := Some m)\<rparr>" by (auto simp: a_take_def)
  have "1 \<le> fst x" if "x \<in> set (a_q a r)" for x r using \<open>a_types a\<close> that by (simp add: a_types_def)
  note ty = this [of _ q, unfolded e(1)] this
  have "1 \<le> fst x" if "x \<in> set (a_q a' r)" for x r using that ty(1) [of x] ty(2) [of x r] by (cases "r = q") (auto simp: e(2))
  then show "a_types a'" by (simp add: a_types_def)
qed

lemma msg_effect_types:
  assumes "msg_effect t c st st' a a'" "a_types a"
  shows "a_types a'"
proof -
  have S: "a_types (a_send q (ty, bs) a)" if "1 \<le> ty" for q ty bs using assms(2) that by (auto simp: a_types_def a_send_def)
  have R: "a_types (a_deliver t a)" "\<And>q. a_types (a_remove q a)" using assms(2) by (auto simp: a_types_def a_deliver_def a_remove_def)
  note e = assms(1) [unfolded msg_effect_def]
  show ?thesis
  proof (cases c)
    case (Msgctl cred i cmd)
    then show ?thesis using e assms(2) R(2) by (cases cmd; cases "msg_pc st' t") (auto split: sum.splits option.splits)
  next
    case (Msgrcv cred i n msgtyp flg)
    then show ?thesis using e assms(2) a_take_types by (cases "msg_pc st' t") auto
  next
    case (Woken intr)
    then show ?thesis using e assms(2) a_take_types by (cases "msg_pc st t"; cases "msg_pc st' t") auto
  next
    case (Copied x)
    then show ?thesis using e assms(2) R(1) S by (cases "msg_pc st t"; cases "msg_pc st' t") (auto split: sum.splits)
  qed (use e assms(2) in simp_all)
qed

definition view_of :: "msg_state \<Rightarrow> layout \<Rightarrow> aqueues" where
  "view_of st L = \<lparr>a_q = qview st L, a_t = tview st L\<rparr>"

lemma abs_rel_view: "laid st L \<Longrightarrow> abs_rel st a \<longleftrightarrow> a = view_of st L"
  by (cases a) (auto simp: abs_rel_def view_of_def queue_msgs_view taken_msg_view fun_eq_iff)

lemma view_same:
  assumes "same_view t st L st' L'" "tview st' L' t = tview st L t"
  shows "view_of st' L' = view_of st L"
proof -
  have "tview st' L' = tview st L" using assms by (auto simp: same_view_def)
  then show ?thesis using assms by (simp add: view_of_def same_view_def)
qed

lemma extract_may_take:
  assumes "List.extract (rcv_match msgtyp) ms = Some (xs, m, ys)" "\<forall>x\<in>set ms. 1 \<le> fst x"
  shows "ms = xs @ m # ys" and "may_take msgtyp xs m"
proof -
  have e: "ms = xs @ m # ys" "rcv_match msgtyp m" "\<And>x. x \<in> set xs \<Longrightarrow> \<not> rcv_match msgtyp x" using assms(1) by (auto simp: extract_Some_iff)
  show "ms = xs @ m # ys" by (rule e(1))
  have ty: "1 \<le> fst m" using assms(2) e(1) by simp
  have "fst x \<noteq> fst m" if "x \<in> set xs" for x using e(2) e(3) [OF that] by (auto simp: rcv_match_def)
  then show "may_take msgtyp xs m" using e(2,3) ty by (cases xs) (auto simp: may_take_def rcv_match_def type_match_def long_neg_def split: if_splits)
qed

lemma view_rcv:
  assumes v: "rcv_views t st L st' L' q n msgtyp flg" and o: "tview st L t = None" and ty: "a_types (view_of st L)"
  shows "case msg_pc st' t of RcvCopy q' h k \<Rightarrow> q' = q \<and> a_take t q msgtyp (view_of st L) (view_of st' L') | _ \<Rightarrow> view_of st' L' = view_of st L"
proof (cases "List.extract (rcv_match msgtyp) (qview st L q)")
  case None
  then have s: "same_view t st L st' L'" "msg_pc st' t = MOut (Inl ENOMSG) \<or> (\<exists>i. msg_pc st' t = RcvWait q i n msgtyp flg)" using v by (auto simp: rcv_views_def split: if_splits)
  then have "view_of st' L' = view_of st L" using o by (intro view_same [OF s(1)]) (auto simp: tview_pc)
  then show ?thesis using s(2) by auto
next
  case (Some r)
  obtain xs m ys where r: "r = (xs, m, ys)" by (cases r)
  show ?thesis
  proof (cases "n < length (snd m) \<and> flg AND MSG_NOERROR = 0")
    case True
    then have s: "same_view t st L st' L'" "msg_pc st' t = MOut (Inl E2BIG)" using v by (simp_all add: rcv_views_def Some r)
    then have "view_of st' L' = view_of st L" using o by (intro view_same [OF s(1)]) (auto simp: tview_pc)
    then show ?thesis using s(2) by simp
  next
    case False
    then have s: "qview st' L' = (qview st L)(q := xs @ ys)" "\<forall>u. u \<noteq> t \<longrightarrow> tview st' L' u = tview st L u" "tview st' L' t = Some m" "\<exists>h. msg_pc st' t = RcvCopy q h (min n (length (snd m)))"
      using v unfolding rcv_views_def Some r option.case prod.case if_not_P [OF False] by blast+
    have "\<forall>x\<in>set (qview st L q). 1 \<le> fst x" using ty by (simp add: a_types_def view_of_def)
    note M = extract_may_take [OF Some [unfolded r] this]
    have "tview st' L' = (tview st L)(t := Some m)" using s(2,3) by auto
    then have "view_of st' L' = (view_of st L)\<lparr>a_q := (qview st L)(q := xs @ ys), a_t := (tview st L)(t := Some m)\<rparr>" using s(1) by (simp add: view_of_def)
    then have "a_take t q msgtyp (view_of st L) (view_of st' L')" unfolding a_take_def using M by (intro exI [of _ xs] exI [of _ m] exI [of _ ys]) (simp add: view_of_def)
    then show ?thesis using s(4) by auto
  qed
qed

text \<open>All steps, as seen by \<open>view_of\<close>.\<close>

lemma msg_step_view:
  assumes ok: "laid st L" and can: "msg_can t c st" and rv: "\<not> revives t c st" and ty: "a_types (view_of st L)"
  shows "\<exists>st' L'. msg_next_state t pid c st = Some st' \<and> laid st' L' \<and> msg_effect t c st st' (view_of st L) (view_of st' L')"
proof (cases c)
  case (Msgget cred k flg)
  then obtain r where pc: "msg_pc st t = MOut r" using can by (auto simp: msg_can_def split: mpc.splits)
  have "view_of (sys_msgget t cred k flg st) L = view_of st L" using sys_msgget_ok [OF ok pc, of cred k flg] pc by (intro view_same [of t]) (simp_all add: quiet_def tview_pc)
  then show ?thesis using sys_msgget_ok [OF ok pc, of cred k flg] by (auto simp: msg_next_state_def Msgget msg_effect_def)
next
  case (Msgctl cred i cmd)
  then obtain r where pc: "msg_pc st t = MOut r" using can by (auto simp: msg_can_def split: mpc.splits)
  from msgctl1_ok [OF ok this, of cred i cmd] obtain st' L' where s': "msgctl1 t cred i cmd st = Some st'" "laid st' L'" "ctl_views t st L st' L' i cmd" by blast
  have "tview st' L' u = tview st L u" for u using s'(3) tview_pc(1) [OF pc] by (cases "u = t") (simp_all add: ctl_views_def)
  then have "tview st' L' = tview st L" by blast
  then have "msg_effect t c st st' (view_of st L) (view_of st' L')" using s'(3) pc
    by (cases cmd) (auto simp: ctl_views_def msg_effect_def Msgctl view_of_def a_remove_def split: mpc.splits sum.splits option.splits)
  then show ?thesis using s'(1,2) by (auto simp: msg_next_state_def Msgctl)
next
  case (Msgsnd cred i ty bs flg)
  then obtain r where pc: "msg_pc st t = MOut r" using can by (auto simp: msg_can_def split: mpc.splits)
  from sys_msgsnd_ok [OF ok this, of cred i ty bs flg] obtain st' L' where s': "sys_msgsnd t cred i ty bs flg st = Some st'" "laid st' L'" "same_view t st L st' L'" "tview st' L' t = None" by blast
  have "view_of st' L' = view_of st L" using s'(3,4) pc by (intro view_same [of t]) (simp_all add: tview_pc)
  then show ?thesis using s'(1,2) by (auto simp: msg_next_state_def Msgsnd msg_effect_def)
next
  case (Msgrcv cred i n ty flg)
  then obtain r where pc: "msg_pc st t = MOut r" using can by (auto simp: msg_can_def split: mpc.splits)
  have o: "tview st L t = None" using pc by (rule tview_pc)
  from sys_msgrcv_ok [OF ok pc, of pid cred i n ty flg] obtain st' L' where s': "sys_msgrcv t pid cred i n ty flg st = Some st'" "laid st' L'"
    "case msq_lookup i st of
       Some q \<Rightarrow> (case ipcperm cred (msg_perm (msqids st q)) IPC_R of None \<Rightarrow> rcv_views t st L st' L' q n ty flg | Some e \<Rightarrow> same_view t st L st' L' \<and> msg_pc st' t = MOut (Inl e))
     | None \<Rightarrow> same_view t st L st' L' \<and> msg_pc st' t = MOut (Inl EINVAL)" by blast
  then have dis: "(\<exists>e. same_view t st L st' L' \<and> msg_pc st' t = MOut (Inl e)) \<or> (\<exists>q. rcv_views t st L st' L' q n ty flg)"
    by (cases "msq_lookup i st"; cases "ipcperm cred (msg_perm (msqids st (the (msq_lookup i st)))) IPC_R") auto
  have "msg_effect t c st st' (view_of st L) (view_of st' L')"
    using dis
  proof
    assume "\<exists>e. same_view t st L st' L' \<and> msg_pc st' t = MOut (Inl e)"
    then obtain e where e: "same_view t st L st' L'" "msg_pc st' t = MOut (Inl e)" by blast
    have "view_of st' L' = view_of st L" by (rule view_same [OF e(1)]) (simp add: o tview_pc(1) [OF e(2)])
    then show ?thesis using e(2) by (simp add: msg_effect_def Msgrcv)
  next
    assume "\<exists>q. rcv_views t st L st' L' q n ty flg"
    then obtain q where "rcv_views t st L st' L' q n ty flg" by blast
    from view_rcv [OF this o ty] show ?thesis by (cases "msg_pc st' t") (simp_all add: msg_effect_def Msgrcv)
  qed
  then show ?thesis using s'(1,2) by (auto simp: msg_next_state_def Msgrcv)
next
  case (Woken intr)
  show ?thesis
  proof (cases "msg_pc st t")
    case (SndWait q ty bs flg own)
    from snd_woken_ok [OF ok this, of intr] obtain st' L' where s': "snd_woken t q ty bs flg own intr (wake_self t st) = Some st'" "laid st' L'" "same_view t st L st' L'" "tview st' L' t = None" by blast
    have "view_of st' L' = view_of st L" using s'(3,4) SndWait by (intro view_same [of t]) (simp_all add: tview_pc)
    then show ?thesis using s'(1,2) by (auto simp: msg_next_state_def Woken SndWait msg_effect_def)
  next
    case (RcvWait q i n ty flg)
    have o: "tview st L t = None" using RcvWait by (rule tview_pc)
    from rcv_woken_ok [OF ok RcvWait, of pid intr] obtain st' L' where s': "rcv_woken t pid q i n ty flg intr (wake_self t st) = Some st'" "laid st' L'"
      "(\<exists>e. same_view t st L st' L' \<and> msg_pc st' t = MOut (Inl e)) \<or> rcv_views t st L st' L' q n ty flg" by blast
    have "msg_effect t c st st' (view_of st L) (view_of st' L')"
      using s'(3)
    proof
      assume "\<exists>e. same_view t st L st' L' \<and> msg_pc st' t = MOut (Inl e)"
      then obtain e where e: "same_view t st L st' L'" "msg_pc st' t = MOut (Inl e)" by blast
      have "view_of st' L' = view_of st L" by (rule view_same [OF e(1)]) (simp add: o tview_pc(1) [OF e(2)])
      then show ?thesis using e(2) by (simp add: msg_effect_def Woken RcvWait)
    next
      assume "rcv_views t st L st' L' q n ty flg"
      from view_rcv [OF this o ty] show ?thesis by (cases "msg_pc st' t") (simp_all add: msg_effect_def Woken RcvWait)
    qed
    then show ?thesis using s'(1,2) by (auto simp: msg_next_state_def Woken RcvWait)
  qed (use can in \<open>simp_all add: msg_can_def Woken\<close>)
next
  case (Copied x)
  show ?thesis
  proof (cases "msg_pc st t")
    case (SndCopy q h ty bs)
    have o: "tview st L t = None" using SndCopy by (rule tview_pc)
    from snd_copied_ok [OF ok SndCopy, of pid x] obtain st' L' where s': "snd_copied t pid q h ty bs x st = Some st'" "laid st' L'" "snd_views t st L st' L' q ty bs x" by blast
    have "msg_effect t c st st' (view_of st L) (view_of st' L')"
    proof (cases "x = Moved \<and> 1 \<le> ty \<and> msg_qbytes (msqids st q) \<noteq> 0")
      case True
      then have v: "msg_pc st' t = MOut (Inr (0, None))" "qview st' L' = (qview st L)(q := qview st L q @ [(ty, bs)])" "\<forall>u. u \<noteq> t \<longrightarrow> tview st' L' u = tview st L u" using s'(3) by (simp_all add: snd_views_def)
      have "tview st' L' u = tview st L u" for u using v(3) o tview_pc(1) [OF v(1)] by (cases "u = t") simp_all
      then have "tview st' L' = tview st L" by blast
      then show ?thesis using True v(1,2) by (simp add: msg_effect_def Copied SndCopy view_of_def a_send_def)
    next
      case False
      then obtain e where e: "same_view t st L st' L'" "msg_pc st' t = MOut (Inl e)" using s'(3) unfolding snd_views_def if_not_P [OF False] by blast
      have "view_of st' L' = view_of st L" by (rule view_same [OF e(1)]) (simp add: o tview_pc(1) [OF e(2)])
      then show ?thesis using e(2) by (simp add: msg_effect_def Copied SndCopy)
    qed
    then show ?thesis using s'(1,2) by (auto simp: msg_next_state_def Copied SndCopy)
  next
    case (RcvCopy q h n)
    from rcv_copied_ok [OF ok RcvCopy, of x] obtain st' L' r where s': "rcv_copied t q h n x st = Some st'" "laid st' L'" "same_view t st L st' L'" "msg_pc st' t = MOut r" by blast
    have "tview st' L' u = (if u = t then None else tview st L u)" for u using s'(3) tview_pc(1) [OF s'(4)] by (simp add: same_view_def)
    then have "tview st' L' = (tview st L)(t := None)" by auto
    then have "msg_effect t c st st' (view_of st L) (view_of st' L')" using s'(3) by (simp add: msg_effect_def Copied RcvCopy view_of_def a_deliver_def same_view_def)
    then show ?thesis using s'(1,2) by (auto simp: msg_next_state_def Copied RcvCopy)
  qed (use can in \<open>simp_all add: msg_can_def Copied\<close>)
next
  case (SetCopied arg)
  then obtain q cred where pc: "msg_pc st t = SetCopy q cred" using can by (auto simp: msg_can_def split: mpc.splits)
  from mset_copied_ok [OF ok pc, of arg] rv obtain r where s': "laid (mset_copied t q cred arg st) L" "same_view t st L (mset_copied t q cred arg st) L" "msg_pc (mset_copied t q cred arg st) t = MOut r"
    by (auto simp: SetCopied)
  have "view_of (mset_copied t q cred arg st) L = view_of st L" by (rule view_same [OF s'(2)]) (simp add: tview_pc(1) [OF s'(3)] tview_pc(6) [OF pc])
  then show ?thesis using s'(1) by (auto simp: msg_next_state_def SetCopied pc msg_effect_def)
qed

lemma msg_reach_laid: "msg_reach mi st \<Longrightarrow> msg_limits mi \<Longrightarrow> \<exists>L. laid st L \<and> a_types (view_of st L)"
proof (induction rule: msg_reach.induct)
  case (init pool hdrs qs st)
  then obtain L where L: "laid st L" using msginit_laid by blast
  have "msg_qbytes (msqids st q) = 0" for q using init.hyps by (auto simp: msginit_def split: if_splits)
  then have "a_types (view_of st L)" using queue_msgs_view [OF L] by (simp add: a_types_def view_of_def queue_msgs_def)
  then show ?case using L by blast
next
  case (step st t c pid st')
  then obtain L where "laid st L" "a_types (view_of st L)" by blast
  from msg_step_view [OF this(1) step.hyps(2,3) this(2), of pid] step.hyps(4) obtain L' where "laid st' L'" "msg_effect t c st st' (view_of st L) (view_of st' L')" by auto
  then show ?case using msg_effect_types [OF _ \<open>a_types (view_of st L)\<close>] by blast
qed

section \<open>Limits of the code\<close>

text \<open>With a negative type the first message whose type is low enough is taken, though a later one may have a lower type.\<close>

lemma rcv_first_not_lowest: "List.extract (rcv_match (-4)) [(3, x), (1, y)] = Some ([], (3, x), [(1, y)])"
  by (simp add: extract_Cons_code rcv_match_def type_match_def long_neg_def)

text \<open>A sender that has slept goes on whenever the slot has a queue, even if it is another one than before; a receiver compares sequence numbers.\<close>

lemma snd_woken_any_queue: "msg_qbytes (msqids st q) \<noteq> 0 \<Longrightarrow> snd_woken t q ty bs flg False False st = snd_loop t q ty bs flg st"
  by (simp add: snd_woken_def Let_def)

text \<open>When a receiver frees a message, only the sleepers on its queue are woken; a sender on another queue that waits for segments or headers sleeps on.\<close>

lemma rcv_wakes_own_queue:
  assumes ok: "laid st L" and pc: "msg_pc st t = RcvCopy q h n" and c: "msg_chan st u = Some r" and r: "r \<noteq> q"
  shows "\<exists>st'. rcv_copied t q h n Moved st = Some st' \<and> msg_chan st' u = Some r \<and> free_msghdrs st' = Some h"
proof -
  have own: "h < msgtql (minfo st)" "l_own L h = HThread t" using threads_okD(1) [OF laidD(3) [OF ok], of t h] by (simp_all add: carries_def pc)
  then have hu: "h \<in> used st L" by (simp add: used_def)
  from msg_freehdr_ok [OF laidD(1) [OF ok] hu] obtain st1 L1 where s1: "msg_freehdr h st = Some st1" "hdr_frame h st L st1 L1" by blast
  have "free_msghdrs st1 = Some h" using s1(1) by (auto simp: msg_freehdr_def Let_def bind_eq_Some_conv split: if_splits)
  moreover have "n \<le> msg_ts (msghdrs st h)" using threads_okD(4) [OF laidD(3) [OF ok], of t] by (simp add: pc pc_ok_def)
  ultimately show ?thesis using s1(1) c r hdr_frameD(4) [OF s1(2)] rcv_body_ok [OF laidD(1) [OF ok] hu, of n] by (simp add: rcv_copied_def Let_def mwakeup_def)
qed

lemma laid_all_free:
  assumes ok: "laid st L" and c: "\<And>t. carries (msg_pc st t) = None" and q: "\<And>q. msg_qbytes (msqids st q) = 0" and h: "h < msgtql (minfo st)"
  shows "l_own L h = HFree"
proof (cases "l_own L h")
  case (HQueued q')
  then show ?thesis using queues_okD(1) [OF laidD(2) [OF ok], of h q'] queues_okD(2) [OF laidD(2) [OF ok] q, of q'] h by simp
next
  case (HThread t)
  then show ?thesis using threads_okD(1) [OF laidD(3) [OF ok], of t h] c [of t] h by simp
qed

section \<open>Properties\<close>

text \<open>
  C37. No step of any thread panics, loops or leaves a table, and seen from outside the queues are lists of messages on which each call has the
  effect that its result announces: a successful send appends its message, a receive takes a message it may get (the first one for type 0,
  the first of its type for a positive type, for a negative type the first of some type not above the absolute value), a successful
  removal empties the queue, and calls that fail or sleep change nothing. The limits are \<open>msg_limits\<close>: at least one header and one segment,
  fewer than \<open>2 ^ 31\<close> headers, and queues of fewer than 65536 bytes; one step is left out, the update of a removed queue by the superuser
  (\<open>revives\<close>).
\<close>

theorem msg_refines_queues:
  assumes "msg_limits mi" and "msg_reach mi st" and "msg_can t c st" and "\<not> revives t c st"
  shows "\<exists>st' a a'. msg_next_state t pid c st = Some st' \<and> abs_rel st a \<and> msg_effect t c st st' a a' \<and> abs_rel st' a'"
proof -
  obtain L where L: "laid st L" "a_types (view_of st L)" using msg_reach_laid [OF assms(2,1)] by blast
  from msg_step_view [OF L(1) assms(3,4) L(2), of pid] obtain st' L' where "msg_next_state t pid c st = Some st'" "laid st' L'" "msg_effect t c st st' (view_of st L) (view_of st' L')" by blast
  then show ?thesis using abs_rel_view L(1) by blast
qed

text \<open>
  C38. Nothing is lost: when no thread is moving a message and all queues have been removed, every segment is on the free list and counted, and every
  header is on the free list. No queue ever has more than \<^verbatim>\<open>msgmnb\<close> bytes. Under the limits \<open>msg_limits\<close>, and when no update of the superuser has
  brought a removed queue back.
\<close>

theorem msg_nothing_leaks:
  assumes "msg_limits mi" and "msg_reach mi st"
  shows "(\<forall>q. msg_qbytes (msqids st q) \<noteq> 0 \<longrightarrow> msg_cbytes (msqids st q) \<le> msgmnb (minfo st))
    \<and> ((\<forall>t. carries (msg_pc st t) = None) \<and> (\<forall>q. msg_qbytes (msqids st q) = 0) \<longrightarrow>
       nfree_msgmaps st = int (msgseg (minfo st)) \<and> (\<exists>fs. lpath int (msgmaps st) (free_msgmaps st) fs (-1) \<and> set fs = {..<msgseg (minfo st)})
       \<and> (\<exists>fh. lpath Some (\<lambda>h. msg_next (msghdrs st h)) (free_msghdrs st) fh None \<and> set fh = {..<msgtql (minfo st)}))"
proof -
  obtain L where L: "laid st L" using msg_reach_laid [OF assms(2,1)] by blast
  note H = heap_okD [OF laidD(1) [OF L]]
  note S = segs_okD [OF H(2)]
  have "msg_cbytes (msqids st q) \<le> msgmnb (minfo st)" if "msg_qbytes (msqids st q) \<noteq> 0" for q using queue_okD(5) [OF queues_okD(3) [OF laidD(2) [OF L] that]] .
  moreover have "nfree_msgmaps st = int (msgseg (minfo st)) \<and> (\<exists>fs. lpath int (msgmaps st) (free_msgmaps st) fs (-1) \<and> set fs = {..<msgseg (minfo st)})
      \<and> (\<exists>fh. lpath Some (nexts st) (free_msghdrs st) fh None \<and> set fh = {..<msgtql (minfo st)})"
    if c0: "\<forall>t. carries (msg_pc st t) = None" and q0: "\<forall>q. msg_qbytes (msqids st q) = 0"
  proof -
    have o: "l_own L h = HFree" if "h < msgtql (minfo st)" for h using laid_all_free [OF L _ _ that] c0 q0 by blast
    then have "used st L = {}" by (auto simp: used_def)
    then have fs: "set (l_fs L) = {..<msgseg (minfo st)}" using S(6) by auto
    moreover have "distinct (l_fs L)" by (rule sgl.path_distinct [OF S(1)])
    ultimately have "length (l_fs L) = msgseg (minfo st)" using distinct_card [of "l_fs L"] by simp
    moreover have "set (l_fh L) = {..<msgtql (minfo st)}" using H(5) o by auto
    ultimately show ?thesis using S(1,2) H(4) fs by auto
  qed
  ultimately show ?thesis by blast
qed


lemma snd_copied_bad_type: "snd_copied t pid q h ty bs Moved st = Some st' \<Longrightarrow> ty < 1 \<Longrightarrow> msg_pc st' t = MOut (Inl EINVAL)"
  by (auto simp: snd_copied_def snd_undo_def Let_def mfail_def)

text \<open>
  C40. What \<^verbatim>\<open>msgsnd\<close> does on a queue it may write, under the limits \<open>msg_limits\<close>: a message longer than the queue may be is refused; when the
  queue is locked or full, or headers or segments are short, the call sleeps on the queue or fails; else, once it has been read from the user, the message
  with all its bytes becomes the last of the queue if its type is positive, and is refused with \<^verbatim>\<open>EINVAL\<close> otherwise.
\<close>

theorem msgsnd_correct:
  assumes "msg_limits mi" and "msg_reach mi st" and pc: "msg_pc st t = MOut r" and look: "msq_lookup msqid st = Some q" and perm: "ipcperm cred (msg_perm (msqids st q)) IPC_W = None"
    and ms: "queue_msgs q st = Some ms"
  shows "\<exists>st'. sys_msgsnd t cred msqid ty bs flg st = Some st' \<and> queue_msgs q st' = Some ms \<and>
    (if length bs > msg_qbytes (msqids st q) then msg_pc st' t = MOut (Inl EINVAL)
     else if ds_locked (msqids st q) \<or> length bs + msg_cbytes (msqids st q) > msg_qbytes (msqids st q) \<or> nfree_msgmaps st < int (segs_needed (length bs) (minfo st)) \<or> free_msghdrs st = None
     then if flg AND ucast IPC_NOWAIT \<noteq> 0 then msg_pc st' t = MOut (Inl EAGAIN) else msg_chan st' t = Some q \<and> (\<exists>own. msg_pc st' t = SndWait q ty bs flg own)
     else \<exists>st''. msg_next_state t pid (Copied Moved) st' = Some st'' \<and>
       (if 1 \<le> ty then msg_pc st'' t = MOut (Inr (0, None)) \<and> queue_msgs q st'' = Some (ms @ [(ty, bs)])
        else msg_pc st'' t = MOut (Inl EINVAL) \<and> queue_msgs q st'' = Some ms))"
proof -
  obtain L where L: "laid st L" using msg_reach_laid [OF assms(2,1)] by blast
  have v: "ms = qview st L q" using ms queue_msgs_view [OF L, of q] by simp
  have short: "(ds_locked (msqids st q) \<or> length bs + msg_cbytes (msqids st q) > msg_qbytes (msqids st q) \<or> nfree_msgmaps st < int (segs_needed (length bs) (minfo st)) \<or> free_msghdrs st = None)
      = snd_short q (length bs) st" by (simp add: snd_short_def)
  from sys_msgsnd_ok [OF L pc, of cred msqid ty bs flg] obtain st' L' where s': "sys_msgsnd t cred msqid ty bs flg st = Some st'" "laid st' L'" "same_view t st L st' L'" by blast
  have q': "queue_msgs q st' = Some ms" using queue_msgs_view [OF s'(2), of q] s'(3) by (simp add: same_view_def v)
  have loop: "snd_loop t q ty bs flg st = Some st'" using s'(1) by (simp add: sys_msgsnd_def look perm)
  show ?thesis
  proof (cases "length bs > msg_qbytes (msqids st q) \<or> snd_short q (length bs) st")
    case True
    then have "if length bs > msg_qbytes (msqids st q) then msg_pc st' t = MOut (Inl EINVAL)
      else if flg AND ucast IPC_NOWAIT \<noteq> 0 then msg_pc st' t = MOut (Inl EAGAIN) else msg_chan st' t = Some q \<and> (\<exists>own. msg_pc st' t = SndWait q ty bs flg own)"
      using loop by (auto simp: snd_loop_def mfail_def Let_def msleep_def split: if_splits)
    then show ?thesis unfolding short using True s'(1) q' by (intro exI [of _ st']) (simp split: if_splits)
  next
    case False
    then have l: "snd_alloc t q ty bs st = Some st'" using loop by (simp add: snd_loop_def)
    have live: "msg_qbytes (msqids st q) \<noteq> 0" using msq_lookup_live [OF look] by simp
    have at: "laid (at_pc t (MOut r) st) L" using L pc by (simp add: at_pc_triv)
    from lock_q_alloc_ok [OF at plain_simps(1) live, of bs ty] False l obtain h where h: "msg_pc st' t = SndCopy q h ty bs" and live': "msg_qbytes (msqids st' q) \<noteq> 0" by auto
    from snd_copied_ok [OF s'(2) h, of pid Moved] obtain st'' L'' where t: "snd_copied t pid q h ty bs Moved st' = Some st''" "laid st'' L''" "snd_views t st' L' st'' L'' q ty bs Moved" by blast
    have "if 1 \<le> ty then msg_pc st'' t = MOut (Inr (0, None)) \<and> queue_msgs q st'' = Some (ms @ [(ty, bs)]) else msg_pc st'' t = MOut (Inl EINVAL) \<and> queue_msgs q st'' = Some ms"
      using queue_msgs_view [OF t(2), of q] t(3) s'(3) live' snd_copied_bad_type [OF t(1)] by (auto simp: v same_view_def snd_views_def)
    then show ?thesis unfolding short using False s'(1) q' t(1) h by (intro exI [of _ st']) (simp add: msg_next_state_def)
  qed
qed

text \<open>An instance: two queues, two headers and two segments of eight bytes; a queue with the key 1 is made, and a message of the type 3 sent.\<close>

definition demo_msginfo :: msginfo where
  "demo_msginfo = \<lparr>msgmni = 2, msgmnb = 16, msgtql = 2, msgssz = 8, msgseg = 2\<rparr>"

definition demo_user :: ucred where
  "demo_user = \<lparr>cr_uid = 0, cr_gid = 0, cr_groups = []\<rparr>"

definition demo_boot :: msg_state where
  "demo_boot = the (msginit demo_msginfo (\<lambda>i. 0) (\<lambda>h. \<lparr>msg_next = None, msg_type = 0, msg_ts = 0, msg_spot = 0\<rparr>)
     (\<lambda>q. \<lparr>msg_perm = \<lparr>cuid = 0, cgid = 0, uid = 0, gid = 0, mode = 0, seq = 0, key = 0\<rparr>, msg_first = None, msg_last = None, msg_cbytes = 0, msg_qnum = 0, msg_qbytes = 0, msg_lspid = 0, msg_lrpid = 0\<rparr>))"

definition demo_queue :: msg_state where
  "demo_queue = the (msg_next_state 0 5 (Msgget demo_user 1 0x380) demo_boot)"

text \<open>The state in which the message is copied in, and the one after that.\<close>

definition demo_copy :: msg_state where
  "demo_copy = the (msg_next_state 0 5 (Msgsnd demo_user 0x10000 3 [10, 11, 12] 0) demo_queue)"

definition demo_sent :: msg_state where
  "demo_sent = the (msg_next_state 0 5 (Copied Moved) demo_copy)"

lemma msg_limits_demo: "msg_limits demo_msginfo"
  by (simp add: msg_limits_def demo_msginfo_def)

lemma msg_reach_the:
  assumes "msg_reach mi st" "msg_limits mi" "msg_can t c st" "\<not> revives t c st"
  shows "msg_reach mi (the (msg_next_state t pid c st))"
proof -
  obtain L where "laid st L" "a_types (view_of st L)" using msg_reach_laid [OF assms(1,2)] by blast
  from msg_step_view [OF this(1) assms(3,4) this(2), of pid] obtain st' where "msg_next_state t pid c st = Some st'" by blast
  then show ?thesis using msg_reach.step [OF assms(1,3,4)] by simp
qed

lemma demo_boot_simps:
  "msg_pc demo_boot t = MOut (Inl EINVAL)" "minfo demo_boot = demo_msginfo" "msg_qbytes (msqids demo_boot q) = 0" "ds_locked (msqids demo_boot q) = False" "msg_perm (msqids demo_boot q) = \<lparr>cuid = 0, cgid = 0, uid = 0, gid = 0, mode = 0, seq = 0, key = 0\<rparr>"
  "nfree_msgmaps demo_boot = 2" "free_msgmaps demo_boot = 0" "free_msghdrs demo_boot = Some 0" "msgpool demo_boot i = 0" "msgmaps demo_boot i = (if i = 0 then 1 else -1)"
  "msghdrs demo_boot h = \<lparr>msg_next = (if h = 0 then Some 1 else None), msg_type = 0, msg_ts = 0, msg_spot = 0\<rparr>"
  by (auto simp: demo_boot_def msginit_def demo_msginfo_def ds_locked_def)

definition demo_ds :: msqid_ds where
  "demo_ds = \<lparr>msg_perm = \<lparr>cuid = 0, cgid = 0, uid = 0, gid = 0, mode = 0x180, seq = 1, key = 1\<rparr>, msg_first = None, msg_last = None, msg_cbytes = 0, msg_qnum = 0, msg_qbytes = 16, msg_lspid = 0, msg_lrpid = 0\<rparr>"

lemma demo_queue_eq: "demo_queue = at_pc 0 (MOut (Inr (0x10000, None))) (set_ds 0 demo_ds demo_boot)"
proof -
  have "List.find (\<lambda>q. msg_qbytes (msqids demo_boot q) = 0 \<and> \<not> ds_locked (msqids demo_boot q)) [0..<2] = Some 0" by (simp add: demo_boot_simps upt_rec)
  moreover have "List.find (\<lambda>q. msg_qbytes (msqids demo_boot q) \<noteq> 0 \<and> key (msg_perm (msqids demo_boot q)) = 1) [0..<2] = None" by (simp add: demo_boot_simps upt_rec)
  ultimately show ?thesis
    by (simp add: demo_queue_def msg_next_state_def sys_msgget_def demo_boot_simps demo_msginfo_def IPC_PRIVATE_def IPC_CREAT_def msgget_found_def msgget_new_def demo_user_def set_ds_def at_pc_def IXSEQ_TO_IPCID_def demo_ds_def)
qed

lemma demo_queue_simps:
  "msg_pc demo_queue t = (if t = 0 then MOut (Inr (0x10000, None)) else MOut (Inl EINVAL))" "minfo demo_queue = demo_msginfo" "msqids demo_queue q = (if q = 0 then demo_ds else msqids demo_boot q)"
  "nfree_msgmaps demo_queue = 2" "free_msgmaps demo_queue = 0" "free_msghdrs demo_queue = Some 0" "msgpool demo_queue i = 0" "msgmaps demo_queue i = (if i = 0 then 1 else -1)"
  "msghdrs demo_queue h = \<lparr>msg_next = (if h = 0 then Some 1 else None), msg_type = 0, msg_ts = 0, msg_spot = 0\<rparr>"
  by (simp_all add: demo_queue_eq set_ds_def demo_boot_simps)

lemma demo_perm: "ipcperm demo_user perm IPC_R = None" "ipcperm demo_user perm IPC_W = None"
  by (simp_all add: ipcperm_def vaccess_def demo_user_def IPC_R_def IPC_W_def IPC_M_def VEXEC_def)

lemma demo_seq: "IPCID_TO_IX 0x10000 = 0" "IPCID_TO_SEQ 0x10000 = 1"
  by (simp_all add: IPCID_TO_IX_def IPCID_TO_SEQ_def)

lemma demo_lookup: "msq_lookup 0x10000 demo_queue = Some 0"
  by (simp add: msq_lookup_def demo_seq demo_queue_simps demo_msginfo_def demo_ds_def)

lemma demo_copy_eq:
  "demo_copy = at_pc 0 (SndCopy 0 0 3 [10, 11, 12]) (set_hdr 0 \<lparr>msg_next = Some 1, msg_type = 0, msg_ts = 3, msg_spot = 0\<rparr>
     ((set_map 0 (-1) (lock_q 0 True demo_queue))\<lparr>free_msghdrs := Some 1, free_msgmaps := 1, nfree_msgmaps := 1\<rparr>))"
proof -
  have n: "segs_needed (Suc (Suc (Suc 0))) demo_msginfo = 1" by (simp add: segs_needed_def demo_msginfo_def)
  have u: "\<not> ds_locked demo_ds" "msg_qbytes demo_ds = 16" "msg_cbytes demo_ds = 0" by (simp_all add: ds_locked_def demo_ds_def MSG_LOCKED_def)
  have s: "\<not> snd_short 0 (Suc (Suc (Suc 0))) demo_queue" using u n by (simp add: snd_short_def demo_queue_simps)
  have "sys_msgsnd 0 demo_user 0x10000 3 [10, 11, 12] 0 demo_queue = snd_alloc 0 0 3 [10, 11, 12] demo_queue"
    using s u by (simp add: sys_msgsnd_def demo_lookup demo_perm snd_loop_def demo_queue_simps)
  moreover have "snd_alloc 0 0 3 [10, 11, 12] demo_queue = Some (at_pc 0 (SndCopy 0 0 3 [10, 11, 12]) (set_hdr 0 \<lparr>msg_next = Some 1, msg_type = 0, msg_ts = 3, msg_spot = 0\<rparr>
     ((set_map 0 (-1) (lock_q 0 True demo_queue))\<lparr>free_msghdrs := Some 1, free_msgmaps := 1, nfree_msgmaps := 1\<rparr>)))"
    using u by (simp add: snd_alloc_def demo_queue_simps n Let_def set_hdr_def set_map_def) (simp add: demo_msginfo_def demo_queue_simps)
  ultimately show ?thesis by (simp add: demo_copy_def msg_next_state_def)
qed

lemma demo_sent_eq:
  "demo_sent = at_pc 0 (MOut (Inr (0, None))) (mwakeup 0 (set_ds 0 ((ds_lock False (ds_lock True demo_ds))\<lparr>msg_first := Some 0, msg_last := Some 0, msg_cbytes := 3, msg_qnum := 1, msg_lspid := 5\<rparr>)
     (set_hdr 0 \<lparr>msg_next = None, msg_type = 3, msg_ts = 3, msg_spot = 0\<rparr> (demo_copy\<lparr>msgpool := pool_put 0 [10, 11, 12] (msgpool demo_copy)\<rparr>))))"
proof -
  define st1 where "st1 = set_hdr 0 ((msghdrs demo_copy 0)\<lparr>msg_type := 3\<rparr>) demo_copy"
  have m: "minfo st1 = demo_msginfo" "msgmaps st1 0 = -1" "msg_spot (msghdrs st1 0) = 0" "msg_first (msqids st1 0) = None" "msg_qbytes (msqids st1 0) = 16"
    by (simp_all add: st1_def demo_copy_eq set_hdr_def set_map_def demo_queue_simps demo_ds_def)
  define st2 where "st2 = st1\<lparr>msgpool := pool_put 0 [10, 11, 12] (msgpool st1)\<rparr>"
  have "snd_body (-1) [] st2 = Some (-1, st2)" by (subst snd_body.simps) simp
  then have b: "snd_body 0 [10, 11, 12] st1 = Some (-1, st2)" using m by (subst snd_body.simps) (simp add: Let_def demo_msginfo_def st2_def)
  have d: "msqids st2 0 = ds_lock True demo_ds" by (simp add: st2_def st1_def demo_copy_eq set_hdr_def set_map_def lock_q_def set_ds_def demo_queue_simps)
  have h: "msghdrs st2 0 = \<lparr>msg_next = Some 1, msg_type = 3, msg_ts = 3, msg_spot = 0\<rparr>" by (simp add: st2_def st1_def demo_copy_eq set_hdr_def)
  have f: "msg_first (ds_lock b (ds_lock c demo_ds)) = None" "msg_cbytes (ds_lock b (ds_lock c demo_ds)) = 0" "msg_qnum (ds_lock b (ds_lock c demo_ds)) = 0" for b c by (simp_all add: ds_lock_def demo_ds_def)
  have e: "enqueue 0 0 5 (lock_q 0 False st2) = Some (set_ds 0 ((ds_lock False (ds_lock True demo_ds))\<lparr>msg_first := Some 0, msg_last := Some 0, msg_cbytes := 3, msg_qnum := 1, msg_lspid := 5\<rparr>)
     (set_hdr 0 \<lparr>msg_next = None, msg_type = 3, msg_ts = 3, msg_spot = 0\<rparr> st2))"
    using d h f by (simp add: enqueue_def Let_def lock_q_def set_ds_def set_hdr_def)
  have "msg_pc demo_copy 0 = SndCopy 0 0 3 [10, 11, 12]" by (simp add: demo_copy_eq)
  then have "msg_next_state 0 5 (Copied Moved) demo_copy = snd_copied 0 5 0 0 3 [10, 11, 12] Moved demo_copy" by (simp add: msg_next_state_def)
  moreover have "snd_copied 0 5 0 0 3 [10, 11, 12] Moved demo_copy = map_option (\<lambda>st. at_pc 0 (MOut (Inr (0, None))) (mwakeup 0 st)) (enqueue 0 0 5 (lock_q 0 False st2))"
    using b m by (simp add: snd_copied_def Let_def st1_def [symmetric] st2_def)
  moreover have "set_hdr 0 m st2 = set_hdr 0 m (demo_copy\<lparr>msgpool := pool_put 0 [10, 11, 12] (msgpool demo_copy)\<rparr>)" for m by (simp add: st2_def st1_def set_hdr_def)
  ultimately show ?thesis unfolding demo_sent_def by (simp only: e option.map option.sel)
qed

lemma demo_sent_lookup: "msq_lookup 0x10000 demo_sent = Some 0" "msg_pc demo_sent t = MOut (if t = 0 then Inr (0, None) else Inl EINVAL)"
proof -
  have 1: "minfo demo_sent = demo_msginfo" "msg_qbytes (msqids demo_sent 0) = 16" "seq (msg_perm (msqids demo_sent 0)) = 1"
    by (simp_all add: demo_sent_eq mwakeup_def set_ds_def set_hdr_def demo_copy_eq set_map_def demo_queue_simps ds_lock_def demo_ds_def)
  then show "msq_lookup 0x10000 demo_sent = Some 0" by (simp add: msq_lookup_def demo_seq demo_msginfo_def)
  show "msg_pc demo_sent t = MOut (if t = 0 then Inr (0, None) else Inl EINVAL)"
    by (simp add: demo_sent_eq mwakeup_def set_ds_def set_hdr_def demo_copy_eq set_map_def demo_queue_simps)
qed

lemma demo_reach: "msg_reach demo_msginfo demo_boot" "msg_reach demo_msginfo demo_queue" "msg_reach demo_msginfo demo_sent" "msg_reach demo_msginfo demo_copy"
proof -
  show 0: "msg_reach demo_msginfo demo_boot" unfolding demo_boot_def
    by (rule msg_reach.init, rule option.collapse [symmetric]) (simp add: msginit_def demo_msginfo_def)
  show 1: "msg_reach demo_msginfo demo_queue" unfolding demo_queue_def
    by (rule msg_reach_the [OF 0 msg_limits_demo]) (simp_all add: msg_can_def demo_boot_simps revives_def)
  show 2: "msg_reach demo_msginfo demo_copy" unfolding demo_copy_def
    by (rule msg_reach_the [OF 1 msg_limits_demo]) (simp_all add: msg_can_def demo_queue_simps revives_def)
  show "msg_reach demo_msginfo demo_sent" unfolding demo_sent_def
    by (rule msg_reach_the [OF 2 msg_limits_demo]) (simp_all add: msg_can_def demo_copy_eq revives_def)
qed

lemma demo_queue_msgs: "queue_msgs 0 demo_queue = Some []" "queue_msgs 0 demo_sent = Some [(3, [10, 11, 12])]"
proof -
  have n: "mwalk None st = Some []" for st by (subst mwalk.simps) simp
  show "queue_msgs 0 demo_queue = Some []" by (simp add: queue_msgs_def demo_queue_simps demo_ds_def n)
  have f: "msg_qbytes (msqids demo_sent 0) = 16" "msg_first (msqids demo_sent 0) = Some 0" "msghdrs demo_sent 0 = \<lparr>msg_next = None, msg_type = 3, msg_ts = 3, msg_spot = 0\<rparr>" "minfo demo_sent = demo_msginfo"
    "msgpool demo_sent = pool_put 0 [10, 11, 12] (msgpool demo_copy)"
    by (simp_all add: demo_sent_eq mwakeup_def set_ds_def set_hdr_def demo_copy_eq set_map_def demo_queue_simps ds_lock_def demo_ds_def)
  have "rcv_body x 0 demo_sent = Some []" for x by (subst rcv_body.simps) simp
  then have "rcv_body 0 3 demo_sent = Some [10, 11, 12]"
    by (subst rcv_body.simps) (simp add: Let_def f demo_msginfo_def pool_put_def upt_rec numeral_nat)
  then show "queue_msgs 0 demo_sent = Some [(3, [10, 11, 12])]" by (simp add: queue_msgs_def f) (subst mwalk.simps, simp add: Let_def f n)
qed

text \<open>
  The step that is left out: a thread of the superuser waits for the argument of \<^verbatim>\<open>IPC_SET\<close>, the queue with a message is removed meanwhile, and then the update
  makes it a queue again. Its first header is on the free list too.
\<close>

lemma set_revives_removed:
  "\<exists>st1 st2 st3. msg_next_state 1 6 (Msgctl demo_user 0x10000 MSET) demo_sent = Some st1 \<and> msg_next_state 0 5 (Msgctl demo_user 0x10000 MRMID) st1 = Some st2
     \<and> msg_next_state 1 6 (SetCopied (Inr (0, 0, 0, 16))) st2 = Some st3
     \<and> msg_qbytes (msqids st2 0) = 0 \<and> msg_qbytes (msqids st3 0) = 16 \<and> msg_first (msqids st3 0) = Some 0 \<and> free_msghdrs st3 = Some 0"
proof -
  define st1 where "st1 = at_pc 1 (SetCopy 0 demo_user) demo_sent"
  have M: "ipcperm demo_user perm IPC_M = None" for perm by (simp add: ipcperm_def demo_user_def IPC_M_def)
  have 1: "msg_next_state 1 6 (Msgctl demo_user 0x10000 MSET) demo_sent = Some st1"
    by (simp add: msg_next_state_def msgctl1_def demo_sent_lookup Let_def M st1_def)
  have i: "minfo st1 = demo_msginfo" "msg_qbytes (msqids st1 0) = 16" "msg_first (msqids st1 0) = Some 0" "msg_cbytes (msqids st1 0) = 3" "msg_qnum (msqids st1 0) = 1" "seq (msg_perm (msqids st1 0)) = 1"
    "msghdrs st1 0 = \<lparr>msg_next = None, msg_type = 3, msg_ts = 3, msg_spot = 0\<rparr>" "msgmaps st1 0 = -1"
    by (simp_all add: st1_def demo_sent_eq mwakeup_def set_ds_def set_hdr_def demo_copy_eq set_map_def lock_q_def demo_queue_simps ds_lock_def demo_ds_def)
  have l: "msq_lookup 0x10000 st1 = Some 0" using i by (simp add: msq_lookup_def demo_seq demo_msginfo_def)
  define st1' where "st1' = set_ds 0 ((msqids st1 0)\<lparr>msg_cbytes := 0, msg_qnum := 0\<rparr>) st1"
  have i': "minfo st1' = demo_msginfo" "msghdrs st1' 0 = msghdrs st1 0" "msgmaps st1' 0 = -1" using i by (simp_all add: st1'_def set_ds_def)
  define st1'' where "st1'' = set_hdr 0 \<lparr>msg_next = None, msg_type = 3, msg_ts = 0, msg_spot = -1\<rparr> ((set_map 0 (free_msgmaps st1') st1')\<lparr>free_msgmaps := 0, nfree_msgmaps := nfree_msgmaps st1' + 1\<rparr>)"
  have e: "freehdr_loop 0 st1'' = Some st1''" by (subst freehdr_loop.simps) (simp add: st1''_def set_hdr_def)
  have "freehdr_loop 0 st1' = freehdr_loop 0 st1''" by (subst freehdr_loop.simps) (simp add: i' i(7) demo_msginfo_def Let_def st1''_def set_map_def)
  then have "msg_freehdr 0 st1' = Some ((set_hdr 0 \<lparr>msg_next = free_msghdrs st1'', msg_type = 3, msg_ts = 0, msg_spot = -1\<rparr> st1'')\<lparr>free_msghdrs := Some 0\<rparr>)"
    using e by (simp add: msg_freehdr_def Let_def st1''_def set_hdr_def)
  moreover define st1''' where "st1''' = (set_hdr 0 \<lparr>msg_next = free_msghdrs st1'', msg_type = 3, msg_ts = 0, msg_spot = -1\<rparr> st1'')\<lparr>free_msghdrs := Some 0\<rparr>"
  moreover have "rmid_loop 0 None st1''' = Some st1'''" by (subst rmid_loop.simps) simp
  ultimately have r: "rmid_loop 0 (Some 0) st1 = Some st1'''" by (subst rmid_loop.simps) (simp add: Let_def i ulong_sub_def st1'_def)
  have d: "msqids st1''' 0 = (msqids st1 0)\<lparr>msg_cbytes := 0, msg_qnum := 0\<rparr>" "free_msghdrs st1''' = Some 0" "minfo st1''' = demo_msginfo" "msg_pc st1''' 1 = SetCopy 0 demo_user"
    using i by (simp_all add: st1'''_def st1''_def st1'_def set_hdr_def set_map_def set_ds_def) (simp add: st1_def)
  define st2 where "st2 = at_pc 0 (MOut (Inr (0, None))) (mwakeup 0 (set_ds 0 ((msqids st1''' 0)\<lparr>msg_qbytes := 0\<rparr>) st1'''))"
  have 2: "msg_next_state 0 5 (Msgctl demo_user 0x10000 MRMID) st1 = Some st2"
    by (simp add: msg_next_state_def msgctl1_def l Let_def M i r d st2_def)
  have d2: "msg_pc st2 1 = SetCopy 0 demo_user" "msqids st2 0 = (msqids st1 0)\<lparr>msg_cbytes := 0, msg_qnum := 0, msg_qbytes := 0\<rparr>" "minfo st2 = demo_msginfo" "free_msghdrs st2 = Some 0"
    using d by (simp_all add: st2_def mwakeup_def set_ds_def)
  define st3 where "st3 = at_pc 1 (MOut (Inr (0, None))) (mset_write 0 (0, 0, 0, 16) st2)"
  have 3: "msg_next_state 1 6 (SetCopied (Inr (0, 0, 0, 16))) st2 = Some st3"
    by (simp add: msg_next_state_def d2 mset_copied_def demo_user_def demo_msginfo_def st3_def del: One_nat_def)
  have "msg_qbytes (msqids st3 0) = 16" "msg_first (msqids st3 0) = Some 0" "free_msghdrs st3 = Some 0"
    by (simp_all add: st3_def mset_write_def Let_def set_ds_def d2 i)
  then show ?thesis using 1 2 3 d2(2) by auto
qed

theorem msg_refines_queues_witness:
  "\<exists>a a'. abs_rel demo_copy a \<and> msg_effect 0 (Copied Moved) demo_copy demo_sent a a' \<and> abs_rel demo_sent a' \<and> a_q a' 0 = [(3, [10, 11, 12])]"
proof -
  have "\<exists>st' a a'. msg_next_state 0 5 (Copied Moved) demo_copy = Some st' \<and> abs_rel demo_copy a \<and> msg_effect 0 (Copied Moved) demo_copy st' a a' \<and> abs_rel st' a'"
    by (rule msg_refines_queues [OF msg_limits_demo demo_reach(4)]) (simp_all add: msg_can_def demo_copy_eq revives_def)
  then obtain a a' where "abs_rel demo_copy a" "msg_effect 0 (Copied Moved) demo_copy demo_sent a a'" "abs_rel demo_sent a'" by (auto simp: demo_sent_def)
  moreover from this(3) have "a_q a' 0 = [(3, [10, 11, 12])]" using demo_queue_msgs(2) by (simp add: abs_rel_def)
  ultimately show ?thesis by blast
qed

theorem msg_nothing_leaks_witness:
  "nfree_msgmaps demo_boot = 2 \<and> (\<exists>fh. lpath Some (\<lambda>h. msg_next (msghdrs demo_boot h)) (free_msghdrs demo_boot) fh None \<and> set fh = {..<2})"
  using msg_nothing_leaks [OF msg_limits_demo demo_reach(1)] by (simp add: demo_boot_simps demo_msginfo_def carries_def)


theorem msgsnd_correct_witness:
  "\<exists>st' st''. sys_msgsnd 0 demo_user 0x10000 3 [10, 11, 12] 0 demo_queue = Some st' \<and> msg_next_state 0 5 (Copied Moved) st' = Some st'' \<and> queue_msgs 0 st'' = Some [(3, [10, 11, 12])]"
proof -
  have u: "\<not> ds_locked demo_ds" "msg_qbytes demo_ds = 16" "msg_cbytes demo_ds = 0" "segs_needed (Suc (Suc (Suc 0))) demo_msginfo = 1"
    by (simp_all add: ds_locked_def demo_ds_def MSG_LOCKED_def segs_needed_def demo_msginfo_def)
  have p: "msg_pc demo_queue 0 = MOut (Inr (0x10000, None))" by (simp add: demo_queue_simps)
  show ?thesis
    using msgsnd_correct [OF msg_limits_demo demo_reach(2) p demo_lookup demo_perm(2) demo_queue_msgs(1), of 3 "[10, 11, 12]" 0 5] u
    by (auto simp: demo_queue_simps)
qed
end
