(* ===== verification/Descrip.thy ===== *)
theory Descrip
  imports Kern_Prelude "HOL-Library.Multiset"
begin

text \<open>
  File descriptors (\<^verbatim>\<open>src/sys/kern/kern_descrip.c\<close>, \<^verbatim>\<open>src/sys/sys/filedesc.h\<close>, \<^verbatim>\<open>src/sys/sys/file.h\<close>): the descriptor table of a process with its
  two-level bitmap of descriptors in use, and the open files with their reference counts. Pointers to files are numbers; a
  table has its arrays as lists. Reading a bitmap outside of its array, a null file pointer, the use of a freed file and a panic
  are \<open>None\<close>. What other processes do while \<^verbatim>\<open>closef\<close> waits for the last user of a file, the result of closing the object
  behind a file and whether the process has used record locks are parameters. The descriptors that the functions of this
  file hand to each other are below \<^verbatim>\<open>fd_nfiles\<close>.
\<close>

section \<open>Data\<close>

definition NDFILE :: nat where "NDFILE = 20"

definition NDEXTENT :: nat where "NDEXTENT = 50"

definition NDENTRIES :: nat where "NDENTRIES = 32"

definition NDREDUCE :: "nat \<Rightarrow> nat" where "NDREDUCE x = (x + NDENTRIES - 1) div NDENTRIES"

definition NDHISLOTS :: "nat \<Rightarrow> nat" where "NDHISLOTS x = NDREDUCE (NDREDUCE x)"

definition NDLOSLOTS :: "nat \<Rightarrow> nat" where "NDLOSLOTS x = NDHISLOTS x * NDENTRIES"

definition UF_EXCLOSE :: u8 where "UF_EXCLOSE = 1"

definition FREAD :: u16 where "FREAD = 1"

definition FWRITE :: u16 where "FWRITE = 2"

definition FHASLOCK :: u16 where "FHASLOCK = 0x4000"

definition LONG_MAX :: int where "LONG_MAX = 2 ^ 63 - 1"

datatype dtype = DTYPE_NONE | DTYPE_VNODE | DTYPE_SOCKET | DTYPE_PIPE | DTYPE_KQUEUE | DTYPE_CRYPTO | DTYPE_SYSTRACE

datatype iflag = FIF_WANTCLOSE | FIF_LARVAL

record ofile =
  f_flag :: u16
  f_type :: dtype
  f_count :: int
  f_usecount :: int
  f_iflags :: "iflag set"
  f_ops :: bool

record filedesc =
  fd_ofiles :: "nat option list"
  fd_ofileflags :: "u8 list"
  fd_himap :: "u32 list"
  fd_lomap :: "u32 list"
  fd_nfiles :: nat
  fd_lastfile :: nat
  fd_freefile :: nat
  fd_refcnt :: nat
  fd_knlist :: bool

text \<open>The calls of \<^verbatim>\<open>VOP_ADVLOCK\<close> that unlock a whole file, for the process or for the file.\<close>

datatype unlock = UnlockPosix nat | UnlockFlock nat

record fstate =
  fdt :: filedesc
  files :: "nat \<Rightarrow> ofile option"
  filehead :: "nat list"
  nfiles :: int
  maxfiles :: nat
  rlim_cur :: nat
  unlocks :: "unlock list"

record fenv =
  drain :: "nat \<Rightarrow> fstate \<Rightarrow> fstate"
  fo_close :: "nat \<Rightarrow> errno option"
  p_advlock :: bool

section \<open>Bitmaps\<close>

text \<open>One plus the index of the lowest bit that is set, or 0.\<close>

definition ffs :: "u32 \<Rightarrow> nat" where
  "ffs w = (case find (bit w) [0..<32] of None \<Rightarrow> 0 | Some k \<Rightarrow> Suc k)"

text \<open>The searches give \<open>Some None\<close> for \<^verbatim>\<open>-1\<close>.\<close>

function next_word :: "u32 list \<Rightarrow> nat \<Rightarrow> nat \<Rightarrow> nat option option" where
  "next_word bitmap off maxoff =
     (if off < maxoff then
        if off \<ge> length bitmap then None
        else if bitmap ! off \<noteq> -1 then Some (Some (off * NDENTRIES + ffs (NOT (bitmap ! off)) - 1))
        else next_word bitmap (Suc off) maxoff
      else Some None)"
  by pat_completeness auto
termination
  by (relation "measure (\<lambda>(bitmap, off, maxoff). maxoff - off)") auto

declare next_word.simps [simp del]

definition find_next_zero :: "u32 list \<Rightarrow> nat \<Rightarrow> nat \<Rightarrow> nat option option" where
  "find_next_zero bitmap want bits =
     (if want > bits then Some None
      else
        let off = want div NDENTRIES; i = want mod NDENTRIES
        in if i \<noteq> 0 then
             if off \<ge> length bitmap then None
             else
               let sub = bitmap ! off OR drop_bit (NDENTRIES - i) (-1)
               in if sub \<noteq> -1 then Some (Some (off * NDENTRIES + ffs (NOT sub) - 1)) else next_word bitmap (Suc off) (NDLOSLOTS bits)
           else next_word bitmap off (NDLOSLOTS bits))"

text \<open>The last word before \<open>n\<close> that is not zero, and the last open descriptor up to \<open>i\<close>.\<close>

fun last_word :: "u32 list \<Rightarrow> nat \<Rightarrow> nat option" where
  "last_word bitmap 0 = None"
| "last_word bitmap (Suc off) = (if bitmap ! off = 0 then last_word bitmap off else Some off)"

fun last_open :: "nat option list \<Rightarrow> nat \<Rightarrow> nat" where
  "last_open ofiles 0 = 0"
| "last_open ofiles (Suc i) = (if ofiles ! Suc i = None then last_open ofiles i else Suc i)"

definition find_last_set :: "filedesc \<Rightarrow> nat \<Rightarrow> nat" where
  "find_last_set fd lst =
     (if lst = 0 then 0
      else case last_word (fd_lomap fd) (Suc ((lst - 1) div NDENTRIES)) of
          None \<Rightarrow> 0
        | Some off \<Rightarrow> last_open (fd_ofiles fd) (min (Suc off * NDENTRIES - 1) (lst - 1)))"

text \<open>\<^verbatim>\<open>1 << n\<close>\<close>

definition shl1 :: "nat \<Rightarrow> u32" where
  "shl1 n = push_bit n 1"

definition fd_used :: "nat \<Rightarrow> filedesc \<Rightarrow> filedesc" where
  "fd_used fd fdp =
     (let off = fd div NDENTRIES;
          lo = (fd_lomap fdp)[off := fd_lomap fdp ! off OR shl1 (fd mod NDENTRIES)];
          hi = (if lo ! off = -1
                then (fd_himap fdp)[off div NDENTRIES := fd_himap fdp ! (off div NDENTRIES) OR shl1 (off mod NDENTRIES)]
                else fd_himap fdp)
      in fdp\<lparr>fd_lomap := lo, fd_himap := hi, fd_lastfile := max fd (fd_lastfile fdp)\<rparr>)"

definition fd_unused :: "nat \<Rightarrow> filedesc \<Rightarrow> filedesc option" where
  "fd_unused fd fdp =
     (let off = fd div NDENTRIES;
          hi = (if fd_lomap fdp ! off = -1
                then (fd_himap fdp)[off div NDENTRIES := fd_himap fdp ! (off div NDENTRIES) AND NOT (shl1 (off mod NDENTRIES))]
                else fd_himap fdp);
          lo = (fd_lomap fdp)[off := fd_lomap fdp ! off AND NOT (shl1 (fd mod NDENTRIES))];
          fdp = fdp\<lparr>fd_freefile := min fd (fd_freefile fdp), fd_himap := hi, fd_lomap := lo\<rparr>
      in if fd > fd_lastfile fdp then None
         else if fd = fd_lastfile fdp then Some (fdp\<lparr>fd_lastfile := find_last_set fdp fd\<rparr>)
         else Some fdp)"

section \<open>The descriptor table\<close>

definition fd_getfile :: "filedesc \<Rightarrow> (nat \<Rightarrow> ofile option) \<Rightarrow> int \<Rightarrow> nat option" where
  "fd_getfile fdp fs fd =
     (if fd < 0 \<or> fd \<ge> int (fd_nfiles fdp) then None
      else case fd_ofiles fdp ! nat fd of
          None \<Rightarrow> None
        | Some fp \<Rightarrow> (case fs fp of None \<Rightarrow> None | Some f \<Rightarrow> if f_iflags f = {} then Some fp else None))"

subsection \<open>Searching a bitmap\<close>

text \<open>A bit of the bitmap that is zero; what a search from \<open>lo\<close> up to \<open>hi\<close> finds.\<close>

definition zero_at :: "u32 list \<Rightarrow> nat \<Rightarrow> bool" where
  "zero_at bm z \<longleftrightarrow> z div 32 < length bm \<and> \<not> bit (bm ! (z div 32)) (z mod 32)"

definition zero_spec :: "u32 list \<Rightarrow> nat \<Rightarrow> nat \<Rightarrow> nat option option \<Rightarrow> bool" where
  "zero_spec bm lo hi res \<longleftrightarrow> (case res of
     None \<Rightarrow> 32 * length bm < hi \<and> (\<forall>y\<ge>lo. \<not> zero_at bm y)
   | Some None \<Rightarrow> \<forall>y. lo \<le> y \<and> y < hi \<longrightarrow> \<not> zero_at bm y
   | Some (Some z) \<Rightarrow> lo \<le> z \<and> z < hi \<and> zero_at bm z \<and> (\<forall>y. lo \<le> y \<and> y < z \<longrightarrow> \<not> zero_at bm y))"

lemma u32_ones_iff: "w = (-1 :: u32) \<longleftrightarrow> (\<forall>k<32. bit w k)"
  by (auto simp: bit_eq_iff)

lemma ffs_not:
  assumes "w \<noteq> (-1 :: u32)"
  shows "\<exists>k<32. ffs (NOT w) = Suc k \<and> \<not> bit w k \<and> (\<forall>j<k. bit w j)"
proof -
  from assms obtain j where j: "j < 32" "\<not> bit w j" by (auto simp: u32_ones_iff)
  have "\<exists>x\<in>set [0..<32]. bit (NOT w) x" using j by (intro bexI [of _ j]) (simp_all add: bit_not_iff)
  then obtain k where "find (bit (NOT w)) [0..<32] = Some k" by (metis find_None_iff not_None_eq)
  moreover from this have "k < 32" "\<not> bit w k" "\<forall>j<k. bit w j" by (auto simp: find_Some_iff bit_not_iff)
  ultimately show ?thesis by (simp add: ffs_def)
qed

lemma zero_at_word: "off < length bm \<Longrightarrow> k < 32 \<Longrightarrow> zero_at bm (off * 32 + k) \<longleftrightarrow> \<not> bit (bm ! off) k"
  by (simp add: zero_at_def)

lemma zero_in_word:
  assumes "off < length bm" and "k < 32" and "off * 32 \<le> y" and "y < off * 32 + k" and "\<forall>j<k. lo \<le> off * 32 + j \<longrightarrow> bit (bm ! off) j" and "lo \<le> y"
  shows "\<not> zero_at bm y"
proof -
  obtain j where "y = off * 32 + j" using assms(3) by (metis le_iff_add)
  then show ?thesis using assms by (simp add: zero_at_word)
qed

lemma next_word_spec: "zero_spec bm (off * 32) (maxoff * 32) (next_word bm off maxoff)"
proof (induction bm off maxoff rule: next_word.induct)
  case (1 bm off maxoff)
  consider (past) "\<not> off < maxoff" | (out) "off < maxoff" "length bm \<le> off" | (hit) "off < maxoff" "off < length bm" "bm ! off \<noteq> -1"
    | (on) "off < maxoff" "off < length bm" "bm ! off = -1" by linarith
  then show ?case
  proof cases
    case past
    then show ?thesis by (subst next_word.simps) (auto simp: zero_spec_def)
  next
    case out
    have "\<not> zero_at bm y" if "off * 32 \<le> y" for y
    proof -
      have "off \<le> y div 32" using that by simp
      then show ?thesis using out by (simp add: zero_at_def)
    qed
    then show ?thesis using out by (subst next_word.simps) (auto simp: zero_spec_def)
  next
    case hit
    from ffs_not [OF hit(3)] obtain k where k: "k < 32" "ffs (NOT (bm ! off)) = Suc k" "\<not> bit (bm ! off) k" "\<forall>j<k. bit (bm ! off) j" by blast
    have "off * 32 + k < maxoff * 32" using hit(1) k(1) by linarith
    then show ?thesis using hit k zero_in_word [OF hit(2) k(1)]
      by (subst next_word.simps) (auto simp: zero_spec_def NDENTRIES_def zero_at_word)
  next
    case on
    have z: "\<not> zero_at bm y" if "off * 32 \<le> y" "y < Suc off * 32" for y
    proof -
      have "y = off * 32 + (y - off * 32)" "y - off * 32 < 32" using that by auto
      then show ?thesis using on zero_at_word [of off bm "y - off * 32"] by simp
    qed
    have "zero_spec bm (Suc off * 32) (maxoff * 32) (next_word bm (Suc off) maxoff)" by (rule "1.IH") (use on in auto)
    moreover have "zero_spec bm (off * 32) hi r" if "zero_spec bm (Suc off * 32) hi r" for hi r
    proof -
      have "\<not> zero_at bm y" if "off * 32 \<le> y" "Suc off * 32 \<le> y \<Longrightarrow> \<not> zero_at bm y" for y using that z [of y] by linarith
      then show ?thesis using that unfolding zero_spec_def by (auto split: option.splits)
    qed
    ultimately show ?thesis using on by (subst next_word.simps) simp
  qed
qed

lemma loslots_reach:
  assumes "want \<le> bits" and "want mod 32 \<noteq> 0"
  shows "want div 32 < NDLOSLOTS bits"
proof -
  have "0 < want mod 32" using assms(2) by simp
  then have "Suc (want div 32) * 32 \<le> bits + 31" using assms(1) div_mult_mod_eq [of want 32] unfolding mult_Suc by linarith
  then have "want div 32 < NDREDUCE bits" by (simp add: NDREDUCE_def NDENTRIES_def less_eq_div_iff_mult_less_eq Suc_le_eq [symmetric] del: mult_Suc)
  also have "n \<le> (n + 31) div 32 * 32" for n :: nat using div_mult_mod_eq [of "n + 31" 32] mod_less_divisor [of 32 "n + 31"] by linarith
  then have "NDREDUCE bits \<le> NDLOSLOTS bits" by (simp add: NDLOSLOTS_def NDHISLOTS_def NDREDUCE_def [of "NDREDUCE bits"] NDENTRIES_def)
  finally show ?thesis .
qed

lemma low_bits: "i < 32 \<Longrightarrow> k < 32 \<Longrightarrow> bit (w OR drop_bit (32 - i) (-1 :: u32)) k \<longleftrightarrow> bit w k \<or> k < i"
  by (auto simp: bit_or_iff bit_drop_bit_eq bit_mask_iff)

lemma find_next_zero_spec:
  assumes "want \<le> bits"
  shows "zero_spec bm want (NDLOSLOTS bits * 32) (find_next_zero bm want bits)"
proof (cases "want mod 32 = 0")
  case True
  then have "want div 32 * 32 = want" by presburger
  then show ?thesis using next_word_spec [of bm "want div 32" "NDLOSLOTS bits"] True assms by (simp add: find_next_zero_def NDENTRIES_def)
next
  case False
  define off i where "off = want div 32" and "i = want mod 32"
  have w: "want = off * 32 + i" "i < 32" by (simp_all add: off_def i_def)
  have reach: "off < NDLOSLOTS bits" unfolding off_def by (rule loslots_reach [OF assms False])
  have le: "off \<le> y div 32" if "want \<le> y" for y using that by (simp add: off_def div_le_mono)
  define sub where "sub = bm ! off OR drop_bit (32 - i) (-1)"
  have res: "find_next_zero bm want bits = (if off \<ge> length bm then None
      else if sub \<noteq> -1 then Some (Some (off * 32 + ffs (NOT sub) - 1)) else next_word bm (Suc off) (NDLOSLOTS bits))"
    using assms False by (simp add: find_next_zero_def NDENTRIES_def off_def i_def sub_def Let_def)
  consider (out) "length bm \<le> off" | (hit) "off < length bm" "sub \<noteq> -1" | (on) "off < length bm" "sub = -1" by linarith
  then show ?thesis
  proof cases
    case out
    have "\<not> zero_at bm y" if "want \<le> y" for y using le [OF that] out by (simp add: zero_at_def)
    then show ?thesis using res out reach by (simp add: zero_spec_def)
  next
    case hit
    from ffs_not [OF hit(2)] obtain k where k: "k < 32" "ffs (NOT sub) = Suc k" "\<not> bit sub k" "\<forall>j<k. bit sub j" by blast
    then have b: "\<not> bit (bm ! off) k" "i \<le> k" "\<forall>j<k. i \<le> j \<longrightarrow> bit (bm ! off) j" using low_bits [OF w(2)] by (auto simp: sub_def)
    have "off * 32 + k < NDLOSLOTS bits * 32" using reach k(1) by linarith
    then show ?thesis using res hit k b w zero_in_word [OF hit(1) k(1), of _ want] by (auto simp: zero_spec_def zero_at_word)
  next
    case on
    have z: "\<not> zero_at bm y" if "want \<le> y" "y < Suc off * 32" for y
    proof -
      have "y = off * 32 + (y - off * 32)" "y - off * 32 < 32" "i \<le> y - off * 32" using that w by auto
      moreover have "bit sub (y - off * 32)" using on(2) \<open>y - off * 32 < 32\<close> by simp
      then have "bit (bm ! off) (y - off * 32)" using low_bits [OF w(2), of "y - off * 32"] calculation(2,3) unfolding sub_def by auto
      ultimately show ?thesis using on(1) zero_at_word [of off bm "y - off * 32"] by simp
    qed
    have "\<not> zero_at bm y" if "want \<le> y" "Suc off * 32 \<le> y \<Longrightarrow> \<not> zero_at bm y" for y using that z [of y] by linarith
    then show ?thesis using next_word_spec [of bm "Suc off" "NDLOSLOTS bits"] res on w unfolding zero_spec_def by (auto split: option.splits)
  qed
qed

lemma find_next_zero_found:
  assumes "find_next_zero bm want bits = Some (Some z)"
  shows "want \<le> z" and "zero_at bm z" and "z < 32 * length bm"
proof -
  have "want \<le> bits" using assms by (simp add: find_next_zero_def split: if_splits)
  from find_next_zero_spec [OF this, of bm] assms show "want \<le> z" "zero_at bm z" by (simp_all add: zero_spec_def)
  then show "z < 32 * length bm" by (simp add: zero_at_def) linarith
qed

text \<open>
  The two searches of \<^verbatim>\<open>fdalloc\<close>: for a word of the lower map that is not full, and for a free descriptor from that word on.
  \<open>lim\<close> is the lower of the limits of the process and of the system.
\<close>

definition hi_search :: "nat \<Rightarrow> nat \<Rightarrow> filedesc \<Rightarrow> nat option option" where
  "hi_search lim want fdp =
     find_next_zero (fd_himap fdp) (max want (fd_freefile fdp) div NDENTRIES) ((min (fd_nfiles fdp) lim + NDENTRIES - 1) div NDENTRIES)"

definition lo_search :: "nat \<Rightarrow> nat \<Rightarrow> filedesc \<Rightarrow> nat option option" where
  "lo_search want new fdp =
     (let i = max want (fd_freefile fdp)
      in find_next_zero (drop new (fd_lomap fdp)) (if new > i div NDENTRIES then 0 else i mod NDENTRIES) NDENTRIES)"

definition fd_full :: "nat \<Rightarrow> filedesc \<Rightarrow> errno" where
  "fd_full lim fdp = (if fd_nfiles fdp \<ge> lim then EMFILE else ENOSPC)"

definition fd_take :: "nat \<Rightarrow> nat \<Rightarrow> filedesc \<Rightarrow> filedesc" where
  "fd_take want fd fdp = (fd_used fd fdp)\<lparr>fd_freefile := (if want \<le> fd_freefile fdp then fd else fd_freefile fdp)\<rparr>"

function fdalloc :: "nat \<Rightarrow> nat \<Rightarrow> filedesc \<Rightarrow> (errno + nat \<times> filedesc) option" where
  "fdalloc lim want fdp =
     (case hi_search lim want fdp of
        None \<Rightarrow> None
      | Some None \<Rightarrow> Some (Inl (fd_full lim fdp))
      | Some (Some new) \<Rightarrow>
          (case lo_search want new fdp of
             None \<Rightarrow> None
           | Some None \<Rightarrow> fdalloc lim ((new + 1) * NDENTRIES) fdp
           | Some (Some j) \<Rightarrow>
               if j + new * NDENTRIES < min (fd_nfiles fdp) lim
               then Some (Inr (j + new * NDENTRIES, fd_take want (j + new * NDENTRIES) fdp))
               else Some (Inl (fd_full lim fdp))))"
  by pat_completeness auto
termination
proof (relation "measure (\<lambda>(lim, want, fdp). 1024 * length (fd_himap fdp) - want)", simp)
  fix lim want fdp r new
  assume "hi_search lim want fdp = Some r" "r = Some new"
  then have f: "find_next_zero (fd_himap fdp) (max want (fd_freefile fdp) div 32) ((min (fd_nfiles fdp) lim + NDENTRIES - 1) div NDENTRIES) = Some (Some new)"
    by (simp add: hi_search_def NDENTRIES_def)
  have "want div 32 \<le> max want (fd_freefile fdp) div 32" by (simp add: div_le_mono)
  with find_next_zero_found(1,3) [OF f] have "want div 32 < new + 1" "new < 32 * length (fd_himap fdp)" by linarith+
  then have "want < (new + 1) * 32" "new < 32 * length (fd_himap fdp)" by (simp_all add: div_less_iff_less_mult)
  then show "((lim, (new + 1) * NDENTRIES, fdp), lim, want, fdp) \<in> measure (\<lambda>(lim, want, fdp). 1024 * length (fd_himap fdp) - want)"
    by (simp add: NDENTRIES_def)
qed

declare fdalloc.simps [simp del]

text \<open>A longer copy of an array, filled up with zeroes.\<close>

definition grow :: "'a \<Rightarrow> nat \<Rightarrow> 'a list \<Rightarrow> 'a list" where
  "grow z k xs = xs @ replicate (k - length xs) z"

definition fdexpand :: "filedesc \<Rightarrow> filedesc" where
  "fdexpand fdp =
     (let n = (if fd_nfiles fdp < NDEXTENT then NDEXTENT else 2 * fd_nfiles fdp);
          fdp' = (if NDHISLOTS n > NDHISLOTS (fd_nfiles fdp)
                  then fdp\<lparr>fd_himap := grow 0 (NDHISLOTS n) (take (NDHISLOTS (fd_nfiles fdp)) (fd_himap fdp)),
                           fd_lomap := grow 0 (NDLOSLOTS n) (take (NDLOSLOTS (fd_nfiles fdp)) (fd_lomap fdp))\<rparr>
                  else fdp)
      in fdp'\<lparr>fd_ofiles := grow None n (take (fd_nfiles fdp) (fd_ofiles fdp)), fd_ofileflags := grow 0 n (take (fd_nfiles fdp) (fd_ofileflags fdp)),
               fd_nfiles := n\<rparr>)"

lemma fdexpand_nfiles: "fd_nfiles fdp < fd_nfiles (fdexpand fdp)"
  by (simp add: fdexpand_def Let_def NDEXTENT_def)

text \<open>A full table is expanded only below the limit.\<close>

lemma fdalloc_nospc: "fdalloc lim want fdp = Some (Inl ENOSPC) \<Longrightarrow> fd_nfiles fdp < lim"
proof (induction lim want fdp rule: fdalloc.induct)
  case (1 lim want fdp)
  have IH: "fd_nfiles fdp < lim" if "hi_search lim want fdp = Some (Some new)" "lo_search want new fdp = Some None"
      "fdalloc lim ((new + 1) * NDENTRIES) fdp = Some (Inl ENOSPC)" for new
    by (rule "1.IH" [OF that(1) refl that(2) refl that(3)])
  show ?case using "1.prems" unfolding fdalloc.simps [of lim want fdp]
    by (auto simp: fd_full_def intro: IH split: option.splits if_splits)
qed

section \<open>Files\<close>

definition upd_file :: "nat \<Rightarrow> (ofile \<Rightarrow> ofile) \<Rightarrow> fstate \<Rightarrow> fstate" where
  "upd_file fp g st = st\<lparr>files := (files st)(fp := map_option g (files st fp))\<rparr>"

definition FREF :: "nat \<Rightarrow> fstate \<Rightarrow> fstate" where
  "FREF fp = upd_file fp (\<lambda>f. f\<lparr>f_usecount := f_usecount f + 1\<rparr>)"

definition FRELE :: "nat \<Rightarrow> fstate \<Rightarrow> fstate" where
  "FRELE fp = upd_file fp (\<lambda>f. f\<lparr>f_usecount := f_usecount f - 1\<rparr>)"

text \<open>\<^verbatim>\<open>closef\<close>: the error of closing the object behind the file, and the state.\<close>

definition closef :: "fenv \<Rightarrow> nat \<Rightarrow> fstate \<Rightarrow> (errno option \<times> fstate) option" where
  "closef env fp st =
     (case files st fp of
        None \<Rightarrow> None
      | Some f \<Rightarrow>
          let st = (if p_advlock env \<and> f_type f = DTYPE_VNODE then st\<lparr>unlocks := unlocks st @ [UnlockPosix fp]\<rparr> else st)
          in if FIF_WANTCLOSE \<in> f_iflags f then Some (None, FRELE fp st)
             else
               let st = upd_file fp (\<lambda>f. f\<lparr>f_count := f_count f - 1\<rparr>) st
               in if f_count f - 1 > 0 then Some (None, FRELE fp st)
                  else if f_count f - 1 < 0 then None
                  else
                    let st = upd_file fp (\<lambda>f. f\<lparr>f_iflags := insert FIF_WANTCLOSE (f_iflags f)\<rparr>) st;
                        st = (if f_usecount f > 1 then drain env fp st else st)
                    in case files st fp of
                         None \<Rightarrow> None
                       | Some f \<Rightarrow>
                           let st = (if f_flag f AND FHASLOCK \<noteq> 0 \<and> f_type f = DTYPE_VNODE then st\<lparr>unlocks := unlocks st @ [UnlockFlock fp]\<rparr> else st)
                           in if f_count f \<noteq> 0 \<or> f_usecount f \<noteq> 1 then None
                              else Some (if f_ops f then fo_close env fp else None,
                                st\<lparr>files := (files st)(fp := None), filehead := remove1 fp (filehead st), nfiles := nfiles st - 1\<rparr>))"

section \<open>Duplicating\<close>

text \<open>What a call on descriptors gives back: an error, a descriptor, and the state.\<close>

type_synonym fd_ret = "errno option \<times> nat \<times> fstate"

definition finishdup :: "fenv \<Rightarrow> nat \<Rightarrow> nat \<Rightarrow> nat \<Rightarrow> fstate \<Rightarrow> fd_ret option" where
  "finishdup env fp old new st =
     (case files st fp of
        None \<Rightarrow> None
      | Some f \<Rightarrow>
          if f_count f = LONG_MAX - 2 then Some (Some EDEADLK, 0, FRELE fp st)
          else
            let oldfp = fd_ofiles (fdt st) ! new;
                st = (case oldfp of None \<Rightarrow> st | Some q \<Rightarrow> FREF q st);
                st = st\<lparr>fdt := (fdt st)\<lparr>fd_ofiles := (fd_ofiles (fdt st))[new := Some fp],
                       fd_ofileflags := (fd_ofileflags (fdt st))[new := fd_ofileflags (fdt st) ! old AND NOT UF_EXCLOSE]\<rparr>\<rparr>;
                st = FRELE fp (upd_file fp (\<lambda>f. f\<lparr>f_count := f_count f + 1\<rparr>) st)
            in case oldfp of
                 None \<Rightarrow> Some (None, new, st\<lparr>fdt := fd_used new (fdt st)\<rparr>)
               | Some q \<Rightarrow> map_option (\<lambda>(e, st). (None, new, st)) (closef env q st))"

definition fd_lim :: "fstate \<Rightarrow> nat" where
  "fd_lim st = min (rlim_cur st) (maxfiles st)"

lemma fd_lim_fdt [simp]: "fd_lim (st\<lparr>fdt := t\<rparr>) = fd_lim st"
  by (simp add: fd_lim_def)

lemma FRELE_FREF [simp]: "FRELE fp (FREF fp st) = st"
  by (simp add: FRELE_def FREF_def upd_file_def option.map_comp comp_def option.map_ident)

lemma FREF_frame [simp]: "fdt (FREF fp st) = fdt st" "fd_lim (FREF fp st) = fd_lim st"
  by (simp_all add: FREF_def upd_file_def fd_lim_def)

function sys_dup :: "fenv \<Rightarrow> int \<Rightarrow> fstate \<Rightarrow> fd_ret option" where
  "sys_dup env old st =
     (case fd_getfile (fdt st) (files st) old of
        None \<Rightarrow> Some (Some EBADF, 0, st)
      | Some fp \<Rightarrow>
          (case fdalloc (fd_lim st) 0 (fdt st) of
             None \<Rightarrow> None
           | Some (Inl e) \<Rightarrow>
               if e = ENOSPC then sys_dup env old (st\<lparr>fdt := fdexpand (fdt st)\<rparr>) else Some (Some e, 0, FRELE fp (FREF fp st))
           | Some (Inr (new, t)) \<Rightarrow> finishdup env fp (nat old) new ((FREF fp st)\<lparr>fdt := t\<rparr>)))"
  by pat_completeness auto
termination
proof (relation "measure (\<lambda>(env, old, st). fd_lim st - fd_nfiles (fdt st))", simp)
  fix env :: fenv and old st x2 x2a x1 and e :: errno
  assume "fdalloc (fd_lim st) 0 (fdt st) = Some x2a" "x2a = Inl e" "e = ENOSPC"
  then show "((env, old, st\<lparr>fdt := fdexpand (fdt st)\<rparr>), env, old, st) \<in> measure (\<lambda>(env, old, st). fd_lim st - fd_nfiles (fdt st))"
    using fdexpand_nfiles [of "fdt st"] fdalloc_nospc by (fastforce simp: fd_lim_def)
qed

declare sys_dup.simps [simp del]

function sys_dup2 :: "fenv \<Rightarrow> int \<Rightarrow> int \<Rightarrow> fstate \<Rightarrow> fd_ret option" where
  "sys_dup2 env old new st =
     (case fd_getfile (fdt st) (files st) old of
        None \<Rightarrow> Some (Some EBADF, 0, st)
      | Some fp \<Rightarrow>
          if new < 0 \<or> new \<ge> int (fd_lim st) then Some (Some EBADF, 0, st)
          else if old = new then Some (None, nat new, st)
          else if new \<ge> int (fd_nfiles (fdt st)) then
            (case fdalloc (fd_lim st) (nat new) (fdt st) of
               None \<Rightarrow> None
             | Some (Inl e) \<Rightarrow>
                 if e = ENOSPC then sys_dup2 env old new (st\<lparr>fdt := fdexpand (fdt st)\<rparr>) else Some (Some e, 0, FRELE fp (FREF fp st))
             | Some (Inr (i, t)) \<Rightarrow>
                 if nat new \<noteq> i then None else finishdup env fp (nat old) (nat new) ((FREF fp st)\<lparr>fdt := t\<rparr>))
          else finishdup env fp (nat old) (nat new) (FREF fp st))"
  by pat_completeness auto
termination
proof (relation "measure (\<lambda>(env, old, new, st). fd_lim st - fd_nfiles (fdt st))", simp)
  fix env :: fenv and old new st x2 x2a and e :: errno
  assume "fdalloc (fd_lim st) (nat new) (fdt st) = Some x2a" "x2a = Inl e" "e = ENOSPC"
  then show "((env, old, new, st\<lparr>fdt := fdexpand (fdt st)\<rparr>), env, old, new, st) \<in> measure (\<lambda>(env, old, new, st). fd_lim st - fd_nfiles (fdt st))"
    using fdexpand_nfiles [of "fdt st"] fdalloc_nospc by (fastforce simp: fd_lim_def)
qed

declare sys_dup2.simps [simp del]

text \<open>The commands of \<^verbatim>\<open>sys_fcntl\<close> that concern the descriptor itself.\<close>

datatype fcntl_cmd = F_DUPFD int | F_GETFD | F_SETFD bool

function fcntl_dupfd :: "fenv \<Rightarrow> int \<Rightarrow> int \<Rightarrow> fstate \<Rightarrow> fd_ret option" where
  "fcntl_dupfd env fd newmin st =
     (case fd_getfile (fdt st) (files st) fd of
        None \<Rightarrow> Some (Some EBADF, 0, st)
      | Some fp \<Rightarrow>
          if newmin < 0 \<or> newmin \<ge> int (fd_lim st) then Some (Some EINVAL, 0, FRELE fp (FREF fp st))
          else
            (case fdalloc (fd_lim st) (nat newmin) (fdt st) of
               None \<Rightarrow> None
             | Some (Inl e) \<Rightarrow>
                 if e = ENOSPC then fcntl_dupfd env fd newmin (st\<lparr>fdt := fdexpand (fdt st)\<rparr>) else Some (Some e, 0, FRELE fp (FREF fp st))
             | Some (Inr (i, t)) \<Rightarrow> finishdup env fp (nat fd) i ((FREF fp st)\<lparr>fdt := t\<rparr>)))"
  by pat_completeness auto
termination
proof (relation "measure (\<lambda>(env, fd, newmin, st). fd_lim st - fd_nfiles (fdt st))", simp)
  fix env :: fenv and fd newmin st x2 x2a and e :: errno
  assume "fdalloc (fd_lim st) (nat newmin) (fdt st) = Some x2a" "x2a = Inl e" "e = ENOSPC"
  then show "((env, fd, newmin, st\<lparr>fdt := fdexpand (fdt st)\<rparr>), env, fd, newmin, st) \<in> measure (\<lambda>(env, fd, newmin, st). fd_lim st - fd_nfiles (fdt st))"
    using fdexpand_nfiles [of "fdt st"] fdalloc_nospc by (fastforce simp: fd_lim_def)
qed

declare fcntl_dupfd.simps [simp del]

definition sys_fcntl :: "fenv \<Rightarrow> int \<Rightarrow> fcntl_cmd \<Rightarrow> fstate \<Rightarrow> fd_ret option" where
  "sys_fcntl env fd cmd st =
     (case cmd of
        F_DUPFD newmin \<Rightarrow> fcntl_dupfd env fd newmin st
      | F_GETFD \<Rightarrow>
          (case fd_getfile (fdt st) (files st) fd of
             None \<Rightarrow> Some (Some EBADF, 0, st)
           | Some fp \<Rightarrow> Some (None, if fd_ofileflags (fdt st) ! nat fd AND UF_EXCLOSE \<noteq> 0 then 1 else 0, FRELE fp (FREF fp st)))
      | F_SETFD on \<Rightarrow>
          (case fd_getfile (fdt st) (files st) fd of
             None \<Rightarrow> Some (Some EBADF, 0, st)
           | Some fp \<Rightarrow>
               let fl = fd_ofileflags (fdt st) ! nat fd;
                   fl' = (if on then fl OR UF_EXCLOSE else fl AND NOT UF_EXCLOSE)
               in Some (None, 0, FRELE fp ((FREF fp st)\<lparr>fdt := (fdt st)\<lparr>fd_ofileflags := (fd_ofileflags (fdt st))[nat fd := fl']\<rparr>\<rparr>))))"

section \<open>Closing\<close>

definition fdremove :: "nat \<Rightarrow> filedesc \<Rightarrow> filedesc option" where
  "fdremove fd fdp = fd_unused fd (fdp\<lparr>fd_ofiles := (fd_ofiles fdp)[fd := None]\<rparr>)"

definition fdrelease :: "fenv \<Rightarrow> nat \<Rightarrow> fstate \<Rightarrow> (errno option \<times> fstate) option" where
  "fdrelease env fd st =
     (case fd_ofiles (fdt st) ! fd of
        None \<Rightarrow> Some (Some EBADF, st)
      | Some fp \<Rightarrow>
          let st = FREF fp st
          in Option.bind (fd_unused fd ((fdt st)\<lparr>fd_ofiles := (fd_ofiles (fdt st))[fd := None], fd_ofileflags := (fd_ofileflags (fdt st))[fd := 0]\<rparr>))
               (\<lambda>t. closef env fp (st\<lparr>fdt := t\<rparr>)))"

definition sys_close :: "fenv \<Rightarrow> int \<Rightarrow> fstate \<Rightarrow> (errno option \<times> fstate) option" where
  "sys_close env fd st =
     (if fd_getfile (fdt st) (files st) fd = None then Some (Some EBADF, st) else fdrelease env (nat fd) st)"

text \<open>The loop of \<^verbatim>\<open>fdcloseexec\<close> and of \<^verbatim>\<open>sys_closefrom\<close>: the descriptors from \<open>fd\<close> on that \<open>sel\<close> selects.\<close>

partial_function (option) release_loop :: "fenv \<Rightarrow> (filedesc \<Rightarrow> nat \<Rightarrow> bool) \<Rightarrow> nat \<Rightarrow> fstate \<Rightarrow> fstate option" where
  "release_loop env sel fd st =
     (if fd \<le> fd_lastfile (fdt st) then
        Option.bind (if sel (fdt st) fd then map_option snd (fdrelease env fd st) else Some st) (release_loop env sel (Suc fd))
      else Some st)"

definition fdcloseexec :: "fenv \<Rightarrow> fstate \<Rightarrow> fstate option" where
  "fdcloseexec env = release_loop env (\<lambda>fdp fd. fd_ofileflags fdp ! fd AND UF_EXCLOSE \<noteq> 0) 0"

definition sys_closefrom :: "fenv \<Rightarrow> nat \<Rightarrow> fstate \<Rightarrow> (errno option \<times> fstate) option" where
  "sys_closefrom env startfd st =
     (if startfd > fd_lastfile (fdt st) then Some (Some EBADF, st)
      else map_option (Pair None) (release_loop env (\<lambda>fdp fd. True) startfd st))"

section \<open>Opening\<close>

text \<open>\<open>fp\<close> is the address of the new file.\<close>

function falloc :: "nat \<Rightarrow> fstate \<Rightarrow> fd_ret option" where
  "falloc fp st =
     (case fdalloc (fd_lim st) 0 (fdt st) of
        None \<Rightarrow> None
      | Some (Inl e) \<Rightarrow> if e = ENOSPC then falloc fp (st\<lparr>fdt := fdexpand (fdt st)\<rparr>) else Some (Some e, 0, st)
      | Some (Inr (i, t)) \<Rightarrow>
          if nfiles st \<ge> int (maxfiles st) then map_option (\<lambda>t. (Some ENFILE, 0, st\<lparr>fdt := t\<rparr>)) (fd_unused i t)
          else
            let head = (case fd_ofiles t ! 0 of
                          Some fq \<Rightarrow> (let k = length (takeWhile (\<lambda>q. q \<noteq> fq) (filehead st)) in take (Suc k) (filehead st) @ fp # drop (Suc k) (filehead st))
                        | None \<Rightarrow> fp # filehead st);
                f = \<lparr>f_flag = 0, f_type = DTYPE_NONE, f_count = 1, f_usecount = 0, f_iflags = {FIF_LARVAL}, f_ops = False\<rparr>
            in Some (None, i, FREF fp (st\<lparr>nfiles := nfiles st + 1, files := (files st)(fp := Some f), filehead := head,
                 fdt := t\<lparr>fd_ofiles := (fd_ofiles t)[i := Some fp]\<rparr>\<rparr>)))"
  by pat_completeness auto
termination
proof (relation "measure (\<lambda>(fp, st). fd_lim st - fd_nfiles (fdt st))", simp)
  fix fp :: nat and st x2 and e :: errno
  assume "fdalloc (fd_lim st) 0 (fdt st) = Some x2" "x2 = Inl e" "e = ENOSPC"
  then show "((fp, st\<lparr>fdt := fdexpand (fdt st)\<rparr>), fp, st) \<in> measure (\<lambda>(fp, st). fd_lim st - fd_nfiles (fdt st))"
    using fdexpand_nfiles [of "fdt st"] fdalloc_nospc by (fastforce simp: fd_lim_def)
qed

declare falloc.simps [simp del]

text \<open>What the caller of \<^verbatim>\<open>falloc\<close> does when the file is complete: type, operations and \<^verbatim>\<open>FILE_SET_MATURE\<close>.\<close>

definition FILE_SET_MATURE :: "nat \<Rightarrow> fstate \<Rightarrow> fstate" where
  "FILE_SET_MATURE fp st = FRELE fp (upd_file fp (\<lambda>f. f\<lparr>f_iflags := f_iflags f - {FIF_LARVAL}\<rparr>) st)"

record dupproc =
  p_sugid :: bool
  p_descfd :: nat
  p_dupfd :: nat

definition dupfdopen :: "dupproc \<Rightarrow> nat \<Rightarrow> int \<Rightarrow> u16 \<Rightarrow> errno \<Rightarrow> fstate \<Rightarrow> (errno option \<times> fstate) option" where
  "dupfdopen p indx dfd m error st =
     (if p_sugid p \<and> (p_descfd p = 255 \<or> p_descfd p \<noteq> p_dupfd p) then Some (Some EPERM, st)
      else case fd_getfile (fdt st) (files st) dfd of
          None \<Rightarrow> Some (Some EBADF, st)
        | Some fp \<Rightarrow>
            if error = ENODEV then
              (case files st fp of None \<Rightarrow> None
               | Some f \<Rightarrow>
                   if (m AND (FREAD OR FWRITE)) OR f_flag f \<noteq> f_flag f then Some (Some EACCES, st)
                   else if f_count f = LONG_MAX - 2 then Some (Some EDEADLK, st)
                   else
                     Some (None, upd_file fp (\<lambda>f. f\<lparr>f_count := f_count f + 1\<rparr>) (st\<lparr>fdt := fd_used indx ((fdt st)\<lparr>fd_ofiles := (fd_ofiles (fdt st))[indx := Some fp],
                       fd_ofileflags := (fd_ofileflags (fdt st))[indx := fd_ofileflags (fdt st) ! nat dfd]\<rparr>)\<rparr>)))
            else if error = ENXIO then
              map_option (\<lambda>t. (None, st\<lparr>fdt := t\<rparr>))
                (fd_unused (nat dfd) (fd_used indx ((fdt st)\<lparr>fd_ofiles := (fd_ofiles (fdt st))[indx := fd_ofiles (fdt st) ! nat dfd, nat dfd := None],
                   fd_ofileflags := (fd_ofileflags (fdt st))[indx := fd_ofileflags (fdt st) ! nat dfd, nat dfd := 0]\<rparr>)))
            else Some (Some error, st))"

section \<open>Whole tables\<close>

definition fdinit :: filedesc where
  "fdinit = \<lparr>fd_ofiles = replicate NDFILE None, fd_ofileflags = replicate NDFILE 0, fd_himap = replicate (NDHISLOTS NDFILE) 0,
     fd_lomap = replicate (NDLOSLOTS NDFILE) 0, fd_nfiles = NDFILE, fd_lastfile = 0, fd_freefile = 0, fd_refcnt = 1, fd_knlist = False\<rparr>"

definition fdshare :: "filedesc \<Rightarrow> filedesc" where
  "fdshare fdp = fdp\<lparr>fd_refcnt := fd_refcnt fdp + 1\<rparr>"

text \<open>The size of a copy.\<close>

function shrink_size :: "nat \<Rightarrow> nat \<Rightarrow> nat" where
  "shrink_size lst i = (if i \<ge> 2 * NDEXTENT \<and> i > lst * 2 then shrink_size lst (i div 2) else i)"
  by pat_completeness auto
termination
  by (relation "measure snd") auto

declare shrink_size.simps [simp del]

lemma last_open_le: "last_open ofiles i \<le> i"
  by (induction i) auto

lemma find_last_set_le: "find_last_set fdp lst \<le> lst"
proof (cases "lst = 0 \<or> last_word (fd_lomap fdp) (Suc ((lst - 1) div NDENTRIES)) = None")
  case False
  then obtain off where "last_word (fd_lomap fdp) (Suc ((lst - 1) div NDENTRIES)) = Some off" by auto
  moreover have "last_open ofs (min a (lst - 1)) \<le> lst" for ofs a using last_open_le [of ofs "min a (lst - 1)"] by linarith
  ultimately show ?thesis by (simp only: find_last_set_def option.case if_False if_True split: if_split) simp
qed (auto simp: find_last_set_def)

lemma fdremove_lastfile: "fdremove fd fdp = Some fdp' \<Longrightarrow> fd_lastfile fdp' \<le> fd_lastfile fdp"
  using find_last_set_le by (auto simp: fdremove_def fd_unused_def Let_def split: if_splits)

text \<open>Event queues are taken out of a copy; then the files of the rest are counted once more.\<close>

function copy_kqueues :: "(nat \<Rightarrow> ofile option) \<Rightarrow> nat \<Rightarrow> filedesc \<Rightarrow> filedesc option" where
  "copy_kqueues fs i fdp =
     (if i \<le> fd_lastfile fdp then
        case fd_ofiles fdp ! i of
          Some fp \<Rightarrow>
            (case fs fp of None \<Rightarrow> None
             | Some f \<Rightarrow>
                 if f_type f = DTYPE_KQUEUE then (case fdremove i fdp of None \<Rightarrow> None | Some fdp \<Rightarrow> copy_kqueues fs (Suc i) fdp)
                 else copy_kqueues fs (Suc i) fdp)
        | None \<Rightarrow> copy_kqueues fs (Suc i) fdp
      else Some fdp)"
  by pat_completeness auto
termination
  by (relation "measure (\<lambda>(fs, i, fdp). Suc (fd_lastfile fdp) - i)") (auto dest!: fdremove_lastfile)

declare copy_kqueues.simps [simp del]

function copy_counts :: "nat \<Rightarrow> filedesc \<Rightarrow> (nat \<Rightarrow> ofile option) \<Rightarrow> (filedesc \<times> (nat \<Rightarrow> ofile option)) option" where
  "copy_counts i fdp fs =
     (if i \<le> fd_lastfile fdp then
        case fd_ofiles fdp ! i of
          Some fp \<Rightarrow>
            (case fs fp of None \<Rightarrow> None
             | Some f \<Rightarrow>
                 if f_count f = LONG_MAX - 2 then (case fdremove i fdp of None \<Rightarrow> None | Some fdp \<Rightarrow> copy_counts (Suc i) fdp fs)
                 else copy_counts (Suc i) fdp (fs(fp := Some (f\<lparr>f_count := f_count f + 1\<rparr>))))
        | None \<Rightarrow> copy_counts (Suc i) fdp fs
      else Some (fdp, fs))"
  by pat_completeness auto
termination
  by (relation "measure (\<lambda>(i, fdp, fs). Suc (fd_lastfile fdp) - i)") (auto dest!: fdremove_lastfile)

declare copy_counts.simps [simp del]

definition fdcopy :: "filedesc \<Rightarrow> (nat \<Rightarrow> ofile option) \<Rightarrow> (filedesc \<times> (nat \<Rightarrow> ofile option)) option" where
  "fdcopy fdp fs =
     (let i = (if fd_lastfile fdp < NDFILE then NDFILE else shrink_size (fd_lastfile fdp) (fd_nfiles fdp));
          new = fdp\<lparr>fd_refcnt := 1, fd_nfiles := i, fd_ofiles := take i (fd_ofiles fdp), fd_ofileflags := take i (fd_ofileflags fdp),
                 fd_himap := take (NDHISLOTS i) (fd_himap fdp), fd_lomap := take (NDLOSLOTS i) (fd_lomap fdp)\<rparr>
      in Option.bind (if fd_knlist new then map_option (\<lambda>t. t\<lparr>fd_knlist := False\<rparr>) (copy_kqueues fs 0 new) else Some new) (\<lambda>new. copy_counts 0 new fs))"

text \<open>\<^verbatim>\<open>fdfree\<close>: the last reference to the table closes its files, in ascending order.\<close>

fun fdfree_loop :: "fenv \<Rightarrow> nat \<Rightarrow> nat \<Rightarrow> fstate \<Rightarrow> fstate option" where
  "fdfree_loop env fd 0 st = Some st"
| "fdfree_loop env fd (Suc n) st =
     (case fd_ofiles (fdt st) ! fd of
        None \<Rightarrow> fdfree_loop env (Suc fd) n st
      | Some fp \<Rightarrow>
          let st = FREF fp st;
              st = st\<lparr>fdt := (fdt st)\<lparr>fd_ofiles := (fd_ofiles (fdt st))[fd := None]\<rparr>\<rparr>
          in Option.bind (closef env fp st) (\<lambda>(e, st). fdfree_loop env (Suc fd) n st))"

definition fdfree :: "fenv \<Rightarrow> fstate \<Rightarrow> fstate option" where
  "fdfree env st =
     (let st = st\<lparr>fdt := (fdt st)\<lparr>fd_refcnt := fd_refcnt (fdt st) - 1\<rparr>\<rparr>
      in if fd_refcnt (fdt st) > 0 then Some st else fdfree_loop env 0 (Suc (fd_lastfile (fdt st))) st)"

section \<open>Invariant of a table\<close>

text \<open>
  The sizes a table grows through. In the last one, 25600, the upper map has no spare bit, and a search of a full table runs
  out of it.
\<close>

definition size_ok :: "nat \<Rightarrow> bool" where
  "size_ok n \<longleftrightarrow> n = 20 \<or> n \<in> (\<lambda>k. 50 * 2 ^ k) ` {..8}"

text \<open>\<open>fd_inv U\<close>: the descriptors in \<open>U\<close> are in use.\<close>

definition fd_inv :: "nat set \<Rightarrow> filedesc \<Rightarrow> bool" where
  "fd_inv U fdp \<longleftrightarrow> size_ok (fd_nfiles fdp) \<and> length (fd_ofiles fdp) = fd_nfiles fdp \<and> length (fd_ofileflags fdp) = fd_nfiles fdp
     \<and> length (fd_lomap fdp) = NDLOSLOTS (fd_nfiles fdp) \<and> length (fd_himap fdp) = NDHISLOTS (fd_nfiles fdp)
     \<and> (\<forall>k<length (fd_lomap fdp). bit (fd_himap fdp ! (k div 32)) (k mod 32) = (fd_lomap fdp ! k = -1))
     \<and> (\<forall>fd. zero_at (fd_lomap fdp) fd = (fd div 32 < length (fd_lomap fdp) \<and> fd \<notin> U))
     \<and> U \<subseteq> {..<fd_nfiles fdp} \<and> U \<subseteq> {..fd_lastfile fdp} \<and> {..<fd_freefile fdp} \<subseteq> U \<and> fd_lastfile fdp < fd_nfiles fdp"

lemma size_ok_cases:
  assumes "size_ok n"
  shows "n \<in> {20, 50, 100, 200, 400, 800, 1600, 3200, 6400, 12800}"
proof -
  have "{..8 :: nat} = {0, 1, 2, 3, 4, 5, 6, 7, 8}" by auto
  then show ?thesis using assms by (auto simp: size_ok_def)
qed

lemma size_ok_slots:
  assumes "size_ok n"
  shows "n \<le> 32 * NDREDUCE n" and "NDREDUCE n < 32 * NDHISLOTS n" and "NDLOSLOTS n = 32 * NDHISLOTS n" and "0 < NDHISLOTS n"
  using size_ok_cases [OF assms] by (auto simp: NDREDUCE_def NDHISLOTS_def NDLOSLOTS_def NDENTRIES_def)

lemma fd_inv_facts:
  assumes "fd_inv U fdp"
  shows "length (fd_lomap fdp) = 32 * length (fd_himap fdp)" and "NDREDUCE (fd_nfiles fdp) < length (fd_lomap fdp)"
    and "fd < fd_nfiles fdp \<Longrightarrow> fd div 32 < NDREDUCE (fd_nfiles fdp)"
    and "k < length (fd_lomap fdp) \<Longrightarrow> zero_at (fd_himap fdp) k \<longleftrightarrow> fd_lomap fdp ! k \<noteq> -1"
    and "zero_at (fd_lomap fdp) (32 * (length (fd_lomap fdp) - 1) + 31)"
proof -
  have s: "size_ok (fd_nfiles fdp)" "length (fd_lomap fdp) = NDLOSLOTS (fd_nfiles fdp)" "length (fd_himap fdp) = NDHISLOTS (fd_nfiles fdp)"
    using assms by (simp_all add: fd_inv_def)
  note sl = size_ok_slots [OF s(1)]
  show len: "length (fd_lomap fdp) = 32 * length (fd_himap fdp)" and red: "NDREDUCE (fd_nfiles fdp) < length (fd_lomap fdp)" using s sl by simp_all
  show "fd div 32 < NDREDUCE (fd_nfiles fdp)" if "fd < fd_nfiles fdp" using that sl(1) by (simp add: div_less_iff_less_mult)
  show "zero_at (fd_himap fdp) k \<longleftrightarrow> fd_lomap fdp ! k \<noteq> -1" if "k < length (fd_lomap fdp)"
    using assms that len by (auto simp: fd_inv_def zero_at_def div_less_iff_less_mult)
  let ?z = "32 * (length (fd_lomap fdp) - 1) + 31"
  have "?z div 32 < length (fd_lomap fdp)" using red by simp
  moreover have "\<not> ?z < fd_nfiles fdp" using red sl(1) by linarith
  then have "?z \<notin> U" using assms by (auto simp: fd_inv_def)
  ultimately show "zero_at (fd_lomap fdp) ?z" using assms by (simp add: fd_inv_def)
qed

lemma zero_at_full: "k < length bm \<Longrightarrow> bm ! k = -1 \<Longrightarrow> x div 32 = k \<Longrightarrow> \<not> zero_at bm x"
  by (auto simp: zero_at_def)

lemma zero_at_drop: "zero_at (drop n bm) y \<longleftrightarrow> zero_at bm (32 * n + y)"
proof -
  have "(32 * n + y) div 32 = n + y div 32" "(32 * n + y) mod 32 = y mod 32" by simp_all
  then show ?thesis by (auto simp: zero_at_def)
qed

section \<open>Allocation\<close>

text \<open>What one round of \<^verbatim>\<open>fdalloc\<close> finds.\<close>

datatype round = Nothing | Again nat | Found nat

definition round_of :: "nat \<Rightarrow> nat \<Rightarrow> filedesc \<Rightarrow> round option" where
  "round_of lim want fdp =
     (case hi_search lim want fdp of
        None \<Rightarrow> None
      | Some None \<Rightarrow> Some Nothing
      | Some (Some new) \<Rightarrow>
          (case lo_search want new fdp of None \<Rightarrow> None | Some None \<Rightarrow> Some (Again ((new + 1) * 32)) | Some (Some j) \<Rightarrow> Some (Found (j + new * 32))))"

definition free_from :: "nat set \<Rightarrow> nat \<Rightarrow> nat \<Rightarrow> nat set" where
  "free_from U want m = {fd. want \<le> fd \<and> fd < m \<and> fd \<notin> U}"

definition round_spec :: "nat set \<Rightarrow> nat \<Rightarrow> nat \<Rightarrow> filedesc \<Rightarrow> round option \<Rightarrow> bool" where
  "round_spec U lim want fdp r \<longleftrightarrow> (case r of
     None \<Rightarrow> False
   | Some Nothing \<Rightarrow> free_from U want (min (fd_nfiles fdp) lim) = {}
   | Some (Again w) \<Rightarrow> want < w \<and> free_from U want (min (fd_nfiles fdp) lim) = free_from U w (min (fd_nfiles fdp) lim)
   | Some (Found fd) \<Rightarrow> want \<le> fd \<and> fd \<notin> U \<and> fd div 32 < length (fd_lomap fdp) \<and> (\<forall>x. want \<le> x \<and> x < fd \<longrightarrow> x \<in> U))"

lemma lo_round:
  assumes inv: "fd_inv U fdp" and nl: "new < length (fd_lomap fdp)" and s: "s < 32"
    and low: "\<And>x. want \<le> x \<Longrightarrow> x \<notin> U \<Longrightarrow> x div 32 < length (fd_lomap fdp) \<Longrightarrow> 32 * new + s \<le> x"
    and want: "want \<le> 32 * new + s" "want < 32 * (new + 1)" and lo: "zero_spec (drop new (fd_lomap fdp)) s 1024 (lo_search want new fdp)"
  shows "round_spec U lim want fdp (case lo_search want new fdp of None \<Rightarrow> None | Some None \<Rightarrow> Some (Again ((new + 1) * 32)) | Some (Some j) \<Rightarrow> Some (Found (j + new * 32)))"
proof -
  note facts = fd_inv_facts [OF inv]
  have used: "x \<in> U" if "x div 32 < length (fd_lomap fdp)" "\<not> zero_at (fd_lomap fdp) x" for x using that inv by (simp add: fd_inv_def)
  have word: "x div 32 < length (fd_lomap fdp)" if "x < min (fd_nfiles fdp) lim" for x using that facts(2) facts(3) [of x] by auto
  have taken: "x \<in> U" if "want \<le> x" "x div 32 < length (fd_lomap fdp)" "32 * new + s \<le> x \<Longrightarrow> \<not> zero_at (drop new (fd_lomap fdp)) (x - 32 * new)" for x
  proof (rule ccontr)
    assume x: "x \<notin> U"
    then have "32 * new + s \<le> x" using low that(1,2) by blast
    then have "\<not> zero_at (fd_lomap fdp) x" using that(3) by (simp add: zero_at_drop)
    then show False using used that(2) x by blast
  qed
  show ?thesis
  proof (cases "lo_search want new fdp")
    case None
    have "s \<le> 32 * (length (fd_lomap fdp) - 1 - new) + 31" using s by simp
    moreover have "zero_at (drop new (fd_lomap fdp)) (32 * (length (fd_lomap fdp) - 1 - new) + 31)"
      using facts(5) nl by (simp add: zero_at_drop algebra_simps)
    ultimately show ?thesis using lo None by (simp add: zero_spec_def)
  next
    case (Some r2)
    show ?thesis
    proof (cases r2)
      case None
      have "x \<in> U" if "want \<le> x" "x < min (fd_nfiles fdp) lim" "x < (new + 1) * 32" for x
      proof (rule taken [OF that(1) word [OF that(2)]])
        assume "32 * new + s \<le> x"
        then have "s \<le> x - 32 * new" "x - 32 * new < 1024" using that(3) by auto
        then show "\<not> zero_at (drop new (fd_lomap fdp)) (x - 32 * new)" using lo Some None by (simp add: zero_spec_def)
      qed
      moreover have "want < (new + 1) * 32" using want(2) by simp
      ultimately show ?thesis using Some None by (auto simp: round_spec_def free_from_def) (meson not_less)+
    next
      case (Some j)
      then have j: "s \<le> j" "zero_at (fd_lomap fdp) (32 * new + j)" "\<And>y. s \<le> y \<Longrightarrow> y < j \<Longrightarrow> \<not> zero_at (drop new (fd_lomap fdp)) y"
        using lo \<open>lo_search want new fdp = Some r2\<close> by (simp_all add: zero_spec_def zero_at_drop)
      have fd: "32 * new + j \<notin> U" "(32 * new + j) div 32 < length (fd_lomap fdp)" using j(2) inv by (simp_all add: fd_inv_def)
      have "x \<in> U" if "want \<le> x" "x < 32 * new + j" for x
      proof (rule taken [OF that(1)])
        show "x div 32 < length (fd_lomap fdp)" using that(2) fd(2) by (meson div_le_mono less_imp_le order.strict_trans1)
        show "\<not> zero_at (drop new (fd_lomap fdp)) (x - 32 * new)" if "32 * new + s \<le> x" using that \<open>x < 32 * new + j\<close> by (intro j(3)) auto
      qed
      moreover have "want \<le> 32 * new + j" using want(1) j(1) by simp
      ultimately show ?thesis using Some \<open>lo_search want new fdp = Some r2\<close> fd by (simp add: round_spec_def add.commute mult.commute)
    qed
  qed
qed

lemma round_of_spec:
  assumes inv: "fd_inv U fdp"
  shows "round_spec U lim want fdp (round_of lim want fdp)"
proof -
  note facts = fd_inv_facts [OF inv]
  define lst i off where "lst = min (fd_nfiles fdp) lim" and "i = max want (fd_freefile fdp)" and "off = i div 32"
  define bits where "bits = (lst + 31) div 32"
  have hi: "hi_search lim want fdp = find_next_zero (fd_himap fdp) off bits"
    by (simp add: hi_search_def NDENTRIES_def lst_def i_def off_def bits_def add.commute)
  have start: "i \<le> x" if "want \<le> x" "x \<notin> U" for x
  proof -
    have "{..<fd_freefile fdp} \<subseteq> U" using inv by (simp add: fd_inv_def)
    then have "fd_freefile fdp \<le> x" using that(2) by (meson lessThan_iff not_le subsetD)
    then show ?thesis using that(1) by (simp add: i_def)
  qed
  have used: "x \<in> U" if "x div 32 < length (fd_lomap fdp)" "\<not> zero_at (fd_lomap fdp) x" for x using that inv by (simp add: fd_inv_def)
  have word: "x div 32 < length (fd_lomap fdp)" "x div 32 < bits" if "x < lst" for x
    using that facts(2) facts(3) [of x] by (auto simp: lst_def bits_def)
  have lbits: "bits \<le> NDLOSLOTS bits * 32"
  proof -
    have "n \<le> (n + 31) div 32 * 32" for n :: nat using div_mult_mod_eq [of "n + 31" 32] mod_less_divisor [of 32 "n + 31"] by linarith
    from this [of bits] this [of "NDREDUCE bits"] show ?thesis by (simp add: NDLOSLOTS_def NDHISLOTS_def NDREDUCE_def NDENTRIES_def)
  qed
  show ?thesis
  proof (cases "off \<le> bits")
    case False
    then have "round_of lim want fdp = Some Nothing" using hi by (simp add: round_of_def find_next_zero_def)
    moreover have "x \<in> U" if "want \<le> x" "x < lst" for x
    proof (rule ccontr)
      assume "x \<notin> U"
      then have "off \<le> x div 32" using start [OF that(1)] by (simp add: off_def div_le_mono)
      then show False using word(2) [OF that(2)] False by simp
    qed
    ultimately show ?thesis by (auto simp: round_spec_def free_from_def lst_def)
  next
    case True
    note spec = find_next_zero_spec [OF True, of "fd_himap fdp"]
    have full: "x \<in> U" if "off \<le> x div 32" "x div 32 < length (fd_lomap fdp)" "\<not> zero_at (fd_himap fdp) (x div 32)" for x
      using that facts(4) [of "x div 32"] zero_at_full [of "x div 32" "fd_lomap fdp" x] used by blast
    have k0: "off \<le> length (fd_lomap fdp) - 1" "zero_at (fd_himap fdp) (length (fd_lomap fdp) - 1)"
    proof -
      have "bits \<le> NDREDUCE (fd_nfiles fdp)" by (simp add: bits_def lst_def NDREDUCE_def NDENTRIES_def div_le_mono)
      then show "off \<le> length (fd_lomap fdp) - 1" using True facts(2) by linarith
      have "fd_lomap fdp ! (length (fd_lomap fdp) - 1) \<noteq> -1" using facts(2,5) zero_at_full [of "length (fd_lomap fdp) - 1" "fd_lomap fdp"] by fastforce
      then show "zero_at (fd_himap fdp) (length (fd_lomap fdp) - 1)" using facts(2,4) by simp
    qed
    show ?thesis
    proof (cases "find_next_zero (fd_himap fdp) off bits")
      case None
      then show ?thesis using spec k0 by (simp add: zero_spec_def)
    next
      case (Some r)
      show ?thesis
      proof (cases r)
        case None
        have "x \<in> U" if "want \<le> x" "x < lst" for x
        proof (rule ccontr)
          assume "x \<notin> U"
          then have "off \<le> x div 32" using start [OF that(1)] by (simp add: off_def div_le_mono)
          moreover have "x div 32 < NDLOSLOTS bits * 32" using word(2) [OF that(2)] lbits by simp
          ultimately have "\<not> zero_at (fd_himap fdp) (x div 32)" using spec Some None by (simp add: zero_spec_def)
          then show False using full word(1) [OF that(2)] \<open>off \<le> x div 32\<close> \<open>x \<notin> U\<close> by blast
        qed
        then show ?thesis using hi Some None by (auto simp: round_of_def round_spec_def free_from_def lst_def)
      next
        case (Some new)
        then have new: "find_next_zero (fd_himap fdp) off bits = Some (Some new)" using \<open>_ = Some r\<close> by simp
        then have n: "off \<le> new" "zero_at (fd_himap fdp) new" "\<And>k. off \<le> k \<Longrightarrow> k < new \<Longrightarrow> \<not> zero_at (fd_himap fdp) k"
          using spec by (simp_all add: zero_spec_def)
        then have nl: "new < length (fd_lomap fdp)" using facts(1) by (auto simp: zero_at_def div_less_iff_less_mult)
        define s where "s = (if new > off then 0 else i mod 32)"
        have s: "s < 32" "i \<le> 32 * new + s" "i < 32 * (new + 1)"
        proof -
          have "i = 32 * off + i mod 32" "i mod 32 < 32" by (simp_all add: off_def)
          then show "s < 32" "i \<le> 32 * new + s" "i < 32 * (new + 1)" using n(1) by (auto simp: s_def)
        qed
        have low: "32 * new + s \<le> x" if "want \<le> x" "x \<notin> U" "x div 32 < length (fd_lomap fdp)" for x
        proof -
          have "off \<le> x div 32" using start [OF that(1,2)] by (simp add: off_def div_le_mono)
          moreover from this have "new \<le> x div 32" using n(3) [of "x div 32"] full [of x] that(2,3) by (meson not_le)
          ultimately show ?thesis using start [OF that(1,2)] n(1) by (auto simp: s_def off_def)
        qed
        have "lo_search want new fdp = find_next_zero (drop new (fd_lomap fdp)) s 32" by (simp add: lo_search_def NDENTRIES_def i_def off_def s_def)
        moreover have "NDLOSLOTS 32 * 32 = 1024" by (simp add: NDLOSLOTS_def NDHISLOTS_def NDREDUCE_def NDENTRIES_def)
        ultimately have lo: "zero_spec (drop new (fd_lomap fdp)) s 1024 (lo_search want new fdp)"
          using find_next_zero_spec [of s 32 "drop new (fd_lomap fdp)"] s(1) by simp
        have rnd: "round_of lim want fdp = (case lo_search want new fdp of None \<Rightarrow> None | Some None \<Rightarrow> Some (Again ((new + 1) * 32)) | Some (Some j) \<Rightarrow> Some (Found (j + new * 32)))"
          using hi new by (simp add: round_of_def)
        from lo_round [OF inv nl s(1) low _ _ lo] s(2,3) rnd show ?thesis by (simp add: i_def lst_def)
      qed
    qed
  qed
qed

lemma fdalloc_round:
  "fdalloc lim want fdp = (case round_of lim want fdp of
     None \<Rightarrow> None
   | Some Nothing \<Rightarrow> Some (Inl (fd_full lim fdp))
   | Some (Again w) \<Rightarrow> fdalloc lim w fdp
   | Some (Found fd) \<Rightarrow> if fd < min (fd_nfiles fdp) lim then Some (Inr (fd, fd_take want fd fdp)) else Some (Inl (fd_full lim fdp)))"
  by (subst fdalloc.simps) (simp add: round_of_def NDENTRIES_def split: option.split)

subsection \<open>Taking and giving back a descriptor\<close>

lemma bit_one: "bit (shl1 n) k \<longleftrightarrow> k = n \<and> n < 32"
  by (auto simp: shl1_def bit_exp_iff)

lemma zero_at_set:
  assumes "fd div 32 < length bm"
  shows "zero_at (bm[fd div 32 := bm ! (fd div 32) OR shl1 (fd mod 32)]) x \<longleftrightarrow> zero_at bm x \<and> x \<noteq> fd"
proof -
  have "x = fd \<longleftrightarrow> x div 32 = fd div 32 \<and> x mod 32 = fd mod 32" by (metis div_mult_mod_eq)
  then show ?thesis using assms by (auto simp: zero_at_def nth_list_update bit_or_iff bit_one)
qed

lemma zero_at_clear:
  assumes "fd div 32 < length bm"
  shows "zero_at (bm[fd div 32 := bm ! (fd div 32) AND NOT (shl1 (fd mod 32))]) x \<longleftrightarrow> zero_at bm x \<or> x = fd"
proof -
  have "x = fd \<longleftrightarrow> x div 32 = fd div 32 \<and> x mod 32 = fd mod 32" by (metis div_mult_mod_eq)
  then show ?thesis using assms by (auto simp: zero_at_def nth_list_update bit_and_iff bit_not_iff bit_one)
qed

text \<open>The upper map says which words of the lower map are full.\<close>

definition hi_ok :: "u32 list \<Rightarrow> u32 list \<Rightarrow> bool" where
  "hi_ok hi lo \<longleftrightarrow> length lo = 32 * length hi \<and> (\<forall>k<length lo. zero_at hi k \<longleftrightarrow> lo ! k \<noteq> -1)"

lemma fd_inv_hi:
  "fd_inv U fdp \<Longrightarrow> hi_ok (fd_himap fdp) (fd_lomap fdp)"
  using fd_inv_facts(1,4) by (simp add: hi_ok_def)

lemma fd_inv_alt:
  "fd_inv U fdp \<longleftrightarrow> size_ok (fd_nfiles fdp) \<and> length (fd_ofiles fdp) = fd_nfiles fdp \<and> length (fd_ofileflags fdp) = fd_nfiles fdp
     \<and> length (fd_lomap fdp) = NDLOSLOTS (fd_nfiles fdp) \<and> length (fd_himap fdp) = NDHISLOTS (fd_nfiles fdp) \<and> hi_ok (fd_himap fdp) (fd_lomap fdp)
     \<and> (\<forall>fd. zero_at (fd_lomap fdp) fd = (fd div 32 < length (fd_lomap fdp) \<and> fd \<notin> U))
     \<and> U \<subseteq> {..<fd_nfiles fdp} \<and> U \<subseteq> {..fd_lastfile fdp} \<and> {..<fd_freefile fdp} \<subseteq> U \<and> fd_lastfile fdp < fd_nfiles fdp"
proof -
  have "hi_ok (fd_himap fdp) (fd_lomap fdp) \<longleftrightarrow> (\<forall>k<length (fd_lomap fdp). bit (fd_himap fdp ! (k div 32)) (k mod 32) = (fd_lomap fdp ! k = -1))"
    if "size_ok (fd_nfiles fdp)" "length (fd_lomap fdp) = NDLOSLOTS (fd_nfiles fdp)" "length (fd_himap fdp) = NDHISLOTS (fd_nfiles fdp)"
    using that size_ok_slots(3) [OF that(1)] by (auto simp: hi_ok_def zero_at_def div_less_iff_less_mult)
  then show ?thesis unfolding fd_inv_def by blast
qed

lemma hi_ok_set:
  assumes h: "hi_ok hi lo" and k: "k < length lo" and w: "lo ! k = -1 \<Longrightarrow> w = -1"
  shows "hi_ok (if w = -1 then hi[k div 32 := hi ! (k div 32) OR shl1 (k mod 32)] else hi) (lo[k := w])"
proof -
  have "k div 32 < length hi" using h k by (simp add: hi_ok_def div_less_iff_less_mult)
  note z = zero_at_set [OF this]
  show ?thesis using h k w by (auto simp: hi_ok_def nth_list_update z)
qed

lemma hi_ok_clear:
  assumes h: "hi_ok hi lo" and k: "k < length lo" and w: "w \<noteq> -1"
  shows "hi_ok (if lo ! k = -1 then hi[k div 32 := hi ! (k div 32) AND NOT (shl1 (k mod 32))] else hi) (lo[k := w])"
proof -
  have "k div 32 < length hi" using h k by (simp add: hi_ok_def div_less_iff_less_mult)
  note z = zero_at_clear [OF this]
  show ?thesis using h k w by (auto simp: hi_ok_def nth_list_update z)
qed

lemma fd_word: "fd_inv U fdp \<Longrightarrow> fd < fd_nfiles fdp \<Longrightarrow> fd div 32 < length (fd_lomap fdp)"
  using fd_inv_facts(2,3) by (meson order.strict_trans)

lemma fd_used_inv:
  assumes inv: "fd_inv U fdp" and fd: "fd < fd_nfiles fdp"
  shows "fd_inv (insert fd U) (fd_used fd fdp)"
proof -
  note w = fd_word [OF inv fd]
  let ?w = "fd_lomap fdp ! (fd div 32) OR shl1 (fd mod 32)"
  have "hi_ok (if ?w = -1 then (fd_himap fdp)[fd div 32 div 32 := fd_himap fdp ! (fd div 32 div 32) OR shl1 (fd div 32 mod 32)] else fd_himap fdp)
      ((fd_lomap fdp)[fd div 32 := ?w])"
    by (rule hi_ok_set [OF fd_inv_hi [OF inv] w]) simp
  then show ?thesis using inv fd w by (auto simp: fd_inv_alt fd_used_def Let_def NDENTRIES_def zero_at_set)
qed

lemma last_word_None: "last_word bm n = None \<Longrightarrow> k < n \<Longrightarrow> bm ! k = 0"
  by (induction n) (auto simp: less_Suc_eq split: if_splits)

lemma last_word_Some: "last_word bm n = Some off \<Longrightarrow> off < n \<and> (\<forall>k. off < k \<and> k < n \<longrightarrow> bm ! k = 0)"
  by (induction n) (auto simp: less_Suc_eq split: if_splits)

lemma last_open_spec: "x \<le> i \<Longrightarrow> ofiles ! x \<noteq> None \<Longrightarrow> x \<le> last_open ofiles i"
  by (induction i) (auto simp: le_Suc_eq)

text \<open>After \<^verbatim>\<open>find_last_set\<close> no descriptor above is open.\<close>

lemma find_last_set_spec:
  assumes x: "x < lst" "fd_ofiles fdp ! x \<noteq> None" and bits: "fd_lomap fdp ! (x div 32) \<noteq> 0"
  shows "x \<le> find_last_set fdp lst"
proof -
  have n: "x div 32 < Suc ((lst - 1) div 32)" using x(1) by (simp add: less_Suc_eq_le div_le_mono)
  then obtain off where off: "last_word (fd_lomap fdp) (Suc ((lst - 1) div 32)) = Some off"
    using bits last_word_None [OF _ n] by (cases "last_word (fd_lomap fdp) (Suc ((lst - 1) div 32))") auto
  have "x div 32 \<le> off" using last_word_Some [OF off] n bits by (meson not_le)
  then have "x \<le> min (Suc off * 32 - 1) (lst - 1)" using x(1) by auto
  then have "x \<le> last_open (fd_ofiles fdp) (min (Suc off * 32 - 1) (lst - 1))" by (rule last_open_spec) (rule x(2))
  then show ?thesis using off x(1) by (simp add: find_last_set_def NDENTRIES_def del: last_word.simps)
qed

text \<open>The parts of a table that marking a descriptor leaves alone.\<close>

definition same_files :: "filedesc \<Rightarrow> filedesc \<Rightarrow> bool" where
  "same_files fdp t \<longleftrightarrow> fd_ofiles t = fd_ofiles fdp \<and> fd_ofileflags t = fd_ofileflags fdp \<and> fd_nfiles t = fd_nfiles fdp \<and> fd_refcnt t = fd_refcnt fdp
     \<and> fd_knlist t = fd_knlist fdp"

lemma same_files_used [simp]: "same_files fdp (fd_used fd fdp)" "same_files fdp (fd_take want fd fdp)"
  by (simp_all add: same_files_def fd_used_def fd_take_def Let_def)

lemma fd_unused_inv:
  assumes inv: "fd_inv U fdp" and fd: "fd \<in> U" and opn: "\<forall>x<fd_nfiles fdp. fd_ofiles fdp ! x \<noteq> None \<longleftrightarrow> x \<in> U - {fd}"
  shows "\<exists>t. fd_unused fd fdp = Some t \<and> fd_inv (U - {fd}) t \<and> same_files fdp t"
proof -
  have n: "fd < fd_nfiles fdp" "fd \<le> fd_lastfile fdp" using inv fd by (auto simp: fd_inv_def)
  note w = fd_word [OF inv n(1)]
  let ?w = "fd_lomap fdp ! (fd div 32) AND NOT (shl1 (fd mod 32))"
  let ?hi = "if fd_lomap fdp ! (fd div 32) = -1 then (fd_himap fdp)[fd div 32 div 32 := fd_himap fdp ! (fd div 32 div 32) AND NOT (shl1 (fd div 32 mod 32))]
    else fd_himap fdp"
  define t where "t = fdp\<lparr>fd_freefile := min fd (fd_freefile fdp), fd_himap := ?hi, fd_lomap := (fd_lomap fdp)[fd div 32 := ?w]\<rparr>"
  have "\<not> bit ?w (fd mod 32)" by (simp add: bit_and_iff bit_not_iff bit_one)
  moreover have "fd mod 32 < 32" by simp
  ultimately have "?w \<noteq> -1" using u32_ones_iff [of ?w] by blast
  then have hi: "hi_ok (fd_himap t) (fd_lomap t)" using hi_ok_clear [OF fd_inv_hi [OF inv] w] by (simp add: t_def)
  have z: "zero_at (fd_lomap t) x \<longleftrightarrow> x div 32 < length (fd_lomap t) \<and> x \<notin> U - {fd}" for x
    using inv w by (auto simp: t_def zero_at_clear fd_inv_def)
  have inv': "fd_inv (U - {fd}) (t\<lparr>fd_lastfile := l\<rparr>)" if "l \<le> fd_lastfile fdp" "U - {fd} \<subseteq> {..l}" for l
    using inv hi z that by (auto simp: fd_inv_alt t_def)
  show ?thesis
  proof (cases "fd = fd_lastfile fdp")
    case False
    then have "fd_unused fd fdp = Some t" using n(2) by (simp add: fd_unused_def t_def Let_def NDENTRIES_def)
    moreover have "U - {fd} \<subseteq> {..fd_lastfile fdp}" using inv by (auto simp: fd_inv_def)
    then have "fd_inv (U - {fd}) (t\<lparr>fd_lastfile := fd_lastfile fdp\<rparr>)" by (rule inv' [OF order_refl])
    moreover have "t\<lparr>fd_lastfile := fd_lastfile fdp\<rparr> = t" by (simp add: t_def)
    ultimately show ?thesis using \<open>fd_unused fd fdp = Some t\<close> by (simp add: same_files_def t_def)
  next
    case True
    have "x \<le> find_last_set t fd" if "x \<in> U - {fd}" for x
    proof (rule find_last_set_spec)
      have "x < fd_nfiles fdp" "x \<le> fd_lastfile fdp" using that inv by (auto simp: fd_inv_def)
      then show "x < fd" "fd_ofiles t ! x \<noteq> None" using that True opn by (auto simp: t_def)
      have "\<not> zero_at (fd_lomap t) x" "x div 32 < length (fd_lomap t)" using z that fd_word [OF inv \<open>x < fd_nfiles fdp\<close>] by (auto simp: t_def)
      then show "fd_lomap t ! (x div 32) \<noteq> 0" by (auto simp: zero_at_def)
    qed
    then have "fd_inv (U - {fd}) (t\<lparr>fd_lastfile := find_last_set t fd\<rparr>)"
      using find_last_set_le [of t fd] True by (intro inv') auto
    moreover have "fd_unused fd fdp = Some (t\<lparr>fd_lastfile := find_last_set t fd\<rparr>)" using True by (simp add: fd_unused_def t_def Let_def NDENTRIES_def)
    ultimately show ?thesis by (simp add: same_files_def t_def)
  qed
qed

lemma fd_take_inv:
  assumes inv: "fd_inv U fdp" and fd: "fd < fd_nfiles fdp" and least: "\<forall>x. want \<le> x \<and> x < fd \<longrightarrow> x \<in> U"
  shows "fd_inv (insert fd U) (fd_take want fd fdp)"
proof -
  have "{..<fd} \<subseteq> insert fd U" if "want \<le> fd_freefile fdp"
  proof
    fix x assume "x \<in> {..<fd}"
    then show "x \<in> insert fd U" using that inv least by (cases "x < fd_freefile fdp") (auto simp: fd_inv_def)
  qed
  then show ?thesis using fd_used_inv [OF inv fd] by (auto simp: fd_take_def fd_inv_alt fd_used_def Let_def)
qed

text \<open>\<^verbatim>\<open>fdalloc\<close> gives the lowest free descriptor from the one wanted on, if there is one within the table and the limit.\<close>

definition fdalloc_spec :: "nat set \<Rightarrow> nat \<Rightarrow> nat \<Rightarrow> filedesc \<Rightarrow> (errno + nat \<times> filedesc) option \<Rightarrow> bool" where
  "fdalloc_spec U lim want fdp r \<longleftrightarrow>
     (if free_from U want (min (fd_nfiles fdp) lim) = {} then r = Some (Inl (fd_full lim fdp))
      else \<exists>fd t. r = Some (Inr (fd, t)) \<and> fd \<in> free_from U want (min (fd_nfiles fdp) lim) \<and> (\<forall>x\<in>free_from U want (min (fd_nfiles fdp) lim). fd \<le> x)
             \<and> fd_inv (insert fd U) t \<and> same_files fdp t)"

lemma fdalloc_done:
  assumes "fd_inv U fdp"
  shows "fdalloc_spec U lim want fdp (fdalloc lim want fdp)"
  using assms
proof (induction lim want fdp rule: fdalloc.induct)
  case (1 lim want fdp)
  note inv = "1.prems"
  note spec = round_of_spec [OF inv, of lim want]
  obtain r where r: "round_of lim want fdp = Some r" using spec by (cases "round_of lim want fdp") (auto simp: round_spec_def)
  show ?case
  proof (cases r)
    case Nothing
    then show ?thesis using spec r by (subst fdalloc_round) (simp add: fdalloc_spec_def round_spec_def)
  next
    case (Again w)
    then obtain new where h: "hi_search lim want fdp = Some (Some new)" "lo_search want new fdp = Some None" "w = (new + 1) * NDENTRIES"
      using r by (auto simp: round_of_def NDENTRIES_def split: option.splits)
    have "fdalloc_spec U lim w fdp (fdalloc lim w fdp)" unfolding h(3) by (rule "1.IH" [OF h(1) refl h(2) refl inv])
    then show ?thesis using spec r Again by (subst fdalloc_round) (simp add: fdalloc_spec_def round_spec_def)
  next
    case (Found fd)
    then have fd: "want \<le> fd" "fd \<notin> U" "\<forall>x. want \<le> x \<and> x < fd \<longrightarrow> x \<in> U" using spec r by (simp_all add: round_spec_def)
    then have ge: "fd \<le> x" if "x \<in> free_from U want m" for x m using that by (auto simp: free_from_def not_less [symmetric])
    show ?thesis
    proof (cases "fd < min (fd_nfiles fdp) lim")
      case True
      then have "fd \<in> free_from U want (min (fd_nfiles fdp) lim)" using fd by (simp add: free_from_def)
      then show ?thesis using True r Found ge fd_take_inv [OF inv _ fd(3)] by (subst fdalloc_round) (auto simp: fdalloc_spec_def)
    next
      case False
      then have "free_from U want (min (fd_nfiles fdp) lim) = {}" using ge by (fastforce simp: free_from_def)
      then show ?thesis using False r Found by (subst fdalloc_round) (auto simp: fdalloc_spec_def)
    qed
  qed
qed

lemma zero_at_append: "zero_at (bm @ replicate n 0) x \<longleftrightarrow> zero_at bm x \<or> length bm \<le> x div 32 \<and> x div 32 < length bm + n"
  by (auto simp: zero_at_def nth_append)

lemma next_size:
  assumes "size_ok n" and "n < 12800"
  shows "size_ok (if n < NDEXTENT then NDEXTENT else 2 * n)"
proof -
  have "{..8 :: nat} = {0, 1, 2, 3, 4, 5, 6, 7, 8}" by auto
  then show ?thesis using size_ok_cases [OF assms(1)] assms(2) by (auto simp: size_ok_def NDEXTENT_def)
qed

lemma fdexpand_inv:
  assumes inv: "fd_inv U fdp" and small: "fd_nfiles fdp < 12800"
  shows "fd_inv U (fdexpand fdp)"
proof -
  define n where "n = (if fd_nfiles fdp < NDEXTENT then NDEXTENT else 2 * fd_nfiles fdp)"
  have n: "size_ok n" "fd_nfiles fdp < n" using next_size [OF _ small] inv fdexpand_nfiles [of fdp] by (auto simp: n_def fd_inv_def fdexpand_def NDEXTENT_def)
  have len: "length (fd_lomap fdp) = NDLOSLOTS (fd_nfiles fdp)" "length (fd_himap fdp) = NDHISLOTS (fd_nfiles fdp)" using inv by (simp_all add: fd_inv_def)
  define h l where "h = NDHISLOTS n - NDHISLOTS (fd_nfiles fdp)" and "l = NDLOSLOTS n - NDLOSLOTS (fd_nfiles fdp)"
  have le: "NDHISLOTS (fd_nfiles fdp) \<le> NDHISLOTS n" 
  proof -
    have "NDREDUCE a \<le> NDREDUCE b" if "a \<le> b" for a b using that by (simp add: NDREDUCE_def NDENTRIES_def div_le_mono)
    then show ?thesis using n(2) by (simp add: NDHISLOTS_def)
  qed
  have lh: "l = 32 * h" "NDLOSLOTS n = 32 * NDHISLOTS n" by (simp_all add: h_def l_def NDLOSLOTS_def NDENTRIES_def)
  have ex: "fdexpand fdp = fdp\<lparr>fd_himap := fd_himap fdp @ replicate h 0, fd_lomap := fd_lomap fdp @ replicate l 0,
      fd_ofiles := fd_ofiles fdp @ replicate (n - fd_nfiles fdp) None, fd_ofileflags := fd_ofileflags fdp @ replicate (n - fd_nfiles fdp) 0, fd_nfiles := n\<rparr>"
  proof (cases "NDHISLOTS n > NDHISLOTS (fd_nfiles fdp)")
    case False
    then have "h = 0" "l = 0" using lh(1) by (simp_all add: h_def)
    then show ?thesis using False inv by (simp add: fdexpand_def n_def [symmetric] Let_def grow_def fd_inv_def)
  qed (use inv in \<open>simp add: fdexpand_def n_def [symmetric] Let_def grow_def fd_inv_def h_def l_def\<close>)
  have "fd_nfiles fdp \<le> 32 * length (fd_lomap fdp)" using fd_inv_facts(2) [OF inv] size_ok_slots(1) [of "fd_nfiles fdp"] inv by (auto simp: fd_inv_def)
  then have out: "x \<notin> U" if "length (fd_lomap fdp) \<le> x div 32" for x using that inv by (auto simp: fd_inv_def)
  have z: "zero_at (fd_lomap fdp @ replicate l 0) x = (x div 32 < length (fd_lomap fdp) + l \<and> x \<notin> U)" for x
    using inv out [of x] by (auto simp: zero_at_append fd_inv_def)
  have "hi_ok (fd_himap fdp @ replicate h 0) (fd_lomap fdp @ replicate l 0)"
  proof -
    have "hi_ok (fd_himap fdp) (fd_lomap fdp)" by (rule fd_inv_hi [OF inv])
    then show ?thesis using lh(1) by (auto simp: hi_ok_def zero_at_append nth_append div_less_iff_less_mult zero_at_def [of "fd_himap fdp"])
  qed
  moreover have "NDLOSLOTS (fd_nfiles fdp) + l = NDLOSLOTS n" "NDHISLOTS (fd_nfiles fdp) + h = NDHISLOTS n"
    using le lh by (simp_all add: h_def NDLOSLOTS_def NDENTRIES_def)
  ultimately show ?thesis using inv n z len by (auto simp: fd_inv_alt ex)
qed

end
