(* ===== verification/Descrip_Calls.thy ===== *)
theory Descrip_Calls
  imports Descrip
begin

text \<open>
  The system calls of \<^verbatim>\<open>src/sys/kern/kern_descrip.c\<close> on the model of \<^verbatim>\<open>Descrip\<close>: the invariant of tables and files together, what every
  call does under it, the states that sequences of calls reach, the descriptor table as a map, and the copy of a table.
\<close>

section \<open>Invariant of the files\<close>

text \<open>The descriptor table as a map, and the references to a file from it.\<close>

definition tab :: "fstate \<Rightarrow> nat \<Rightarrow> nat option" where
  "tab st fd = (if fd < fd_nfiles (fdt st) then fd_ofiles (fdt st) ! fd else None)"

definition opens :: "fstate \<Rightarrow> nat set" where
  "opens st = {fd. tab st fd \<noteq> None}"

definition refs :: "fstate \<Rightarrow> nat \<Rightarrow> nat" where
  "refs st fp = card {fd. tab st fd = Some fp}"

definition larval :: "ofile \<Rightarrow> bool" where
  "larval f \<longleftrightarrow> FIF_LARVAL \<in> f_iflags f"

text \<open>All files are complete and none is being closed.\<close>

definition mature :: "fstate \<Rightarrow> bool" where
  "mature st \<longleftrightarrow> (\<forall>fp f. files st fp = Some f \<longrightarrow> f_iflags f = {})"

text \<open>
  Between two calls: the count of every file is the number of descriptors that refer to it, here and elsewhere (\<open>ext\<close>),
  a file without references does not exist, no file is being closed, and only files under construction are in use.
\<close>

definition file_ok :: "nat \<Rightarrow> ofile option \<Rightarrow> bool" where
  "file_ok n x \<longleftrightarrow> (case x of None \<Rightarrow> n = 0
     | Some f \<Rightarrow> 0 < n \<and> f_count f = int n \<and> FIF_WANTCLOSE \<notin> f_iflags f \<and> f_usecount f = (if larval f then 1 else 0))"

definition fs_inv :: "(nat \<Rightarrow> nat) \<Rightarrow> fstate \<Rightarrow> bool" where
  "fs_inv ext st \<longleftrightarrow> fd_inv (opens st) (fdt st) \<and> (\<forall>fp. file_ok (refs st fp + ext fp) (files st fp))
     \<and> distinct (filehead st) \<and> set (filehead st) = {fp. files st fp \<noteq> None} \<and> nfiles st = int (length (filehead st)) \<and> fd_lim st \<le> 12800
     \<and> (\<forall>fp. int (ext fp) < LONG_MAX - 20000)"

lemma opens_below: "opens st \<subseteq> {..<fd_nfiles (fdt st)}"
  by (auto simp: opens_def tab_def split: if_splits)

lemma finite_opens [simp]: "finite (opens st)"
  using opens_below finite_subset by blast

lemma finite_refs [simp]: "finite {fd. tab st fd = Some fp}"
  by (rule finite_subset [OF _ finite_opens]) (auto simp: opens_def)

lemma tab_cong: "fdt st' = fdt st \<Longrightarrow> tab st' = tab st"
  by (simp add: tab_def fun_eq_iff)

lemma refs_pos: "tab st fd = Some fp \<Longrightarrow> 0 < refs st fp"
  by (auto simp: refs_def card_gt_0_iff)

lemma refs_le: "refs st fp \<le> fd_nfiles (fdt st)"
proof -
  have "{fd. tab st fd = Some fp} \<subseteq> {..<fd_nfiles (fdt st)}" by (auto simp: tab_def split: if_splits)
  from card_mono [OF _ this] show ?thesis by (simp add: refs_def)
qed

text \<open>How an update of one descriptor changes the references.\<close>

lemma refs_upd:
  assumes "tab st' = (tab st)(fd := x)"
  shows "refs st' fp = refs st fp - (if tab st fd = Some fp then 1 else 0) + (if x = Some fp then 1 else 0)"
proof -
  have "{d. tab st' d = Some fp} = (if x = Some fp then insert fd ({d. tab st d = Some fp} - {fd}) else {d. tab st d = Some fp} - {fd})"
    using assms by auto
  then have "refs st' fp = card ({d. tab st d = Some fp} - {fd}) + (if x = Some fp then 1 else 0)" by (simp add: refs_def card.insert_remove)
  also have "card ({d. tab st d = Some fp} - {fd}) = refs st fp - (if tab st fd = Some fp then 1 else 0)"
    by (simp add: refs_def card_Diff_singleton_if)
  finally show ?thesis .
qed

lemma opens_upd: "tab st' = (tab st)(fd := x) \<Longrightarrow> opens st' = (if x = None then opens st - {fd} else insert fd (opens st))"
  by (auto simp: opens_def)

lemma upd_file_frame [simp]:
  "fdt (upd_file fp g st) = fdt st" "filehead (upd_file fp g st) = filehead st" "nfiles (upd_file fp g st) = nfiles st"
  "tab (upd_file fp g st) = tab st" "opens (upd_file fp g st) = opens st" "fd_lim (upd_file fp g st) = fd_lim st" "maxfiles (upd_file fp g st) = maxfiles st"
  "rlim_cur (upd_file fp g st) = rlim_cur st" "unlocks (upd_file fp g st) = unlocks st"
  "files (upd_file fp g st) q = (if q = fp then map_option g (files st q) else files st q)"
  by (auto simp: upd_file_def tab_def opens_def fd_lim_def)

lemma fd_getfile_Some:
  assumes "fd_getfile (fdt st) (files st) fd = Some fp"
  shows "0 \<le> fd" "nat fd < fd_nfiles (fdt st)" "tab st (nat fd) = Some fp" "\<exists>f. files st fp = Some f \<and> f_iflags f = {}"
  using assms by (auto simp: fd_getfile_def tab_def split: if_splits option.splits)

section \<open>Closing\<close>

text \<open>The state after the reference of a descriptor that has been cleared is given up.\<close>

definition dropped :: "nat \<Rightarrow> ofile \<Rightarrow> fstate \<Rightarrow> fstate \<Rightarrow> bool" where
  "dropped fp f st st' \<longleftrightarrow> fdt st' = fdt st \<and> fd_lim st' = fd_lim st \<and> maxfiles st' = maxfiles st
     \<and> (if f_count f = 1 then files st' = (files st)(fp := None) \<and> filehead st' = remove1 fp (filehead st) \<and> nfiles st' = nfiles st - 1
        else files st' = (files st)(fp := Some (f\<lparr>f_count := f_count f - 1\<rparr>)) \<and> filehead st' = filehead st \<and> nfiles st' = nfiles st)"

lemma closef_drop:
  assumes f: "files st fp = Some f" "FIF_WANTCLOSE \<notin> f_iflags f" "0 < f_count f" "f_usecount f = 0"
  shows "\<exists>e st'. closef env fp (FREF fp st) = Some (e, st') \<and> dropped fp f st st' \<and> e = (if f_count f = 1 \<and> f_ops f then fo_close env fp else None)"
proof (cases "f_count f = 1")
  case True
  then show ?thesis using f by (auto simp: closef_def FREF_def Let_def dropped_def fd_lim_def fun_upd_def upd_file_def)
next
  case False
  then have "0 < f_count f - 1" using f(3) by simp
  then show ?thesis using f False by (auto simp: closef_def FREF_def FRELE_def Let_def dropped_def fd_lim_def fun_upd_def upd_file_def)
qed

lemma int_length_remove1: "x \<in> set xs \<Longrightarrow> int (length (remove1 x xs)) = int (length xs) - 1"
  by (induction xs) auto

text \<open>Clearing a descriptor and giving up its reference keeps everything in order.\<close>

lemma dropped_inv:
  assumes inv: "fs_inv ext st" and fd: "tab st fd = Some fp" "files st fp = Some f" and t: "tab st1 = (tab st)(fd := None)" "fd_inv (opens st - {fd}) (fdt st1)"
    and same: "files st1 = files st" "filehead st1 = filehead st" "nfiles st1 = nfiles st" "fd_lim st1 = fd_lim st" and d: "dropped fp f st1 st'"
  shows "fs_inv ext st'"
proof -
  have tab': "tab st' = (tab st)(fd := None)" using d t(1) tab_cong [of st' st1] by (simp add: dropped_def)
  have refs: "refs st' q = refs st q - (if q = fp then 1 else 0)" for q using refs_upd [OF tab', of q] fd(1) by auto
  have ok: "file_ok (refs st q + ext q) (files st q)" for q using inv by (simp add: fs_inv_def)
  have pos: "0 < refs st fp" by (rule refs_pos [OF fd(1)])
  have cnt: "f_count f = int (refs st fp + ext fp)" using ok [of fp] fd(2) by (simp add: file_ok_def)
  have "file_ok (refs st' q + ext q) (files st' q)" for q
  proof (cases "q = fp")
    case False
    then show ?thesis using ok [of q] d same refs [of q] by (auto simp: dropped_def split: if_splits)
  next
    case True
    then show ?thesis using ok [of fp] d same refs [of fp] fd(2) cnt pos by (auto simp: dropped_def file_ok_def larval_def split: if_splits)
  qed
  moreover have "opens st' = opens st - {fd}" using opens_upd [OF tab'] by simp
  moreover have "distinct (filehead st')" "set (filehead st') = {q. files st' q \<noteq> None}" "nfiles st' = int (length (filehead st'))"
    using inv d same fd(2) by (auto simp: fs_inv_def dropped_def int_length_remove1 split: if_splits)
  ultimately show ?thesis using inv t(2) d same(4) by (auto simp: fs_inv_def dropped_def)
qed

lemma FREF_fdt: "(FREF fp st)\<lparr>fdt := t\<rparr> = FREF fp (st\<lparr>fdt := t\<rparr>)"
  by (simp add: FREF_def upd_file_def)

lemma opens_iff: "fd < fd_nfiles (fdt st) \<Longrightarrow> fd \<in> opens st \<longleftrightarrow> fd_ofiles (fdt st) ! fd \<noteq> None"
  by (simp add: opens_def tab_def)

lemma fd_inv_arrays:
  "fd_inv U (fdp\<lparr>fd_ofiles := a, fd_ofileflags := b\<rparr>) \<longleftrightarrow> fd_inv U (fdp\<lparr>fd_ofiles := replicate (length a) None, fd_ofileflags := replicate (length b) 0\<rparr>)"
  by (simp add: fd_inv_def)

lemma fd_inv_set: "fd_inv U fdp \<Longrightarrow> fd_inv U (fdp\<lparr>fd_ofiles := (fd_ofiles fdp)[i := x], fd_ofileflags := (fd_ofileflags fdp)[j := y]\<rparr>)"
  by (simp add: fd_inv_def)

lemma tab_same_files: "same_files ((fdt st)\<lparr>fd_ofiles := (fd_ofiles (fdt st))[fd := x], fd_ofileflags := fl\<rparr>) t \<Longrightarrow> fd < fd_nfiles (fdt st) \<Longrightarrow>
    length (fd_ofiles (fdt st)) = fd_nfiles (fdt st) \<Longrightarrow> tab (st\<lparr>fdt := t\<rparr>) = (tab st)(fd := x)"
  by (auto simp: tab_def same_files_def fun_eq_iff nth_list_update)

text \<open>What closing a descriptor does.\<close>

definition closed :: "(nat \<Rightarrow> nat) \<Rightarrow> fenv \<Rightarrow> nat \<Rightarrow> nat \<Rightarrow> ofile \<Rightarrow> fstate \<Rightarrow> errno option \<Rightarrow> fstate \<Rightarrow> bool" where
  "closed ext env fd fp f st e st' \<longleftrightarrow> fs_inv ext st' \<and> tab st' = (tab st)(fd := None) \<and> fd_nfiles (fdt st') = fd_nfiles (fdt st) \<and> fd_lim st' = fd_lim st
     \<and> maxfiles st' = maxfiles st \<and> fd_ofileflags (fdt st') = (fd_ofileflags (fdt st))[fd := 0]
     \<and> files st' = (files st)(fp := if f_count f = 1 then None else Some (f\<lparr>f_count := f_count f - 1\<rparr>))
     \<and> e = (if f_count f = 1 \<and> f_ops f then fo_close env fp else None)"

lemma fdrelease_done:
  assumes inv: "fs_inv ext st" and fd: "tab st fd = Some fp" "files st fp = Some f" "\<not> larval f"
  shows "\<exists>e st'. fdrelease env fd st = Some (e, st') \<and> closed ext env fd fp f st e st'"
proof -
  have n: "fd < fd_nfiles (fdt st)" "fd_ofiles (fdt st) ! fd = Some fp" "fd \<in> opens st" using fd(1) by (auto simp: tab_def opens_def split: if_splits)
  have tinv: "fd_inv (opens st) (fdt st)" "length (fd_ofiles (fdt st)) = fd_nfiles (fdt st)" using inv by (auto simp: fs_inv_def fd_inv_def)
  define t0 where "t0 = (fdt st)\<lparr>fd_ofiles := (fd_ofiles (fdt st))[fd := None], fd_ofileflags := (fd_ofileflags (fdt st))[fd := 0]\<rparr>"
  have "\<exists>t. fd_unused fd t0 = Some t \<and> fd_inv (opens st - {fd}) t \<and> same_files t0 t"
  proof (rule fd_unused_inv [OF _ n(3)])
    show "fd_inv (opens st) t0" unfolding t0_def by (rule fd_inv_set [OF tinv(1)])
    show "\<forall>x<fd_nfiles t0. fd_ofiles t0 ! x \<noteq> None \<longleftrightarrow> x \<in> opens st - {fd}" using tinv(2) n(1) by (auto simp: t0_def nth_list_update opens_iff split: if_splits)
  qed
  then obtain t where t: "fd_unused fd t0 = Some t" "fd_inv (opens st - {fd}) t" "same_files t0 t" by blast
  define st1 where "st1 = st\<lparr>fdt := t\<rparr>"
  have tab1: "tab st1 = (tab st)(fd := None)" unfolding st1_def by (rule tab_same_files [OF t(3) [unfolded t0_def] n(1) tinv(2)])
  have ok: "file_ok (refs st fp + ext fp) (files st fp)" using inv by (simp add: fs_inv_def)
  then have f: "files st1 fp = Some f" "FIF_WANTCLOSE \<notin> f_iflags f" "0 < f_count f" "f_usecount f = 0"
    using fd(2,3) by (auto simp: st1_def file_ok_def)
  obtain e st' where c: "closef env fp (FREF fp st1) = Some (e, st')" "dropped fp f st1 st'" "e = (if f_count f = 1 \<and> f_ops f then fo_close env fp else None)"
    using closef_drop [OF f, of env] by blast
  have "fs_inv ext st'" by (rule dropped_inv [OF inv fd(1,2) tab1 _ _ _ _ _ c(2)]) (use t(2) in \<open>simp_all add: st1_def fd_lim_def\<close>)
  moreover have "fdrelease env fd st = Some (e, st')" using n(2) t(1) c(1) by (simp add: fdrelease_def Let_def t0_def st1_def FREF_fdt)
  ultimately show ?thesis using c(2,3) tab1 t(3) tab_cong [of st' st1] by (auto simp: closed_def dropped_def st1_def same_files_def t0_def fd_lim_def split: if_splits)
qed

section \<open>Duplicating\<close>

text \<open>What making descriptor \<open>new\<close> refer to the file \<open>fp\<close> of another descriptor does, when \<open>new\<close> was not open.\<close>

definition duped :: "(nat \<Rightarrow> nat) \<Rightarrow> nat \<Rightarrow> ofile \<Rightarrow> nat \<Rightarrow> fstate \<Rightarrow> fstate \<Rightarrow> bool" where
  "duped ext fp f new st st' \<longleftrightarrow> fs_inv ext st' \<and> tab st' = (tab st)(new := Some fp) \<and> files st' = (files st)(fp := Some (f\<lparr>f_count := f_count f + 1\<rparr>))
     \<and> fd_lim st' = fd_lim st \<and> filehead st' = filehead st \<and> fd_ofileflags (fdt st') ! new AND UF_EXCLOSE = 0"

lemma exclose_cleared: "(w AND NOT UF_EXCLOSE) AND UF_EXCLOSE = 0"
  by (simp add: and.assoc)

text \<open>The references after a new one has been added.\<close>

lemma duped_inv:
  assumes inv: "fs_inv ext st" and f: "files st fp = Some f" "\<not> larval f" and new: "tab st new = None"
    and st': "tab st' = (tab st)(new := Some fp)" "fd_inv (insert new (opens st)) (fdt st')" "files st' = (files st)(fp := Some (f\<lparr>f_count := f_count f + 1\<rparr>))"
    "filehead st' = filehead st" "nfiles st' = nfiles st" "fd_lim st' = fd_lim st"
  shows "fs_inv ext st'"
proof -
  have ok: "file_ok (refs st q + ext q) (files st q)" for q using inv by (simp add: fs_inv_def)
  have refs: "refs st' q = refs st q + (if q = fp then 1 else 0)" for q using refs_upd [OF st'(1), of q] new by auto
  have "file_ok (refs st' q + ext q) (files st' q)" for q
    using ok [of q] refs [of q] st'(3) f by (cases "q = fp") (auto simp: file_ok_def larval_def)
  moreover have "opens st' = insert new (opens st)" using opens_upd [OF st'(1)] by simp
  moreover have "set (filehead st') = {q. files st' q \<noteq> None}" using inv st'(3,4) f(1) by (auto simp: fs_inv_def)
  ultimately show ?thesis using inv st' by (simp add: fs_inv_def)
qed

lemma finishdup_new:
  assumes inv: "fs_inv ext st" and f: "files st fp = Some f" "\<not> larval f" "f_count f \<noteq> LONG_MAX - 2" and new: "tab st new = None" "new < fd_nfiles (fdt st)"
    and t: "fd_inv (opens st) t \<or> fd_inv (insert new (opens st)) t" "same_files (fdt st) t"
  shows "\<exists>st'. finishdup env fp old new (FREF fp (st\<lparr>fdt := t\<rparr>)) = Some (None, new, st') \<and> duped ext fp f new st st'"
proof -
  have len: "length (fd_ofiles t) = fd_nfiles t" "length (fd_ofileflags t) = fd_nfiles t" "fd_nfiles t = fd_nfiles (fdt st)" "fd_ofiles t = fd_ofiles (fdt st)"
    using t by (auto simp: fd_inv_def same_files_def)
  have none: "fd_ofiles t ! new = None" using new len by (simp add: tab_def)
  define t1 where "t1 = t\<lparr>fd_ofiles := (fd_ofiles t)[new := Some fp], fd_ofileflags := (fd_ofileflags t)[new := fd_ofileflags t ! old AND NOT UF_EXCLOSE]\<rparr>"
  have i1: "fd_inv (opens st) t1 \<or> fd_inv (insert new (opens st)) t1" unfolding t1_def using t(1) fd_inv_set by blast
  have "fd_inv (insert new (opens st)) (fd_used new t1)"
    using i1 fd_used_inv [of "opens st" t1 new] fd_used_inv [of "insert new (opens st)" t1 new] new(2) len by (auto simp: t1_def)
  define st' where "st' = (FRELE fp (upd_file fp (\<lambda>f. f\<lparr>f_count := f_count f + 1\<rparr>) (FREF fp (st\<lparr>fdt := fd_used new t1\<rparr>))))"
  have "finishdup env fp old new (FREF fp (st\<lparr>fdt := t\<rparr>)) = Some (None, new, st')"
    using f none by (simp add: finishdup_def st'_def t1_def FREF_def FRELE_def upd_file_def Let_def)
  moreover have files: "files st' = (files st)(fp := Some (f\<lparr>f_count := f_count f + 1\<rparr>))"
    using f by (auto simp: st'_def FREF_def FRELE_def fun_eq_iff)
  moreover have fdt: "fdt st' = fd_used new t1" by (simp add: st'_def FREF_def FRELE_def)
  have "same_files t1 (fd_used new t1)" by simp
  then have tab: "tab st' = (tab st)(new := Some fp)"
    using new(2) len fdt by (auto simp: tab_def same_files_def t1_def fun_eq_iff nth_list_update)
  moreover have "fs_inv ext st'"
    by (rule duped_inv [OF inv f(1,2) new(1) tab _ files]) (use \<open>fd_inv (insert new (opens st)) (fd_used new t1)\<close> fdt in \<open>simp_all add: st'_def FREF_def FRELE_def fd_lim_def\<close>)
  moreover have "fd_ofileflags (fdt st') ! new AND UF_EXCLOSE = 0" using fdt new(2) len exclose_cleared by (simp add: fd_used_def Let_def t1_def)
  ultimately show ?thesis by (simp add: duped_def st'_def FREF_def FRELE_def fd_lim_def)
qed

subsection \<open>Growing the table\<close>

lemma fd_ofiles_expand: "length (fd_ofiles fdp) = fd_nfiles fdp \<Longrightarrow> fd_ofiles (fdexpand fdp) = fd_ofiles fdp @ replicate (fd_nfiles (fdexpand fdp) - fd_nfiles fdp) None"
  by (simp add: fdexpand_def Let_def grow_def)

lemma tab_expand:
  assumes "length (fd_ofiles (fdt st)) = fd_nfiles (fdt st)"
  shows "tab (st\<lparr>fdt := fdexpand (fdt st)\<rparr>) = tab st"
  using fd_ofiles_expand [OF assms] fdexpand_nfiles [of "fdt st"] assms by (auto simp: tab_def fun_eq_iff nth_append)

lemma fs_inv_size:
  assumes "fs_inv ext st"
  shows "fd_nfiles (fdt st) \<le> 12800" and "length (fd_ofiles (fdt st)) = fd_nfiles (fdt st)"
proof -
  have "size_ok (fd_nfiles (fdt st))" "length (fd_ofiles (fdt st)) = fd_nfiles (fdt st)" using assms by (simp_all add: fs_inv_def fd_inv_def)
  then show "fd_nfiles (fdt st) \<le> 12800" "length (fd_ofiles (fdt st)) = fd_nfiles (fdt st)" using size_ok_cases by fastforce+
qed

lemma fs_inv_fdt:
  assumes inv: "fs_inv ext st" and t: "tab (st\<lparr>fdt := t\<rparr>) = tab st" "fd_inv (opens st) t"
  shows "fs_inv ext (st\<lparr>fdt := t\<rparr>)"
  using inv t by (simp add: fs_inv_def opens_def refs_def fd_lim_def)

lemma fs_inv_expand:
  assumes inv: "fs_inv ext st" and lim: "fd_nfiles (fdt st) < fd_lim st"
  shows "fs_inv ext (st\<lparr>fdt := fdexpand (fdt st)\<rparr>)"
proof (rule fs_inv_fdt [OF inv])
  show "tab (st\<lparr>fdt := fdexpand (fdt st)\<rparr>) = tab st" by (rule tab_expand [OF fs_inv_size(2) [OF inv]])
  have "fd_nfiles (fdt st) < 12800" using inv lim by (simp add: fs_inv_def)
  then show "fd_inv (opens st) (fdexpand (fdt st))" using inv by (intro fdexpand_inv) (simp_all add: fs_inv_def)
qed

lemma fs_inv_count:
  assumes "fs_inv ext st" and "files st fp = Some f"
  shows "f_count f \<noteq> LONG_MAX - 2" and "0 < f_count f"
proof -
  have "file_ok (refs st fp + ext fp) (Some f)" using assms unfolding fs_inv_def by metis
  moreover have "int (ext fp) < LONG_MAX - 20000" using assms(1) by (simp add: fs_inv_def)
  moreover have "refs st fp \<le> 12800" using refs_le [of st fp] fs_inv_size(1) [OF assms(1)] by linarith
  ultimately show "f_count f \<noteq> LONG_MAX - 2" "0 < f_count f" by (auto simp: file_ok_def)
qed

text \<open>The lowest descriptor from \<open>want\<close> on that is not open.\<close>

definition lowest :: "nat \<Rightarrow> fstate \<Rightarrow> nat" where
  "lowest want st = (LEAST fd. want \<le> fd \<and> tab st fd = None)"

text \<open>What asking for a descriptor gives in a good state.\<close>

definition alloc_case :: "nat \<Rightarrow> fstate \<Rightarrow> (errno + nat \<times> filedesc) option \<Rightarrow> bool" where
  "alloc_case want st r \<longleftrightarrow>
     (\<exists>t. r = Some (Inr (lowest want st, t)) \<and> tab st (lowest want st) = None \<and> want \<le> lowest want st \<and> lowest want st < min (fd_nfiles (fdt st)) (fd_lim st)
        \<and> fd_inv (insert (lowest want st) (opens st)) t \<and> same_files (fdt st) t)
     \<or> r = Some (Inl EMFILE) \<and> fd_lim st \<le> fd_nfiles (fdt st) \<and> fd_lim st \<le> lowest want st
     \<or> r = Some (Inl ENOSPC) \<and> fd_nfiles (fdt st) < fd_lim st"

lemma lowest_props: "want \<le> lowest want st \<and> tab st (lowest want st) = None"
proof -
  have "want \<le> max want (fd_nfiles (fdt st)) \<and> tab st (max want (fd_nfiles (fdt st))) = None" by (simp add: tab_def)
  then show ?thesis unfolding lowest_def by (rule LeastI)
qed

lemma lowest_le: "want \<le> fd \<Longrightarrow> tab st fd = None \<Longrightarrow> lowest want st \<le> fd"
  unfolding lowest_def by (rule Least_le) simp

lemma alloc_cases:
  assumes inv: "fs_inv ext st"
  shows "alloc_case want st (fdalloc (fd_lim st) want (fdt st))"
proof -
  have spec: "fdalloc_spec (opens st) (fd_lim st) want (fdt st) (fdalloc (fd_lim st) want (fdt st))"
    using inv by (intro fdalloc_done) (simp add: fs_inv_def)
  let ?F = "free_from (opens st) want (min (fd_nfiles (fdt st)) (fd_lim st))"
  have F: "x \<in> ?F \<longleftrightarrow> want \<le> x \<and> x < min (fd_nfiles (fdt st)) (fd_lim st) \<and> tab st x = None" for x by (auto simp: free_from_def opens_def)
  note low = lowest_props [of want st]
  show ?thesis
  proof (cases "?F = {}")
    case True
    then have "min (fd_nfiles (fdt st)) (fd_lim st) \<le> lowest want st" using low F [of "lowest want st"] True by (metis empty_iff not_le)
    then show ?thesis using spec True by (auto simp: fdalloc_spec_def alloc_case_def fd_full_def)
  next
    case False
    then obtain fd t where fd: "fdalloc (fd_lim st) want (fdt st) = Some (Inr (fd, t))" "fd \<in> ?F" "\<forall>x\<in>?F. fd \<le> x" "fd_inv (insert fd (opens st)) t" "same_files (fdt st) t"
      using spec by (auto simp: fdalloc_spec_def)
    have "lowest want st \<le> fd" using fd(2) F lowest_le by blast
    moreover from this have "lowest want st \<in> ?F" using fd(2) F low by (meson order.strict_trans1)
    ultimately have "fd = lowest want st" using fd(3) by force
    then show ?thesis using fd(1,2,4,5) F [of fd] low by (auto simp: alloc_case_def)
  qed
qed

lemma lowest_expand: "tab st' = tab st \<Longrightarrow> lowest want st' = lowest want st"
  by (simp add: lowest_def)

lemma duped_cong:
  "tab st1 = tab st \<Longrightarrow> files st1 = files st \<Longrightarrow> fd_lim st1 = fd_lim st \<Longrightarrow> filehead st1 = filehead st \<Longrightarrow> duped ext fp f new st1 st' = duped ext fp f new st st'"
  by (simp add: duped_def)

subsection \<open>dup and fcntl\<close>

lemma getfile_cong:
  assumes "tab st' = tab st" and "files st' = files st"
  shows "fd_getfile (fdt st') (files st') fd = fd_getfile (fdt st) (files st) fd"
proof -
  have "fd_getfile (fdt s) (files s) fd = (if fd < 0 then None else case tab s (nat fd) of None \<Rightarrow> None
      | Some fp \<Rightarrow> (case files s fp of None \<Rightarrow> None | Some f \<Rightarrow> if f_iflags f = {} then Some fp else None))" for s
    by (auto simp: fd_getfile_def tab_def)
  from this [of st] this [of st'] show ?thesis by (simp only: assms)
qed

text \<open>The table may have been expanded; nothing else has changed.\<close>

definition grown :: "fstate \<Rightarrow> fstate \<Rightarrow> bool" where
  "grown st st' \<longleftrightarrow> tab st' = tab st \<and> files st' = files st \<and> filehead st' = filehead st \<and> nfiles st' = nfiles st \<and> fd_lim st' = fd_lim st \<and> maxfiles st' = maxfiles st
     \<and> (\<forall>fd<fd_nfiles (fdt st). fd_ofileflags (fdt st') ! fd = fd_ofileflags (fdt st) ! fd)"

lemma grown_expand:
  assumes "fs_inv ext st"
  shows "grown st (st\<lparr>fdt := fdexpand (fdt st)\<rparr>)"
proof -
  have "length (fd_ofileflags (fdt st)) = fd_nfiles (fdt st)" using assms by (simp add: fs_inv_def fd_inv_def)
  then have "\<forall>fd<fd_nfiles (fdt st). fd_ofileflags (fdexpand (fdt st)) ! fd = fd_ofileflags (fdt st) ! fd" by (simp add: fdexpand_def Let_def grow_def nth_append)
  then show ?thesis using tab_expand [OF fs_inv_size(2) [OF assms]] by (simp add: grown_def fd_lim_def)
qed

lemma grown_trans:
  assumes "grown st st1" and "grown st1 st2" and "fd_nfiles (fdt st) \<le> fd_nfiles (fdt st1)"
  shows "grown st st2"
  using assms by (auto simp: grown_def)

lemma getfile_grown: "grown st st' \<Longrightarrow> fd_getfile (fdt st') (files st') fd = fd_getfile (fdt st) (files st) fd"
  by (rule getfile_cong) (simp_all add: grown_def)

text \<open>
  The calls that ask for a descriptor share a contract: when the table is full below the limit they expand it and start again. So
  they go through with the lowest free descriptor, unless it is beyond the limit.
\<close>

locale fd_restart =
  fixes call :: "fstate \<Rightarrow> 'r" and want :: nat and ready :: "fstate \<Rightarrow> bool"
  assumes restart: "ready st \<Longrightarrow> fdalloc (fd_lim st) want (fdt st) = Some (Inl ENOSPC) \<Longrightarrow> call st = call (st\<lparr>fdt := fdexpand (fdt st)\<rparr>)"
    and ready_grown: "ready st \<Longrightarrow> grown st st' \<Longrightarrow> ready st'"
begin

lemma settles:
  assumes "fs_inv ext st" and "ready st" and "want < fd_lim st \<or> lowest want st < fd_lim st \<or> fd_lim st \<le> fd_nfiles (fdt st)"
  shows "\<exists>st1. call st = call st1 \<and> fs_inv ext st1 \<and> ready st1 \<and> grown st st1
    \<and> (if lowest want st < fd_lim st
       then lowest want st < fd_nfiles (fdt st1) \<and> (\<exists>t. fdalloc (fd_lim st1) want (fdt st1) = Some (Inr (lowest want st, t))
              \<and> fd_inv (insert (lowest want st) (opens st1)) t \<and> same_files (fdt st1) t)
       else st1 = st \<and> fdalloc (fd_lim st) want (fdt st) = Some (Inl EMFILE))"
  using assms
proof (induction "fd_lim st - fd_nfiles (fdt st)" arbitrary: st rule: less_induct)
  case less
  note inv = less.prems(1)
  have self: "grown st st" by (simp add: grown_def)
  from alloc_cases [OF inv, of want] consider
      (ok) t where "fdalloc (fd_lim st) want (fdt st) = Some (Inr (lowest want st, t))" "lowest want st < min (fd_nfiles (fdt st)) (fd_lim st)"
        "fd_inv (insert (lowest want st) (opens st)) t" "same_files (fdt st) t"
    | (full) "fdalloc (fd_lim st) want (fdt st) = Some (Inl EMFILE)" "fd_lim st \<le> lowest want st"
    | (grow) "fdalloc (fd_lim st) want (fdt st) = Some (Inl ENOSPC)" "fd_nfiles (fdt st) < fd_lim st"
    by (auto simp: alloc_case_def)
  then show ?case
  proof cases
    case ok
    then show ?thesis using inv less.prems(2) self by (intro exI [of _ st]) auto
  next
    case full
    then show ?thesis using inv less.prems(2) self by (intro exI [of _ st]) auto
  next
    case grow
    define s where "s = st\<lparr>fdt := fdexpand (fdt st)\<rparr>"
    have s: "fd_nfiles (fdt st) < fd_nfiles (fdt s)" "fd_lim s = fd_lim st" using fdexpand_nfiles by (simp_all add: s_def fd_lim_def)
    have g: "grown st s" unfolding s_def by (rule grown_expand [OF inv])
    then have low: "lowest want s = lowest want st" by (simp add: grown_def lowest_def)
    have "want < fd_lim st \<or> lowest want st < fd_lim st" using less.prems(3) grow(2) by auto
    then have "want < fd_lim st" using lowest_props [of want st] by linarith
    have "\<exists>st1. call s = call st1 \<and> fs_inv ext st1 \<and> ready st1 \<and> grown s st1 \<and> (if lowest want s < fd_lim s
       then lowest want s < fd_nfiles (fdt st1) \<and> (\<exists>t. fdalloc (fd_lim st1) want (fdt st1) = Some (Inr (lowest want s, t))
              \<and> fd_inv (insert (lowest want s) (opens st1)) t \<and> same_files (fdt st1) t)
       else st1 = s \<and> fdalloc (fd_lim s) want (fdt s) = Some (Inl EMFILE))"
    proof (rule less.hyps)
      show "fd_lim s - fd_nfiles (fdt s) < fd_lim st - fd_nfiles (fdt st)" using s grow(2) by simp
      show "fs_inv ext s" unfolding s_def by (rule fs_inv_expand [OF inv grow(2)])
      show "ready s" by (rule ready_grown [OF less.prems(2) g])
      show "want < fd_lim s \<or> lowest want s < fd_lim s \<or> fd_lim s \<le> fd_nfiles (fdt s)" using \<open>want < fd_lim st\<close> s(2) by simp
    qed
    then obtain st1 where st1: "call s = call st1" "fs_inv ext st1" "ready st1" "grown s st1" "if lowest want s < fd_lim s
       then lowest want s < fd_nfiles (fdt st1) \<and> (\<exists>t. fdalloc (fd_lim st1) want (fdt st1) = Some (Inr (lowest want s, t))
              \<and> fd_inv (insert (lowest want s) (opens st1)) t \<and> same_files (fdt st1) t)
       else st1 = s \<and> fdalloc (fd_lim s) want (fdt s) = Some (Inl EMFILE)" by blast
    have "lowest want st < fd_lim st"
    proof -
      have "lowest want st \<le> max want (fd_nfiles (fdt st))" by (rule lowest_le) (simp_all add: tab_def)
      then show ?thesis using grow(2) \<open>want < fd_lim st\<close> by simp
    qed
    moreover have "grown st st1" by (rule grown_trans [OF g st1(4)]) (use s(1) in simp)
    moreover have "call st = call st1" using restart [OF less.prems(2) grow(1)] st1(1) by (simp add: s_def)
    ultimately show ?thesis using st1(2,3,5) s(2) low by (intro exI [of _ st1]) simp
  qed
qed

end

interpretation dup: fd_restart "sys_dup env old" 0 "\<lambda>st. fd_getfile (fdt st) (files st) old \<noteq> None" for env old
proof unfold_locales
  show "sys_dup env old st = sys_dup env old (st\<lparr>fdt := fdexpand (fdt st)\<rparr>)"
    if "fd_getfile (fdt st) (files st) old \<noteq> None" "fdalloc (fd_lim st) 0 (fdt st) = Some (Inl ENOSPC)" for st
    using that by (subst sys_dup.simps) auto
qed (simp add: getfile_grown)

interpretation dupfd: fd_restart "fcntl_dupfd env fd newmin" "nat newmin"
  "\<lambda>st. fd_getfile (fdt st) (files st) fd \<noteq> None \<and> 0 \<le> newmin \<and> newmin < int (fd_lim st)" for env fd newmin
proof unfold_locales
  show "fcntl_dupfd env fd newmin st = fcntl_dupfd env fd newmin (st\<lparr>fdt := fdexpand (fdt st)\<rparr>)"
    if "fd_getfile (fdt st) (files st) fd \<noteq> None \<and> 0 \<le> newmin \<and> newmin < int (fd_lim st)" "fdalloc (fd_lim st) (nat newmin) (fdt st) = Some (Inl ENOSPC)" for st
    using that by (subst fcntl_dupfd.simps) auto
qed (simp add: getfile_grown, simp add: grown_def)

interpretation op: fd_restart "falloc fp" 0 "\<lambda>st. True" for fp
  by unfold_locales (subst falloc.simps, simp_all)

lemma duped_grown: "grown st st1 \<Longrightarrow> duped ext fp f new st1 st' = duped ext fp f new st st'"
  by (rule duped_cong) (simp_all add: grown_def)

text \<open>The end of a call that has got a descriptor.\<close>

lemma dup_end:
  assumes inv: "fs_inv ext st1" and g: "grown st st1" and get: "fd_getfile (fdt st1) (files st1) old = Some fp" and f: "files st fp = Some f"
    and t: "lowest want st < fd_nfiles (fdt st1)" "fd_inv (insert (lowest want st) (opens st1)) t" "same_files (fdt st1) t"
  shows "\<exists>st'. finishdup env fp (nat old) (lowest want st) ((FREF fp st1)\<lparr>fdt := t\<rparr>) = Some (None, lowest want st, st') \<and> duped ext fp f (lowest want st) st st'"
proof -
  have f1: "files st1 fp = Some f" using f g by (simp add: grown_def)
  have nl: "\<not> larval f" using fd_getfile_Some(4) [OF get] f1 by (auto simp: larval_def)
  have "tab st1 (lowest want st) = None" using g lowest_props [of want st] by (simp add: grown_def)
  from finishdup_new [OF inv f1 nl fs_inv_count(1) [OF inv f1] this t(1) disjI2 [OF t(2)] t(3), of env "nat old"]
  show ?thesis using duped_grown [OF g, of ext fp f] by (auto simp: FREF_fdt)
qed

lemma sys_dup_done:
  assumes inv: "fs_inv ext st" and get: "fd_getfile (fdt st) (files st) old = Some fp" and f: "files st fp = Some f"
  shows "if lowest 0 st < fd_lim st then \<exists>st'. sys_dup env old st = Some (None, lowest 0 st, st') \<and> duped ext fp f (lowest 0 st) st st'
    else sys_dup env old st = Some (Some EMFILE, 0, st)"
proof (cases "fd_lim st = 0")
  case True
  then have "fdalloc (fd_lim st) 0 (fdt st) = Some (Inl EMFILE)" using alloc_cases [OF inv, of 0] by (auto simp: alloc_case_def)
  then show ?thesis using True get by (subst sys_dup.simps) simp
next
  case False
  with dup.settles [OF inv, of old env] get obtain st1 where st1: "sys_dup env old st = sys_dup env old st1" "fs_inv ext st1" "grown st st1"
    "if lowest 0 st < fd_lim st
       then lowest 0 st < fd_nfiles (fdt st1) \<and> (\<exists>t. fdalloc (fd_lim st1) 0 (fdt st1) = Some (Inr (lowest 0 st, t))
              \<and> fd_inv (insert (lowest 0 st) (opens st1)) t \<and> same_files (fdt st1) t)
       else st1 = st \<and> fdalloc (fd_lim st) 0 (fdt st) = Some (Inl EMFILE)" by auto
  have get1: "fd_getfile (fdt st1) (files st1) old = Some fp" using st1(3) get getfile_cong [of st1 st] by (simp add: grown_def)
  show ?thesis
  proof (cases "lowest 0 st < fd_lim st")
    case True
    then obtain t where t: "lowest 0 st < fd_nfiles (fdt st1)" "fdalloc (fd_lim st1) 0 (fdt st1) = Some (Inr (lowest 0 st, t))"
      "fd_inv (insert (lowest 0 st) (opens st1)) t" "same_files (fdt st1) t" using st1(4) by auto
    show ?thesis using True dup_end [OF st1(2,3) get1 f t(1,3,4)] get1 t(2) unfolding st1(1) by (subst sys_dup.simps) simp
  next
    case False
    then show ?thesis using st1(4) get by (subst sys_dup.simps) simp
  qed
qed

lemma fcntl_dupfd_done:
  assumes inv: "fs_inv ext st" and get: "fd_getfile (fdt st) (files st) fd = Some fp" and f: "files st fp = Some f" and m: "0 \<le> newmin" "newmin < int (fd_lim st)"
  shows "if lowest (nat newmin) st < fd_lim st
    then \<exists>st'. fcntl_dupfd env fd newmin st = Some (None, lowest (nat newmin) st, st') \<and> duped ext fp f (lowest (nat newmin) st) st st'
    else fcntl_dupfd env fd newmin st = Some (Some EMFILE, 0, st)"
proof -
  let ?w = "nat newmin"
  have "?w < fd_lim st" using m by linarith
  with dupfd.settles [OF inv, of fd newmin env] get m obtain st1 where st1: "fcntl_dupfd env fd newmin st = fcntl_dupfd env fd newmin st1" "fs_inv ext st1" "grown st st1"
    "if lowest ?w st < fd_lim st
       then lowest ?w st < fd_nfiles (fdt st1) \<and> (\<exists>t. fdalloc (fd_lim st1) ?w (fdt st1) = Some (Inr (lowest ?w st, t))
              \<and> fd_inv (insert (lowest ?w st) (opens st1)) t \<and> same_files (fdt st1) t)
       else st1 = st \<and> fdalloc (fd_lim st) ?w (fdt st) = Some (Inl EMFILE)" by auto
  have get1: "fd_getfile (fdt st1) (files st1) fd = Some fp" using getfile_grown [OF st1(3)] get by simp
  have lim: "fd_lim st1 = fd_lim st" using st1(3) by (simp add: grown_def)
  show ?thesis
  proof (cases "lowest ?w st < fd_lim st")
    case True
    then obtain t where t: "lowest ?w st < fd_nfiles (fdt st1)" "fdalloc (fd_lim st1) ?w (fdt st1) = Some (Inr (lowest ?w st, t))"
      "fd_inv (insert (lowest ?w st) (opens st1)) t" "same_files (fdt st1) t" using st1(4) by auto
    show ?thesis using True dup_end [OF st1(2,3) get1 f t(1,3,4)] get1 t(2) m lim unfolding st1(1) by (subst fcntl_dupfd.simps) simp
  next
    case False
    then show ?thesis using st1(4) get m by (subst fcntl_dupfd.simps) simp
  qed
qed

subsection \<open>dup2\<close>

text \<open>Replacing the file of an open descriptor.\<close>

definition replaced :: "(nat \<Rightarrow> nat) \<Rightarrow> nat \<Rightarrow> nat \<Rightarrow> fstate \<Rightarrow> fstate \<Rightarrow> bool" where
  "replaced ext fp new st st' \<longleftrightarrow> fs_inv ext st' \<and> tab st' = (tab st)(new := Some fp) \<and> fd_lim st' = fd_lim st
     \<and> (\<forall>q. q \<noteq> fp \<and> tab st new \<noteq> Some q \<longrightarrow> files st' q = files st q) \<and> fd_ofileflags (fdt st') ! new AND UF_EXCLOSE = 0
     \<and> (mature st \<longrightarrow> mature st')"

lemma duped_mature: "duped ext fp f new st st' \<Longrightarrow> files st fp = Some f \<Longrightarrow> mature st \<Longrightarrow> mature st'"
  by (auto simp: duped_def mature_def split: if_splits)

lemma duped_replaced: "duped ext fp f new st st' \<Longrightarrow> files st fp = Some f \<Longrightarrow> replaced ext fp new st st'"
  using duped_mature [of ext fp f new st st'] by (auto simp: duped_def replaced_def)

lemma replaced_inv:
  assumes inv: "fs_inv ext st" and f: "files st fp = Some f" "\<not> larval f" and new: "tab st new = Some q" "files st q = Some g" "\<not> larval g"
    and st2: "tab st2 = (tab st)(new := Some fp)" "fd_inv (opens st) (fdt st2)" "files st2 = (files st)(fp := Some (f\<lparr>f_count := f_count f + 1\<rparr>))"
      "filehead st2 = filehead st" "nfiles st2 = nfiles st" "fd_lim st2 = fd_lim st"
    and d: "dropped q (the (files st2 q)) st2 st'"
  shows "fs_inv ext st'"
proof -
  have tab': "tab st' = (tab st)(new := Some fp)" using d st2(1) tab_cong [of st' st2] by (simp add: dropped_def)
  have refs: "refs st' x = refs st x - (if x = q then 1 else 0) + (if x = fp then 1 else 0)" for x using refs_upd [OF tab', of x] new(1) by auto
  have ok: "file_ok (refs st x + ext x) (files st x)" for x using inv by (simp add: fs_inv_def)
  have pos: "0 < refs st q" by (rule refs_pos [OF new(1)])
  have cnt: "f_count g = int (refs st q + ext q)" "f_count f = int (refs st fp + ext fp)" using ok [of q] ok [of fp] f(1) new(2) by (simp_all add: file_ok_def)
  have other: "files st' x = files st2 x" if "x \<noteq> q" for x using d that by (auto simp: dropped_def split: if_splits)
  have "file_ok (refs st' x + ext x) (files st' x)" for x
  proof (cases "x = q")
    case False
    then show ?thesis using ok [of x] other [OF False] refs [of x] f st2(3) by (cases "x = fp") (auto simp: file_ok_def larval_def)
  next
    case True
    show ?thesis
    proof (cases "q = fp")
      case True
      then have "f = g" using f(1) new(2) by simp
      then show ?thesis using ok [of q] refs [of q] d st2(3) cnt pos \<open>x = q\<close> True f by (auto simp: dropped_def file_ok_def larval_def split: if_splits)
    next
      case False
      then show ?thesis using ok [of q] refs [of q] d st2(3) cnt pos \<open>x = q\<close> new by (auto simp: dropped_def file_ok_def larval_def split: if_splits)
    qed
  qed
  moreover have "opens st' = opens st" using opens_upd [OF tab'] new(1) by (auto simp: opens_def)
  moreover have "distinct (filehead st')" "set (filehead st') = {x. files st' x \<noteq> None}" "nfiles st' = int (length (filehead st'))"
    using inv d st2(3-5) f(1) new(2) by (auto simp: fs_inv_def dropped_def int_length_remove1 split: if_splits)
  ultimately show ?thesis using inv st2(2,6) d by (auto simp: fs_inv_def dropped_def)
qed

lemma finishdup_over:
  assumes inv: "fs_inv ext st" and f: "files st fp = Some f" "\<not> larval f" and new: "tab st new = Some q" "files st q = Some g" "\<not> larval g"
  shows "\<exists>st'. finishdup env fp old new (FREF fp st) = Some (None, new, st') \<and> replaced ext fp new st st'"
proof -
  have n: "new < fd_nfiles (fdt st)" "fd_ofiles (fdt st) ! new = Some q" using new(1) by (auto simp: tab_def split: if_splits)
  have tinv: "fd_inv (opens st) (fdt st)" "length (fd_ofiles (fdt st)) = fd_nfiles (fdt st)" "length (fd_ofileflags (fdt st)) = fd_nfiles (fdt st)"
    using inv by (auto simp: fs_inv_def fd_inv_def)
  have count: "f_count f \<noteq> LONG_MAX - 2" by (rule fs_inv_count(1) [OF inv f(1)])
  define t1 where "t1 = (fdt st)\<lparr>fd_ofiles := (fd_ofiles (fdt st))[new := Some fp], fd_ofileflags := (fd_ofileflags (fdt st))[new := fd_ofileflags (fdt st) ! old AND NOT UF_EXCLOSE]\<rparr>"
  define st2 where "st2 = upd_file fp (\<lambda>f. f\<lparr>f_count := f_count f + 1\<rparr>) (st\<lparr>fdt := t1\<rparr>)"
  have files2: "files st2 = (files st)(fp := Some (f\<lparr>f_count := f_count f + 1\<rparr>))" using f(1) by (auto simp: st2_def fun_eq_iff)
  have comm: "FRELE fp (upd_file fp (\<lambda>f. f\<lparr>f_count := f_count f + 1\<rparr>) ((FREF q (FREF fp st))\<lparr>fdt := t1\<rparr>)) = FREF q st2"
    by (cases "q = fp") (auto simp: st2_def FREF_def FRELE_def upd_file_def option.map_comp comp_def fun_upd_twist add.commute)
  have ok: "file_ok (refs st q + ext q) (files st q)" "file_ok (refs st fp + ext fp) (files st fp)" using inv by (simp_all add: fs_inv_def)
  obtain h where h: "files st2 q = Some h" "FIF_WANTCLOSE \<notin> f_iflags h" "0 < f_count h" "f_usecount h = 0"
    using ok f new files2 by (cases "q = fp") (auto simp: file_ok_def larval_def)
  from closef_drop [OF h, of env] obtain e st' where c: "closef env q (FREF q st2) = Some (e, st')" "dropped q h st2 st'" by blast
  have tab2: "tab st2 = (tab st)(new := Some fp)" using n(1) tinv(2) by (auto simp: st2_def tab_def t1_def fun_eq_iff nth_list_update)
  have "fs_inv ext st'"
  proof (rule replaced_inv [OF inv f new tab2 _ files2])
    show "fd_inv (opens st) (fdt st2)" using fd_inv_set [OF tinv(1)] by (simp add: st2_def t1_def)
    show "dropped q (the (files st2 q)) st2 st'" using c(2) h(1) by simp
  qed (simp_all add: st2_def fd_lim_def)
  moreover have "finishdup env fp old new (FREF fp st) = Some (None, new, st')"
    using f n(2) count c(1) comm by (simp add: finishdup_def t1_def Let_def FREF_def)
  moreover have "tab st' = (tab st)(new := Some fp)" using c(2) tab2 tab_cong [of st' st2] by (simp add: dropped_def)
  moreover have "fd_lim st' = fd_lim st" using c(2) by (simp add: dropped_def) (simp add: st2_def)
  moreover have "files st' x = files st x" if "x \<noteq> fp" "tab st new \<noteq> Some x" for x using that c(2) new(1) files2 by (auto simp: dropped_def split: if_splits)
  moreover have "fd_ofileflags (fdt st') ! new AND UF_EXCLOSE = 0" using c(2) n(1) tinv(3) exclose_cleared by (simp add: dropped_def st2_def t1_def)
  moreover have "mature st'" if "mature st" using that c(2) h(1) files2 f(1) by (auto simp: dropped_def mature_def split: if_splits)
  ultimately show ?thesis by (auto simp: replaced_def)
qed

lemma replaced_grown: "grown st st1 \<Longrightarrow> replaced ext fp new st1 st' = replaced ext fp new st st'"
  by (simp add: replaced_def grown_def mature_def)

lemma sys_dup2_done:
  assumes "fs_inv ext st" and "fd_getfile (fdt st) (files st) old = Some fp" and "0 \<le> new" "new < int (fd_lim st)" "old \<noteq> new"
    and "\<And>q g. tab st (nat new) = Some q \<Longrightarrow> files st q = Some g \<Longrightarrow> \<not> larval g"
  shows "\<exists>st'. sys_dup2 env old new st = Some (None, nat new, st') \<and> replaced ext fp (nat new) st st'"
  using assms
proof (induction env old new st rule: sys_dup2.induct)
  case (1 env old new st)
  note inv = "1.prems"(1) and get = "1.prems"(2)
  obtain f where f: "files st fp = Some f" "\<not> larval f" using fd_getfile_Some(4) [OF get] by (auto simp: larval_def)
  have tinv: "fd_inv (opens st) (fdt st)" using inv by (simp add: fs_inv_def)
  show ?case
  proof (cases "new \<ge> int (fd_nfiles (fdt st))")
    case True
    have low: "nat new \<le> lowest (nat new) st" using lowest_props by blast
    then have grow: "fdalloc (fd_lim st) (nat new) (fdt st) = Some (Inl ENOSPC)" "fd_nfiles (fdt st) < fd_lim st"
      using alloc_cases [OF inv, of "nat new"] True "1.prems"(3,4) by (auto simp: alloc_case_def)
    let ?st = "st\<lparr>fdt := fdexpand (fdt st)\<rparr>"
    have g: "grown st ?st" by (rule grown_expand [OF inv])
    have "\<exists>st'. sys_dup2 env old new ?st = Some (None, nat new, st') \<and> replaced ext fp (nat new) ?st st'"
    proof (rule "1.IH" [OF get _ "1.prems"(5) True grow(1) refl refl])
      show "fs_inv ext ?st" by (rule fs_inv_expand [OF inv grow(2)])
      show "fd_getfile (fdt ?st) (files ?st) old = Some fp" using getfile_grown [OF g] get by simp
    qed (use "1.prems" g in \<open>auto simp: grown_def\<close>)
    moreover have "sys_dup2 env old new st = sys_dup2 env old new ?st" using get "1.prems"(3-5) True grow(1) by (subst sys_dup2.simps) simp
    ultimately show ?thesis using replaced_grown [OF g] by simp
  next
    case False
    then have n: "nat new < fd_nfiles (fdt st)" using "1.prems"(3) by linarith
    have eq: "sys_dup2 env old new st = finishdup env fp (nat old) (nat new) (FREF fp st)" using get "1.prems"(3-5) False by (subst sys_dup2.simps) simp
    show ?thesis
    proof (cases "tab st (nat new)")
      case None
      have "same_files (fdt st) (fdt st)" by (simp add: same_files_def)
      from finishdup_new [OF inv f fs_inv_count(1) [OF inv f(1)] None n disjI1 [OF tinv] this, of env "nat old"] show ?thesis unfolding eq using duped_replaced [OF _ f(1)] by force
    next
      case (Some q)
      then have "file_ok (refs st q + ext q) (files st q)" "0 < refs st q" using inv refs_pos by (auto simp: fs_inv_def)
      then obtain g where "files st q = Some g" by (cases "files st q") (auto simp: file_ok_def)
      then show ?thesis unfolding eq using finishdup_over [OF inv f Some] "1.prems"(6) [OF Some] by blast
    qed
  qed
qed

subsection \<open>Opening\<close>

definition new_file :: ofile where
  "new_file = \<lparr>f_flag = 0, f_type = DTYPE_NONE, f_count = 1, f_usecount = 1, f_iflags = {FIF_LARVAL}, f_ops = False\<rparr>"

text \<open>What \<^verbatim>\<open>falloc\<close> does: a descriptor for a new file under construction, or an error with the table as it was.\<close>

definition falloc_spec :: "(nat \<Rightarrow> nat) \<Rightarrow> nat \<Rightarrow> fstate \<Rightarrow> fd_ret option \<Rightarrow> bool" where
  "falloc_spec ext fp st r \<longleftrightarrow>
     (if fd_lim st \<le> lowest 0 st then r = Some (Some EMFILE, 0, st)
      else if nfiles st \<ge> int (maxfiles st) then \<exists>st'. r = Some (Some ENFILE, 0, st') \<and> fs_inv ext st' \<and> tab st' = tab st \<and> files st' = files st \<and> fd_lim st' = fd_lim st
      else \<exists>st'. r = Some (None, lowest 0 st, st') \<and> fs_inv ext st' \<and> tab st' = (tab st)(lowest 0 st := Some fp) \<and> files st' = (files st)(fp := Some new_file)
             \<and> fd_lim st' = fd_lim st)"

lemma new_head:
  assumes "distinct xs" and "fp \<notin> set xs"
  shows "distinct (take k xs @ fp # drop k xs)" and "set (take k xs @ fp # drop k xs) = insert fp (set xs)" and "length (take k xs @ fp # drop k xs) = Suc (length xs)"
proof -
  have xs: "set (take k xs) \<union> set (drop k xs) = set xs" by (metis append_take_drop_id set_append)
  have "distinct (take k xs)" "distinct (drop k xs)" "set (take k xs) \<inter> set (drop k xs) = {}" using assms(1) by (simp_all add: set_take_disj_set_drop_if_distinct)
  then show "distinct (take k xs @ fp # drop k xs)" using xs assms(2) by auto
  show "set (take k xs @ fp # drop k xs) = insert fp (set xs)" using xs by auto
  show "length (take k xs @ fp # drop k xs) = Suc (length xs)" by simp
qed

lemma new_file_inv:
  assumes inv: "fs_inv ext st" and fresh: "files st fp = None" and new: "tab st new = None"
    and st': "tab st' = (tab st)(new := Some fp)" "fd_inv (insert new (opens st)) (fdt st')" "files st' = (files st)(fp := Some new_file)" "fd_lim st' = fd_lim st"
      "nfiles st' = nfiles st + 1" "distinct (filehead st')" "set (filehead st') = insert fp (set (filehead st))" "length (filehead st') = Suc (length (filehead st))"
  shows "fs_inv ext st'"
proof -
  have ok: "file_ok (refs st q + ext q) (files st q)" for q using inv by (simp add: fs_inv_def)
  have refs: "refs st' q = refs st q + (if q = fp then 1 else 0)" for q using refs_upd [OF st'(1), of q] new by auto
  have "file_ok (refs st' q + ext q) (files st' q)" for q
    using ok [of q] refs [of q] st'(3) fresh by (cases "q = fp") (auto simp: file_ok_def larval_def new_file_def)
  moreover have "opens st' = insert new (opens st)" using opens_upd [OF st'(1)] by simp
  ultimately show ?thesis using inv st' by (auto simp: fs_inv_def)
qed

lemma falloc_end:
  assumes inv: "fs_inv ext st" and fresh: "files st fp = None" and new: "tab st new = None" "new < fd_nfiles (fdt st)"
    and t: "fd_inv (insert new (opens st)) t" "same_files (fdt st) t" "fdalloc (fd_lim st) 0 (fdt st) = Some (Inr (new, t))"
  shows "if nfiles st \<ge> int (maxfiles st) then \<exists>st'. falloc fp st = Some (Some ENFILE, 0, st') \<and> fs_inv ext st' \<and> tab st' = tab st \<and> files st' = files st \<and> fd_lim st' = fd_lim st
    else \<exists>st'. falloc fp st = Some (None, new, st') \<and> fs_inv ext st' \<and> tab st' = (tab st)(new := Some fp) \<and> files st' = (files st)(fp := Some new_file) \<and> fd_lim st' = fd_lim st"
proof (cases "nfiles st \<ge> int (maxfiles st)")
  case True
  have "\<forall>x<fd_nfiles t. fd_ofiles t ! x \<noteq> None \<longleftrightarrow> x \<in> insert new (opens st) - {new}"
    using t(2) new by (auto simp: same_files_def opens_def tab_def)
  from fd_unused_inv [OF t(1) _ this] obtain t' where t': "fd_unused new t = Some t'" "fd_inv (opens st) t'" "same_files t t'"
    using new by (auto simp: opens_def)
  have "tab (st\<lparr>fdt := t'\<rparr>) = tab st" using t(2) t'(3) by (simp add: tab_def same_files_def fun_eq_iff)
  then show ?thesis using True t(3) t'(1) fs_inv_fdt [OF inv _ t'(2)] by (subst falloc.simps) (simp add: fd_lim_def)
next
  case False
  define k where "k = (case fd_ofiles t ! 0 of Some fq \<Rightarrow> Suc (length (takeWhile (\<lambda>q. q \<noteq> fq) (filehead st))) | None \<Rightarrow> 0)"
  define hd' where "hd' = take k (filehead st) @ fp # drop k (filehead st)"
  have hd_eq: "(case fd_ofiles t ! 0 of
                          Some fq \<Rightarrow> (let k = length (takeWhile (\<lambda>q. q \<noteq> fq) (filehead st)) in take (Suc k) (filehead st) @ fp # drop (Suc k) (filehead st))
                        | None \<Rightarrow> fp # filehead st) = hd'" by (simp add: hd'_def k_def Let_def split: option.split)
  have "distinct (filehead st)" "fp \<notin> set (filehead st)" using inv fresh by (auto simp: fs_inv_def)
  note hd = new_head [OF this, of k, folded hd'_def]
  define st' where "st' = FREF fp (st\<lparr>nfiles := nfiles st + 1, files := (files st)(fp := Some (new_file\<lparr>f_usecount := 0\<rparr>)), filehead := hd',
                 fdt := t\<lparr>fd_ofiles := (fd_ofiles t)[new := Some fp]\<rparr>\<rparr>)"
  have "falloc fp st = Some (None, new, st')" using False t(3) hd_eq by (subst falloc.simps) (simp add: st'_def new_file_def)
  moreover have len: "length (fd_ofiles t) = fd_nfiles (fdt st)" "fd_nfiles t = fd_nfiles (fdt st)" "fd_ofiles t = fd_ofiles (fdt st)" using t by (auto simp: fd_inv_def same_files_def)
  have tab': "tab st' = (tab st)(new := Some fp)"
    using new(2) len by (auto simp: st'_def tab_def fun_eq_iff FREF_def upd_file_def nth_list_update)
  moreover have files': "files st' = (files st)(fp := Some new_file)" by (auto simp: st'_def FREF_def fun_eq_iff new_file_def)
  moreover have "fs_inv ext st'"
  proof (rule new_file_inv [OF inv fresh new(1) tab' _ files'])
    show "fd_inv (insert new (opens st)) (fdt st')" using t(1) by (simp add: st'_def FREF_def upd_file_def fd_inv_def)
  qed (use hd in \<open>simp_all add: st'_def FREF_def upd_file_def fd_lim_def\<close>)
  ultimately show ?thesis using False by (auto simp: st'_def FREF_def upd_file_def fd_lim_def)
qed

lemma falloc_done:
  assumes inv: "fs_inv ext st" and fresh: "files st fp = None"
  shows "falloc_spec ext fp st (falloc fp st)"
proof (cases "fd_lim st = 0")
  case True
  then have "fdalloc (fd_lim st) 0 (fdt st) = Some (Inl EMFILE)" using alloc_cases [OF inv, of 0] by (auto simp: alloc_case_def)
  then show ?thesis using True by (subst falloc.simps) (simp add: falloc_spec_def)
next
  case False
  with op.settles [OF inv, of fp] obtain st1 where st1: "falloc fp st = falloc fp st1" "fs_inv ext st1" "grown st st1"
    "if lowest 0 st < fd_lim st
       then lowest 0 st < fd_nfiles (fdt st1) \<and> (\<exists>t. fdalloc (fd_lim st1) 0 (fdt st1) = Some (Inr (lowest 0 st, t))
              \<and> fd_inv (insert (lowest 0 st) (opens st1)) t \<and> same_files (fdt st1) t)
       else st1 = st \<and> fdalloc (fd_lim st) 0 (fdt st) = Some (Inl EMFILE)" by auto
  have g: "tab st1 = tab st" "files st1 = files st" "nfiles st1 = nfiles st" "maxfiles st1 = maxfiles st" "fd_lim st1 = fd_lim st" using st1(3) by (simp_all add: grown_def)
  show ?thesis
  proof (cases "lowest 0 st < fd_lim st")
    case True
    then obtain t where t: "lowest 0 st < fd_nfiles (fdt st1)" "fdalloc (fd_lim st1) 0 (fdt st1) = Some (Inr (lowest 0 st, t))"
      "fd_inv (insert (lowest 0 st) (opens st1)) t" "same_files (fdt st1) t" using st1(4) by auto
    have "files st1 fp = None" "tab st1 (lowest 0 st) = None" using fresh g lowest_props [of 0 st] by simp_all
    from falloc_end [OF st1(2) this t(1,3,4,2)] show ?thesis using True g unfolding st1(1) by (auto simp: falloc_spec_def split: if_splits)
  next
    case False
    then show ?thesis using st1(4) by (subst falloc.simps) (simp add: falloc_spec_def)
  qed
qed

section \<open>Closing many\<close>

lemma mature_larval: "mature st \<Longrightarrow> files st fp = Some f \<Longrightarrow> \<not> larval f"
  by (simp add: mature_def larval_def)

lemma fdrelease_any:
  assumes inv: "fs_inv ext st" and m: "mature st" and fd: "fd < fd_nfiles (fdt st)"
  shows "\<exists>e st'. fdrelease env fd st = Some (e, st') \<and> fs_inv ext st' \<and> mature st' \<and> tab st' = (tab st)(fd := None) \<and> fd_nfiles (fdt st') = fd_nfiles (fdt st)
    \<and> fd_lim st' = fd_lim st \<and> maxfiles st' = maxfiles st \<and> (\<forall>d. d \<noteq> fd \<longrightarrow> fd_ofileflags (fdt st') ! d = fd_ofileflags (fdt st) ! d)"
proof (cases "tab st fd")
  case None
  then have "fd_ofiles (fdt st) ! fd = None" using fd by (simp add: tab_def)
  then show ?thesis using inv m None by (auto simp: fdrelease_def)
next
  case (Some fp)
  have "file_ok (refs st fp + ext fp) (files st fp)" "0 < refs st fp" using inv refs_pos [OF Some] by (auto simp: fs_inv_def)
  then obtain f where f: "files st fp = Some f" by (cases "files st fp") (auto simp: file_ok_def)
  from fdrelease_done [OF inv Some f mature_larval [OF m f], of env] show ?thesis using m f by (auto simp: closed_def mature_def split: if_splits)
qed

lemma release_loop_done:
  assumes sel: "\<And>t d. sel t d \<longleftrightarrow> P (fd_ofileflags t ! d)" and "fs_inv ext st" and "mature st"
  shows "\<exists>st'. release_loop env sel fd st = Some st' \<and> fs_inv ext st' \<and> mature st' \<and> fd_lim st' = fd_lim st \<and> maxfiles st' = maxfiles st
    \<and> tab st' = (\<lambda>d. if fd \<le> d \<and> P (fd_ofileflags (fdt st) ! d) then None else tab st d)"
  using assms(2,3)
proof (induction "fd_nfiles (fdt st) - fd" arbitrary: st fd rule: less_induct)
  case less
  note inv = less.prems(1) and m = less.prems(2)
  show ?case
  proof (cases "fd \<le> fd_lastfile (fdt st)")
    case False
    have "tab st d = None" if "fd \<le> d" for d
    proof -
      have "opens st \<subseteq> {..fd_lastfile (fdt st)}" using inv by (simp add: fs_inv_def fd_inv_def)
      then show ?thesis using that False by (auto simp: opens_def)
    qed
    then show ?thesis using inv m False by (subst release_loop.simps) auto
  next
    case True
    then have n: "fd < fd_nfiles (fdt st)" using inv by (auto simp: fs_inv_def fd_inv_def)
    obtain st1 where st1: "(if sel (fdt st) fd then map_option snd (fdrelease env fd st) else Some st) = Some st1" "fs_inv ext st1" "mature st1"
      "tab st1 = (if P (fd_ofileflags (fdt st) ! fd) then (tab st)(fd := None) else tab st)" "fd_nfiles (fdt st1) = fd_nfiles (fdt st)" "fd_lim st1 = fd_lim st"
      "maxfiles st1 = maxfiles st" "\<forall>d. d \<noteq> fd \<longrightarrow> fd_ofileflags (fdt st1) ! d = fd_ofileflags (fdt st) ! d"
    proof (cases "sel (fdt st) fd")
      case True
      from fdrelease_any [OF inv m n, of env] show ?thesis using that True sel by auto
    next
      case False
      then show ?thesis using that inv m sel by auto
    qed
    have "\<exists>st'. release_loop env sel (Suc fd) st1 = Some st' \<and> fs_inv ext st' \<and> mature st' \<and> fd_lim st' = fd_lim st1 \<and> maxfiles st' = maxfiles st1
        \<and> tab st' = (\<lambda>d. if Suc fd \<le> d \<and> P (fd_ofileflags (fdt st1) ! d) then None else tab st1 d)"
      by (rule less.hyps) (use n st1 in simp_all)
    then obtain st' where st': "release_loop env sel (Suc fd) st1 = Some st'" "fs_inv ext st'" "mature st'" "fd_lim st' = fd_lim st1" "maxfiles st' = maxfiles st1"
      "tab st' = (\<lambda>d. if Suc fd \<le> d \<and> P (fd_ofileflags (fdt st1) ! d) then None else tab st1 d)" by blast
    have "release_loop env sel fd st = Some st'" using True st1(1) st'(1) by (subst release_loop.simps) simp
    moreover have "tab st' = (\<lambda>d. if fd \<le> d \<and> P (fd_ofileflags (fdt st) ! d) then None else tab st d)"
      unfolding st'(6) st1(4) using st1(8) by (auto simp: fun_eq_iff Suc_le_eq le_less)
    ultimately show ?thesis using st' st1 by auto
  qed
qed

section \<open>Reachable states\<close>

text \<open>Opening a file: \<^verbatim>\<open>falloc\<close>, then the caller fills in the file and makes it usable.\<close>

definition open_file :: "nat \<Rightarrow> (ofile \<Rightarrow> ofile) \<Rightarrow> fstate \<Rightarrow> fd_ret option" where
  "open_file fp fill st =
     map_option (\<lambda>(e, fd, st). (e, fd, if e = None then FILE_SET_MATURE fp (upd_file fp fill st) else st)) (falloc fp st)"

text \<open>A caller fills in type, flags and operations only.\<close>

definition fills :: "(ofile \<Rightarrow> ofile) \<Rightarrow> bool" where
  "fills g \<longleftrightarrow> (\<forall>f. f_count (g f) = f_count f \<and> f_usecount (g f) = f_usecount f \<and> f_iflags (g f) = f_iflags f)"

lemma mature_inv:
  assumes inv: "fs_inv ext st" and f: "files st fp = Some new_file" and g: "fills g"
  shows "fs_inv ext (FILE_SET_MATURE fp (upd_file fp g st))"
proof -
  have "file_ok (refs st fp + ext fp) (Some new_file)" using inv f unfolding fs_inv_def by metis
  then have "file_ok (refs st fp + ext fp) (Some ((g new_file)\<lparr>f_iflags := f_iflags (g new_file) - {FIF_LARVAL}, f_usecount := f_usecount (g new_file) - 1\<rparr>))"
    using g by (auto simp: file_ok_def larval_def fills_def new_file_def)
  moreover have "fdt (FILE_SET_MATURE fp (upd_file fp g st)) = fdt st" by (simp add: FILE_SET_MATURE_def FRELE_def)
  moreover have "refs (FILE_SET_MATURE fp (upd_file fp g st)) q = refs st q" for q by (simp add: FILE_SET_MATURE_def FRELE_def refs_def)
  ultimately show ?thesis using inv f by (auto simp: fs_inv_def FILE_SET_MATURE_def FRELE_def)
qed

lemma open_file_done:
  assumes inv: "fs_inv ext st" and m: "mature st" and fresh: "files st fp = None" and g: "fills g"
  shows "\<exists>e fd st'. open_file fp g st = Some (e, fd, st') \<and> fs_inv ext st' \<and> mature st' \<and> fd_lim st' = fd_lim st
    \<and> (if e = None then fd = lowest 0 st \<and> tab st' = (tab st)(lowest 0 st := Some fp) else e \<in> {Some EMFILE, Some ENFILE} \<and> tab st' = tab st)"
proof -
  note spec = falloc_done [OF inv fresh]
  show ?thesis
  proof (cases "fd_lim st \<le> lowest 0 st \<or> nfiles st \<ge> int (maxfiles st)")
    case True
    then obtain e st1 where "falloc fp st = Some (Some e, 0, st1)" "e \<in> {EMFILE, ENFILE}" "fs_inv ext st1" "tab st1 = tab st" "files st1 = files st" "fd_lim st1 = fd_lim st"
      using spec inv by (auto simp: falloc_spec_def split: if_splits)
    then show ?thesis using m by (intro exI [of _ "Some e"] exI [of _ 0] exI [of _ st1]) (auto simp: open_file_def mature_def)
  next
    case False
    then obtain st1 where st1: "falloc fp st = Some (None, lowest 0 st, st1)" "fs_inv ext st1" "tab st1 = (tab st)(lowest 0 st := Some fp)"
      "files st1 = (files st)(fp := Some new_file)" "fd_lim st1 = fd_lim st" using spec by (auto simp: falloc_spec_def)
    let ?st = "FILE_SET_MATURE fp (upd_file fp g st1)"
    have "fs_inv ext ?st" by (rule mature_inv [OF st1(2) _ g]) (simp add: st1(4))
    moreover have "mature ?st" using m g st1(4) by (auto simp: mature_def FILE_SET_MATURE_def FRELE_def fills_def new_file_def)
    moreover have "tab ?st = tab st1" "fd_lim ?st = fd_lim st1" by (simp_all add: FILE_SET_MATURE_def FRELE_def)
    ultimately show ?thesis using st1 by (simp add: open_file_def)
  qed
qed

text \<open>What a process can do with its descriptors.\<close>

datatype fd_call = Open nat "ofile \<Rightarrow> ofile" | Close int | Dup int | Dup2 int int | Fcntl int fcntl_cmd | Closefrom nat | Exec

definition fd_do :: "fenv \<Rightarrow> fd_call \<Rightarrow> fstate \<Rightarrow> (errno option \<times> fstate) option" where
  "fd_do env c st = (case c of
     Open fp g \<Rightarrow> map_option (\<lambda>(e, fd, st). (e, st)) (open_file fp g st)
   | Close fd \<Rightarrow> sys_close env fd st
   | Dup fd \<Rightarrow> map_option (\<lambda>(e, fd, st). (e, st)) (sys_dup env fd st)
   | Dup2 fd fd' \<Rightarrow> map_option (\<lambda>(e, fd, st). (e, st)) (sys_dup2 env fd fd' st)
   | Fcntl fd cmd \<Rightarrow> map_option (\<lambda>(e, fd, st). (e, st)) (sys_fcntl env fd cmd st)
   | Closefrom fd \<Rightarrow> sys_closefrom env fd st
   | Exec \<Rightarrow> map_option (Pair None) (fdcloseexec env st))"

text \<open>A new file has an address that is not in use.\<close>

definition fd_valid :: "fd_call \<Rightarrow> fstate \<Rightarrow> bool" where
  "fd_valid c st = (case c of Open fp g \<Rightarrow> files st fp = None \<and> fills g | _ \<Rightarrow> True)"

inductive fd_reach :: "fstate \<Rightarrow> bool" where
  init: "min r m \<le> 12800 \<Longrightarrow> fd_reach \<lparr>fdt = fdinit, files = Map.empty, filehead = [], nfiles = 0, maxfiles = m, rlim_cur = r, unlocks = []\<rparr>"
| step: "fd_reach st \<Longrightarrow> fd_valid c st \<Longrightarrow> fd_do env c st = Some (e, st') \<Longrightarrow> fd_reach st'"

lemma sys_close_any:
  assumes inv: "fs_inv ext st" and m: "mature st"
  shows "\<exists>e st'. sys_close env fd st = Some (e, st') \<and> fs_inv ext st' \<and> mature st'"
proof (cases "fd_getfile (fdt st) (files st) fd")
  case None
  then show ?thesis using inv m by (simp add: sys_close_def)
next
  case (Some fp)
  from fdrelease_any [OF inv m fd_getfile_Some(2) [OF Some], of env] Some show ?thesis by (auto simp: sys_close_def)
qed

lemma sys_dup_any:
  assumes inv: "fs_inv ext st" and m: "mature st"
  shows "\<exists>e fd st'. sys_dup env old st = Some (e, fd, st') \<and> fs_inv ext st' \<and> mature st'"
proof (cases "fd_getfile (fdt st) (files st) old")
  case None
  then show ?thesis using inv m by (subst sys_dup.simps) simp
next
  case (Some fp)
  then obtain f where f: "files st fp = Some f" using fd_getfile_Some(4) by blast
  show ?thesis using sys_dup_done [OF inv Some f, of env] inv m duped_mature [OF _ f m] by (fastforce simp: duped_def split: if_splits)
qed

lemma fcntl_dupfd_any:
  assumes inv: "fs_inv ext st" and m: "mature st"
  shows "\<exists>e fd' st'. fcntl_dupfd env fd newmin st = Some (e, fd', st') \<and> fs_inv ext st' \<and> mature st'"
proof (cases "fd_getfile (fdt st) (files st) fd")
  case None
  then show ?thesis using inv m by (subst fcntl_dupfd.simps) simp
next
  case (Some fp)
  then obtain f where f: "files st fp = Some f" using fd_getfile_Some(4) by blast
  show ?thesis
  proof (cases "0 \<le> newmin \<and> newmin < int (fd_lim st)")
    case True
    then show ?thesis using fcntl_dupfd_done [OF inv Some f, of newmin env] inv m duped_mature [OF _ f m] by (fastforce simp: duped_def split: if_splits)
  next
    case False
    then show ?thesis using inv m Some by (subst fcntl_dupfd.simps) auto
  qed
qed

lemma sys_dup2_any:
  assumes inv: "fs_inv ext st" and m: "mature st"
  shows "\<exists>e fd st'. sys_dup2 env old new st = Some (e, fd, st') \<and> fs_inv ext st' \<and> mature st'"
proof (cases "fd_getfile (fdt st) (files st) old")
  case None
  then show ?thesis using inv m by (subst sys_dup2.simps) simp
next
  case (Some fp)
  show ?thesis
  proof (cases "0 \<le> new \<and> new < int (fd_lim st) \<and> old \<noteq> new")
    case True
    then show ?thesis using sys_dup2_done [OF inv Some, of new env] mature_larval [OF m] m by (auto simp: replaced_def)
  next
    case False
    then show ?thesis using inv m Some by (subst sys_dup2.simps) auto
  qed
qed

lemma sys_fcntl_any:
  assumes inv: "fs_inv ext st" and m: "mature st"
  shows "\<exists>e fd' st'. sys_fcntl env fd cmd st = Some (e, fd', st') \<and> fs_inv ext st' \<and> mature st'"
proof (cases cmd)
  case (F_DUPFD newmin)
  then show ?thesis using fcntl_dupfd_any [OF inv m] by (simp add: sys_fcntl_def)
next
  case F_GETFD
  then show ?thesis using inv m by (simp add: sys_fcntl_def split: option.split)
next
  case (F_SETFD on)
  show ?thesis
  proof (cases "fd_getfile (fdt st) (files st) fd")
    case None
    then show ?thesis using inv m F_SETFD by (simp add: sys_fcntl_def)
  next
    case (Some fp)
    let ?t = "\<lambda>x. (fdt st)\<lparr>fd_ofileflags := (fd_ofileflags (fdt st))[nat fd := x]\<rparr>"
    have "fs_inv ext (st\<lparr>fdt := ?t x\<rparr>)" for x
    proof (rule fs_inv_fdt [OF inv])
      show "tab (st\<lparr>fdt := ?t x\<rparr>) = tab st" by (simp add: tab_def fun_eq_iff)
      have "fd_inv (opens st) (fdt st)" using inv by (simp add: fs_inv_def)
      then show "fd_inv (opens st) (?t x)" by (simp add: fd_inv_def)
    qed
    then show ?thesis using m Some F_SETFD by (auto simp: sys_fcntl_def Let_def FREF_fdt mature_def)
  qed
qed

lemma fd_do_any:
  assumes inv: "fs_inv ext st" and m: "mature st" and v: "fd_valid c st"
  shows "\<exists>e st'. fd_do env c st = Some (e, st') \<and> fs_inv ext st' \<and> mature st'"
proof (cases c)
  case (Open fp g)
  then show ?thesis using v open_file_done [OF inv m, of fp g] by (fastforce simp: fd_do_def fd_valid_def)
next
  case (Close fd)
  then show ?thesis using sys_close_any [OF inv m] by (simp add: fd_do_def)
next
  case (Dup fd)
  then show ?thesis using sys_dup_any [OF inv m, of env fd] by (fastforce simp: fd_do_def)
next
  case (Dup2 fd fd')
  then show ?thesis using sys_dup2_any [OF inv m, of env fd fd'] by (fastforce simp: fd_do_def)
next
  case (Fcntl fd cmd)
  then show ?thesis using sys_fcntl_any [OF inv m, of env fd cmd] by (fastforce simp: fd_do_def)
next
  case (Closefrom fd)
  then show ?thesis using inv m release_loop_done [of "\<lambda>t d. True" "\<lambda>x. True", OF _ inv m, of env fd] by (auto simp: fd_do_def sys_closefrom_def)
next
  case Exec
  then show ?thesis using release_loop_done [of "\<lambda>fdp fd. fd_ofileflags fdp ! fd AND UF_EXCLOSE \<noteq> 0" "\<lambda>x. x AND UF_EXCLOSE \<noteq> 0", OF refl inv m, of env 0]
    by (auto simp: fd_do_def fdcloseexec_def)
qed

lemma fd_inv_init: "fd_inv {} fdinit"
  by (auto simp: fd_inv_def fdinit_def size_ok_def NDFILE_def NDLOSLOTS_def NDHISLOTS_def NDREDUCE_def NDENTRIES_def zero_at_def)

lemma fd_reach_inv: "fd_reach st \<Longrightarrow> fs_inv (\<lambda>fp. 0) st \<and> mature st"
proof (induction rule: fd_reach.induct)
  case (init r m)
  let ?st = "\<lparr>fdt = fdinit, files = Map.empty, filehead = [], nfiles = 0, maxfiles = m, rlim_cur = r, unlocks = []\<rparr>"
  have "tab ?st = (\<lambda>fd. None)" by (simp add: tab_def fdinit_def fun_eq_iff)
  then show ?case using init fd_inv_init by (simp add: fs_inv_def mature_def file_ok_def refs_def opens_def fd_lim_def LONG_MAX_def)
next
  case (step st c env e st')
  then show ?case using fd_do_any [of "\<lambda>fp. 0" st c env] by auto
qed

section \<open>Properties\<close>

text \<open>
  \<^verbatim>\<open>fdalloc\<close> on every table in order and for every limit: it gives the lowest descriptor from the one wanted on that is
  not in use and marks it as used in both bitmaps; it fails only when there is none below the size of the table and the limit, with
  \<^verbatim>\<open>ENOSPC\<close> if the table may still grow and \<^verbatim>\<open>EMFILE\<close> otherwise. It never reads outside of the bitmaps.
\<close>

theorem fdalloc_lowest:
  assumes "fd_inv U fdp"
  shows "if \<exists>fd. want \<le> fd \<and> fd < min (fd_nfiles fdp) lim \<and> fd \<notin> U
    then \<exists>fd t. fdalloc lim want fdp = Some (Inr (fd, t)) \<and> want \<le> fd \<and> fd < min (fd_nfiles fdp) lim \<and> fd \<notin> U
      \<and> (\<forall>x. want \<le> x \<and> x < fd \<longrightarrow> x \<in> U) \<and> fd_inv (insert fd U) t
    else fdalloc lim want fdp = Some (Inl (if lim \<le> fd_nfiles fdp then EMFILE else ENOSPC))"
proof (cases "\<exists>fd. want \<le> fd \<and> fd < min (fd_nfiles fdp) lim \<and> fd \<notin> U")
  case True
  then have "free_from U want (min (fd_nfiles fdp) lim) \<noteq> {}" by (auto simp: free_from_def)
  then obtain fd t where fd: "fdalloc lim want fdp = Some (Inr (fd, t))" "fd \<in> free_from U want (min (fd_nfiles fdp) lim)"
    "\<forall>x\<in>free_from U want (min (fd_nfiles fdp) lim). fd \<le> x" "fd_inv (insert fd U) t"
    using fdalloc_done [OF assms, of lim want] by (auto simp: fdalloc_spec_def)
  have "x \<in> U" if "want \<le> x" "x < fd" for x using that fd(2,3) by (fastforce simp: free_from_def)
  then show ?thesis using True fd(1,2,4) by (auto simp: free_from_def)
next
  case False
  then have "free_from U want (min (fd_nfiles fdp) lim) = {}" by (auto simp: free_from_def)
  then show ?thesis using False fdalloc_done [OF assms, of lim want] by (simp add: fdalloc_spec_def fd_full_def)
qed

theorem fdalloc_lowest_witness: "\<exists>t. fdalloc 64 3 (fd_used 3 fdinit) = Some (Inr (4, t)) \<and> fd_inv {3, 4} t"
proof -
  have inv: "fd_inv (insert 3 {}) (fd_used 3 fdinit)" by (rule fd_used_inv [OF fd_inv_init]) (simp add: fdinit_def NDFILE_def)
  have n: "fd_nfiles (fd_used 3 fdinit) = 20" by (simp add: fd_used_def fdinit_def NDFILE_def Let_def)
  have "\<exists>fd\<ge>3. fd < min (fd_nfiles (fd_used 3 fdinit)) 64 \<and> fd \<notin> insert 3 {}" unfolding n by (rule exI [of _ 4]) simp
  with fdalloc_lowest [OF inv, of 3 64] obtain fd t where fd: "fdalloc 64 3 (fd_used 3 fdinit) = Some (Inr (fd, t))" "3 \<le> fd" "fd \<notin> {3}"
    "\<forall>x. 3 \<le> x \<and> x < fd \<longrightarrow> x \<in> {3}" "fd_inv (insert fd {3}) t" by (simp only: if_True) blast
  have "fd = 4" using fd(2,3) fd(4) [rule_format, of 4] by fastforce
  then show ?thesis using fd(1,5) by (auto simp: insert_commute)
qed

text \<open>The abstract table: a map from descriptors to files. \<open>ex\<close> are the descriptors that are closed on exec.\<close>

definition abs_fd :: "(nat \<Rightarrow> bool) \<Rightarrow> fd_call \<Rightarrow> (nat \<Rightarrow> nat option) \<Rightarrow> (nat \<Rightarrow> nat option) \<Rightarrow> bool" where
  "abs_fd ex c m m' \<longleftrightarrow> (case c of
     Open fp g \<Rightarrow> m' = m((LEAST d. m d = None) := Some fp)
   | Close fd \<Rightarrow> m (nat fd) \<noteq> None \<and> m' = m(nat fd := None)
   | Dup fd \<Rightarrow> m (nat fd) \<noteq> None \<and> m' = m((LEAST d. m d = None) := m (nat fd))
   | Dup2 fd fd' \<Rightarrow> m (nat fd) \<noteq> None \<and> m' = m(nat fd' := m (nat fd))
   | Fcntl fd (F_DUPFD n) \<Rightarrow> m (nat fd) \<noteq> None \<and> m' = m((LEAST d. nat n \<le> d \<and> m d = None) := m (nat fd))
   | Fcntl fd cmd \<Rightarrow> m' = m
   | Closefrom n \<Rightarrow> m' = (\<lambda>d. if n \<le> d then None else m d)
   | Exec \<Rightarrow> m' = (\<lambda>d. if ex d then None else m d))"

definition exclose :: "fstate \<Rightarrow> nat \<Rightarrow> bool" where
  "exclose st d \<longleftrightarrow> fd_ofileflags (fdt st) ! d AND UF_EXCLOSE \<noteq> 0"

lemma lowest_0: "lowest 0 st = (LEAST d. tab st d = None)"
  by (simp add: lowest_def)

lemma close_abs:
  assumes inv: "fs_inv ext st" and m: "mature st" and r: "sys_close env fd st = Some (None, st')"
  shows "tab st (nat fd) \<noteq> None \<and> tab st' = (tab st)(nat fd := None)"
proof -
  obtain fp where g: "fd_getfile (fdt st) (files st) fd = Some fp" using r by (cases "fd_getfile (fdt st) (files st) fd") (simp_all add: sys_close_def)
  from fdrelease_any [OF inv m fd_getfile_Some(2) [OF g], of env] r g fd_getfile_Some(3) [OF g] show ?thesis by (auto simp: sys_close_def)
qed

lemma dup_abs:
  assumes inv: "fs_inv ext st" and r: "sys_dup env fd st = Some (None, n, st')"
  shows "tab st (nat fd) \<noteq> None \<and> tab st' = (tab st)(lowest 0 st := tab st (nat fd))"
proof -
  obtain fp where g: "fd_getfile (fdt st) (files st) fd = Some fp"
    using r by (cases "fd_getfile (fdt st) (files st) fd") (subst (asm) sys_dup.simps, simp_all)
  obtain f where f: "files st fp = Some f" using fd_getfile_Some(4) [OF g] by blast
  from sys_dup_done [OF inv g f, of env] r fd_getfile_Some(3) [OF g] show ?thesis by (auto simp: duped_def split: if_splits)
qed

lemma dupfd_abs:
  assumes inv: "fs_inv ext st" and r: "fcntl_dupfd env fd k st = Some (None, n, st')"
  shows "tab st (nat fd) \<noteq> None \<and> tab st' = (tab st)(lowest (nat k) st := tab st (nat fd))"
proof -
  obtain fp where g: "fd_getfile (fdt st) (files st) fd = Some fp"
    using r by (cases "fd_getfile (fdt st) (files st) fd") (subst (asm) fcntl_dupfd.simps, simp_all)
  have k: "0 \<le> k" "k < int (fd_lim st)" using r g by (subst (asm) (1) fcntl_dupfd.simps, auto split: if_splits)+
  obtain f where f: "files st fp = Some f" using fd_getfile_Some(4) [OF g] by blast
  from fcntl_dupfd_done [OF inv g f k, of env] r fd_getfile_Some(3) [OF g] show ?thesis by (auto simp: duped_def split: if_splits)
qed

lemma dup2_abs:
  assumes inv: "fs_inv ext st" and m: "mature st" and r: "sys_dup2 env fd fd' st = Some (None, n, st')"
  shows "tab st (nat fd) \<noteq> None \<and> tab st' = (tab st)(nat fd' := tab st (nat fd))"
proof -
  obtain fp where g: "fd_getfile (fdt st) (files st) fd = Some fp"
    using r by (cases "fd_getfile (fdt st) (files st) fd") (subst (asm) sys_dup2.simps, simp_all)
  have k: "0 \<le> fd'" "fd' < int (fd_lim st)" using r g by (subst (asm) (1) sys_dup2.simps, auto split: if_splits)+
  show ?thesis
  proof (cases "fd = fd'")
    case True
    then have "st' = st" using r g k by (subst (asm) sys_dup2.simps) simp
    then show ?thesis using fd_getfile_Some(3) [OF g] True by auto
  next
    case False
    from sys_dup2_done [OF inv g k False _, of env] mature_larval [OF m] r fd_getfile_Some(3) [OF g] show ?thesis by (auto simp: replaced_def)
  qed
qed

text \<open>
  C27. Whatever sequence of \<^verbatim>\<open>open\<close>, \<^verbatim>\<open>close\<close>, \<^verbatim>\<open>dup\<close>, \<^verbatim>\<open>dup2\<close>, \<^verbatim>\<open>fcntl\<close>, \<^verbatim>\<open>closefrom\<close> and \<^verbatim>\<open>exec\<close> a process does, the next call returns: it does not
  panic, use a freed file or leave a bitmap. The reference count of every file is the number of descriptors that refer to it, and files
  without descriptors are gone. The process is the only one with these files, all of them complete, and its table may have at most 12800
  descriptors: \<open>find_next_zero_overruns\<close> shows what happens in larger tables.
\<close>

theorem descriptor_calls_safe:
  assumes "fd_reach st" and "fd_valid c st"
  shows "fs_inv (\<lambda>fp. 0) st \<and> (\<exists>e st'. fd_do env c st = Some (e, st'))"
  using fd_reach_inv [OF assms(1)] fd_do_any [OF _ _ assms(2), of "\<lambda>fp. 0" env] by blast

text \<open>
  C28. The descriptor table refines a map from descriptors to files: every call that succeeds changes the map as the abstract call
  does. New descriptors are the lowest that are free, \<^verbatim>\<open>close\<close> clears one descriptor, \<^verbatim>\<open>dup2\<close> sets one, \<^verbatim>\<open>closefrom\<close> and \<^verbatim>\<open>exec\<close> clear exactly those from a number
  on and those marked.
\<close>

theorem descriptors_refine_map:
  assumes "fd_reach st" and "fd_valid c st" and "fd_do env c st = Some (None, st')"
  shows "abs_fd (exclose st) c (tab st) (tab st')"
proof -
  have inv: "fs_inv (\<lambda>fp. 0) st" and m: "mature st" using fd_reach_inv [OF assms(1)] by auto
  show ?thesis
  proof (cases c)
    case (Open fp g)
    then show ?thesis using assms(2,3) open_file_done [OF inv m, of fp g] by (auto simp: fd_do_def fd_valid_def abs_fd_def lowest_0)
  next
    case (Close fd)
    then show ?thesis using assms(3) close_abs [OF inv m] by (auto simp: fd_do_def abs_fd_def)
  next
    case (Dup fd)
    then show ?thesis using assms(3) dup_abs [OF inv] by (fastforce simp: fd_do_def abs_fd_def lowest_0)
  next
    case (Dup2 fd fd')
    then show ?thesis using assms(3) dup2_abs [OF inv m] by (fastforce simp: fd_do_def abs_fd_def)
  next
    case (Fcntl fd cmd)
    show ?thesis
    proof (cases cmd)
      case (F_DUPFD n)
      then show ?thesis using Fcntl assms(3) dupfd_abs [OF inv, of env fd n] by (fastforce simp: fd_do_def abs_fd_def sys_fcntl_def lowest_def)
    qed (use Fcntl assms(3) in \<open>auto simp: fd_do_def abs_fd_def sys_fcntl_def Let_def FREF_fdt tab_def fun_eq_iff split: option.splits\<close>)
  next
    case (Closefrom n)
    then show ?thesis using assms(3) release_loop_done [of "\<lambda>t d. True" "\<lambda>x. True", OF _ inv m, of env n] by (auto simp: fd_do_def sys_closefrom_def abs_fd_def split: if_splits)
  next
    case Exec
    then show ?thesis using assms(3) release_loop_done [of "\<lambda>fdp fd. fd_ofileflags fdp ! fd AND UF_EXCLOSE \<noteq> 0" "\<lambda>x. x AND UF_EXCLOSE \<noteq> 0", OF refl inv m, of env 0]
      by (auto simp: fd_do_def fdcloseexec_def abs_fd_def exclose_def)
  qed
qed

definition demo_fds :: fstate where
  "demo_fds = \<lparr>fdt = fdinit, files = Map.empty, filehead = [], nfiles = 0, maxfiles = 100, rlim_cur = 64, unlocks = []\<rparr>"

definition demo_fill :: "ofile \<Rightarrow> ofile" where
  "demo_fill f = f\<lparr>f_type := DTYPE_VNODE, f_flag := FREAD, f_ops := True\<rparr>"

definition demo_fenv :: fenv where
  "demo_fenv = \<lparr>drain = \<lambda>fp st. st, fo_close = \<lambda>fp. None, p_advlock = True\<rparr>"

lemma demo_fds_reach: "fd_reach demo_fds" "fd_valid (Open 7 demo_fill) demo_fds"
  using fd_reach.init [of 64 100] by (simp_all add: demo_fds_def fd_valid_def fills_def demo_fill_def)

theorem descriptor_calls_safe_witness: "\<exists>e st'. fd_do demo_fenv (Open 7 demo_fill) demo_fds = Some (e, st')"
  using descriptor_calls_safe [OF demo_fds_reach, of demo_fenv] by blast

lemma demo_open: "\<exists>st'. fd_do demo_fenv (Open 7 demo_fill) demo_fds = Some (None, st')"
proof -
  have "map_option fst (fd_do demo_fenv (Open 7 demo_fill) demo_fds) = Some None" by code_simp
  then show ?thesis by auto
qed

theorem descriptors_refine_map_witness:
  "\<exists>st'. fd_do demo_fenv (Open 7 demo_fill) demo_fds = Some (None, st') \<and> tab st' = (tab demo_fds)((LEAST d. tab demo_fds d = None) := Some 7)"
proof -
  obtain st' where "fd_do demo_fenv (Open 7 demo_fill) demo_fds = Some (None, st')" using demo_open by blast
  from this descriptors_refine_map [OF demo_fds_reach this] show ?thesis by (auto simp: abs_fd_def)
qed

text \<open>
  Closing a descriptor that \<^verbatim>\<open>dup\<close> has just made gives the table and all files back as they were; the copy is the lowest free
  descriptor and refers to the same file.
\<close>

theorem dup_close_round_trip:
  assumes inv: "fs_inv ext st" and get: "fd_getfile (fdt st) (files st) fd = Some fp" and lim: "lowest 0 st < fd_lim st"
  shows "\<exists>st' st''. sys_dup env fd st = Some (None, lowest 0 st, st') \<and> tab st' = (tab st)(lowest 0 st := Some fp)
    \<and> sys_close env (int (lowest 0 st)) st' = Some (None, st'') \<and> tab st'' = tab st \<and> files st'' = files st"
proof -
  obtain f where f: "files st fp = Some f" "f_iflags f = {}" using fd_getfile_Some(4) [OF get] by blast
  from sys_dup_done [OF inv get f(1), of env] lim obtain st' where d: "sys_dup env fd st = Some (None, lowest 0 st, st')" "duped ext fp f (lowest 0 st) st st'" by auto
  let ?f = "f\<lparr>f_count := f_count f + 1\<rparr>"
  have inv': "fs_inv ext st'" and at: "tab st' (lowest 0 st) = Some fp" "files st' fp = Some ?f" "\<not> larval ?f" using d(2) f(2) by (auto simp: duped_def larval_def)
  have pos: "0 < f_count f" by (rule fs_inv_count(2) [OF inv f(1)])
  from fdrelease_done [OF inv' at, of env] obtain e st'' where c: "fdrelease env (lowest 0 st) st' = Some (e, st'')" "closed ext env (lowest 0 st) fp ?f st' e st''" by blast
  have "fd_getfile (fdt st') (files st') (int (lowest 0 st)) = Some fp"
    using at(1,2) f(2) by (auto simp: fd_getfile_def tab_def split: if_splits)
  then have "sys_close env (int (lowest 0 st)) st' = Some (e, st'')" using c(1) by (simp add: sys_close_def)
  moreover have "e = None" "tab st'' = tab st" "files st'' = files st"
    using c(2) d(2) pos f(1) lowest_props [of 0 st] by (auto simp: closed_def duped_def fun_upd_idem)
  ultimately show ?thesis using d by (auto simp: duped_def)
qed

theorem dup_close_round_trip_witness:
  "\<exists>st0 st' st''. fd_do demo_fenv (Open 7 demo_fill) demo_fds = Some (None, st0) \<and> sys_dup demo_fenv 0 st0 = Some (None, 1, st')
     \<and> sys_close demo_fenv 1 st' = Some (None, st'') \<and> tab st'' = tab st0"
proof -
  obtain st0 where st0: "fd_do demo_fenv (Open 7 demo_fill) demo_fds = Some (None, st0)" using demo_open by blast
  then have inv: "fs_inv (\<lambda>fp. 0) st0" using fd_reach.step [OF demo_fds_reach] fd_reach_inv by blast
  have "(case fd_do demo_fenv (Open 7 demo_fill) demo_fds of Some (e, st) \<Rightarrow> fd_getfile (fdt st) (files st) 0 = Some 7 \<and> fd_lim st = 64
      \<and> tab st 0 = Some 7 \<and> tab st 1 = None | None \<Rightarrow> False)" by code_simp
  then have e: "fd_getfile (fdt st0) (files st0) 0 = Some 7" "fd_lim st0 = 64" "tab st0 0 = Some 7" "tab st0 1 = None" using st0 by auto
  have "lowest 0 st0 = 1" unfolding lowest_def
  proof (rule Least_equality)
    show "1 \<le> y" if "0 \<le> y \<and> tab st0 y = None" for y using that e(3) by (cases y) auto
  qed (use e(4) in simp)
  then show ?thesis using st0 dup_close_round_trip [OF inv e(1), of demo_fenv] e(2) by auto
qed

section \<open>Failures\<close>

text \<open>
  At 25600 descriptors every bit of the upper map stands for a word of the lower map, and a search of a full table reads past the
  end of the upper map: the loop is bounded by \<^verbatim>\<open>NDLOSLOTS(bits)\<close>, 32 times the number of its words.
\<close>

lemma find_next_zero_overruns: "NDHISLOTS 25600 = 25" "find_next_zero (replicate 25 (-1)) 0 ((25600 + 31) div 32) = None"
proof -
  show "NDHISLOTS 25600 = 25" by (simp add: NDHISLOTS_def NDREDUCE_def NDENTRIES_def)
  have b: "(25600 + 31) div 32 = (800 :: nat)" by simp
  have "NDLOSLOTS 800 = 32" by (simp add: NDLOSLOTS_def NDHISLOTS_def NDREDUCE_def NDENTRIES_def)
  moreover have "\<not> zero_at (replicate 25 (-1)) y" for y by (auto simp: zero_at_def)
  ultimately show "find_next_zero (replicate 25 (-1)) 0 ((25600 + 31) div 32) = None"
    unfolding b find_next_zero_def by (simp add: next_word.simps Let_def)
qed

text \<open>
  \<^verbatim>\<open>fdremove\<close> leaves the flags of the descriptor: the next file opened there is closed on exec although nobody asked for it. A copy of a
  table removes the descriptors of event queues this way.
\<close>

lemma fdremove_keeps_flag: "fdremove fd fdp = Some t \<Longrightarrow> fd_ofileflags t = fd_ofileflags fdp"
  by (auto simp: fdremove_def fd_unused_def Let_def split: if_splits)

lemma falloc_keeps_flag:
  assumes "falloc fp st = Some (None, fd, st')" and "fdalloc (fd_lim st) 0 (fdt st) = Some (Inr (fd, t))" and "fd_ofileflags t = fd_ofileflags (fdt st)"
  shows "fd_ofileflags (fdt st') = fd_ofileflags (fdt st)"
  using assms by (subst (asm) falloc.simps) (auto simp: FREF_def Let_def split: if_splits)

text \<open>When the count of a file is at its limit, \<^verbatim>\<open>dup\<close> fails but the descriptor it has taken stays marked as used.\<close>

lemma finishdup_leaks:
  assumes "files st fp = Some f" and "f_count f = LONG_MAX - 2"
  shows "finishdup env fp old new (FREF fp (st\<lparr>fdt := fd_used new (fdt st)\<rparr>)) = Some (Some EDEADLK, 0, st\<lparr>fdt := fd_used new (fdt st)\<rparr>)"
proof -
  have "files (FREF fp (st\<lparr>fdt := fd_used new (fdt st)\<rparr>)) fp = Some (f\<lparr>f_usecount := f_usecount f + 1\<rparr>)" using assms(1) by (simp add: FREF_def)
  then show ?thesis using assms(2) by (simp add: finishdup_def)
qed

section \<open>Copying a table\<close>

definition tab_of :: "filedesc \<Rightarrow> nat \<Rightarrow> nat option" where
  "tab_of t fd = (if fd < fd_nfiles t then fd_ofiles t ! fd else None)"

lemma tab_tab_of: "tab st = tab_of (fdt st)"
  by (simp add: tab_def tab_of_def fun_eq_iff)

text \<open>A table in order whose used descriptors are the open ones.\<close>

definition table_ok :: "filedesc \<Rightarrow> bool" where
  "table_ok t \<longleftrightarrow> fd_inv {fd. tab_of t fd \<noteq> None} t"

lemma fdremove_ok:
  assumes ok: "table_ok t" and fd: "tab_of t fd \<noteq> None"
  shows "\<exists>t'. fdremove fd t = Some t' \<and> table_ok t' \<and> tab_of t' = (tab_of t)(fd := None) \<and> fd_nfiles t' = fd_nfiles t \<and> fd_knlist t' = fd_knlist t"
proof -
  let ?U = "{fd. tab_of t fd \<noteq> None}" and ?t = "t\<lparr>fd_ofiles := (fd_ofiles t)[fd := None]\<rparr>"
  have n: "fd < fd_nfiles t" "length (fd_ofiles t) = fd_nfiles t" using fd ok by (auto simp: tab_of_def table_ok_def fd_inv_def split: if_splits)
  have tab: "tab_of ?t = (tab_of t)(fd := None)" using n by (auto simp: tab_of_def fun_eq_iff nth_list_update)
  have "fd_inv ?U ?t" using ok by (simp add: table_ok_def fd_inv_def)
  moreover have "\<forall>x<fd_nfiles ?t. fd_ofiles ?t ! x \<noteq> None \<longleftrightarrow> x \<in> ?U - {fd}" using n by (auto simp: tab_of_def nth_list_update)
  ultimately obtain t' where t': "fd_unused fd ?t = Some t'" "fd_inv (?U - {fd}) t'" "same_files ?t t'" using fd_unused_inv [of ?U ?t fd] fd by auto
  have "tab_of t' = tab_of ?t" using t'(3) by (simp add: tab_of_def same_files_def fun_eq_iff)
  moreover have "{x. ((tab_of t)(fd := None)) x \<noteq> None} = ?U - {fd}" by auto
  ultimately show ?thesis using t' tab by (auto simp: fdremove_def table_ok_def same_files_def)
qed

lemma table_ok_last: "table_ok t \<Longrightarrow> fd_lastfile t < d \<Longrightarrow> tab_of t d = None"
  by (auto simp: table_ok_def fd_inv_def)

lemma table_ok_nfiles: "table_ok t \<Longrightarrow> d \<le> fd_lastfile t \<Longrightarrow> d < fd_nfiles t"
  by (auto simp: table_ok_def fd_inv_def)

definition is_kq :: "(nat \<Rightarrow> ofile option) \<Rightarrow> nat \<Rightarrow> bool" where
  "is_kq fs fp \<longleftrightarrow> (\<exists>f. fs fp = Some f \<and> f_type f = DTYPE_KQUEUE)"

lemma copy_kqueues_done:
  assumes "table_ok t" and "\<forall>d fp. tab_of t d = Some fp \<longrightarrow> fs fp \<noteq> None"
  shows "\<exists>t'. copy_kqueues fs i t = Some t' \<and> table_ok t' \<and> fd_nfiles t' = fd_nfiles t
    \<and> tab_of t' = (\<lambda>d. if i \<le> d \<and> (\<exists>fp. tab_of t d = Some fp \<and> is_kq fs fp) then None else tab_of t d)"
  using assms
proof (induction "fd_nfiles t - i" arbitrary: t i rule: less_induct)
  case less
  show ?case
  proof (cases "i \<le> fd_lastfile t")
    case False
    then have "tab_of t d = None" if "i \<le> d" for d using table_ok_last [OF less.prems(1)] that by simp
    then show ?thesis using less.prems(1) False by (subst copy_kqueues.simps) (auto simp: fun_eq_iff)
  next
    case True
    then have n: "i < fd_nfiles t" by (rule table_ok_nfiles [OF less.prems(1)])
    obtain t1 where t1: "copy_kqueues fs i t = copy_kqueues fs (Suc i) t1" "table_ok t1" "fd_nfiles t1 = fd_nfiles t"
      "tab_of t1 = (if \<exists>fp. tab_of t i = Some fp \<and> is_kq fs fp then (tab_of t)(i := None) else tab_of t)"
    proof (cases "\<exists>fp. tab_of t i = Some fp \<and> is_kq fs fp")
      case True
      then obtain fp f where fp: "fd_ofiles t ! i = Some fp" "fs fp = Some f" "f_type f = DTYPE_KQUEUE" "tab_of t i \<noteq> None" using n by (auto simp: tab_of_def is_kq_def)
      from fdremove_ok [OF less.prems(1) fp(4)] obtain t1 where "fdremove i t = Some t1" "table_ok t1" "tab_of t1 = (tab_of t)(i := None)" "fd_nfiles t1 = fd_nfiles t" by blast
      then show ?thesis using that True fp \<open>i \<le> fd_lastfile t\<close> by (subst (asm) copy_kqueues.simps) simp
    next
      case False
      have "copy_kqueues fs i t = copy_kqueues fs (Suc i) t"
      proof (cases "tab_of t i")
        case None
        then show ?thesis using n \<open>i \<le> fd_lastfile t\<close> by (subst copy_kqueues.simps) (simp add: tab_of_def)
      next
        case (Some fp)
        then obtain f where "fs fp = Some f" "f_type f \<noteq> DTYPE_KQUEUE" using less.prems(2) False by (fastforce simp: is_kq_def)
        then show ?thesis using Some n \<open>i \<le> fd_lastfile t\<close> by (subst copy_kqueues.simps) (simp add: tab_of_def)
      qed
      then show ?thesis using that False less.prems(1) by simp
    qed
    have "\<exists>t'. copy_kqueues fs (Suc i) t1 = Some t' \<and> table_ok t' \<and> fd_nfiles t' = fd_nfiles t1
        \<and> tab_of t' = (\<lambda>d. if Suc i \<le> d \<and> (\<exists>fp. tab_of t1 d = Some fp \<and> is_kq fs fp) then None else tab_of t1 d)"
      by (rule less.hyps) (use n t1 less.prems(2) in \<open>auto split: if_splits\<close>)
    then obtain t' where t': "copy_kqueues fs (Suc i) t1 = Some t'" "table_ok t'" "fd_nfiles t' = fd_nfiles t1"
      "tab_of t' = (\<lambda>d. if Suc i \<le> d \<and> (\<exists>fp. tab_of t1 d = Some fp \<and> is_kq fs fp) then None else tab_of t1 d)" by blast
    have "tab_of t' d = (if i \<le> d \<and> (\<exists>fp. tab_of t d = Some fp \<and> is_kq fs fp) then None else tab_of t d)" for d
    proof (cases "i = d")
      case False
      then have "tab_of t1 d = tab_of t d" "Suc i \<le> d \<longleftrightarrow> i \<le> d" using t1(4) by auto
      then show ?thesis by (simp only: t'(4))
    qed (auto simp: t'(4) t1(4))
    then show ?thesis using t1(1,3) t'(1-3) by auto
  qed
qed

text \<open>The files after their counts have grown by the references of a table from descriptor \<open>i\<close> on.\<close>

definition counted :: "filedesc \<Rightarrow> nat \<Rightarrow> (nat \<Rightarrow> ofile option) \<Rightarrow> nat \<Rightarrow> ofile option" where
  "counted t i fs fp = map_option (\<lambda>f. f\<lparr>f_count := f_count f + int (card {d. i \<le> d \<and> tab_of t d = Some fp})\<rparr>) (fs fp)"

lemma finite_tab_of [simp]: "finite {d. i \<le> d \<and> tab_of t d = Some fp}"
  by (rule finite_subset [of _ "{..<fd_nfiles t}"]) (auto simp: tab_of_def split: if_splits)

lemma card_from:
  "card {d. i \<le> d \<and> tab_of t d = Some fp} = card {d. Suc i \<le> d \<and> tab_of t d = Some fp} + (if tab_of t i = Some fp then 1 else 0)"
proof -
  have "{d. i \<le> d \<and> tab_of t d = Some fp} = (if tab_of t i = Some fp then insert i {d. Suc i \<le> d \<and> tab_of t d = Some fp} else {d. Suc i \<le> d \<and> tab_of t d = Some fp})"
    by (auto simp: Suc_le_eq le_less)
  then show ?thesis by simp
qed

lemma copy_counts_done:
  assumes ok: "table_ok t" and "\<forall>d fp. tab_of t d = Some fp \<longrightarrow> fs fp \<noteq> None"
    and "\<forall>fp f. fs fp = Some f \<longrightarrow> f_count f + int (card {d. i \<le> d \<and> tab_of t d = Some fp}) < LONG_MAX - 2"
  shows "copy_counts i t fs = Some (t, counted t i fs)"
  using assms(2,3)
proof (induction "fd_nfiles t - i" arbitrary: i fs rule: less_induct)
  case less
  show ?case
  proof (cases "i \<le> fd_lastfile t")
    case False
    have c: "card {d. i \<le> d \<and> tab_of t d = Some fp} = 0" for fp
    proof -
      have "{d. i \<le> d \<and> tab_of t d = Some fp} = {}" using table_ok_last [OF ok] False by fastforce
      then show ?thesis by (simp only: card.empty)
    qed
    have "counted t i fs = fs" by (simp add: counted_def fun_eq_iff c option.map_ident)
    then show ?thesis using False by (subst copy_counts.simps) simp
  next
    case True
    then have n: "i < fd_nfiles t" by (rule table_ok_nfiles [OF ok])
    show ?thesis
    proof (cases "tab_of t i")
      case None
      then have "counted t i fs = counted t (Suc i) fs" by (simp add: counted_def fun_eq_iff card_from [of i])
      moreover have "copy_counts (Suc i) t fs = Some (t, counted t (Suc i) fs)" by (rule less.hyps) (use n less.prems None in \<open>simp_all add: card_from [of i]\<close>)
      ultimately show ?thesis using True None n by (subst copy_counts.simps) (simp add: tab_of_def)
    next
      case (Some fp)
      then obtain f where f: "fs fp = Some f" using less.prems(1) by blast
      let ?fs = "fs(fp := Some (f\<lparr>f_count := f_count f + 1\<rparr>))"
      have lim: "f_count f \<noteq> LONG_MAX - 2" using less.prems(2) f by fastforce
      have "counted t i fs = counted t (Suc i) ?fs" using f Some by (auto simp: counted_def fun_eq_iff card_from [of i])
      moreover have "copy_counts (Suc i) t ?fs = Some (t, counted t (Suc i) ?fs)"
        by (rule less.hyps) (use n less.prems f Some in \<open>auto simp: card_from [of i] split: if_splits\<close>)
      ultimately show ?thesis using True Some n f lim by (subst copy_counts.simps) (simp add: tab_of_def)
    qed
  qed
qed

lemma size_ok_halve:
  assumes "size_ok n" and "100 \<le> n"
  shows "size_ok (n div 2) \<and> n = 2 * (n div 2)"
proof -
  obtain k where k: "n = 50 * 2 ^ k" "k \<le> 8" using assms by (auto simp: size_ok_def)
  then obtain j where j: "k = Suc j" using assms(2) by (cases k) auto
  then have "n div 2 = 50 * 2 ^ j" "n = 2 * (50 * 2 ^ j)" using k by simp_all
  then show ?thesis using k(2) j by (auto simp: size_ok_def)
qed

lemma shrink_size_ok:
  "size_ok n \<Longrightarrow> lst < n \<Longrightarrow> size_ok (shrink_size lst n) \<and> lst < shrink_size lst n \<and> shrink_size lst n \<le> n"
proof (induction lst n rule: shrink_size.induct)
  case (1 lst n)
  show ?case
  proof (cases "n \<ge> 2 * NDEXTENT \<and> n > lst * 2")
    case True
    then have "size_ok (n div 2)" "n = 2 * (n div 2)" using size_ok_halve [OF "1.prems"(1)] True by (auto simp: NDEXTENT_def)
    moreover from this True have "lst < n div 2" by linarith
    ultimately have "size_ok (shrink_size lst (n div 2)) \<and> lst < shrink_size lst (n div 2) \<and> shrink_size lst (n div 2) \<le> n div 2" using "1.IH" [OF True] by blast
    moreover have "shrink_size lst n = shrink_size lst (n div 2)" using True by (subst shrink_size.simps) simp
    ultimately show ?thesis by auto
  next
    case False
    then have "shrink_size lst n = n" by (subst shrink_size.simps) auto
    then show ?thesis using "1.prems" by simp
  qed
qed

lemma zero_at_take: "k \<le> length bm \<Longrightarrow> zero_at (take k bm) x \<longleftrightarrow> x div 32 < k \<and> zero_at bm x"
  by (auto simp: zero_at_def)

lemma slots_mono: "a \<le> b \<Longrightarrow> NDHISLOTS a \<le> NDHISLOTS b"
proof -
  have "NDREDUCE a \<le> NDREDUCE b" if "a \<le> b" for a b using that by (simp add: NDREDUCE_def NDENTRIES_def div_le_mono)
  then show "a \<le> b \<Longrightarrow> NDHISLOTS a \<le> NDHISLOTS b" by (simp add: NDHISLOTS_def)
qed

text \<open>The part of a table that \<^verbatim>\<open>fdcopy\<close> copies.\<close>

definition cut :: "nat \<Rightarrow> filedesc \<Rightarrow> filedesc" where
  "cut i t = t\<lparr>fd_refcnt := 1, fd_nfiles := i, fd_ofiles := take i (fd_ofiles t), fd_ofileflags := take i (fd_ofileflags t),
     fd_himap := take (NDHISLOTS i) (fd_himap t), fd_lomap := take (NDLOSLOTS i) (fd_lomap t)\<rparr>"

lemma cut_ok:
  assumes ok: "table_ok t" and i: "size_ok i" "fd_lastfile t < i" "i \<le> fd_nfiles t"
  shows "table_ok (cut i t)" and "tab_of (cut i t) = tab_of t"
proof -
  have inv: "fd_inv {fd. tab_of t fd \<noteq> None} t" using ok by (simp add: table_ok_def)
  have len: "length (fd_ofiles t) = fd_nfiles t" "length (fd_ofileflags t) = fd_nfiles t" "length (fd_lomap t) = 32 * length (fd_himap t)" "length (fd_himap t) = NDHISLOTS (fd_nfiles t)"
    using inv fd_inv_facts(1) [OF inv] by (simp_all add: fd_inv_def)
  show tab: "tab_of (cut i t) = tab_of t"
  proof
    fix d show "tab_of (cut i t) d = tab_of t d" using table_ok_last [OF ok, of d] i len(1) by (cases "d < i") (auto simp: cut_def tab_of_def)
  qed
  have slots: "NDHISLOTS i \<le> length (fd_himap t)" "NDLOSLOTS i = 32 * NDHISLOTS i" using slots_mono [OF i(3)] len size_ok_slots(3) [OF i(1)] by simp_all
  have hi: "hi_ok (take (NDHISLOTS i) (fd_himap t)) (take (NDLOSLOTS i) (fd_lomap t))"
    using fd_inv_hi [OF inv] slots by (auto simp: hi_ok_def zero_at_take div_less_iff_less_mult)
  have z: "zero_at (take (NDLOSLOTS i) (fd_lomap t)) x = (x div 32 < NDLOSLOTS i \<and> tab_of t x = None)" for x
    using inv slots len by (auto simp: zero_at_take fd_inv_def)
  have "{fd. tab_of t fd \<noteq> None} \<subseteq> {..<i}" 
  proof
    fix x assume "x \<in> {fd. tab_of t fd \<noteq> None}"
    then have "\<not> fd_lastfile t < x" using table_ok_last [OF ok, of x] by auto
    then show "x \<in> {..<i}" using i(2) by simp
  qed
  then show "table_ok (cut i t)" unfolding table_ok_def tab using inv i hi z slots len by (auto simp: fd_inv_alt cut_def)
qed

lemma fdcopy_done:
  assumes ok: "table_ok t" and fs: "\<forall>d fp. tab_of t d = Some fp \<longrightarrow> fs fp \<noteq> None" and lim: "\<forall>fp f. fs fp = Some f \<longrightarrow> f_count f + 12800 < LONG_MAX - 2"
  shows "\<exists>t'. fdcopy t fs = Some (t', counted t' 0 fs) \<and> table_ok t'
    \<and> tab_of t' = (\<lambda>d. if fd_knlist t \<and> (\<exists>fp. tab_of t d = Some fp \<and> is_kq fs fp) then None else tab_of t d)"
proof -
  define i where "i = (if fd_lastfile t < NDFILE then NDFILE else shrink_size (fd_lastfile t) (fd_nfiles t))"
  have s: "size_ok (fd_nfiles t)" "fd_lastfile t < fd_nfiles t" using ok by (auto simp: table_ok_def fd_inv_def)
  have "20 \<le> fd_nfiles t" using size_ok_cases [OF s(1)] by auto
  then have i: "size_ok i" "fd_lastfile t < i" "i \<le> fd_nfiles t" using shrink_size_ok [OF s] by (auto simp: i_def NDFILE_def size_ok_def)
  note c = cut_ok [OF ok i]
  obtain t1 where t1: "(if fd_knlist (cut i t) then map_option (\<lambda>t. t\<lparr>fd_knlist := False\<rparr>) (copy_kqueues fs 0 (cut i t)) else Some (cut i t)) = Some t1" "table_ok t1"
    "tab_of t1 = (\<lambda>d. if fd_knlist t \<and> (\<exists>fp. tab_of t d = Some fp \<and> is_kq fs fp) then None else tab_of t d)"
  proof (cases "fd_knlist t")
    case True
    from copy_kqueues_done [OF c(1), of fs 0, unfolded c(2)] fs obtain t2 where t2: "copy_kqueues fs 0 (cut i t) = Some t2" "table_ok t2"
      "tab_of t2 = (\<lambda>d. if \<exists>fp. tab_of t d = Some fp \<and> is_kq fs fp then None else tab_of t d)" by auto
    have "tab_of (t2\<lparr>fd_knlist := False\<rparr>) = tab_of t2" by (simp add: tab_of_def fun_eq_iff)
    moreover from this have "table_ok (t2\<lparr>fd_knlist := False\<rparr>)" using t2(2) by (simp add: table_ok_def fd_inv_def)
    ultimately show ?thesis using that [of "t2\<lparr>fd_knlist := False\<rparr>"] t2 True by (simp add: cut_def)
  next
    case False
    then show ?thesis using that [of "cut i t"] c by (simp add: cut_def)
  qed
  have card: "card {d. 0 \<le> d \<and> tab_of t1 d = Some fp} \<le> 12800" for fp
  proof -
    have "{d. 0 \<le> d \<and> tab_of t1 d = Some fp} \<subseteq> {..<fd_nfiles t1}" by (auto simp: tab_of_def split: if_splits)
    from card_mono [OF _ this] have "card {d. 0 \<le> d \<and> tab_of t1 d = Some fp} \<le> fd_nfiles t1" by simp
    moreover have "fd_nfiles t1 \<le> 12800" using t1(2) size_ok_cases [of "fd_nfiles t1"] by (auto simp: table_ok_def fd_inv_def)
    ultimately show ?thesis by simp
  qed
  have "copy_counts 0 t1 fs = Some (t1, counted t1 0 fs)"
  proof (rule copy_counts_done [OF t1(2)])
    show "\<forall>d fp. tab_of t1 d = Some fp \<longrightarrow> fs fp \<noteq> None"
    proof (intro allI impI)
      fix d fp assume "tab_of t1 d = Some fp"
      then have "tab_of t d = Some fp" unfolding t1(3) by (simp split: if_splits)
      then show "fs fp \<noteq> None" using fs by blast
    qed
    show "\<forall>fp f. fs fp = Some f \<longrightarrow> f_count f + int (card {d. 0 \<le> d \<and> tab_of t1 d = Some fp}) < LONG_MAX - 2"
    proof (intro allI impI)
      fix fp f assume "fs fp = Some f"
      then have "f_count f + 12800 < LONG_MAX - 2" using lim by blast
      then show "f_count f + int (card {d. 0 \<le> d \<and> tab_of t1 d = Some fp}) < LONG_MAX - 2" using card [of fp] by linarith
    qed
  qed
  moreover have "fdcopy t fs = Option.bind (if fd_knlist (cut i t) then map_option (\<lambda>t. t\<lparr>fd_knlist := False\<rparr>) (copy_kqueues fs 0 (cut i t)) else Some (cut i t)) (\<lambda>new. copy_counts 0 new fs)"
    by (simp add: fdcopy_def Let_def i_def cut_def)
  ultimately have "fdcopy t fs = Some (t1, counted t1 0 fs)" unfolding t1(1) by simp
  then show ?thesis using t1 by blast
qed

text \<open>
  The copy of a descriptor table that \<^verbatim>\<open>fork\<close> makes has the same files at the same descriptors, without event queues, in a table in order
  that may be smaller. The counts of the files grow by the references of the copy, so that they are right for the parent, with the
  child as another owner, and for the child, with the parent as another owner.
\<close>

theorem fdcopy_correct:
  assumes inv: "fs_inv ext st" and lim: "\<forall>fp. int (ext fp) < LONG_MAX - 40000"
  shows "\<exists>t fs. fdcopy (fdt st) (files st) = Some (t, fs)
    \<and> tab_of t = (\<lambda>d. if fd_knlist (fdt st) \<and> (\<exists>fp. tab st d = Some fp \<and> is_kq (files st) fp) then None else tab st d)
    \<and> fs_inv (\<lambda>fp. ext fp + card {d. tab_of t d = Some fp}) (st\<lparr>files := fs\<rparr>)
    \<and> fs_inv (\<lambda>fp. ext fp + refs st fp) (st\<lparr>fdt := t, files := fs\<rparr>)"
proof -
  have opn: "opens st = {fd. tab_of (fdt st) fd \<noteq> None}" by (simp add: opens_def tab_tab_of)
  have ok: "table_ok (fdt st)" using inv opn by (simp add: fs_inv_def table_ok_def)
  have fok: "file_ok (refs st fp + ext fp) (files st fp)" for fp using inv by (simp add: fs_inv_def)
  have refs: "refs st fp \<le> 12800" for fp using refs_le [of st fp] fs_inv_size(1) [OF inv] by linarith
  have ex: "files st fp \<noteq> None" if "tab_of (fdt st) d = Some fp" for d fp using fok [of fp] refs_pos [of st d fp] that by (cases "files st fp") (auto simp: file_ok_def tab_tab_of)
  have "f_count f + 12800 < LONG_MAX - 2" if "files st fp = Some f" for fp f
    using fok [of fp] refs [of fp] lim [rule_format, of fp] that by (auto simp: file_ok_def)
  then obtain t where t: "fdcopy (fdt st) (files st) = Some (t, counted t 0 (files st))" "table_ok t"
    "tab_of t = (\<lambda>d. if fd_knlist (fdt st) \<and> (\<exists>fp. tab_of (fdt st) d = Some fp \<and> is_kq (files st) fp) then None else tab_of (fdt st) d)"
    using fdcopy_done [OF ok] ex by blast
  define n where "n fp = card {d. tab_of t d = Some fp}" for fp
  define fs where "fs = counted t 0 (files st)"
  have n: "n fp \<le> 12800" for fp
  proof -
    have "{d. tab_of t d = Some fp} \<subseteq> {d. tab st d = Some fp}" using t(3) by (auto simp: tab_tab_of split: if_splits)
    from card_mono [OF _ this] refs [of fp] show ?thesis by (simp add: n_def refs_def)
  qed
  have fs: "fs fp = map_option (\<lambda>f. f\<lparr>f_count := f_count f + int (n fp)\<rparr>) (files st fp)" for fp by (simp add: fs_def counted_def n_def)
  have zero: "n fp = 0" if "files st fp = None" for fp
  proof -
    have "tab_of t d \<noteq> Some fp" for d
    proof
      assume "tab_of t d = Some fp"
      then have "tab_of (fdt st) d = Some fp" using t(3) by (simp split: if_splits)
      then show False using ex that by blast
    qed
    then have "{d. tab_of t d = Some fp} = {}" by blast
    then show ?thesis by (simp only: n_def card.empty)
  qed
  have okf: "file_ok (refs st fp + ext fp + n fp) (fs fp)" for fp
    using fok [of fp] zero [of fp] fs [of fp] by (cases "files st fp") (auto simp: file_ok_def larval_def)
  have dom: "{fp. fs fp \<noteq> None} = {fp. files st fp \<noteq> None}" by (auto simp: fs)
  have big: "int (ext fp + refs st fp) < LONG_MAX - 20000" "int (ext fp + n fp) < LONG_MAX - 20000" for fp
    using lim [rule_format, of fp] refs [of fp] n [of fp] by simp_all
  have parent: "fs_inv (\<lambda>fp. ext fp + n fp) (st\<lparr>files := fs\<rparr>)"
  proof -
    have "tab (st\<lparr>files := fs\<rparr>) = tab st" by (simp add: tab_def fun_eq_iff)
    then show ?thesis using inv okf dom big by (simp add: fs_inv_def opens_def refs_def fd_lim_def add.assoc)
  qed
  have child: "fs_inv (\<lambda>fp. ext fp + refs st fp) (st\<lparr>fdt := t, files := fs\<rparr>)"
  proof -
    have "tab (st\<lparr>fdt := t, files := fs\<rparr>) = tab_of t" by (simp add: tab_tab_of)
    moreover from this have "refs (st\<lparr>fdt := t, files := fs\<rparr>) fp = n fp" for fp by (simp add: refs_def n_def)
    moreover have "file_ok (n fp + (ext fp + refs st fp)) (fs fp)" for fp using okf [of fp] by (simp add: add.commute add.left_commute)
    ultimately show ?thesis using inv t(2) dom big by (simp add: fs_inv_def opens_def fd_lim_def table_ok_def)
  qed
  show ?thesis using t parent child unfolding n_def fs_def tab_tab_of by blast
qed

theorem fdcopy_correct_witness:
  "\<exists>st0 t fs. fd_do demo_fenv (Open 7 demo_fill) demo_fds = Some (None, st0) \<and> fdcopy (fdt st0) (files st0) = Some (t, fs) \<and> tab_of t 0 = Some 7
     \<and> map_option f_count (fs 7) = Some 2"
proof -
  obtain st0 where st0: "fd_do demo_fenv (Open 7 demo_fill) demo_fds = Some (None, st0)" using demo_open by blast
  then have inv: "fs_inv (\<lambda>fp. 0) st0" using fd_reach.step [OF demo_fds_reach] fd_reach_inv by blast
  have "(case fd_do demo_fenv (Open 7 demo_fill) demo_fds of Some (e, st) \<Rightarrow> tab st 0 = Some 7 \<and> \<not> fd_knlist (fdt st)
      \<and> (case fdcopy (fdt st) (files st) of Some (t, fs) \<Rightarrow> map_option f_count (fs 7) = Some 2 | None \<Rightarrow> False) | None \<Rightarrow> False)" by code_simp
  then have e: "tab st0 0 = Some 7" "\<not> fd_knlist (fdt st0)" "\<And>t fs. fdcopy (fdt st0) (files st0) = Some (t, fs) \<Longrightarrow> map_option f_count (fs 7) = Some 2" using st0 by auto
  from fdcopy_correct [OF inv] obtain t fs where "fdcopy (fdt st0) (files st0) = Some (t, fs)"
    "tab_of t = (\<lambda>d. if fd_knlist (fdt st0) \<and> (\<exists>fp. tab st0 d = Some fp \<and> is_kq (files st0) fp) then None else tab st0 d)"
    by (auto simp: LONG_MAX_def)
  then show ?thesis using e st0 by auto
qed

end
