(* ===== verification/In_Cksum.thy ===== *)
theory In_Cksum
  imports Mbuf_Ops
begin

text \<open>
  Internet checksums of mbuf chains (\<^verbatim>\<open>src/sys/netinet/in_cksum.c\<close>, \<^verbatim>\<open>src/sys/netinet/in4_cksum.c\<close>, \<^verbatim>\<open>src/sys/netinet6/in6_cksum.c\<close>): the machine-independent versions,
  which add 16-bit words in unrolled loops, swap the bytes of the sum where data starts at an odd address, and carry the half of a
  word from one mbuf to the next. The byte order of the machine and the addresses of the storage areas are arguments;
  \<^verbatim>\<open>sum\<close> is a 32-bit word in two's complement. A read outside the storage area of an mbuf, a panic and a null pointer
  are \<open>None\<close>. The message when the chain is too short is left out. The three files repeat the code for the data of one
  mbuf, which is one definition here.
\<close>

section \<open>The code\<close>

text \<open>The bytes at \<open>c[0]\<close> and \<open>c[1]\<close> read as a word \<open>s\<close>, on a big-endian machine if \<open>be\<close>.\<close>

definition s16 :: "bool \<Rightarrow> u8 \<Rightarrow> u8 \<Rightarrow> u32" where
  "s16 be c0 c1 = (if be then 256 * ucast c0 + ucast c1 else ucast c0 + 256 * ucast c1)"

definition REDUCE :: "u32 \<Rightarrow> u32" where
  "REDUCE sm = (let s = (sm AND 0xffff) + drop_bit 16 sm in if s > 65535 then s - 65535 else s)"

text \<open>The variables \<^verbatim>\<open>sum\<close>, \<^verbatim>\<open>mlen\<close> and \<^verbatim>\<open>s_util.c[0]\<close>; \<open>mlen\<close> is \<open>-1\<close> between two mbufs if \<open>c0\<close> waits for the other half of its word.\<close>

record ck =
  ck_sum :: u32
  ck_mlen :: int
  ck_c0 :: u8

text \<open>\<^verbatim>\<open>sum += w[0]; ... sum += w[k - 1]\<close>.\<close>

fun add_words :: "bool \<Rightarrow> nat \<Rightarrow> u8 list \<Rightarrow> u32 \<Rightarrow> u32 option" where
  "add_words be 0 w sm = Some sm"
| "add_words be (Suc k) (a # b # w) sm = add_words be k w (sm + s16 be a b)"
| "add_words be (Suc k) w sm = None"

text \<open>\<^verbatim>\<open>while ((mlen -= 2 * k) >= 0)\<close> with \<open>k\<close> words in the body; with no words it does not end.\<close>

function unrolled :: "bool \<Rightarrow> nat \<Rightarrow> int \<times> u8 list \<times> u32 \<Rightarrow> (int \<times> u8 list \<times> u32) option" where
  "unrolled be k (mlen, w, sm) =
     (let mlen = mlen - 2 * int k
      in if mlen \<ge> 0 then
           if k = 0 then None
           else case add_words be k w sm of None \<Rightarrow> None | Some sm \<Rightarrow> unrolled be k (mlen, drop (2 * k) w, sm)
         else Some (mlen, w, sm))"
  by pat_completeness auto
termination
  by (relation "measure (\<lambda>(be, k, mlen, w, sm). nat mlen)") auto

declare unrolled.simps [simp del]

text \<open>\<^verbatim>\<open>mlen\<close> is put right after an unrolled loop.\<close>

definition plus_mlen :: "int \<Rightarrow> int \<times> u8 list \<times> u32 \<Rightarrow> int \<times> u8 list \<times> u32" where
  "plus_mlen d = (\<lambda>(mlen, w, sm). (mlen + d, w, sm))"

text \<open>The end of the loop body, from the test for \<^verbatim>\<open>continue\<close> on.\<close>

definition cksum_tail :: "bool \<Rightarrow> bool \<Rightarrow> u8 \<Rightarrow> int \<times> u8 list \<times> u32 \<Rightarrow> ck option" where
  "cksum_tail be byte_swapped c0 = (\<lambda>(mlen, w, sm).
     if mlen = 0 \<and> \<not> byte_swapped then Some \<lparr>ck_sum = sm, ck_mlen = mlen, ck_c0 = c0\<rparr>
     else
       Option.bind (unrolled be 1 (mlen, w, REDUCE sm)) (\<lambda>(mlen, w, sm).
         if byte_swapped then
           let sm = push_bit 8 (REDUCE sm)
           in if mlen = -1 then
                (case w of [] \<Rightarrow> None | c1 # w \<Rightarrow> Some \<lparr>ck_sum = sm + s16 be c0 c1, ck_mlen = 0, ck_c0 = c0\<rparr>)
              else Some \<lparr>ck_sum = sm, ck_mlen = -1, ck_c0 = c0\<rparr>
         else if mlen = -1 then
           (case w of [] \<Rightarrow> None | c0 # w \<Rightarrow> Some \<lparr>ck_sum = sm, ck_mlen = mlen, ck_c0 = c0\<rparr>)
         else Some \<lparr>ck_sum = sm, ck_mlen = mlen, ck_c0 = c0\<rparr>))"

text \<open>The data of one mbuf from \<open>w\<close> on, at address \<open>adr\<close>: from forcing an even boundary to the end of the loop body.\<close>

definition cksum_data :: "bool \<Rightarrow> nat \<Rightarrow> u8 list \<Rightarrow> ck \<Rightarrow> ck option" where
  "cksum_data be adr w st =
     Option.bind
       (if odd adr \<and> ck_mlen st > 0
        then case w of [] \<Rightarrow> None
             | c # w \<Rightarrow> Some (True, c, ck_mlen st - 1, w, push_bit 8 (REDUCE (ck_sum st)))
        else Some (False, ck_c0 st, ck_mlen st, w, ck_sum st))
       (\<lambda>(byte_swapped, c0, v).
          Option.bind
            (Option.bind (map_option (plus_mlen 32) (unrolled be 16 v)) (\<lambda>v. map_option (plus_mlen 8) (unrolled be 4 v)))
            (cksum_tail be byte_swapped c0))"

text \<open>The address of the storage area of an mbuf is \<open>base m\<close>; \<open>off\<close> bytes of the mbuf are skipped.\<close>

definition cksum_mbuf :: "bool \<Rightarrow> (pmbuf \<Rightarrow> nat) \<Rightarrow> pmbuf \<Rightarrow> nat \<Rightarrow> int \<times> ck \<Rightarrow> (int \<times> ck) option" where
  "cksum_mbuf be base m off = (\<lambda>(len, st).
     let w = drop (m_data m + off) (m_area m);
         adr = base m + m_data m + off
     in Option.bind
       (if ck_mlen st = -1 then
          case w of [] \<Rightarrow> None
          | c1 # w \<Rightarrow> Some (len - 1, Suc adr, w, st\<lparr>ck_sum := ck_sum st + s16 be (ck_c0 st) c1, ck_mlen := int (m_len m) - int off - 1\<rparr>)
        else Some (len, adr, w, st\<lparr>ck_mlen := int (m_len m) - int off\<rparr>))
       (\<lambda>(len, adr, w, st).
          let mlen = (if len < ck_mlen st then len else ck_mlen st)
          in map_option (Pair (len - mlen)) (cksum_data be adr w (st\<lparr>ck_mlen := mlen\<rparr>))))"

fun cksum_loop :: "bool \<Rightarrow> (pmbuf \<Rightarrow> nat) \<Rightarrow> pmbuf list \<Rightarrow> nat \<Rightarrow> int \<times> ck \<Rightarrow> (int \<times> ck) option" where
  "cksum_loop be base [] off v = Some v"
| "cksum_loop be base (m # ms) off v =
     (if fst v = 0 then Some v
      else if m_len m = 0 then cksum_loop be base ms off v
      else case cksum_mbuf be base m off v of None \<Rightarrow> None | Some v \<Rightarrow> cksum_loop be base ms 0 v)"

definition ck_start :: "u32 \<Rightarrow> ck" where
  "ck_start sm = \<lparr>ck_sum = sm, ck_mlen = 0, ck_c0 = 0\<rparr>"

definition cksum_end :: "bool \<Rightarrow> ck \<Rightarrow> u32" where
  "cksum_end be st = NOT (REDUCE (if ck_mlen st = -1 then ck_sum st + s16 be (ck_c0 st) 0 else ck_sum st)) AND 0xffff"

definition in_cksum :: "bool \<Rightarrow> (pmbuf \<Rightarrow> nat) \<Rightarrow> pmbuf list \<Rightarrow> int \<Rightarrow> u32 option" where
  "in_cksum be base m len = map_option (\<lambda>(len, st). cksum_end be st) (cksum_loop be base m 0 (len, ck_start 0))"

text \<open>\<^verbatim>\<open>struct ipovly\<close> with the fields of the header at the start of the first mbuf; lengths are in network byte order.\<close>

definition ipovly :: "u8 \<Rightarrow> int \<Rightarrow> u8 list \<Rightarrow> u8 list" where
  "ipovly nxt len ip = replicate 9 0 @ [nxt, word_of_int (len div 256), word_of_int len] @ take 8 (drop 12 ip)"

fun skip_off :: "pmbuf list \<Rightarrow> int \<Rightarrow> pmbuf list \<times> int" where
  "skip_off [] off = ([], off)"
| "skip_off (m # ms) off = (if off > 0 then if int (m_len m) > off then (m # ms, off) else skip_off ms (off - int (m_len m)) else (m # ms, off))"

text \<open>An offset less than zero points before the data; such calls are faults here.\<close>

definition in4_cksum :: "bool \<Rightarrow> (pmbuf \<Rightarrow> nat) \<Rightarrow> pmbuf list \<Rightarrow> u8 \<Rightarrow> int \<Rightarrow> int \<Rightarrow> u32 option" where
  "in4_cksum be base m nxt off len =
     (if off < 0 then None
      else Option.bind
        (if nxt \<noteq> 0 then
           if off < 20 then None
           else case m of [] \<Rightarrow> None
                | m1 # r \<Rightarrow> if m_len m1 < 20 then None else add_words be 10 (ipovly nxt len (m_piece m1 0 20)) 0
         else Some 0)
        (\<lambda>sm. case skip_off m off of (m, off) \<Rightarrow>
           map_option (\<lambda>(len, st). cksum_end be st) (cksum_loop be base m (nat off) (len, ck_start sm))))"

definition IN6_IS_SCOPE_EMBED :: "u8 list \<Rightarrow> bool" where
  "IN6_IS_SCOPE_EMBED a \<longleftrightarrow>
     a ! 0 = 0xfe \<and> a ! 1 AND 0xc0 = 0x80
     \<or> a ! 0 = 0xff \<and> a ! 1 AND 0x0f = 0x02
     \<or> a ! 0 = 0xff \<and> a ! 1 AND 0x0f = 0x01"

text \<open>The words of one address, without the scope that the kernel keeps in the second word of some addresses.\<close>

definition add_addr :: "bool \<Rightarrow> u8 list \<Rightarrow> u32 \<Rightarrow> u32 option" where
  "add_addr be a sm =
     Option.bind (add_words be 1 a sm) (\<lambda>sm.
     Option.bind (if IN6_IS_SCOPE_EMBED a then Some sm else add_words be 1 (drop 2 a) sm) (\<lambda>sm. add_words be 6 (drop 4 a) sm))"

definition in6_ph :: "u32 \<Rightarrow> u8 \<Rightarrow> u8 list" where
  "in6_ph len nxt = [ucast (drop_bit 24 len), ucast (drop_bit 16 len), ucast (drop_bit 8 len), ucast len, 0, 0, 0, nxt]"

definition in6_sum :: "bool \<Rightarrow> u8 list \<Rightarrow> u8 list \<Rightarrow> u8 \<Rightarrow> u32 \<Rightarrow> u32 option" where
  "in6_sum be src dst nxt len =
     Option.bind (add_addr be src 0) (\<lambda>sm. Option.bind (add_addr be dst sm) (\<lambda>sm. add_words be 4 (in6_ph len nxt) sm))"

text \<open>The first mbuf with data is summed before the loop over the others.\<close>

definition in6_data :: "bool \<Rightarrow> (pmbuf \<Rightarrow> nat) \<Rightarrow> pmbuf list \<Rightarrow> int \<Rightarrow> int \<Rightarrow> u32 \<Rightarrow> u32 option" where
  "in6_data be base m off len sm =
     (case skip_off m off of
        ([], off) \<Rightarrow> None
      | (m # r, off) \<Rightarrow>
          let mlen = (if len < int (m_len m) - off then len else int (m_len m) - off)
          in Option.bind (cksum_data be (base m + m_data m + nat off) (drop (m_data m + nat off) (m_area m)) ((ck_start sm)\<lparr>ck_mlen := mlen\<rparr>)) (\<lambda>st.
             Option.bind (cksum_loop be base r 0 (len - mlen, st)) (\<lambda>(len, st).
               if len \<noteq> 0 then None else Some (cksum_end be st))))"

definition in6_cksum :: "bool \<Rightarrow> (pmbuf \<Rightarrow> nat) \<Rightarrow> pmbuf list \<Rightarrow> u8 \<Rightarrow> u32 \<Rightarrow> u32 \<Rightarrow> u32 option" where
  "in6_cksum be base m nxt off len =
     (case m of [] \<Rightarrow> None
      | m1 # r \<Rightarrow>
          if word_of_int (ph_len (m_pkthdr m1)) < off + len then None
          else Option.bind (in6_sum be (m_piece m1 8 16) (m_piece m1 24 16) nxt len) (in6_data be base m (uint off) (uint len)))"

section \<open>Sums modulo 65535\<close>

text \<open>The weighted sum of bytes: the first byte of a word, or the second if \<open>snd_half\<close>.\<close>

definition wt :: "bool \<Rightarrow> bool \<Rightarrow> nat" where
  "wt be half = (if be = half then 1 else 256)"

fun wsum :: "bool \<Rightarrow> bool \<Rightarrow> u8 list \<Rightarrow> nat" where
  "wsum be half [] = 0"
| "wsum be half (b # bs) = wt be half * unat b + wsum be (\<not> half) bs"

text \<open>Equality of one's complement sums: the remainders agree, and so does being zero.\<close>

definition same :: "nat \<Rightarrow> nat \<Rightarrow> bool" where
  "same a b \<longleftrightarrow> a mod 65535 = b mod 65535 \<and> (a = 0 \<longleftrightarrow> b = 0)"

lemma same_refl [simp, intro]: "same a a"
  by (simp add: same_def)

lemma same_sym: "same a b \<Longrightarrow> same b a"
  by (auto simp: same_def)

lemma same_trans [trans]: "same a b \<Longrightarrow> same b c \<Longrightarrow> same a c"
  by (simp add: same_def)

lemma same_add: "same a b \<Longrightarrow> same c d \<Longrightarrow> same (a + c) (b + d)"
  by (auto simp: same_def intro: mod_add_cong)

lemma same_mult: "same a b \<Longrightarrow> same (k * a) (k * b)"
  by (auto simp: same_def intro: mod_mult_cong)

lemma same_65536: "same (65536 * a) a"
proof -
  have "(a + 65535 * a) mod 65535 = a mod 65535" by (rule mod_mult_self2)
  moreover have "a + 65535 * a = 65536 * a" by simp
  ultimately show ?thesis by (simp only: same_def) simp
qed

lemma wsum_append: "wsum be half (xs @ ys) = wsum be half xs + wsum be (half \<noteq> odd (length xs)) ys"
proof (induction xs arbitrary: half)
  case (Cons x xs)
  show ?case by (cases half; cases "even (length xs)") (simp_all add: Cons.IH)
qed simp

lemma wsum_swap: "same (256 * wsum be half bs) (wsum be (\<not> half) bs)"
proof (induction bs arbitrary: half)
  case (Cons b bs)
  have "same (256 * (wt be half * unat b)) (wt be (\<not> half) * unat b)"
    using same_65536 [of "unat b"] by (auto simp: wt_def)
  from same_add [OF this Cons.IH [of "\<not> half"]] show ?case by (simp add: algebra_simps)
qed simp

text \<open>The one's complement sum itself.\<close>

definition oc_fold :: "nat \<Rightarrow> nat" where
  "oc_fold n = (if n = 0 then 0 else (n - 1) mod 65535 + 1)"

lemma oc_fold_same: "same a b \<Longrightarrow> oc_fold a = oc_fold b"
  by (cases a; cases b) (auto simp: same_def oc_fold_def mod_Suc split: if_splits)

lemma oc_fold_small: "a \<le> 65535 \<Longrightarrow> oc_fold a = a"
  by (cases a) (auto simp: oc_fold_def)

lemma oc_fold_le: "oc_fold a \<le> 65535"
proof -
  have "(a - 1) mod 65535 < 65535" by (rule mod_less_divisor) simp
  then show ?thesis by (simp only: oc_fold_def split: if_split) linarith
qed

lemma same_oc_fold: "same (oc_fold a) a"
proof (cases a)
  case (Suc n)
  then show ?thesis using mod_Suc_eq [of n 65535] by (auto simp: same_def oc_fold_def)
qed (simp add: oc_fold_def)

section \<open>Adding words\<close>

lemma unat_bits: "unat (x AND 0xffff) = unat x mod 65536" "unat (drop_bit 16 x) = unat x div 65536" for x :: u32
proof -
  have "x AND 0xffff = take_bit 16 x" by (simp add: take_bit_eq_mask mask_eq_exp_minus_1)
  moreover have "unat (take_bit 16 x) = take_bit 16 (unat x)" by (rule unsigned_take_bit_eq)
  moreover have "take_bit 16 (unat x) = unat x mod 65536" by (simp add: take_bit_eq_mod)
  ultimately show "unat (x AND 0xffff) = unat x mod 65536" by (simp only:)
  show "unat (drop_bit 16 x) = unat x div 65536" by (simp add: drop_bit_eq_div unat_div)
qed

lemma unat_REDUCE: "unat (REDUCE x) = (let s = unat x mod 65536 + unat x div 65536 in if s > 65535 then s - 65535 else s)"
proof -
  have d: "unat x div 65536 < 65536" using unsigned_less [of x, where 'a = nat] by (simp add: less_mult_imp_div_less)
  have m: "unat x mod 65536 < 65536" by simp
  have s: "unat ((x AND 0xffff) + drop_bit 16 x) = unat x mod 65536 + unat x div 65536"
    using d m by (subst unat_add_lem [THEN iffD1]) (simp_all add: unat_bits)
  have c: "(65535 :: u32) < y \<longleftrightarrow> 65535 < unat y" for y by (simp add: word_less_nat_alt)
  show ?thesis unfolding REDUCE_def Let_def c s by (simp add: s unat_sub word_le_nat_alt)
qed

lemma carry_le: "a < 65536 \<Longrightarrow> b < 65536 \<Longrightarrow> (let s = a + b in if s > 65535 then s - 65535 else s) \<le> (65535 :: nat)"
  by (auto simp: Let_def)

lemma REDUCE_le: "unat (REDUCE x) \<le> 65535"
proof -
  have "unat x div 65536 < 65536" using unsigned_less [of x, where 'a = nat] by (simp add: less_mult_imp_div_less)
  moreover have "unat x mod 65536 < 65536" by simp
  ultimately show ?thesis unfolding unat_REDUCE by (intro carry_le)
qed

lemma same_REDUCE: "same (unat (REDUCE x)) (unat x)"
proof -
  let ?s = "unat x mod 65536 + unat x div 65536"
  have x: "unat x = unat x mod 65536 + 65536 * (unat x div 65536)" by simp
  have s: "same ?s (unat x)" by (subst (3) x) (rule same_add [OF same_refl same_sym [OF same_65536]])
  have "same (?s - 65535) ?s" if "?s > 65535"
  proof -
    have "(?s - 65535 + 65535) mod 65535 = (?s - 65535) mod 65535" by (rule mod_add_self2)
    moreover have "?s - 65535 + 65535 = ?s" "?s - 65535 \<noteq> 0" "?s \<noteq> 0" using that by linarith+
    ultimately show ?thesis by (simp only: same_def)
  qed
  then show ?thesis using s unfolding unat_REDUCE Let_def by (auto intro: same_trans)
qed

lemma unat_shl8: "unat x \<le> 65535 \<Longrightarrow> unat (push_bit 8 x) = 256 * unat x" for x :: u32
proof -
  assume "unat x \<le> 65535"
  moreover have "push_bit 8 x = 256 * x" by (simp add: push_bit_eq_mult mult.commute)
  ultimately show ?thesis by (simp add: unat_mult_lem [THEN iffD1])
qed

lemma unat_s16: "unat (s16 be a b) = wsum be False [a, b]"
proof -
  have a: "unat a < 256" "unat b < 256" using unsigned_less [of a, where 'a = nat] unsigned_less [of b, where 'a = nat] by simp_all
  have u: "unat (ucast c :: u32) = unat c" for c :: u8 using unsigned_less [of c, where 'a = nat] by (simp add: unsigned_ucast_eq take_bit_nat_eq_self)
  have m: "unat (256 * ucast c :: u32) = 256 * unat c" for c :: u8
    using unsigned_less [of c, where 'a = nat] by (subst unat_mult_lem [THEN iffD1]) (simp_all add: u)
  show ?thesis using a by (auto simp: s16_def wt_def u m unat_add_lem [THEN iffD1])
qed

lemma wsum_pair_le: "wsum be half [a, b] \<le> 65535"
  using unsigned_less [of a, where 'a = nat] unsigned_less [of b, where 'a = nat] by (auto simp: wt_def)

lemma wsum_le: "wsum be half bs \<le> 65535 * (length bs div 2) + (if odd (length bs) then 65280 else 0)"
proof (induction bs arbitrary: half rule: induct_list012)
  case (2 b)
  show ?case using unsigned_less [of b, where 'a = nat] by (auto simp: wt_def)
next
  case (3 a b bs)
  from 3(1) [of half] wsum_pair_le [of be half a b] show ?case by auto
qed simp

lemma add_words_sum: "2 * k \<le> length w \<Longrightarrow> add_words be k w sm = Some (sm + of_nat (wsum be False (take (2 * k) w)))"
proof (induction be k w sm rule: add_words.induct)
  case (2 be k a b w sm)
  have "s16 be a b = of_nat (wsum be False [a, b])" by (auto simp: s16_def wt_def)
  then show ?case using 2 by (simp add: algebra_simps)
qed auto

lemma unrolled_sum:
  assumes "0 < k" and "n \<le> length w"
  shows "unrolled be k (int n, w, sm)
    = Some (int (n mod (2 * k)) - 2 * int k, drop (n - n mod (2 * k)) w, sm + of_nat (wsum be False (take (n - n mod (2 * k)) w)))"
  using assms(2)
proof (induction n arbitrary: w sm rule: less_induct)
  case (less n)
  show ?case
  proof (cases "2 * k \<le> n")
    case False
    then show ?thesis by (subst unrolled.simps) (simp add: Let_def)
  next
    case True
    let ?w = "drop (2 * k) w" and ?sm = "sm + of_nat (wsum be False (take (2 * k) w))" and ?n = "n - 2 * k"
    have i: "int n - 2 * int k = int ?n" using True by simp
    have "unrolled be k (int n, w, sm) = unrolled be k (int ?n, ?w, ?sm)"
      using assms(1) True less.prems by (subst unrolled.simps, unfold Let_def i) (simp add: add_words_sum)
    moreover have "unrolled be k (int ?n, ?w, ?sm) = Some (int (?n mod (2 * k)) - 2 * int k, drop (?n - ?n mod (2 * k)) ?w, ?sm + of_nat (wsum be False (take (?n - ?n mod (2 * k)) ?w)))"
      by (rule less.IH) (use assms(1) True less.prems in auto)
    moreover have "?n mod (2 * k) = n mod (2 * k)" by (rule le_mod_geq [OF True, symmetric])
    ultimately show ?thesis
    proof -
      let ?r = "n mod (2 * k)"
      have r: "?r \<le> ?n" using \<open>?n mod (2 * k) = ?r\<close> by (metis mod_less_eq_dividend)
      then have "n - ?r = 2 * k + (?n - ?r)" using True by simp
      then have t: "take (n - ?r) w = take (2 * k) w @ take (?n - ?r) ?w" by (simp only: take_add)
      have "length (take (2 * k) w) = 2 * k" using True less.prems by simp
      then have "wsum be False (take (n - ?r) w) = wsum be False (take (2 * k) w) + wsum be False (take (?n - ?r) ?w)" by (simp add: t wsum_append)
      moreover have "drop (?n - ?r) ?w = drop (n - ?r) w" using True r by simp
      ultimately show ?thesis
        unfolding \<open>unrolled be k (int n, w, sm) = _\<close> \<open>unrolled be k (int ?n, ?w, ?sm) = _\<close> \<open>?n mod (2 * k) = ?r\<close> by (simp add: add.assoc)
    qed
  qed
qed

lemma unat_plus_sum: "unat sm + x < 2 ^ 32 \<Longrightarrow> unat (sm + of_nat x) = unat sm + x" for sm :: u32
proof -
  assume a: "unat sm + x < 2 ^ 32"
  then have "unat (of_nat x :: u32) = x" by (simp add: unat_of_nat)
  then show ?thesis using a by (subst unat_add_lem [THEN iffD1]) simp_all
qed

section \<open>The data of one mbuf\<close>

text \<open>What the byte that waits for the rest of its word adds to the sum.\<close>

definition pend :: "bool \<Rightarrow> ck \<Rightarrow> nat" where
  "pend be st = (if ck_mlen st = -1 then wt be False * unat (ck_c0 st) else 0)"

definition data_spec :: "bool \<Rightarrow> nat \<Rightarrow> u8 list \<Rightarrow> ck \<Rightarrow> bool" where
  "data_spec be s bs st \<longleftrightarrow> same (unat (ck_sum st) + pend be st) (s + wsum be False bs) \<and> (ck_mlen st = -1 \<longleftrightarrow> odd (length bs))
     \<and> (unat (ck_sum st) \<le> 16842495 \<or> unat (ck_sum st) \<le> s + 65535 * (length bs div 2))"

text \<open>The loops with 16 and 4 words together.\<close>

lemma unrolled_both:
  assumes "n \<le> length w"
  shows "Option.bind (map_option (plus_mlen 32) (unrolled be 16 (int n, w, sm))) (\<lambda>v. map_option (plus_mlen 8) (unrolled be 4 v))
    = Some (int (n mod 8), drop (n - n mod 8) w, sm + of_nat (wsum be False (take (n - n mod 8) w)))"
proof -
  define r where "r = n mod 32"
  define s where "s = n mod 8"
  define k where "k = n - r"
  have "r mod 8 = s" by (simp add: r_def s_def mod_mod_cancel)
  then have rs: "r mod 8 = s" "r \<le> n" "s \<le> r" using mod_less_eq_dividend [of r 8] by (simp_all add: r_def)
  have ev: "even k" unfolding k_def r_def by (metis dvd_minus_mod dvd_trans even_numeral)
  have len: "length (take k w) = k" "r \<le> length (drop k w)" using assms rs by (simp_all add: k_def)
  have t: "n - s = k + (r - s)" using rs by (simp add: k_def)
  have "wsum be False (take (n - s) w) = wsum be False (take k w) + wsum be False (take (r - s) (drop k w))"
    unfolding t take_add wsum_append len(1) using ev by simp
  moreover have "drop (r - s) (drop k w) = drop (n - s) w" by (simp add: t add.commute)
  moreover have "unrolled be 16 (int n, w, sm) = Some (int r - 32, drop k w, sm + of_nat (wsum be False (take k w)))"
    using unrolled_sum [of 16 n w be sm] assms by (simp only: r_def k_def) simp
  moreover have "unrolled be 4 (int r, drop k w, x) = Some (int s - 8, drop (r - s) (drop k w), x + of_nat (wsum be False (take (r - s) (drop k w))))" for x
    using unrolled_sum [of 4 r "drop k w" be x] len(2) rs(1) by simp
  ultimately show ?thesis unfolding s_def [symmetric] by (simp add: plus_mlen_def add.assoc)
qed

text \<open>The loop over single words, and the half word it may leave.\<close>

lemma unrolled_one:
  assumes "n \<le> length w"
  shows "unrolled be 1 (int n, w, sm) = Some (if odd n then -1 else -2, drop (n - n mod 2) w, sm + of_nat (wsum be False (take (n - n mod 2) w)))"
proof -
  have "n mod 2 = (if odd n then 1 else 0)" by presburger
  then show ?thesis using unrolled_sum [of 1 n w be sm] assms by simp
qed

lemma wsum_even_le: "k \<le> length w \<Longrightarrow> even k \<Longrightarrow> wsum be half (take k w) \<le> 65535 * (k div 2)"
  using wsum_le [of be half "take k w"] by simp

lemma wsum_odd_end:
  assumes "odd n" and "n \<le> length w"
  shows "\<exists>c r. drop (n - n mod 2) w = c # r \<and> wsum be half (take n w) = wsum be half (take (n - n mod 2) w) + wt be half * unat c"
proof -
  have k: "n - n mod 2 = n - 1" "n - 1 < length w" "even (n - 1)" "Suc (n - 1) = n" using assms by presburger+
  have "take n w = take (n - 1) w @ [w ! (n - 1)]" using k by (metis take_Suc_conv_app_nth)
  moreover have "length (take (n - 1) w) = n - 1" using k(2) by simp
  ultimately have "wsum be half (take n w) = wsum be half (take (n - 1) w) + wt be half * unat (w ! (n - 1))" using k(3) by (simp add: wsum_append)
  then show ?thesis using k(1,2) by (metis Cons_nth_drop_Suc)
qed

lemma tail_plain:
  assumes "n \<le> length w" and "n < 8"
  shows "\<exists>st. cksum_tail be False c0 (int n, w, sm) = Some st \<and> data_spec be (unat sm) (take n w) st"
proof (cases "n = 0")
  case True
  then show ?thesis by (simp add: cksum_tail_def data_spec_def pend_def)
next
  case False
  let ?x = "wsum be False (take (n - n mod 2) w)"
  have "?x \<le> 65535 * ((n - n mod 2) div 2)" by (rule wsum_even_le) (use assms(1) in simp_all)
  moreover have "(n - n mod 2) div 2 \<le> 3" using assms(2) by simp
  ultimately have x: "?x \<le> 65535 * 3" by linarith
  then have s: "unat (REDUCE sm + of_nat ?x) = unat (REDUCE sm) + ?x" using REDUCE_le [of sm] by (intro unat_plus_sum) simp
  have b: "unat (REDUCE sm + of_nat ?x) \<le> 16842495" using s x REDUCE_le [of sm] by linarith
  show ?thesis
  proof (cases "odd n")
    case True
    then obtain c r where c: "drop (n - n mod 2) w = c # r" "wsum be False (take n w) = ?x + wt be False * unat c" using wsum_odd_end [OF True assms(1)] by blast
    have "same (unat (REDUCE sm) + (?x + wt be False * unat c)) (unat sm + (?x + wt be False * unat c))" by (rule same_add [OF same_REDUCE same_refl])
    then show ?thesis using True False assms(1) c s b by (simp add: cksum_tail_def unrolled_one [unfolded One_nat_def] data_spec_def pend_def add.assoc)
  next
    case even: False
    then have "n mod 2 = 0" by presburger
    moreover have "same (unat (REDUCE sm) + ?x) (unat sm + ?x)" by (rule same_add [OF same_REDUCE same_refl])
    ultimately show ?thesis using even False assms(1) s b by (simp add: cksum_tail_def unrolled_one [unfolded One_nat_def] data_spec_def pend_def)
  qed
qed

lemma tail_swapped:
  assumes "n \<le> length w" and "n < 8"
  shows "\<exists>st. cksum_tail be True c0 (int n, w, sm) = Some st \<and> unat (ck_sum st) \<le> 16842495 \<and> (ck_mlen st = -1 \<longleftrightarrow> even n)
    \<and> same (unat (ck_sum st) + pend be st) (wt be False * unat c0 + 256 * (unat sm + wsum be False (take n w)))"
proof -
  let ?x = "wsum be False (take (n - n mod 2) w)"
  let ?s = "REDUCE (REDUCE sm + of_nat ?x)"
  have "?x \<le> 65535 * ((n - n mod 2) div 2)" by (rule wsum_even_le) (use assms(1) in simp_all)
  moreover have "(n - n mod 2) div 2 \<le> 3" using assms(2) by simp
  ultimately have x: "?x \<le> 65535 * 3" by linarith
  then have u: "unat (REDUCE sm + of_nat ?x) = unat (REDUCE sm) + ?x" using REDUCE_le [of sm] by (intro unat_plus_sum) simp
  have s: "unat (push_bit 8 ?s) = 256 * unat ?s" by (rule unat_shl8 [OF REDUCE_le])
  have "same (unat ?s) (unat (REDUCE sm) + ?x)" using same_REDUCE [of "REDUCE sm + of_nat ?x"] by (simp only: u)
  also have "same \<dots> (unat sm + ?x)" by (rule same_add [OF same_REDUCE same_refl])
  finally have sm: "same (256 * unat ?s) (256 * (unat sm + ?x))" by (rule same_mult)
  show ?thesis
  proof (cases "odd n")
    case True
    obtain c1 r where c: "drop (n - n mod 2) w = c1 # r" "wsum be False (take n w) = ?x + wt be False * unat c1" using wsum_odd_end [OF True assms(1)] by blast
    let ?t = "push_bit 8 ?s + s16 be c0 c1"
    have p: "unat (s16 be c0 c1) = wt be False * unat c0 + wt be True * unat c1" "unat (s16 be c0 c1) \<le> 65535" using wsum_pair_le [of be False c0 c1] by (simp_all add: unat_s16)
    have t: "unat ?t = 256 * unat ?s + (wt be False * unat c0 + wt be True * unat c1)"
      using s p REDUCE_le [of "REDUCE sm + of_nat ?x"] by (subst unat_add_lem [THEN iffD1]) simp_all
    have "same (wt be True * unat c1) (256 * (wt be False * unat c1))" using wsum_swap [of be False "[c1]"] by (simp add: same_sym)
    from same_add [OF same_add [OF sm this] same_refl [of "wt be False * unat c0"]]
    have "same (unat ?t) (wt be False * unat c0 + 256 * (unat sm + wsum be False (take n w)))" unfolding t c(2) by (simp add: algebra_simps)
    moreover have "unat ?t \<le> 16842495" using t p REDUCE_le [of "REDUCE sm + of_nat ?x"] by linarith
    moreover have "cksum_tail be True c0 (int n, w, sm) = Some \<lparr>ck_sum = ?t, ck_mlen = 0, ck_c0 = c0\<rparr>"
      using True assms(1) c(1) by (simp add: cksum_tail_def unrolled_one [unfolded One_nat_def] Let_def)
    ultimately show ?thesis using True by (simp add: pend_def)
  next
    case False
    then have n: "n - n mod 2 = n" by presburger
    have "unat (push_bit 8 ?s) \<le> 16842495" using s REDUCE_le [of "REDUCE sm + of_nat ?x"] by linarith
    moreover have "same (unat (push_bit 8 ?s) + wt be False * unat c0) (wt be False * unat c0 + 256 * (unat sm + wsum be False (take n w)))"
      using same_add [OF sm same_refl [of "wt be False * unat c0"]] unfolding s [unfolded n] n by (simp only: add.commute)
    moreover have "cksum_tail be True c0 (int n, w, sm) = Some \<lparr>ck_sum = push_bit 8 ?s, ck_mlen = -1, ck_c0 = c0\<rparr>"
      using False assms(1) by (simp add: cksum_tail_def unrolled_one [unfolded One_nat_def] Let_def)
    ultimately show ?thesis using False by (simp only: pend_def) simp
  qed
qed

lemma take_mod8:
  assumes "n \<le> length w"
  shows "n mod 8 \<le> length (drop (n - n mod 8) w)" and "wsum be half (take (n - n mod 8) w) \<le> 65535 * ((n - n mod 8) div 2)"
    and "wsum be half (take n w) = wsum be half (take (n - n mod 8) w) + wsum be half (take (n mod 8) (drop (n - n mod 8) w))"
    and "length (take (n mod 8) (drop (n - n mod 8) w)) = n mod 8"
proof -
  have ev: "even (n - n mod 8)" by (metis dvd_minus_mod dvd_trans even_numeral)
  show le: "n mod 8 \<le> length (drop (n - n mod 8) w)" using assms by simp
  then show "length (take (n mod 8) (drop (n - n mod 8) w)) = n mod 8" by (simp only: length_take min_absorb2)
  show "wsum be half (take (n - n mod 8) w) \<le> 65535 * ((n - n mod 8) div 2)" by (rule wsum_even_le [OF _ ev]) (use assms in simp)
  have "n = n - n mod 8 + n mod 8" by simp
  then have t: "take n w = take (n - n mod 8) w @ take (n mod 8) (drop (n - n mod 8) w)" by (metis take_add)
  have "length (take (n - n mod 8) w) = n - n mod 8" using assms by simp
  then show "wsum be half (take n w) = wsum be half (take (n - n mod 8) w) + wsum be half (take (n mod 8) (drop (n - n mod 8) w))"
    using ev unfolding t wsum_append by (simp only: not_False_eq_True) auto
qed

lemma cksum_data_spec:
  assumes st: "ck_mlen st = int n" and n: "n \<le> length w" and room: "unat (ck_sum st) + 65535 * (n div 2) < 2 ^ 32" "n \<le> 65536"
  shows "\<exists>st'. cksum_data be adr w st = Some st' \<and> data_spec be (unat (ck_sum st)) (take n w) st'"
proof (cases "odd adr \<and> 0 < n")
  case False
  let ?k = "n - n mod 8" and ?w = "drop (n - n mod 8) w"
  let ?x = "wsum be False (take ?k w)"
  note t = take_mod8(1) [OF n] take_mod8(2,3) [OF n, of be False] take_mod8(4) [OF n]
  have "?k div 2 \<le> n div 2" by (rule div_le_mono) simp
  then have k: "?x \<le> 65535 * (n div 2)" using t(2) by (meson le_trans mult_le_mono2)
  then have u: "unat (ck_sum st + of_nat ?x) = unat (ck_sum st) + ?x" using room(1) by (intro unat_plus_sum) linarith
  obtain st' where st': "cksum_tail be False (ck_c0 st) (int (n mod 8), ?w, ck_sum st + of_nat ?x) = Some st'"
    "data_spec be (unat (ck_sum st) + ?x) (take (n mod 8) ?w) st'" using tail_plain [OF t(1), of be "ck_c0 st"] u by fastforce
  have "even ?k" by (metis dvd_minus_mod dvd_trans even_numeral)
  then have "(?k + n mod 8) div 2 = ?k div 2 + n mod 8 div 2" by (rule div_plus_div_distrib_dvd_left)
  then have d: "n div 2 = ?k div 2 + n mod 8 div 2" by simp
  have e: "odd (n mod 8) \<longleftrightarrow> odd n" by (simp add: dvd_mod_iff)
  have "data_spec be (unat (ck_sum st)) (take n w) st'"
    using st'(2) t(2) n d unfolding data_spec_def t(3,4) e by (auto simp: add.assoc)
  moreover have "cksum_data be adr w st = Some st'" using False st'(1) st by (auto simp: cksum_data_def unrolled_both [OF n] simp del: Option.bind_assoc)
  ultimately show ?thesis by blast
next
  case True
  then obtain c w' where w: "w = c # w'" using n by (cases w) auto
  obtain j where j: "n = Suc j" using True by (cases n) auto
  let ?k = "j - j mod 8" and ?w = "drop (j - j mod 8) w'" and ?s = "push_bit 8 (REDUCE (ck_sum st))"
  let ?x = "wsum be False (take ?k w')"
  have n': "j \<le> length w'" using n w j by simp
  note t = take_mod8(1) [OF n'] take_mod8(2,3) [OF n', of be False] take_mod8(4) [OF n']
  have "?k div 2 \<le> 65536 div 2" by (rule div_le_mono) (use room(2) j in simp)
  then have "?k div 2 \<le> 32768" by simp
  then have x: "?x \<le> 65535 * 32768" using t(2) by (meson le_trans mult_le_mono2)
  have s: "unat ?s = 256 * unat (REDUCE (ck_sum st))" by (rule unat_shl8 [OF REDUCE_le])
  have u: "unat (?s + of_nat ?x) = unat ?s + ?x" using x s REDUCE_le [of "ck_sum st"] by (intro unat_plus_sum) simp
  obtain st' where st': "cksum_tail be True c (int (j mod 8), ?w, ?s + of_nat ?x) = Some st'" "unat (ck_sum st') \<le> 16842495" "ck_mlen st' = -1 \<longleftrightarrow> even (j mod 8)"
    "same (unat (ck_sum st') + pend be st') (wt be False * unat c + 256 * (unat ?s + ?x + wsum be False (take (j mod 8) ?w)))"
    using tail_swapped [OF t(1), of be c "?s + of_nat ?x"] u by fastforce
  have "same (256 * unat ?s) (256 * (256 * unat (ck_sum st)))" unfolding s by (intro same_mult same_REDUCE)
  also have "same \<dots> (unat (ck_sum st))" using same_65536 [of "unat (ck_sum st)"] by simp
  finally have a: "same (256 * unat ?s) (unat (ck_sum st))" .
  have b: "same (256 * wsum be False (take j w')) (wsum be True (take j w'))" using wsum_swap [of be False] by simp
  have "same (wt be False * unat c + 256 * (unat ?s + wsum be False (take j w'))) (wt be False * unat c + (unat (ck_sum st) + wsum be True (take j w')))"
    using same_add [OF same_refl same_add [OF a b]] by (simp add: distrib_left)
  also have "wt be False * unat c + (unat (ck_sum st) + wsum be True (take j w')) = unat (ck_sum st) + wsum be False (take n w)"
    by (simp add: w j)
  finally have "same (unat (ck_sum st') + pend be st') (unat (ck_sum st) + wsum be False (take n w))" using st'(4) unfolding t(3) by (simp only: add.assoc) (rule same_trans)
  moreover have "even (j mod 8) \<longleftrightarrow> odd n" by (simp add: j dvd_mod_iff)
  moreover have "length (take n w) = n" using n by simp
  ultimately have "data_spec be (unat (ck_sum st)) (take n w) st'" using st'(2,3) by (simp only: data_spec_def) simp
  moreover have "cksum_data be adr w st = Some st'" using True st by (simp add: cksum_data_def w j unrolled_both [OF n'] st'(1) del: Option.bind_assoc)
  ultimately show ?thesis by blast
qed

section \<open>Chains\<close>

text \<open>After the bytes \<open>bs\<close>, starting from the sum \<open>s\<close>.\<close>

definition ck_inv :: "bool \<Rightarrow> nat \<Rightarrow> u8 list \<Rightarrow> ck \<Rightarrow> bool" where
  "ck_inv be s bs st \<longleftrightarrow> same (unat (ck_sum st) + pend be st) (s + wsum be False bs) \<and> (ck_mlen st = -1 \<longleftrightarrow> odd (length bs))
     \<and> unat (ck_sum st) \<le> 16842495 + 65535 * (length bs div 2)"

lemma ck_inv_data:
  assumes "ck_inv be s bs st" and "ck_mlen st \<noteq> -1" and "data_spec be (unat (ck_sum st)) ds st'"
  shows "ck_inv be s (bs @ ds) st'"
proof -
  have ev: "even (length bs)" using assms(1,2) by (simp add: ck_inv_def)
  have "same (unat (ck_sum st)) (s + wsum be False bs)" using assms(1,2) by (simp add: ck_inv_def pend_def)
  from same_add [OF this same_refl [of "wsum be False ds"]]
  have "same (unat (ck_sum st') + pend be st') (s + wsum be False (bs @ ds))"
    using assms(3) ev by (auto simp: data_spec_def wsum_append add.assoc intro: same_trans)
  moreover have "(length bs + length ds) div 2 = length bs div 2 + length ds div 2" using ev by (simp add: div_plus_div_distrib_dvd_left)
  ultimately show ?thesis using assms ev by (auto simp: ck_inv_def data_spec_def)
qed

text \<open>The other half of a word.\<close>

lemma ck_inv_half:
  assumes inv: "ck_inv be s bs st" and half: "ck_mlen st = -1" and len: "length bs < 65536"
  shows "ck_inv be s (bs @ [c]) (st\<lparr>ck_sum := ck_sum st + s16 be (ck_c0 st) c, ck_mlen := int k\<rparr>)"
proof -
  have od: "odd (length bs)" using inv half by (simp add: ck_inv_def)
  then have d: "Suc (length bs) div 2 = Suc (length bs div 2)" by presburger
  have w: "unat (s16 be (ck_c0 st) c) = wt be False * unat (ck_c0 st) + wt be True * unat c" "unat (s16 be (ck_c0 st) c) \<le> 65535"
    using wsum_pair_le [of be False "ck_c0 st" c] by (simp_all add: unat_s16)
  have b: "unat (ck_sum st) \<le> 16842495 + 65535 * (length bs div 2)" using inv by (simp add: ck_inv_def)
  moreover have "length bs div 2 \<le> 32768" using len by simp
  ultimately have "unat (ck_sum st) + unat (s16 be (ck_c0 st) c) < 2 ^ 32" using w(2) by simp
  then have u: "unat (ck_sum st + s16 be (ck_c0 st) c) = unat (ck_sum st) + (wt be False * unat (ck_c0 st) + wt be True * unat c)"
    using w(1) by (subst unat_add_lem [THEN iffD1]) simp_all
  have "same (unat (ck_sum st) + wt be False * unat (ck_c0 st)) (s + wsum be False bs)" using inv half by (simp add: ck_inv_def pend_def)
  from same_add [OF this same_refl [of "wt be True * unat c"]]
  have "same (unat (ck_sum st + s16 be (ck_c0 st) c)) (s + wsum be False (bs @ [c]))" unfolding u using od by (simp add: wsum_append add.assoc)
  then show ?thesis using od b w u d by (simp add: ck_inv_def pend_def)
qed

lemma cksum_mbuf_spec:
  assumes inv: "ck_inv be s bs st" and ok: "mbuf_ok m" and off: "off < m_len m" and len: "0 < len" "length bs + len \<le> 65535"
  defines "d \<equiv> take len (drop off (m_bytes m))"
  shows "\<exists>st'. cksum_mbuf be base m off (int len, st) = Some (int (len - length d), st') \<and> ck_inv be s (bs @ d) st'"
proof -
  let ?w = "drop (m_data m + off) (m_area m)" and ?k = "m_len m - off"
  have wl: "?k \<le> length ?w" using ok off by (simp add: mbuf_ok_def)
  have dd: "d = take (min len ?k) ?w" by (simp add: d_def m_bytes_def drop_take add.commute)
  have step: "\<exists>st'. cksum_data be adr w (st1\<lparr>ck_mlen := int n\<rparr>) = Some st' \<and> ck_inv be s (bs1 @ take n w) st'"
    if h: "ck_inv be s bs1 st1" "ck_mlen st1 \<noteq> -1" "n \<le> length w" "length bs1 + n \<le> 65535" for adr w st1 n bs1
  proof -
    have "unat (ck_sum st1) \<le> 16842495 + 65535 * (length bs1 div 2)" using h(1) by (simp add: ck_inv_def)
    moreover have "2 * (length bs1 div 2) \<le> length bs1" "2 * (n div 2) \<le> n" by simp_all
    ultimately have "unat (ck_sum st1) + 65535 * (n div 2) < 2 ^ 32" using h(4) by simp
    then obtain st' where st': "cksum_data be adr w (st1\<lparr>ck_mlen := int n\<rparr>) = Some st'" "data_spec be (unat (ck_sum st1)) (take n w) st'"
      using cksum_data_spec [of "st1\<lparr>ck_mlen := int n\<rparr>" n w be adr] h(3,4) by auto
    then show ?thesis using ck_inv_data [OF h(1,2)] by blast
  qed
  show ?thesis
  proof (cases "ck_mlen st = -1")
    case False
    define N where "N = min len ?k"
    obtain st' where st': "cksum_data be (base m + m_data m + off) ?w (st\<lparr>ck_mlen := int N\<rparr>) = Some st'" "ck_inv be s (bs @ take N ?w) st'"
      using step [OF inv False, of N ?w] wl len by (fastforce simp: N_def)
    have n: "(if int len < int (m_len m) - int off then int len else int (m_len m) - int off) = int N" using off by (auto simp: N_def min_def)
    have l: "length d = N" using dd wl by (simp add: N_def)
    have "cksum_mbuf be base m off (int len, st) = Some (int len - int N, st')"
      using False st'(1) n unfolding cksum_mbuf_def Let_def prod.case by (auto split: if_splits)
    moreover have "int len - int N = int (len - length d)" unfolding l by (simp add: N_def)
    ultimately show ?thesis using st'(2) dd by (simp add: N_def)
  next
    case True
    obtain c w where w: "?w = c # w" using wl off by (cases ?w) auto
    define N where "N = min (len - 1) (?k - 1)"
    let ?st = "st\<lparr>ck_sum := ck_sum st + s16 be (ck_c0 st) c, ck_mlen := int (?k - 1)\<rparr>"
    have inv': "ck_inv be s (bs @ [c]) ?st" using ck_inv_half [OF inv True] len by simp
    obtain st' where st': "cksum_data be (Suc (base m + m_data m + off)) w (?st\<lparr>ck_mlen := int N\<rparr>) = Some st'" "ck_inv be s ((bs @ [c]) @ take N w) st'"
      using step [OF inv', of N w] wl len w by (fastforce simp: N_def)
    have n: "(if int len - 1 < int (m_len m) - int off - 1 then int len - 1 else int (m_len m) - int off - 1) = int N" using off len by (auto simp: N_def min_def)
    have m: "min len ?k = Suc N" using len off by (auto simp: N_def)
    have d: "d = c # take N w" unfolding dd m w by simp
    have l: "length d = Suc N" using wl unfolding dd length_take m [symmetric] by simp
    have i: "int (m_len m) - int off - 1 = int (?k - 1)" using off by simp
    have "cksum_mbuf be base m off (int len, st) = Some (int len - 1 - int N, st')"
      using True st'(1) unfolding cksum_mbuf_def Let_def prod.case w using n by (auto split: if_splits)
    moreover have "int len - 1 - int N = int (len - length d)" unfolding l using len by (simp add: N_def)
    ultimately show ?thesis using st'(2) d by simp
  qed
qed

lemma cksum_loop_spec:
  assumes "chain_ok ms" and "off = 0 \<or> ms \<noteq> [] \<and> off < m_len (hd ms)" and "ck_inv be s bs st" and "length bs + len \<le> 65535"
  shows "\<exists>st'. cksum_loop be base ms off (int len, st) = Some (int (len - length (take len (drop off (chain_bytes ms)))), st')
    \<and> ck_inv be s (bs @ take len (drop off (chain_bytes ms))) st'"
  using assms
proof (induction ms arbitrary: off bs st len)
  case (Cons m ms)
  let ?b = "m_bytes m"
  have ok: "mbuf_ok m" "chain_ok ms" using Cons.prems(1) by simp_all
  consider "len = 0" | "0 < len" "m_len m = 0" | "0 < len" "0 < m_len m" by linarith
  then show ?case
  proof cases
    case 1
    then show ?thesis using Cons.prems(3) by simp
  next
    case 2
    then have "off = 0" "?b = []" using Cons.prems(2) length_m_bytes [OF ok(1)] by auto
    then show ?thesis using 2 Cons.IH [OF ok(2), of 0, OF _ Cons.prems(3,4)] by simp
  next
    case 3
    have off: "off < m_len m" using 3 Cons.prems(2) by auto
    let ?d = "take len (drop off ?b)"
    from cksum_mbuf_spec [OF Cons.prems(3) ok(1) off 3(1) Cons.prems(4), of base] obtain st1
      where st1: "cksum_mbuf be base m off (int len, st) = Some (int (len - length ?d), st1)" "ck_inv be s (bs @ ?d) st1" by blast
    have "length (bs @ ?d) + (len - length ?d) \<le> 65535" using Cons.prems(4) by simp
    from Cons.IH [OF ok(2) _ st1(2) this, of 0] obtain st' where st': "cksum_loop be base ms 0 (int (len - length ?d), st1)
        = Some (int (len - length ?d - length (take (len - length ?d) (chain_bytes ms))), st')"
      "ck_inv be s ((bs @ ?d) @ take (len - length ?d) (chain_bytes ms)) st'" by auto
    have t: "take len (drop off (chain_bytes (m # ms))) = ?d @ take (len - length ?d) (chain_bytes ms)"
      using off length_m_bytes [OF ok(1)] by (simp add: min_def)
    have "len - length ?d - length (take (len - length ?d) (chain_bytes ms)) = len - length (take len (drop off (chain_bytes (m # ms))))"
      unfolding t by simp
    then show ?thesis using 3 st1(1) st' unfolding t by (simp del: length_take)
  qed
qed simp

lemma cksum_end_spec:
  assumes "ck_inv be s bs st" and "length bs \<le> 65535"
  shows "unat (cksum_end be st) = 65535 - oc_fold (s + wsum be False bs)"
proof -
  let ?x = "if ck_mlen st = -1 then ck_sum st + s16 be (ck_c0 st) 0 else ck_sum st"
  have "unat (s16 be (ck_c0 st) 0) = wt be False * unat (ck_c0 st)" "unat (s16 be (ck_c0 st) 0) \<le> 65535"
    using wsum_pair_le [of be False "ck_c0 st" 0] by (simp_all add: unat_s16)
  moreover have "unat (ck_sum st) \<le> 16842495 + 65535 * 32767"
    using assms(1) div_le_mono [OF assms(2), of 2] by (simp add: ck_inv_def)
  ultimately have "unat ?x = unat (ck_sum st) + pend be st" by (auto simp: pend_def unat_add_lem [THEN iffD1])
  then have "same (unat (REDUCE ?x)) (s + wsum be False bs)" using same_REDUCE [of ?x] assms(1) by (auto simp only: ck_inv_def intro: same_trans)
  then have r: "unat (REDUCE ?x) = oc_fold (s + wsum be False bs)" using oc_fold_same oc_fold_small [OF REDUCE_le] by metis
  have "unat (NOT y AND 0xffff) = 65535 - unat y" if "unat y \<le> 65535" for y :: u32
  proof -
    have m: "(0xffff :: u32) = mask 16" by (simp add: mask_eq_exp_minus_1)
    have "take_bit 16 y = y" 
    proof -
      have "take_bit 16 (unat y) = unat y" using that by (simp add: take_bit_nat_eq_self)
      then show ?thesis by (metis unsigned_take_bit_eq unsigned_word_eqI)
    qed
    then have "NOT y AND 0xffff = 0xffff - y" unfolding m by (simp only: take_bit_eq_mask [symmetric] take_bit_not_eq_mask_diff)
    then show ?thesis using that by (simp add: unat_sub word_le_nat_alt)
  qed
  from this [OF REDUCE_le, of ?x] show ?thesis unfolding cksum_end_def r .
qed

section \<open>Properties\<close>

text \<open>The checksum of a sequence of bytes as the standard defines it: the complement of the one's complement sum of its 16-bit words, with a zero byte at the end if the number of bytes is odd.\<close>

fun oc_words :: "bool \<Rightarrow> u8 list \<Rightarrow> nat" where
  "oc_words be [] = 0"
| "oc_words be [a] = unat (s16 be a 0)"
| "oc_words be (a # b # bs) = unat (s16 be a b) + oc_words be bs"

definition inet_cksum :: "bool \<Rightarrow> u8 list \<Rightarrow> nat" where
  "inet_cksum be bs = 65535 - oc_fold (oc_words be bs)"

lemma oc_words_wsum: "oc_words be bs = wsum be False bs"
  by (induction be bs rule: oc_words.induct) (simp_all add: unat_s16)

lemma ck_inv_start: "unat sm \<le> 16842495 \<Longrightarrow> ck_inv be (unat sm) [] (ck_start sm)"
  by (simp add: ck_inv_def ck_start_def pend_def)

lemma in_cksum_done:
  assumes "chain_ok ms" and "0 \<le> len" "len \<le> 65535"
  shows "\<exists>r. in_cksum be base ms len = Some r \<and> unat r = inet_cksum be (take (nat len) (chain_bytes ms))"
proof -
  have inv: "ck_inv be 0 [] (ck_start 0)" using ck_inv_start [of 0] by simp
  have l: "length [] + nat len \<le> 65535" using assms(3) by simp
  from cksum_loop_spec [OF assms(1) _ inv l, of 0 base] obtain st where
    st: "cksum_loop be base ms 0 (int (nat len), ck_start 0) = Some (int (nat len - length (take (nat len) (chain_bytes ms))), st)"
      "ck_inv be 0 (take (nat len) (chain_bytes ms)) st" by auto
  have "unat (cksum_end be st) = inet_cksum be (take (nat len) (chain_bytes ms))"
    using cksum_end_spec [OF st(2)] assms(3) by (simp add: inet_cksum_def oc_words_wsum)
  then show ?thesis using st(1) assms(2) by (auto simp: in_cksum_def)
qed

text \<open>
  C29. \<^verbatim>\<open>in_cksum\<close> of every chain, whatever the lengths and addresses of its mbufs and the byte order of the machine, is the checksum
  of the first \<open>len\<close> bytes as the standard defines it. It reads nothing but the data of the chain, and the
  sum does not overflow for packets of up to 65535 bytes.
\<close>

theorem in_cksum_correct:
  assumes "chain_ok ms" and "0 \<le> len" "len \<le> 65535"
  shows "\<exists>r. in_cksum be base ms len = Some r \<and> unat r = inet_cksum be (take (nat len) (chain_bytes ms))"
  by (rule in_cksum_done [OF assms])

theorem in_cksum_correct_witness: "\<exists>r. in_cksum False (\<lambda>m. m_len m) two_mbufs 7 = Some r \<and> unat r = inet_cksum False [1, 2, 3, 4, 5, 6, 7]"
  using in_cksum_correct [OF two_mbufs_ok(5), of 7 False "\<lambda>m. m_len m"] two_mbufs_ok(4) by simp

text \<open>A checksum field: two bytes at an even place, which hold the checksum in the byte order of the machine.\<close>

definition put16 :: "bool \<Rightarrow> u32 \<Rightarrow> u8 list" where
  "put16 be r = (if be then [ucast (drop_bit 8 r), ucast r] else [ucast r, ucast (drop_bit 8 r)])"

lemma wsum_put16: "unat r < 65536 \<Longrightarrow> wsum be False (put16 be r) = unat r"
proof -
  assume "unat r < 65536"
  have lo: "unat (ucast r :: u8) = unat r mod 256" by (simp add: unsigned_ucast_eq take_bit_eq_mod)
  have hi: "unat (ucast (drop_bit 8 r) :: u8) = unat r div 256"
    using \<open>unat r < 65536\<close> by (simp add: unsigned_ucast_eq take_bit_eq_mod drop_bit_eq_div unat_div div_less_iff_less_mult)
  show ?thesis by (auto simp: put16_def wt_def lo hi)
qed

lemma inet_cksum_stored:
  assumes "even (length a)" and "unat r = inet_cksum be (a @ [0, 0] @ b)"
  shows "inet_cksum be (a @ put16 be r @ b) = 0"
proof -
  let ?x = "wsum be False a + wsum be False b"
  have l: "length (put16 be r) = 2" by (simp add: put16_def)
  have r: "unat r = 65535 - oc_fold ?x" using assms by (simp add: inet_cksum_def oc_words_wsum wsum_append)
  then have "unat r < 65536" by simp
  then have "wsum be False (a @ put16 be r @ b) = ?x + unat r" using assms(1) l by (simp add: wsum_append wsum_put16)
  moreover have "same (oc_fold ?x + unat r) (?x + unat r)" by (rule same_add [OF same_oc_fold same_refl])
  moreover have "oc_fold ?x + unat r = 65535" using r oc_fold_le [of ?x] by simp
  ultimately have "oc_fold (wsum be False (a @ put16 be r @ b)) = oc_fold 65535" using oc_fold_same by metis
  then show ?thesis by (simp add: inet_cksum_def oc_words_wsum oc_fold_small)
qed

text \<open>
  Storing and verifying: when the checksum of a packet whose checksum field is zero is put into the field, \<^verbatim>\<open>in_cksum\<close> of the packet is
  zero, also if the packet has been rearranged into other mbufs.
\<close>

theorem in_cksum_verifies:
  assumes chains: "chain_ok ms" "chain_ok ms'" and bytes: "chain_bytes ms = a @ [0, 0] @ b" "chain_bytes ms' = a @ put16 be r @ b"
    and field: "even (length a)" "length (chain_bytes ms) \<le> 65535" and sum: "in_cksum be base ms (int (length (chain_bytes ms))) = Some r"
  shows "in_cksum be base' ms' (int (length (chain_bytes ms'))) = Some 0"
proof -
  have len: "length (chain_bytes ms') = length (chain_bytes ms)" unfolding bytes by (simp add: put16_def)
  have "unat r = inet_cksum be (a @ [0, 0] @ b)" using in_cksum_done [OF chains(1), of "int (length (chain_bytes ms))" be base] sum field(2) by (simp add: bytes)
  from inet_cksum_stored [OF field(1) this] have z: "inet_cksum be (chain_bytes ms') = 0" by (simp only: bytes)
  obtain r' where "in_cksum be base' ms' (int (length (chain_bytes ms'))) = Some r'" "unat r' = inet_cksum be (chain_bytes ms')"
    using in_cksum_done [OF chains(2), of "int (length (chain_bytes ms'))" be base'] len field(2) by auto
  then show ?thesis using z by (simp add: unat_eq_zero)
qed

definition verify_chain :: "pmbuf list" where
  "verify_chain =
     [\<lparr>m_area = replicate 56 0 @ [1, 2, 3, 4, 247] @ replicate 163 0, m_data = 56, m_len = 5, m_flags = {M_PKTHDR}, m_pkthdr = \<lparr>ph_len = 7, ph_rest = 9\<rparr>, m_refd = False\<rparr>,
      \<lparr>m_area = replicate 100 0 @ [249, 4] @ replicate 122 0, m_data = 100, m_len = 2, m_flags = {}, m_pkthdr = \<lparr>ph_len = 0, ph_rest = 0\<rparr>, m_refd = False\<rparr>]"

definition zero_chain :: "pmbuf list" where
  "zero_chain =
     [\<lparr>m_area = replicate 99 0 @ [1, 2, 3, 4, 0, 0, 4] @ replicate 118 0, m_data = 99, m_len = 7, m_flags = {}, m_pkthdr = \<lparr>ph_len = 0, ph_rest = 0\<rparr>, m_refd = False\<rparr>]"

theorem in_cksum_verifies_witness: "in_cksum False (\<lambda>m. 0) verify_chain 7 = Some 0"
proof -
  have c: "chain_ok zero_chain" "chain_ok verify_chain" "chain_bytes zero_chain = [1, 2, 3, 4] @ [0, 0] @ [4]"
    by (simp_all add: zero_chain_def verify_chain_def mbuf_ok_def m_bytes_def)
  have r: "in_cksum False (\<lambda>m. 0) zero_chain 7 = Some 0xf9f7" by code_simp
  have b: "chain_bytes verify_chain = [1, 2, 3, 4] @ put16 False 0xf9f7 @ [4]" by code_simp
  show ?thesis using in_cksum_verifies [OF c b, of "\<lambda>m. 0" "\<lambda>m. 0"] r c(3) b by (simp add: put16_def)
qed

section \<open>Pseudo headers\<close>

lemma skip_off_m_skip: "m_skip ms off = Some (ms', o') \<Longrightarrow> skip_off ms (int off) = (ms', int o')"
proof (induction ms arbitrary: off)
  case (Cons m ms)
  show ?case
  proof (cases "0 < off \<and> m_len m \<le> off")
    case True
    then have "m_skip ms (off - m_len m) = Some (ms', o')" using Cons.prems by (simp add: m_skip.simps [of "m # ms"])
    from Cons.IH [OF this] show ?thesis using True by (simp add: of_nat_diff)
  next
    case False
    then show ?thesis using Cons.prems by (auto simp: m_skip.simps [of "m # ms"] split: if_splits)
  qed
qed (simp add: m_skip.simps split: if_splits)

lemma skip_off_bytes:
  assumes "chain_ok ms" and "0 \<le> off" "off \<le> int (length (chain_bytes ms))"
  shows "\<exists>ms' o'. skip_off ms off = (ms', int o') \<and> chain_ok ms' \<and> drop o' (chain_bytes ms') = drop (nat off) (chain_bytes ms)
    \<and> (o' = 0 \<or> ms' \<noteq> [] \<and> o' < m_len (hd ms'))"
proof -
  have "nat off \<le> length (chain_bytes ms)" using assms(2,3) by linarith
  from m_skip_bytes(1) [OF assms(1) this] show ?thesis using skip_off_m_skip [of ms "nat off"] assms(2) by fastforce
qed

lemma add_words_zero:
  assumes "length w = 2 * k" and "k \<le> 256"
  shows "\<exists>sm. add_words be k w 0 = Some sm \<and> unat sm = wsum be False w"
proof -
  have "wsum be False w \<le> 65535 * k" using wsum_le [of be False w] assms(1) by simp
  then have "unat (0 :: u32) + wsum be False w < 2 ^ 32" using assms(2) by simp
  from unat_plus_sum [OF this] show ?thesis using add_words_sum [of k w be 0] assms(1) by simp
qed

lemma length_ipovly: "length ip = 20 \<Longrightarrow> length (ipovly nxt len ip) = 20"
  by (simp add: ipovly_def)

text \<open>
  \<^verbatim>\<open>in4_cksum\<close> is the checksum of the pseudo header, made of the addresses in the IP header, the protocol and the length, followed by
  the \<open>len\<close> bytes from \<open>off\<close> on; without a protocol it is the checksum of these bytes alone.
\<close>

theorem in4_cksum_correct:
  assumes ok: "chain_ok ms" "ms \<noteq> []" and off: "0 \<le> off" "off \<le> int (length (chain_bytes ms))" and len: "0 \<le> len" "len \<le> 65535"
    and ip: "nxt \<noteq> 0 \<Longrightarrow> 20 \<le> off \<and> 20 \<le> m_len (hd ms)"
  shows "\<exists>r. in4_cksum be base ms nxt off len = Some r
    \<and> unat r = inet_cksum be ((if nxt \<noteq> 0 then ipovly nxt len (take 20 (chain_bytes ms)) else []) @ take (nat len) (drop (nat off) (chain_bytes ms)))"
proof -
  define ph where "ph = (if nxt \<noteq> 0 then ipovly nxt len (take 20 (chain_bytes ms)) else [])"
  obtain m r where ms: "ms = m # r" using ok(2) by (cases ms) auto
  have m: "mbuf_ok m" using ok(1) ms by simp
  have pc: "m_piece m 0 20 = take 20 (chain_bytes ms)" "length (take 20 (chain_bytes ms)) = 20" if "nxt \<noteq> 0"
    using ip [OF that] ms length_m_bytes [OF m] by (simp_all add: m_piece_bytes)
  have ev: "even (length ph)" using pc(2) by (simp add: ph_def length_ipovly)
  obtain sm where sm: "(if nxt \<noteq> 0 then if off < 20 then None else case ms of [] \<Rightarrow> None
        | m1 # r \<Rightarrow> if m_len m1 < 20 then None else add_words be 10 (ipovly nxt len (m_piece m1 0 20)) 0 else Some 0) = Some sm"
    "unat sm = wsum be False ph" "unat sm \<le> 655350"
  proof (cases "nxt = 0")
    case False
    then have l: "length ph = 20" using pc(2) by (simp add: ph_def length_ipovly)
    then obtain s where "add_words be 10 ph 0 = Some s" "unat s = wsum be False ph" using add_words_zero [of ph 10 be] by auto
    moreover have "wsum be False ph \<le> 655350" using wsum_le [of be False ph] l by simp
    ultimately show ?thesis using that False ip ms pc(1) by (auto simp: ph_def)
  qed (use that in \<open>simp add: ph_def\<close>)
  obtain ms' o' where sk: "skip_off ms off = (ms', int o')" "chain_ok ms'" "drop o' (chain_bytes ms') = drop (nat off) (chain_bytes ms)"
    "o' = 0 \<or> ms' \<noteq> [] \<and> o' < m_len (hd ms')" using skip_off_bytes [OF ok(1) off] by blast
  have l: "length [] + nat len \<le> 65535" using len(2) by simp
  let ?d = "take (nat len) (drop (nat off) (chain_bytes ms))"
  have inv: "ck_inv be (unat sm) [] (ck_start sm)" using sm(3) by (intro ck_inv_start) simp
  obtain st where st: "cksum_loop be base ms' o' (len, ck_start sm) = Some (int (nat len - length ?d), st)" "ck_inv be (unat sm) ?d st"
    using cksum_loop_spec [OF sk(2,4) inv l, of base] len(1) sk(3) by auto
  have "unat (cksum_end be st) = inet_cksum be (ph @ ?d)"
    using cksum_end_spec [OF st(2)] len ev sm(2) by (simp add: inet_cksum_def oc_words_wsum wsum_append)
  moreover have "in4_cksum be base ms nxt off len = Some (cksum_end be st)" using off(1) sm(1) sk(1) st(1) by (simp add: in4_cksum_def)
  ultimately show ?thesis by (simp add: ph_def)
qed

definition ip_chain :: "pmbuf list" where
  "ip_chain =
     [\<lparr>m_area = replicate 56 0 @ [0x45, 0, 0, 23, 0, 1, 0, 0, 64, 17, 0, 0, 10, 0, 0, 1, 10, 0, 0, 2] @ replicate 148 0, m_data = 56, m_len = 20,
        m_flags = {M_PKTHDR}, m_pkthdr = \<lparr>ph_len = 23, ph_rest = 0\<rparr>, m_refd = False\<rparr>,
      \<lparr>m_area = [7, 8, 9] @ replicate 221 0, m_data = 0, m_len = 3, m_flags = {}, m_pkthdr = \<lparr>ph_len = 0, ph_rest = 0\<rparr>, m_refd = False\<rparr>]"

theorem in4_cksum_correct_witness:
  "\<exists>r. in4_cksum True (\<lambda>m. 1) ip_chain 17 20 3 = Some r
     \<and> unat r = inet_cksum True ([0, 0, 0, 0, 0, 0, 0, 0, 0, 17, 0, 3, 10, 0, 0, 1, 10, 0, 0, 2] @ [7, 8, 9])"
proof -
  have c: "chain_ok ip_chain" "ip_chain \<noteq> []" "20 \<le> m_len (hd ip_chain)" by (simp_all add: ip_chain_def mbuf_ok_def)
  have b: "chain_bytes ip_chain = [0x45, 0, 0, 23, 0, 1, 0, 0, 64, 17, 0, 0, 10, 0, 0, 1, 10, 0, 0, 2, 7, 8, 9]" by (simp add: ip_chain_def m_bytes_def)
  have p: "ipovly 17 3 (take 20 (chain_bytes ip_chain)) = [0, 0, 0, 0, 0, 0, 0, 0, 0, 17, 0, 3, 10, 0, 0, 1, 10, 0, 0, 2]" unfolding b by code_simp
  have d: "take (nat 3) (drop (nat 20) (chain_bytes ip_chain)) = [7, 8, 9]" unfolding b by simp
  have l: "length (chain_bytes ip_chain) = 23" unfolding b by simp
  have nz: "(17 :: u8) \<noteq> 0" by simp
  show ?thesis using in4_cksum_correct [OF c(1,2), of 20 3 17 True "\<lambda>m. 1"] c(3) l unfolding p d by (simp add: nz)
qed

text \<open>An address as it is on the wire: without the scope in its second word.\<close>

definition wire_addr :: "u8 list \<Rightarrow> u8 list" where
  "wire_addr a = (if IN6_IS_SCOPE_EMBED a then take 2 a @ [0, 0] @ drop 4 a else a)"

lemma length_wire_addr: "length a = 16 \<Longrightarrow> length (wire_addr a) = 16"
  by (simp add: wire_addr_def)

lemma add_addr_sum:
  assumes "length a = 16"
  shows "add_addr be a sm = Some (sm + of_nat (wsum be False (wire_addr a)))"
proof -
  let ?p = "take 2 a" and ?q = "take 2 (drop 2 a)" and ?r = "drop 4 a"
  have t: "take 12 (drop 4 a) = drop 4 a" using assms by simp
  have e: "a = ?p @ ?q @ ?r" by (metis append_take_drop_id drop_drop numeral_plus_numeral semiring_norm(2,6))
  have l: "length ?p = 2" "length ?q = 2" using assms by simp_all
  have "wsum be False a = wsum be False ?p + (wsum be False ?q + wsum be False ?r)" by (subst e) (simp add: wsum_append assms)
  moreover have "wsum be False (?p @ [0, 0] @ ?r) = wsum be False ?p + wsum be False ?r" by (simp add: wsum_append assms)
  ultimately show ?thesis using assms
    by (simp add: add_addr_def wire_addr_def add_words_sum [of 1, unfolded One_nat_def] add_words_sum [of 6] t algebra_simps numeral_2_eq_2)
qed

lemma in6_pseudo:
  assumes "length a = 16" and "length b = 16"
  shows "\<exists>sm. in6_sum be a b nxt len = Some sm
    \<and> unat sm = wsum be False (wire_addr a @ wire_addr b @ in6_ph len nxt) \<and> unat sm \<le> 1310700"
proof -
  let ?w = "wire_addr a @ wire_addr b @ in6_ph len nxt"
  have l: "length (wire_addr a) = 16" "length (wire_addr b) = 16" "length (in6_ph len nxt) = 8" using assms by (simp_all add: length_wire_addr in6_ph_def)
  have "wsum be False ?w \<le> 1310700" using wsum_le [of be False ?w] l by simp
  moreover from this have "unat (0 + of_nat (wsum be False ?w) :: u32) = unat (0 :: u32) + wsum be False ?w" by (intro unat_plus_sum) simp
  ultimately show ?thesis using l by (simp add: in6_sum_def add_addr_sum assms add_words_sum wsum_append add.assoc)
qed

lemma in6_data_done:
  assumes ok: "chain_ok ms" and len: "0 < len" "len \<le> 65535" "off + len \<le> length (chain_bytes ms)" and sm: "unat sm \<le> 1310700"
  shows "\<exists>st. in6_data be base ms (int off) (int len) sm = Some (cksum_end be st) \<and> ck_inv be (unat sm) (take len (drop off (chain_bytes ms))) st"
proof -
  let ?d = "take len (drop off (chain_bytes ms))"
  obtain ms' o' where sk: "skip_off ms (int off) = (ms', int o')" "chain_ok ms'" "drop o' (chain_bytes ms') = drop off (chain_bytes ms)"
    "o' = 0 \<or> ms' \<noteq> [] \<and> o' < m_len (hd ms')" using skip_off_bytes [OF ok, of "int off"] len(3) by auto
  have ne: "ms' \<noteq> []" using sk(3) len(1,3) by (cases ms') auto
  then obtain n r' where n: "ms' = n # r'" by (cases ms') auto
  have o': "o' \<le> m_len n" "mbuf_ok n" "chain_ok r'" using sk(2,4) n by auto
  define k where "k = min len (m_len n - o')"
  let ?w = "drop (m_data n + o') (m_area n)"
  have k: "k \<le> length ?w" "k \<le> 65535" "k \<le> len" using o' len(2) by (auto simp: k_def mbuf_ok_def)
  have inv0: "ck_inv be (unat sm) [] (ck_start sm)" using sm by (intro ck_inv_start) simp
  have room: "unat (ck_sum ((ck_start sm)\<lparr>ck_mlen := int k\<rparr>)) + 65535 * (k div 2) < 2 ^ 32"
    using sm div_le_mono [OF k(2), of 2] by (simp add: ck_start_def)
  obtain st1 where st1: "cksum_data be (base n + m_data n + o') ?w ((ck_start sm)\<lparr>ck_mlen := int k\<rparr>) = Some st1" "data_spec be (unat sm) (take k ?w) st1"
    using cksum_data_spec [OF _ k(1) room, of be "base n + m_data n + o'"] k(2) by (auto simp: ck_start_def)
  have tk: "take k ?w = take len (drop o' (m_bytes n))" by (simp add: k_def m_bytes_def drop_take add.commute)
  have inv1: "ck_inv be (unat sm) (take k ?w) st1" using ck_inv_data [OF inv0 _ ] st1(2) by (simp add: ck_start_def)
  have lt: "length (take k ?w) = k" using k(1) by simp
  have d: "?d = take k ?w @ take (len - k) (chain_bytes r')"
    using o'(1) length_m_bytes [OF o'(2)] unfolding sk(3) [symmetric] n tk by (simp add: k_def min_def)
  have ld: "length ?d = len" using len(3) by simp
  have ll: "length (take k ?w) + (len - k) \<le> 65535" unfolding lt using len(2) k(3) by simp
  from cksum_loop_spec [OF o'(3) _ inv1 ll, of 0 base] obtain st where
    st: "cksum_loop be base r' 0 (int (len - k), st1) = Some (int (len - k - length (take (len - k) (chain_bytes r'))), st)"
      "ck_inv be (unat sm) ?d st" unfolding d by (auto simp del: length_take)
  have z: "len - k - length (take (len - k) (chain_bytes r')) = 0" using ld unfolding d length_append lt by linarith
  have m: "(if int len < int (m_len n) - int o' then int len else int (m_len n) - int o') = int k" using o'(1) by (auto simp: k_def min_def)
  have i: "int len - int k = int (len - k)" using k(3) by simp
  have "in6_data be base ms (int off) (int len) sm = Some (cksum_end be st)"
    unfolding in6_data_def sk(1) n prod.case list.case Let_def m i nat_int st1(1) Option.bind.bind_lunit st(1) z by simp
  then show ?thesis using st(2) by blast
qed

text \<open>
  \<^verbatim>\<open>in6_cksum\<close> of a packet whose header says its length is the checksum of the addresses as they are on the wire, the length and
  the protocol, followed by the \<open>len\<close> bytes from \<open>off\<close> on; it does not panic.
\<close>

theorem in6_cksum_correct:
  assumes ok: "chain_ok ms" "ms \<noteq> []" and hdr: "hdr_len ms = int (length (chain_bytes ms))" "hdr_len ms < 2 ^ 31" "40 \<le> m_len (hd ms)"
    and len: "0 < unat len" "unat len \<le> 65535" "unat off + unat len \<le> length (chain_bytes ms)"
  shows "\<exists>r. in6_cksum be base ms nxt off len = Some r
    \<and> unat r = inet_cksum be (wire_addr (take 16 (drop 8 (chain_bytes ms))) @ wire_addr (take 16 (drop 24 (chain_bytes ms))) @ in6_ph len nxt
        @ take (unat len) (drop (unat off) (chain_bytes ms)))"
proof -
  obtain m r where ms: "ms = m # r" using ok(2) by (cases ms) auto
  have m: "mbuf_ok m" "40 \<le> m_len m" using ok(1) hdr(3) ms by simp_all
  let ?a = "take 16 (drop 8 (chain_bytes ms))" and ?b = "take 16 (drop 24 (chain_bytes ms))"
  have ab: "m_piece m 8 16 = ?a" "m_piece m 24 16 = ?b" "length ?a = 16" "length ?b = 16"
    using m length_m_bytes [OF m(1)] ms by (simp_all add: m_piece_bytes)
  define ph where "ph = wire_addr ?a @ wire_addr ?b @ in6_ph len nxt"
  have ev: "even (length ph)" using ab by (simp add: ph_def length_wire_addr in6_ph_def)
  obtain sm where sm: "in6_sum be ?a ?b nxt len = Some sm"
    "unat sm = wsum be False ph" "unat sm \<le> 1310700" using in6_pseudo [OF ab(3,4)] unfolding ph_def by blast
  have small: "\<not> word_of_int (ph_len (m_pkthdr m)) < off + len"
  proof -
    have s: "unat (off + len) = unat off + unat len" using len(3) hdr(1,2) by (subst unat_add_lem [THEN iffD1]) simp_all
    have "ph_len (m_pkthdr m) = int (length (chain_bytes ms))" using hdr(1) unfolding hdr_len_def by (simp add: ms del: chain_bytes_Cons)
    moreover have "length (chain_bytes ms) < 2 ^ 32" using hdr(1,2) by simp
    ultimately have "unat (word_of_int (ph_len (m_pkthdr m)) :: u32) = length (chain_bytes ms)" by (simp only: of_int_of_nat_eq) (simp add: unat_of_nat take_bit_nat_eq_self)
    then show ?thesis using len(3) s by (simp add: word_less_nat_alt)
  qed
  let ?d = "take (unat len) (drop (unat off) (chain_bytes ms))"
  obtain st where st: "in6_data be base ms (int (unat off)) (int (unat len)) sm = Some (cksum_end be st)" "ck_inv be (unat sm) ?d st"
    using in6_data_done [OF ok(1) len sm(3)] by blast
  have "unat (cksum_end be st) = inet_cksum be (ph @ ?d)"
    using cksum_end_spec [OF st(2)] len(2) ev sm(2) by (simp add: inet_cksum_def oc_words_wsum wsum_append)
  moreover have "in6_cksum be base ms nxt off len = Some (cksum_end be st)"
    using small sm(1) st(1) unfolding ab(1,2) [symmetric] by (simp add: in6_cksum_def ms)
  ultimately show ?thesis by (auto simp: ph_def)
qed

definition ip6_chain :: "pmbuf list" where
  "ip6_chain =
     [\<lparr>m_area = replicate 56 0 @ [0x60, 0, 0, 0, 0, 3, 58, 255] @ [0xfe, 0x80, 0, 1, 0, 0, 0, 0, 0, 0, 0, 0, 0, 0, 0, 5] @ [0x20, 1, 0, 7, 0, 0, 0, 0, 0, 0, 0, 0, 0, 0, 0, 9] @ replicate 128 0,
        m_data = 56, m_len = 40, m_flags = {M_PKTHDR}, m_pkthdr = \<lparr>ph_len = 43, ph_rest = 0\<rparr>, m_refd = False\<rparr>,
      \<lparr>m_area = [7, 8, 9] @ replicate 221 0, m_data = 0, m_len = 3, m_flags = {}, m_pkthdr = \<lparr>ph_len = 0, ph_rest = 0\<rparr>, m_refd = False\<rparr>]"

theorem in6_cksum_correct_witness:
  "\<exists>r. in6_cksum False (\<lambda>m. 1) ip6_chain 58 40 3 = Some r
     \<and> unat r = inet_cksum False ([0xfe, 0x80, 0, 0, 0, 0, 0, 0, 0, 0, 0, 0, 0, 0, 0, 5] @ [0x20, 1, 0, 7, 0, 0, 0, 0, 0, 0, 0, 0, 0, 0, 0, 9]
         @ [0, 0, 0, 3, 0, 0, 0, 58] @ [7, 8, 9])"
proof -
  have c: "chain_ok ip6_chain" "ip6_chain \<noteq> []" "40 \<le> m_len (hd ip6_chain)" "hdr_len ip6_chain = 43" by (simp_all add: ip6_chain_def mbuf_ok_def hdr_len_def)
  have b: "chain_bytes ip6_chain = [0x60, 0, 0, 0, 0, 3, 58, 255] @ [0xfe, 0x80, 0, 1, 0, 0, 0, 0, 0, 0, 0, 0, 0, 0, 0, 5]
      @ [0x20, 1, 0, 7, 0, 0, 0, 0, 0, 0, 0, 0, 0, 0, 0, 9] @ [7, 8, 9]" by (simp add: ip6_chain_def m_bytes_def)
  have l: "length (chain_bytes ip6_chain) = 43" unfolding b by simp
  have w: "wire_addr (take 16 (drop 8 (chain_bytes ip6_chain))) = [0xfe, 0x80, 0, 0, 0, 0, 0, 0, 0, 0, 0, 0, 0, 0, 0, 5]"
    "wire_addr (take 16 (drop 24 (chain_bytes ip6_chain))) = [0x20, 1, 0, 7, 0, 0, 0, 0, 0, 0, 0, 0, 0, 0, 0, 9]"
    "in6_ph 3 58 = [0, 0, 0, 3, 0, 0, 0, 58]" unfolding b by code_simp+
  have d: "take (unat (3 :: u32)) (drop (unat (40 :: u32)) (chain_bytes ip6_chain)) = [7, 8, 9]" unfolding b by simp
  show ?thesis using in6_cksum_correct [OF c(1,2), of 3 40 False "\<lambda>m. 1" 58] c(3,4) l unfolding w d by simp
qed

end
