(* ===== verification/Pipe.thy ===== *)
theory Pipe
  imports Kern_Prelude
begin

text \<open>
  Pipes (\<^verbatim>\<open>src/sys/kern/sys_pipe.c\<close>, \<^verbatim>\<open>src/sys/sys/pipe.h\<close>): one direction of a pipe, its ring buffer and its flags, and any number of threads that
  read from it, write to it and close it. A thread runs alone from one place where it may sleep to the next; these
  places are its control points: waiting for the pipe lock, for data, for space or for the end of other calls, moving
  data from or to user space (\<^verbatim>\<open>uiomove\<close> may yield or fault) and getting memory. All threads of a pipe sleep on the address of the
  pipe, so that \<^verbatim>\<open>wakeup\<close> wakes them all. A panic and an access outside of the buffer are \<open>None\<close>. Times, \<^verbatim>\<open>SIGIO\<close> and event notes
  are left out.
\<close>

section \<open>Data\<close>

definition PIPE_SIZE :: nat where "PIPE_SIZE = 16384"

definition BIG_PIPE_SIZE :: nat where "BIG_PIPE_SIZE = 64 * 1024"

definition MINPIPESIZE :: nat where "MINPIPESIZE = PIPE_SIZE div 3"

definition PIPE_BUF :: nat where "PIPE_BUF = 512"

definition NO_PID :: int where "NO_PID = 32766 + 1"

definition LIMITBIGPIPES :: int where "LIMITBIGPIPES = 32"

datatype pflag = PIPE_ASYNC | PIPE_WANTR | PIPE_WANTW | PIPE_WANT | PIPE_SEL | PIPE_EOF | PIPE_LOCK | PIPE_LWANT

record pipebuf =
  pb_cnt :: nat
  pb_in :: nat
  pb_out :: nat
  pb_size :: nat
  pb_buffer :: "nat \<Rightarrow> u8"

text \<open>
  The control points, with what the call still knows there: for a reader the bytes it still wants, the bytes it has and whether it may
  wait; for a writer the bytes it still has to write, \<^verbatim>\<open>orig_resid\<close> and whether it may wait.
\<close>

datatype ppc =
    Out "errno option"
  | ReadLock nat bool
  | ReadTop nat nat bool
  | ReadCopy nat nat bool nat
  | ReadSleep nat bool
  | ReadRelock nat bool
  | WriteGrow "u8 list" bool
  | WriteAlloc "u8 list" bool
  | WriteTop "u8 list" int bool
  | WriteLock "u8 list" int bool nat
  | WriteCopy "u8 list" int bool nat nat
  | WriteSleep "u8 list" int bool
  | CloseSleep

text \<open>\<open>pp_linked\<close>: the other end refers to this pipe; \<open>pp_freed\<close>: it has been given back; \<open>pp_queue\<close>: the threads asleep on it.\<close>

record pstate =
  pp_buf :: pipebuf
  pp_flags :: "pflag set"
  pp_busy :: int
  pp_pgid :: int
  pp_linked :: bool
  pp_freed :: bool
  nbigpipe :: int
  amountpipekva :: int
  pp_queue :: "nat set"
  pp_pc :: "nat \<Rightarrow> ppc"

text \<open>What a step of a thread moves into the pipe or out of it.\<close>

datatype plabel = Quiet | Put "u8 list" | Got "u8 list"

type_synonym pstep = "(pstate \<times> plabel) option"

section \<open>Flags and sleeping\<close>

definition set_flag :: "pflag \<Rightarrow> pstate \<Rightarrow> pstate" where
  "set_flag f s = s\<lparr>pp_flags := insert f (pp_flags s)\<rparr>"

definition clr_flags :: "pflag set \<Rightarrow> pstate \<Rightarrow> pstate" where
  "clr_flags fs s = s\<lparr>pp_flags := pp_flags s - fs\<rparr>"

definition pwakeup :: "pstate \<Rightarrow> pstate" where
  "pwakeup s = s\<lparr>pp_queue := {}\<rparr>"

definition pgoto :: "nat \<Rightarrow> ppc \<Rightarrow> pstate \<Rightarrow> pstate" where
  "pgoto t pc s = s\<lparr>pp_pc := (pp_pc s)(t := pc)\<rparr>"

definition tsleep :: "nat \<Rightarrow> ppc \<Rightarrow> pstate \<Rightarrow> pstate" where
  "tsleep t pc s = (pgoto t pc s)\<lparr>pp_queue := insert t (pp_queue s)\<rparr>"

definition add_busy :: "int \<Rightarrow> pstate \<Rightarrow> pstate" where
  "add_busy d s = s\<lparr>pp_busy := pp_busy s + d\<rparr>"

text \<open>A round of the loop of \<^verbatim>\<open>pipelock\<close>: the thread sleeps at \<open>pc\<close> or goes on with \<open>k\<close>.\<close>

definition pipelock :: "nat \<Rightarrow> ppc \<Rightarrow> (pstate \<Rightarrow> pstate) \<Rightarrow> pstate \<Rightarrow> pstate" where
  "pipelock t pc k s = (if PIPE_LOCK \<in> pp_flags s then tsleep t pc (set_flag PIPE_LWANT s) else k (set_flag PIPE_LOCK s))"

definition pipeunlock :: "pstate \<Rightarrow> pstate" where
  "pipeunlock s =
     (let s = clr_flags {PIPE_LOCK} s
      in if PIPE_LWANT \<in> pp_flags s then pwakeup (clr_flags {PIPE_LWANT} s) else s)"

definition pipeselwakeup :: "pstate \<Rightarrow> pstate" where
  "pipeselwakeup s = (if PIPE_SEL \<in> pp_flags s then clr_flags {PIPE_SEL} s else s)"

text \<open>\<^verbatim>\<open>if (pipe_state & f) { pipe_state &= ~f; wakeup(pipe); }\<close>\<close>

definition wake_if :: "pflag \<Rightarrow> pstate \<Rightarrow> pstate" where
  "wake_if f s = (if f \<in> pp_flags s then pwakeup (clr_flags {f} s) else s)"

section \<open>Buffers\<close>

definition pipe_free_kmem :: "pstate \<Rightarrow> pstate" where
  "pipe_free_kmem s =
     s\<lparr>nbigpipe := (if pb_size (pp_buf s) > PIPE_SIZE then nbigpipe s - 1 else nbigpipe s), amountpipekva := amountpipekva s - int (pb_size (pp_buf s))\<rparr>"

text \<open>\<open>mem\<close> is the memory that \<^verbatim>\<open>uvm_km_valloc\<close> gives, if it does.\<close>

definition pipespace :: "(nat \<Rightarrow> u8) option \<Rightarrow> nat \<Rightarrow> pstate \<Rightarrow> errno option \<times> pstate" where
  "pipespace mem sz s =
     (case mem of None \<Rightarrow> (Some ENOMEM, s)
      | Some f \<Rightarrow>
          let s = pipe_free_kmem s
          in (None, s\<lparr>pp_buf := \<lparr>pb_cnt = 0, pb_in = 0, pb_out = 0, pb_size = sz, pb_buffer = f\<rparr>, amountpipekva := amountpipekva s + int sz\<rparr>))"

text \<open>A new pipe, when there is memory \<open>f\<close> for its buffer; there was no buffer to free.\<close>

definition pipe_create :: "(nat \<Rightarrow> u8) \<Rightarrow> int \<Rightarrow> int \<Rightarrow> pstate" where
  "pipe_create f nbig kva =
     \<lparr>pp_buf = \<lparr>pb_cnt = 0, pb_in = 0, pb_out = 0, pb_size = PIPE_SIZE, pb_buffer = f\<rparr>, pp_flags = {}, pp_busy = 0, pp_pgid = NO_PID, pp_linked = True, pp_freed = False,
       nbigpipe = nbig, amountpipekva = kva + int PIPE_SIZE, pp_queue = {}, pp_pc = \<lambda>t. Out None\<rparr>"

text \<open>The bytes from place \<open>k\<close> on, and writing there.\<close>

definition mem_get :: "nat \<Rightarrow> nat \<Rightarrow> (nat \<Rightarrow> u8) \<Rightarrow> u8 list" where
  "mem_get k n f = map f [k..<k + n]"

definition mem_put :: "nat \<Rightarrow> u8 list \<Rightarrow> (nat \<Rightarrow> u8) \<Rightarrow> nat \<Rightarrow> u8" where
  "mem_put k bs f i = (if k \<le> i \<and> i < k + length bs then bs ! (i - k) else f i)"

section \<open>Reading\<close>

text \<open>From \<^verbatim>\<open>unlocked_error\<close> on.\<close>

definition read_end :: "nat \<Rightarrow> errno option \<Rightarrow> pstate \<Rightarrow> pstate" where
  "read_end t error s =
     (let s = add_busy (- 1) s;
          s = (if pp_busy s = 0 \<and> PIPE_WANT \<in> pp_flags s then pwakeup (clr_flags {PIPE_WANT, PIPE_WANTW} s)
               else if pb_cnt (pp_buf s) < MINPIPESIZE then wake_if PIPE_WANTW s
               else s);
          s = (if pb_size (pp_buf s) - pb_cnt (pp_buf s) \<ge> PIPE_BUF then pipeselwakeup s else s)
      in pgoto t (Out error) s)"

definition pipe_read :: "nat \<Rightarrow> nat \<Rightarrow> bool \<Rightarrow> pstate \<Rightarrow> pstate" where
  "pipe_read t resid nb s = pipelock t (ReadLock resid nb) (\<lambda>s. pgoto t (ReadTop resid 0 nb) (add_busy 1 s)) s"

text \<open>The top of the loop, with the lock held.\<close>

definition read_top :: "nat \<Rightarrow> nat \<Rightarrow> nat \<Rightarrow> bool \<Rightarrow> pstate \<Rightarrow> pstate" where
  "read_top t resid nread nb s =
     (let b = pp_buf s
      in if resid = 0 then read_end t None (pipeunlock s)
         else if pb_cnt b > 0 then pgoto t (ReadCopy resid nread nb (min resid (min (pb_cnt b) (pb_size b - pb_out b)))) s
         else if PIPE_EOF \<in> pp_flags s then read_end t None (pipeunlock s)
         else
           let s = wake_if PIPE_WANTW s
           in if nread > 0 then read_end t None (pipeunlock s)
              else
                let s = pipeunlock s
                in if nb then read_end t (Some EAGAIN) s
                   else tsleep t (ReadSleep resid nb) (set_flag PIPE_WANTR s))"

definition read_relock :: "nat \<Rightarrow> nat \<Rightarrow> bool \<Rightarrow> pstate \<Rightarrow> pstate" where
  "read_relock t resid nb s = pipelock t (ReadRelock resid nb) (pgoto t (ReadTop resid 0 nb)) s"

text \<open>After \<^verbatim>\<open>uiomove\<close>.\<close>

definition read_copied :: "nat \<Rightarrow> nat \<Rightarrow> nat \<Rightarrow> bool \<Rightarrow> nat \<Rightarrow> pstate \<Rightarrow> pstep" where
  "read_copied t resid nread nb sz s =
     (let b = pp_buf s;
          out = (if pb_out b + sz \<ge> pb_size b then 0 else pb_out b + sz);
          cnt = pb_cnt b - sz;
          b' = (if cnt = 0 then b\<lparr>pb_cnt := 0, pb_in := 0, pb_out := 0\<rparr> else b\<lparr>pb_cnt := cnt, pb_out := out\<rparr>)
      in if pb_out b + sz \<le> pb_size b
         then Some (pgoto t (ReadTop (resid - sz) (nread + sz) nb) (s\<lparr>pp_buf := b'\<rparr>), Got (mem_get (pb_out b) sz (pb_buffer b)))
         else None)"

section \<open>Writing\<close>

definition early_error :: "nat \<Rightarrow> errno \<Rightarrow> pstate \<Rightarrow> pstate" where
  "early_error t e s =
     (let s = add_busy (- 1) s;
          s = (if pp_busy s = 0 \<and> PIPE_WANT \<in> pp_flags s then pwakeup (clr_flags {PIPE_WANT, PIPE_WANTR} s) else s)
      in pgoto t (Out (Some e)) s)"

text \<open>\<^verbatim>\<open>orig_resid\<close> is an \<^verbatim>\<open>int\<close>.\<close>

definition to_int :: "nat \<Rightarrow> int" where
  "to_int n = (int n + 2 ^ 31) mod 2 ^ 32 - 2 ^ 31"

definition write_loop :: "nat \<Rightarrow> u8 list \<Rightarrow> bool \<Rightarrow> pstate \<Rightarrow> pstate" where
  "write_loop t bs nb = pgoto t (WriteTop bs (to_int (length bs)) nb)"

definition pipe_write :: "nat \<Rightarrow> u8 list \<Rightarrow> bool \<Rightarrow> pstate \<Rightarrow> pstate" where
  "pipe_write t bs nb s =
     (if \<not> pp_linked s \<or> PIPE_EOF \<in> pp_flags s then pgoto t (Out (Some EPIPE)) s
      else
        let s = add_busy 1 s
        in if length bs > PIPE_SIZE \<and> nbigpipe s < LIMITBIGPIPES \<and> pb_size (pp_buf s) \<le> PIPE_SIZE \<and> pb_cnt (pp_buf s) = 0
           then pipelock t (WriteGrow bs nb) (pgoto t (WriteAlloc bs nb)) s
           else write_loop t bs nb s)"

definition write_alloc :: "nat \<Rightarrow> u8 list \<Rightarrow> bool \<Rightarrow> (nat \<Rightarrow> u8) option \<Rightarrow> pstate \<Rightarrow> pstate" where
  "write_alloc t bs nb mem s =
     (case pipespace mem BIG_PIPE_SIZE s of
        (None, s) \<Rightarrow> write_loop t bs nb (pipeunlock (s\<lparr>nbigpipe := nbigpipe s + 1\<rparr>))
      | (Some e, s) \<Rightarrow> write_loop t bs nb (pipeunlock s))"

text \<open>From the end of the loop on; \<open>bs\<close> are the bytes left.\<close>

definition write_end :: "nat \<Rightarrow> u8 list \<Rightarrow> errno option \<Rightarrow> pstate \<Rightarrow> pstate" where
  "write_end t bs error s =
     (let s = add_busy (- 1) s;
          s = (if pp_busy s = 0 \<and> PIPE_WANT \<in> pp_flags s then pwakeup (clr_flags {PIPE_WANT, PIPE_WANTR} s)
               else if pb_cnt (pp_buf s) > 0 then wake_if PIPE_WANTR s
               else s);
          error = (if pb_cnt (pp_buf s) = 0 \<and> bs = [] \<and> error = Some EPIPE then None else error);
          s = (if pb_cnt (pp_buf s) \<noteq> 0 then pipeselwakeup s else s)
      in pgoto t (Out error) s)"

text \<open>With the lock: the transfer begins, unless the space is not there any more.\<close>

definition write_locked :: "nat \<Rightarrow> u8 list \<Rightarrow> int \<Rightarrow> bool \<Rightarrow> nat \<Rightarrow> pstate \<Rightarrow> pstate" where
  "write_locked t bs orig nb space s =
     (let b = pp_buf s
      in if space > pb_size b - pb_cnt b then pgoto t (WriteTop bs orig nb) (pipeunlock s)
         else let sz = min space (length bs) in pgoto t (WriteCopy bs orig nb sz (min sz (pb_size b - pb_in b))) s)"

definition write_top :: "nat \<Rightarrow> u8 list \<Rightarrow> int \<Rightarrow> bool \<Rightarrow> pstate \<Rightarrow> pstate" where
  "write_top t bs orig nb s =
     (if bs = [] then write_end t bs None s
      else if PIPE_EOF \<in> pp_flags s then write_end t bs (Some EPIPE) s
      else
        let free = pb_size (pp_buf s) - pb_cnt (pp_buf s);
            space = (if free < length bs \<and> orig \<le> int PIPE_BUF then 0 else free)
        in if space > 0 then pipelock t (WriteLock bs orig nb space) (write_locked t bs orig nb space) s
           else
             let s = wake_if PIPE_WANTR s
             in if nb then write_end t bs (Some EAGAIN) s
                else tsleep t (WriteSleep bs orig nb) (set_flag PIPE_WANTW (pipeselwakeup s)))"

definition write_slept :: "nat \<Rightarrow> u8 list \<Rightarrow> int \<Rightarrow> bool \<Rightarrow> pstate \<Rightarrow> pstate" where
  "write_slept t bs orig nb s =
     (if PIPE_EOF \<in> pp_flags s then write_end t bs (Some EPIPE) s else pgoto t (WriteTop bs orig nb) s)"

text \<open>The one or two calls of \<^verbatim>\<open>uiomove\<close>, and the update of the buffer.\<close>

definition write_segs :: "u8 list \<Rightarrow> nat \<Rightarrow> nat \<Rightarrow> pipebuf \<Rightarrow> pipebuf option" where
  "write_segs bs sz seg b =
     (if pb_in b + seg > pb_size b then None
      else if seg < sz then
        if pb_in b + seg \<noteq> pb_size b \<or> sz - seg > pb_size b then None
        else Some (b\<lparr>pb_buffer := mem_put 0 (take (sz - seg) (drop seg bs)) (mem_put (pb_in b) (take seg bs) (pb_buffer b))\<rparr>)
      else Some (b\<lparr>pb_buffer := mem_put (pb_in b) (take seg bs) (pb_buffer b)\<rparr>))"

definition write_copied :: "nat \<Rightarrow> u8 list \<Rightarrow> int \<Rightarrow> bool \<Rightarrow> nat \<Rightarrow> nat \<Rightarrow> pstate \<Rightarrow> pstep" where
  "write_copied t bs orig nb sz seg s =
     Option.bind (write_segs bs sz seg (pp_buf s)) (\<lambda>b.
       let inp = pb_in b + sz
       in if inp \<ge> pb_size b \<and> inp \<noteq> sz - seg + pb_size b then None
          else
            let b = b\<lparr>pb_in := (if inp \<ge> pb_size b then sz - seg else inp), pb_cnt := pb_cnt b + sz\<rparr>
            in if pb_cnt b > pb_size b then None
               else Some (pgoto t (WriteTop (drop sz bs) orig nb) (pipeunlock (s\<lparr>pp_buf := b\<rparr>)), Put (take sz bs)))"

text \<open>A fault after \<open>k\<close> bytes: what has been copied lies behind the data of the pipe.\<close>

definition write_fault :: "nat \<Rightarrow> u8 list \<Rightarrow> nat \<Rightarrow> nat \<Rightarrow> nat \<Rightarrow> errno \<Rightarrow> pstate \<Rightarrow> pstep" where
  "write_fault t bs sz seg k e s =
     map_option (\<lambda>b. (write_end t (drop k bs) (Some e) (pipeunlock (s\<lparr>pp_buf := b\<rparr>)), Quiet)) (write_segs (take k bs) (min k sz) (min k seg) (pp_buf s))"

section \<open>Closing\<close>

definition close_loop :: "nat \<Rightarrow> pstate \<Rightarrow> pstate" where
  "close_loop t s =
     (if pp_busy s \<noteq> 0 then tsleep t CloseSleep (set_flag PIPE_WANT (pwakeup s))
      else pgoto t (Out None) ((pipe_free_kmem s)\<lparr>pp_linked := False, pp_freed := True\<rparr>))"

definition pipeclose :: "nat \<Rightarrow> pstate \<Rightarrow> pstate" where
  "pipeclose t s = close_loop t (set_flag PIPE_EOF (pipeselwakeup s))"

text \<open>What \<^verbatim>\<open>pipeclose\<close> of the other direction does to this one.\<close>

definition peer_closed :: "pstate \<Rightarrow> pstate" where
  "peer_closed s = pwakeup (set_flag PIPE_EOF (pipeselwakeup s))"

section \<open>Threads\<close>

text \<open>
  What may happen to a thread: a call begins, a thread runs on (with memory or without), data cannot be moved, a signal
  interrupts a sleep, the other direction is closed, and other pipes change the two counters of memory that all pipes share.
\<close>

datatype pevent = Read nat bool | Write "u8 list" bool | Close | Run | Memory "(nat \<Rightarrow> u8) option" | Fault nat errno | Signal errno | PeerClose | Others int int

fun reading :: "ppc \<Rightarrow> bool" where
  "reading (ReadLock r nb) = True"
| "reading (ReadTop r n nb) = True"
| "reading (ReadCopy r n nb sz) = True"
| "reading (ReadSleep r nb) = True"
| "reading (ReadRelock r nb) = True"
| "reading _ = False"

text \<open>
  A pipe is closed by \<^verbatim>\<open>closef\<close> when no call uses its file any more, so no thread reads from it then, nor starts to. A
  thread that sleeps can only be interrupted.
\<close>

definition pipe_can :: "nat \<Rightarrow> pevent \<Rightarrow> pstate \<Rightarrow> bool" where
  "pipe_can t e s =
     (case e of
        Read r nb \<Rightarrow> (\<exists>x. pp_pc s t = Out x) \<and> \<not> pp_freed s \<and> (\<forall>u. pp_pc s u \<noteq> CloseSleep)
      | Write bs nb \<Rightarrow> (\<exists>x. pp_pc s t = Out x)
      | Close \<Rightarrow> (\<exists>x. pp_pc s t = Out x) \<and> \<not> pp_freed s \<and> (\<forall>u. pp_pc s u \<noteq> CloseSleep \<and> \<not> reading (pp_pc s u))
      | PeerClose \<Rightarrow> (\<exists>x. pp_pc s t = Out x) \<and> \<not> pp_freed s
      | Others n k \<Rightarrow> \<exists>x. pp_pc s t = Out x
      | Run \<Rightarrow> t \<notin> pp_queue s \<and> (\<forall>x. pp_pc s t \<noteq> Out x) \<and> (\<forall>bs nb. pp_pc s t \<noteq> WriteAlloc bs nb)
      | Memory m \<Rightarrow> (\<exists>bs nb. pp_pc s t = WriteAlloc bs nb)
      | Fault k x \<Rightarrow> (case pp_pc s t of ReadCopy r n nb sz \<Rightarrow> k \<le> sz | WriteCopy bs orig nb sz seg \<Rightarrow> k \<le> sz | _ \<Rightarrow> False)
      | Signal x \<Rightarrow> t \<in> pp_queue s \<and> pp_pc s t \<noteq> CloseSleep)"

definition unqueue :: "nat \<Rightarrow> pstate \<Rightarrow> pstate" where
  "unqueue t s = s\<lparr>pp_queue := pp_queue s - {t}\<rparr>"

definition quiet :: "pstate \<Rightarrow> pstep" where
  "quiet s = Some (s, Quiet)"

definition pipe_run :: "nat \<Rightarrow> pstate \<Rightarrow> pstep" where
  "pipe_run t s =
     (case pp_pc s t of
        ReadLock r nb \<Rightarrow> quiet (pipe_read t r nb s)
      | ReadTop r n nb \<Rightarrow> quiet (read_top t r n nb s)
      | ReadCopy r n nb sz \<Rightarrow> read_copied t r n nb sz s
      | ReadSleep r nb \<Rightarrow> quiet (read_relock t r nb s)
      | ReadRelock r nb \<Rightarrow> quiet (read_relock t r nb s)
      | WriteGrow bs nb \<Rightarrow> quiet (pipelock t (WriteGrow bs nb) (pgoto t (WriteAlloc bs nb)) s)
      | WriteTop bs orig nb \<Rightarrow> quiet (write_top t bs orig nb s)
      | WriteLock bs orig nb space \<Rightarrow> quiet (pipelock t (WriteLock bs orig nb space) (write_locked t bs orig nb space) s)
      | WriteCopy bs orig nb sz seg \<Rightarrow> write_copied t bs orig nb sz seg s
      | WriteSleep bs orig nb \<Rightarrow> quiet (write_slept t bs orig nb s)
      | CloseSleep \<Rightarrow> quiet (close_loop t s)
      | _ \<Rightarrow> None)"

text \<open>A signal: the sleep returns an error.\<close>

definition pipe_signal :: "nat \<Rightarrow> errno \<Rightarrow> pstate \<Rightarrow> pstep" where
  "pipe_signal t x s =
     (let s = unqueue t s
      in case pp_pc s t of
        ReadLock r nb \<Rightarrow> quiet (pgoto t (Out (Some x)) s)
      | ReadSleep r nb \<Rightarrow> quiet (read_end t (Some x) s)
      | ReadRelock r nb \<Rightarrow> quiet (read_end t (Some x) s)
      | WriteGrow bs nb \<Rightarrow> quiet (early_error t x s)
      | WriteLock bs orig nb space \<Rightarrow> quiet (write_end t bs (Some x) s)
      | WriteSleep bs orig nb \<Rightarrow> quiet (write_end t bs (Some x) s)
      | _ \<Rightarrow> None)"

definition pipe_next :: "nat \<Rightarrow> pevent \<Rightarrow> pstate \<Rightarrow> pstep" where
  "pipe_next t e s =
     (case e of
        Read r nb \<Rightarrow> quiet (pipe_read t r nb s)
      | Write bs nb \<Rightarrow> quiet (pipe_write t bs nb s)
      | Close \<Rightarrow> quiet (pipeclose t s)
      | PeerClose \<Rightarrow> quiet (peer_closed s)
      | Others n k \<Rightarrow> quiet (s\<lparr>nbigpipe := n, amountpipekva := k\<rparr>)
      | Run \<Rightarrow> pipe_run t s
      | Memory m \<Rightarrow> (case pp_pc s t of WriteAlloc bs nb \<Rightarrow> quiet (write_alloc t bs nb m s) | _ \<Rightarrow> None)
      | Fault k x \<Rightarrow>
          (case pp_pc s t of
             ReadCopy r n nb sz \<Rightarrow> quiet (read_end t (Some x) (pipeunlock s))
           | WriteCopy bs orig nb sz seg \<Rightarrow> write_fault t bs sz seg k x s
           | _ \<Rightarrow> None)
      | Signal x \<Rightarrow> pipe_signal t x s)"

text \<open>The data in a pipe, and the steps that throw data away: memory for a larger buffer comes when the buffer is not empty any more.\<close>

definition pipe_data :: "pipebuf \<Rightarrow> u8 list" where
  "pipe_data b = map (\<lambda>i. pb_buffer b ((pb_out b + i) mod pb_size b)) [0..<pb_cnt b]"

definition loses :: "pevent \<Rightarrow> pstate \<Rightarrow> bool" where
  "loses e s = (case e of Memory (Some f) \<Rightarrow> pb_cnt (pp_buf s) > 0 | _ \<Rightarrow> False)"

text \<open>The states that can be reached, with the bytes put and taken so far, and whether data has been thrown away.\<close>

definition put_of :: "plabel \<Rightarrow> u8 list" where
  "put_of l = (case l of Put bs \<Rightarrow> bs | _ \<Rightarrow> [])"

definition got_of :: "plabel \<Rightarrow> u8 list" where
  "got_of l = (case l of Got bs \<Rightarrow> bs | _ \<Rightarrow> [])"

inductive pipe_reach :: "pstate \<Rightarrow> u8 list \<Rightarrow> u8 list \<Rightarrow> bool \<Rightarrow> bool" where
  init: "pipe_reach (pipe_create f nbig kva) [] [] False"
| step: "\<lbrakk>pipe_reach s w r d; pipe_can t e s; pipe_next t e s = Some (s', l)\<rbrakk> \<Longrightarrow> pipe_reach s' (w @ put_of l) (r @ got_of l) (d \<or> loses e s)"


section \<open>Polling, control and status\<close>

text \<open>
  \<^verbatim>\<open>pipe_poll\<close>, \<^verbatim>\<open>filt_piperead\<close> and \<^verbatim>\<open>filt_pipewrite\<close> look at the direction \<open>rp\<close> that the file reads from and at its peer \<open>wp\<close>, which the file writes to
  if it is still there; \<open>None\<close> as the result is an access through the null pointer. \<^verbatim>\<open>POLLWRNORM\<close> is \<^verbatim>\<open>POLLOUT\<close>.
\<close>

datatype pollev = POLLIN | POLLPRI | POLLOUT | POLLERR | POLLHUP | POLLNVAL | POLLRDNORM | POLLRDBAND | POLLWRBAND

definition peer_gone :: "pstate option \<Rightarrow> bool" where
  "peer_gone wp = (case wp of None \<Rightarrow> True | Some w \<Rightarrow> PIPE_EOF \<in> pp_flags w)"

definition pipe_poll :: "pollev set \<Rightarrow> pstate \<Rightarrow> pstate option \<Rightarrow> (pollev set \<times> pstate \<times> pstate option) option" where
  "pipe_poll events rp wp =
     (let revents = (if events \<inter> {POLLIN, POLLRDNORM} \<noteq> {} \<and> (pb_cnt (pp_buf rp) > 0 \<or> PIPE_EOF \<in> pp_flags rp) then events \<inter> {POLLIN, POLLRDNORM} else {});
          revents = (if PIPE_EOF \<in> pp_flags rp \<or> peer_gone wp then revents \<union> {POLLHUP}
                     else case wp of None \<Rightarrow> revents
                       | Some w \<Rightarrow>
                           if events \<inter> {POLLOUT} \<noteq> {} \<and> pb_size (pp_buf w) - pb_cnt (pp_buf w) \<ge> PIPE_BUF then revents \<union> (events \<inter> {POLLOUT}) else revents)
      in if revents = {} then
           let rp = (if events \<inter> {POLLIN, POLLRDNORM} \<noteq> {} then set_flag PIPE_SEL rp else rp)
           in if events \<inter> {POLLOUT} \<noteq> {} then (case wp of None \<Rightarrow> None | Some w \<Rightarrow> Some (revents, rp, Some (set_flag PIPE_SEL w)))
              else Some (revents, rp, wp)
         else Some (revents, rp, wp))"

text \<open>The filters: whether the event is there, \<^verbatim>\<open>kn_data\<close>, and whether \<^verbatim>\<open>EV_EOF\<close> is set.\<close>

definition filt_piperead :: "pstate \<Rightarrow> pstate option \<Rightarrow> bool \<times> nat \<times> bool" where
  "filt_piperead rp wp =
     (let kn_data = pb_cnt (pp_buf rp)
      in if PIPE_EOF \<in> pp_flags rp \<or> peer_gone wp then (True, kn_data, True) else (kn_data > 0, kn_data, False))"

definition filt_pipewrite :: "pstate option \<Rightarrow> bool \<times> nat \<times> bool" where
  "filt_pipewrite wp =
     (case wp of None \<Rightarrow> (True, 0, True)
      | Some w \<Rightarrow>
          if PIPE_EOF \<in> pp_flags w then (True, 0, True)
          else let kn_data = pb_size (pp_buf w) - pb_cnt (pp_buf w) in (kn_data \<ge> PIPE_BUF, kn_data, False))"

datatype pioctl = FIONBIO | FIOASYNC int | FIONREAD | SIOCSPGRP int | SIOCGPGRP | OtherIoctl

text \<open>The error, the number written back, and the pipe.\<close>

definition pipe_ioctl :: "pioctl \<Rightarrow> pstate \<Rightarrow> errno option \<times> int option \<times> pstate" where
  "pipe_ioctl cmd s =
     (case cmd of
        FIONBIO \<Rightarrow> (None, None, s)
      | FIOASYNC data \<Rightarrow> (None, None, if data \<noteq> 0 then set_flag PIPE_ASYNC s else clr_flags {PIPE_ASYNC} s)
      | FIONREAD \<Rightarrow> (None, Some (int (pb_cnt (pp_buf s))), s)
      | SIOCSPGRP data \<Rightarrow> (None, None, s\<lparr>pp_pgid := data\<rparr>)
      | SIOCGPGRP \<Rightarrow> (None, Some (pp_pgid s), s)
      | OtherIoctl \<Rightarrow> (Some ENOTTY, None, s))"

record pstat =
  st_mode :: nat
  st_blksize :: nat
  st_size :: nat
  st_blocks :: nat

definition pipe_stat :: "pstate \<Rightarrow> pstat" where
  "pipe_stat s =
     \<lparr>st_mode = 4096, st_blksize = pb_size (pp_buf s), st_size = pb_cnt (pp_buf s), st_blocks = (pb_cnt (pp_buf s) + pb_size (pp_buf s) - 1) div pb_size (pp_buf s)\<rparr>"

section \<open>Effects of the operations\<close>

named_theorems pipe_fields "what an operation does to one field"

lemma prim_fields [pipe_fields]:
  "pp_buf (set_flag f s) = pp_buf s" "pp_flags (set_flag f s) = insert f (pp_flags s)" "pp_busy (set_flag f s) = pp_busy s" "pp_queue (set_flag f s) = pp_queue s" "pp_pc (set_flag f s) = pp_pc s" "pp_linked (set_flag f s) = pp_linked s" "pp_freed (set_flag f s) = pp_freed s"
  "pp_buf (clr_flags fs s) = pp_buf s" "pp_flags (clr_flags fs s) = pp_flags s - fs" "pp_busy (clr_flags fs s) = pp_busy s" "pp_queue (clr_flags fs s) = pp_queue s" "pp_pc (clr_flags fs s) = pp_pc s" "pp_linked (clr_flags fs s) = pp_linked s" "pp_freed (clr_flags fs s) = pp_freed s"
  "pp_buf (pwakeup s) = pp_buf s" "pp_flags (pwakeup s) = pp_flags s" "pp_busy (pwakeup s) = pp_busy s" "pp_queue (pwakeup s) = {}" "pp_pc (pwakeup s) = pp_pc s" "pp_linked (pwakeup s) = pp_linked s" "pp_freed (pwakeup s) = pp_freed s"
  "pp_buf (pgoto t pc s) = pp_buf s" "pp_flags (pgoto t pc s) = pp_flags s" "pp_busy (pgoto t pc s) = pp_busy s" "pp_queue (pgoto t pc s) = pp_queue s" "pp_pc (pgoto t pc s) = (pp_pc s)(t := pc)" "pp_linked (pgoto t pc s) = pp_linked s" "pp_freed (pgoto t pc s) = pp_freed s"
  "pp_buf (tsleep t pc s) = pp_buf s" "pp_flags (tsleep t pc s) = pp_flags s" "pp_busy (tsleep t pc s) = pp_busy s" "pp_queue (tsleep t pc s) = insert t (pp_queue s)" "pp_pc (tsleep t pc s) = (pp_pc s)(t := pc)" "pp_linked (tsleep t pc s) = pp_linked s" "pp_freed (tsleep t pc s) = pp_freed s"
  "pp_buf (add_busy d s) = pp_buf s" "pp_flags (add_busy d s) = pp_flags s" "pp_busy (add_busy d s) = pp_busy s + d" "pp_queue (add_busy d s) = pp_queue s" "pp_pc (add_busy d s) = pp_pc s" "pp_linked (add_busy d s) = pp_linked s" "pp_freed (add_busy d s) = pp_freed s"
  "pp_buf (unqueue t s) = pp_buf s" "pp_flags (unqueue t s) = pp_flags s" "pp_busy (unqueue t s) = pp_busy s" "pp_queue (unqueue t s) = pp_queue s - {t}" "pp_pc (unqueue t s) = pp_pc s" "pp_linked (unqueue t s) = pp_linked s" "pp_freed (unqueue t s) = pp_freed s"
  "pp_buf (pipe_free_kmem s) = pp_buf s" "pp_flags (pipe_free_kmem s) = pp_flags s" "pp_busy (pipe_free_kmem s) = pp_busy s" "pp_queue (pipe_free_kmem s) = pp_queue s" "pp_pc (pipe_free_kmem s) = pp_pc s" "pp_linked (pipe_free_kmem s) = pp_linked s" "pp_freed (pipe_free_kmem s) = pp_freed s"
  by (simp_all add: set_flag_def clr_flags_def pwakeup_def pgoto_def tsleep_def add_busy_def unqueue_def pipe_free_kmem_def)

lemma unlock_fields [pipe_fields]:
  "pp_buf (pipeunlock s) = pp_buf s" "pp_flags (pipeunlock s) = pp_flags s - {PIPE_LOCK, PIPE_LWANT}" "pp_busy (pipeunlock s) = pp_busy s"
  "pp_queue (pipeunlock s) = (if PIPE_LWANT \<in> pp_flags s then {} else pp_queue s)" "pp_pc (pipeunlock s) = pp_pc s" "pp_linked (pipeunlock s) = pp_linked s" "pp_freed (pipeunlock s) = pp_freed s"
  by (auto simp: pipeunlock_def Let_def pipe_fields)

lemma sel_fields [pipe_fields]:
  "pp_buf (pipeselwakeup s) = pp_buf s" "pp_flags (pipeselwakeup s) = pp_flags s - {PIPE_SEL}" "pp_busy (pipeselwakeup s) = pp_busy s"
  "pp_queue (pipeselwakeup s) = pp_queue s" "pp_pc (pipeselwakeup s) = pp_pc s" "pp_linked (pipeselwakeup s) = pp_linked s" "pp_freed (pipeselwakeup s) = pp_freed s"
  by (auto simp: pipeselwakeup_def pipe_fields)

lemma wake_if_fields [pipe_fields]:
  "pp_buf (wake_if f s) = pp_buf s" "pp_flags (wake_if f s) = pp_flags s - {f}" "pp_busy (wake_if f s) = pp_busy s"
  "pp_queue (wake_if f s) = (if f \<in> pp_flags s then {} else pp_queue s)" "pp_pc (wake_if f s) = pp_pc s" "pp_linked (wake_if f s) = pp_linked s" "pp_freed (wake_if f s) = pp_freed s"
  by (auto simp: wake_if_def pipe_fields)

text \<open>The ends of the calls: which flags are gone, and when the sleepers are woken.\<close>

definition end_wakes :: "bool \<Rightarrow> pflag \<Rightarrow> pstate \<Rightarrow> bool" where
  "end_wakes c f s \<longleftrightarrow> pp_busy s = 1 \<and> PIPE_WANT \<in> pp_flags s \<or> c \<and> f \<in> pp_flags s"

definition end_flags :: "bool \<Rightarrow> pflag \<Rightarrow> pstate \<Rightarrow> pflag set" where
  "end_flags c f s = (if pp_busy s = 1 \<and> PIPE_WANT \<in> pp_flags s then pp_flags s - {PIPE_WANT, f} else if c then pp_flags s - {f} else pp_flags s)"

lemma read_end_fields [pipe_fields]:
  "pp_buf (read_end t x s) = pp_buf s" "pp_busy (read_end t x s) = pp_busy s - 1" "pp_pc (read_end t x s) = (pp_pc s)(t := Out x)"
  "pp_linked (read_end t x s) = pp_linked s" "pp_freed (read_end t x s) = pp_freed s"
  "f \<noteq> PIPE_SEL \<Longrightarrow> f \<in> pp_flags (read_end t x s) \<longleftrightarrow> f \<in> end_flags (pb_cnt (pp_buf s) < MINPIPESIZE) PIPE_WANTW s"
  "pp_queue (read_end t x s) = (if end_wakes (pb_cnt (pp_buf s) < MINPIPESIZE) PIPE_WANTW s then {} else pp_queue s)"
  by (auto simp: read_end_def Let_def pipe_fields end_wakes_def end_flags_def)

lemma write_end_fields [pipe_fields]:
  "pp_buf (write_end t bs x s) = pp_buf s" "pp_busy (write_end t bs x s) = pp_busy s - 1" "\<exists>y. pp_pc (write_end t bs x s) = (pp_pc s)(t := Out y)"
  "pp_linked (write_end t bs x s) = pp_linked s" "pp_freed (write_end t bs x s) = pp_freed s"
  "f \<noteq> PIPE_SEL \<Longrightarrow> f \<in> pp_flags (write_end t bs x s) \<longleftrightarrow> f \<in> end_flags (pb_cnt (pp_buf s) > 0) PIPE_WANTR s"
  "pp_queue (write_end t bs x s) = (if end_wakes (pb_cnt (pp_buf s) > 0) PIPE_WANTR s then {} else pp_queue s)"
  by (auto simp: write_end_def Let_def pipe_fields end_wakes_def end_flags_def)

lemma early_fields [pipe_fields]:
  "pp_buf (early_error t x s) = pp_buf s" "pp_busy (early_error t x s) = pp_busy s - 1" "pp_pc (early_error t x s) = (pp_pc s)(t := Out (Some x))"
  "pp_linked (early_error t x s) = pp_linked s" "pp_freed (early_error t x s) = pp_freed s"
  "pp_flags (early_error t x s) = end_flags False PIPE_WANTR s"
  "pp_queue (early_error t x s) = (if end_wakes False PIPE_WANTR s then {} else pp_queue s)"
  by (auto simp: early_error_def Let_def pipe_fields end_wakes_def end_flags_def)


section \<open>Invariant\<close>

text \<open>The threads that count as busy, hold the lock, wait for it, and are inside the main part of a read or a write.\<close>

fun busy_pc :: "ppc \<Rightarrow> bool" where
  "busy_pc (Out x) = False"
| "busy_pc (ReadLock r nb) = False"
| "busy_pc CloseSleep = False"
| "busy_pc _ = True"

fun holds :: "ppc \<Rightarrow> bool" where
  "holds (ReadTop r n nb) = True"
| "holds (ReadCopy r n nb sz) = True"
| "holds (WriteAlloc bs nb) = True"
| "holds (WriteCopy bs orig nb sz seg) = True"
| "holds _ = False"

fun lockwait :: "ppc \<Rightarrow> bool" where
  "lockwait (ReadLock r nb) = True"
| "lockwait (ReadRelock r nb) = True"
| "lockwait (WriteGrow bs nb) = True"
| "lockwait (WriteLock bs orig nb sp) = True"
| "lockwait _ = False"

fun rsleep :: "ppc \<Rightarrow> bool" where
  "rsleep (ReadSleep r nb) = True"
| "rsleep _ = False"

fun wsleep :: "ppc \<Rightarrow> bool" where
  "wsleep (WriteSleep bs orig nb) = True"
| "wsleep _ = False"

fun main_r :: "ppc \<Rightarrow> bool" where
  "main_r (ReadTop r n nb) = True"
| "main_r (ReadCopy r n nb sz) = True"
| "main_r (ReadSleep r nb) = True"
| "main_r (ReadRelock r nb) = True"
| "main_r _ = False"

fun main_w :: "ppc \<Rightarrow> bool" where
  "main_w (WriteTop bs orig nb) = True"
| "main_w (WriteLock bs orig nb sp) = True"
| "main_w (WriteCopy bs orig nb sz seg) = True"
| "main_w (WriteSleep bs orig nb) = True"
| "main_w _ = False"

text \<open>
  A small write (\<open>orig\<close> is its size, if that is less than \<open>2 ^ 31\<close>) has written nothing yet or everything.
\<close>

definition whole :: "u8 list \<Rightarrow> int \<Rightarrow> bool" where
  "whole bs orig \<longleftrightarrow> (orig \<le> int PIPE_BUF \<and> int (length bs) \<le> orig \<longrightarrow> bs = [] \<or> int (length bs) = orig)"

lemma to_int_less: "n < 2 ^ 31 \<Longrightarrow> to_int n = int n"
  by (simp add: to_int_def)

lemma whole_simps [simp]: "whole [] orig" "\<not> orig \<le> int PIPE_BUF \<Longrightarrow> whole bs orig" "whole bs (to_int (length bs))"
proof -
  show "whole bs (to_int (length bs))"
  proof (cases "length bs < 2 ^ 31")
    case False
    then have "to_int (length bs) < int (length bs)" by (simp add: to_int_def)
    then show ?thesis by (simp add: whole_def)
  qed (simp add: whole_def to_int_less)
qed (simp_all add: whole_def)

definition buf_ok :: "pipebuf \<Rightarrow> bool" where
  "buf_ok b \<longleftrightarrow> PIPE_SIZE \<le> pb_size b \<and> pb_cnt b \<le> pb_size b \<and> pb_out b < pb_size b \<and> pb_in b = (pb_out b + pb_cnt b) mod pb_size b"

fun ppc_ok :: "pipebuf \<Rightarrow> ppc \<Rightarrow> bool" where
  "ppc_ok b (ReadCopy r n nb sz) = (0 < sz \<and> sz \<le> pb_cnt b \<and> pb_out b + sz \<le> pb_size b)"
| "ppc_ok b (WriteTop bs orig nb) = whole bs orig"
| "ppc_ok b (WriteSleep bs orig nb) = whole bs orig"
| "ppc_ok b (WriteLock bs orig nb sp) = (whole bs orig \<and> bs \<noteq> [] \<and> 0 < sp \<and> (orig \<le> int PIPE_BUF \<longrightarrow> length bs \<le> sp))"
| "ppc_ok b (WriteCopy bs orig nb sz seg) =
     (whole bs orig \<and> 0 < sz \<and> sz \<le> length bs \<and> pb_cnt b + sz \<le> pb_size b \<and> seg = min sz (pb_size b - pb_in b) \<and> (orig \<le> int PIPE_BUF \<longrightarrow> sz = length bs))"
| "ppc_ok b _ = True"

text \<open>What is known of a sleeping thread.\<close>

definition asleep_ok :: "pstate \<Rightarrow> ppc \<Rightarrow> bool" where
  "asleep_ok s pc \<longleftrightarrow> (lockwait pc \<and> PIPE_LOCK \<in> pp_flags s \<and> PIPE_LWANT \<in> pp_flags s)
     \<or> (rsleep pc \<and> PIPE_WANTR \<in> pp_flags s \<and> PIPE_EOF \<notin> pp_flags s)
     \<or> (wsleep pc \<and> PIPE_WANTW \<in> pp_flags s \<and> PIPE_EOF \<notin> pp_flags s)
     \<or> (pc = CloseSleep \<and> PIPE_WANT \<in> pp_flags s \<and> pp_busy s \<noteq> 0)"

definition pipe_inv :: "pstate \<Rightarrow> bool" where
  "pipe_inv s \<longleftrightarrow> buf_ok (pp_buf s) \<and> (\<forall>t. ppc_ok (pp_buf s) (pp_pc s t))
     \<and> (PIPE_LOCK \<in> pp_flags s \<longleftrightarrow> (\<exists>t. holds (pp_pc s t))) \<and> (\<forall>t u. holds (pp_pc s t) \<and> holds (pp_pc s u) \<longrightarrow> t = u)
     \<and> finite {t. busy_pc (pp_pc s t)} \<and> pp_busy s = int (card {t. busy_pc (pp_pc s t)})
     \<and> (\<forall>t\<in>pp_queue s. asleep_ok s (pp_pc s t))
     \<and> (\<forall>t\<in>pp_queue s. \<forall>u\<in>pp_queue s. \<not> (rsleep (pp_pc s t) \<and> wsleep (pp_pc s u)))
     \<and> (\<forall>t\<in>pp_queue s. rsleep (pp_pc s t) \<and> 0 < pb_cnt (pp_buf s) \<longrightarrow> (\<exists>u. main_w (pp_pc s u)))
     \<and> (\<forall>u. pp_pc s u = CloseSleep \<longrightarrow> PIPE_EOF \<in> pp_flags s \<and> (\<forall>t. \<not> reading (pp_pc s t)) \<and> (\<forall>t. pp_pc s t = CloseSleep \<longrightarrow> t = u))
     \<and> (pp_freed s \<longrightarrow> (\<forall>t. \<exists>x. pp_pc s t = Out x)) \<and> (pp_linked s \<longleftrightarrow> \<not> pp_freed s)"

text \<open>The parts of a step of thread \<open>t\<close> to \<open>x\<close> that concern the lock, the other threads that stay asleep, and its own sleep.\<close>

lemma main_apart: "main_w pc \<Longrightarrow> \<not> main_r pc"
  by (cases pc) simp_all

definition locks :: "nat \<Rightarrow> ppc \<Rightarrow> pstate \<Rightarrow> pstate \<Rightarrow> bool" where
  "locks t x s s' \<longleftrightarrow> (if holds x then (holds (pp_pc s t) \<or> PIPE_LOCK \<notin> pp_flags s) \<and> PIPE_LOCK \<in> pp_flags s'
        else if holds (pp_pc s t) then PIPE_LOCK \<notin> pp_flags s' else PIPE_LOCK \<in> pp_flags s' \<longleftrightarrow> PIPE_LOCK \<in> pp_flags s)"

definition emptied :: "nat \<Rightarrow> pstate \<Rightarrow> pstate \<Rightarrow> bool" where
  "emptied t s s' \<longleftrightarrow> 0 < pb_cnt (pp_buf s) \<and> pb_cnt (pp_buf s') = 0 \<and> (\<exists>bs nb. pp_pc s t = WriteAlloc bs nb)"

definition keeps :: "nat \<Rightarrow> ppc \<Rightarrow> pstate \<Rightarrow> pstate \<Rightarrow> bool" where
  "keeps t x s s' \<longleftrightarrow> pp_queue s' - {t} \<subseteq> pp_queue s
          \<and> (PIPE_LOCK \<in> pp_flags s \<and> PIPE_LWANT \<in> pp_flags s \<longrightarrow> PIPE_LOCK \<in> pp_flags s' \<and> PIPE_LWANT \<in> pp_flags s')
          \<and> (PIPE_WANTR \<in> pp_flags s \<longrightarrow> PIPE_WANTR \<in> pp_flags s') \<and> (PIPE_WANTW \<in> pp_flags s \<longrightarrow> PIPE_WANTW \<in> pp_flags s')
          \<and> (PIPE_WANT \<in> pp_flags s \<and> pp_busy s \<noteq> 0 \<longrightarrow> PIPE_WANT \<in> pp_flags s' \<and> pp_busy s' \<noteq> 0)
          \<and> (PIPE_EOF \<in> pp_flags s' \<longrightarrow> PIPE_EOF \<in> pp_flags s)
          \<and> (0 < pb_cnt (pp_buf s') \<and> PIPE_WANTR \<in> pp_flags s \<longrightarrow> main_w x \<or> 0 < pb_cnt (pp_buf s) \<and> \<not> main_w (pp_pc s t))
          \<and> (pb_cnt (pp_buf s') < MINPIPESIZE \<and> PIPE_WANTW \<in> pp_flags s \<longrightarrow> main_r x \<or> pb_cnt (pp_buf s) < MINPIPESIZE \<and> \<not> main_r (pp_pc s t) \<or> emptied t s s')"

definition sleeps :: "nat \<Rightarrow> ppc \<Rightarrow> pstate \<Rightarrow> pstate \<Rightarrow> bool" where
  "sleeps t x s s' \<longleftrightarrow> asleep_ok s' x
          \<and> (rsleep x \<longrightarrow> pb_cnt (pp_buf s') = 0 \<and> (PIPE_WANTW \<in> pp_flags s \<longrightarrow> pp_queue s' \<subseteq> {t}))
          \<and> (wsleep x \<longrightarrow> (PIPE_WANTR \<in> pp_flags s \<longrightarrow> pp_queue s' \<subseteq> {t}))
          \<and> (\<forall>bs orig nb. x = WriteSleep bs orig nb \<and> int (length bs) \<le> orig \<longrightarrow> MINPIPESIZE \<le> pb_cnt (pp_buf s'))"

text \<open>The step of thread \<open>t\<close> to \<open>x\<close> as far as the invariant is concerned.\<close>

definition good_step :: "nat \<Rightarrow> ppc \<Rightarrow> pstate \<Rightarrow> pstate \<Rightarrow> bool" where
  "good_step t x s s' \<longleftrightarrow>
     pp_pc s' = (pp_pc s)(t := x) \<and> buf_ok (pp_buf s') \<and> ppc_ok (pp_buf s') x \<and> (pp_buf s' = pp_buf s \<or> holds (pp_pc s t))
     \<and> locks t x s s'
     \<and> pp_busy s' = pp_busy s - (if busy_pc (pp_pc s t) then 1 else 0) + (if busy_pc x then 1 else 0)
     \<and> (pp_queue s' - {t} \<noteq> {} \<longrightarrow> keeps t x s s')
     \<and> (t \<in> pp_queue s' \<longrightarrow> sleeps t x s s')
     \<and> (PIPE_EOF \<in> pp_flags s \<longrightarrow> PIPE_EOF \<in> pp_flags s')
     \<and> (reading x \<longrightarrow> reading (pp_pc s t) \<or> (\<forall>u. pp_pc s u \<noteq> CloseSleep))
     \<and> (x = CloseSleep \<longrightarrow> PIPE_EOF \<in> pp_flags s' \<and> (\<forall>u. \<not> reading (pp_pc s u)) \<and> (\<forall>u. u \<noteq> t \<longrightarrow> pp_pc s u \<noteq> CloseSleep))
     \<and> (pp_freed s' \<longrightarrow> (\<exists>y. x = Out y) \<and> (pp_freed s \<or> (\<forall>u. u \<noteq> t \<longrightarrow> (\<exists>y. pp_pc s u = Out y)))) \<and> (pp_linked s' \<longleftrightarrow> \<not> pp_freed s')"

lemma ppc_ok_other: "\<not> holds pc \<Longrightarrow> ppc_ok b pc = ppc_ok b' pc"
  by (cases pc) simp_all

lemma card_upd:
  assumes "finite {u. P (f u)}"
  shows "finite {u. P ((f(t := x)) u)}"
    and "int (card {u. P ((f(t := x)) u)}) = int (card {u. P (f u)}) - (if P (f t) then 1 else 0) + (if P x then 1 else 0)"
proof -
  have e: "{u. P ((f(t := x)) u)} = (if P x then insert t ({u. P (f u)} - {t}) else {u. P (f u)} - {t})" by auto
  then show "finite {u. P ((f(t := x)) u)}" using assms by simp
  have "card ({u. P (f u)} - {t}) = card {u. P (f u)} - (if P (f t) then 1 else 0)" using assms by simp
  moreover have "P (f t) \<Longrightarrow> 0 < card {u. P (f u)}" using assms by (auto simp: card_gt_0_iff)
  ultimately show "int (card {u. P ((f(t := x)) u)}) = int (card {u. P (f u)}) - (if P (f t) then 1 else 0) + (if P x then 1 else 0)"
    unfolding e using assms by (auto simp: of_nat_diff insert_absorb)
qed


lemma pipe_invD:
  assumes "pipe_inv s"
  shows "buf_ok (pp_buf s)" and "ppc_ok (pp_buf s) (pp_pc s t)" and "PIPE_LOCK \<in> pp_flags s \<longleftrightarrow> (\<exists>t. holds (pp_pc s t))"
    and "holds (pp_pc s t) \<Longrightarrow> holds (pp_pc s u) \<Longrightarrow> t = u" and "finite {t. busy_pc (pp_pc s t)}" and "pp_busy s = int (card {t. busy_pc (pp_pc s t)})"
    and "t \<in> pp_queue s \<Longrightarrow> asleep_ok s (pp_pc s t)" and "t \<in> pp_queue s \<Longrightarrow> u \<in> pp_queue s \<Longrightarrow> rsleep (pp_pc s t) \<Longrightarrow> \<not> wsleep (pp_pc s u)"
    and "t \<in> pp_queue s \<Longrightarrow> rsleep (pp_pc s t) \<Longrightarrow> 0 < pb_cnt (pp_buf s) \<Longrightarrow> \<exists>u. main_w (pp_pc s u)"
    and "pp_pc s u = CloseSleep \<Longrightarrow> PIPE_EOF \<in> pp_flags s" and "pp_pc s u = CloseSleep \<Longrightarrow> \<not> reading (pp_pc s t)" and "pp_pc s u = CloseSleep \<Longrightarrow> pp_pc s t = CloseSleep \<Longrightarrow> t = u"
    and "pp_freed s \<Longrightarrow> \<exists>x. pp_pc s t = Out x" and "pp_linked s \<longleftrightarrow> \<not> pp_freed s"
  using assms unfolding pipe_inv_def by blast+

lemma asleep_kinds:
  "asleep_ok s pc \<Longrightarrow> rsleep pc \<Longrightarrow> PIPE_WANTR \<in> pp_flags s" "asleep_ok s pc \<Longrightarrow> wsleep pc \<Longrightarrow> PIPE_WANTW \<in> pp_flags s"
  by (cases pc; simp add: asleep_ok_def)+

lemma inv_good:
  assumes inv: "pipe_inv s" and g: "good_step t x s s'"
  shows "pipe_inv s'"
proof -
  note I = pipe_invD [OF inv]
  have pc: "pp_pc s' = (pp_pc s)(t := x)" and b: "buf_ok (pp_buf s')" "ppc_ok (pp_buf s') x" "pp_buf s' = pp_buf s \<or> holds (pp_pc s t)"
    and lk: "locks t x s s'" and gq: "pp_queue s' - {t} \<noteq> {} \<longrightarrow> keeps t x s s'" "t \<in> pp_queue s' \<longrightarrow> sleeps t x s s'"
    and n: "pp_busy s' = pp_busy s - (if busy_pc (pp_pc s t) then 1 else 0) + (if busy_pc x then 1 else 0)"
    and e: "PIPE_EOF \<in> pp_flags s \<longrightarrow> PIPE_EOF \<in> pp_flags s'" "reading x \<longrightarrow> reading (pp_pc s t) \<or> (\<forall>u. pp_pc s u \<noteq> CloseSleep)"
      "x = CloseSleep \<longrightarrow> PIPE_EOF \<in> pp_flags s' \<and> (\<forall>u. \<not> reading (pp_pc s u)) \<and> (\<forall>u. u \<noteq> t \<longrightarrow> pp_pc s u \<noteq> CloseSleep)"
      "pp_freed s' \<longrightarrow> (\<exists>y. x = Out y) \<and> (pp_freed s \<or> (\<forall>u. u \<noteq> t \<longrightarrow> (\<exists>y. pp_pc s u = Out y)))" "pp_linked s' \<longleftrightarrow> \<not> pp_freed s'"
    using g unfolding good_step_def by - (elim conjE, assumption)+
  note l = lk [unfolded locks_def]
  have q: "u \<in> pp_queue s" "PIPE_LOCK \<in> pp_flags s \<Longrightarrow> PIPE_LWANT \<in> pp_flags s \<Longrightarrow> PIPE_LOCK \<in> pp_flags s' \<and> PIPE_LWANT \<in> pp_flags s'"
      "PIPE_WANTR \<in> pp_flags s \<Longrightarrow> PIPE_WANTR \<in> pp_flags s'" "PIPE_WANTW \<in> pp_flags s \<Longrightarrow> PIPE_WANTW \<in> pp_flags s'"
      "PIPE_WANT \<in> pp_flags s \<Longrightarrow> pp_busy s \<noteq> 0 \<Longrightarrow> PIPE_WANT \<in> pp_flags s' \<and> pp_busy s' \<noteq> 0" "PIPE_EOF \<in> pp_flags s' \<Longrightarrow> PIPE_EOF \<in> pp_flags s"
      "0 < pb_cnt (pp_buf s') \<Longrightarrow> PIPE_WANTR \<in> pp_flags s \<Longrightarrow> main_w x \<or> 0 < pb_cnt (pp_buf s) \<and> \<not> main_w (pp_pc s t)"
    if "u \<in> pp_queue s'" "u \<noteq> t" for u
  proof -
    have "pp_queue s' - {t} \<noteq> {}" using that by blast
    then have "keeps t x s s'" using gq(1) by (rule rev_mp)
    then show "u \<in> pp_queue s" "PIPE_LOCK \<in> pp_flags s \<Longrightarrow> PIPE_LWANT \<in> pp_flags s \<Longrightarrow> PIPE_LOCK \<in> pp_flags s' \<and> PIPE_LWANT \<in> pp_flags s'"
      "PIPE_WANTR \<in> pp_flags s \<Longrightarrow> PIPE_WANTR \<in> pp_flags s'" "PIPE_WANTW \<in> pp_flags s \<Longrightarrow> PIPE_WANTW \<in> pp_flags s'"
      "PIPE_WANT \<in> pp_flags s \<Longrightarrow> pp_busy s \<noteq> 0 \<Longrightarrow> PIPE_WANT \<in> pp_flags s' \<and> pp_busy s' \<noteq> 0" "PIPE_EOF \<in> pp_flags s' \<Longrightarrow> PIPE_EOF \<in> pp_flags s"
      "0 < pb_cnt (pp_buf s') \<Longrightarrow> PIPE_WANTR \<in> pp_flags s \<Longrightarrow> main_w x \<or> 0 < pb_cnt (pp_buf s) \<and> \<not> main_w (pp_pc s t)"
      using that unfolding keeps_def by blast+
  qed
  have qt: "asleep_ok s' x" "rsleep x \<Longrightarrow> pb_cnt (pp_buf s') = 0" "rsleep x \<Longrightarrow> PIPE_WANTW \<in> pp_flags s \<Longrightarrow> pp_queue s' \<subseteq> {t}"
      "wsleep x \<Longrightarrow> PIPE_WANTR \<in> pp_flags s \<Longrightarrow> pp_queue s' \<subseteq> {t}" if "t \<in> pp_queue s'"
  proof -
    have "sleeps t x s s'" using that gq(2) by (rule rev_mp)
    then show "asleep_ok s' x" "rsleep x \<Longrightarrow> pb_cnt (pp_buf s') = 0" "rsleep x \<Longrightarrow> PIPE_WANTW \<in> pp_flags s \<Longrightarrow> pp_queue s' \<subseteq> {t}"
      "wsleep x \<Longrightarrow> PIPE_WANTR \<in> pp_flags s \<Longrightarrow> pp_queue s' \<subseteq> {t}" unfolding sleeps_def by blast+
  qed
  have "\<forall>u. ppc_ok (pp_buf s') (pp_pc s' u)"
  proof
    fix u show "ppc_ok (pp_buf s') (pp_pc s' u)"
    proof (cases "u = t")
      case False
      have "pp_buf s' = pp_buf s \<or> \<not> holds (pp_pc s u)" using b(3) I(4) [of t u] False by blast
      then have "ppc_ok (pp_buf s') (pp_pc s u)" using I(2) [of u] ppc_ok_other [of "pp_pc s u" "pp_buf s" "pp_buf s'"] by auto
      then show ?thesis using False by (simp add: pc)
    qed (simp add: pc b)
  qed
  moreover have "PIPE_LOCK \<in> pp_flags s' \<longleftrightarrow> (\<exists>u. holds (pp_pc s' u))"
  proof (cases "holds x")
    case True
    then have "holds (pp_pc s' t)" by (simp add: pc)
    then show ?thesis using l True by auto
  next
    case False
    then have *: "(\<exists>u. holds (pp_pc s' u)) \<longleftrightarrow> (\<exists>u. u \<noteq> t \<and> holds (pp_pc s u))" by (auto simp: pc)
    show ?thesis
    proof (cases "holds (pp_pc s t)")
      case True
      then show ?thesis using * l False I(4) by metis
    next
      case F: False
      then have "(\<exists>u. u \<noteq> t \<and> holds (pp_pc s u)) \<longleftrightarrow> (\<exists>u. holds (pp_pc s u))" by metis
      then show ?thesis using * l False F I(3) by simp
    qed
  qed
  moreover have "\<forall>u v. holds (pp_pc s' u) \<and> holds (pp_pc s' v) \<longrightarrow> u = v"
  proof -
    have o: "\<not> holds (pp_pc s u)" if "holds x" "u \<noteq> t" for u using l that I(3) I(4) [of t u] by auto
    then show ?thesis using I(4) by (auto simp: pc split: if_splits)
  qed
  moreover have "finite {u. busy_pc (pp_pc s' u)}" "pp_busy s' = int (card {u. busy_pc (pp_pc s' u)})"
    using card_upd [of busy_pc "pp_pc s" t x, OF I(5)] I(6) n unfolding pc by auto
  moreover have "\<forall>u\<in>pp_queue s'. asleep_ok s' (pp_pc s' u)"
  proof
    fix u assume u: "u \<in> pp_queue s'"
    show "asleep_ok s' (pp_pc s' u)"
    proof (cases "u = t")
      case False
      have "asleep_ok s (pp_pc s u)" by (rule I(7) [OF q(1) [OF u False]])
      then show ?thesis using q(2-6) [OF u False] False unfolding pc asleep_ok_def fun_upd_other [OF False] by blast
    qed (use u qt pc in simp)
  qed
  moreover have "\<forall>u\<in>pp_queue s'. \<forall>v\<in>pp_queue s'. \<not> (rsleep (pp_pc s' u) \<and> wsleep (pp_pc s' v))"
  proof (intro ballI notI, elim conjE)
    fix u v assume u: "u \<in> pp_queue s'" and v: "v \<in> pp_queue s'" and r: "rsleep (pp_pc s' u)" and w: "wsleep (pp_pc s' v)"
    have "u \<noteq> v" using r w by (cases "pp_pc s' v") auto
    then consider "u = t" "v \<noteq> t" | "v = t" "u \<noteq> t" | "u \<noteq> t" "v \<noteq> t" by blast
    then show False
    proof cases
      case 1
      then have "PIPE_WANTW \<in> pp_flags s" using asleep_kinds(2) [OF I(7) [OF q(1) [OF v]]] w by (simp add: pc)
      then show False using qt(3) u v r 1 by (auto simp: pc)
    next
      case 2
      then have "PIPE_WANTR \<in> pp_flags s" using asleep_kinds(1) [OF I(7) [OF q(1) [OF u]]] r by (simp add: pc)
      then show False using qt(4) u v w 2 by (auto simp: pc)
    next
      case 3
      then show False using I(8) [OF q(1) [OF u] q(1) [OF v]] r w by (simp add: pc)
    qed
  qed
  moreover have "\<forall>u\<in>pp_queue s'. rsleep (pp_pc s' u) \<and> 0 < pb_cnt (pp_buf s') \<longrightarrow> (\<exists>v. main_w (pp_pc s' v))"
  proof (intro ballI impI, elim conjE)
    fix u assume u: "u \<in> pp_queue s'" and r: "rsleep (pp_pc s' u)" and c: "0 < pb_cnt (pp_buf s')"
    have ne: "u \<noteq> t" using qt(2) u r c by (auto simp: pc)
    then have ru: "rsleep (pp_pc s u)" using r by (simp add: pc)
    have "PIPE_WANTR \<in> pp_flags s" using asleep_kinds(1) [OF I(7) [OF q(1) [OF u ne]] ru] .
    from q(7) [OF u ne c this] show "\<exists>v. main_w (pp_pc s' v)"
    proof (elim disjE conjE)
      assume "main_w x"
      then show ?thesis by (auto simp: pc intro: exI [of _ t])
    next
      assume 2: "0 < pb_cnt (pp_buf s)" "\<not> main_w (pp_pc s t)"
      from I(9) [OF q(1) [OF u ne] ru 2(1)] obtain v where "main_w (pp_pc s v)" by blast
      then show ?thesis using 2(2) by (auto simp: pc intro: exI [of _ v])
    qed
  qed
  moreover have "\<forall>u. pp_pc s' u = CloseSleep \<longrightarrow> PIPE_EOF \<in> pp_flags s' \<and> (\<forall>v. \<not> reading (pp_pc s' v)) \<and> (\<forall>v. pp_pc s' v = CloseSleep \<longrightarrow> v = u)"
  proof (intro allI impI)
    fix u assume u: "pp_pc s' u = CloseSleep"
    show "PIPE_EOF \<in> pp_flags s' \<and> (\<forall>v. \<not> reading (pp_pc s' v)) \<and> (\<forall>v. pp_pc s' v = CloseSleep \<longrightarrow> v = u)"
    proof (cases "u = t")
      case True
      then have x: "x = CloseSleep" using u by (simp add: pc)
      then have "\<not> reading x" by simp
      then show ?thesis using e(3) x True by (auto simp: pc)
    next
      case False
      then have us: "pp_pc s u = CloseSleep" using u by (simp add: pc)
      have "\<not> reading x" using e(2) us I(11) [OF us, of t] by blast
      moreover have "x \<noteq> CloseSleep" using e(3) us False by blast
      ultimately show ?thesis using e(1) I(10) [OF us] I(11) [OF us] I(12) [OF us] by (simp add: pc)
    qed
  qed
  moreover have "pp_freed s' \<longrightarrow> (\<forall>u. \<exists>y. pp_pc s' u = Out y)" using e(4) I(13) by (auto simp: pc)
  ultimately show ?thesis unfolding pipe_inv_def using b(1) e(5) by blast
qed


section \<open>Steps keep the invariant\<close>

lemmas step_parts = good_step_def locks_def keeps_def emptied_def sleeps_def asleep_ok_def end_flags_def end_wakes_def

text \<open>What a thread that runs may use.\<close>

definition runs :: "nat \<Rightarrow> pstate \<Rightarrow> bool" where
  "runs t s \<longleftrightarrow> pipe_inv s \<and> t \<notin> pp_queue s \<and> (\<forall>x. pp_pc s t \<noteq> Out x)"

lemma runsD:
  assumes "runs t s"
  shows "buf_ok (pp_buf s)" and "ppc_ok (pp_buf s) (pp_pc s t)" and "t \<notin> pp_queue s" and "\<not> pp_freed s" and "pp_linked s" and "holds (pp_pc s t) \<Longrightarrow> PIPE_LOCK \<in> pp_flags s"
proof -
  have i: "pipe_inv s" and q: "t \<notin> pp_queue s" and o: "\<forall>x. pp_pc s t \<noteq> Out x" using assms by (simp_all add: runs_def)
  show "buf_ok (pp_buf s)" "ppc_ok (pp_buf s) (pp_pc s t)" "t \<notin> pp_queue s" using pipe_invD(1,2) [OF i] q by simp_all
  show f: "\<not> pp_freed s" using pipe_invD(13) [OF i, of t] o by blast
  show "pp_linked s" using f pipe_invD(14) [OF i] by simp
  show "PIPE_LOCK \<in> pp_flags s" if "holds (pp_pc s t)" using pipe_invD(3) [OF i] that by blast
qed

lemma good_read_top:
  assumes r: "runs t s" and pc: "pp_pc s t = ReadTop rs n nb"
  shows "\<exists>x. good_step t x s (read_top t rs n nb s)"
proof -
  note R = runsD [OF r, unfolded pc]
  let ?b = "pp_buf s" and ?s = "read_top t rs n nb s"
  consider (fin) "rs = 0" | (copy) "rs \<noteq> 0" "pb_cnt ?b \<noteq> 0" | (eof) "rs \<noteq> 0" "pb_cnt ?b = 0" "PIPE_EOF \<in> pp_flags s"
    | (some) "rs \<noteq> 0" "pb_cnt ?b = 0" "PIPE_EOF \<notin> pp_flags s" "n \<noteq> 0" | (again) "rs \<noteq> 0" "pb_cnt ?b = 0" "PIPE_EOF \<notin> pp_flags s" "n = 0" nb
    | (sleep) "rs \<noteq> 0" "pb_cnt ?b = 0" "PIPE_EOF \<notin> pp_flags s" "n = 0" "\<not> nb" by blast
  then show ?thesis
  proof cases
    case fin
    then have "good_step t (Out None) s ?s" using R pc by (auto simp: read_top_def step_parts pipe_fields)
    then show ?thesis ..
  next
    case copy
    let ?x = "ReadCopy rs n nb (min rs (min (pb_cnt ?b) (pb_size ?b - pb_out ?b)))"
    have "good_step t ?x s ?s" using copy R pc by (auto simp: read_top_def step_parts pipe_fields buf_ok_def Let_def)
    then show ?thesis ..
  next
    case eof
    then have "good_step t (Out None) s ?s" using R pc by (auto simp: read_top_def step_parts pipe_fields)
    then show ?thesis ..
  next
    case some
    then have "good_step t (Out None) s ?s" using R pc by (auto simp: read_top_def step_parts pipe_fields Let_def)
    then show ?thesis ..
  next
    case again
    then have "good_step t (Out (Some EAGAIN)) s ?s" using R pc by (auto simp: read_top_def step_parts pipe_fields Let_def)
    then show ?thesis ..
  next
    case sleep
    then have "good_step t (ReadSleep rs nb) s ?s" using R pc by (auto simp: read_top_def step_parts pipe_fields Let_def)
    then show ?thesis ..
  qed
qed


text \<open>Waiting for the lock: the thread sleeps, or goes on with it.\<close>

lemma good_pipelock:
  assumes i: "pipe_inv s" and t: "t \<notin> pp_queue s" and fr: "\<not> pp_freed s" and x: "lockwait x" "ppc_ok (pp_buf s) x"
    and p: "\<not> holds (pp_pc s t)" "busy_pc (pp_pc s t) = busy_pc x" "main_w (pp_pc s t) = main_w x" "main_r (pp_pc s t) = main_r x" "reading x \<longrightarrow> reading (pp_pc s t) \<or> (\<forall>u. pp_pc s u \<noteq> CloseSleep)"
    and k: "PIPE_LOCK \<notin> pp_flags s \<Longrightarrow> \<exists>y. good_step t y s (k (set_flag PIPE_LOCK s))"
  shows "\<exists>y. good_step t y s (pipelock t x k s)"
proof (cases "PIPE_LOCK \<in> pp_flags s")
  case True
  have nx: "\<not> holds x" "\<not> rsleep x" "\<not> wsleep x" "x \<noteq> CloseSleep" using x(1) by (cases x; simp)+
  have "good_step t x s (pipelock t x k s)" using True nx x p t fr pipe_invD(1,14) [OF i] by (auto simp: pipelock_def step_parts pipe_fields)
  then show ?thesis ..
next
  case False
  then show ?thesis using k by (simp add: pipelock_def)
qed

lemma busy_ge: "pipe_inv s \<Longrightarrow> 0 \<le> pp_busy s"
  by (simp add: pipe_invD(6))

lemma good_pipe_read:
  assumes i: "pipe_inv s" and t: "t \<notin> pp_queue s" and fr: "\<not> pp_freed s" and p: "pp_pc s t = ReadLock rs nb \<or> (\<exists>x. pp_pc s t = Out x) \<and> (\<forall>u. pp_pc s u \<noteq> CloseSleep)"
  shows "\<exists>x. good_step t x s (pipe_read t rs nb s)"
  unfolding pipe_read_def
proof (rule good_pipelock [OF i t fr])
  assume "PIPE_LOCK \<notin> pp_flags s"
  then have "good_step t (ReadTop rs 0 nb) s (pgoto t (ReadTop rs 0 nb) (add_busy 1 (set_flag PIPE_LOCK s)))"
    using p t fr pipe_invD(1,14) [OF i] busy_ge [OF i] by (auto simp: step_parts pipe_fields)
  then show "\<exists>y. good_step t y s (pgoto t (ReadTop rs 0 nb) (add_busy 1 (set_flag PIPE_LOCK s)))" ..
qed (use p in auto)

lemma good_read_relock:
  assumes r: "runs t s" and p: "pp_pc s t = ReadSleep rs nb \<or> pp_pc s t = ReadRelock rs nb"
  shows "\<exists>x. good_step t x s (read_relock t rs nb s)"
  unfolding read_relock_def
proof (rule good_pipelock)
  assume "PIPE_LOCK \<notin> pp_flags s"
  then have "good_step t (ReadTop rs 0 nb) s (pgoto t (ReadTop rs 0 nb) (set_flag PIPE_LOCK s))"
    using p runsD [OF r] by (auto simp: step_parts pipe_fields)
  then show "\<exists>y. good_step t y s (pgoto t (ReadTop rs 0 nb) (set_flag PIPE_LOCK s))" ..
qed (use p r runsD [OF r] in \<open>auto simp: runs_def\<close>)

lemma buf_ok_take:
  assumes b: "buf_ok b" and sz: "0 < sz" "sz \<le> pb_cnt b" "pb_out b + sz \<le> pb_size b"
  shows "buf_ok (if pb_cnt b - sz = 0 then b\<lparr>pb_cnt := 0, pb_in := 0, pb_out := 0\<rparr>
    else b\<lparr>pb_cnt := pb_cnt b - sz, pb_out := (if pb_out b + sz \<ge> pb_size b then 0 else pb_out b + sz)\<rparr>)"
proof -
  have e: "(pb_out b + sz + (pb_cnt b - sz)) mod pb_size b = (pb_out b + pb_cnt b) mod pb_size b" using sz(2) by simp
  moreover have "(pb_cnt b - sz) mod pb_size b = (pb_out b + pb_cnt b) mod pb_size b" if "pb_out b + sz = pb_size b"
  proof -
    have "pb_out b + pb_cnt b = pb_cnt b - sz + pb_size b" using that sz(2) by simp
    then show ?thesis by simp
  qed
  ultimately show ?thesis using b sz by (auto simp: buf_ok_def)
qed

lemma good_read_copied:
  assumes r: "runs t s" and pc: "pp_pc s t = ReadCopy rs n nb sz"
  shows "\<exists>s' bs x. read_copied t rs n nb sz s = Some (s', Got bs) \<and> good_step t x s s'"
proof -
  note R = runsD [OF r, unfolded pc]
  let ?b = "pp_buf s"
  define b' where "b' = (if pb_cnt ?b - sz = 0 then ?b\<lparr>pb_cnt := 0, pb_in := 0, pb_out := 0\<rparr>
    else ?b\<lparr>pb_cnt := pb_cnt ?b - sz, pb_out := (if pb_out ?b + sz \<ge> pb_size ?b then 0 else pb_out ?b + sz)\<rparr>)"
  have b: "buf_ok b'" unfolding b'_def using R(1,2) by (intro buf_ok_take) auto
  have c: "pb_cnt b' = pb_cnt ?b - sz" by (simp add: b'_def)
  have "good_step t (ReadTop (rs - sz) (n + sz) nb) s (pgoto t (ReadTop (rs - sz) (n + sz) nb) (s\<lparr>pp_buf := b'\<rparr>))"
    using R pc b c by (auto simp: step_parts pipe_fields)
  moreover have "read_copied t rs n nb sz s = Some (pgoto t (ReadTop (rs - sz) (n + sz) nb) (s\<lparr>pp_buf := b'\<rparr>), Got (mem_get (pb_out ?b) sz (pb_buffer ?b)))"
    using R(2) unfolding read_copied_def Let_def b'_def by simp
  ultimately show ?thesis by blast
qed

text \<open>The ends of the calls, after the sleep of a thread that does not hold the lock, and after the lock has been given back.\<close>

lemma unqueue_id: "t \<notin> pp_queue s \<Longrightarrow> unqueue t s = s"
  by (simp add: unqueue_def)

lemma busy_pos:
  assumes "pipe_inv s" "busy_pc (pp_pc s t)"
  shows "1 \<le> pp_busy s"
proof -
  have "{u. busy_pc (pp_pc s u)} \<noteq> {}" using assms(2) by blast
  then show ?thesis using pipe_invD(5,6) [OF assms(1)] by (simp add: card_gt_0_iff Suc_le_eq)
qed

lemma good_read_end:
  assumes i: "pipe_inv s" and p: "busy_pc (pp_pc s t)" "reading (pp_pc s t)"
    and s0: "\<not> holds (pp_pc s t) \<and> s0 = unqueue t s \<or> holds (pp_pc s t) \<and> t \<notin> pp_queue s \<and> s0 = pipeunlock s"
  shows "\<exists>x. good_step t x s (read_end t e s0)"
proof -
  have nw: "\<not> main_w (pp_pc s t)" using p(2) by (cases "pp_pc s t") simp_all
  have fr: "\<not> pp_freed s" using pipe_invD(13) [OF i, of t] p(1) by auto
  have "good_step t (Out e) s (read_end t e s0)"
    using s0
  proof (elim disjE conjE)
    assume "\<not> holds (pp_pc s t)" "s0 = unqueue t s"
    then show ?thesis using p nw fr pipe_invD(1,14) [OF i] busy_pos [OF i p(1)] by (auto simp: step_parts pipe_fields)
  next
    assume "holds (pp_pc s t)" "t \<notin> pp_queue s" "s0 = pipeunlock s"
    then show ?thesis using p nw fr pipe_invD(1,14) [OF i] busy_pos [OF i p(1)] by (auto simp: step_parts pipe_fields)
  qed
  then show ?thesis ..
qed

lemma good_write_end:
  assumes i: "pipe_inv s" and p: "busy_pc (pp_pc s t)" "\<not> holds (pp_pc s t)" "\<not> main_r (pp_pc s t)"
  shows "\<exists>x. good_step t x s (write_end t bs e (unqueue t s))"
proof -
  have fr: "\<not> pp_freed s" using pipe_invD(13) [OF i, of t] p(1) by auto
  obtain y where y: "pp_pc (write_end t bs e (unqueue t s)) = (pp_pc s)(t := Out y)" using write_end_fields(3) [of t bs e "unqueue t s"] by (auto simp: pipe_fields)
  have "good_step t (Out y) s (write_end t bs e (unqueue t s))"
    using p fr y pipe_invD(1,14) [OF i] busy_pos [OF i p(1)] by (auto simp: step_parts pipe_fields)
  then show ?thesis ..
qed

lemma good_write_end_locked:
  assumes i: "pipe_inv s" and p: "busy_pc (pp_pc s t)" "holds (pp_pc s t)" "\<not> main_r (pp_pc s t)" and t: "t \<notin> pp_queue s" and b: "buf_ok b" "pb_cnt b = pb_cnt (pp_buf s)"
  shows "\<exists>x. good_step t x s (write_end t bs e (pipeunlock (s\<lparr>pp_buf := b\<rparr>)))"
proof -
  let ?s = "s\<lparr>pp_buf := b\<rparr>"
  have fr: "\<not> pp_freed s" using pipe_invD(13) [OF i, of t] p(1) by auto
  obtain y where y: "pp_pc (write_end t bs e (pipeunlock ?s)) = (pp_pc s)(t := Out y)" using write_end_fields(3) [of t bs e "pipeunlock ?s"] by (auto simp: pipe_fields)
  have "good_step t (Out y) s (write_end t bs e (pipeunlock ?s))"
    using p t fr y b pipe_invD(1,14) [OF i] busy_pos [OF i p(1)] by (auto simp: step_parts pipe_fields)
  then show ?thesis ..
qed

lemma good_early_error:
  assumes i: "pipe_inv s" and p: "pp_pc s t = WriteGrow bs nb"
  shows "\<exists>x. good_step t x s (early_error t e (unqueue t s))"
proof -
  have fr: "\<not> pp_freed s" using pipe_invD(13) [OF i, of t] p by auto
  have "good_step t (Out (Some e)) s (early_error t e (unqueue t s))"
    using p fr pipe_invD(1,14) [OF i] busy_pos [OF i, of t] by (auto simp: step_parts pipe_fields)
  then show ?thesis ..
qed

text \<open>The steps of a writer.\<close>

lemma good_pipe_write:
  assumes i: "pipe_inv s" and t: "t \<notin> pp_queue s" and p: "\<exists>x. pp_pc s t = Out x"
  shows "\<exists>x. good_step t x s (pipe_write t bs nb s)"
proof (cases "\<not> pp_linked s \<or> PIPE_EOF \<in> pp_flags s")
  case True
  then have "good_step t (Out (Some EPIPE)) s (pipe_write t bs nb s)"
    using p t pipe_invD(1,13,14) [OF i] by (auto simp: pipe_write_def step_parts pipe_fields)
  then show ?thesis ..
next
  case False
  let ?g = "length bs > PIPE_SIZE \<and> nbigpipe s < LIMITBIGPIPES \<and> pb_size (pp_buf s) \<le> PIPE_SIZE \<and> pb_cnt (pp_buf s) = 0"
  have n: "nbigpipe (add_busy 1 s) = nbigpipe s" by (simp add: add_busy_def)
  note F = p t False pipe_invD(1,14) [OF i] busy_ge [OF i] n
  consider "\<not> ?g" | "?g" "PIPE_LOCK \<in> pp_flags s" | "?g" "PIPE_LOCK \<notin> pp_flags s" by blast
  then show ?thesis
  proof cases
    case 1
    then have "pipe_write t bs nb s = write_loop t bs nb (add_busy 1 s)" using False n by (auto simp: pipe_write_def Let_def pipe_fields)
    moreover have "good_step t (WriteTop bs (to_int (length bs)) nb) s (write_loop t bs nb (add_busy 1 s))"
      using F by (auto simp: write_loop_def step_parts pipe_fields)
    ultimately show ?thesis by auto
  next
    case 2
    then have "pipe_write t bs nb s = tsleep t (WriteGrow bs nb) (set_flag PIPE_LWANT (add_busy 1 s))" using False n by (simp add: pipe_write_def pipelock_def Let_def pipe_fields)
    moreover have "good_step t (WriteGrow bs nb) s (tsleep t (WriteGrow bs nb) (set_flag PIPE_LWANT (add_busy 1 s)))"
      using F 2 by (auto simp: step_parts pipe_fields)
    ultimately show ?thesis by auto
  next
    case 3
    then have "pipe_write t bs nb s = pgoto t (WriteAlloc bs nb) (set_flag PIPE_LOCK (add_busy 1 s))" using False n by (simp add: pipe_write_def pipelock_def Let_def pipe_fields)
    moreover have "good_step t (WriteAlloc bs nb) s (pgoto t (WriteAlloc bs nb) (set_flag PIPE_LOCK (add_busy 1 s)))"
      using F 3 by (auto simp: step_parts pipe_fields)
    ultimately show ?thesis by auto
  qed
qed

lemma good_write_grow:
  assumes r: "runs t s" and p: "pp_pc s t = WriteGrow bs nb"
  shows "\<exists>x. good_step t x s (pipelock t (WriteGrow bs nb) (pgoto t (WriteAlloc bs nb)) s)"
proof (rule good_pipelock)
  assume "PIPE_LOCK \<notin> pp_flags s"
  then have "good_step t (WriteAlloc bs nb) s (pgoto t (WriteAlloc bs nb) (set_flag PIPE_LOCK s))"
    using p runsD [OF r] by (auto simp: step_parts pipe_fields)
  then show "\<exists>y. good_step t y s (pgoto t (WriteAlloc bs nb) (set_flag PIPE_LOCK s))" ..
qed (use p r runsD [OF r] in \<open>auto simp: runs_def\<close>)

lemma good_write_alloc:
  assumes r: "runs t s" and p: "pp_pc s t = WriteAlloc bs nb"
  shows "\<exists>x. good_step t x s (write_alloc t bs nb m s)"
proof -
  note R = runsD [OF r, unfolded p]
  have "good_step t (WriteTop bs (to_int (length bs)) nb) s (write_alloc t bs nb m s)"
  proof (cases m)
    case None
    then show ?thesis using R p by (auto simp: write_alloc_def pipespace_def write_loop_def step_parts pipe_fields)
  next
    case (Some f)
    have "buf_ok \<lparr>pb_cnt = 0, pb_in = 0, pb_out = 0, pb_size = BIG_PIPE_SIZE, pb_buffer = f\<rparr>" by (simp add: buf_ok_def BIG_PIPE_SIZE_def PIPE_SIZE_def)
    then show ?thesis using R p Some by (auto simp: write_alloc_def pipespace_def write_loop_def Let_def step_parts pipe_fields)
  qed
  then show ?thesis ..
qed

lemma good_write_locked:
  assumes i: "pipe_inv s" and t: "t \<notin> pp_queue s" and fr: "\<not> pp_freed s" and l: "PIPE_LOCK \<notin> pp_flags s"
    and p: "main_w (pp_pc s t)" "\<not> holds (pp_pc s t)" and x: "bs \<noteq> []" "0 < sp" "orig \<le> int PIPE_BUF \<longrightarrow> length bs \<le> sp" "whole bs orig"
  shows "\<exists>y. good_step t y s (write_locked t bs orig nb sp (set_flag PIPE_LOCK s))"
proof -
  let ?b = "pp_buf s"
  have m: "busy_pc (pp_pc s t)" using p(1) by (cases "pp_pc s t") simp_all
  have lw: "\<not> lockwait (pp_pc s u)" if "u \<in> pp_queue s" for u using pipe_invD(7) [OF i that] l by (cases "pp_pc s u") (auto simp: asleep_ok_def)
  show ?thesis
  proof (cases "sp > pb_size ?b - pb_cnt ?b")
    case True
    then have "good_step t (WriteTop bs orig nb) s (write_locked t bs orig nb sp (set_flag PIPE_LOCK s))"
      using p main_apart [OF p(1)] m t fr l x(4) pipe_invD(1,14) [OF i] by (auto simp: write_locked_def Let_def step_parts pipe_fields)
    then show ?thesis ..
  next
    case False
    define sz where "sz = min sp (length bs)"
    define y where "y = WriteCopy bs orig nb sz (min sz (pb_size ?b - pb_in ?b))"
    have e: "write_locked t bs orig nb sp (set_flag PIPE_LOCK s) = pgoto t y (set_flag PIPE_LOCK s)"
      using False by (simp add: write_locked_def Let_def pipe_fields sz_def y_def)
    have "pb_cnt ?b \<le> pb_size ?b" using pipe_invD(1) [OF i] by (simp add: buf_ok_def)
    moreover have "0 < length bs" using x(1) by simp
    ultimately have "0 < sz" "sz \<le> length bs" "pb_cnt ?b + sz \<le> pb_size ?b" "orig \<le> int PIPE_BUF \<longrightarrow> sz = length bs"
      using False x by (auto simp: sz_def)
    then have k: "ppc_ok ?b y" using x(4) by (simp add: y_def)
    have y: "holds y" "busy_pc y" "main_w y" "\<not> reading y" "y \<noteq> CloseSleep" "\<And>z. y \<noteq> Out z" by (simp_all add: y_def)
    have "good_step t y s (pgoto t y (set_flag PIPE_LOCK s))"
      using p main_apart [OF p(1)] m t fr l y k pipe_invD(1,14) [OF i] by (auto simp: step_parts pipe_fields)
    then show ?thesis unfolding e ..
  qed
qed

lemma good_write_lock:
  assumes r: "runs t s" and p: "main_w (pp_pc s t)" "\<not> holds (pp_pc s t)"
    and x: "bs \<noteq> []" "0 < sp" "orig \<le> int PIPE_BUF \<longrightarrow> length bs \<le> sp" "whole bs orig"
  shows "\<exists>y. good_step t y s (pipelock t (WriteLock bs orig nb sp) (write_locked t bs orig nb sp) s)"
proof (rule good_pipelock)
  have i: "pipe_inv s" using r by (simp add: runs_def)
  show "pipe_inv s" by (rule i)
  show "\<exists>y. good_step t y s (write_locked t bs orig nb sp (set_flag PIPE_LOCK s))" if "PIPE_LOCK \<notin> pp_flags s"
    using good_write_locked [OF i runsD(3,4) [OF r] that p x] .
  show "busy_pc (pp_pc s t) = busy_pc (WriteLock bs orig nb sp)" using p(1) by (cases "pp_pc s t") simp_all
qed (use p main_apart [OF p(1)] x runsD [OF r] in auto)

lemma good_write_top:
  assumes r: "runs t s" and p: "pp_pc s t = WriteTop bs orig nb"
  shows "\<exists>x. good_step t x s (write_top t bs orig nb s)"
proof -
  note R = runsD [OF r, unfolded p]
  have i: "pipe_inv s" using r by (simp add: runs_def)
  define free where "free = pb_size (pp_buf s) - pb_cnt (pp_buf s)"
  define space where "space = (if free < length bs \<and> orig \<le> int PIPE_BUF then 0 else free)"
  have ws: "write_top t bs orig nb s =
     (if bs = [] then write_end t bs None s else if PIPE_EOF \<in> pp_flags s then write_end t bs (Some EPIPE) s
      else if space > 0 then pipelock t (WriteLock bs orig nb space) (write_locked t bs orig nb space) s
      else if nb then write_end t bs (Some EAGAIN) (wake_if PIPE_WANTR s) else tsleep t (WriteSleep bs orig nb) (set_flag PIPE_WANTW (pipeselwakeup (wake_if PIPE_WANTR s))))"
    unfolding write_top_def Let_def space_def free_def by (rule refl)
  have we: "\<exists>x. good_step t x s (write_end t bs e s)" for e
    using good_write_end [OF i, of t bs e] p unqueue_id [OF R(3)] by simp
  consider (none) "bs = []" | (eof) "bs \<noteq> []" "PIPE_EOF \<in> pp_flags s" | (room) "bs \<noteq> []" "PIPE_EOF \<notin> pp_flags s" "0 < space"
    | (full) "bs \<noteq> []" "PIPE_EOF \<notin> pp_flags s" "space = 0" by blast
  then show ?thesis
  proof cases
    case none
    then show ?thesis using we [of None] by (simp add: write_top_def)
  next
    case eof
    then show ?thesis using we [of "Some EPIPE"] by (simp add: write_top_def)
  next
    case room
    then have "write_top t bs orig nb s = pipelock t (WriteLock bs orig nb space) (write_locked t bs orig nb space) s" by (simp add: ws)
    then show ?thesis using good_write_lock [OF r _ _ room(1,3)] p room R(2) by (auto simp: space_def split: if_splits)
  next
    case full
    let ?s = "wake_if PIPE_WANTR s"
    have e: "write_top t bs orig nb s = (if nb then write_end t bs (Some EAGAIN) ?s else tsleep t (WriteSleep bs orig nb) (set_flag PIPE_WANTW (pipeselwakeup ?s)))"
      using full by (simp add: ws)
    show ?thesis
    proof (cases nb)
      case True
      obtain y where y: "pp_pc (write_end t bs (Some EAGAIN) ?s) = (pp_pc s)(t := Out y)" using write_end_fields(3) [of t bs "Some EAGAIN" ?s] by (auto simp: pipe_fields)
      have "good_step t (Out y) s (write_end t bs (Some EAGAIN) ?s)"
        using p R y busy_pos [OF i, of t] by (auto simp: step_parts pipe_fields)
      then show ?thesis using e True by auto
    next
      case False
      have "MINPIPESIZE \<le> pb_cnt (pp_buf s)" if "int (length bs) \<le> orig"
        using that full(3) R(1) by (auto simp: space_def free_def buf_ok_def MINPIPESIZE_def PIPE_SIZE_def PIPE_BUF_def split: if_splits)
      then have "good_step t (WriteSleep bs orig nb) s (tsleep t (WriteSleep bs orig nb) (set_flag PIPE_WANTW (pipeselwakeup ?s)))"
        using p R full(2) by (auto simp: step_parts pipe_fields)
      then show ?thesis using e False by auto
    qed
  qed
qed

lemma good_write_slept:
  assumes r: "runs t s" and p: "pp_pc s t = WriteSleep bs orig nb"
  shows "\<exists>x. good_step t x s (write_slept t bs orig nb s)"
proof -
  note R = runsD [OF r, unfolded p]
  have i: "pipe_inv s" using r by (simp add: runs_def)
  show ?thesis
  proof (cases "PIPE_EOF \<in> pp_flags s")
    case True
    then show ?thesis using good_write_end [OF i, of t bs "Some EPIPE"] p unqueue_id [OF R(3)] by (simp add: write_slept_def)
  next
    case False
    then have "good_step t (WriteTop bs orig nb) s (write_slept t bs orig nb s)"
      using p R by (auto simp: write_slept_def step_parts pipe_fields)
    then show ?thesis ..
  qed
qed

text \<open>Data goes into the free part of the buffer.\<close>

lemma write_segs_some:
  assumes "buf_ok b" "pb_cnt b + sz \<le> pb_size b" "seg = min sz (pb_size b - pb_in b)"
  shows "\<exists>f. write_segs bs sz seg b = Some (b\<lparr>pb_buffer := f\<rparr>)"
proof -
  have "pb_in b < pb_size b" using assms(1) by (auto simp: buf_ok_def)
  then show ?thesis using assms by (auto simp: write_segs_def)
qed

lemma write_in:
  assumes b: "buf_ok b" and sz: "pb_cnt b + sz \<le> pb_size b" "0 < sz" and seg: "seg = min sz (pb_size b - pb_in b)"
  shows "(if pb_in b + sz \<ge> pb_size b then sz - seg else pb_in b + sz) = (pb_out b + (pb_cnt b + sz)) mod pb_size b"
    and "pb_in b + sz \<ge> pb_size b \<Longrightarrow> pb_in b + sz = sz - seg + pb_size b"
proof -
  let ?n = "pb_size b"
  have n: "0 < ?n" and i: "pb_in b = (pb_out b + pb_cnt b) mod ?n" using b by (auto simp: buf_ok_def)
  have lt: "pb_in b < ?n" using i n by simp
  have m: "(pb_out b + (pb_cnt b + sz)) mod ?n = (pb_in b + sz) mod ?n" by (simp add: i mod_simps add.assoc)
  show "pb_in b + sz = sz - seg + ?n" if "pb_in b + sz \<ge> ?n" using that seg lt by simp
  have "(pb_in b + sz) mod ?n = (if pb_in b + sz \<ge> ?n then sz - seg else pb_in b + sz)"
  proof (cases "pb_in b + sz \<ge> ?n")
    case True
    then have "pb_in b + sz = sz - seg + ?n" "sz - seg < ?n" using seg lt sz by auto
    then show ?thesis using True by simp
  qed simp
  then show "(if pb_in b + sz \<ge> ?n then sz - seg else pb_in b + sz) = (pb_out b + (pb_cnt b + sz)) mod ?n" by (simp add: m)
qed

lemma write_copied_some:
  assumes b: "buf_ok (pp_buf s)" and k: "ppc_ok (pp_buf s) (WriteCopy bs orig nb sz seg)"
  shows "\<exists>f b'. write_segs bs sz seg (pp_buf s) = Some (pp_buf s\<lparr>pb_buffer := f\<rparr>)
    \<and> b' = pp_buf s\<lparr>pb_buffer := f, pb_in := (pb_out (pp_buf s) + (pb_cnt (pp_buf s) + sz)) mod pb_size (pp_buf s), pb_cnt := pb_cnt (pp_buf s) + sz\<rparr>
    \<and> buf_ok b' \<and> write_copied t bs orig nb sz seg s = Some (pgoto t (WriteTop (drop sz bs) orig nb) (pipeunlock (s\<lparr>pp_buf := b'\<rparr>)), Put (take sz bs))"
proof -
  let ?b = "pp_buf s"
  have sz: "0 < sz" "sz \<le> length bs" "pb_cnt ?b + sz \<le> pb_size ?b" "seg = min sz (pb_size ?b - pb_in ?b)" using k by auto
  obtain f where f: "write_segs bs sz seg ?b = Some (?b\<lparr>pb_buffer := f\<rparr>)" using write_segs_some [OF b sz(3,4)] by blast
  note W = write_in [OF b sz(3,1,4)]
  let ?b' = "?b\<lparr>pb_buffer := f, pb_in := (pb_out ?b + (pb_cnt ?b + sz)) mod pb_size ?b, pb_cnt := pb_cnt ?b + sz\<rparr>"
  have "buf_ok ?b'" using b sz by (simp add: buf_ok_def)
  moreover have "write_copied t bs orig nb sz seg s = Some (pgoto t (WriteTop (drop sz bs) orig nb) (pipeunlock (s\<lparr>pp_buf := ?b'\<rparr>)), Put (take sz bs))"
    using W sz(3) unfolding write_copied_def f bind.simps Let_def by (cases "pb_size ?b \<le> pb_in ?b + sz") simp_all
  ultimately show ?thesis using f by blast
qed

lemma good_write_copied:
  assumes r: "runs t s" and p: "pp_pc s t = WriteCopy bs orig nb sz seg"
  shows "\<exists>s' x. write_copied t bs orig nb sz seg s = Some (s', Put (take sz bs)) \<and> good_step t x s s'"
proof -
  note R = runsD [OF r, unfolded p]
  obtain f b' where b': "buf_ok b'" "pb_cnt b' = pb_cnt (pp_buf s) + sz" and e: "write_copied t bs orig nb sz seg s = Some (pgoto t (WriteTop (drop sz bs) orig nb) (pipeunlock (s\<lparr>pp_buf := b'\<rparr>)), Put (take sz bs))"
    using write_copied_some [OF R(1,2), of t] by auto
  have "good_step t (WriteTop (drop sz bs) orig nb) s (pgoto t (WriteTop (drop sz bs) orig nb) (pipeunlock (s\<lparr>pp_buf := b'\<rparr>)))"
    using R p b' by (auto simp: step_parts pipe_fields)
  then show ?thesis using e by blast
qed

lemma write_fault_some:
  assumes b: "buf_ok (pp_buf s)" and k: "ppc_ok (pp_buf s) (WriteCopy bs orig nb sz seg)" and j: "j \<le> sz"
  shows "\<exists>f. write_segs (take j bs) (min j sz) (min j seg) (pp_buf s) = Some (pp_buf s\<lparr>pb_buffer := f\<rparr>)"
proof -
  have "min j seg = min (min j sz) (pb_size (pp_buf s) - pb_in (pp_buf s))" using k j by auto
  then show ?thesis using write_segs_some [OF b, of "min j sz" "min j seg"] k j by auto
qed

lemma good_write_fault:
  assumes r: "runs t s" and p: "pp_pc s t = WriteCopy bs orig nb sz seg" and j: "j \<le> sz"
  shows "\<exists>s' x. write_fault t bs sz seg j e s = Some (s', Quiet) \<and> good_step t x s s'"
proof -
  note R = runsD [OF r, unfolded p]
  have i: "pipe_inv s" using r by (simp add: runs_def)
  obtain f where f: "write_segs (take j bs) (min j sz) (min j seg) (pp_buf s) = Some (pp_buf s\<lparr>pb_buffer := f\<rparr>)"
    using write_fault_some [OF R(1,2) j] by blast
  have "buf_ok (pp_buf s\<lparr>pb_buffer := f\<rparr>)" using R(1) by (simp add: buf_ok_def)
  then show ?thesis using good_write_end_locked [OF i _ _ _ R(3), of "pp_buf s\<lparr>pb_buffer := f\<rparr>" "drop j bs" "Some e"] p f by (simp add: write_fault_def)
qed

text \<open>Closing.\<close>

lemma good_close_loop:
  assumes i: "pipe_inv s" and t: "t \<notin> pp_queue s" and fr: "\<not> pp_freed s" and p: "\<not> holds (pp_pc s t)" "\<not> busy_pc (pp_pc s t)"
    and c: "\<forall>u. \<not> reading (pp_pc s u)" "\<forall>u. u \<noteq> t \<longrightarrow> pp_pc s u \<noteq> CloseSleep" and s0: "s0 = s \<and> PIPE_EOF \<in> pp_flags s \<or> s0 = set_flag PIPE_EOF (pipeselwakeup s)"
  shows "\<exists>x. good_step t x s (close_loop t s0)"
proof (cases "pp_busy s = 0")
  case False
  then have "good_step t CloseSleep s (close_loop t s0)" using s0 t fr p c pipe_invD(1,14) [OF i] by (auto simp: close_loop_def step_parts pipe_fields)
  then show ?thesis ..
next
  case True
  then have nb: "\<not> busy_pc (pp_pc s u)" for u using busy_pos [OF i, of u] by auto
  have o: "\<exists>y. pp_pc s u = Out y" if "u \<noteq> t" for u
    using nb [of u] spec [OF c(1), of u] spec [OF c(2), of u] that by (cases "pp_pc s u") simp_all
  have q: "u \<notin> pp_queue s" for u
  proof (cases "u = t")
    case False
    then show ?thesis using o [of u] pipe_invD(7) [OF i, of u] by (auto simp: asleep_ok_def)
  qed (use t in simp)
  then have "good_step t (Out None) s (close_loop t s0)" using s0 True t p c o pipe_invD(1,14) [OF i] by (auto simp: close_loop_def step_parts pipe_fields)
  then show ?thesis ..
qed

lemma good_peer_closed:
  assumes i: "pipe_inv s" and p: "\<exists>x. pp_pc s t = Out x" and fr: "\<not> pp_freed s"
  shows "good_step t (pp_pc s t) s (peer_closed s)"
  using p fr pipe_invD(1,14) [OF i] by (auto simp: peer_closed_def step_parts pipe_fields)

section \<open>Every step\<close>

lemma out_awake: "pipe_inv s \<Longrightarrow> pp_pc s t = Out x \<Longrightarrow> t \<notin> pp_queue s"
  using pipe_invD(7) [of s t] by (auto simp: asleep_ok_def)

lemma busy_free: "pipe_inv s \<Longrightarrow> \<forall>x. pp_pc s t \<noteq> Out x \<Longrightarrow> \<not> pp_freed s"
  using pipe_invD(13) [of s t] by blast

lemma holds_awake: "pipe_inv s \<Longrightarrow> holds (pp_pc s t) \<Longrightarrow> t \<notin> pp_queue s"
  using pipe_invD(7) [of s t] by (cases "pp_pc s t") (auto simp: asleep_ok_def)

definition safe_step :: "nat \<Rightarrow> pstate \<Rightarrow> pstep \<Rightarrow> bool" where
  "safe_step t s z \<longleftrightarrow> (\<exists>s' l x. z = Some (s', l) \<and> good_step t x s s')"

lemma safe_quiet [intro]: "\<exists>x. good_step t x s s' \<Longrightarrow> safe_step t s (quiet s')"
  by (auto simp: safe_step_def quiet_def)

lemma safe_run:
  assumes r: "runs t s" and a: "\<forall>bs nb. pp_pc s t \<noteq> WriteAlloc bs nb"
  shows "safe_step t s (pipe_run t s)"
proof -
  have i: "pipe_inv s" and o: "\<forall>x. pp_pc s t \<noteq> Out x" using r by (simp_all add: runs_def)
  note R = runsD [OF r]
  show ?thesis
  proof (cases "pp_pc s t")
    case (ReadCopy rs n nb sz)
    then show ?thesis using good_read_copied [OF r ReadCopy] by (auto simp: pipe_run_def safe_step_def)
  next
    case (WriteLock bs orig nb sp)
    then have "bs \<noteq> []" "0 < sp" "orig \<le> int PIPE_BUF \<longrightarrow> length bs \<le> sp" "whole bs orig" using R(2) by simp_all
    then show ?thesis using good_write_lock [OF r, of bs sp orig nb] WriteLock by (auto simp: pipe_run_def)
  next
    case (WriteCopy bs orig nb sz seg)
    then show ?thesis using good_write_copied [OF r WriteCopy] by (auto simp: pipe_run_def safe_step_def)
  next
    case CloseSleep
    have "\<exists>x. good_step t x s (close_loop t s)"
    proof (rule good_close_loop [OF i R(3,4)])
      show "\<forall>u. u \<noteq> t \<longrightarrow> pp_pc s u \<noteq> CloseSleep" using pipe_invD(12) [OF i CloseSleep] by blast
    qed (use CloseSleep pipe_invD(10,11) [OF i CloseSleep] in simp_all)
    then show ?thesis using CloseSleep by (auto simp: pipe_run_def)
  next
    case (ReadLock rs nb)
    then show ?thesis using good_pipe_read [OF i R(3,4), of rs nb] by (auto simp: pipe_run_def)
  next
    case (ReadTop rs n nb)
    then show ?thesis using good_read_top [OF r ReadTop] by (auto simp: pipe_run_def)
  next
    case (ReadSleep rs nb)
    then show ?thesis using good_read_relock [OF r, of rs nb] by (auto simp: pipe_run_def)
  next
    case (ReadRelock rs nb)
    then show ?thesis using good_read_relock [OF r, of rs nb] by (auto simp: pipe_run_def)
  next
    case (WriteGrow bs nb)
    then show ?thesis using good_write_grow [OF r WriteGrow] by (auto simp: pipe_run_def)
  next
    case (WriteTop bs orig nb)
    then show ?thesis using good_write_top [OF r WriteTop] by (auto simp: pipe_run_def)
  next
    case (WriteSleep bs orig nb)
    then show ?thesis using good_write_slept [OF r WriteSleep] by (auto simp: pipe_run_def)
  qed (use o a in simp_all)
qed

lemma safe_signal:
  assumes i: "pipe_inv s" and q: "t \<in> pp_queue s" "pp_pc s t \<noteq> CloseSleep"
  shows "safe_step t s (pipe_signal t e s)"
proof -
  have a: "asleep_ok s (pp_pc s t)" by (rule pipe_invD(7) [OF i q(1)])
  show ?thesis
  proof (cases "pp_pc s t")
    case (ReadLock rs nb)
    then have "good_step t (Out (Some e)) s (pgoto t (Out (Some e)) (unqueue t s))"
      using pipe_invD(1,14) [OF i] busy_free [OF i, of t] by (auto simp: step_parts pipe_fields)
    then show ?thesis using ReadLock by (auto simp: pipe_signal_def pipe_fields)
  qed (use a q good_read_end [OF i, of t "unqueue t s" "Some e"] good_early_error [OF i, of t _ _ e] good_write_end [OF i, of t _ "Some e"] in
      \<open>auto simp: asleep_ok_def pipe_signal_def pipe_fields\<close>)
qed

lemma safe_next:
  assumes i: "pipe_inv s" and c: "pipe_can t e s"
  shows "safe_step t s (pipe_next t e s)"
proof (cases e)
  case (Read rs nb)
  then show ?thesis using c good_pipe_read [OF i, of t rs nb] out_awake [OF i, of t] by (auto simp: pipe_can_def pipe_next_def)
next
  case (Write bs nb)
  then show ?thesis using c good_pipe_write [OF i, of t bs nb] out_awake [OF i, of t] by (auto simp: pipe_can_def pipe_next_def)
next
  case Close
  then show ?thesis using c good_close_loop [OF i, of t "set_flag PIPE_EOF (pipeselwakeup s)"] out_awake [OF i, of t]
    by (auto simp: pipe_can_def pipe_next_def pipeclose_def)
next
  case Run
  then show ?thesis using c i safe_run [of t s] by (auto simp: pipe_can_def pipe_next_def runs_def)
next
  case (Memory m)
  then obtain bs nb where p: "pp_pc s t = WriteAlloc bs nb" using c by (auto simp: pipe_can_def)
  then have "runs t s" using i holds_awake [OF i, of t] by (simp add: runs_def)
  then show ?thesis using good_write_alloc [OF _ p, of m] Memory p by (auto simp: pipe_next_def)
next
  case (Fault k x)
  show ?thesis
  proof (cases "pp_pc s t")
    case (ReadCopy rs n nb sz)
    then show ?thesis using Fault good_read_end [OF i, of t "pipeunlock s" "Some x"] holds_awake [OF i, of t] by (auto simp: pipe_next_def)
  next
    case (WriteCopy bs orig nb sz seg)
    then have "runs t s" using i holds_awake [OF i, of t] by (simp add: runs_def)
    then show ?thesis using Fault c WriteCopy good_write_fault [OF _ WriteCopy, of k x] by (auto simp: pipe_next_def pipe_can_def safe_step_def)
  qed (use Fault c in \<open>auto simp: pipe_can_def\<close>)
next
  case (Signal x)
  then show ?thesis using c safe_signal [OF i, of t x] by (auto simp: pipe_can_def pipe_next_def)
next
  case PeerClose
  then show ?thesis using c good_peer_closed [OF i, of t] by (auto simp: pipe_can_def pipe_next_def)
next
  case (Others n k)
  then have "good_step t (pp_pc s t) s (s\<lparr>nbigpipe := n, amountpipekva := k\<rparr>)"
    using c out_awake [OF i, of t] pipe_invD(1,13,14) [OF i] by (auto simp: pipe_can_def step_parts)
  then show ?thesis using Others by (auto simp: pipe_next_def)
qed

lemma next_inv:
  assumes "pipe_inv s" "pipe_can t e s"
  shows "\<exists>s' l. pipe_next t e s = Some (s', l) \<and> pipe_inv s'"
  using safe_next [OF assms] inv_good [OF assms(1)] by (auto simp: safe_step_def)

lemma init_inv: "pipe_inv (pipe_create f nbig kva)"
  by (simp add: pipe_create_def pipe_inv_def buf_ok_def PIPE_SIZE_def)

lemma reach_inv: "pipe_reach s w r d \<Longrightarrow> pipe_inv s"
proof (induction rule: pipe_reach.induct)
  case (init f nbig kva)
  then show ?case by (rule init_inv)
next
  case (step s w r d t e s' l)
  then show ?case using next_inv [OF step.IH step.hyps(2)] by auto
qed

end
