(* ===== verification/Pipe_Data.thy ===== *)
theory Pipe_Data
  imports Pipe
begin

text \<open>
  What pipes (theory \<open>Pipe\<close>) promise: the buffer is a queue of bytes, no step fails, no wakeup is lost, small writes are atomic, and \<^verbatim>\<open>pipe_poll\<close> agrees with the calls.
\<close>


section \<open>The pipe is a queue of bytes\<close>

lemma pipe_data_length [simp]: "length (pipe_data b) = pb_cnt b"
  by (simp add: pipe_data_def)

lemma pipe_data_nth: "i < pb_cnt b \<Longrightarrow> pipe_data b ! i = pb_buffer b ((pb_out b + i) mod pb_size b)"
  by (simp add: pipe_data_def)

text \<open>Taking from the front.\<close>

lemma take_data:
  assumes b: "buf_ok b" and sz: "0 < sz" "sz \<le> pb_cnt b" "pb_out b + sz \<le> pb_size b"
    and b': "b' = (if pb_cnt b - sz = 0 then b\<lparr>pb_cnt := 0, pb_in := 0, pb_out := 0\<rparr>
      else b\<lparr>pb_cnt := pb_cnt b - sz, pb_out := (if pb_out b + sz \<ge> pb_size b then 0 else pb_out b + sz)\<rparr>)"
  shows "pipe_data b = mem_get (pb_out b) sz (pb_buffer b) @ pipe_data b'"
proof (rule nth_equalityI)
  have l: "length (mem_get (pb_out b) sz (pb_buffer b)) = sz" by (simp add: mem_get_def)
  have c: "pb_cnt b' = pb_cnt b - sz" by (simp add: b')
  show "length (pipe_data b) = length (mem_get (pb_out b) sz (pb_buffer b) @ pipe_data b')" using sz by (simp add: l c)
  fix i assume i: "i < length (pipe_data b)"
  show "pipe_data b ! i = (mem_get (pb_out b) sz (pb_buffer b) @ pipe_data b') ! i"
  proof (cases "i < sz")
    case True
    then show ?thesis using i sz by (simp add: pipe_data_nth nth_append l) (simp add: mem_get_def)
  next
    case False
    then have ci: "pb_cnt b - sz \<noteq> 0" and le: "sz \<le> i" using i by auto
    have o: "pb_size b' = pb_size b" "pb_buffer b' = pb_buffer b" "pb_out b' = (if pb_out b + sz \<ge> pb_size b then 0 else pb_out b + sz)" using ci by (simp_all add: b')
    have "(pb_out b' + (i - sz)) mod pb_size b' = (pb_out b + i) mod pb_size b"
    proof (cases "pb_out b + sz \<ge> pb_size b")
      case True
      then have "pb_out b + i = i - sz + pb_size b" using sz le by simp
      then show ?thesis using True by (simp add: o)
    qed (use le o in simp)
    then show ?thesis using i False by (simp add: pipe_data_nth nth_append l c o)
  qed
qed

text \<open>Putting behind the end.\<close>

lemma segs_buffer:
  assumes w: "write_segs bs sz seg b = Some b'" and seg: "seg = min sz (pb_size b - pb_in b)" and sz: "sz \<le> length bs" "sz \<le> pb_size b" and lt: "pb_in b < pb_size b"
  shows "j < sz \<Longrightarrow> pb_buffer b' ((pb_in b + j) mod pb_size b) = bs ! j"
    and "(\<And>j. j < sz \<Longrightarrow> k \<noteq> (pb_in b + j) mod pb_size b) \<Longrightarrow> pb_buffer b' k = pb_buffer b k"
proof -
  let ?n = "pb_size b"
  have m: "(pb_in b + j) mod ?n = (if j < seg then pb_in b + j else j - seg)" if "j < sz" for j
  proof (cases "j < seg")
    case False
    define q where "q = j - seg"
    have "pb_in b + j = q + ?n" "q < ?n" using False that seg lt sz by (auto simp: q_def)
    then show ?thesis using False by (simp add: q_def [symmetric])
  next
    case True
    then have "pb_in b + j < ?n" using seg by linarith
    then show ?thesis using True by simp
  qed
  have e: "pb_buffer b' = (if seg < sz then mem_put 0 (take (sz - seg) (drop seg bs)) (mem_put (pb_in b) (take seg bs) (pb_buffer b)) else mem_put (pb_in b) (take seg bs) (pb_buffer b))"
    using w by (auto simp: write_segs_def split: if_splits)
  show "pb_buffer b' ((pb_in b + j) mod ?n) = bs ! j" if "j < sz"
    using that seg sz lt by (auto simp: m e mem_put_def min_def split: if_splits)
  show "pb_buffer b' k = pb_buffer b k" if h: "\<And>j. j < sz \<Longrightarrow> k \<noteq> (pb_in b + j) mod ?n"
  proof -
    have "k \<noteq> pb_in b + j" if "j < seg" for j using h [of j] m [of j] that seg by simp
    then have 1: "\<not> (pb_in b \<le> k \<and> k < pb_in b + seg)" by (metis le_Suc_ex nat_add_left_cancel_less)
    have "k \<noteq> j" if "j < sz - seg" for j using h [of "j + seg"] m [of "j + seg"] that by simp
    then have 2: "\<not> k < sz - seg" by blast
    show ?thesis using 1 2 sz seg by (auto simp: e mem_put_def)
  qed
qed

lemma mod_apart: "a < b \<Longrightarrow> b - a < n \<Longrightarrow> (c + a) mod n \<noteq> (c + b) mod (n :: nat)"
proof
  assume h: "a < b" "b - a < n" "(c + a) mod n = (c + b) mod n"
  then have "n dvd (c + b) - (c + a)" by (metis mod_eq_dvd_iff_nat nat_add_left_cancel_le less_imp_le)
  then show False using h by (auto dest: dvd_imp_le)
qed

lemma segs_keep:
  assumes w: "write_segs bs sz seg b = Some b'" and seg: "seg = min sz (pb_size b - pb_in b)" and sz: "sz \<le> length bs" "pb_cnt b + sz \<le> pb_size b" and b: "buf_ok b"
  shows "i < pb_cnt b \<Longrightarrow> pb_buffer b' ((pb_out b + i) mod pb_size b) = pb_buffer b ((pb_out b + i) mod pb_size b)"
    and "j < sz \<Longrightarrow> pb_buffer b' ((pb_out b + (pb_cnt b + j)) mod pb_size b) = bs ! j"
proof -
  have inp: "(pb_in b + j) mod pb_size b = (pb_out b + (pb_cnt b + j)) mod pb_size b" for j using b by (simp add: buf_ok_def mod_simps add.assoc)
  have lt: "pb_in b < pb_size b" and le: "sz \<le> pb_size b" using b sz by (auto simp: buf_ok_def)
  note S = segs_buffer [OF w seg sz(1) le lt, unfolded inp]
  show "pb_buffer b' ((pb_out b + (pb_cnt b + j)) mod pb_size b) = bs ! j" if "j < sz" by (rule S(1) [OF that])
  show "pb_buffer b' ((pb_out b + i) mod pb_size b) = pb_buffer b ((pb_out b + i) mod pb_size b)" if "i < pb_cnt b"
    using that sz by (intro S(2) mod_apart) auto
qed

lemma put_data:
  assumes w: "write_segs bs sz seg b = Some (b\<lparr>pb_buffer := f\<rparr>)" and seg: "seg = min sz (pb_size b - pb_in b)"
    and sz: "sz \<le> length bs" "pb_cnt b + sz \<le> pb_size b" and b: "buf_ok b"
  shows "pipe_data (b\<lparr>pb_buffer := f, pb_in := x, pb_cnt := pb_cnt b + sz\<rparr>) = pipe_data b @ take sz bs"
proof (rule nth_equalityI)
  note K = segs_keep [OF w seg sz b, simplified]
  let ?b = "b\<lparr>pb_buffer := f, pb_in := x, pb_cnt := pb_cnt b + sz\<rparr>"
  show "length (pipe_data ?b) = length (pipe_data b @ take sz bs)" using sz by simp
  fix i assume i: "i < length (pipe_data ?b)"
  show "pipe_data ?b ! i = (pipe_data b @ take sz bs) ! i"
  proof (cases "i < pb_cnt b")
    case True
    then show ?thesis using K(1) [OF True] by (simp add: pipe_data_nth nth_append)
  next
    case False
    then have "i - pb_cnt b < sz" using i by simp
    then show ?thesis using K(2) [of "i - pb_cnt b"] False i by (simp add: pipe_data_nth nth_append)
  qed
qed

lemma fault_data:
  assumes w: "write_segs bs sz seg b = Some (b\<lparr>pb_buffer := f\<rparr>)" and seg: "seg = min sz (pb_size b - pb_in b)"
    and sz: "sz \<le> length bs" "pb_cnt b + sz \<le> pb_size b" and b: "buf_ok b"
  shows "pipe_data (b\<lparr>pb_buffer := f\<rparr>) = pipe_data b"
  using segs_keep(1) [OF w seg sz b] by (auto simp: pipe_data_def)

text \<open>A step that moves no data leaves the data alone.\<close>

lemma lock_buf: "(\<And>s. pp_buf (k s) = pp_buf s) \<Longrightarrow> pp_buf (pipelock t pc k s) = pp_buf s"
  by (simp add: pipelock_def pipe_fields)

lemma locked_buf: "pp_buf (write_locked t bs orig nb sp s) = pp_buf s"
  by (simp add: write_locked_def Let_def pipe_fields)

lemma call_buf:
  "pp_buf (pipe_read t rs nb s) = pp_buf s" "pp_buf (read_top t rs n nb s) = pp_buf s" "pp_buf (read_relock t rs nb s) = pp_buf s"
  "pp_buf (pipe_write t bs nb s) = pp_buf s" "pp_buf (write_top t bs orig nb s) = pp_buf s" "pp_buf (write_slept t bs orig nb s) = pp_buf s"
  "pp_buf (close_loop t s) = pp_buf s" "pp_buf (pipeclose t s) = pp_buf s" "pp_buf (peer_closed s) = pp_buf s"
  by (simp_all add: pipe_read_def read_top_def read_relock_def pipe_write_def write_loop_def write_top_def write_slept_def close_loop_def pipeclose_def peer_closed_def
      Let_def lock_buf locked_buf pipe_fields)

text \<open>What a step does to the data.\<close>

definition queue_step :: "pstate \<Rightarrow> pstate \<Rightarrow> plabel \<Rightarrow> bool" where
  "queue_step s s' l \<longleftrightarrow> pipe_data (pp_buf s) @ put_of l = got_of l @ pipe_data (pp_buf s')"

lemma quiet_queue: "pp_buf s1 = pp_buf s \<Longrightarrow> quiet s1 = Some (s', l) \<Longrightarrow> queue_step s s' l"
  by (auto simp: quiet_def queue_step_def put_of_def got_of_def)

lemma run_queue:
  assumes i: "pipe_inv s" and e: "pipe_run t s = Some (s', l)"
  shows "queue_step s s' l"
proof (cases "pp_pc s t")
  case (ReadCopy rs n nb sz)
  have b: "buf_ok (pp_buf s)" "0 < sz" "sz \<le> pb_cnt (pp_buf s)" "pb_out (pp_buf s) + sz \<le> pb_size (pp_buf s)"
    using pipe_invD(1) [OF i] pipe_invD(2) [OF i, of t] ReadCopy by simp_all
  show ?thesis using e ReadCopy take_data [OF b refl] b(4)
    by (auto simp: pipe_run_def read_copied_def Let_def queue_step_def put_of_def got_of_def pipe_fields simp del: if_split)
next
  case (WriteCopy bs orig nb sz seg)
  let ?b = "pp_buf s"
  have b: "buf_ok ?b" and k: "ppc_ok ?b (WriteCopy bs orig nb sz seg)" using pipe_invD(1) [OF i] pipe_invD(2) [OF i, of t] WriteCopy by simp_all
  obtain f b' where f: "write_segs bs sz seg ?b = Some (?b\<lparr>pb_buffer := f\<rparr>)"
    and b': "b' = ?b\<lparr>pb_buffer := f, pb_in := (pb_out ?b + (pb_cnt ?b + sz)) mod pb_size ?b, pb_cnt := pb_cnt ?b + sz\<rparr>"
    and w: "write_copied t bs orig nb sz seg s = Some (pgoto t (WriteTop (drop sz bs) orig nb) (pipeunlock (s\<lparr>pp_buf := b'\<rparr>)), Put (take sz bs))"
    using write_copied_some [OF b k] by blast
  have "pipe_data b' = pipe_data ?b @ take sz bs" unfolding b' using k b by (intro put_data [OF f]) auto
  then show ?thesis using e w WriteCopy by (auto simp: pipe_run_def queue_step_def put_of_def got_of_def pipe_fields)
qed (use e in \<open>auto simp: pipe_run_def intro: quiet_queue [rotated] call_buf lock_buf locked_buf prim_fields\<close>)

lemma signal_queue: "pipe_signal t x s = Some (s', l) \<Longrightarrow> queue_step s s' l"
  by (auto simp: pipe_signal_def Let_def quiet_def queue_step_def put_of_def got_of_def pipe_fields split: ppc.splits)

lemma next_queue:
  assumes i: "pipe_inv s" and c: "pipe_can t e s" and n: "pipe_next t e s = Some (s', l)" and d: "\<not> loses e s"
  shows "queue_step s s' l"
proof (cases e)
  case (Memory m)
  then show ?thesis using n d
    by (auto simp: pipe_next_def quiet_def loses_def write_alloc_def write_loop_def pipespace_def Let_def queue_step_def put_of_def got_of_def pipe_data_def pipe_fields split: ppc.splits option.splits)
next
  case (Fault j x)
  show ?thesis
  proof (cases "pp_pc s t")
    case (WriteCopy bs orig nb sz seg)
    let ?b = "pp_buf s"
    have b: "buf_ok ?b" and k: "ppc_ok ?b (WriteCopy bs orig nb sz seg)" using pipe_invD(1) [OF i] pipe_invD(2) [OF i, of t] WriteCopy by simp_all
    have j: "j \<le> sz" using c Fault WriteCopy by (simp add: pipe_can_def)
    obtain f where f: "write_segs (take j bs) (min j sz) (min j seg) ?b = Some (?b\<lparr>pb_buffer := f\<rparr>)" using write_fault_some [OF b k j] by blast
    have "pipe_data (?b\<lparr>pb_buffer := f\<rparr>) = pipe_data ?b" using k j b by (intro fault_data [OF f]) auto
    then show ?thesis using n Fault WriteCopy f by (auto simp: pipe_next_def write_fault_def queue_step_def put_of_def got_of_def pipe_fields)
  qed (use n Fault in \<open>auto simp: pipe_next_def quiet_def queue_step_def put_of_def got_of_def pipe_fields\<close>)
next
  case Run
  then show ?thesis using n run_queue [OF i, of t] by (simp add: pipe_next_def)
next
  case (Signal x)
  then show ?thesis using n signal_queue by (simp add: pipe_next_def)
qed (use n in \<open>auto simp: pipe_next_def intro: quiet_queue [rotated] call_buf\<close>)

lemma reach_fifo: "pipe_reach s w r d \<Longrightarrow> \<not> d \<Longrightarrow> w = r @ pipe_data (pp_buf s)"
proof (induction rule: pipe_reach.induct)
  case (init f nbig kva)
  then show ?case by (simp add: pipe_create_def pipe_data_def)
next
  case (step s w r d t e s' l)
  then have "queue_step s s' l" using next_queue [OF reach_inv [OF step.hyps(1)] step.hyps(2,3)] by simp
  then show ?case using step by (simp add: queue_step_def)
qed

section \<open>Sleeping\<close>

text \<open>A writer that sleeps has filled the pipe, as far as readers are not just emptying it.\<close>

definition room_ok :: "pstate \<Rightarrow> bool" where
  "room_ok s \<longleftrightarrow> (\<forall>t\<in>pp_queue s. \<forall>bs orig nb. pp_pc s t = WriteSleep bs orig nb \<and> int (length bs) \<le> orig \<longrightarrow>
     MINPIPESIZE \<le> pb_cnt (pp_buf s) \<or> (\<exists>u. main_r (pp_pc s u)))"

lemma room_good:
  assumes i: "pipe_inv s" and r: "room_ok s" and g: "good_step t x s s'" and l: "\<not> emptied t s s'"
  shows "room_ok s'"
  unfolding room_ok_def
proof (intro ballI allI impI, elim conjE)
  fix u bs orig nb assume u: "u \<in> pp_queue s'" and p: "pp_pc s' u = WriteSleep bs orig nb" and o: "int (length bs) \<le> orig"
  have pc: "pp_pc s' = (pp_pc s)(t := x)" and k: "pp_queue s' - {t} \<noteq> {} \<longrightarrow> keeps t x s s'" and sl: "t \<in> pp_queue s' \<longrightarrow> sleeps t x s s'"
    using g by (simp_all add: good_step_def)
  show "MINPIPESIZE \<le> pb_cnt (pp_buf s') \<or> (\<exists>v. main_r (pp_pc s' v))"
  proof (cases "u = t")
    case True
    then show ?thesis using sl u p o by (auto simp: pc sleeps_def)
  next
    case False
    then have ps: "pp_pc s u = WriteSleep bs orig nb" using p by (simp add: pc)
    have K: "keeps t x s s'" using k u False by blast
    then have q: "u \<in> pp_queue s" using u False unfolding keeps_def by blast
    have "PIPE_WANTW \<in> pp_flags s" using asleep_kinds(2) [OF pipe_invD(7) [OF i q]] ps by simp
    then have "pb_cnt (pp_buf s') < MINPIPESIZE \<Longrightarrow> main_r x \<or> pb_cnt (pp_buf s) < MINPIPESIZE \<and> \<not> main_r (pp_pc s t)"
      using K l unfolding keeps_def by blast
    moreover have "MINPIPESIZE \<le> pb_cnt (pp_buf s) \<or> (\<exists>v. main_r (pp_pc s v))" using r q ps o unfolding room_ok_def by blast
    moreover have "main_r x \<Longrightarrow> \<exists>v. main_r (pp_pc s' v)" by (auto simp: pc intro: exI [of _ t])
    moreover have "main_r (pp_pc s v) \<Longrightarrow> \<not> main_r (pp_pc s t) \<Longrightarrow> \<exists>v. main_r (pp_pc s' v)" for v by (auto simp: pc intro: exI [of _ v])
    ultimately show ?thesis by (meson linorder_not_less)
  qed
qed

lemma emptied_loses:
  assumes n: "pipe_next t e s = Some (s', l)" and d: "\<not> loses e s" and c: "pipe_can t e s"
  shows "\<not> emptied t s s'"
proof
  assume x: "emptied t s s'"
  then obtain bs nb where p: "pp_pc s t = WriteAlloc bs nb" by (auto simp: emptied_def)
  then obtain m where m: "e = Memory m \<or> (\<exists>x. e = Signal x)" using c by (cases e) (auto simp: pipe_can_def)
  then show False using n d x p
    by (auto simp: pipe_next_def loses_def emptied_def write_alloc_def write_loop_def pipespace_def quiet_def pipe_signal_def Let_def pipe_fields split: option.splits)
qed

lemma reach_room: "pipe_reach s w r d \<Longrightarrow> \<not> d \<Longrightarrow> room_ok s"
proof (induction rule: pipe_reach.induct)
  case (init f nbig kva)
  then show ?case by (simp add: pipe_create_def room_ok_def)
next
  case (step s w r d t e s' l)
  have i: "pipe_inv s" by (rule reach_inv [OF step.hyps(1)])
  obtain x where "good_step t x s s'" using safe_next [OF i step.hyps(2)] step.hyps(3) by (auto simp: safe_step_def)
  then show ?case using room_good [OF i] emptied_loses [OF step.hyps(3) _ step.hyps(2)] step.IH step.prems by blast
qed

text \<open>When every thread inside a call sleeps.\<close>

definition all_asleep :: "pstate \<Rightarrow> bool" where
  "all_asleep s \<longleftrightarrow> (\<forall>t. t \<in> pp_queue s \<or> (\<exists>x. pp_pc s t = Out x))"

lemma asleep_cases:
  assumes i: "pipe_inv s" and a: "all_asleep s" and t: "t \<in> pp_queue s"
  shows "rsleep (pp_pc s t) \<or> wsleep (pp_pc s t)" and "PIPE_EOF \<notin> pp_flags s"
proof -
  have nl: "PIPE_LOCK \<notin> pp_flags s"
  proof
    assume "PIPE_LOCK \<in> pp_flags s"
    then obtain u where u: "holds (pp_pc s u)" using pipe_invD(3) [OF i] by blast
    then show False using a holds_awake [OF i u] by (auto simp: all_asleep_def)
  qed
  have k: "(rsleep (pp_pc s u) \<or> wsleep (pp_pc s u)) \<and> PIPE_EOF \<notin> pp_flags s \<or> pp_pc s u = CloseSleep \<and> pp_busy s \<noteq> 0" if "u \<in> pp_queue s" for u
    using pipe_invD(7) [OF i that] nl by (auto simp: asleep_ok_def)
  have nc: "pp_pc s u \<noteq> CloseSleep" if u: "u \<in> pp_queue s" for u
  proof
    assume c: "pp_pc s u = CloseSleep"
    then have "pp_busy s \<noteq> 0" and e: "PIPE_EOF \<in> pp_flags s" using k [OF u] pipe_invD(10) [OF i c] by auto
    then have "{v. busy_pc (pp_pc s v)} \<noteq> {}" using pipe_invD(6) [OF i] by (auto simp del: Collect_empty_eq)
    then obtain v where v: "busy_pc (pp_pc s v)" by blast
    then have "v \<in> pp_queue s" using a by (auto simp: all_asleep_def)
    then show False using k [of v] e v by auto
  qed
  show "rsleep (pp_pc s t) \<or> wsleep (pp_pc s t)" "PIPE_EOF \<notin> pp_flags s" using k [OF t] nc [OF t] by auto
qed

lemma asleep_read_empty:
  assumes i: "pipe_inv s" and a: "all_asleep s" and t: "t \<in> pp_queue s" "rsleep (pp_pc s t)"
  shows "pb_cnt (pp_buf s) = 0" and "u \<in> pp_queue s \<Longrightarrow> rsleep (pp_pc s u)"
proof -
  have w: "\<not> wsleep (pp_pc s u)" if "u \<in> pp_queue s" for u using pipe_invD(8) [OF i t(1) that t(2)] .
  show "rsleep (pp_pc s u)" if "u \<in> pp_queue s" using asleep_cases(1) [OF i a that] w [OF that] by blast
  show "pb_cnt (pp_buf s) = 0"
  proof (rule ccontr)
    assume "pb_cnt (pp_buf s) \<noteq> 0"
    then obtain u where u: "main_w (pp_pc s u)" using pipe_invD(9) [OF i t] by blast
    then have q: "u \<in> pp_queue s" using a by (auto simp: all_asleep_def)
    then show False using asleep_cases(1) [OF i a q] w [OF q] u by (cases "pp_pc s u") auto
  qed
qed

section \<open>Pipes are correct\<close>

text \<open>
  C30. In every state that threads can bring a pipe to, in whatever order they run, sleep, fault and are interrupted: the bytes written so far
  are the bytes read so far followed by the bytes in the pipe, in order, and the pipe never holds more than its size - unless a buffer has
  been replaced while it was not empty.
\<close>

theorem pipe_fifo:
  assumes "pipe_reach s w r d" and "\<not> d"
  shows "w = r @ pipe_data (pp_buf s) \<and> pb_cnt (pp_buf s) \<le> pb_size (pp_buf s)"
  using reach_fifo [OF assms] pipe_invD(1) [OF reach_inv [OF assms(1)]] by (simp add: buf_ok_def)

text \<open>
  C31. No step panics or touches memory outside of the buffer: whatever a thread can do next has a result, at most one thread is inside the
  locked part, and when the pipe has been given back no thread is inside any call on it.
\<close>

theorem pipe_never_panics:
  assumes "pipe_reach s w r d" and "pipe_can t e s"
  shows "(\<exists>s' l. pipe_next t e s = Some (s', l)) \<and> (\<forall>u v. holds (pp_pc s u) \<and> holds (pp_pc s v) \<longrightarrow> u = v)
    \<and> (pp_freed s \<longrightarrow> (\<forall>u. \<exists>x. pp_pc s u = Out x))"
proof -
  have i: "pipe_inv s" by (rule reach_inv [OF assms(1)])
  show ?thesis using next_inv [OF i assms(2)] pipe_invD(4,13) [OF i] by blast
qed

text \<open>
  C32. No wakeup is lost: when all threads inside calls sleep, nobody waits for the lock or to close, the pipe is open, and either all of them are
  readers and the pipe is empty, or all are writers, and then (if no buffer has been replaced while it was not empty) each writer whose size fits into an \<^verbatim>\<open>int\<close>
  has at least \<^verbatim>\<open>MINPIPESIZE\<close> bytes in the pipe before it.
\<close>

theorem pipe_not_stuck:
  assumes "pipe_reach s w r d" and "all_asleep s"
  shows "(pp_queue s \<noteq> {} \<longrightarrow> PIPE_EOF \<notin> pp_flags s)
    \<and> ((\<forall>t\<in>pp_queue s. rsleep (pp_pc s t)) \<and> (pp_queue s \<noteq> {} \<longrightarrow> pb_cnt (pp_buf s) = 0)
       \<or> (\<forall>t\<in>pp_queue s. wsleep (pp_pc s t))
         \<and> (\<forall>t\<in>pp_queue s. \<forall>bs orig nb. \<not> d \<and> pp_pc s t = WriteSleep bs orig nb \<and> int (length bs) \<le> orig \<longrightarrow> MINPIPESIZE \<le> pb_cnt (pp_buf s)))"
proof -
  have i: "pipe_inv s" by (rule reach_inv [OF assms(1)])
  note A = asleep_cases [OF i assms(2)]
  show ?thesis
  proof (cases "\<exists>t\<in>pp_queue s. rsleep (pp_pc s t)")
    case True
    then show ?thesis using asleep_read_empty [OF i assms(2)] A(2) by blast
  next
    case False
    then have w: "wsleep (pp_pc s t)" if "t \<in> pp_queue s" for t using A(1) that by blast
    have "MINPIPESIZE \<le> pb_cnt (pp_buf s)" if t: "t \<in> pp_queue s" "\<not> d" "pp_pc s t = WriteSleep bs orig nb" "int (length bs) \<le> orig" for t bs orig nb
    proof -
      have "\<not> main_r (pp_pc s u)" for u
      proof (cases "u \<in> pp_queue s")
        case True
        show ?thesis using w [OF True] by (cases "pp_pc s u") auto
      next
        case False
        then show ?thesis using assms(2) by (force simp: all_asleep_def)
      qed
      then show ?thesis using reach_room [OF assms(1) t(2)] t unfolding room_ok_def by blast
    qed
    then show ?thesis using w A(2) by blast
  qed
qed

text \<open>
  C33. A write of at most \<^verbatim>\<open>PIPE_BUF\<close> bytes is atomic: when it gets to move data, nothing of it has been written before, and one step puts all of its bytes into the pipe
  next to each other.
\<close>

theorem pipe_write_atomic:
  assumes "pipe_reach s w r d" and "pp_pc s t = WriteCopy bs orig nb sz seg" and "int (length bs) \<le> orig" and "orig \<le> int PIPE_BUF"
  shows "int (length bs) = orig \<and> (\<exists>s'. pipe_next t Run s = Some (s', Put bs) \<and> pp_pc s' t = WriteTop [] orig nb \<and> pipe_data (pp_buf s') = pipe_data (pp_buf s) @ bs)"
proof -
  have i: "pipe_inv s" by (rule reach_inv [OF assms(1)])
  have b: "buf_ok (pp_buf s)" and k: "ppc_ok (pp_buf s) (WriteCopy bs orig nb sz seg)" using pipe_invD(1) [OF i] pipe_invD(2) [OF i, of t] assms(2) by simp_all
  have sz: "sz = length bs" and o: "int (length bs) = orig" using k assms(3,4) by (auto simp: whole_def)
  obtain s' where s': "pipe_next t Run s = Some (s', Put bs)" "pp_pc s' t = WriteTop [] orig nb"
    using write_copied_some [OF b k, of t] assms(2) by (auto simp: pipe_next_def pipe_run_def sz pipe_fields)
  have "queue_step s s' (Put bs)" using run_queue [OF i, of t s' "Put bs"] s'(1) by (simp add: pipe_next_def)
  then show ?thesis using s' o by (auto simp: queue_step_def put_of_def got_of_def)
qed

text \<open>A pipe with one byte being written, and afterwards.\<close>

lemmas pipe_eval = pipe_can_def pipe_next_def pipe_run_def quiet_def pipe_write_def write_loop_def write_top_def write_locked_def pipelock_def pipe_read_def read_top_def
  PIPE_SIZE_def BIG_PIPE_SIZE_def PIPE_BUF_def to_int_def Let_def put_of_def got_of_def loses_def

lemma pipe_trace:
  obtains s s' where "pipe_reach s [] [] False" "pipe_next 0 Run s = Some (s', Put [7])" "pipe_reach s' [7] [] False"
    "pp_pc s = (\<lambda>t. Out None)(0 := WriteCopy [7] 1 False 1 1)" "pp_flags s = {PIPE_LOCK}" "pb_cnt (pp_buf s) = 0" "pb_size (pp_buf s) = PIPE_SIZE" "pp_queue s = {}"
    "nbigpipe s = 0" "pp_linked s" "\<not> pp_freed s" "pp_busy s = 1" "pb_in (pp_buf s) = 0"
proof -
  define s0 where "s0 = pipe_create (\<lambda>i. 0) 0 0"
  define s1 where "s1 = pgoto 0 (WriteTop [7] 1 False) (add_busy 1 s0)"
  define s2 where "s2 = pgoto 0 (WriteCopy [7] 1 False 1 1) (set_flag PIPE_LOCK s1)"
  have f0: "pp_buf s0 = \<lparr>pb_cnt = 0, pb_in = 0, pb_out = 0, pb_size = PIPE_SIZE, pb_buffer = \<lambda>i. 0\<rparr>" "pp_flags s0 = {}" "pp_linked s0" "\<not> pp_freed s0" "pp_pc s0 = (\<lambda>t. Out None)"
    "pp_queue s0 = {}" "nbigpipe s0 = 0" "pp_busy s0 = 0" by (simp_all add: s0_def pipe_create_def)
  have r0: "pipe_reach s0 [] [] False" unfolding s0_def by (rule pipe_reach.init)
  have n0: "pipe_can 0 (Write [7] False) s0" "pipe_next 0 (Write [7] False) s0 = Some (s1, Quiet)" using f0 by (simp_all add: pipe_eval s1_def pipe_fields)
  have r1: "pipe_reach s1 [] [] False" using pipe_reach.step [OF r0 n0] by (simp add: pipe_eval)
  have n1: "pipe_can 0 Run s1" "pipe_next 0 Run s1 = Some (s2, Quiet)" using f0 by (simp_all add: pipe_eval s1_def s2_def pipe_fields)
  have r2: "pipe_reach s2 [] [] False" using pipe_reach.step [OF r1 n1] by (simp add: pipe_eval)
  have f2: "pp_pc s2 = (\<lambda>t. Out None)(0 := WriteCopy [7] 1 False 1 1)" "pp_flags s2 = {PIPE_LOCK}" "pb_cnt (pp_buf s2) = 0" "pb_size (pp_buf s2) = PIPE_SIZE" "pp_queue s2 = {}"
    "nbigpipe s2 = 0" "pp_linked s2" "\<not> pp_freed s2" "pp_busy s2 = 1" "pb_in (pp_buf s2) = 0" using f0 by (simp_all add: s2_def s1_def pipe_fields) (simp_all add: pgoto_def set_flag_def add_busy_def f0)
  have c2: "pipe_can 0 Run s2" using f2 by (simp add: pipe_eval)
  obtain s3 where n2: "pipe_next 0 Run s2 = Some (s3, Put [7])" using f2 by (auto simp: pipe_eval write_copied_def write_segs_def)
  have "pipe_reach s3 [7] [] False" using pipe_reach.step [OF r2 c2 n2] by (simp add: pipe_eval)
  then show thesis using that [OF r2 n2] f2 by blast
qed

theorem pipe_fifo_witness: "\<exists>s. pipe_reach s [7] [] False \<and> pipe_data (pp_buf s) = [7]"
proof -
  obtain s s' where "pipe_reach s' [7] [] False" by (rule pipe_trace)
  then show ?thesis using pipe_fifo [of s' "[7]" "[]" False] by auto
qed

theorem pipe_never_panics_witness: "\<exists>s s' l. pipe_reach s [] [] False \<and> pipe_can 0 Run s \<and> pipe_next 0 Run s = Some (s', l)"
proof -
  obtain s s' where r: "pipe_reach s [] [] False" and p: "pp_pc s = (\<lambda>t. Out None)(0 := WriteCopy [7] 1 False 1 1)" "pp_queue s = {}" by (rule pipe_trace)
  have c: "pipe_can 0 Run s" using p by (simp add: pipe_can_def)
  show ?thesis using pipe_never_panics [OF r c] r c by blast
qed

theorem pipe_write_atomic_witness: "\<exists>s s' sz seg. pp_pc s 0 = WriteCopy [7] 1 False sz seg \<and> pipe_next 0 Run s = Some (s', Put [7]) \<and> pp_pc s' 0 = WriteTop [] 1 False"
proof -
  obtain s s' where r: "pipe_reach s [] [] False" and p: "pp_pc s = (\<lambda>t. Out None)(0 := WriteCopy [7] 1 False 1 1)" by (rule pipe_trace)
  have "pp_pc s 0 = WriteCopy [7] 1 False 1 1" by (simp add: p)
  then show ?thesis using pipe_write_atomic [OF r, of 0 "[7]" 1 False 1 1] by (auto simp: PIPE_BUF_def)
qed

theorem pipe_not_stuck_witness: "\<exists>s. pipe_reach s [] [] False \<and> all_asleep s \<and> pp_queue s = {0} \<and> pp_pc s 0 = ReadSleep 5 False \<and> PIPE_EOF \<notin> pp_flags s"
proof -
  define s0 where "s0 = pipe_create (\<lambda>i. 0) 0 0"
  define s1 where "s1 = pgoto 0 (ReadTop 5 0 False) (add_busy 1 (set_flag PIPE_LOCK s0))"
  define s2 where "s2 = tsleep 0 (ReadSleep 5 False) (set_flag PIPE_WANTR (pipeunlock (wake_if PIPE_WANTW s1)))"
  have f0: "pb_cnt (pp_buf s0) = 0" "pp_flags s0 = {}" "\<not> pp_freed s0" "pp_pc s0 = (\<lambda>t. Out None)" "pp_queue s0 = {}" by (simp_all add: s0_def pipe_create_def)
  have r0: "pipe_reach s0 [] [] False" unfolding s0_def by (rule pipe_reach.init)
  have n0: "pipe_can 0 (Read 5 False) s0" "pipe_next 0 (Read 5 False) s0 = Some (s1, Quiet)" using f0 by (simp_all add: pipe_eval s1_def)
  have r1: "pipe_reach s1 [] [] False" using pipe_reach.step [OF r0 n0] by (simp add: pipe_eval)
  have n1: "pipe_can 0 Run s1" "pipe_next 0 Run s1 = Some (s2, Quiet)" using f0 by (simp_all add: pipe_eval s1_def s2_def pipe_fields)
  have r2: "pipe_reach s2 [] [] False" using pipe_reach.step [OF r1 n1] by (simp add: pipe_eval)
  have f2: "pp_pc s2 = (\<lambda>t. Out None)(0 := ReadSleep 5 False)" "pp_queue s2 = {0}" using f0 by (simp_all add: s2_def s1_def pipe_fields)
  then have a: "all_asleep s2" by (simp add: all_asleep_def)
  show ?thesis using pipe_not_stuck [OF r2 a] r2 a f2 by auto
qed

text \<open>A nonblocking read or write that has the lock, and whether it has to come again.\<close>

definition again :: "nat \<Rightarrow> pstate \<Rightarrow> bool" where
  "again t s \<longleftrightarrow> pp_pc s t = Out (Some EAGAIN)"

lemma read_again: "0 < rs \<Longrightarrow> again t (read_top t rs 0 True s) \<longleftrightarrow> pb_cnt (pp_buf s) = 0 \<and> PIPE_EOF \<notin> pp_flags s"
  by (simp add: again_def read_top_def Let_def pipe_fields)

lemma write_end_again: "again t (write_end t bs (Some EAGAIN) s)" "\<not> again t (write_end t bs (Some EPIPE) s)"
  by (simp_all add: again_def write_end_def Let_def pipe_fields)

lemma lock_not_again:
  assumes "\<not> again t (k (set_flag PIPE_LOCK s))" "lockwait x"
  shows "\<not> again t (pipelock t x k s)"
  using assms by (auto simp: pipelock_def again_def pipe_fields)

lemma write_again:
  assumes bs: "0 < length bs" "length bs \<le> PIPE_BUF" and f: "PIPE_EOF \<notin> pp_flags s"
  shows "again t (write_top t bs (to_int (length bs)) True s) \<longleftrightarrow> pb_size (pp_buf s) - pb_cnt (pp_buf s) < length bs"
proof -
  have o: "to_int (length bs) = int (length bs)" using bs(2) by (intro to_int_less) (simp add: PIPE_BUF_def)
  have l: "\<not> again t (pipelock t (WriteLock bs orig True sp) (write_locked t bs orig True sp) s)" for orig sp
    by (rule lock_not_again) (auto simp: write_locked_def Let_def again_def pipe_fields)
  show ?thesis
  proof (cases "pb_size (pp_buf s) - pb_cnt (pp_buf s) < length bs")
    case True
    then show ?thesis using bs f by (simp add: o write_top_def Let_def write_end_again)
  next
    case False
    moreover have "bs \<noteq> []" "pb_size (pp_buf s) - pb_cnt (pp_buf s) \<noteq> 0" using bs False by auto
    ultimately show ?thesis using f l by (simp add: o write_top_def Let_def)
  qed
qed

text \<open>
  C34. \<^verbatim>\<open>pipe_poll\<close> does not follow a null pointer and tells the truth about what a nonblocking call would do: the file is readable exactly when a read would not
  fail with \<^verbatim>\<open>EAGAIN\<close>, and, unless an end is closed, writable exactly when no write of up to \<^verbatim>\<open>PIPE_BUF\<close> bytes would; \<^verbatim>\<open>POLLHUP\<close> excludes \<^verbatim>\<open>POLLOUT\<close> and is
  reported exactly when a direction is closed or gone; and if nothing is reported, each direction that was asked for is marked for a wakeup.
\<close>

theorem pipe_poll_correct:
  assumes "0 < rs"
  shows "\<exists>revents rp' wp'. pipe_poll events rp wp = Some (revents, rp', wp')
    \<and> (POLLIN \<in> events \<longrightarrow> (POLLIN \<in> revents \<longleftrightarrow> \<not> again t (read_top t rs 0 True rp)))
    \<and> (POLLHUP \<in> revents \<longleftrightarrow> PIPE_EOF \<in> pp_flags rp \<or> peer_gone wp) \<and> \<not> (POLLHUP \<in> revents \<and> POLLOUT \<in> revents)
    \<and> (POLLOUT \<in> events \<and> POLLHUP \<notin> revents \<longrightarrow>
        (\<exists>w. wp = Some w \<and> (POLLOUT \<in> revents \<longleftrightarrow> (\<forall>bs. 0 < length bs \<and> length bs \<le> PIPE_BUF \<longrightarrow> \<not> again t (write_top t bs (to_int (length bs)) True w)))))
    \<and> (revents = {} \<longrightarrow> (POLLIN \<in> events \<longrightarrow> PIPE_SEL \<in> pp_flags rp') \<and> (POLLOUT \<in> events \<longrightarrow> (\<exists>w. wp' = Some w \<and> PIPE_SEL \<in> pp_flags w)))"
proof (cases "PIPE_EOF \<in> pp_flags rp \<or> peer_gone wp")
  case True
  then show ?thesis using read_again [OF assms, of t rp] by (auto simp: pipe_poll_def Let_def)
next
  case False
  then obtain w where w: "wp = Some w" "PIPE_EOF \<notin> pp_flags w" by (auto simp: peer_gone_def split: option.splits)
  let ?free = "pb_size (pp_buf w) - pb_cnt (pp_buf w)"
  have "?free \<ge> PIPE_BUF \<longleftrightarrow> (\<forall>bs :: u8 list. 0 < length bs \<and> length bs \<le> PIPE_BUF \<longrightarrow> \<not> again t (write_top t bs (to_int (length bs)) True w))"
  proof
    assume "\<forall>bs :: u8 list. 0 < length bs \<and> length bs \<le> PIPE_BUF \<longrightarrow> \<not> again t (write_top t bs (to_int (length bs)) True w)"
    from spec [OF this, of "replicate PIPE_BUF 0"] show "?free \<ge> PIPE_BUF"
      using write_again [of "replicate PIPE_BUF 0" w t] w(2) by (simp add: PIPE_BUF_def)
  qed (use write_again [of _ w t] w(2) in \<open>auto simp: not_less intro: le_trans\<close>)
  note W = this
  show ?thesis
  proof (cases "POLLOUT \<in> events")
    case True
    then show ?thesis unfolding w(1) option.inject ex_simps simp_thms W [symmetric]
      using False read_again [OF assms, of t rp] w by (auto simp: pipe_poll_def Let_def pipe_fields)
  next
    case F: False
    then show ?thesis using False read_again [OF assms, of t rp] w by (auto simp: pipe_poll_def Let_def pipe_fields)
  qed
qed

theorem pipe_poll_witness: "\<exists>revents rp wp. pipe_poll {POLLIN, POLLOUT} (pipe_create (\<lambda>i. 0) 0 0) None = Some (revents, rp, wp) \<and> POLLHUP \<in> revents \<and> POLLIN \<notin> revents"
  using pipe_poll_correct [of 1 "{POLLIN, POLLOUT}" "pipe_create (\<lambda>i. 0) 0 0" None 0] read_again [of 1 0 "pipe_create (\<lambda>i. 0) 0 0"]
  by (auto simp: peer_gone_def pipe_create_def)

text \<open>The filters agree with \<^verbatim>\<open>pipe_poll\<close>.\<close>

lemma filt_piperead_poll: "fst (filt_piperead rp wp) \<longleftrightarrow> (\<exists>revents rp' wp'. pipe_poll {POLLIN} rp wp = Some (revents, rp', wp') \<and> revents \<noteq> {})"
  by (auto simp: filt_piperead_def pipe_poll_def peer_gone_def Let_def split: option.splits)

lemma filt_pipewrite_poll:
  "PIPE_EOF \<notin> pp_flags rp \<Longrightarrow> fst (filt_pipewrite wp) \<longleftrightarrow> (\<exists>revents rp' wp'. pipe_poll {POLLOUT} rp wp = Some (revents, rp', wp') \<and> revents \<noteq> {})"
  by (auto simp: filt_pipewrite_def pipe_poll_def peer_gone_def Let_def split: option.splits)

section \<open>Two defects\<close>

text \<open>
  A large write replaces the buffer when it saw an empty pipe before it waited for the lock; what the owner of the lock wrote meanwhile is gone,
  although that write succeeds.
\<close>

lemma pipe_resize_loses: "\<exists>s. pipe_reach s [7] [] True \<and> pipe_data (pp_buf s) = [] \<and> pp_pc s 0 = WriteTop [] 1 False"
proof -
  define big :: "u8 list" where "big = replicate 20000 0"
  obtain s s' where r: "pipe_reach s [] [] False" and p: "pp_pc s = (\<lambda>t. Out None)(0 := WriteCopy [7] 1 False 1 1)" "pp_flags s = {PIPE_LOCK}" "pb_cnt (pp_buf s) = 0"
    "pb_size (pp_buf s) = PIPE_SIZE" "pp_queue s = {}" "nbigpipe s = 0" "pp_linked s" "\<not> pp_freed s" "pb_in (pp_buf s) = 0" by (rule pipe_trace)
  define s3 where "s3 = tsleep 1 (WriteGrow big False) (set_flag PIPE_LWANT (add_busy 1 s))"
  have nb: "nbigpipe (add_busy 1 s) = nbigpipe s" by (simp add: add_busy_def)
  have n2: "pipe_can 1 (Write big False) s" "pipe_next 1 (Write big False) s = Some (s3, Quiet)" using p nb by (simp_all add: pipe_eval LIMITBIGPIPES_def s3_def big_def pipe_fields)
  have r3: "pipe_reach s3 [] [] False" using pipe_reach.step [OF r n2] by (simp add: pipe_eval)
  have p3: "pp_pc s3 0 = WriteCopy [7] 1 False 1 1" "pp_pc s3 1 = WriteGrow big False" "pp_flags s3 = {PIPE_LOCK, PIPE_LWANT}" "pp_queue s3 = {1}" "pp_buf s3 = pp_buf s"
    using p by (auto simp: s3_def pipe_fields)
  obtain f where w: "write_segs [7] 1 1 (pp_buf s3) = Some (pp_buf s3\<lparr>pb_buffer := f\<rparr>)" using p p3 by (auto simp: write_segs_def PIPE_SIZE_def)
  define s4 where "s4 = pgoto 0 (WriteTop [] 1 False) (pipeunlock (s3\<lparr>pp_buf := pp_buf s3\<lparr>pb_buffer := f, pb_in := 1, pb_cnt := 1\<rparr>\<rparr>))"
  have n3: "pipe_can 0 Run s3" "pipe_next 0 Run s3 = Some (s4, Put [7])" using p p3 w by (simp_all add: pipe_eval write_copied_def s4_def)
  have r4: "pipe_reach s4 [7] [] False" using pipe_reach.step [OF r3 n3] by (simp add: pipe_eval)
  have p4: "pp_pc s4 0 = WriteTop [] 1 False" "pp_pc s4 1 = WriteGrow big False" "pp_flags s4 = {}" "pp_queue s4 = {}" "pb_cnt (pp_buf s4) = 1" using p3 by (simp_all add: s4_def pipe_fields)
  define s5 where "s5 = pgoto 1 (WriteAlloc big False) (set_flag PIPE_LOCK s4)"
  have n4: "pipe_can 1 Run s4" "pipe_next 1 Run s4 = Some (s5, Quiet)" using p4 by (simp_all add: pipe_eval s5_def)
  have r5: "pipe_reach s5 [7] [] False" using pipe_reach.step [OF r4 n4] by (simp add: pipe_eval)
  have p5: "pp_pc s5 0 = WriteTop [] 1 False" "pp_pc s5 1 = WriteAlloc big False" "pb_cnt (pp_buf s5) = 1" using p4 by (simp_all add: s5_def pipe_fields)
  define s6 where "s6 = write_alloc 1 big False (Some (\<lambda>i. 0)) s5"
  have n5: "pipe_can 1 (Memory (Some (\<lambda>i. 0))) s5" "pipe_next 1 (Memory (Some (\<lambda>i. 0))) s5 = Some (s6, Quiet)" using p5 by (auto simp: pipe_can_def pipe_next_def quiet_def s6_def)
  have "pipe_reach s6 [7] [] True" using pipe_reach.step [OF r5 n5] p5 by (simp add: put_of_def got_of_def loses_def)
  moreover have "pipe_data (pp_buf s6) = []" "pp_pc s6 0 = WriteTop [] 1 False"
    using p5 by (simp_all add: s6_def write_alloc_def pipespace_def write_loop_def Let_def pipe_data_def pipe_fields)
  ultimately show ?thesis by blast
qed

text \<open>A write of \<open>2 ^ 31\<close> bytes or more counts as small, as \<^verbatim>\<open>orig_resid\<close> is negative, and waits for space for all of it.\<close>

lemma pipe_huge_write_sleeps:
  assumes "2 ^ 31 \<le> length bs" "length bs < 2 ^ 32" "pb_size (pp_buf s) \<le> BIG_PIPE_SIZE" "PIPE_EOF \<notin> pp_flags s"
  shows "pp_pc (write_top t bs (to_int (length bs)) False s) t = WriteSleep bs (to_int (length bs)) False \<and> t \<in> pp_queue (write_top t bs (to_int (length bs)) False s)"
proof -
  have "to_int (length bs) = int (length bs) - 2 ^ 32"
  proof -
    define k where "k = int (length bs) - 2 ^ 31"
    have e: "int (length bs) + 2 ^ 31 = k + 2 ^ 32" and "0 \<le> k" "k < 2 ^ 32" using assms(1,2) by (simp_all add: k_def)
    then have "to_int (length bs) = k - 2 ^ 31" unfolding to_int_def e by simp
    then show ?thesis by (simp add: k_def)
  qed
  then have o: "to_int (length bs) \<le> int PIPE_BUF" using assms(2) by (simp add: PIPE_BUF_def)
  have "pb_size (pp_buf s) - pb_cnt (pp_buf s) < length bs" "bs \<noteq> []" using assms(1,3) by (auto simp: BIG_PIPE_SIZE_def)
  then show ?thesis using o assms(4) by (simp add: write_top_def Let_def pipe_fields)
qed

end
