(* ===== verification/Spec2Isabelle.thy ===== *)
theory Spec2Isabelle
  imports Bpf Extent Lockf Clist Rwlock Timeout Clock_Subr Mbuf_Edit Mbuf_Pulldown Mbuf_Tag Sysv_Sem Sysv_Msg_Calls Descrip_Calls In_Cksum Pipe_Data
begin

text \<open>
  A verification library for core services of the AerieBSD kernel (\<^verbatim>\<open>src/sys\<close>).

  \<^bold>\<open>The program and the parts chosen.\<close> The repository is a complete operating system: the kernel, its drivers, the C library, the
  user programs and imported packages. The development is about the machine-independent services at the bottom of
  the kernel, which keep their own state behind a small interface and on which everything else rests: the address range
  allocator of the bus code, file descriptors, pipes, file locks, semaphores and message queues, terminal queues, kernel locks, timeouts, the calendar, and the memory buffers of the
  network stack with the packet filter that runs over them. Timeouts are driven by the clock interrupt, mbuf chains are made by
  the drivers (\<^verbatim>\<open>m_devget\<close>), rearranged by the protocols, and read in place by the packet filter; this last composition is in
  this theory, the other parts share the types of \<^verbatim>\<open>Kern_Prelude\<close> only.

  \<^bold>\<open>Theories.\<close> Names of definitions are those of the code wherever they can be.

  \<^item> \<^verbatim>\<open>Kern_Prelude\<close>: machine integers, error numbers, fact collections and lemmas on words and lists.
  \<^item> \<^verbatim>\<open>Mbuf\<close> (\<^verbatim>\<open>sys/mbuf.h\<close>): storage area, data offset and length of an mbuf, chains as lists.
  \<^item> \<^verbatim>\<open>Bpf\<close> (\<^verbatim>\<open>net/bpf_filter.c\<close>): instruction set, loads from a buffer and from a chain, interpreter, checker. An access outside the
    storage of the packet, the scratch memory or the program is a fault. Shown: accepted programs never fault and end within as many rounds
    as they have instructions, and a chain is filtered like the contiguous bytes. The locale \<^verbatim>\<open>packet_loads\<close> is the contract of the
    three loads, interpreted for both kinds of packets.
  \<^item> \<^verbatim>\<open>Extent\<close> (\<^verbatim>\<open>kern/subr_extent.c\<close>): region list, descriptors of fixed extents, all operations with their errors, sleeps and
    panics. Shown: every path of the allocating and freeing calls, and that any sequence of them refines an allocator of
    sets of numbers (locale \<^verbatim>\<open>region_allocator\<close>). The wait for a descriptor of a fixed extent ends a call; that a signal may end the wait is left out.
  \<^item> \<^verbatim>\<open>Lockf\<close> (\<^verbatim>\<open>kern/vfs_lockf.c\<close>): the lock list of a file with the queues of blocked requests, from \<^verbatim>\<open>lf_advlock\<close> down. Shown:
    granting, merging, splitting and clearing on every path, handing over, the count of locks of a user, and what \<^verbatim>\<open>F_GETLK\<close>
    reports (locale \<^verbatim>\<open>byte_lock_manager\<close>).
  \<^item> \<^verbatim>\<open>Clist\<close> (\<^verbatim>\<open>kern/tty_subr.c\<close>): ring buffers of characters with quote bits, all operations. Shown: any sequence of \<^verbatim>\<open>putc\<close> and \<^verbatim>\<open>getc\<close> behaves as on a bounded list, block
    copies and concatenation, walking, and the masked version of \<^verbatim>\<open>clrbits\<close> (locale \<^verbatim>\<open>char_queue\<close>).
  \<^item> \<^verbatim>\<open>Rwlock\<close> (\<^verbatim>\<open>kern/kern_rwlock.c\<close>): the lock word and the code of all functions as steps of any number of threads, one
    access to the word per step; \<^verbatim>\<open>rw_cas\<close> is one step, as the machines with several processors have it. Shown: an inductive invariant of all interleavings, mutual exclusion, a refinement of readers and
    writers as sets, and that no wakeup is lost.
  \<^item> \<^verbatim>\<open>Timeout\<close> (\<^verbatim>\<open>kern/kern_timeout.c\<close>): the linked circular queues as link functions, the four levels of the wheel, all operations
    and \<^verbatim>\<open>softclock\<close>. Shown: the structure of all reachable states, that a timeout fires at exactly its tick, across levels and
    wrap-around, and when \<^verbatim>\<open>softclock\<close> ends (locale \<^verbatim>\<open>queue_family\<close>).
  \<^item> \<^verbatim>\<open>Clock_Subr\<close> (\<^verbatim>\<open>kern/clock_subr.c\<close>): seconds to dates and back, with the widths of the fields. Shown: the round trip and
    agreement with the closed Gregorian formula.
  \<^item> \<^verbatim>\<open>Mbuf_Ops\<close>, \<^verbatim>\<open>Mbuf_Copy\<close>, \<^verbatim>\<open>Mbuf_Edit\<close> (\<^verbatim>\<open>kern/uipc_mbuf.c\<close>): reading, trimming, joining and pulling up; prepending, copying and
    splitting; writing into chains, making room, and packets from a device. Shown: what each does to the bytes of a chain and to
    the length in the packet header, that no write leaves the storage of an mbuf, that the loops end, and that splitting and
    joining are inverse (locale \<^verbatim>\<open>chain_split_join\<close>).
  \<^item> \<^verbatim>\<open>Mbuf_Pulldown\<close>, \<^verbatim>\<open>Mbuf_Tag\<close> (\<^verbatim>\<open>kern/uipc_mbuf2.c\<close>): bytes from the middle of a chain made contiguous, and the tags of a packet as a linked list in
    memory. Shown: \<^verbatim>\<open>m_pulldown\<close> keeps the bytes and returns storage that nobody else refers to; copying tags uses no bad pointer and leaks nothing.
  \<^item> \<^verbatim>\<open>Sysv_Sem\<close> (\<^verbatim>\<open>kern/sysv_sem.c\<close>, \<^verbatim>\<open>kern/sysv_ipc.c\<close>): the table of semaphore sets, undo structures, all calls with their errors, the
    exit of a process and the limits. Shown: an invariant of all sequences of calls that never wait for memory for an undo structure, under which no exit panics, vectors of
    operations are atomic, undoing restores all values, and identifiers of removed sets stay stale (locales \<^verbatim>\<open>ipc_ids\<close> and
    \<^verbatim>\<open>ipc_table\<close>).
  \<^item> \<^verbatim>\<open>Sysv_Msg\<close>, \<^verbatim>\<open>Sysv_Msg_Inv\<close>, \<^verbatim>\<open>Sysv_Msg_Calls\<close> (\<^verbatim>\<open>kern/sysv_msg.c\<close>): message queues with the map of segments, the pool of bytes, the headers and their free
    lists; the calls of any number of threads, cut where they sleep or move data. Shown: an inductive invariant that says who has each header
    and segment (lists in tables are the locale \<^verbatim>\<open>linked\<close>, for segments and for headers), under which no step panics and nothing leaks;
    the queues refine lists of typed messages; what sending and receiving do on every branch. The limits assumed of the configuration are \<^verbatim>\<open>msg_limits\<close>; the
    one step left out of the reachable states, \<^verbatim>\<open>revives\<close>, is shown to make a queue of freed headers.
  \<^item> \<^verbatim>\<open>Descrip\<close>, \<^verbatim>\<open>Descrip_Calls\<close> (\<^verbatim>\<open>kern/kern_descrip.c\<close>): the descriptor table of a process with its two-level bitmap, open files with their counts,
    allocation, the calls that open, duplicate and close, closing on exec and the copy of a table. Shown: the lowest free descriptor
    is found, all sequences of calls of one process with complete files keep tables and counts in order and never panic, they refine a map from descriptors to
    files, and what a copy has. Tables have up to 12800 places: from 25600 on a search of a full table leaves its bitmap
    (locale \<^verbatim>\<open>fd_restart\<close>).
  \<^item> \<^verbatim>\<open>In_Cksum\<close> (\<^verbatim>\<open>netinet/in_cksum.c\<close>, \<^verbatim>\<open>netinet/in4_cksum.c\<close>, \<^verbatim>\<open>netinet6/in6_cksum.c\<close>): the checksums over chains with their unrolled loops, byte swapping at odd
    addresses and words that straddle mbufs, for both byte orders. Shown: equality with the checksum of the contiguous bytes, with
    the pseudo headers, without overflow up to 65535 bytes, and that a stored checksum verifies.
  \<^item> \<^verbatim>\<open>Pipe\<close>, \<^verbatim>\<open>Pipe_Data\<close> (\<^verbatim>\<open>kern/sys_pipe.c\<close>): one direction of a pipe with any number of readers, writers and a closer, whose calls
    are cut at the places where they may sleep; polling, event filters and control. Shown: an inductive invariant of all interleavings
    under which no step panics and no wakeup is lost, that the pipe is a queue of bytes, that small writes are atomic, and that
    polling agrees with the calls.
  \<^item> This theory: a packet from the device gets the verdict its bytes deserve.

  Every theory has its definitions first, then the lemmas, then the properties with a concrete instance each. Where the code
  does less than its comments or its intent, the difference is a theorem or lemma of its own.

  \<^bold>\<open>Conventions.\<close> A panic, a null pointer, an access outside an object and an endless loop are values of the
  results (\<open>None\<close> or a fault), so every theorem that gives a result also says that none of these happens. Flags are sets of
  the constants of the code. Sleeping ends a call with an outcome of its own. Memory allocation, the shift of a word by its
  width or more, handlers of timeouts and copy functions of drivers are parameters. Loops that need not end are partial
  functions into \<open>option\<close>; the only fuel is the number of rounds of the packet filter, for which the length of the
  program is enough.

  \<^bold>\<open>Not modelled.\<close> In the modelled files: debugger listings, statistics, mbuf types, the ring of
  references to external storage (a mark says that there is another reference) and the freeing of mbufs; of descriptors, the
  status calls, event notes, directories and the commands of \<^verbatim>\<open>fcntl\<close> that act on the file behind the descriptor. Elsewhere: processes,
  virtual memory and context switches, whose state is that of the whole kernel and of the machine; drivers and
  machine-dependent code; file systems and protocols, which are left for later; user programs, libraries and imported packages.

  \<^bold>\<open>Plan.\<close> Next are the message buffer (\<^verbatim>\<open>kern/subr_log.c\<close>) and the calls that make a pair of pipes and note events.
\<close>

section \<open>From the device to the filter\<close>

text \<open>An mbuf as the packet filter sees it: storage, data pointer and length.\<close>

definition plain_mbuf :: "pmbuf \<Rightarrow> mbuf" where
  "plain_mbuf m = \<lparr>m_area = m_area m, m_data = m_data m, m_len = m_len m\<rparr>"

lemma plain_mbuf_simps [simp]:
  "m_bytes (plain_mbuf m) = m_bytes m" "mbuf_ok (plain_mbuf m) = mbuf_ok m" "m_len (plain_mbuf m) = m_len m"
  by (simp_all add: plain_mbuf_def m_bytes_def mbuf_ok_def)

lemma plain_chain [simp]:
  "chain_bytes (map plain_mbuf ms) = chain_bytes ms" "straddle_ok (map plain_mbuf ms) = straddle_ok ms"
  "list_all mbuf_ok (map plain_mbuf ms) = list_all mbuf_ok ms"
  by (simp_all add: chain_bytes_def comp_def list.pred_map, induction ms rule: straddle_ok.induct, auto)

text \<open>
  C3. A packet that a driver hands to \<^verbatim>\<open>m_devget\<close> and that then passes the packet filter as an mbuf chain gets the verdict that the
  program gives on the bytes in device memory, and the filter returns within as many rounds as the program has instructions, for every
  program that \<^verbatim>\<open>bpf_validate\<close> accepts and that divides by no zero constant. The packet has fewer than \<open>2 ^ 31\<close> bytes and no
  trailer encapsulation (\<^verbatim>\<open>off\<close> is 0), mbufs and clusters are available, a copy function of the driver copies, and \<^verbatim>\<open>size_t\<close> has 64 bits.
\<close>

theorem received_packet_verdict:
  assumes "pool_clusters pool" and "copies copy" and "0 < totlen" and "totlen \<le> length buf" and "totlen < 2 ^ 31"
    and f: "bpf_validate maxbuf f" "div_consts_ok f" and mach: "size_model mach = LP64" and mem: "length mem0 = BPF_MEMWORDS"
  shows "\<exists>ms v. m_devget max_linkhdr pool buf (int totlen) 0 ifp copy = Some ms
    \<and> bpf_filter (length f) mach (Some f) (Chain (map plain_mbuf ms)) wirelen 0 mem0 = Some (Return v)
    \<and> bpf_filter (length f) mach (Some f) (Buffer (take totlen buf)) wirelen (word_of_nat totlen) mem0 = Some (Return v)"
proof -
  obtain ms where ms: "m_devget max_linkhdr pool buf (int totlen) 0 ifp copy = Some ms" "ms \<noteq> []" "list_all pmbuf_ok ms"
      "chain_bytes ms = take totlen buf" "straddle_ok ms"
    using m_devget_done [OF assms(1,2,4,5), of 0 max_linkhdr ifp] assms(3) by auto
  have l: "unat (word_of_nat totlen :: u32) = totlen" using assms(5) by (intro unat_word_of_nat_below) simp
  have "list_all mbuf_ok ms" using ms(3) by (auto simp: list_all_iff pmbuf_ok_mbuf)
  then have "Bpf.chain_ok (map plain_mbuf ms)" using ms(2,5) by (simp add: Bpf.chain_ok_def)
  moreover have "length (chain_bytes ms) = totlen" using ms(4) assms(4) by simp
  ultimately have eq: "bpf_filter (length f) mach (Some f) (Chain (map plain_mbuf ms)) wirelen 0 mem0 =
      bpf_filter (length f) mach (Some f) (Buffer (take totlen buf)) wirelen (word_of_nat totlen) mem0"
    using bpf_chain_flat [of "map plain_mbuf ms" mach "length f" "Some f" wirelen mem0] mach assms(5) ms(4) by simp
  have "buffer_ok (take totlen buf, word_of_nat totlen)" using l assms(3,4) by (auto simp: buffer_ok_def unat_eq_zero [symmetric])
  then have "loads_safe (size_model mach) (Buffer (take totlen buf)) (word_of_nat totlen)" using loads_safe_buffer mach by simp
  from bpf_filter_safe [OF f mem this, of wirelen] eq ms(1) show ?thesis by auto
qed

theorem received_packet_verdict_witness:
  "\<exists>ms v. m_devget 16 cluster_pool [8, 0, 1, 2] 4 0 0 None = Some ms
    \<and> bpf_filter 4 (demo_machine LP64) (Some demo_prog) (Chain (map plain_mbuf ms)) 4 0 (replicate 16 0) = Some (Return v)"
proof -
  have "pool_clusters cluster_pool"
    by (simp add: pool_clusters_def pool_full_def pool_ok_def cluster_pool_def stale_block_def MCLBYTES_def)
  moreover have "bpf_validate 2097152 demo_prog" "div_consts_ok demo_prog" "length demo_prog = 4" by code_simp+
  ultimately show ?thesis
    using received_packet_verdict [of cluster_pool None 4 "[8, 0, 1, 2]" 2097152 demo_prog "demo_machine LP64" "replicate 16 0" 16 0 4]
    by (auto simp: copies_def demo_machine_def BPF_MEMWORDS_def)
qed

end
